(* ===== verification/Prelude.thy ===== *)
theory Prelude
  imports Main "HOL-Library.Word"
begin

unbundle bit_operations_syntax

text \<open>
  Shared vocabulary of the development: the machine integers and the flat byte memory of
  the C programs, and the generic lemmas on lists and words every component uses.

  The machine is the LP64 target of the iOS build: pointers and \<open>size_t\<close> are 64 bits,
  \<open>int\<close> and \<open>unsigned\<close> are 32 bits, integers are little endian.  An address is a
  64-bit word, so pointer arithmetic wraps exactly as the hardware's does; \<open>NULL\<close> is 0.
\<close>

section \<open>Machine types\<close>

type_synonym byte = "8 word"
type_synonym u16 = "16 word"
type_synonym u32 = "32 word"
type_synonym u64 = "64 word"
type_synonym addr = "64 word"
type_synonym memory = "addr \<Rightarrow> byte"

abbreviation (input) NULL :: addr where "NULL \<equiv> 0"

text \<open>
  \<open>mem_simps\<close> collects the equations that move loads over stores; \<open>stream_simps\<close> the
  equations of the stream layer; \<open>frame_rules\<close> the facts that an operation leaves
  something unchanged.
\<close>

named_theorems mem_simps "loads over stores"
named_theorems stream_simps "equations of the stream operations"
named_theorems frame_rules "what an operation leaves unchanged"

section \<open>Byte memory\<close>

primrec store_bytes :: "memory \<Rightarrow> addr \<Rightarrow> byte list \<Rightarrow> memory" where
  "store_bytes m a [] = m"
| "store_bytes m a (b # bs) = store_bytes (m(a := b)) (a + 1) bs"

primrec load_bytes :: "memory \<Rightarrow> addr \<Rightarrow> nat \<Rightarrow> byte list" where
  "load_bytes m a 0 = []"
| "load_bytes m a (Suc n) = m a # load_bytes m (a + 1) n"

text \<open>The byte-wise copy loop \<open>for (i = 0; i < n; i++) dst[i] = src[i]\<close>.\<close>

primrec copy_up :: "nat \<Rightarrow> addr \<Rightarrow> addr \<Rightarrow> memory \<Rightarrow> memory" where
  "copy_up 0 dst src m = m"
| "copy_up (Suc n) dst src m = copy_up n (dst + 1) (src + 1) (m(dst := m src))"

text \<open>The addresses of a region, and the wrap-around distance of an address from its start.\<close>

definition region :: "addr \<Rightarrow> nat \<Rightarrow> addr set" where
  "region a n = {x. unat (x - a) < n}"

lemma region_0 [simp]: "region a 0 = {}"
  by (simp add: region_def)

lemma mem_region_start [simp]: "a \<in> region a (Suc n)"
  by (simp add: region_def)

lemma unat_minus_Suc:
  fixes x a :: addr
  assumes "x \<noteq> a"
  shows "unat (x - a) = Suc (unat (x - (a + 1)))"
proof -
  have "x - a \<noteq> 0" using assms by simp
  then have "unat (x - a) = Suc (unat (x - a - 1))"
    by (metis Suc_pred' unat_gt_0 unat_minus_one)
  then show ?thesis by (simp add: algebra_simps)
qed

lemma region_Suc: "n < 2 ^ 64 \<Longrightarrow> region a (Suc n) = insert a (region (a + 1) n)"
proof (rule set_eqI)
  fix x :: addr
  assume n: "n < 2 ^ 64"
  show "x \<in> region a (Suc n) \<longleftrightarrow> x \<in> insert a (region (a + 1) n)"
    by (cases "x = a") (simp_all add: region_def unat_minus_Suc)
qed

lemma not_mem_region_next: "n < 2 ^ 64 \<Longrightarrow> a \<notin> region (a + 1) n"
proof -
  assume n: "n < 2 ^ 64"
  have "unat (a - (a + 1)) = 2 ^ 64 - 1"
    by (simp add: unsigned_minus_1_eq_mask mask_eq_exp_minus_1)
  then show ?thesis using n by (simp add: region_def)
qed

lemma mem_region_iff:
  assumes "n \<le> 2 ^ 64"
  shows "x \<in> region a n \<longleftrightarrow> (\<exists>i < n. x = a + of_nat i)"
proof
  assume "x \<in> region a n"
  then have "unat (x - a) < n" by (simp add: region_def)
  moreover have "x = a + of_nat (unat (x - a))" by simp
  ultimately show "\<exists>i < n. x = a + of_nat i" by blast
next
  assume "\<exists>i < n. x = a + of_nat i"
  then obtain i where i: "i < n" and x: "x = a + of_nat i" by blast
  have "unat (of_nat i :: addr) = i"
    using i assms by (simp add: unat_of_nat)
  then show "x \<in> region a n" using i x by (simp add: region_def)
qed

lemma region_mono: "m \<le> n \<Longrightarrow> region a m \<subseteq> region a n"
  by (auto simp: region_def)

lemma region_shift_subset:
  assumes "unat k + m \<le> n" "n \<le> 2 ^ 64"
  shows "region (a + k) m \<subseteq> region a n"
proof
  fix x assume "x \<in> region (a + k) m"
  then have *: "unat (x - (a + k)) < m" by (simp add: region_def)
  have "x - a = (x - (a + k)) + k" by simp
  then have "unat (x - a) \<le> unat (x - (a + k)) + unat k"
    by (metis unat_plus_if' diff_le_self le_refl)
  with * assms show "x \<in> region a n" by (simp add: region_def)
qed

lemma store_bytes_frame [frame_rules]:
  "length bs \<le> 2 ^ 64 \<Longrightarrow> x \<notin> region a (length bs) \<Longrightarrow> store_bytes m a bs x = m x"
proof (induction bs arbitrary: m a)
  case Nil
  then show ?case by simp
next
  case (Cons b bs)
  from Cons.prems have len: "length bs < 2 ^ 64" by simp
  from Cons.prems len have "x \<noteq> a" and "x \<notin> region (a + 1) (length bs)"
    by (auto simp: region_Suc)
  with Cons.IH len show ?case by simp
qed

lemma store_bytes_append:
  "store_bytes m a (xs @ ys) = store_bytes (store_bytes m a xs) (a + of_nat (length xs)) ys"
  by (induction xs arbitrary: m a) (simp_all add: algebra_simps)

lemma length_load_bytes [simp]: "length (load_bytes m a n) = n"
  by (induction n arbitrary: a) auto

lemma load_bytes_cong:
  "n \<le> 2 ^ 64 \<Longrightarrow> (\<And>x. x \<in> region a n \<Longrightarrow> m x = m' x) \<Longrightarrow> load_bytes m a n = load_bytes m' a n"
proof (induction n arbitrary: a)
  case 0
  then show ?case by simp
next
  case (Suc n)
  then have n: "n < 2 ^ 64" by simp
  have "m a = m' a" by (rule Suc.prems(2)) simp
  moreover have "load_bytes m (a + 1) n = load_bytes m' (a + 1) n"
    using Suc.IH Suc.prems n by (simp add: region_Suc)
  ultimately show ?case by simp
qed

lemma load_bytes_add:
  "load_bytes m a (i + j) = load_bytes m a i @ load_bytes m (a + of_nat i) j"
  by (induction i arbitrary: a) (simp_all add: algebra_simps)

lemma take_load_bytes: "i \<le> n \<Longrightarrow> take i (load_bytes m a n) = load_bytes m a i"
  by (metis append_eq_conv_conj le_add_diff_inverse length_load_bytes load_bytes_add)

lemma drop_load_bytes: "i \<le> n \<Longrightarrow> drop i (load_bytes m a n) = load_bytes m (a + of_nat i) (n - i)"
  by (metis append_eq_conv_conj le_add_diff_inverse length_load_bytes load_bytes_add)

lemma nth_load_bytes: "i < n \<Longrightarrow> load_bytes m a n ! i = m (a + of_nat i)"
proof (induction n arbitrary: a i)
  case 0
  then show ?case by simp
next
  case (Suc n)
  then show ?case by (cases i) (simp_all add: algebra_simps)
qed

lemma load_bytes_map: "load_bytes m a n = map (\<lambda>i. m (a + of_nat i)) [0..<n]"
  by (rule nth_equalityI) (simp_all add: nth_load_bytes)

lemma load_store_same [mem_simps]:
  "length bs \<le> 2 ^ 64 \<Longrightarrow> n = length bs \<Longrightarrow> load_bytes (store_bytes m a bs) a n = bs"
proof (induction bs arbitrary: m a n)
  case Nil
  then show ?case by simp
next
  case (Cons b bs)
  then have len: "length bs < 2 ^ 64" by simp
  have "store_bytes (m(a := b)) (a + 1) bs a = b"
    using len by (subst store_bytes_frame) (auto simp: not_mem_region_next)
  with Cons len show ?case by simp
qed

lemma load_store_disjoint [mem_simps]:
  assumes "length bs \<le> 2 ^ 64" "n \<le> 2 ^ 64" "region a n \<inter> region b (length bs) = {}"
  shows "load_bytes (store_bytes m b bs) a n = load_bytes m a n"
  using assms by (intro load_bytes_cong) (auto intro!: store_bytes_frame)

lemma copy_up_disjoint:
  assumes "n < 2 ^ 64" "region dst n \<inter> region src n = {}"
  shows "copy_up n dst src m = store_bytes m dst (load_bytes m src n)"
  using assms
proof (induction n arbitrary: dst src m)
  case 0
  then show ?case by simp
next
  case (Suc n)
  then have n: "n < 2 ^ 64" by simp
  from Suc.prems n have disj: "region (dst + 1) n \<inter> region (src + 1) n = {}"
    and src: "dst \<notin> region (src + 1) n"
    by (auto simp: region_Suc)
  have "load_bytes (m(dst := m src)) (src + 1) n = load_bytes m (src + 1) n"
    using n src by (intro load_bytes_cong) auto
  with Suc.IH [OF n disj] show ?case by (simp add: fun_upd_def)
qed

lemma copy_up_frame [frame_rules]:
  "n < 2 ^ 64 \<Longrightarrow> x \<notin> region dst n \<Longrightarrow> copy_up n dst src m x = m x"
proof (induction n arbitrary: dst src m)
  case 0
  then show ?case by simp
next
  case (Suc n)
  then show ?case by (simp add: region_Suc)
qed

section \<open>Typed loads and stores\<close>

text \<open>
  \<open>le_bytes\<close> is the little-endian image of a word, \<open>le_word\<close> reads one back.
\<close>

definition le_bytes :: "nat \<Rightarrow> 'a::len word \<Rightarrow> byte list" where
  "le_bytes n w = map (\<lambda>i. ucast (drop_bit (8 * i) w)) [0..<n]"

primrec le_word :: "byte list \<Rightarrow> 'a::len word" where
  "le_word [] = 0"
| "le_word (b # bs) = ucast b OR push_bit 8 (le_word bs)"

definition load :: "memory \<Rightarrow> addr \<Rightarrow> nat \<Rightarrow> 'a::len word" where
  "load m a n = le_word (load_bytes m a n)"

definition store :: "memory \<Rightarrow> addr \<Rightarrow> nat \<Rightarrow> 'a::len word \<Rightarrow> memory" where
  "store m a n w = store_bytes m a (le_bytes n w)"

lemma length_le_bytes [simp]: "length (le_bytes n w) = n"
  by (simp add: le_bytes_def)

lemma bit_le_word:
  "bit (le_word bs :: 'a::len word) k \<longleftrightarrow>
     k < LENGTH('a) \<and> k div 8 < length bs \<and> bit (bs ! (k div 8)) (k mod 8)"
proof (induction bs arbitrary: k)
  case Nil
  then show ?case by simp
next
  case (Cons b bs)
  show ?case
  proof (cases "k < 8")
    case True
    then show ?thesis by (auto simp: bit_or_iff bit_push_bit_iff bit_ucast_iff)
  next
    case False
    then have "k div 8 = Suc ((k - 8) div 8)" "k mod 8 = (k - 8) mod 8"
      by (simp_all add: le_div_geq le_mod_geq)
    moreover have "\<not> bit b k"
      using False by (auto dest: bit_imp_le_length)
    ultimately show ?thesis
      using False Cons.IH [of "k - 8"]
      by (auto simp: bit_or_iff bit_push_bit_iff bit_ucast_iff not_less)
  qed
qed

lemma le_word_le_bytes:
  fixes w :: "'a::len word"
  assumes "LENGTH('a) \<le> 8 * n"
  shows "le_word (le_bytes n w) = w"
proof (rule bit_word_eqI)
  fix k assume k: "k < LENGTH('a)"
  then have "k div 8 < n" using assms by auto
  then show "bit (le_word (le_bytes n w) :: 'a word) k \<longleftrightarrow> bit w k"
    using k by (simp add: bit_le_word le_bytes_def bit_ucast_iff bit_drop_bit_eq)
qed

lemma load_store_word [mem_simps]:
  fixes w :: "'a::len word"
  assumes "LENGTH('a) \<le> 8 * n" "n \<le> 2 ^ 64"
  shows "load (store m a n w) a n = w"
  using assms by (simp add: load_def store_def load_store_same le_word_le_bytes)

lemma load_store_other [mem_simps]:
  assumes "n \<le> 2 ^ 64" "k \<le> 2 ^ 64" "region a n \<inter> region b k = {}"
  shows "load (store m b k w) a n = load m a n"
  using assms by (simp add: load_def store_def load_store_disjoint)

lemma store_frame [frame_rules]:
  "n \<le> 2 ^ 64 \<Longrightarrow> x \<notin> region a n \<Longrightarrow> store m a n w x = m x"
  by (simp add: store_def store_bytes_frame)

section \<open>Bits of the masks the code uses\<close>

lemma bit_int_masks [simp]:
  "bit (7 :: int) n \<longleftrightarrow> n < 3" "bit (15 :: int) n \<longleftrightarrow> n < 4"
  "bit (63 :: int) n \<longleftrightarrow> n < 6" "bit (127 :: int) n \<longleftrightarrow> n < 7" "bit (255 :: int) n \<longleftrightarrow> n < 8"
  "bit (128 :: int) n \<longleftrightarrow> n = 7"
proof -
  have eqs: "(7 :: int) = mask 3" "(15 :: int) = mask 4" "(63 :: int) = mask 6"
    "(127 :: int) = mask 7" "(255 :: int) = mask 8" "(128 :: int) = 2 ^ 7"
    by (simp_all add: mask_eq_exp_minus_1)
  show "bit (7 :: int) n \<longleftrightarrow> n < 3" "bit (15 :: int) n \<longleftrightarrow> n < 4"
    "bit (63 :: int) n \<longleftrightarrow> n < 6" "bit (127 :: int) n \<longleftrightarrow> n < 7" "bit (255 :: int) n \<longleftrightarrow> n < 8"
    unfolding eqs bit_mask_iff by simp_all
  show "bit (128 :: int) n \<longleftrightarrow> n = 7"
    unfolding eqs bit_exp_iff by auto
qed

lemma bit_112 [simp]: "bit (112 :: int) n \<longleftrightarrow> n = 4 \<or> n = 5 \<or> n = 6"
proof -
  have eq: "(112 :: int) = push_bit 4 (mask 3)" by (simp add: push_bit_eq_mult mask_eq_exp_minus_1)
  show ?thesis unfolding eq bit_push_bit_iff_int bit_mask_iff by auto
qed

lemma bit_48 [simp]: "bit (48 :: int) n \<longleftrightarrow> n = 4 \<or> n = 5"
proof -
  have eq: "(48 :: int) = push_bit 4 (mask 2)" by (simp add: push_bit_eq_mult mask_eq_exp_minus_1)
  show ?thesis unfolding eq bit_push_bit_iff_int bit_mask_iff by auto
qed

lemma bit_16_32 [simp]: "bit (16 :: int) n \<longleftrightarrow> n = 4" "bit (32 :: int) n \<longleftrightarrow> n = 5"
proof -
  have eqs: "(16 :: int) = 2 ^ 4" "(32 :: int) = 2 ^ 5" by simp_all
  show "bit (16 :: int) n \<longleftrightarrow> n = 4" "bit (32 :: int) n \<longleftrightarrow> n = 5"
    unfolding eqs bit_exp_iff by auto
qed

lemma upt_4: "[0..<4] = [0, 1, 2, 3 :: nat]"
  by (simp add: upt_rec eval_nat_numeral)

lemma upt_8: "[0..<8] = [0, 1, 2, 3, 4, 5, 6, 7 :: nat]"
  by (simp add: upt_rec eval_nat_numeral)

lemma unat_ucast_u32 [simp]: "unat (ucast (n :: u32) :: u64) = unat n"
  by (simp add: unsigned_ucast_eq take_bit_nat_eq_self order_less_le_trans [OF unsigned_less])

lemma ucast_u32_less [simp]: "(ucast (n :: u32) :: u64) < 4294967296"
  using unsigned_less [of n, where ?'a = nat] by (simp add: word_less_nat_alt)

lemma ucast_ucast_u32 [simp]: "(ucast (ucast (n :: u32) :: u64) :: u32) = n"
  by (rule bit_word_eqI) (simp add: bit_simps)

text \<open>The words below a power of two are those with no bit above it.\<close>

lemma unat_less_exp_iff: "unat v < 2 ^ n \<longleftrightarrow> (\<forall>k \<ge> n. \<not> bit v k)" for v :: "'a::len word"
proof
  assume "unat v < 2 ^ n"
  then have *: "take_bit n (unat v) = unat v" by (simp add: take_bit_nat_eq_self_iff)
  show "\<forall>k \<ge> n. \<not> bit v k"
  proof (intro allI impI)
    fix k assume "n \<le> k"
    then have "\<not> bit (take_bit n (unat v)) k" by (simp add: bit_take_bit_iff)
    then show "\<not> bit v k" unfolding * by (auto simp: bit_unsigned_iff dest: bit_imp_le_length)
  qed
next
  assume hi: "\<forall>k \<ge> n. \<not> bit v k"
  have "take_bit n (unat v) = unat v"
    by (rule bit_eqI) (use hi in \<open>auto simp: bit_take_bit_iff bit_unsigned_iff simp flip: not_le\<close>)
  then show "unat v < 2 ^ n" by (simp add: take_bit_nat_eq_self_iff)
qed

lemma and_1_eq_0_iff: "w AND 1 = 0 \<longleftrightarrow> \<not> bit w 0" for w :: "'a::len word"
  by (simp add: and_one_eq bit_0 flip: even_iff_mod_2_eq_zero)

end
