(* ===== verification/Win_Calls.thy ===== *)
theory Win_Calls
  imports Prelude
begin

text \<open>
  The calls the Windows runner makes out of its own code (Win32, the C library and the Flutter
  engine), its state and its programs.  None of these callees is part of the repository: a program
  of the runner is a tree that stops at every call and goes on with whatever the callee answers.
  While a call is suspended the system may call back into the window procedure, which is the
  subject of \<open>Win_Machine\<close>.
\<close>

section \<open>Values\<close>

type_synonym hwnd = u64
type_synonym i32 = u32
type_synonym lresult = u64

record rect =
  rc_left :: i32
  rc_top :: i32
  rc_right :: i32
  rc_bottom :: i32

text \<open>A message; \<open>m_rect\<close> is what \<open>lparam\<close> points at where it is a \<open>RECT\<close>.\<close>

record message =
  m_id :: u32
  m_wparam :: u64
  m_lparam :: u64
  m_rect :: rect

definition WM_DESTROY :: u32 where "WM_DESTROY = 0x0002"
definition WM_SIZE :: u32 where "WM_SIZE = 0x0005"
definition WM_ACTIVATE :: u32 where "WM_ACTIVATE = 0x0006"
definition WM_FONTCHANGE :: u32 where "WM_FONTCHANGE = 0x001D"
definition WM_NCCREATE :: u32 where "WM_NCCREATE = 0x0081"
definition WM_DPICHANGED :: u32 where "WM_DPICHANGED = 0x02E0"

lemmas wm_defs = WM_DESTROY_def WM_SIZE_def WM_ACTIVATE_def WM_FONTCHANGE_def WM_NCCREATE_def WM_DPICHANGED_def

definition SWP_NOZORDER :: u32 where "SWP_NOZORDER = 0x0004"
definition SWP_NOACTIVATE :: u32 where "SWP_NOACTIVATE = 0x0010"

datatype std_file = Stdout | Stderr

text \<open>
  The calls with the arguments the runner chooses.  A pointer or handle that may be null is an
  option; \<open>CreateWindow\<close> always passes \<open>this\<close> as the creation parameter.
\<close>

datatype (plugins only: size) os_call =
    LoadLibraryA string
  | GetProcAddress u64 string
  | EnableNonClientDpiScaling hwnd
  | FreeLibrary u64
  | LoadCursor
  | GetModuleHandle
  | LoadIcon "u64 option"
  | RegisterClass
  | UnregisterClass
  | MonitorFromPoint i32 i32
  | FlutterDesktopGetDpiForMonitor "u64 option"
  | CreateWindow string i32 i32 i32 i32
  | SetWindowLongPtr hwnd
  | GetWindowLongPtr hwnd
  | DefWindowProc "hwnd option" message
  | DestroyWindow hwnd
  | PostQuitMessage i32
  | SetWindowPos hwnd i32 i32 i32 i32 u32
  | MoveWindow "hwnd option" i32 i32 i32 i32
  | SetFocus "hwnd option"
  | SetParent "hwnd option" "hwnd option"
  | GetClientRect "hwnd option"
  | GetMessage
  | TranslateMessage
  | DispatchMessage
  | New_FlutterViewController i32 i32
  | Delete_FlutterViewController u64
  | Controller_engine u64
  | Controller_view u64
  | View_GetNativeWindow "u64 option"
  | Engine_ReloadSystemFonts u64
  | HandleTopLevelWindowProc u64 hwnd message
  | GetRegistrarForPlugin "u64 option" string
  | RegisterWithRegistrar string "u64 option"
  | New_DartProject string
  | Set_dart_entrypoint_arguments "byte list list"
  | AllocConsole
  | Freopen_s string std_file
  | Fileno std_file
  | Dup2 i32 i32
  | Sync_with_stdio
  | FlutterDesktopResyncOutputStreams
  | AttachConsole
  | IsDebuggerPresent
  | CoInitializeEx
  | CoUninitialize
  | GetCommandLineW
  | CommandLineToArgvW
  | LocalFree
  | WideCharToMultiByte "u16 list" "i32 option"

text \<open>
  What a call answers.  Each caller reads the field of its own type: a number (\<open>BOOL\<close>, \<open>UINT\<close>,
  \<open>int\<close>), a pointer or handle, the pointer of a new object, a rectangle written through a pointer,
  a \<open>LRESULT\<close>, an optional one, whether the slot \<open>GWLP_USERDATA\<close> holds the window object, the
  bytes written to a buffer, the argument vector.
\<close>

record reply =
  r_num :: u32
  r_handle :: "u64 option"
  r_new :: u64
  r_rect :: rect
  r_lresult :: lresult
  r_optional :: "lresult option"
  r_this :: bool
  r_bytes :: "byte list"
  r_argv :: "u16 list list option"

section \<open>State\<close>

text \<open>
  The class whose virtual functions a call on the window object reaches: none before its
  construction and after its destruction, the base class during the destructor of the base class.
\<close>

datatype object_state = No_Object | Win32_Window | Flutter_Window

text \<open>
  The globals of \<open>win32_window.cpp\<close> and the fields of the one window object of the program, the
  local variable \<open>window\<close> of \<open>wWinMain\<close>.
\<close>

record state =
  g_active_window_count :: int
  the_instance :: bool
  class_registered :: bool
  object_class :: object_state
  quit_on_close :: bool
  window_handle :: "hwnd option"
  child_content :: "hwnd option"
  flutter_controller :: "u64 option"

section \<open>Programs\<close>

text \<open>
  Undefined behaviour: a member function called on an object that does not exist, and the two
  places that go through \<open>flutter_controller\<close> without a test.
\<close>

datatype fault = Dangling_This | Null_In_OnCreate | Null_In_FontChange

text \<open>
  A program in continuation-passing style: return, undefined behaviour, a call and what follows
  its answer, a read and a write of the state, and the head of the message loop.
\<close>

datatype prog =
    Ret lresult
  | Fault fault
  | Call os_call "reply \<Rightarrow> prog"
  | Get "state \<Rightarrow> prog"
  | Upd "state \<Rightarrow> state" prog
  | Loop prog

end
