(* ===== verification/Win_Runner.thy ===== *)
theory Win_Runner
  imports Win_Calls
begin

text \<open>
  The functions of the Windows runner (\<open>win32_window.cpp\<close>, \<open>flutter_window.cpp\<close>, \<open>utils.cpp\<close>,
  \<open>main.cpp\<close> and the plugin registration they call), each with what follows it as its last
  argument.
\<close>

section \<open>Window class\<close>

definition GetInstance :: "prog \<Rightarrow> prog" where
  "GetInstance k =
     Upd (\<lambda>s. if \<not> the_instance s then s\<lparr>the_instance := True, class_registered := False\<rparr> else s) k"

definition GetWindowClass :: "prog \<Rightarrow> prog" where
  "GetWindowClass k =
     Get (\<lambda>s.
       if \<not> class_registered s then
         Call LoadCursor (\<lambda>_.
         Call GetModuleHandle (\<lambda>hInstance.
         Call (LoadIcon (r_handle hInstance)) (\<lambda>_.
         Call RegisterClass (\<lambda>_.
         Upd (\<lambda>s. s\<lparr>class_registered := True\<rparr>) k))))
       else k)"

definition UnregisterWindowClass :: "prog \<Rightarrow> prog" where
  "UnregisterWindowClass k = Call UnregisterClass (\<lambda>_. Upd (\<lambda>s. s\<lparr>class_registered := False\<rparr>) k)"

section \<open>Helpers\<close>

text \<open>
  The arithmetic of \<open>double\<close> is the machine's: conversions from \<open>int\<close> and \<open>unsigned\<close>, the
  constant 96.0, product, quotient and the truncating conversion to \<open>int\<close>, on bit patterns.
\<close>

record fpu =
  fp_of_int :: "i32 \<Rightarrow> u64"
  fp_of_uint :: "u32 \<Rightarrow> u64"
  fp_96 :: u64
  fp_mul :: "u64 \<Rightarrow> u64 \<Rightarrow> u64"
  fp_div :: "u64 \<Rightarrow> u64 \<Rightarrow> u64"
  fp_to_int :: "u64 \<Rightarrow> i32"

definition Scale :: "fpu \<Rightarrow> i32 \<Rightarrow> u64 \<Rightarrow> i32" where
  "Scale fp source scale_factor = fp_to_int fp (fp_mul fp (fp_of_int fp source) scale_factor)"

definition EnableFullDpiSupportIfAvailable :: "hwnd \<Rightarrow> prog \<Rightarrow> prog" where
  "EnableFullDpiSupportIfAvailable hwnd k =
     Call (LoadLibraryA ''User32.dll'') (\<lambda>r.
       case r_handle r of
         None \<Rightarrow> k
       | Some user32_module \<Rightarrow>
           Call (GetProcAddress user32_module ''EnableNonClientDpiScaling'') (\<lambda>f.
             if r_handle f \<noteq> None then
               Call (EnableNonClientDpiScaling hwnd) (\<lambda>_. Call (FreeLibrary user32_module) (\<lambda>_. k))
             else k))"

definition GetClientArea :: "(rect \<Rightarrow> prog) \<Rightarrow> prog" where
  "GetClientArea k = Get (\<lambda>s. Call (GetClientRect (window_handle s)) (\<lambda>r. k (r_rect r)))"

definition SetChildContent :: "hwnd option \<Rightarrow> prog \<Rightarrow> prog" where
  "SetChildContent content k =
     Upd (\<lambda>s. s\<lparr>child_content := content\<rparr>)
     (Get (\<lambda>s. Call (SetParent content (window_handle s)) (\<lambda>_.
     GetClientArea (\<lambda>frame.
     Call (MoveWindow content (rc_left frame) (rc_top frame)
             (rc_right frame - rc_left frame) (rc_bottom frame - rc_top frame)) (\<lambda>_.
     Get (\<lambda>s. Call (SetFocus (child_content s)) (\<lambda>_. k)))))))"

definition SetQuitOnClose :: "bool \<Rightarrow> prog \<Rightarrow> prog" where
  "SetQuitOnClose b k = Upd (\<lambda>s. s\<lparr>quit_on_close := b\<rparr>) k"

section \<open>Creation and destruction\<close>

definition Win32Window_OnCreate :: "(bool \<Rightarrow> prog) \<Rightarrow> prog" where
  "Win32Window_OnCreate k = k True"

definition Win32Window_OnDestroy :: "prog \<Rightarrow> prog" where
  "Win32Window_OnDestroy k = k"

text \<open>\<open>flutter_controller = nullptr;\<close> clears the pointer before it deletes the controller.\<close>

definition FlutterWindow_OnDestroy :: "prog \<Rightarrow> prog" where
  "FlutterWindow_OnDestroy k =
     Get (\<lambda>s.
       case flutter_controller s of
         Some c \<Rightarrow>
           Upd (\<lambda>s. s\<lparr>flutter_controller := None\<rparr>)
           (Call (Delete_FlutterViewController c) (\<lambda>_. Win32Window_OnDestroy k))
       | None \<Rightarrow> Win32Window_OnDestroy k)"

definition OnDestroy :: "prog \<Rightarrow> prog" where
  "OnDestroy k =
     Get (\<lambda>s.
       case object_class s of
         No_Object \<Rightarrow> Fault Dangling_This
       | Win32_Window \<Rightarrow> Win32Window_OnDestroy k
       | Flutter_Window \<Rightarrow> FlutterWindow_OnDestroy k)"

definition Destroy :: "prog \<Rightarrow> prog" where
  "Destroy k =
     OnDestroy
     (let unregister =
        Get (\<lambda>s. if g_active_window_count s = 0 then GetInstance (UnregisterWindowClass k) else k)
      in Get (\<lambda>s.
           case window_handle s of
             Some h \<Rightarrow>
               Call (DestroyWindow h) (\<lambda>_. Upd (\<lambda>s. s\<lparr>window_handle := None\<rparr>) unregister)
           | None \<Rightarrow> unregister))"

text \<open>\<open>flutter_controller->\<dots>\<close>\<close>

definition controller :: "fault \<Rightarrow> (u64 \<Rightarrow> prog) \<Rightarrow> prog" where
  "controller f k = Get (\<lambda>s. case flutter_controller s of Some c \<Rightarrow> k c | None \<Rightarrow> Fault f)"

text \<open>\<open>flutter_controller = std::make_unique<\<dots>>(\<dots>);\<close> deletes the controller it had.\<close>

definition assign_controller :: "u64 \<Rightarrow> prog \<Rightarrow> prog" where
  "assign_controller c k =
     Get (\<lambda>s.
       Upd (\<lambda>s. s\<lparr>flutter_controller := Some c\<rparr>)
       (case flutter_controller s of
          None \<Rightarrow> k
        | Some old \<Rightarrow> Call (Delete_FlutterViewController old) (\<lambda>_. k)))"

definition RegisterPlugins :: "u64 option \<Rightarrow> prog \<Rightarrow> prog" where
  "RegisterPlugins registry k =
     Call (GetRegistrarForPlugin registry ''SharePlusWindowsPluginCApi'') (\<lambda>r1.
     Call (RegisterWithRegistrar ''SharePlusWindowsPluginCApi'' (r_handle r1)) (\<lambda>_.
     Call (GetRegistrarForPlugin registry ''UrlLauncherWindows'') (\<lambda>r2.
     Call (RegisterWithRegistrar ''UrlLauncherWindows'' (r_handle r2)) (\<lambda>_. k))))"

definition FlutterWindow_OnCreate :: "(bool \<Rightarrow> prog) \<Rightarrow> prog" where
  "FlutterWindow_OnCreate k =
     Win32Window_OnCreate (\<lambda>ok.
     if \<not> ok then k False
     else
       GetClientArea (\<lambda>frame.
       Call (New_FlutterViewController (rc_right frame - rc_left frame) (rc_bottom frame - rc_top frame)) (\<lambda>r.
       assign_controller (r_new r)
       (controller Null_In_OnCreate (\<lambda>c. Call (Controller_engine c) (\<lambda>engine.
        if r_handle engine = None then k False
        else controller Null_In_OnCreate (\<lambda>c. Call (Controller_view c) (\<lambda>view.
          if r_handle view = None then k False
          else
            controller Null_In_OnCreate (\<lambda>c. Call (Controller_engine c) (\<lambda>engine.
            RegisterPlugins (r_handle engine)
            (controller Null_In_OnCreate (\<lambda>c. Call (Controller_view c) (\<lambda>view.
             Call (View_GetNativeWindow (r_handle view)) (\<lambda>window.
             SetChildContent (r_handle window) (k True)))))))))))))))"

definition OnCreate :: "(bool \<Rightarrow> prog) \<Rightarrow> prog" where
  "OnCreate k =
     Get (\<lambda>s.
       case object_class s of
         No_Object \<Rightarrow> Fault Dangling_This
       | Win32_Window \<Rightarrow> Win32Window_OnCreate k
       | Flutter_Window \<Rightarrow> FlutterWindow_OnCreate k)"

definition CreateAndShow :: "fpu \<Rightarrow> string \<Rightarrow> u32 \<Rightarrow> u32 \<Rightarrow> u32 \<Rightarrow> u32 \<Rightarrow> (bool \<Rightarrow> prog) \<Rightarrow> prog" where
  "CreateAndShow fp title x y width height k =
     Destroy
     (GetInstance
     (GetWindowClass
     (Call (MonitorFromPoint x y) (\<lambda>monitor.
      Call (FlutterDesktopGetDpiForMonitor (r_handle monitor)) (\<lambda>dpi.
      let scale_factor = fp_div fp (fp_of_uint fp (r_num dpi)) (fp_96 fp) in
      Call GetModuleHandle (\<lambda>_.
      Call (CreateWindow title (Scale fp x scale_factor) (Scale fp y scale_factor)
              (Scale fp width scale_factor) (Scale fp height scale_factor)) (\<lambda>window.
      if r_handle window = None then k False else OnCreate k)))))))"

definition Win32Window_ctor :: "prog \<Rightarrow> prog" where
  "Win32Window_ctor k =
     Upd (\<lambda>s. s\<lparr>g_active_window_count := g_active_window_count s + 1, object_class := Win32_Window,
                quit_on_close := False, window_handle := None, child_content := None\<rparr>) k"

definition FlutterWindow_ctor :: "prog \<Rightarrow> prog" where
  "FlutterWindow_ctor k =
     Win32Window_ctor (Upd (\<lambda>s. s\<lparr>object_class := Flutter_Window, flutter_controller := None\<rparr>) k)"

definition Win32Window_dtor :: "prog \<Rightarrow> prog" where
  "Win32Window_dtor k =
     Upd (\<lambda>s. s\<lparr>g_active_window_count := g_active_window_count s - 1\<rparr>)
     (Destroy (Upd (\<lambda>s. s\<lparr>object_class := No_Object\<rparr>) k))"

text \<open>The empty body, the members (the controller, if there is one), the base class.\<close>

definition FlutterWindow_dtor :: "prog \<Rightarrow> prog" where
  "FlutterWindow_dtor k =
     Get (\<lambda>s.
       let base = Upd (\<lambda>s. s\<lparr>flutter_controller := None, object_class := Win32_Window\<rparr>) (Win32Window_dtor k) in
       case flutter_controller s of
         Some c \<Rightarrow> Call (Delete_FlutterViewController c) (\<lambda>_. base)
       | None \<Rightarrow> base)"

section \<open>Messages\<close>

definition Win32Window_MessageHandler :: "hwnd \<Rightarrow> message \<Rightarrow> (lresult \<Rightarrow> prog) \<Rightarrow> prog" where
  "Win32Window_MessageHandler hwnd m k =
     (if m_id m = WM_DESTROY then
        Upd (\<lambda>s. s\<lparr>window_handle := None\<rparr>)
        (Destroy (Get (\<lambda>s. if quit_on_close s then Call (PostQuitMessage 0) (\<lambda>_. k 0) else k 0)))
      else if m_id m = WM_DPICHANGED then
        let newRectSize = m_rect m;
            newWidth = rc_right newRectSize - rc_left newRectSize;
            newHeight = rc_bottom newRectSize - rc_top newRectSize
        in Call (SetWindowPos hwnd (rc_left newRectSize) (rc_top newRectSize) newWidth newHeight
                   (SWP_NOZORDER OR SWP_NOACTIVATE)) (\<lambda>_. k 0)
      else if m_id m = WM_SIZE then
        GetClientArea (\<lambda>rect.
        Get (\<lambda>s.
          if child_content s \<noteq> None then
            Call (MoveWindow (child_content s) (rc_left rect) (rc_top rect)
                    (rc_right rect - rc_left rect) (rc_bottom rect - rc_top rect)) (\<lambda>_. k 0)
          else k 0))
      else if m_id m = WM_ACTIVATE then
        Get (\<lambda>s. if child_content s \<noteq> None then Call (SetFocus (child_content s)) (\<lambda>_. k 0) else k 0)
      else Get (\<lambda>s. Call (DefWindowProc (window_handle s) m) (\<lambda>r. k (r_lresult r))))"

definition FlutterWindow_MessageHandler :: "hwnd \<Rightarrow> message \<Rightarrow> (lresult \<Rightarrow> prog) \<Rightarrow> prog" where
  "FlutterWindow_MessageHandler hwnd m k =
     (let rest =
        (if m_id m = WM_FONTCHANGE then
           controller Null_In_FontChange (\<lambda>c. Call (Controller_engine c) (\<lambda>engine.
             case r_handle engine of
               None \<Rightarrow> Fault Null_In_FontChange
             | Some e \<Rightarrow> Call (Engine_ReloadSystemFonts e) (\<lambda>_. Win32Window_MessageHandler hwnd m k)))
         else Win32Window_MessageHandler hwnd m k)
      in Get (\<lambda>s.
           case flutter_controller s of
             Some c \<Rightarrow>
               Call (HandleTopLevelWindowProc c hwnd m) (\<lambda>r.
                 case r_optional r of Some result \<Rightarrow> k result | None \<Rightarrow> rest)
           | None \<Rightarrow> rest))"

definition MessageHandler :: "hwnd \<Rightarrow> message \<Rightarrow> (lresult \<Rightarrow> prog) \<Rightarrow> prog" where
  "MessageHandler hwnd m k =
     Get (\<lambda>s.
       case object_class s of
         No_Object \<Rightarrow> Fault Dangling_This
       | Win32_Window \<Rightarrow> Win32Window_MessageHandler hwnd m k
       | Flutter_Window \<Rightarrow> FlutterWindow_MessageHandler hwnd m k)"

text \<open>\<open>WM_NCCREATE\<close> carries the creation parameter, which is the window object.\<close>

definition WndProc :: "hwnd \<Rightarrow> message \<Rightarrow> (lresult \<Rightarrow> prog) \<Rightarrow> prog" where
  "WndProc window m k =
     (if m_id m = WM_NCCREATE then
        Call (SetWindowLongPtr window) (\<lambda>_.
        EnableFullDpiSupportIfAvailable window
        (Get (\<lambda>s.
          if object_class s = No_Object then Fault Dangling_This
          else
            Upd (\<lambda>s. s\<lparr>window_handle := Some window\<rparr>)
            (Call (DefWindowProc (Some window) m) (\<lambda>r. k (r_lresult r))))))
      else
        Call (GetWindowLongPtr window) (\<lambda>that.
          if r_this that then MessageHandler window m k
          else Call (DefWindowProc (Some window) m) (\<lambda>r. k (r_lresult r))))"

section \<open>Console and command line\<close>

definition CreateAndAttachConsole :: "prog \<Rightarrow> prog" where
  "CreateAndAttachConsole k =
     Call AllocConsole (\<lambda>r.
       if r_num r \<noteq> 0 then
         let resync = Call Sync_with_stdio (\<lambda>_. Call FlutterDesktopResyncOutputStreams (\<lambda>_. k));
             err =
               Call (Freopen_s ''CONOUT$'' Stderr) (\<lambda>e.
                 if r_num e \<noteq> 0 then Call (Fileno Stdout) (\<lambda>fd. Call (Dup2 (r_num fd) 2) (\<lambda>_. resync))
                 else resync)
         in Call (Freopen_s ''CONOUT$'' Stdout) (\<lambda>e.
              if r_num e \<noteq> 0 then Call (Fileno Stdout) (\<lambda>fd. Call (Dup2 (r_num fd) 1) (\<lambda>_. err))
              else err)
       else k)"

text \<open>What a call that writes \<open>bs\<close> into a string of \<open>n\<close> zero bytes leaves there.\<close>

definition overwrite :: "nat \<Rightarrow> byte list \<Rightarrow> byte list" where
  "overwrite n bs = take n (bs @ replicate (n - length bs) 0)"

definition string_max_size :: u64 where "string_max_size = 2 ^ 63 - 1"

definition Utf8FromUtf16 :: "u16 list option \<Rightarrow> (byte list \<Rightarrow> prog) \<Rightarrow> prog" where
  "Utf8FromUtf16 utf16_string k =
     (case utf16_string of
        None \<Rightarrow> k []
      | Some str \<Rightarrow>
          Call (WideCharToMultiByte str None) (\<lambda>r.
            let target_length = r_num r in
            if target_length = 0 \<or> string_max_size < scast target_length then k []
            else
              Call (WideCharToMultiByte str (Some target_length)) (\<lambda>r.
                if r_num r = 0 then k [] else k (overwrite (unat target_length) (r_bytes r)))))"

primrec push_arguments :: "u16 list list \<Rightarrow> byte list list \<Rightarrow> (byte list list \<Rightarrow> prog) \<Rightarrow> prog" where
  "push_arguments [] acc k = k acc"
| "push_arguments (arg # args) acc k =
     Utf8FromUtf16 (Some arg) (\<lambda>str. push_arguments args (acc @ [str]) k)"

definition GetCommandLineArguments :: "(byte list list \<Rightarrow> prog) \<Rightarrow> prog" where
  "GetCommandLineArguments k =
     Call GetCommandLineW (\<lambda>_.
     Call CommandLineToArgvW (\<lambda>r.
       case r_argv r of
         None \<Rightarrow> k []
       | Some argv \<Rightarrow>
           push_arguments (drop 1 argv) [] (\<lambda>command_line_arguments.
             Call LocalFree (\<lambda>_. k command_line_arguments))))"

section \<open>The program\<close>

text \<open>One round of the message loop, which goes on with \<open>k\<close> behind it.\<close>

definition message_loop :: "prog \<Rightarrow> prog" where
  "message_loop k =
     Call GetMessage (\<lambda>r.
       if r_num r \<noteq> 0 then Call TranslateMessage (\<lambda>_. Call DispatchMessage (\<lambda>_. Loop k)) else k)"

definition EXIT_SUCCESS :: lresult where "EXIT_SUCCESS = 0"
definition EXIT_FAILURE :: lresult where "EXIT_FAILURE = 1"

definition run_window :: "fpu \<Rightarrow> prog" where
  "run_window fp =
     FlutterWindow_ctor
     (CreateAndShow fp ''tekk_gram'' 10 10 1280 720 (\<lambda>ok.
      if \<not> ok then FlutterWindow_dtor (Ret EXIT_FAILURE)
      else
        SetQuitOnClose True
        (Loop (Call CoUninitialize (\<lambda>_. FlutterWindow_dtor (Ret EXIT_SUCCESS))))))"

definition wWinMain :: "fpu \<Rightarrow> prog" where
  "wWinMain fp =
     (let run =
        Call CoInitializeEx (\<lambda>_.
        Call (New_DartProject ''data'') (\<lambda>_.
        GetCommandLineArguments (\<lambda>args.
        Call (Set_dart_entrypoint_arguments args) (\<lambda>_.
        run_window fp))))
      in Call AttachConsole (\<lambda>a.
           if r_num a = 0 then
             Call IsDebuggerPresent (\<lambda>d. if r_num d \<noteq> 0 then CreateAndAttachConsole run else run)
           else run))"

definition initial_state :: state where
  "initial_state =
     \<lparr>g_active_window_count = 0, the_instance = False, class_registered = False, object_class = No_Object,
      quit_on_close = False, window_handle = None, child_content = None, flutter_controller = None\<rparr>"

end
