(* ===== verification/Win_Machine.thy ===== *)
theory Win_Machine
  imports Win_Runner
begin

text \<open>
  The runner inside the system that calls it back.  A configuration is a stack: programs of the
  runner, each suspended in a call during which the system runs the window procedure on top of it.
  Which messages arrive, in which call, how deeply nested and with what answers is free, within
  what the Windows documentation promises: a window is created, told so by \<open>WM_NCCREATE\<close> and
  destroyed once, the slot \<open>GWLP_USERDATA\<close> of a window is null until it is set, and a window that
  has got \<open>WM_DESTROY\<close> is gone when the call in which it got it returns.

  Below the machine is a proof system for it: \<open>good\<close> is the precondition under which a program
  keeps the invariant \<open>window_inv\<close> at each of its calls, relying on what callbacks may change, and
  \<open>good_reachable\<close> shows that it is sound.
\<close>

section \<open>The machine\<close>

text \<open>The windows of the program that exist, and those whose slot holds the window object.\<close>

record windows =
  live :: "hwnd set"
  user_data :: "hwnd set"

text \<open>A call to \<open>CreateWindow\<close> creates at most one window; \<open>Creating\<close> while it gets \<open>WM_NCCREATE\<close>.\<close>

datatype birth = No_Window | Creating hwnd | Created

text \<open>
  A frame runs a program or is suspended in a call, with the windows that have got \<open>WM_DESTROY\<close>
  during the call.
\<close>

datatype frame = Run prog | In os_call "reply \<Rightarrow> prog" "hwnd set" birth

definition creates :: "os_call \<Rightarrow> bool" where
  "creates c \<longleftrightarrow> (case c of CreateWindow t x y w h \<Rightarrow> True | _ \<Rightarrow> False)"

definition slot_set :: "os_call \<Rightarrow> windows \<Rightarrow> windows" where
  "slot_set c w = (case c of SetWindowLongPtr h \<Rightarrow> w\<lparr>user_data := insert h (user_data w)\<rparr> | _ \<Rightarrow> w)"

definition destroyed_by :: "os_call \<Rightarrow> hwnd set" where
  "destroyed_by c = (case c of DestroyWindow h \<Rightarrow> {h} | _ \<Rightarrow> {})"

definition answers :: "windows \<Rightarrow> os_call \<Rightarrow> reply \<Rightarrow> bool" where
  "answers w c r \<longleftrightarrow>
     (case c of GetWindowLongPtr h \<Rightarrow> r_this r = (h \<in> live w \<and> h \<in> user_data w) | _ \<Rightarrow> True)"

definition gone :: "hwnd set \<Rightarrow> windows \<Rightarrow> windows" where
  "gone H w = w\<lparr>live := live w - H\<rparr>"

text \<open>The windows being destroyed or created in the calls of the stack.\<close>

fun born :: "birth \<Rightarrow> hwnd set" where
  "born (Creating h) = {h}"
| "born _ = {}"

fun dying :: "frame list \<Rightarrow> hwnd set" where
  "dying [] = {}"
| "dying (Run p # fs) = dying fs"
| "dying (In c k D b # fs) = D \<union> dying fs"

fun birth_done :: "birth \<Rightarrow> birth" where
  "birth_done No_Window = No_Window"
| "birth_done _ = Created"

text \<open>One step; \<open>quiet\<close> says during which calls no message is delivered.\<close>

inductive step ::
  "(os_call \<Rightarrow> bool) \<Rightarrow> windows \<times> state \<times> frame list \<Rightarrow> windows \<times> state \<times> frame list \<Rightarrow> bool"
  for quiet where
  step_get: "step quiet (w, s, Run (Get f) # fs) (w, s, Run (f s) # fs)"
| step_upd: "step quiet (w, s, Run (Upd g p) # fs) (w, g s, Run p # fs)"
| step_loop: "step quiet (w, s, Run (Loop k) # fs) (w, s, Run (message_loop k) # fs)"
| step_call: "step quiet (w, s, Run (Call c k) # fs) (slot_set c w, s, In c k {} No_Window # fs)"
| step_create:
    "creates c \<Longrightarrow> h \<notin> live w \<Longrightarrow> m_id m = WM_NCCREATE \<Longrightarrow>
     step quiet (w, s, In c k D No_Window # fs)
       (w\<lparr>live := insert h (live w), user_data := user_data w - {h}\<rparr>, s,
        Run (WndProc h m Ret) # In c k D (Creating h) # fs)"
| step_message:
    "\<not> quiet c \<Longrightarrow> m_id m \<noteq> WM_NCCREATE \<Longrightarrow> m_id m \<noteq> WM_DESTROY \<Longrightarrow>
     step quiet (w, s, In c k D b # fs) (w, s, Run (WndProc h m Ret) # In c k D b # fs)"
| step_destroy:
    "\<not> quiet c \<Longrightarrow> m_id m = WM_DESTROY \<Longrightarrow> h \<in> live w \<Longrightarrow> h \<notin> D \<union> dying fs \<Longrightarrow>
     step quiet (w, s, In c k D b # fs) (w, s, Run (WndProc h m Ret) # In c k (insert h D) b # fs)"
| step_return:
    "step quiet (w, s, Run (Ret v) # In c k D b # fs) (w, s, In c k D (birth_done b) # fs)"
| step_reply:
    "answers (gone D w) c r \<Longrightarrow>
     step quiet (w, s, In c k D b # fs) (gone (D \<union> destroyed_by c) w, s, Run (k r) # fs)"

inductive_cases step_runE: "step quiet (w, s, Run p # fs) cfg"
inductive_cases step_inE: "step quiet (w, s, In c k D b # fs) cfg"
inductive_simps step_ret_simp: "step quiet (w, s, Run (Ret v) # fs) cfg"
inductive_simps step_fault_simp: "step quiet (w, s, Run (Fault f) # fs) cfg"

inductive reachable :: "(os_call \<Rightarrow> bool) \<Rightarrow> prog \<Rightarrow> windows \<times> state \<times> frame list \<Rightarrow> bool"
  for quiet p where
  reachable_start: "reachable quiet p (\<lparr>live = {}, user_data = {}\<rparr>, initial_state, [Run p])"
| reachable_step: "reachable quiet p cfg \<Longrightarrow> step quiet cfg cfg' \<Longrightarrow> reachable quiet p cfg'"

section \<open>The invariant\<close>

definition ours :: "windows \<Rightarrow> hwnd set" where
  "ours w = live w \<inter> user_data w"

text \<open>
  The window object exists as long as a window points at it; it points back, except at a window
  in \<open>E\<close>, which is being created or destroyed; and there is one such window at most.
\<close>

definition window_inv :: "windows \<Rightarrow> state \<Rightarrow> hwnd set \<Rightarrow> bool" where
  "window_inv w s E \<longleftrightarrow>
     (\<forall>h \<in> ours w. h \<notin> E \<longrightarrow> window_handle s = Some h) \<and>
     (ours w \<noteq> {} \<longrightarrow> object_class s \<noteq> No_Object) \<and>
     (\<forall>h \<in> ours w. \<forall>h' \<in> ours w. h = h')"

text \<open>When a call may be made.\<close>

definition call_ok :: "os_call \<Rightarrow> windows \<Rightarrow> state \<Rightarrow> hwnd set \<Rightarrow> bool" where
  "call_ok c w s E \<longleftrightarrow>
     (case c of
        CreateWindow t x y wd ht \<Rightarrow>
          class_registered s \<and> window_handle s = None \<and> ours w = {} \<and> E = {} \<and> object_class s \<noteq> No_Object
      | UnregisterClass \<Rightarrow> g_active_window_count s = 0
      | PostQuitMessage n \<Rightarrow> quit_on_close s
      | DestroyWindow h \<Rightarrow> window_handle s = Some h \<and> E = {}
      | SetWindowLongPtr h \<Rightarrow> h \<in> E \<and> ours w = {} \<and> object_class s \<noteq> No_Object
      | _ \<Rightarrow> True)"

text \<open>What the callbacks inside a call may change.\<close>

definition kept :: "state \<Rightarrow> state \<Rightarrow> bool" where
  "kept s s' \<longleftrightarrow>
     object_class s' = object_class s \<and> g_active_window_count s' = g_active_window_count s \<and>
     quit_on_close s' = quit_on_close s \<and>
     (class_registered s' = class_registered s \<or> g_active_window_count s = 0) \<and>
     (flutter_controller s' = flutter_controller s \<or> flutter_controller s' = None)"

text \<open>No callback creates a window; \<open>D\<close> has got \<open>WM_DESTROY\<close> from one of them.\<close>

definition rely0 :: "hwnd set \<Rightarrow> windows \<Rightarrow> state \<Rightarrow> windows \<Rightarrow> state \<Rightarrow> bool" where
  "rely0 D w s w' s' \<longleftrightarrow>
     kept s s' \<and> live w' \<subseteq> live w \<and> user_data w' = user_data w \<and>
     (window_handle s' = window_handle s \<or> window_handle s' = None) \<and>
     (\<forall>h \<in> ours w'. h \<notin> D \<longrightarrow> window_handle s = Some h \<longrightarrow> window_handle s' = Some h)"

text \<open>Inside \<open>CreateWindow\<close> the window appears with \<open>WM_NCCREATE\<close>.\<close>

definition rely ::
  "(os_call \<Rightarrow> bool) \<Rightarrow> os_call \<Rightarrow> birth \<Rightarrow> hwnd set \<Rightarrow> windows \<Rightarrow> state \<Rightarrow> windows \<Rightarrow> state \<Rightarrow> bool" where
  "rely quiet c b D w s w' s' \<longleftrightarrow>
     (if creates c \<and> b \<noteq> No_Window then kept s s'
      else if quiet c then w' = w \<and> s' = s
      else rely0 D w s w' s')"

section \<open>Programs that keep the invariant\<close>

definition loop_inv :: "windows \<Rightarrow> state \<Rightarrow> bool" where
  "loop_inv w s \<longleftrightarrow>
     window_inv w s {} \<and> object_class s = Flutter_Window \<and> g_active_window_count s = 1 \<and> quit_on_close s"

text \<open>
  The faults a program may end in: \<open>WM_FONTCHANGE\<close> is handled through the controller without a
  test, and so goes \<open>OnCreate\<close>, unless nothing is delivered while it uses the controller.
\<close>

definition quiet_setup :: "(os_call \<Rightarrow> bool) \<Rightarrow> bool" where
  "quiet_setup quiet \<longleftrightarrow>
     (\<forall>c. quiet (Controller_engine c) \<and> quiet (Controller_view c)) \<and>
     (\<forall>r n. quiet (GetRegistrarForPlugin r n) \<and> quiet (RegisterWithRegistrar n r))"

definition may_fault :: "(os_call \<Rightarrow> bool) \<Rightarrow> fault \<Rightarrow> bool" where
  "may_fault quiet f \<longleftrightarrow> f = Null_In_FontChange \<or> f = Null_In_OnCreate \<and> \<not> quiet_setup quiet"

text \<open>An assignment may end the object only when no window points at it.\<close>

primrec good ::
  "(os_call \<Rightarrow> bool) \<Rightarrow> hwnd set \<Rightarrow> (windows \<Rightarrow> state \<Rightarrow> bool) \<Rightarrow> prog \<Rightarrow> windows \<Rightarrow> state \<Rightarrow> bool" where
  "good quiet E Q (Ret v) = Q"
| "good quiet E Q (Fault f) = (\<lambda>w s. may_fault quiet f)"
| "good quiet E Q (Call c k) =
     (\<lambda>w s. call_ok c w s E \<and> window_inv (slot_set c w) s E \<and>
        (\<forall>r w' s'. rely quiet c Created {} (slot_set c w) s w' s' \<and> window_inv w' s' E \<and> answers w' c r \<longrightarrow>
           good quiet E Q (k r) (gone (destroyed_by c) w') s'))"
| "good quiet E Q (Get f) = (\<lambda>w s. good quiet E Q (f s) w s)"
| "good quiet E Q (Upd g p) =
     (\<lambda>w s. (ours w \<noteq> {} \<and> object_class s \<noteq> No_Object \<longrightarrow> object_class (g s) \<noteq> No_Object) \<and>
        good quiet E Q p w (g s))"
| "good quiet E Q (Loop k) =
     (\<lambda>w s. E = {} \<and> loop_inv w s \<and> (\<forall>w' s'. loop_inv w' s' \<longrightarrow> good quiet E Q k w' s'))"

text \<open>
  The suspended frames below a program that ends in \<open>Q\<close>: each goes on well from every state its
  callbacks can have left.
\<close>

inductive stack_ok ::
  "(os_call \<Rightarrow> bool) \<Rightarrow> (windows \<Rightarrow> state \<Rightarrow> bool) \<Rightarrow> frame list \<Rightarrow> (windows \<Rightarrow> state \<Rightarrow> bool) \<Rightarrow> hwnd set \<Rightarrow> bool"
  for quiet end_ok where
  stack_nil: "stack_ok quiet end_ok [] end_ok {}"
| stack_in:
    "stack_ok quiet end_ok fs Q E \<Longrightarrow> dying fs \<subseteq> E \<Longrightarrow>
     creates c \<longrightarrow> E = {} \<and> ours w0 = {} \<and> object_class s0 \<noteq> No_Object \<Longrightarrow>
     b \<noteq> No_Window \<longrightarrow> creates c \<Longrightarrow> quiet c \<longrightarrow> D = {} \<Longrightarrow>
     \<forall>r w' s'. rely quiet c Created {} w0 s0 w' s' \<and> window_inv w' s' E \<and> answers w' c r \<longrightarrow>
        good quiet E Q (k r) (gone (destroyed_by c) w') s' \<Longrightarrow>
     stack_ok quiet end_ok (In c k D b # fs)
       (\<lambda>w s. rely quiet c b D w0 s0 w s \<and> window_inv w s (E \<union> D)) (E \<union> D \<union> born b)"

inductive_cases stack_inE: "stack_ok quiet end_ok (In c k D b # fs) Q E"

fun config_ok :: "(os_call \<Rightarrow> bool) \<Rightarrow> (windows \<Rightarrow> state \<Rightarrow> bool) \<Rightarrow> windows \<times> state \<times> frame list \<Rightarrow> bool" where
  "config_ok quiet end_ok (w, s, []) = False"
| "config_ok quiet end_ok (w, s, Run p # fs) =
     (\<exists>Q E. stack_ok quiet end_ok fs Q E \<and> good quiet E Q p w s)"
| "config_ok quiet end_ok (w, s, In c k D b # fs) =
     (\<exists>Q E. stack_ok quiet end_ok (In c k D b # fs) Q E \<and> Q w s \<and> born b = {})"

end
