(* ===== verification/Win_Callbacks.thy ===== *)
theory Win_Callbacks
  imports Win_Machine
begin

text \<open>
  The window procedure keeps the invariant of the machine whatever message it handles: the
  relations between the states before and after a call, the rules for calls, and one lemma per
  function a callback can reach.
\<close>

section \<open>Relations between states\<close>

lemma kept_refl [simp]: "kept s s" by (simp add: kept_def)

lemma kept_trans: "kept s s' \<Longrightarrow> kept s' s'' \<Longrightarrow> kept s s''" by (auto simp: kept_def)

lemma rely0_refl [simp]: "rely0 D w s w s" by (simp add: rely0_def)

lemma ours_mono: "live w' \<subseteq> live w \<Longrightarrow> user_data w' = user_data w \<Longrightarrow> ours w' \<subseteq> ours w"
  by (auto simp: ours_def)

lemma rely0_ours: "rely0 D w s w' s' \<Longrightarrow> ours w' \<subseteq> ours w"
  by (auto simp: rely0_def ours_def)

lemma rely0_trans: "rely0 D w s w' s' \<Longrightarrow> rely0 D' w' s' w'' s'' \<Longrightarrow> rely0 (D \<union> D') w s w'' s''"
  using rely0_ours [of D' w' s' w'' s''] by (auto simp: rely0_def intro: kept_trans)

lemma rely0_weaken: "rely0 D w s w' s' \<Longrightarrow> D \<subseteq> D' \<Longrightarrow> rely0 D' w s w' s'"
  by (auto simp: rely0_def)

lemma ours_gone [simp]: "ours (gone H w) = ours w - H" by (auto simp: ours_def gone_def)

lemma gone_none [simp]: "gone {} w = w" by (simp add: gone_def)

lemma gone_gone: "gone H (gone G w) = gone (G \<union> H) w" by (simp add: gone_def set_diff_eq conj_assoc)

lemma rely0_gone: "rely0 D w s w' s' \<Longrightarrow> rely0 {} w s (gone (D \<union> H) w') s'"
  by (auto simp: rely0_def ours_def gone_def)

lemma window_inv_gone: "window_inv w s (E \<union> D) \<Longrightarrow> window_inv (gone (D \<union> H) w) s E"
  by (auto simp: window_inv_def)

lemma window_inv_mono: "window_inv w s E \<Longrightarrow> E \<subseteq> E' \<Longrightarrow> window_inv w s E'"
  by (auto simp: window_inv_def)

lemma window_inv_rely0:
  assumes "window_inv w s E" "rely0 {} w s w' s'"
  shows "window_inv w' s' E"
proof -
  have o: "ours w' \<subseteq> ours w" using assms(2) by (rule rely0_ours)
  have "object_class s' = object_class s" using assms(2) by (simp add: rely0_def kept_def)
  moreover have "window_handle s' = Some h" if "h \<in> ours w'" "h \<notin> E" for h
    using that o assms by (simp add: window_inv_def rely0_def subset_iff)
  ultimately show ?thesis using assms(1) o unfolding window_inv_def by (metis subsetD subset_empty)
qed

lemma rely_kept: "rely quiet c b D w s w' s' \<Longrightarrow> kept s s'"
  by (auto simp: rely_def rely0_def split: if_splits)

lemma rely_reply:
  assumes "rely quiet c b D w s w' s'" "quiet c \<longrightarrow> D = {}"
  shows "rely quiet c Created {} w s (gone D w') s'"
  using assms rely0_gone [of D w s w' s' "{}"] rely_kept [OF assms(1)]
  by (auto simp: rely_def split: if_splits)

lemma good_mono: "good quiet E Q p w s \<Longrightarrow> \<forall>w s. Q w s \<longrightarrow> Q' w s \<Longrightarrow> good quiet E Q' p w s"
  by (induction p arbitrary: w s) auto

section \<open>Rules for calls\<close>

lemmas call_defs = creates_def slot_set_def destroyed_by_def call_ok_def

definition plain :: "os_call \<Rightarrow> bool" where
  "plain c \<longleftrightarrow>
     \<not> creates c \<and> (\<forall>w. slot_set c w = w) \<and> destroyed_by c = {}"

definition stable :: "(windows \<Rightarrow> state \<Rightarrow> bool) \<Rightarrow> bool" where
  "stable P \<longleftrightarrow> (\<forall>w s w' s'. P w s \<longrightarrow> rely0 {} w s w' s' \<longrightarrow> P w' s')"

lemma good_call:
  assumes "plain c" "call_ok c w s E" "stable P" "P w s" "\<And>w s. P w s \<Longrightarrow> window_inv w s E"
    and "\<And>r w s. P w s \<Longrightarrow> answers w c r \<Longrightarrow> good quiet E Q (k r) w s"
  shows "good quiet E Q (Call c k) w s"
proof -
  have "good quiet E Q (k r) w' s'"
    if r: "rely quiet c Created {} w s w' s'" and a: "answers w' c r" for r w' s'
  proof (intro assms(6) a)
    have "rely0 {} w s w' s'" using r assms(1) by (auto simp: rely_def plain_def split: if_splits)
    then show "P w' s'" using assms(3,4) unfolding stable_def by blast
  qed
  then show ?thesis using assms(1,2,4,5) by (simp add: plain_def)
qed

text \<open>Inside a callback: a call that is not special keeps what the callback has to show at its end.\<close>

definition callback_inv ::
  "hwnd set \<Rightarrow> windows \<Rightarrow> state \<Rightarrow> hwnd set \<Rightarrow> windows \<Rightarrow> state \<Rightarrow> bool" where
  "callback_inv D w0 s0 E w s \<longleftrightarrow> rely0 D w0 s0 w s \<and> window_inv w s E"

lemma callback_start: "window_inv w s E \<Longrightarrow> callback_inv D w s E w s"
  by (simp add: callback_inv_def)

lemma callback_stable: "stable (callback_inv D w0 s0 E)"
  using rely0_trans [where D = D and D' = "{}"] window_inv_rely0
  unfolding stable_def callback_inv_def by (metis sup_bot_right)

lemma good_callback:
  assumes "plain c \<and> call_ok c w s E" "callback_inv D w0 s0 E w s"
    and "\<And>r w s. callback_inv D w0 s0 E w s \<Longrightarrow> good quiet E Q (k r) w s"
  shows "good quiet E Q (Call c k) w s"
  by (rule good_call [of c w s E "callback_inv D w0 s0 E"])
    (use assms callback_stable in \<open>auto simp: callback_inv_def\<close>)

lemmas plain_simps = plain_def call_defs

lemma handler_other:
  assumes m: "m_id m \<noteq> WM_DESTROY" and w: "callback_inv {} w0 s0 E w s"
    and k: "\<And>v w s. callback_inv {} w0 s0 E w s \<Longrightarrow> good quiet E Q (k v) w s"
  shows "good quiet E Q (Win32Window_MessageHandler h m k) w s"
proof -
  note call = good_callback [where D = "{}" and ?w0.0 = w0 and ?s0.0 = s0]
  have p: "plain c \<and> call_ok c w s E"
    if "c \<in> {SetWindowPos a1 a2 a3 a4 a5 a6, GetClientRect b, MoveWindow b b1 b2 b3 b4, SetFocus b, DefWindowProc b m}"
    for c a1 a2 a3 a4 a5 a6 b b1 b2 b3 b4 w s
    using that by (auto simp: plain_simps)
  have size: "good quiet E Q (Get (\<lambda>s. if child_content s \<noteq> None
      then Call (MoveWindow (child_content s) a1 a2 a3 a4) (\<lambda>_. k 0) else k 0)) w s"
    if "callback_inv {} w0 s0 E w s" for a1 a2 a3 a4 w s
    using that k by (auto simp del: good.simps(3) intro!: call [OF p])
  consider "m_id m = WM_DPICHANGED" | "m_id m = WM_SIZE" | "m_id m = WM_ACTIVATE"
    | "m_id m \<notin> {WM_DESTROY, WM_DPICHANGED, WM_SIZE, WM_ACTIVATE}"
    using m by auto
  then show ?thesis
  proof cases
    case 1
    then show ?thesis
      using m by (simp add: Win32Window_MessageHandler_def Let_def del: good.simps) (intro call p w k, auto)
  next
    case 2
    then have "Win32Window_MessageHandler h m k =
        GetClientArea (\<lambda>rect. Get (\<lambda>s. if child_content s \<noteq> None
          then Call (MoveWindow (child_content s) (rc_left rect) (rc_top rect)
            (rc_right rect - rc_left rect) (rc_bottom rect - rc_top rect)) (\<lambda>_. k 0) else k 0))"
      by (simp add: Win32Window_MessageHandler_def wm_defs)
    then show ?thesis
      by (simp only: GetClientArea_def good.simps(4)) (rule call [OF p w], simp, rule size)
  next
    case 3
    then show ?thesis
      using m w k by (auto simp: Win32Window_MessageHandler_def wm_defs simp del: good.simps(3) intro!: call [OF p])
  next
    case 4
    then show ?thesis
      using m by (simp add: Win32Window_MessageHandler_def del: good.simps(3)) (rule call [OF p w], auto intro: k)
  qed
qed

text \<open>The same with what \<open>WM_DESTROY\<close> leaves: an object without a window.\<close>

definition closed :: "(windows \<Rightarrow> state \<Rightarrow> bool) \<Rightarrow> windows \<Rightarrow> state \<Rightarrow> bool" where
  "closed P w s \<longleftrightarrow> P w s \<and> window_handle s = None \<and> object_class s \<noteq> No_Object"

lemma closed_stable: "stable P \<Longrightarrow> stable (closed P)"
  by (auto simp: stable_def closed_def rely0_def kept_def)

lemma good_closed:
  assumes "plain c \<and> call_ok c w s E" "closed (callback_inv D w0 s0 E) w s"
    and "\<And>r w s. closed (callback_inv D w0 s0 E) w s \<Longrightarrow> good quiet E Q (k r) w s"
  shows "good quiet E Q (Call c k) w s"
  by (rule good_call [of c w s E "closed (callback_inv D w0 s0 E)"])
    (use assms closed_stable [OF callback_stable] in \<open>auto simp: callback_inv_def closed_def\<close>)

lemma closed_upd:
  assumes "closed (callback_inv D w0 s0 E) w s" "kept s s'" "window_handle s' = window_handle s"
  shows "closed (callback_inv D w0 s0 E) w s'"
proof -
  have "kept s0 s'" using assms(1,2) by (auto simp: closed_def callback_inv_def rely0_def intro: kept_trans)
  moreover have "object_class s' = object_class s" using assms(2) by (simp add: kept_def)
  ultimately show ?thesis
    using assms(1,3) by (auto simp: closed_def callback_inv_def rely0_def window_inv_def)
qed

lemma unregister_closed:
  assumes w: "closed (callback_inv D w0 s0 E) w s"
    and k: "\<And>w s. closed (callback_inv D w0 s0 E) w s \<Longrightarrow> good quiet E Q k w s"
  shows "good quiet E Q (Get (\<lambda>s. if g_active_window_count s = 0 then GetInstance (UnregisterWindowClass k) else k)) w s"
proof (cases "g_active_window_count s = 0")
  case True
  let ?P = "closed (callback_inv D w0 s0 E)"
  let ?s = "if \<not> the_instance s then s\<lparr>the_instance := True, class_registered := False\<rparr> else s"
  have z0: "g_active_window_count s' = 0" if "?P w' s'" for w' s'
  proof -
    have "g_active_window_count s' = g_active_window_count s0" "g_active_window_count s = g_active_window_count s0"
      using that w by (simp_all add: closed_def callback_inv_def rely0_def kept_def)
    then show ?thesis using True by simp
  qed
  have "?P w ?s" using True by (intro closed_upd [OF w]) (auto simp: kept_def)
  then have "good quiet E Q (Call UnregisterClass (\<lambda>_. Upd (\<lambda>s. s\<lparr>class_registered := False\<rparr>) k)) w ?s"
  proof (rule good_closed [rotated])
    fix w' s' assume p: "?P w' s'"
    have "?P w' (s'\<lparr>class_registered := False\<rparr>)"
      using z0 [OF p] by (intro closed_upd [OF p]) (auto simp: kept_def)
    then show "good quiet E Q (Upd (\<lambda>s. s\<lparr>class_registered := False\<rparr>) k) w' s'" using k by simp
  qed (use True in \<open>simp add: plain_simps\<close>)
  then show ?thesis
    using True by (simp add: GetInstance_def UnregisterWindowClass_def del: good.simps(3))
qed (use w k in simp)

lemma ondestroy_closed:
  assumes w: "closed (callback_inv D w0 s0 E) w s"
    and k: "\<And>w s. closed (callback_inv D w0 s0 E) w s \<Longrightarrow> good quiet E Q k w s"
  shows "good quiet E Q (OnDestroy k) w s"
proof (cases "object_class s")
  case No_Object
  then show ?thesis using w by (simp add: closed_def)
next
  case Win32_Window
  then show ?thesis using k [OF w] by (simp add: OnDestroy_def Win32Window_OnDestroy_def)
next
  case Flutter_Window
  have "good quiet E Q (Call (Delete_FlutterViewController c) (\<lambda>_. k)) w (s\<lparr>flutter_controller := None\<rparr>)" for c
    using closed_upd [OF w, of "s\<lparr>flutter_controller := None\<rparr>"] k
    by (intro good_closed [where D = D and ?w0.0 = w0 and ?s0.0 = s0]) (auto simp: plain_simps kept_def)
  then show ?thesis
    using Flutter_Window k [OF w]
    by (cases "flutter_controller s")
      (simp_all add: OnDestroy_def FlutterWindow_OnDestroy_def Win32Window_OnDestroy_def del: good.simps(3))
qed

lemma destroy_closed:
  assumes w: "closed (callback_inv D w0 s0 E) w s"
    and k: "\<And>w s. closed (callback_inv D w0 s0 E) w s \<Longrightarrow> good quiet E Q k w s"
  shows "good quiet E Q (Destroy k) w s"
  unfolding Destroy_def Let_def
proof (rule ondestroy_closed [OF w])
  fix w s assume p: "closed (callback_inv D w0 s0 E) w s"
  then have "window_handle s = None" by (simp add: closed_def)
  then show "good quiet E Q (Get (\<lambda>s. case window_handle s of
      None \<Rightarrow> Get (\<lambda>s. if g_active_window_count s = 0 then GetInstance (UnregisterWindowClass k) else k)
    | Some h \<Rightarrow> Call (DestroyWindow h) (\<lambda>_. Upd (\<lambda>s. s\<lparr>window_handle := None\<rparr>)
        (Get (\<lambda>s. if g_active_window_count s = 0 then GetInstance (UnregisterWindowClass k) else k))))) w s"
    using unregister_closed [OF p k] by (simp del: good.simps(3))
qed

section \<open>The window procedure\<close>

definition mark :: "hwnd \<Rightarrow> message \<Rightarrow> hwnd set" where
  "mark h m = (if m_id m = WM_DESTROY then {h} else {})"

definition handling ::
  "hwnd \<Rightarrow> message \<Rightarrow> windows \<Rightarrow> state \<Rightarrow> hwnd set \<Rightarrow> windows \<Rightarrow> state \<Rightarrow> bool" where
  "handling h m w0 s0 E w s \<longleftrightarrow>
     callback_inv (mark h m) w0 s0 E w s \<and> object_class s \<noteq> No_Object \<and> ours w \<subseteq> {h} \<and> mark h m \<subseteq> E"

lemma handling_stable: "stable (handling h m w0 s0 E)"
  unfolding stable_def
proof (intro allI impI)
  fix w s w' s' assume p: "handling h m w0 s0 E w s" and r: "rely0 {} w s w' s'"
  have "callback_inv (mark h m) w0 s0 E w' s'"
    using p r callback_stable unfolding handling_def stable_def by blast
  moreover have "object_class s' = object_class s" using r by (simp add: rely0_def kept_def)
  ultimately show "handling h m w0 s0 E w' s'"
    using p rely0_ours [OF r] by (auto simp: handling_def)
qed

lemma handlingD: "handling h m w0 s0 E w s \<Longrightarrow> callback_inv (mark h m) w0 s0 E w s"
  by (simp add: handling_def)

lemma good_handling:
  assumes "plain c \<and> call_ok c w s E" "handling h m w0 s0 E w s"
    and "\<And>r w s. handling h m w0 s0 E w s \<Longrightarrow> good quiet E Q (k r) w s"
  shows "good quiet E Q (Call c k) w s"
  by (rule good_call [of c w s E "handling h m w0 s0 E"])
    (use assms handling_stable in \<open>auto simp: callback_inv_def handling_def\<close>)

lemma base_handler:
  assumes w: "handling h m w0 s0 E w s"
    and k: "\<And>v w s. callback_inv (mark h m) w0 s0 E w s \<Longrightarrow> good quiet E Q (k v) w s"
  shows "good quiet E Q (Win32Window_MessageHandler h m k) w s"
proof (cases "m_id m = WM_DESTROY")
  case False
  then show ?thesis using handler_other [of m w0 s0 E w s] w k by (simp add: handling_def mark_def)
next
  case True
  let ?s = "s\<lparr>window_handle := None\<rparr>"
  have "closed (callback_inv {h} w0 s0 E) w ?s"
    using w True unfolding closed_def callback_inv_def handling_def mark_def rely0_def kept_def window_inv_def
    by auto
  then have "good quiet E Q (Destroy (Get (\<lambda>s. if quit_on_close s then Call (PostQuitMessage 0) (\<lambda>_. k 0) else k 0))) w ?s"
  proof (rule destroy_closed)
    fix w s assume p: "closed (callback_inv {h} w0 s0 E) w s"
    have "good quiet E Q (Call (PostQuitMessage 0) (\<lambda>_. k 0)) w s" if "quit_on_close s"
      using that p k True by (intro good_closed [where D = "{h}" and ?w0.0 = w0 and ?s0.0 = s0])
        (auto simp: plain_simps closed_def mark_def)
    then show "good quiet E Q (Get (\<lambda>s. if quit_on_close s then Call (PostQuitMessage 0) (\<lambda>_. k 0) else k 0)) w s"
      using k p True by (auto simp: closed_def mark_def simp del: good.simps(3))
  qed
  then show ?thesis using True by (simp add: Win32Window_MessageHandler_def)
qed

lemma flutter_handler:
  assumes w: "handling h m w0 s0 E w s"
    and k: "\<And>v w s. callback_inv (mark h m) w0 s0 E w s \<Longrightarrow> good quiet E Q (k v) w s"
  shows "good quiet E Q (FlutterWindow_MessageHandler h m k) w s"
proof -
  have p: "plain c \<and> call_ok c w s E"
    if "c \<in> {Controller_engine x, Engine_ReloadSystemFonts x, HandleTopLevelWindowProc x h m}" for c x w s
    using that by (auto simp: plain_simps)
  note call = good_handling [where h = h and m = m and ?w0.0 = w0 and ?s0.0 = s0]
  define rest where "rest =
    (if m_id m = WM_FONTCHANGE then
       controller Null_In_FontChange (\<lambda>c. Call (Controller_engine c) (\<lambda>engine.
         case r_handle engine of
           None \<Rightarrow> Fault Null_In_FontChange
         | Some e \<Rightarrow> Call (Engine_ReloadSystemFonts e) (\<lambda>_. Win32Window_MessageHandler h m k)))
     else Win32Window_MessageHandler h m k)"
  have reload: "good quiet E Q (Call (Engine_ReloadSystemFonts e) (\<lambda>_. Win32Window_MessageHandler h m k)) w s"
    if "handling h m w0 s0 E w s" for e w s
    using that k by (intro call p base_handler) auto
  have r: "good quiet E Q rest w s" if q: "handling h m w0 s0 E w s" for w s
  proof -
    have "good quiet E Q (Call (Controller_engine c) (\<lambda>engine.
         case r_handle engine of
           None \<Rightarrow> Fault Null_In_FontChange
         | Some e \<Rightarrow> Call (Engine_ReloadSystemFonts e) (\<lambda>_. Win32Window_MessageHandler h m k))) w s" for c
      using q reload by (intro call p) (auto simp: may_fault_def split: option.split simp del: good.simps(3))
    then show ?thesis
      using base_handler [OF q k]
      by (auto simp: rest_def controller_def may_fault_def split: option.split simp del: good.simps(3))
  qed
  have "good quiet E Q (Call (HandleTopLevelWindowProc c h m) (\<lambda>r. case r_optional r of None \<Rightarrow> rest | Some result \<Rightarrow> k result)) w s" for c
    using w r k handlingD by (intro call p) (auto split: option.split)
  then show ?thesis
    using r [OF w]
    by (auto simp: FlutterWindow_MessageHandler_def Let_def rest_def [symmetric] split: option.split simp del: good.simps(3))
qed

lemma callback_good:
  assumes "window_inv w s E" "m_id m \<noteq> WM_NCCREATE" "mark h m \<subseteq> E"
  shows "good quiet E (callback_inv (mark h m) w s E) (WndProc h m Ret) w s"
proof -
  let ?P = "callback_inv (mark h m) w s E"
  have p: "plain c \<and> call_ok c w s E" if "c \<in> {GetWindowLongPtr h, DefWindowProc (Some h) m}" for c w s
    using that by (auto simp: plain_simps)
  have mh: "good quiet E ?P (MessageHandler h m Ret) w' s'" if "handling h m w s E w' s'" for w' s'
  proof (cases "object_class s'")
    case No_Object
    then show ?thesis using that by (simp add: handling_def)
  qed (use that base_handler [OF that, of quiet ?P Ret] flutter_handler [OF that, of quiet ?P Ret] in
      \<open>simp_all add: MessageHandler_def\<close>)
  have def_proc: "good quiet E ?P (Call (DefWindowProc (Some h) m) (\<lambda>r. Ret (r_lresult r))) w' s'" if "?P w' s'" for w' s'
    using that by (intro good_callback [where D = "mark h m" and ?w0.0 = w and ?s0.0 = s] p) auto
  have "good quiet E ?P (Call (GetWindowLongPtr h) (\<lambda>that. if r_this that then MessageHandler h m Ret
      else Call (DefWindowProc (Some h) m) (\<lambda>r. Ret (r_lresult r)))) w s"
  proof (rule good_call [of _ _ _ _ ?P])
    fix r w' s' assume q: "?P w' s'" and a: "answers w' (GetWindowLongPtr h) r"
    have "handling h m w s E w' s'" if "r_this r"
    proof -
      have "h \<in> ours w'" using that a by (simp add: answers_def ours_def)
      then show ?thesis using q assms(3) by (auto simp: handling_def callback_inv_def window_inv_def)
    qed
    then show "good quiet E ?P (if r_this r then MessageHandler h m Ret
      else Call (DefWindowProc (Some h) m) (\<lambda>r. Ret (r_lresult r))) w' s'"
      using mh def_proc [OF q] by (simp del: good.simps(3))
  qed (use assms callback_stable p [of "GetWindowLongPtr h"] in \<open>auto simp: callback_inv_def\<close>)
  then show ?thesis using assms(2) by (simp add: WndProc_def del: good.simps(3))
qed

end
