(* ===== verification/Win_Soundness.thy ===== *)
theory Win_Soundness
  imports Win_Callbacks
begin

text \<open>
  The creation of a window, and the soundness of \<open>good\<close>: every step of the machine keeps a
  configuration whose programs are all good.
\<close>

section \<open>Creation of the window\<close>

definition created :: "hwnd \<Rightarrow> state \<Rightarrow> windows \<Rightarrow> state \<Rightarrow> bool" where
  "created h s0 w s \<longleftrightarrow>
     kept s0 s \<and> object_class s \<noteq> No_Object \<and> ours w \<subseteq> {h} \<and>
     (ours w \<noteq> {} \<longrightarrow> window_handle s = Some h)"

lemma created_stable: "stable (created h s0)"
  unfolding stable_def
proof (intro allI impI)
  fix w s w' s' assume p: "created h s0 w s" and r: "rely0 {} w s w' s'"
  have "object_class s' = object_class s" "kept s s'" using r by (simp_all add: rely0_def kept_def)
  moreover have "window_handle s' = Some h" if "ours w' \<noteq> {}"
  proof -
    have "h \<in> ours w'" "ours w \<noteq> {}" using that p rely0_ours [OF r] by (auto simp: created_def)
    then show ?thesis using p r by (simp add: created_def rely0_def)
  qed
  ultimately show "created h s0 w' s'"
    using p rely0_ours [OF r] kept_trans unfolding created_def by fastforce
qed

lemma creation_good:
  assumes "ours w = {}" "object_class s \<noteq> No_Object" "m_id m = WM_NCCREATE" "E = insert h D"
  shows "good quiet E (\<lambda>w' s'. kept s s' \<and> window_inv w' s' D) (WndProc h m Ret) w s"
proof -
  let ?w = "slot_set (SetWindowLongPtr h) w"
  let ?P = "callback_inv {} ?w s E" and ?Q = "\<lambda>w' s'. kept s s' \<and> window_inv w' s' D"
  have o: "ours ?w \<subseteq> {h}" using assms(1) by (auto simp: slot_set_def ours_def)
  have i: "window_inv ?w s E" using o assms(2,4) by (auto simp: window_inv_def)
  have inv: "window_inv w' s' E'" if "created h s0 w' s'" for s0 w' s' E'
    using that by (auto simp: created_def window_inv_def)
  define rest where "rest = Get (\<lambda>s. if object_class s = No_Object then Fault Dangling_This
      else Upd (\<lambda>s. s\<lparr>window_handle := Some h\<rparr>) (Call (DefWindowProc (Some h) m) (\<lambda>r. Ret (r_lresult r))))"
  have r: "good quiet E ?Q rest w' s'" if p: "?P w' s'" for w' s'
  proof -
    have k: "kept s s'" "object_class s' \<noteq> No_Object"
      using p assms(2) by (auto simp: callback_inv_def rely0_def kept_def)
    have "ours w' \<subseteq> {h}" using p o rely0_ours by (fastforce simp: callback_inv_def)
    then have "created h s w' (s'\<lparr>window_handle := Some h\<rparr>)"
      using k by (auto simp: created_def kept_def)
    then have "good quiet E ?Q (Call (DefWindowProc (Some h) m) (\<lambda>r. Ret (r_lresult r))) w' (s'\<lparr>window_handle := Some h\<rparr>)"
      by (intro good_call [of _ _ _ _ "created h s"]) (auto simp: plain_simps inv created_stable, auto simp: created_def)
    then show ?thesis using k by (simp add: rest_def del: good.simps(3))
  qed
  note call = good_callback [where D = "{}" and ?w0.0 = ?w and ?s0.0 = s, OF conjI]
  have dpi: "good quiet E ?Q (EnableFullDpiSupportIfAvailable h rest) w' s'" if p: "?P w' s'" for w' s'
    unfolding EnableFullDpiSupportIfAvailable_def using p r
    by (auto intro!: call split: option.split simp: plain_simps simp del: good.simps(3))
  have "good quiet E ?Q (Call (SetWindowLongPtr h) (\<lambda>_. EnableFullDpiSupportIfAvailable h rest)) w s"
  proof -
    have "good quiet E ?Q (EnableFullDpiSupportIfAvailable h rest) w' s'"
      if "rely quiet (SetWindowLongPtr h) Created {} ?w s w' s'" "window_inv w' s' E" for w' s'
      using that by (intro dpi) (auto simp: rely_def creates_def callback_inv_def split: if_splits)
    then show ?thesis using assms i by (simp add: call_ok_def destroyed_by_def)
  qed
  then show ?thesis using assms(3) by (simp add: WndProc_def rest_def del: good.simps(3))
qed

section \<open>The machine keeps good configurations good\<close>

lemma stack_dying: "stack_ok quiet end_ok fs Q E \<Longrightarrow> dying fs \<subseteq> E"
  by (induction rule: stack_ok.induct) auto

lemma loop_stable: "stable loop_inv"
  using window_inv_rely0 by (auto simp: stable_def loop_inv_def rely0_def kept_def)

lemma message_loop_good:
  assumes "loop_inv w s" "\<And>w s. loop_inv w s \<Longrightarrow> good quiet {} Q k w s"
  shows "good quiet {} Q (message_loop k) w s"
proof -
  have call: "good quiet {} Q (Call c f) w s"
    if "c \<in> {GetMessage, TranslateMessage, DispatchMessage}" "loop_inv w s" "\<And>r w s. loop_inv w s \<Longrightarrow> good quiet {} Q (f r) w s"
    for c f w s
    using that by (intro good_call [of _ _ _ _ loop_inv]) (auto simp: plain_simps loop_stable, auto simp: loop_inv_def)
  have "good quiet {} Q (Loop k) w s" if "loop_inv w s" for w s using that assms(2) by simp
  then show ?thesis
    unfolding message_loop_def using assms by (auto intro!: call simp del: good.simps(3,6))
qed

definition suspended ::
  "(os_call \<Rightarrow> bool) \<Rightarrow> (windows \<Rightarrow> state \<Rightarrow> bool) \<Rightarrow> os_call \<Rightarrow> (reply \<Rightarrow> prog) \<Rightarrow> frame list \<Rightarrow> hwnd set \<Rightarrow> windows \<Rightarrow> state \<Rightarrow> bool" where
  "suspended quiet end_ok c k fs E w0 s0 \<longleftrightarrow>
     (\<exists>Q. stack_ok quiet end_ok fs Q E \<and>
        (\<forall>r w' s'. rely quiet c Created {} w0 s0 w' s' \<and> window_inv w' s' E \<and> answers w' c r \<longrightarrow>
           good quiet E Q (k r) (gone (destroyed_by c) w') s')) \<and>
     (creates c \<longrightarrow> E = {} \<and> ours w0 = {} \<and> object_class s0 \<noteq> No_Object)"

definition ready :: "(os_call \<Rightarrow> bool) \<Rightarrow> os_call \<Rightarrow> hwnd set \<Rightarrow> birth \<Rightarrow> bool" where
  "ready quiet c D b \<longleftrightarrow> (b \<noteq> No_Window \<longrightarrow> creates c) \<and> (quiet c \<longrightarrow> D = {})"

definition at_call ::
  "(os_call \<Rightarrow> bool) \<Rightarrow> os_call \<Rightarrow> hwnd set \<Rightarrow> birth \<Rightarrow> hwnd set \<Rightarrow> windows \<Rightarrow> state \<Rightarrow> windows \<Rightarrow> state \<Rightarrow> bool" where
  "at_call quiet c D b E w0 s0 w s \<longleftrightarrow> rely quiet c b D w0 s0 w s \<and> window_inv w s (E \<union> D)"

lemma stack_inI:
  "suspended quiet end_ok c k fs E w0 s0 \<Longrightarrow> ready quiet c D b \<Longrightarrow>
   stack_ok quiet end_ok (In c k D b # fs) (at_call quiet c D b E w0 s0) (E \<union> D \<union> born b)"
  unfolding suspended_def ready_def at_call_def [abs_def]
  by (elim exE conjE) (rule stack_in, auto dest: stack_dying)

lemma stack_inD:
  assumes "stack_ok quiet end_ok (In c k D b # fs) Q E'"
  obtains E w0 s0 where "suspended quiet end_ok c k fs E w0 s0" "ready quiet c D b"
    "Q = at_call quiet c D b E w0 s0" "E' = E \<union> D \<union> born b"
  using assms
  by (elim stack_inE) (rule that, auto simp: suspended_def ready_def at_call_def [abs_def])

lemma in_okD:
  assumes "config_ok quiet end_ok (w, s, In c k D b # fs)"
  obtains E w0 s0 where "suspended quiet end_ok c k fs E w0 s0" "ready quiet c D b" "at_call quiet c D b E w0 s0 w s" "born b = {}"
  using assms by (auto elim!: stack_inD)

lemma in_okI:
  "suspended quiet end_ok c k fs E w0 s0 \<Longrightarrow> ready quiet c D b \<Longrightarrow> at_call quiet c D b E w0 s0 w s \<Longrightarrow> born b = {} \<Longrightarrow>
   config_ok quiet end_ok (w, s, In c k D b # fs)"
  using stack_inI by fastforce

lemma callback_okI:
  assumes "suspended quiet end_ok c k fs E w0 s0" "ready quiet c D b"
    and "good quiet (E \<union> D \<union> born b) (at_call quiet c D b E w0 s0) p w s"
  shows "config_ok quiet end_ok (w, s, Run p # In c k D b # fs)"
  using stack_inI [OF assms(1,2)] assms(3) by auto

text \<open>A message other than \<open>WM_NCCREATE\<close>.\<close>

lemma message_ok:
  assumes "config_ok quiet end_ok (w, s, In c k D b # fs)" "\<not> quiet c" "m_id m \<noteq> WM_NCCREATE"
  shows "config_ok quiet end_ok (w, s, Run (WndProc h m Ret) # In c k (D \<union> mark h m) b # fs)"
proof -
  let ?D = "D \<union> mark h m"
  obtain E w0 s0 where st: "suspended quiet end_ok c k fs E w0 s0" "ready quiet c D b"
    and r: "rely quiet c b D w0 s0 w s" "window_inv w s (E \<union> D)" and b: "born b = {}"
    by (rule in_okD [OF assms(1)]) (auto simp: at_call_def)
  have "rely quiet c b ?D w0 s0 w' s'" if "rely0 (mark h m) w s w' s'" for w' s'
    using r(1) that assms(2) rely0_trans [of D w0 s0 w s "mark h m" w' s'] kept_trans [of s0 s s']
    by (auto simp: rely_def rely0_def split: if_splits)
  moreover have "good quiet (E \<union> ?D) (callback_inv (mark h m) w s (E \<union> ?D)) (WndProc h m Ret) w s"
    using assms(3) by (intro callback_good window_inv_mono [OF r(2)]) auto
  ultimately have "good quiet (E \<union> ?D \<union> born b) (at_call quiet c ?D b E w0 s0) (WndProc h m Ret) w s"
    unfolding b at_call_def callback_inv_def by (auto elim!: good_mono)
  moreover have "ready quiet c ?D b" using st(2) assms(2) by (simp add: ready_def)
  ultimately show ?thesis using st(1) by (intro callback_okI)
qed

lemma creation_ok:
  assumes "config_ok quiet end_ok (w, s, In c k D No_Window # fs)" "creates c" "h \<notin> live w" "m_id m = WM_NCCREATE"
  shows "config_ok quiet end_ok (w\<lparr>live := insert h (live w), user_data := user_data w - {h}\<rparr>, s,
    Run (WndProc h m Ret) # In c k D (Creating h) # fs)" (is "config_ok quiet end_ok (?w, s, _)")
proof -
  obtain E w0 s0 where st: "suspended quiet end_ok c k fs E w0 s0" "ready quiet c D No_Window"
    and r: "rely quiet c No_Window D w0 s0 w s"
    by (rule in_okD [OF assms(1)]) (auto simp: at_call_def)
  have e: "E = {}" "ours w0 = {}" "object_class s0 \<noteq> No_Object"
    using st(1) assms(2) by (auto simp: suspended_def)
  have "ours w = {}" using r e(2) rely0_ours by (fastforce simp: rely_def split: if_splits)
  then have o: "ours ?w = {}" by (auto simp: ours_def)
  have k: "kept s0 s" using r by (rule rely_kept)
  then have "object_class s \<noteq> No_Object" using e(3) by (simp add: kept_def)
  then have "good quiet (insert h D) (\<lambda>w' s'. kept s s' \<and> window_inv w' s' D) (WndProc h m Ret) ?w s"
    using o assms(4) by (intro creation_good) auto
  then have "good quiet (E \<union> D \<union> born (Creating h)) (at_call quiet c D (Creating h) E w0 s0) (WndProc h m Ret) ?w s"
    using e(1) k assms(2) by (auto simp: rely_def at_call_def intro: kept_trans elim!: good_mono)
  moreover have "ready quiet c D (Creating h)" using st(2) assms(2) by (simp add: ready_def)
  ultimately show ?thesis using st(1) by (intro callback_okI)
qed

lemma return_ok:
  assumes "config_ok quiet end_ok (w, s, Run (Ret v) # In c k D b # fs)"
  shows "config_ok quiet end_ok (w, s, In c k D (birth_done b) # fs)"
proof -
  obtain E w0 s0 where st: "suspended quiet end_ok c k fs E w0 s0" "ready quiet c D b" "at_call quiet c D b E w0 s0 w s"
    using assms by (auto elim!: stack_inD)
  have "born (birth_done b) = {}" "birth_done b = No_Window \<longleftrightarrow> b = No_Window" by (cases b; simp)+
  then show ?thesis
    using st by (intro in_okI [OF st(1)]) (auto simp: ready_def at_call_def rely_def)
qed

lemma reply_ok:
  assumes "config_ok quiet end_ok (w, s, In c k D b # fs)" "answers (gone D w) c r"
  shows "config_ok quiet end_ok (gone (D \<union> destroyed_by c) w, s, Run (k r) # fs)"
proof -
  obtain E w0 s0 where st: "suspended quiet end_ok c k fs E w0 s0" "ready quiet c D b"
    and r: "rely quiet c b D w0 s0 w s" "window_inv w s (E \<union> D)"
    by (rule in_okD [OF assms(1)]) (auto simp: at_call_def)
  have "rely quiet c Created {} w0 s0 (gone D w) s"
    using st(2) by (intro rely_reply [OF r(1)]) (simp add: ready_def)
  moreover have "window_inv (gone D w) s E" using window_inv_gone [OF r(2), of "{}"] by simp
  moreover obtain Q where "stack_ok quiet end_ok fs Q E" "\<forall>r w' s'. rely quiet c Created {} w0 s0 w' s' \<and> window_inv w' s' E \<and>
      answers w' c r \<longrightarrow> good quiet E Q (k r) (gone (destroyed_by c) w') s'"
    using st(1) by (auto simp: suspended_def)
  ultimately have "stack_ok quiet end_ok fs Q E \<and> good quiet E Q (k r) (gone (destroyed_by c) (gone D w)) s"
    using assms(2) by blast
  then show ?thesis unfolding gone_gone by auto
qed

lemma call_okI:
  assumes "config_ok quiet end_ok (w, s, Run (Call c k) # fs)"
  shows "config_ok quiet end_ok (slot_set c w, s, In c k {} No_Window # fs)"
proof -
  obtain Q E where q: "stack_ok quiet end_ok fs Q E" "call_ok c w s E" "window_inv (slot_set c w) s E"
    "\<forall>r w' s'. rely quiet c Created {} (slot_set c w) s w' s' \<and> window_inv w' s' E \<and> answers w' c r \<longrightarrow>
           good quiet E Q (k r) (gone (destroyed_by c) w') s'"
    using assms by auto
  have "creates c \<longrightarrow> E = {} \<and> ours (slot_set c w) = {} \<and> object_class s \<noteq> No_Object"
    using q(2) by (auto simp: call_ok_def creates_def slot_set_def split: os_call.splits)
  then have "suspended quiet end_ok c k fs E (slot_set c w) s" using q(1,4) by (auto simp: suspended_def)
  then show ?thesis
    using q(3) by (intro in_okI) (auto simp: ready_def at_call_def rely_def)
qed

lemma step_keeps_ok:
  assumes "step quiet cfg cfg'" "config_ok quiet end_ok cfg"
  shows "config_ok quiet end_ok cfg'"
  using assms
proof (induction rule: step.induct)
  case (step_loop w s k fs)
  then obtain Q E where q: "stack_ok quiet end_ok fs Q E" "E = {}" "loop_inv w s"
    "\<And>w s. loop_inv w s \<Longrightarrow> good quiet E Q k w s"
    by auto
  then have "good quiet {} Q (message_loop k) w s" by (intro message_loop_good) auto
  then show ?case using q(1,2) by auto
next
  case (step_message c m w s k D b fs h)
  then show ?case using message_ok [of quiet end_ok w s c k D b fs m h] by (simp add: mark_def)
next
  case (step_destroy c m h w D fs s k b)
  then show ?case using message_ok [of quiet end_ok w s c k D b fs m h] by (simp add: mark_def wm_defs)
next
  case (step_create c h w m s k D fs)
  then show ?case by (intro creation_ok)
next
  case (step_call w s c k fs)
  then show ?case by (rule call_okI)
next
  case (step_return w s v c k D b fs)
  then show ?case by (rule return_ok)
next
  case (step_reply D w c r s k b fs)
  then show ?case by (intro reply_ok)
qed auto

lemma reachable_ok:
  assumes "reachable quiet p cfg" "good quiet {} end_ok p \<lparr>live = {}, user_data = {}\<rparr> initial_state"
  shows "config_ok quiet end_ok cfg"
  using assms(1)
proof (induction rule: reachable.induct)
  case reachable_start
  then show ?case using assms(2) stack_nil by auto
qed (rule step_keeps_ok)

section \<open>The object outlives the windows that point at it\<close>

fun object_ok :: "windows \<times> state \<times> frame list \<Rightarrow> bool" where
  "object_ok (w, s, fs) \<longleftrightarrow> (ours w \<noteq> {} \<longrightarrow> object_class s \<noteq> No_Object)"

lemma step_object_ok:
  "step quiet cfg cfg' \<Longrightarrow> config_ok quiet end_ok cfg \<Longrightarrow> object_ok cfg \<Longrightarrow> object_ok cfg'"
proof (induction rule: step.induct)
  case (step_create c h w m s k D fs)
  then show ?case by (auto simp: ours_def)
qed (auto simp: window_inv_def)

lemma reachable_object_ok:
  assumes "reachable quiet p cfg" "good quiet {} end_ok p \<lparr>live = {}, user_data = {}\<rparr> initial_state"
  shows "object_ok cfg"
  using assms(1)
proof (induction rule: reachable.induct)
  case reachable_start
  then show ?case by (simp add: ours_def)
next
  case (reachable_step cfg cfg')
  then show ?case using step_object_ok reachable_ok [OF _ assms(2)] by blast
qed

end
