(* ===== verification/Win_Main.thy ===== *)
theory Win_Main
  imports Win_Soundness
begin

text \<open>
  The program of the Windows runner, from \<open>wWinMain\<close> to its end, is good: creation and destruction
  of the window object, the message loop, console and command line.
\<close>

section \<open>The program\<close>

lemma good_quiet:
  assumes "quiet c" "plain c \<and> call_ok c w s E" "window_inv w s E" "\<And>r. good quiet E Q (k r) w s"
  shows "good quiet E Q (Call c k) w s"
  using assms by (auto simp: rely_def plain_def)

definition no_window :: "state \<Rightarrow> windows \<Rightarrow> bool" where
  "no_window s w \<longleftrightarrow> ours w = {} \<and> window_handle s = None \<and> flutter_controller s = None"

lemma no_window_rely0: "no_window s w \<Longrightarrow> rely0 {} w s w' s' \<Longrightarrow> no_window s' w'"
  using rely0_ours [of "{}" w s w' s'] by (auto simp: no_window_def rely0_def kept_def)

lemma no_window_inv: "no_window s w \<Longrightarrow> window_inv w s E"
  by (simp add: no_window_def window_inv_def)

definition shown :: "bool \<Rightarrow> windows \<Rightarrow> state \<Rightarrow> bool" where
  "shown q w s \<longleftrightarrow>
     window_inv w s {} \<and> object_class s = Flutter_Window \<and> g_active_window_count s = 1 \<and> (q \<longrightarrow> quit_on_close s)"

lemma shown_stable: "stable (shown q)"
  using window_inv_rely0 by (auto simp: stable_def shown_def rely0_def kept_def)

lemma loop_shown: "loop_inv = shown True"
  by (auto simp: loop_inv_def shown_def fun_eq_iff)

lemma good_shown:
  assumes "plain c \<and> call_ok c w s {}" "shown q w s"
    and "\<And>r w s. shown q w s \<Longrightarrow> good quiet {} Q (k r) w s"
  shows "good quiet {} Q (Call c k) w s"
  by (rule good_call [of _ _ _ _ "shown q"]) (use assms shown_stable in \<open>auto simp: shown_def\<close>)

lemma unregister_good:
  assumes "no_window s w" "g_active_window_count s = 0"
    and "\<And>w s. no_window s w \<Longrightarrow> g_active_window_count s = 0 \<Longrightarrow> \<not> class_registered s \<Longrightarrow> good quiet {} Q k w s"
  shows "good quiet {} Q (GetInstance (UnregisterWindowClass k)) w s"
proof -
  let ?P = "\<lambda>w s. no_window s w \<and> g_active_window_count s = 0"
  have "stable ?P" using no_window_rely0 by (auto simp: stable_def rely0_def kept_def)
  moreover have u: "?P w (s\<lparr>class_registered := x\<rparr>)" "?P w (s\<lparr>the_instance := y, class_registered := x\<rparr>)"
    if "?P w s" for w s x y
    using that by (simp_all add: no_window_def)
  ultimately have "good quiet {} Q (Call UnregisterClass (\<lambda>_. Upd (\<lambda>s. s\<lparr>class_registered := False\<rparr>) k)) w s"
    if "?P w s" for w s
    using that assms(3) by (intro good_call [of _ _ _ _ ?P]) (auto simp: plain_simps no_window_inv)
  then show ?thesis
    using u(2) [of s w] assms(1,2)
    by (simp add: GetInstance_def UnregisterWindowClass_def del: good.simps(3))
qed

text \<open>What the program leaves when it ends.\<close>

definition released :: "windows \<Rightarrow> state \<Rightarrow> bool" where
  "released w s \<longleftrightarrow>
     ours w = {} \<and> window_handle s = None \<and> flutter_controller s = None \<and> object_class s = No_Object \<and>
     g_active_window_count s = 0 \<and> \<not> class_registered s"

lemma destructor_good:
  assumes "shown q w s"
  shows "good quiet {} released (FlutterWindow_dtor (Ret v)) w s"
proof -
  let ?Q = released
  let ?last = "Upd (\<lambda>s. s\<lparr>object_class := No_Object\<rparr>) (Ret v)"
  define rest where "rest = Get (\<lambda>s. if g_active_window_count s = 0
      then GetInstance (UnregisterWindowClass ?last) else ?last)"
  have r: "good quiet {} ?Q rest w s" if "no_window s w" "g_active_window_count s = 0" for w s
    using unregister_good [OF that, of quiet ?Q ?last] that by (simp add: rest_def released_def no_window_def)
  let ?P = "\<lambda>w s. window_inv w s {} \<and> object_class s = Win32_Window \<and> g_active_window_count s = 0 \<and> flutter_controller s = None"
  have d: "good quiet {} ?Q (Call (DestroyWindow h) (\<lambda>_. Upd (\<lambda>s. s\<lparr>window_handle := None\<rparr>) rest)) w s"
    if p: "?P w s" "window_handle s = Some h" for h w s
  proof -
    have "good quiet {} ?Q rest (gone {h} w') (s'\<lparr>window_handle := None\<rparr>)"
      if q: "rely0 {} w s w' s'" "window_inv w' s' {}" for w' s'
    proof (rule r)
      have "window_handle s' = Some h'" "window_handle s' = Some h \<or> window_handle s' = None" if "h' \<in> ours w'" for h'
        using that q p(2) by (auto simp: window_inv_def rely0_def)
      then have "ours w' \<subseteq> {h}" by fastforce
      then show "no_window (s'\<lparr>window_handle := None\<rparr>) (gone {h} w')"
        using q(1) p(1) by (auto simp: no_window_def rely0_def kept_def)
    qed (use q p in \<open>simp add: rely0_def kept_def\<close>)
    moreover have "rely0 {} w s w s" by simp
    ultimately show ?thesis
      using p by (auto simp: call_ok_def slot_set_def destroyed_by_def rely_def creates_def split: if_splits)
  qed
  have base: "good quiet {} ?Q (Win32Window_dtor (Ret v)) w (s\<lparr>flutter_controller := None, object_class := Win32_Window\<rparr>)"
    if p: "shown q w s" for w s
  proof -
    let ?s = "s\<lparr>flutter_controller := None, object_class := Win32_Window, g_active_window_count := 0\<rparr>"
    have i: "?P w ?s" using p by (auto simp: shown_def window_inv_def)
    have "no_window ?s w" if "window_handle s = None"
      using that i by (auto simp: no_window_def window_inv_def)
    then have "good quiet {} ?Q (Get (\<lambda>s. case window_handle s of None \<Rightarrow> rest
        | Some h \<Rightarrow> Call (DestroyWindow h) (\<lambda>_. Upd (\<lambda>s. s\<lparr>window_handle := None\<rparr>) rest))) w ?s"
      using r [of ?s w] d [OF i] by (auto split: option.split simp del: good.simps(3))
    moreover have "g_active_window_count s = 1" using p by (simp add: shown_def)
    ultimately show ?thesis
      by (simp add: Win32Window_dtor_def Destroy_def OnDestroy_def Win32Window_OnDestroy_def Let_def rest_def [symmetric]
          del: good.simps(3))
  qed
  have "good quiet {} ?Q (Call (Delete_FlutterViewController c) (\<lambda>_.
      Upd (\<lambda>s. s\<lparr>flutter_controller := None, object_class := Win32_Window\<rparr>) (Win32Window_dtor (Ret v)))) w s" for c
    using assms base by (intro good_shown [of _ _ _ q]) (auto simp: plain_simps)
  then show ?thesis
    using base [OF assms] by (auto simp: FlutterWindow_dtor_def Let_def split: option.split simp del: good.simps(3))
qed

lemma set_child_good:
  assumes "shown q w s" "\<And>w s. shown q w s \<Longrightarrow> good quiet {} Q k w s"
  shows "good quiet {} Q (SetChildContent h k) w s"
proof -
  have u: "shown q w (s\<lparr>child_content := h\<rparr>)" if "shown q w s" for w s
    using that by (simp add: shown_def window_inv_def)
  have p: "plain c \<and> call_ok c w s {}"
    if "c \<in> {SetParent h x, GetClientRect x, MoveWindow h a1 a2 a3 a4, SetFocus x}" for c x a1 a2 a3 a4 w s
    using that by (auto simp: plain_simps)
  have focus: "good quiet {} Q (Get (\<lambda>s. Call (SetFocus (child_content s)) (\<lambda>_. k))) w s" if "shown q w s" for w s
    unfolding good.simps(4) by (intro good_shown [of _ _ _ q] p that assms(2)) simp
  have move: "good quiet {} Q (Call (MoveWindow h a1 a2 a3 a4) (\<lambda>_. Get (\<lambda>s. Call (SetFocus (child_content s)) (\<lambda>_. k)))) w s"
    if "shown q w s" for a1 a2 a3 a4 w s
    by (intro good_shown [of _ _ _ q] p that focus) auto
  have area: "good quiet {} Q (GetClientArea (\<lambda>frame. Call (MoveWindow h (rc_left frame) (rc_top frame)
      (rc_right frame - rc_left frame) (rc_bottom frame - rc_top frame)) (\<lambda>_.
      Get (\<lambda>s. Call (SetFocus (child_content s)) (\<lambda>_. k))))) w s" if "shown q w s" for w s
    unfolding GetClientArea_def good.simps(4) by (intro good_shown [of _ _ _ q] p that move) auto
  show ?thesis
    unfolding SetChildContent_def good.simps(4,5)
    by (intro conjI good_shown [of _ _ _ q] p area u [OF assms(1)]) auto
qed

text \<open>
  \<open>OnCreate\<close>: where nothing is delivered while the controller is used, it is there; otherwise a
  \<open>WM_DESTROY\<close> may have deleted it.
\<close>

lemma oncreate_good:
  assumes w: "shown False w s" "flutter_controller s = None"
    and k: "\<And>b w s. shown False w s \<Longrightarrow> good quiet {} Q (k b) w s"
  shows "good quiet {} Q (OnCreate k) w s"
proof -
  let ?P = "\<lambda>w s. shown False w s \<and> flutter_controller s = None"
  let ?R = "\<lambda>w s. shown False w s \<and> (quiet_setup quiet \<longrightarrow> flutter_controller s \<noteq> None)"
  have st: "stable ?P"
    using shown_stable [of False] by (auto simp: stable_def rely0_def kept_def)
  have q: "good quiet {} Q (Call c f) w s"
    if r: "?R w s" and c: "(quiet_setup quiet \<longrightarrow> quiet c) \<and> plain c \<and> call_ok c w s {}"
      and f: "\<And>r w s. ?R w s \<Longrightarrow> good quiet {} Q (f r) w s" for c f w s
  proof (cases "quiet_setup quiet")
    case True
    then show ?thesis using that by (intro good_quiet) (auto simp: shown_def)
  next
    case False
    then show ?thesis using that by (intro good_shown [of _ _ _ False]) auto
  qed
  have p: "(quiet_setup quiet \<longrightarrow> quiet c) \<and> plain c \<and> call_ok c w s {}"
    if "c \<in> {Controller_engine a, Controller_view a, GetRegistrarForPlugin b n, RegisterWithRegistrar n b}" for c a b n w s
    using that by (auto simp: quiet_setup_def plain_simps)
  have ctrl: "good quiet {} Q (controller Null_In_OnCreate f) w s" if "?R w s" "\<And>c. good quiet {} Q (f c) w s" for f w s
    using that by (auto simp: controller_def may_fault_def split: option.split)
  have native: "good quiet {} Q (Call (View_GetNativeWindow v) (\<lambda>window. SetChildContent (r_handle window) (k True))) w s"
    if "?R w s" for v w s
    using that k by (intro good_shown [of _ _ _ False] set_child_good [where q = False]) (auto simp: plain_simps)
  have plugins: "good quiet {} Q (RegisterPlugins e x) w s" if "?R w s" "\<And>w s. ?R w s \<Longrightarrow> good quiet {} Q x w s" for e x w s
    unfolding RegisterPlugins_def using that by (intro q p) auto
  define body where "body = controller Null_In_OnCreate (\<lambda>c. Call (Controller_engine c) (\<lambda>engine.
        if r_handle engine = None then k False
        else controller Null_In_OnCreate (\<lambda>c. Call (Controller_view c) (\<lambda>view.
          if r_handle view = None then k False
          else
            controller Null_In_OnCreate (\<lambda>c. Call (Controller_engine c) (\<lambda>engine.
            RegisterPlugins (r_handle engine)
            (controller Null_In_OnCreate (\<lambda>c. Call (Controller_view c) (\<lambda>view.
             Call (View_GetNativeWindow (r_handle view)) (\<lambda>window.
             SetChildContent (r_handle window) (k True)))))))))))"
  have init: "good quiet {} Q body w s" if "?R w s" for w s
    unfolding body_def
    using that k by (intro ctrl q p plugins native) (auto intro!: ctrl q p plugins native simp del: good.simps(3))
  have assign: "good quiet {} Q (assign_controller c body) w s" if "?P w s" for c w s
  proof -
    have "?R w (s\<lparr>flutter_controller := Some c\<rparr>)" using that by (simp add: shown_def window_inv_def)
    then show ?thesis using that init by (simp add: assign_controller_def)
  qed
  have new: "good quiet {} Q (Call (New_FlutterViewController a b) (\<lambda>r. assign_controller (r_new r) body)) w s"
    if "?P w s" for a b w s
    by (rule good_call [where P = ?P]) (use that st assign in \<open>auto simp: plain_simps shown_def\<close>)
  have "good quiet {} Q (GetClientArea (\<lambda>frame. Call (New_FlutterViewController (rc_right frame - rc_left frame)
      (rc_bottom frame - rc_top frame)) (\<lambda>r. assign_controller (r_new r) body))) w s"
    unfolding GetClientArea_def good.simps(4)
    by (rule good_call [where P = ?P]) (use w st new in \<open>auto simp: plain_simps shown_def simp del: good.simps(3)\<close>)
  then have "good quiet {} Q (FlutterWindow_OnCreate k) w s"
    by (simp add: FlutterWindow_OnCreate_def Win32Window_OnCreate_def body_def del: good.simps(3))
  then show ?thesis using w by (simp add: OnCreate_def shown_def)
qed


section \<open>The main function\<close>

lemma window_class_good:
  assumes "stable P" "\<And>w s. P w s \<Longrightarrow> window_inv w s E"
    and "\<And>w s x. P w s \<Longrightarrow> P w (s\<lparr>class_registered := x\<rparr>)" "P w s"
    and "\<And>w s. P w s \<Longrightarrow> class_registered s \<Longrightarrow> good quiet E Q k w s"
  shows "good quiet E Q (GetWindowClass k) w s"
proof -
  have call: "good quiet E Q (Call c f) w s"
    if "c \<in> {LoadCursor, GetModuleHandle, LoadIcon a, RegisterClass}" "P w s"
      "\<And>r w s. P w s \<Longrightarrow> good quiet E Q (f r) w s" for a c f w s
    by (rule good_call [where P = P]) (use that assms(1,2) in \<open>auto simp: plain_simps\<close>)
  have "good quiet E Q (Upd (\<lambda>s. s\<lparr>class_registered := True\<rparr>) k) w s" if "P w s" for w s
    using that assms(3,5) by simp
  then have "good quiet E Q (Call LoadCursor (\<lambda>_. Call GetModuleHandle (\<lambda>hInstance.
      Call (LoadIcon (r_handle hInstance)) (\<lambda>_. Call RegisterClass (\<lambda>_.
      Upd (\<lambda>s. s\<lparr>class_registered := True\<rparr>) k))))) w s"
    using assms(4) by (intro call) auto
  then show ?thesis using assms(4,5) by (simp add: GetWindowClass_def del: good.simps(3))
qed

lemma create_and_show_good:
  assumes w: "no_window s w" "object_class s = Flutter_Window" "g_active_window_count s = 1"
    and k: "\<And>b w s. shown False w s \<Longrightarrow> good quiet {} Q (k b) w s"
  shows "good quiet {} Q (CreateAndShow fp t x y wd ht k) w s"
proof -
  let ?P = "\<lambda>w s. no_window s w \<and> object_class s = Flutter_Window \<and> g_active_window_count s = 1"
  let ?C = "\<lambda>w s. ?P w s \<and> class_registered s"
  have st: "stable ?P" "stable ?C"
    using no_window_rely0 by (auto simp: stable_def rely0_def kept_def)
  have call: "good quiet {} Q (Call c f) w s"
    if "c \<in> {MonitorFromPoint a b, FlutterDesktopGetDpiForMonitor d, GetModuleHandle}" "?C w s"
      "\<And>r w s. ?C w s \<Longrightarrow> good quiet {} Q (f r) w s" for a b c d f w s
    by (rule good_call [where P = ?C]) (use that st(2) in \<open>auto simp: plain_simps no_window_inv\<close>)
  have created: "good quiet {} Q (if r_handle r = None then k False else OnCreate k) w' s'"
    if "?C w s" "kept s s'" "window_inv w' s' {}" for r w s w' s'
  proof -
    have "shown False w' s'" "flutter_controller s' = None"
      using that by (auto simp: shown_def no_window_def kept_def)
    then show ?thesis using oncreate_good [OF _ _ k] k by simp
  qed
  have create: "good quiet {} Q (Call (CreateWindow t a b c d) (\<lambda>window.
      if r_handle window = None then k False else OnCreate k)) w s" if p: "?C w s" for a b c d w s
  proof -
    have "call_ok (CreateWindow t a b c d) w s {} \<and> window_inv (slot_set (CreateWindow t a b c d) w) s {}"
      using p by (simp add: call_ok_def slot_set_def no_window_def window_inv_def)
    moreover have "kept s s'" if "rely quiet (CreateWindow t a b c d) Created {} w1 s w' s'" for w1 w' s'
      using that by (rule rely_kept)
    moreover have "destroyed_by (CreateWindow t a b c d) = {}" by (simp add: destroyed_by_def)
    ultimately show ?thesis
      using created [OF p] by (simp only: good.simps(3) gone_none) blast
  qed
  define body where "body = Call (MonitorFromPoint x y) (\<lambda>monitor.
      Call (FlutterDesktopGetDpiForMonitor (r_handle monitor)) (\<lambda>dpi.
      let scale_factor = fp_div fp (fp_of_uint fp (r_num dpi)) (fp_96 fp) in
      Call GetModuleHandle (\<lambda>_.
      Call (CreateWindow t (Scale fp x scale_factor) (Scale fp y scale_factor)
              (Scale fp wd scale_factor) (Scale fp ht scale_factor)) (\<lambda>window.
      if r_handle window = None then k False else OnCreate k))))"
  have b: "good quiet {} Q body w s" if "?C w s" for w s
    unfolding body_def Let_def using that by (intro call create) auto
  have "good quiet {} Q (GetWindowClass body) w s" if p: "?P w s" for w s
    using st p b by (intro window_class_good [where P = ?P]) (auto simp: no_window_def window_inv_def)
  then have "good quiet {} Q (GetInstance (GetWindowClass body)) w s"
    using w by (simp add: GetInstance_def no_window_def)
  then show ?thesis
    using w by (simp add: CreateAndShow_def Destroy_def OnDestroy_def FlutterWindow_OnDestroy_def no_window_def
        Win32Window_OnDestroy_def body_def Let_def del: good.simps(3))
qed

lemma run_window_good:
  assumes "object_class s = No_Object" "window_inv w s {}" "g_active_window_count s = 0"
  shows "good quiet {} released (run_window fp) w s"
proof -
  let ?Q = released
  let ?quit = "Call CoUninitialize (\<lambda>_. FlutterWindow_dtor (Ret EXIT_SUCCESS))"
  have "good quiet {} ?Q ?quit w s" if "shown True w s" for w s
    using that by (intro good_shown [where q = True] destructor_good) (auto simp: plain_simps)
  then have loop: "good quiet {} ?Q (SetQuitOnClose True (Loop ?quit)) w s" if "shown False w s" for w s
    using that by (simp add: SetQuitOnClose_def loop_shown shown_def window_inv_def del: good.simps(3))
  have k: "good quiet {} ?Q (if \<not> ok then FlutterWindow_dtor (Ret EXIT_FAILURE) else SetQuitOnClose True (Loop ?quit)) w s"
    if "shown False w s" for ok w s
    using that loop destructor_good by auto
  let ?s = "s\<lparr>g_active_window_count := 1, quit_on_close := False,
      window_handle := None, child_content := None, object_class := Flutter_Window, flutter_controller := None\<rparr>"
  have "no_window ?s w" using assms(1,2) by (auto simp: no_window_def window_inv_def)
  then have "good quiet {} ?Q (CreateAndShow fp ''tekk_gram'' 10 10 1280 720 (\<lambda>ok.
      if \<not> ok then FlutterWindow_dtor (Ret EXIT_FAILURE) else SetQuitOnClose True (Loop ?quit))) w ?s"
    using k by (intro create_and_show_good) auto
  then show ?thesis
    using assms(3) by (simp add: run_window_def FlutterWindow_ctor_def Win32Window_ctor_def del: good.simps(3))
qed

text \<open>Before the window object exists, nothing a callback does can reach it.\<close>

definition not_started :: "windows \<Rightarrow> state \<Rightarrow> bool" where
  "not_started w s \<longleftrightarrow> window_inv w s {} \<and> object_class s = No_Object \<and> g_active_window_count s = 0"

lemma not_started_stable: "stable not_started"
  using window_inv_rely0 by (auto simp: stable_def not_started_def rely0_def kept_def)

lemma good_not_started:
  assumes "plain c \<and> call_ok c w s {}" "not_started w s"
    and "\<And>r w s. not_started w s \<Longrightarrow> good quiet {} Q (k r) w s"
  shows "good quiet {} Q (Call c k) w s"
  by (rule good_call [of _ _ _ _ not_started]) (use assms not_started_stable in \<open>auto simp: not_started_def\<close>)

lemma utf8_good:
  assumes "not_started w s" "\<And>bs w s. not_started w s \<Longrightarrow> good quiet {} Q (k bs) w s"
  shows "good quiet {} Q (Utf8FromUtf16 str k) w s"
proof -
  have p: "plain (WideCharToMultiByte x n) \<and> call_ok (WideCharToMultiByte x n) w s {}" for x n w s
    by (simp add: plain_simps)
  show ?thesis
    using assms by (cases str) (auto simp: Utf8FromUtf16_def Let_def simp del: good.simps(3) intro!: good_not_started [OF p])
qed

lemma push_arguments_good:
  assumes "not_started w s" "\<And>bs w s. not_started w s \<Longrightarrow> good quiet {} Q (k bs) w s"
  shows "good quiet {} Q (push_arguments args acc k) w s"
  using assms(1)
proof (induction args arbitrary: acc w s)
  case (Cons arg args)
  then show ?case by (simp del: good.simps(3)) (intro utf8_good)
qed (simp add: assms(2))

lemma console_good:
  assumes "not_started w s" "\<And>w s. not_started w s \<Longrightarrow> good quiet {} Q k w s"
  shows "good quiet {} Q (CreateAndAttachConsole k) w s"
proof -
  have p: "plain c \<and> call_ok c w s {}"
    if "c \<in> {AllocConsole, Freopen_s n f, Fileno f, Dup2 a b, Sync_with_stdio, FlutterDesktopResyncOutputStreams}"
    for c n f a b w s
    using that by (auto simp: plain_simps)
  define resync where "resync = Call Sync_with_stdio (\<lambda>_. Call FlutterDesktopResyncOutputStreams (\<lambda>_. k))"
  define err where "err = Call (Freopen_s ''CONOUT$'' Stderr) (\<lambda>e.
      if r_num e \<noteq> 0 then Call (Fileno Stdout) (\<lambda>fd. Call (Dup2 (r_num fd) 2) (\<lambda>_. resync)) else resync)"
  have r: "good quiet {} Q resync w s" if "not_started w s" for w s
    unfolding resync_def using that assms(2) by (intro good_not_started p) auto
  have e: "good quiet {} Q err w s" if "not_started w s" for w s
    unfolding err_def using that r by (intro good_not_started p) (auto simp del: good.simps(3) intro!: good_not_started p)
  show ?thesis
    unfolding CreateAndAttachConsole_def Let_def resync_def [symmetric] err_def [symmetric]
    using assms e by (intro good_not_started p) (auto simp del: good.simps(3) intro!: good_not_started p)
qed

lemma main_good:
  assumes "not_started w s"
  shows "good quiet {} released (wWinMain fp) w s"
proof -
  let ?Q = released
  have p: "plain c \<and> call_ok c w s {}"
    if "c \<in> {AttachConsole, IsDebuggerPresent, CoInitializeEx, New_DartProject n, Set_dart_entrypoint_arguments a,
      GetCommandLineW, CommandLineToArgvW, LocalFree}" for c n a w s
    using that by (auto simp: plain_simps)
  have win: "good quiet {} ?Q (run_window fp) w s" if "not_started w s" for w s
    using that by (intro run_window_good) (auto simp: not_started_def)
  have cmd: "good quiet {} ?Q (GetCommandLineArguments k) w s"
    if "not_started w s" "\<And>a w s. not_started w s \<Longrightarrow> good quiet {} ?Q (k a) w s" for k w s
    unfolding GetCommandLineArguments_def using that
    by (intro good_not_started p)
      (auto simp del: good.simps(3) split: option.split intro!: good_not_started p push_arguments_good)
  define run where "run = Call CoInitializeEx (\<lambda>_. Call (New_DartProject ''data'') (\<lambda>_.
      GetCommandLineArguments (\<lambda>args. Call (Set_dart_entrypoint_arguments args) (\<lambda>_. run_window fp))))"
  have r: "good quiet {} ?Q run w s" if "not_started w s" for w s
    unfolding run_def using that win by (intro good_not_started p cmd) auto
  show ?thesis
    unfolding wWinMain_def Let_def run_def [symmetric]
    using assms r by (intro good_not_started p) (auto simp del: good.simps(3) intro!: good_not_started p console_good)
qed

lemma start_good: "good quiet {} released (wWinMain fp) \<lparr>live = {}, user_data = {}\<rparr> initial_state"
  by (rule main_good) (simp add: not_started_def window_inv_def ours_def initial_state_def)

lemma runner_ok: "reachable quiet (wWinMain fp) cfg \<Longrightarrow> config_ok quiet released cfg"
  by (rule reachable_ok [OF _ start_good])

lemma runner_object_ok: "reachable quiet (wWinMain fp) cfg \<Longrightarrow> object_ok cfg"
  by (rule reachable_object_ok [OF _ start_good])

end
