(* ===== verification/Win_Facts.thy ===== *)
theory Win_Facts
  imports Win_Main
begin

text \<open>
  What the machine shows of the Windows runner: a run without callbacks, which lists the calls a
  function makes, a player that turns a script into a reachable configuration, and the properties.
\<close>

section \<open>Running without callbacks\<close>

text \<open>
  The calls a program makes, in order, where every call is answered at once; it stops where the
  message loop begins.
\<close>

datatype outcome = Returned lresult | Undefined fault | At_Loop

primrec run :: "(os_call \<Rightarrow> reply) \<Rightarrow> prog \<Rightarrow> state \<Rightarrow> os_call list \<times> outcome \<times> state" where
  "run sys (Ret v) = (\<lambda>s. ([], Returned v, s))"
| "run sys (Fault f) = (\<lambda>s. ([], Undefined f, s))"
| "run sys (Call c k) = (\<lambda>s. (c # fst (run sys (k (sys c)) s), snd (run sys (k (sys c)) s)))"
| "run sys (Get f) = (\<lambda>s. run sys (f s) s)"
| "run sys (Upd g p) = (\<lambda>s. run sys p (g s))"
| "run sys (Loop k) = (\<lambda>s. ([], At_Loop, s))"

section \<open>Playing the machine\<close>

text \<open>A move of the environment; the moves of the program itself need no choice.\<close>

datatype move = Go | Answer reply | Create hwnd message | Send hwnd message | Close hwnd message

fun play1 :: "(os_call \<Rightarrow> bool) \<Rightarrow> move \<Rightarrow> windows \<times> state \<times> frame list \<Rightarrow> (windows \<times> state \<times> frame list) option" where
  "play1 quiet Go (w, s, Run (Get f) # fs) = Some (w, s, Run (f s) # fs)"
| "play1 quiet Go (w, s, Run (Upd g p) # fs) = Some (w, g s, Run p # fs)"
| "play1 quiet Go (w, s, Run (Loop k) # fs) = Some (w, s, Run (message_loop k) # fs)"
| "play1 quiet Go (w, s, Run (Call c k) # fs) = Some (slot_set c w, s, In c k {} No_Window # fs)"
| "play1 quiet Go (w, s, Run (Ret v) # In c k D b # fs) = Some (w, s, In c k D (birth_done b) # fs)"
| "play1 quiet (Answer r) (w, s, In c k D b # fs) =
     (if answers (gone D w) c r then Some (gone (D \<union> destroyed_by c) w, s, Run (k r) # fs) else None)"
| "play1 quiet (Create h m) (w, s, In c k D No_Window # fs) =
     (if creates c \<and> h \<notin> live w \<and> m_id m = WM_NCCREATE
      then Some (w\<lparr>live := insert h (live w), user_data := user_data w - {h}\<rparr>, s,
             Run (WndProc h m Ret) # In c k D (Creating h) # fs)
      else None)"
| "play1 quiet (Send h m) (w, s, In c k D b # fs) =
     (if \<not> quiet c \<and> m_id m \<noteq> WM_NCCREATE \<and> m_id m \<noteq> WM_DESTROY
      then Some (w, s, Run (WndProc h m Ret) # In c k D b # fs) else None)"
| "play1 quiet (Close h m) (w, s, In c k D b # fs) =
     (if \<not> quiet c \<and> m_id m = WM_DESTROY \<and> h \<in> live w \<and> h \<notin> D \<union> dying fs
      then Some (w, s, Run (WndProc h m Ret) # In c k (insert h D) b # fs) else None)"
| "play1 quiet mv cfg = None"

lemma play1_step: "play1 quiet mv cfg = Some cfg' \<Longrightarrow> step quiet cfg cfg'"
  by (induction quiet mv cfg rule: play1.induct) (auto intro: step.intros split: if_splits)


text \<open>The program runs by itself until it makes a call or ends.\<close>

fun settle :: "(os_call \<Rightarrow> bool) \<Rightarrow> nat \<Rightarrow> windows \<times> state \<times> frame list \<Rightarrow> windows \<times> state \<times> frame list" where
  "settle quiet 0 cfg = cfg"
| "settle quiet (Suc n) cfg = (case play1 quiet Go cfg of None \<Rightarrow> cfg | Some cfg' \<Rightarrow> settle quiet n cfg')"

fun play :: "(os_call \<Rightarrow> bool) \<Rightarrow> move list \<Rightarrow> windows \<times> state \<times> frame list \<Rightarrow> (windows \<times> state \<times> frame list) option" where
  "play quiet [] cfg = Some cfg"
| "play quiet (mv # mvs) cfg =
     (case play1 quiet mv cfg of None \<Rightarrow> None | Some cfg' \<Rightarrow> play quiet mvs (settle quiet 12 cfg'))"

lemma settle_reachable: "reachable quiet p cfg \<Longrightarrow> reachable quiet p (settle quiet n cfg)"
proof (induction n arbitrary: cfg)
  case (Suc n)
  show ?case
  proof (cases "play1 quiet Go cfg")
    case (Some cfg')
    then show ?thesis using Suc.IH reachable_step [OF Suc.prems play1_step] by simp
  qed (use Suc.prems in simp)
qed simp

lemma play_reachable:
  "play quiet mvs cfg = Some cfg' \<Longrightarrow> reachable quiet p cfg \<Longrightarrow> reachable quiet p cfg'"
proof (induction mvs arbitrary: cfg)
  case (Cons mv mvs)
  show ?case
  proof (cases "play1 quiet mv cfg")
    case (Some c)
    then have "reachable quiet p (settle quiet 12 c)"
      using reachable_step [OF Cons.prems(2) play1_step] by (intro settle_reachable)
    then show ?thesis using Cons Some by simp
  qed (use Cons.prems in simp)
qed simp

text \<open>Messages may arrive during every call.\<close>

definition never_quiet :: "os_call \<Rightarrow> bool" where "never_quiet c = False"

definition demo_rect :: rect where "demo_rect = \<lparr>rc_left = 0, rc_top = 0, rc_right = 1280, rc_bottom = 720\<rparr>"

definition demo_reply :: reply where
  "demo_reply =
     \<lparr>r_num = 1, r_handle = Some 7, r_new = 9, r_rect = demo_rect, r_lresult = 0, r_optional = None,
      r_this = True, r_bytes = [], r_argv = None\<rparr>"

definition demo_message :: "u32 \<Rightarrow> message" where
  "demo_message i = \<lparr>m_id = i, m_wparam = 0, m_lparam = 0, m_rect = demo_rect\<rparr>"

definition demo_fpu :: fpu where
  "demo_fpu = \<lparr>fp_of_int = ucast, fp_of_uint = ucast, fp_96 = 96, fp_mul = (*), fp_div = (div), fp_to_int = ucast\<rparr>"

definition demo_start :: "windows \<times> state \<times> frame list" where
  "demo_start = (\<lparr>live = {}, user_data = {}\<rparr>, initial_state, [Run (wWinMain demo_fpu)])"

definition demo_script :: "move list" where
  "demo_script = Go # replicate 13 (Answer demo_reply) @
     [Create 50 (demo_message WM_NCCREATE)] @ replicate 6 (Answer demo_reply) @
     [Send 50 (demo_message WM_FONTCHANGE), Answer demo_reply]"

lemmas play_simps = demo_script_def demo_start_def wWinMain_def demo_reply_def
   GetCommandLineArguments_def run_window_def answers_def gone_def destroyed_by_def slot_set_def
   initial_state_def FlutterWindow_ctor_def Win32Window_ctor_def CreateAndShow_def Destroy_def OnDestroy_def
   FlutterWindow_OnDestroy_def Win32Window_OnDestroy_def GetInstance_def GetWindowClass_def Let_def

lemmas handler_simps = WndProc_def EnableFullDpiSupportIfAvailable_def MessageHandler_def
  FlutterWindow_MessageHandler_def controller_def demo_message_def never_quiet_def creates_def

lemma wm_distinct [simp]:
  "WM_FONTCHANGE \<noteq> WM_NCCREATE" "WM_FONTCHANGE \<noteq> WM_DESTROY" "WM_DESTROY \<noteq> WM_NCCREATE" "WM_DESTROY \<noteq> WM_FONTCHANGE"
  by (simp_all add: wm_defs)

definition demo_end :: state where
  "demo_end = initial_state\<lparr>g_active_window_count := 1, the_instance := True, class_registered := True,
     object_class := Flutter_Window, window_handle := Some 50\<rparr>"

lemma demo_plays:
  "\<exists>fs. play never_quiet demo_script demo_start =
     Some (\<lparr>live = {50}, user_data = {50}\<rparr>, demo_end, Run (Fault Null_In_FontChange) # fs)"
  by (simp add: play_simps handler_simps demo_end_def numeral_eq_Suc)

lemma demo_reachable:
  "\<exists>fs. reachable never_quiet (wWinMain demo_fpu)
     (\<lparr>live = {50}, user_data = {50}\<rparr>, demo_end, Run (Fault Null_In_FontChange) # fs)"
proof -
  have "reachable never_quiet (wWinMain demo_fpu) demo_start"
    unfolding demo_start_def by (rule reachable_start)
  then show ?thesis using demo_plays play_reachable by blast
qed

lemma demo_create_call:
  "\<exists>w t x y wd ht k. reachable never_quiet (wWinMain demo_fpu)
     (w, demo_end\<lparr>window_handle := None\<rparr>, [Run (Call (CreateWindow t x y wd ht) k)])"
proof -
  have "\<exists>w s fs w' t x y wd ht k. play never_quiet (Go # replicate 12 (Answer demo_reply)) demo_start = Some (w, s, fs) \<and>
     play1 never_quiet (Answer demo_reply) (w, s, fs) =
       Some (w', demo_end\<lparr>window_handle := None\<rparr>, [Run (Call (CreateWindow t x y wd ht) k)])"
    by (simp add: play_simps demo_end_def numeral_eq_Suc)
  moreover have "reachable never_quiet (wWinMain demo_fpu) demo_start"
    unfolding demo_start_def by (rule reachable_start)
  ultimately show ?thesis using play_reachable reachable_step play1_step by blast
qed

lemma demo_ends:
  "\<exists>w s. reachable never_quiet (wWinMain demo_fpu) (w, s, [Run (Ret EXIT_FAILURE)])"
proof -
  have "\<exists>w s. play never_quiet (Go # replicate 13 (Answer demo_reply) @
      [Answer (demo_reply\<lparr>r_handle := None\<rparr>), Answer demo_reply]) demo_start = Some (w, s, [Run (Ret EXIT_FAILURE)])"
    by (simp add: play_simps FlutterWindow_dtor_def Win32Window_dtor_def UnregisterWindowClass_def numeral_eq_Suc)
  moreover have "reachable never_quiet (wWinMain demo_fpu) demo_start"
    unfolding demo_start_def by (rule reachable_start)
  ultimately show ?thesis using play_reachable by blast
qed

inductive_cases stack_nilE: "stack_ok quiet end_ok [] Q E"

section \<open>Properties\<close>

text \<open>
  C10: whatever messages arrive during whatever calls, nested however deeply, the window object
  outlives the windows that point at it: in every reachable configuration, the end of the program
  included, a window whose slot holds the object finds it there, and no callback ever runs into an
  object that is gone.
\<close>

theorem runner_no_dangling:
  assumes "reachable quiet (wWinMain fp) (w, s, fs)"
  shows "(\<forall>h. h \<in> live w \<and> h \<in> user_data w \<longrightarrow> object_class s \<noteq> No_Object) \<and>
    (\<forall>gs. fs \<noteq> Run (Fault Dangling_This) # gs)"
  using runner_object_ok [OF assms] runner_ok [OF assms] by (auto simp: ours_def may_fault_def)

theorem runner_no_dangling_witness:
  "\<exists>w s fs. reachable never_quiet (wWinMain demo_fpu) (w, s, fs) \<and> 50 \<in> live w \<and> 50 \<in> user_data w \<and>
     object_class s \<noteq> No_Object"
proof -
  obtain fs where "reachable never_quiet (wWinMain demo_fpu)
     (\<lparr>live = {50}, user_data = {50}\<rparr>, demo_end, Run (Fault Null_In_FontChange) # fs)"
    using demo_reachable by blast
  then show ?thesis using runner_no_dangling by fastforce
qed

text \<open>
  C13: in every reachable configuration the calls are made in order: a window is created only with
  the window class registered and no other window, the class is unregistered only when no window
  object is left, a window is destroyed only by its handle, outside of any \<open>WM_DESTROY\<close>, and the
  application quits only where it was told to.
\<close>

theorem runner_calls_in_order:
  assumes "reachable quiet (wWinMain fp) (w, s, Run (Call c k) # fs)"
  shows "(creates c \<longrightarrow> class_registered s \<and> window_handle s = None \<and> live w \<inter> user_data w = {}) \<and>
    (c = UnregisterClass \<longrightarrow> g_active_window_count s = 0) \<and>
    (c = DestroyWindow h \<longrightarrow> window_handle s = Some h \<and> dying fs = {}) \<and>
    (c = PostQuitMessage n \<longrightarrow> quit_on_close s)"
proof -
  obtain Q E where "stack_ok quiet released fs Q E" "call_ok c w s E"
    using runner_ok [OF assms] by auto
  then show ?thesis using stack_dying
    by (cases c) (auto simp: call_ok_def creates_def ours_def dest: stack_dying)
qed

theorem runner_calls_in_order_witness:
  "\<exists>w s c k fs. reachable never_quiet (wWinMain demo_fpu) (w, s, Run (Call c k) # fs) \<and> creates c \<and>
     class_registered s \<and> window_handle s = None"
proof -
  obtain w t x y wd ht k where r: "reachable never_quiet (wWinMain demo_fpu)
     (w, demo_end\<lparr>window_handle := None\<rparr>, [Run (Call (CreateWindow t x y wd ht) k)])"
    using demo_create_call by blast
  moreover have "creates (CreateWindow t x y wd ht)" by (simp add: creates_def)
  ultimately show ?thesis using runner_calls_in_order [OF r] by blast
qed

text \<open>
  C11: when the program ends, whichever way, everything is released: the window object and its
  controller are gone, no window is left whose messages could reach it, and the window class is
  not registered.
\<close>

theorem runner_releases_all:
  assumes "reachable quiet (wWinMain fp) (w, s, [Run (Ret v)])"
  shows "live w \<inter> user_data w = {} \<and> window_handle s = None \<and> flutter_controller s = None \<and>
    object_class s = No_Object \<and> g_active_window_count s = 0 \<and> \<not> class_registered s"
proof -
  obtain Q E where "stack_ok quiet released [] Q E" "Q w s" using runner_ok [OF assms] by auto
  then have "released w s" by (auto elim: stack_nilE)
  then show ?thesis by (simp add: released_def ours_def)
qed

theorem runner_releases_all_witness:
  "\<exists>w s. reachable never_quiet (wWinMain demo_fpu) (w, s, [Run (Ret EXIT_FAILURE)]) \<and> object_class s = No_Object"
  using demo_ends runner_releases_all  by blast

text \<open>
  \<open>WM_FONTCHANGE\<close> is handled through \<open>flutter_controller_\<close> without a test: a font change that
  arrives while the window is being created goes through the null pointer.
\<close>

theorem font_change_faults:
  "\<exists>w s fs. reachable never_quiet (wWinMain demo_fpu) (w, s, Run (Fault Null_In_FontChange) # fs) \<and>
     flutter_controller s = None"
proof -
  have "flutter_controller demo_end = None" by (simp add: demo_end_def initial_state_def)
  then show ?thesis using demo_reachable by blast
qed

text \<open>
  \<open>OnCreate\<close> goes through the controller again after each call it makes: a \<open>WM_DESTROY\<close> handled
  inside one of them deletes the controller.  Where these calls deliver no message, this cannot be,
  and the handling of \<open>WM_FONTCHANGE\<close> is the only fault of the program.
\<close>

definition demo_close :: "move list" where
  "demo_close = Go # replicate 13 (Answer demo_reply) @
     [Create 50 (demo_message WM_NCCREATE)] @ replicate 9 (Answer demo_reply) @
     [Close 50 (demo_message WM_DESTROY)] @ replicate 4 (Answer demo_reply)"

lemma oncreate_faults:
  "\<exists>w s fs. reachable never_quiet (wWinMain demo_fpu) (w, s, Run (Fault Null_In_OnCreate) # fs)"
proof -
  have "\<exists>w s fs. play never_quiet demo_close demo_start = Some (w, s, Run (Fault Null_In_OnCreate) # fs)"
    by (simp add: demo_close_def play_simps handler_simps OnCreate_def FlutterWindow_OnCreate_def
        Win32Window_OnCreate_def Win32Window_MessageHandler_def GetClientArea_def assign_controller_def numeral_eq_Suc)
  moreover have "reachable never_quiet (wWinMain demo_fpu) demo_start"
    unfolding demo_start_def by (rule reachable_start)
  ultimately show ?thesis using play_reachable by blast
qed

lemma quiet_setup_faults:
  assumes "quiet_setup quiet" "reachable quiet (wWinMain fp) (w, s, Run (Fault f) # fs)"
  shows "f = Null_In_FontChange"
  using runner_ok [OF assms(2)] assms(1) by (auto simp: may_fault_def)

text \<open>
  Closing the window.  On \<open>WM_DESTROY\<close>, which the engine does not handle itself, the controller
  is deleted, the handle is cleared so that the window is not destroyed again, and the application
  is told to quit if it is to.
\<close>

theorem wm_destroy_closes:
  assumes "m_id m = WM_DESTROY" "object_class s = Flutter_Window" "flutter_controller s = Some c"
    and "r_optional (sys (HandleTopLevelWindowProc c h m)) = None" "g_active_window_count s \<noteq> 0"
  shows "run sys (MessageHandler h m Ret) s =
    ([HandleTopLevelWindowProc c h m, Delete_FlutterViewController c] @ (if quit_on_close s then [PostQuitMessage 0] else []),
     Returned 0, s\<lparr>window_handle := None, flutter_controller := None\<rparr>)"
  using assms
  by (simp add: MessageHandler_def FlutterWindow_MessageHandler_def Win32Window_MessageHandler_def Destroy_def
      OnDestroy_def FlutterWindow_OnDestroy_def Win32Window_OnDestroy_def Let_def)

theorem wm_destroy_closes_witness:
  "fst (run (\<lambda>_. demo_reply) (MessageHandler 50 (demo_message WM_DESTROY) Ret)
     (demo_end\<lparr>flutter_controller := Some 9, quit_on_close := True\<rparr>)) =
   [HandleTopLevelWindowProc 9 50 (demo_message WM_DESTROY), Delete_FlutterViewController 9, PostQuitMessage 0]"
  using wm_destroy_closes [of "demo_message WM_DESTROY" "demo_end\<lparr>flutter_controller := Some 9, quit_on_close := True\<rparr>"
      9 "\<lambda>_. demo_reply" 50]
  by (simp add: demo_message_def demo_end_def initial_state_def demo_reply_def)

text \<open>
  \<open>Utf8FromUtf16\<close> passes -1 for the length, so that \<open>WideCharToMultiByte\<close> converts the terminator
  too, and keeps it: each command line argument handed to the engine ends in a zero byte.  The
  hypotheses are the documented answers for a string whose conversion is \<open>bs\<close>.
\<close>

theorem utf8_keeps_terminator:
  assumes "length bs + 1 < 2 ^ 31"
    and "r_num (sys (WideCharToMultiByte str None)) = of_nat (length bs + 1)"
    and "r_num (sys (WideCharToMultiByte str (Some (of_nat (length bs + 1))))) = of_nat (length bs + 1)"
    and "r_bytes (sys (WideCharToMultiByte str (Some (of_nat (length bs + 1))))) = bs @ [0]"
  shows "run sys (Utf8FromUtf16 (Some str) k) s =
    ([WideCharToMultiByte str None, WideCharToMultiByte str (Some (of_nat (length bs + 1)))] @
       fst (run sys (k (bs @ [0])) s), snd (run sys (k (bs @ [0])) s))"
proof -
  let ?n = "of_nat (length bs + 1) :: u32"
  have u: "unat ?n = length bs + 1" using assms(1) unat_of_nat [of "length bs + 1", where 'a = 32] by simp
  then have "?n \<noteq> 0" by (metis add_is_0 one_neq_zero unat_0)
  moreover have "sint ?n = int (length bs + 1)"
    using assms(1) u by (simp only: sint_uint uint_nat) (simp add: signed_take_bit_int_eq_self)
  then have "(scast ?n :: u64) = of_nat (length bs + 1)" by (metis of_int_of_nat_eq of_int_sint)
  then have "\<not> string_max_size < scast ?n"
    using assms(1) unat_of_nat [of "length bs + 1", where 'a = 64]
    by (simp add: word_less_nat_alt string_max_size_def)
  moreover have "overwrite (unat ?n) (bs @ [0]) = bs @ [0]" unfolding u by (simp add: overwrite_def)
  ultimately show ?thesis using assms(2-4) by (simp add: Utf8FromUtf16_def Let_def del: of_nat_add of_nat_Suc)
qed

theorem utf8_keeps_terminator_witness:
  "fst (run (\<lambda>_. demo_reply\<lparr>r_num := 2, r_bytes := [65, 0]\<rparr>)
     (Utf8FromUtf16 (Some [65]) (\<lambda>bs. Call (Set_dart_entrypoint_arguments [bs]) (\<lambda>_. Ret 0))) initial_state) =
   [WideCharToMultiByte [65] None, WideCharToMultiByte [65] (Some 2), Set_dart_entrypoint_arguments [[65, 0]]]"
  using utf8_keeps_terminator [of "[65]" "\<lambda>_. demo_reply\<lparr>r_num := 2, r_bytes := [65, 0]\<rparr>" "[65]"
      "\<lambda>bs. Call (Set_dart_entrypoint_arguments [bs]) (\<lambda>_. Ret 0)" initial_state]
  by (simp add: demo_reply_def)

text \<open>
  The file descriptors of the new console are duplicated only where \<open>freopen_s\<close> failed (it
  returns 0 on success), never where the stream was redirected.
\<close>

theorem console_dup_on_failure:
  "Dup2 fd 1 \<in> set (fst (run sys (CreateAndAttachConsole (Ret 0)) s)) \<longleftrightarrow>
     r_num (sys AllocConsole) \<noteq> 0 \<and> r_num (sys (Freopen_s ''CONOUT$'' Stdout)) \<noteq> 0 \<and>
     fd = r_num (sys (Fileno Stdout))"
  by (auto simp: CreateAndAttachConsole_def Let_def)

text \<open>
  \<open>EnableFullDpiSupportIfAvailable\<close> frees \<open>User32.dll\<close> only where the function was found in it;
  otherwise the module it loaded stays loaded.
\<close>

theorem dpi_module_freed:
  "FreeLibrary l \<in> set (fst (run sys (EnableFullDpiSupportIfAvailable h (Ret 0)) s)) \<longleftrightarrow>
     r_handle (sys (LoadLibraryA ''User32.dll'')) = Some l \<and>
     r_handle (sys (GetProcAddress l ''EnableNonClientDpiScaling'')) \<noteq> None"
  by (auto simp: EnableFullDpiSupportIfAvailable_def split: option.split)

end
