(* ===== verification/Pb_Common.thy ===== *)
theory Pb_Common
  imports Prelude
begin

text \<open>
  nanopb's field descriptions (\<open>pb.h\<close>) and the field iterator (\<open>pb_common.c\<close>), in the
  configuration of the iOS target: \<open>PB_FIELD_32BIT\<close>, \<open>PB_ENABLE_MALLOC\<close> and
  \<open>PB_NO_PACKED_STRUCTS\<close> (so \<open>pb_size_t\<close> is \<open>uint32_t\<close> and \<open>pb_ssize_t\<close> is \<open>int32_t\<close>).

  A \<open>pb_field_t\<close> array is constant data ended by \<open>PB_LAST_FIELD\<close>; it is modelled by the list of
  its entries, terminator included, and a pointer into it by the list and an index.
\<close>

section \<open>Field types\<close>

type_synonym pb_type_t = byte

definition PB_LTYPE_BOOL :: pb_type_t where [simp]: "PB_LTYPE_BOOL = 0x00"
definition PB_LTYPE_VARINT :: pb_type_t where [simp]: "PB_LTYPE_VARINT = 0x01"
definition PB_LTYPE_UVARINT :: pb_type_t where [simp]: "PB_LTYPE_UVARINT = 0x02"
definition PB_LTYPE_SVARINT :: pb_type_t where [simp]: "PB_LTYPE_SVARINT = 0x03"
definition PB_LTYPE_FIXED32 :: pb_type_t where [simp]: "PB_LTYPE_FIXED32 = 0x04"
definition PB_LTYPE_FIXED64 :: pb_type_t where [simp]: "PB_LTYPE_FIXED64 = 0x05"
definition PB_LTYPE_LAST_PACKABLE :: pb_type_t where [simp]: "PB_LTYPE_LAST_PACKABLE = 0x05"
definition PB_LTYPE_BYTES :: pb_type_t where [simp]: "PB_LTYPE_BYTES = 0x06"
definition PB_LTYPE_STRING :: pb_type_t where [simp]: "PB_LTYPE_STRING = 0x07"
definition PB_LTYPE_SUBMESSAGE :: pb_type_t where [simp]: "PB_LTYPE_SUBMESSAGE = 0x08"
definition PB_LTYPE_EXTENSION :: pb_type_t where [simp]: "PB_LTYPE_EXTENSION = 0x09"
definition PB_LTYPE_FIXED_LENGTH_BYTES :: pb_type_t where
  [simp]: "PB_LTYPE_FIXED_LENGTH_BYTES = 0x0A"

definition PB_HTYPE_REQUIRED :: pb_type_t where [simp]: "PB_HTYPE_REQUIRED = 0x00"
definition PB_HTYPE_OPTIONAL :: pb_type_t where [simp]: "PB_HTYPE_OPTIONAL = 0x10"
definition PB_HTYPE_REPEATED :: pb_type_t where [simp]: "PB_HTYPE_REPEATED = 0x20"
definition PB_HTYPE_ONEOF :: pb_type_t where [simp]: "PB_HTYPE_ONEOF = 0x30"

definition PB_ATYPE_STATIC :: pb_type_t where [simp]: "PB_ATYPE_STATIC = 0x00"
definition PB_ATYPE_POINTER :: pb_type_t where [simp]: "PB_ATYPE_POINTER = 0x80"
definition PB_ATYPE_CALLBACK :: pb_type_t where [simp]: "PB_ATYPE_CALLBACK = 0x40"

definition PB_ATYPE :: "pb_type_t \<Rightarrow> pb_type_t" where "PB_ATYPE x = x AND 0xC0"
definition PB_HTYPE :: "pb_type_t \<Rightarrow> pb_type_t" where "PB_HTYPE x = x AND 0x30"
definition PB_LTYPE :: "pb_type_t \<Rightarrow> pb_type_t" where "PB_LTYPE x = x AND 0x0F"

definition PB_SIZE_MAX :: u32 where [simp]: "PB_SIZE_MAX = 0xFFFFFFFF"

section \<open>Field descriptors\<close>

record pb_field =
  f_tag :: u32
  f_type :: pb_type_t
  f_data_offset :: u32
  f_size_offset :: u32
  f_data_size :: u32
  f_array_size :: u32
  f_ptr :: addr

definition PB_LAST_FIELD :: pb_field where
  "PB_LAST_FIELD = \<lparr>f_tag = 0, f_type = 0, f_data_offset = 0, f_size_offset = 0,
     f_data_size = 0, f_array_size = 0, f_ptr = NULL\<rparr>"

text \<open>
  The entry an iterator points at.  The code never looks past the terminator, and the model
  returns the terminator there.
\<close>

definition field_at :: "pb_field list \<Rightarrow> nat \<Rightarrow> pb_field" where
  "field_at fs k = (if k < length fs then fs ! k else PB_LAST_FIELD)"

text \<open>A well-formed description: entries with a tag, then the terminator.\<close>

definition wf_fields :: "pb_field list \<Rightarrow> bool" where
  "wf_fields fs \<longleftrightarrow>
     fs \<noteq> [] \<and> f_tag (last fs) = 0 \<and> list_all (\<lambda>f. f_tag f \<noteq> 0) (butlast fs)"

section \<open>The field iterator\<close>

record pb_field_iter =
  i_start :: "pb_field list"
  i_pos :: nat
  i_required_field_index :: u32
  i_dest_struct :: addr
  i_pData :: addr
  i_pSize :: addr

abbreviation cur_field :: "pb_field_iter \<Rightarrow> pb_field" where
  "cur_field it \<equiv> field_at (i_start it) (i_pos it)"

definition pb_field_iter_begin :: "pb_field list \<Rightarrow> addr \<Rightarrow> bool \<times> pb_field_iter" where
  "pb_field_iter_begin fs dest =
     (let pos = field_at fs 0;
          pData = (if dest = NULL then NULL else dest + ucast (f_data_offset pos));
          pSize = (if dest = NULL then NULL else pData + scast (f_size_offset pos))
      in (f_tag pos \<noteq> 0,
          \<lparr>i_start = fs, i_pos = 0, i_required_field_index = 0, i_dest_struct = dest,
           i_pData = pData, i_pSize = pSize\<rparr>))"

definition iter_prev_size :: "pb_field \<Rightarrow> u64" where
  "iter_prev_size prev =
     (if PB_ATYPE (f_type prev) = PB_ATYPE_STATIC \<and> PB_HTYPE (f_type prev) = PB_HTYPE_REPEATED
      then ucast (f_data_size prev) * ucast (f_array_size prev)
      else if PB_ATYPE (f_type prev) = PB_ATYPE_POINTER then 8
      else ucast (f_data_size prev))"

definition pb_field_iter_next :: "pb_field_iter \<Rightarrow> bool \<times> pb_field_iter" where
  "pb_field_iter_next it =
     (let prev = cur_field it in
      if f_tag prev = 0 then (False, it)
      else
        let it1 = it\<lparr>i_pos := Suc (i_pos it)\<rparr>; pos = cur_field it1 in
        if f_tag pos = 0
        then (False, snd (pb_field_iter_begin (i_start it1) (i_dest_struct it1)))
        else if PB_HTYPE (f_type prev) = PB_HTYPE_ONEOF \<and> PB_HTYPE (f_type pos) = PB_HTYPE_ONEOF
          \<and> f_data_offset pos = PB_SIZE_MAX
        then (True, it1)
        else
          let it2 = (if PB_HTYPE (f_type prev) = PB_HTYPE_REQUIRED
                     then it1\<lparr>i_required_field_index := i_required_field_index it1 + 1\<rparr>
                     else it1);
              pData = i_pData it2 + iter_prev_size prev + ucast (f_data_offset pos)
          in (True, it2\<lparr>i_pData := pData, i_pSize := pData + scast (f_size_offset pos)\<rparr>))"

text \<open>
  The \<open>do \<dots> while (iter->pos != start)\<close> loops.  \<open>None\<close> would be a loop that never gets back
  to its start; for a well-formed description it always does (\<open>pb_field_iter_find_at\<close>).
\<close>

partial_function (option) iter_search ::
  "(pb_field \<Rightarrow> bool) \<Rightarrow> nat \<Rightarrow> pb_field_iter \<Rightarrow> (bool \<times> pb_field_iter) option" where
  "iter_search p start it =
     (if p (cur_field it) then Some (True, it)
      else let it' = snd (pb_field_iter_next it) in
        if i_pos it' = start then Some (False, it') else iter_search p start it')"

definition field_matches :: "u32 \<Rightarrow> pb_field \<Rightarrow> bool" where
  "field_matches tag f \<longleftrightarrow> f_tag f = tag \<and> PB_LTYPE (f_type f) \<noteq> PB_LTYPE_EXTENSION"

definition pb_field_iter_find ::
  "pb_field_iter \<Rightarrow> u32 \<Rightarrow> (bool \<times> pb_field_iter) option" where
  "pb_field_iter_find it tag = iter_search (field_matches tag) (i_pos it) it"

definition find_extension_field :: "pb_field_iter \<Rightarrow> (bool \<times> pb_field_iter) option" where
  "find_extension_field it =
     iter_search (\<lambda>f. PB_LTYPE (f_type f) = PB_LTYPE_EXTENSION) (i_pos it) it"

section \<open>What an iterator holds after k steps\<close>

text \<open>
  The layout the descriptors encode: the address of the data and of the size field of entry
  \<open>k\<close>, and the number of required entries before it.
\<close>

primrec field_addr :: "pb_field list \<Rightarrow> addr \<Rightarrow> nat \<Rightarrow> addr \<times> addr" where
  "field_addr fs dest 0 =
     (if dest = NULL then (NULL, NULL)
      else let d = dest + ucast (f_data_offset (field_at fs 0))
           in (d, d + scast (f_size_offset (field_at fs 0))))"
| "field_addr fs dest (Suc k) =
     (let prev = field_at fs k; pos = field_at fs (Suc k) in
      if PB_HTYPE (f_type prev) = PB_HTYPE_ONEOF \<and> PB_HTYPE (f_type pos) = PB_HTYPE_ONEOF
        \<and> f_data_offset pos = PB_SIZE_MAX
      then field_addr fs dest k
      else let d = fst (field_addr fs dest k) + iter_prev_size prev + ucast (f_data_offset pos)
           in (d, d + scast (f_size_offset pos)))"

definition is_required :: "pb_field \<Rightarrow> bool" where
  "is_required f \<longleftrightarrow> PB_HTYPE (f_type f) = PB_HTYPE_REQUIRED"

definition iter_at :: "pb_field list \<Rightarrow> addr \<Rightarrow> nat \<Rightarrow> pb_field_iter" where
  "iter_at fs dest k =
     \<lparr>i_start = fs, i_pos = k,
      i_required_field_index = of_nat (length (filter is_required (take k fs))),
      i_dest_struct = dest, i_pData = fst (field_addr fs dest k),
      i_pSize = snd (field_addr fs dest k)\<rparr>"

lemma iter_at_sel [simp]:
  "i_start (iter_at fs d k) = fs" "i_pos (iter_at fs d k) = k"
  "i_dest_struct (iter_at fs d k) = d"
  by (simp_all add: iter_at_def)

lemma wf_fields_length: "wf_fields fs \<Longrightarrow> 0 < length fs"
  by (simp add: wf_fields_def)

lemma wf_fields_tag:
  assumes "wf_fields fs" "k < length fs"
  shows "f_tag (field_at fs k) = 0 \<longleftrightarrow> k = length fs - 1"
proof (cases "k = length fs - 1")
  case True
  then show ?thesis
    using assms by (auto simp: wf_fields_def field_at_def last_conv_nth)
next
  case False
  then have k: "k < length (butlast fs)" using assms by simp
  then have "f_tag (butlast fs ! k) \<noteq> 0"
    using assms by (simp add: wf_fields_def list_all_length)
  then show ?thesis
    using False assms k by (simp add: field_at_def nth_butlast)
qed

lemma pb_field_iter_begin_at:
  "pb_field_iter_begin fs dest = (f_tag (field_at fs 0) \<noteq> 0, iter_at fs dest 0)"
  by (simp add: pb_field_iter_begin_def iter_at_def Let_def)

lemma pb_field_iter_next_at:
  assumes "wf_fields fs" "Suc k < length fs"
  shows "pb_field_iter_next (iter_at fs dest k) =
    (if Suc (Suc k) = length fs then (False, iter_at fs dest 0)
     else (True, iter_at fs dest (Suc k)))"
proof -
  have k: "f_tag (field_at fs k) \<noteq> 0"
    using wf_fields_tag [OF assms(1), of k] assms(2) by simp
  have k': "f_tag (field_at fs (Suc k)) = 0 \<longleftrightarrow> Suc (Suc k) = length fs"
    using wf_fields_tag [OF assms] assms(2) by auto
  have req: "filter is_required (take (Suc k) fs) =
      filter is_required (take k fs) @ (if is_required (field_at fs k) then [field_at fs k] else [])"
    using assms(2) by (simp add: take_Suc_conv_app_nth field_at_def)
  have one: "PB_HTYPE (f_type (field_at fs k)) = PB_HTYPE_ONEOF \<Longrightarrow> \<not> is_required (field_at fs k)"
    by (simp add: is_required_def)
  show ?thesis
  proof (cases "Suc (Suc k) = length fs")
    case True
    then show ?thesis
      using k k' by (simp add: pb_field_iter_next_def pb_field_iter_begin_at)
  next
    case False
    then show ?thesis
      using k k' one
      by (simp add: pb_field_iter_next_def Let_def req iter_at_def is_required_def)
  qed
qed

lemma pb_field_iter_next_empty:
  assumes "wf_fields fs" "length fs = 1"
  shows "pb_field_iter_next (iter_at fs dest 0) = (False, iter_at fs dest 0)"
  using wf_fields_tag [OF assms(1), of 0] assms(2)
  by (simp add: pb_field_iter_next_def)

text \<open>The entry the cyclic scan visits \<open>i\<close> steps after entry \<open>c\<close> of \<open>n\<close>.\<close>

definition n_entries :: "pb_field list \<Rightarrow> nat" where
  "n_entries fs = length fs - 1"

lemma pb_field_iter_next_cyc:
  assumes "wf_fields fs" "k < n_entries fs"
  shows "snd (pb_field_iter_next (iter_at fs d k)) = iter_at fs d (Suc k mod n_entries fs)"
  using assms by (auto simp: n_entries_def pb_field_iter_next_at mod_Suc)

lemma iter_search_steps:
  assumes wf: "wf_fields fs" and m: "0 < m" "m \<le> n_entries fs"
  shows "c < n_entries fs \<Longrightarrow> iter_search p ((c + m) mod n_entries fs) (iter_at fs d c) =
    (case find (\<lambda>i. p (field_at fs ((c + i) mod n_entries fs))) [0..<m] of
       Some i \<Rightarrow> Some (True, iter_at fs d ((c + i) mod n_entries fs))
     | None \<Rightarrow> Some (False, iter_at fs d ((c + m) mod n_entries fs)))"
  using m
proof (induction m arbitrary: c)
  case 0
  then show ?case by simp
next
  case (Suc m)
  let ?n = "n_entries fs"
  note c = Suc.prems(1)
  define c' where "c' = Suc c mod ?n"
  have c': "c' < ?n" using c by (simp add: c'_def)
  have add: "(c' + i) mod ?n = (c + Suc i) mod ?n" for i
    by (simp add: c'_def mod_add_left_eq)
  have upt: "[0..<Suc m] = 0 # map Suc [0..<m]"
    by (simp add: map_Suc_upt upt_conv_Cons)
  have find_map: "find q (map Suc xs) = map_option Suc (find (q \<circ> Suc) xs)" for q xs
    by (induction xs) auto
  show ?case
  proof (cases "p (field_at fs c)")
    case True
    then show ?thesis using c by (simp add: iter_search.simps upt del: upt_Suc)
  next
    case nop: False
    have next_it: "snd (pb_field_iter_next (iter_at fs d c)) = iter_at fs d c'"
      by (simp add: c'_def pb_field_iter_next_cyc [OF wf c])
    show ?thesis
    proof (cases "m = 0")
      case True
      then show ?thesis
        using nop c by (subst iter_search.simps) (simp add: Let_def next_it c'_def)
    next
      case False
      have ne: "c' \<noteq> (c' + m) mod ?n"
      proof
        assume "c' = (c' + m) mod ?n"
        then have "(c' + m) mod ?n = (c' + 0) mod ?n" using c' by simp
        then have "m mod ?n = 0" by (metis mod_eq_dvd_iff_nat le_add1 add_diff_cancel_left' mod_eq_0_iff_dvd add_0_right)
        with False Suc.prems(3) show False by simp
      qed
      have "iter_search p ((c + Suc m) mod ?n) (iter_at fs d c) =
          iter_search p ((c' + m) mod ?n) (iter_at fs d c')"
        using nop ne by (subst iter_search.simps) (simp add: Let_def next_it add)
      also have "\<dots> = (case find (\<lambda>i. p (field_at fs ((c' + i) mod ?n))) [0..<m] of
          Some i \<Rightarrow> Some (True, iter_at fs d ((c' + i) mod ?n))
        | None \<Rightarrow> Some (False, iter_at fs d ((c' + m) mod ?n)))"
        using Suc.IH [OF c'] False Suc.prems by simp
      finally show ?thesis
        using nop c by (simp add: upt find_map comp_def add del: upt_Suc split: option.splits)
    qed
  qed
qed


lemma iter_search_full:
  assumes wf: "wf_fields fs" and k: "k < n_entries fs"
  shows "\<exists>j < n_entries fs. iter_search p k (iter_at fs d k) =
      Some (\<exists>i < n_entries fs. p (field_at fs i), iter_at fs d j)
    \<and> (if \<exists>i < n_entries fs. p (field_at fs i) then p (field_at fs j) else j = k)"
proof -
  let ?n = "n_entries fs" and ?q = "\<lambda>i. p (field_at fs ((k + i) mod n_entries fs))"
  have n: "0 < ?n" using k by simp
  have step: "iter_search p k (iter_at fs d k) = (case find ?q [0..<?n] of
       Some i \<Rightarrow> Some (True, iter_at fs d ((k + i) mod ?n))
     | None \<Rightarrow> Some (False, iter_at fs d k))"
    using iter_search_steps [OF wf n order_refl k, of p d] k by (simp split: option.splits)
  show ?thesis
  proof (cases "find ?q [0..<?n]")
    case (Some i)
    then have "?q i" by (auto simp: find_Some_iff)
    then show ?thesis using Some step n by (intro exI [of _ "(k + i) mod ?n"]) auto
  next
    case None
    have no: "\<not> p (field_at fs i)" if i: "i < ?n" for i
    proof
      assume pi: "p (field_at fs i)"
      define r where "r = (if k \<le> i then i - k else i + ?n - k)"
      have "r < ?n" "(k + r) mod ?n = i" using i k by (auto simp: r_def)
      with pi None show False by (auto simp: find_None_iff)
    qed
    then show ?thesis using None step k by auto
  qed
qed

lemma pb_field_iter_find_at:
  assumes "wf_fields fs" "k < n_entries fs"
  shows "\<exists>j < n_entries fs. pb_field_iter_find (iter_at fs d k) tag =
      Some (\<exists>i < n_entries fs. field_matches tag (field_at fs i), iter_at fs d j)
    \<and> (if \<exists>i < n_entries fs. field_matches tag (field_at fs i)
        then field_matches tag (field_at fs j) else j = k)"
  using iter_search_full [OF assms, of "field_matches tag" d]
  by (simp add: pb_field_iter_find_def)

lemma find_extension_field_at:
  assumes "wf_fields fs" "k < n_entries fs"
  shows "\<exists>found j. j < n_entries fs \<and> find_extension_field (iter_at fs d k) = Some (found, iter_at fs d j)"
  using iter_search_full [OF assms, of "\<lambda>f. PB_LTYPE (f_type f) = PB_LTYPE_EXTENSION" d]
  by (auto simp: find_extension_field_def)

text \<open>An empty description: the search looks at the terminator only.\<close>

lemma iter_search_empty:
  assumes "wf_fields fs" "length fs = 1"
  shows "iter_search p 0 (iter_at fs d 0) = Some (p (field_at fs 0), iter_at fs d 0)"
  using assms by (subst iter_search.simps) (simp add: pb_field_iter_next_empty)

end
