(* ===== verification/Pb_Stream.thy ===== *)
theory Pb_Stream
  imports Pb_Common
begin

text \<open>
  The input and output streams of nanopb: \<open>pb_istream_t\<close> with \<open>pb_read\<close> and \<open>pb_readbyte\<close>
  (\<open>pb_decode.c\<close>), \<open>pb_ostream_t\<close> with \<open>pb_write\<close> (\<open>pb_encode.c\<close>).

  The C state the library works on is \<open>cst\<close>: the byte memory and the live blocks of the
  allocator.  Code the library calls through function pointers (custom streams, field
  callbacks, extension handlers), the allocator and the constant descriptor tables are not
  in the library: they are the fields of a \<open>pb_env\<close>, a parameter of every operation.
  A local variable of the C code is a value of the model and has no address.
\<close>

section \<open>State\<close>

record cst =
  cmem :: memory
  cblocks :: "addr \<rightharpoonup> nat"

datatype in_callback = In_Buf | In_User nat

record pb_istream =
  is_callback :: in_callback
  is_state :: addr
  is_bytes_left :: u64
  is_errmsg :: "string option"

datatype out_callback = Out_Null | Out_Buf | Out_User nat

record pb_ostream =
  os_callback :: out_callback
  os_state :: addr
  os_max_size :: u64
  os_bytes_written :: u64
  os_errmsg :: "string option"

type_synonym ist = "pb_istream \<times> cst"
type_synonym ost = "pb_ostream \<times> cst"

text \<open>
  \<open>env_read k state n c\<close> is a custom input callback: the bytes it stores in the buffer, or
  \<open>None\<close> where it returns false, with the stream's new \<open>state\<close> (the only stream field its
  contract in \<open>pb_decode.h\<close> gives it) and the new memory.  \<open>env_fields\<close> maps the address of
  a descriptor array to its entries, \<open>env_realloc\<close> is the address the allocator picks for
  a request (\<open>NULL\<close> where it fails).  The two locals whose address the decoder takes,
  \<open>fixed_count_size\<close> of \<open>pb_decode_noinit\<close> and \<open>buffer\<close> of \<open>decode_callback_field\<close>, are at
  offset 0 and 8 of \<open>env_frame n\<close>, the stack frame at nesting depth \<open>n\<close>.
\<close>

record pb_env =
  env_read :: "nat \<Rightarrow> addr \<Rightarrow> u64 \<Rightarrow> cst \<Rightarrow> (nat \<Rightarrow> byte) option \<times> addr \<times> cst"
  env_write :: "nat \<Rightarrow> addr \<Rightarrow> byte list \<Rightarrow> cst \<Rightarrow> bool \<times> addr \<times> cst"
  env_fields :: "addr \<Rightarrow> pb_field list"
  env_realloc :: "cst \<Rightarrow> addr \<Rightarrow> u64 \<Rightarrow> addr"
  env_decode :: "addr \<Rightarrow> ist \<Rightarrow> pb_field \<Rightarrow> addr \<Rightarrow> bool \<times> ist"
  env_encode :: "addr \<Rightarrow> ost \<Rightarrow> pb_field \<Rightarrow> addr \<Rightarrow> bool \<times> ost"
  env_ext_decode :: "addr \<Rightarrow> ist \<Rightarrow> addr \<Rightarrow> u32 \<Rightarrow> u32 \<Rightarrow> bool \<times> ist"
  env_ext_encode :: "addr \<Rightarrow> ost \<Rightarrow> addr \<Rightarrow> bool \<times> ost"
  env_frame :: "nat \<Rightarrow> addr"

section \<open>Errors\<close>

text \<open>\<open>PB_SET_ERROR\<close>: the first message set is kept.\<close>

text \<open>A program without callbacks, an allocator that always fails, no descriptors.\<close>

definition no_env :: pb_env where
  "no_env = \<lparr>env_read = (\<lambda>k a n c. (None, a, c)), env_write = (\<lambda>k a bs c. (False, a, c)),
     env_fields = (\<lambda>a. []), env_realloc = (\<lambda>c p n. NULL), 
     env_decode = (\<lambda>f st fld a. (False, st)), env_encode = (\<lambda>f st fld a. (False, st)),
     env_ext_decode = (\<lambda>f st e t w. (False, st)), env_ext_encode = (\<lambda>f st e. (False, st)),
     env_frame = (\<lambda>n. - 16 * of_nat (Suc n))\<rparr>"

definition PB_SET_ERROR :: "string option \<Rightarrow> string \<Rightarrow> string option" where
  "PB_SET_ERROR old msg = (case old of Some e \<Rightarrow> Some e | None \<Rightarrow> Some msg)"

definition is_set_error :: "string \<Rightarrow> ist \<Rightarrow> ist" where
  "is_set_error msg st =
     ((fst st)\<lparr>is_errmsg := PB_SET_ERROR (is_errmsg (fst st)) msg\<rparr>, snd st)"

definition os_set_error :: "string \<Rightarrow> ost \<Rightarrow> ost" where
  "os_set_error msg st =
     ((fst st)\<lparr>os_errmsg := PB_SET_ERROR (os_errmsg (fst st)) msg\<rparr>, snd st)"

lemma is_set_error_sel [simp, stream_simps]:
  "is_callback (fst (is_set_error msg st)) = is_callback (fst st)"
  "is_state (fst (is_set_error msg st)) = is_state (fst st)"
  "is_bytes_left (fst (is_set_error msg st)) = is_bytes_left (fst st)"
  "is_errmsg (fst (is_set_error msg st)) = PB_SET_ERROR (is_errmsg (fst st)) msg"
  "snd (is_set_error msg st) = snd st"
  by (simp_all add: is_set_error_def)

lemma os_set_error_sel [simp, stream_simps]:
  "os_callback (fst (os_set_error msg st)) = os_callback (fst st)"
  "os_state (fst (os_set_error msg st)) = os_state (fst st)"
  "os_max_size (fst (os_set_error msg st)) = os_max_size (fst st)"
  "os_bytes_written (fst (os_set_error msg st)) = os_bytes_written (fst st)"
  "os_errmsg (fst (os_set_error msg st)) = PB_SET_ERROR (os_errmsg (fst st)) msg"
  "snd (os_set_error msg st) = snd st"
  by (simp_all add: os_set_error_def)

section \<open>Reading\<close>

text \<open>
  The buffer argument of \<open>pb_read\<close>: \<open>NULL\<close> to skip, a local array of the caller, or memory.
  A successful read returns the bytes it stored, indexed from the start of the buffer.
\<close>

datatype in_buf = IB_Null | IB_Local | IB_Mem addr

definition buf_read :: "in_buf \<Rightarrow> u64 \<Rightarrow> ist \<Rightarrow> (nat \<Rightarrow> byte) \<times> ist" where
  "buf_read buf count st =
     (case st of (s, c) \<Rightarrow>
       let source = is_state s;
           s' = s\<lparr>is_state := source + count\<rparr>;
           c' = (case buf of IB_Mem d \<Rightarrow> c\<lparr>cmem := copy_up (unat count) d source (cmem c)\<rparr> | _ \<Rightarrow> c)
       in ((\<lambda>i. cmem c (source + of_nat i)), (s', c')))"

definition is_call :: "pb_env \<Rightarrow> in_buf \<Rightarrow> u64 \<Rightarrow> ist \<Rightarrow> (nat \<Rightarrow> byte) option \<times> ist" where
  "is_call env buf count st =
     (case is_callback (fst st) of
        In_Buf \<Rightarrow> (case buf_read buf count st of (bs, st') \<Rightarrow> (Some bs, st'))
      | In_User k \<Rightarrow>
          (case env_read env k (is_state (fst st)) count (snd st) of
             (None, a, c') \<Rightarrow> (None, ((fst st)\<lparr>is_state := a\<rparr>, c'))
           | (Some bs, a, c') \<Rightarrow>
               (Some bs, ((fst st)\<lparr>is_state := a\<rparr>,
                  (case buf of
                     IB_Mem d \<Rightarrow> c'\<lparr>cmem := store_bytes (cmem c') d (map bs [0..<unat count])\<rparr>
                   | _ \<Rightarrow> c')))))"

text \<open>\<open>pb_read\<close> from the \<open>bytes_left\<close> check on.\<close>

definition pb_read_checked ::
  "pb_env \<Rightarrow> in_buf \<Rightarrow> u64 \<Rightarrow> ist \<Rightarrow> (nat \<Rightarrow> byte) option \<times> ist" where
  "pb_read_checked env buf count st =
     (if is_bytes_left (fst st) < count then (None, is_set_error ''end-of-stream'' st)
      else case is_call env buf count st of
        (None, st') \<Rightarrow> (None, is_set_error ''io error'' st')
      | (Some bs, (s', c')) \<Rightarrow> (Some bs, (s'\<lparr>is_bytes_left := is_bytes_left s' - count\<rparr>, c')))"

text \<open>The skip loop of \<open>pb_read\<close> for custom streams, sixteen bytes at a time into \<open>tmp\<close>.\<close>

function pb_read_skip :: "pb_env \<Rightarrow> u64 \<Rightarrow> ist \<Rightarrow> (nat \<Rightarrow> byte) option \<times> ist" where
  "pb_read_skip env count st =
     (if 16 < count
      then case pb_read_checked env IB_Local 16 st of
             (None, st') \<Rightarrow> (None, st')
           | (Some bs, st') \<Rightarrow> pb_read_skip env (count - 16) st'
      else pb_read_checked env IB_Local count st)"
  by pat_completeness auto
termination
  by (relation "measure (\<lambda>(env, count, st). unat count)")
    (auto simp: word_less_nat_alt unat_sub_if')

declare pb_read_skip.simps [simp del]

definition pb_read :: "pb_env \<Rightarrow> in_buf \<Rightarrow> u64 \<Rightarrow> ist \<Rightarrow> (nat \<Rightarrow> byte) option \<times> ist" where
  "pb_read env buf count st =
     (if count = 0 then (Some (\<lambda>i. 0), st)
      else if buf = IB_Null \<and> is_callback (fst st) \<noteq> In_Buf then pb_read_skip env count st
      else pb_read_checked env buf count st)"

definition pb_readbyte :: "pb_env \<Rightarrow> ist \<Rightarrow> byte option \<times> ist" where
  "pb_readbyte env st =
     (if is_bytes_left (fst st) = 0 then (None, is_set_error ''end-of-stream'' st)
      else case is_call env IB_Local 1 st of
        (None, st') \<Rightarrow> (None, is_set_error ''io error'' st')
      | (Some bs, (s', c')) \<Rightarrow> (Some (bs 0), (s'\<lparr>is_bytes_left := is_bytes_left s' - 1\<rparr>, c')))"

definition pb_istream_from_buffer :: "addr \<Rightarrow> u64 \<Rightarrow> pb_istream" where
  "pb_istream_from_buffer buf bufsize =
     \<lparr>is_callback = In_Buf, is_state = buf, is_bytes_left = bufsize, is_errmsg = None\<rparr>"

section \<open>Writing\<close>

datatype out_buf = OB_Null | OB_Local "byte list" | OB_Mem addr

definition buf_write :: "out_buf \<Rightarrow> u64 \<Rightarrow> ost \<Rightarrow> ost" where
  "buf_write buf count st =
     (case st of (s, c) \<Rightarrow>
       let dest = os_state s;
           m' = (case buf of
                   OB_Local bs \<Rightarrow> store_bytes (cmem c) dest (take (unat count) bs)
                 | OB_Mem src \<Rightarrow> copy_up (unat count) dest src (cmem c)
                 | OB_Null \<Rightarrow> copy_up (unat count) dest NULL (cmem c))
       in (s\<lparr>os_state := dest + count\<rparr>, c\<lparr>cmem := m'\<rparr>))"

text \<open>The bytes a custom output callback is handed.\<close>

definition out_bytes :: "out_buf \<Rightarrow> u64 \<Rightarrow> cst \<Rightarrow> byte list" where
  "out_bytes buf count c =
     (case buf of
        OB_Local bs \<Rightarrow> take (unat count) bs
      | OB_Mem src \<Rightarrow> load_bytes (cmem c) src (unat count)
      | OB_Null \<Rightarrow> load_bytes (cmem c) NULL (unat count))"

definition os_call :: "pb_env \<Rightarrow> out_buf \<Rightarrow> u64 \<Rightarrow> ost \<Rightarrow> bool \<times> ost" where
  "os_call env buf count st =
     (case os_callback (fst st) of
        Out_User k \<Rightarrow>
          (case env_write env k (os_state (fst st)) (out_bytes buf count (snd st)) (snd st) of
             (ok, a, c') \<Rightarrow> (ok, ((fst st)\<lparr>os_state := a\<rparr>, c')))
      | _ \<Rightarrow> (True, buf_write buf count st))"

definition pb_write :: "pb_env \<Rightarrow> out_buf \<Rightarrow> u64 \<Rightarrow> ost \<Rightarrow> bool \<times> ost" where
  "pb_write env buf count st =
     (let written = os_bytes_written (fst st) in
      if 0 < count \<and> os_callback (fst st) \<noteq> Out_Null then
        (if written + count < written \<or> os_max_size (fst st) < written + count
         then (False, os_set_error ''stream full'' st)
         else case os_call env buf count st of
           (False, st') \<Rightarrow> (False, os_set_error ''io error'' st')
         | (True, (s', c')) \<Rightarrow> (True, (s'\<lparr>os_bytes_written := os_bytes_written s' + count\<rparr>, c')))
      else (True, ((fst st)\<lparr>os_bytes_written := written + count\<rparr>, snd st)))"

definition pb_ostream_from_buffer :: "addr \<Rightarrow> u64 \<Rightarrow> pb_ostream" where
  "pb_ostream_from_buffer buf bufsize =
     \<lparr>os_callback = Out_Buf, os_state = buf, os_max_size = bufsize, os_bytes_written = 0,
      os_errmsg = None\<rparr>"

definition PB_OSTREAM_SIZING :: pb_ostream where
  "PB_OSTREAM_SIZING =
     \<lparr>os_callback = Out_Null, os_state = NULL, os_max_size = 0, os_bytes_written = 0,
      os_errmsg = None\<rparr>"


section \<open>Streams over a memory buffer\<close>

text \<open>
  \<open>is_advance n\<close> is an input stream \<open>n\<close> bytes further on; \<open>in_view\<close> the bytes it has left;
  \<open>os_emit bs\<close> an output stream to which \<open>bs\<close> have been written.
\<close>

definition is_advance :: "u64 \<Rightarrow> ist \<Rightarrow> ist" where
  "is_advance n st =
     ((fst st)\<lparr>is_state := is_state (fst st) + n, is_bytes_left := is_bytes_left (fst st) - n\<rparr>, snd st)"

definition in_view :: "ist \<Rightarrow> byte list" where
  "in_view st = load_bytes (cmem (snd st)) (is_state (fst st)) (unat (is_bytes_left (fst st)))"

definition in_buffer :: "ist \<Rightarrow> bool" where
  "in_buffer st \<longleftrightarrow> is_callback (fst st) = In_Buf"

lemma is_advance_sel [simp, stream_simps]:
  "is_callback (fst (is_advance n st)) = is_callback (fst st)"
  "is_state (fst (is_advance n st)) = is_state (fst st) + n"
  "is_bytes_left (fst (is_advance n st)) = is_bytes_left (fst st) - n"
  "is_errmsg (fst (is_advance n st)) = is_errmsg (fst st)"
  "snd (is_advance n st) = snd st"
  by (simp_all add: is_advance_def)

lemma is_advance_0 [simp]: "is_advance 0 st = st"
  by (simp add: is_advance_def)

lemma is_advance_advance [simp]: "is_advance m (is_advance n st) = is_advance (n + m) st"
  by (simp add: is_advance_def algebra_simps)

lemma in_buffer_advance [simp]: "in_buffer (is_advance n st) = in_buffer st"
  by (simp add: in_buffer_def)

lemma length_in_view [simp]: "length (in_view st) = unat (is_bytes_left (fst st))"
  by (simp add: in_view_def)

lemma in_view_Nil_iff: "in_view st = [] \<longleftrightarrow> is_bytes_left (fst st) = 0"
  by (metis length_0_conv length_in_view unat_0_iff)

lemma in_view_advance:
  assumes "n \<le> is_bytes_left (fst st)"
  shows "in_view (is_advance n st) = drop (unat n) (in_view st)"
proof -
  have "unat n \<le> unat (is_bytes_left (fst st))" using assms by (simp add: word_le_nat_alt)
  then show ?thesis
    using assms by (simp add: in_view_def drop_load_bytes unat_sub)
qed

lemma in_view_from_buffer [simp]:
  "in_view (pb_istream_from_buffer a n, c) = load_bytes (cmem c) a (unat n)"
  by (simp add: in_view_def pb_istream_from_buffer_def)

lemma in_buffer_from_buffer [simp]: "in_buffer (pb_istream_from_buffer a n, c)"
  by (simp add: in_buffer_def pb_istream_from_buffer_def)

text \<open>\<open>pb_readbyte\<close> and \<open>pb_read\<close> on a buffer: the head of the view, or \<open>end-of-stream\<close>.\<close>

lemma pb_readbyte_buffer [stream_simps]:
  assumes "in_buffer st"
  shows "pb_readbyte env st =
    (if is_bytes_left (fst st) = 0 then (None, is_set_error ''end-of-stream'' st)
     else (Some (hd (in_view st)), is_advance 1 st))"
proof (cases "is_bytes_left (fst st) = 0")
  case True
  then show ?thesis by (simp add: pb_readbyte_def)
next
  case False
  then obtain n where "unat (is_bytes_left (fst st)) = Suc n"
    by (metis not0_implies_Suc unat_0_iff)
  then show ?thesis
    using assms False
    by (simp add: pb_readbyte_def is_call_def buf_read_def in_buffer_def in_view_def is_advance_def
        Let_def case_prod_beta)
qed

lemma pb_read_checked_buffer [stream_simps]:
  assumes "in_buffer st" "buf = IB_Null \<or> buf = IB_Local"
  shows "pb_read_checked env buf n st =
    (if is_bytes_left (fst st) < n then (None, is_set_error ''end-of-stream'' st)
     else (Some (\<lambda>i. cmem (snd st) (is_state (fst st) + of_nat i)), is_advance n st))"
  using assms
  by (auto simp: pb_read_checked_def is_call_def buf_read_def in_buffer_def is_advance_def
      Let_def case_prod_beta)

lemma pb_read_buffer [stream_simps]:
  assumes "in_buffer st" "buf = IB_Null \<or> buf = IB_Local" "n \<noteq> 0"
  shows "pb_read env buf n st =
    (if is_bytes_left (fst st) < n then (None, is_set_error ''end-of-stream'' st)
     else (Some (\<lambda>i. cmem (snd st) (is_state (fst st) + of_nat i)), is_advance n st))"
  using assms by (auto simp: pb_read_def in_buffer_def pb_read_checked_buffer)

lemma pb_read_0 [simp]: "pb_read env buf 0 st = (Some (\<lambda>i. 0), st)"
  by (simp add: pb_read_def)

section \<open>Byte accounting, for every stream\<close>

text \<open>
  Whatever the callback does, a successful read takes exactly its count off \<open>bytes_left\<close>, and a
  failed one leaves it or has taken less: no read gets past \<open>bytes_left\<close>.
\<close>

lemma is_call_left [frame_rules]:
  "is_call env buf n st = (r, st') \<Longrightarrow>
     is_bytes_left (fst st') = is_bytes_left (fst st) \<and> is_callback (fst st') = is_callback (fst st)
     \<and> is_errmsg (fst st') = is_errmsg (fst st)"
  by (auto simp: is_call_def buf_read_def Let_def
      split: in_callback.splits prod.splits option.splits)

lemma pb_read_checked_left:
  "pb_read_checked env buf n st = (r, st') \<Longrightarrow>
     is_callback (fst st') = is_callback (fst st) \<and>
     (case r of Some bs \<Rightarrow> n \<le> is_bytes_left (fst st) \<and>
                  is_bytes_left (fst st') = is_bytes_left (fst st) - n
      | None \<Rightarrow> is_bytes_left (fst st') = is_bytes_left (fst st))"
  by (auto simp: pb_read_checked_def not_less dest!: is_call_left
      split: if_splits prod.splits option.splits)

lemma pb_read_skip_left:
  "pb_read_skip env n st = (r, st') \<Longrightarrow>
     is_callback (fst st') = is_callback (fst st) \<and>
     (case r of Some bs \<Rightarrow> n \<le> is_bytes_left (fst st) \<and>
                  is_bytes_left (fst st') = is_bytes_left (fst st) - n
      | None \<Rightarrow> is_bytes_left (fst st') \<le> is_bytes_left (fst st))"
proof (induction env n st arbitrary: r st' rule: pb_read_skip.induct)
  case (1 env n st)
  show ?case
  proof (cases "16 < n")
    case False
    with "1.prems" show ?thesis
      by (auto simp: pb_read_skip.simps [of env n st] dest!: pb_read_checked_left
          split: option.splits)
  next
    case big: True
    obtain r1 st1 where Pair: "pb_read_checked env IB_Local 16 st = (r1, st1)"
      by (cases "pb_read_checked env IB_Local 16 st") blast
    show ?thesis
    proof -
      note left1 = pb_read_checked_left [OF Pair]
      show ?thesis
      proof (cases r1)
        case None
        with "1.prems" big Pair left1 show ?thesis
          by (auto simp: pb_read_skip.simps [of env n st])
      next
        case (Some bs)
        with "1.prems" big Pair have rec: "pb_read_skip env (n - 16) st1 = (r, st')"
          by (simp add: pb_read_skip.simps [of env n st])
        note IH = "1.IH" [OF big Pair [symmetric] Some rec]
        have le: "16 \<le> is_bytes_left (fst st)" "is_bytes_left (fst st1) = is_bytes_left (fst st) - 16"
          using left1 Some by auto
        show ?thesis
        proof (cases r)
          case r: (Some bs')
          have "n - 16 \<le> is_bytes_left (fst st) - 16" using IH le r by simp
          then have "n \<le> is_bytes_left (fst st)"
            using le(1) big by (simp add: word_le_nat_alt word_less_nat_alt unat_sub_if')
          then show ?thesis using IH le r left1 by simp
        next
          case r: None
          have "is_bytes_left (fst st') \<le> is_bytes_left (fst st) - 16" using IH le r by simp
          then have "is_bytes_left (fst st') \<le> is_bytes_left (fst st)"
            using le(1) by (simp add: word_le_nat_alt unat_sub_if')
          then show ?thesis using IH r left1 by simp
        qed
      qed
    qed
  qed
qed

lemma pb_read_left:
  "pb_read env buf n st = (r, st') \<Longrightarrow>
     is_callback (fst st') = is_callback (fst st) \<and>
     (case r of Some bs \<Rightarrow> n \<le> is_bytes_left (fst st) \<and>
                  is_bytes_left (fst st') = is_bytes_left (fst st) - n
      | None \<Rightarrow> is_bytes_left (fst st') \<le> is_bytes_left (fst st))"
  by (auto simp: pb_read_def dest!: pb_read_skip_left pb_read_checked_left
      split: if_splits option.splits)

lemma pb_readbyte_left:
  "pb_readbyte env st = (r, st') \<Longrightarrow>
     is_callback (fst st') = is_callback (fst st) \<and>
     (case r of Some b \<Rightarrow> is_bytes_left (fst st) \<noteq> 0 \<and>
                  is_bytes_left (fst st') = is_bytes_left (fst st) - 1
      | None \<Rightarrow> is_bytes_left (fst st') = is_bytes_left (fst st))"
  by (auto simp: pb_readbyte_def dest!: is_call_left split: if_splits prod.splits option.splits)

lemma pb_readbyte_less:
  assumes "pb_readbyte env st = (Some b, st')"
  shows "unat (is_bytes_left (fst st')) < unat (is_bytes_left (fst st))"
  using pb_readbyte_left [OF assms] by (simp add: unat_minus_one unat_gt_0)

end
