(* ===== verification/Pb_Istream.thy ===== *)
theory Pb_Istream
  imports Pb_Stream
begin

text \<open>
  The wire-level decoders of \<open>pb_decode.c\<close>: varints, tags, skipping, substreams and the
  fixed-width values.  Each operation is the C function over an \<open>ist\<close>: it returns
  \<open>None\<close> (or \<open>False\<close>) where the C function returns false, with the stream as it leaves it.
\<close>

section \<open>Wire types\<close>

type_synonym pb_wire_type_t = u32

definition PB_WT_VARINT :: pb_wire_type_t where [simp]: "PB_WT_VARINT = 0"
definition PB_WT_64BIT :: pb_wire_type_t where [simp]: "PB_WT_64BIT = 1"
definition PB_WT_STRING :: pb_wire_type_t where [simp]: "PB_WT_STRING = 2"
definition PB_WT_32BIT :: pb_wire_type_t where [simp]: "PB_WT_32BIT = 5"

section \<open>Varints\<close>

text \<open>
  The \<open>do \<dots> while (byte & 0x80)\<close> loop of \<open>pb_decode_varint32_eof\<close>.  \<open>bitpos\<close> is an
  \<open>uint_fast8_t\<close>, eight bits wide on the target, and wraps.  The result is the value, the
  final \<open>bitpos\<close> and the last byte.
\<close>

function varint32_loop :: "pb_env \<Rightarrow> byte \<Rightarrow> u32 \<Rightarrow> ist \<Rightarrow> (u32 \<times> byte \<times> byte) option \<times> ist" where
  "varint32_loop env bitpos result st =
     (case pb_readbyte env st of
        (None, st') \<Rightarrow> (None, st')
      | (Some byte, st') \<Rightarrow>
          let sign_extension = (if bitpos < 63 then 0xFF else 0x01 :: byte) in
          if 32 \<le> bitpos \<and> byte AND 0x7F \<noteq> 0 \<and> (drop_bit 31 result = 0 \<or> byte \<noteq> sign_extension)
          then (None, is_set_error ''varint overflow'' st')
          else
            let result' = (if 32 \<le> bitpos then result
                           else result OR push_bit (unat bitpos) (ucast (byte AND 0x7F)));
                bitpos' = bitpos + 7
            in if byte AND 0x80 \<noteq> 0 then varint32_loop env bitpos' result' st'
               else (Some (result', bitpos', byte), st'))"
  by pat_completeness auto
termination
  by (relation "measure (\<lambda>(env, bitpos, result, st). unat (is_bytes_left (fst st)))")
    (auto dest!: pb_readbyte_less [OF sym])

declare varint32_loop.simps [simp del]

text \<open>The second component of the result is whether \<open>*eof\<close> was set.\<close>

definition pb_decode_varint32_eof :: "pb_env \<Rightarrow> ist \<Rightarrow> u32 option \<times> bool \<times> ist" where
  "pb_decode_varint32_eof env st =
     (case pb_readbyte env st of
        (None, st') \<Rightarrow> (None, is_bytes_left (fst st') = 0, st')
      | (Some byte, st') \<Rightarrow>
          if byte AND 0x80 = 0 then (Some (ucast byte), False, st')
          else case varint32_loop env 7 (ucast (byte AND 0x7F)) st' of
            (None, st'') \<Rightarrow> (None, False, st'')
          | (Some (result, bitpos, last_byte), st'') \<Rightarrow>
              if bitpos = 35 \<and> last_byte AND 0x70 \<noteq> 0
              then (None, False, is_set_error ''varint overflow'' st'')
              else (Some result, False, st''))"

definition pb_decode_varint32 :: "pb_env \<Rightarrow> ist \<Rightarrow> u32 option \<times> ist" where
  "pb_decode_varint32 env st =
     (case pb_decode_varint32_eof env st of (r, eof, st') \<Rightarrow> (r, st'))"

function varint_loop :: "pb_env \<Rightarrow> byte \<Rightarrow> u64 \<Rightarrow> ist \<Rightarrow> u64 option \<times> ist" where
  "varint_loop env bitpos result st =
     (if 64 \<le> bitpos then (None, is_set_error ''varint overflow'' st)
      else case pb_readbyte env st of
        (None, st') \<Rightarrow> (None, st')
      | (Some byte, st') \<Rightarrow>
          let result' = result OR push_bit (unat bitpos) (ucast (byte AND 0x7F)) in
          if byte AND 0x80 \<noteq> 0 then varint_loop env (bitpos + 7) result' st'
          else (Some result', st'))"
  by pat_completeness auto
termination
  by (relation "measure (\<lambda>(env, bitpos, result, st). unat (is_bytes_left (fst st)))")
    (auto dest!: pb_readbyte_less [OF sym])

declare varint_loop.simps [simp del]

definition pb_decode_varint :: "pb_env \<Rightarrow> ist \<Rightarrow> u64 option \<times> ist" where
  "pb_decode_varint env st = varint_loop env 0 0 st"

section \<open>Skipping\<close>

lemma pb_read1_less:
  assumes "pb_read env buf 1 st = (Some bs, st')"
  shows "unat (is_bytes_left (fst st')) < unat (is_bytes_left (fst st))"
proof -
  have "1 \<le> is_bytes_left (fst st)" "is_bytes_left (fst st') = is_bytes_left (fst st) - 1"
    using pb_read_left [OF assms] by auto
  moreover from this(1) have "is_bytes_left (fst st) \<noteq> 0" by auto
  ultimately show ?thesis by (simp add: unat_minus_one unat_gt_0)
qed

function pb_skip_varint :: "pb_env \<Rightarrow> ist \<Rightarrow> bool \<times> ist" where
  "pb_skip_varint env st =
     (case pb_read env IB_Local 1 st of
        (None, st') \<Rightarrow> (False, st')
      | (Some bs, st') \<Rightarrow> if bs 0 AND 0x80 \<noteq> 0 then pb_skip_varint env st' else (True, st'))"
  by pat_completeness auto
termination
  by (relation "measure (\<lambda>(env, st). unat (is_bytes_left (fst st)))")
    (auto dest!: pb_read1_less [OF sym])

declare pb_skip_varint.simps [simp del]

text \<open>\<open>pb_read\<close> where only its truth value is used.\<close>

definition pb_skip_bytes :: "pb_env \<Rightarrow> u64 \<Rightarrow> ist \<Rightarrow> bool \<times> ist" where
  "pb_skip_bytes env n st = (case pb_read env IB_Null n st of (r, st') \<Rightarrow> (r \<noteq> None, st'))"

definition pb_skip_string :: "pb_env \<Rightarrow> ist \<Rightarrow> bool \<times> ist" where
  "pb_skip_string env st =
     (case pb_decode_varint32 env st of
        (None, st') \<Rightarrow> (False, st')
      | (Some len, st') \<Rightarrow> pb_skip_bytes env (ucast len) st')"

definition pb_skip_field :: "pb_env \<Rightarrow> pb_wire_type_t \<Rightarrow> ist \<Rightarrow> bool \<times> ist" where
  "pb_skip_field env wire_type st =
     (if wire_type = PB_WT_VARINT then pb_skip_varint env st
      else if wire_type = PB_WT_64BIT then pb_skip_bytes env 8 st
      else if wire_type = PB_WT_STRING then pb_skip_string env st
      else if wire_type = PB_WT_32BIT then pb_skip_bytes env 4 st
      else (False, is_set_error ''invalid wire_type'' st))"

section \<open>Tags\<close>

record tag_result =
  tr_ok :: bool
  tr_wire_type :: pb_wire_type_t
  tr_tag :: u32
  tr_eof :: bool

definition pb_decode_tag :: "pb_env \<Rightarrow> ist \<Rightarrow> tag_result \<times> ist" where
  "pb_decode_tag env st =
     (case pb_decode_varint32_eof env st of
        (None, eof, st') \<Rightarrow> (\<lparr>tr_ok = False, tr_wire_type = 0, tr_tag = 0, tr_eof = eof\<rparr>, st')
      | (Some temp, eof, st') \<Rightarrow>
          if temp = 0
          then (\<lparr>tr_ok = False, tr_wire_type = 0, tr_tag = 0, tr_eof = True\<rparr>, st')
          else (\<lparr>tr_ok = True, tr_wire_type = temp AND 7, tr_tag = drop_bit 3 temp,
                 tr_eof = eof\<rparr>, st'))"

section \<open>Raw values and substreams\<close>

text \<open>
  \<open>read_raw_value\<close>: the bytes put in the caller's buffer of \<open>max_size\<close> bytes, in order.
\<close>

function read_raw_varint :: "pb_env \<Rightarrow> u64 \<Rightarrow> byte list \<Rightarrow> ist \<Rightarrow> byte list option \<times> ist" where
  "read_raw_varint env max_size buf st =
     (if max_size < of_nat (Suc (length buf)) then (None, st)
      else case pb_read env IB_Local 1 st of
        (None, st') \<Rightarrow> (None, st')
      | (Some bs, st') \<Rightarrow>
          let buf' = buf @ [bs 0] in
          if bs 0 AND 0x80 \<noteq> 0 then read_raw_varint env max_size buf' st' else (Some buf', st'))"
  by pat_completeness auto
termination
  by (relation "measure (\<lambda>(env, max_size, buf, st). unat (is_bytes_left (fst st)))")
    (auto dest!: pb_read1_less [OF sym])

declare read_raw_varint.simps [simp del]

definition read_raw_value ::
  "pb_env \<Rightarrow> pb_wire_type_t \<Rightarrow> u64 \<Rightarrow> ist \<Rightarrow> byte list option \<times> ist" where
  "read_raw_value env wire_type max_size st =
     (if wire_type = PB_WT_VARINT then read_raw_varint env max_size [] st
      else if wire_type = PB_WT_64BIT then
        (case pb_read env IB_Local 8 st of (r, st') \<Rightarrow> (map_option (\<lambda>bs. map bs [0..<8]) r, st'))
      else if wire_type = PB_WT_32BIT then
        (case pb_read env IB_Local 4 st of (r, st') \<Rightarrow> (map_option (\<lambda>bs. map bs [0..<4]) r, st'))
      else (None, is_set_error ''invalid wire_type'' st))"

definition pb_make_string_substream :: "pb_env \<Rightarrow> ist \<Rightarrow> pb_istream option \<times> ist" where
  "pb_make_string_substream env st =
     (case pb_decode_varint32 env st of
        (None, st') \<Rightarrow> (None, st')
      | (Some sz, (s, c)) \<Rightarrow>
          if is_bytes_left s < ucast sz
          then (None, is_set_error ''parent stream too short'' (s, c))
          else (Some (s\<lparr>is_bytes_left := ucast sz\<rparr>),
                (s\<lparr>is_bytes_left := is_bytes_left s - ucast sz\<rparr>, c)))"

text \<open>The parent stream, the substream and the memory; \<open>False\<close> leaves the parent as it was.\<close>

definition pb_close_string_substream :: "pb_env \<Rightarrow> pb_istream \<Rightarrow> ist \<Rightarrow> bool \<times> ist" where
  "pb_close_string_substream env stream sub =
     (case (if is_bytes_left (fst sub) \<noteq> 0 then pb_skip_bytes env (is_bytes_left (fst sub)) sub
            else (True, sub)) of
        (False, (sub', c')) \<Rightarrow> (False, (stream, c'))
      | (True, (sub', c')) \<Rightarrow>
          (True, (stream\<lparr>is_state := is_state sub', is_errmsg := is_errmsg sub'\<rparr>, c')))"

section \<open>Values\<close>

definition pb_decode_svarint :: "pb_env \<Rightarrow> ist \<Rightarrow> u64 option \<times> ist" where
  "pb_decode_svarint env st =
     (case pb_decode_varint env st of
        (None, st') \<Rightarrow> (None, st')
      | (Some value, st') \<Rightarrow>
          (Some (if value AND 1 \<noteq> 0 then NOT (drop_bit 1 value) else drop_bit 1 value), st'))"

definition pb_decode_fixed32 :: "pb_env \<Rightarrow> ist \<Rightarrow> u32 option \<times> ist" where
  "pb_decode_fixed32 env st =
     (case pb_read env IB_Local 4 st of
        (None, st') \<Rightarrow> (None, st')
      | (Some bytes, st') \<Rightarrow>
          (Some (push_bit 0 (ucast (bytes 0)) OR push_bit 8 (ucast (bytes 1)) OR
                 push_bit 16 (ucast (bytes 2)) OR push_bit 24 (ucast (bytes 3))), st'))"

definition pb_decode_fixed64 :: "pb_env \<Rightarrow> ist \<Rightarrow> u64 option \<times> ist" where
  "pb_decode_fixed64 env st =
     (case pb_read env IB_Local 8 st of
        (None, st') \<Rightarrow> (None, st')
      | (Some bytes, st') \<Rightarrow>
          (Some (push_bit 0 (ucast (bytes 0)) OR push_bit 8 (ucast (bytes 1)) OR
                 push_bit 16 (ucast (bytes 2)) OR push_bit 24 (ucast (bytes 3)) OR
                 push_bit 32 (ucast (bytes 4)) OR push_bit 40 (ucast (bytes 5)) OR
                 push_bit 48 (ucast (bytes 6)) OR push_bit 56 (ucast (bytes 7))), st'))"

end
