(* ===== verification/Pb_Wire.thy ===== *)
theory Pb_Wire
  imports Pb_Ostream
begin

text \<open>
  The wire format: what the encoders of \<open>Pb_Ostream\<close> put on a stream and what the decoders of
  \<open>Pb_Istream\<close> read back.  \<open>leb128\<close> is the base-128 encoding the format prescribes,
  \<open>leb_word\<close> its value.  The two interfaces are \<open>pb_source\<close> (a stream \<open>pb_readbyte\<close> takes
  bytes from) and \<open>pb_sink\<close> (a stream \<open>pb_write\<close> puts bytes on); the buffer streams
  and the sizing stream of the code are their instances.
\<close>

section \<open>Base-128 encodings\<close>

primrec leb_word :: "byte list \<Rightarrow> 'a::len word" where
  "leb_word [] = 0"
| "leb_word (b # bs) = ucast (b AND 0x7F) OR push_bit 7 (leb_word bs)"

primrec leb_end :: "byte list \<Rightarrow> bool" where
  "leb_end [] = False"
| "leb_end (b # bs) = (if b AND 0x80 = 0 then bs = [] else leb_end bs)"

function leb128 :: "u64 \<Rightarrow> byte list" where
  "leb128 v =
     (if v \<le> 0x7F then [ucast v]
      else ucast ((v AND 0x7F) OR 0x80) # leb128 (drop_bit 7 v))"
  by pat_completeness auto
termination
proof (relation "measure unat")
  fix v :: u64
  assume "\<not> v \<le> 0x7F"
  then have "v \<noteq> 0" by auto
  then have "unat v div 2 ^ 7 < unat v" by (intro div_less_dividend) (simp_all add: unat_gt_0)
  then show "(drop_bit 7 v, v) \<in> measure unat" by (simp add: drop_bit_eq_div unat_div)
qed simp

declare leb128.simps [simp del]

lemma leb128_not_Nil [simp]: "leb128 v \<noteq> []"
  by (simp add: leb128.simps [of v])



lemma and_0x80_eq_0_iff: "b AND 0x80 = 0 \<longleftrightarrow> \<not> bit b 7" for b :: "'a::len word"
  using and_exp_eq_0_iff_not_bit [of b 7] by simp

lemma le_0x7F_iff: "v \<le> 0x7F \<longleftrightarrow> drop_bit 7 v = 0" for v :: u64
  by (auto simp: drop_bit_eq_div word_le_nat_alt unat_div word_unat_eq_iff)

lemma le_0x7F_bit: "v \<le> 0x7F \<Longrightarrow> bit v n \<Longrightarrow> n < 7" for v :: u64
proof (rule ccontr)
  assume "v \<le> 0x7F" "bit v n" "\<not> n < 7"
  then have "bit (drop_bit 7 v) (n - 7)" by (simp add: bit_drop_bit_eq)
  with \<open>v \<le> 0x7F\<close> show False by (simp add: le_0x7F_iff)
qed

lemma ucast_or_0x80:
  fixes v :: u64
  shows "(ucast (v AND 0x7F OR 0x80) :: byte) AND 0x80 \<noteq> 0"
    "(ucast (v AND 0x7F OR 0x80) :: byte) AND 0x7F = ucast (v AND 0x7F)"
   apply (simp add: and_0x80_eq_0_iff bit_simps)
  by (rule bit_word_eqI) (auto simp: bit_simps)

lemma ucast_small:
  fixes v :: u64
  assumes "v \<le> 0x7F"
  shows "(ucast v :: byte) AND 0x80 = 0" "ucast ((ucast v :: byte) AND 0x7F) = v"
  using le_0x7F_bit [OF assms]
   apply (auto simp: and_0x80_eq_0_iff bit_simps)[1]
  by (rule bit_word_eqI) (use le_0x7F_bit [OF assms] in \<open>fastforce simp: bit_simps\<close>)

lemma leb_end_leb128: "leb_end (leb128 v)"
proof (induction v rule: leb128.induct)
  case (1 v)
  then show ?case
    by (subst leb128.simps) (simp add: ucast_or_0x80 ucast_small)
qed

lemma leb_word_leb128: "leb_word (leb128 v) = v"
proof (induction v rule: leb128.induct)
  case (1 v)
  show ?case
  proof (cases "v \<le> 0x7F")
    case True
    then show ?thesis by (subst leb128.simps) (simp add: ucast_small)
  next
    case False
    have "ucast (ucast (v AND 0x7F) :: byte) OR push_bit 7 (drop_bit 7 v) = v"
    proof (rule bit_word_eqI)
      fix n assume "n < LENGTH(64)"
      then show "bit (ucast (ucast (v AND 0x7F) :: byte) OR push_bit 7 (drop_bit 7 v)) n = bit v n"
        by (cases "n < 7") (auto simp: bit_simps not_less le_add_diff_inverse)
    qed
    with False 1 show ?thesis
      by (subst leb128.simps) (simp add: ucast_or_0x80)
  qed
qed


lemma length_leb128_le: "0 < k \<Longrightarrow> unat v < 2 ^ (7 * k) \<Longrightarrow> length (leb128 v) \<le> k"
proof (induction v arbitrary: k rule: leb128.induct)
  case (1 v)
  show ?case
  proof (cases "v \<le> 0x7F")
    case True
    then show ?thesis using "1.prems" by (subst leb128.simps) simp
  next
    case False
    then have "128 \<le> unat v" by (simp add: word_le_nat_alt not_le)
    with "1.prems" have k: "1 < k"
      by (cases "k = 1") auto
    then obtain j where j: "k = Suc j" "0 < j" by (cases k) auto
    have "unat (drop_bit 7 v) < 2 ^ (7 * j)"
      using "1.prems"(2) j by (simp add: drop_bit_eq_div unat_div power_add less_mult_imp_div_less mult.commute)
    from "1.IH" [OF False j(2) this] show ?thesis
      using False j by (subst leb128.simps) simp
  qed
qed

lemma length_leb128_bound: "length (leb128 v) \<le> 10"
proof (rule length_leb128_le)
  have "unat v < 2 ^ LENGTH(64)" by (rule unsigned_less)
  then show "unat v < 2 ^ (7 * 10)" by simp
qed simp

lemma length_leb128_gt: "unat v \<ge> 2 ^ (7 * k) \<Longrightarrow> k < length (leb128 v)"
proof (induction v arbitrary: k rule: leb128.induct)
  case (1 v)
  show ?case
  proof (cases k)
    case 0
    then show ?thesis by simp
  next
    case (Suc j)
    have "(2 :: nat) ^ 7 \<le> 2 ^ (7 * k)" using Suc by (intro power_increasing) auto
    with "1.prems" have big: "\<not> v \<le> 0x7F" by (simp add: word_le_nat_alt not_le)
    have "2 ^ (7 * j) \<le> unat (drop_bit 7 v)"
      using "1.prems" Suc by (simp add: drop_bit_eq_div unat_div power_add less_eq_div_iff_mult_less_eq mult.commute)
    from "1.IH" [OF big this] show ?thesis
      using big Suc by (subst leb128.simps) simp
  qed
qed

section \<open>The encoder's buffer\<close>

definition varint_bytes :: "u64 \<Rightarrow> byte list" where
  "varint_bytes v =
     (if v \<le> 0x7F then [ucast v]
      else let b = varint_fill v [] in b[length b - 1 := b ! (length b - 1) AND 0x7F])"

lemma varint_fill_append: "varint_fill v (xs @ ys) = xs @ varint_fill v ys"
proof (induction v ys rule: varint_fill.induct)
  case (1 v ys)
  then show ?case
    by (subst varint_fill.simps) (subst (2) varint_fill.simps, simp)
qed

lemma varint_fill_Cons:
  "varint_fill v [] =
    (if v = 0 then [] else ucast ((v AND 0x7F) OR 0x80) # varint_fill (drop_bit 7 v) [])"
  using varint_fill_append [of "drop_bit 7 v" "[ucast ((v AND 0x7F) OR 0x80)]" "[]"]
  by (subst varint_fill.simps) simp

lemma ucast_and_0x7F:
  fixes v :: u64
  assumes "v \<le> 0x7F"
  shows "(ucast (v AND 0x7F OR 0x80) :: byte) AND 0x7F = ucast v"
  by (rule bit_word_eqI) (use le_0x7F_bit [OF assms] in \<open>auto simp: bit_simps\<close>)

lemma varint_fill_leb128:
  assumes "v \<noteq> 0"
  shows "varint_fill v [] \<noteq> [] \<and>
    (let b = varint_fill v [] in b[length b - 1 := b ! (length b - 1) AND 0x7F]) = leb128 v"
  using assms
proof (induction v rule: leb128.induct)
  case (1 v)
  let ?b = "varint_fill (drop_bit 7 v) []"
  show ?case
  proof (cases "v \<le> 0x7F")
    case True
    with "1.prems" show ?thesis
      by (simp add: varint_fill_Cons [of v] varint_fill_Cons [of 0] le_0x7F_iff leb128.simps [of v]
          ucast_and_0x7F)
  next
    case False
    then have "drop_bit 7 v \<noteq> 0" by (simp add: le_0x7F_iff)
    from "1.IH" [OF False this] obtain
      ne: "?b \<noteq> []" and eq: "?b[length ?b - 1 := ?b ! (length ?b - 1) AND 0x7F] = leb128 (drop_bit 7 v)"
      by (auto simp: Let_def)
    then obtain n where "length ?b = Suc n" by (cases "length ?b") auto
    with eq False "1.prems" show ?thesis
      by (simp add: varint_fill_Cons [of v] leb128.simps [of v])
  qed
qed

lemma varint_bytes_leb128: "varint_bytes v = leb128 v"
proof (cases "v \<le> 0x7F")
  case True
  then show ?thesis by (simp add: varint_bytes_def leb128.simps)
next
  case False
  then have "v \<noteq> 0" by auto
  with False show ?thesis
    using varint_fill_leb128 [of v] by (simp add: varint_bytes_def)
qed

lemma pb_encode_varint_write:
  "pb_encode_varint env v st = pb_write env (OB_Local (leb128 v)) (of_nat (length (leb128 v))) st"
  by (simp add: pb_encode_varint_def Let_def flip: varint_bytes_leb128)
    (simp add: varint_bytes_def Let_def)

text \<open>The loop fills at most the ten bytes of \<open>buffer\<close>.\<close>

lemma varint_fill_length: "length (varint_fill v []) \<le> 10"
proof (cases "v = 0")
  case True
  then show ?thesis by (simp add: varint_fill_Cons)
next
  case False
  have "length (varint_fill v []) = length (leb128 v)"
    using varint_fill_leb128 [OF False] by (metis length_list_update)
  then show ?thesis using length_leb128_bound by simp
qed

lemma and_0x7F_id: "b AND 0x80 = 0 \<Longrightarrow> b AND 0x7F = b" for b :: byte
proof (rule bit_word_eqI)
  fix n assume b: "b AND 0x80 = 0" and "n < LENGTH(8)"
  then have "n < 7 \<or> n = 7" by auto
  with b show "bit (b AND 0x7F) n = bit b n" by (auto simp: bit_simps and_0x80_eq_0_iff)
qed

lemma leb128_split:
  "\<exists>n. leb128 v = map (\<lambda>i. ucast ((drop_bit (7 * i) v AND 0x7F) OR 0x80)) [0..<n] @ [ucast (drop_bit (7 * n) v)]
     \<and> drop_bit (7 * n) v \<le> 0x7F"
proof (induction v rule: leb128.induct)
  case (1 v)
  show ?case
  proof (cases "v \<le> 0x7F")
    case True
    then show ?thesis by (intro exI [of _ 0]) (simp add: leb128.simps [of v])
  next
    case False
    from "1.IH" [OF False] obtain n where
      n: "leb128 (drop_bit 7 v) = map (\<lambda>i. ucast ((drop_bit (7 * i) (drop_bit 7 v) AND 0x7F) OR 0x80)) [0..<n]
          @ [ucast (drop_bit (7 * n) (drop_bit 7 v))]"
      and le: "drop_bit (7 * n) (drop_bit 7 v) \<le> 0x7F"
      by blast
    have upt: "[0..<Suc n] = 0 # map Suc [0..<n]"
      by (simp add: map_Suc_upt upt_conv_Cons del: upt_Suc)
    show ?thesis
      using False n le
      by (intro exI [of _ "Suc n"]) (simp add: leb128.simps [of v] upt comp_def add.commute del: upt_Suc)
  qed
qed

lemma leb128_prefix:
  assumes "2 ^ (7 * k) \<le> unat v"
  shows "leb128 v = map (\<lambda>i. ucast ((drop_bit (7 * i) v AND 0x7F) OR 0x80)) [0..<k] @ leb128 (drop_bit (7 * k) v)"
  using assms
proof (induction k)
  case 0
  then show ?case by simp
next
  case (Suc k)
  have "(2::nat) ^ (7 * k) \<le> 2 ^ (7 * Suc k)" by (intro power_increasing) auto
  then have "2 ^ (7 * k) \<le> unat v" using Suc.prems by (rule order_trans)
  then have IH: "leb128 v = map (\<lambda>i. ucast ((drop_bit (7 * i) v AND 0x7F) OR 0x80)) [0..<k] @ leb128 (drop_bit (7 * k) v)"
    by (rule Suc.IH)
  have "unat (drop_bit (7 * k) v) = unat v div 2 ^ (7 * k)"
    by (simp only: unat_drop_bit_eq) (simp only: drop_bit_eq_div)
  then have "128 \<le> unat (drop_bit (7 * k) v)"
    using Suc.prems by (simp add: less_eq_div_iff_mult_less_eq power_add mult.commute)
  then have "\<not> drop_bit (7 * k) v \<le> 0x7F" by (simp add: word_le_nat_alt not_le)
  then show ?case
    by (simp add: IH leb128.simps [of "drop_bit (7 * k) v"] add.commute)
qed

lemma not_bit_drop_bit_0: "drop_bit n v = 0 \<Longrightarrow> n \<le> k \<Longrightarrow> \<not> bit v k" for v :: "'a::len word"
  using bit_drop_bit_eq [of n v] by (auto simp: fun_eq_iff dest: spec [of _ "k - n"])

lemma last_leb128: "v \<noteq> 0 \<Longrightarrow> last (leb128 v) \<noteq> 0"
proof (induction v rule: leb128.induct)
  case (1 v)
  show ?case
  proof (cases "v \<le> 0x7F")
    case True
    have "(ucast v :: byte) \<noteq> 0"
      using ucast_small(2) [OF True] "1.prems" by auto
    then show ?thesis using True by (simp add: leb128.simps [of v])
  next
    case False
    then show ?thesis using "1.IH" by (simp add: leb128.simps [of v] le_0x7F_iff)
  qed
qed

lemma bit_leb_word:
  "bit (leb_word bs :: 'a::len word) k \<longleftrightarrow>
     k < LENGTH('a) \<and> k div 7 < length bs \<and> bit (bs ! (k div 7)) (k mod 7)"
proof (induction bs arbitrary: k)
  case Nil
  then show ?case by simp
next
  case (Cons b bs)
  show ?case
  proof (cases "k < 7")
    case True
    then show ?thesis by (auto simp: bit_simps)
  next
    case False
    then have "k div 7 = Suc ((k - 7) div 7)" "k mod 7 = (k - 7) mod 7"
      by (simp_all add: le_div_geq le_mod_geq)
    then show ?thesis
      using False Cons.IH [of "k - 7"] by (auto simp: bit_simps not_less)
  qed
qed

lemma leb_word_ucast: "(leb_word bs :: u32) = ucast (leb_word bs :: u64)"
  by (rule bit_word_eqI) (auto simp: bit_leb_word bit_ucast_iff)

lemma leb_word_leb128_32: "(leb_word (leb128 v) :: u32) = ucast v"
  by (simp add: leb_word_ucast leb_word_leb128)

lemma list_all_cont: "list_all (\<lambda>b. b AND 0x80 \<noteq> 0) (map (\<lambda>i. ucast ((f i AND 0x7F) OR 0x80) :: byte) xs)"
  for f :: "nat \<Rightarrow> u64"
  using ucast_or_0x80(1) by (simp add: list_all_iff)

lemma leb128_snoc:
  obtains xs b where "leb128 v = xs @ [b]" "list_all (\<lambda>x. x AND 0x80 \<noteq> 0) xs" "b AND 0x80 = 0"
    "b = ucast (drop_bit (7 * length xs) v)" "drop_bit (7 * length xs) v \<le> 0x7F"
proof -
  obtain n where n: "leb128 v = map (\<lambda>i. ucast ((drop_bit (7 * i) v AND 0x7F) OR 0x80)) [0..<n] @ [ucast (drop_bit (7 * n) v)]"
    "drop_bit (7 * n) v \<le> 0x7F"
    using leb128_split by blast
  show thesis
  proof (rule that [OF n(1)])
    show "list_all (\<lambda>x. x AND 0x80 \<noteq> 0) (map (\<lambda>i. ucast ((drop_bit (7 * i) v AND 0x7F) OR 0x80) :: byte) [0..<n])"
      by (rule list_all_cont)
    show "ucast (drop_bit (7 * n) v) AND 0x80 = (0 :: byte)"
      by (rule ucast_small(1) [OF n(2)])
  qed (use n in simp_all)
qed

section \<open>Sources of bytes\<close>

text \<open>
  What the decoders need of a stream: \<open>view st\<close> lists the bytes still to come, \<open>adv st\<close> is
  the stream after one more byte.
\<close>

locale pb_source =
  fixes env :: pb_env
    and good :: "ist \<Rightarrow> bool"
    and view :: "ist \<Rightarrow> byte list"
    and adv :: "ist \<Rightarrow> ist"
  assumes readbyte_Cons: "good st \<Longrightarrow> view st = b # bs \<Longrightarrow> pb_readbyte env st = (Some b, adv st)"
    and readbyte_Nil: "good st \<Longrightarrow> view st = [] \<Longrightarrow>
      pb_readbyte env st = (None, is_set_error ''end-of-stream'' st)"
    and good_adv: "good st \<Longrightarrow> view st = b # bs \<Longrightarrow> good (adv st)"
    and view_adv: "good st \<Longrightarrow> view st = b # bs \<Longrightarrow> view (adv st) = bs"
begin

lemma varint_loop_leb:
  assumes "leb_end bs" "good st" "view st = bs @ rest" "k + length bs \<le> 10"
  shows "varint_loop env (of_nat (7 * k)) r st =
    (Some (r OR push_bit (7 * k) (leb_word bs)), (adv ^^ length bs) st)"
  using assms
proof (induction bs arbitrary: k r st)
  case Nil
  then show ?case by simp
next
  case (Cons b bs)
  have k: "k \<le> 9" using Cons.prems(4) by simp
  then have pos: "unat (of_nat (7 * k) :: byte) = 7 * k"
    by (subst unat_of_nat) simp
  then have lt: "\<not> (64 :: byte) \<le> of_nat (7 * k)" using k by (simp add: word_le_nat_alt)
  have view: "view st = b # (bs @ rest)" using Cons.prems by simp
  note rd = readbyte_Cons [OF Cons.prems(2) view]
  have next_pos: "(of_nat (7 * k) :: byte) + 7 = of_nat (7 * Suc k)" by simp
  show ?case
  proof (cases "b AND 0x80 = 0")
    case True
    with Cons.prems(1) have "bs = []" by simp
    then show ?thesis
      using True lt pos by (subst varint_loop.simps) (simp add: rd)
  next
    case False
    with Cons.prems(1) have "leb_end bs" by simp
    note IH0 = Cons.IH [OF this good_adv [OF Cons.prems(2) view] view_adv [OF Cons.prems(2) view],
        of "Suc k"]
    have push: "push_bit (7 * Suc k) (leb_word bs) = push_bit (7 * k) (push_bit 7 (leb_word bs :: u64))"
      by (simp add: add.commute)
    have IH: "varint_loop env (of_nat (7 * k) + 7) r' (adv st) =
        (Some (r' OR push_bit (7 * k) (push_bit 7 (leb_word bs))), (adv ^^ length bs) (adv st))" for r'
      using IH0 [of r'] Cons.prems(4) unfolding next_pos push by simp
    show ?thesis
      using False lt pos
      by (subst varint_loop.simps)
        (simp add: rd IH funpow_swap1 push_bit_or or.assoc del: of_nat_mult push_bit_push_bit)
  qed
qed

lemma adv_prefix:
  assumes "good st" "view st = xs @ rest"
  shows "good ((adv ^^ length xs) st) \<and> view ((adv ^^ length xs) st) = rest"
  using assms
proof (induction xs arbitrary: st)
  case Nil
  then show ?case by simp
next
  case (Cons x xs)
  then have "view st = x # (xs @ rest)" by simp
  from Cons.IH [OF good_adv [OF Cons.prems(1) this] view_adv [OF Cons.prems(1) this]]
  show ?case by (simp add: funpow_swap1)
qed

lemma pb_decode_varint_leb:
  assumes "leb_end bs" "good st" "view st = bs @ rest" "length bs \<le> 10"
  shows "pb_decode_varint env st = (Some (leb_word bs), (adv ^^ length bs) st)"
  using varint_loop_leb [of bs st rest 0 0] assms by (simp add: pb_decode_varint_def)

lemma varint_loop_prefix:
  assumes "list_all (\<lambda>b. b AND 0x80 \<noteq> 0) bs" "good st" "view st = bs @ rest" "k + length bs \<le> 10"
  shows "varint_loop env (of_nat (7 * k)) r st =
    varint_loop env (of_nat (7 * (k + length bs))) (r OR push_bit (7 * k) (leb_word bs))
      ((adv ^^ length bs) st)"
  using assms
proof (induction bs arbitrary: k r st)
  case Nil
  then show ?case by simp
next
  case (Cons b bs)
  have k: "k \<le> 9" using Cons.prems(4) by simp
  then have pos: "unat (of_nat (7 * k) :: byte) = 7 * k"
    by (subst unat_of_nat) simp
  then have lt: "\<not> (64 :: byte) \<le> of_nat (7 * k)" using k by (simp add: word_le_nat_alt)
  have view: "view st = b # (bs @ rest)" using Cons.prems by simp
  note rd = readbyte_Cons [OF Cons.prems(2) view]
  have next_pos: "(of_nat (7 * k) :: byte) + 7 = of_nat (7 * Suc k)" by simp
  have push: "push_bit (7 * Suc k) (leb_word bs) = push_bit (7 * k) (push_bit 7 (leb_word bs :: u64))"
    by (simp add: add.commute)
  have IH: "varint_loop env (of_nat (7 * Suc k)) r' (adv st) =
    varint_loop env (of_nat (7 * (Suc k + length bs)))
      (r' OR push_bit (7 * k) (push_bit 7 (leb_word bs))) ((adv ^^ length bs) (adv st))" for r'
    using Cons.IH [OF _ good_adv [OF Cons.prems(2) view] view_adv [OF Cons.prems(2) view],
        of "Suc k" r'] Cons.prems push
    by simp
  have step: "varint_loop env (of_nat (7 * k)) r st =
      varint_loop env (of_nat (7 * Suc k)) (r OR push_bit (7 * k) (ucast (b AND 0x7F))) (adv st)"
    unfolding next_pos [symmetric]
    using lt pos Cons.prems(1) by (subst varint_loop.simps) (simp add: rd del: of_nat_mult)
  show ?case
    unfolding step IH
    by (simp add: funpow_swap1 push_bit_or or.assoc del: of_nat_mult push_bit_push_bit)
qed

text \<open>Ten continuation bytes are an overflow, noticed before an eleventh byte is read.\<close>

lemma pb_decode_varint_overflow:
  assumes "list_all (\<lambda>b. b AND 0x80 \<noteq> 0) bs" "length bs = 10" "good st" "view st = bs @ rest"
  shows "pb_decode_varint env st = (None, is_set_error ''varint overflow'' ((adv ^^ 10) st))"
  using varint_loop_prefix [OF assms(1,3,4), of 0 0] assms(2)
  by (simp add: pb_decode_varint_def) (subst varint_loop.simps, simp)

lemma pb_decode_varint_truncated:
  assumes "list_all (\<lambda>b. b AND 0x80 \<noteq> 0) bs" "length bs < 10" "good st" "view st = bs"
  shows "pb_decode_varint env st =
    (None, is_set_error ''end-of-stream'' ((adv ^^ length bs) st))"
proof -
  have at_end: "good ((adv ^^ length bs) st) \<and> view ((adv ^^ length bs) st) = []"
    using adv_prefix [OF assms(3), of bs "[]"] assms(4) by simp
  have lt: "\<not> (64 :: byte) \<le> of_nat (7 * length bs)"
    using assms(2) by (simp add: word_le_nat_alt unat_of_nat del: of_nat_mult)
  have "pb_decode_varint env st = varint_loop env (of_nat (7 * length bs)) (leb_word bs) ((adv ^^ length bs) st)"
    using varint_loop_prefix [OF assms(1,3), of "[]" 0 0] assms(2,4)
    by (simp add: pb_decode_varint_def del: of_nat_mult)
  then show ?thesis
    using at_end lt by (subst (asm) varint_loop.simps) (simp add: readbyte_Nil del: of_nat_mult)
qed

lemma varint32_loop_prefix:
  assumes "list_all (\<lambda>b. b AND 0x80 \<noteq> 0) bs" "good st" "view st = bs @ rest" "k + length bs \<le> 5"
  shows "varint32_loop env (of_nat (7 * k)) r st =
    varint32_loop env (of_nat (7 * (k + length bs))) (r OR push_bit (7 * k) (leb_word bs))
      ((adv ^^ length bs) st)"
  using assms
proof (induction bs arbitrary: k r st)
  case Nil
  then show ?case by simp
next
  case (Cons b bs)
  have k: "k \<le> 4" using Cons.prems(4) by simp
  then have pos: "unat (of_nat (7 * k) :: byte) = 7 * k"
    by (subst unat_of_nat) simp
  then have lt: "\<not> (32 :: byte) \<le> of_nat (7 * k)" using k by (simp add: word_le_nat_alt)
  have view: "view st = b # (bs @ rest)" using Cons.prems by simp
  note rd = readbyte_Cons [OF Cons.prems(2) view]
  have next_pos: "(of_nat (7 * k) :: byte) + 7 = of_nat (7 * Suc k)" by simp
  have push: "push_bit (7 * Suc k) (leb_word bs) = push_bit (7 * k) (push_bit 7 (leb_word bs :: u32))"
    by (simp add: add.commute)
  have IH: "varint32_loop env (of_nat (7 * Suc k)) r' (adv st) =
    varint32_loop env (of_nat (7 * (Suc k + length bs)))
      (r' OR push_bit (7 * k) (push_bit 7 (leb_word bs))) ((adv ^^ length bs) (adv st))" for r'
    using Cons.IH [OF _ good_adv [OF Cons.prems(2) view] view_adv [OF Cons.prems(2) view],
        of "Suc k" r'] Cons.prems push
    by simp
  have step: "varint32_loop env (of_nat (7 * k)) r st =
      varint32_loop env (of_nat (7 * Suc k)) (r OR push_bit (7 * k) (ucast (b AND 0x7F))) (adv st)"
    unfolding next_pos [symmetric]
    using lt pos Cons.prems(1) by (subst varint32_loop.simps) (simp add: rd del: of_nat_mult)
  show ?case
    unfolding step IH
    by (simp add: funpow_swap1 push_bit_or or.assoc del: of_nat_mult push_bit_push_bit)
qed

text \<open>The multibyte case of \<open>pb_decode_varint32_eof\<close> is the loop from its first byte.\<close>

lemma pb_decode_varint32_eof_loop:
  assumes "good st" "view st = b # bs" "b AND 0x80 \<noteq> 0"
  shows "pb_decode_varint32_eof env st =
    (case varint32_loop env 0 0 st of
       (None, st') \<Rightarrow> (None, False, st')
     | (Some (result, bitpos, last_byte), st') \<Rightarrow>
         if bitpos = 35 \<and> last_byte AND 0x70 \<noteq> 0
         then (None, False, is_set_error ''varint overflow'' st')
         else (Some result, False, st'))"
proof -
  have "varint32_loop env 0 0 st = varint32_loop env 7 (ucast (b AND 0x7F)) (adv st)"
    using assms(3) by (subst varint32_loop.simps) (simp add: readbyte_Cons [OF assms(1,2)])
  then show ?thesis
    using assms(3) by (simp add: pb_decode_varint32_eof_def readbyte_Cons [OF assms(1,2)])
qed

lemma varint32_loop_last:
  assumes "good st" "view st = b # bs" "b AND 0x80 = 0" "k \<le> 4"
  shows "varint32_loop env (of_nat (7 * k)) r st =
    (Some (r OR push_bit (7 * k) (ucast (b AND 0x7F)), of_nat (7 * Suc k), b), adv st)"
proof -
  have pos: "unat (of_nat (7 * k) :: byte) = 7 * k"
    using assms(4) by (subst unat_of_nat) simp
  then have lt: "\<not> (32 :: byte) \<le> of_nat (7 * k)"
    using assms(4) by (simp add: word_le_nat_alt)
  show ?thesis
    using lt pos assms(3)
    by (subst varint32_loop.simps) (simp add: readbyte_Cons [OF assms(1,2)] add.commute)
qed

text \<open>A varint of at most five bytes: its low 32 bits, or an overflow.\<close>

lemma pb_decode_varint32_eof_short:
  assumes xs: "list_all (\<lambda>x. x AND 0x80 \<noteq> 0) xs" and b: "b AND 0x80 = 0"
    and len: "length xs \<le> 4" and st: "good st" "view st = xs @ b # rest"
  shows "pb_decode_varint32_eof env st =
    (if length xs = 4 \<and> b AND 0x70 \<noteq> 0
     then (None, False, is_set_error ''varint overflow'' ((adv ^^ Suc (length xs)) st))
     else (Some (leb_word (xs @ [b])), False, (adv ^^ Suc (length xs)) st))"
proof (cases xs)
  case Nil
  show ?thesis
    using and_0x7F_id [OF b] Nil b st by (simp add: pb_decode_varint32_eof_def readbyte_Cons [of st b rest])
next
  case (Cons x xs')
  have leb_append: "leb_word (ys @ [b]) = leb_word ys OR push_bit (7 * length ys) (ucast (b AND 0x7F) :: u32)" for ys
    by (induction ys) (simp_all add: push_bit_or or.assoc add.commute)
  let ?st = "(adv ^^ length xs) st"
  have at: "good ?st" "view ?st = b # rest"
    using adv_prefix [OF st(1), of xs "b # rest"] st(2) by simp_all
  have "varint32_loop env 0 0 st = varint32_loop env (of_nat (7 * length xs)) (leb_word xs) ?st"
    using varint32_loop_prefix [OF xs st(1), of "b # rest" 0 0] st(2) len by simp
  also have "\<dots> = (Some (leb_word (xs @ [b]), of_nat (7 * Suc (length xs)), b), adv ?st)"
    unfolding varint32_loop_last [OF at b len] leb_append ..
  finally have loop: "varint32_loop env 0 0 st =
      (Some (leb_word (xs @ [b]), of_nat (7 * Suc (length xs)), b), adv ?st)" .
  have "unat (of_nat (7 * Suc (length xs)) :: byte) = 7 * Suc (length xs)"
    using len by (subst unat_of_nat) simp
  then have "(of_nat (7 * Suc (length xs)) = (35 :: byte)) \<longleftrightarrow> length xs = 4"
    unfolding word_unat_eq_iff by (simp del: of_nat_mult)
  moreover have "(adv ^^ 5) st = adv (adv ((adv ^^ 3) st))" by (simp add: eval_nat_numeral)
  ultimately show ?thesis
    using pb_decode_varint32_eof_loop [of st x "xs' @ b # rest"] st Cons xs loop
    by (simp del: of_nat_mult)
qed

text \<open>Five bytes or more read, and the last one carries a bit: the value does not fit.\<close>

lemma varint32_loop_high:
  assumes "list_all (\<lambda>x. x AND 0x80 \<noteq> 0) ys" "b AND 0x80 = 0" "b \<noteq> 0"
    "good st" "view st = ys @ b # rest" "5 \<le> k" "k + length ys \<le> 8"
  shows "\<exists>j. varint32_loop env (of_nat (7 * k)) r st =
    (None, is_set_error ''varint overflow'' ((adv ^^ j) st))"
  using assms
proof (induction ys arbitrary: k r st)
  case Nil
  have pos: "unat (of_nat (7 * k) :: byte) = 7 * k"
    using Nil.prems by (subst unat_of_nat) simp
  then have ge: "(32 :: byte) \<le> of_nat (7 * k)" "(of_nat (7 * k) :: byte) < 63"
    using Nil.prems by (simp_all add: word_le_nat_alt word_less_nat_alt)
  have "b AND 0x7F = b" by (rule and_0x7F_id) (rule Nil.prems(2))
  moreover have "b \<noteq> 0xFF" using Nil.prems(2) by auto
  ultimately show ?case
    using Nil.prems ge readbyte_Cons [of st b rest]
    by (intro exI [of _ 1]) (subst varint32_loop.simps, simp del: of_nat_mult)
next
  case (Cons y ys)
  have pos: "unat (of_nat (7 * k) :: byte) = 7 * k"
    using Cons.prems by (subst unat_of_nat) simp
  then have ge: "(32 :: byte) \<le> of_nat (7 * k)" "(of_nat (7 * k) :: byte) < 63"
    using Cons.prems by (simp_all add: word_le_nat_alt word_less_nat_alt)
  have view: "view st = y # (ys @ b # rest)" using Cons.prems by simp
  note rd = readbyte_Cons [OF Cons.prems(4) view]
  have next_pos: "(of_nat (7 * k) :: byte) + 7 = of_nat (7 * Suc k)" by simp
  show ?case
  proof (cases "y AND 0x7F \<noteq> 0 \<and> (drop_bit 31 r = 0 \<or> y \<noteq> 0xFF)")
    case True
    then show ?thesis
      using ge rd by (intro exI [of _ 1]) (subst varint32_loop.simps, simp del: of_nat_mult)
  next
    case False
    obtain j where j: "varint32_loop env (of_nat (7 * Suc k)) r (adv st) =
        (None, is_set_error ''varint overflow'' ((adv ^^ j) (adv st)))"
      using Cons.IH [OF _ _ _ good_adv [OF Cons.prems(4) view] view_adv [OF Cons.prems(4) view], of "Suc k" r]
        Cons.prems by auto
    have "varint32_loop env (of_nat (7 * k)) r st = varint32_loop env (of_nat (7 * Suc k)) r (adv st)"
      unfolding next_pos [symmetric]
      using False ge rd Cons.prems(1) by (subst varint32_loop.simps) (auto simp del: of_nat_mult)
    then show ?thesis
      using j by (intro exI [of _ "Suc j"]) (simp add: funpow_swap1 del: of_nat_mult)
  qed
qed

lemma pb_decode_varint32_eof_small:
  assumes v: "v < 2 ^ 32" and st: "good st" "view st = leb128 v @ rest"
  shows "pb_decode_varint32_eof env st = (Some (ucast v), False, (adv ^^ length (leb128 v)) st)"
proof -
  obtain xs b where split: "leb128 v = xs @ [b]" "list_all (\<lambda>x. x AND 0x80 \<noteq> 0) xs" "b AND 0x80 = 0"
    "b = ucast (drop_bit (7 * length xs) v)"
    by (rule leb128_snoc)
  have "unat v < 2 ^ (7 * 5)" using v by (simp add: word_less_nat_alt)
  then have len: "length xs \<le> 4" using length_leb128_le [of 5 v] split(1) by simp
  have "b AND 0x70 = 0" if four: "length xs = 4"
  proof -
    have "drop_bit 32 v = 0" using v by (simp add: drop_bit_eq_div word_less_nat_alt word_unat_eq_iff unat_div)
    then have "\<not> bit v k" if "32 \<le> k" for k
      using that by (rule not_bit_drop_bit_0)
    then show ?thesis
      using split(4) four by (intro bit_word_eqI) (auto simp: bit_simps)
  qed
  moreover have "(leb_word (xs @ [b]) :: u32) = ucast v"
    using leb_word_leb128_32 [of v] unfolding split(1) .
  ultimately show ?thesis
    using pb_decode_varint32_eof_short [OF split(2,3) len st(1)] st(2) split(1) by auto
qed

lemma pb_decode_varint32_eof_big:
  assumes v: "2 ^ 32 \<le> v" "v < 2 ^ 63" and st: "good st" "view st = leb128 v @ rest"
  shows "\<exists>j. pb_decode_varint32_eof env st = (None, False, is_set_error ''varint overflow'' ((adv ^^ j) st))"
proof (cases "unat v < 2 ^ (7 * 5)")
  case True
  obtain xs b where split: "leb128 v = xs @ [b]" "list_all (\<lambda>x. x AND 0x80 \<noteq> 0) xs" "b AND 0x80 = 0"
    "b = ucast (drop_bit (7 * length xs) v)"  "drop_bit (7 * length xs) v \<le> 0x7F"
    by (rule leb128_snoc)
  have "length xs \<le> 4" using length_leb128_le [of 5 v] True split(1) by simp
  moreover have "4 < length (leb128 v)"
    by (rule length_leb128_gt) (use v in \<open>simp add: word_le_nat_alt\<close>)
  ultimately have four: "length xs = 4" using split(1) by simp
  have "b AND 0x70 \<noteq> 0"
  proof
    assume "b AND 0x70 = 0"
    then have no: "\<not> bit b 4" "\<not> bit b 5" "\<not> bit b 6"
      by (auto simp: bit_eq_iff bit_simps fun_eq_iff dest: spec [of _ 4] spec [of _ 5] spec [of _ 6])
    have "\<not> bit v k" if "32 \<le> k" for k
    proof
      assume b: "bit v k"
      then have "bit (drop_bit 28 v) (k - 28)" using that by (simp add: bit_drop_bit_eq)
      then have "k - 28 < 7" using le_0x7F_bit split(5) four by auto
      then have "k = 32 \<or> k = 33 \<or> k = 34" using that by auto
      with no b split(4) four show False by (auto simp: bit_simps)
    qed
    then have "drop_bit 32 v = 0" by (intro bit_word_eqI) (simp add: bit_drop_bit_eq)
    with v show False by (simp add: drop_bit_eq_div word_le_nat_alt word_unat_eq_iff unat_div)
  qed
  then show ?thesis
    using pb_decode_varint32_eof_short [OF split(2,3) _ st(1), of rest] st(2) split(1) four by auto
next
  case False
  then have ge: "2 ^ (7 * 5) \<le> unat v" by simp
  let ?w = "drop_bit (7 * 5) v"
  define p :: "byte list" where "p = map (\<lambda>i. ucast ((drop_bit (7 * i) v AND 0x7F) OR 0x80)) [0..<5]"
  have pre: "leb128 v = p @ leb128 ?w" unfolding p_def by (rule leb128_prefix [OF ge])
  have contp: "list_all (\<lambda>x. x AND 0x80 \<noteq> 0) p" unfolding p_def by (rule list_all_cont)
  have five: "length p = 5" by (simp add: p_def)
  then obtain p0 ps where p: "p = p0 # ps" by (cases p) auto
  obtain xs b where split: "leb128 ?w = xs @ [b]" "list_all (\<lambda>x. x AND 0x80 \<noteq> 0) xs" "b AND 0x80 = 0"
    "b = ucast (drop_bit (7 * length xs) ?w)" "drop_bit (7 * length xs) ?w \<le> 0x7F"
    by (rule leb128_snoc)
  have "length (leb128 v) \<le> 9"
    by (rule length_leb128_le) (use v in \<open>simp_all add: word_less_nat_alt\<close>)
  then have len: "length xs \<le> 3" using pre split(1) five by simp
  have "?w \<noteq> 0" using False by (auto simp: word_unat_eq_iff drop_bit_eq_div unat_div)
  then have b0: "b \<noteq> 0" using last_leb128 [of ?w] split(1) by simp
  let ?st = "(adv ^^ 5) st"
  have at: "good ?st" "view ?st = xs @ b # rest"
    using adv_prefix [OF st(1), of p "leb128 ?w @ rest"] st(2) split(1) pre five by simp_all
  obtain j where j: "varint32_loop env (of_nat (7 * 5)) (leb_word p) ?st =
      (None, is_set_error ''varint overflow'' ((adv ^^ j) ?st))"
    using varint32_loop_high [OF split(2,3) b0 at, of 5] len by auto
  have "varint32_loop env 0 0 st = varint32_loop env (of_nat (7 * 5)) (leb_word p) ?st"
    using varint32_loop_prefix [OF contp st(1), of "leb128 ?w @ rest" 0 0] st(2) pre five by simp
  then have "pb_decode_varint32_eof env st =
      (None, False, is_set_error ''varint overflow'' ((adv ^^ j) ?st))"
    using j pb_decode_varint32_eof_loop [OF st(1), of p0 "ps @ leb128 ?w @ rest"] st(2) contp pre p
    by simp
  moreover have "(adv ^^ j) ?st = (adv ^^ (j + 5)) st" by (simp only: funpow_add comp_apply)
  ultimately show ?thesis by auto
qed

text \<open>The sign extension of a negative \<open>int32_t\<close>: four \<open>0xFF\<close> bytes and a final \<open>0x01\<close>.\<close>

lemma varint32_loop_sign:
  assumes "good st" "view st = replicate n 0xFF @ 0x01 # rest" "5 \<le> k" "k + n = 9"
    "drop_bit 31 r \<noteq> 0"
  shows "varint32_loop env (of_nat (7 * k)) r st = (Some (r, 70, 1), (adv ^^ Suc n) st)"
  using assms
proof (induction n arbitrary: k st)
  case 0
  have k: "k = 9" using 0 by simp
  show ?case
    unfolding k using 0 readbyte_Cons [of st 1 rest]
    by (subst varint32_loop.simps) simp
next
  case (Suc n)
  have pos: "unat (of_nat (7 * k) :: byte) = 7 * k"
    using Suc.prems by (subst unat_of_nat) simp
  then have ge: "(32 :: byte) \<le> of_nat (7 * k)" "(of_nat (7 * k) :: byte) < 63"
    using Suc.prems by (simp_all add: word_le_nat_alt word_less_nat_alt)
  have view: "view st = 0xFF # (replicate n 0xFF @ 0x01 # rest)" using Suc.prems by simp
  note rd = readbyte_Cons [OF Suc.prems(1) view]
  have next_pos: "(of_nat (7 * k) :: byte) + 7 = of_nat (7 * Suc k)" by simp
  have "varint32_loop env (of_nat (7 * k)) r st = varint32_loop env (of_nat (7 * Suc k)) r (adv st)"
    unfolding next_pos [symmetric]
    using ge rd Suc.prems(5) by (subst varint32_loop.simps) (simp del: of_nat_mult)
  also have "\<dots> = (Some (r, 70, 1), (adv ^^ Suc n) (adv st))"
    by (rule Suc.IH [OF good_adv [OF Suc.prems(1) view] view_adv [OF Suc.prems(1) view]])
      (use Suc.prems in simp_all)
  finally show ?case by (simp add: funpow_swap1)
qed

lemma pb_decode_varint32_eof_sign:
  fixes w :: u32
  assumes neg: "sint w < 0" and st: "good st" "view st = leb128 (scast w) @ rest"
  shows "pb_decode_varint32_eof env st = (Some w, False, (adv ^^ 10) st)"
proof -
  let ?v = "scast w :: u64"
  have msb: "bit w 31" using neg bit_last_iff [of w] by simp
  have bit_v: "bit ?v k \<longleftrightarrow> k < 64 \<and> bit w (min 31 k)" for k
    by (simp add: bit_simps)
  have high: "drop_bit (7 * 5) ?v = 0x1FFFFFFF"
  proof -
    have eq: "(0x1FFFFFFF :: u64) = mask 29" by (simp add: mask_eq_exp_minus_1)
    show ?thesis unfolding eq
      by (rule bit_word_eqI) (use msb in \<open>auto simp: bit_drop_bit_eq bit_v bit_mask_iff min_def\<close>)
  qed
  then have "unat (drop_bit (7 * 5) ?v) = 0x1FFFFFFF" by simp
  then have "drop_bit (7 * 5) (unat ?v) = 0x1FFFFFFF" unfolding unat_drop_bit_eq .
  then have "2 ^ (7 * 5) \<le> unat ?v"
    by (intro leI notI) (simp add: drop_bit_eq_div)
  note pre0 = leb128_prefix [OF this]
  define p :: "byte list" where "p = map (\<lambda>i. ucast ((drop_bit (7 * i) ?v AND 0x7F) OR 0x80)) [0..<5]"
  have tail: "leb128 0x1FFFFFFF = replicate 4 0xFF @ [0x01]"
  proof -
    have "leb128 0x1FFFFFFF = [0xFF, 0xFF, 0xFF, 0xFF, 0x01]" by (simp add: leb128.simps)
    then show ?thesis by (simp add: eval_nat_numeral)
  qed
  have pre: "leb128 ?v = p @ replicate 4 0xFF @ [0x01]" using pre0 unfolding high tail p_def .
  have contp: "list_all (\<lambda>x. x AND 0x80 \<noteq> 0) p" unfolding p_def by (rule list_all_cont)
  have five: "length p = 5" by (simp add: p_def)
  then obtain p0 ps where p: "p = p0 # ps" by (cases p) auto
  have low: "(leb_word p :: u32) = w"
  proof (rule bit_word_eqI)
    fix k assume k: "k < LENGTH(32)"
    have "bit (leb_word (leb128 ?v) :: u64) k \<longleftrightarrow> bit (leb_word p :: u32) k"
      using k five less_mult_imp_div_less [of k 5 7] by (simp add: bit_leb_word pre nth_append)
    then show "bit (leb_word p :: u32) k = bit w k"
      using k bit_v [of k] by (simp add: leb_word_leb128 min_absorb2)
  qed
  let ?st = "(adv ^^ 5) st"
  have at: "good ?st" "view ?st = replicate 4 0xFF @ 0x01 # rest"
    using adv_prefix [OF st(1), of p "replicate 4 0xFF @ 0x01 # rest"] st(2) pre five by simp_all
  have d31: "drop_bit 31 w \<noteq> 0"
    using not_bit_drop_bit_0 [of 31 w 31] msb by auto
  have "varint32_loop env 0 0 st = varint32_loop env (of_nat (7 * 5)) w ?st"
    using varint32_loop_prefix [OF contp st(1), of "replicate 4 0xFF @ 0x01 # rest" 0 0] st(2) pre five low
    by simp
  also have "\<dots> = (Some (w, 70, 1), (adv ^^ Suc 4) ?st)"
    by (rule varint32_loop_sign [OF at]) (use d31 in simp_all)
  finally have "pb_decode_varint32_eof env st = (Some w, False, (adv ^^ Suc 4) ?st)"
    using pb_decode_varint32_eof_loop [OF st(1), of p0 "ps @ replicate 4 0xFF @ 0x01 # rest"] st(2) contp pre p
    by (simp del: funpow.simps)
  moreover have "(adv ^^ Suc 4) ?st = (adv ^^ (Suc 4 + 5)) st" by (simp only: funpow_add comp_apply)
  ultimately show ?thesis by (simp del: funpow.simps)
qed

end

end
