(* ===== verification/Pb_Codec.thy ===== *)
theory Pb_Codec
  imports Pb_Wire
begin

text \<open>
  Sources and sinks of bytes as interfaces, the two streams over a memory buffer and the sizing
  stream as their instances, and what the wire-level codec of nanopb promises on them: what
  the encoders of \<open>pb_encode.c\<close> write, the decoders of \<open>pb_decode.c\<close> read back.
\<close>

section \<open>Block sources\<close>


text \<open>Sources that also serve \<open>pb_read\<close>, into a local array or skipping.\<close>

locale pb_block_source = pb_source +
  assumes read: "good st \<Longrightarrow> unat n \<le> length (view st) \<Longrightarrow> n \<noteq> 0 \<Longrightarrow> buf = IB_Null \<or> buf = IB_Local \<Longrightarrow>
      \<exists>bs. pb_read env buf n st = (Some bs, (adv ^^ unat n) st) \<and> map bs [0..<unat n] = take (unat n) (view st)"
    and read_short: "good st \<Longrightarrow> length (view st) < unat n \<Longrightarrow> buf = IB_Null \<or> buf = IB_Local \<Longrightarrow>
      pb_read env buf n st = (None, is_set_error ''end-of-stream'' st)"
begin

lemma pb_skip_bytes_view:
  assumes "good st" "unat n \<le> length (view st)"
  shows "pb_skip_bytes env n st = (True, (adv ^^ unat n) st)"
proof (cases "n = 0")
  case True
  then show ?thesis by (simp add: pb_skip_bytes_def)
next
  case False
  then show ?thesis
    using read [OF assms False, of IB_Null] by (auto simp: pb_skip_bytes_def)
qed

lemma pb_skip_varint_leb:
  assumes "leb_end bs" "good st" "view st = bs @ rest"
  shows "pb_skip_varint env st = (True, (adv ^^ length bs) st)"
  using assms
proof (induction bs arbitrary: st)
  case Nil
  then show ?case by simp
next
  case (Cons b bs)
  have view: "view st = b # (bs @ rest)" using Cons.prems by simp
  obtain f where f: "pb_read env IB_Local 1 st = (Some f, adv st)" "f 0 = b"
    using read [OF Cons.prems(2), of 1 IB_Local] view by auto
  show ?case
  proof (cases "b AND 0x80 = 0")
    case True
    then show ?thesis
      using f Cons.prems(1) by (subst pb_skip_varint.simps) simp
  next
    case False
    then have "pb_skip_varint env (adv st) = (True, (adv ^^ length bs) (adv st))"
      using Cons.IH [OF _ good_adv [OF Cons.prems(2) view] view_adv [OF Cons.prems(2) view]] Cons.prems(1)
      by simp
    then show ?thesis
      using f False by (subst pb_skip_varint.simps) (simp add: funpow_swap1)
  qed
qed

lemma pb_decode_varint32_small:
  assumes "v < 2 ^ 32" "good st" "view st = leb128 v @ rest"
  shows "pb_decode_varint32 env st = (Some (ucast v), (adv ^^ length (leb128 v)) st)"
  by (simp add: pb_decode_varint32_def pb_decode_varint32_eof_small [OF assms])

lemma pb_skip_string_view:
  assumes n: "unat n = length bs" and st: "good st" "view st = leb128 (ucast (n :: u32)) @ bs @ rest"
  shows "pb_skip_string env st = (True, (adv ^^ (length (leb128 (ucast n)) + length bs)) st)"
proof -
  have lt: "(ucast n :: u64) < 2 ^ 32"
    by simp
  let ?st = "(adv ^^ length (leb128 (ucast n))) st"
  have at: "good ?st" "view ?st = bs @ rest"
    using adv_prefix [OF st(1), of "leb128 (ucast n)" "bs @ rest"] st(2) by simp_all
  have len: "unat (ucast n :: u64) = length bs" using n by simp
  have "pb_skip_bytes env (ucast n) ?st = (True, (adv ^^ length bs) ?st)"
    using pb_skip_bytes_view [OF at(1), of "ucast n"] at(2) len by simp
  then show ?thesis
    using pb_decode_varint32_small [OF lt st]
    by (simp add: pb_skip_string_def funpow_add add.commute [of _ "length bs"])
qed

lemma pb_decode_fixed32_view:
  assumes "good st" "view st = [b0, b1, b2, b3] @ rest"
  shows "pb_decode_fixed32 env st = (Some (le_word [b0, b1, b2, b3]), (adv ^^ 4) st)"
proof -
  obtain f where f: "pb_read env IB_Local 4 st = (Some f, (adv ^^ 4) st)" "map f [0..<4] = [b0, b1, b2, b3]"
    using read [OF assms(1), of 4 IB_Local] assms(2) by auto
  then have "f 0 = b0" "f 1 = b1" "f 2 = b2" "f 3 = b3"
    by (simp_all add: upt_4)
  then show ?thesis
    using f by (simp add: pb_decode_fixed32_def push_bit_or or.assoc)
qed

lemma pb_decode_fixed64_view:
  assumes "good st" "view st = [b0, b1, b2, b3, b4, b5, b6, b7] @ rest"
  shows "pb_decode_fixed64 env st = (Some (le_word [b0, b1, b2, b3, b4, b5, b6, b7]), (adv ^^ 8) st)"
proof -
  obtain f where f: "pb_read env IB_Local 8 st = (Some f, (adv ^^ 8) st)"
      "map f [0..<8] = [b0, b1, b2, b3, b4, b5, b6, b7]"
    using read [OF assms(1), of 8 IB_Local] assms(2) by auto
  then have "f 0 = b0" "f 1 = b1" "f 2 = b2" "f 3 = b3" "f 4 = b4" "f 5 = b5" "f 6 = b6" "f 7 = b7"
    by (simp_all add: upt_8)
  then show ?thesis
    using f by (simp add: pb_decode_fixed64_def push_bit_or or.assoc)
qed

end

text \<open>A memory buffer is such a source.\<close>

lemma in_view_advance_1:
  assumes "in_view st = b # bs"
  shows "in_view (is_advance 1 st) = bs"
proof -
  have "is_bytes_left (fst st) \<noteq> 0" using assms by (metis in_view_Nil_iff list.discI)
  then have "1 \<le> is_bytes_left (fst st)" by (simp add: word_le_nat_alt unat_gt_0 Suc_leI)
  then show ?thesis using assms by (simp add: in_view_advance)
qed

lemma funpow_is_advance: "(is_advance 1 ^^ n) st = is_advance (of_nat n) st"
  by (induction n arbitrary: st) (simp_all add: add.commute)

interpretation buf_source: pb_block_source env in_buffer in_view "is_advance 1" for env
proof
  fix st b bs
  assume st: "in_buffer st" and v: "in_view st = b # bs"
  then have "is_bytes_left (fst st) \<noteq> 0" by (metis in_view_Nil_iff list.discI)
  then show "pb_readbyte env st = (Some b, is_advance 1 st)"
    using st v by (simp add: pb_readbyte_buffer)
  show "in_buffer (is_advance 1 st)" using st by simp
  show "in_view (is_advance 1 st) = bs" by (rule in_view_advance_1 [OF v])
next
  fix st :: ist
  assume "in_buffer st" "in_view st = []"
  then show "pb_readbyte env st = (None, is_set_error ''end-of-stream'' st)"
    by (simp add: pb_readbyte_buffer in_view_Nil_iff)
next
  fix st :: ist and n :: u64 and buf
  assume st: "in_buffer st" and le: "unat n \<le> length (in_view st)" and n: "n \<noteq> 0"
    and buf: "buf = IB_Null \<or> buf = IB_Local"
  have "n \<le> is_bytes_left (fst st)" using le by (simp add: word_le_nat_alt)
  then have "pb_read env buf n st =
      (Some (\<lambda>i. cmem (snd st) (is_state (fst st) + of_nat i)), is_advance n st)"
    using pb_read_buffer [OF st buf n, of env] by (simp add: not_less)
  moreover have "map (\<lambda>i. cmem (snd st) (is_state (fst st) + of_nat i)) [0..<unat n] = take (unat n) (in_view st)"
    using le by (simp add: in_view_def take_load_bytes flip: load_bytes_map)
  ultimately show "\<exists>bs. pb_read env buf n st = (Some bs, (is_advance 1 ^^ unat n) st) \<and>
      map bs [0..<unat n] = take (unat n) (in_view st)"
    by (auto simp: funpow_is_advance)
next
  fix st :: ist and n :: u64 and buf
  assume st: "in_buffer st" and lt: "length (in_view st) < unat n" and buf: "buf = IB_Null \<or> buf = IB_Local"
  then have "n \<noteq> 0" "is_bytes_left (fst st) < n" by (auto simp: word_less_nat_alt)
  then show "pb_read env buf n st = (None, is_set_error ''end-of-stream'' st)"
    using pb_read_buffer [OF st buf, of n env] by simp
qed


section \<open>Sinks of bytes\<close>

text \<open>
  What the encoders need of a stream: \<open>room st\<close> bytes can still be written, \<open>emit bs st\<close> is the
  stream with \<open>bs\<close> written, and a region of memory that is \<open>sep st\<close> is not touched by it.
\<close>

locale pb_sink =
  fixes env :: pb_env
    and good :: "ost \<Rightarrow> bool"
    and room :: "ost \<Rightarrow> nat"
    and emit :: "byte list \<Rightarrow> ost \<Rightarrow> ost"
    and sep :: "ost \<Rightarrow> addr \<Rightarrow> nat \<Rightarrow> bool"
  assumes write_local: "good st \<Longrightarrow> length bs \<le> room st \<Longrightarrow>
      pb_write env (OB_Local bs) (of_nat (length bs)) st = (True, emit bs st)"
    and write_mem: "good st \<Longrightarrow> unat n \<le> room st \<Longrightarrow> sep st a (unat n) \<Longrightarrow>
      pb_write env (OB_Mem a) n st = (True, emit (load_bytes (cmem (snd st)) a (unat n)) st)"
    and good_emit: "good st \<Longrightarrow> length bs \<le> room st \<Longrightarrow> good (emit bs st)"
    and room_emit: "good st \<Longrightarrow> length bs \<le> room st \<Longrightarrow> room (emit bs st) = room st - length bs"
    and emit_Nil: "emit [] st = st"
    and emit_append: "good st \<Longrightarrow> length xs + length ys \<le> room st \<Longrightarrow>
      emit (xs @ ys) st = emit ys (emit xs st)"
    and sep_emit: "good st \<Longrightarrow> length bs \<le> room st \<Longrightarrow> sep st a k \<Longrightarrow> sep (emit bs st) a k"
    and load_emit: "good st \<Longrightarrow> length bs \<le> room st \<Longrightarrow> sep st a k \<Longrightarrow>
      load_bytes (cmem (snd (emit bs st))) a k = load_bytes (cmem (snd st)) a k"
    and written_emit: "good st \<Longrightarrow> length bs \<le> room st \<Longrightarrow>
      os_bytes_written (fst (emit bs st)) = os_bytes_written (fst st) + of_nat (length bs)"
begin

lemma pb_encode_varint_emit:
  assumes "good st" "length (leb128 v) \<le> room st"
  shows "pb_encode_varint env v st = (True, emit (leb128 v) st)"
  unfolding pb_encode_varint_write by (rule write_local [OF assms])

lemma pb_encode_fixed32_emit:
  assumes "good st" "4 \<le> room st"
  shows "pb_encode_fixed32 env v st = (True, emit (le_bytes 4 v) st)"
proof -
  have eq: "[ucast (v AND 0xFF), ucast (drop_bit 8 v AND 0xFF), ucast (drop_bit 16 v AND 0xFF),
      ucast (drop_bit 24 v AND 0xFF)] = le_bytes 4 v"
    by (simp add: le_bytes_def upt_4) (safe; rule bit_word_eqI; simp add: bit_simps)
  show ?thesis
    using write_local [OF assms(1), of "le_bytes 4 v"] assms(2)
    by (simp add: pb_encode_fixed32_def eq)
qed

lemma pb_encode_fixed64_emit:
  assumes "good st" "8 \<le> room st"
  shows "pb_encode_fixed64 env v st = (True, emit (le_bytes 8 v) st)"
proof -
  have eq: "[ucast (v AND 0xFF), ucast (drop_bit 8 v AND 0xFF), ucast (drop_bit 16 v AND 0xFF),
      ucast (drop_bit 24 v AND 0xFF), ucast (drop_bit 32 v AND 0xFF), ucast (drop_bit 40 v AND 0xFF),
      ucast (drop_bit 48 v AND 0xFF), ucast (drop_bit 56 v AND 0xFF)] = le_bytes 8 v"
    by (simp add: le_bytes_def upt_8) (safe; rule bit_word_eqI; simp add: bit_simps)
  show ?thesis
    using write_local [OF assms(1), of "le_bytes 8 v"] assms(2)
    by (simp add: pb_encode_fixed64_def eq)
qed

lemma pb_encode_string_emit:
  assumes st: "good st" and room: "length (leb128 n) + unat n \<le> room st" and sep: "sep st a (unat n)"
  shows "pb_encode_string env (OB_Mem a) n st =
    (True, emit (leb128 n @ load_bytes (cmem (snd st)) a (unat n)) st)"
proof -
  let ?st = "emit (leb128 n) st"
  have l: "length (leb128 n) \<le> room st" using room by simp
  have "pb_write env (OB_Mem a) n ?st = (True, emit (load_bytes (cmem (snd ?st)) a (unat n)) ?st)"
    by (rule write_mem [OF good_emit [OF st l] _ sep_emit [OF st l sep]])
      (use room room_emit [OF st l] in simp)
  then show ?thesis
    using room by (simp add: pb_encode_string_def pb_encode_varint_emit [OF st l] load_emit [OF st l sep]
        emit_append [OF st])
qed

end

text \<open>A bounded sink refuses what does not fit, and sets \<open>stream full\<close>.\<close>

locale pb_bounded_sink = pb_sink +
  assumes write_full: "good st \<Longrightarrow> room st < unat n \<Longrightarrow>
      pb_write env buf n st = (False, os_set_error ''stream full'' st)"
begin

lemma pb_encode_varint_full:
  assumes "good st" "room st < length (leb128 v)"
  shows "pb_encode_varint env v st = (False, os_set_error ''stream full'' st)"
  unfolding pb_encode_varint_write
  by (rule write_full [OF assms(1)])
    (use assms(2) length_leb128_bound [of v] in \<open>simp add: unat_of_nat\<close>)

end

text \<open>The two sinks of the code: a memory buffer and the sizing stream.\<close>

definition out_buffer :: "ost \<Rightarrow> bool" where
  "out_buffer st \<longleftrightarrow> os_callback (fst st) = Out_Buf \<and> os_bytes_written (fst st) \<le> os_max_size (fst st)"

definition out_room :: "ost \<Rightarrow> nat" where
  "out_room st = unat (os_max_size (fst st)) - unat (os_bytes_written (fst st))"

definition out_emit :: "byte list \<Rightarrow> ost \<Rightarrow> ost" where
  "out_emit bs st =
     ((fst st)\<lparr>os_state := os_state (fst st) + of_nat (length bs),
        os_bytes_written := os_bytes_written (fst st) + of_nat (length bs)\<rparr>,
      (snd st)\<lparr>cmem := store_bytes (cmem (snd st)) (os_state (fst st)) bs\<rparr>)"

definition out_sep :: "ost \<Rightarrow> addr \<Rightarrow> nat \<Rightarrow> bool" where
  "out_sep st a n \<longleftrightarrow> n \<le> 2 ^ 64 \<and> region (os_state (fst st)) (out_room st) \<inter> region a n = {}"

definition out_sizing :: "ost \<Rightarrow> bool" where
  "out_sizing st \<longleftrightarrow> os_callback (fst st) = Out_Null"

definition sizing_emit :: "byte list \<Rightarrow> ost \<Rightarrow> ost" where
  "sizing_emit bs st =
     ((fst st)\<lparr>os_bytes_written := os_bytes_written (fst st) + of_nat (length bs)\<rparr>, snd st)"

definition sizing_room :: "ost \<Rightarrow> nat" where
  "sizing_room st = 2 ^ 64 - 1 - unat (os_bytes_written (fst st))"

lemma unat_u64_less: "unat (v :: u64) < 2 ^ 64"
  using unsigned_less [of v, where ?'a = nat] by simp

lemma out_emit_sel [simp]:
  "os_callback (fst (out_emit bs st)) = os_callback (fst st)"
  "os_state (fst (out_emit bs st)) = os_state (fst st) + of_nat (length bs)"
  "os_max_size (fst (out_emit bs st)) = os_max_size (fst st)"
  "os_bytes_written (fst (out_emit bs st)) = os_bytes_written (fst st) + of_nat (length bs)"
  "os_errmsg (fst (out_emit bs st)) = os_errmsg (fst st)"
  "cmem (snd (out_emit bs st)) = store_bytes (cmem (snd st)) (os_state (fst st)) bs"
  "cblocks (snd (out_emit bs st)) = cblocks (snd st)"
  by (simp_all add: out_emit_def)

lemma out_room_fits:
  assumes "out_buffer st" "n \<le> out_room st"
  shows "unat (os_bytes_written (fst st) + of_nat n) = unat (os_bytes_written (fst st)) + n"
    "unat (of_nat n :: u64) = n"
proof -
  have max: "unat (os_max_size (fst st)) < 2 ^ 64" by (rule unat_u64_less)
  then show n: "unat (of_nat n :: u64) = n"
    using assms by (subst unat_of_nat) (simp add: out_room_def)
  have "unat (os_bytes_written (fst st)) + n < 2 ^ 64"
    using assms max unfolding out_room_def out_buffer_def word_le_nat_alt by linarith
  then show "unat (os_bytes_written (fst st) + of_nat n) = unat (os_bytes_written (fst st)) + n"
    using n by (simp add: unat_plus_if')
qed

lemma out_room_le: "out_room st < 2 ^ 64"
  using unat_u64_less [of "os_max_size (fst st)"] by (simp add: out_room_def)

lemma pb_write_buffer_fits:
  assumes "out_buffer st" "unat n \<le> out_room st"
  shows "pb_write env buf n st =
    (True, case buf_write buf n st of (s, c) \<Rightarrow> (s\<lparr>os_bytes_written := os_bytes_written s + n\<rparr>, c))"
proof -
  let ?w = "os_bytes_written (fst st)"
  have fits: "unat (?w + n) = unat ?w + unat n"
    using out_room_fits(1) [OF assms] by simp
  have "unat n = 0 \<or> n \<noteq> 0" by auto
  have no: "\<not> ?w + n < ?w" "\<not> os_max_size (fst st) < ?w + n"
    using fits assms unfolding word_less_nat_alt out_room_def out_buffer_def word_le_nat_alt by linarith+
  show ?thesis
  proof (cases "n = 0")
    case True
    then show ?thesis
      by (cases st) (auto simp: pb_write_def buf_write_def Let_def split: out_buf.splits)
  next
    case False
    then show ?thesis
      using no assms(1)
      by (simp add: pb_write_def os_call_def out_buffer_def word_gt_0 Let_def split: prod.splits)
  qed
qed

lemma pb_write_buffer_full:
  assumes "out_buffer st" "out_room st < unat n"
  shows "pb_write env buf n st = (False, os_set_error ''stream full'' st)"
proof -
  let ?w = "os_bytes_written (fst st)"
  have n: "n \<noteq> 0" using assms(2) by auto
  have "?w + n < ?w \<or> os_max_size (fst st) < ?w + n"
    using assms unat_u64_less [of n] unat_u64_less [of "?w"]
    by (auto simp: word_less_nat_alt out_room_def out_buffer_def word_le_nat_alt unat_plus_if')
  then show ?thesis
    using n assms(1) by (auto simp: pb_write_def out_buffer_def word_gt_0 Let_def)
qed

lemma out_room_emit:
  assumes "out_buffer st" "length bs \<le> out_room st"
  shows "out_room (out_emit bs st) = out_room st - length bs"
  using out_room_fits(1) [OF assms] by (simp add: out_room_def)

lemma out_buffer_emit:
  assumes "out_buffer st" "length bs \<le> out_room st"
  shows "out_buffer (out_emit bs st)"
  using out_room_fits(1) [OF assms] assms
  unfolding out_buffer_def word_le_nat_alt out_room_def out_emit_sel by linarith

lemma out_emit_region:
  assumes "out_buffer st" "length bs \<le> out_room st"
  shows "region (os_state (fst (out_emit bs st))) (out_room (out_emit bs st))
    \<subseteq> region (os_state (fst st)) (out_room st)"
  using assms out_room_le [of st] out_room_fits(2) [OF assms]
  by (simp add: out_room_emit) (rule region_shift_subset; simp)

interpretation buf_sink: pb_bounded_sink env out_buffer out_room out_emit out_sep for env
proof
  fix st and bs :: "byte list"
  assume st: "out_buffer st" and len: "length bs \<le> out_room st"
  note fits = out_room_fits [OF st len]
  show "pb_write env (OB_Local bs) (of_nat (length bs)) st = (True, out_emit bs st)"
    using pb_write_buffer_fits [OF st, of "of_nat (length bs)"] fits(2) len
    by (cases st) (simp add: buf_write_def Let_def out_emit_def)
  show "out_buffer (out_emit bs st)" by (rule out_buffer_emit [OF st len])
  show "out_room (out_emit bs st) = out_room st - length bs" by (rule out_room_emit [OF st len])
  show "os_bytes_written (fst (out_emit bs st)) = os_bytes_written (fst st) + of_nat (length bs)" by simp
next
  fix st a and n :: u64
  assume st: "out_buffer st" and len: "unat n \<le> out_room st" and sep: "out_sep st a (unat n)"
  have "region (os_state (fst st)) (unat n) \<inter> region a (unat n) = {}"
    using sep region_mono [OF len, of "os_state (fst st)"] by (auto simp: out_sep_def)
  then have "copy_up (unat n) (os_state (fst st)) a m = store_bytes m (os_state (fst st)) (load_bytes m a (unat n))" for m
    using unat_u64_less [of n] by (intro copy_up_disjoint) auto
  then show "pb_write env (OB_Mem a) n st = (True, out_emit (load_bytes (cmem (snd st)) a (unat n)) st)"
    using pb_write_buffer_fits [OF st len]
    by (cases st) (simp add: buf_write_def Let_def out_emit_def)
next
  fix st
  show "out_emit [] st = st" by (simp add: out_emit_def)
next
  fix st and xs ys :: "byte list"
  show "out_emit (xs @ ys) st = out_emit ys (out_emit xs st)"
    by (simp add: out_emit_def store_bytes_append add.assoc)
next
  fix st a k and bs :: "byte list"
  assume st: "out_buffer st" and len: "length bs \<le> out_room st" and sep: "out_sep st a k"
  then show "out_sep (out_emit bs st) a k"
    using out_emit_region [OF st len] unfolding out_sep_def by blast
  have "region (os_state (fst st)) (length bs) \<inter> region a k = {}"
    using sep region_mono [OF len, of "os_state (fst st)"] by (auto simp: out_sep_def)
  then show "load_bytes (cmem (snd (out_emit bs st))) a k = load_bytes (cmem (snd st)) a k"
    using sep len out_room_le [of st] by (simp add: out_sep_def load_store_disjoint inf_commute)
next
  fix st buf and n :: u64
  assume "out_buffer st" "out_room st < unat n"
  then show "pb_write env buf n st = (False, os_set_error ''stream full'' st)"
    by (rule pb_write_buffer_full)
qed

interpretation sizing_sink: pb_sink env out_sizing sizing_room sizing_emit "\<lambda>st a n. True" for env
proof
  fix st and bs :: "byte list"
  assume st: "out_sizing st" and len: "length bs \<le> sizing_room st"
  have n: "unat (of_nat (length bs) :: u64) = length bs"
    using len by (subst unat_of_nat) (simp add: sizing_room_def)
  have "unat (os_bytes_written (fst st)) + length bs < 2 ^ 64"
    using len unat_u64_less [of "os_bytes_written (fst st)"] by (simp add: sizing_room_def)
  then show "sizing_room (sizing_emit bs st) = sizing_room st - length bs"
    using n by (simp add: sizing_room_def sizing_emit_def unat_plus_if')
qed (auto simp: sizing_emit_def out_sizing_def pb_write_def Let_def add.assoc)

section \<open>Concrete streams\<close>

text \<open>The streams the witnesses run on: a fresh 64-byte buffer at \<open>0x1000\<close>, and given bytes at \<open>0x100\<close>.\<close>

definition demo_out :: ost where
  "demo_out = (pb_ostream_from_buffer 0x1000 64, \<lparr>cmem = (\<lambda>a. ucast a), cblocks = Map.empty\<rparr>)"

definition demo_in :: "byte list \<Rightarrow> ist" where
  "demo_in bs = (pb_istream_from_buffer 0x100 (of_nat (length bs)),
     \<lparr>cmem = store_bytes (\<lambda>_. 0) 0x100 bs, cblocks = Map.empty\<rparr>)"

lemma demo_out_buffer [simp]: "out_buffer demo_out" "out_room demo_out = 64" "os_bytes_written (fst demo_out) = 0"
  "os_state (fst demo_out) = 0x1000"
  by (simp_all add: demo_out_def out_buffer_def out_room_def pb_ostream_from_buffer_def)

lemma demo_in_buffer [simp]: "in_buffer (demo_in bs)"
  by (simp add: demo_in_def)

lemma demo_in_view: "length bs < 2 ^ 64 \<Longrightarrow> in_view (demo_in bs) = bs"
  by (simp add: demo_in_def unat_of_nat load_store_same)



section \<open>What is written is read back\<close>

text \<open>
  \<open>reader st st' n\<close> is an input stream over the buffer of the output stream \<open>st\<close>, from where
  \<open>st\<close> stands and in the memory of \<open>st'\<close>, the stream after writing; \<open>written st st'\<close> is what
  was added to \<open>bytes_written\<close>.
\<close>

definition reader :: "ost \<Rightarrow> ost \<Rightarrow> u64 \<Rightarrow> ist" where
  "reader st st' n = (pb_istream_from_buffer (os_state (fst st)) n, snd st')"

definition written :: "ost \<Rightarrow> ost \<Rightarrow> u64" where
  "written st st' = os_bytes_written (fst st') - os_bytes_written (fst st)"

lemma reader_emit:
  assumes "out_buffer st" "length bs \<le> out_room st" "st' = out_emit bs st" "written st st' \<le> n"
  obtains rest where "in_view (reader st st' n) = bs @ rest" "unat (written st st') = length bs"
proof -
  let ?m = "store_bytes (cmem (snd st)) (os_state (fst st)) bs"
  have w: "unat (written st st') = length bs"
    using out_room_fits(2) [OF assms(1,2)] assms(3) by (simp add: written_def)
  then have le: "length bs \<le> unat n" "length bs \<le> 2 ^ 64"
    using assms(4) out_room_le [of st] assms(2) by (simp_all add: word_le_nat_alt)
  have "in_view (reader st st' n) = load_bytes ?m (os_state (fst st)) (length bs + (unat n - length bs))"
    using le assms(3) by (simp add: reader_def)
  also have "\<dots> = bs @ load_bytes ?m (os_state (fst st) + of_nat (length bs)) (unat n - length bs)"
    unfolding load_bytes_add load_store_same [OF le(2) refl] ..
  finally show ?thesis using w that by blast
qed

lemma in_buffer_reader [simp]: "in_buffer (reader st st' n)"
  by (simp add: reader_def)

lemma pb_encode_varint_buffer:
  assumes "out_buffer st" "pb_encode_varint env v st = (True, st')"
  shows "length (leb128 v) \<le> out_room st \<and> st' = out_emit (leb128 v) st"
  using assms buf_sink.pb_encode_varint_emit [OF assms(1), of v env]
    buf_sink.pb_encode_varint_full [OF assms(1), of v env]
  by (cases "length (leb128 v) \<le> out_room st") (auto simp: not_le)

lemma pb_write_full_buffer:
  assumes "out_buffer st" "pb_write env buf n st = (True, st')"
  shows "unat n \<le> out_room st"
  using assms by (rule_tac ccontr) (simp add: pb_write_buffer_full not_le)

lemma pb_decode_varint_reader:
  assumes "out_buffer st" "pb_encode_varint env v st = (True, st')" "written st st' \<le> n"
  shows "pb_decode_varint env (reader st st' n) =
    (Some v, is_advance (written st st') (reader st st' n))"
proof -
  note enc = pb_encode_varint_buffer [OF assms(1,2)]
  obtain rest where "in_view (reader st st' n) = leb128 v @ rest" "unat (written st st') = length (leb128 v)"
    by (rule reader_emit [OF assms(1) enc [THEN conjunct1] enc [THEN conjunct2] assms(3)])
  then show ?thesis
    using buf_source.pb_decode_varint_leb [OF leb_end_leb128 _ _ length_leb128_bound, of "reader st st' n" v rest env]
    by (simp add: leb_word_leb128 funpow_is_advance flip: \<open>unat (written st st') = _\<close>)
qed

text \<open>
  C34: a varint written to a memory buffer by \<open>pb_encode_varint\<close> is read back by
  \<open>pb_decode_varint\<close>: the value is the same, and the reader stops exactly where the writer
  did, whatever bytes follow.
\<close>

theorem varint_roundtrip:
  assumes "out_buffer st" "pb_encode_varint env v st = (True, st')" "written st st' \<le> n"
  shows "pb_decode_varint env (reader st st' n) =
    (Some v, is_advance (written st st') (reader st st' n))"
  by (rule pb_decode_varint_reader [OF assms])

theorem varint_roundtrip_witness:
  "pb_decode_varint no_env (reader demo_out (out_emit [0xAC, 2] demo_out) 64) =
    (Some 300, is_advance 2 (reader demo_out (out_emit [0xAC, 2] demo_out) 64))"
proof -
  let ?st' = "out_emit [0xAC, 2] demo_out"
  have leb: "leb128 300 = [0xAC, 2]" by (simp add: leb128.simps)
  have "pb_encode_varint no_env 300 demo_out = (True, ?st')"
    using buf_sink.pb_encode_varint_emit [of demo_out 300 no_env] by (simp add: leb)
  then show ?thesis using varint_roundtrip [of demo_out no_env 300 ?st' 64] by (simp add: written_def)
qed

lemma zigzag_inverse:
  fixes v :: u64
  defines "z \<equiv> (if sint v < 0 then NOT (push_bit 1 v) else push_bit 1 v)"
  shows "(if z AND 1 \<noteq> 0 then NOT (drop_bit 1 z) else drop_bit 1 z) = v"
proof -
  have s: "sint v < 0 \<longleftrightarrow> bit v 63" using bit_last_iff [of v] by simp
  have odd: "z AND 1 \<noteq> 0 \<longleftrightarrow> sint v < 0"
    unfolding and_1_eq_0_iff z_def by (cases "sint v < 0") (simp_all only: if_True if_False bit_not_iff bit_push_bit_iff, simp_all)
  show ?thesis
    unfolding odd
  proof (rule bit_word_eqI)
    fix n assume n: "n < LENGTH(64)"
    have shift: "bit (push_bit 1 v) (1 + n) \<longleftrightarrow> n < 63 \<and> bit v n"
      unfolding bit_push_bit_iff by auto
    show "bit (if sint v < 0 then NOT (drop_bit 1 z) else drop_bit 1 z) n = bit v n"
    proof (cases "n = 63")
      case True
      then show ?thesis
        using shift s by (simp add: z_def bit_not_iff bit_drop_bit_eq del: push_bit_Suc push_bit_of_1)
    next
      case False
      then show ?thesis
        using shift n unfolding z_def by (cases "sint v < 0") (simp_all add: bit_not_iff bit_drop_bit_eq del: push_bit_of_1)
    qed
  qed
qed

text \<open>
  Signed (zigzag) varints: \<open>pb_decode_svarint\<close> reads back the value \<open>pb_encode_svarint\<close>
  wrote, and stops where the writer did.
\<close>

theorem svarint_roundtrip:
  assumes "out_buffer st" "pb_encode_svarint env v st = (True, st')" "written st st' \<le> n"
  shows "pb_decode_svarint env (reader st st' n) =
    (Some v, is_advance (written st st') (reader st st' n))"
  using pb_decode_varint_reader [OF assms(1) assms(2) [unfolded pb_encode_svarint_def] assms(3)]
  by (simp only: pb_decode_svarint_def prod.case option.case Let_def zigzag_inverse)

theorem svarint_roundtrip_witness:
  "pb_decode_svarint no_env (reader demo_out (out_emit [3] demo_out) 64) =
    (Some (- 2), is_advance 1 (reader demo_out (out_emit [3] demo_out) 64))"
proof -
  let ?st' = "out_emit [3] demo_out"
  have leb: "leb128 3 = [3]" by (simp add: leb128.simps)
  have "pb_encode_svarint no_env (- 2) demo_out = (True, ?st')"
    using buf_sink.pb_encode_varint_emit [of demo_out 3 no_env] by (simp add: leb pb_encode_svarint_def)
  then show ?thesis using svarint_roundtrip [of demo_out no_env "- 2" ?st' 64] by (simp add: written_def)
qed

lemma pb_encode_fixed32_buffer:
  assumes "out_buffer st" "pb_encode_fixed32 env v st = (True, st')"
  shows "4 \<le> out_room st \<and> st' = out_emit (le_bytes 4 v) st"
proof -
  have "4 \<le> out_room st"
    using pb_write_full_buffer [OF assms(1) assms(2) [unfolded pb_encode_fixed32_def]] by simp
  then show ?thesis using buf_sink.pb_encode_fixed32_emit [OF assms(1), of env v] assms(2) by simp
qed

lemma pb_encode_fixed64_buffer:
  assumes "out_buffer st" "pb_encode_fixed64 env v st = (True, st')"
  shows "8 \<le> out_room st \<and> st' = out_emit (le_bytes 8 v) st"
proof -
  have "8 \<le> out_room st"
    using pb_write_full_buffer [OF assms(1) assms(2) [unfolded pb_encode_fixed64_def]] by simp
  then show ?thesis using buf_sink.pb_encode_fixed64_emit [OF assms(1), of env v] assms(2) by simp
qed

text \<open>
  Fixed-width values: a \<open>pb_encode_fixed32\<close> followed by a \<open>pb_encode_fixed64\<close> is read back by
  the two decoders, twelve bytes in all, least significant byte first.
\<close>

theorem fixed_roundtrip:
  fixes v :: u32 and w :: u64
  assumes "out_buffer st" "n \<ge> 12"
    "pb_encode_fixed32 env v st = (True, st1)" "pb_encode_fixed64 env w st1 = (True, st2)"
  shows "\<exists>r. pb_decode_fixed32 env (reader st st2 n) = (Some v, r) \<and>
    pb_decode_fixed64 env r = (Some w, is_advance 12 (reader st st2 n))"
proof -
  note e1 = pb_encode_fixed32_buffer [OF assms(1,3)]
  have b1: "out_buffer st1" using out_buffer_emit [of st "le_bytes 4 v"] e1 assms(1) by simp
  note e2 = pb_encode_fixed64_buffer [OF b1 assms(4)]
  let ?bs = "le_bytes 4 v @ le_bytes 8 w"
  have room: "length ?bs \<le> out_room st"
    using e1 e2 out_room_emit [OF assms(1), of "le_bytes 4 v"] by auto
  have st2: "st2 = out_emit ?bs st"
    using e1 e2 room by (simp add: buf_sink.emit_append [OF assms(1)])
  have "written st st2 = 12" using st2 by (simp add: written_def)
  then obtain rest where v: "in_view (reader st st2 n) = ?bs @ rest"
    using reader_emit [OF assms(1) room st2, of n] assms(2) by metis
  let ?r = "reader st st2 n"
  have l4: "le_bytes 4 v = [ucast v, ucast (drop_bit 8 v), ucast (drop_bit 16 v), ucast (drop_bit 24 v)]"
    by (simp add: le_bytes_def upt_4)
  have l8: "le_bytes 8 w = [ucast w, ucast (drop_bit 8 w), ucast (drop_bit 16 w), ucast (drop_bit 24 w),
      ucast (drop_bit 32 w), ucast (drop_bit 40 w), ucast (drop_bit 48 w), ucast (drop_bit 56 w)]"
    by (simp add: le_bytes_def upt_8)
  have at: "in_buffer ((is_advance 1 ^^ 4) ?r)" "in_view ((is_advance 1 ^^ 4) ?r) = le_bytes 8 w @ rest"
    using buf_source.adv_prefix [of ?r "le_bytes 4 v" "le_bytes 8 w @ rest"] v by simp_all
  have "pb_decode_fixed32 env ?r = (Some (le_word (le_bytes 4 v)), (is_advance 1 ^^ 4) ?r)"
    unfolding l4 by (rule buf_source.pb_decode_fixed32_view) (use v l4 in simp_all)
  moreover have "pb_decode_fixed64 env ((is_advance 1 ^^ 4) ?r) =
      (Some (le_word (le_bytes 8 w)), (is_advance 1 ^^ 8) ((is_advance 1 ^^ 4) ?r))"
    unfolding l8 by (rule buf_source.pb_decode_fixed64_view [OF at(1)]) (use at l8 in simp)
  ultimately show ?thesis
    by (simp add: le_word_le_bytes funpow_is_advance)
qed

theorem fixed_roundtrip_witness:
  "\<exists>st r. pb_decode_fixed32 no_env (reader demo_out st 64) = (Some 7, r) \<and>
    pb_decode_fixed64 no_env r = (Some 9, is_advance 12 (reader demo_out st 64))"
proof -
  let ?st1 = "out_emit (le_bytes 4 (7 :: u32)) demo_out"
  let ?st2 = "out_emit (le_bytes 8 (9 :: u64)) ?st1"
  have 1: "pb_encode_fixed32 no_env 7 demo_out = (True, ?st1)"
    by (rule buf_sink.pb_encode_fixed32_emit) simp_all
  have "pb_encode_fixed64 no_env 9 ?st1 = (True, ?st2)"
    by (rule buf_sink.pb_encode_fixed64_emit) (simp_all add: out_buffer_emit out_room_emit)
  from fixed_roundtrip [OF _ _ 1 this, of 64] show ?thesis by (intro exI [of _ ?st2]) simp
qed

lemma tag_word:
  fixes num wt :: u32
  assumes "num < 2 ^ 29" "wt < 8"
  shows "(push_bit 3 (ucast num) OR ucast wt :: u64) < 2 ^ 32"
    "ucast (push_bit 3 (ucast num) OR ucast wt :: u64) = (push_bit 3 num OR wt :: u32)"
    "(push_bit 3 num OR wt) AND 7 = wt" "drop_bit 3 (push_bit 3 num OR wt) = num"
proof -
  have num: "bit num k \<Longrightarrow> k < 29" for k
    using assms(1) unat_less_exp_iff [of num 29] by (auto simp: word_less_nat_alt not_le [symmetric])
  have wt: "bit wt k \<Longrightarrow> k < 3" for k
    using assms(2) unat_less_exp_iff [of wt 3] by (auto simp: word_less_nat_alt not_le [symmetric])
  have "unat (push_bit 3 (ucast num) OR ucast wt :: u64) < 2 ^ 32"
    unfolding unat_less_exp_iff by (auto simp: bit_or_iff bit_push_bit_iff bit_ucast_iff dest!: num wt)
  then show "(push_bit 3 (ucast num) OR ucast wt :: u64) < 2 ^ 32"
    by (simp add: word_less_nat_alt)
  show "ucast (push_bit 3 (ucast num) OR ucast wt :: u64) = (push_bit 3 num OR wt :: u32)"
    by (rule bit_word_eqI) (auto simp: bit_simps)
  show "(push_bit 3 num OR wt) AND 7 = wt"
    by (rule bit_word_eqI) (auto simp: bit_simps dest: wt)
  show "drop_bit 3 (push_bit 3 num OR wt) = num"
    by (rule bit_word_eqI) (auto simp: bit_simps dest: num wt)
qed


text \<open>
  A tag written by \<open>pb_encode_tag\<close> is decoded by \<open>pb_decode_tag\<close> to the same wire type and field
  number, for every field number protobuf allows.
\<close>

theorem tag_roundtrip:
  assumes "out_buffer st" "pb_encode_tag env wt num st = (True, st')" "written st st' \<le> n"
    and "num < 2 ^ 29" "wt < 8" "num \<noteq> 0"
  shows "pb_decode_tag env (reader st st' n) =
    (\<lparr>tr_ok = True, tr_wire_type = wt, tr_tag = num, tr_eof = False\<rparr>,
     is_advance (written st st') (reader st st' n))"
proof -
  let ?t = "push_bit 3 (ucast num) OR ucast wt :: u64"
  note enc = pb_encode_varint_buffer [OF assms(1) assms(2) [unfolded pb_encode_tag_def]]
  obtain rest where v: "in_view (reader st st' n) = leb128 ?t @ rest" "unat (written st st') = length (leb128 ?t)"
    by (rule reader_emit [OF assms(1) enc [THEN conjunct1] enc [THEN conjunct2] assms(3)])
  note tag = tag_word [OF assms(4,5)]
  have "push_bit 3 num OR wt \<noteq> 0" using tag(4) assms(6) by (metis drop_bit_of_0)
  then show ?thesis
    using buf_source.pb_decode_varint32_eof_small [OF tag(1) _ v(1), of env] tag(2-4)
    by (simp add: pb_decode_tag_def funpow_is_advance flip: v(2))
qed

theorem tag_roundtrip_witness:
  "tr_tag (fst (pb_decode_tag no_env (reader demo_out (out_emit [0x82, 1] demo_out) 64))) = 16 \<and>
   tr_wire_type (fst (pb_decode_tag no_env (reader demo_out (out_emit [0x82, 1] demo_out) 64))) = 2"
proof -
  let ?st' = "out_emit [0x82, 1] demo_out"
  have leb: "leb128 130 = [0x82, 1]" by (simp add: leb128.simps)
  have "pb_encode_tag no_env 2 16 demo_out = (True, ?st')"
    using buf_sink.pb_encode_varint_emit [of demo_out 130 no_env] by (simp add: leb pb_encode_tag_def)
  then show ?thesis using tag_roundtrip [of demo_out no_env 2 16 ?st' 64] by (simp add: written_def)
qed

lemma pb_encode_string_buffer:
  assumes "out_buffer st" "pb_encode_string env (OB_Mem a) k st = (True, st')" "out_sep st a (unat k)"
  shows "length (leb128 k) + unat k \<le> out_room st \<and>
    st' = out_emit (leb128 k @ load_bytes (cmem (snd st)) a (unat k)) st"
proof -
  obtain st1 where e1: "pb_encode_varint env k st = (True, st1)" "pb_write env (OB_Mem a) k st1 = (True, st')"
    using assms(2) by (auto simp: pb_encode_string_def split: prod.splits bool.splits)
  note v = pb_encode_varint_buffer [OF assms(1) e1(1)]
  have b1: "out_buffer st1" using v out_buffer_emit [OF assms(1)] by simp
  have "unat k \<le> out_room st1" by (rule pb_write_full_buffer [OF b1 e1(2)])
  then have "length (leb128 k) + unat k \<le> out_room st"
    using v out_room_emit [OF assms(1)] by auto
  then show ?thesis
    using buf_sink.pb_encode_string_emit [OF assms(1) _ assms(3), of env] assms(2) by simp
qed

text \<open>
  Length-prefixed data: what \<open>pb_encode_string\<close> wrote is a substream whose bytes are exactly
  the source's; closing the substream leaves the parent exactly behind the field.
\<close>

theorem string_roundtrip:
  assumes "out_buffer st" "out_sep st a (unat k)" "k < 2 ^ 32"
    and "pb_encode_string env (OB_Mem a) k st = (True, st')" "written st st' \<le> n"
  shows "\<exists>sub parent.
    pb_make_string_substream env (reader st st' n) = (Some sub, (parent, snd st')) \<and>
    in_view (sub, snd st') = load_bytes (cmem (snd st)) a (unat k) \<and>
    is_bytes_left parent = n - written st st' \<and>
    pb_close_string_substream env parent (sub, snd st') =
      (True, is_advance (written st st') (reader st st' n))"
proof -
  let ?r = "reader st st' n" and ?p = "load_bytes (cmem (snd st)) a (unat k)"
  note enc = pb_encode_string_buffer [OF assms(1,4,2)]
  obtain rest where v: "in_view ?r = (leb128 k @ ?p) @ rest" "unat (written st st') = length (leb128 k @ ?p)"
    using reader_emit [OF assms(1) _ enc [THEN conjunct2] assms(5)] enc by auto
  let ?l = "of_nat (length (leb128 k)) :: u64"
  have dec: "pb_decode_varint32 env ?r = (Some (ucast k), is_advance ?l ?r)"
    using buf_source.pb_decode_varint32_small [OF assms(3), of ?r "?p @ rest" env] v(1)
    by (simp add: funpow_is_advance)
  have kk: "ucast (ucast k :: u32) = k"
    using assms(3) unat_less_exp_iff [of k 32]
    by (intro bit_word_eqI) (auto simp: bit_ucast_iff word_less_nat_alt not_le [symmetric])
  have ln: "unat ?l = length (leb128 k)"
    using length_leb128_bound [of k] by (subst unat_of_nat) simp
  have w: "written st st' = ?l + k"
  proof -
    have "(of_nat (unat (written st st')) :: u64) = ?l + of_nat (unat k)" unfolding v(2) by simp
    then show ?thesis by simp
  qed
  have n: "unat ?l + unat k \<le> unat n"
    using v(2) assms(5) ln by (simp add: word_le_nat_alt)
  then have ln_n: "?l \<le> n" "k \<le> n - ?l" by (simp_all add: word_le_nat_alt unat_sub_if')
  let ?sub = "(fst (is_advance ?l ?r))\<lparr>is_bytes_left := k\<rparr>"
  let ?parent = "(fst (is_advance ?l ?r))\<lparr>is_bytes_left := n - ?l - k\<rparr>"
  have r: "is_bytes_left (fst ?r) = n" "snd ?r = snd st'"
    by (simp_all add: reader_def pb_istream_from_buffer_def)
  have make: "pb_make_string_substream env ?r = (Some ?sub, (?parent, snd st'))"
    using ln_n by (simp add: pb_make_string_substream_def dec kk r not_less is_advance_def)
  have view: "in_view (?sub, snd st') = ?p"
  proof -
    have "in_view (?sub, snd st') = take (unat k) (drop (length (leb128 k)) (in_view ?r))"
      using n ln by (simp add: in_view_def r drop_load_bytes take_load_bytes)
    then show ?thesis by (simp add: v(1))
  qed
  have "in_buffer (?sub, snd st')" by (simp add: in_buffer_def reader_def pb_istream_from_buffer_def)
  then have "pb_skip_bytes env k (?sub, snd st') = (True, is_advance k (?sub, snd st'))"
    using buf_source.pb_skip_bytes_view [of "(?sub, snd st')" k env] by (simp add: funpow_is_advance)
  then have "pb_close_string_substream env ?parent (?sub, snd st') =
      (True, is_advance (written st st') ?r)"
    by (cases "k = 0") (simp_all add: pb_close_string_substream_def w is_advance_def reader_def pb_istream_from_buffer_def algebra_simps)
  then show ?thesis using make view w by (auto simp: algebra_simps)
qed


theorem string_roundtrip_witness:
  "\<exists>st' sub parent. pb_make_string_substream no_env (reader demo_out st' 64) = (Some sub, (parent, snd st')) \<and>
    in_view (sub, snd st') = [0, 1, 2]"
proof -
  have leb: "leb128 3 = [3]" by (simp add: leb128.simps)
  have bytes: "load_bytes (cmem (snd demo_out)) 0 3 = [0, 1, 2]"
    by (simp add: demo_out_def numeral_3_eq_3)
  let ?st' = "out_emit [3, 0, 1, 2] demo_out"
  have "x \<notin> region 0 3" if "x \<in> region 0x1000 64" for x
  proof
    assume "x \<in> region 0 3"
    then have "x = 0 \<or> x = 1 \<or> x = 2" by (auto simp: mem_region_iff numeral_3_eq_3 less_Suc_eq)
    then show False using that by (auto simp: region_def)
  qed
  then have sep: "out_sep demo_out 0 (unat (3 :: u64))"
    by (auto simp: out_sep_def)
  have "pb_encode_string no_env (OB_Mem 0) 3 demo_out = (True, ?st')"
    using buf_sink.pb_encode_string_emit [of demo_out 3 0 no_env] sep by (simp add: leb bytes)
  from string_roundtrip [OF _ sep _ this, of 64] show ?thesis
    by (intro exI [of _ ?st']) (auto simp: written_def bytes)
qed

section \<open>Limits\<close>

lemma buf_write_frame [frame_rules]:
  assumes "unat n \<le> k" "k < 2 ^ 64" "x \<notin> region (os_state (fst st)) k"
  shows "cmem (snd (buf_write buf n st)) x = cmem (snd st) x"
proof -
  have x: "x \<notin> region (os_state (fst st)) (unat n)" and n: "unat n < 2 ^ 64"
    using assms region_mono [of "unat n" k] by auto
  then have "x \<notin> region (os_state (fst st)) (length (take (unat n) bs))" for bs :: "byte list"
    using region_mono [of "length (take (unat n) bs)" "unat n"] by auto
  then have bytes: "store_bytes m (os_state (fst st)) (take (unat n) bs) x = m x" for m bs
    using n by (intro store_bytes_frame) simp_all
  have "copy_up (unat n) (os_state (fst st)) a m x = m x" for a m
    by (rule copy_up_frame [OF n x])
  then show ?thesis
    using bytes by (cases st; cases buf) (simp_all add: buf_write_def Let_def)
qed

text \<open>
  C35: no write leaves the buffer: \<open>pb_write\<close> on a memory buffer, whatever its arguments, changes no
  byte outside what is left of the buffer, keeps \<open>bytes_written <= max_size\<close> (no wrap-around),
  and a refused write changes nothing and reports an error.
\<close>

theorem pb_write_in_buffer:
  assumes "out_buffer st" "pb_write env buf n st = (ok, st')"
  shows "out_buffer st' \<and>
    (\<forall>x. x \<notin> region (os_state (fst st)) (out_room st) \<longrightarrow> cmem (snd st') x = cmem (snd st) x) \<and>
    (if ok then os_bytes_written (fst st') = os_bytes_written (fst st) + n
     else snd st' = snd st \<and> os_bytes_written (fst st') = os_bytes_written (fst st) \<and>
       os_errmsg (fst st') \<noteq> None)"
proof (cases "unat n \<le> out_room st")
  case True
  note w = pb_write_buffer_fits [OF assms(1) True, of env buf]
  have sel: "os_callback (fst (buf_write buf n st)) = os_callback (fst st)"
    "os_max_size (fst (buf_write buf n st)) = os_max_size (fst st)"
    "os_bytes_written (fst (buf_write buf n st)) = os_bytes_written (fst st)"
    by (simp_all add: buf_write_def Let_def split: prod.splits)
  have "unat (os_bytes_written (fst st) + n) \<le> unat (os_max_size (fst st))"
    using out_room_fits(1) [OF assms(1) True] assms(1) True
    by (auto simp: out_buffer_def out_room_def word_le_nat_alt)
  moreover obtain s c where bw: "buf_write buf n st = (s, c)" by (cases "buf_write buf n st") blast
  moreover have "cmem c x = cmem (snd st) x" if "x \<notin> region (os_state (fst st)) (out_room st)" for x
    using buf_write_frame [OF True out_room_le that, of buf] bw by simp
  ultimately show ?thesis
    using w sel assms by (auto simp: out_buffer_def word_le_nat_alt)
next
  case False
  then show ?thesis
    using pb_write_buffer_full [OF assms(1), of n env buf] assms
    by (auto simp: os_set_error_def PB_SET_ERROR_def out_buffer_def split: option.splits)
qed

theorem pb_write_in_buffer_witness:
  "out_buffer (snd (pb_write no_env (OB_Mem 0x1010) 60 demo_out)) \<and>
   cmem (snd (snd (pb_write no_env (OB_Mem 0x1010) 60 demo_out))) 0x1040 = cmem (snd demo_out) 0x1040"
proof -
  have "(0x1040 :: addr) \<notin> region 0x1000 64" by (simp add: region_def)
  then show ?thesis
    using pb_write_in_buffer [of demo_out no_env "OB_Mem 0x1010" 60] by (metis demo_out_buffer(1,2,4) prod.collapse)
qed

definition field_payload :: "pb_wire_type_t \<Rightarrow> byte list \<Rightarrow> bool" where
  "field_payload wt bs \<longleftrightarrow>
     (wt = PB_WT_VARINT \<and> leb_end bs) \<or>
     (wt = PB_WT_64BIT \<and> length bs = 8) \<or>
     (wt = PB_WT_STRING \<and>
        (\<exists>n payload. bs = leb128 (ucast (n :: u32)) @ payload \<and> unat n = length payload)) \<or>
     (wt = PB_WT_32BIT \<and> length bs = 4)"

text \<open>
  C36: \<open>pb_skip_field\<close> on an unknown field takes exactly the bytes the wire grammar
  \<open>field_payload\<close> gives the field, for each of the four wire types.
\<close>

theorem pb_skip_field_exact:
  assumes "in_buffer st" "in_view st = bs @ rest" "field_payload wt bs"
  shows "pb_skip_field env wt st = (True, is_advance (of_nat (length bs)) st)"
proof -
  have fixed: "pb_skip_bytes env (of_nat (length bs)) st = (True, is_advance (of_nat (length bs)) st)"
    if "length bs \<le> 8"
  proof -
    have "unat (of_nat (length bs) :: u64) = length bs" using that by (subst unat_of_nat) simp
    then show ?thesis
      using buf_source.pb_skip_bytes_view [OF assms(1), of "of_nat (length bs)" env] assms(2)
      by (simp add: funpow_is_advance)
  qed
  from assms(3) consider "wt = PB_WT_VARINT" "leb_end bs"
    | "wt = PB_WT_64BIT" "length bs = 8" | "wt = PB_WT_32BIT" "length bs = 4"
    | n payload where "wt = PB_WT_STRING" "bs = leb128 (ucast (n :: u32)) @ payload" "unat n = length payload"
    by (auto simp: field_payload_def)
  then show ?thesis
  proof cases
    case 1
    then show ?thesis
      using buf_source.pb_skip_varint_leb [OF _ assms(1,2), of env]
      by (simp add: pb_skip_field_def funpow_is_advance)
  next
    case 2
    then show ?thesis using fixed by (simp add: pb_skip_field_def)
  next
    case 3
    then show ?thesis using fixed by (simp add: pb_skip_field_def)
  next
    case 4
    then show ?thesis
      using buf_source.pb_skip_string_view [of n payload st rest env] assms(1,2)
      by (simp add: pb_skip_field_def funpow_is_advance)
  qed
qed

theorem pb_skip_field_exact_witness:
  "pb_skip_field no_env PB_WT_STRING (demo_in [2, 7, 8, 9]) = (True, is_advance 3 (demo_in [2, 7, 8, 9]))"
proof -
  have leb: "leb128 2 = [2]" by (simp add: leb128.simps)
  have "field_payload PB_WT_STRING [2, 7, 8]"
    unfolding field_payload_def by (auto simp: leb intro!: exI [of _ "2 :: u32"])
  then show ?thesis
    using pb_skip_field_exact [of "demo_in [2, 7, 8, 9]" "[2, 7, 8]" "[9]" PB_WT_STRING no_env]
    by (simp add: demo_in_view)
qed

text \<open>
  \<open>pb_decode_varint32\<close> accepts the canonical encoding of every unsigned 32-bit value and of every
  negative 32-bit value sign-extended to ten bytes, and refuses everything else below \<open>2 ^ 63\<close>.
\<close>

theorem pb_decode_varint32_range:
  assumes "in_buffer st" "in_view st = leb128 v @ rest" "v < 2 ^ 63 \<or> (\<exists>w :: u32. v = scast w)"
  shows "fst (pb_decode_varint32 env st) =
    (if v < 2 ^ 32 \<or> 2 ^ 63 \<le> v then Some (ucast v) else None)"
proof -
  consider "v < 2 ^ 32" | "2 ^ 32 \<le> v" "v < 2 ^ 63"
    | w :: u32 where "2 ^ 63 \<le> v" "v = scast w"
    using assms(3) by force
  then show ?thesis
  proof cases
    case 1
    then show ?thesis using buf_source.pb_decode_varint32_small [OF 1 assms(1,2)] by simp
  next
    case 2
    then obtain j where "pb_decode_varint32_eof env st =
        (None, False, is_set_error ''varint overflow'' ((is_advance 1 ^^ j) st))"
      using buf_source.pb_decode_varint32_eof_big [OF 2 assms(1,2), of env] by blast
    then show ?thesis using 2 by (simp add: pb_decode_varint32_def not_less not_le)
  next
    case 3
    have "bit v 63"
    proof (rule ccontr)
      assume "\<not> bit v 63"
      then have "\<not> bit v k" if "63 \<le> k" for k
        using that by (cases "k = 63") (auto dest: bit_imp_le_length)
      then show False using unat_less_exp_iff [of v 63] 3(1) by (simp add: word_le_nat_alt)
    qed
    then have "sint w < 0" using bit_last_iff [of w] by (simp add: 3(2) bit_signed_iff)
    moreover have "ucast (scast w :: u64) = w"
    proof (rule bit_word_eqI)
      fix k assume "k < LENGTH(32)"
      then show "bit (ucast (scast w :: u64) :: u32) k = bit w k"
        by (cases "k = 31") (simp_all add: bit_ucast_iff bit_signed_iff min_def)
    qed
    ultimately show ?thesis
      using buf_source.pb_decode_varint32_eof_sign [of w st rest env] assms(1,2) 3
      by (simp add: pb_decode_varint32_def)
  qed
qed

theorem pb_decode_varint32_range_witness:
  "fst (pb_decode_varint32 no_env (demo_in [0xFB, 0xFF, 0xFF, 0xFF, 0xFF, 0xFF, 0xFF, 0xFF, 0xFF, 1])) = Some (- 5)"
proof -
  let ?bs = "[0xFB, 0xFF, 0xFF, 0xFF, 0xFF, 0xFF, 0xFF, 0xFF, 0xFF, 1] :: byte list"
  have leb: "leb128 (- 5) = ?bs" by (simp add: leb128.simps)
  have "\<exists>w :: u32. (- 5 :: u64) = scast w" by (rule exI [of _ "- 5"]) simp
  then have "fst (pb_decode_varint32 no_env (demo_in ?bs)) =
      (if (- 5 :: u64) < 2 ^ 32 \<or> 2 ^ 63 \<le> (- 5 :: u64) then Some (ucast (- 5 :: u64)) else None)"
    by (intro pb_decode_varint32_range [where rest = "[]"]) (simp_all add: leb demo_in_view)
  then show ?thesis by simp
qed

text \<open>
  No read gets past \<open>bytes_left\<close>, whatever the stream's callback does: a successful read of \<open>n\<close>
  bytes had them and takes exactly \<open>n\<close>, a failed one never adds any.
\<close>

theorem pb_read_bounded:
  assumes "pb_read env buf n st = (r, st')"
  shows "is_callback (fst st') = is_callback (fst st) \<and>
    (if r = None then is_bytes_left (fst st') \<le> is_bytes_left (fst st)
     else n \<le> is_bytes_left (fst st) \<and> is_bytes_left (fst st') = is_bytes_left (fst st) - n)"
  using pb_read_left [OF assms] by (auto split: option.splits)

theorem pb_read_bounded_witness:
  "is_bytes_left (fst (snd (pb_read no_env IB_Null 2 (demo_in [1, 2, 3])))) = 1"
proof -
  obtain st' where "pb_read no_env IB_Null 2 (demo_in [1, 2, 3]) = (Some (\<lambda>i. cmem (snd (demo_in [1, 2, 3]))
      (is_state (fst (demo_in [1, 2, 3])) + of_nat i)), st')"
    by (simp add: pb_read_buffer) (simp add: demo_in_def pb_istream_from_buffer_def)
  from pb_read_bounded [OF this] this show ?thesis
    by (simp add: demo_in_def pb_istream_from_buffer_def)
qed

text \<open>
  A varint32 of six or more bytes may carry bits 32 to 34 in its fifth byte: they are dropped
  without the \<open>varint overflow\<close> that the five-byte encoding of the same value gets, so the
  32-bit and the 64-bit decoder disagree.
\<close>

theorem varint32_drops_high_bits:
  assumes "in_buffer st" "in_view st = [0x80, 0x80, 0x80, 0x80, 0xF0, 0x00] @ rest"
  shows "fst (pb_decode_varint32 env st) = Some 0 \<and> fst (pb_decode_varint env st) = Some 0x700000000"
proof -
  let ?bs = "[0x80, 0x80, 0x80, 0x80, 0xF0] :: byte list"
  let ?st = "is_advance 5 st"
  have v: "in_view st = ?bs @ 0 # rest" using assms(2) by simp
  have at: "in_buffer ?st" "in_view ?st = 0 # rest"
    using buf_source.adv_prefix [OF assms(1) v] by simp_all
  have z: "(30064771072 :: u32) = 0" by simp
  have "varint32_loop env 0 0 st = varint32_loop env 35 0 ?st"
    using buf_source.varint32_loop_prefix [of ?bs st "0 # rest" 0 env 0] assms(1) v by (simp add: z)
  also have "\<dots> = (Some (0, 42, 0), is_advance 1 ?st)"
    using buf_source.readbyte_Cons [OF at, of env] by (subst varint32_loop.simps) simp
  finally have "fst (pb_decode_varint32 env st) = Some 0"
    using buf_source.pb_decode_varint32_eof_loop [OF assms(1), where env = env] v
    by (simp add: pb_decode_varint32_def)
  moreover have "fst (pb_decode_varint env st) = Some 0x700000000"
    using buf_source.pb_decode_varint_leb [of "?bs @ [0]" st rest env] assms(1) v by simp
  ultimately show ?thesis by blast
qed

theorem varint32_drops_high_bits_witness:
  "fst (pb_decode_varint32 no_env (demo_in [0x80, 0x80, 0x80, 0x80, 0xF0, 0x00])) = Some 0"
  using varint32_drops_high_bits [of "demo_in [0x80, 0x80, 0x80, 0x80, 0xF0, 0x00]" "[]" no_env]
  by (simp add: demo_in_view)

end
