(* ===== verification/Pb_Heap.thy ===== *)
theory Pb_Heap
  imports Pb_Codec "HOL-Library.Monad_Syntax"
begin

text \<open>
  The C state below the decoder: typed access to the memory of a stream's state, \<open>memset\<close> and
  \<open>memcpy\<close>, the allocator (\<open>pb_realloc\<close> and \<open>pb_free\<close>, which \<open>pb.h\<close> defines as \<open>realloc\<close>
  and \<open>free\<close>) and the iteration patterns the message functions of \<open>pb_decode.c\<close> and
  \<open>pb_encode.c\<close> share.

  From here on a function may have no result: \<open>None\<close> stands for a call of the C program
  that does not return (an endless loop), that has undefined behaviour (a null function pointer, a
  free of what is not allocated) or that nests deeper than the model's fuel.
\<close>

section \<open>Typed access\<close>

definition get :: "addr \<Rightarrow> nat \<Rightarrow> cst \<Rightarrow> 'a::len word" where
  "get a n c = load (cmem c) a n"

definition put :: "addr \<Rightarrow> nat \<Rightarrow> 'a::len word \<Rightarrow> cst \<Rightarrow> cst" where
  "put a n w c = c\<lparr>cmem := store (cmem c) a n w\<rparr>"

definition memset :: "addr \<Rightarrow> byte \<Rightarrow> u64 \<Rightarrow> cst \<Rightarrow> cst" where
  "memset a b n c = c\<lparr>cmem := store_bytes (cmem c) a (replicate (unat n) b)\<rparr>"

definition memcpy :: "addr \<Rightarrow> addr \<Rightarrow> u64 \<Rightarrow> cst \<Rightarrow> cst" where
  "memcpy a src n c = c\<lparr>cmem := store_bytes (cmem c) a (load_bytes (cmem c) src (unat n))\<rparr>"

text \<open>A pointer, a \<open>pb_size_t\<close> and a \<open>bool\<close> in memory.\<close>

abbreviation get_ptr :: "addr \<Rightarrow> cst \<Rightarrow> addr" where "get_ptr a c \<equiv> get a 8 c"
abbreviation put_ptr :: "addr \<Rightarrow> addr \<Rightarrow> cst \<Rightarrow> cst" where "put_ptr a p c \<equiv> put a 8 p c"
abbreviation get_size :: "addr \<Rightarrow> cst \<Rightarrow> u32" where "get_size a c \<equiv> get a 4 c"
abbreviation put_size :: "addr \<Rightarrow> u32 \<Rightarrow> cst \<Rightarrow> cst" where "put_size a n c \<equiv> put a 4 n c"

definition put_bool :: "addr \<Rightarrow> bool \<Rightarrow> cst \<Rightarrow> cst" where
  "put_bool a b c = put a 1 (if b then 1 else 0 :: byte) c"

definition get_bool :: "addr \<Rightarrow> cst \<Rightarrow> bool" where
  "get_bool a c \<longleftrightarrow> (get a 1 c :: byte) \<noteq> 0"

text \<open>A change of the C state under a stream.\<close>

definition on_c :: "(cst \<Rightarrow> cst) \<Rightarrow> 's \<times> cst \<Rightarrow> 's \<times> cst" where
  "on_c f st = (fst st, f (snd st))"

lemma on_c_sel [simp]: "fst (on_c f st) = fst st" "snd (on_c f st) = f (snd st)"
  by (simp_all add: on_c_def)

section \<open>The allocator\<close>

text \<open>
  \<open>realloc\<close> of a pointer that is neither \<open>NULL\<close> nor a live block is undefined, as is a \<open>free\<close>.
  The contents move with the block, up to the smaller of the two sizes.
\<close>

definition pb_realloc :: "pb_env \<Rightarrow> addr \<Rightarrow> u64 \<Rightarrow> cst \<Rightarrow> (addr \<times> cst) option" where
  "pb_realloc env ptr n c =
     (if ptr \<noteq> NULL \<and> cblocks c ptr = None then None
      else
        let a = env_realloc env c ptr n;
            old = (if ptr = NULL then 0 else the (cblocks c ptr))
        in if a = NULL then Some (NULL, c)
           else Some (a, c\<lparr>cmem := store_bytes (cmem c) a (load_bytes (cmem c) ptr (min old (unat n))),
                           cblocks := ((cblocks c)(ptr := None))(a \<mapsto> unat n)\<rparr>))"

definition pb_free :: "addr \<Rightarrow> cst \<Rightarrow> cst option" where
  "pb_free ptr c =
     (if ptr = NULL then Some c
      else if cblocks c ptr = None then None
      else Some (c\<lparr>cblocks := (cblocks c)(ptr := None)\<rparr>))"

section \<open>Iteration\<close>

text \<open>The loop \<open>do \<dots> while (pb_field_iter_next(&iter))\<close>.\<close>

partial_function (option) iter_each ::
  "(pb_field_iter \<Rightarrow> 's \<Rightarrow> 's option) \<Rightarrow> pb_field_iter \<Rightarrow> 's \<Rightarrow> 's option" where
  "iter_each f it s =
     do {
       s' \<leftarrow> f it s;
       if fst (pb_field_iter_next it) then iter_each f (snd (pb_field_iter_next it)) s' else Some s'
     }"

text \<open>The offsets of \<open>pb_extension_t\<close> and \<open>pb_extension_type_t\<close>.\<close>

definition ext_type :: "addr \<Rightarrow> cst \<Rightarrow> addr" where "ext_type ext c = get_ptr ext c"
definition ext_dest :: "addr \<Rightarrow> addr" where "ext_dest ext = ext + 8"
definition ext_next :: "addr \<Rightarrow> addr" where "ext_next ext = ext + 16"
definition ext_found :: "addr \<Rightarrow> addr" where "ext_found ext = ext + 24"
definition ext_decode_fn :: "addr \<Rightarrow> cst \<Rightarrow> addr" where "ext_decode_fn ext c = get_ptr (ext_type ext c) c"
definition ext_encode_fn :: "addr \<Rightarrow> cst \<Rightarrow> addr" where "ext_encode_fn ext c = get_ptr (ext_type ext c + 8) c"
definition ext_arg :: "addr \<Rightarrow> cst \<Rightarrow> addr" where "ext_arg ext c = get_ptr (ext_type ext c + 16) c"

text \<open>The loop \<open>while (ext != NULL) { \<dots>; ext = ext->next; }\<close>.\<close>

partial_function (option) ext_each ::
  "(addr \<Rightarrow> cst \<Rightarrow> cst option) \<Rightarrow> addr \<Rightarrow> cst \<Rightarrow> cst option" where
  "ext_each f ext c =
     (if ext = NULL then Some c
      else do {
        c' \<leftarrow> f ext c;
        ext_each f (get_ptr (ext_next ext) c') c'
      })"

definition iter_from_extension :: "pb_env \<Rightarrow> addr \<Rightarrow> cst \<Rightarrow> pb_field_iter" where
  "iter_from_extension env ext c =
     (let fs = env_fields env (ext_arg ext c);
          dest = get_ptr (ext_dest ext) c;
          it = (snd (pb_field_iter_begin fs dest))\<lparr>i_pData := dest, i_pSize := ext_found ext\<rparr>
      in if PB_ATYPE (f_type (field_at fs 0)) = PB_ATYPE_POINTER
         then it\<lparr>i_pData := ext_dest ext\<rparr> else it)"

section \<open>Defaults\<close>

text \<open>
  \<open>pb_field_set_to_default\<close> for one field; \<open>item\<close> is the same function for the field of an
  extension or of a submessage, one level further down.
\<close>

definition message_each ::
  "(pb_field_iter \<Rightarrow> cst \<Rightarrow> cst option) \<Rightarrow> pb_field list \<Rightarrow> addr \<Rightarrow> cst \<Rightarrow> cst option" where
  "message_each f fs dest c =
     (case pb_field_iter_begin fs dest of
        (False, it) \<Rightarrow> Some c
      | (True, it) \<Rightarrow> iter_each f it c)"

definition static_set_to_default ::
  "(pb_field_iter \<Rightarrow> cst \<Rightarrow> cst option) \<Rightarrow> pb_env \<Rightarrow> pb_field_iter \<Rightarrow> cst \<Rightarrow> cst option" where
  "static_set_to_default item env it c =
     (let pos = cur_field it; type = f_type pos;
          (init_data, c1) =
            (if PB_HTYPE type = PB_HTYPE_OPTIONAL \<and> i_pSize it \<noteq> i_pData it
             then (True, put_bool (i_pSize it) False c)
             else if PB_HTYPE type = PB_HTYPE_REPEATED \<or> PB_HTYPE type = PB_HTYPE_ONEOF
             then (False, put_size (i_pSize it) 0 c)
             else (True, c))
      in if \<not> init_data then Some c1
         else if PB_LTYPE type = PB_LTYPE_SUBMESSAGE
         then message_each item (env_fields env (f_ptr pos)) (i_pData it) c1
         else if f_ptr pos \<noteq> NULL
         then Some (memcpy (i_pData it) (f_ptr pos) (ucast (f_data_size pos)) c1)
         else Some (memset (i_pData it) 0 (ucast (f_data_size pos)) c1))"

primrec pb_field_set_to_default :: "pb_env \<Rightarrow> nat \<Rightarrow> pb_field_iter \<Rightarrow> cst \<Rightarrow> cst option" where
  "pb_field_set_to_default env 0 = (\<lambda>it c. None)"
| "pb_field_set_to_default env (Suc n) = (\<lambda>it c.
     let type = f_type (cur_field it) in
     if PB_LTYPE type = PB_LTYPE_EXTENSION then
       ext_each (\<lambda>ext c.
         let c1 = put_bool (ext_found ext) False c
         in pb_field_set_to_default env n (iter_from_extension env ext c1) c1)
         (get_ptr (i_pData it) c) c
     else if PB_ATYPE type = PB_ATYPE_STATIC then
       static_set_to_default (pb_field_set_to_default env n) env it c
     else if PB_ATYPE type = PB_ATYPE_POINTER then
       (let c1 = put_ptr (i_pData it) NULL c
        in Some (if PB_HTYPE type = PB_HTYPE_REPEATED \<or> PB_HTYPE type = PB_HTYPE_ONEOF
                 then put_size (i_pSize it) 0 c1 else c1))
     else Some c)"

definition pb_message_set_to_defaults ::
  "pb_env \<Rightarrow> nat \<Rightarrow> pb_field list \<Rightarrow> addr \<Rightarrow> cst \<Rightarrow> cst option" where
  "pb_message_set_to_defaults env n fs dest c =
     message_each (pb_field_set_to_default env n) fs dest c"

end
