(* ===== verification/Pb_Release.thy ===== *)
theory Pb_Release
  imports Pb_Heap
begin

text \<open>
  Releasing a message (\<open>pb_release\<close>, \<open>pb_release_single_field\<close>) and the old member of a
  union (\<open>pb_release_union_field\<close>) of \<open>pb_decode.c\<close>.
\<close>

section \<open>Releasing\<close>

text \<open>\<open>for (; count > 0; count--) { \<dots>; pItem += data_size; }\<close>, and the one over string pointers.\<close>

primrec release_items :: "(addr \<Rightarrow> cst \<Rightarrow> cst option) \<Rightarrow> u64 \<Rightarrow> nat \<Rightarrow> addr \<Rightarrow> cst \<Rightarrow> cst option" where
  "release_items f data_size 0 pItem c = Some c"
| "release_items f data_size (Suc count) pItem c =
     do {
       c' \<leftarrow> f pItem c;
       release_items f data_size count (pItem + data_size) c'
     }"

primrec release_pointers :: "nat \<Rightarrow> addr \<Rightarrow> cst \<Rightarrow> cst option" where
  "release_pointers 0 pItem c = Some c"
| "release_pointers (Suc count) pItem c =
     do {
       c' \<leftarrow> pb_free (get_ptr pItem c) c;
       release_pointers count (pItem + 8) (put_ptr pItem NULL c')
     }"

definition release_count :: "pb_field_iter \<Rightarrow> cst \<Rightarrow> u32" where
  "release_count it c =
     (let pos = cur_field it; type = f_type pos in
      if PB_HTYPE type = PB_HTYPE_REPEATED then
        let count = (if PB_ATYPE type = PB_ATYPE_STATIC \<and> i_pSize it = i_pData it
                     then f_array_size pos else get_size (i_pSize it) c)
        in if PB_ATYPE type = PB_ATYPE_STATIC \<and> f_array_size pos < count
           then f_array_size pos else count
      else 1)"

definition release_pointer_field :: "pb_field_iter \<Rightarrow> cst \<Rightarrow> cst option" where
  "release_pointer_field it c =
     (let type = f_type (cur_field it) in
      do {
        c1 \<leftarrow> (if PB_HTYPE type = PB_HTYPE_REPEATED \<and>
                  (PB_LTYPE type = PB_LTYPE_STRING \<or> PB_LTYPE type = PB_LTYPE_BYTES)
               then release_pointers (unat (get_size (i_pSize it) c)) (get_ptr (i_pData it) c) c
               else Some c);
        let c2 = (if PB_HTYPE type = PB_HTYPE_REPEATED then put_size (i_pSize it) 0 c1 else c1);
        c3 \<leftarrow> pb_free (get_ptr (i_pData it) c2) c2;
        Some (put_ptr (i_pData it) NULL c3)
      })"

text \<open>
  \<open>pb_release\<close> over the release of one field, \<open>item\<close>; and \<open>pb_release_single_field\<close>, with the
  nesting depth of submessages and extensions as fuel.
\<close>

definition release_message ::
  "(pb_field_iter \<Rightarrow> cst \<Rightarrow> cst option) \<Rightarrow> pb_field list \<Rightarrow> addr \<Rightarrow> cst \<Rightarrow> cst option" where
  "release_message item fs dest c =
     (if dest = NULL then Some c else message_each item fs dest c)"

primrec pb_release_single_field :: "pb_env \<Rightarrow> nat \<Rightarrow> pb_field_iter \<Rightarrow> cst \<Rightarrow> cst option" where
  "pb_release_single_field env 0 = (\<lambda>it c. None)"
| "pb_release_single_field env (Suc n) = (\<lambda>it c.
     let pos = cur_field it; type = f_type pos in
     if PB_HTYPE type = PB_HTYPE_ONEOF \<and> get_size (i_pSize it) c \<noteq> f_tag pos then Some c
     else do {
       c1 \<leftarrow>
         (if PB_LTYPE type = PB_LTYPE_EXTENSION then
            ext_each (\<lambda>ext c. pb_release_single_field env n (iter_from_extension env ext c) c)
              (get_ptr (i_pData it) c) c
          else if PB_LTYPE type = PB_LTYPE_SUBMESSAGE \<and> PB_ATYPE type \<noteq> PB_ATYPE_CALLBACK then
            (let pItem = (if PB_ATYPE type = PB_ATYPE_POINTER then get_ptr (i_pData it) c
                          else i_pData it)
             in if pItem \<noteq> NULL
                then release_items
                       (release_message (pb_release_single_field env n) (env_fields env (f_ptr pos)))
                       (ucast (f_data_size pos)) (unat (release_count it c)) pItem c
                else Some c)
          else Some c);
       if PB_ATYPE type = PB_ATYPE_POINTER then release_pointer_field it c1 else Some c1
     })"

definition pb_release :: "pb_env \<Rightarrow> nat \<Rightarrow> pb_field list \<Rightarrow> addr \<Rightarrow> cst \<Rightarrow> cst option" where
  "pb_release env n fs dest c = release_message (pb_release_single_field env n) fs dest c"

section \<open>Unions\<close>

text \<open>The result carries the iterator, which the two searches move.\<close>

definition pb_release_union_field ::
  "pb_env \<Rightarrow> nat \<Rightarrow> pb_field_iter \<Rightarrow> ist \<Rightarrow> (bool \<times> pb_field_iter \<times> ist) option" where
  "pb_release_union_field env n it st =
     (let old_tag = get_size (i_pSize it) (snd st); new_tag = f_tag (cur_field it) in
      if old_tag = 0 \<or> old_tag = new_tag then Some (True, it, st)
      else do {
        (found, it1) \<leftarrow> pb_field_iter_find it old_tag;
        if \<not> found then Some (False, it1, is_set_error ''invalid union tag'' st)
        else do {
          c1 \<leftarrow> pb_release_single_field env (Suc n) it1 (snd st);
          (found', it2) \<leftarrow> pb_field_iter_find it1 new_tag;
          if \<not> found' then Some (False, it2, is_set_error ''iterator error'' (fst st, c1))
          else Some (True, it2,
            (fst st, if PB_ATYPE (f_type (cur_field it2)) = PB_ATYPE_POINTER
                     then put_ptr (i_pData it2) NULL c1 else c1))
        }
      })"

end
