(* ===== verification/Pb_Decode.thy ===== *)
theory Pb_Decode
  imports Pb_Release
begin

text \<open>
  The message decoder of \<open>pb_decode.c\<close>: the field decoders \<open>pb_dec_*\<close>, the storage of a field
  (static, pointer, callback), extensions, and \<open>pb_decode\<close> with its variants.

  The functions that call each other recursively take the inner \<open>pb_decode_noinit\<close> as the
  argument \<open>inner\<close>; \<open>pb_decode_noinit\<close> ties the knot, with the nesting depth as fuel.
\<close>

type_synonym pb_decoder = "ist \<Rightarrow> pb_field \<Rightarrow> addr \<Rightarrow> (bool \<times> ist) option"
type_synonym pb_msg_decoder = "pb_field list \<Rightarrow> addr \<Rightarrow> ist \<Rightarrow> (bool \<times> ist) option"

section \<open>Scalar field decoders\<close>

definition pb_dec_bool :: "pb_env \<Rightarrow> ist \<Rightarrow> pb_field \<Rightarrow> addr \<Rightarrow> bool \<times> ist" where
  "pb_dec_bool env st fld dest =
     (case pb_decode_varint32 env st of
        (None, st') \<Rightarrow> (False, st')
      | (Some v, st') \<Rightarrow> (True, on_c (put_bool dest (v \<noteq> 0)) st'))"

text \<open>
  The store \<open>clamped = *(intN_t*)dest = (intN_t)value\<close> for the field's \<open>data_size\<close>: the clamped
  value and the store, \<open>None\<close> for an invalid size.
\<close>

definition clamp_signed :: "u32 \<Rightarrow> addr \<Rightarrow> u64 \<Rightarrow> (u64 \<times> (cst \<Rightarrow> cst)) option" where
  "clamp_signed data_size dest v =
     (if data_size = 8 then Some (v, put dest 8 v)
      else if data_size = 4 then Some (scast (ucast v :: u32), put dest 4 (ucast v :: u32))
      else if data_size = 2 then Some (scast (ucast v :: u16), put dest 2 (ucast v :: u16))
      else if data_size = 1 then Some (scast (ucast v :: byte), put dest 1 (ucast v :: byte))
      else None)"

definition clamp_unsigned :: "u32 \<Rightarrow> addr \<Rightarrow> u64 \<Rightarrow> (u64 \<times> (cst \<Rightarrow> cst)) option" where
  "clamp_unsigned data_size dest v =
     (if data_size = 8 then Some (v, put dest 8 v)
      else if data_size = 4 then Some (ucast (ucast v :: u32), put dest 4 (ucast v :: u32))
      else if data_size = 2 then Some (ucast (ucast v :: u16), put dest 2 (ucast v :: u16))
      else if data_size = 1 then Some (ucast (ucast v :: byte), put dest 1 (ucast v :: byte))
      else None)"

definition store_clamped :: "(u64 \<times> (cst \<Rightarrow> cst)) option \<Rightarrow> u64 \<Rightarrow> ist \<Rightarrow> bool \<times> ist" where
  "store_clamped r v st =
     (case r of
        None \<Rightarrow> (False, is_set_error ''invalid data_size'' st)
      | Some (clamped, f) \<Rightarrow>
          if clamped \<noteq> v then (False, is_set_error ''integer too large'' (on_c f st))
          else (True, on_c f st))"

definition pb_dec_varint :: "pb_env \<Rightarrow> ist \<Rightarrow> pb_field \<Rightarrow> addr \<Rightarrow> bool \<times> ist" where
  "pb_dec_varint env st fld dest =
     (case pb_decode_varint env st of
        (None, st') \<Rightarrow> (False, st')
      | (Some v, st') \<Rightarrow>
          let svalue = (if f_data_size fld = 8 then v else scast (ucast v :: u32))
          in store_clamped (clamp_signed (f_data_size fld) dest svalue) svalue st')"

definition pb_dec_uvarint :: "pb_env \<Rightarrow> ist \<Rightarrow> pb_field \<Rightarrow> addr \<Rightarrow> bool \<times> ist" where
  "pb_dec_uvarint env st fld dest =
     (case pb_decode_varint env st of
        (None, st') \<Rightarrow> (False, st')
      | (Some v, st') \<Rightarrow> store_clamped (clamp_unsigned (f_data_size fld) dest v) v st')"

definition pb_dec_svarint :: "pb_env \<Rightarrow> ist \<Rightarrow> pb_field \<Rightarrow> addr \<Rightarrow> bool \<times> ist" where
  "pb_dec_svarint env st fld dest =
     (case pb_decode_svarint env st of
        (None, st') \<Rightarrow> (False, st')
      | (Some v, st') \<Rightarrow> store_clamped (clamp_signed (f_data_size fld) dest v) v st')"

definition pb_dec_fixed32 :: "pb_env \<Rightarrow> ist \<Rightarrow> pb_field \<Rightarrow> addr \<Rightarrow> bool \<times> ist" where
  "pb_dec_fixed32 env st fld dest =
     (case pb_decode_fixed32 env st of
        (None, st') \<Rightarrow> (False, st')
      | (Some v, st') \<Rightarrow> (True, on_c (put dest 4 v) st'))"

definition pb_dec_fixed64 :: "pb_env \<Rightarrow> ist \<Rightarrow> pb_field \<Rightarrow> addr \<Rightarrow> bool \<times> ist" where
  "pb_dec_fixed64 env st fld dest =
     (case pb_decode_fixed64 env st of
        (None, st') \<Rightarrow> (False, st')
      | (Some v, st') \<Rightarrow> (True, on_c (put dest 8 v) st'))"

section \<open>Allocation\<close>

definition allocate_field ::
  "pb_env \<Rightarrow> addr \<Rightarrow> u64 \<Rightarrow> u64 \<Rightarrow> ist \<Rightarrow> (bool \<times> ist) option" where
  "allocate_field env pData data_size array_size st =
     (if data_size = 0 \<or> array_size = 0 then Some (False, is_set_error ''invalid size'' st)
      else
        let check_limit = push_bit 32 1 :: u64 in
        if (check_limit \<le> data_size \<or> check_limit \<le> array_size) \<and> (- 1) div array_size < data_size
        then Some (False, is_set_error ''size too large'' st)
        else do {
          (ptr, c) \<leftarrow> pb_realloc env (get_ptr pData (snd st)) (array_size * data_size) (snd st);
          if ptr = NULL then Some (False, is_set_error ''realloc failed'' (fst st, c))
          else Some (True, (fst st, put_ptr pData ptr c))
        })"

definition initialize_pointer_field ::
  "pb_env \<Rightarrow> nat \<Rightarrow> addr \<Rightarrow> pb_field_iter \<Rightarrow> cst \<Rightarrow> cst option" where
  "initialize_pointer_field env n pItem it c =
     (let pos = cur_field it; ltype = PB_LTYPE (f_type pos) in
      if ltype = PB_LTYPE_STRING \<or> ltype = PB_LTYPE_BYTES then Some (put_ptr pItem NULL c)
      else if ltype = PB_LTYPE_SUBMESSAGE
      then pb_message_set_to_defaults env n (env_fields env (f_ptr pos)) pItem
             (memset pItem 0 (ucast (f_data_size pos)) c)
      else Some c)"

section \<open>Length-delimited field decoders\<close>

text \<open>\<open>pb_read\<close> into memory, where only its truth value is used.\<close>

definition pb_read_mem :: "pb_env \<Rightarrow> addr \<Rightarrow> u64 \<Rightarrow> ist \<Rightarrow> bool \<times> ist" where
  "pb_read_mem env a n st = (case pb_read env (IB_Mem a) n st of (r, st') \<Rightarrow> (r \<noteq> None, st'))"

definition pb_dec_bytes :: "pb_env \<Rightarrow> ist \<Rightarrow> pb_field \<Rightarrow> addr \<Rightarrow> (bool \<times> ist) option" where
  "pb_dec_bytes env st fld dest =
     (case pb_decode_varint32 env st of
        (None, st1) \<Rightarrow> Some (False, st1)
      | (Some sz, st1) \<Rightarrow>
          let alloc_size = ucast sz + 4 :: u64 in
          if alloc_size < ucast sz then Some (False, is_set_error ''size too large'' st1)
          else do {
            (bdest, st2) \<leftarrow>
              (if PB_ATYPE (f_type fld) = PB_ATYPE_POINTER then
                 if is_bytes_left (fst st1) < ucast sz
                 then Some (None, is_set_error ''end-of-stream'' st1)
                 else do {
                   (ok, st') \<leftarrow> allocate_field env dest alloc_size 1 st1;
                   Some (if ok then Some (get_ptr dest (snd st')) else None, st')
                 }
               else if ucast (f_data_size fld) < alloc_size
               then Some (None, is_set_error ''bytes overflow'' st1)
               else Some (Some dest, st1));
            Some (case bdest of
                None \<Rightarrow> (False, st2)
              | Some b \<Rightarrow> pb_read_mem env (b + 4) (ucast sz) (on_c (put_size b sz) st2))
          })"

definition pb_dec_string :: "pb_env \<Rightarrow> ist \<Rightarrow> pb_field \<Rightarrow> addr \<Rightarrow> (bool \<times> ist) option" where
  "pb_dec_string env st fld dest =
     (case pb_decode_varint32 env st of
        (None, st1) \<Rightarrow> Some (False, st1)
      | (Some sz, st1) \<Rightarrow>
          let alloc_size = ucast (sz + 1) :: u64 in
          if alloc_size < ucast sz then Some (False, is_set_error ''size too large'' st1)
          else do {
            (sdest, st2) \<leftarrow>
              (if PB_ATYPE (f_type fld) = PB_ATYPE_POINTER then
                 if is_bytes_left (fst st1) < ucast sz
                 then Some (None, is_set_error ''end-of-stream'' st1)
                 else do {
                   (ok, st') \<leftarrow> allocate_field env dest alloc_size 1 st1;
                   Some (if ok then Some (get_ptr dest (snd st')) else None, st')
                 }
               else if ucast (f_data_size fld) < alloc_size
               then Some (None, is_set_error ''string overflow'' st1)
               else Some (Some dest, st1));
            Some (case sdest of
                None \<Rightarrow> (False, st2)
              | Some s \<Rightarrow>
                  (case pb_read_mem env s (ucast sz) st2 of
                     (status, st3) \<Rightarrow> (status, on_c (put (s + ucast sz) 1 (0 :: byte)) st3)))
          })"

definition pb_dec_fixed_length_bytes :: "pb_env \<Rightarrow> ist \<Rightarrow> pb_field \<Rightarrow> addr \<Rightarrow> bool \<times> ist" where
  "pb_dec_fixed_length_bytes env st fld dest =
     (case pb_decode_varint32 env st of
        (None, st1) \<Rightarrow> (False, st1)
      | (Some sz, st1) \<Rightarrow>
          if sz = 0 then (True, on_c (memset dest 0 (ucast (f_data_size fld))) st1)
          else if sz \<noteq> f_data_size fld
          then (False, is_set_error ''incorrect fixed length bytes size'' st1)
          else pb_read_mem env dest (ucast (f_data_size fld)) st1)"

section \<open>Submessages\<close>

text \<open>\<open>pb_decode\<close>, given the decoding loop.\<close>

definition pb_decode_with :: "pb_env \<Rightarrow> nat \<Rightarrow> pb_msg_decoder \<Rightarrow> pb_msg_decoder" where
  "pb_decode_with env n noinit fs dest st =
     do {
       c1 \<leftarrow> pb_message_set_to_defaults env n fs dest (snd st);
       (status, st2) \<leftarrow> noinit fs dest (fst st, c1);
       if status then Some (True, st2)
       else do {
         c3 \<leftarrow> pb_release env n fs dest (snd st2);
         Some (False, (fst st2, c3))
       }
     }"

text \<open>The end of every function that decodes a substream: close it, then the inner status.\<close>

definition close_substream :: "pb_env \<Rightarrow> pb_istream \<Rightarrow> bool \<times> ist \<Rightarrow> bool \<times> ist" where
  "close_substream env parent r =
     (case r of (status, sub) \<Rightarrow>
        case pb_close_string_substream env parent sub of (ok, st') \<Rightarrow> (ok \<and> status, st'))"

definition pb_dec_submessage :: "pb_env \<Rightarrow> nat \<Rightarrow> pb_msg_decoder \<Rightarrow> pb_decoder" where
  "pb_dec_submessage env n inner st fld dest =
     (case pb_make_string_substream env st of
        (None, st1) \<Rightarrow> Some (False, st1)
      | (Some sub, (parent, c)) \<Rightarrow>
          if f_ptr fld = NULL
          then Some (False, is_set_error ''invalid field descriptor'' (parent, c))
          else do {
            r \<leftarrow> (if PB_HTYPE (f_type fld) = PB_HTYPE_REPEATED
                  then pb_decode_with env n inner (env_fields env (f_ptr fld)) dest (sub, c)
                  else inner (env_fields env (f_ptr fld)) dest (sub, c));
            Some (close_substream env parent r)
          })"

text \<open>
  \<open>PB_DECODERS\<close>: no entry for extensions, and none past the table.
\<close>

definition PB_DECODERS :: "pb_env \<Rightarrow> nat \<Rightarrow> pb_msg_decoder \<Rightarrow> pb_type_t \<Rightarrow> pb_decoder" where
  "PB_DECODERS env n inner ltype st fld dest =
     (if ltype = PB_LTYPE_BOOL then Some (pb_dec_bool env st fld dest)
      else if ltype = PB_LTYPE_VARINT then Some (pb_dec_varint env st fld dest)
      else if ltype = PB_LTYPE_UVARINT then Some (pb_dec_uvarint env st fld dest)
      else if ltype = PB_LTYPE_SVARINT then Some (pb_dec_svarint env st fld dest)
      else if ltype = PB_LTYPE_FIXED32 then Some (pb_dec_fixed32 env st fld dest)
      else if ltype = PB_LTYPE_FIXED64 then Some (pb_dec_fixed64 env st fld dest)
      else if ltype = PB_LTYPE_BYTES then pb_dec_bytes env st fld dest
      else if ltype = PB_LTYPE_STRING then pb_dec_string env st fld dest
      else if ltype = PB_LTYPE_SUBMESSAGE then pb_dec_submessage env n inner st fld dest
      else if ltype = PB_LTYPE_FIXED_LENGTH_BYTES
      then Some (pb_dec_fixed_length_bytes env st fld dest)
      else None)"

section \<open>Static storage\<close>

definition item_addr :: "addr \<Rightarrow> pb_field \<Rightarrow> u32 \<Rightarrow> addr" where
  "item_addr base fld k = base + ucast (f_data_size fld * k)"

text \<open>The packed-array loop of \<open>decode_static_field\<close>: its status, and the substream.\<close>

partial_function (option) static_packed_loop ::
  "pb_decoder \<Rightarrow> pb_field_iter \<Rightarrow> ist \<Rightarrow> (bool \<times> ist) option" where
  "static_packed_loop func it sub =
     (let pos = cur_field it; sz = get_size (i_pSize it) (snd sub) in
      if 0 < is_bytes_left (fst sub) \<and> sz < f_array_size pos then
        do {
          (ok, sub') \<leftarrow> func sub pos (item_addr (i_pData it) pos sz);
          if \<not> ok then Some (False, sub')
          else static_packed_loop func it
                 (on_c (\<lambda>c. put_size (i_pSize it) (get_size (i_pSize it) c + 1) c) sub')
        }
      else Some (True, sub))"

definition decode_static_repeated ::
  "pb_env \<Rightarrow> pb_decoder \<Rightarrow> pb_wire_type_t \<Rightarrow> pb_field_iter \<Rightarrow> ist \<Rightarrow> (bool \<times> ist) option" where
  "decode_static_repeated env func wire_type it st =
     (let pos = cur_field it in
      if wire_type = PB_WT_STRING \<and> PB_LTYPE (f_type pos) \<le> PB_LTYPE_LAST_PACKABLE then
        (case pb_make_string_substream env st of
           (None, st1) \<Rightarrow> Some (False, st1)
         | (Some sub, (parent, c)) \<Rightarrow>
             do {
               (status, sub') \<leftarrow> static_packed_loop func it (sub, c);
               if is_bytes_left (fst sub') \<noteq> 0
               then Some (False, is_set_error ''array overflow'' (parent, snd sub'))
               else Some (close_substream env parent (status, sub'))
             })
      else
        let sz = get_size (i_pSize it) (snd st);
            pItem = item_addr (i_pData it) pos sz;
            st1 = on_c (put_size (i_pSize it) (sz + 1)) st
        in if f_array_size pos \<le> sz then Some (False, is_set_error ''array overflow'' st1)
           else func st1 pos pItem)"

definition decode_static_field ::
  "pb_env \<Rightarrow> nat \<Rightarrow> pb_msg_decoder \<Rightarrow> pb_wire_type_t \<Rightarrow> pb_field_iter \<Rightarrow> ist \<Rightarrow> (bool \<times> ist) option"
where
  "decode_static_field env n inner wire_type it st =
     (let pos = cur_field it; type = f_type pos; func = PB_DECODERS env n inner (PB_LTYPE type) in
      if PB_HTYPE type = PB_HTYPE_REQUIRED then func st pos (i_pData it)
      else if PB_HTYPE type = PB_HTYPE_OPTIONAL then
        func (if i_pSize it \<noteq> i_pData it then on_c (put_bool (i_pSize it) True) st else st)
          pos (i_pData it)
      else if PB_HTYPE type = PB_HTYPE_REPEATED then decode_static_repeated env func wire_type it st
      else if PB_HTYPE type = PB_HTYPE_ONEOF then
        do {
          c1 \<leftarrow> (if PB_LTYPE type = PB_LTYPE_SUBMESSAGE \<and> get_size (i_pSize it) (snd st) \<noteq> f_tag pos
                then pb_message_set_to_defaults env n (env_fields env (f_ptr pos)) (i_pData it)
                       (memset (i_pData it) 0 (ucast (f_data_size pos)) (snd st))
                else Some (snd st));
          func (fst st, put_size (i_pSize it) (f_tag pos) c1) pos (i_pData it)
        }
      else Some (False, is_set_error ''invalid field type'' st))"

section \<open>Pointer storage\<close>

text \<open>
  The packed-array loop of \<open>decode_pointer_field\<close>, with its local \<open>allocated_size\<close>.  It sets
  an error on the parent stream in one case, so the parent is part of its state.
\<close>

partial_function (option) pointer_packed_loop ::
  "pb_env \<Rightarrow> nat \<Rightarrow> pb_decoder \<Rightarrow> pb_field_iter \<Rightarrow> u64 \<Rightarrow> pb_istream \<Rightarrow> ist
     \<Rightarrow> (bool \<times> pb_istream \<times> ist) option" where
  "pointer_packed_loop env n func it allocated_size parent sub =
     (let pos = cur_field it; sz = get_size (i_pSize it) (snd sub) in
      if is_bytes_left (fst sub) = 0 then Some (True, parent, sub)
      else if sz = PB_SIZE_MAX
      then Some (False, parent\<lparr>is_errmsg := Some ''too many array entries''\<rparr>, sub)
      else do {
        (ok, allocated_size', sub1) \<leftarrow>
          (if allocated_size < ucast sz + 1 then
             if f_data_size pos = 0 then None
             else
               let remain = (is_bytes_left (fst sub) - 1) div ucast (f_data_size pos) + 1;
                   new_size = (if remain < ucast PB_SIZE_MAX - allocated_size
                               then allocated_size + remain else allocated_size + 1)
               in do {
                 (ok, sub') \<leftarrow> allocate_field env (i_pData it) (ucast (f_data_size pos)) new_size sub;
                 Some (ok, new_size, sub')
               }
           else Some (True, allocated_size, sub));
        if \<not> ok then Some (False, parent, sub1)
        else
          let pItem = item_addr (get_ptr (i_pData it) (snd sub1)) pos (get_size (i_pSize it) (snd sub1))
          in if pItem = NULL then Some (False, parent, sub1)
             else do {
               c2 \<leftarrow> initialize_pointer_field env n pItem it (snd sub1);
               (ok', sub3) \<leftarrow> func (fst sub1, c2) pos pItem;
               if \<not> ok' then Some (False, parent, sub3)
               else pointer_packed_loop env n func it allocated_size' parent
                      (on_c (\<lambda>c. put_size (i_pSize it) (get_size (i_pSize it) c + 1) c) sub3)
             }
      })"

definition decode_pointer_repeated ::
  "pb_env \<Rightarrow> nat \<Rightarrow> pb_decoder \<Rightarrow> pb_wire_type_t \<Rightarrow> pb_field_iter \<Rightarrow> ist \<Rightarrow> (bool \<times> ist) option" where
  "decode_pointer_repeated env n func wire_type it st =
     (let pos = cur_field it in
      if wire_type = PB_WT_STRING \<and> PB_LTYPE (f_type pos) \<le> PB_LTYPE_LAST_PACKABLE then
        let allocated_size = ucast (get_size (i_pSize it) (snd st)) in
        (case pb_make_string_substream env st of
           (None, st1) \<Rightarrow> Some (False, st1)
         | (Some sub, (parent, c)) \<Rightarrow>
             do {
               (status, parent', sub') \<leftarrow>
                 pointer_packed_loop env n func it allocated_size parent (sub, c);
               Some (close_substream env parent' (status, sub'))
             })
      else
        let sz = get_size (i_pSize it) (snd st) in
        if sz = PB_SIZE_MAX then Some (False, is_set_error ''too many array entries'' st)
        else do {
          (ok, st1) \<leftarrow>
            allocate_field env (i_pData it) (ucast (f_data_size pos)) (ucast (sz + 1)) st;
          if \<not> ok then Some (False, st1)
          else
            let sz' = get_size (i_pSize it) (snd st1);
                pItem = item_addr (get_ptr (i_pData it) (snd st1)) pos sz'
            in do {
              c2 \<leftarrow> initialize_pointer_field env n pItem it (put_size (i_pSize it) (sz' + 1) (snd st1));
              func (fst st1, c2) pos pItem
            }
        })"

definition decode_pointer_field ::
  "pb_env \<Rightarrow> nat \<Rightarrow> pb_msg_decoder \<Rightarrow> pb_wire_type_t \<Rightarrow> pb_field_iter \<Rightarrow> ist \<Rightarrow> (bool \<times> ist) option"
where
  "decode_pointer_field env n inner wire_type it st =
     (let pos = cur_field it; type = f_type pos; func = PB_DECODERS env n inner (PB_LTYPE type) in
      if PB_HTYPE type = PB_HTYPE_REPEATED then decode_pointer_repeated env n func wire_type it st
      else do {
        c1 \<leftarrow> (if PB_LTYPE type = PB_LTYPE_SUBMESSAGE \<and> get_ptr (i_pData it) (snd st) \<noteq> NULL
              then pb_release_single_field env (Suc n) it (snd st) else Some (snd st));
        let st2 = (fst st, if PB_HTYPE type = PB_HTYPE_ONEOF
                           then put_size (i_pSize it) (f_tag pos) c1 else c1);
        if PB_LTYPE type = PB_LTYPE_STRING \<or> PB_LTYPE type = PB_LTYPE_BYTES
        then func st2 pos (i_pData it)
        else do {
          (ok, st3) \<leftarrow> allocate_field env (i_pData it) (ucast (f_data_size pos)) 1 st2;
          if \<not> ok then Some (False, st3)
          else do {
            c4 \<leftarrow> initialize_pointer_field env n (get_ptr (i_pData it) (snd st3)) it (snd st3);
            func (fst st3, c4) pos (get_ptr (i_pData it) c4)
          }
        }
      })"

section \<open>Callbacks\<close>

text \<open>
  A \<open>pb_callback_t\<close> is the function pointer and, eight bytes on, its \<open>arg\<close>.  The loop
  \<open>do { \<dots> } while (substream.bytes_left)\<close> returns the substream, or \<open>False\<close> with the memory
  where the callback fails.
\<close>

partial_function (option) callback_loop ::
  "pb_env \<Rightarrow> addr \<Rightarrow> pb_field \<Rightarrow> ist \<Rightarrow> (bool \<times> ist) option" where
  "callback_loop env pCallback fld sub =
     (let fn = get_ptr pCallback (snd sub) in
      if fn = NULL then None
      else case env_decode env fn sub fld (pCallback + 8) of
        (ok, sub') \<Rightarrow>
          if \<not> ok then Some (False, sub')
          else if is_bytes_left (fst sub') = 0 then Some (True, sub')
          else callback_loop env pCallback fld sub')"

definition decode_callback_field ::
  "pb_env \<Rightarrow> nat \<Rightarrow> pb_wire_type_t \<Rightarrow> pb_field_iter \<Rightarrow> ist \<Rightarrow> (bool \<times> ist) option" where
  "decode_callback_field env n wire_type it st =
     (let pCallback = i_pData it; pos = cur_field it in
      if pCallback = NULL \<or> get_ptr pCallback (snd st) = NULL
      then Some (pb_skip_field env wire_type st)
      else if wire_type = PB_WT_STRING then
        (case pb_make_string_substream env st of
           (None, st1) \<Rightarrow> Some (False, st1)
         | (Some sub, (parent, c)) \<Rightarrow>
             do {
               (ok, sub') \<leftarrow> callback_loop env pCallback pos (sub, c);
               if \<not> ok then Some (False, is_set_error ''callback failed'' (parent, snd sub'))
               else Some (close_substream env parent (True, sub'))
             })
      else
        (case read_raw_value env wire_type 10 st of
           (None, st1) \<Rightarrow> Some (False, st1)
         | (Some bs, (s1, c1)) \<Rightarrow>
             let buffer = env_frame env n + 8;
                 c2 = c1\<lparr>cmem := store_bytes (cmem c1) buffer bs\<rparr>;
                 sub = (pb_istream_from_buffer buffer (of_nat (length bs)), c2)
             in (case env_decode env (get_ptr pCallback c2) sub pos (pCallback + 8) of
                   (ok, (sub', c3)) \<Rightarrow> Some (ok, (s1, c3)))))"

section \<open>One field\<close>

text \<open>The result carries the iterator: \<open>pb_release_union_field\<close> may have moved it.\<close>

definition decode_field ::
  "pb_env \<Rightarrow> nat \<Rightarrow> pb_msg_decoder \<Rightarrow> pb_wire_type_t \<Rightarrow> pb_field_iter \<Rightarrow> ist
     \<Rightarrow> (bool \<times> pb_field_iter \<times> ist) option" where
  "decode_field env n inner wire_type it st =
     do {
       (ok, it1, st1) \<leftarrow>
         (if PB_HTYPE (f_type (cur_field it)) = PB_HTYPE_ONEOF
          then pb_release_union_field env n it st else Some (True, it, st));
       if \<not> ok then Some (False, it1, st1)
       else
         let atype = PB_ATYPE (f_type (cur_field it1)) in
         do {
           (ok', st2) \<leftarrow>
             (if atype = PB_ATYPE_STATIC then decode_static_field env n inner wire_type it1 st1
              else if atype = PB_ATYPE_POINTER then decode_pointer_field env n inner wire_type it1 st1
              else if atype = PB_ATYPE_CALLBACK then decode_callback_field env n wire_type it1 st1
              else Some (False, is_set_error ''invalid field type'' st1));
           Some (ok', it1, st2)
         }
     }"

section \<open>Extensions\<close>

definition default_extension_decoder ::
  "pb_env \<Rightarrow> nat \<Rightarrow> pb_msg_decoder \<Rightarrow> addr \<Rightarrow> u32 \<Rightarrow> pb_wire_type_t \<Rightarrow> ist \<Rightarrow> (bool \<times> ist) option" where
  "default_extension_decoder env n inner extension tag wire_type st =
     (if f_tag (field_at (env_fields env (ext_arg extension (snd st))) 0) \<noteq> tag then Some (True, st)
      else do {
        (ok, it', st') \<leftarrow>
          decode_field env n inner wire_type (iter_from_extension env extension (snd st))
            (on_c (put_bool (ext_found extension) True) st);
        Some (ok, st')
      })"

partial_function (option) decode_extension_loop ::
  "pb_env \<Rightarrow> (addr \<Rightarrow> ist \<Rightarrow> (bool \<times> ist) option) \<Rightarrow> u64 \<Rightarrow> addr \<Rightarrow> ist \<Rightarrow> (bool \<times> ist) option" where
  "decode_extension_loop env dec pos extension st =
     (if extension \<noteq> NULL \<and> pos = is_bytes_left (fst st) then
        do {
          (status, st') \<leftarrow> dec extension st;
          if \<not> status then Some (False, st')
          else decode_extension_loop env dec pos (get_ptr (ext_next extension) (snd st')) st'
        }
      else Some (True, st))"

definition decode_extension ::
  "pb_env \<Rightarrow> nat \<Rightarrow> pb_msg_decoder \<Rightarrow> u32 \<Rightarrow> pb_wire_type_t \<Rightarrow> pb_field_iter \<Rightarrow> ist \<Rightarrow> (bool \<times> ist) option"
where
  "decode_extension env n inner tag wire_type it st =
     decode_extension_loop env
       (\<lambda>extension st.
          if ext_decode_fn extension (snd st) \<noteq> NULL
          then Some (env_ext_decode env (ext_decode_fn extension (snd st)) st extension tag wire_type)
          else default_extension_decoder env n inner extension tag wire_type st)
       (is_bytes_left (fst st)) (get_ptr (i_pData it) (snd st)) st"

section \<open>The message loop\<close>

text \<open>
  The locals of \<open>pb_decode_noinit\<close>.  \<open>fixed_count_field\<close> points into the same array as the
  iterator and is an index; \<open>fixed_count_size\<close> has its address taken and is in memory, at
  \<open>env_frame n\<close>.
\<close>

record dec_state =
  ds_iter :: pb_field_iter
  ds_fields_seen :: "u32 list"
  ds_extension_range_start :: u32
  ds_fixed_count_field :: "nat option"

definition PB_MAX_REQUIRED_FIELDS :: u32 where [simp]: "PB_MAX_REQUIRED_FIELDS = 64"

text \<open>How one pass of the loop ends: on to the next, out of the loop, or out of the function.\<close>

datatype loop_end = Next | Break | Fail

definition fixed_count_wrong :: "pb_env \<Rightarrow> nat \<Rightarrow> dec_state \<Rightarrow> cst \<Rightarrow> bool" where
  "fixed_count_wrong env n ds c =
     (case ds_fixed_count_field ds of
        None \<Rightarrow> False
      | Some k \<Rightarrow> get_size (env_frame env n) c \<noteq> f_array_size (field_at (i_start (ds_iter ds)) k))"

text \<open>A tag that names no field: an extension, or data to skip.\<close>

definition decode_unknown ::
  "pb_env \<Rightarrow> nat \<Rightarrow> pb_msg_decoder \<Rightarrow> u32 \<Rightarrow> pb_wire_type_t \<Rightarrow> dec_state \<Rightarrow> ist
     \<Rightarrow> (loop_end \<times> dec_state \<times> ist) option" where
  "decode_unknown env n inner tag wire_type ds st =
     do {
       ds1 \<leftarrow>
         (if ds_extension_range_start ds \<le> tag then
            do {
              (found, it) \<leftarrow> find_extension_field (ds_iter ds);
              Some (ds\<lparr>ds_iter := it,
                ds_extension_range_start := (if found then f_tag (cur_field it) else - 1)\<rparr>)
            }
          else Some ds);
       (ok, st1) \<leftarrow>
         (if ds_extension_range_start ds \<le> tag \<and> ds_extension_range_start ds1 \<le> tag
          then decode_extension env n inner tag wire_type (ds_iter ds1) st
          else Some (True, st));
       if \<not> ok then Some (Fail, ds1, st1)
       else if is_bytes_left (fst st) \<noteq> is_bytes_left (fst st1) then Some (Next, ds1, st1)
       else case pb_skip_field env wire_type st1 of
         (ok', st2) \<Rightarrow> Some (if ok' then Next else Fail, ds1, st2)
     }"

text \<open>A repeated field without a counter of its own counts in \<open>fixed_count_size\<close>.\<close>

definition fixed_count_start ::
  "pb_env \<Rightarrow> nat \<Rightarrow> dec_state \<Rightarrow> ist \<Rightarrow> bool \<times> dec_state \<times> ist" where
  "fixed_count_start env n ds st =
     (let it = ds_iter ds in
      if PB_HTYPE (f_type (cur_field it)) = PB_HTYPE_REPEATED \<and> i_pSize it = i_pData it then
        if ds_fixed_count_field ds \<noteq> Some (i_pos it) then
          if fixed_count_wrong env n ds (snd st)
          then (False, ds, is_set_error ''wrong size for fixed count field'' st)
          else (True, ds\<lparr>ds_fixed_count_field := Some (i_pos it),
                        ds_iter := it\<lparr>i_pSize := env_frame env n\<rparr>\<rparr>,
                on_c (put_size (env_frame env n) 0) st)
        else (True, ds\<lparr>ds_iter := it\<lparr>i_pSize := env_frame env n\<rparr>\<rparr>, st)
      else (True, ds, st))"

definition mark_seen :: "dec_state \<Rightarrow> dec_state" where
  "mark_seen ds =
     (let it = ds_iter ds; k = i_required_field_index it in
      if PB_HTYPE (f_type (cur_field it)) = PB_HTYPE_REQUIRED \<and> k < PB_MAX_REQUIRED_FIELDS
      then let tmp = push_bit (unat (k AND 31)) 1; j = unat (drop_bit 5 k)
           in ds\<lparr>ds_fields_seen := (ds_fields_seen ds)[j := ds_fields_seen ds ! j OR tmp]\<rparr>
      else ds)"

definition decode_step ::
  "pb_env \<Rightarrow> nat \<Rightarrow> pb_msg_decoder \<Rightarrow> dec_state \<Rightarrow> ist \<Rightarrow> (loop_end \<times> dec_state \<times> ist) option" where
  "decode_step env n inner ds st =
     (case pb_decode_tag env st of
        (t, st1) \<Rightarrow>
          if \<not> tr_ok t then Some (if tr_eof t then Break else Fail, ds, st1)
          else do {
            (found, it) \<leftarrow> pb_field_iter_find (ds_iter ds) (tr_tag t);
            if \<not> found
            then decode_unknown env n inner (tr_tag t) (tr_wire_type t) (ds\<lparr>ds_iter := it\<rparr>) st1
            else
              case fixed_count_start env n (ds\<lparr>ds_iter := it\<rparr>) st1 of
                (ok, ds2, st2) \<Rightarrow>
                  if \<not> ok then Some (Fail, ds2, st2)
                  else
                    let ds3 = mark_seen ds2 in
                    do {
                      (ok', it', st4) \<leftarrow> decode_field env n inner (tr_wire_type t) (ds_iter ds3) st2;
                      Some (if ok' then Next else Fail, ds3\<lparr>ds_iter := it'\<rparr>, st4)
                    }
          })"

text \<open>The loop; \<open>False\<close> where the function returned false from inside it.\<close>

partial_function (option) decode_loop ::
  "(dec_state \<Rightarrow> ist \<Rightarrow> (loop_end \<times> dec_state \<times> ist) option) \<Rightarrow> dec_state \<Rightarrow> ist
     \<Rightarrow> (bool \<times> dec_state \<times> ist) option" where
  "decode_loop step ds st =
     (if is_bytes_left (fst st) = 0 then Some (True, ds, st)
      else do {
        (e, ds', st') \<leftarrow> step ds st;
        if e = Fail then Some (False, ds', st')
        else if e = Break then Some (True, ds', st')
        else decode_loop step ds' st'
      })"

section \<open>Required fields\<close>

partial_function (option) req_walk :: "pb_field_iter \<Rightarrow> (u32 \<times> pb_type_t \<times> pb_field_iter) option" where
  "req_walk it =
     (if fst (pb_field_iter_next it) then req_walk (snd (pb_field_iter_next it))
      else Some (i_required_field_index it, f_type (cur_field it), snd (pb_field_iter_next it)))"

definition required_count :: "pb_field_iter \<Rightarrow> u32 option" where
  "required_count it =
     do {
       (req, last_type, it') \<leftarrow> req_walk it;
       let req' = (if PB_HTYPE last_type = PB_HTYPE_REQUIRED \<and> f_tag (cur_field it') \<noteq> 0
                   then req + 1 else req);
       Some (if PB_MAX_REQUIRED_FIELDS < req' then PB_MAX_REQUIRED_FIELDS else req')
     }"

definition required_missing :: "u32 list \<Rightarrow> u32 \<Rightarrow> bool" where
  "required_missing fields_seen cnt \<longleftrightarrow>
     0 < cnt \<and>
     (list_ex (\<lambda>i. fields_seen ! i \<noteq> - 1) [0..<unat (drop_bit 5 cnt)] \<or>
      (cnt AND 31 \<noteq> 0 \<and>
       fields_seen ! unat (drop_bit 5 cnt) \<noteq> drop_bit (unat (32 - (cnt AND 31))) (- 1)))"

section \<open>Messages\<close>

definition decode_message :: "pb_env \<Rightarrow> nat \<Rightarrow> pb_msg_decoder \<Rightarrow> pb_msg_decoder" where
  "decode_message env n inner fs dest st =
     (let ds = \<lparr>ds_iter = snd (pb_field_iter_begin fs dest), ds_fields_seen = [0, 0],
                ds_extension_range_start = 0, ds_fixed_count_field = None\<rparr>
      in do {
        (ok, ds1, st1) \<leftarrow>
          decode_loop (decode_step env n inner) ds (on_c (put_size (env_frame env n) 0) st);
        if \<not> ok then Some (False, st1)
        else if fixed_count_wrong env n ds1 (snd st1)
        then Some (False, is_set_error ''wrong size for fixed count field'' st1)
        else do {
          cnt \<leftarrow> required_count (ds_iter ds1);
          if required_missing (ds_fields_seen ds1) cnt
          then Some (False, is_set_error ''missing required field'' st1)
          else Some (True, st1)
        }
      })"

primrec pb_decode_noinit :: "pb_env \<Rightarrow> nat \<Rightarrow> pb_msg_decoder" where
  "pb_decode_noinit env 0 = (\<lambda>fs dest st. None)"
| "pb_decode_noinit env (Suc n) = decode_message env n (pb_decode_noinit env n)"

definition pb_decode :: "pb_env \<Rightarrow> nat \<Rightarrow> pb_msg_decoder" where
  "pb_decode env n = pb_decode_with env n (pb_decode_noinit env n)"

definition pb_decode_delimited_noinit :: "pb_env \<Rightarrow> nat \<Rightarrow> pb_msg_decoder" where
  "pb_decode_delimited_noinit env n fs dest st =
     (case pb_make_string_substream env st of
        (None, st1) \<Rightarrow> Some (False, st1)
      | (Some sub, (parent, c)) \<Rightarrow>
          do {
            r \<leftarrow> pb_decode_noinit env n fs dest (sub, c);
            Some (close_substream env parent r)
          })"

definition pb_decode_delimited :: "pb_env \<Rightarrow> nat \<Rightarrow> pb_msg_decoder" where
  "pb_decode_delimited env n fs dest st =
     (case pb_make_string_substream env st of
        (None, st1) \<Rightarrow> Some (False, st1)
      | (Some sub, (parent, c)) \<Rightarrow>
          do {
            r \<leftarrow> pb_decode env n fs dest (sub, c);
            Some (close_substream env parent r)
          })"

definition pb_decode_nullterminated :: "pb_env \<Rightarrow> nat \<Rightarrow> pb_msg_decoder" where
  "pb_decode_nullterminated env n fs dest st = pb_decode env n fs dest st"

definition pb_decode_bool :: "pb_env \<Rightarrow> addr \<Rightarrow> ist \<Rightarrow> bool \<times> ist" where
  "pb_decode_bool env dest st = pb_dec_bool env st PB_LAST_FIELD dest"

end
