(* ===== verification/Pb_Static.thy ===== *)
theory Pb_Static
  imports Pb_Decode
begin

text \<open>
  Messages of static fields: the layout their descriptors give them, changes confined to a set
  of addresses, and what \<open>pb_message_set_to_defaults\<close>, \<open>pb_release\<close> and the moves of the field
  iterator do to them.
\<close>

section \<open>Changes confined to a set of addresses\<close>

definition confined :: "addr set \<Rightarrow> cst \<Rightarrow> cst \<Rightarrow> bool" where
  "confined S c c' \<longleftrightarrow> (\<forall>x. x \<notin> S \<longrightarrow> cmem c' x = cmem c x) \<and> cblocks c' = cblocks c"

lemma confined_refl [simp, intro]: "confined S c c"
  by (simp add: confined_def)

lemma confined_trans [trans]: "confined S c c' \<Longrightarrow> confined S c' c'' \<Longrightarrow> confined S c c''"
  by (simp add: confined_def)

lemma confined_mono: "confined S c c' \<Longrightarrow> S \<subseteq> T \<Longrightarrow> confined T c c'"
  by (auto simp: confined_def)

lemma confined_store_bytes:
  "length bs \<le> 2 ^ 64 \<Longrightarrow> region a (length bs) \<subseteq> S \<Longrightarrow>
     confined S c (c\<lparr>cmem := store_bytes (cmem c) a bs\<rparr>)"
  by (auto simp: confined_def intro!: store_bytes_frame)

lemma confined_put [intro]:
  "region a n \<subseteq> S \<Longrightarrow> n \<le> 2 ^ 64 \<Longrightarrow> confined S c (put a n w c)"
  unfolding put_def store_def by (rule confined_store_bytes) simp_all

lemma confined_put_bool [intro]: "region a (Suc 0) \<subseteq> S \<Longrightarrow> confined S c (put_bool a b c)"
  unfolding put_bool_def by (rule confined_put) simp_all

lemma confined_memset [intro]: "region a (unat n) \<subseteq> S \<Longrightarrow> confined S c (memset a b n c)"
  using unat_u64_less [of n] unfolding memset_def by (intro confined_store_bytes) simp_all

lemma confined_memcpy [intro]: "region a (unat n) \<subseteq> S \<Longrightarrow> confined S c (memcpy a src n c)"
  using unat_u64_less [of n] unfolding memcpy_def by (intro confined_store_bytes) simp_all

section \<open>Visiting the fields of a message\<close>

primrec each_index :: "(nat \<Rightarrow> 's \<Rightarrow> 's option) \<Rightarrow> nat list \<Rightarrow> 's \<Rightarrow> 's option" where
  "each_index f [] s = Some s"
| "each_index f (k # ks) s = do { s' \<leftarrow> f k s; each_index f ks s' }"

lemma iter_each_at:
  assumes "wf_fields fs" "k < n_entries fs"
  shows "iter_each f (iter_at fs d k) s = each_index (\<lambda>k. f (iter_at fs d k)) [k..<n_entries fs] s"
  using assms(2)
proof (induction "n_entries fs - k" arbitrary: k s)
  case 0
  then show ?case by simp
next
  case (Suc m)
  have "Suc k < length fs" using Suc.prems by (simp add: n_entries_def)
  note nxt = pb_field_iter_next_at [OF assms(1) this, of d]
  have upt: "[k..<n_entries fs] = k # [Suc k..<n_entries fs]"
    using Suc.prems by (simp add: upt_rec)
  show ?case
  proof (cases "Suc k = n_entries fs")
    case True
    then have "Suc (Suc k) = length fs" using \<open>Suc k < length fs\<close> by (simp add: n_entries_def)
    then show ?thesis
      using nxt True by (subst iter_each.simps) (simp add: upt)
  next
    case False
    then have "Suc (Suc k) \<noteq> length fs" "Suc k < n_entries fs"
      using Suc.prems by (auto simp: n_entries_def)
    moreover have "iter_each f (iter_at fs d (Suc k)) s' =
        each_index (\<lambda>k. f (iter_at fs d k)) [Suc k..<n_entries fs] s'" for s'
      using Suc.hyps(1) [of "Suc k" s'] Suc.hyps(2) \<open>Suc k < n_entries fs\<close> by simp
    ultimately show ?thesis
      using nxt by (subst iter_each.simps) (simp add: upt)
  qed
qed

lemma message_each_index:
  assumes "wf_fields fs"
  shows "message_each f fs d c = each_index (\<lambda>k. f (iter_at fs d k)) [0..<n_entries fs] c"
proof (cases "n_entries fs = 0")
  case True
  then have "length fs = 1" using wf_fields_length [OF assms] by (cases "length fs") (auto simp: n_entries_def)
  then show ?thesis
    using wf_fields_tag [OF assms, of 0] True
    by (simp add: message_each_def pb_field_iter_begin_at)
next
  case False
  then have "0 < length fs" "length fs - 1 \<noteq> 0" using wf_fields_length [OF assms] by (auto simp: n_entries_def)
  then show ?thesis
    using wf_fields_tag [OF assms, of 0] False
    by (simp add: message_each_def pb_field_iter_begin_at iter_each_at [OF assms])
qed

lemma each_index_confined:
  assumes "\<And>k c. k \<in> set ks \<Longrightarrow> \<exists>c'. f k c = Some c' \<and> confined S c c'"
  shows "\<exists>c'. each_index f ks c = Some c' \<and> confined S c c'"
  using assms
proof (induction ks arbitrary: c)
  case Nil
  then show ?case by simp
next
  case (Cons k ks)
  obtain c1 where c1: "f k c = Some c1" "confined S c c1" using Cons.prems [of k c] by auto
  obtain c2 where c2: "each_index f ks c1 = Some c2" "confined S c1 c2"
    using Cons.IH [of c1] Cons.prems by auto
  show ?case using c1 c2 confined_trans [OF c1(2) c2(2)] by simp
qed

section \<open>Messages of static fields\<close>

text \<open>The offsets of entry \<open>k\<close>'s data and size field in the message struct.\<close>

primrec field_off :: "pb_field list \<Rightarrow> nat \<Rightarrow> addr \<times> addr" where
  "field_off fs 0 =
     (let d = ucast (f_data_offset (field_at fs 0)) in (d, d + scast (f_size_offset (field_at fs 0))))"
| "field_off fs (Suc k) =
     (let prev = field_at fs k; pos = field_at fs (Suc k) in
      if PB_HTYPE (f_type prev) = PB_HTYPE_ONEOF \<and> PB_HTYPE (f_type pos) = PB_HTYPE_ONEOF
        \<and> f_data_offset pos = PB_SIZE_MAX
      then field_off fs k
      else let d = fst (field_off fs k) + iter_prev_size prev + ucast (f_data_offset pos)
           in (d, d + scast (f_size_offset pos)))"

lemma field_addr_off:
  assumes "d \<noteq> NULL"
  shows "field_addr fs d k = (d + fst (field_off fs k), d + snd (field_off fs k))"
  using assms by (induction k) (simp_all add: Let_def add.assoc)

text \<open>
  How many bytes a field takes at its data address, and whether that and its size field are in
  a struct of \<open>sz\<close> bytes.
\<close>

definition data_len :: "pb_field \<Rightarrow> nat" where
  "data_len f = (if PB_HTYPE (f_type f) = PB_HTYPE_REPEATED
                 then unat (f_data_size f) * unat (f_array_size f) else unat (f_data_size f))"

definition min_size :: "pb_field \<Rightarrow> nat" where
  "min_size f =
     (if PB_LTYPE (f_type f) = PB_LTYPE_FIXED32 then 4
      else if PB_LTYPE (f_type f) = PB_LTYPE_FIXED64 then 8 else 1)"

definition static_field :: "pb_field list \<Rightarrow> nat \<Rightarrow> nat \<Rightarrow> bool" where
  "static_field fs sz k \<longleftrightarrow>
     (let f = field_at fs k; o_data = fst (field_off fs k); o_size = snd (field_off fs k) in
      PB_ATYPE (f_type f) = PB_ATYPE_STATIC \<and>
      PB_LTYPE (f_type f) \<le> PB_LTYPE_FIXED_LENGTH_BYTES \<and> PB_LTYPE (f_type f) \<noteq> PB_LTYPE_EXTENSION \<and>
      min_size f \<le> unat (f_data_size f) \<and> data_len f < 2 ^ 32 \<and>
      unat o_data + data_len f \<le> sz \<and>
      (PB_HTYPE (f_type f) = PB_HTYPE_REPEATED \<or> PB_HTYPE (f_type f) = PB_HTYPE_ONEOF
         \<longrightarrow> unat o_size + 4 \<le> sz) \<and>
      (PB_HTYPE (f_type f) = PB_HTYPE_OPTIONAL \<and> o_size \<noteq> o_data \<longrightarrow> unat o_size + 1 \<le> sz))"

primrec static_message :: "pb_env \<Rightarrow> nat \<Rightarrow> pb_field list \<Rightarrow> nat \<Rightarrow> bool" where
  "static_message env 0 fs sz \<longleftrightarrow> False"
| "static_message env (Suc n) fs sz \<longleftrightarrow>
     wf_fields fs \<and> 0 < n_entries fs \<and> sz < 2 ^ 64 \<and>
     (\<forall>k < n_entries fs. static_field fs sz k \<and>
        (PB_LTYPE (f_type (field_at fs k)) = PB_LTYPE_SUBMESSAGE \<longrightarrow>
           f_ptr (field_at fs k) \<noteq> NULL \<and>
           static_message env n (env_fields env (f_ptr (field_at fs k)))
             (unat (f_data_size (field_at fs k)))))"

text \<open>Where the iterator points is inside the struct.\<close>

lemma static_field_regions:
  assumes "static_field fs sz k" "d \<noteq> NULL" "sz < 2 ^ 64"
  defines "f \<equiv> field_at fs k" and "it \<equiv> iter_at fs d k"
  shows "region (i_pData it) (data_len f) \<subseteq> region d sz"
    "PB_HTYPE (f_type f) = PB_HTYPE_REPEATED \<or> PB_HTYPE (f_type f) = PB_HTYPE_ONEOF \<Longrightarrow>
       region (i_pSize it) 4 \<subseteq> region d sz"
    "PB_HTYPE (f_type f) = PB_HTYPE_OPTIONAL \<and> i_pSize it \<noteq> i_pData it \<Longrightarrow>
       region (i_pSize it) 1 \<subseteq> region d sz"
  using assms(1,3)
  by (auto simp: static_field_def Let_def f_def it_def iter_at_def field_addr_off [OF assms(2)]
      intro!: region_shift_subset del: subsetI)

lemma static_message_field:
  assumes "static_message env n fs sz" "k < n_entries fs"
  shows "wf_fields fs" "static_field fs sz k" "sz < 2 ^ 64"
  using assms by (cases n; simp)+

lemma static_message_sub:
  assumes "static_message env n fs sz" "k < n_entries fs"
    "PB_LTYPE (f_type (field_at fs k)) = PB_LTYPE_SUBMESSAGE"
  obtains m where "n = Suc m" "f_ptr (field_at fs k) \<noteq> NULL"
    "static_message env m (env_fields env (f_ptr (field_at fs k))) (unat (f_data_size (field_at fs k)))"
  using assms by (cases n) auto

lemma static_message_wf: "static_message env n fs sz \<Longrightarrow> wf_fields fs \<and> 0 < n_entries fs \<and> sz < 2 ^ 64"
  by (cases n) simp_all

lemma static_message_pos:
  assumes "static_message env n fs sz"
  shows "0 < sz"
proof -
  have fld: "static_field fs sz 0"
    using assms static_message_wf [OF assms] by (intro static_message_field) auto
  then have "0 < unat (f_data_size (field_at fs 0))"
    by (auto simp: static_field_def Let_def min_size_def split: if_splits)
  with fld show ?thesis
    unfolding static_field_def Let_def data_len_def by (auto split: if_splits)
qed

lemma not_NULL_struct: "NULL \<notin> region d sz \<Longrightarrow> 0 < sz \<Longrightarrow> d \<noteq> NULL"
  by (cases sz) auto

lemma static_field_atype: "static_field fs sz k \<Longrightarrow> PB_ATYPE (f_type (field_at fs k)) = PB_ATYPE_STATIC"
  "static_field fs sz k \<Longrightarrow> PB_LTYPE (f_type (field_at fs k)) \<noteq> PB_LTYPE_EXTENSION"
  by (simp_all add: static_field_def Let_def)

lemma pb_message_set_to_defaults_static:
  "static_message env n fs sz \<Longrightarrow> NULL \<notin> region d sz \<Longrightarrow>
     \<exists>c'. pb_message_set_to_defaults env n fs d c = Some c' \<and> confined (region d sz) c c'"
proof (induction n arbitrary: fs d sz c)
  case 0
  then show ?case by simp
next
  case (Suc n)
  note msg = Suc.prems(1)
  have d: "d \<noteq> NULL" by (rule not_NULL_struct [OF Suc.prems(2) static_message_pos [OF msg]])
  show ?case
    unfolding pb_message_set_to_defaults_def message_each_index [OF static_message_wf [OF msg, THEN conjunct1]]
  proof (rule each_index_confined)
    fix k and c :: cst
    assume "k \<in> set [0..<n_entries fs]"
    then have k: "k < n_entries fs" by simp
    let ?f = "field_at fs k" and ?it = "iter_at fs d k"
    note fld = static_message_field [OF msg k]
    note reg = static_field_regions [OF fld(2) d fld(3)]
    show "\<exists>c'. pb_field_set_to_default env (Suc n) ?it c = Some c' \<and> confined (region d sz) c c'"
    proof (cases "PB_HTYPE (f_type ?f) = PB_HTYPE_REPEATED \<or> PB_HTYPE (f_type ?f) = PB_HTYPE_ONEOF")
      case True
      then have "pb_field_set_to_default env (Suc n) ?it c = Some (put_size (i_pSize ?it) 0 c)"
        using static_field_atype [OF fld(2)]
        by (auto simp: static_set_to_default_def Let_def)
      then show ?thesis using reg(2) True by auto
    next
      case False
      define c1 where "c1 = (if PB_HTYPE (f_type ?f) = PB_HTYPE_OPTIONAL \<and> i_pSize ?it \<noteq> i_pData ?it
        then put_bool (i_pSize ?it) False c else c)"
      have c1: "confined (region d sz) c c1" using reg(3) by (auto simp: c1_def)
      have data: "region (i_pData ?it) (unat (f_data_size ?f)) \<subseteq> region d sz"
        using reg(1) False by (simp add: data_len_def)
      have eq: "pb_field_set_to_default env (Suc n) ?it c =
        (if PB_LTYPE (f_type ?f) = PB_LTYPE_SUBMESSAGE
         then pb_message_set_to_defaults env n (env_fields env (f_ptr ?f)) (i_pData ?it) c1
         else if f_ptr ?f \<noteq> NULL then Some (memcpy (i_pData ?it) (f_ptr ?f) (ucast (f_data_size ?f)) c1)
         else Some (memset (i_pData ?it) 0 (ucast (f_data_size ?f)) c1))"
        using False static_field_atype [OF fld(2)]
        by (auto simp: static_set_to_default_def Let_def c1_def pb_message_set_to_defaults_def)
      show ?thesis
      proof (cases "PB_LTYPE (f_type ?f) = PB_LTYPE_SUBMESSAGE")
        case True
        then have sub: "static_message env n (env_fields env (f_ptr ?f)) (unat (f_data_size ?f))"
          using static_message_sub [OF msg k] by auto
        obtain c2 where "pb_message_set_to_defaults env n (env_fields env (f_ptr ?f)) (i_pData ?it) c1 = Some c2"
          "confined (region (i_pData ?it) (unat (f_data_size ?f))) c1 c2"
          using Suc.IH [OF sub] data Suc.prems(2) by blast
        then show ?thesis
          using True eq c1 confined_mono [OF _ data] by (auto intro: confined_trans)
      next
        case sub: False
        have "confined (region d sz) c1 (memcpy (i_pData ?it) (f_ptr ?f) (ucast (f_data_size ?f)) c1)"
          "confined (region d sz) c1 (memset (i_pData ?it) 0 (ucast (f_data_size ?f)) c1)"
          by (rule confined_memcpy confined_memset, use data in simp)+
        then show ?thesis
          unfolding eq using sub confined_trans [OF c1] by auto
      qed
    qed
  qed
qed

lemma release_items_id:
  "(\<And>p. f p c = Some c) \<Longrightarrow> release_items f ds cnt p c = Some c"
  by (induction cnt arbitrary: p) simp_all

lemma each_index_id:
  "(\<And>k. k \<in> set ks \<Longrightarrow> f k c = Some c) \<Longrightarrow> each_index f ks c = Some c"
  by (induction ks) simp_all

text \<open>A message of static fields owns no memory: releasing it changes nothing.\<close>

lemma pb_release_static:
  "static_message env n fs sz \<Longrightarrow> pb_release env n fs d c = Some c"
  "static_message env n fs sz \<Longrightarrow> k < n_entries fs \<Longrightarrow>
     pb_release_single_field env n (iter_at fs d k) c = Some c"
proof (induction n arbitrary: fs d sz c k)
  case 0
  {
    case 1
    then show ?case by simp
  next
    case 2
    then show ?case by simp
  }
next
  case (Suc n)
  have single: "pb_release_single_field env (Suc n) (iter_at fs d k) c = Some c"
    if msg: "static_message env (Suc n) fs sz" and k: "k < n_entries fs" for fs sz d k c
  proof -
    note fld = static_message_field [OF msg k]
    have sub: "pb_release env n (env_fields env (f_ptr (field_at fs k))) p c = Some c"
      if "PB_LTYPE (f_type (field_at fs k)) = PB_LTYPE_SUBMESSAGE" for p
    proof -
      have "static_message env n (env_fields env (f_ptr (field_at fs k))) (unat (f_data_size (field_at fs k)))"
        using static_message_sub [OF msg k that] by auto
      then show ?thesis by (rule Suc.IH(1))
    qed
    then have items: "release_items (release_message (pb_release_single_field env n)
        (env_fields env (f_ptr (field_at fs k)))) ds m p c = Some c"
      if "PB_LTYPE (f_type (field_at fs k)) = PB_LTYPE_SUBMESSAGE" for ds m p
      using that by (intro release_items_id) (simp add: pb_release_def)
    show ?thesis
    proof (cases "PB_LTYPE (f_type (field_at fs k)) = PB_LTYPE_SUBMESSAGE")
      case True
      then show ?thesis
        using items [OF True] static_field_atype [OF fld(2)] by (simp add: Let_def)
    next
      case False
      then show ?thesis using static_field_atype [OF fld(2)] by (simp add: Let_def)
    qed
  qed
  {
    case 2
    then show ?case by (rule single)
  next
    case 1
    have "each_index (\<lambda>k. pb_release_single_field env (Suc n) (iter_at fs d k)) [0..<n_entries fs] c = Some c"
      by (rule each_index_id) (use single [OF 1] in simp)
    then show ?case
      using static_message_wf [OF 1] unfolding pb_release_def release_message_def
      by (simp only: message_each_index if_cancel)
  }
qed

section \<open>The position of the decoder's iterator\<close>

text \<open>
  At a field with a counter of its own, or at a fixed-count array, whose size pointer
  \<open>pb_decode_noinit\<close> has set to its local.
\<close>

definition iter_ok :: "pb_field list \<Rightarrow> addr \<Rightarrow> addr \<Rightarrow> nat \<Rightarrow> pb_field_iter \<Rightarrow> bool" where
  "iter_ok fs d frame k it \<longleftrightarrow> k < n_entries fs \<and>
     (it = iter_at fs d k \<or>
      it = (iter_at fs d k)\<lparr>i_pSize := frame\<rparr> \<and> PB_HTYPE (f_type (field_at fs k)) = PB_HTYPE_REPEATED)"

lemma iter_okD:
  assumes "iter_ok fs d frame k it"
  shows "k < n_entries fs" "i_start it = fs" "i_pos it = k" "cur_field it = field_at fs k"
    "i_pData it = i_pData (iter_at fs d k)"
    "i_required_field_index it = i_required_field_index (iter_at fs d k)"
    "i_pSize it = i_pSize (iter_at fs d k) \<or> i_pSize it = frame \<and> PB_HTYPE (f_type (field_at fs k)) = PB_HTYPE_REPEATED"
  using assms by (auto simp: iter_ok_def)

lemma pb_field_iter_next_ok:
  assumes wf: "wf_fields fs" and it: "iter_ok fs d frame k it"
  shows "pb_field_iter_next it = pb_field_iter_next (iter_at fs d k)"
proof -
  let ?it = "iter_at fs d k"
  have "k < length fs" "k \<noteq> length fs - 1" using it by (auto simp: iter_ok_def n_entries_def)
  then have k: "f_tag (field_at fs k) \<noteq> 0"
    using wf_fields_tag [OF wf, of k] by (auto simp: iter_ok_def n_entries_def)
  have "pb_field_iter_next (?it\<lparr>i_pSize := frame\<rparr>) = pb_field_iter_next ?it"
    if "PB_HTYPE (f_type (field_at fs k)) = PB_HTYPE_REPEATED"
    using that k by (simp add: pb_field_iter_next_def Let_def)
  then show ?thesis using it by (auto simp: iter_ok_def)
qed

lemma iter_search_ok:
  assumes wf: "wf_fields fs" and it: "iter_ok fs d frame k it"
  shows "\<exists>j it'. iter_search p (i_pos it) it = Some (\<exists>i < n_entries fs. p (field_at fs i), it') \<and>
    iter_ok fs d frame j it' \<and> (if \<exists>i < n_entries fs. p (field_at fs i) then p (field_at fs j) else j = k)"
proof (cases "p (field_at fs k)")
  case True
  then show ?thesis
    using it iter_okD [OF it] by (subst iter_search.simps) (auto simp: Let_def)
next
  case False
  have k: "k < n_entries fs" using it by (simp add: iter_ok_def)
  have "iter_search p (i_pos it) it = iter_search p k (iter_at fs d k)"
    using False iter_okD [OF it] pb_field_iter_next_ok [OF wf it]
    by (simp add: iter_search.simps [of p _ it] iter_search.simps [of p _ "iter_at fs d k"])
  moreover obtain j where j: "j < n_entries fs"
    "iter_search p k (iter_at fs d k) = Some (\<exists>i < n_entries fs. p (field_at fs i), iter_at fs d j)"
    "if \<exists>i < n_entries fs. p (field_at fs i) then p (field_at fs j) else j = k"
    using iter_search_full [OF wf k, of p d] by blast
  ultimately show ?thesis
    by (intro exI [of _ j] exI [of _ "iter_at fs d j"] conjI) (simp_all only: iter_ok_def, simp)
qed

end
