(* ===== verification/Pb_Reads.thy ===== *)
theory Pb_Reads
  imports Pb_Static
begin

text \<open>
  Every reading operation leaves the memory alone and gives no bytes back to its stream,
  whatever its input; the ones that succeed take at least one byte.
\<close>

section \<open>Reading leaves the memory alone\<close>

text \<open>
  \<open>env_quiet\<close>: a custom input stream hands over bytes and changes nothing else.  \<open>reads st st'\<close>:
  from \<open>st\<close> to \<open>st'\<close> the C state is the same and no bytes came back.
\<close>

definition env_quiet :: "pb_env \<Rightarrow> bool" where
  "env_quiet env \<longleftrightarrow> (\<forall>k a n c. snd (snd (env_read env k a n c)) = c)"

definition reads :: "ist \<Rightarrow> ist \<Rightarrow> bool" where
  "reads st st' \<longleftrightarrow> snd st' = snd st \<and> is_bytes_left (fst st') \<le> is_bytes_left (fst st)"

definition consumes :: "ist \<Rightarrow> ist \<Rightarrow> bool" where
  "consumes st st' \<longleftrightarrow> snd st' = snd st \<and> is_bytes_left (fst st') < is_bytes_left (fst st)"

lemma reads_refl [simp]: "reads st st"
  by (simp add: reads_def)

lemma reads_trans: "reads st st' \<Longrightarrow> reads st' st'' \<Longrightarrow> reads st st''"
  by (auto simp: reads_def)

lemma consumes_reads: "consumes st st' \<Longrightarrow> reads st st'"
  by (simp add: reads_def consumes_def order_less_imp_le)

lemma consumes_trans: "consumes st st' \<Longrightarrow> reads st' st'' \<Longrightarrow> consumes st st''"
  by (auto simp: reads_def consumes_def)

lemma consumes_consumes: "consumes st st' \<Longrightarrow> consumes st' st'' \<Longrightarrow> consumes st st''"
  by (auto simp: consumes_def)

lemmas reads_rules = reads_trans consumes_trans consumes_reads consumes_consumes

lemma reads_set_error [simp]: "reads st (is_set_error e st') \<longleftrightarrow> reads st st'"
  by (simp add: reads_def is_set_error_def)

lemma consumes_set_error [simp]: "consumes st (is_set_error e st') \<longleftrightarrow> consumes st st'"
  by (simp add: consumes_def is_set_error_def)

lemma is_call_quiet:
  assumes "env_quiet env" "is_call env buf n st = (r, st')" "buf = IB_Null \<or> buf = IB_Local"
  shows "snd st' = snd st"
  using assms(2,3) assms(1) [unfolded env_quiet_def, rule_format, of _ "is_state (fst st)" n "snd st"]
  by (auto simp: is_call_def buf_read_def Let_def split: in_callback.splits prod.splits option.splits)
    (metis snd_conv)+

lemma pb_readbyte_reads:
  assumes "env_quiet env" "pb_readbyte env st = (r, st')"
  shows "if r = None then reads st st' else consumes st st'"
proof -
  have "snd st' = snd st"
    using assms is_call_quiet [OF assms(1), of IB_Local 1 st]
    by (auto simp: pb_readbyte_def is_set_error_def split: if_splits prod.splits option.splits)
  then show ?thesis
    using pb_readbyte_left [OF assms(2)] pb_readbyte_less [of env st _ st'] assms(2)
    by (auto simp: reads_def consumes_def word_less_nat_alt split: option.splits)
qed

lemma pb_read_checked_quiet:
  assumes "env_quiet env" "pb_read_checked env buf n st = (r, st')" "buf = IB_Null \<or> buf = IB_Local"
  shows "snd st' = snd st"
  using assms(2) is_call_quiet [OF assms(1) _ assms(3), of n st]
  by (auto simp: pb_read_checked_def is_set_error_def split: if_splits prod.splits option.splits)

lemma pb_read_skip_quiet:
  "env_quiet env \<Longrightarrow> pb_read_skip env n st = (r, st') \<Longrightarrow> snd st' = snd st"
proof (induction env n st arbitrary: r st' rule: pb_read_skip.induct)
  case (1 env n st)
  obtain r1 st1 where call: "pb_read_checked env IB_Local 16 st = (r1, st1)"
    by (cases "pb_read_checked env IB_Local 16 st") blast
  have same: "snd st1 = snd st"
    by (rule pb_read_checked_quiet [OF "1.prems"(1) call]) simp
  show ?case
  proof (cases "16 < n")
    case big: True
    show ?thesis
    proof (cases r1)
      case None
      then show ?thesis using "1.prems"(2) big call same by (simp add: pb_read_skip.simps [of env n st])
    next
      case (Some bs)
      then have "pb_read_skip env (n - 16) st1 = (r, st')"
        using "1.prems"(2) big call by (simp add: pb_read_skip.simps [of env n st])
      from "1.IH" [OF big call [symmetric] Some "1.prems"(1) this] same show ?thesis by simp
    qed
  next
    case False
    then have "pb_read_checked env IB_Local n st = (r, st')"
      using "1.prems"(2) by (simp add: pb_read_skip.simps [of env n st])
    then show ?thesis by (rule pb_read_checked_quiet [OF "1.prems"(1)]) simp
  qed
qed

lemma pb_read_reads:
  assumes "env_quiet env" "pb_read env buf n st = (r, st')" "buf = IB_Null \<or> buf = IB_Local"
  shows "reads st st'" "r \<noteq> None \<Longrightarrow> n \<noteq> 0 \<Longrightarrow> consumes st st'"
proof -
  have "snd st' = snd st"
    using assms pb_read_checked_quiet [OF assms(1) _ assms(3), of n st] pb_read_skip_quiet [OF assms(1), of n st]
    by (auto simp: pb_read_def split: if_splits)
  moreover have "v - n < v" if "n \<le> v" "n \<noteq> 0" for v :: u64
  proof -
    have "0 < unat n" using that by (simp add: unat_gt_0)
    then show ?thesis using that by (simp add: word_less_nat_alt word_le_nat_alt unat_sub_if')
  qed
  ultimately show "reads st st'" "r \<noteq> None \<Longrightarrow> n \<noteq> 0 \<Longrightarrow> consumes st st'"
    using pb_read_left [OF assms(2)]
    by (auto simp: reads_def consumes_def word_sub_le split: option.splits)
qed

lemma varint_loop_reads:
  "env_quiet env \<Longrightarrow> varint_loop env bitpos result st = (r, st') \<Longrightarrow>
     if r = None then reads st st' else consumes st st'"
proof (induction env bitpos result st arbitrary: r st' rule: varint_loop.induct)
  case (1 env bitpos result st)
  obtain r1 st1 where call: "pb_readbyte env st = (r1, st1)" by (cases "pb_readbyte env st") blast
  note rd = pb_readbyte_reads [OF "1.prems"(1) call]
  show ?case
  proof (cases "64 \<le> bitpos \<or> r1 = None")
    case True
    then show ?thesis
      using "1.prems"(2) call rd by (auto simp: varint_loop.simps [of env bitpos] split: if_splits)
  next
    case False
    then obtain b where b: "r1 = Some b" "\<not> 64 \<le> bitpos" by auto
    show ?thesis
    proof (cases "b AND 0x80 = 0")
      case True
      then show ?thesis
        using "1.prems"(2) call rd b by (auto simp: varint_loop.simps [of env bitpos] Let_def)
    next
      case more: False
      have "varint_loop env (bitpos + 7) (result OR push_bit (unat bitpos) (ucast (b AND 0x7F))) st1 = (r, st')"
        using "1.prems"(2) call b more by (simp add: varint_loop.simps [of env bitpos] Let_def)
      from "1.IH" [OF b(2) call [symmetric] b(1) refl more "1.prems"(1) this] rd b show ?thesis
        by (auto intro: reads_rules)
    qed
  qed
qed

lemma varint32_loop_reads:
  "env_quiet env \<Longrightarrow> varint32_loop env bitpos result st = (r, st') \<Longrightarrow>
     if r = None then reads st st' else consumes st st'"
proof (induction env bitpos result st arbitrary: r st' rule: varint32_loop.induct)
  case (1 env bitpos result st)
  obtain r1 st1 where call: "pb_readbyte env st = (r1, st1)" by (cases "pb_readbyte env st") blast
  note rd = pb_readbyte_reads [OF "1.prems"(1) call]
  show ?case
  proof (cases r1)
    case None
    then show ?thesis
      using "1.prems"(2) call rd by (auto simp: varint32_loop.simps [of env bitpos])
  next
    case (Some b)
    then have c1: "consumes st st1" using rd by simp
    define over where "over \<longleftrightarrow> 32 \<le> bitpos \<and> b AND 0x7F \<noteq> 0 \<and>
      (drop_bit 31 result = 0 \<or> b \<noteq> (if bitpos < 63 then 0xFF else 0x01))"
    define res where "res = (if 32 \<le> bitpos then result
      else result OR push_bit (unat bitpos) (ucast (b AND 0x7F)))"
    have step: "varint32_loop env bitpos result st =
      (if over then (None, is_set_error ''varint overflow'' st1)
       else if b AND 0x80 \<noteq> 0 then varint32_loop env (bitpos + 7) res st1
       else (Some (res, bitpos + 7, b), st1))"
      by (subst varint32_loop.simps) (simp only: call Some prod.case option.case Let_def over_def res_def)
    show ?thesis
    proof (cases "over \<or> b AND 0x80 = 0")
      case True
      then show ?thesis
        using "1.prems"(2) c1 unfolding step by (auto simp: consumes_reads split: if_splits)
    next
      case more: False
      then have loop: "varint32_loop env (bitpos + 7) res st1 = (r, st')"
        using "1.prems"(2) unfolding step by simp
      have "if r = None then reads st1 st' else consumes st1 st'"
        by (rule "1.IH" [OF call [symmetric] Some refl _ res_def refl _ "1.prems"(1) loop])
          (use more in \<open>auto simp: over_def\<close>)
      then show ?thesis
        using c1 by (auto intro: reads_rules split: if_splits)
    qed
  qed
qed

lemma pb_decode_varint_reads:
  assumes "env_quiet env" "pb_decode_varint env st = (r, st')"
  shows "if r = None then reads st st' else consumes st st'"
  using varint_loop_reads [OF assms(1) assms(2) [unfolded pb_decode_varint_def]] .

lemma pb_decode_varint32_eof_reads:
  assumes "env_quiet env" "pb_decode_varint32_eof env st = (r, eof, st')"
  shows "if r = None then reads st st' else consumes st st'"
proof -
  obtain r1 st1 where call: "pb_readbyte env st = (r1, st1)" by (cases "pb_readbyte env st") blast
  note rd = pb_readbyte_reads [OF assms(1) call]
  show ?thesis
  proof (cases r1)
    case None
    then show ?thesis using assms(2) call rd by (auto simp: pb_decode_varint32_eof_def)
  next
    case (Some b)
    obtain r2 st2 where loop: "varint32_loop env 7 (ucast (b AND 0x7F)) st1 = (r2, st2)"
      by (cases "varint32_loop env 7 (ucast (b AND 0x7F)) st1") blast
    show ?thesis
      using assms(2) call rd Some loop varint32_loop_reads [OF assms(1) loop]
      by (cases r2) (auto simp: pb_decode_varint32_eof_def split: if_splits
          intro: reads_rules, meson consumes_reads consumes_consumes)
  qed
qed

lemma pb_decode_varint32_reads:
  assumes "env_quiet env" "pb_decode_varint32 env st = (r, st')"
  shows "if r = None then reads st st' else consumes st st'"
proof -
  obtain eof where "pb_decode_varint32_eof env st = (r, eof, st')"
    using assms(2) by (auto simp: pb_decode_varint32_def split: prod.splits)
  from pb_decode_varint32_eof_reads [OF assms(1) this] show ?thesis .
qed

lemma pb_decode_tag_reads:
  assumes "env_quiet env" "pb_decode_tag env st = (t, st')"
  shows "if tr_ok t then consumes st st' else reads st st'"
proof -
  obtain r eof st1 where call: "pb_decode_varint32_eof env st = (r, eof, st1)"
    by (cases "pb_decode_varint32_eof env st") blast
  show ?thesis
    using assms(2) pb_decode_varint32_eof_reads [OF assms(1) call] call
    by (auto simp: pb_decode_tag_def consumes_reads split: option.splits if_splits)
qed

lemma pb_skip_bytes_reads:
  assumes "env_quiet env" "pb_skip_bytes env n st = (ok, st')"
  shows "reads st st'"
  using assms(2) pb_read_reads(1) [OF assms(1), of IB_Null n st]
  by (auto simp: pb_skip_bytes_def split: prod.splits)

lemma pb_skip_varint_reads:
  "env_quiet env \<Longrightarrow> pb_skip_varint env st = (ok, st') \<Longrightarrow> reads st st'"
proof (induction env st arbitrary: ok st' rule: pb_skip_varint.induct)
  case (1 env st)
  obtain r1 st1 where call: "pb_read env IB_Local 1 st = (r1, st1)"
    by (cases "pb_read env IB_Local 1 st") blast
  have rd: "reads st st1" by (rule pb_read_reads(1) [OF "1.prems"(1) call]) simp
  show ?case
  proof (cases "\<exists>bs. r1 = Some bs \<and> bs 0 AND 0x80 \<noteq> 0")
    case True
    then obtain bs where bs: "r1 = Some bs" "bs 0 AND 0x80 \<noteq> 0" by blast
    then have "pb_skip_varint env st1 = (ok, st')"
      using "1.prems"(2) call by (simp add: pb_skip_varint.simps [of env st])
    from "1.IH" [OF call [symmetric] bs "1.prems"(1) this] rd show ?thesis by (rule reads_trans [rotated])
  next
    case False
    then show ?thesis
      using "1.prems"(2) call rd by (auto simp: pb_skip_varint.simps [of env st] split: option.splits if_splits)
  qed
qed

lemma pb_skip_string_reads:
  assumes "env_quiet env" "pb_skip_string env st = (ok, st')"
  shows "reads st st'"
proof -
  obtain r st1 where call: "pb_decode_varint32 env st = (r, st1)" by (cases "pb_decode_varint32 env st") blast
  note rd = pb_decode_varint32_reads [OF assms(1) call]
  show ?thesis
  proof (cases r)
    case None
    then show ?thesis using assms(2) call rd by (simp add: pb_skip_string_def)
  next
    case (Some n)
    then have "pb_skip_bytes env (ucast n) st1 = (ok, st')"
      using assms(2) call by (simp add: pb_skip_string_def)
    from pb_skip_bytes_reads [OF assms(1) this] rd Some show ?thesis by (auto intro: reads_rules)
  qed
qed

lemma pb_skip_field_reads:
  assumes "env_quiet env" "pb_skip_field env wt st = (ok, st')"
  shows "reads st st'"
  using assms(2) pb_skip_varint_reads [OF assms(1)] pb_skip_string_reads [OF assms(1)]
    pb_skip_bytes_reads [OF assms(1)]
  by (auto simp: pb_skip_field_def split: if_splits)

lemma pb_decode_svarint_reads:
  assumes "env_quiet env" "pb_decode_svarint env st = (r, st')"
  shows "if r = None then reads st st' else consumes st st'"
proof -
  obtain r1 st1 where call: "pb_decode_varint env st = (r1, st1)" by (cases "pb_decode_varint env st") blast
  show ?thesis
    using assms(2) pb_decode_varint_reads [OF assms(1) call] call
    by (auto simp: pb_decode_svarint_def split: option.splits)
qed

lemma pb_decode_fixed_reads:
  assumes "env_quiet env"
  shows "pb_decode_fixed32 env st = (r, st') \<Longrightarrow> if r = None then reads st st' else consumes st st'"
    "pb_decode_fixed64 env st = (r', st') \<Longrightarrow> if r' = None then reads st st' else consumes st st'"
proof -
  obtain r1 st1 where c4: "pb_read env IB_Local 4 st = (r1, st1)" by (cases "pb_read env IB_Local 4 st") blast
  obtain r2 st2 where c8: "pb_read env IB_Local 8 st = (r2, st2)" by (cases "pb_read env IB_Local 8 st") blast
  show "pb_decode_fixed32 env st = (r, st') \<Longrightarrow> if r = None then reads st st' else consumes st st'"
    using pb_read_reads [OF assms c4] c4 by (auto simp: pb_decode_fixed32_def split: option.splits)
  show "pb_decode_fixed64 env st = (r', st') \<Longrightarrow> if r' = None then reads st st' else consumes st st'"
    using pb_read_reads [OF assms c8] c8 by (auto simp: pb_decode_fixed64_def split: option.splits)
qed

text \<open>A substream takes its length off the parent, and closing it gives nothing back.\<close>

lemma pb_make_string_substream_reads:
  assumes "env_quiet env" "pb_make_string_substream env st = (r, st')"
  shows "if r = None then reads st st' else consumes st st'"
proof -
  obtain r1 s1 c1 where call: "pb_decode_varint32 env st = (r1, (s1, c1))"
    by (cases "pb_decode_varint32 env st") (metis prod.collapse)
  note rd = pb_decode_varint32_reads [OF assms(1) call]
  have le: "v - ucast n \<le> v" if "\<not> v < ucast n" for v :: u64 and n :: u32
    using that by (simp add: word_sub_le not_less)
  then have less: "is_bytes_left s1 - ucast n < is_bytes_left (fst st)"
    if "\<not> is_bytes_left s1 < ucast n" "consumes st (s1, c1)" for n :: u32
    using order_le_less_trans [OF le [OF that(1)]] that(2) by (simp add: consumes_def)
  show ?thesis
  proof (cases r1)
    case None
    then show ?thesis using assms(2) call rd by (simp add: pb_make_string_substream_def)
  next
    case (Some n)
    then have c: "consumes st (s1, c1)" using rd by simp
    show ?thesis
      using assms(2) call less [of n] c Some
      by (auto simp: pb_make_string_substream_def consumes_reads split: if_splits)
        (simp add: consumes_def)
  qed
qed

lemma pb_close_string_substream_reads:
  assumes "env_quiet env" "pb_close_string_substream env parent sub = (ok, st')"
  shows "snd st' = snd sub" "is_bytes_left (fst st') = is_bytes_left parent"
proof -
  obtain ok1 s1 c1 where call: "(if is_bytes_left (fst sub) \<noteq> 0
      then pb_skip_bytes env (is_bytes_left (fst sub)) sub else (True, sub)) = (ok1, (s1, c1))"
    by (metis prod.collapse)
  have "reads sub (s1, c1)"
    using call pb_skip_bytes_reads [OF assms(1), of "is_bytes_left (fst sub)" sub]
    by (auto split: if_splits)
  then show "snd st' = snd sub" "is_bytes_left (fst st') = is_bytes_left parent"
    using assms(2) unfolding pb_close_string_substream_def call
    by (auto simp: reads_def split: bool.splits)
qed

text \<open>Reading into memory changes the bytes asked for at most.\<close>

lemma pb_read_mem_confined:
  assumes "env_quiet env" "pb_read_mem env a n st = (ok, st')"
  shows "confined (region a (unat n)) (snd st) (snd st')"
    "is_bytes_left (fst st') \<le> is_bytes_left (fst st)"
proof -
  have n: "unat n < 2 ^ 64" by (rule unat_u64_less)
  have copy: "copy_up (unat n) a b m x = m x" if "x \<notin> region a (unat n)" for b m x
    by (rule copy_up_frame [OF n that])
  have store: "store_bytes m a bs x = m x" if "x \<notin> region a (unat n)" "length bs = unat n" for m bs x
    using that n by (intro store_bytes_frame) simp_all
  have call: "confined (region a (unat n)) (snd st) c1"
    if "is_call env (IB_Mem a) n st = (r, (s1, c1))" for r s1 c1
    using that assms(1) [unfolded env_quiet_def, rule_format, of _ "is_state (fst st)" n "snd st"]
    by (auto simp: is_call_def buf_read_def Let_def confined_def copy store
        split: in_callback.splits prod.splits option.splits) (metis snd_conv)+
  obtain r where r: "pb_read env (IB_Mem a) n st = (r, st')"
    using assms(2) by (auto simp: pb_read_mem_def split: prod.splits)
  show "confined (region a (unat n)) (snd st) (snd st')"
  proof (cases "n = 0")
    case True
    then show ?thesis using r by (simp add: pb_read_def)
  next
    case False
    then have "pb_read_checked env (IB_Mem a) n st = (r, st')" using r by (simp add: pb_read_def)
    then show ?thesis
      using call by (fastforce simp: pb_read_checked_def is_set_error_def split: if_splits prod.splits option.splits)
  qed
  show "is_bytes_left (fst st') \<le> is_bytes_left (fst st)"
    using pb_read_left [OF r] by (auto simp: word_sub_le split: option.splits)
qed

end
