(* ===== verification/Pb_Safety.thy ===== *)
theory Pb_Safety
  imports Pb_Reads
begin

text \<open>
  The safety of \<open>pb_decode\<close> on every input: it ends, and it writes only inside the message
  struct.  \<open>safe_inner\<close> is the contract of the recursive call; \<open>pb_decode_noinit\<close> meets it at every
  depth, by induction.
\<close>

section \<open>Safe decoding\<close>

text \<open>
  \<open>safe S st r\<close>: the call has a result, changes no byte outside \<open>S\<close>, allocates and frees
  nothing, and gives no bytes back to the stream.
\<close>

definition safe :: "addr set \<Rightarrow> ist \<Rightarrow> (bool \<times> ist) option \<Rightarrow> bool" where
  "safe S st r \<longleftrightarrow> (\<exists>ok st'. r = Some (ok, st') \<and> confined S (snd st) (snd st') \<and>
     is_bytes_left (fst st') \<le> is_bytes_left (fst st))"

text \<open>As \<open>safe\<close>, and where it succeeds at least one byte was taken.\<close>

definition takes :: "addr set \<Rightarrow> ist \<Rightarrow> (bool \<times> ist) option \<Rightarrow> bool" where
  "takes S st r \<longleftrightarrow> (\<exists>ok st'. r = Some (ok, st') \<and> confined S (snd st) (snd st') \<and>
     is_bytes_left (fst st') \<le> is_bytes_left (fst st) \<and>
     (ok \<longrightarrow> is_bytes_left (fst st') < is_bytes_left (fst st)))"

lemma safe_Some [simp]:
  "safe S st (Some r) \<longleftrightarrow>
     confined S (snd st) (snd (snd r)) \<and> is_bytes_left (fst (snd r)) \<le> is_bytes_left (fst st)"
  by (cases r) (auto simp: safe_def)

lemma takes_Some [simp]:
  "takes S st (Some r) \<longleftrightarrow> safe S st (Some r) \<and>
     (fst r \<longrightarrow> is_bytes_left (fst (snd r)) < is_bytes_left (fst st))"
  by (cases r) (auto simp: takes_def)

lemma safeE:
  assumes "safe S st r"
  obtains ok st' where "r = Some (ok, st')" "confined S (snd st) (snd st')"
    "is_bytes_left (fst st') \<le> is_bytes_left (fst st)"
  using assms by (auto simp: safe_def)

lemma takesE:
  assumes "takes S st r"
  obtains ok st' where "r = Some (ok, st')" "confined S (snd st) (snd st')"
    "is_bytes_left (fst st') \<le> is_bytes_left (fst st)"
    "ok \<Longrightarrow> is_bytes_left (fst st') < is_bytes_left (fst st)"
  using assms by (auto simp: takes_def)

lemma takes_safe: "takes S st r \<Longrightarrow> safe S st r"
  by (auto simp: takes_def safe_def)

lemma safe_mono: "safe S st r \<Longrightarrow> S \<subseteq> T \<Longrightarrow> safe T st r"
  by (auto simp: safe_def intro: confined_mono)

lemma takes_mono: "takes S st r \<Longrightarrow> S \<subseteq> T \<Longrightarrow> takes T st r"
  by (auto simp: takes_def intro: confined_mono)

lemma safe_after:
  assumes "safe S st1 r" "confined S (snd st) (snd st1)" "is_bytes_left (fst st1) \<le> is_bytes_left (fst st)"
  shows "safe S st r"
  using assms by (auto simp: safe_def intro: confined_trans order_trans)

definition frames :: "pb_env \<Rightarrow> nat \<Rightarrow> addr set" where
  "frames env n = (\<Union>k < n. region (env_frame env k) 4)"

lemma frames_Suc: "frames env (Suc n) = frames env n \<union> region (env_frame env n) 4"
  by (auto simp: frames_def less_Suc_eq)

text \<open>A decoder that reads with \<open>f\<close> and then stores at \<open>dest\<close>.\<close>

lemma takes_read_store:
  assumes "if r = None then reads st st' else consumes st st'"
    and "\<And>v. confined S (snd st') (snd (snd (g v))) \<and> is_bytes_left (fst (snd (g v))) = is_bytes_left (fst st')"
  shows "takes S st (Some (case r of None \<Rightarrow> (False, st') | Some v \<Rightarrow> g v))"
proof (cases r)
  case None
  then show ?thesis using assms by (auto simp: takes_def reads_def)
next
  case (Some v)
  then show ?thesis
    using assms(1) assms(2) [of v] by (cases "g v") (auto simp: takes_def consumes_def)
qed

lemma clamp_confined:
  assumes "region dest (unat data_size) \<subseteq> S"
  shows "clamp_signed data_size dest v = Some (x, f) \<Longrightarrow> confined S c (f c)"
    "clamp_unsigned data_size dest v = Some (x, f) \<Longrightarrow> confined S c (f c)"
  using assms by (auto simp: clamp_signed_def clamp_unsigned_def split: if_splits intro!: confined_put del: subsetI)

lemma store_clamped_sel:
  assumes "\<And>x f c. r = Some (x, f) \<Longrightarrow> confined S c (f c)"
  shows "confined S (snd st) (snd (snd (store_clamped r v st))) \<and>
    is_bytes_left (fst (snd (store_clamped r v st))) = is_bytes_left (fst st)"
  using assms by (auto simp: store_clamped_def split: option.splits)

lemma scalar_takes:
  assumes quiet: "env_quiet env" and reg: "region dest (unat (f_data_size f)) \<subseteq> S"
  shows "0 < unat (f_data_size f) \<Longrightarrow> takes S st (Some (pb_dec_bool env st f dest))"
    "takes S st (Some (pb_dec_varint env st f dest))"
    "takes S st (Some (pb_dec_uvarint env st f dest))"
    "takes S st (Some (pb_dec_svarint env st f dest))"
    "4 \<le> unat (f_data_size f) \<Longrightarrow> takes S st (Some (pb_dec_fixed32 env st f dest))"
    "8 \<le> unat (f_data_size f) \<Longrightarrow> takes S st (Some (pb_dec_fixed64 env st f dest))"
proof -
  have sub: "region dest k \<subseteq> S" if "k \<le> unat (f_data_size f)" for k
    using that reg region_mono by blast
  have clamp: "confined S (snd s) (snd (snd (store_clamped (clamp_signed (f_data_size f) dest v) w s))) \<and>
      is_bytes_left (fst (snd (store_clamped (clamp_signed (f_data_size f) dest v) w s))) = is_bytes_left (fst s)"
    "confined S (snd s) (snd (snd (store_clamped (clamp_unsigned (f_data_size f) dest v) w s))) \<and>
      is_bytes_left (fst (snd (store_clamped (clamp_unsigned (f_data_size f) dest v) w s))) = is_bytes_left (fst s)"
    for v w s
    by (rule store_clamped_sel, erule clamp_confined [OF reg])+
  obtain r st' where c: "pb_decode_varint32 env st = (r, st')" by (cases "pb_decode_varint32 env st") blast
  show "takes S st (Some (pb_dec_bool env st f dest))" if "0 < unat (f_data_size f)"
    unfolding pb_dec_bool_def c prod.case
    by (rule takes_read_store [OF pb_decode_varint32_reads [OF quiet c]])
      (use sub [of 1] that in \<open>auto intro!: confined_put_bool simp del: subset_iff\<close>)
  obtain r st' where c: "pb_decode_varint env st = (r, st')" by (cases "pb_decode_varint env st") blast
  show "takes S st (Some (pb_dec_varint env st f dest))"
    unfolding pb_dec_varint_def c prod.case Let_def
    by (rule takes_read_store [OF pb_decode_varint_reads [OF quiet c]]) (rule clamp)
  show "takes S st (Some (pb_dec_uvarint env st f dest))"
    unfolding pb_dec_uvarint_def c prod.case Let_def
    by (rule takes_read_store [OF pb_decode_varint_reads [OF quiet c]]) (rule clamp)
  obtain r st' where c: "pb_decode_svarint env st = (r, st')" by (cases "pb_decode_svarint env st") blast
  show "takes S st (Some (pb_dec_svarint env st f dest))"
    unfolding pb_dec_svarint_def c prod.case Let_def
    by (rule takes_read_store [OF pb_decode_svarint_reads [OF quiet c]]) (rule clamp)
  obtain r st' where c: "pb_decode_fixed32 env st = (r, st')" by (cases "pb_decode_fixed32 env st") blast
  show "takes S st (Some (pb_dec_fixed32 env st f dest))" if "4 \<le> unat (f_data_size f)"
    unfolding pb_dec_fixed32_def c prod.case
    by (rule takes_read_store [OF pb_decode_fixed_reads(1) [OF quiet c]]) (use sub [OF that] in auto)
  obtain r st' where c: "pb_decode_fixed64 env st = (r, st')" by (cases "pb_decode_fixed64 env st") blast
  show "takes S st (Some (pb_dec_fixed64 env st f dest))" if "8 \<le> unat (f_data_size f)"
    unfolding pb_dec_fixed64_def c prod.case
    by (rule takes_read_store [OF pb_decode_fixed_reads(2) [OF quiet c]]) (use sub [OF that] in auto)
qed

text \<open>
  The length-delimited decoders of a static field write at most \<open>data_size\<close> bytes, whatever the
  length on the wire.
\<close>

lemma safe_read_mem:
  assumes quiet: "env_quiet env" and reg: "region a (unat n) \<subseteq> S"
    and st: "confined S (snd st) (snd st1)" "is_bytes_left (fst st1) \<le> is_bytes_left (fst st)"
    and g: "\<And>c. confined S c (g c)"
  shows "safe S st (Some (case pb_read_mem env a n st1 of (ok, st2) \<Rightarrow> (ok, on_c g st2)))"
proof -
  obtain ok st2 where c: "pb_read_mem env a n st1 = (ok, st2)" by (cases "pb_read_mem env a n st1") blast
  note rd = pb_read_mem_confined [OF quiet c]
  have "confined S (snd st) (g (snd st2))"
    using confined_trans [OF st(1) confined_trans [OF confined_mono [OF rd(1) reg] g]] .
  then show ?thesis using rd(2) st(2) by (simp add: c)
qed

lemma safe_read_mem':
  assumes "env_quiet env" "region a (unat n) \<subseteq> S"
    "confined S (snd st) (snd st1)" "is_bytes_left (fst st1) \<le> is_bytes_left (fst st)"
  shows "safe S st (Some (pb_read_mem env a n st1))"
  using safe_read_mem [OF assms, of "\<lambda>c. c"]
  by (cases "pb_read_mem env a n st1") (simp add: on_c_def)

lemma pb_dec_bytes_safe:
  assumes quiet: "env_quiet env" and reg: "region dest (unat (f_data_size f)) \<subseteq> S"
    and static: "PB_ATYPE (f_type f) = PB_ATYPE_STATIC"
  shows "safe S st (pb_dec_bytes env st f dest)"
proof -
  obtain r st1 where c: "pb_decode_varint32 env st = (r, st1)" by (cases "pb_decode_varint32 env st") blast
  have rd: "reads st st1"
    using pb_decode_varint32_reads [OF quiet c] by (auto intro: consumes_reads split: if_splits)
  then have st1: "confined S (snd st) (snd st1)" "is_bytes_left (fst st1) \<le> is_bytes_left (fst st)"
    by (simp_all add: reads_def)
  show ?thesis
  proof (cases r)
    case None
    then show ?thesis using st1 c by (simp add: Let_def pb_dec_bytes_def)
  next
    case (Some n)
    have sum: "unat (ucast n + 4 :: u64) = unat n + 4"
      using unsigned_less [of n, where ?'a = nat] by (simp add: unat_plus_if')
    show ?thesis
    proof (cases "ucast (f_data_size f) < (ucast n + 4 :: u64)")
      case True
      then show ?thesis using st1 c Some static by (simp add: Let_def pb_dec_bytes_def)
    next
      case False
      then have le: "unat n + 4 \<le> unat (f_data_size f)" using sum by (simp add: word_less_nat_alt)
      then have "region (dest + 4) (unat (ucast n :: u64)) \<subseteq> region dest (unat (f_data_size f))"
        "region dest 4 \<subseteq> region dest (unat (f_data_size f))"
        using unat_u64_less [of "ucast (f_data_size f)"]
        by (auto intro!: region_shift_subset region_mono del: subsetI)
      then have "safe S st (Some (pb_read_mem env (dest + 4) (ucast n) (on_c (put_size dest n) st1)))"
        using reg st1 by (intro safe_read_mem' [OF quiet])
          (auto intro!: confined_trans [OF st1(1)] confined_put del: subsetI)
      then show ?thesis
        using c Some static False sum by (simp add: Let_def pb_dec_bytes_def word_less_nat_alt)
    qed
  qed
qed

lemma pb_dec_string_safe:
  assumes quiet: "env_quiet env" and reg: "region dest (unat (f_data_size f)) \<subseteq> S"
    and static: "PB_ATYPE (f_type f) = PB_ATYPE_STATIC"
  shows "safe S st (pb_dec_string env st f dest)"
proof -
  obtain r st1 where c: "pb_decode_varint32 env st = (r, st1)" by (cases "pb_decode_varint32 env st") blast
  have rd: "reads st st1"
    using pb_decode_varint32_reads [OF quiet c] by (auto intro: consumes_reads split: if_splits)
  then have st1: "confined S (snd st) (snd st1)" "is_bytes_left (fst st1) \<le> is_bytes_left (fst st)"
    by (simp_all add: reads_def)
  show ?thesis
  proof (cases r)
    case None
    then show ?thesis using st1 c by (simp add: Let_def pb_dec_string_def)
  next
    case (Some n)
    show ?thesis
    proof (cases "ucast (n + 1) < (ucast n :: u64) \<or> ucast (f_data_size f) < (ucast (n + 1) :: u64)")
      case True
      then show ?thesis using st1 c Some static by (auto simp: Let_def pb_dec_string_def)
    next
      case False
      then have "unat n \<le> unat (n + 1)" and le1: "unat (n + 1) \<le> unat (f_data_size f)"
        by (simp_all add: word_less_nat_alt)
      then have "unat (n + 1) = unat n + 1"
        by (auto simp: unat_plus_if' split: if_splits)
      then have le: "unat n + 1 \<le> unat (f_data_size f)" using le1 by simp
      then have sub: "region dest (unat (ucast n :: u64)) \<subseteq> region dest (unat (f_data_size f))"
        "region (dest + ucast n) 1 \<subseteq> region dest (unat (f_data_size f))"
        using unat_u64_less [of "ucast (f_data_size f)"]
        by (auto intro!: region_shift_subset region_mono del: subsetI)
      then have "safe S st (Some (case pb_read_mem env dest (ucast n) st1 of
          (ok, st2) \<Rightarrow> (ok, on_c (put (dest + ucast n) 1 (0 :: byte)) st2)))"
        using reg st1 by (intro safe_read_mem [OF quiet]) (auto intro!: confined_put del: subsetI)
      then show ?thesis
        using c Some static False by (simp add: Let_def pb_dec_string_def)
    qed
  qed
qed

lemma pb_dec_fixed_length_bytes_safe:
  assumes quiet: "env_quiet env" and reg: "region dest (unat (f_data_size f)) \<subseteq> S"
  shows "safe S st (Some (pb_dec_fixed_length_bytes env st f dest))"
proof -
  obtain r st1 where c: "pb_decode_varint32 env st = (r, st1)" by (cases "pb_decode_varint32 env st") blast
  have rd: "reads st st1"
    using pb_decode_varint32_reads [OF quiet c] by (auto intro: consumes_reads split: if_splits)
  then have st1: "confined S (snd st) (snd st1)" "is_bytes_left (fst st1) \<le> is_bytes_left (fst st)"
    by (simp_all add: reads_def)
  have memset: "confined S (snd st1) (memset dest 0 (ucast (f_data_size f)) (snd st1))"
    using reg by (intro confined_memset) simp
  have "safe S st (Some (pb_read_mem env dest (ucast (f_data_size f)) st1))"
    using reg st1 by (intro safe_read_mem' [OF quiet]) auto
  then show ?thesis
    using st1 c confined_trans [OF st1(1) memset]
    by (cases r) (simp_all add: pb_dec_fixed_length_bytes_def)
qed

section \<open>Static fields, given a safe inner decoder\<close>

locale safe_inner =
  fixes env :: pb_env and n :: nat and inner :: pb_msg_decoder
  assumes inner_safe: "env_quiet env \<Longrightarrow> static_message env n fs sz \<Longrightarrow> NULL \<notin> region d sz \<Longrightarrow>
      safe (region d sz \<union> frames env n) st (inner fs d st)"
begin

lemma pb_decode_with_safe:
  assumes "env_quiet env" "static_message env n fs sz" "NULL \<notin> region d sz"
  shows "safe (region d sz \<union> frames env n) st (pb_decode_with env n inner fs d st)"
proof -
  let ?S = "region d sz \<union> frames env n"
  obtain c1 where c1: "pb_message_set_to_defaults env n fs d (snd st) = Some c1"
    "confined ?S (snd st) c1"
    using pb_message_set_to_defaults_static [OF assms(2,3)] confined_mono [of "region d sz" _ _ ?S] by blast
  obtain ok st2 where st2: "inner fs d (fst st, c1) = Some (ok, st2)" "confined ?S c1 (snd st2)"
    "is_bytes_left (fst st2) \<le> is_bytes_left (fst st)"
    using inner_safe [OF assms, of "(fst st, c1)"] by (auto elim!: safeE)
  show ?thesis
    using c1 st2 confined_trans [OF c1(2) st2(2)] pb_release_static(1) [OF assms(2)]
    by (simp add: pb_decode_with_def)
qed

end

definition static_elem :: "pb_env \<Rightarrow> nat \<Rightarrow> pb_field \<Rightarrow> bool" where
  "static_elem env n f \<longleftrightarrow>
     PB_ATYPE (f_type f) = PB_ATYPE_STATIC \<and> min_size f \<le> unat (f_data_size f) \<and>
     PB_LTYPE (f_type f) \<le> PB_LTYPE_FIXED_LENGTH_BYTES \<and> PB_LTYPE (f_type f) \<noteq> PB_LTYPE_EXTENSION \<and>
     (PB_LTYPE (f_type f) = PB_LTYPE_SUBMESSAGE \<longrightarrow> f_ptr f \<noteq> NULL \<and>
        static_message env n (env_fields env (f_ptr f)) (unat (f_data_size f)))"

lemma static_message_elem:
  "static_message env (Suc n) fs sz \<Longrightarrow> k < n_entries fs \<Longrightarrow> static_elem env n (field_at fs k)"
  by (auto simp: static_elem_def static_field_def Let_def)

lemma ltype_cases:
  fixes t :: pb_type_t
  assumes "t \<le> PB_LTYPE_FIXED_LENGTH_BYTES"
  obtains "t = 0" | "t = 1" | "t = 2" | "t = 3" | "t = 4" | "t = 5" | "t = 6" | "t = 7" | "t = 8" | "t = 9" | "t = 10"
proof -
  have "unat t \<le> 10" using assms by (simp add: word_le_nat_alt)
  then have "unat t = 0 \<or> unat t = 1 \<or> unat t = 2 \<or> unat t = 3 \<or> unat t = 4 \<or> unat t = 5 \<or>
      unat t = 6 \<or> unat t = 7 \<or> unat t = 8 \<or> unat t = 9 \<or> unat t = 10"
    by presburger
  moreover have "t = of_nat k" if "unat t = k" for k
    using that by auto
  ultimately show ?thesis using that by (elim disjE) fastforce+
qed

context safe_inner
begin

lemma pb_dec_submessage_safe:
  assumes quiet: "env_quiet env" and elem: "static_elem env n f"
    and ltype: "PB_LTYPE (f_type f) = PB_LTYPE_SUBMESSAGE"
    and null: "NULL \<notin> region a (unat (f_data_size f))"
    and S: "region a (unat (f_data_size f)) \<subseteq> S" "frames env n \<subseteq> S"
  shows "safe S st (pb_dec_submessage env n inner st f a)"
proof -
  have sub: "static_message env n (env_fields env (f_ptr f)) (unat (f_data_size f))" "f_ptr f \<noteq> NULL"
    using elem ltype by (auto simp: static_elem_def)
  obtain r st1 where c: "pb_make_string_substream env st = (r, st1)"
    by (cases "pb_make_string_substream env st") blast
  have st1: "confined S (snd st) (snd st1)" "is_bytes_left (fst st1) \<le> is_bytes_left (fst st)"
    using pb_make_string_substream_reads [OF quiet c]
    by (auto simp: reads_def consumes_def split: if_splits)
  show ?thesis
  proof (cases r)
    case None
    then show ?thesis using c st1 by (simp add: pb_dec_submessage_def)
  next
    case (Some s)
    have S': "region a (unat (f_data_size f)) \<union> frames env n \<subseteq> S" using S by blast
    note in_safe = safe_mono [OF pb_decode_with_safe [OF quiet sub(1) null, of "(s, snd st1)"] S']
      safe_mono [OF inner_safe [OF quiet sub(1) null, of "(s, snd st1)"] S']
    have "safe S (s, snd st1) (if PB_HTYPE (f_type f) = PB_HTYPE_REPEATED
        then pb_decode_with env n inner (env_fields env (f_ptr f)) a (s, snd st1)
        else inner (env_fields env (f_ptr f)) a (s, snd st1))" (is "safe S _ ?r")
      using in_safe by auto
    then obtain ok sub' where r: "?r = Some (ok, sub')" "confined S (snd st1) (snd sub')"
      by (auto elim!: safeE)
    obtain ok' st' where cl: "pb_close_string_substream env (fst st1) sub' = (ok', st')"
      by (cases "pb_close_string_substream env (fst st1) sub'") blast
    note close = pb_close_string_substream_reads [OF quiet cl]
    have "pb_dec_submessage env n inner st f a = Some (ok' \<and> ok, st')"
      using c Some sub(2) r(1) cl
      by (cases st1, cases "PB_HTYPE (f_type f) = PB_HTYPE_REPEATED") (simp_all add: pb_dec_submessage_def close_substream_def)
    then show ?thesis
      using close st1 confined_trans [OF st1(1) r(2)] by simp
  qed
qed

lemma PB_DECODERS_safe:
  assumes quiet: "env_quiet env" and elem: "static_elem env n f"
    and null: "NULL \<notin> region a (unat (f_data_size f))"
    and S: "region a (unat (f_data_size f)) \<subseteq> S" "frames env n \<subseteq> S"
  shows "safe S st (PB_DECODERS env n inner (PB_LTYPE (f_type f)) st f a)"
    "PB_LTYPE (f_type f) \<le> PB_LTYPE_LAST_PACKABLE \<Longrightarrow>
       takes S st (PB_DECODERS env n inner (PB_LTYPE (f_type f)) st f a)"
proof -
  have ty: "PB_LTYPE (f_type f) \<le> PB_LTYPE_FIXED_LENGTH_BYTES" "PB_LTYPE (f_type f) \<noteq> 9"
    "PB_ATYPE (f_type f) = PB_ATYPE_STATIC" "min_size f \<le> unat (f_data_size f)"
    using elem by (auto simp: static_elem_def)
  note scalar = scalar_takes [OF quiet S(1), of st]
  note deep = pb_dec_bytes_safe [OF quiet S(1) ty(3), of st] pb_dec_string_safe [OF quiet S(1) ty(3), of st]
    pb_dec_fixed_length_bytes_safe [OF quiet S(1), of st]
  show pack: "takes S st (PB_DECODERS env n inner (PB_LTYPE (f_type f)) st f a)"
    if "PB_LTYPE (f_type f) \<le> PB_LTYPE_LAST_PACKABLE"
    using ty(1)
  proof (cases rule: ltype_cases)
  qed (use ty scalar that in \<open>simp_all add: PB_DECODERS_def min_size_def del: takes_Some\<close>)
  show "safe S st (PB_DECODERS env n inner (PB_LTYPE (f_type f)) st f a)"
    using ty(1)
  proof (cases rule: ltype_cases)
    case 9
    then show ?thesis
      using pb_dec_submessage_safe [OF quiet elem _ null S, of st] by (simp add: PB_DECODERS_def)
  qed (use ty pack [THEN takes_safe] deep in \<open>simp_all add: PB_DECODERS_def del: safe_Some\<close>)
qed

end

lemma htype_cases:
  obtains "PB_HTYPE t = PB_HTYPE_REQUIRED" | "PB_HTYPE t = PB_HTYPE_OPTIONAL"
    | "PB_HTYPE t = PB_HTYPE_REPEATED" | "PB_HTYPE t = PB_HTYPE_ONEOF"
proof -
  have "t AND 0x30 = (if bit t 4 then if bit t 5 then 0x30 else 0x10 else if bit t 5 then 0x20 else 0)"
    by (rule bit_word_eqI) (auto simp: bit_and_iff bit_numeral_word_iff)
  then show ?thesis using that by (auto simp: PB_HTYPE_def split: if_splits)
qed

lemma item_region:
  assumes "data_len f < 2 ^ 32" "PB_HTYPE (f_type f) = PB_HTYPE_REPEATED" "m < f_array_size f"
  shows "region (item_addr base f m) (unat (f_data_size f)) \<subseteq> region base (data_len f)"
proof -
  have "unat m + 1 \<le> unat (f_array_size f)" using assms(3) by (simp add: word_less_nat_alt)
  then have "unat (f_data_size f) * (unat m + 1) \<le> data_len f"
    using assms(2) mult_le_mono2 [of "unat m + 1" _ "unat (f_data_size f)"] by (simp add: data_len_def)
  then have le: "unat (f_data_size f) * unat m + unat (f_data_size f) \<le> data_len f"
    by (simp add: distrib_left)
  then have "unat (f_data_size f * m) = unat (f_data_size f) * unat m"
    using assms(1) by (simp add: unat_mult_lem [symmetric])
  then show ?thesis
    using le assms(1) unfolding item_addr_def by (intro region_shift_subset) simp_all
qed

lemma static_packed_loop_safe:
  assumes func: "\<And>m st. m < f_array_size (cur_field it) \<Longrightarrow>
      takes S st (func st (cur_field it) (item_addr (i_pData it) (cur_field it) m))"
    and size: "region (i_pSize it) 4 \<subseteq> S"
  shows "safe S st (static_packed_loop func it st)"
proof (induction st rule: measure_induct_rule [of "\<lambda>st. unat (is_bytes_left (fst st))"])
  case (less st)
  let ?f = "cur_field it" and ?m = "get_size (i_pSize it) (snd st) :: u32"
  show ?case
  proof (cases "0 < is_bytes_left (fst st) \<and> ?m < f_array_size ?f")
    case False
    then show ?thesis by (subst static_packed_loop.simps) (auto simp: Let_def)
  next
    case True
    obtain ok st1 where st1: "func st ?f (item_addr (i_pData it) ?f ?m) = Some (ok, st1)"
      "confined S (snd st) (snd st1)" "is_bytes_left (fst st1) \<le> is_bytes_left (fst st)"
      "ok \<Longrightarrow> is_bytes_left (fst st1) < is_bytes_left (fst st)"
      using func True by (blast elim: takesE)
    show ?thesis
    proof (cases ok)
      case False
      then show ?thesis using True st1 by (subst static_packed_loop.simps) (simp add: Let_def)
    next
      case ok: True
      let ?st2 = "on_c (\<lambda>c. put_size (i_pSize it) (get_size (i_pSize it) c + 1) c) st1"
      have c2: "confined S (snd st) (snd ?st2)"
        using confined_trans [OF st1(2) confined_put [OF size]] by simp
      have "safe S ?st2 (static_packed_loop func it ?st2)"
        using st1(4) ok by (intro less.IH) (simp add: word_less_nat_alt)
      then have "safe S st (static_packed_loop func it ?st2)"
        by (rule safe_after [OF _ c2]) (use st1 in simp)
      then show ?thesis using True st1 ok by (subst static_packed_loop.simps) (simp add: Let_def)
    qed
  qed
qed

context safe_inner
begin

lemma decode_static_repeated_safe:
  assumes quiet: "env_quiet env"
    and func: "\<And>m st. m < f_array_size (cur_field it) \<Longrightarrow>
      safe S st (func st (cur_field it) (item_addr (i_pData it) (cur_field it) m))"
    and pack: "\<And>m st. PB_LTYPE (f_type (cur_field it)) \<le> PB_LTYPE_LAST_PACKABLE \<Longrightarrow> m < f_array_size (cur_field it) \<Longrightarrow>
      takes S st (func st (cur_field it) (item_addr (i_pData it) (cur_field it) m))"
    and size: "region (i_pSize it) 4 \<subseteq> S"
  shows "safe S st (decode_static_repeated env func wt it st)"
proof (cases "wt = PB_WT_STRING \<and> PB_LTYPE (f_type (cur_field it)) \<le> PB_LTYPE_LAST_PACKABLE")
  case True
  obtain r st1 where c: "pb_make_string_substream env st = (r, st1)"
    by (cases "pb_make_string_substream env st") blast
  have st1: "confined S (snd st) (snd st1)" "is_bytes_left (fst st1) \<le> is_bytes_left (fst st)"
    using pb_make_string_substream_reads [OF quiet c]
    by (auto simp: reads_def consumes_def split: if_splits)
  show ?thesis
  proof (cases r)
    case None
    then show ?thesis using c st1 True by (simp add: decode_static_repeated_def Let_def)
  next
    case (Some s)
    have "safe S (s, snd st1) (static_packed_loop func it (s, snd st1))"
      by (rule static_packed_loop_safe) (use pack size True in auto)
    then obtain ok sub' where r: "static_packed_loop func it (s, snd st1) = Some (ok, sub')"
      "confined S (snd st1) (snd sub')"
      by (auto elim!: safeE)
    obtain ok' st' where cl: "pb_close_string_substream env (fst st1) sub' = (ok', st')"
      by (cases "pb_close_string_substream env (fst st1) sub'") blast
    note close = pb_close_string_substream_reads [OF quiet cl]
    have "decode_static_repeated env func wt it st =
      (if is_bytes_left (fst sub') \<noteq> 0
       then Some (False, is_set_error ''array overflow'' (fst st1, snd sub')) else Some (ok' \<and> ok, st'))"
      using c Some r(1) cl True by (cases st1) (simp add: decode_static_repeated_def close_substream_def Let_def)
    then show ?thesis
      using close st1 confined_trans [OF st1(1) r(2)] by simp
  qed
next
  case False
  let ?m = "get_size (i_pSize it) (snd st) :: u32"
  let ?st1 = "on_c (put_size (i_pSize it) (?m + 1)) st"
  have st1: "confined S (snd st) (snd ?st1)" using confined_put [OF size] by simp
  have eq: "decode_static_repeated env func wt it st =
    (if f_array_size (cur_field it) \<le> ?m then Some (False, is_set_error ''array overflow'' ?st1)
     else func ?st1 (cur_field it) (item_addr (i_pData it) (cur_field it) ?m))"
    using False by (auto simp: decode_static_repeated_def Let_def)
  show ?thesis
  proof (cases "f_array_size (cur_field it) \<le> ?m")
    case True
    then show ?thesis using st1 by (simp add: eq)
  next
    case over: False
    have "safe S st (func ?st1 (cur_field it) (item_addr (i_pData it) (cur_field it) ?m))"
      by (rule safe_after [OF func st1]) (use over in \<open>simp_all add: not_le\<close>)
    then show ?thesis using over by (simp add: eq)
  qed
qed

lemma decode_static_field_safe:
  assumes quiet: "env_quiet env" and msg: "static_message env (Suc n) fs sz"
    and it: "iter_ok fs d (env_frame env n) k it" and null: "NULL \<notin> region d sz"
  shows "safe (region d sz \<union> frames env (Suc n)) st (decode_static_field env n inner wt it st)"
proof -
  let ?S = "region d sz \<union> frames env (Suc n)" and ?f = "field_at fs k"
  note it_sel = iter_okD [OF it]
  note k = it_sel(1)
  have d: "d \<noteq> NULL" by (rule not_NULL_struct [OF null static_message_pos [OF msg]])
  note fld = static_message_field [OF msg k]
  note elem = static_message_elem [OF msg k]
  note reg = static_field_regions [OF fld(2) d fld(3)]
  have frames: "frames env n \<subseteq> ?S" by (auto simp: frames_Suc)
  have data: "region (i_pData it) (data_len ?f) \<subseteq> region d sz" using reg(1) it_sel by simp
  have size: "PB_HTYPE (f_type ?f) = PB_HTYPE_REPEATED \<or> PB_HTYPE (f_type ?f) = PB_HTYPE_ONEOF \<Longrightarrow>
      region (i_pSize it) 4 \<subseteq> ?S"
    using reg(2) it_sel(7) by (auto simp: frames_Suc)
  have one: "region (i_pData it) (unat (f_data_size ?f)) \<subseteq> region d sz" if "PB_HTYPE (f_type ?f) \<noteq> PB_HTYPE_REPEATED"
    using data that by (simp add: data_len_def)
  have dec: "safe ?S st (PB_DECODERS env n inner (PB_LTYPE (f_type ?f)) st ?f a)"
    "PB_LTYPE (f_type ?f) \<le> PB_LTYPE_LAST_PACKABLE \<Longrightarrow> takes ?S st (PB_DECODERS env n inner (PB_LTYPE (f_type ?f)) st ?f a)"
    if "region a (unat (f_data_size ?f)) \<subseteq> region d sz" for a st
    using that null frames by (intro PB_DECODERS_safe [OF quiet elem]; blast)+
  show ?thesis
  proof (cases rule: htype_cases [of "f_type ?f"])
    case 1
    then show ?thesis
      using dec(1) [OF one] it_sel by (simp add: decode_static_field_def Let_def)
  next
    case 2
    let ?st1 = "if i_pSize it \<noteq> i_pData it then on_c (put_bool (i_pSize it) True) st else st"
    have conf: "confined ?S (snd st) (snd ?st1)"
      using 2 reg(3) it_sel(5,7) by (auto intro!: confined_put_bool)
    have "safe ?S st (PB_DECODERS env n inner (PB_LTYPE (f_type ?f)) ?st1 ?f (i_pData it))"
      by (rule safe_after [OF dec(1) [OF one] conf]) (use 2 in simp_all)
    then show ?thesis using 2 it_sel by (simp add: decode_static_field_def Let_def)
  next
    case 3
    have item: "region (item_addr (i_pData it) ?f m) (unat (f_data_size ?f)) \<subseteq> region d sz"
      if "m < f_array_size ?f" for m
      using item_region [OF _ 3 that, of "i_pData it"] fld(2) data by (auto simp: static_field_def Let_def)
    have "safe ?S st (decode_static_repeated env (PB_DECODERS env n inner (PB_LTYPE (f_type ?f))) wt it st)"
      by (rule decode_static_repeated_safe [OF quiet]) (use dec [OF item] size 3 it_sel in simp_all)
    then show ?thesis using 3 it_sel by (simp add: decode_static_field_def Let_def)
  next
    case 4
    let ?init = "if PB_LTYPE (f_type ?f) = PB_LTYPE_SUBMESSAGE \<and> get_size (i_pSize it) (snd st) \<noteq> f_tag ?f
      then pb_message_set_to_defaults env n (env_fields env (f_ptr ?f)) (i_pData it)
             (memset (i_pData it) 0 (ucast (f_data_size ?f)) (snd st))
      else Some (snd st)"
    have one': "region (i_pData it) (unat (f_data_size ?f)) \<subseteq> region d sz" using one 4 by simp
    have "\<exists>c1. ?init = Some c1 \<and> confined ?S (snd st) c1"
    proof (cases "PB_LTYPE (f_type ?f) = PB_LTYPE_SUBMESSAGE \<and> get_size (i_pSize it) (snd st) \<noteq> f_tag ?f")
      case True
      let ?c0 = "memset (i_pData it) 0 (ucast (f_data_size ?f)) (snd st)"
      have c0: "confined (region d sz) (snd st) ?c0"
        using one' by (intro confined_memset) simp
      have "static_message env n (env_fields env (f_ptr ?f)) (unat (f_data_size ?f))"
        using elem True by (simp add: static_elem_def)
      then obtain c1 where "pb_message_set_to_defaults env n (env_fields env (f_ptr ?f)) (i_pData it) ?c0 = Some c1"
        "confined (region (i_pData it) (unat (f_data_size ?f))) ?c0 c1"
        using pb_message_set_to_defaults_static one' null by blast
      moreover from this(2) have "confined ?S (snd st) c1"
        using confined_trans [OF c0 confined_mono [OF _ one']] confined_mono by blast
      ultimately show ?thesis using True by simp
    next
      case False
      then show ?thesis unfolding if_not_P [OF False] by blast
    qed
    then obtain c1 where c1: "?init = Some c1" "confined ?S (snd st) c1" by blast
    let ?st1 = "(fst st, put_size (i_pSize it) (f_tag ?f) c1)"
    have conf: "confined ?S (snd st) (snd ?st1)"
      using confined_trans [OF c1(2) confined_put [OF size]] 4 by simp
    have "safe ?S st (PB_DECODERS env n inner (PB_LTYPE (f_type ?f)) ?st1 ?f (i_pData it))"
      by (rule safe_after [OF dec(1) [OF one] conf]) (use 4 in simp_all)
    then show ?thesis using 4 it_sel c1(1) by (simp add: decode_static_field_def Let_def)
  qed
qed

end

lemma pb_decode_tag_bound:
  assumes "pb_decode_tag env st = (t, st')"
  shows "tr_tag t < - 1"
proof -
  have "unat (drop_bit 3 w) < 2 ^ 29" for w :: u32
    unfolding unat_less_exp_iff by (auto simp: bit_drop_bit_eq dest: bit_imp_le_length)
  then have "unat (drop_bit 3 w) < 2 ^ 32 - 1" for w :: u32
    by (rule order_less_trans) simp
  then have "drop_bit 3 w < - 1" for w :: u32
    unfolding word_less_nat_alt by (simp add: unsigned_minus_1_eq_mask mask_eq_exp_minus_1)
  moreover have "(0 :: u32) < - 1" by (simp add: word_less_nat_alt unsigned_minus_1_eq_mask mask_eq_exp_minus_1)
  ultimately show ?thesis
    using assms unfolding pb_decode_tag_def by (auto split: option.splits prod.splits if_splits)
qed

text \<open>What the release of an old union member does to the decoder of a static message: it moves the iterator.\<close>

lemma pb_release_union_field_static:
  assumes msg: "static_message env (Suc n) fs sz" and k: "k < n_entries fs"
  shows "\<exists>ok j st'. pb_release_union_field env n (iter_at fs d k) st = Some (ok, iter_at fs d j, st') \<and>
    j < n_entries fs \<and> snd st' = snd st \<and> is_bytes_left (fst st') = is_bytes_left (fst st)"
proof -
  note wf = static_message_wf [OF msg, THEN conjunct1]
  let ?old = "get_size (i_pSize (iter_at fs d k)) (snd st)" and ?new = "f_tag (field_at fs k)"
  obtain j1 b1 where j1: "j1 < n_entries fs" "pb_field_iter_find (iter_at fs d k) ?old = Some (b1, iter_at fs d j1)"
    using pb_field_iter_find_at [OF wf k, of d ?old] by blast
  obtain j2 b2 where j2: "j2 < n_entries fs" "pb_field_iter_find (iter_at fs d j1) ?new = Some (b2, iter_at fs d j2)"
    using pb_field_iter_find_at [OF wf j1(1), of d ?new] by blast
  note rel = pb_release_static(2) [OF msg j1(1), of d "snd st"]
  have static: "PB_ATYPE (f_type (field_at fs j2)) \<noteq> PB_ATYPE_POINTER"
    using static_field_atype(1) [OF static_message_field(2) [OF msg j2(1)]] by simp
  define r where "r = (if ?old = 0 \<or> ?old = ?new then (True, k, st)
    else if \<not> b1 then (False, j1, is_set_error ''invalid union tag'' st)
    else if \<not> b2 then (False, j2, is_set_error ''iterator error'' st) else (True, j2, st))"
  obtain ok j st' where ok: "r = (ok, j, st')" by (cases r) blast
  have "pb_release_union_field env n (iter_at fs d k) st = Some (ok, iter_at fs d j, st')"
    using ok static rel j1(2) j2(2)
    by (auto simp: pb_release_union_field_def Let_def r_def simp del: pb_release_single_field.simps split: if_splits)
  moreover have "j < n_entries fs" "snd st' = snd st" "is_bytes_left (fst st') = is_bytes_left (fst st)"
    using ok k j1(1) j2(1) by (auto simp: r_def split: if_splits)
  ultimately show ?thesis by blast
qed

text \<open>The walk to the end of the field array ends.\<close>

lemma req_walk_total:
  assumes wf: "wf_fields fs"
  shows "iter_ok fs d frame k it \<Longrightarrow> \<exists>r. req_walk it = Some r"
proof (induction "n_entries fs - k" arbitrary: k it)
  case 0
  then show ?case by (simp add: iter_ok_def)
next
  case (Suc m)
  note k = iter_okD [OF Suc.prems]
  have "Suc k < length fs" using k(1) by (simp add: n_entries_def)
  note nxt = pb_field_iter_next_at [OF wf this, of d]
  show ?case
  proof (cases "Suc (Suc k) = length fs")
    case True
    then show ?thesis
      using nxt pb_field_iter_next_ok [OF wf Suc.prems] by (subst req_walk.simps) simp
  next
    case False
    have "Suc k < n_entries fs" using k(1) False by (auto simp: n_entries_def)
    then have "\<exists>r. req_walk (iter_at fs d (Suc k)) = Some r"
      using Suc.hyps(1) [of "Suc k" "iter_at fs d (Suc k)"] Suc.hyps(2) by (simp add: iter_ok_def)
    then show ?thesis
      using nxt False pb_field_iter_next_ok [OF wf Suc.prems] by (subst req_walk.simps) simp
  qed
qed

lemma required_count_total:
  assumes "wf_fields fs" "iter_ok fs d frame k it"
  shows "\<exists>cnt. required_count it = Some cnt"
  using req_walk_total [OF assms] by (auto simp: required_count_def Let_def)

context safe_inner
begin

lemma decode_field_safe:
  assumes quiet: "env_quiet env" and msg: "static_message env (Suc n) fs sz"
    and it: "iter_ok fs d (env_frame env n) k it" and null: "NULL \<notin> region d sz"
  shows "\<exists>ok it' st' j. decode_field env n inner wt it st = Some (ok, it', st') \<and>
    iter_ok fs d (env_frame env n) j it' \<and>
    confined (region d sz \<union> frames env (Suc n)) (snd st) (snd st') \<and>
    is_bytes_left (fst st') \<le> is_bytes_left (fst st)"
proof -
  let ?pre = "if PB_HTYPE (f_type (cur_field it)) = PB_HTYPE_ONEOF
    then pb_release_union_field env n it st else Some (True, it, st)"
  have "\<exists>ok it1 j st1. ?pre = Some (ok, it1, st1) \<and> iter_ok fs d (env_frame env n) j it1 \<and>
      snd st1 = snd st \<and> is_bytes_left (fst st1) = is_bytes_left (fst st)"
  proof (cases "PB_HTYPE (f_type (cur_field it)) = PB_HTYPE_ONEOF")
    case True
    then have at: "it = iter_at fs d k" "k < n_entries fs" using it by (auto simp: iter_ok_def)
    obtain ok j st' where "pb_release_union_field env n (iter_at fs d k) st = Some (ok, iter_at fs d j, st')"
      "j < n_entries fs" "snd st' = snd st" "is_bytes_left (fst st') = is_bytes_left (fst st)"
      using pb_release_union_field_static [OF msg at(2), of d st] by blast
    moreover from this(2) have "iter_ok fs d (env_frame env n) j (iter_at fs d j)"
      by (simp add: iter_ok_def)
    ultimately show ?thesis using True at(1) by fastforce
  next
    case False
    then show ?thesis using it by auto
  qed
  then obtain ok it1 j st1 where pre: "?pre = Some (ok, it1, st1)" "iter_ok fs d (env_frame env n) j it1"
    "snd st1 = snd st" "is_bytes_left (fst st1) = is_bytes_left (fst st)"
    by blast
  have static: "PB_ATYPE (f_type (cur_field it1)) = PB_ATYPE_STATIC"
    using static_field_atype(1) [OF static_message_field(2) [OF msg]] iter_okD [OF pre(2)] by simp
  obtain ok' st2 where dec: "decode_static_field env n inner wt it1 st1 = Some (ok', st2)"
    "confined (region d sz \<union> frames env (Suc n)) (snd st1) (snd st2)"
    "is_bytes_left (fst st2) \<le> is_bytes_left (fst st1)"
    using decode_static_field_safe [OF quiet msg pre(2) null, of st1 wt] by (auto elim!: safeE)
  have "decode_field env n inner wt it st =
      (if ok then Some (ok', it1, st2) else Some (False, it1, st1))"
    unfolding decode_field_def pre(1) using static dec(1) by (simp add: Let_def)
  then show ?thesis using pre dec by (cases ok) auto
qed

definition ds_ok :: "pb_field list \<Rightarrow> addr \<Rightarrow> dec_state \<Rightarrow> bool" where
  "ds_ok fs d ds \<longleftrightarrow> (\<exists>k. iter_ok fs d (env_frame env n) k (ds_iter ds)) \<and>
     (ds_extension_range_start ds = 0 \<or> ds_extension_range_start ds = - 1)"

definition step_ok :: "pb_field list \<Rightarrow> addr \<Rightarrow> nat \<Rightarrow> ist \<Rightarrow> (loop_end \<times> dec_state \<times> ist) option \<Rightarrow> bool" where
  "step_ok fs d sz st r \<longleftrightarrow> (\<exists>e ds' st'. r = Some (e, ds', st') \<and> ds_ok fs d ds' \<and>
     confined (region d sz \<union> frames env (Suc n)) (snd st) (snd st') \<and>
     is_bytes_left (fst st') \<le> is_bytes_left (fst st))"

lemma decode_unknown_safe:
  assumes quiet: "env_quiet env" and msg: "static_message env (Suc n) fs sz"
    and ds: "ds_ok fs d ds" and tag: "tag < - 1"
  shows "step_ok fs d sz st (decode_unknown env n inner tag wt ds st)"
proof -
  note wf = static_message_wf [OF msg, THEN conjunct1]
  obtain k where it: "iter_ok fs d (env_frame env n) k (ds_iter ds)" using ds by (auto simp: ds_ok_def)
  have noext: "\<not> (\<exists>i < n_entries fs. PB_LTYPE (f_type (field_at fs i)) = PB_LTYPE_EXTENSION)"
    using static_field_atype(2) [OF static_message_field(2) [OF msg]] by auto
  obtain it' where find: "find_extension_field (ds_iter ds) = Some (False, it')"
    "iter_ok fs d (env_frame env n) k it'"
    using iter_search_ok [OF wf it, of "\<lambda>f. PB_LTYPE (f_type f) = PB_LTYPE_EXTENSION"] noext
    by (auto simp: find_extension_field_def)
  obtain ok st2 where skip: "pb_skip_field env wt st = (ok, st2)" by (cases "pb_skip_field env wt st") blast
  have rd: "reads st st2" by (rule pb_skip_field_reads [OF quiet skip])
  let ?ds1 = "if ds_extension_range_start ds \<le> tag
    then ds\<lparr>ds_iter := it', ds_extension_range_start := - 1\<rparr> else ds"
  have "\<not> (- 1 :: u32) \<le> tag" using tag by (simp add: not_le)
  then have "decode_unknown env n inner tag wt ds st = Some (if ok then Next else Fail, ?ds1, st2)"
    using find(1) skip by (simp add: decode_unknown_def)
  moreover have "ds_ok fs d ?ds1" using ds find(2) by (auto simp: ds_ok_def)
  ultimately show ?thesis using rd by (auto simp: step_ok_def reads_def)
qed

lemma fixed_count_start_ok:
  assumes ds: "ds_ok fs d ds"
  shows "\<exists>ok ds' st'. fixed_count_start env n ds st = (ok, ds', st') \<and> ds_ok fs d ds' \<and>
    confined (frames env (Suc n)) (snd st) (snd st') \<and> is_bytes_left (fst st') = is_bytes_left (fst st)"
proof -
  obtain k where it: "iter_ok fs d (env_frame env n) k (ds_iter ds)" using ds by (auto simp: ds_ok_def)
  have "iter_ok fs d (env_frame env n) k ((ds_iter ds)\<lparr>i_pSize := env_frame env n\<rparr>)"
    if "PB_HTYPE (f_type (cur_field (ds_iter ds))) = PB_HTYPE_REPEATED"
    using it that by (auto simp: iter_ok_def)
  then have "ds_ok fs d (ds\<lparr>ds_iter := (ds_iter ds)\<lparr>i_pSize := env_frame env n\<rparr>\<rparr>)"
    "ds_ok fs d (ds\<lparr>ds_fixed_count_field := x, ds_iter := (ds_iter ds)\<lparr>i_pSize := env_frame env n\<rparr>\<rparr>)"
    if "PB_HTYPE (f_type (cur_field (ds_iter ds))) = PB_HTYPE_REPEATED" for x
    using ds that by (auto simp: ds_ok_def)
  moreover have "confined (frames env (Suc n)) c (put_size (env_frame env n) 0 c)" for c
    by (rule confined_put) (auto simp: frames_Suc)
  moreover obtain ok ds' st' where eq: "fixed_count_start env n ds st = (ok, ds', st')"
    by (cases "fixed_count_start env n ds st") blast
  ultimately have "ds_ok fs d ds' \<and> confined (frames env (Suc n)) (snd st) (snd st') \<and>
      is_bytes_left (fst st') = is_bytes_left (fst st)"
    using ds by (auto simp: fixed_count_start_def Let_def split: if_splits)
  with eq show ?thesis by blast
qed

lemma mark_seen_ok: "ds_ok fs d ds \<Longrightarrow> ds_ok fs d (mark_seen ds)"
  by (simp add: ds_ok_def mark_seen_def Let_def)

lemma decode_step_safe:
  assumes quiet: "env_quiet env" and msg: "static_message env (Suc n) fs sz"
    and ds: "ds_ok fs d ds" and null: "NULL \<notin> region d sz"
  shows "\<exists>e ds' st'. decode_step env n inner ds st = Some (e, ds', st') \<and> ds_ok fs d ds' \<and>
    confined (region d sz \<union> frames env (Suc n)) (snd st) (snd st') \<and>
    is_bytes_left (fst st') \<le> is_bytes_left (fst st) \<and>
    (e = Next \<longrightarrow> is_bytes_left (fst st') < is_bytes_left (fst st))"
proof -
  let ?S = "region d sz \<union> frames env (Suc n)"
  note wf = static_message_wf [OF msg, THEN conjunct1]
  obtain k where it: "iter_ok fs d (env_frame env n) k (ds_iter ds)" using ds by (auto simp: ds_ok_def)
  obtain t st1 where tag: "pb_decode_tag env st = (t, st1)" by (cases "pb_decode_tag env st") blast
  note rd = pb_decode_tag_reads [OF quiet tag]
  show ?thesis
  proof (cases "tr_ok t")
    case False
    then show ?thesis using tag rd ds by (simp add: decode_step_def reads_def)
  next
    case True
    then have st1: "snd st1 = snd st" "is_bytes_left (fst st1) < is_bytes_left (fst st)"
      using rd by (simp_all add: consumes_def)
    have lt: "is_bytes_left (fst st2) < is_bytes_left (fst st)"
      if "is_bytes_left (fst st2) \<le> is_bytes_left (fst st1)" for st2 :: ist
      using that st1(2) by (rule order_le_less_trans)
    obtain found it1 j where find: "pb_field_iter_find (ds_iter ds) (tr_tag t) = Some (found, it1)"
      "iter_ok fs d (env_frame env n) j it1"
      using iter_search_ok [OF wf it, of "field_matches (tr_tag t)"] by (auto simp: pb_field_iter_find_def)
    have ds1: "ds_ok fs d (ds\<lparr>ds_iter := it1\<rparr>)" using ds find(2) by (auto simp: ds_ok_def)
    show ?thesis
    proof (cases found)
      case False
      have "step_ok fs d sz st1 (decode_unknown env n inner (tr_tag t) (tr_wire_type t) (ds\<lparr>ds_iter := it1\<rparr>) st1)"
        by (rule decode_unknown_safe [OF quiet msg ds1 pb_decode_tag_bound [OF tag]])
      then show ?thesis
        using tag True find(1) False st1 lt
        by (fastforce simp: decode_step_def step_ok_def intro: order_less_imp_le)
    next
      case found: True
      obtain ok ds2 st2 where fx: "fixed_count_start env n (ds\<lparr>ds_iter := it1\<rparr>) st1 = (ok, ds2, st2)"
        "ds_ok fs d ds2" "confined (frames env (Suc n)) (snd st1) (snd st2)"
        "is_bytes_left (fst st2) = is_bytes_left (fst st1)"
        using fixed_count_start_ok [OF ds1, of st1] by blast
      have c2: "confined ?S (snd st) (snd st2)" using fx(3) st1(1) by (auto intro: confined_mono)
      show ?thesis
      proof (cases ok)
        case False
        then show ?thesis
          using tag True find(1) found fx c2 lt [of st2]
          by (simp add: decode_step_def order_less_imp_le)
      next
        case ok: True
        have ds3: "ds_ok fs d (mark_seen ds2)" by (rule mark_seen_ok [OF fx(2)])
        then obtain k3 where k3: "iter_ok fs d (env_frame env n) k3 (ds_iter (mark_seen ds2))"
          by (auto simp: ds_ok_def)
        obtain ok' it' st4 j' where dec: "decode_field env n inner (tr_wire_type t) (ds_iter (mark_seen ds2)) st2 = Some (ok', it', st4)"
          "iter_ok fs d (env_frame env n) j' it'" "confined ?S (snd st2) (snd st4)"
          "is_bytes_left (fst st4) \<le> is_bytes_left (fst st2)"
          using decode_field_safe [OF quiet msg k3 null, of "tr_wire_type t" st2] by blast
        have "ds_ok fs d ((mark_seen ds2)\<lparr>ds_iter := it'\<rparr>)" using ds3 dec(2) by (auto simp: ds_ok_def)
        then show ?thesis
          using tag True find(1) found fx(1,4) ok dec lt [of st4] confined_trans [OF c2 dec(3)]
          by (simp add: decode_step_def Let_def order_less_imp_le)
      qed
    qed
  qed
qed

lemma decode_loop_safe:
  assumes quiet: "env_quiet env" and msg: "static_message env (Suc n) fs sz"
    and null: "NULL \<notin> region d sz"
  shows "ds_ok fs d ds \<Longrightarrow> \<exists>ok ds' st'. decode_loop (decode_step env n inner) ds st = Some (ok, ds', st') \<and>
    ds_ok fs d ds' \<and> confined (region d sz \<union> frames env (Suc n)) (snd st) (snd st') \<and>
    is_bytes_left (fst st') \<le> is_bytes_left (fst st)"
proof (induction st arbitrary: ds rule: measure_induct_rule [of "\<lambda>st. unat (is_bytes_left (fst st))"])
  case (less st)
  let ?S = "region d sz \<union> frames env (Suc n)"
  show ?case
  proof (cases "is_bytes_left (fst st) = 0")
    case True
    then have "decode_loop (decode_step env n inner) ds st = Some (True, ds, st)"
      by (subst decode_loop.simps) simp
    then show ?thesis using less.prems by blast
  next
    case left: False
    obtain e ds1 st1 where step: "decode_step env n inner ds st = Some (e, ds1, st1)" "ds_ok fs d ds1"
      "confined ?S (snd st) (snd st1)" "is_bytes_left (fst st1) \<le> is_bytes_left (fst st)"
      "e = Next \<Longrightarrow> is_bytes_left (fst st1) < is_bytes_left (fst st)"
      using decode_step_safe [OF quiet msg less.prems null, of st] by blast
    show ?thesis
    proof (cases e)
      case Next
      then have "unat (is_bytes_left (fst st1)) < unat (is_bytes_left (fst st))"
        using step(5) by (simp add: word_less_nat_alt)
      from less.IH [OF this step(2)] obtain ok ds' st' where
        "decode_loop (decode_step env n inner) ds1 st1 = Some (ok, ds', st')" "ds_ok fs d ds'"
        "confined ?S (snd st1) (snd st')" "is_bytes_left (fst st') \<le> is_bytes_left (fst st1)"
        by blast
      moreover have "decode_loop (decode_step env n inner) ds st = decode_loop (decode_step env n inner) ds1 st1"
        using left step(1) Next by (subst decode_loop.simps) simp
      ultimately show ?thesis
        using confined_trans [OF step(3)] order_trans [OF _ step(4)] by auto
    next
      case Break
      then have "decode_loop (decode_step env n inner) ds st = Some (True, ds1, st1)"
        using left step(1) by (subst decode_loop.simps) simp
      then show ?thesis using step by blast
    next
      case Fail
      then have "decode_loop (decode_step env n inner) ds st = Some (False, ds1, st1)"
        using left step(1) by (subst decode_loop.simps) simp
      then show ?thesis using step by blast
    qed
  qed
qed

lemma decode_message_safe:
  assumes quiet: "env_quiet env" and msg: "static_message env (Suc n) fs sz"
    and null: "NULL \<notin> region d sz"
  shows "safe (region d sz \<union> frames env (Suc n)) st (decode_message env n inner fs d st)"
proof -
  let ?S = "region d sz \<union> frames env (Suc n)"
  let ?ds = "\<lparr>ds_iter = iter_at fs d 0, ds_fields_seen = [0, 0], ds_extension_range_start = 0,
    ds_fixed_count_field = None\<rparr> :: dec_state"
  let ?st = "on_c (put_size (env_frame env n) 0) st"
  have wf: "wf_fields fs" "0 < n_entries fs" using static_message_wf [OF msg] by auto
  have "ds_ok fs d ?ds" using wf(2) by (auto simp: ds_ok_def iter_ok_def)
  then obtain ok ds1 st1 where loop: "decode_loop (decode_step env n inner) ?ds ?st = Some (ok, ds1, st1)"
    "ds_ok fs d ds1" "confined ?S (snd ?st) (snd st1)" "is_bytes_left (fst st1) \<le> is_bytes_left (fst ?st)"
    using decode_loop_safe [OF quiet msg null, of ?ds ?st] by blast
  obtain k where "iter_ok fs d (env_frame env n) k (ds_iter ds1)" using loop(2) by (auto simp: ds_ok_def)
  then obtain cnt where cnt: "required_count (ds_iter ds1) = Some cnt"
    using required_count_total [OF wf(1)] by blast
  have frame: "confined ?S (snd st) (snd ?st)"
    by (simp, rule confined_put) (auto simp: frames_Suc)
  show ?thesis
    using loop cnt confined_trans [OF frame loop(3)]
    by (simp add: decode_message_def pb_field_iter_begin_at Let_def)
qed

end

section \<open>The decoder is safe at every depth\<close>

lemma pb_decode_noinit_inner: "safe_inner env n (pb_decode_noinit env n)"
proof (induction n)
  case 0
  show ?case by unfold_locales simp
next
  case (Suc n)
  show ?case
  proof
    fix fs sz d st
    assume "env_quiet env" "static_message env (Suc n) fs sz" "NULL \<notin> region d sz"
    then show "safe (region d sz \<union> frames env (Suc n)) st (pb_decode_noinit env (Suc n) fs d st)"
      unfolding pb_decode_noinit.simps by (rule safe_inner.decode_message_safe [OF Suc.IH])
  qed
qed

interpretation noinit: safe_inner env n "pb_decode_noinit env n" for env n
  by (rule pb_decode_noinit_inner)

section \<open>Messages for the witnesses\<close>

text \<open>
  \<open>Outer { required uint32 id = 1; repeated fixed32 vals = 2 [max_count = 3];
  optional Inner inner = 3 }\<close> with \<open>Inner { required bool flag = 1 }\<close>, as the generator lays
  them out; the descriptor arrays are at \<open>0x9000\<close> and \<open>0x9100\<close>.
\<close>

definition demo_inner :: "pb_field list" where
  "demo_inner =
     [\<lparr>f_tag = 1, f_type = PB_HTYPE_REQUIRED OR PB_LTYPE_BOOL, f_data_offset = 0, f_size_offset = 0,
       f_data_size = 1, f_array_size = 0, f_ptr = NULL\<rparr>, PB_LAST_FIELD]"

definition demo_outer :: "pb_field list" where
  "demo_outer =
     [\<lparr>f_tag = 1, f_type = PB_HTYPE_REQUIRED OR PB_LTYPE_UVARINT, f_data_offset = 0, f_size_offset = 0,
       f_data_size = 4, f_array_size = 0, f_ptr = NULL\<rparr>,
      \<lparr>f_tag = 2, f_type = PB_HTYPE_REPEATED OR PB_LTYPE_FIXED32, f_data_offset = 4,
       f_size_offset = - 4, f_data_size = 4, f_array_size = 3, f_ptr = NULL\<rparr>,
      \<lparr>f_tag = 3, f_type = PB_HTYPE_OPTIONAL OR PB_LTYPE_SUBMESSAGE, f_data_offset = 4,
       f_size_offset = - 4, f_data_size = 1, f_array_size = 0, f_ptr = 0x9100\<rparr>, PB_LAST_FIELD]"

definition demo_env :: pb_env where
  "demo_env = no_env\<lparr>env_fields := (\<lambda>a. if a = 0x9000 then demo_outer else if a = 0x9100 then demo_inner else [])\<rparr>"

lemmas demo_type_simps = PB_ATYPE_def PB_HTYPE_def PB_LTYPE_def

lemma demo_inner_static: "static_message demo_env (Suc n) demo_inner 1"
  by (simp add: demo_inner_def demo_env_def wf_fields_def n_entries_def static_field_def field_at_def
      PB_LAST_FIELD_def demo_type_simps data_len_def min_size_def)

lemma demo_outer_fields:
  "n_entries demo_outer = 3" "wf_fields demo_outer"
  "field_at demo_outer 0 = demo_outer ! 0" "field_at demo_outer (Suc 0) = demo_outer ! 1"
  "field_at demo_outer (Suc (Suc 0)) = demo_outer ! 2"
  by (simp_all add: demo_outer_def n_entries_def wf_fields_def field_at_def PB_LAST_FIELD_def)

lemma demo_outer_off:
  "field_off demo_outer 0 = (0, 0)" "field_off demo_outer (Suc 0) = (8, 4)"
  "field_off demo_outer (Suc (Suc 0)) = (24, 20)"
proof -
  show 0: "field_off demo_outer 0 = (0, 0)"
    by (simp add: demo_outer_fields) (simp add: demo_outer_def)
  show 1: "field_off demo_outer (Suc 0) = (8, 4)"
    unfolding field_off.simps(2) 0 by (simp add: demo_outer_fields) (simp add: demo_outer_def iter_prev_size_def demo_type_simps)
  show "field_off demo_outer (Suc (Suc 0)) = (24, 20)"
    unfolding field_off.simps(2) [of _ "Suc 0"] 1
    by (simp add: demo_outer_fields) (simp add: demo_outer_def iter_prev_size_def demo_type_simps)
qed

lemma demo_outer_static_fields:
  "static_field demo_outer 25 0" "static_field demo_outer 25 (Suc 0)" "static_field demo_outer 25 (Suc (Suc 0))"
  unfolding static_field_def demo_outer_off demo_outer_fields
  by (simp_all add: demo_outer_def demo_type_simps data_len_def min_size_def)

lemma less_3_cases: "k < 3 \<Longrightarrow> k = 0 \<or> k = Suc 0 \<or> k = Suc (Suc 0)"
  by auto

lemma demo_outer_static: "static_message demo_env 2 demo_outer 25"
proof -
  have sub: "PB_LTYPE (f_type (demo_outer ! 0)) \<noteq> PB_LTYPE_SUBMESSAGE" "PB_LTYPE (f_type (demo_outer ! 1)) \<noteq> PB_LTYPE_SUBMESSAGE"
    "f_ptr (demo_outer ! 2) = 0x9100" "f_data_size (demo_outer ! 2) = 1"
    by (simp_all add: demo_outer_def demo_type_simps)
  have inner: "static_message demo_env 1 (env_fields demo_env 0x9100) 1"
    using demo_inner_static [of 0] by (simp add: demo_env_def)
  have "static_message demo_env (Suc 1) demo_outer 25"
    unfolding static_message.simps demo_outer_fields(1)
  proof (intro conjI allI impI)
    fix k assume k: "k < (3 :: nat)"
    then show "static_field demo_outer 25 k" using less_3_cases demo_outer_static_fields by blast
    assume l: "PB_LTYPE (f_type (field_at demo_outer k)) = PB_LTYPE_SUBMESSAGE"
    then have "k = Suc (Suc 0)" using less_3_cases [OF k] sub(1,2) demo_outer_fields(3,4) by auto
    then show "f_ptr (field_at demo_outer k) \<noteq> NULL"
      "static_message demo_env 1 (env_fields demo_env (f_ptr (field_at demo_outer k)))
         (unat (f_data_size (field_at demo_outer k)))"
      using sub(3,4) inner demo_outer_fields(5) by simp_all
  qed (simp_all add: demo_outer_fields)
  then show ?thesis by (simp only: one_add_one [symmetric] Suc_eq_plus1)
qed

section \<open>The decoder is safe on every input\<close>

text \<open>
  C25: memory safety and termination of \<open>pb_decode\<close> on arbitrary bytes: for every message type of
  static fields whose descriptors describe the struct, and for every input stream, hostile or
  not, the call returns; it changes no byte outside the struct (and the decoder's own locals),
  allocates and frees nothing, and reads no more than the stream has.
\<close>

theorem pb_decode_safe:
  assumes "env_quiet env" "static_message env n fs sz" "NULL \<notin> region d sz"
  shows "\<exists>ok st'. pb_decode env n fs d st = Some (ok, st') \<and>
    (\<forall>x. x \<notin> region d sz \<union> frames env n \<longrightarrow> cmem (snd st') x = cmem (snd st) x) \<and>
    cblocks (snd st') = cblocks (snd st) \<and>
    is_bytes_left (fst st') \<le> is_bytes_left (fst st)"
  using noinit.pb_decode_with_safe [OF assms, of st]
  by (auto simp: pb_decode_def confined_def elim!: safeE)

theorem pb_decode_safe_witness:
  "\<exists>ok st'. pb_decode demo_env 2 demo_outer 0x2000 (demo_in [0x12, 0xFF, 0x01, 7]) = Some (ok, st') \<and>
    cmem (snd st') 0x2019 = cmem (snd (demo_in [0x12, 0xFF, 0x01, 7])) 0x2019"
proof -
  have "env_quiet demo_env" by (simp add: env_quiet_def demo_env_def no_env_def)
  moreover have "NULL \<notin> region 0x2000 25" "0x2019 \<notin> region 0x2000 25"
    by (simp_all add: region_def)
  moreover have "0x2019 \<notin> frames demo_env 2"
  proof -
    have "{..<2 :: nat} = {0, 1}" by auto
    then show ?thesis by (simp add: frames_def region_def demo_env_def no_env_def)
  qed
  ultimately show ?thesis
    using pb_decode_safe [OF _ demo_outer_static, where d = "0x2000" and st = "demo_in [0x12, 0xFF, 0x01, 7]"] by blast
qed

end
