(* ===== verification/Pb_Encode.thy ===== *)
theory Pb_Encode
  imports Pb_Heap
begin

text \<open>
  The message encoder of \<open>pb_encode.c\<close>: the field encoders \<open>pb_enc_*\<close>, arrays, the default
  values of proto3, extensions, submessages and \<open>pb_encode\<close> with its variants.

  As in the decoder, the inner \<open>pb_encode\<close> is an argument of the functions it recurses through,
  and \<open>pb_encode\<close> has the nesting depth as fuel.
\<close>

type_synonym pb_encoder = "ost \<Rightarrow> pb_field \<Rightarrow> addr \<Rightarrow> (bool \<times> ost) option"
type_synonym pb_msg_encoder = "pb_field list \<Rightarrow> addr \<Rightarrow> ost \<Rightarrow> (bool \<times> ost) option"

section \<open>Scalar field encoders\<close>

text \<open>\<open>sizeof(bool)\<close> is 1 on the target.\<close>

definition safe_read_bool :: "addr \<Rightarrow> cst \<Rightarrow> bool" where
  "safe_read_bool pSize c \<longleftrightarrow> list_ex (\<lambda>b. b \<noteq> 0) (load_bytes (cmem c) pSize 1)"

definition pb_enc_bool :: "pb_env \<Rightarrow> ost \<Rightarrow> pb_field \<Rightarrow> addr \<Rightarrow> bool \<times> ost" where
  "pb_enc_bool env st fld src =
     pb_encode_varint env (if safe_read_bool src (snd st) then 1 else 0) st"

text \<open>The integer at \<open>src\<close>, of \<open>data_size\<close> bytes, extended to 64 bits.\<close>

definition read_signed :: "u32 \<Rightarrow> addr \<Rightarrow> cst \<Rightarrow> u64 option" where
  "read_signed data_size src c =
     (if data_size = 1 then Some (scast (get src 1 c :: byte))
      else if data_size = 2 then Some (scast (get src 2 c :: u16))
      else if data_size = 4 then Some (scast (get src 4 c :: u32))
      else if data_size = 8 then Some (get src 8 c)
      else None)"

definition read_unsigned :: "u32 \<Rightarrow> addr \<Rightarrow> cst \<Rightarrow> u64 option" where
  "read_unsigned data_size src c =
     (if data_size = 1 then Some (ucast (get src 1 c :: byte))
      else if data_size = 2 then Some (ucast (get src 2 c :: u16))
      else if data_size = 4 then Some (ucast (get src 4 c :: u32))
      else if data_size = 8 then Some (get src 8 c)
      else None)"

definition pb_enc_varint :: "pb_env \<Rightarrow> ost \<Rightarrow> pb_field \<Rightarrow> addr \<Rightarrow> bool \<times> ost" where
  "pb_enc_varint env st fld src =
     (case read_signed (f_data_size fld) src (snd st) of
        None \<Rightarrow> (False, os_set_error ''invalid data_size'' st)
      | Some v \<Rightarrow> pb_encode_varint env v st)"

definition pb_enc_uvarint :: "pb_env \<Rightarrow> ost \<Rightarrow> pb_field \<Rightarrow> addr \<Rightarrow> bool \<times> ost" where
  "pb_enc_uvarint env st fld src =
     (case read_unsigned (f_data_size fld) src (snd st) of
        None \<Rightarrow> (False, os_set_error ''invalid data_size'' st)
      | Some v \<Rightarrow> pb_encode_varint env v st)"

definition pb_enc_svarint :: "pb_env \<Rightarrow> ost \<Rightarrow> pb_field \<Rightarrow> addr \<Rightarrow> bool \<times> ost" where
  "pb_enc_svarint env st fld src =
     (case read_signed (f_data_size fld) src (snd st) of
        None \<Rightarrow> (False, os_set_error ''invalid data_size'' st)
      | Some v \<Rightarrow> pb_encode_svarint env v st)"

definition pb_enc_fixed32 :: "pb_env \<Rightarrow> ost \<Rightarrow> pb_field \<Rightarrow> addr \<Rightarrow> bool \<times> ost" where
  "pb_enc_fixed32 env st fld src = pb_encode_fixed32 env (get src 4 (snd st)) st"

definition pb_enc_fixed64 :: "pb_env \<Rightarrow> ost \<Rightarrow> pb_field \<Rightarrow> addr \<Rightarrow> bool \<times> ost" where
  "pb_enc_fixed64 env st fld src = pb_encode_fixed64 env (get src 8 (snd st)) st"

section \<open>Length-delimited field encoders\<close>

definition pb_enc_bytes :: "pb_env \<Rightarrow> ost \<Rightarrow> pb_field \<Rightarrow> addr \<Rightarrow> bool \<times> ost" where
  "pb_enc_bytes env st fld src =
     (if src = NULL then pb_encode_string env OB_Null 0 st
      else
        let sz = get_size src (snd st) in
        if PB_ATYPE (f_type fld) = PB_ATYPE_STATIC \<and> ucast (f_data_size fld) - 4 < (ucast sz :: u64)
        then (False, os_set_error ''bytes size exceeded'' st)
        else pb_encode_string env (OB_Mem (src + 4)) (ucast sz) st)"

text \<open>\<open>while (size < max_size && *p != '\0') { size++; p++; }\<close>\<close>

function string_size :: "memory \<Rightarrow> u64 \<Rightarrow> addr \<Rightarrow> u64 \<Rightarrow> u64" where
  "string_size m max_size p sz =
     (if sz < max_size \<and> m p \<noteq> 0 then string_size m max_size (p + 1) (sz + 1) else sz)"
  by pat_completeness auto
termination
proof (relation "measure (\<lambda>(m, max_size, p, sz). unat max_size - unat sz)")
  fix m :: memory and max_size sz :: u64 and p :: addr
  assume "sz < max_size \<and> m p \<noteq> 0"
  then have lt: "unat sz < unat max_size" by (simp add: word_less_nat_alt)
  then have "unat (sz + 1) = unat sz + 1"
    using unat_u64_less [of max_size] by (simp add: unat_plus_if')
  with lt show "((m, max_size, p + 1, sz + 1), (m, max_size, p, sz))
      \<in> measure (\<lambda>(m, max_size, p, sz). unat max_size - unat sz)"
    by simp
qed simp

declare string_size.simps [simp del]

definition pb_enc_string :: "pb_env \<Rightarrow> ost \<Rightarrow> pb_field \<Rightarrow> addr \<Rightarrow> bool \<times> ost" where
  "pb_enc_string env st fld src =
     (let max_size = (if PB_ATYPE (f_type fld) = PB_ATYPE_POINTER then - 1
                      else ucast (f_data_size fld));
          sz = (if src = NULL then 0 else string_size (cmem (snd st)) max_size src 0)
      in pb_encode_string env (OB_Mem src) sz st)"

definition pb_enc_fixed_length_bytes :: "pb_env \<Rightarrow> ost \<Rightarrow> pb_field \<Rightarrow> addr \<Rightarrow> bool \<times> ost" where
  "pb_enc_fixed_length_bytes env st fld src =
     pb_encode_string env (OB_Mem src) (ucast (f_data_size fld)) st"

section \<open>Submessages\<close>

text \<open>The submessage is encoded twice: into a sizing stream, then behind its length.\<close>

definition pb_encode_submessage :: "pb_env \<Rightarrow> pb_msg_encoder \<Rightarrow> pb_msg_encoder" where
  "pb_encode_submessage env inner fs src st =
     do {
       (ok, sub) \<leftarrow> inner fs src (PB_OSTREAM_SIZING, snd st);
       let stream = fst st; c = snd sub;
           sz = os_bytes_written (fst sub)
       in
       if \<not> ok then Some (False, (stream\<lparr>os_errmsg := os_errmsg (fst sub)\<rparr>, c))
       else case pb_encode_varint env sz (stream, c) of
         (ok1, st1) \<Rightarrow>
           if \<not> ok1 then Some (False, st1)
           else if os_callback (fst st1) = Out_Null then Some (pb_write env OB_Null sz st1)
           else if os_max_size (fst st1) < os_bytes_written (fst st1) + sz
           then Some (False, os_set_error ''stream full'' st1)
           else do {
             (status, sub2) \<leftarrow>
               inner fs src (\<lparr>os_callback = os_callback (fst st1), os_state = os_state (fst st1),
                              os_max_size = sz, os_bytes_written = 0, os_errmsg = None\<rparr>, snd st1);
             let st2 = ((fst st1)\<lparr>os_bytes_written :=
                            os_bytes_written (fst st1) + os_bytes_written (fst sub2),
                          os_state := os_state (fst sub2), os_errmsg := os_errmsg (fst sub2)\<rparr>,
                        snd sub2)
             in Some (if os_bytes_written (fst sub2) \<noteq> sz
                      then (False, os_set_error ''submsg size changed'' st2)
                      else (status, st2))
           }
     }"

definition pb_enc_submessage :: "pb_env \<Rightarrow> pb_msg_encoder \<Rightarrow> pb_encoder" where
  "pb_enc_submessage env inner st fld src =
     (if f_ptr fld = NULL then Some (False, os_set_error ''invalid field descriptor'' st)
      else pb_encode_submessage env inner (env_fields env (f_ptr fld)) src st)"

definition PB_ENCODERS :: "pb_env \<Rightarrow> pb_msg_encoder \<Rightarrow> pb_type_t \<Rightarrow> pb_encoder" where
  "PB_ENCODERS env inner ltype st fld src =
     (if ltype = PB_LTYPE_BOOL then Some (pb_enc_bool env st fld src)
      else if ltype = PB_LTYPE_VARINT then Some (pb_enc_varint env st fld src)
      else if ltype = PB_LTYPE_UVARINT then Some (pb_enc_uvarint env st fld src)
      else if ltype = PB_LTYPE_SVARINT then Some (pb_enc_svarint env st fld src)
      else if ltype = PB_LTYPE_FIXED32 then Some (pb_enc_fixed32 env st fld src)
      else if ltype = PB_LTYPE_FIXED64 then Some (pb_enc_fixed64 env st fld src)
      else if ltype = PB_LTYPE_BYTES then Some (pb_enc_bytes env st fld src)
      else if ltype = PB_LTYPE_STRING then Some (pb_enc_string env st fld src)
      else if ltype = PB_LTYPE_SUBMESSAGE then pb_enc_submessage env inner st fld src
      else if ltype = PB_LTYPE_FIXED_LENGTH_BYTES
      then Some (pb_enc_fixed_length_bytes env st fld src)
      else None)"

section \<open>Arrays\<close>

text \<open>
  \<open>for (i = 0; i < count; i++) { if (!f(p)) return false; p += data_size; }\<close>, for the three
  loops of \<open>encode_array\<close>.
\<close>

primrec encode_items ::
  "(addr \<Rightarrow> ost \<Rightarrow> (bool \<times> ost) option) \<Rightarrow> u64 \<Rightarrow> nat \<Rightarrow> addr \<Rightarrow> ost \<Rightarrow> (bool \<times> ost) option" where
  "encode_items f data_size 0 p st = Some (True, st)"
| "encode_items f data_size (Suc count) p st =
     do {
       (ok, st') \<leftarrow> f p st;
       if \<not> ok then Some (False, st') else encode_items f data_size count (p + data_size) st'
     }"

text \<open>The size of a packed array, \<open>None\<close> in the result where an encoder failed.\<close>

definition packed_size ::
  "pb_encoder \<Rightarrow> pb_field \<Rightarrow> addr \<Rightarrow> u64 \<Rightarrow> cst \<Rightarrow> (u64 option \<times> cst) option" where
  "packed_size func fld pData count c =
     (if PB_LTYPE (f_type fld) = PB_LTYPE_FIXED32 then Some (Some (4 * count), c)
      else if PB_LTYPE (f_type fld) = PB_LTYPE_FIXED64 then Some (Some (8 * count), c)
      else do {
        (ok, szst) \<leftarrow> encode_items (\<lambda>p st. func st fld p) (ucast (f_data_size fld)) (unat count) pData
                        (PB_OSTREAM_SIZING, c);
        Some (if ok then Some (os_bytes_written (fst szst)) else None, snd szst)
      })"

definition encode_array ::
  "pb_env \<Rightarrow> pb_encoder \<Rightarrow> pb_field \<Rightarrow> addr \<Rightarrow> u64 \<Rightarrow> ost \<Rightarrow> (bool \<times> ost) option" where
  "encode_array env func fld pData count st =
     (if count = 0 then Some (True, st)
      else if PB_ATYPE (f_type fld) \<noteq> PB_ATYPE_POINTER \<and> ucast (f_array_size fld) < count
      then Some (False, os_set_error ''array max size exceeded'' st)
      else if PB_LTYPE (f_type fld) \<le> PB_LTYPE_LAST_PACKABLE then
        (case pb_encode_tag env PB_WT_STRING (f_tag fld) st of
           (ok, st1) \<Rightarrow>
             if \<not> ok then Some (False, st1)
             else do {
               (szo, c2) \<leftarrow> packed_size func fld pData count (snd st1);
               case szo of
                 None \<Rightarrow> Some (False, (fst st1, c2))
               | Some sz \<Rightarrow>
                   (case pb_encode_varint env sz (fst st1, c2) of
                      (ok', st3) \<Rightarrow>
                        if \<not> ok' then Some (False, st3)
                        else if os_callback (fst st3) = Out_Null
                        then Some (pb_write env OB_Null sz st3)
                        else encode_items (\<lambda>p st. func st fld p) (ucast (f_data_size fld))
                               (unat count) pData st3)
             })
      else
        encode_items
          (\<lambda>p st. case pb_encode_tag_for_field env fld st of
             (ok, st1) \<Rightarrow>
               if \<not> ok then Some (False, st1)
               else func st1 fld
                 (if PB_ATYPE (f_type fld) = PB_ATYPE_POINTER \<and>
                     (PB_LTYPE (f_type fld) = PB_LTYPE_STRING \<or> PB_LTYPE (f_type fld) = PB_LTYPE_BYTES)
                  then get_ptr p (snd st1) else p))
          (ucast (f_data_size fld)) (unat count) pData st)"

section \<open>Default values of proto3\<close>

text \<open>\<open>do { if (!check(&iter)) return false; } while (pb_field_iter_next(&iter)); return true;\<close>\<close>

partial_function (option) iter_all :: "(pb_field_iter \<Rightarrow> bool option) \<Rightarrow> pb_field_iter \<Rightarrow> bool option" where
  "iter_all f it =
     do {
       ok \<leftarrow> f it;
       if \<not> ok then Some False
       else if fst (pb_field_iter_next it) then iter_all f (snd (pb_field_iter_next it))
       else Some True
     }"

text \<open>The end of the function: singular fields; \<open>item\<close> is the recursive call.\<close>

definition proto3_singular_default ::
  "(pb_field \<Rightarrow> addr \<Rightarrow> bool option) \<Rightarrow> pb_env \<Rightarrow> cst \<Rightarrow> pb_field \<Rightarrow> addr \<Rightarrow> bool option" where
  "proto3_singular_default item env c fld pData =
     (let type = f_type fld;
          all_zero = list_all (\<lambda>b. b = 0) (load_bytes (cmem c) pData (unat (f_data_size fld)))
      in
      if PB_ATYPE type = PB_ATYPE_STATIC \<and> PB_LTYPE type = PB_LTYPE_BYTES
      then Some (get_size pData c = 0)
      else if PB_ATYPE type = PB_ATYPE_STATIC \<and> PB_LTYPE type = PB_LTYPE_STRING
      then Some (cmem c pData = 0)
      else if PB_ATYPE type = PB_ATYPE_STATIC \<and> PB_LTYPE type = PB_LTYPE_FIXED_LENGTH_BYTES
      then Some (f_data_size fld = 0)
      else if PB_ATYPE type = PB_ATYPE_STATIC \<and> PB_LTYPE type = PB_LTYPE_SUBMESSAGE
      then (case pb_field_iter_begin (env_fields env (f_ptr fld)) pData of
              (True, it) \<Rightarrow> iter_all (\<lambda>it. item (cur_field it) (i_pData it)) it
            | (False, it) \<Rightarrow> Some True)
      else if PB_ATYPE type = PB_ATYPE_POINTER \<and> PB_LTYPE_LAST_PACKABLE < PB_LTYPE type
      then Some (get_ptr pData c = NULL)
      else Some all_zero)"

primrec pb_check_proto3_default_value ::
  "pb_env \<Rightarrow> nat \<Rightarrow> cst \<Rightarrow> pb_field \<Rightarrow> addr \<Rightarrow> bool option" where
  "pb_check_proto3_default_value env 0 = (\<lambda>c fld pData. None)"
| "pb_check_proto3_default_value env (Suc n) = (\<lambda>c fld pData.
     let type = f_type fld; pSize = pData + scast (f_size_offset fld) in
     if PB_HTYPE type = PB_HTYPE_REQUIRED then Some False
     else if PB_HTYPE type = PB_HTYPE_REPEATED \<and> f_size_offset fld \<noteq> 0
     then Some (get_size pSize c = 0)
     else if PB_HTYPE type = PB_HTYPE_REPEATED \<and> PB_ATYPE type = PB_ATYPE_STATIC then Some False
     else if PB_HTYPE type = PB_HTYPE_ONEOF then Some (get_size pSize c = 0)
     else if PB_HTYPE type = PB_HTYPE_OPTIONAL \<and> f_size_offset fld \<noteq> 0
     then Some (\<not> safe_read_bool pSize c)
     else proto3_singular_default (pb_check_proto3_default_value env n c) env c fld pData)"

section \<open>One field\<close>

definition encode_present ::
  "pb_env \<Rightarrow> pb_encoder \<Rightarrow> pb_field \<Rightarrow> addr \<Rightarrow> ost \<Rightarrow> (bool \<times> ost) option" where
  "encode_present env func fld pData st =
     (case pb_encode_tag_for_field env fld st of
        (ok, st1) \<Rightarrow> if \<not> ok then Some (False, st1) else func st1 fld pData)"

text \<open>
  \<open>pSize\<close> points into the message, or at the local \<open>implicit_has\<close> (\<open>None\<close> below).  Reading a
  union's \<open>which_\<close> field from that local is out of bounds and has no result.
\<close>

definition encode_basic_field ::
  "pb_env \<Rightarrow> nat \<Rightarrow> pb_msg_encoder \<Rightarrow> pb_field \<Rightarrow> addr \<Rightarrow> ost \<Rightarrow> (bool \<times> ost) option" where
  "encode_basic_field env n inner fld pData st =
     (let type = f_type fld; func = PB_ENCODERS env inner (PB_LTYPE type);
          pSize = (if f_size_offset fld \<noteq> 0 then Some (pData + scast (f_size_offset fld)) else None)
      in do {
        implicit \<leftarrow>
          (if f_size_offset fld = 0 \<and> PB_HTYPE type = PB_HTYPE_OPTIONAL
           then map_option Not (pb_check_proto3_default_value env (Suc n) (snd st) fld pData)
           else Some True);
        let pData' = (if PB_ATYPE type = PB_ATYPE_POINTER then get_ptr pData (snd st) else pData);
            implicit_has = (if PB_ATYPE type = PB_ATYPE_POINTER then pData' \<noteq> NULL else implicit)
        in
        if PB_HTYPE type = PB_HTYPE_REQUIRED then
          (if pData' = NULL then Some (False, os_set_error ''missing required field'' st)
           else encode_present env func fld pData' st)
        else if PB_HTYPE type = PB_HTYPE_OPTIONAL then
          (if (case pSize of None \<Rightarrow> implicit_has | Some a \<Rightarrow> safe_read_bool a (snd st))
           then encode_present env func fld pData' st else Some (True, st))
        else if PB_HTYPE type = PB_HTYPE_REPEATED then
          encode_array env func fld pData'
            (ucast (case pSize of None \<Rightarrow> f_array_size fld | Some a \<Rightarrow> get_size a (snd st))) st
        else if PB_HTYPE type = PB_HTYPE_ONEOF then
          (case pSize of
             None \<Rightarrow> None
           | Some a \<Rightarrow>
               if get_size a (snd st) = f_tag fld then encode_present env func fld pData' st
               else Some (True, st))
        else Some (False, os_set_error ''invalid field type'' st)
      })"

definition encode_callback_field :: "pb_env \<Rightarrow> pb_field \<Rightarrow> addr \<Rightarrow> ost \<Rightarrow> bool \<times> ost" where
  "encode_callback_field env fld pData st =
     (let fn = get_ptr pData (snd st) in
      if fn \<noteq> NULL then
        (case env_encode env fn st fld (pData + 8) of
           (ok, st') \<Rightarrow> if \<not> ok then (False, os_set_error ''callback error'' st') else (True, st'))
      else (True, st))"

definition encode_field ::
  "pb_env \<Rightarrow> nat \<Rightarrow> pb_msg_encoder \<Rightarrow> pb_field \<Rightarrow> addr \<Rightarrow> ost \<Rightarrow> (bool \<times> ost) option" where
  "encode_field env n inner fld pData st =
     (let atype = PB_ATYPE (f_type fld) in
      if atype = PB_ATYPE_STATIC \<or> atype = PB_ATYPE_POINTER
      then encode_basic_field env n inner fld pData st
      else if atype = PB_ATYPE_CALLBACK then Some (encode_callback_field env fld pData st)
      else Some (False, os_set_error ''invalid field type'' st))"

section \<open>Extensions\<close>

definition default_extension_encoder ::
  "pb_env \<Rightarrow> nat \<Rightarrow> pb_msg_encoder \<Rightarrow> addr \<Rightarrow> ost \<Rightarrow> (bool \<times> ost) option" where
  "default_extension_encoder env n inner extension st =
     (let fld = field_at (env_fields env (ext_arg extension (snd st))) 0 in
      if PB_ATYPE (f_type fld) = PB_ATYPE_POINTER
      then encode_field env n inner fld (ext_dest extension) st
      else encode_field env n inner fld (get_ptr (ext_dest extension) (snd st)) st)"

partial_function (option) encode_extension_loop ::
  "(addr \<Rightarrow> ost \<Rightarrow> (bool \<times> ost) option) \<Rightarrow> addr \<Rightarrow> ost \<Rightarrow> (bool \<times> ost) option" where
  "encode_extension_loop enc extension st =
     (if extension \<noteq> NULL then
        do {
          (status, st') \<leftarrow> enc extension st;
          if \<not> status then Some (False, st')
          else encode_extension_loop enc (get_ptr (ext_next extension) (snd st')) st'
        }
      else Some (True, st))"

definition encode_extension_field ::
  "pb_env \<Rightarrow> nat \<Rightarrow> pb_msg_encoder \<Rightarrow> pb_field \<Rightarrow> addr \<Rightarrow> ost \<Rightarrow> (bool \<times> ost) option" where
  "encode_extension_field env n inner fld pData st =
     encode_extension_loop
       (\<lambda>extension st.
          if ext_encode_fn extension (snd st) \<noteq> NULL
          then Some (env_ext_encode env (ext_encode_fn extension (snd st)) st extension)
          else default_extension_encoder env n inner extension st)
       (get_ptr pData (snd st)) st"

section \<open>Messages\<close>

text \<open>\<open>do { if (!f(&iter)) return false; } while (pb_field_iter_next(&iter)); return true;\<close>\<close>

partial_function (option) encode_loop ::
  "(pb_field_iter \<Rightarrow> ost \<Rightarrow> (bool \<times> ost) option) \<Rightarrow> pb_field_iter \<Rightarrow> ost \<Rightarrow> (bool \<times> ost) option" where
  "encode_loop f it st =
     do {
       (ok, st') \<leftarrow> f it st;
       if \<not> ok then Some (False, st')
       else if fst (pb_field_iter_next it) then encode_loop f (snd (pb_field_iter_next it)) st'
       else Some (True, st')
     }"

definition encode_message :: "pb_env \<Rightarrow> nat \<Rightarrow> pb_msg_encoder \<Rightarrow> pb_msg_encoder" where
  "encode_message env n inner fs src st =
     (case pb_field_iter_begin fs src of
        (False, it) \<Rightarrow> Some (True, st)
      | (True, it) \<Rightarrow>
          encode_loop
            (\<lambda>it st.
               if PB_LTYPE (f_type (cur_field it)) = PB_LTYPE_EXTENSION
               then encode_extension_field env n inner (cur_field it) (i_pData it) st
               else encode_field env n inner (cur_field it) (i_pData it) st)
            it st)"

primrec pb_encode :: "pb_env \<Rightarrow> nat \<Rightarrow> pb_msg_encoder" where
  "pb_encode env 0 = (\<lambda>fs src st. None)"
| "pb_encode env (Suc n) = encode_message env n (pb_encode env n)"

definition pb_encode_delimited :: "pb_env \<Rightarrow> nat \<Rightarrow> pb_msg_encoder" where
  "pb_encode_delimited env n fs src st = pb_encode_submessage env (pb_encode env n) fs src st"

definition pb_encode_nullterminated :: "pb_env \<Rightarrow> nat \<Rightarrow> pb_msg_encoder" where
  "pb_encode_nullterminated env n fs src st =
     do {
       (ok, st') \<leftarrow> pb_encode env n fs src st;
       Some (if \<not> ok then (False, st') else pb_write env (OB_Local [0]) 1 st')
     }"

definition pb_get_encoded_size ::
  "pb_env \<Rightarrow> nat \<Rightarrow> pb_field list \<Rightarrow> addr \<Rightarrow> cst \<Rightarrow> (u64 option \<times> cst) option" where
  "pb_get_encoded_size env n fs src c =
     do {
       (ok, st) \<leftarrow> pb_encode env n fs src (PB_OSTREAM_SIZING, c);
       Some (if ok then Some (os_bytes_written (fst st)) else None, snd st)
     }"

end
