(* ===== verification/Pb_Encode_Spec.thy ===== *)
theory Pb_Encode_Spec
  imports Pb_Encode Pb_Static
begin

text \<open>
  What a message of static fields is to be written as: \<open>message_out\<close>, a function of the struct
  that follows the wire format and knows no stream.  \<open>does\<close> relates an encoder of the model to its
  bytes, on the sizing stream and on a memory buffer alike; sequences of encoders and the wire-level
  writers are proved against it once.
\<close>

section \<open>Sinks of either kind\<close>

text \<open>
  The sizing stream and a memory buffer: what \<open>emit\<close> does to them, whether bytes fit, and the
  addresses that may change.
\<close>

definition sink_emit :: "byte list \<Rightarrow> ost \<Rightarrow> ost" where
  "sink_emit bs st = (if out_sizing st then sizing_emit bs st else out_emit bs st)"

definition fits :: "byte list \<Rightarrow> ost \<Rightarrow> bool" where
  "fits bs st \<longleftrightarrow> out_sizing st \<or> length bs \<le> out_room st"

definition area :: "ost \<Rightarrow> addr set" where
  "area st = (if out_sizing st then {} else region (os_state (fst st)) (out_room st))"

text \<open>
  The stream \<open>st\<close> sees the message of the state \<open>c\<close>, which is in the region \<open>R\<close>, and keeps off it.
  The bound on the buffer keeps sums of sizes below \<open>2 ^ 64\<close>.
\<close>

definition sinks :: "addr set \<Rightarrow> cst \<Rightarrow> ost \<Rightarrow> bool" where
  "sinks R c st \<longleftrightarrow>
     (\<forall>a \<in> R. cmem (snd st) a = cmem c a) \<and> area st \<inter> R = {} \<and> os_errmsg (fst st) = None \<and>
     (out_sizing st \<or> out_buffer st \<and> unat (os_max_size (fst st)) \<le> 2 ^ 63)"

text \<open>What an encoder is to write, and whether it succeeds behind that.\<close>

type_synonym out = "byte list \<times> bool"

definition seq_out :: "out \<Rightarrow> out \<Rightarrow> out" where
  "seq_out a b = (if snd a then (fst a @ fst b, snd b) else a)"

text \<open>The encoder \<open>f\<close> writes \<open>out\<close> to every sink, as far as it fits.\<close>

definition does :: "addr set \<Rightarrow> cst \<Rightarrow> (ost \<Rightarrow> (bool \<times> ost) option) \<Rightarrow> out \<Rightarrow> bool" where
  "does R c f out \<longleftrightarrow>
     (\<forall>st. sinks R c st \<longrightarrow> (out_sizing st \<or> length (fst out) < 2 ^ 63) \<longrightarrow>
        (\<exists>st'. f st = Some (snd out \<and> fits (fst out) st, st') \<and>
           (snd out \<and> fits (fst out) st \<longrightarrow> st' = sink_emit (fst out) st) \<and>
           confined (area st) (snd st) (snd st')))"

lemma not_sizing_buffer: "sinks R c st \<Longrightarrow> \<not> out_sizing st \<Longrightarrow> out_buffer st"
  by (simp add: sinks_def)

lemma out_sizing_emit [simp]:
  "out_sizing (sizing_emit bs st) = out_sizing st" "out_sizing (out_emit bs st) = out_sizing st"
  "out_sizing (sink_emit bs st) = out_sizing st"
  by (simp_all add: out_sizing_def sizing_emit_def out_emit_def sink_emit_def)

lemma errmsg_emit [simp]: "os_errmsg (fst (sizing_emit bs st)) = os_errmsg (fst st)"
  by (simp add: sizing_emit_def)

lemma emit_append:
  "sizing_emit (xs @ ys) st = sizing_emit ys (sizing_emit xs st)"
  "out_emit (xs @ ys) st = out_emit ys (out_emit xs st)"
  by (simp_all add: sizing_emit_def out_emit_def store_bytes_append add.assoc)

lemma sink_emit_append: "sink_emit (xs @ ys) st = sink_emit ys (sink_emit xs st)"
  by (simp add: sink_emit_def emit_append)

lemma fits_append:
  assumes "sinks R c st"
  shows "fits (xs @ ys) st \<longleftrightarrow> fits xs st \<and> fits ys (sink_emit xs st)"
proof (cases "out_sizing st")
  case False
  have "out_room (out_emit xs st) = out_room st - length xs" if "length xs \<le> out_room st"
    by (rule out_room_emit [OF not_sizing_buffer [OF assms False] that])
  then show ?thesis using False by (auto simp: fits_def sink_emit_def)
qed (simp add: fits_def)

lemma emit_area:
  assumes "sinks R c st" "fits bs st"
  shows "area (sink_emit bs st) \<subseteq> area st" "confined (area st) (snd st) (snd (sink_emit bs st))"
proof -
  show "area (sink_emit bs st) \<subseteq> area st"
    using assms out_emit_region [of st bs] not_sizing_buffer [OF assms(1)]
    by (auto simp: area_def sink_emit_def fits_def)
  show "confined (area st) (snd st) (snd (sink_emit bs st))"
  proof (cases "out_sizing st")
    case True
    then show ?thesis by (simp add: sink_emit_def sizing_emit_def)
  next
    case False
    then have "length bs \<le> out_room st" using assms(2) by (simp add: fits_def)
    then show ?thesis
      using False out_room_le [of st] confined_store_bytes [of bs "os_state (fst st)" "area st" "snd st"]
      by (auto simp: sink_emit_def out_emit_def area_def dest: subsetD [OF region_mono])
  qed
qed

lemma sinks_emit:
  assumes "sinks R c st" "fits bs st"
  shows "sinks R c (sink_emit bs st)"
proof -
  have "cmem (snd (sink_emit bs st)) a = cmem c a" if "a \<in> R" for a
    using emit_area(2) [OF assms] assms(1) that unfolding sinks_def confined_def by fastforce
  moreover have "out_buffer (out_emit bs st)" if "\<not> out_sizing st"
    using assms that by (intro out_buffer_emit not_sizing_buffer [OF assms(1)]) (auto simp: fits_def)
  ultimately show ?thesis
    using assms emit_area(1) [OF assms] by (auto simp: sinks_def sink_emit_def)
qed

lemma does_seq:
  assumes f: "does R c f a" and g: "does R c g b"
  shows "does R c (\<lambda>st. do { (ok, st') \<leftarrow> f st; if \<not> ok then Some (False, st') else g st' }) (seq_out a b)"
  unfolding does_def
proof (intro allI impI)
  fix st assume s: "sinks R c st" and l: "out_sizing st \<or> length (fst (seq_out a b)) < 2 ^ 63"
  have la: "out_sizing st \<or> length (fst a) < 2 ^ 63" using l by (auto simp: seq_out_def split: if_splits)
  then obtain st1 where 1: "f st = Some (snd a \<and> fits (fst a) st, st1)"
    "snd a \<and> fits (fst a) st \<longrightarrow> st1 = sink_emit (fst a) st" "confined (area st) (snd st) (snd st1)"
    using f s unfolding does_def by blast
  show "\<exists>st'. (do { (ok, st') \<leftarrow> f st; if \<not> ok then Some (False, st') else g st' }) =
      Some (snd (seq_out a b) \<and> fits (fst (seq_out a b)) st, st') \<and>
      (snd (seq_out a b) \<and> fits (fst (seq_out a b)) st \<longrightarrow> st' = sink_emit (fst (seq_out a b)) st) \<and>
      confined (area st) (snd st) (snd st')"
  proof (cases "snd a \<and> fits (fst a) st")
    case False
    then show ?thesis using 1 fits_append [OF s] by (auto simp: seq_out_def)
  next
    case True
    let ?st = "sink_emit (fst a) st"
    have "sinks R c ?st" using True by (intro sinks_emit s) simp
    moreover have "out_sizing ?st \<or> length (fst b) < 2 ^ 63" using l True by (auto simp: seq_out_def)
    ultimately obtain st2 where 2: "g ?st = Some (snd b \<and> fits (fst b) ?st, st2)"
      "snd b \<and> fits (fst b) ?st \<longrightarrow> st2 = sink_emit (fst b) ?st" "confined (area ?st) (snd ?st) (snd st2)"
      using g unfolding does_def by blast
    have "confined (area st) (snd st) (snd st2)"
      using confined_trans [OF emit_area(2)] confined_mono [OF 2(3) emit_area(1)] s True by blast
    then show ?thesis
      using True 1 2 by (auto simp: seq_out_def fits_append [OF s] sink_emit_append)
  qed
qed

text \<open>The same for encoders that always return.\<close>

lemma does_seq_pure:
  assumes "does R c (\<lambda>st. Some (f st)) a" "does R c g b"
  shows "does R c (\<lambda>st. case f st of (ok, st') \<Rightarrow> if \<not> ok then Some (False, st') else g st') (seq_out a b)"
  using does_seq [OF assms] by simp

lemma seq_out_Nil [simp]: "seq_out ([], True) b = b" "seq_out ([], False) b = ([], False)"
  by (simp_all add: seq_out_def)

lemma does_done: "does R c (\<lambda>st. Some (True, st)) ([], True)"
  by (auto simp: does_def fits_def sink_emit_def sizing_emit_def out_emit_def)

lemma does_fail: "does R c (\<lambda>st. Some (False, os_set_error msg st)) ([], False)"
  by (auto simp: does_def os_set_error_def)

section \<open>The wire level\<close>

lemma sizing_write:
  "out_sizing st \<Longrightarrow> pb_write env buf n st =
     (True, (fst st)\<lparr>os_bytes_written := os_bytes_written (fst st) + n\<rparr>, snd st)"
  by (simp add: out_sizing_def pb_write_def Let_def)

lemma does_write_local: "length bs < 2 ^ 64 \<Longrightarrow> does R c (\<lambda>st. Some (pb_write env (OB_Local bs) (of_nat (length bs)) st)) (bs, True)"
  unfolding does_def
proof (intro allI impI)
  fix st assume len: "length bs < 2 ^ 64" and s: "sinks R c st" and "out_sizing st \<or> length (fst (bs, True)) < 2 ^ 63"
  have u: "unat (of_nat (length bs) :: u64) = length bs" using len by (simp add: unat_of_nat)
  show "\<exists>st'. Some (pb_write env (OB_Local bs) (of_nat (length bs)) st) = Some (snd (bs, True) \<and> fits (fst (bs, True)) st, st') \<and>
      (snd (bs, True) \<and> fits (fst (bs, True)) st \<longrightarrow> st' = sink_emit (fst (bs, True)) st) \<and> confined (area st) (snd st) (snd st')"
  proof (cases "fits bs st")
    case True
    then have "pb_write env (OB_Local bs) (of_nat (length bs)) st = (True, sink_emit bs st)"
      using buf_sink.write_local [OF not_sizing_buffer [OF s]] sizing_write [of st env "OB_Local bs"] True
      by (cases "out_sizing st") (simp_all add: fits_def sink_emit_def sizing_emit_def)
    then show ?thesis using True emit_area(2) [OF s True] by simp
  next
    case False
    then have "pb_write env (OB_Local bs) (of_nat (length bs)) st = (False, os_set_error ''stream full'' st)"
      using u not_sizing_buffer [OF s] by (intro buf_sink.write_full) (auto simp: fits_def)
    then show ?thesis using False by (simp add: os_set_error_def)
  qed
qed

lemma does_varint: "does R c (\<lambda>st. Some (pb_encode_varint env v st)) (leb128 v, True)"
  unfolding pb_encode_varint_write
  using length_leb128_bound [of v] by (intro does_write_local) (simp add: le_less_trans)

lemma does_write_mem:
  assumes r: "region a (unat n) \<subseteq> R"
  shows "does R c (\<lambda>st. Some (pb_write env (OB_Mem a) n st)) (load_bytes (cmem c) a (unat n), True)"
  unfolding does_def
proof (intro allI impI)
  let ?bs = "load_bytes (cmem c) a (unat n)"
  fix st assume s: "sinks R c st" and "out_sizing st \<or> length (fst (?bs, True)) < 2 ^ 63"
  have n: "unat n \<le> 2 ^ 64" using unat_u64_less [of n] by simp
  have eq: "load_bytes (cmem (snd st)) a (unat n) = ?bs"
    using s r n unfolding sinks_def by (intro load_bytes_cong) auto
  show "\<exists>st'. Some (pb_write env (OB_Mem a) n st) = Some (snd (?bs, True) \<and> fits (fst (?bs, True)) st, st') \<and>
      (snd (?bs, True) \<and> fits (fst (?bs, True)) st \<longrightarrow> st' = sink_emit (fst (?bs, True)) st) \<and> confined (area st) (snd st) (snd st')"
  proof (cases "fits ?bs st")
    case True
    have "out_sep st a (unat n)" if "\<not> out_sizing st"
      using s r n that by (auto simp: out_sep_def sinks_def area_def)
    then have "pb_write env (OB_Mem a) n st = (True, sink_emit ?bs st)"
      using True buf_sink.write_mem [OF not_sizing_buffer [OF s], of n a env] eq sizing_write [of st env _ n]
      by (cases "out_sizing st") (simp_all add: fits_def sink_emit_def sizing_emit_def)
    then show ?thesis using True emit_area(2) [OF s True] by simp
  next
    case False
    then have "pb_write env (OB_Mem a) n st = (False, os_set_error ''stream full'' st)"
      using not_sizing_buffer [OF s] by (intro buf_sink.write_full) (auto simp: fits_def)
    then show ?thesis using False by (simp add: os_set_error_def)
  qed
qed

lemma does_string:
  assumes "region a (unat n) \<subseteq> R"
  shows "does R c (\<lambda>st. Some (pb_encode_string env (OB_Mem a) n st)) (leb128 n @ load_bytes (cmem c) a (unat n), True)"
proof -
  have "(\<lambda>st. Some (pb_encode_string env (OB_Mem a) n st)) =
      (\<lambda>st. case pb_encode_varint env n st of (ok, st') \<Rightarrow>
         if \<not> ok then Some (False, st') else Some (pb_write env (OB_Mem a) n st'))"
    by (auto simp: fun_eq_iff pb_encode_string_def split: prod.splits bool.splits)
  then show ?thesis
    using does_seq_pure [OF does_varint [of R c env n] does_write_mem [OF assms, of c env]] by (simp add: seq_out_def)
qed

section \<open>What a message is to be written as\<close>

definition field_tag :: "pb_field \<Rightarrow> out" where
  "field_tag fld =
     (case wire_type_of (PB_LTYPE (f_type fld)) of
        None \<Rightarrow> ([], False)
      | Some w \<Rightarrow> (leb128 (push_bit 3 (ucast (f_tag fld)) OR ucast w), True))"

definition number_out :: "u64 option \<Rightarrow> out" where
  "number_out v = (case v of None \<Rightarrow> ([], False) | Some v \<Rightarrow> (leb128 v, True))"

definition zigzag :: "u64 \<Rightarrow> u64" where
  "zigzag v = (if sint v < 0 then NOT (push_bit 1 v) else push_bit 1 v)"

text \<open>The bytes of a block of memory behind its length, and those of a message behind their number.\<close>

definition block_out :: "cst \<Rightarrow> addr \<Rightarrow> u64 \<Rightarrow> out" where
  "block_out c a n = (leb128 n @ load_bytes (cmem c) a (unat n), True)"

definition prefixed_out :: "out \<Rightarrow> out" where
  "prefixed_out b = (if snd b then (leb128 (of_nat (length (fst b))) @ fst b, True) else ([], False))"

definition value_out :: "pb_env \<Rightarrow> (pb_field list \<Rightarrow> addr \<Rightarrow> out) \<Rightarrow> cst \<Rightarrow> pb_field \<Rightarrow> addr \<Rightarrow> out" where
  "value_out env inner c fld src =
     (let lt = PB_LTYPE (f_type fld); ds = f_data_size fld in
      if lt = PB_LTYPE_BOOL then (leb128 (if safe_read_bool src c then 1 else 0), True)
      else if lt = PB_LTYPE_VARINT then number_out (read_signed ds src c)
      else if lt = PB_LTYPE_UVARINT then number_out (read_unsigned ds src c)
      else if lt = PB_LTYPE_SVARINT then number_out (map_option zigzag (read_signed ds src c))
      else if lt = PB_LTYPE_FIXED32 then (le_bytes 4 (get src 4 c :: u32), True)
      else if lt = PB_LTYPE_FIXED64 then (le_bytes 8 (get src 8 c :: u64), True)
      else if lt = PB_LTYPE_BYTES then
        (if ucast ds - 4 < (ucast (get_size src c) :: u64) then ([], False)
         else block_out c (src + 4) (ucast (get_size src c)))
      else if lt = PB_LTYPE_STRING then block_out c src (string_size (cmem c) (ucast ds) src 0)
      else if lt = PB_LTYPE_SUBMESSAGE then prefixed_out (inner (env_fields env (f_ptr fld)) src)
      else block_out c src (ucast ds))"

primrec items_out :: "(addr \<Rightarrow> out) \<Rightarrow> u64 \<Rightarrow> nat \<Rightarrow> addr \<Rightarrow> out" where
  "items_out f data_size 0 p = ([], True)"
| "items_out f data_size (Suc count) p = seq_out (f p) (items_out f data_size count (p + data_size))"

definition present_out :: "pb_env \<Rightarrow> (pb_field list \<Rightarrow> addr \<Rightarrow> out) \<Rightarrow> cst \<Rightarrow> pb_field \<Rightarrow> addr \<Rightarrow> out" where
  "present_out env inner c fld pData = seq_out (field_tag fld) (value_out env inner c fld pData)"

definition array_out ::
  "pb_env \<Rightarrow> (pb_field list \<Rightarrow> addr \<Rightarrow> out) \<Rightarrow> cst \<Rightarrow> pb_field \<Rightarrow> addr \<Rightarrow> u32 \<Rightarrow> out" where
  "array_out env inner c fld pData count =
     (let ds = ucast (f_data_size fld) in
      if count = 0 then ([], True)
      else if f_array_size fld < count then ([], False)
      else if PB_LTYPE (f_type fld) \<le> PB_LTYPE_LAST_PACKABLE then
        seq_out (leb128 (push_bit 3 (ucast (f_tag fld)) OR ucast PB_WT_STRING), True)
          (prefixed_out (items_out (value_out env inner c fld) ds (unat count) pData))
      else items_out (present_out env inner c fld) ds (unat count) pData)"

definition field_out ::
  "pb_env \<Rightarrow> nat \<Rightarrow> (pb_field list \<Rightarrow> addr \<Rightarrow> out) \<Rightarrow> cst \<Rightarrow> pb_field \<Rightarrow> addr \<Rightarrow> out" where
  "field_out env n inner c fld pData =
     (let type = f_type fld; pSize = pData + scast (f_size_offset fld) in
      if PB_HTYPE type = PB_HTYPE_REQUIRED then present_out env inner c fld pData
      else if PB_HTYPE type = PB_HTYPE_OPTIONAL then
        (if (if f_size_offset fld \<noteq> 0 then safe_read_bool pSize c
             else pb_check_proto3_default_value env (Suc n) c fld pData = Some False)
         then present_out env inner c fld pData else ([], True))
      else if PB_HTYPE type = PB_HTYPE_REPEATED then
        array_out env inner c fld pData
          (if f_size_offset fld \<noteq> 0 then get_size pSize c else f_array_size fld)
      else if get_size pSize c = f_tag fld then present_out env inner c fld pData
      else ([], True))"

primrec fields_out :: "(nat \<Rightarrow> out) \<Rightarrow> nat list \<Rightarrow> out" where
  "fields_out f [] = ([], True)"
| "fields_out f (k # ks) = seq_out (f k) (fields_out f ks)"

text \<open>A message of the type \<open>fs\<close> at \<open>src\<close>; \<open>n\<close> is the depth of its submessages.\<close>

primrec message_out :: "pb_env \<Rightarrow> nat \<Rightarrow> cst \<Rightarrow> pb_field list \<Rightarrow> addr \<Rightarrow> out" where
  "message_out env 0 c = (\<lambda>fs src. ([], False))"
| "message_out env (Suc n) c = (\<lambda>fs src.
     fields_out (\<lambda>k. field_out env n (message_out env n c) c (field_at fs k) (fst (field_addr fs src k)))
       [0..<n_entries fs])"

section \<open>Reading the message\<close>

lemma does_cong: "(\<And>st. sinks R c st \<Longrightarrow> f st = g st) \<Longrightarrow> does R c g out \<Longrightarrow> does R c f out"
  by (simp add: does_def)

lemma sinks_load:
  assumes "sinks R c st" "region a n \<subseteq> R" "n \<le> 2 ^ 64"
  shows "load_bytes (cmem (snd st)) a n = load_bytes (cmem c) a n"
  using assms unfolding sinks_def by (intro load_bytes_cong) auto

lemma sinks_get:
  assumes "sinks R c st" "region a n \<subseteq> R" "n \<le> 2 ^ 64"
  shows "(get a n (snd st) :: 'a::len word) = get a n c"
  using sinks_load [OF assms] by (simp add: get_def load_def)

lemma sinks_bool: "sinks R c st \<Longrightarrow> region a 1 \<subseteq> R \<Longrightarrow> safe_read_bool a (snd st) = safe_read_bool a c"
  using sinks_load [of R c st a 1] by (simp add: safe_read_bool_def)

lemma sinks_read:
  assumes "sinks R c st" "region a (unat ds) \<subseteq> R"
  shows "read_signed ds a (snd st) = read_signed ds a c" "read_unsigned ds a (snd st) = read_unsigned ds a c"
  using sinks_load [OF assms] unsigned_less [of ds, where 'a = nat]
  by (auto simp: read_signed_def read_unsigned_def get_def load_def)

lemma string_size_cong:
  "(\<And>x. x \<in> region p (unat (ms - sz)) \<Longrightarrow> m x = m' x) \<Longrightarrow> sz \<le> ms \<Longrightarrow>
     string_size m ms p sz = string_size m' ms p sz"
proof (induction m ms p sz rule: string_size.induct)
  case (1 m ms p sz)
  show ?case
  proof (cases "sz < ms")
    case True
    then have d: "0 < unat (ms - sz)" "unat (ms - (sz + 1)) = unat (ms - sz) - 1" "sz + 1 \<le> ms"
      using unat_sub [of sz ms] unat_sub [of "sz + 1" ms] unat_u64_less [of ms]
      by (auto simp: word_less_nat_alt word_le_nat_alt unat_plus_if')
    then have "p \<in> region p (unat (ms - sz))" by (simp add: region_def)
    then have p: "m p = m' p" by (rule "1.prems")
    have "x \<in> region p (unat (ms - sz))" if "x \<in> region (p + 1) (unat (ms - (sz + 1)))" for x
      using region_shift_subset [of 1 "unat (ms - (sz + 1))" "unat (ms - sz)" p] that d unat_u64_less [of "ms - sz"] by auto
    then have "string_size m ms (p + 1) (sz + 1) = string_size m' ms (p + 1) (sz + 1)" if "m p \<noteq> 0"
      using that True d(3) "1.prems" by (intro "1.IH") auto
    then show ?thesis using p by (subst (1 2) string_size.simps) simp
  next
    case False
    then show ?thesis by (subst (1 2) string_size.simps) simp
  qed
qed

lemma string_size_le: "sz \<le> ms \<Longrightarrow> string_size m ms p sz \<le> ms"
proof (induction m ms p sz rule: string_size.induct)
  case (1 m ms p sz)
  then show ?case
    by (subst string_size.simps) (auto simp: inc_le)
qed

end
