(* ===== verification/Pb_Encode_Fields.thy ===== *)
theory Pb_Encode_Fields
  imports Pb_Encode_Spec
begin

text \<open>
  The encoders of values, submessages, arrays and proto3 default checks write what the
  specification says: one \<open>does\<close> lemma per encoder.
\<close>

section \<open>Values\<close>

lemma does_string': "region a (unat n) \<subseteq> R \<Longrightarrow> does R c (\<lambda>st. Some (pb_encode_string env (OB_Mem a) n st)) (block_out c a n)"
  unfolding block_out_def by (rule does_string)

lemma does_svarint: "does R c (\<lambda>st. Some (pb_encode_svarint env v st)) (leb128 (zigzag v), True)"
  unfolding pb_encode_svarint_def zigzag_def by (rule does_varint)

lemma does_fixed32: "does R c (\<lambda>st. Some (pb_encode_fixed32 env v st)) (le_bytes 4 v, True)"
proof -
  have eq: "[ucast (v AND 0xFF), ucast (drop_bit 8 v AND 0xFF), ucast (drop_bit 16 v AND 0xFF),
      ucast (drop_bit 24 v AND 0xFF)] = le_bytes 4 v"
    by (simp add: le_bytes_def upt_4) (safe; rule bit_word_eqI; simp add: bit_simps)
  show ?thesis
    using does_write_local [of "le_bytes 4 v" R c env] by (simp add: pb_encode_fixed32_def eq)
qed

lemma does_fixed64: "does R c (\<lambda>st. Some (pb_encode_fixed64 env v st)) (le_bytes 8 v, True)"
proof -
  have eq: "[ucast (v AND 0xFF), ucast (drop_bit 8 v AND 0xFF), ucast (drop_bit 16 v AND 0xFF),
      ucast (drop_bit 24 v AND 0xFF), ucast (drop_bit 32 v AND 0xFF), ucast (drop_bit 40 v AND 0xFF),
      ucast (drop_bit 48 v AND 0xFF), ucast (drop_bit 56 v AND 0xFF)] = le_bytes 8 v"
    by (simp add: le_bytes_def upt_8) (safe; rule bit_word_eqI; simp add: bit_simps)
  show ?thesis
    using does_write_local [of "le_bytes 8 v" R c env] by (simp add: pb_encode_fixed64_def eq)
qed

lemma does_number:
  "does R c (\<lambda>st. Some (case v of None \<Rightarrow> (False, os_set_error msg st) | Some v \<Rightarrow> pb_encode_varint env v st)) (number_out v)"
  by (cases v) (simp_all add: number_out_def does_fail does_varint)

lemma does_tag: "does R c (\<lambda>st. Some (pb_encode_tag_for_field env fld st)) (field_tag fld)"
  by (cases "wire_type_of (PB_LTYPE (f_type fld))")
    (simp_all add: pb_encode_tag_for_field_def field_tag_def pb_encode_tag_def does_fail does_varint)

lemma confined_empty: "confined {} c c' \<longleftrightarrow> c' = c"
  by (cases c, cases c') (auto simp: confined_def)

lemma sizing_start: "sinks R c st \<Longrightarrow> sinks R c (PB_OSTREAM_SIZING, snd st)"
  by (simp add: sinks_def area_def out_sizing_def PB_OSTREAM_SIZING_def)

lemma doesD:
  assumes "does R c f (bs, ok)" "sinks R c st" "out_sizing st \<or> length bs < 2 ^ 63"
  obtains st' where "f st = Some (ok \<and> fits bs st, st')" "ok \<and> fits bs st \<longrightarrow> st' = sink_emit bs st"
    "confined (area st) (snd st) (snd st')"
  using assms unfolding does_def fst_conv snd_conv by blast

text \<open>The run of an encoder on the sizing stream.\<close>

lemma does_sizing:
  assumes "does R c f (bs, ok)" "sinks R c st"
  obtains sub where "f (PB_OSTREAM_SIZING, snd st) = Some (ok, sub)" "snd sub = snd st"
    "ok \<longrightarrow> os_bytes_written (fst sub) = of_nat (length bs)"
proof -
  let ?s = "(PB_OSTREAM_SIZING, snd st)"
  have z: "out_sizing ?s" "fits bs ?s" by (simp_all add: out_sizing_def PB_OSTREAM_SIZING_def fits_def)
  obtain sub where "f ?s = Some (ok \<and> fits bs ?s, sub)" "ok \<and> fits bs ?s \<longrightarrow> sub = sink_emit bs ?s"
    "confined (area ?s) (snd ?s) (snd sub)"
    by (rule doesD [OF assms(1) sizing_start [OF assms(2)]]) (use z in simp)
  then show ?thesis
    using that [of sub] z by (simp add: confined_empty area_def sink_emit_def sizing_emit_def)
      (simp add: PB_OSTREAM_SIZING_def)
qed

text \<open>A message behind its length: the size from the first run is the number of bytes of the second.\<close>

lemma does_submessage:
  assumes inner: "does R c (inner fs src) (bs, ok)"
  shows "does R c (pb_encode_submessage env inner fs src) (prefixed_out (bs, ok))"
  unfolding does_def
proof (intro allI impI)
  let ?sz = "of_nat (length bs) :: u64" and ?o = "prefixed_out (bs, ok)"
  fix st assume s: "sinks R c st" and l: "out_sizing st \<or> length (fst ?o) < 2 ^ 63"
  obtain sub where sub: "inner fs src (PB_OSTREAM_SIZING, snd st) = Some (ok, sub)" "snd sub = snd st"
    "ok \<longrightarrow> os_bytes_written (fst sub) = ?sz"
    by (rule does_sizing [OF inner s])
  show "\<exists>st'. pb_encode_submessage env inner fs src st = Some (snd ?o \<and> fits (fst ?o) st, st') \<and>
      (snd ?o \<and> fits (fst ?o) st \<longrightarrow> st' = sink_emit (fst ?o) st) \<and> confined (area st) (snd st) (snd st')"
  proof (cases ok)
    case False
    then show ?thesis using sub by (simp add: pb_encode_submessage_def prefixed_out_def)
  next
    case True
    let ?p = "leb128 ?sz"
    have o: "?o = (?p @ bs, True)" using True by (simp add: prefixed_out_def)
    have lp: "out_sizing st \<or> length ?p < 2 ^ 63" using l o by auto
    then obtain st1 where 1: "pb_encode_varint env ?sz st = (fits ?p st, st1)" "fits ?p st \<longrightarrow> st1 = sink_emit ?p st"
      "confined (area st) (snd st) (snd st1)"
      using does_varint [of R c env ?sz] s unfolding does_def by fastforce
    show ?thesis
    proof (cases "fits ?p st")
      case False
      then show ?thesis
        using True sub 1 fits_append [OF s] o by (simp add: pb_encode_submessage_def)
    next
      case p: True
      then have st1: "st1 = sink_emit ?p st" and s1: "sinks R c st1" using 1 sinks_emit [OF s] by simp_all
      have app: "fits (?p @ bs) st \<longleftrightarrow> fits bs st1" "sink_emit (?p @ bs) st = sink_emit bs st1"
        using p by (simp_all add: fits_append [OF s] sink_emit_append st1)
      have a1: "area st1 \<subseteq> area st" using emit_area(1) [OF s p] st1 by simp
      show ?thesis
      proof (cases "out_sizing st1")
        case sz: True
        then have cb: "os_callback (fst st1) = Out_Null" by (simp add: out_sizing_def)
        have e: "sink_emit bs st1 = ((fst st1)\<lparr>os_bytes_written := os_bytes_written (fst st1) + ?sz\<rparr>, snd st1)"
          using sz by (simp add: sink_emit_def sizing_emit_def)
        have "pb_encode_submessage env inner fs src st = Some (True, sink_emit bs st1)"
          using True sub(1,3) 1(1) sub(2) p cb
          by (simp add: pb_encode_submessage_def Let_def sizing_write [OF sz] e)
        then show ?thesis
          using sz app o 1(3) by (simp add: fits_def sink_emit_def sizing_emit_def)
      next
        case buf: False
        note b = not_sizing_buffer [OF s1 buf]
        have len: "length bs < 2 ^ 63" using l o buf st1 by auto
        then have usz: "unat ?sz = length bs" by (simp add: unat_of_nat)
        have mx: "unat (os_max_size (fst st1)) \<le> 2 ^ 63" using s1 buf by (simp add: sinks_def)
        have w: "unat (os_bytes_written (fst st1)) \<le> unat (os_max_size (fst st1))"
          using b by (simp add: out_buffer_def word_le_nat_alt)
        have sum: "unat (os_bytes_written (fst st1) + ?sz) = unat (os_bytes_written (fst st1)) + length bs"
          using len mx w usz by (simp add: unat_plus_if')
        then have full: "os_max_size (fst st1) < os_bytes_written (fst st1) + ?sz \<longleftrightarrow> \<not> fits bs st1"
          using buf w unfolding fits_def out_room_def word_less_nat_alt by auto
        have cb: "os_callback (fst st1) = Out_Buf" using b by (simp add: out_buffer_def)
        show ?thesis
        proof (cases "fits bs st1")
          case False
          then show ?thesis
            using True sub 1 p full cb app o by (simp add: pb_encode_submessage_def Let_def)
        next
          case fit: True
          let ?s2 = "(\<lparr>os_callback = Out_Buf, os_state = os_state (fst st1), os_max_size = ?sz,
              os_bytes_written = 0, os_errmsg = None\<rparr>, snd st1)"
          have room: "out_room ?s2 = length bs" by (simp add: out_room_def usz)
          have "region (os_state (fst st1)) (length bs) \<subseteq> area st1"
            using fit buf by (auto simp: area_def fits_def dest: subsetD [OF region_mono])
          then have s2: "sinks R c ?s2" and a2: "area ?s2 \<subseteq> area st1"
            using s1 len usz room by (auto simp: sinks_def area_def out_sizing_def out_buffer_def)
          have f2: "fits bs ?s2" by (simp add: fits_def room)
          obtain sub2 where "inner fs src ?s2 = Some (True, sub2)" "sub2 = out_emit bs ?s2"
            "confined (area ?s2) (snd ?s2) (snd sub2)"
            using inner s2 f2 len True unfolding does_def by (fastforce simp: sink_emit_def out_sizing_def)
          moreover have "os_errmsg (fst st1) = None" using s1 by (simp add: sinks_def)
          ultimately have "pb_encode_submessage env inner fs src st = Some (True, out_emit bs st1)"
            using True sub 1 p full fit cb by (simp add: pb_encode_submessage_def Let_def) (simp add: out_emit_def)
          moreover have "confined (area st) (snd st) (snd (out_emit bs st1))"
            using emit_area(2) [OF s1 fit] a1 1(3) buf confined_trans confined_mono by (metis sink_emit_def)
          ultimately show ?thesis using app o fit buf by (simp add: sink_emit_def)
        qed
      qed
    qed
  qed
qed

section \<open>Fields\<close>

text \<open>What the encoder of a field's value needs: a static field whose data is in \<open>R\<close>.\<close>

definition value_type :: "pb_field \<Rightarrow> bool" where
  "value_type fld \<longleftrightarrow>
     PB_ATYPE (f_type fld) = PB_ATYPE_STATIC \<and> min_size fld \<le> unat (f_data_size fld) \<and>
     PB_LTYPE (f_type fld) \<le> PB_LTYPE_FIXED_LENGTH_BYTES \<and> PB_LTYPE (f_type fld) \<noteq> PB_LTYPE_EXTENSION \<and>
     (PB_LTYPE (f_type fld) = PB_LTYPE_BYTES \<longrightarrow> 4 \<le> unat (f_data_size fld)) \<and>
     (PB_LTYPE (f_type fld) = PB_LTYPE_SUBMESSAGE \<longrightarrow> f_ptr fld \<noteq> NULL)"

definition value_in :: "addr set \<Rightarrow> pb_field \<Rightarrow> addr \<Rightarrow> bool" where
  "value_in R fld src \<longleftrightarrow> value_type fld \<and> region src (unat (f_data_size fld)) \<subseteq> R \<and> src \<noteq> NULL"

lemma enc_ltype_cases:
  assumes "(lt :: byte) \<le> PB_LTYPE_FIXED_LENGTH_BYTES" "lt \<noteq> PB_LTYPE_EXTENSION"
  obtains "lt = PB_LTYPE_BOOL" | "lt = PB_LTYPE_VARINT" | "lt = PB_LTYPE_UVARINT" | "lt = PB_LTYPE_SVARINT"
    | "lt = PB_LTYPE_FIXED32" | "lt = PB_LTYPE_FIXED64" | "lt = PB_LTYPE_BYTES" | "lt = PB_LTYPE_STRING"
    | "lt = PB_LTYPE_SUBMESSAGE" | "lt = PB_LTYPE_FIXED_LENGTH_BYTES"
proof -
  have "unat lt \<le> 10" using assms(1) by (simp add: word_le_nat_alt)
  then have "unat lt \<in> set [0..<11]" by auto
  then have "of_nat (unat lt) \<in> (of_nat ` set [0..<11] :: byte set)" by (rule imageI)
  then show thesis using assms(2) that by (auto simp: upt_rec)
qed

lemma does_eqI:
  "does R c g out' \<Longrightarrow> (\<And>st. sinks R c st \<Longrightarrow> f st = g st) \<Longrightarrow> out = out' \<Longrightarrow> does R c f out"
  by (simp add: does_def)

lemma does_bytes:
  assumes v: "value_in R fld src" and lt: "PB_LTYPE (f_type fld) = PB_LTYPE_BYTES"
  shows "does R c (\<lambda>st. Some (pb_enc_bytes env st fld src)) (value_out env iout c fld src)"
proof -
  let ?n = "get_size src c :: u32" and ?ds = "f_data_size fld"
  have reg: "region src 4 \<subseteq> R" using v lt by (auto simp: value_in_def value_type_def dest: subsetD [OF region_mono])
  have eq: "pb_enc_bytes env st fld src =
      (if ucast ?ds - 4 < (ucast ?n :: u64) then (False, os_set_error ''bytes size exceeded'' st)
       else pb_encode_string env (OB_Mem (src + 4)) (ucast ?n) st)" if "sinks R c st" for st
    using v sinks_get [OF that reg, where 'a = 32] by (simp add: pb_enc_bytes_def value_in_def value_type_def Let_def)
  have out: "value_out env iout c fld src =
      (if ucast ?ds - 4 < (ucast ?n :: u64) then ([], False) else block_out c (src + 4) (ucast ?n))"
    using lt by (simp add: value_out_def Let_def)
  show ?thesis
  proof (cases "ucast ?ds - 4 < (ucast ?n :: u64)")
    case True
    then show ?thesis unfolding out by (intro does_eqI [OF does_fail]) (simp_all add: eq)
  next
    case False
    have "unat (ucast ?ds - 4 :: u64) = unat ?ds - 4"
      using v lt by (subst unat_sub) (simp_all add: value_in_def value_type_def word_le_nat_alt)
    then have "4 + unat ?n \<le> unat ?ds" using False v lt by (simp add: value_in_def value_type_def word_less_nat_alt) arith
    then have "region (src + 4) (unat (ucast ?n :: u64)) \<subseteq> region src (unat ?ds)"
      using unsigned_less [of ?ds, where ?'a = nat] by (intro region_shift_subset) simp_all
    then have "does R c (\<lambda>st. Some (pb_encode_string env (OB_Mem (src + 4)) (ucast ?n) st)) (block_out c (src + 4) (ucast ?n))"
      using v by (intro does_string') (auto simp: value_in_def value_type_def)
    then show ?thesis unfolding out by (rule does_eqI) (use False in \<open>simp_all add: eq\<close>)
  qed
qed

lemma does_str:
  assumes v: "value_in R fld src" and lt: "PB_LTYPE (f_type fld) = PB_LTYPE_STRING"
  shows "does R c (\<lambda>st. Some (pb_enc_string env st fld src)) (value_out env iout c fld src)"
proof -
  let ?ds = "ucast (f_data_size fld) :: u64"
  have reg: "region src (unat ?ds) \<subseteq> R" using v by (simp add: value_in_def value_type_def)
  have le: "string_size (cmem c) ?ds src 0 \<le> ?ds" by (rule string_size_le) simp
  have eq: "pb_enc_string env st fld src = pb_encode_string env (OB_Mem src) (string_size (cmem c) ?ds src 0) st"
    if "sinks R c st" for st
  proof -
    have "string_size (cmem (snd st)) ?ds src 0 = string_size (cmem c) ?ds src 0"
      using that reg by (intro string_size_cong) (auto simp: sinks_def)
    then show ?thesis using v by (simp add: pb_enc_string_def value_in_def value_type_def Let_def)
  qed
  have "region src (unat (string_size (cmem c) ?ds src 0)) \<subseteq> R"
    using reg le region_mono [of "unat (string_size (cmem c) ?ds src 0)" "unat ?ds" src]
    by (auto simp: word_le_nat_alt)
  then have "does R c (\<lambda>st. Some (pb_encode_string env (OB_Mem src) (string_size (cmem c) ?ds src 0) st))
      (block_out c src (string_size (cmem c) ?ds src 0))"
    by (rule does_string')
  then have "does R c (\<lambda>st. Some (pb_enc_string env st fld src)) (block_out c src (string_size (cmem c) ?ds src 0))"
    by (rule does_cong [rotated]) (simp add: eq)
  then show ?thesis using lt by (simp add: value_out_def Let_def)
qed

lemma value_does:
  assumes v: "value_in R fld src"
    and sub: "PB_LTYPE (f_type fld) = PB_LTYPE_SUBMESSAGE \<Longrightarrow>
      does R c (inner (env_fields env (f_ptr fld)) src) (iout (env_fields env (f_ptr fld)) src)"
  shows "does R c (\<lambda>st. PB_ENCODERS env inner (PB_LTYPE (f_type fld)) st fld src) (value_out env iout c fld src)"
proof -
  let ?ds = "f_data_size fld"
  have reg: "region src (unat ?ds) \<subseteq> R" using v by (simp add: value_in_def value_type_def)
  have sub_reg: "region src n \<subseteq> R" if "n \<le> unat ?ds" for n
    using reg region_mono [OF that] by blast
  have one: "1 \<le> unat ?ds" using v by (auto simp: value_in_def value_type_def min_size_def split: if_splits)
  show ?thesis
  proof (rule enc_ltype_cases [of "PB_LTYPE (f_type fld)"])
    assume lt: "PB_LTYPE (f_type fld) = PB_LTYPE_BOOL"
    show ?thesis
      by (rule does_eqI [OF does_varint [where env = env and v = "if safe_read_bool src c then 1 else 0"]])
        (simp_all add: PB_ENCODERS_def pb_enc_bool_def sinks_bool [OF _ sub_reg [OF one]] value_out_def lt)
  next
    assume lt: "PB_LTYPE (f_type fld) = PB_LTYPE_VARINT"
    show ?thesis
      by (rule does_eqI [OF does_number [where env = env and v = "read_signed ?ds src c"]])
        (simp_all add: PB_ENCODERS_def pb_enc_varint_def sinks_read [OF _ reg] value_out_def lt)
  next
    assume lt: "PB_LTYPE (f_type fld) = PB_LTYPE_UVARINT"
    show ?thesis
      by (rule does_eqI [OF does_number [where env = env and v = "read_unsigned ?ds src c"]])
        (simp_all add: PB_ENCODERS_def pb_enc_uvarint_def sinks_read [OF _ reg] value_out_def lt)
  next
    assume lt: "PB_LTYPE (f_type fld) = PB_LTYPE_SVARINT"
    have "does R c (\<lambda>st. Some (case read_signed ?ds src c of None \<Rightarrow> (False, os_set_error ''invalid data_size'' st)
        | Some v \<Rightarrow> pb_encode_svarint env v st)) (number_out (map_option zigzag (read_signed ?ds src c)))"
      by (cases "read_signed ?ds src c") (simp_all add: number_out_def does_fail does_svarint)
    then have "does R c (\<lambda>st. Some (pb_enc_svarint env st fld src)) (number_out (map_option zigzag (read_signed ?ds src c)))"
      by (rule does_cong [rotated]) (simp add: pb_enc_svarint_def sinks_read [OF _ reg])
    then show ?thesis using lt by (simp add: PB_ENCODERS_def value_out_def)
  next
    assume lt: "PB_LTYPE (f_type fld) = PB_LTYPE_FIXED32"
    then have r: "region src 4 \<subseteq> R" using v by (intro sub_reg) (simp add: value_in_def value_type_def min_size_def)
    have "does R c (\<lambda>st. Some (pb_enc_fixed32 env st fld src)) (le_bytes 4 (get src 4 c :: u32), True)"
      by (rule does_cong [OF _ does_fixed32]) (simp add: pb_enc_fixed32_def sinks_get [OF _ r])
    then show ?thesis using lt by (simp add: PB_ENCODERS_def value_out_def)
  next
    assume lt: "PB_LTYPE (f_type fld) = PB_LTYPE_FIXED64"
    then have r: "region src 8 \<subseteq> R" using v by (intro sub_reg) (simp add: value_in_def value_type_def min_size_def)
    have "does R c (\<lambda>st. Some (pb_enc_fixed64 env st fld src)) (le_bytes 8 (get src 8 c :: u64), True)"
      by (rule does_cong [OF _ does_fixed64]) (simp add: pb_enc_fixed64_def sinks_get [OF _ r])
    then show ?thesis using lt by (simp add: PB_ENCODERS_def value_out_def)
  next
    assume lt: "PB_LTYPE (f_type fld) = PB_LTYPE_BYTES"
    then show ?thesis using does_bytes [OF v lt] by (simp add: PB_ENCODERS_def)
  next
    assume lt: "PB_LTYPE (f_type fld) = PB_LTYPE_STRING"
    then show ?thesis using does_str [OF v lt] by (simp add: PB_ENCODERS_def)
  next
    assume lt: "PB_LTYPE (f_type fld) = PB_LTYPE_SUBMESSAGE"
    have "does R c (pb_encode_submessage env inner (env_fields env (f_ptr fld)) src)
        (prefixed_out (iout (env_fields env (f_ptr fld)) src))"
      using does_submessage [of R c inner _ src "fst (iout (env_fields env (f_ptr fld)) src)"
          "snd (iout (env_fields env (f_ptr fld)) src)" env] sub [OF lt] by simp
    then show ?thesis
      using lt v by (simp add: PB_ENCODERS_def value_out_def pb_enc_submessage_def value_in_def value_type_def)
  next
    assume lt: "PB_LTYPE (f_type fld) = PB_LTYPE_FIXED_LENGTH_BYTES"
    have "does R c (\<lambda>st. Some (pb_encode_string env (OB_Mem src) (ucast ?ds) st)) (block_out c src (ucast ?ds))"
      using reg by (intro does_string') simp
    then show ?thesis using lt by (simp add: PB_ENCODERS_def value_out_def pb_enc_fixed_length_bytes_def)
  qed (use v in \<open>simp_all add: value_in_def value_type_def\<close>)
qed

section \<open>Arrays\<close>

lemma does_items:
  assumes f: "\<And>q. region q (unat ds) \<subseteq> S \<Longrightarrow> does R c (f q) (g q)"
    and len: "unat ds * count \<le> 2 ^ 64" and reg: "region p (unat ds * count) \<subseteq> S"
  shows "does R c (encode_items f ds count p) (items_out g ds count p)"
  using len reg
proof (induction count arbitrary: p)
  case 0
  then show ?case using does_done by (simp add: does_eqI)
next
  case (Suc count)
  have "region p (unat ds) \<subseteq> region p (unat ds * Suc count)" by (intro region_mono) simp
  moreover have "region (p + ds) (unat ds * count) \<subseteq> region p (unat ds * Suc count)"
    using Suc.prems(1) by (intro region_shift_subset) simp_all
  ultimately have "does R c (f p) (g p)" "does R c (encode_items f ds count (p + ds)) (items_out g ds count (p + ds))"
    using Suc.prems by (auto intro!: f Suc.IH)
  from does_seq [OF this] show ?case by (rule does_eqI) simp_all
qed

lemma items_out_length:
  assumes "\<And>p. snd (g p) \<and> length (fst (g p)) = k"
  shows "snd (items_out g ds count p) \<and> length (fst (items_out g ds count p)) = k * count"
  by (induction count arbitrary: p) (simp_all add: seq_out_def assms)

text \<open>The size of a packed array, computed or counted, is the number of bytes of its items.\<close>

lemma packed_size_out:
  assumes items: "does R c (encode_items (\<lambda>p st. func st fld p) (ucast (f_data_size fld)) (unat count) pData)
      out" and out: "out = items_out (value_out env iout c fld) (ucast (f_data_size fld)) (unat count) pData"
    and s: "sinks R c st"
  shows "packed_size func fld pData count (snd st) =
    Some (if snd out then Some (of_nat (length (fst out))) else None, snd st)"
proof -
  have fixed: "snd out \<and> length (fst out) = k * unat count"
    if "\<And>p. snd (value_out env iout c fld p) \<and> length (fst (value_out env iout c fld p)) = k" for k
    using items_out_length [of "value_out env iout c fld" k] that unfolding out by blast
  consider (f32) "PB_LTYPE (f_type fld) = PB_LTYPE_FIXED32" | (f64) "PB_LTYPE (f_type fld) = PB_LTYPE_FIXED64"
    | (other) "PB_LTYPE (f_type fld) \<noteq> PB_LTYPE_FIXED32" "PB_LTYPE (f_type fld) \<noteq> PB_LTYPE_FIXED64" by blast
  then show ?thesis
  proof cases
    case f32
    then show ?thesis using fixed [of 4] by (simp add: packed_size_def value_out_def)
  next
    case f64
    then show ?thesis using fixed [of 8] by (simp add: packed_size_def value_out_def)
  next
    case other
    have "does R c (encode_items (\<lambda>p st. func st fld p) (ucast (f_data_size fld)) (unat count) pData)
        (fst out, snd out)" using items by simp
    then obtain sub where "encode_items (\<lambda>p st. func st fld p) (ucast (f_data_size fld)) (unat count) pData
        (PB_OSTREAM_SIZING, snd st) = Some (snd out, sub)" "snd sub = snd st"
      "snd out \<longrightarrow> os_bytes_written (fst sub) = of_nat (length (fst out))"
      by (rule does_sizing [OF _ s])
    then show ?thesis using other by (simp add: packed_size_def)
  qed
qed

text \<open>What stands behind the size: the null stream is told the size only.\<close>

lemma does_skip_null:
  assumes f: "does R c f (bs, True)" and sz: "sz = of_nat (length bs)"
  shows "does R c (\<lambda>st. if os_callback (fst st) = Out_Null then Some (pb_write env OB_Null sz st) else f st) (bs, True)"
  unfolding does_def fst_conv snd_conv
proof (intro allI impI)
  fix st assume s: "sinks R c st" and l: "out_sizing st \<or> length bs < 2 ^ 63"
  show "\<exists>st'. (if os_callback (fst st) = Out_Null then Some (pb_write env OB_Null sz st) else f st) =
      Some (True \<and> fits bs st, st') \<and> (True \<and> fits bs st \<longrightarrow> st' = sink_emit bs st) \<and> confined (area st) (snd st) (snd st')"
  proof (cases "out_sizing st")
    case True
    then have "os_callback (fst st) = Out_Null" "fits bs st" by (simp_all add: out_sizing_def fits_def)
    then show ?thesis using sizing_write [OF True] True emit_area(2) [OF s] by (simp add: sink_emit_def sizing_emit_def sz)
  next
    case False
    then have "os_callback (fst st) \<noteq> Out_Null" using not_sizing_buffer [OF s] by (simp add: out_buffer_def)
    then show ?thesis using doesD [OF f s l] by (metis (no_types))
  qed
qed

lemma does_pack:
  assumes items: "does R c f out" and size: "\<And>st. sinks R c st \<Longrightarrow>
      g (snd st) = Some (if snd out then Some (of_nat (length (fst out))) else None, snd st)"
  shows "does R c (\<lambda>st. do {
      (szo, c2) \<leftarrow> g (snd st);
      case szo of
        None \<Rightarrow> Some (False, (fst st, c2))
      | Some sz \<Rightarrow>
          (case pb_encode_varint env sz (fst st, c2) of
             (ok', st3) \<Rightarrow>
               if \<not> ok' then Some (False, st3)
               else if os_callback (fst st3) = Out_Null then Some (pb_write env OB_Null sz st3) else f st3) })
    (prefixed_out out)"
proof (cases "snd out")
  case False
  have "does R c (\<lambda>st. Some (False, st)) ([], False)" by (auto simp: does_def)
  then show ?thesis by (rule does_eqI) (simp_all add: size False prefixed_out_def)
next
  case True
  then have "does R c f (fst out, True)" using items by (metis prod.collapse)
  from does_seq_pure [OF does_varint does_skip_null [OF this refl]]
  show ?thesis by (rule does_eqI) (simp_all add: size True prefixed_out_def seq_out_def)
qed

text \<open>What the encoder of a field needs of the \<open>iter_at\<close> it is called with.\<close>

lemma does_present:
  assumes "does R c (\<lambda>st. func st fld p) (value_out env iout c fld p)"
  shows "does R c (encode_present env func fld p) (present_out env iout c fld p)"
  unfolding present_out_def
  by (rule does_eqI [OF does_seq_pure [OF does_tag assms]]) (simp_all add: encode_present_def)

lemma does_array:
  assumes static: "PB_ATYPE (f_type fld) = PB_ATYPE_STATIC"
    and f: "\<And>q. region q (unat (f_data_size fld)) \<subseteq> S \<Longrightarrow> does R c (\<lambda>st. func st fld q) (value_out env iout c fld q)"
    and reg: "region p (unat (f_data_size fld) * unat (f_array_size fld)) \<subseteq> S"
    and len: "unat (f_data_size fld) * unat (f_array_size fld) \<le> 2 ^ 64"
  shows "does R c (encode_array env func fld p (ucast count)) (array_out env iout c fld p count)"
proof -
  let ?ds = "ucast (f_data_size fld) :: u64"
  have nz: "(ucast count :: u64) = 0 \<longleftrightarrow> count = 0"
    by (metis unat_eq_0 unat_ucast_u32)
  consider (zero) "count = 0" | (big) "count \<noteq> 0" "f_array_size fld < count"
    | (some) "count \<noteq> 0" "count \<le> f_array_size fld" by force
  then show ?thesis
  proof cases
    case zero
    then show ?thesis
      by (intro does_eqI [OF does_done]) (simp_all add: encode_array_def array_out_def)
  next
    case big
    then have "ucast (f_array_size fld) < (ucast count :: u64)" "(ucast count :: u64) \<noteq> 0"
      by (auto simp: word_less_nat_alt nz)
    then show ?thesis
      using big static by (intro does_eqI [OF does_fail]) (simp_all add: encode_array_def array_out_def)
  next
    case some
    then have c: "\<not> ucast (f_array_size fld) < (ucast count :: u64)" "(ucast count :: u64) \<noteq> 0"
      "\<not> f_array_size fld < count" "unat count \<le> unat (f_array_size fld)"
      by (auto simp: word_less_nat_alt word_le_nat_alt nz)
    then have le: "unat ?ds * unat count \<le> unat (f_data_size fld) * unat (f_array_size fld)" by simp
    have items: "does R c (encode_items h ?ds (unat count) p) (items_out out ?ds (unat count) p)"
      if "\<And>q. region q (unat (f_data_size fld)) \<subseteq> S \<Longrightarrow> does R c (h q) (out q)" for h out
      by (rule does_items [where S = S]) (use that order_trans [OF le len] region_mono [OF le, of p] reg in auto)
    show ?thesis
    proof (cases "PB_LTYPE (f_type fld) \<le> PB_LTYPE_LAST_PACKABLE")
      case True
      have it: "does R c (encode_items (\<lambda>p st. func st fld p) ?ds (unat (ucast count :: u64)) p)
          (items_out (value_out env iout c fld) ?ds (unat (ucast count :: u64)) p)"
        using items [OF f] by simp
      have tag: "does R c (\<lambda>st. Some (pb_encode_tag env PB_WT_STRING (f_tag fld) st))
          (leb128 (push_bit 3 (ucast (f_tag fld)) OR ucast PB_WT_STRING), True)"
        unfolding pb_encode_tag_def by (rule does_varint)
      show ?thesis
        by (rule does_eqI [OF does_seq_pure [OF tag does_pack [OF it packed_size_out [where func = func and fld = fld, OF it refl]]]])
          (use some c True static in \<open>simp_all add: encode_array_def array_out_def Let_def\<close>)
    next
      case False
      have item: "encode_present env func fld =
          (\<lambda>p st. case pb_encode_tag_for_field env fld st of
             (ok, st1) \<Rightarrow>
               if \<not> ok then Some (False, st1)
               else func st1 fld
                 (if PB_ATYPE (f_type fld) = PB_ATYPE_POINTER \<and>
                     (PB_LTYPE (f_type fld) = PB_LTYPE_STRING \<or> PB_LTYPE (f_type fld) = PB_LTYPE_BYTES)
                  then get_ptr p (snd st1) else p))"
        using static by (auto simp: fun_eq_iff encode_present_def split: prod.splits)
      have "does R c (encode_items (encode_present env func fld) ?ds (unat count) p)
          (items_out (present_out env iout c fld) ?ds (unat count) p)"
        by (rule items) (rule does_present [where func = func and fld = fld, OF f])
      then show ?thesis
        by (rule does_eqI) (use some c False static in \<open>simp_all add: encode_array_def array_out_def item\<close>)
    qed
  qed
qed

section \<open>Messages that can be encoded\<close>

text \<open>
  What the encoder needs of a message type beyond \<open>static_message\<close>: each entry's size offset leads
  to its size field, a union member has one, and a bytes field has room for its own length.
\<close>

definition encodable_field :: "pb_field list \<Rightarrow> nat \<Rightarrow> bool" where
  "encodable_field fs k \<longleftrightarrow>
     (let f = field_at fs k in
      snd (field_off fs k) = fst (field_off fs k) + scast (f_size_offset f) \<and>
      (PB_HTYPE (f_type f) = PB_HTYPE_ONEOF \<longrightarrow> f_size_offset f \<noteq> 0) \<and>
      (PB_LTYPE (f_type f) = PB_LTYPE_BYTES \<longrightarrow> 4 \<le> unat (f_data_size f)))"

primrec encodable :: "pb_env \<Rightarrow> nat \<Rightarrow> pb_field list \<Rightarrow> bool" where
  "encodable env 0 fs \<longleftrightarrow> True"
| "encodable env (Suc n) fs \<longleftrightarrow>
     (\<forall>k < n_entries fs. encodable_field fs k \<and>
        (PB_LTYPE (f_type (field_at fs k)) = PB_LTYPE_SUBMESSAGE \<longrightarrow>
           encodable env n (env_fields env (f_ptr (field_at fs k)))))"

lemma enc_htype_cases:
  obtains "PB_HTYPE t = PB_HTYPE_REQUIRED" | "PB_HTYPE t = PB_HTYPE_OPTIONAL"
    | "PB_HTYPE t = PB_HTYPE_REPEATED" | "PB_HTYPE t = PB_HTYPE_ONEOF"
proof -
  have "\<forall>t :: byte. t AND 0x30 = 0 \<or> t AND 0x30 = 0x10 \<or> t AND 0x30 = 0x20 \<or> t AND 0x30 = 0x30"
  proof
    fix t :: byte
    have *: "t AND 0x30 = (if bit t 4 then 0x10 else 0) OR (if bit t 5 then 0x20 else 0)" (is "_ = ?r")
    proof (rule bit_word_eqI)
      fix n assume "n < LENGTH(8)"
      then have "n \<in> set [0..<8]" by simp
      then show "bit (t AND 0x30) n = bit ?r n"
        by (auto simp: upt_rec bit_simps eval_nat_numeral)
    qed
    show "t AND 0x30 = 0 \<or> t AND 0x30 = 0x10 \<or> t AND 0x30 = 0x20 \<or> t AND 0x30 = 0x30"
      unfolding * by simp
  qed
  then show thesis using that by (auto simp: PB_HTYPE_def)
qed

lemma scast_u32_eq_0: "(scast (x :: u32) :: u64) = 0 \<longleftrightarrow> x = 0"
proof
  assume a: "(scast x :: u64) = 0"
  show "x = 0"
  proof (rule bit_word_eqI)
    fix n assume "n < LENGTH(32)"
    then have "n = 31 \<or> n < 31" by auto
    then show "bit x n = bit (0 :: u32) n"
      using arg_cong [OF a, of "\<lambda>w. bit w n"] by (auto simp: bit_signed_iff min_def)
  qed
qed simp

text \<open>The struct \<open>d\<close>, of a type that can be encoded, is in \<open>R\<close>.\<close>

definition message_in :: "pb_env \<Rightarrow> nat \<Rightarrow> addr set \<Rightarrow> pb_field list \<Rightarrow> nat \<Rightarrow> addr \<Rightarrow> bool" where
  "message_in env n R fs sz d \<longleftrightarrow>
     static_message env n fs sz \<and> encodable env n fs \<and> region d sz \<subseteq> R \<and> NULL \<notin> R"

definition field_in :: "addr set \<Rightarrow> pb_field \<Rightarrow> addr \<Rightarrow> bool" where
  "field_in R fld p \<longleftrightarrow> value_type fld \<and>
     data_len fld < 2 ^ 32 \<and> region p (data_len fld) \<subseteq> R \<and> NULL \<notin> R \<and>
     (PB_HTYPE (f_type fld) = PB_HTYPE_REPEATED \<or> PB_HTYPE (f_type fld) = PB_HTYPE_ONEOF \<longrightarrow>
        region (p + scast (f_size_offset fld)) 4 \<subseteq> R) \<and>
     (PB_HTYPE (f_type fld) = PB_HTYPE_OPTIONAL \<and> f_size_offset fld \<noteq> 0 \<longrightarrow>
        region (p + scast (f_size_offset fld)) 1 \<subseteq> R) \<and>
     (PB_HTYPE (f_type fld) = PB_HTYPE_ONEOF \<longrightarrow> f_size_offset fld \<noteq> 0)"

lemma message_in_wf: "message_in env n R fs sz d \<Longrightarrow> wf_fields fs \<and> 0 < n_entries fs"
  by (auto simp: message_in_def dest: static_message_wf)

lemma message_in_sub:
  assumes m: "message_in env (Suc n) R fs sz d" and k: "k < n_entries fs"
    and lt: "PB_LTYPE (f_type (field_at fs k)) = PB_LTYPE_SUBMESSAGE"
    and p: "region p (unat (f_data_size (field_at fs k))) \<subseteq> R"
  shows "message_in env n R (env_fields env (f_ptr (field_at fs k))) (unat (f_data_size (field_at fs k))) p"
  using m k lt p by (simp add: message_in_def)

lemma message_in_field:
  assumes m: "message_in env n R fs sz d" and k: "k < n_entries fs"
  shows "field_in R (field_at fs k) (fst (field_addr fs d k))"
proof -
  let ?f = "field_at fs k"
  have s: "static_message env n fs sz" and n: "NULL \<notin> R" and R: "region d sz \<subseteq> R"
    using m by (simp_all add: message_in_def)
  note fld = static_message_field [OF s k]
  have d: "d \<noteq> NULL" using n R static_message_pos [OF s] not_NULL_struct [of d sz] by blast
  have enc: "encodable_field fs k" using m k s by (cases n) (simp_all add: message_in_def)
  then have size: "i_pSize (iter_at fs d k) = i_pData (iter_at fs d k) + scast (f_size_offset ?f)"
    by (simp add: encodable_field_def iter_at_def field_addr_off [OF d] Let_def add.assoc)
  have ptr: "PB_LTYPE (f_type ?f) = PB_LTYPE_SUBMESSAGE \<Longrightarrow> f_ptr ?f \<noteq> NULL"
    using static_message_sub [OF s k] by blast
  have vt: "value_type ?f" "data_len ?f < 2 ^ 32" "PB_HTYPE (f_type ?f) = PB_HTYPE_ONEOF \<longrightarrow> f_size_offset ?f \<noteq> 0"
    using fld(2) enc ptr unfolding value_type_def static_field_def encodable_field_def Let_def by simp_all
  have "i_pData (iter_at fs d k) = fst (field_addr fs d k)" by (simp add: iter_at_def)
  then show ?thesis
    using static_field_regions [OF fld(2) d fld(3)] R n vt
    unfolding field_in_def size by (auto simp: scast_u32_eq_0)
qed

lemma field_in_value:
  "field_in R fld p \<Longrightarrow> region q (unat (f_data_size fld)) \<subseteq> R \<Longrightarrow> value_in R fld q"
  using not_NULL_struct [of q "unat (f_data_size fld)"]
  by (auto simp: field_in_def value_in_def value_type_def min_size_def split: if_splits)

lemma field_in_single:
  "field_in R fld p \<Longrightarrow> PB_HTYPE (f_type fld) \<noteq> PB_HTYPE_REPEATED \<Longrightarrow> value_in R fld p"
  using field_in_value [of R fld p p] by (simp add: field_in_def data_len_def)


section \<open>Default values of proto3\<close>

primrec all_index :: "(nat \<Rightarrow> bool option) \<Rightarrow> nat list \<Rightarrow> bool option" where
  "all_index f [] = Some True"
| "all_index f (k # ks) = do { ok \<leftarrow> f k; if \<not> ok then Some False else all_index f ks }"

lemma iter_next_index:
  assumes "wf_fields fs" "k < n_entries fs"
  shows "pb_field_iter_next (iter_at fs d k) =
    (if Suc k = n_entries fs then (False, iter_at fs d 0) else (True, iter_at fs d (Suc k)))"
  using pb_field_iter_next_at [OF assms(1), of k d] assms(2) by (auto simp: n_entries_def)

lemma iter_all_at:
  assumes "wf_fields fs" "k < n_entries fs"
  shows "iter_all f (iter_at fs d k) = all_index (\<lambda>k. f (iter_at fs d k)) [k..<n_entries fs]"
  using assms(2)
proof (induction "n_entries fs - k" arbitrary: k)
  case (Suc m)
  have upt: "[k..<n_entries fs] = k # [Suc k..<n_entries fs]" using Suc.prems by (simp add: upt_rec)
  have "iter_all f (iter_at fs d (Suc k)) = all_index (\<lambda>k. f (iter_at fs d k)) [Suc k..<n_entries fs]"
    if "Suc k \<noteq> n_entries fs"
    using Suc.hyps Suc.prems that by simp
  then show ?case
    by (subst iter_all.simps, cases "f (iter_at fs d k)")
      (auto simp: iter_next_index [OF assms(1) Suc.prems] upt)
qed simp

lemma all_index_cong:
  assumes "\<And>k. k \<in> set ks \<Longrightarrow> f k = g k \<and> g k \<noteq> None"
  shows "all_index f ks = all_index g ks \<and> all_index g ks \<noteq> None"
  using assms
proof (induction ks)
  case (Cons k ks)
  then have "f k = g k" "g k \<noteq> None" "all_index f ks = all_index g ks \<and> all_index g ks \<noteq> None"
    by auto
  then show ?case by (cases "g k") auto
qed simp

text \<open>The check of a field ends, and reads the struct only.\<close>

lemma proto3_same:
  assumes mem: "\<And>a. a \<in> R \<Longrightarrow> cmem c' a = cmem c a"
  shows "message_in env n R fs sz d \<Longrightarrow> k < n_entries fs \<Longrightarrow>
    pb_check_proto3_default_value env n c' (field_at fs k) (fst (field_addr fs d k)) =
      pb_check_proto3_default_value env n c (field_at fs k) (fst (field_addr fs d k)) \<and>
    pb_check_proto3_default_value env n c (field_at fs k) (fst (field_addr fs d k)) \<noteq> None"
proof (induction n arbitrary: fs sz d k)
  case 0
  then show ?case by (simp add: message_in_def)
next
  case (Suc n)
  let ?f = "field_at fs k" and ?p = "fst (field_addr fs d k)"
  note fi = message_in_field [OF Suc.prems]
  have load: "load_bytes (cmem c') a m = load_bytes (cmem c) a m" if "region a m \<subseteq> R" "m \<le> 2 ^ 64" for a m
    using that mem by (intro load_bytes_cong) auto
  have size: "(get a 4 c' :: u32) = get a 4 c" if "region a 4 \<subseteq> R" for a
    using load [OF that] by (simp add: get_def load_def)
  have atype: "PB_ATYPE (f_type ?f) = PB_ATYPE_STATIC" using fi by (simp add: field_in_def value_type_def)
  show ?case
  proof (cases "PB_HTYPE (f_type ?f) = PB_HTYPE_OPTIONAL \<and> f_size_offset ?f = 0")
    case False
    then show ?thesis
      using fi atype size load [of _ 1]
      by (cases rule: enc_htype_cases [of "f_type ?f"])
        (auto simp: Let_def field_in_def safe_read_bool_def)
  next
    case opt: True
    have v: "region ?p (unat (f_data_size ?f)) \<subseteq> R" "value_type ?f"
      using fi opt by (simp_all add: field_in_def data_len_def)
    let ?chk = "\<lambda>c. proto3_singular_default (pb_check_proto3_default_value env n c) env c ?f ?p"
    have eq: "pb_check_proto3_default_value env (Suc n) c ?f ?p = ?chk c" for c
      using opt by (simp add: Let_def)
    have data: "load_bytes (cmem c') ?p (unat (f_data_size ?f)) = load_bytes (cmem c) ?p (unat (f_data_size ?f))"
      using v(1) unat_u64_less [of "ucast (f_data_size ?f)"] by (intro load) simp_all
    have "?chk c' = ?chk c \<and> ?chk c \<noteq> None"
    proof (cases "PB_LTYPE (f_type ?f) = PB_LTYPE_SUBMESSAGE")
      case True
      have sub: "message_in env n R (env_fields env (f_ptr ?f)) (unat (f_data_size ?f)) ?p"
        by (rule message_in_sub [OF Suc.prems True v(1)])
      note wf = message_in_wf [OF sub]
      have tag: "f_tag (field_at (env_fields env (f_ptr ?f)) 0) \<noteq> 0"
        using wf wf_fields_tag [OF _ wf_fields_length, of "env_fields env (f_ptr ?f)"] by (simp add: n_entries_def)
      have all: "?chk c = all_index (\<lambda>k. pb_check_proto3_default_value env n c (field_at (env_fields env (f_ptr ?f)) k)
          (fst (field_addr (env_fields env (f_ptr ?f)) ?p k))) [0..<n_entries (env_fields env (f_ptr ?f))]" for c
        using True atype wf tag
        by (simp add: proto3_singular_default_def Let_def pb_field_iter_begin_at iter_all_at) (simp add: iter_at_def)
      show ?thesis
        unfolding all by (rule all_index_cong, rule Suc.IH [OF sub]) simp
    next
      case False
      have "region ?p 4 \<subseteq> R" if "PB_LTYPE (f_type ?f) = PB_LTYPE_BYTES"
        using v that by (auto simp: value_type_def dest: subsetD [OF region_mono])
      moreover have "cmem c' ?p = cmem c ?p"
      proof (rule mem)
        have "0 < unat (f_data_size ?f)" using v(2) by (auto simp: value_type_def min_size_def split: if_splits)
        then have "?p \<in> region ?p (unat (f_data_size ?f))" by (simp add: region_def)
        then show "?p \<in> R" using v(1) by blast
      qed
      ultimately show ?thesis
        using False atype data size by (auto simp: proto3_singular_default_def Let_def)
    qed
    then show ?thesis unfolding eq .
  qed
qed

end
