(* ===== verification/Pb_Encode_Facts.thy ===== *)
theory Pb_Encode_Facts
  imports Pb_Encode_Fields Pb_Safety
begin

text \<open>
  \<open>pb_encode\<close> refines \<open>message_out\<close> at every nesting depth: the field loop and the recursion, and
  what follows for a message encoded into a buffer and for \<open>pb_get_encoded_size\<close>.
\<close>

section \<open>The encoder meets the specification\<close>

lemma does_field:
  assumes m: "message_in env (Suc n) R fs sz d" and k: "k < n_entries fs"
    and inner: "\<And>fs sz p. message_in env n R fs sz p \<Longrightarrow> does R c (inner fs p) (iout fs p)"
  defines "fld \<equiv> field_at fs k" and "p \<equiv> fst (field_addr fs d k)"
  shows "does R c (encode_field env n inner fld p) (field_out env n iout c fld p)"
proof -
  let ?func = "PB_ENCODERS env inner (PB_LTYPE (f_type fld))"
  have fi: "field_in R fld p" unfolding fld_def p_def by (rule message_in_field [OF m k])
  then have atype: "PB_ATYPE (f_type fld) = PB_ATYPE_STATIC" by (simp add: field_in_def value_type_def)
  have val: "does R c (\<lambda>st. ?func st fld q) (value_out env iout c fld q)"
    if "region q (unat (f_data_size fld)) \<subseteq> R" for q
  proof (rule value_does)
    show "value_in R fld q" by (rule field_in_value [OF fi that])
    assume lt: "PB_LTYPE (f_type fld) = PB_LTYPE_SUBMESSAGE"
    show "does R c (inner (env_fields env (f_ptr fld)) q) (iout (env_fields env (f_ptr fld)) q)"
      by (rule inner [OF message_in_sub [OF m k, folded fld_def, OF lt that]])
  qed
  have present: "does R c (encode_present env ?func fld p) (present_out env iout c fld p)"
    if "PB_HTYPE (f_type fld) \<noteq> PB_HTYPE_REPEATED"
    using field_in_single [OF fi that] by (intro does_present [where func = ?func and fld = fld] val) (simp add: value_in_def)
  have null: "p \<noteq> NULL" if "PB_HTYPE (f_type fld) \<noteq> PB_HTYPE_REPEATED"
    using field_in_single [OF fi that] by (simp add: value_in_def)
  let ?pS = "p + scast (f_size_offset fld)"
  have size: "get_size ?pS (snd st) = get_size ?pS c"
    if "sinks R c st" "PB_HTYPE (f_type fld) = PB_HTYPE_REPEATED \<or> PB_HTYPE (f_type fld) = PB_HTYPE_ONEOF" for st
    using that fi by (intro sinks_get [OF that(1)]) (auto simp: field_in_def)
  have field: "encode_field env n inner fld p st = encode_basic_field env n inner fld p st" for st
    using atype by (simp add: encode_field_def)
  show ?thesis
  proof (cases rule: enc_htype_cases [of "f_type fld"])
    case 1
    then show ?thesis
      using null atype by (intro does_eqI [OF present])
        (simp_all add: field encode_basic_field_def field_out_def)
  next
    case 2
    let ?chk = "pb_check_proto3_default_value env (Suc n)"
    have same: "?chk (snd st) fld p = ?chk c fld p \<and> ?chk c fld p \<noteq> None" if "sinks R c st" for st
      unfolding fld_def p_def using that by (intro proto3_same [OF _ m k]) (simp add: sinks_def)
    have has: "safe_read_bool ?pS (snd st) = safe_read_bool ?pS c"
      if "sinks R c st" "f_size_offset fld \<noteq> 0" for st
      using that fi 2 by (intro sinks_bool [OF that(1)]) (simp add: field_in_def)
    let ?b = "if f_size_offset fld \<noteq> 0 then safe_read_bool ?pS c else ?chk c fld p = Some False"
    have run: "encode_field env n inner fld p st =
        (if ?b then encode_present env ?func fld p st else Some (True, st))" if s: "sinks R c st" for st
    proof (cases "f_size_offset fld = 0")
      case True
      then obtain b where "?chk c fld p = Some b" "?chk (snd st) fld p = Some b" using same [OF s] by auto
      then show ?thesis using True 2 atype by (simp add: field encode_basic_field_def Let_def del: pb_check_proto3_default_value.simps)
    next
      case False
      then show ?thesis using has [OF s] 2 atype by (simp add: field encode_basic_field_def Let_def)
    qed
    have out: "field_out env n iout c fld p = (if ?b then present_out env iout c fld p else ([], True))"
      using 2 by (simp add: field_out_def Let_def del: pb_check_proto3_default_value.simps)
    have "does R c (\<lambda>st. if ?b then encode_present env ?func fld p st else Some (True, st))
        (if ?b then present_out env iout c fld p else ([], True))"
      using present 2 does_done by (cases ?b) simp_all
    then show ?thesis by (rule does_eqI) (simp_all only: run out)
  next
    case 3
    let ?count = "if f_size_offset fld \<noteq> 0 then get_size ?pS c else f_array_size fld"
    have "does R c (encode_array env ?func fld p (ucast ?count)) (array_out env iout c fld p ?count)"
      by (rule does_array [where func = ?func and fld = fld and S = R, OF atype val])
        (use fi 3 in \<open>auto simp: field_in_def data_len_def\<close>)
    then show ?thesis
    proof (rule does_eqI)
      show "encode_field env n inner fld p st = encode_array env ?func fld p (ucast ?count) st" if "sinks R c st" for st
        using 3 atype size [OF that] by (simp add: field encode_basic_field_def Let_def)
      show "field_out env n iout c fld p = array_out env iout c fld p ?count"
        using 3 by (simp add: field_out_def Let_def)
    qed
  next
    case 4
    have nz: "f_size_offset fld \<noteq> 0" using fi 4 by (simp add: field_in_def)
    have "does R c (\<lambda>st. if get_size ?pS c = f_tag fld then encode_present env ?func fld p st else Some (True, st))
        (if get_size ?pS c = f_tag fld then present_out env iout c fld p else ([], True))"
      using present 4 does_done by simp
    then show ?thesis
      by (rule does_eqI) (use 4 atype size nz in \<open>auto simp: field encode_basic_field_def field_out_def Let_def\<close>)
  qed
qed

lemma does_loop:
  assumes wf: "wf_fields fs" and k: "k < n_entries fs"
    and f: "\<And>k. k < n_entries fs \<Longrightarrow> does R c (f (iter_at fs d k)) (g k)"
  shows "does R c (encode_loop f (iter_at fs d k)) (fields_out g [k..<n_entries fs])"
  using k
proof (induction "n_entries fs - k" arbitrary: k)
  case (Suc m)
  let ?next = "\<lambda>st. if fst (pb_field_iter_next (iter_at fs d k))
    then encode_loop f (snd (pb_field_iter_next (iter_at fs d k))) st else Some (True, st)"
  have nxt: "?next = (if Suc k = n_entries fs then (\<lambda>st. Some (True, st)) else encode_loop f (iter_at fs d (Suc k)))"
    by (simp add: fun_eq_iff iter_next_index [OF wf Suc.prems])
  have "does R c ?next (fields_out g [Suc k..<n_entries fs])"
    unfolding nxt using Suc.hyps Suc.prems does_done by (cases "Suc k = n_entries fs") simp_all
  from does_seq [OF f [OF Suc.prems] this] show ?case
    by (rule does_eqI) (subst encode_loop.simps, simp_all add: Suc.prems upt_conv_Cons del: upt_Suc)
qed simp

lemma does_message:
  "message_in env n R fs sz d \<Longrightarrow> does R c (pb_encode env n fs d) (message_out env n c fs d)"
proof (induction n arbitrary: fs sz d)
  case 0
  then show ?case by (simp add: message_in_def)
next
  case (Suc n)
  note wf = message_in_wf [OF Suc.prems]
  have tag: "f_tag (field_at fs 0) \<noteq> 0"
    using wf wf_fields_tag [OF _ wf_fields_length, of fs] by (simp add: n_entries_def)
  let ?f = "\<lambda>it st. if PB_LTYPE (f_type (cur_field it)) = PB_LTYPE_EXTENSION
    then encode_extension_field env n (pb_encode env n) (cur_field it) (i_pData it) st
    else encode_field env n (pb_encode env n) (cur_field it) (i_pData it) st"
  have "does R c (?f (iter_at fs d k)) (field_out env n (message_out env n c) c (field_at fs k) (fst (field_addr fs d k)))"
    if k: "k < n_entries fs" for k
  proof -
    have "PB_LTYPE (f_type (field_at fs k)) \<noteq> PB_LTYPE_EXTENSION"
      using message_in_field [OF Suc.prems k] by (simp add: field_in_def value_type_def)
    then show ?thesis
      by (intro does_eqI [OF does_field [OF Suc.prems k Suc.IH]]) (simp_all add: iter_at_def)
  qed
  from does_loop [where f = ?f, OF wf [THEN conjunct1] wf [THEN conjunct2] this] show ?case
    by (rule does_eqI) (simp_all add: encode_message_def pb_field_iter_begin_at tag)
qed

section \<open>Encoding into a buffer\<close>

lemma regions_apart:
  fixes a b :: addr
  assumes "n \<le> unat (b - a)" "unat (b - a) + m \<le> 2 ^ 64"
  shows "region b m \<inter> region a n = {}"
proof -
  have "unat (x - a) = unat (x - b) + unat (b - a)" if "unat (x - b) < m" for x
  proof -
    have "unat ((x - b) + (b - a)) = unat (x - b) + unat (b - a)"
      using that assms(2) by (subst unat_plus_if') simp
    then show ?thesis by simp
  qed
  then show ?thesis using assms(1) unfolding region_def disjoint_iff mem_Collect_eq by (metis not_less trans_le_add2)
qed

lemma buffer_start:
  assumes "region buf (unat bufsize) \<inter> R = {}" "unat bufsize \<le> 2 ^ 63"
  shows "sinks R c (pb_ostream_from_buffer buf bufsize, c)" "area (pb_ostream_from_buffer buf bufsize, c) = region buf (unat bufsize)"
  using assms by (simp_all add: sinks_def area_def out_sizing_def out_buffer_def out_room_def
      pb_ostream_from_buffer_def)

lemma sizing_sinks: "sinks R c (PB_OSTREAM_SIZING, c)"
  by (simp add: sinks_def area_def out_sizing_def PB_OSTREAM_SIZING_def)

text \<open>What \<open>does\<close> says of a fresh buffer.\<close>

lemma does_buffer:
  assumes "does R c f (bs, ok)" "region buf (unat bufsize) \<inter> R = {}" "unat bufsize \<le> 2 ^ 63" "length bs < 2 ^ 63"
  shows "\<exists>st'. f (pb_ostream_from_buffer buf bufsize, c) = Some (ok \<and> length bs \<le> unat bufsize, st') \<and>
    (ok \<and> length bs \<le> unat bufsize \<longrightarrow>
       os_bytes_written (fst st') = of_nat (length bs) \<and> snd st' = c\<lparr>cmem := store_bytes (cmem c) buf bs\<rparr>) \<and>
    (\<forall>x. x \<notin> region buf (unat bufsize) \<longrightarrow> cmem (snd st') x = cmem c x) \<and> cblocks (snd st') = cblocks c"
proof -
  let ?st = "(pb_ostream_from_buffer buf bufsize, c)"
  have fits: "fits bs ?st \<longleftrightarrow> length bs \<le> unat bufsize" and emit: "sink_emit bs ?st = out_emit bs ?st"
    by (simp_all add: fits_def out_sizing_def out_room_def sink_emit_def pb_ostream_from_buffer_def)
  obtain st' where "f ?st = Some (ok \<and> fits bs ?st, st')" "ok \<and> fits bs ?st \<longrightarrow> st' = sink_emit bs ?st"
    "confined (area ?st) (snd ?st) (snd st')"
    by (rule doesD [OF assms(1) buffer_start(1) [OF assms(2,3)]]) (use assms(4) in simp)
  moreover have "os_bytes_written (fst (out_emit bs ?st)) = of_nat (length bs)"
    "snd (out_emit bs ?st) = c\<lparr>cmem := store_bytes (cmem c) buf bs\<rparr>"
    by (simp_all add: out_emit_def pb_ostream_from_buffer_def)
  ultimately show ?thesis
    unfolding fits emit buffer_start(2) [OF assms(2,3)] confined_def by auto
qed

lemma does_size:
  assumes "does R c f (bs, ok)"
  shows "\<exists>sub. f (PB_OSTREAM_SIZING, c) = Some (ok, sub) \<and> snd sub = c \<and>
    (ok \<longrightarrow> os_bytes_written (fst sub) = of_nat (length bs))"
  using does_sizing [OF assms sizing_sinks] by (metis snd_conv)

lemma encodable_does:
  "static_message env n fs sz \<Longrightarrow> encodable env n fs \<Longrightarrow> NULL \<notin> region src sz \<Longrightarrow>
     does (region src sz) c (pb_encode env n fs src) (message_out env n c fs src)"
  by (rule does_message [where sz = sz]) (simp add: message_in_def)

text \<open>A message with all of its fields present, and its bytes.\<close>

definition demo_struct :: cst where
  "demo_struct =
     \<lparr>cmem = (\<lambda>a. if a = 0x2000 then 150 else if a = 0x2004 then 2 else if a = 0x2008 then 7
        else if a = 0x200D then 1 else if a = 0x2014 then 1 else if a = 0x2018 then 1 else 0),
      cblocks = Map.empty\<rparr>"

lemma demo_out_code: "message_out demo_env 2 demo_struct demo_outer 0x2000 =
    ([0x08, 150, 1, 0x12, 8, 7, 0, 0, 0, 0, 1, 0, 0, 0x1A, 2, 0x08, 1], True)"
  by code_simp


lemma demo_encodable: "encodable demo_env 2 demo_outer"
proof -
  have inner: "encodable demo_env (Suc 0) demo_inner"
    by (simp add: demo_inner_def demo_env_def n_entries_def encodable_field_def field_at_def demo_type_simps)
  have fields: "encodable_field demo_outer 0" "encodable_field demo_outer (Suc 0)" "encodable_field demo_outer (Suc (Suc 0))"
    unfolding encodable_field_def demo_outer_off demo_outer_fields
    by (simp_all add: demo_outer_def demo_type_simps)
  have sub: "PB_LTYPE (f_type (demo_outer ! 0)) \<noteq> PB_LTYPE_SUBMESSAGE" "PB_LTYPE (f_type (demo_outer ! 1)) \<noteq> PB_LTYPE_SUBMESSAGE"
    "env_fields demo_env (f_ptr (demo_outer ! 2)) = demo_inner"
    by (simp_all add: demo_outer_def demo_type_simps demo_env_def)
  have "encodable demo_env (Suc (Suc 0)) demo_outer"
    unfolding encodable.simps(2) [of _ "Suc 0"] demo_outer_fields(1)
    using less_3_cases fields sub inner demo_outer_fields by fastforce
  then show ?thesis by (simp only: numeral_2_eq_2)
qed

section \<open>The encoder writes the message, or refuses\<close>

text \<open>
  C1: \<open>pb_encode\<close> refines \<open>message_out\<close>, a function from a struct to bytes that knows of no stream:
  on a buffer the call returns, it succeeds exactly when the message can be written and fits, the
  buffer then starts with its bytes, and in every case nothing outside the buffer changes.
\<close>

theorem pb_encode_refines:
  assumes "static_message env n fs sz" "encodable env n fs" "NULL \<notin> region src sz"
    "message_out env n c fs src = (bs, ok)" "length bs < 2 ^ 63"
    "region buf (unat bufsize) \<inter> region src sz = {}" "unat bufsize \<le> 2 ^ 63"
  shows "\<exists>st'. pb_encode env n fs src (pb_ostream_from_buffer buf bufsize, c) = Some (ok \<and> length bs \<le> unat bufsize, st') \<and>
    (ok \<and> length bs \<le> unat bufsize \<longrightarrow>
       os_bytes_written (fst st') = of_nat (length bs) \<and> snd st' = c\<lparr>cmem := store_bytes (cmem c) buf bs\<rparr>) \<and>
    (\<forall>x. x \<notin> region buf (unat bufsize) \<longrightarrow> cmem (snd st') x = cmem c x) \<and> cblocks (snd st') = cblocks c"
  using encodable_does [OF assms(1-3), of c] assms(4) does_buffer [OF _ assms(6,7,5)] by simp

theorem pb_encode_refines_witness:
  "\<exists>st'. pb_encode demo_env 2 demo_outer 0x2000 (pb_ostream_from_buffer 0x3000 32, demo_struct) = Some (True, st') \<and>
    os_bytes_written (fst st') = 17 \<and>
    load_bytes (cmem (snd st')) 0x3000 17 = [0x08, 150, 1, 0x12, 8, 7, 0, 0, 0, 0, 1, 0, 0, 0x1A, 2, 0x08, 1]"
proof -
  have null: "NULL \<notin> region 0x2000 25" by (simp add: region_def)
  have sep: "region 0x3000 (unat (32 :: u64)) \<inter> region 0x2000 25 = {}"
    by (rule regions_apart) simp_all
  let ?bs = "[0x08, 150, 1, 0x12, 8, 7, 0, 0, 0, 0, 1, 0, 0, 0x1A, 2, 0x08, 1] :: byte list"
  have len: "length ?bs < 2 ^ 63" "length ?bs \<le> unat (32 :: u64)" "unat (32 :: u64) \<le> 2 ^ 63" by simp_all
  obtain st' where "pb_encode demo_env 2 demo_outer 0x2000 (pb_ostream_from_buffer 0x3000 32, demo_struct) =
      Some (True \<and> length ?bs \<le> unat (32 :: u64), st')"
    "os_bytes_written (fst st') = of_nat (length ?bs)" "snd st' = demo_struct\<lparr>cmem := store_bytes (cmem demo_struct) 0x3000 ?bs\<rparr>"
    using pb_encode_refines [OF demo_outer_static demo_encodable null demo_out_code len(1) sep len(3)] len(2) by blast
  moreover have "load_bytes (store_bytes (cmem demo_struct) 0x3000 ?bs) 0x3000 17 = ?bs"
    by (rule load_store_same) simp_all
  ultimately show ?thesis using len(2) by (intro exI [of _ st']) (simp del: store_bytes.simps)
qed

text \<open>
  C7: the sizing pass and the encoding pass agree: the size \<open>pb_get_encoded_size\<close> reports is the
  number of bytes of the message, it reports none exactly where encoding is refused, the struct is
  not touched, and a buffer of that size is enough for \<open>pb_encode\<close>.
\<close>

theorem pb_get_encoded_size_exact:
  assumes "static_message env n fs sz" "encodable env n fs" "NULL \<notin> region src sz"
    "length (fst (message_out env n c fs src)) < 2 ^ 63"
    "pb_get_encoded_size env n fs src c = Some (Some num, c')"
    "region buf (unat num) \<inter> region src sz = {}"
  shows "c' = c \<and> unat num = length (fst (message_out env n c fs src)) \<and>
    (\<exists>st'. pb_encode env n fs src (pb_ostream_from_buffer buf num, c) = Some (True, st') \<and>
       os_bytes_written (fst st') = num)"
proof -
  obtain bs ok where out: "message_out env n c fs src = (bs, ok)" by (cases "message_out env n c fs src")
  then have d: "does (region src sz) c (pb_encode env n fs src) (bs, ok)"
    using encodable_does [OF assms(1-3), of c] by simp
  obtain sub where "pb_encode env n fs src (PB_OSTREAM_SIZING, c) = Some (ok, sub)" "snd sub = c"
    "ok \<longrightarrow> os_bytes_written (fst sub) = of_nat (length bs)"
    using does_size [OF d] by blast
  then have size: "c' = c" "ok" "num = of_nat (length bs)"
    using assms(5) by (auto simp: pb_get_encoded_size_def split: if_splits)
  have len: "length bs < 2 ^ 63" using assms(4) out by simp
  then have u: "unat num = length bs" unfolding size(3) by (simp add: unat_of_nat)
  show ?thesis
    using does_buffer [OF d assms(6) _ len] size u len out by auto
qed


theorem pb_get_encoded_size_exact_witness:
  "\<exists>st'. pb_encode demo_env 2 demo_outer 0x2000 (pb_ostream_from_buffer 0x3000 17, demo_struct) = Some (True, st') \<and>
    os_bytes_written (fst st') = 17"
proof -
  have null: "NULL \<notin> region 0x2000 25" by (simp add: region_def)
  have sep: "region 0x3000 (unat (17 :: u64)) \<inter> region 0x2000 25 = {}"
    by (rule regions_apart) simp_all
  have d: "does (region 0x2000 25) demo_struct (pb_encode demo_env 2 demo_outer 0x2000)
      ([0x08, 150, 1, 0x12, 8, 7, 0, 0, 0, 0, 1, 0, 0, 0x1A, 2, 0x08, 1], True)"
    using encodable_does [OF demo_outer_static demo_encodable null, of demo_struct] by (simp only: demo_out_code)
  obtain sub where "pb_encode demo_env 2 demo_outer 0x2000 (PB_OSTREAM_SIZING, demo_struct) = Some (True, sub)"
    "snd sub = demo_struct" "os_bytes_written (fst sub) = 17"
    using does_size [OF d] by auto
  then have "pb_get_encoded_size demo_env 2 demo_outer 0x2000 demo_struct = Some (Some 17, demo_struct)"
    by (simp add: pb_get_encoded_size_def)
  moreover have "length (fst (message_out demo_env 2 demo_struct demo_outer 0x2000)) < 2 ^ 63"
    by (simp only: demo_out_code) simp
  ultimately show ?thesis
    using pb_get_encoded_size_exact [OF demo_outer_static demo_encodable null] sep by blast
qed

end
