(* ===== verification/Uv_Heap.thy ===== *)
theory Uv_Heap
  imports Prelude "HOL-Library.Monad_Syntax" "HOL-Library.Multiset"
begin

text \<open>
  The binary min-heap of \<open>heap-inl.h\<close> (libuv): nodes linked by pointers to both children and
  to the parent, in a store \<open>h_mem\<close>.  A node is a natural number, a pointer a \<open>node option\<close>.
  \<open>less_than\<close>, here \<open>lt\<close>, compares the structs the nodes are embedded in and is a parameter.
\<close>

section \<open>State\<close>

type_synonym node = nat

record heap_node =
  hn_left :: "node option"
  hn_right :: "node option"
  hn_parent :: "node option"

record heap =
  h_min :: "node option"
  h_nelts :: u32
  h_mem :: "node \<Rightarrow> heap_node"

definition heap_init :: "heap \<Rightarrow> heap" where
  "heap_init h = h\<lparr>h_min := None, h_nelts := 0\<rparr>"

definition heap_min :: "heap \<Rightarrow> node option" where
  "heap_min h = h_min h"

text \<open>The assignments \<open>x->left = p\<close>, \<open>x->right = p\<close>, \<open>x->parent = p\<close>.\<close>

definition set_left :: "node \<Rightarrow> node option \<Rightarrow> heap \<Rightarrow> heap" where
  "set_left x p h = h\<lparr>h_mem := (h_mem h)(x := (h_mem h x)\<lparr>hn_left := p\<rparr>)\<rparr>"

definition set_right :: "node \<Rightarrow> node option \<Rightarrow> heap \<Rightarrow> heap" where
  "set_right x p h = h\<lparr>h_mem := (h_mem h)(x := (h_mem h x)\<lparr>hn_right := p\<rparr>)\<rparr>"

definition set_parent :: "node \<Rightarrow> node option \<Rightarrow> heap \<Rightarrow> heap" where
  "set_parent x p h = h\<lparr>h_mem := (h_mem h)(x := (h_mem h x)\<lparr>hn_parent := p\<rparr>)\<rparr>"

abbreviation left_of :: "heap \<Rightarrow> node \<Rightarrow> node option" where "left_of h x \<equiv> hn_left (h_mem h x)"
abbreviation right_of :: "heap \<Rightarrow> node \<Rightarrow> node option" where "right_of h x \<equiv> hn_right (h_mem h x)"
abbreviation parent_of :: "heap \<Rightarrow> node \<Rightarrow> node option" where "parent_of h x \<equiv> hn_parent (h_mem h x)"

text \<open>\<open>if (x != NULL) x->parent = p\<close>\<close>

definition set_parent_opt :: "node option \<Rightarrow> node option \<Rightarrow> heap \<Rightarrow> heap" where
  "set_parent_opt x p h = (case x of None \<Rightarrow> h | Some y \<Rightarrow> set_parent y p h)"

section \<open>Swapping a parent with its child\<close>

definition heap_node_swap :: "node \<Rightarrow> node \<Rightarrow> heap \<Rightarrow> heap" where
  "heap_node_swap parent child h =
     (let t = h_mem h parent;
          h1 = h\<lparr>h_mem := (h_mem h)(parent := h_mem h child)\<rparr>;
          h2 = h1\<lparr>h_mem := (h_mem h1)(child := t)\<rparr>;
          h3 = set_parent parent (Some child) h2;
          (sibling, h4) =
            (if left_of h3 child = Some child
             then let h' = set_left child (Some parent) h3 in (right_of h' child, h')
             else let h' = set_right child (Some parent) h3 in (left_of h' child, h'));
          h5 = set_parent_opt sibling (Some child) h4;
          h6 = set_parent_opt (left_of h5 parent) (Some parent) h5;
          h7 = set_parent_opt (right_of h6 parent) (Some parent) h6
      in case parent_of h7 child of
           None \<Rightarrow> h7\<lparr>h_min := Some child\<rparr>
         | Some pp \<Rightarrow>
             if left_of h7 pp = Some parent then set_left pp (Some child) h7
             else set_right pp (Some child) h7)"

section \<open>The path to a position\<close>

text \<open>\<open>for (k = 0, n = \<dots>; n >= 2; k += 1, n /= 2) path = (path << 1) | (n & 1);\<close>\<close>

function heap_path :: "u32 \<Rightarrow> u32 \<Rightarrow> nat \<Rightarrow> u32 \<times> nat" where
  "heap_path n path k =
     (if 2 \<le> n then heap_path (n div 2) (push_bit 1 path OR (n AND 1)) (Suc k) else (path, k))"
  by pat_completeness auto
termination
  by (relation "measure (\<lambda>(n, path, k). unat n)") (auto simp: word_less_nat_alt word_le_nat_alt unat_div)

declare heap_path.simps [simp del]

text \<open>A \<open>struct heap_node**\<close>: the heap's \<open>min\<close>, or a field of a node.\<close>

datatype slot = Slot_Min | Slot_Left node | Slot_Right node

definition slot_get :: "slot \<Rightarrow> heap \<Rightarrow> node option" where
  "slot_get s h = (case s of Slot_Min \<Rightarrow> h_min h | Slot_Left x \<Rightarrow> left_of h x | Slot_Right x \<Rightarrow> right_of h x)"

definition slot_set :: "slot \<Rightarrow> node option \<Rightarrow> heap \<Rightarrow> heap" where
  "slot_set s p h =
     (case s of
        Slot_Min \<Rightarrow> h\<lparr>h_min := p\<rparr>
      | Slot_Left x \<Rightarrow> set_left x p h
      | Slot_Right x \<Rightarrow> set_right x p h)"

text \<open>
  The traversal, with \<open>parent\<close> one step behind \<open>child\<close>; \<open>None\<close> where the code would follow a null
  pointer.
\<close>

primrec heap_walk :: "nat \<Rightarrow> u32 \<Rightarrow> slot \<Rightarrow> slot \<Rightarrow> heap \<Rightarrow> (slot \<times> slot) option" where
  "heap_walk 0 path parent child h = Some (parent, child)"
| "heap_walk (Suc k) path parent child h =
     (case slot_get child h of
        None \<Rightarrow> None
      | Some x \<Rightarrow>
          heap_walk k (drop_bit 1 path) child (if path AND 1 \<noteq> 0 then Slot_Right x else Slot_Left x) h)"

section \<open>Insertion\<close>

text \<open>\<open>while (x->parent != NULL && less_than(x, x->parent)) heap_node_swap(heap, x->parent, x);\<close>\<close>

partial_function (option) heap_up :: "(node \<Rightarrow> node \<Rightarrow> bool) \<Rightarrow> node \<Rightarrow> heap \<Rightarrow> heap option" where
  "heap_up lt x h =
     (if (case parent_of h x of None \<Rightarrow> False | Some p \<Rightarrow> lt x p)
      then heap_up lt x (heap_node_swap (the (parent_of h x)) x h)
      else Some h)"

definition heap_insert :: "heap \<Rightarrow> node \<Rightarrow> (node \<Rightarrow> node \<Rightarrow> bool) \<Rightarrow> heap option" where
  "heap_insert h newnode lt =
     (let h1 = set_parent newnode None (set_right newnode None (set_left newnode None h)) in
      case heap_path (1 + h_nelts h1) 0 0 of
        (path, k) \<Rightarrow>
          do {
            (parent, child) \<leftarrow> heap_walk k path Slot_Min Slot_Min h1;
            let h2 = set_parent newnode (slot_get parent h1) h1;
                h3 = slot_set child (Some newnode) h2
            in heap_up lt newnode (h3\<lparr>h_nelts := h_nelts h3 + 1\<rparr>)
          })"

section \<open>Removal\<close>

definition heap_smallest :: "(node \<Rightarrow> node \<Rightarrow> bool) \<Rightarrow> node \<Rightarrow> heap \<Rightarrow> node" where
  "heap_smallest lt child h =
     (let s1 = (case left_of h child of
                  Some l \<Rightarrow> if lt l child then l else child | None \<Rightarrow> child)
      in case right_of h child of
           Some r \<Rightarrow> if lt r s1 then r else s1 | None \<Rightarrow> s1)"

partial_function (option) heap_down :: "(node \<Rightarrow> node \<Rightarrow> bool) \<Rightarrow> node \<Rightarrow> heap \<Rightarrow> heap option" where
  "heap_down lt child h =
     (let smallest = heap_smallest lt child h in
      if smallest = child then Some h
      else heap_down lt child (heap_node_swap child smallest h))"

definition heap_remove :: "heap \<Rightarrow> node \<Rightarrow> (node \<Rightarrow> node \<Rightarrow> bool) \<Rightarrow> heap option" where
  "heap_remove h node lt =
     (if h_nelts h = 0 then Some h
      else case heap_path (h_nelts h) 0 0 of
        (path, k) \<Rightarrow>
          do {
            (_, max) \<leftarrow> heap_walk k path Slot_Min Slot_Min h;
            child \<leftarrow> slot_get max h;
            let h2 = slot_set max None (h\<lparr>h_nelts := h_nelts h - 1\<rparr>)
            in
            if child = node
            then Some (if Some child = h_min h2 then h2\<lparr>h_min := None\<rparr> else h2)
            else
              let h3 = set_left child (left_of h2 node) h2;
                  h4 = set_right child (right_of h3 node) h3;
                  h5 = set_parent child (parent_of h4 node) h4;
                  h6 = set_parent_opt (left_of h5 child) (Some child) h5;
                  h7 = set_parent_opt (right_of h6 child) (Some child) h6;
                  h8 = (case parent_of h7 node of
                          None \<Rightarrow> h7\<lparr>h_min := Some child\<rparr>
                        | Some p \<Rightarrow>
                            if left_of h7 p = Some node then set_left p (Some child) h7
                            else set_right p (Some child) h7)
              in do {
                h9 \<leftarrow> heap_down lt child h8;
                heap_up lt child h9
              }
          })"

definition heap_dequeue :: "heap \<Rightarrow> (node \<Rightarrow> node \<Rightarrow> bool) \<Rightarrow> heap option" where
  "heap_dequeue h lt = (case h_min h of None \<Rightarrow> (if h_nelts h = 0 then Some h else None)
     | Some x \<Rightarrow> heap_remove h x lt)"

end
