(* ===== verification/Uv_Heap_List.thy ===== *)
theory Uv_Heap_List
  imports Prelude "HOL-Library.Multiset"
begin

text \<open>
  The abstract heap behind \<open>heap-inl.h\<close>: a list whose element \<open>i\<close> has its children at \<open>2i+1\<close> and
  \<open>2i+2\<close>, the two sifting loops on it, and the heap order they restore.  The order is a strict
  comparison whose negation is transitive, as every comparison of keys is; it is the locale
  \<open>strict_order\<close>.
\<close>

section \<open>Positions and sifting\<close>

definition par :: "nat \<Rightarrow> nat" where
  "par i = (i - 1) div 2"

definition exchange :: "nat \<Rightarrow> nat \<Rightarrow> 'a list \<Rightarrow> 'a list" where
  "exchange i j xs = xs[i := xs ! j, j := xs ! i]"

lemma par_less [simp]: "0 < i \<Longrightarrow> par i < i"
  by (auto simp: par_def)

lemma par_eq_iff: "0 < j \<Longrightarrow> par j = i \<longleftrightarrow> j = 2 * i + 1 \<or> j = 2 * i + 2"
  by (auto simp: par_def)

lemma exchange_simps [simp]:
  "length (exchange i j xs) = length xs"
  "i < length xs \<Longrightarrow> j < length xs \<Longrightarrow> exchange i j xs ! i = xs ! j"
  "i < length xs \<Longrightarrow> j < length xs \<Longrightarrow> exchange i j xs ! j = xs ! i"
  "k \<noteq> i \<Longrightarrow> k \<noteq> j \<Longrightarrow> exchange i j xs ! k = xs ! k"
  by (auto simp: exchange_def nth_list_update)

lemma mset_exchange [simp]:
  "i < length xs \<Longrightarrow> j < length xs \<Longrightarrow> mset (exchange i j xs) = mset xs"
  unfolding exchange_def by (simp add: mset_swap)

lemma set_exchange [simp]:
  "i < length xs \<Longrightarrow> j < length xs \<Longrightarrow> set (exchange i j xs) = set xs"
  by (metis mset_exchange set_mset_mset)

lemma distinct_exchange [simp]:
  "i < length xs \<Longrightarrow> j < length xs \<Longrightarrow> distinct (exchange i j xs) = distinct xs"
  unfolding exchange_def by (rule distinct_swap)

function sift_up :: "('a \<Rightarrow> 'a \<Rightarrow> bool) \<Rightarrow> nat \<Rightarrow> 'a list \<Rightarrow> 'a list" where
  "sift_up lt i xs =
     (if 0 < i \<and> lt (xs ! i) (xs ! par i) then sift_up lt (par i) (exchange (par i) i xs) else xs)"
  by pat_completeness auto
termination by (relation "measure (\<lambda>(lt, i, xs). i)") auto

declare sift_up.simps [simp del]

definition smallest_ix :: "('a \<Rightarrow> 'a \<Rightarrow> bool) \<Rightarrow> nat \<Rightarrow> 'a list \<Rightarrow> nat" where
  "smallest_ix lt i xs =
     (let s = (if 2 * i + 1 < length xs \<and> lt (xs ! (2 * i + 1)) (xs ! i) then 2 * i + 1 else i)
      in if 2 * i + 2 < length xs \<and> lt (xs ! (2 * i + 2)) (xs ! s) then 2 * i + 2 else s)"

lemma smallest_ix_cases:
  obtains "smallest_ix lt i xs = i"
    | "smallest_ix lt i xs = 2 * i + 1" "2 * i + 1 < length xs"
    | "smallest_ix lt i xs = 2 * i + 2" "2 * i + 2 < length xs"
  unfolding smallest_ix_def Let_def by (meson that)

lemma smallest_ix_child:
  assumes "smallest_ix lt i xs \<noteq> i"
  shows "0 < smallest_ix lt i xs" "smallest_ix lt i xs < length xs" "par (smallest_ix lt i xs) = i"
    "i < smallest_ix lt i xs"
  using assms by (cases rule: smallest_ix_cases [of lt i xs]; simp add: par_def)+

function sift_down :: "('a \<Rightarrow> 'a \<Rightarrow> bool) \<Rightarrow> nat \<Rightarrow> 'a list \<Rightarrow> 'a list \<times> nat" where
  "sift_down lt i xs =
     (let s = smallest_ix lt i xs in
      if s = i then (xs, i) else sift_down lt s (exchange i s xs))"
  by pat_completeness auto
termination
proof (relation "measure (\<lambda>(lt, i, xs). length xs - i)")
  fix lt :: "'a \<Rightarrow> 'a \<Rightarrow> bool" and i xs s
  assume "s = smallest_ix lt i xs" "s \<noteq> i"
  with smallest_ix_child [of lt i xs] have "i < s" "s < length xs" by auto
  then show "((lt, s, exchange i s xs), lt, i, xs) \<in> measure (\<lambda>(lt, i, xs). length xs - i)" by simp
qed simp

declare sift_down.simps [simp del]

lemma mset_sift_up [simp]: "i < length xs \<Longrightarrow> mset (sift_up lt i xs) = mset xs"
proof (induction lt i xs rule: sift_up.induct)
  case (1 lt i xs)
  show ?case
  proof (cases "0 < i \<and> lt (xs ! i) (xs ! par i)")
    case True
    have "par i < length xs" using True 1(2) par_less [of i] by linarith
    then show ?thesis using True 1 by (subst sift_up.simps) simp
  next
    case False
    then show ?thesis by (subst sift_up.simps) auto
  qed
qed

lemma sift_down_mset:
  "i < length xs \<Longrightarrow> mset (fst (sift_down lt i xs)) = mset xs \<and> snd (sift_down lt i xs) < length xs"
proof (induction lt i xs rule: sift_down.induct)
  case (1 lt i xs)
  show ?case
  proof (cases "smallest_ix lt i xs = i")
    case True
    then show ?thesis using 1(2) by (subst (1 2) sift_down.simps) (simp add: Let_def)
  next
    case False
    note c = smallest_ix_child [OF False]
    from 1(1) [OF refl False] c 1(2) show ?thesis
      by (subst (1 2) sift_down.simps) (simp add: Let_def False)
  qed
qed

lemmas mset_sift_down [simp] = sift_down_mset [THEN conjunct1]
lemmas sift_down_less = sift_down_mset [THEN conjunct2]

lemma length_sift_down: "i < length xs \<Longrightarrow> length (fst (sift_down lt i xs)) = length xs"
  by (metis mset_sift_down size_mset)

text \<open>Insertion behind the last element, and removal of element \<open>i\<close> by the last one.\<close>

definition list_insert :: "('a \<Rightarrow> 'a \<Rightarrow> bool) \<Rightarrow> 'a \<Rightarrow> 'a list \<Rightarrow> 'a list" where
  "list_insert lt x xs = sift_up lt (length xs) (xs @ [x])"

definition list_remove :: "('a \<Rightarrow> 'a \<Rightarrow> bool) \<Rightarrow> nat \<Rightarrow> 'a list \<Rightarrow> 'a list" where
  "list_remove lt i xs =
     (if Suc i = length xs then butlast xs
      else case sift_down lt i ((butlast xs)[i := last xs]) of (ys, k) \<Rightarrow> sift_up lt k ys)"

lemma mset_list_insert [simp]: "mset (list_insert lt x xs) = add_mset x (mset xs)"
  by (simp add: list_insert_def)

lemma mset_snoc_last: "xs \<noteq> [] \<Longrightarrow> add_mset (last xs) (mset (butlast xs)) = mset xs"
  by (induction xs) auto

lemma mset_replace_last:
  assumes "Suc i < length xs"
  shows "add_mset (xs ! i) (mset ((butlast xs)[i := last xs])) = mset xs"
proof -
  have "mset xs = add_mset (last xs) (mset (butlast xs))" using assms by (subst mset_snoc_last) auto
  moreover have i: "i < length (butlast xs)" "butlast xs ! i = xs ! i"
    using assms by (simp_all add: nth_butlast)
  moreover from i have "xs ! i \<in># mset (butlast xs)" using nth_mem_mset [of i "butlast xs"] by simp
  ultimately show ?thesis by (simp add: mset_update)
qed

lemma mset_list_remove:
  assumes "i < length xs"
  shows "add_mset (xs ! i) (mset (list_remove lt i xs)) = mset xs"
proof (cases "Suc i = length xs")
  case True
  then have "xs \<noteq> []" by auto
  moreover from this have "xs ! i = last xs" using True by (simp add: last_conv_nth flip: True)
  ultimately show ?thesis using True mset_snoc_last [of xs] by (simp add: list_remove_def)
next
  case False
  let ?bs = "(butlast xs)[i := last xs]"
  obtain ys k where d: "sift_down lt i ?bs = (ys, k)" by (cases "sift_down lt i ?bs")
  have "i < length ?bs" using assms False by simp
  from sift_down_mset [OF this, of lt] have "mset ys = mset ?bs" "k < length ?bs" using d by auto
  moreover from this have "length ys = length ?bs" by (metis size_mset)
  ultimately have "mset (sift_up lt k ys) = mset ?bs" by simp
  moreover have "list_remove lt i xs = sift_up lt k ys" using False d by (simp add: list_remove_def)
  moreover have "Suc i < length xs" using assms False by simp
  ultimately show ?thesis using mset_replace_last [of i xs] by simp
qed

section \<open>The heap order\<close>

definition heap_ordered :: "('a \<Rightarrow> 'a \<Rightarrow> bool) \<Rightarrow> 'a list \<Rightarrow> bool" where
  "heap_ordered lt xs \<longleftrightarrow> (\<forall>j. 0 < j \<and> j < length xs \<longrightarrow> \<not> lt (xs ! j) (xs ! par j))"

text \<open>
  \<open>open_above lt i xs\<close>: only element \<open>i\<close> may be less than its parent; \<open>open_at lt i xs\<close>: nor need
  its children respect it.  In both its children respect its parent.
\<close>

definition open_above :: "('a \<Rightarrow> 'a \<Rightarrow> bool) \<Rightarrow> nat \<Rightarrow> 'a list \<Rightarrow> bool" where
  "open_above lt i xs \<longleftrightarrow>
     (\<forall>j. 0 < j \<and> j < length xs \<and> j \<noteq> i \<longrightarrow> \<not> lt (xs ! j) (xs ! par j)) \<and>
     (\<forall>j. 0 < j \<and> j < length xs \<and> 0 < i \<and> par j = i \<longrightarrow> \<not> lt (xs ! j) (xs ! par i))"

definition open_at :: "('a \<Rightarrow> 'a \<Rightarrow> bool) \<Rightarrow> nat \<Rightarrow> 'a list \<Rightarrow> bool" where
  "open_at lt i xs \<longleftrightarrow>
     (\<forall>j. 0 < j \<and> j < length xs \<and> j \<noteq> i \<and> par j \<noteq> i \<longrightarrow> \<not> lt (xs ! j) (xs ! par j)) \<and>
     (\<forall>j. 0 < j \<and> j < length xs \<and> 0 < i \<and> par j = i \<longrightarrow> \<not> lt (xs ! j) (xs ! par i))"

lemma heap_ordered_snoc: "heap_ordered lt xs \<Longrightarrow> open_above lt (length xs) (xs @ [x])"
proof -
  assume o: "heap_ordered lt xs"
  have "par j < length xs" if "0 < j" "j < length xs" for j
    using that par_less [of j] by linarith
  moreover have "par j \<noteq> length xs" if "0 < j" "j < Suc (length xs)" for j
    using that par_less [of j] by linarith
  ultimately show ?thesis
    using o by (auto simp: heap_ordered_def open_above_def nth_append less_Suc_eq)
qed

lemma heap_ordered_butlast:
  "heap_ordered lt xs \<Longrightarrow> heap_ordered lt (butlast xs)"
proof -
  assume o: "heap_ordered lt xs"
  have "par j < length xs - 1" if "0 < j" "j < length xs - 1" for j
    using that par_less [of j] by linarith
  then show ?thesis using o by (auto simp: heap_ordered_def nth_butlast)
qed

locale strict_order =
  fixes lt :: "'a \<Rightarrow> 'a \<Rightarrow> bool"
  assumes asym: "lt a b \<Longrightarrow> \<not> lt b a"
    and neg_trans: "\<not> lt a b \<Longrightarrow> \<not> lt b c \<Longrightarrow> \<not> lt a c"
begin

lemma irrefl [simp]: "\<not> lt a a"
  using asym by blast

lemma heap_ordered_root:
  assumes "heap_ordered lt xs" "i < length xs"
  shows "\<not> lt (xs ! i) (xs ! 0)"
  using assms(2)
proof (induction i rule: less_induct)
  case (less i)
  show ?case
  proof (cases "i = 0")
    case False
    then have p: "par i < i" by simp
    with less have "\<not> lt (xs ! par i) (xs ! 0)" by simp
    moreover have "\<not> lt (xs ! i) (xs ! par i)"
      using assms(1) less.prems False by (simp add: heap_ordered_def)
    ultimately show ?thesis using neg_trans by blast
  qed simp
qed

lemma sift_up_ordered:
  "open_above lt i xs \<Longrightarrow> i < length xs \<Longrightarrow> heap_ordered lt (sift_up lt i xs)"
proof (induction i arbitrary: xs rule: less_induct)
  case (less i)
  show ?case
  proof (cases "0 < i \<and> lt (xs ! i) (xs ! par i)")
    case False
    then show ?thesis using less.prems
      by (subst sift_up.simps) (auto simp: heap_ordered_def open_above_def)
  next
    case True
    define p where "p = par i"
    have "p < i" using True by (simp add: p_def)
    then have p: "p < i" "p < length xs" "p \<noteq> i" using less.prems(2) by auto
    let ?ys = "exchange p i xs"
    have e: "\<not> lt (xs ! j) (xs ! par j)" if "0 < j" "j < length xs" "j \<noteq> i" for j
      using less.prems(1) that by (simp add: open_above_def)
    have g: "\<not> lt (xs ! j) (xs ! p)" if "0 < j" "j < length xs" "par j = i" for j
      using less.prems(1) that True by (simp add: open_above_def p_def)
    have ip: "\<not> lt (xs ! p) (xs ! i)" using True asym by (simp add: p_def)
    have "open_above lt p ?ys"
      unfolding open_above_def
    proof (intro conjI allI impI; elim conjE)
      fix j assume j: "0 < j" "j < length ?ys" "j \<noteq> p"
      consider "j = i" | "j \<noteq> i" "par j = i" | "j \<noteq> i" "par j = p" | "j \<noteq> i" "par j \<noteq> i" "par j \<noteq> p"
        by blast
      then show "\<not> lt (?ys ! j) (?ys ! par j)"
      proof cases
        case 1
        then have "par j = p" by (simp add: p_def)
        then show ?thesis using 1 ip less.prems(2) p by simp
      next
        case 2
        then show ?thesis using g j less.prems(2) p by simp
      next
        case 3
        have "\<not> lt (xs ! j) (xs ! p)" using e [of j] 3 j by simp
        then show ?thesis using 3 j less.prems(2) p True asym neg_trans [of "xs ! j" "xs ! p" "xs ! i"] ip
          by simp
      next
        case 4
        then show ?thesis using e [of j] j by simp
      qed
    next
      fix j assume j: "0 < j" "j < length ?ys" "0 < p" "par j = p"
      have q: "par p < p" using j by simp
      have top: "\<not> lt (xs ! p) (xs ! par p)" using e [of p] p j by simp
      have "\<not> lt (?ys ! j) (xs ! par p)"
      proof (cases "j = i")
        case True
        then show ?thesis using top p less.prems(2) by simp
      next
        case False
        moreover have "j \<noteq> p" using j par_less [of j] by auto
        ultimately show ?thesis using e [of j] j top neg_trans [of "xs ! j" "xs ! p"] by simp
      qed
      then show "\<not> lt (?ys ! j) (?ys ! par p)" using p q by simp
    qed
    from less.IH [OF p(1) this] p less.prems(2) True show ?thesis
      by (subst sift_up.simps) (simp add: p_def)
  qed
qed

lemma smallest_ix_least:
  assumes "0 < j" "j < length xs" "par j = i"
  shows "\<not> lt (xs ! j) (xs ! smallest_ix lt i xs)"
proof -
  consider "j = 2 * i + 1" | "j = 2 * i + 2" using assms by (auto simp: par_eq_iff)
  then show ?thesis
  proof cases
    case 1
    then show ?thesis using assms(2) asym neg_trans irrefl
      by (smt (verit) smallest_ix_def)
  next
    case 2
    then show ?thesis using assms(2) by (auto simp: smallest_ix_def Let_def)
  qed
qed

lemma sift_down_open:
  "open_at lt i xs \<Longrightarrow> i < length xs \<Longrightarrow> sift_down lt i xs = (ys, k) \<Longrightarrow> open_above lt k ys"
proof (induction "length xs - i" arbitrary: i xs rule: less_induct)
  case less
  define s where "s = smallest_ix lt i xs"
  have e: "\<not> lt (xs ! j) (xs ! par j)" if "0 < j" "j < length xs" "j \<noteq> i" "par j \<noteq> i" for j
    using less.prems(1) that by (simp add: open_at_def)
  have g: "\<not> lt (xs ! j) (xs ! par i)" if "0 < j" "j < length xs" "0 < i" "par j = i" for j
    using less.prems(1) that by (simp add: open_at_def)
  have l: "\<not> lt (xs ! j) (xs ! s)" if "0 < j" "j < length xs" "par j = i" for j
    using smallest_ix_least [OF that] by (simp add: s_def)
  show ?case
  proof (cases "s = i")
    case True
    then have "ys = xs" "k = i"
      using less.prems(3) by (subst (asm) sift_down.simps, simp add: s_def Let_def)+
    with True e g l show ?thesis by (auto simp: open_above_def)
  next
    case False
    have s: "0 < s" "s < length xs" "par s = i" "i < s"
      using smallest_ix_child [of lt i xs] False by (auto simp: s_def)
    let ?zs = "exchange i s xs"
    have "open_at lt s ?zs"
      unfolding open_at_def
    proof (intro conjI allI impI; elim conjE)
      fix j assume j: "0 < j" "j < length ?zs" "j \<noteq> s" "par j \<noteq> s"
      consider "j = i" | "j \<noteq> i" "par j = i" | "j \<noteq> i" "par j \<noteq> i" by blast
      then show "\<not> lt (?zs ! j) (?zs ! par j)"
      proof cases
        case 1
        then have "par i < i" using j by simp
        then have "par i \<noteq> i" by simp
        then show ?thesis using 1 g [OF s(1,2) _ s(3)] j s less.prems(2) by simp
      next
        case 2
        then show ?thesis using l j s less.prems(2) by simp
      next
        case 3
        then show ?thesis using e j by simp
      qed
    next
      fix j assume j: "0 < j" "j < length ?zs" "0 < s" "par j = s"
      then have "j \<noteq> i" "j \<noteq> s" using s par_less [of j] by auto
      then show "\<not> lt (?zs ! j) (?zs ! par s)" using e [of j] j s less.prems(2) by simp
    qed
    moreover have "sift_down lt s ?zs = (ys, k)"
      using less.prems(3) False by (subst (asm) sift_down.simps, simp add: s_def Let_def)
    ultimately show ?thesis using less.hyps [of ?zs s] s less.prems(2) by simp
  qed
qed

lemma list_insert_ordered: "heap_ordered lt xs \<Longrightarrow> heap_ordered lt (list_insert lt x xs)"
  unfolding list_insert_def by (intro sift_up_ordered heap_ordered_snoc) simp_all

lemma replace_open:
  assumes "heap_ordered lt xs" "Suc i < length xs"
  shows "open_at lt i ((butlast xs)[i := x])"
  unfolding open_at_def
proof (intro conjI allI impI; elim conjE)
  fix j assume j: "0 < j" "j < length ((butlast xs)[i := x])" "j \<noteq> i" "par j \<noteq> i"
  have "par j < length xs - 1" using par_less [OF j(1)] j(2) by simp
  then show "\<not> lt ((butlast xs)[i := x] ! j) ((butlast xs)[i := x] ! par j)"
    using assms(1) j by (simp add: heap_ordered_def nth_butlast)
next
  fix j assume j: "0 < j" "j < length ((butlast xs)[i := x])" "0 < i" "par j = i"
  have p: "par i < i" using j par_less [of i] by simp
  moreover have "i < j" using j par_less [of j] by simp
  ultimately have p: "par i < i" "par i \<noteq> i" "j \<noteq> i" by simp_all
  have "\<not> lt (xs ! j) (xs ! i)" "\<not> lt (xs ! i) (xs ! par i)"
    using assms j by (auto simp: heap_ordered_def)
  then have "\<not> lt (xs ! j) (xs ! par i)" using neg_trans by blast
  then show "\<not> lt ((butlast xs)[i := x] ! j) ((butlast xs)[i := x] ! par i)"
    using j p assms(2) by (simp add: nth_butlast)
qed

lemma list_remove_ordered:
  assumes "heap_ordered lt xs" "i < length xs"
  shows "heap_ordered lt (list_remove lt i xs)"
proof (cases "Suc i = length xs")
  case True
  then show ?thesis using assms(1) by (simp add: list_remove_def heap_ordered_butlast)
next
  case False
  let ?bs = "(butlast xs)[i := last xs]"
  obtain ys k where d: "sift_down lt i ?bs = (ys, k)" by (cases "sift_down lt i ?bs")
  have i: "i < length ?bs" "Suc i < length xs" using assms False by auto
  have "open_above lt k ys" by (rule sift_down_open [OF replace_open [OF assms(1) i(2)] i(1) d])
  moreover have "k < length ys"
    using sift_down_less [OF i(1), of lt] length_sift_down [OF i(1), of lt] d by simp
  ultimately show ?thesis using False d by (simp add: list_remove_def sift_up_ordered)
qed

end

end
