(* ===== verification/Uv_Heap_Refine.thy ===== *)
theory Uv_Heap_Refine
  imports Uv_Heap Uv_Heap_List
begin

text \<open>
  The pointer heap of \<open>heap-inl.h\<close> refines the list heap: \<open>heap_repr h xs\<close> says that the nodes
  of \<open>h\<close>, read level by level, are \<open>xs\<close>.  Swapping a node with its child is an exchange of two
  positions, the path computed from the number of elements leads to the slot behind (or of) the
  last position, and insertion and removal are those of the list.
\<close>

section \<open>The representation relation\<close>

text \<open>\<open>slot_at xs i\<close> is the pointer to the node at position \<open>i\<close>, null behind the last one.\<close>

definition slot_at :: "node list \<Rightarrow> nat \<Rightarrow> node option" where
  "slot_at xs i = (if i < length xs then Some (xs ! i) else None)"

definition heap_repr :: "heap \<Rightarrow> node list \<Rightarrow> bool" where
  "heap_repr h xs \<longleftrightarrow>
     distinct xs \<and> length xs = unat (h_nelts h) \<and> h_min h = slot_at xs 0 \<and>
     (\<forall>i < length xs.
        left_of h (xs ! i) = slot_at xs (2 * i + 1) \<and> right_of h (xs ! i) = slot_at xs (2 * i + 2) \<and>
        parent_of h (xs ! i) = (if i = 0 then None else Some (xs ! par i)))"

lemma slot_at_eq_Some: "slot_at xs i = Some y \<longleftrightarrow> i < length xs \<and> xs ! i = y"
  by (auto simp: slot_at_def)

lemma slot_at_Some: "i < length xs \<Longrightarrow> slot_at xs i = Some (xs ! i)"
  by (simp add: slot_at_def)

lemma map_slot_at: "map_option f (slot_at xs i) = slot_at (map f xs) i"
  by (simp add: slot_at_def)

text \<open>Renaming the nodes of a heap; swapping two nodes, or replacing one, is a renaming.\<close>

definition rename_node :: "(node \<Rightarrow> node) \<Rightarrow> heap_node \<Rightarrow> heap_node" where
  "rename_node f r =
     \<lparr>hn_left = map_option f (hn_left r), hn_right = map_option f (hn_right r),
      hn_parent = map_option f (hn_parent r)\<rparr>"

lemma heap_repr_rename:
  assumes "heap_repr h xs" "inj_on f (set xs)"
    and "h_nelts h' = h_nelts h" "h_min h' = map_option f (h_min h)"
    and "\<And>y. y \<in> set xs \<Longrightarrow> h_mem h' (f y) = rename_node f (h_mem h y)"
  shows "heap_repr h' (map f xs)"
  using assms(1-4) by (auto simp: heap_repr_def distinct_map map_slot_at assms(5) rename_node_def par_def)

text \<open>What the pointers of a heap satisfy, without the positions.\<close>

definition linked :: "heap \<Rightarrow> node set \<Rightarrow> bool" where
  "linked h S \<longleftrightarrow>
     (\<forall>y \<in> S. \<forall>z. left_of h y = Some z \<longrightarrow> z \<in> S \<and> parent_of h z = Some y \<and> right_of h y \<noteq> Some z \<and> z \<noteq> y) \<and>
     (\<forall>y \<in> S. \<forall>z. right_of h y = Some z \<longrightarrow> z \<in> S \<and> parent_of h z = Some y \<and> left_of h y \<noteq> Some z \<and> z \<noteq> y) \<and>
     (\<forall>y \<in> S. \<forall>z. parent_of h y = Some z \<longrightarrow>
        z \<in> S \<and> (left_of h z = Some y \<or> right_of h z = Some y) \<and> parent_of h z \<noteq> Some y \<and> z \<noteq> y) \<and>
     (\<forall>y \<in> S. parent_of h y = None \<longleftrightarrow> h_min h = Some y)"

lemma heap_repr_linked:
  assumes "heap_repr h xs"
  shows "linked h (set xs)"
proof -
  have d: "distinct xs" and m: "h_min h = slot_at xs 0"
    and l: "\<And>i. i < length xs \<Longrightarrow> left_of h (xs ! i) = slot_at xs (2 * i + 1)"
    and r: "\<And>i. i < length xs \<Longrightarrow> right_of h (xs ! i) = slot_at xs (2 * i + 2)"
    and p: "\<And>i. i < length xs \<Longrightarrow> parent_of h (xs ! i) = (if i = 0 then None else Some (xs ! par i))"
    using assms by (auto simp: heap_repr_def)
  have eq: "xs ! i = xs ! j \<longleftrightarrow> i = j" if "i < length xs" "j < length xs" for i j
    using d that by (simp add: nth_eq_iff_index_eq)
  have pl: "par i < length xs" if "0 < i" "i < length xs" for i
    using that par_less [of i] by linarith
  have "\<exists>i < length xs. y = xs ! i" if "y \<in> set xs" for y using that by (auto simp: in_set_conv_nth)
  note ex = this
  show ?thesis
    unfolding linked_def
  proof (intro conjI ballI allI impI; (elim conjE)?)
    fix y z assume "y \<in> set xs" and z: "left_of h y = Some z"
    with ex obtain i where i: "i < length xs" "y = xs ! i" by blast
    with z l have zi: "2 * i + 1 < length xs" "z = xs ! (2 * i + 1)" by (auto simp: slot_at_eq_Some)
    then show "z \<in> set xs" by simp
    show "parent_of h z = Some y" using zi i by (simp add: p par_def)
    show "right_of h y \<noteq> Some z" "z \<noteq> y" using zi i by (auto simp: r slot_at_eq_Some eq)
  next
    fix y z assume "y \<in> set xs" and z: "right_of h y = Some z"
    with ex obtain i where i: "i < length xs" "y = xs ! i" by blast
    with z r have zi: "2 * i + 2 < length xs" "z = xs ! (2 * i + 2)" by (auto simp: slot_at_eq_Some)
    then show "z \<in> set xs" by simp
    show "parent_of h z = Some y" using zi i by (simp add: p par_def)
    show "left_of h y \<noteq> Some z" "z \<noteq> y" using zi i by (auto simp: l slot_at_eq_Some eq)
  next
    fix y z assume "y \<in> set xs" and z: "parent_of h y = Some z"
    with ex obtain i where i: "i < length xs" "y = xs ! i" by blast
    with z p have zi: "0 < i" "z = xs ! par i" by (auto split: if_splits)
    note q = pl [OF zi(1) i(1)] par_less [OF zi(1)]
    then show "z \<in> set xs" using zi by simp
    have "i = 2 * par i + 1 \<or> i = 2 * par i + 2" using par_eq_iff [OF zi(1), of "par i"] by simp
    then show "left_of h z = Some y \<or> right_of h z = Some y"
      using zi i q by (auto simp: l r slot_at_eq_Some)
    show "z \<noteq> y" using zi i q by (simp add: eq)
    have "xs ! par (par i) \<noteq> xs ! i" if "0 < par i"
      using par_less [OF that] q i by (subst eq) auto
    then show "parent_of h z \<noteq> Some y" using zi i q by (simp add: p)
  next
    fix y assume "y \<in> set xs"
    with ex obtain i where i: "i < length xs" "y = xs ! i" by blast
    have "xs ! 0 = xs ! i \<longleftrightarrow> 0 = i" using i by (intro eq) auto
    with i show "parent_of h y = None \<longleftrightarrow> h_min h = Some y"
      by (auto simp: p m slot_at_eq_Some)
  qed
qed

lemmas heap_set_simps = set_left_def set_right_def set_parent_def set_parent_opt_def

definition swap_nodes :: "node \<Rightarrow> node \<Rightarrow> node \<Rightarrow> node" where
  "swap_nodes a b y = (if y = a then b else if y = b then a else y)"

section \<open>Swapping\<close>

lemma set_mem:
  "h_mem (set_left x p h) y = (if y = x then (h_mem h y)\<lparr>hn_left := p\<rparr> else h_mem h y)"
  "h_mem (set_right x p h) y = (if y = x then (h_mem h y)\<lparr>hn_right := p\<rparr> else h_mem h y)"
  "h_mem (set_parent x p h) y = (if y = x then (h_mem h y)\<lparr>hn_parent := p\<rparr> else h_mem h y)"
  "h_mem (set_parent_opt s p h) y = (if s = Some y then (h_mem h y)\<lparr>hn_parent := p\<rparr> else h_mem h y)"
  by (auto simp: heap_set_simps split: option.splits)

lemma set_fields [simp]:
  "h_min (set_left x p h) = h_min h" "h_nelts (set_left x p h) = h_nelts h"
  "h_min (set_right x p h) = h_min h" "h_nelts (set_right x p h) = h_nelts h"
  "h_min (set_parent x p h) = h_min h" "h_nelts (set_parent x p h) = h_nelts h"
  "h_min (set_parent_opt s p h) = h_min h" "h_nelts (set_parent_opt s p h) = h_nelts h"
  by (simp_all add: heap_set_simps split: option.splits)

lemma linkedD:
  assumes "linked h S" "y \<in> S"
  shows "left_of h y = Some z \<Longrightarrow> z \<in> S \<and> parent_of h z = Some y \<and> right_of h y \<noteq> Some z \<and> z \<noteq> y"
    and "right_of h y = Some z \<Longrightarrow> z \<in> S \<and> parent_of h z = Some y \<and> left_of h y \<noteq> Some z \<and> z \<noteq> y"
    and "parent_of h y = Some z \<Longrightarrow> z \<in> S \<and> (left_of h z = Some y \<or> right_of h z = Some y) \<and>
      parent_of h z \<noteq> Some y \<and> z \<noteq> y"
    and "parent_of h y = None \<longleftrightarrow> h_min h = Some y"
  using assms unfolding linked_def by blast+

lemma heap_node_swap_fields:
  assumes "a \<noteq> b" "right_of h a \<noteq> Some a" "left_of h a \<noteq> Some a"
    "left_of h b \<noteq> Some a" "left_of h b \<noteq> Some b" "right_of h b \<noteq> Some a" "right_of h b \<noteq> Some b"
    "parent_of h a \<noteq> Some a" "parent_of h a \<noteq> Some b"
  defines "is_left \<equiv> left_of h a = Some b"
  defines "sib \<equiv> if is_left then right_of h a else left_of h a"
  assumes "sib \<noteq> Some b"
  shows "left_of (heap_node_swap a b h) y =
     (if y = a then left_of h b
      else if y = b then (if is_left then Some a else left_of h a)
      else if parent_of h a = Some y \<and> left_of h y = Some a then Some b else left_of h y)" (is ?l)
  and "right_of (heap_node_swap a b h) y =
     (if y = a then right_of h b
      else if y = b then (if is_left then right_of h a else Some a)
      else if parent_of h a = Some y \<and> left_of h y \<noteq> Some a then Some b else right_of h y)" (is ?r)
  and "parent_of (heap_node_swap a b h) y =
     (if y = a then Some b
      else if y = b then parent_of h a
      else if right_of h b = Some y \<or> left_of h b = Some y then Some a
      else if sib = Some y then Some b else parent_of h y)" (is ?p)
  and "h_min (heap_node_swap a b h) = (if parent_of h a = None then Some b else h_min h)" (is ?m)
  and "h_nelts (heap_node_swap a b h) = h_nelts h" (is ?n)
proof -
  define h1 where "h1 = h\<lparr>h_mem := (h_mem h)(a := h_mem h b)\<rparr>"
  define h2 where "h2 = h1\<lparr>h_mem := (h_mem h1)(b := h_mem h a)\<rparr>"
  define h3 where "h3 = set_parent a (Some b) h2"
  define h4 where "h4 = (if is_left then set_left b (Some a) h3 else set_right b (Some a) h3)"
  define h5 where "h5 = set_parent_opt sib (Some b) h4"
  define h6 where "h6 = set_parent_opt (left_of h b) (Some a) h5"
  define h7 where "h7 = set_parent_opt (right_of h b) (Some a) h6"
  have m3: "h_mem h3 y = (if y = a then (h_mem h b)\<lparr>hn_parent := Some b\<rparr> else if y = b then h_mem h a else h_mem h y)" for y
    using assms(1) by (simp add: h3_def h2_def h1_def set_mem)
  have m4: "left_of h4 y = (if y = b \<and> is_left then Some a else left_of h3 y)"
      "right_of h4 y = (if y = b \<and> \<not> is_left then Some a else right_of h3 y)" "parent_of h4 y = parent_of h3 y" for y
    using assms(1) by (simp_all add: h4_def set_mem m3)
  have m7: "left_of h7 y = left_of h4 y" "right_of h7 y = right_of h4 y"
      "parent_of h7 y = (if right_of h b = Some y \<or> left_of h b = Some y then Some a
         else if sib = Some y then Some b else parent_of h3 y)" for y
    by (simp_all add: h7_def h6_def h5_def set_mem m4)
  have s7: "h_min h7 = h_min h" "h_nelts h7 = h_nelts h"
    by (simp_all add: h7_def h6_def h5_def h4_def h3_def h2_def h1_def)
  have is_left: "left_of h3 b = Some b \<longleftrightarrow> is_left" using assms(1) by (simp add: m3 is_left_def)
  have sib: "(if is_left then (right_of (set_left b (Some a) h3) b, set_left b (Some a) h3)
      else (left_of (set_right b (Some a) h3) b, set_right b (Some a) h3)) = (sib, h4)"
    using assms(1) by (simp add: sib_def h4_def set_mem m3)
  have c: "left_of h5 a = left_of h b" "right_of h6 a = right_of h b" "parent_of h7 b = parent_of h a"
    using assms by (simp_all add: h6_def h5_def set_mem m3 m4 m7)
  have eq: "heap_node_swap a b h = (case parent_of h a of
           None \<Rightarrow> h7\<lparr>h_min := Some b\<rparr>
         | Some pp \<Rightarrow>
             if left_of h7 pp = Some a then set_left pp (Some b) h7
             else set_right pp (Some b) h7)"
    by (simp only: heap_node_swap_def Let_def h1_def [symmetric] h2_def [symmetric] h3_def [symmetric]
        is_left sib c prod.case h5_def [symmetric] h6_def [symmetric] h7_def [symmetric])
  have p: "left_of h7 z = left_of h z" "z \<noteq> a" "z \<noteq> b" if "parent_of h a = Some z" for z
    using that assms by (auto simp: m7 m4 m3)
  show ?l ?r
    using assms(1,8,9) p by (cases "parent_of h a"; simp add: eq set_mem m7 m4 m3 is_left_def)+
  have "sib \<noteq> Some a" using assms(2,3) by (simp add: sib_def)
  then show ?p
    using assms(1-9,12) by (cases "parent_of h a"; auto simp: eq set_mem m7 m4 m3)
  show ?m ?n
    by (cases "parent_of h a"; simp add: eq s7)+
qed


lemma map_swap_nodes:
  "map_option (swap_nodes a b) p = (if p = Some a then Some b else if p = Some b then Some a else p)"
  by (cases p) (auto simp: swap_nodes_def)

lemma swap_node:
  assumes lk: "linked h S" and b: "b \<in> S" "parent_of h b = Some a" and y: "y \<in> S"
  shows "h_mem (heap_node_swap a b h) (swap_nodes a b y) = rename_node (swap_nodes a b) (h_mem h y)"
    "h_min (heap_node_swap a b h) = map_option (swap_nodes a b) (h_min h)"
    "h_nelts (heap_node_swap a b h) = h_nelts h"
proof -
  note D = linkedD [OF lk]
  have a: "a \<in> S" "left_of h a = Some b \<or> right_of h a = Some b" "parent_of h a \<noteq> Some b" "a \<noteq> b"
    using D(3) [OF b] by auto
  have nl: "left_of h z \<noteq> Some z" "right_of h z \<noteq> Some z" "parent_of h z \<noteq> Some z" if "z \<in> S" for z
    using D(1) [OF that, of z] D(2) [OF that, of z] D(3) [OF that, of z] by auto
  have ba: "left_of h b \<noteq> Some a" "right_of h b \<noteq> Some a"
    using D(1) [OF b(1), of a] D(2) [OF b(1), of a] a(3) by auto
  have s: "(if left_of h a = Some b then right_of h a else left_of h a) \<noteq> Some b"
    using D(1) [OF a(1), of b] by auto
  note F = heap_node_swap_fields [OF a(4) nl(2) [OF a(1)] nl(1) [OF a(1)] ba(1) nl(1) [OF b(1)]
      ba(2) nl(2) [OF b(1)] nl(3) [OF a(1)] a(3) s]
  show "h_nelts (heap_node_swap a b h) = h_nelts h" by (rule F)
  have "parent_of h a = None \<longleftrightarrow> h_min h = Some a" by (rule D(4) [OF a(1)])
  moreover have "h_min h \<noteq> Some b" using D(4) [OF b(1)] b(2) by auto
  ultimately show "h_min (heap_node_swap a b h) = map_option (swap_nodes a b) (h_min h)"
    by (cases "h_min h") (auto simp: F swap_nodes_def)
  consider "y = a" | "y = b" | "y \<noteq> a" "y \<noteq> b" by blast
  then show "h_mem (heap_node_swap a b h) (swap_nodes a b y) = rename_node (swap_nodes a b) (h_mem h y)"
  proof cases
    case 1
    have "swap_nodes a b y = b" using 1 by (simp add: swap_nodes_def)
    then show ?thesis
      by (intro heap_node.equality) (use 1 a b nl [OF a(1)] s in \<open>auto simp: F rename_node_def map_swap_nodes\<close>)
  next
    case 2
    have "swap_nodes a b y = a" using 2 by (simp add: swap_nodes_def)
    then show ?thesis
      by (intro heap_node.equality) (use 2 a b nl [OF b(1)] ba in \<open>auto simp: F rename_node_def map_swap_nodes swap_nodes_def\<close>)
  next
    case 3
    have e: "swap_nodes a b y = y" using 3 by (simp add: swap_nodes_def)
    have lb: "left_of h y \<noteq> Some b" "right_of h y \<noteq> Some b"
      using D(1) [OF y, of b] D(2) [OF y, of b] b(2) 3 by auto
    have pa: "left_of h y = Some a \<Longrightarrow> parent_of h a = Some y"
        "right_of h y = Some a \<Longrightarrow> parent_of h a = Some y \<and> left_of h y \<noteq> Some a"
        "parent_of h a = Some y \<Longrightarrow> left_of h y \<noteq> Some a \<Longrightarrow> right_of h y = Some a"
      using D(1) [OF y, of a] D(2) [OF y, of a] D(3) [OF a(1), of y] by auto
    have yb: "left_of h b = Some y \<Longrightarrow> parent_of h y = Some b" "right_of h b = Some y \<Longrightarrow> parent_of h y = Some b"
        "parent_of h y = Some b \<Longrightarrow> left_of h b \<noteq> Some y \<Longrightarrow> right_of h b = Some y"
      using D(1) [OF b(1), of y] D(2) [OF b(1), of y] D(3) [OF y, of b] by auto
    have ya: "parent_of h y = Some a \<longleftrightarrow> (if left_of h a = Some b then right_of h a else left_of h a) = Some y"
      using D(1) [OF a(1), of y] D(2) [OF a(1), of y] D(3) [OF y, of a] a(2) 3 by auto
    have fl: "left_of (heap_node_swap a b h) y = map_option (swap_nodes a b) (left_of h y)"
      using 3 lb(1) pa(1) unfolding F(1) map_swap_nodes by simp
    have fr: "right_of (heap_node_swap a b h) y = map_option (swap_nodes a b) (right_of h y)"
      using 3 lb(2) pa(2,3) unfolding F(2) map_swap_nodes by auto
    have fp: "parent_of (heap_node_swap a b h) y = map_option (swap_nodes a b) (parent_of h y)"
    proof -
      have "right_of h b = Some y \<or> left_of h b = Some y \<longleftrightarrow> parent_of h y = Some b" using yb by blast
      then show ?thesis using 3 ya a(4) unfolding F(3) map_swap_nodes
        by (cases "parent_of h y = Some b"; cases "left_of h a = Some b") simp_all
    qed
    show ?thesis unfolding e by (intro heap_node.equality) (simp_all add: rename_node_def fl fr fp)
  qed
qed

lemma exchange_map:
  assumes "distinct xs" "i < length xs" "j < length xs"
  shows "exchange i j xs = map (swap_nodes (xs ! i) (xs ! j)) xs"
proof (intro nth_equalityI)
  fix k assume k: "k < length (exchange i j xs)"
  then have "xs ! k = xs ! i \<longleftrightarrow> k = i" "xs ! k = xs ! j \<longleftrightarrow> k = j"
    using assms by (simp_all add: nth_eq_iff_index_eq)
  with k assms show "exchange i j xs ! k = map (swap_nodes (xs ! i) (xs ! j)) xs ! k"
    by (simp add: exchange_def nth_list_update swap_nodes_def)
qed simp

lemma heap_reprD:
  assumes "heap_repr h xs"
  shows "distinct xs" "length xs = unat (h_nelts h)" "h_min h = slot_at xs 0"
    and "i < length xs \<Longrightarrow> left_of h (xs ! i) = slot_at xs (2 * i + 1)"
    and "i < length xs \<Longrightarrow> right_of h (xs ! i) = slot_at xs (2 * i + 2)"
    and "i < length xs \<Longrightarrow> parent_of h (xs ! i) = (if i = 0 then None else Some (xs ! par i))"
  using assms by (auto simp: heap_repr_def)

lemma heap_node_swap_repr:
  assumes r: "heap_repr h xs" and i: "0 < i" "i < length xs"
  shows "heap_repr (heap_node_swap (xs ! par i) (xs ! i) h) (exchange (par i) i xs)"
proof -
  note R = heap_reprD [OF r]
  have p: "par i < length xs" using par_less [OF i(1)] i(2) by simp
  have "inj_on (swap_nodes (xs ! par i) (xs ! i)) (set xs)"
    by (auto simp: inj_on_def swap_nodes_def split: if_splits)
  moreover have "parent_of h (xs ! i) = Some (xs ! par i)" using R(6) [OF i(2)] i by simp
  note S = swap_node [OF heap_repr_linked [OF r] nth_mem [OF i(2)] this]
  ultimately show ?thesis
    unfolding exchange_map [OF R(1) p i(2)]
    using S(1) S(2,3) [OF nth_mem [OF i(2)]] by (intro heap_repr_rename [OF r])
qed

section \<open>Sifting\<close>

lemma heap_up_repr:
  assumes "heap_repr h xs" "i < length xs"
  shows "\<exists>h'. heap_up lt (xs ! i) h = Some h' \<and> heap_repr h' (sift_up lt i xs)"
  using assms
proof (induction i arbitrary: h xs rule: less_induct)
  case (less i)
  note R = heap_reprD [OF less.prems(1)]
  show ?case
  proof (cases "0 < i \<and> lt (xs ! i) (xs ! par i)")
    case True
    have "par i < i" using True by simp
    then have p: "par i < i" "par i < length xs" using less.prems(2) by auto
    have "heap_repr (heap_node_swap (xs ! par i) (xs ! i) h) (exchange (par i) i xs)"
      using heap_node_swap_repr [OF less.prems(1) _ less.prems(2)] True by simp
    from less.IH [OF p(1) this] p True less.prems(2) R(6) [OF less.prems(2)] show ?thesis
      by (subst heap_up.simps, subst sift_up.simps) simp
  next
    case False
    then show ?thesis using less.prems R(6) [OF less.prems(2)]
      by (subst heap_up.simps, subst sift_up.simps) auto
  qed
qed

lemma heap_smallest_repr:
  assumes "heap_repr h xs" "i < length xs"
  shows "heap_smallest lt (xs ! i) h = xs ! smallest_ix lt i xs"
  using heap_reprD(4,5) [OF assms]
  by (auto simp: heap_smallest_def smallest_ix_def Let_def slot_at_def)

lemma heap_down_repr:
  assumes "heap_repr h xs" "i < length xs" "sift_down lt i xs = (ys, k)"
  shows "\<exists>h'. heap_down lt (xs ! i) h = Some h' \<and> heap_repr h' ys \<and> ys ! k = xs ! i"
  using assms
proof (induction "length xs - i" arbitrary: i h xs rule: less_induct)
  case less
  note R = heap_reprD [OF less.prems(1)] and S = heap_smallest_repr [OF less.prems(1,2), of lt]
  define s where "s = smallest_ix lt i xs"
  show ?case
  proof (cases "s = i")
    case True
    then have "ys = xs" "k = i"
      using less.prems(3) by (subst (asm) sift_down.simps, simp add: s_def Let_def)+
    then show ?thesis using less.prems(1) S True
      by (subst heap_down.simps) (simp add: s_def [symmetric] Let_def)
  next
    case False
    have s: "0 < s" "s < length xs" "par s = i" "i < s"
      using smallest_ix_child [of lt i xs] False by (auto simp: s_def)
    have "heap_repr (heap_node_swap (xs ! i) (xs ! s) h) (exchange i s xs)"
      using heap_node_swap_repr [OF less.prems(1) s(1,2)] s(3) by simp
    moreover have "sift_down lt s (exchange i s xs) = (ys, k)"
      using less.prems(3) False by (subst (asm) sift_down.simps, simp add: s_def Let_def)
    ultimately have "\<exists>h'. heap_down lt (exchange i s xs ! s) (heap_node_swap (xs ! i) (xs ! s) h) = Some h' \<and>
        heap_repr h' ys \<and> ys ! k = exchange i s xs ! s"
      using less.hyps [of "exchange i s xs" s] s less.prems(2) by simp
    moreover have "xs ! s \<noteq> xs ! i"
      using R(1) s less.prems(2) by (simp add: nth_eq_iff_index_eq)
    ultimately show ?thesis
      using S s less.prems(2) by (subst heap_down.simps) (simp add: s_def [symmetric] Let_def)
  qed
qed

section \<open>Paths\<close>

text \<open>The pointer variable that holds, or would hold, the \<open>n\<close>-th node, counted from 1.\<close>

definition slot_of :: "node list \<Rightarrow> nat \<Rightarrow> slot" where
  "slot_of xs n =
     (if n \<le> 1 then Slot_Min
      else if even n then Slot_Left (xs ! (n div 2 - 1)) else Slot_Right (xs ! (n div 2 - 1)))"

lemma slot_get_slot_of:
  assumes "heap_repr h xs" "1 \<le> n" "n div 2 \<le> length xs"
  shows "slot_get (slot_of xs n) h = slot_at xs (n - 1)"
proof (cases "n = 1")
  case True
  then show ?thesis using heap_reprD(3) [OF assms(1)] by (simp add: slot_of_def slot_get_def)
next
  case False
  then have "n div 2 - 1 < length xs" "2 \<le> n" using assms(2,3) by auto
  moreover have "2 * (n div 2 - 1) + 1 = n - 1" if "even n" using that \<open>2 \<le> n\<close> by auto
  moreover have "2 * (n div 2 - 1) + 2 = n - 1" if "odd n" using that \<open>2 \<le> n\<close> by presburger
  ultimately show ?thesis using heap_reprD(4,5) [OF assms(1), of "n div 2 - 1"] False
    by (auto simp: slot_of_def slot_get_def)
qed

lemma path_bit:
  fixes path n :: u32
  shows "unat path < 2 ^ 31 \<Longrightarrow> drop_bit 1 (push_bit 1 path OR (n AND 1)) = path"
    and "(push_bit 1 path OR (n AND 1)) AND 1 = n AND 1"
proof -
  assume "unat path < 2 ^ 31"
  then have "\<not> bit path 31" using unat_less_exp_iff [of path 31] by simp
  then have "k < 31" if "bit path k" "k < 32" for k using that by (cases "k = 31") auto
  then show "drop_bit 1 (push_bit 1 path OR (n AND 1)) = path"
    by (intro bit_word_eqI)
       (auto simp: bit_simps simp del: push_bit_Suc One_nat_def drop_bit_Suc)
next
  show "(push_bit 1 path OR (n AND 1)) AND 1 = n AND 1"
    by (intro bit_word_eqI) (auto simp: bit_simps simp del: push_bit_Suc One_nat_def)
qed

lemma heap_path_walk:
  assumes "heap_repr h xs" "heap_path n path k = (path', k')" "1 \<le> unat n" "unat path < 2 ^ k"
    "unat n * 2 ^ k < 2 ^ 32" "unat n div 2 \<le> length xs"
  shows "heap_walk k' path' Slot_Min Slot_Min h =
    heap_walk k path (slot_of xs (unat n div 2)) (slot_of xs (unat n)) h"
  using assms(2-)
proof (induction n path k rule: heap_path.induct)
  case (1 n path k)
  show ?case
  proof (cases "2 \<le> n")
    case False
    then have "unat n = 1" using 1(3) by (simp add: word_le_nat_alt)
    then show ?thesis using 1(2) False by (subst (asm) heap_path.simps) (simp add: slot_of_def)
  next
    case True
    define path2 where "path2 = push_bit 1 path OR (n AND 1)"
    have n: "2 \<le> unat n" using True by (simp add: word_le_nat_alt)
    have m: "unat (n div 2) = unat n div 2" by (simp add: unat_div)
    have "2 * 2 ^ k \<le> unat n * 2 ^ k" using n by simp
    then have "2 * 2 ^ k < (2::nat) ^ 32" using 1(5) by (rule le_less_trans)
    then have "(2::nat) ^ k < 2 ^ 31" by simp
    then have path: "unat path < 2 ^ 31" using 1(4) by linarith
    have "unat path2 div 2 = unat path"
      using path_bit(1) [OF path, of n, folded path2_def] by (metis drop_bit_Suc drop_bit_0 drop_bit_eq_div unat_drop_bit_eq One_nat_def power_one_right)
    then have "unat path2 < 2 ^ Suc k" using 1(4) by simp
    moreover have "unat n div 2 * 2 ^ Suc k \<le> unat n * 2 ^ k"
      using mult_right_mono [of "unat n div 2 * 2" "unat n" "2 ^ k"] by (simp add: mult.assoc)
    moreover from this have "unat n div 2 * 2 ^ Suc k < 2 ^ 32" using 1(5) by (rule le_less_trans)
    moreover have "heap_path (n div 2) path2 (Suc k) = (path', k')"
      using 1(2) True by (subst (asm) heap_path.simps) (simp only: path2_def if_True)
    moreover have "1 \<le> unat n div 2" "unat n div 2 div 2 \<le> length xs" using n 1(6) by auto
    ultimately have "heap_walk k' path' Slot_Min Slot_Min h =
        heap_walk (Suc k) path2 (slot_of xs (unat n div 2 div 2)) (slot_of xs (unat n div 2)) h"
      using 1(1) [OF True] unfolding m path2_def by blast
    moreover have "slot_get (slot_of xs (unat n div 2)) h = Some (xs ! (unat n div 2 - 1))"
      using slot_get_slot_of [OF assms(1), of "unat n div 2"] n 1(6) by (simp add: slot_at_def)
    moreover have "path2 AND 1 \<noteq> 0 \<longleftrightarrow> odd (unat n)" unfolding path2_def path_bit(2) 
      using bit_unsigned_iff [of n 0, where 'a = nat] by (simp add: and_1_eq_0_iff bit_0)
    ultimately show ?thesis using path_bit(1) [OF path, of n, folded path2_def] n by (simp add: slot_of_def)
  qed
qed

section \<open>Attaching, detaching and replacing a node\<close>

lemma slot_set_simps:
  "slot_set Slot_Min p h = h\<lparr>h_min := p\<rparr>" "slot_set (Slot_Left z) p h = set_left z p h"
  "slot_set (Slot_Right z) p h = set_right z p h"
  by (simp_all add: slot_set_def)

lemma heap_repr_frame:
  assumes "heap_repr h xs" "h_nelts h' = h_nelts h" "h_min h' = h_min h"
    "\<And>y. y \<in> set xs \<Longrightarrow> h_mem h' y = h_mem h y"
  shows "heap_repr h' xs"
  using assms by (auto simp: heap_repr_def)

text \<open>Which node has the slot behind the last element.\<close>

lemma slot_of_next:
  obtains (root) "xs = []" "slot_of xs (Suc (length xs)) = Slot_Min"
    | (left) j where "j < length xs" "length xs = 2 * j + 1" "slot_of xs (Suc (length xs)) = Slot_Left (xs ! j)"
    | (right) j where "j < length xs" "length xs = 2 * j + 2" "slot_of xs (Suc (length xs)) = Slot_Right (xs ! j)"
proof -
  define n where "n = length xs"
  consider "n = 0" | j where "n = 2 * j + 1" | j where "n = 2 * j + 2"
    by (metis Suc_eq_plus1 add_2_eq_Suc' even_Suc_div_two not0_implies_Suc odd_two_times_div_two_succ
        dvd_mult_div_cancel mult_2 even_add)
  then show thesis
  proof cases
    case 1
    with root show thesis by (simp add: n_def slot_of_def)
  next
    case (2 j)
    then show thesis using left [of j] by (simp add: n_def slot_of_def)
  next
    case (3 j)
    then show thesis using right [of j] by (simp add: n_def slot_of_def)
  qed
qed

lemma slot_at_snoc: "slot_at (xs @ [x]) i = (if i = length xs then Some x else slot_at xs i)"
  by (auto simp: slot_at_def nth_append)

lemma heap_repr_attach:
  assumes r: "heap_repr h xs" and x: "x \<notin> set xs" "left_of h x = None" "right_of h x = None"
    and p: "parent_of h x = (if xs = [] then None else Some (xs ! par (length xs)))"
    and n: "Suc (length xs) < 2 ^ 32"
  shows "heap_repr (slot_set (slot_of xs (Suc (length xs))) (Some x) h\<lparr>h_nelts := h_nelts h + 1\<rparr>) (xs @ [x])"
    (is "heap_repr ?h _")
proof -
  note R = heap_reprD [OF r]
  have e: "unat (h_nelts h + 1) = Suc (length xs)" using n R(2) by (simp add: unat_word_ariths)
  have d: "xs ! i \<noteq> x" "xs ! i = xs ! j \<longleftrightarrow> i = j" if "i < length xs" "j < length xs" for i j
    using R(1) x(1) that by (auto simp: nth_eq_iff_index_eq)
  have L: "left_of ?h (xs ! i) = slot_at (xs @ [x]) (2 * i + 1)" "right_of ?h (xs ! i) = slot_at (xs @ [x]) (2 * i + 2)"
    "parent_of ?h (xs ! i) = (if i = 0 then None else Some (xs ! par i))" if "i < length xs" for i
    using that R(4-6) [OF that] d
    by (cases rule: slot_of_next [of xs]; auto simp: slot_set_simps set_mem slot_at_snoc)+
  have X: "left_of ?h x = None" "right_of ?h x = None" "parent_of ?h x = parent_of h x"
    "h_min ?h = slot_at (xs @ [x]) 0" "h_nelts ?h = h_nelts h + 1"
    using x d R(3)
    by (cases rule: slot_of_next [of xs]; force simp: slot_set_simps set_mem slot_at_def nth_append)+
  have pl: "par i < length xs" if "0 < i" "i \<le> length xs" for i
    using that par_less [of i] by linarith
  show ?thesis
    unfolding heap_repr_def
  proof (intro conjI allI impI)
    fix i assume "i < length (xs @ [x])"
    then consider "i < length xs" | "i = length xs" by fastforce
    note i = this
    show "left_of ?h ((xs @ [x]) ! i) = slot_at (xs @ [x]) (2 * i + 1)"
      using i L(1) [of i] X(1) by cases (simp_all add: nth_append slot_at_def)
    show "right_of ?h ((xs @ [x]) ! i) = slot_at (xs @ [x]) (2 * i + 2)"
      using i L(2) [of i] X(2) by cases (simp_all add: nth_append slot_at_def)
    show "parent_of ?h ((xs @ [x]) ! i) = (if i = 0 then None else Some ((xs @ [x]) ! par i))"
      using i L(3) [of i] X(3) p pl [of i] by cases (simp_all add: nth_append)
  qed (use R(1) x(1) e X in auto)
qed

lemma heap_repr_detach:
  assumes r: "heap_repr h (xs @ [x])"
  shows "heap_repr (slot_set (slot_of (xs @ [x]) (Suc (length xs))) None (h\<lparr>h_nelts := h_nelts h - 1\<rparr>)) xs"
    (is "heap_repr ?h _")
proof -
  note R = heap_reprD [OF r]
  have n: "unat (h_nelts h) = Suc (length xs)" using R(2) by simp
  then have "h_nelts h \<noteq> 0" by auto
  then have e: "unat (h_nelts h - 1) = length xs" using n by (simp add: unat_minus_one)
  have d: "xs ! i \<noteq> x" "xs ! i = xs ! j \<longleftrightarrow> i = j" if "i < length xs" "j < length xs" for i j
    using R(1) that by (auto simp: nth_eq_iff_index_eq)
  have s: "slot_of (xs @ [x]) (Suc (length xs)) = slot_of xs (Suc (length xs))"
  proof (cases "xs = []")
    case False
    then have "0 < length xs" by simp
    then have "Suc (length xs) div 2 - 1 < length xs" "length xs div 2 - 1 < length xs" by linarith+
    then show ?thesis by (simp add: slot_of_def nth_append)
  qed (simp add: slot_of_def)
  have L: "left_of ?h (xs ! i) = slot_at xs (2 * i + 1)" "right_of ?h (xs ! i) = slot_at xs (2 * i + 2)"
    "parent_of ?h (xs ! i) = (if i = 0 then None else Some ((xs @ [x]) ! par i))" if "i < length xs" for i
  proof -
    have Ri: "left_of h (xs ! i) = slot_at (xs @ [x]) (2 * i + 1)"
      "right_of h (xs ! i) = slot_at (xs @ [x]) (2 * i + 2)"
      "parent_of h (xs ! i) = (if i = 0 then None else Some ((xs @ [x]) ! par i))"
      using that R(4-6) [of i] by (simp_all add: nth_append)
    have ne: "xs ! i = xs ! j \<longleftrightarrow> i = j" if "j < length xs" for j
      using d(2) [OF \<open>i < length xs\<close> that] .
    note S = slot_set_simps set_mem slot_at_snoc slot_at_def
    show "left_of ?h (xs ! i) = slot_at xs (2 * i + 1)"
      unfolding s using that by (cases rule: slot_of_next [of xs]; auto simp: S Ri ne nth_append)
    show "right_of ?h (xs ! i) = slot_at xs (2 * i + 2)"
      unfolding s using that by (cases rule: slot_of_next [of xs]; auto simp: S Ri ne nth_append)
    have "parent_of ?h (xs ! i) = parent_of h (xs ! i)"
      unfolding s by (cases rule: slot_of_next [of xs]) (simp_all add: slot_set_simps set_mem)
    then show "parent_of ?h (xs ! i) = (if i = 0 then None else Some ((xs @ [x]) ! par i))"
      using Ri(3) by (rule trans)
  qed
  have "h_min h = Some ((xs @ [x]) ! 0)" using R(3) by (simp add: slot_at_def)
  then have X: "h_min ?h = slot_at xs 0"
    unfolding s by (cases rule: slot_of_next [of xs]; auto simp: slot_set_simps slot_at_def nth_append)
  have N: "h_nelts ?h = h_nelts h - 1"
    unfolding s by (cases rule: slot_of_next [of xs]) (simp_all add: slot_set_simps)
  have pl: "par i < length xs" if "0 < i" "i < length xs" for i
    using that par_less [of i] by linarith
  show ?thesis
    unfolding heap_repr_def
  proof (intro conjI allI impI)
    fix i assume i: "i < length xs"
    show "left_of ?h (xs ! i) = slot_at xs (2 * i + 1)" "right_of ?h (xs ! i) = slot_at xs (2 * i + 2)"
      by (rule L [OF i])+
    show "parent_of ?h (xs ! i) = (if i = 0 then None else Some (xs ! par i))"
      using L(3) [OF i] pl [of i] i by (simp add: nth_append)
  qed (use R(1) X N e in auto)
qed

lemma heap_repr_replace:
  assumes r: "heap_repr h xs" and i: "i < length xs" and c: "c \<notin> set xs"
  defines "a \<equiv> xs ! i"
  defines "h3 \<equiv> set_left c (left_of h a) h"
  defines "h4 \<equiv> set_right c (right_of h3 a) h3"
  defines "h5 \<equiv> set_parent c (parent_of h4 a) h4"
  defines "h6 \<equiv> set_parent_opt (left_of h5 c) (Some c) h5"
  defines "h7 \<equiv> set_parent_opt (right_of h6 c) (Some c) h6"
  defines "h8 \<equiv> (case parent_of h7 a of
      None \<Rightarrow> h7\<lparr>h_min := Some c\<rparr>
    | Some p \<Rightarrow> if left_of h7 p = Some a then set_left p (Some c) h7 else set_right p (Some c) h7)"
  shows "heap_repr h8 (xs[i := c])"
proof -
  note D = linkedD [OF heap_repr_linked [OF r]]
  have a: "a \<in> set xs" "a \<noteq> c" using i c by (auto simp: a_def)
  define f where "f y = (if y = a then c else y)" for y
  have xs: "xs[i := c] = map f xs"
    using heap_reprD(1) [OF r] i
    by (intro nth_equalityI) (auto simp: f_def a_def nth_list_update nth_eq_iff_index_eq)
  have m: "map_option f q = (if q = Some a then Some c else q)" for q by (cases q) (auto simp: f_def)
  have nl: "left_of h a \<noteq> Some a" "right_of h a \<noteq> Some a" "left_of h a \<noteq> Some c" "right_of h a \<noteq> Some c"
    "parent_of h a \<noteq> Some a" "parent_of h a \<noteq> Some c"
    using D(1-3) [OF a(1)] c by blast+
  have h5: "left_of h5 y = (if y = c then left_of h a else left_of h y)"
    "right_of h5 y = (if y = c then right_of h a else right_of h y)"
    "parent_of h5 y = (if y = c then parent_of h a else parent_of h y)" for y
    using a(2) by (simp_all add: h5_def h4_def h3_def set_mem)
  have h7: "left_of h7 y = left_of h5 y" "right_of h7 y = right_of h5 y"
    "parent_of h7 y = (if right_of h a = Some y \<or> left_of h a = Some y then Some c else parent_of h5 y)" for y
    by (simp_all add: h7_def h6_def set_mem h5)
  have s7: "h_min h7 = h_min h" "h_nelts h7 = h_nelts h"
    by (simp_all add: h7_def h6_def h5_def h4_def h3_def)
  have eq: "h8 = (case parent_of h a of
      None \<Rightarrow> h7\<lparr>h_min := Some c\<rparr>
    | Some p \<Rightarrow> if left_of h p = Some a then set_left p (Some c) h7 else set_right p (Some c) h7)"
    using nl a(2) by (auto simp: h8_def h7 h5 split: option.split)
  have F: "left_of h8 y = (if parent_of h a = Some y \<and> left_of h y = Some a then Some c else left_of h7 y)"
    "right_of h8 y = (if parent_of h a = Some y \<and> left_of h y \<noteq> Some a then Some c else right_of h7 y)"
    "parent_of h8 y = parent_of h7 y" "h_nelts h8 = h_nelts h"
    "h_min h8 = (if parent_of h a = None then Some c else h_min h)" for y
    by (auto simp: eq set_mem s7 split: option.split)
  have "h_min h8 = map_option f (h_min h)"
    using D(4) [OF a(1)] by (auto simp: F m)
  moreover have "h_mem h8 (f y) = rename_node f (h_mem h y)" if y: "y \<in> set xs" for y
  proof (cases "y = a")
    case True
    then show ?thesis
      using nl by (intro heap_node.equality) (simp_all add: F f_def h7 h5 rename_node_def m)
  next
    case False
    have yc: "y \<noteq> c" using y c by auto
    have l: "left_of h y = Some a \<longleftrightarrow> parent_of h a = Some y \<and> left_of h y = Some a"
      "right_of h y = Some a \<longleftrightarrow> parent_of h a = Some y \<and> left_of h y \<noteq> Some a"
      using D(1,2) [OF y, of a] D(3) [OF a(1), of y] by blast+
    have p: "right_of h a = Some y \<or> left_of h a = Some y \<longleftrightarrow> parent_of h y = Some a"
      using D(1,2) [OF a(1), of y] D(3) [OF y, of a] by blast
    have "left_of h8 y = map_option f (left_of h y)" unfolding m using l(1) yc by (simp add: F h7 h5)
    moreover have "right_of h8 y = map_option f (right_of h y)" unfolding m using l(2) yc by (simp add: F h7 h5)
    moreover have "parent_of h8 y = map_option f (parent_of h y)" unfolding m using p yc by (simp add: F h7 h5)
    ultimately show ?thesis using False by (intro heap_node.equality) (simp_all add: f_def rename_node_def)
  qed
  moreover have "inj_on f (set xs)" using c by (auto simp: inj_on_def f_def split: if_splits)
  ultimately show ?thesis unfolding xs by (intro heap_repr_rename [OF r]) (simp_all add: F(4))
qed

section \<open>Insertion and removal\<close>

lemma heap_insert_repr:
  assumes r: "heap_repr h xs" and x: "x \<notin> set xs" and n: "Suc (length xs) < 2 ^ 32"
  shows "\<exists>h'. heap_insert h x lt = Some h' \<and> heap_repr h' (list_insert lt x xs)"
proof -
  define h1 where "h1 = set_parent x None (set_right x None (set_left x None h))"
  have r1: "heap_repr h1 xs"
    by (rule heap_repr_frame [OF r]) (use x in \<open>auto simp: h1_def set_mem\<close>)
  have e: "unat (1 + h_nelts h1) = Suc (length xs)"
    using n heap_reprD(2) [OF r1] by (simp add: unat_word_ariths)
  obtain path k where p: "heap_path (1 + h_nelts h1) 0 0 = (path, k)" by fastforce
  let ?p = "slot_of xs (Suc (length xs) div 2)" and ?s = "slot_of xs (Suc (length xs))"
  have w: "heap_walk k path Slot_Min Slot_Min h1 = Some (?p, ?s)"
    using heap_path_walk [OF r1 p] n by (simp add: e)
  define h2 where "h2 = set_parent x (slot_get ?p h1) h1"
  have r2: "heap_repr h2 xs" by (rule heap_repr_frame [OF r1]) (use x in \<open>auto simp: h2_def set_mem\<close>)
  have "slot_get ?p h1 = (if xs = [] then None else Some (xs ! par (length xs)))"
  proof (cases "xs = []")
    case True
    then show ?thesis using heap_reprD(3) [OF r1] by (simp add: slot_of_def slot_get_def slot_at_def)
  next
    case False
    then have l: "1 \<le> Suc (length xs) div 2" "Suc (length xs) div 2 div 2 \<le> length xs"
      "Suc (length xs) div 2 - 1 < length xs" "Suc (length xs) div 2 - 1 = par (length xs)"
      by (cases xs; simp add: par_def)+
    show ?thesis using slot_get_slot_of [OF r1 l(1,2)] l(3,4) False by (simp add: slot_at_def)
  qed
  then have "parent_of h2 x = (if xs = [] then None else Some (xs ! par (length xs)))"
    "left_of h2 x = None" "right_of h2 x = None"
    by (simp_all add: h2_def h1_def set_mem)
  from heap_repr_attach [OF r2 x this(2,3,1) n]
  have r4: "heap_repr (slot_set ?s (Some x) h2\<lparr>h_nelts := h_nelts h2 + 1\<rparr>) (xs @ [x])" (is "heap_repr ?h4 _") .
  have "h_nelts (slot_set ?s (Some x) h2) = h_nelts h2" by (simp add: slot_set_def split: slot.split)
  then have "heap_insert h x lt = heap_up lt x ?h4"
    by (simp add: heap_insert_def h1_def [symmetric] Let_def p w h2_def [symmetric])
  with heap_up_repr [OF r4, of "length xs" lt] show ?thesis by (simp add: list_insert_def)
qed

lemma heap_remove_repr:
  assumes r: "heap_repr h xs" and i: "i < length xs"
  shows "\<exists>h'. heap_remove h (xs ! i) lt = Some h' \<and> heap_repr h' (list_remove lt i xs)"
proof -
  define bs where "bs = butlast xs"
  define c where "c = last xs"
  have ne: "xs \<noteq> []" using i by auto
  then have xs: "xs = bs @ [c]" by (simp add: bs_def c_def)
  have n: "unat (h_nelts h) = Suc (length bs)" "h_nelts h \<noteq> 0"
    using heap_reprD(2) [OF r] by (auto simp: xs)
  obtain path k where p: "heap_path (h_nelts h) 0 0 = (path, k)" by fastforce
  let ?s = "slot_of xs (Suc (length bs))"
  have "Suc (length bs) < 2 ^ 32" using unsigned_less [of "h_nelts h", where 'a = nat] n(1) by simp
  then have w: "heap_walk k path Slot_Min Slot_Min h = Some (slot_of xs (Suc (length bs) div 2), ?s)"
    using heap_path_walk [OF r p] by (simp add: n(1) xs)
  have g: "slot_get ?s h = Some c"
    using slot_get_slot_of [OF r, of "Suc (length bs)"] by (simp add: xs slot_at_def)
  define h2 where "h2 = slot_set ?s None (h\<lparr>h_nelts := h_nelts h - 1\<rparr>)"
  have r2: "heap_repr h2 bs" using heap_repr_detach [of h bs c] r by (simp add: h2_def xs)
  have d: "c \<notin> set bs" "distinct bs" using heap_reprD(1) [OF r] by (simp_all add: xs)
  show ?thesis
  proof (cases "Suc i = length xs")
    case True
    then have "xs ! i = c" by (simp add: xs)
    moreover have "h_min h2 \<noteq> Some c" using heap_reprD(3) [OF r2] d(1) by (auto simp: slot_at_def)
    ultimately have "heap_remove h (xs ! i) lt = Some h2"
      by (simp add: heap_remove_def n(2) p w g h2_def [symmetric])
    then show ?thesis using r2 True by (simp add: list_remove_def bs_def)
  next
    case False
    then have ib: "i < length bs" "xs ! i = bs ! i" using i by (auto simp: xs nth_append)
    then have ca: "c \<noteq> bs ! i" using d(1) by auto
    define h3 where "h3 = set_left c (left_of h2 (bs ! i)) h2"
    define h4 where "h4 = set_right c (right_of h3 (bs ! i)) h3"
    define h5 where "h5 = set_parent c (parent_of h4 (bs ! i)) h4"
    define h6 where "h6 = set_parent_opt (left_of h5 c) (Some c) h5"
    define h7 where "h7 = set_parent_opt (right_of h6 c) (Some c) h6"
    define h8 where "h8 = (case parent_of h7 (bs ! i) of
        None \<Rightarrow> h7\<lparr>h_min := Some c\<rparr>
      | Some p \<Rightarrow> if left_of h7 p = Some (bs ! i) then set_left p (Some c) h7 else set_right p (Some c) h7)"
    note defs = h8_def h7_def h6_def h5_def h4_def h3_def
    have r8: "heap_repr h8 (bs[i := c])" unfolding defs by (rule heap_repr_replace [OF r2 ib(1) d(1)])
    obtain ys j where down: "sift_down lt i (bs[i := c]) = (ys, j)" by fastforce
    from heap_down_repr [OF r8 _ down] ib(1) obtain h9
      where h9: "heap_down lt c h8 = Some h9" "heap_repr h9 ys" "ys ! j = c" by auto
    have "j < length ys"
      using sift_down_less [of i "bs[i := c]" lt] length_sift_down [of i "bs[i := c]" lt] down ib(1) by simp
    from heap_up_repr [OF h9(2) this, of lt] h9(3) obtain h10
      where h10: "heap_up lt c h9 = Some h10" "heap_repr h10 (sift_up lt j ys)" by auto
    have "heap_remove h (xs ! i) lt = Option.bind (heap_down lt c h8) (heap_up lt c)"
      by (simp only: heap_remove_def n(2) ca if_False p prod.case w g Option.bind.bind_lunit h2_def [symmetric]
          ib(2) Let_def h3_def [symmetric] h4_def [symmetric] h5_def [symmetric] h6_def [symmetric]
          h7_def [symmetric] h8_def [symmetric])
    then have "heap_remove h (xs ! i) lt = Some h10" using h9(1) h10(1) by simp
    then show ?thesis using h10(2) False down by (simp add: list_remove_def bs_def [symmetric] c_def [symmetric])
  qed
qed

end
