(* ===== verification/Uv_Queue.thy ===== *)
theory Uv_Queue
  imports Uv_Heap_Refine
begin

text \<open>
  The heap of \<open>heap-inl.h\<close> as a priority queue: the interface its clients rely on, its
  interpretation by \<open>heap_insert\<close>, \<open>heap_remove\<close> and \<open>heap_min\<close>, and the properties of the heap.
\<close>

section \<open>The interface\<close>

text \<open>
  What the heap's clients rely on.  \<open>repr lt q S\<close>: \<open>q\<close> holds the elements \<open>S\<close>, ordered by \<open>lt\<close>;
  \<open>room\<close> is the largest number of elements.
\<close>

locale priority_queue =
  fixes ins rem :: "'q \<Rightarrow> 'n \<Rightarrow> ('n \<Rightarrow> 'n \<Rightarrow> bool) \<Rightarrow> 'q option"
    and front :: "'q \<Rightarrow> 'n option"
    and repr :: "('n \<Rightarrow> 'n \<Rightarrow> bool) \<Rightarrow> 'q \<Rightarrow> 'n set \<Rightarrow> bool"
    and room :: nat
  assumes ins: "strict_order lt \<Longrightarrow> repr lt q S \<Longrightarrow> x \<notin> S \<Longrightarrow> card S < room \<Longrightarrow>
      \<exists>q'. ins q x lt = Some q' \<and> repr lt q' (insert x S)"
    and rem: "strict_order lt \<Longrightarrow> repr lt q S \<Longrightarrow> x \<in> S \<Longrightarrow>
      \<exists>q'. rem q x lt = Some q' \<and> repr lt q' (S - {x})"
    and front_None: "repr lt q S \<Longrightarrow> front q = None \<longleftrightarrow> S = {}"
    and front_Some: "strict_order lt \<Longrightarrow> repr lt q S \<Longrightarrow> front q = Some x \<Longrightarrow>
      x \<in> S \<and> (\<forall>y \<in> S. \<not> lt y x)"
    and cong: "repr lt q S \<Longrightarrow> (\<And>x y. x \<in> S \<Longrightarrow> y \<in> S \<Longrightarrow> lt x y = lt' x y) \<Longrightarrow> repr lt' q S"
    and bounded: "repr lt q S \<Longrightarrow> finite S \<and> card S \<le> room"
begin

text \<open>Taking an element out and putting it back with another key.\<close>

lemma requeue:
  assumes "strict_order lt" "strict_order lt'" "repr lt q S" "x \<in> S"
    and "\<And>y z. y \<in> S - {x} \<Longrightarrow> z \<in> S - {x} \<Longrightarrow> lt y z = lt' y z"
  shows "\<exists>q1 q2. rem q x lt = Some q1 \<and> repr lt q1 (S - {x}) \<and> ins q1 x lt' = Some q2 \<and> repr lt' q2 S"
proof -
  from rem [OF assms(1,3,4)] obtain q1 where q1: "rem q x lt = Some q1" "repr lt q1 (S - {x})" by blast
  have "card (S - {x}) < room"
    using bounded [OF assms(3)] assms(4) by (meson card_Diff1_less le_neq_implies_less less_le_trans)
  then obtain q2 where "ins q1 x lt' = Some q2" "repr lt' q2 (insert x (S - {x}))"
    using ins [OF assms(2) cong [OF q1(2) assms(5)], of x] by blast
  with q1 assms(4) show ?thesis by (simp add: insert_absorb)
qed

text \<open>Insertion into a queue whose other elements keep their keys.\<close>

lemma ins_cong:
  assumes "strict_order lt'" "repr lt q S" "x \<notin> S" "card S < room"
    and "\<And>y z. y \<in> S \<Longrightarrow> z \<in> S \<Longrightarrow> lt y z = lt' y z"
  shows "\<exists>q'. ins q x lt' = Some q' \<and> repr lt' q' (insert x S)"
  using ins [OF assms(1) cong [OF assms(2,5)] assms(3,4)] .

lemma front_removed:
  assumes "strict_order lt" "repr lt q S" "front q = Some x"
  shows "\<exists>q'. rem q x lt = Some q' \<and> repr lt q' (S - {x})"
  using rem [OF assms(1,2)] front_Some [OF assms] by blast

end

section \<open>The heap as a priority queue\<close>

definition heap_pq :: "(node \<Rightarrow> node \<Rightarrow> bool) \<Rightarrow> heap \<Rightarrow> node set \<Rightarrow> bool" where
  "heap_pq lt h S \<longleftrightarrow> (\<exists>xs. heap_repr h xs \<and> heap_ordered lt xs \<and> set xs = S)"

lemma heap_ordered_cong:
  assumes "heap_ordered lt xs" "\<And>x y. x \<in> set xs \<Longrightarrow> y \<in> set xs \<Longrightarrow> lt x y = lt' x y"
  shows "heap_ordered lt' xs"
proof -
  have "par j < length xs" if "0 < j" "j < length xs" for j
    using that par_less [of j] by linarith
  then show ?thesis using assms by (auto simp: heap_ordered_def)
qed

lemma set_list_insert: "set (list_insert lt x xs) = insert x (set xs)"
  by (metis mset_list_insert set_mset_add_mset_insert set_mset_mset)

lemma set_list_remove:
  assumes "i < length xs" "distinct xs"
  shows "set (list_remove lt i xs) = set xs - {xs ! i}"
proof -
  have m: "add_mset (xs ! i) (mset (list_remove lt i xs)) = mset xs" by (rule mset_list_remove [OF assms(1)])
  then have "insert (xs ! i) (set (list_remove lt i xs)) = set xs" by (metis set_mset_add_mset_insert set_mset_mset)
  moreover have "xs ! i \<notin> set (list_remove lt i xs)"
    using m assms(2) by (metis distinct.simps(2) mset.simps(2) mset_eq_imp_distinct_iff)
  ultimately show ?thesis by blast
qed

interpretation hq: priority_queue heap_insert heap_remove heap_min heap_pq "2 ^ 32 - 1"
proof
  fix lt lt' :: "node \<Rightarrow> node \<Rightarrow> bool" and h S x
  assume o: "strict_order lt" and r: "heap_pq lt h S"
  from r obtain xs where xs: "heap_repr h xs" "heap_ordered lt xs" "set xs = S" by (auto simp: heap_pq_def)
  note d = heap_reprD(1) [OF xs(1)]
  {
    assume x: "x \<notin> S" and c: "card S < 2 ^ 32 - 1"
    have "Suc (length xs) < 2 ^ 32" using c distinct_card [OF d] xs(3) by simp
    from heap_insert_repr [OF xs(1) _ this, of x lt] x xs(3)
    show "\<exists>h'. heap_insert h x lt = Some h' \<and> heap_pq lt h' (insert x S)"
      using strict_order.list_insert_ordered [OF o xs(2), of x] set_list_insert [of lt x xs]
      unfolding heap_pq_def by blast
  next
    assume "x \<in> S"
    then obtain i where i: "i < length xs" "xs ! i = x" using xs(3) by (auto simp: in_set_conv_nth)
    from heap_remove_repr [OF xs(1) i(1), of lt] i(2)
    show "\<exists>h'. heap_remove h x lt = Some h' \<and> heap_pq lt h' (S - {x})"
      using strict_order.list_remove_ordered [OF o xs(2) i(1)] set_list_remove [OF i(1) d, of lt] xs(3)
      unfolding heap_pq_def by blast
  next
    assume "heap_min h = Some x"
    then have x: "0 < length xs" "x = xs ! 0"
      using heap_reprD(3) [OF xs(1)] by (auto simp: heap_min_def slot_at_eq_Some)
    have "\<not> lt y x" if "y \<in> S" for y
      using that strict_order.heap_ordered_root [OF o xs(2)] x xs(3) by (auto simp: in_set_conv_nth)
    then show "x \<in> S \<and> (\<forall>y \<in> S. \<not> lt y x)" using x xs(3) by auto
  }
next
  fix lt :: "node \<Rightarrow> node \<Rightarrow> bool" and h S
  assume "heap_pq lt h S"
  then obtain xs where xs: "heap_repr h xs" "set xs = S" by (auto simp: heap_pq_def)
  show "heap_min h = None \<longleftrightarrow> S = {}"
    using heap_reprD(3) [OF xs(1)] xs(2) by (auto simp: heap_min_def slot_at_def)
  have "card S \<le> 2 ^ 32 - 1"
    using distinct_card [OF heap_reprD(1) [OF xs(1)]] heap_reprD(2) [OF xs(1)] xs(2)
      unsigned_less [of "h_nelts h", where 'a = nat] by simp
  then show "finite S \<and> card S \<le> 2 ^ 32 - 1" using xs(2) by auto
next
  fix lt lt' :: "node \<Rightarrow> node \<Rightarrow> bool" and h S
  assume "heap_pq lt h S" "\<And>x y. x \<in> S \<Longrightarrow> y \<in> S \<Longrightarrow> lt x y = lt' x y"
  then show "heap_pq lt' h S" unfolding heap_pq_def using heap_ordered_cong by blast
qed

section \<open>Properties of the heap\<close>

text \<open>A heap of the three nodes 5, 7 and 3, in this order, and their numerical order.\<close>

definition demo_heap :: heap where
  "demo_heap = \<lparr>h_min = Some 3, h_nelts = 3, h_mem = (\<lambda>_. \<lparr>hn_left = None, hn_right = None, hn_parent = None\<rparr>)
     (3 := \<lparr>hn_left = Some 7, hn_right = Some 5, hn_parent = None\<rparr>,
      7 := \<lparr>hn_left = None, hn_right = None, hn_parent = Some 3\<rparr>,
      5 := \<lparr>hn_left = None, hn_right = None, hn_parent = Some 3\<rparr>)\<rparr>"

lemma demo_heap_repr: "heap_repr demo_heap [3, 7, 5]"
  by (auto simp: heap_repr_def demo_heap_def slot_at_def par_def less_Suc_eq)

lemma demo_heap_ordered: "heap_ordered (<) [3, 7, 5 :: node]"
  by (auto simp: heap_ordered_def par_def less_Suc_eq)

interpretation nat_order: strict_order "(<) :: nat \<Rightarrow> nat \<Rightarrow> bool"
  by unfold_locales auto

text \<open>
  C9: \<open>heap_insert\<close> refines insertion into a priority queue: on a well-linked heap in order it
  returns, the result is well linked and in order, and its nodes are the old ones and the new one.
\<close>

theorem heap_insert_refines:
  assumes "heap_repr h xs" "strict_order lt" "heap_ordered lt xs" "x \<notin> set xs" "Suc (length xs) < 2 ^ 32"
  shows "\<exists>h' ys. heap_insert h x lt = Some h' \<and> heap_repr h' ys \<and> heap_ordered lt ys \<and>
    mset ys = add_mset x (mset xs)"
  using heap_insert_repr [OF assms(1,4,5), of lt] strict_order.list_insert_ordered [OF assms(2,3), of x]
    mset_list_insert [of lt x xs] by blast

theorem heap_insert_refines_witness:
  "\<exists>h' ys. heap_insert demo_heap 1 (<) = Some h' \<and> heap_repr h' ys \<and> heap_ordered (<) ys \<and>
    mset ys = {#1, 3, 7, 5#}"
  using heap_insert_refines [OF demo_heap_repr nat_order.strict_order_axioms demo_heap_ordered, of 1] by simp

text \<open>
  C8: \<open>heap_remove\<close> of any node of a well-linked heap in order returns, and leaves a well-linked
  heap in order of the other nodes.
\<close>

theorem heap_remove_refines:
  assumes "heap_repr h xs" "strict_order lt" "heap_ordered lt xs" "x \<in> set xs"
  shows "\<exists>h' ys. heap_remove h x lt = Some h' \<and> heap_repr h' ys \<and> heap_ordered lt ys \<and>
    add_mset x (mset ys) = mset xs"
proof -
  obtain i where i: "i < length xs" "x = xs ! i" using assms(4) by (auto simp: in_set_conv_nth)
  with heap_remove_repr [OF assms(1) i(1), of lt] strict_order.list_remove_ordered [OF assms(2,3) i(1)]
    mset_list_remove [OF i(1), of lt] show ?thesis by blast
qed

theorem heap_remove_refines_witness:
  "\<exists>h' ys. heap_remove demo_heap 3 (<) = Some h' \<and> heap_repr h' ys \<and> heap_ordered (<) ys \<and>
    mset ys = {#7, 5#}"
  using heap_remove_refines [OF demo_heap_repr nat_order.strict_order_axioms demo_heap_ordered, of 3] by simp

text \<open>
  C19: \<open>heap_dequeue\<close> takes out a least node, the one \<open>heap_min\<close> names, and keeps the heap in order.
\<close>

theorem heap_dequeue_least:
  assumes "heap_pq lt h S" "strict_order lt" "S \<noteq> {}"
  shows "\<exists>x h'. heap_min h = Some x \<and> x \<in> S \<and> (\<forall>y \<in> S. \<not> lt y x) \<and>
    heap_dequeue h lt = Some h' \<and> heap_pq lt h' (S - {x})"
proof -
  obtain x where x: "heap_min h = Some x" using hq.front_None [OF assms(1)] assms(3) by auto
  with hq.front_Some [OF assms(2,1) x] hq.front_removed [OF assms(2,1) x] show ?thesis
    by (auto simp: heap_dequeue_def heap_min_def)
qed

theorem heap_dequeue_least_witness:
  "\<exists>x h'. heap_min demo_heap = Some x \<and> x \<in> {3, 7, 5} \<and> (\<forall>y \<in> {3, 7, 5}. \<not> y < x) \<and>
    heap_dequeue demo_heap (<) = Some h' \<and> heap_pq (<) h' ({3, 7, 5} - {x})"
proof -
  have "heap_pq (<) demo_heap {3, 7, 5}" unfolding heap_pq_def using demo_heap_repr demo_heap_ordered by force
  from heap_dequeue_least [OF this nat_order.strict_order_axioms] show ?thesis by simp
qed

end
