(* ===== verification/Uv_Errno.thy ===== *)
theory Uv_Errno
  imports Prelude
begin

text \<open>
  The error numbers of libuv that the modelled functions return (\<open>uv/errno.h\<close>: the negated
  number of the system, here Darwin's).
\<close>

definition UV_E2BIG :: int where [simp]: "UV_E2BIG = - 7"
definition UV_EINVAL :: int where [simp]: "UV_EINVAL = - 22"
definition UV_ENOSPC :: int where [simp]: "UV_ENOSPC = - 28"
definition UV_EAFNOSUPPORT :: int where [simp]: "UV_EAFNOSUPPORT = - 47"

end
