(* ===== verification/Uv_Timer.thy ===== *)
theory Uv_Timer
  imports Uv_Heap Uv_Errno
begin

text \<open>
  libuv's timers (\<open>timer.c\<close>) with the handle macros of \<open>uv-common.h\<close> they use, and how \<open>uv_close\<close>
  (\<open>unix/core.c\<close>) closes one.  A timer handle
  is known by the heap node embedded in it; the loop record holds the handles, the heap and the
  loop's fields the timers use.  A timer callback is a number, \<open>NULL\<close> is \<open>None\<close>; what a callback
  does is a parameter of \<open>uv__run_timers\<close>.
\<close>

section \<open>State\<close>

record uv_timer =
  t_flags :: u32
  t_cb :: "nat option"
  t_timeout :: u64
  t_repeat :: u64
  t_start_id :: u64
  t_close_cb :: "nat option"

record uv_loop =
  l_time :: u64
  l_timer_counter :: u64
  l_active_handles :: u32
  l_handle_queue :: "node list"
  l_heap :: heap
  l_timers :: "node \<Rightarrow> uv_timer"
  l_closing_handles :: "node list"


definition UV_HANDLE_CLOSING :: u32 where [simp]: "UV_HANDLE_CLOSING = 0x00000001"
definition UV_HANDLE_CLOSED :: u32 where [simp]: "UV_HANDLE_CLOSED = 0x00000002"
definition UV_HANDLE_ACTIVE :: u32 where [simp]: "UV_HANDLE_ACTIVE = 0x00000004"
definition UV_HANDLE_REF :: u32 where [simp]: "UV_HANDLE_REF = 0x00000008"

definition upd_timer :: "node \<Rightarrow> (uv_timer \<Rightarrow> uv_timer) \<Rightarrow> uv_loop \<Rightarrow> uv_loop" where
  "upd_timer x f l = l\<lparr>l_timers := (l_timers l)(x := f (l_timers l x))\<rparr>"

section \<open>Handles\<close>

definition uv__is_active :: "uv_timer \<Rightarrow> bool" where
  "uv__is_active h \<longleftrightarrow> t_flags h AND UV_HANDLE_ACTIVE \<noteq> 0"

definition uv__is_closing :: "uv_timer \<Rightarrow> bool" where
  "uv__is_closing h \<longleftrightarrow> t_flags h AND (UV_HANDLE_CLOSING OR UV_HANDLE_CLOSED) \<noteq> 0"

definition uv__handle_init :: "node \<Rightarrow> uv_loop \<Rightarrow> uv_loop" where
  "uv__handle_init x l =
     (let l1 = upd_timer x (\<lambda>t. t\<lparr>t_flags := UV_HANDLE_REF\<rparr>) l
      in l1\<lparr>l_handle_queue := l_handle_queue l1 @ [x]\<rparr>)"

definition uv__handle_start :: "node \<Rightarrow> uv_loop \<Rightarrow> uv_loop" where
  "uv__handle_start x l =
     (if t_flags (l_timers l x) AND UV_HANDLE_ACTIVE \<noteq> 0 then l
      else
        let l1 = upd_timer x (\<lambda>t. t\<lparr>t_flags := t_flags t OR UV_HANDLE_ACTIVE\<rparr>) l
        in if t_flags (l_timers l1 x) AND UV_HANDLE_REF \<noteq> 0
           then l1\<lparr>l_active_handles := l_active_handles l1 + 1\<rparr> else l1)"

definition uv__handle_stop :: "node \<Rightarrow> uv_loop \<Rightarrow> uv_loop" where
  "uv__handle_stop x l =
     (if t_flags (l_timers l x) AND UV_HANDLE_ACTIVE = 0 then l
      else
        let l1 = upd_timer x (\<lambda>t. t\<lparr>t_flags := t_flags t AND NOT UV_HANDLE_ACTIVE\<rparr>) l
        in if t_flags (l_timers l1 x) AND UV_HANDLE_REF \<noteq> 0
           then l1\<lparr>l_active_handles := l_active_handles l1 - 1\<rparr> else l1)"

section \<open>Timers\<close>

definition timer_less_than :: "(node \<Rightarrow> uv_timer) \<Rightarrow> node \<Rightarrow> node \<Rightarrow> bool" where
  "timer_less_than ts a b \<longleftrightarrow>
     (if t_timeout (ts a) < t_timeout (ts b) then True
      else if t_timeout (ts b) < t_timeout (ts a) then False
      else t_start_id (ts a) < t_start_id (ts b))"

definition uv_timer_init :: "node \<Rightarrow> uv_loop \<Rightarrow> int \<times> uv_loop" where
  "uv_timer_init x l =
     (0, upd_timer x (\<lambda>t. t\<lparr>t_cb := None, t_repeat := 0\<rparr>) (uv__handle_init x l))"

definition uv_timer_stop :: "node \<Rightarrow> uv_loop \<Rightarrow> (int \<times> uv_loop) option" where
  "uv_timer_stop x l =
     (if \<not> uv__is_active (l_timers l x) then Some (0, l)
      else do {
        h \<leftarrow> heap_remove (l_heap l) x (timer_less_than (l_timers l));
        Some (0, uv__handle_stop x (l\<lparr>l_heap := h\<rparr>))
      })"

definition uv_timer_start :: "node \<Rightarrow> nat option \<Rightarrow> u64 \<Rightarrow> u64 \<Rightarrow> uv_loop \<Rightarrow> (int \<times> uv_loop) option" where
  "uv_timer_start x cb timeout repeat l =
     (if uv__is_closing (l_timers l x) \<or> cb = None then Some (UV_EINVAL, l)
      else do {
        (_, l1) \<leftarrow> (if uv__is_active (l_timers l x) then uv_timer_stop x l else Some (0, l));
        let sum = l_time l1 + timeout;
            clamped_timeout = (if sum < timeout then - 1 else sum);
            l2 = upd_timer x (\<lambda>t. t\<lparr>t_cb := cb, t_timeout := clamped_timeout, t_repeat := repeat,
                   t_start_id := l_timer_counter l1\<rparr>) l1;
            l3 = l2\<lparr>l_timer_counter := l_timer_counter l2 + 1\<rparr>
        in do {
          h \<leftarrow> heap_insert (l_heap l3) x (timer_less_than (l_timers l3));
          Some (0, uv__handle_start x (l3\<lparr>l_heap := h\<rparr>))
        }
      })"

definition uv_timer_again :: "node \<Rightarrow> uv_loop \<Rightarrow> (int \<times> uv_loop) option" where
  "uv_timer_again x l =
     (if t_cb (l_timers l x) = None then Some (UV_EINVAL, l)
      else if t_repeat (l_timers l x) \<noteq> 0 then do {
        (_, l1) \<leftarrow> uv_timer_stop x l;
        (_, l2) \<leftarrow> uv_timer_start x (t_cb (l_timers l1 x)) (t_repeat (l_timers l1 x))
                    (t_repeat (l_timers l1 x)) l1;
        Some (0, l2)
      }
      else Some (0, l))"

definition uv_timer_set_repeat :: "node \<Rightarrow> u64 \<Rightarrow> uv_loop \<Rightarrow> uv_loop" where
  "uv_timer_set_repeat x repeat l = upd_timer x (\<lambda>t. t\<lparr>t_repeat := repeat\<rparr>) l"

definition uv_timer_get_repeat :: "node \<Rightarrow> uv_loop \<Rightarrow> u64" where
  "uv_timer_get_repeat x l = t_repeat (l_timers l x)"

definition INT_MAX :: u64 where [simp]: "INT_MAX = 0x7FFFFFFF"

definition uv__next_timeout :: "uv_loop \<Rightarrow> int" where
  "uv__next_timeout l =
     (case heap_min (l_heap l) of
        None \<Rightarrow> - 1
      | Some x \<Rightarrow>
          let timeout = t_timeout (l_timers l x) in
          if timeout \<le> l_time l then 0
          else
            let diff = timeout - l_time l;
                diff' = (if INT_MAX < diff then INT_MAX else diff)
            in sint (ucast diff' :: u32))"

text \<open>
  \<open>call cb x l\<close> is the timer callback \<open>cb\<close> on handle \<open>x\<close>; calling a null pointer has no result.
\<close>

partial_function (option) uv__run_timers ::
  "(nat \<Rightarrow> node \<Rightarrow> uv_loop \<Rightarrow> uv_loop option) \<Rightarrow> uv_loop \<Rightarrow> uv_loop option" where
  "uv__run_timers call l =
     (case heap_min (l_heap l) of
        None \<Rightarrow> Some l
      | Some x \<Rightarrow>
          if l_time l < t_timeout (l_timers l x) then Some l
          else do {
            (_, l1) \<leftarrow> uv_timer_stop x l;
            (_, l2) \<leftarrow> uv_timer_again x l1;
            case t_cb (l_timers l2 x) of
              None \<Rightarrow> None
            | Some cb \<Rightarrow> do {
                l3 \<leftarrow> call cb x l2;
                uv__run_timers call l3
              }
          })"

definition uv__timer_close :: "node \<Rightarrow> uv_loop \<Rightarrow> uv_loop option" where
  "uv__timer_close x l = map_option snd (uv_timer_stop x l)"

section \<open>The clock and the end of a handle\<close>

text \<open>\<open>hrtime\<close> is the reading of the monotonic clock, in nanoseconds.\<close>

definition uv_update_time :: "u64 \<Rightarrow> uv_loop \<Rightarrow> uv_loop" where
  "uv_update_time hrtime l = l\<lparr>l_time := hrtime div 1000000\<rparr>"

text \<open>A failed assertion has no result.  The handles to be closed are a list, the latest first.\<close>

definition uv__make_close_pending :: "node \<Rightarrow> uv_loop \<Rightarrow> uv_loop option" where
  "uv__make_close_pending x l =
     (if t_flags (l_timers l x) AND UV_HANDLE_CLOSING = 0 \<or> t_flags (l_timers l x) AND UV_HANDLE_CLOSED \<noteq> 0 then None
      else Some (l\<lparr>l_closing_handles := x # l_closing_handles l\<rparr>))"

text \<open>\<open>uv_close\<close> on a timer.\<close>

definition uv_close :: "node \<Rightarrow> nat option \<Rightarrow> uv_loop \<Rightarrow> uv_loop option" where
  "uv_close x close_cb l =
     (if uv__is_closing (l_timers l x) then None
      else do {
        let l1 = upd_timer x (\<lambda>t. t\<lparr>t_flags := t_flags t OR UV_HANDLE_CLOSING, t_close_cb := close_cb\<rparr>) l;
        l2 \<leftarrow> uv__timer_close x l1;
        uv__make_close_pending x l2
      })"

end
