(* ===== verification/Uv_Timer_Facts.thy ===== *)
theory Uv_Timer_Facts
  imports Uv_Queue Uv_Timer
begin

text \<open>
  The invariant of the timers of a loop, its preservation by \<open>uv_timer_start\<close>, \<open>uv_timer_stop\<close> and
  \<open>uv_timer_again\<close>, and the properties of the poll timeout and of \<open>uv__run_timers\<close>, over the
  priority-queue interface of the heap.
\<close>

section \<open>The timer order\<close>

lemma timer_less_than_iff:
  "timer_less_than ts a b \<longleftrightarrow>
    t_timeout (ts a) < t_timeout (ts b) \<or>
    t_timeout (ts a) = t_timeout (ts b) \<and> t_start_id (ts a) < t_start_id (ts b)"
  by (auto simp: timer_less_than_def)

interpretation timer_order: strict_order "timer_less_than ts" for ts
  by unfold_locales (auto simp: timer_less_than_iff)

section \<open>The invariant of the loop's timers\<close>

text \<open>
  \<open>timers_ok l\<close>: the heap holds exactly the active timers, ordered by their timeouts and start
  numbers, and every active timer has a callback and is not being closed.
\<close>

definition active_timers :: "uv_loop \<Rightarrow> node set" where
  "active_timers l = {x. uv__is_active (l_timers l x)}"

definition timers_ok :: "uv_loop \<Rightarrow> bool" where
  "timers_ok l \<longleftrightarrow>
     heap_pq (timer_less_than (l_timers l)) (l_heap l) (active_timers l) \<and>
     (\<forall>x \<in> active_timers l. t_cb (l_timers l x) \<noteq> None \<and> \<not> uv__is_closing (l_timers l x))"

lemma active_bit: "uv__is_active t \<longleftrightarrow> bit (t_flags t) 2"
  using and_exp_eq_0_iff_not_bit [of "t_flags t" 2] by (simp add: uv__is_active_def)

lemma closing_bit: "uv__is_closing t \<longleftrightarrow> bit (t_flags t) 0 \<or> bit (t_flags t) 1"
proof -
  have "t_flags t AND 3 = 0 \<longleftrightarrow> t_flags t AND 1 = 0 \<and> t_flags t AND 2 = 0"
  proof -
    have "t_flags t AND 3 = (t_flags t AND 1) OR (t_flags t AND 2)"
      by (simp flip: bit.conj_disj_distrib)
    then show ?thesis by (simp add: or_eq_0_iff)
  qed
  then show ?thesis
    using and_exp_eq_0_iff_not_bit [of "t_flags t" 0] and_exp_eq_0_iff_not_bit [of "t_flags t" 1]
    by (simp add: uv__is_closing_def)
qed

lemma started_flags:
  "uv__is_active (t\<lparr>t_flags := t_flags t OR UV_HANDLE_ACTIVE\<rparr>)"
  "uv__is_closing (t\<lparr>t_flags := t_flags t OR UV_HANDLE_ACTIVE\<rparr>) = uv__is_closing t"
  by (simp_all add: active_bit closing_bit bit_simps)

lemma stopped_flags:
  "\<not> uv__is_active (t\<lparr>t_flags := t_flags t AND NOT UV_HANDLE_ACTIVE\<rparr>)"
  "uv__is_closing (t\<lparr>t_flags := t_flags t AND NOT UV_HANDLE_ACTIVE\<rparr>) = uv__is_closing t"
  by (simp_all add: active_bit closing_bit bit_simps)

lemmas flag_simps = started_flags started_flags [simplified] stopped_flags stopped_flags [simplified]

lemma timer_keys:
  "timer_less_than (ts(x := (ts x)\<lparr>t_flags := f\<rparr>)) = timer_less_than ts"
  by (intro ext) (auto simp: timer_less_than_iff)

section \<open>Stopping and starting\<close>

lemma upd_timer_sel [simp]:
  "l_time (upd_timer x f l) = l_time l" "l_heap (upd_timer x f l) = l_heap l"
  "l_timer_counter (upd_timer x f l) = l_timer_counter l"
  "l_timers (upd_timer x f l) = (l_timers l)(x := f (l_timers l x))"
  by (simp_all add: upd_timer_def)

lemma handle_start_sel [simp]:
  "l_time (uv__handle_start x l) = l_time l" "l_heap (uv__handle_start x l) = l_heap l"
  "l_timer_counter (uv__handle_start x l) = l_timer_counter l"
  by (simp_all add: uv__handle_start_def Let_def)

lemma handle_stop_sel [simp]:
  "l_time (uv__handle_stop x l) = l_time l" "l_heap (uv__handle_stop x l) = l_heap l"
  "l_timer_counter (uv__handle_stop x l) = l_timer_counter l"
  by (simp_all add: uv__handle_stop_def Let_def)

lemma handle_start_timers:
  "l_timers (uv__handle_start x l) =
    (if uv__is_active (l_timers l x) then l_timers l
     else (l_timers l)(x := (l_timers l x)\<lparr>t_flags := t_flags (l_timers l x) OR UV_HANDLE_ACTIVE\<rparr>))"
  by (simp add: uv__handle_start_def Let_def uv__is_active_def)

lemma handle_stop_timers:
  "l_timers (uv__handle_stop x l) =
    (if uv__is_active (l_timers l x)
     then (l_timers l)(x := (l_timers l x)\<lparr>t_flags := t_flags (l_timers l x) AND NOT UV_HANDLE_ACTIVE\<rparr>)
     else l_timers l)"
  by (simp add: uv__handle_stop_def Let_def uv__is_active_def)

text \<open>The timers with \<open>x\<close> stopped.\<close>

definition stopped :: "node \<Rightarrow> (node \<Rightarrow> uv_timer) \<Rightarrow> node \<Rightarrow> uv_timer" where
  "stopped x ts = (if uv__is_active (ts x)
     then ts(x := (ts x)\<lparr>t_flags := t_flags (ts x) AND NOT UV_HANDLE_ACTIVE\<rparr>) else ts)"

text \<open>Only the other timers have to be in order: \<open>uv_close\<close> stops a timer that it has marked already.\<close>

lemma uv_timer_stop_others:
  assumes q: "heap_pq (timer_less_than (l_timers l)) (l_heap l) (active_timers l)"
    and others: "\<forall>y \<in> active_timers l - {x}. t_cb (l_timers l y) \<noteq> None \<and> \<not> uv__is_closing (l_timers l y)"
  shows "\<exists>l'. uv_timer_stop x l = Some (0, l') \<and> timers_ok l' \<and> l_timers l' = stopped x (l_timers l) \<and>
    active_timers l' = active_timers l - {x} \<and> l_time l' = l_time l \<and> l_timer_counter l' = l_timer_counter l"
proof (cases "uv__is_active (l_timers l x)")
  case False
  then have "active_timers l - {x} = active_timers l" by (auto simp: active_timers_def)
  then show ?thesis using False assms by (simp add: uv_timer_stop_def stopped_def timers_ok_def)
next
  case True
  let ?lt = "timer_less_than (l_timers l)"
  have x: "x \<in> active_timers l" using True by (simp add: active_timers_def)
  from hq.rem [OF timer_order.strict_order_axioms q x] obtain h
    where h: "heap_remove (l_heap l) x ?lt = Some h" "heap_pq ?lt h (active_timers l - {x})" by blast
  define l' where "l' = uv__handle_stop x (l\<lparr>l_heap := h\<rparr>)"
  have t: "l_timers l' = stopped x (l_timers l)"
    by (simp add: l'_def handle_stop_timers stopped_def)
  have a: "active_timers l' = active_timers l - {x}"
    using True by (auto simp: active_timers_def t stopped_def flag_simps)
  have "timer_less_than (l_timers l') = ?lt" using True by (simp add: t stopped_def timer_keys)
  moreover have lh: "l_heap l' = h" by (simp add: l'_def)
  ultimately have "timers_ok l'"
    using others h(2) True unfolding timers_ok_def a lh by (auto simp: t stopped_def)
  then show ?thesis using True h(1) t a by (auto simp: uv_timer_stop_def l'_def)
qed

lemma uv_timer_stop_ok:
  assumes "timers_ok l"
  shows "\<exists>l'. uv_timer_stop x l = Some (0, l') \<and> timers_ok l' \<and> l_timers l' = stopped x (l_timers l) \<and>
    active_timers l' = active_timers l - {x} \<and> l_time l' = l_time l \<and> l_timer_counter l' = l_timer_counter l"
  using assms by (intro uv_timer_stop_others) (simp_all add: timers_ok_def)

text \<open>The sum of two times, saturated at the largest 64-bit number.\<close>

definition sat_add :: "u64 \<Rightarrow> u64 \<Rightarrow> u64" where
  "sat_add a b = (if unat a + unat b < 2 ^ 64 then a + b else - 1)"

lemma clamped_eq: "(if a + b < b then - 1 else a + b) = sat_add a b"
  unfolding sat_add_def using unsigned_less [of a, where 'a = nat]
  by (auto simp: word_less_nat_alt unat_plus_if' split: if_splits)

definition started :: "node \<Rightarrow> nat option \<Rightarrow> u64 \<Rightarrow> u64 \<Rightarrow> u64 \<Rightarrow> uv_timer \<Rightarrow> uv_timer" where
  "started x cb timeout repeat sid t = t\<lparr>t_cb := cb, t_timeout := timeout, t_repeat := repeat,
     t_start_id := sid, t_flags := t_flags t OR UV_HANDLE_ACTIVE\<rparr>"

lemma uv_timer_start_ok:
  assumes ok: "timers_ok l" and cb: "cb \<noteq> None" "\<not> uv__is_closing (l_timers l x)"
    and room: "card (active_timers l - {x}) < 2 ^ 32 - 1"
  shows "\<exists>l' t. uv_timer_start x cb timeout repeat l = Some (0, l') \<and> timers_ok l' \<and>
    l_timers l' = (l_timers l)(x := t) \<and> uv__is_active t \<and> t_cb t = cb \<and> t_repeat t = repeat \<and>
    t_timeout t = sat_add (l_time l) timeout \<and> t_start_id t = l_timer_counter l \<and>
    uv__is_closing t = uv__is_closing (l_timers l x) \<and>
    active_timers l' = insert x (active_timers l) \<and> l_time l' = l_time l \<and>
    l_timer_counter l' = l_timer_counter l + 1"
proof -
  from uv_timer_stop_ok [OF ok, of x] obtain l1 where
    l1: "(if uv__is_active (l_timers l x) then uv_timer_stop x l else Some (0, l)) = Some (0, l1)"
      "timers_ok l1" "l_timers l1 = stopped x (l_timers l)" "active_timers l1 = active_timers l - {x}"
      "l_time l1 = l_time l" "l_timer_counter l1 = l_timer_counter l"
    using ok by (cases "uv__is_active (l_timers l x)") (auto simp: stopped_def active_timers_def)
  define t3 where "t3 = (l_timers l1 x)\<lparr>t_cb := cb, t_timeout := sat_add (l_time l) timeout, t_repeat := repeat,
      t_start_id := l_timer_counter l\<rparr>"
  define l3 where "l3 = upd_timer x (\<lambda>_. t3) l1\<lparr>l_timer_counter := l_timer_counter l + 1\<rparr>"
  let ?lt = "timer_less_than (l_timers l3)"
  have x1: "x \<notin> active_timers l1" "\<not> uv__is_active (l_timers l1 x)" "\<not> uv__is_active t3"
    "uv__is_closing t3 = uv__is_closing (l_timers l x)"
    using l1(4) by (auto simp: active_timers_def t3_def active_bit closing_bit l1(3) stopped_def bit_simps)
  have q1: "heap_pq (timer_less_than (l_timers l1)) (l_heap l1) (active_timers l1)"
    using l1(2) by (simp add: timers_ok_def)
  have "timer_less_than (l_timers l1) y z = ?lt y z" if "y \<in> active_timers l1" "z \<in> active_timers l1" for y z
    using that x1(1) by (auto simp: l3_def timer_less_than_iff)
  from hq.ins_cong [OF timer_order.strict_order_axioms q1 x1(1) _ this] room l1(4) obtain h
    where h: "heap_insert (l_heap l1) x ?lt = Some h" "heap_pq ?lt h (insert x (active_timers l1))" by auto
  define l' where "l' = uv__handle_start x (l3\<lparr>l_heap := h\<rparr>)"
  define t where "t = t3\<lparr>t_flags := t_flags t3 OR UV_HANDLE_ACTIVE\<rparr>"
  have tm: "l_timers l' = (l_timers l)(x := t)"
    using x1(3) by (auto simp: l'_def handle_start_timers l3_def l1(3) stopped_def t_def)
  have act: "active_timers l' = insert x (active_timers l)"
    by (auto simp: active_timers_def tm t_def flag_simps)
  have ins: "insert x (active_timers l1) = active_timers l'" unfolding act l1(4) by blast
  have "timer_less_than (l_timers l') = ?lt"
    by (intro ext) (auto simp: timer_less_than_iff tm l3_def t_def l1(3) stopped_def)
  moreover have lh: "l_heap l' = h" by (simp add: l'_def)
  moreover have tx: "t_cb t = cb" "uv__is_closing t = uv__is_closing (l_timers l x)"
    using x1(4) by (simp add: t_def t3_def, simp only: t_def flag_simps)
  ultimately have "timers_ok l'"
    using h(2) ok cb unfolding timers_ok_def ins by (auto simp: tm act)
  moreover have "uv_timer_start x cb timeout repeat l = Some (0, l')"
    unfolding uv_timer_start_def Let_def clamped_eq
    using cb l1(1,5,6) h(1) by (simp add: l3_def l'_def t3_def upd_timer_def)
  moreover have "l_time l' = l_time l" "l_timer_counter l' = l_timer_counter l + 1"
    by (simp_all add: l'_def l3_def l1(5,6))
  moreover have "uv__is_active t" "t_repeat t = repeat" "t_timeout t = sat_add (l_time l) timeout"
    "t_start_id t = l_timer_counter l"
    by (simp only: t_def flag_simps, simp_all add: t_def t3_def)
  ultimately show ?thesis using tm act tx by blast
qed

section \<open>Rearming and running the due timers\<close>

lemma uv_timer_again_ok:
  assumes ok: "timers_ok l" and cb: "t_cb (l_timers l x) \<noteq> None" "\<not> uv__is_closing (l_timers l x)"
    and room: "card (active_timers l - {x}) < 2 ^ 32 - 1"
  shows "\<exists>l'. uv_timer_again x l = Some (0, l') \<and> timers_ok l' \<and> l_time l' = l_time l \<and>
    (if t_repeat (l_timers l x) = 0 then l' = l
     else \<exists>t. l_timers l' = (l_timers l)(x := t) \<and> active_timers l' = insert x (active_timers l) \<and>
       t_cb t = t_cb (l_timers l x) \<and> t_repeat t = t_repeat (l_timers l x) \<and>
       t_timeout t = sat_add (l_time l) (t_repeat (l_timers l x)))"
proof (cases "t_repeat (l_timers l x) = 0")
  case True
  then show ?thesis using ok cb by (auto simp: uv_timer_again_def)
next
  case False
  from uv_timer_stop_ok [OF ok, of x] obtain l1 where
    l1: "uv_timer_stop x l = Some (0, l1)" "timers_ok l1" "l_timers l1 = stopped x (l_timers l)"
      "active_timers l1 = active_timers l - {x}" "l_time l1 = l_time l" by blast
  have s: "t_cb (l_timers l1 x) = t_cb (l_timers l x)" "t_repeat (l_timers l1 x) = t_repeat (l_timers l x)"
    "uv__is_closing (l_timers l1 x) = uv__is_closing (l_timers l x)"
    by (auto simp: l1(3) stopped_def flag_simps)
  have "card (active_timers l1 - {x}) < 2 ^ 32 - 1" using room by (simp add: l1(4))
  from uv_timer_start_ok [OF l1(2) _ _ this, of "t_cb (l_timers l x)" "t_repeat (l_timers l x)" "t_repeat (l_timers l x)"]
  obtain l' t where l': "uv_timer_start x (t_cb (l_timers l x)) (t_repeat (l_timers l x)) (t_repeat (l_timers l x)) l1 = Some (0, l')"
    "timers_ok l'" "l_timers l' = (l_timers l1)(x := t)" "t_cb t = t_cb (l_timers l x)"
    "t_repeat t = t_repeat (l_timers l x)" "t_timeout t = sat_add (l_time l1) (t_repeat (l_timers l x))"
    "active_timers l' = insert x (active_timers l1)" "l_time l' = l_time l1"
    using cb unfolding s by blast
  have "l_timers l' = (l_timers l)(x := t)" by (auto simp: l'(3) l1(3) stopped_def)
  moreover have "active_timers l' = insert x (active_timers l)" using l'(7) l1(4) by auto
  moreover have "uv_timer_again x l = Some (0, l')"
    using False cb l1(1) l'(1) by (simp add: uv_timer_again_def s)
  ultimately show ?thesis using False l'(2,4,5,6,8) l1(5) by auto
qed

definition due_timers :: "uv_loop \<Rightarrow> node set" where
  "due_timers l = {x \<in> active_timers l. t_timeout (l_timers l x) \<le> l_time l}"

lemma sat_add_greater: "b \<noteq> 0 \<Longrightarrow> a < - 1 \<Longrightarrow> a < sat_add a b"
  by (auto simp: sat_add_def word_less_nat_alt unat_plus_if' unat_gt_0)

lemma finite_active: "timers_ok l \<Longrightarrow> finite (active_timers l) \<and> card (active_timers l) \<le> 2 ^ 32 - 1"
  using hq.bounded by (auto simp: timers_ok_def)

lemma heap_min_timer:
  assumes "timers_ok l" "heap_min (l_heap l) = Some x"
  shows "x \<in> active_timers l \<and> (\<forall>y \<in> active_timers l. t_timeout (l_timers l x) \<le> t_timeout (l_timers l y))"
  using hq.front_Some [OF timer_order.strict_order_axioms _ assms(2)] assms(1)
  by (fastforce simp: timers_ok_def timer_less_than_iff)

lemma heap_min_None_timer: "timers_ok l \<Longrightarrow> heap_min (l_heap l) = None \<longleftrightarrow> active_timers l = {}"
  using hq.front_None by (auto simp: timers_ok_def)

text \<open>One round of \<open>uv__run_timers\<close> before the callback: the first timer is no longer due.\<close>

lemma rearm:
  assumes ok: "timers_ok l" and x: "x \<in> due_timers l" and t: "l_time l < - 1"
  shows "\<exists>l1 l2 t2. uv_timer_stop x l = Some (0, l1) \<and> uv_timer_again x l1 = Some (0, l2) \<and> timers_ok l2 \<and>
    l_time l2 = l_time l \<and> l_timers l2 = (l_timers l)(x := t2) \<and> t_cb t2 = t_cb (l_timers l x) \<and>
    due_timers l2 = due_timers l - {x} \<and> active_timers l2 \<subseteq> active_timers l \<and> \<not> uv__is_closing t2"
proof -
  have xa: "x \<in> active_timers l" "t_cb (l_timers l x) \<noteq> None" "\<not> uv__is_closing (l_timers l x)"
    using x ok by (auto simp: due_timers_def timers_ok_def)
  from uv_timer_stop_ok [OF ok, of x] obtain l1 where
    l1: "uv_timer_stop x l = Some (0, l1)" "timers_ok l1" "l_timers l1 = stopped x (l_timers l)"
      "active_timers l1 = active_timers l - {x}" "l_time l1 = l_time l" by blast
  have s: "t_cb (l_timers l1 x) = t_cb (l_timers l x)" "uv__is_closing (l_timers l1 x) = uv__is_closing (l_timers l x)"
    by (auto simp: l1(3) stopped_def flag_simps)
  have "card (active_timers l - {x}) < card (active_timers l)"
    using finite_active [OF ok] xa(1) by (intro card_Diff1_less) auto
  then have room: "card (active_timers l1 - {x}) < 2 ^ 32 - 1"
    using finite_active [OF ok] by (simp add: l1(4))
  from uv_timer_again_ok [OF l1(2) _ _ room] xa(2,3) obtain l2 where
    l2: "uv_timer_again x l1 = Some (0, l2)" "timers_ok l2" "l_time l2 = l_time l1"
     "if t_repeat (l_timers l1 x) = 0 then l2 = l1
     else \<exists>t. l_timers l2 = (l_timers l1)(x := t) \<and> active_timers l2 = insert x (active_timers l1) \<and>
       t_cb t = t_cb (l_timers l1 x) \<and> t_repeat t = t_repeat (l_timers l1 x) \<and>
       t_timeout t = sat_add (l_time l1) (t_repeat (l_timers l1 x))"
    unfolding s by blast
  have tm1: "l_timers l1 = (l_timers l)(x := l_timers l1 x)" by (auto simp: l1(3) stopped_def)
  have "\<exists>t2. l_timers l2 = (l_timers l)(x := t2) \<and> t_cb t2 = t_cb (l_timers l x) \<and> due_timers l2 = due_timers l - {x} \<and>
    active_timers l2 \<subseteq> active_timers l \<and> \<not> uv__is_closing t2"
  proof (cases "t_repeat (l_timers l1 x) = 0")
    case True
    then have "l2 = l1" using l2(4) by simp
    moreover have "due_timers l1 = due_timers l - {x}"
      by (subst (1 2) due_timers_def, subst tm1) (auto simp: l1(4,5))
    ultimately show ?thesis using tm1 s xa(3) l1(4) by auto
  next
    case False
    with l2(4) obtain t2 where t2: "l_timers l2 = (l_timers l1)(x := t2)"
      "active_timers l2 = insert x (active_timers l1)" "t_cb t2 = t_cb (l_timers l x)"
      "t_timeout t2 = sat_add (l_time l) (t_repeat (l_timers l1 x))" unfolding s l1(5) by auto
    have tm: "l_timers l2 = (l_timers l)(x := t2)" unfolding t2(1) by (subst tm1) simp
    moreover have "l_time l < t_timeout t2" using sat_add_greater [OF False t] by (simp add: t2(4))
    then have "due_timers l2 = due_timers l - {x}"
      unfolding due_timers_def t2(2) tm l1(4) l2(3) l1(5) by auto
    moreover have "active_timers l2 \<subseteq> active_timers l" using t2(2) l1(4) xa(1) by auto
    moreover have "\<not> uv__is_closing t2" using l2(2) t2(2) unfolding timers_ok_def tm by auto
    ultimately show ?thesis using t2(3) by blast
  qed
  then show ?thesis using l1(1) l2(1,2,3) l1(5) by auto
qed

lemma run_timers_step:
  assumes ok: "timers_ok l" and due: "due_timers l \<noteq> {}" and t: "l_time l < - 1"
  shows "\<exists>x cb l2 t2. x \<in> due_timers l \<and> (\<forall>y \<in> active_timers l. \<not> timer_less_than (l_timers l) y x) \<and>
    t_cb (l_timers l x) = Some cb \<and> timers_ok l2 \<and> l_time l2 = l_time l \<and> l_timers l2 = (l_timers l)(x := t2) \<and>
    due_timers l2 = due_timers l - {x} \<and>
    uv__run_timers call l = Option.bind (call cb x l2) (uv__run_timers call)"
proof -
  have "heap_min (l_heap l) \<noteq> None" using heap_min_None_timer [OF ok] due by (auto simp: due_timers_def)
  then obtain x where m: "heap_min (l_heap l) = Some x" by blast
  have f: "x \<in> active_timers l" "\<forall>y \<in> active_timers l. \<not> timer_less_than (l_timers l) y x"
    using hq.front_Some [OF timer_order.strict_order_axioms _ m] ok by (auto simp: timers_ok_def)
  have le: "t_timeout (l_timers l x) \<le> l_time l"
    using heap_min_timer [OF ok m] due by (force simp: due_timers_def)
  then have x: "x \<in> due_timers l" using f(1) by (simp add: due_timers_def)
  obtain cb where cb: "t_cb (l_timers l x) = Some cb" using f(1) ok by (auto simp: timers_ok_def)
  from rearm [OF ok x t] obtain l1 l2 t2 where
    l2: "uv_timer_stop x l = Some (0, l1)" "uv_timer_again x l1 = Some (0, l2)" "timers_ok l2"
      "l_time l2 = l_time l" "l_timers l2 = (l_timers l)(x := t2)" "t_cb t2 = t_cb (l_timers l x)"
      "due_timers l2 = due_timers l - {x}" by blast
  have "uv__run_timers call l = Option.bind (call cb x l2) (uv__run_timers call)"
    using m leD [OF le] cb l2(1,2,5,6) by (subst uv__run_timers.simps) simp
  with x f(2) cb l2 show ?thesis by blast
qed

lemma run_timers_done:
  assumes "timers_ok l" "due_timers l = {}"
  shows "uv__run_timers call l = Some l"
proof (cases "heap_min (l_heap l)")
  case (Some x)
  then have "l_time l < t_timeout (l_timers l x)"
    using heap_min_timer [OF assms(1) Some] assms(2) by (force simp: due_timers_def)
  then show ?thesis using Some by (subst uv__run_timers.simps) simp
qed (subst uv__run_timers.simps, simp)

section \<open>The poll timeout\<close>

lemma unat_minus_1_u64: "unat (- 1 :: u64) = 2 ^ 64 - 1"
  by (simp add: unsigned_minus_1_eq_mask mask_eq_exp_minus_1)

lemma uv__next_timeout_eq:
  assumes ok: "timers_ok l"
  shows "uv__next_timeout l =
    (if active_timers l = {} then - 1
     else min (2 ^ 31 - 1)
       (Min ((\<lambda>x. int (unat (t_timeout (l_timers l x)) - unat (l_time l))) ` active_timers l)))"
proof (cases "heap_min (l_heap l)")
  case None
  then show ?thesis using heap_min_None_timer [OF ok] by (simp add: uv__next_timeout_def)
next
  case (Some x)
  note m = heap_min_timer [OF ok Some]
  let ?d = "\<lambda>x. int (unat (t_timeout (l_timers l x)) - unat (l_time l))"
  have "Min (?d ` active_timers l) = ?d x"
    using m finite_active [OF ok] by (intro Min_eqI) (auto simp: word_le_nat_alt diff_le_mono)
  moreover have "uv__next_timeout l = min (2 ^ 31 - 1) (?d x)"
  proof (cases "t_timeout (l_timers l x) \<le> l_time l")
    case True
    then show ?thesis using Some by (simp add: uv__next_timeout_def Let_def word_le_nat_alt)
  next
    case False
    define d where "d = t_timeout (l_timers l x) - l_time l"
    have u: "unat d = unat (t_timeout (l_timers l x)) - unat (l_time l)"
      using False by (simp add: d_def unat_sub word_le_nat_alt)
    define e where "e = (if INT_MAX < d then INT_MAX else d)"
    have e: "unat e = min (2 ^ 31 - 1) (unat d)" by (auto simp: e_def word_less_nat_alt)
    then have w: "int (unat (ucast e :: u32)) = int (unat e)"
      by (simp add: unsigned_ucast_eq take_bit_nat_eq_self)
    have "uint (ucast e :: u32) = int (unat (ucast e :: u32))" by simp
    also have "\<dots> = min (2 ^ 31 - 1) (int (unat d))" unfolding w e of_nat_min by simp
    finally have ue: "uint (ucast e :: u32) = min (2 ^ 31 - 1) (int (unat d))" .
    have "signed_take_bit 31 (min (2 ^ 31 - 1) (int n)) = min (2 ^ 31 - 1) (int n)" for n
      by (rule signed_take_bit_int_eq_self) auto
    from this [of "unat d"] have "sint (ucast e :: u32) = min (2 ^ 31 - 1) (int (unat d))"
      unfolding sint_uint ue by simp
    moreover have "uv__next_timeout l = sint (ucast e :: u32)"
      unfolding uv__next_timeout_def Let_def e_def d_def using Some False by simp
    ultimately show ?thesis unfolding u by simp
  qed
  ultimately show ?thesis using m by auto
qed

section \<open>Properties of the timers\<close>

text \<open>
  Two timers at time 9: timer 7, which repeats every 3, is due since 5 and timer 3 is due at 20.
\<close>

definition demo_loop :: uv_loop where
  "demo_loop = \<lparr>l_time = 9, l_timer_counter = 2, l_active_handles = 2, l_handle_queue = [3, 7],
     l_heap = \<lparr>h_min = Some 7, h_nelts = 2, h_mem = (\<lambda>_. \<lparr>hn_left = None, hn_right = None, hn_parent = None\<rparr>)
       (7 := \<lparr>hn_left = Some 3, hn_right = None, hn_parent = None\<rparr>,
        3 := \<lparr>hn_left = None, hn_right = None, hn_parent = Some 7\<rparr>)\<rparr>,
     l_timers = (\<lambda>_. \<lparr>t_flags = UV_HANDLE_REF, t_cb = None, t_timeout = 0, t_repeat = 0, t_start_id = 0, t_close_cb = None\<rparr>)
       (3 := \<lparr>t_flags = 12, t_cb = Some 0, t_timeout = 20, t_repeat = 0, t_start_id = 0, t_close_cb = None\<rparr>,
        7 := \<lparr>t_flags = 12, t_cb = Some 1, t_timeout = 5, t_repeat = 3, t_start_id = 1, t_close_cb = None\<rparr>),
     l_closing_handles = []\<rparr>"

lemma demo_active: "active_timers demo_loop = {7, 3}"
  by (auto simp: active_timers_def demo_loop_def uv__is_active_def)

lemma demo_timers_ok: "timers_ok demo_loop"
proof -
  have "heap_repr (l_heap demo_loop) [7, 3]"
    by (simp add: heap_repr_def demo_loop_def slot_at_def par_def less_Suc_eq)
  moreover have "heap_ordered (timer_less_than (l_timers demo_loop)) [7, 3]"
    by (auto simp: heap_ordered_def par_def less_Suc_eq timer_less_than_iff demo_loop_def)
  ultimately have "heap_pq (timer_less_than (l_timers demo_loop)) (l_heap demo_loop) {7, 3}"
    unfolding heap_pq_def by force
  then show ?thesis
    unfolding timers_ok_def demo_active by (simp add: demo_loop_def uv__is_closing_def)
qed

lemma demo_due: "due_timers demo_loop = {7}"
  unfolding due_timers_def demo_active by (auto simp: demo_loop_def)

lemma demo_time: "l_time demo_loop = 9" "l_time demo_loop < - 1"
  by (simp_all add: demo_loop_def)

text \<open>
  C14: \<open>uv_timer_start\<close> refuses a closing handle and a null callback without any effect; otherwise
  it (re)queues the timer with the timeout \<open>time + timeout\<close>, saturated instead of wrapped, and
  the next start number, touches no other timer, and keeps the loop's timers in order.
\<close>

theorem uv_timer_start_queues:
  assumes "timers_ok l" "card (active_timers l - {x}) < 2 ^ 32 - 1"
  shows "if uv__is_closing (l_timers l x) \<or> cb = None
    then uv_timer_start x cb timeout repeat l = Some (UV_EINVAL, l)
    else \<exists>l' t. uv_timer_start x cb timeout repeat l = Some (0, l') \<and> timers_ok l' \<and>
      l_timers l' = (l_timers l)(x := t) \<and> active_timers l' = insert x (active_timers l) \<and>
      unat (t_timeout t) = min (2 ^ 64 - 1) (unat (l_time l) + unat timeout) \<and>
      t_start_id t = l_timer_counter l \<and> l_timer_counter l' = l_timer_counter l + 1"
proof (cases "uv__is_closing (l_timers l x) \<or> cb = None")
  case True
  then show ?thesis by (simp add: uv_timer_start_def)
next
  case False
  have "unat (sat_add a b) = min (2 ^ 64 - 1) (unat a + unat b)" for a b
    by (auto simp: sat_add_def unat_plus_if' unat_minus_1_u64)
  with False uv_timer_start_ok [OF assms(1) _ _ assms(2), of cb timeout repeat] show ?thesis by fastforce
qed

theorem uv_timer_start_queues_witness:
  "\<exists>l' t. uv_timer_start 3 (Some 4) (- 2) 0 demo_loop = Some (0, l') \<and> timers_ok l' \<and>
    l_timers l' = (l_timers demo_loop)(3 := t) \<and> t_timeout t = - 1 \<and> active_timers l' = {3, 7}"
proof -
  have "card (active_timers demo_loop - {3}) < 2 ^ 32 - 1" by (simp add: demo_active)
  moreover have "\<not> uv__is_closing (l_timers demo_loop 3)" by (simp add: demo_loop_def uv__is_closing_def)
  ultimately obtain l' t where "uv_timer_start 3 (Some 4) (- 2) 0 demo_loop = Some (0, l')" "timers_ok l'"
    "l_timers l' = (l_timers demo_loop)(3 := t)" "active_timers l' = insert 3 (active_timers demo_loop)"
    "unat (t_timeout t) = min (2 ^ 64 - 1) (unat (l_time demo_loop) + unat (- 2 :: u64))"
    using uv_timer_start_queues [OF demo_timers_ok, of 3 "Some 4" "- 2" 0] by auto
  moreover from this(5) have "unat (t_timeout t) = unat (- 1 :: u64)" unfolding unat_minus_1_u64 by (simp add: demo_time)
  then have "t_timeout t = - 1" by (simp only: word_unat_eq_iff)
  ultimately show ?thesis by (auto simp: demo_active)
qed

text \<open>
  C16: \<open>uv__next_timeout\<close> is the time to the earliest active timer, 0 if that is past, capped at
  \<open>INT_MAX\<close>, and -1 (wait for ever) exactly when no timer is active.
\<close>

theorem uv__next_timeout_earliest:
  assumes "timers_ok l"
  shows "uv__next_timeout l =
    (if active_timers l = {} then - 1
     else min (2 ^ 31 - 1)
       (Min ((\<lambda>x. int (unat (t_timeout (l_timers l x)) - unat (l_time l))) ` active_timers l)))"
  by (rule uv__next_timeout_eq [OF assms])

theorem uv__next_timeout_earliest_witness: "uv__next_timeout (demo_loop\<lparr>l_time := 2\<rparr>) = 3"
proof -
  have a: "active_timers (demo_loop\<lparr>l_time := 2\<rparr>) = {7, 3}" using demo_active by (simp add: active_timers_def)
  have "timers_ok (demo_loop\<lparr>l_time := 2\<rparr>)"
    using demo_timers_ok unfolding timers_ok_def a demo_active by simp
  from uv__next_timeout_earliest [OF this] show ?thesis unfolding a by (simp add: demo_loop_def)
qed



end
