(* ===== verification/Uv_Timer_Runs.thy ===== *)
theory Uv_Timer_Runs
  imports Uv_Timer_Facts
begin

text \<open>
  \<open>uv__run_timers\<close> with callbacks that call libuv in turn: whatever a callback does with the timers
  and the clock of its loop, the loop ends unless it is made due again and again.
\<close>

section \<open>Callbacks\<close>

text \<open>
  What a callback may call.  It may choose its calls by the state of the loop; a handle is
  initialised only when it is not active and closed only when it is not being closed yet, which
  the code demands.
\<close>

datatype timer_call =
    Init node
  | Start node "nat option" u64 u64
  | Stop node
  | Again node
  | Set_Repeat node u64
  | Close node "nat option"
  | Update_Time u64

primrec perform :: "timer_call \<Rightarrow> uv_loop \<Rightarrow> uv_loop option" where
  "perform (Init x) l = Some (if uv__is_active (l_timers l x) then l else snd (uv_timer_init x l))"
| "perform (Start x cb timeout repeat) l = map_option snd (uv_timer_start x cb timeout repeat l)"
| "perform (Stop x) l = map_option snd (uv_timer_stop x l)"
| "perform (Again x) l = map_option snd (uv_timer_again x l)"
| "perform (Set_Repeat x repeat) l = Some (uv_timer_set_repeat x repeat l)"
| "perform (Close x cb) l = (if uv__is_closing (l_timers l x) then Some l else uv_close x cb l)"
| "perform (Update_Time hrtime) l = Some (uv_update_time hrtime l)"

primrec perform_all :: "timer_call list \<Rightarrow> uv_loop \<Rightarrow> uv_loop option" where
  "perform_all [] l = Some l"
| "perform_all (c # cs) l = Option.bind (perform c l) (perform_all cs)"

definition callback ::
  "(nat \<Rightarrow> node \<Rightarrow> uv_loop \<Rightarrow> timer_call list) \<Rightarrow> nat \<Rightarrow> node \<Rightarrow> uv_loop \<Rightarrow> uv_loop option" where
  "callback body cb x l = perform_all (body cb x l) l"

text \<open>The handle of a call, and the calls that may make a timer due.\<close>

primrec handles :: "timer_call \<Rightarrow> node set" where
  "handles (Init x) = {x}"
| "handles (Start x cb timeout repeat) = {x}"
| "handles (Stop x) = {x}"
| "handles (Again x) = {x}"
| "handles (Set_Repeat x repeat) = {x}"
| "handles (Close x cb) = {x}"
| "handles (Update_Time hrtime) = {}"

primrec makes_due :: "timer_call \<Rightarrow> bool" where
  "makes_due (Init x) = False"
| "makes_due (Start x cb timeout repeat) = (timeout = 0)"
| "makes_due (Stop x) = False"
| "makes_due (Again x) = False"
| "makes_due (Set_Repeat x repeat) = False"
| "makes_due (Close x cb) = False"
| "makes_due (Update_Time hrtime) = True"

section \<open>Every call keeps the timers in order\<close>

text \<open>\<open>T\<close> are the handles of the program, as many as the heap can count.\<close>

definition timers_in :: "node set \<Rightarrow> uv_loop \<Rightarrow> bool" where
  "timers_in T l \<longleftrightarrow>
     timers_ok l \<and> l_time l < - 1 \<and> active_timers l \<subseteq> T \<and> finite T \<and> card T < 2 ^ 32"

lemma timers_in_room: "timers_in T l \<Longrightarrow> x \<in> T \<Longrightarrow> card (active_timers l - {x}) < 2 ^ 32 - 1"
proof -
  assume a: "timers_in T l" "x \<in> T"
  then have "card (active_timers l - {x}) \<le> card (T - {x})"
    by (intro card_mono) (auto simp: timers_in_def)
  also have "\<dots> = card T - 1" using a by (simp add: timers_in_def)
  finally show ?thesis using a(1) card_gt_0_iff [of T] a(2) by (auto simp: timers_in_def)
qed

lemma timers_ok_upd:
  assumes "timers_ok l" "l_heap l' = l_heap l" "l_timers l' = (l_timers l)(x := t)"
    and "t_timeout t = t_timeout (l_timers l x)" "t_start_id t = t_start_id (l_timers l x)"
    and "uv__is_active t = uv__is_active (l_timers l x)"
    and "uv__is_active t \<Longrightarrow> t_cb t \<noteq> None \<and> \<not> uv__is_closing t"
  shows "timers_ok l'" "active_timers l' = active_timers l"
proof -
  show a: "active_timers l' = active_timers l" using assms(6) by (auto simp: active_timers_def assms(3))
  have "timer_less_than (l_timers l') = timer_less_than (l_timers l)"
    by (intro ext) (auto simp: timer_less_than_iff assms(3-5))
  then show "timers_ok l'"
    using assms(1,2,6,7) unfolding timers_ok_def a by (auto simp: assms(3) active_timers_def)
qed

lemma uv_close_ok:
  assumes ok: "timers_ok l" and c: "\<not> uv__is_closing (l_timers l x)"
  shows "\<exists>l' t. uv_close x cb l = Some l' \<and> timers_ok l' \<and> l_timers l' = (l_timers l)(x := t) \<and>
    active_timers l' = active_timers l - {x} \<and> l_time l' = l_time l"
proof -
  define t1 where "t1 = (l_timers l x)\<lparr>t_flags := t_flags (l_timers l x) OR UV_HANDLE_CLOSING, t_close_cb := cb\<rparr>"
  define l1 where "l1 = upd_timer x (\<lambda>t. t\<lparr>t_flags := t_flags t OR UV_HANDLE_CLOSING, t_close_cb := cb\<rparr>) l"
  have s1: "l_timers l1 = (l_timers l)(x := t1)" "l_heap l1 = l_heap l" "l_time l1 = l_time l"
    by (simp_all add: l1_def t1_def)
  have f: "uv__is_active t1 = uv__is_active (l_timers l x)" "bit (t_flags t1) 0" "\<not> bit (t_flags t1) 1"
    using c by (auto simp: t1_def active_bit closing_bit bit_simps)
  have a: "active_timers l1 = active_timers l" using f(1) by (auto simp: active_timers_def s1)
  have "timer_less_than (l_timers l1) = timer_less_than (l_timers l)"
    by (intro ext) (auto simp: timer_less_than_iff s1 t1_def)
  then have "heap_pq (timer_less_than (l_timers l1)) (l_heap l1) (active_timers l1)"
    using ok a by (simp add: timers_ok_def s1)
  moreover have "\<forall>y \<in> active_timers l1 - {x}. t_cb (l_timers l1 y) \<noteq> None \<and> \<not> uv__is_closing (l_timers l1 y)"
    using ok a by (simp add: timers_ok_def s1)
  ultimately obtain l2 where l2: "uv_timer_stop x l1 = Some (0, l2)" "timers_ok l2" "l_timers l2 = stopped x (l_timers l1)"
    "active_timers l2 = active_timers l - {x}" "l_time l2 = l_time l1"
    using uv_timer_stop_others [of l1 x] a by auto
  have b: "bit (t_flags (l_timers l2 x)) 0" "\<not> bit (t_flags (l_timers l2 x)) 1"
    using f(2,3) by (auto simp: l2(3) stopped_def s1 bit_simps)
  have p: "uv__make_close_pending x l2 = Some (l2\<lparr>l_closing_handles := x # l_closing_handles l2\<rparr>)"
    using b and_exp_eq_0_iff_not_bit [of "t_flags (l_timers l2 x)" 0] and_exp_eq_0_iff_not_bit [of "t_flags (l_timers l2 x)" 1]
    by (simp add: uv__make_close_pending_def)
  let ?l = "l2\<lparr>l_closing_handles := x # l_closing_handles l2\<rparr>"
  have a2: "active_timers ?l = active_timers l2" by (simp add: active_timers_def)
  then have "timers_ok ?l" using l2(2) unfolding timers_ok_def by simp
  moreover have "active_timers ?l = active_timers l - {x}" using a2 l2(4) by simp
  moreover have "l_timers ?l = (l_timers l)(x := l_timers l2 x)" by (auto simp: l2(3) stopped_def s1)
  moreover have "uv_close x cb l = Some ?l"
    using c l2(1) p by (simp add: uv_close_def uv__timer_close_def l1_def [symmetric] Let_def del: UV_HANDLE_CLOSING_def)
  ultimately show ?thesis using l2(5) by (auto simp: s1)
qed

lemma uv_timer_again_any:
  assumes ok: "timers_in T l" and x: "x \<in> T"
  shows "\<exists>v l'. uv_timer_again x l = Some (v, l') \<and> timers_in T l' \<and> due_timers l' \<subseteq> due_timers l"
proof -
  have l: "timers_ok l" "l_time l < - 1" "active_timers l \<subseteq> T" using ok by (simp_all add: timers_in_def)
  note room = timers_in_room [OF ok x]
  consider "t_cb (l_timers l x) = None \<or> t_repeat (l_timers l x) = 0"
    | "t_cb (l_timers l x) \<noteq> None" "t_repeat (l_timers l x) \<noteq> 0" "uv__is_closing (l_timers l x)"
    | "t_cb (l_timers l x) \<noteq> None" "t_repeat (l_timers l x) \<noteq> 0" "\<not> uv__is_closing (l_timers l x)"
    by blast
  then show ?thesis
  proof cases
    case 1
    then show ?thesis using ok by (auto simp: uv_timer_again_def)
  next
    case 2
    then have n: "\<not> uv__is_active (l_timers l x)" using l(1) by (auto simp: timers_ok_def active_timers_def)
    then show ?thesis using 2 ok by (auto simp: uv_timer_again_def uv_timer_stop_def uv_timer_start_def)
  next
    case 3
    from uv_timer_again_ok [OF l(1) 3(1,3) room] 3(2) obtain l' t where
      l': "uv_timer_again x l = Some (0, l')" "timers_ok l'" "l_time l' = l_time l" "l_timers l' = (l_timers l)(x := t)"
        "active_timers l' = insert x (active_timers l)" "t_timeout t = sat_add (l_time l) (t_repeat (l_timers l x))"
      by auto
    have "l_time l < t_timeout t" using sat_add_greater [OF 3(2) l(2)] by (simp add: l'(6))
    then have "due_timers l' \<subseteq> due_timers l" by (auto simp: due_timers_def l'(3-5))
    then show ?thesis using l' ok x by (auto simp: timers_in_def)
  qed
qed

lemma uv_timer_start_any:
  assumes ok: "timers_in T l" and x: "x \<in> T"
  shows "\<exists>v l'. uv_timer_start x cb timeout repeat l = Some (v, l') \<and> timers_in T l' \<and>
    (timeout \<noteq> 0 \<longrightarrow> due_timers l' \<subseteq> due_timers l)"
proof (cases "uv__is_closing (l_timers l x) \<or> cb = None")
  case True
  then show ?thesis using ok by (auto simp: uv_timer_start_def)
next
  case False
  have l: "timers_ok l" "l_time l < - 1" using ok by (simp_all add: timers_in_def)
  from uv_timer_start_ok [OF l(1) _ _ timers_in_room [OF ok x], of cb timeout repeat] False obtain l' t where
    l': "uv_timer_start x cb timeout repeat l = Some (0, l')" "timers_ok l'" "l_timers l' = (l_timers l)(x := t)"
      "active_timers l' = insert x (active_timers l)" "t_timeout t = sat_add (l_time l) timeout" "l_time l' = l_time l"
    by auto
  have "due_timers l' \<subseteq> due_timers l" if "timeout \<noteq> 0"
    using sat_add_greater [OF that l(2)] by (auto simp: due_timers_def l'(3-6))
  then show ?thesis using l' ok x by (auto simp: timers_in_def)
qed

lemma due_keep:
  "active_timers l' \<subseteq> active_timers l \<Longrightarrow> l_time l' = l_time l \<Longrightarrow>
   \<forall>y \<in> active_timers l'. t_timeout (l_timers l' y) = t_timeout (l_timers l y) \<Longrightarrow> due_timers l' \<subseteq> due_timers l"
  by (auto simp: due_timers_def)

lemma perform_ok:
  assumes ok: "timers_in T l" and T: "handles c \<subseteq> T"
  shows "\<exists>l'. perform c l = Some l' \<and> timers_in T l' \<and> (\<not> makes_due c \<longrightarrow> due_timers l' \<subseteq> due_timers l)"
proof -
  have l: "timers_ok l" using ok by (simp add: timers_in_def)
  show ?thesis
  proof (cases c)
    case (Init x)
    show ?thesis
    proof (cases "uv__is_active (l_timers l x)")
      case False
      define l' where "l' = snd (uv_timer_init x l)"
      define t where "t = (l_timers l x)\<lparr>t_flags := UV_HANDLE_REF, t_cb := None, t_repeat := 0\<rparr>"
      have l': "l_heap l' = l_heap l" "l_timers l' = (l_timers l)(x := t)" "l_time l' = l_time l"
        by (simp_all add: l'_def t_def uv_timer_init_def uv__handle_init_def Let_def upd_timer_def)
      have t: "t_timeout t = t_timeout (l_timers l x)" "t_start_id t = t_start_id (l_timers l x)" "\<not> uv__is_active t"
        by (simp_all add: t_def uv__is_active_def)
      have "timers_ok l'" "active_timers l' = active_timers l"
        using timers_ok_upd [OF l l'(1,2)] t False by simp_all
      moreover from this(2) have "due_timers l' \<subseteq> due_timers l" by (intro due_keep) (auto simp: l'(2,3) t)
      ultimately show ?thesis using Init False ok by (simp add: timers_in_def l'_def [symmetric] l'(3))
    qed (use Init ok in simp)
  next
    case (Start x cb timeout repeat)
    then show ?thesis using uv_timer_start_any [OF ok, of x cb timeout repeat] T by auto
  next
    case (Stop x)
    from uv_timer_stop_ok [OF l, of x] obtain l' where
      l': "uv_timer_stop x l = Some (0, l')" "timers_ok l'" "l_timers l' = stopped x (l_timers l)"
        "active_timers l' = active_timers l - {x}" "l_time l' = l_time l" by blast
    have "due_timers l' \<subseteq> due_timers l" by (intro due_keep) (auto simp: l'(3-5) stopped_def)
    then show ?thesis using Stop l' ok by (auto simp: timers_in_def)
  next
    case (Again x)
    then show ?thesis using uv_timer_again_any [OF ok, of x] T by auto
  next
    case (Set_Repeat x repeat)
    define t where "t = (l_timers l x)\<lparr>t_repeat := repeat\<rparr>"
    have t: "t_timeout t = t_timeout (l_timers l x)" "t_start_id t = t_start_id (l_timers l x)"
      "uv__is_active t = uv__is_active (l_timers l x)" "uv__is_closing t = uv__is_closing (l_timers l x)"
      "t_cb t = t_cb (l_timers l x)"
      by (simp_all add: t_def uv__is_active_def uv__is_closing_def)
    have a: "uv__is_active t \<Longrightarrow> t_cb t \<noteq> None \<and> \<not> uv__is_closing t"
      using l by (simp add: t timers_ok_def active_timers_def)
    have l': "l_timers (uv_timer_set_repeat x repeat l) = (l_timers l)(x := t)"
      "l_heap (uv_timer_set_repeat x repeat l) = l_heap l" "l_time (uv_timer_set_repeat x repeat l) = l_time l"
      by (simp_all add: uv_timer_set_repeat_def t_def)
    have k: "timers_ok (uv_timer_set_repeat x repeat l)" "active_timers (uv_timer_set_repeat x repeat l) = active_timers l"
      using timers_ok_upd [OF l l'(2,1) t(1-3)] a by simp_all
    then have "due_timers (uv_timer_set_repeat x repeat l) \<subseteq> due_timers l"
      by (intro due_keep) (auto simp: l' t)
    then show ?thesis using Set_Repeat k ok by (simp add: timers_in_def l')
  next
    case (Close x cb)
    show ?thesis
    proof (cases "uv__is_closing (l_timers l x)")
      case False
      from uv_close_ok [OF l False, of cb] obtain l' t where
        l': "uv_close x cb l = Some l'" "timers_ok l'" "l_timers l' = (l_timers l)(x := t)"
          "active_timers l' = active_timers l - {x}" "l_time l' = l_time l" by blast
      have "due_timers l' \<subseteq> due_timers l" by (intro due_keep) (auto simp: l'(3-5))
      then show ?thesis using Close False l' ok by (auto simp: timers_in_def)
    qed (use Close ok in simp)
  next
    case (Update_Time hrtime)
    have "hrtime div 1000000 < - 1"
      using unsigned_less [of hrtime, where 'a = nat] by (simp add: word_less_nat_alt unat_div unat_minus_1_u64)
    then show ?thesis
      using Update_Time ok by (simp add: timers_in_def uv_update_time_def timers_ok_def active_timers_def)
  qed
qed

lemma perform_all_ok:
  assumes "timers_in T l" "\<forall>c \<in> set cs. handles c \<subseteq> T"
  shows "\<exists>l'. perform_all cs l = Some l' \<and> timers_in T l' \<and>
    ((\<forall>c \<in> set cs. \<not> makes_due c) \<longrightarrow> due_timers l' \<subseteq> due_timers l)"
  using assms
proof (induction cs arbitrary: l)
  case (Cons c cs)
  from perform_ok [OF Cons.prems(1), of c] Cons.prems(2) obtain l1 where
    l1: "perform c l = Some l1" "timers_in T l1" "\<not> makes_due c \<longrightarrow> due_timers l1 \<subseteq> due_timers l" by auto
  from Cons.IH [OF l1(2)] Cons.prems(2) obtain l' where
    "perform_all cs l1 = Some l'" "timers_in T l'" "(\<forall>c \<in> set cs. \<not> makes_due c) \<longrightarrow> due_timers l' \<subseteq> due_timers l1" by auto
  then show ?case using l1 by auto
qed simp

section \<open>The callbacks of a run\<close>

text \<open>
  One round up to the callback: which one is called, on which timer and in which state; and the
  \<open>n\<close>-th callback of a run, \<open>None\<close> when there are not that many.
\<close>

definition turn :: "uv_loop \<Rightarrow> (nat \<times> node \<times> uv_loop) option" where
  "turn l =
     (case heap_min (l_heap l) of
        None \<Rightarrow> None
      | Some x \<Rightarrow>
          if l_time l < t_timeout (l_timers l x) then None
          else do {
            (_, l1) \<leftarrow> uv_timer_stop x l;
            (_, l2) \<leftarrow> uv_timer_again x l1;
            cb \<leftarrow> t_cb (l_timers l2 x);
            Some (cb, x, l2)
          })"

primrec firing :: "(nat \<Rightarrow> node \<Rightarrow> uv_loop \<Rightarrow> uv_loop option) \<Rightarrow> uv_loop \<Rightarrow> nat \<Rightarrow> (nat \<times> node \<times> uv_loop) option" where
  "firing call l 0 = turn l"
| "firing call l (Suc n) = do { (cb, x, l2) \<leftarrow> firing call l n; l3 \<leftarrow> call cb x l2; turn l3 }"

lemma firing_shift:
  "turn l = Some (cb, x, l2) \<Longrightarrow> call cb x l2 = Some l3 \<Longrightarrow> firing call l (Suc n) = firing call l3 n"
  by (induction n) simp_all

lemma run_turn:
  "turn l = Some (cb, x, l2) \<Longrightarrow> uv__run_timers call l = Option.bind (call cb x l2) (uv__run_timers call)"
  by (subst uv__run_timers.simps) (auto simp: turn_def split: option.splits if_splits bind_splits)

lemma turn_ok:
  assumes ok: "timers_in T l" and due: "due_timers l \<noteq> {}"
  shows "\<exists>cb x l2. turn l = Some (cb, x, l2) \<and> timers_in T l2 \<and> x \<in> due_timers l \<and> due_timers l2 = due_timers l - {x} \<and>
    \<not> uv__is_closing (l_timers l2 x)"
proof -
  have l: "timers_ok l" "l_time l < - 1" using ok by (simp_all add: timers_in_def)
  have "heap_min (l_heap l) \<noteq> None" using heap_min_None_timer [OF l(1)] due by (auto simp: due_timers_def)
  then obtain x where m: "heap_min (l_heap l) = Some x" by blast
  have x: "x \<in> active_timers l" "t_timeout (l_timers l x) \<le> l_time l"
    using heap_min_timer [OF l(1) m] due by (force simp: due_timers_def)+
  then have d: "x \<in> due_timers l" by (simp add: due_timers_def)
  from rearm [OF l(1) d l(2)] obtain l1 l2 t2 where
    l2: "uv_timer_stop x l = Some (0, l1)" "uv_timer_again x l1 = Some (0, l2)" "timers_ok l2" "l_time l2 = l_time l"
      "l_timers l2 = (l_timers l)(x := t2)" "t_cb t2 = t_cb (l_timers l x)" "due_timers l2 = due_timers l - {x}"
      "active_timers l2 \<subseteq> active_timers l" "\<not> uv__is_closing t2" by blast
  obtain cb where "t_cb (l_timers l x) = Some cb" using x(1) l(1) by (auto simp: timers_ok_def)
  then have "turn l = Some (cb, x, l2)" using m leD [OF x(2)] l2(1,2,5,6) by (simp add: turn_def)
  moreover have "timers_in T l2" using ok l2(3,4,8) by (auto simp: timers_in_def)
  ultimately show ?thesis using d l2(5,7,9) by auto
qed

lemma turn_None: "timers_in T l \<Longrightarrow> turn l = None \<longleftrightarrow> due_timers l = {}"
proof
  assume l: "timers_in T l" "due_timers l = {}"
  show "turn l = None"
  proof (cases "heap_min (l_heap l)")
    case (Some x)
    then have "l_time l < t_timeout (l_timers l x)"
      using heap_min_timer [OF _ Some] l by (force simp: due_timers_def timers_in_def)
    then show ?thesis using Some by (simp add: turn_def)
  qed (simp add: turn_def)
qed (use turn_ok in fastforce)

lemma turn_Some:
  assumes "timers_in T l" "turn l = Some (cb, x, l2)"
  shows "timers_in T l2 \<and> x \<in> due_timers l \<and> due_timers l2 = due_timers l - {x} \<and> \<not> uv__is_closing (l_timers l2 x)"
proof -
  have "due_timers l \<noteq> {}" using turn_None [OF assms(1)] assms(2) by simp
  from turn_ok [OF assms(1) this] assms(2) show ?thesis by auto
qed

text \<open>A run that returns has made finitely many rounds.\<close>

lemma run_finite:
  assumes "uv__run_timers call l = Some l'"
  shows "\<exists>n. firing call l n = None"
proof (rule uv__run_timers.raw_induct [OF _ assms])
  fix run call l l'
  assume IH: "\<And>call l l'. run call l = Some l' \<Longrightarrow> \<exists>n. firing call l n = None"
    and r: "(case heap_min (l_heap l) of None \<Rightarrow> Some l
      | Some x \<Rightarrow>
          if l_time l < t_timeout (l_timers l x) then Some l
          else do {
            (_, l1) \<leftarrow> uv_timer_stop x l;
            (_, l2) \<leftarrow> uv_timer_again x l1;
            case t_cb (l_timers l2 x) of None \<Rightarrow> None | Some cb \<Rightarrow> do { l3 \<leftarrow> call cb x l2; run call l3 }
          }) = Some l'"
  show "\<exists>n. firing call l n = None"
  proof (cases "turn l")
    case None
    then have "firing call l 0 = None" by simp
    then show ?thesis by blast
  next
    case (Some a)
    obtain cb x l2 where t: "turn l = Some (cb, x, l2)" using Some by (cases a) auto
    then obtain l3 where l3: "call cb x l2 = Some l3" "run call l3 = Some l'"
      using r by (auto simp: turn_def split: option.splits if_splits bind_splits)
    obtain n where "firing call l3 n = None" using IH [OF l3(2)] by blast
    then have "firing call l (Suc n) = None" using firing_shift [OF t, of call l3 n] l3(1) by simp
    then show ?thesis by blast
  qed
qed

lemma callback_ok:
  assumes "timers_in T l" "\<forall>cb x l. \<forall>c \<in> set (body cb x l). handles c \<subseteq> T"
  shows "\<exists>l'. callback body cb x l = Some l' \<and> timers_in T l' \<and>
    ((\<forall>c \<in> set (body cb x l). \<not> makes_due c) \<longrightarrow> due_timers l' \<subseteq> due_timers l)"
  using perform_all_ok [OF assms(1), of "body cb x l"] assms(2) by (simp add: callback_def)

lemma run_ends:
  assumes "timers_in T l" "\<forall>cb x l. \<forall>c \<in> set (body cb x l). handles c \<subseteq> T" "firing (callback body) l n = None"
  shows "\<exists>l'. uv__run_timers (callback body) l = Some l' \<and> timers_ok l' \<and> due_timers l' = {}"
  using assms(1,3)
proof (induction n arbitrary: l)
  case 0
  then have "due_timers l = {}" using turn_None by simp
  then show ?case using run_timers_done 0 by (simp add: timers_in_def)
next
  case (Suc n)
  show ?case
  proof (cases "turn l")
    case None
    then have "due_timers l = {}" using turn_None [OF Suc.prems(1)] by simp
    then show ?thesis using run_timers_done Suc.prems(1) by (simp add: timers_in_def)
  next
    case (Some a)
    obtain cb x l2 where t: "turn l = Some (cb, x, l2)" using Some by (cases a) auto
    have "timers_in T l2" using turn_Some [OF Suc.prems(1) t] by simp
    then obtain l3 where l3: "callback body cb x l2 = Some l3" "timers_in T l3"
      using callback_ok [OF _ assms(2), of l2 cb x] by auto
    then have "firing (callback body) l3 n = None" using firing_shift [OF t, of "callback body" l3 n] l3(1) Suc.prems(2) by simp
    then show ?thesis using Suc.IH [OF l3(2)] run_turn [OF t] l3(1) by simp
  qed
qed

text \<open>A callback that makes no timer due leaves one due timer less behind.\<close>

definition restarts :: "(nat \<Rightarrow> node \<Rightarrow> uv_loop \<Rightarrow> timer_call list) \<Rightarrow> uv_loop \<Rightarrow> nat \<Rightarrow> bool" where
  "restarts body l m \<longleftrightarrow>
     (\<exists>cb x l2. firing (callback body) l m = Some (cb, x, l2) \<and> (\<exists>c \<in> set (body cb x l2). makes_due c))"

lemma firing_in:
  assumes "timers_in T l" "\<forall>cb x l. \<forall>c \<in> set (body cb x l). handles c \<subseteq> T"
  shows "firing (callback body) l n = Some (cb, x, l2) \<Longrightarrow> timers_in T l2 \<and> \<not> uv__is_closing (l_timers l2 x) \<and> x \<in> T"
proof (induction n arbitrary: cb x l2)
  case 0
  then have "turn l = Some (cb, x, l2)" by simp
  note s = turn_Some [OF assms(1) this]
  then have "x \<in> T" using assms(1) by (auto simp: timers_in_def due_timers_def)
  then show ?case using s by simp
next
  case (Suc n)
  then obtain cb0 x0 l0 l3 where f: "firing (callback body) l n = Some (cb0, x0, l0)" "callback body cb0 x0 l0 = Some l3"
    "turn l3 = Some (cb, x, l2)" by (auto split: bind_splits)
  have "timers_in T l0" using Suc.IH [OF f(1)] by simp
  then have l3: "timers_in T l3" using callback_ok [OF _ assms(2), of l0 cb0 x0] f(2) by auto
  then have "x \<in> T" using turn_Some [OF l3 f(3)] by (auto simp: timers_in_def due_timers_def)
  then show ?case using turn_Some [OF l3 f(3)] by simp
qed

lemma firing_decreases:
  assumes l: "timers_in T l" and T: "\<forall>cb x l. \<forall>c \<in> set (body cb x l). handles c \<subseteq> T"
    and q: "\<forall>m \<ge> n. \<not> restarts body l m" and f: "firing (callback body) l n = Some (cb, x, l2)"
  shows "firing (callback body) l (n + k) = Some (cb', x', l') \<Longrightarrow> card (due_timers l') + k \<le> card (due_timers l2)"
proof (induction k arbitrary: cb' x' l')
  case 0
  then show ?case using f by simp
next
  case (Suc k)
  then obtain cb0 x0 l0 l3 where g: "firing (callback body) l (n + k) = Some (cb0, x0, l0)"
    "callback body cb0 x0 l0 = Some l3" "turn l3 = Some (cb', x', l')" by (auto split: bind_splits)
  have l0: "timers_in T l0" using firing_in [OF l T g(1)] by simp
  have "\<forall>c \<in> set (body cb0 x0 l0). \<not> makes_due c" using q [rule_format, of "n + k"] g(1) by (simp add: restarts_def)
  then have l3: "timers_in T l3" "due_timers l3 \<subseteq> due_timers l0"
    using callback_ok [OF l0 T, of cb0 x0] g(2) by auto
  have d: "x' \<in> due_timers l3" "due_timers l' = due_timers l3 - {x'}" using turn_Some [OF l3(1) g(3)] by auto
  have fin: "finite (due_timers l0)" using finite_active l0 by (simp add: timers_in_def due_timers_def)
  have "due_timers l' \<subset> due_timers l0" using d l3(2) by blast
  then have "card (due_timers l') < card (due_timers l0)" by (rule psubset_card_mono [OF fin])
  then show ?case using Suc.IH [OF g(1)] by simp
qed

lemma run_forever:
  assumes "timers_in T l" "\<forall>cb x l. \<forall>c \<in> set (body cb x l). handles c \<subseteq> T" "\<And>n. firing (callback body) l n \<noteq> None"
  shows "\<exists>m \<ge> n. restarts body l m"
proof (rule ccontr)
  assume "\<not> (\<exists>m \<ge> n. restarts body l m)"
  then have q: "\<forall>m \<ge> n. \<not> restarts body l m" by blast
  obtain cb x l2 where f: "firing (callback body) l n = Some (cb, x, l2)" using assms(3) [of n] by auto
  obtain cb' x' l' where "firing (callback body) l (n + Suc (card (due_timers l2))) = Some (cb', x', l')"
    using assms(3) [of "n + Suc (card (due_timers l2))"] by auto
  from firing_decreases [OF assms(1,2) q f this] show False by simp
qed

section \<open>The end of a run\<close>

text \<open>
  A callback that starts its timer again with the timeout 0 puts it back in front of the same run.
\<close>

lemma restart_runs_forever:
  assumes l: "timers_in T l" and due: "due_timers l \<noteq> {}"
    and b: "\<And>cb x l. body cb x l = (if x \<in> T then [Start x (Some cb) 0 0] else [])"
  shows "uv__run_timers (callback body) l = None"
proof -
  have h: "\<forall>cb x l. \<forall>c \<in> set (body cb x l). handles c \<subseteq> T" by (simp add: b)
  have "firing (callback body) l n \<noteq> None" for n
  proof (induction n)
    case 0
    then show ?case using turn_None [OF l] due by simp
  next
    case (Suc n)
    then obtain cb x l2 where f: "firing (callback body) l n = Some (cb, x, l2)" by auto
    have l2: "timers_in T l2" "\<not> uv__is_closing (l_timers l2 x)" "x \<in> T" using firing_in [OF l h f] by auto
    have "timers_ok l2" using l2(1) by (simp add: timers_in_def)
    from uv_timer_start_ok [OF this _ l2(2) timers_in_room [OF l2(1,3)], of "Some cb" 0 0] obtain l3 t where
      l3: "uv_timer_start x (Some cb) 0 0 l2 = Some (0, l3)" "l_timers l3 = (l_timers l2)(x := t)"
        "t_timeout t = sat_add (l_time l2) 0" "active_timers l3 = insert x (active_timers l2)" "l_time l3 = l_time l2"
      by auto
    have c: "callback body cb x l2 = Some l3" using l3(1) l2(3) by (simp add: callback_def b)
    have "sat_add (l_time l2) 0 = l_time l2"
      using unsigned_less [of "l_time l2", where 'a = nat] by (simp add: sat_add_def)
    then have "x \<in> due_timers l3" by (simp add: due_timers_def l3)
    moreover have "timers_in T l3" using callback_ok [OF l2(1) h, of cb x] c by auto
    ultimately have "turn l3 \<noteq> None" using turn_None by blast
    then show ?case using f c by simp
  qed
  then have "\<nexists>n. firing (callback body) l n = None" by simp
  then show ?thesis using run_finite [of "callback body" l] by (cases "uv__run_timers (callback body) l") simp_all
qed

text \<open>
  C2: \<open>uv__run_timers\<close>, with callbacks that make any calls of the timer functions: when it returns, no
  active timer is due and the timers are in order; and the only way for it not to return is that
  it calls callbacks without end and infinitely many of them start a timer with the timeout 0 or
  move the clock.  Repeating timers, which it puts back itself, never keep it from returning.  The
  hypotheses are that the timers of the program are finitely many, no more than the heap counts,
  and in order at the start.
\<close>

theorem uv__run_timers_returns:
  assumes "timers_in T l" "\<forall>cb x l. \<forall>c \<in> set (body cb x l). handles c \<subseteq> T"
  shows "case uv__run_timers (callback body) l of
      Some l' \<Rightarrow> timers_ok l' \<and> due_timers l' = {}
    | None \<Rightarrow> \<forall>n. \<exists>m \<ge> n. restarts body l m"
proof (cases "\<exists>n. firing (callback body) l n = None")
  case True
  then obtain l' where "uv__run_timers (callback body) l = Some l'" "timers_ok l'" "due_timers l' = {}"
    using run_ends [OF assms] by blast
  then show ?thesis by simp
next
  case False
  then have "uv__run_timers (callback body) l = None"
    using run_finite [of "callback body" l] by (cases "uv__run_timers (callback body) l") simp_all
  then show ?thesis using run_forever [OF assms] False by simp
qed

text \<open>The callbacks of the witness stop a timer, restart their own and go over to another one.\<close>

definition demo_body :: "nat \<Rightarrow> node \<Rightarrow> uv_loop \<Rightarrow> timer_call list" where
  "demo_body cb x l = [Stop 3, Start 7 (Some 1) 8 2, Set_Repeat 7 5, Again 7, Close 3 None]"

lemma demo_timers_in: "timers_in {3, 7} demo_loop"
  using demo_timers_ok by (simp add: timers_in_def demo_active demo_time)

theorem uv__run_timers_returns_witness:
  "\<exists>l'. uv__run_timers (callback demo_body) demo_loop = Some l' \<and> timers_ok l' \<and> due_timers l' = {}"
proof -
  have "\<not> restarts demo_body demo_loop m" for m by (simp add: restarts_def demo_body_def)
  moreover have "\<forall>cb x l. \<forall>c \<in> set (demo_body cb x l). handles c \<subseteq> {3, 7}" by (simp add: demo_body_def)
  ultimately show ?thesis using uv__run_timers_returns [OF demo_timers_in, of demo_body] by (auto split: option.splits)
qed

end
