(* ===== verification/Uv_Inet.thy ===== *)
theory Uv_Inet
  imports Uv_Errno "HOL-Library.Monad_Syntax"
begin

text \<open>
  Internet addresses as text (\<open>inet.c\<close>) and the bounded string copy (\<open>strscpy.c\<close>) of libuv.

  A C string is the list of its bytes without the terminator, and reading it at its length gives
  the terminator.  A destination buffer is modelled by the bytes written to it, in order; an
  error is the negative code libuv returns.
\<close>

section \<open>Strings\<close>


definition c_char :: "byte list \<Rightarrow> nat \<Rightarrow> byte" where
  "c_char s i = (if i < length s then s ! i else 0)"

text \<open>
  \<open>uv__strscpy\<close> from index \<open>i\<close> on, with \<open>d\<close> written so far: the result and the bytes written.
  The result \<open>i > SSIZE_MAX\<close> is out of reach of a list that is a memory object.
\<close>

function strscpy_loop :: "byte list \<Rightarrow> nat \<Rightarrow> nat \<Rightarrow> byte list \<Rightarrow> int \<times> byte list" where
  "strscpy_loop s n i d =
     (if i < n then
        (let d' = d @ [c_char s i] in
         if c_char s i = 0 then (if 2 ^ 63 - 1 < i then UV_E2BIG else int i, d')
         else strscpy_loop s n (Suc i) d')
      else if i = 0 then (0, d)
      else (UV_E2BIG, d[i - 1 := 0]))"
  by pat_completeness auto
termination
  by (relation "measure (\<lambda>(s, n, i, d). n - i)") auto

declare strscpy_loop.simps [simp del]

definition uv__strscpy :: "byte list \<Rightarrow> nat \<Rightarrow> int \<times> byte list" where
  "uv__strscpy s n = strscpy_loop s n 0 []"

definition char_of_digit :: "nat \<Rightarrow> byte" where
  "char_of_digit k = (if k < 10 then of_nat (48 + k) else of_nat (87 + k))"

text \<open>\<open>%u\<close> and \<open>%x\<close> of \<open>printf\<close>.\<close>

function print_base :: "nat \<Rightarrow> nat \<Rightarrow> byte list" where
  "print_base b n =
     (if n < b \<or> b < 2 then [char_of_digit n] else print_base b (n div b) @ [char_of_digit (n mod b)])"
  by pat_completeness auto
termination
  by (relation "measure snd") auto

declare print_base.simps [simp del]

definition colon :: byte where "colon = 58"
definition dot :: byte where "dot = 46"
definition percent :: byte where "percent = 37"

section \<open>Printing\<close>

text \<open>
  The formatted text is cut to the sixteen bytes of \<open>tmp\<close>, terminator included, as \<open>snprintf\<close>
  does; its length is what \<open>snprintf\<close> returns.
\<close>

definition ntop4_text :: "byte list \<Rightarrow> byte list" where
  "ntop4_text src =
     print_base 10 (unat (src ! 0)) @ [dot] @ print_base 10 (unat (src ! 1)) @ [dot] @
     print_base 10 (unat (src ! 2)) @ [dot] @ print_base 10 (unat (src ! 3))"

definition inet_ntop4 :: "byte list \<Rightarrow> nat \<Rightarrow> int \<times> byte list" where
  "inet_ntop4 src sz =
     (let text = ntop4_text src; tmp = take 15 text; l = length text in
      if l = 0 \<or> sz \<le> l then (UV_ENOSPC, []) else (0, snd (uv__strscpy tmp sz)))"

text \<open>The eight 16-bit words of the address, as the code assembles them.\<close>

definition ntop6_words :: "byte list \<Rightarrow> u32 list" where
  "ntop6_words src =
     fold (\<lambda>i words. words[i div 2 := (words ! (i div 2)) OR push_bit ((1 - i mod 2) * 8) (ucast (src ! i))])
       [0..<16] (replicate 8 0)"

text \<open>A run of zero words: \<open>base\<close> (\<open>None\<close> for -1) and \<open>len\<close>.\<close>

type_synonym run = "nat option \<times> nat"

definition run_better :: "run \<Rightarrow> run \<Rightarrow> run" where
  "run_better best cur =
     (if fst cur \<noteq> None \<and> (fst best = None \<or> snd best < snd cur) then cur else best)"

definition run_step :: "u32 list \<Rightarrow> nat \<Rightarrow> run \<times> run \<Rightarrow> run \<times> run" where
  "run_step words i bc =
     (case bc of (best, cur) \<Rightarrow>
        if words ! i = 0 then
          (best, if fst cur = None then (Some i, 1) else (fst cur, snd cur + 1))
        else if fst cur \<noteq> None then (run_better best cur, (None, snd cur))
        else (best, cur))"

definition best_run :: "u32 list \<Rightarrow> run" where
  "best_run words =
     (let (best, cur) = fold (run_step words) [0..<8] ((None, 0), (None, 0));
          best' = run_better best cur
      in if fst best' \<noteq> None \<and> snd best' < 2 then (None, snd best') else best')"

definition in_run :: "run \<Rightarrow> nat \<Rightarrow> bool" where
  "in_run best i \<longleftrightarrow> (case fst best of None \<Rightarrow> False | Some b \<Rightarrow> b \<le> i \<and> i < b + snd best)"

text \<open>The text of the words from \<open>i\<close> on; \<open>Inl\<close> an error of \<open>inet_ntop4\<close>.  \<open>tp\<close> is written so far.\<close>

fun ntop6_format :: "byte list \<Rightarrow> u32 list \<Rightarrow> run \<Rightarrow> nat list \<Rightarrow> byte list \<Rightarrow> int + byte list" where
  "ntop6_format src words best [] tp = Inr tp"
| "ntop6_format src words best (i # is) tp =
     (if in_run best i then
        ntop6_format src words best is (if fst best = Some i then tp @ [colon] else tp)
      else
        let tp1 = (if i \<noteq> 0 then tp @ [colon] else tp) in
        if i = 6 \<and> fst best = Some 0 \<and>
           (snd best = 6 \<or> (snd best = 7 \<and> words ! 7 \<noteq> 1) \<or> (snd best = 5 \<and> words ! 5 = 0xFFFF))
        then (case inet_ntop4 (drop 12 src) (46 - length tp1) of
                (err, text) \<Rightarrow> if err \<noteq> 0 then Inl err else Inr (tp1 @ takeWhile (\<lambda>b. b \<noteq> 0) text))
        else ntop6_format src words best is (tp1 @ print_base 16 (unat (words ! i))))"

definition inet_ntop6 :: "byte list \<Rightarrow> nat \<Rightarrow> int \<times> byte list" where
  "inet_ntop6 src sz =
     (let words = ntop6_words src; best = best_run words in
      case ntop6_format src words best [0..<8] [] of
        Inl err \<Rightarrow> (err, [])
      | Inr tp \<Rightarrow>
          let tmp = (case fst best of
                       None \<Rightarrow> tp
                     | Some b \<Rightarrow> if b + snd best = 8 then tp @ [colon] else tp)
          in case uv__strscpy tmp sz of
               (r, d) \<Rightarrow> (if r = UV_E2BIG then UV_ENOSPC else 0, d))"

definition AF_INET :: int where [simp]: "AF_INET = 2"
definition AF_INET6 :: int where [simp]: "AF_INET6 = 30"

definition uv_inet_ntop :: "int \<Rightarrow> byte list \<Rightarrow> nat \<Rightarrow> int \<times> byte list" where
  "uv_inet_ntop af src sz =
     (if af = AF_INET then inet_ntop4 src sz
      else if af = AF_INET6 then inet_ntop6 src sz
      else (UV_EAFNOSUPPORT, []))"

section \<open>Parsing\<close>

text \<open>\<open>strchr(digits, ch) - digits\<close> for the digits of base ten, and of base sixteen in both cases.\<close>

definition digit10 :: "byte \<Rightarrow> nat option" where
  "digit10 ch = (if 48 \<le> ch \<and> ch \<le> 57 then Some (unat (ch - 48)) else None)"

definition digit16 :: "byte \<Rightarrow> nat option" where
  "digit16 ch =
     (if 48 \<le> ch \<and> ch \<le> 57 then Some (unat (ch - 48))
      else if 97 \<le> ch \<and> ch \<le> 102 then Some (unat (ch - 87))
      else if 65 \<le> ch \<and> ch \<le> 70 then Some (unat (ch - 55))
      else None)"

text \<open>
  The loop of \<open>inet_pton4\<close>: \<open>tmp\<close> holds the bytes up to the one \<open>tp\<close> points at, its last.  The
  result is the error, or \<open>octets\<close> and \<open>tmp\<close>.
\<close>

fun pton4_loop :: "byte list \<Rightarrow> bool \<Rightarrow> nat \<Rightarrow> byte list \<Rightarrow> int + nat \<times> byte list" where
  "pton4_loop [] saw_digit octets tmp = Inr (octets, tmp)"
| "pton4_loop (ch # src) saw_digit octets tmp =
     (case digit10 ch of
        Some k \<Rightarrow>
          let nw = unat (last tmp) * 10 + k in
          if saw_digit \<and> last tmp = 0 then Inl UV_EINVAL
          else if 255 < nw then Inl UV_EINVAL
          else
            let tmp' = butlast tmp @ [of_nat nw] in
            if \<not> saw_digit then
              (if 4 < Suc octets then Inl UV_EINVAL else pton4_loop src True (Suc octets) tmp')
            else pton4_loop src saw_digit octets tmp'
      | None \<Rightarrow>
          if ch = dot \<and> saw_digit then
            (if octets = 4 then Inl UV_EINVAL else pton4_loop src False octets (tmp @ [0]))
          else Inl UV_EINVAL)"

definition inet_pton4 :: "byte list \<Rightarrow> int + byte list" where
  "inet_pton4 src =
     (case pton4_loop src False 0 [0] of
        Inl err \<Rightarrow> Inl err
      | Inr (octets, tmp) \<Rightarrow> if octets < 4 then Inl UV_EINVAL else Inr (take 4 tmp))"

text \<open>
  The locals of \<open>inet_pton6\<close>: \<open>tmp\<close> is the bytes before \<open>tp\<close>, \<open>colonp\<close> an index into them;
  \<open>curtok\<close> the rest of the string at the current token.
\<close>

record pton6_state =
  p6_tmp :: "byte list"
  p6_colonp :: "nat option"
  p6_curtok :: "byte list"
  p6_seen :: nat
  p6_val :: u32

definition p6_put :: "pton6_state \<Rightarrow> pton6_state" where
  "p6_put s = s\<lparr>p6_tmp := p6_tmp s @ [ucast (drop_bit 8 (p6_val s)), ucast (p6_val s)]\<rparr>"

fun pton6_loop :: "byte list \<Rightarrow> pton6_state \<Rightarrow> int + pton6_state" where
  "pton6_loop [] s = Inr s"
| "pton6_loop (ch # src) s =
     (case digit16 ch of
        Some k \<Rightarrow>
          let s' = s\<lparr>p6_val := push_bit 4 (p6_val s) OR of_nat k, p6_seen := Suc (p6_seen s)\<rparr> in
          if 4 < p6_seen s' then Inl UV_EINVAL else pton6_loop src s'
      | None \<Rightarrow>
          if ch = colon then
            let s1 = s\<lparr>p6_curtok := src\<rparr> in
            if p6_seen s = 0 then
              (if p6_colonp s \<noteq> None then Inl UV_EINVAL
               else pton6_loop src (s1\<lparr>p6_colonp := Some (length (p6_tmp s))\<rparr>))
            else if src = [] then Inl UV_EINVAL
            else if 16 < length (p6_tmp s) + 2 then Inl UV_EINVAL
            else pton6_loop src ((p6_put s1)\<lparr>p6_seen := 0, p6_val := 0\<rparr>)
          else if ch = dot \<and> length (p6_tmp s) + 4 \<le> 16 then
            (case inet_pton4 (p6_curtok s) of
               Inl err \<Rightarrow> Inl UV_EINVAL
             | Inr bs \<Rightarrow> Inr (s\<lparr>p6_tmp := p6_tmp s @ bs, p6_seen := 0\<rparr>))
          else Inl UV_EINVAL)"

text \<open>
  The shift of the bytes behind the \<open>::\<close> to the end of the sixteen, byte by byte from the last:
  \<open>endp[-i] = colonp[n - i]; colonp[n - i] = 0;\<close>
\<close>

definition p6_shift :: "nat \<Rightarrow> byte list \<Rightarrow> byte list" where
  "p6_shift c tmp =
     (let n = length tmp - c in
      fold (\<lambda>i t. (t[16 - i := t ! (c + n - i)])[c + n - i := 0]) [1..<Suc n]
        (tmp @ replicate (16 - length tmp) 0))"

definition inet_pton6 :: "byte list \<Rightarrow> int + byte list" where
  "inet_pton6 src0 =
     (if src0 \<noteq> [] \<and> hd src0 = colon \<and> (tl src0 = [] \<or> hd (tl src0) \<noteq> colon) then Inl UV_EINVAL
      else
        let src = (if src0 \<noteq> [] \<and> hd src0 = colon then tl src0 else src0) in
        case pton6_loop src \<lparr>p6_tmp = [], p6_colonp = None, p6_curtok = src, p6_seen = 0, p6_val = 0\<rparr> of
          Inl err \<Rightarrow> Inl err
        | Inr s \<Rightarrow>
            if p6_seen s \<noteq> 0 \<and> 16 < length (p6_tmp s) + 2 then Inl UV_EINVAL
            else
              let tmp = (if p6_seen s \<noteq> 0 then p6_tmp (p6_put s) else p6_tmp s) in
              case p6_colonp s of
                Some c \<Rightarrow>
                  if length tmp = 16 then Inl UV_EINVAL
                  else Inr (p6_shift c tmp)
              | None \<Rightarrow> if length tmp \<noteq> 16 then Inl UV_EINVAL else Inr tmp)"

definition uv_inet_pton :: "int \<Rightarrow> byte list option \<Rightarrow> bool \<Rightarrow> int + byte list" where
  "uv_inet_pton af src dst_given =
     (case src of
        None \<Rightarrow> Inl UV_EINVAL
      | Some s \<Rightarrow>
          if \<not> dst_given then Inl UV_EINVAL
          else if af = AF_INET then inet_pton4 s
          else if af = AF_INET6 then
            let len = length (takeWhile (\<lambda>b. b \<noteq> percent) s) in
            if len < length s then
              (if 45 < len then Inl UV_EINVAL else inet_pton6 (take len s))
            else inet_pton6 s
          else Inl UV_EAFNOSUPPORT)"

end
