(* ===== verification/Uv_Inet4_Facts.thy ===== *)
theory Uv_Inet4_Facts
  imports Uv_Inet
begin

text \<open>
  IPv4 addresses: the bounded string copy, decimal octets, and the parser and the printer of
  \<open>inet.c\<close> as inverse functions.
\<close>

section \<open>The bounded copy\<close>

lemma strscpy_loop_eq:
  assumes "0 \<notin> set s" "i \<le> length s" "i \<le> n" "length s < 2 ^ 63"
  shows "strscpy_loop s n i (take i s) =
    (if length s < n then (int (length s), s @ [0])
     else if n = 0 then (0, [])
     else (UV_E2BIG, take (n - 1) s @ [0]))"
  using assms(2,3)
proof (induction "n - i" arbitrary: i)
  case 0
  then have "i = n" by simp
  moreover have "(take n s)[n - 1 := 0] = take (n - 1) s @ [0]" if n: "n \<noteq> 0"
  proof -
    obtain m where m: "n = Suc m" using n by (cases n) auto
    then have "m < length s" using 0 \<open>i = n\<close> by simp
    then show ?thesis unfolding m by (simp add: take_Suc_conv_app_nth list_update_append)
  qed
  ultimately show ?case using 0 by (subst strscpy_loop.simps) auto
next
  case (Suc m)
  then have lt: "i < n" by simp
  show ?case
  proof (cases "i < length s")
    case True
    then have "c_char s i = s ! i" by (simp add: c_char_def)
    moreover have "s ! i \<noteq> 0" using assms(1) nth_mem [OF True] by metis
    moreover have "take i s @ [s ! i] = take (Suc i) s" using True by (simp add: take_Suc_conv_app_nth)
    moreover have "strscpy_loop s n (Suc i) (take (Suc i) s) =
       (if length s < n then (int (length s), s @ [0]) else if n = 0 then (0, [])
        else (UV_E2BIG, take (n - 1) s @ [0]))"
      using Suc True by (intro Suc.hyps(1)) auto
    ultimately show ?thesis using lt by (subst strscpy_loop.simps) (simp add: Let_def)
  next
    case False
    then have "i = length s" using Suc.prems(1) by simp
    moreover have "\<not> 2 ^ 63 - 1 < length s" using assms(4) by simp
    ultimately show ?thesis using lt by (subst strscpy_loop.simps) (simp add: Let_def c_char_def)
  qed
qed

lemma uv__strscpy_eq:
  assumes "0 \<notin> set s" "length s < 2 ^ 63"
  shows "uv__strscpy s n =
    (if length s < n then (int (length s), s @ [0])
     else if n = 0 then (0, [])
     else (UV_E2BIG, take (n - 1) s @ [0]))"
  using strscpy_loop_eq [OF assms(1) _ _ assms(2), of 0 n] by (simp add: uv__strscpy_def)

section \<open>Decimal octets\<close>

lemma print_base_small: "n < b \<Longrightarrow> print_base b n = [char_of_digit n]"
  by (subst print_base.simps) simp

lemma print_base_digit: "0 < n \<Longrightarrow> k < b \<Longrightarrow> 1 < b \<Longrightarrow> print_base b (n * b + k) = print_base b n @ [char_of_digit k]"
proof -
  assume n: "0 < n" "k < b" "1 < b"
  have "1 * b \<le> n * b" by (rule mult_le_mono1) (use n in simp)
  then have "\<not> n * b + k < b" by linarith
  with n show ?thesis by (subst print_base.simps) simp
qed

lemma less_10_cases: "k < 10 \<longleftrightarrow> k \<in> {0, 1, 2, 3, 4, 5, 6, 7, 8, 9 :: nat}"
  by auto

lemma digit10_char: "k < 10 \<Longrightarrow> digit10 (char_of_digit k) = Some k"
  unfolding less_10_cases by (auto simp: digit10_def char_of_digit_def)

lemma digit10_Some: "digit10 ch = Some k \<Longrightarrow> k < 10 \<and> ch = char_of_digit k"
  by (auto simp: digit10_def char_of_digit_def word_le_nat_alt unat_sub split: if_splits)


lemma pton4_loop_octet:
  assumes "n < 256" "octets < 4"
  shows "pton4_loop (print_base 10 n @ src) False octets (tmp @ [0]) =
    pton4_loop src True (Suc octets) (tmp @ [of_nat n])"
  using assms(1)
proof (induction n arbitrary: src rule: less_induct)
  case (less n)
  show ?case
  proof (cases "n < 10")
    case True
    then show ?thesis using assms(2) by (simp add: print_base_small digit10_char)
  next
    case False
    define q k where "q = n div 10" and "k = n mod 10"
    have n: "n = q * 10 + k" "0 < q" "k < 10" "q < n" "q < 256" using False less.prems by (auto simp: q_def k_def)
    have "unat (of_nat q :: byte) = q" using n(5) by (simp add: unat_of_nat)
    moreover from this n(2) have "(of_nat q :: byte) \<noteq> 0" by auto
    moreover have "print_base 10 n = print_base 10 q @ [char_of_digit k]"
      unfolding n(1) by (rule print_base_digit) (use n in auto)
    ultimately show ?thesis
      using less.IH [OF n(4,5), of "char_of_digit k # src"] less.prems n(1,3) assms(2)
      by (simp add: digit10_char)
  qed
qed

fun dotted :: "byte list \<Rightarrow> byte list" where
  "dotted [] = []"
| "dotted (b # bs) = print_base 10 (unat b) @ dot # dotted bs"

lemma dotted_append [simp]: "dotted (as @ bs) = dotted as @ dotted bs"
  by (induction as) auto

text \<open>What \<open>inet_pton4\<close> has read when its locals are \<open>saw_digit\<close>, \<open>octets\<close> and \<open>tmp\<close>.\<close>

definition pton4_read :: "byte list \<Rightarrow> bool \<Rightarrow> nat \<Rightarrow> byte list \<Rightarrow> bool" where
  "pton4_read s saw octets tmp \<longleftrightarrow>
     tmp \<noteq> [] \<and> octets \<le> 4 \<and>
     s = dotted (butlast tmp) @ (if saw then print_base 10 (unat (last tmp)) else []) \<and>
     (if saw then octets = length tmp else Suc octets = length tmp \<and> last tmp = 0 \<and> octets < 4)"

lemma pton4_loop_read:
  "pton4_loop src saw octets tmp = Inr (octets', tmp') \<Longrightarrow> pton4_read s saw octets tmp \<Longrightarrow>
    \<exists>saw'. pton4_read (s @ src) saw' octets' tmp'"
proof (induction src arbitrary: saw octets tmp s)
  case Nil
  then show ?case by auto
next
  case (Cons ch src)
  note r = Cons.prems(2) [unfolded pton4_read_def]
  show ?case
  proof (cases "digit10 ch")
    case None
    then have c: "ch = dot" "saw" "octets \<noteq> 4" and l: "pton4_loop src False octets (tmp @ [0]) = Inr (octets', tmp')"
      using Cons.prems(1) by (auto split: if_splits)
    have "dotted tmp = dotted (butlast tmp) @ print_base 10 (unat (last tmp)) @ [dot]"
      using r dotted_append [of "butlast tmp" "[last tmp]"] by simp
    then have "pton4_read (s @ [ch]) False octets (tmp @ [0])"
      using r c by (auto simp: pton4_read_def)
    from Cons.IH [OF l this] show ?thesis by simp
  next
    case (Some k)
    note k = digit10_Some [OF Some]
    define nw where "nw = unat (last tmp) * 10 + k"
    have nw: "nw \<le> 255" "saw \<Longrightarrow> last tmp \<noteq> 0" using Cons.prems(1) Some by (auto simp: nw_def Let_def split: if_splits)
    have u: "unat (of_nat nw :: byte) = nw" using nw(1) by (simp add: unat_of_nat)
    define octets1 where "octets1 = (if saw then octets else Suc octets)"
    have l: "pton4_loop src True octets1 (butlast tmp @ [of_nat nw]) = Inr (octets', tmp')"
      using Cons.prems(1) Some by (auto simp: nw_def Let_def octets1_def split: if_splits)
    have "print_base 10 nw = (if saw then print_base 10 (unat (last tmp)) else []) @ [ch]"
    proof (cases saw)
      case True
      then have "0 < unat (last tmp)" using nw(2) by (simp add: unat_gt_0)
      then show ?thesis using True k by (simp add: nw_def print_base_digit)
    next
      case False
      then show ?thesis using r k by (simp add: nw_def print_base_small)
    qed
    then have "pton4_read (s @ [ch]) True octets1 (butlast tmp @ [of_nat nw])"
      using r u by (auto simp: pton4_read_def octets1_def split: if_splits)
    from Cons.IH [OF l this] show ?thesis by simp
  qed
qed

lemma pton4_loop_dotted:
  "length bs \<le> 3 \<Longrightarrow> octets + length bs \<le> 3 \<Longrightarrow>
    pton4_loop (dotted bs @ src) False octets (tmp @ [0]) = pton4_loop src False (octets + length bs) (tmp @ bs @ [0])"
proof (induction bs arbitrary: octets tmp)
  case (Cons b bs)
  have "unat b < 256" using unsigned_less [of b, where 'a = nat] by simp
  from pton4_loop_octet [OF this, of octets "dot # dotted bs @ src" tmp] Cons.prems
    Cons.IH [of "Suc octets" "tmp @ [b]"] show ?case
    by (simp add: digit10_def dot_def)
qed simp

lemma ntop4_text_dotted:
  assumes "length bs = 4"
  shows "ntop4_text bs = dotted (take 3 bs) @ print_base 10 (unat (bs ! 3))"
proof -
  from assms obtain a b c d where "bs = [a, b, c, d]"
    by (auto simp: length_Suc_conv eval_nat_numeral)
  then show ?thesis by (simp add: ntop4_text_def)
qed

text \<open>The parser accepts exactly what the printer prints.\<close>

lemma inet_pton4_iff: "inet_pton4 s = Inr bs \<longleftrightarrow> length bs = 4 \<and> s = ntop4_text bs"
proof
  assume "inet_pton4 s = Inr bs"
  then obtain octets tmp where l: "pton4_loop s False 0 [0] = Inr (octets, tmp)" "4 \<le> octets" "bs = take 4 tmp"
    by (auto simp: inet_pton4_def split: sum.splits if_splits)
  have "pton4_read [] False 0 [0]" by (simp add: pton4_read_def)
  from pton4_loop_read [OF l(1) this] l(2) have r: "octets = 4" "length tmp = 4" "tmp \<noteq> []"
      "s = dotted (butlast tmp) @ print_base 10 (unat (last tmp))"
    by (auto simp: pton4_read_def split: if_splits)
  then have "bs = tmp" "butlast tmp = take 3 tmp" "last tmp = tmp ! 3"
    using l(3) by (auto simp: butlast_conv_take last_conv_nth)
  then show "length bs = 4 \<and> s = ntop4_text bs" using r ntop4_text_dotted [of bs] by simp
next
  assume bs: "length bs = 4 \<and> s = ntop4_text bs"
  have "unat (bs ! 3) < 256" using unsigned_less [of "bs ! 3", where 'a = nat] by simp
  from pton4_loop_octet [OF this, of 3 "[]" "take 3 bs"] bs
    pton4_loop_dotted [of "take 3 bs" 0 "print_base 10 (unat (bs ! 3))" "[]"]
  have "pton4_loop s False 0 [0] = Inr (4, take 3 bs @ [bs ! 3])"
    by (simp add: ntop4_text_dotted)
  moreover have "take 3 bs @ [bs ! 3] = bs" using bs take_Suc_conv_app_nth [of 3 bs] by simp
  ultimately show "inet_pton4 s = Inr bs" using bs by (simp add: inet_pton4_def)
qed


lemma char_of_digit_not_0: "k < 16 \<Longrightarrow> char_of_digit k \<noteq> 0"
proof -
  assume k: "k < 16"
  have "(of_nat n :: byte) \<noteq> 0" if "0 < n" "n < 256" for n
    using that by (auto simp: word_of_nat_eq_0_iff dest: dvd_imp_le)
  from this [of "48 + k"] this [of "87 + k"] k show ?thesis by (simp add: char_of_digit_def)
qed

lemma print_base_not_0: "1 < b \<Longrightarrow> b \<le> 16 \<Longrightarrow> 0 \<notin> set (print_base b n)"
proof (induction n rule: less_induct)
  case (less n)
  have "char_of_digit k \<noteq> 0" if "k < b" for k using that less.prems by (intro char_of_digit_not_0) simp
  note z = this [symmetric]
  show ?case
  proof (cases "n < b")
    case True
    then show ?thesis using z by (simp add: print_base_small)
  next
    case False
    then have "0 \<notin> set (print_base b (n div b))" using less by simp
    moreover have "n mod b < b" using less.prems by simp
    ultimately show ?thesis using z False less.prems by (subst print_base.simps) simp
  qed
qed

lemma length_print_base: "n < b ^ m \<Longrightarrow> 0 < m \<Longrightarrow> 1 < b \<Longrightarrow> length (print_base b n) \<le> m"
proof (induction m arbitrary: n)
  case (Suc m)
  show ?case
  proof (cases "n < b")
    case False
    then have "0 < m" using Suc.prems by (cases m) auto
    moreover have "n div b < b ^ m" using Suc.prems by (simp add: less_mult_imp_div_less mult.commute)
    ultimately have "length (print_base b (n div b)) \<le> m" using Suc.IH Suc.prems(3) by simp
    then show ?thesis using False Suc.prems(3) by (subst print_base.simps) simp
  qed (simp add: print_base_small)
qed simp

lemma length_octet: "length (print_base 10 (unat (b :: byte))) \<le> 3"
  using unsigned_less [of b, where 'a = nat] by (intro length_print_base) simp_all

lemma ntop4_text_bounds: "length (ntop4_text bs) \<le> 15" "0 < length (ntop4_text bs)" "0 \<notin> set (ntop4_text bs)"
  using length_octet [of "bs ! 0"] length_octet [of "bs ! 1"] length_octet [of "bs ! 2"] length_octet [of "bs ! 3"]
  by (auto simp: ntop4_text_def print_base_not_0 dot_def)

lemma inet_ntop4_eq:
  "inet_ntop4 bs n = (if length (ntop4_text bs) < n then (0, ntop4_text bs @ [0]) else (UV_ENOSPC, []))"
  using ntop4_text_bounds [of bs] uv__strscpy_eq [of "ntop4_text bs" n]
  by (auto simp: inet_ntop4_def Let_def)

lemma takeWhile_terminated [simp]: "0 \<notin> set s \<Longrightarrow> takeWhile (\<lambda>b. b \<noteq> 0) (s @ [0]) = s"
  by (induction s) auto

end
