(* ===== verification/Uv_Inet6_Facts.thy ===== *)
theory Uv_Inet6_Facts
  imports Uv_Inet4_Facts
begin

text \<open>
  IPv6 addresses: the text \<open>inet_ntop6\<close> prints in closed form, the parser's loop on groups of
  hexadecimal digits, gaps and embedded IPv4 addresses, and the round trip.
\<close>

section \<open>IPv6: the words\<close>

definition word_bytes :: "u32 \<Rightarrow> byte list" where
  "word_bytes w = [ucast (drop_bit 8 w), ucast w]"

definition bytes_word :: "byte \<Rightarrow> byte \<Rightarrow> u32" where
  "bytes_word a b = push_bit 8 (ucast a) OR ucast b"

lemma word_bytes_word [simp]: "word_bytes (bytes_word a b) = [a, b]"
proof -
  have "ucast (drop_bit 8 (bytes_word a b)) = a" "ucast (bytes_word a b) = b"
    unfolding bytes_word_def
    by (intro bit_word_eqI; auto simp: bit_simps dest: bit_imp_le_length)+
  then show ?thesis by (simp add: word_bytes_def)
qed

lemma bytes_word_less: "unat (bytes_word a b) < 2 ^ 16"
  unfolding unat_less_exp_iff bytes_word_def
  by (auto simp: bit_simps dest: bit_imp_le_length)

lemma upt_16: "[0..<16] = [0, 1, 2, 3, 4, 5, 6, 7, 8, 9, 10, 11, 12, 13, 14, 15]"
  by (simp add: upt_rec)

lemma ntop6_words_list:
  "ntop6_words [a0, a1, a2, a3, a4, a5, a6, a7, a8, a9, a10, a11, a12, a13, a14, a15] =
    [bytes_word a0 a1, bytes_word a2 a3, bytes_word a4 a5, bytes_word a6 a7,
     bytes_word a8 a9, bytes_word a10 a11, bytes_word a12 a13, bytes_word a14 a15]"
proof -
  have r: "replicate 8 (0 :: u32) = [0, 0, 0, 0, 0, 0, 0, 0]" by (simp add: numeral_eq_Suc)
  show ?thesis unfolding ntop6_words_def upt_16 r bytes_word_def by simp
qed

lemma length_16E:
  assumes "length xs = 16"
  obtains a0 a1 a2 a3 a4 a5 a6 a7 a8 a9 a10 a11 a12 a13 a14 a15
    where "xs = [a0, a1, a2, a3, a4, a5, a6, a7, a8, a9, a10, a11, a12, a13, a14, a15]"
  using assms by (auto simp: length_Suc_conv eval_nat_numeral)

section \<open>The shift\<close>

lemma p6_shift_eq:
  assumes "c \<le> length tmp" "length tmp < 16"
  shows "p6_shift c tmp = take c tmp @ replicate (16 - length tmp) 0 @ drop c tmp"
proof -
  define z where "z = 16 - length tmp"
  define f where "f i t = (t[16 - i := t ! (length tmp - i)])[length tmp - i := 0]" for i and t :: "byte list"
  have "fold f [1..<Suc k] (tmp @ replicate z 0) =
      take (length tmp - k) tmp @ replicate z 0 @ drop (length tmp - k) tmp" if "k \<le> length tmp" for k
    using that
  proof (induction k)
    case (Suc k)
    define m where "m = length tmp - Suc k"
    have m: "length tmp - k = Suc m" "m < length tmp" "16 - Suc k = m + z" "0 < z"
      using Suc.prems assms(2) by (auto simp: m_def z_def)
    obtain y where y: "z = Suc y" using m(4) by (cases z) auto
    have t: "take (Suc m) tmp = take m tmp @ [tmp ! m]" by (rule take_Suc_conv_app_nth [OF m(2)])
    have d: "drop m tmp = tmp ! m # drop (Suc m) tmp" by (rule Cons_nth_drop_Suc [symmetric, OF m(2)])
    have "f (Suc k) (take (Suc m) tmp @ replicate z 0 @ drop (Suc m) tmp) =
        take m tmp @ replicate z 0 @ drop m tmp"
    proof -
      have r: "replicate z (0 :: byte) = replicate y 0 @ [0]" by (simp add: y replicate_append_same)
      have "f (Suc k) (take (Suc m) tmp @ replicate z 0 @ drop (Suc m) tmp) =
          take m tmp @ [0] @ replicate y 0 @ [tmp ! m] @ drop (Suc m) tmp"
        using m(2) y unfolding f_def m(3) m_def [symmetric] t r
        by (simp add: nth_append list_update_append)
      then show ?thesis by (simp add: y d)
    qed
    then show ?case using Suc m(1) by (simp add: m_def)
  qed simp
  note this [of "length tmp - c"]
  moreover have "p6_shift c tmp = fold f [1..<Suc (length tmp - c)] (tmp @ replicate z 0)"
  proof -
    have "(\<lambda>i t. (t[16 - i := t ! (c + (length tmp - c) - i)])[c + (length tmp - c) - i := 0]) = f"
      using assms(1) by (intro ext) (simp add: f_def)
    then show ?thesis unfolding p6_shift_def Let_def z_def by simp
  qed
  ultimately show ?thesis using assms by (simp add: z_def)
qed

section \<open>Hexadecimal groups\<close>

lemma print_base_not_Nil [simp]: "print_base b n \<noteq> []"
  by (subst print_base.simps) auto

lemma digit16_char: "k < 16 \<Longrightarrow> digit16 (char_of_digit k) = Some k"
proof -
  have "\<forall>k \<in> set [0..<16]. digit16 (char_of_digit k) = Some k"
    unfolding upt_16 by (simp add: digit16_def char_of_digit_def)
  then show "k < 16 \<Longrightarrow> digit16 (char_of_digit k) = Some k" by simp
qed

lemma push_digit:
  assumes "k < 16"
  shows "push_bit 4 (of_nat q :: u32) OR of_nat k = of_nat (q * 16 + k)"
proof -
  have "(of_nat k :: u32) = take_bit 4 (of_nat k)"
    using assms by (simp add: take_bit_of_nat take_bit_nat_eq_self)
  then have "\<not> bit (of_nat k :: u32) n" if "4 \<le> n" for n
    using that by (metis bit_take_bit_iff not_le)
  then have "push_bit 4 (of_nat q :: u32) OR of_nat k = push_bit 4 (of_nat q) + of_nat k"
    by (intro disjunctive_add_eq_or [symmetric] bit_word_eqI) (auto simp: bit_push_bit_iff bit_and_iff)
  then show ?thesis by (simp add: push_bit_eq_mult)
qed

lemma pton6_loop_hex:
  assumes "n < 2 ^ 16" "p6_seen s = 0" "p6_val s = 0"
  shows "pton6_loop (print_base 16 n @ rest) s =
    pton6_loop rest (s\<lparr>p6_seen := length (print_base 16 n), p6_val := of_nat n\<rparr>)"
  using assms(1)
proof (induction n arbitrary: rest rule: less_induct)
  case (less n)
  show ?case
  proof (cases "n < 16")
    case True
    then show ?thesis using assms by (cases s) (simp add: print_base_small digit16_char)
  next
    case False
    define q k where "q = n div 16" and "k = n mod 16"
    have n: "n = q * 16 + k" "0 < q" "k < 16" "q < n" "q < 2 ^ 16" using False less.prems by (auto simp: q_def k_def)
    have p: "print_base 16 n = print_base 16 q @ [char_of_digit k]"
      unfolding n(1) by (rule print_base_digit) (use n in auto)
    have "length (print_base 16 n) \<le> 4" using less.prems by (intro length_print_base) auto
    then have l: "\<not> 4 < Suc (length (print_base 16 q))" by (simp add: p)
    have v: "push_bit 4 (of_nat q) OR of_nat k = (of_nat n :: u32)"
      using push_digit [OF n(3), of q] by (simp only: n(1))
    show ?thesis
      using less.IH [OF n(4,5), of "char_of_digit k # rest"] n(3) l v
      by (cases s) (simp add: p digit16_char Let_def)
  qed
qed

text \<open>Words as groups of digits with a colon between them.\<close>

fun hexes :: "u32 list \<Rightarrow> byte list" where
  "hexes [] = []"
| "hexes [w] = print_base 16 (unat w)"
| "hexes (w # v # ws) = print_base 16 (unat w) @ colon # hexes (v # ws)"

lemma hexes_Nil_iff [simp]: "hexes ws = [] \<longleftrightarrow> ws = []"
  by (cases ws rule: hexes.cases) auto

lemma colon_dot [simp]: "digit16 colon = None" "digit16 dot = None" "dot \<noteq> colon" "digit10 dot = None"
  by (simp_all add: digit16_def digit10_def colon_def dot_def)

lemma pton6_loop_hexes:
  assumes "ws \<noteq> []" "\<forall>w \<in> set ws. unat w < 2 ^ 16" "p6_seen s = 0" "p6_val s = 0"
    "length (p6_tmp s) + 2 * length ws \<le> 16"
  shows "pton6_loop (hexes ws @ rest) s = pton6_loop rest
    (s\<lparr>p6_tmp := p6_tmp s @ concat (map word_bytes (butlast ws)),
       p6_curtok := (if butlast ws = [] then p6_curtok s else print_base 16 (unat (last ws)) @ rest),
       p6_seen := length (print_base 16 (unat (last ws))), p6_val := last ws\<rparr>)"
  using assms
proof (induction ws arbitrary: s rule: hexes.induct)
  case (2 w)
  then show ?case by (simp add: pton6_loop_hex)
next
  case (3 w v ws)
  define s2 where "s2 = s\<lparr>p6_tmp := p6_tmp s @ word_bytes w, p6_curtok := hexes (v # ws) @ rest,
      p6_seen := 0, p6_val := 0\<rparr>"
  have "pton6_loop (hexes (w # v # ws) @ rest) s =
      pton6_loop (colon # hexes (v # ws) @ rest)
        (s\<lparr>p6_seen := length (print_base 16 (unat w)), p6_val := w\<rparr>)"
    using 3(3-) by (simp add: pton6_loop_hex)
  also have "\<dots> = pton6_loop (hexes (v # ws) @ rest) s2"
    using 3(6) by (cases s) (simp add: Let_def s2_def p6_put_def word_bytes_def)
  also have "\<dots> = pton6_loop rest
    (s2\<lparr>p6_tmp := p6_tmp s2 @ concat (map word_bytes (butlast (v # ws))),
       p6_curtok := (if butlast (v # ws) = [] then p6_curtok s2 else print_base 16 (unat (last (v # ws))) @ rest),
       p6_seen := length (print_base 16 (unat (last (v # ws)))), p6_val := last (v # ws)\<rparr>)"
    using 3(3-) by (intro 3(1)) (simp_all add: s2_def word_bytes_def)
  finally show ?case by (cases ws) (simp_all add: s2_def)
qed simp

section \<open>The embedded IPv4 address\<close>

lemma pton6_loop_digits:
  assumes "\<forall>c \<in> set ds. digit16 c \<noteq> None" "p6_seen s + length ds \<le> 4"
  shows "\<exists>v. pton6_loop (ds @ rest) s = pton6_loop rest (s\<lparr>p6_seen := p6_seen s + length ds, p6_val := v\<rparr>)"
  using assms
proof (induction ds arbitrary: s)
  case Nil
  have "s = s\<lparr>p6_seen := p6_seen s, p6_val := p6_val s\<rparr>" by simp
  then show ?case by (metis add_0_right append_Nil list.size(3))
next
  case (Cons c ds)
  then obtain k where k: "digit16 c = Some k" by auto
  let ?s = "s\<lparr>p6_val := push_bit 4 (p6_val s) OR of_nat k, p6_seen := Suc (p6_seen s)\<rparr>"
  from Cons.IH [of ?s] Cons.prems obtain v where
    "pton6_loop (ds @ rest) ?s = pton6_loop rest (?s\<lparr>p6_seen := p6_seen ?s + length ds, p6_val := v\<rparr>)" by auto
  with k Cons.prems(2) show ?case by (intro exI [of _ v]) (cases s, simp add: Let_def)
qed

lemma print_base_hex: "1 < b \<Longrightarrow> b \<le> 16 \<Longrightarrow> \<forall>c \<in> set (print_base b n). digit16 c \<noteq> None"
proof (induction n rule: less_induct)
  case (less n)
  show ?case
  proof (cases "n < b")
    case False
    have "n mod b < b" using less.prems by simp
    then have "digit16 (char_of_digit (n mod b)) = Some (n mod b)" using less.prems(2) by (intro digit16_char) linarith
    then show ?thesis using less.IH [of "n div b"] less.prems False by (subst print_base.simps) simp
  qed (use less.prems in \<open>simp add: print_base_small digit16_char\<close>)
qed

lemma print_base_10_hex: "\<forall>c \<in> set (print_base 10 n). digit16 c \<noteq> None"
  by (rule print_base_hex) simp_all

lemma pton6_loop_ntop4:
  assumes "length bs = 4" "p6_seen s = 0" "p6_curtok s = ntop4_text bs" "length (p6_tmp s) + 4 \<le> 16"
  shows "\<exists>v. pton6_loop (ntop4_text bs) s = Inr (s\<lparr>p6_tmp := p6_tmp s @ bs, p6_seen := 0, p6_val := v\<rparr>)"
proof -
  obtain rest where t: "ntop4_text bs = print_base 10 (unat (bs ! 0)) @ dot # rest"
    by (simp add: ntop4_text_def)
  have "unat (bs ! 0) < 10 ^ 3" using unsigned_less [of "bs ! 0", where 'a = nat] by simp
  then have "length (print_base 10 (unat (bs ! 0))) \<le> 3" by (rule length_print_base) auto
  then obtain v where "pton6_loop (ntop4_text bs) s =
      pton6_loop (dot # rest) (s\<lparr>p6_seen := length (print_base 10 (unat (bs ! 0))), p6_val := v\<rparr>)"
    using pton6_loop_digits [OF print_base_10_hex, of s "unat (bs ! 0)" "dot # rest"] assms(2)
    unfolding t by auto
  moreover have "inet_pton4 (ntop4_text bs) = Inr bs" using assms(1) by (simp add: inet_pton4_iff)
  ultimately have "pton6_loop (ntop4_text bs) s =
      Inr (s\<lparr>p6_tmp := p6_tmp s @ bs, p6_seen := 0, p6_val := v\<rparr>)"
    using assms(3,4) by (cases s) simp
  then show ?thesis ..
qed

section \<open>The longest run of zeros\<close>

text \<open>What is known of a run after \<open>i\<close> words: it lies before \<open>i\<close> and its words are zero.\<close>

definition zero_run :: "u32 list \<Rightarrow> nat \<Rightarrow> run \<Rightarrow> bool" where
  "zero_run ws i r \<longleftrightarrow>
     (case fst r of None \<Rightarrow> True
      | Some b \<Rightarrow> 1 \<le> snd r \<and> b + snd r \<le> i \<and> (\<forall>j. b \<le> j \<and> j < b + snd r \<longrightarrow> ws ! j = 0))"

lemma run_step_zero:
  assumes "zero_run ws i best" "zero_run ws i cur" "\<And>b. fst cur = Some b \<Longrightarrow> b + snd cur = i"
    "run_step ws i (best, cur) = (best', cur')"
  shows "zero_run ws (Suc i) best'" "zero_run ws (Suc i) cur'" "\<And>b. fst cur' = Some b \<Longrightarrow> b + snd cur' = Suc i"
proof -
  have m: "zero_run ws (Suc i) r" if "zero_run ws i r" for r
    using that by (auto simp: zero_run_def split: option.splits)
  show "zero_run ws (Suc i) best'"
    using assms m by (auto simp: run_step_def run_better_def split: if_splits)
  show "\<And>b. fst cur' = Some b \<Longrightarrow> b + snd cur' = Suc i"
    using assms by (auto simp: run_step_def split: if_splits)
  show "zero_run ws (Suc i) cur'"
    using assms m [OF assms(2)]
    by (cases "fst cur") (auto simp: run_step_def zero_run_def less_Suc_eq split: if_splits)
qed

lemma best_run_zero:
  assumes "fst (best_run ws) = Some b"
  shows "2 \<le> snd (best_run ws) \<and> b + snd (best_run ws) \<le> 8 \<and>
    (\<forall>j. b \<le> j \<and> j < b + snd (best_run ws) \<longrightarrow> ws ! j = 0)"
proof -
  define S where "S i = fold (run_step ws) [0..<i] ((None, 0), (None, 0))" for i
  have "zero_run ws i (fst (S i)) \<and> zero_run ws i (snd (S i)) \<and>
      (\<forall>b. fst (snd (S i)) = Some b \<longrightarrow> b + snd (snd (S i)) = i)" for i
  proof (induction i)
    case 0
    then show ?case by (simp add: S_def zero_run_def)
  next
    case (Suc i)
    have "run_step ws i (fst (S i), snd (S i)) = (fst (S (Suc i)), snd (S (Suc i)))" by (simp add: S_def)
    from run_step_zero [OF _ _ _ this] Suc show ?case by blast
  qed
  from this [of 8] have "zero_run ws 8 (run_better (fst (S 8)) (snd (S 8)))"
    by (simp add: run_better_def)
  moreover have "best_run ws = (let r = run_better (fst (S 8)) (snd (S 8)) in
      if fst r \<noteq> None \<and> snd r < 2 then (None, snd r) else r)"
    by (simp add: best_run_def S_def split_beta)
  ultimately show ?thesis using assms by (auto simp: zero_run_def Let_def split: if_splits)
qed

section \<open>The printed text\<close>

text \<open>The two texts of an address: with a run left out, and with an embedded IPv4 address.\<close>

definition gap_text :: "u32 list \<Rightarrow> run \<Rightarrow> byte list" where
  "gap_text ws best =
     (case fst best of
        None \<Rightarrow> hexes ws
      | Some b \<Rightarrow> hexes (take b ws) @ [colon, colon] @ hexes (drop (b + snd best) ws))"

definition is_v4 :: "u32 list \<Rightarrow> run \<Rightarrow> bool" where
  "is_v4 ws best \<longleftrightarrow> fst best = Some 0 \<and> (snd best = 6 \<or> snd best = 5 \<and> ws ! 5 = 0xFFFF)"

definition end_colon :: "run \<Rightarrow> byte list" where
  "end_colon best = (case fst best of None \<Rightarrow> [] | Some b \<Rightarrow> if b + snd best = 8 then [colon] else [])"

lemma ntop6_format_gap:
  assumes "length ws = 8" "\<not> is_v4 ws best" "\<And>b. fst best = Some b \<Longrightarrow> 2 \<le> snd best \<and> b + snd best \<le> 8"
  shows "\<exists>tp. ntop6_format src ws best [0..<8] [] = Inr tp \<and> tp @ end_colon best = gap_text ws best"
proof -
  obtain w0 w1 w2 w3 w4 w5 w6 w7 where ws: "ws = [w0, w1, w2, w3, w4, w5, w6, w7]"
    using assms(1) by (auto simp: length_Suc_conv eval_nat_numeral)
  show ?thesis
  proof (cases "fst best")
    case None
    then show ?thesis by (simp add: upt_8 in_run_def ws gap_text_def end_colon_def)
  next
    case (Some b)
    define l where "l = snd best"
    have "2 \<le> l" "b + l \<le> 8" using assms(3) [OF Some] by (auto simp: l_def)
    moreover from this have "b = 0 \<or> b = 1 \<or> b = 2 \<or> b = 3 \<or> b = 4 \<or> b = 5 \<or> b = 6"
      "l = 2 \<or> l = 3 \<or> l = 4 \<or> l = 5 \<or> l = 6 \<or> l = 7 \<or> l = 8" by linarith+
    moreover have best: "best = (Some b, l)" using Some by (cases best) (simp add: l_def)
    ultimately show ?thesis
      using assms(2) unfolding best ws
      by (elim disjE) (simp_all add: upt_8 in_run_def gap_text_def end_colon_def is_v4_def)
  qed
qed

lemma ntop6_format_v4:
  assumes "length src = 16" "length ws = 8" "is_v4 ws best"
  shows "ntop6_format src ws best [0..<8] [] =
      Inr ([colon, colon] @ (if snd best = 5 then print_base 16 0xFFFF @ [colon] else []) @ ntop4_text (drop 12 src)) \<and>
    end_colon best = []"
proof -
  obtain w0 w1 w2 w3 w4 w5 w6 w7 where ws: "ws = [w0, w1, w2, w3, w4, w5, w6, w7]"
    using assms(2) by (auto simp: length_Suc_conv eval_nat_numeral)
  have v4: "inet_ntop4 (drop 12 src) n = (0, ntop4_text (drop 12 src) @ [0])" if "16 \<le> n" for n
    using ntop4_text_bounds(1) [of "drop 12 src"] that by (simp add: inet_ntop4_eq)
  note tw = takeWhile_terminated [OF ntop4_text_bounds(3) [of "drop 12 src"]]
  obtain l where best: "best = (Some 0, l)" using assms(3) by (cases best) (simp add: is_v4_def)
  have "l = 6 \<or> l = 5 \<and> w5 = 0xFFFF" using assms(3) by (simp add: best ws is_v4_def)
  then show ?thesis
  proof
    assume "l = 6"
    then show ?thesis using tw
      by (simp add: best ws upt_8 in_run_def end_colon_def v4)
  next
    assume "l = 5 \<and> w5 = 0xFFFF"
    then show ?thesis using tw length_print_base [of 65535 16 4]
      by (simp add: best ws upt_8 in_run_def end_colon_def v4)
  qed
qed

section \<open>Reading the text back\<close>

definition p6_start :: "byte list \<Rightarrow> byte list \<Rightarrow> nat option \<Rightarrow> pton6_state" where
  "p6_start src tmp c = \<lparr>p6_tmp = tmp, p6_colonp = c, p6_curtok = src, p6_seen = 0, p6_val = 0\<rparr>"

text \<open>\<open>inet_pton6\<close> behind its loop.\<close>

definition p6_finish :: "pton6_state \<Rightarrow> int + byte list" where
  "p6_finish s =
     (if p6_seen s \<noteq> 0 \<and> 16 < length (p6_tmp s) + 2 then Inl UV_EINVAL
      else
        let tmp = (if p6_seen s \<noteq> 0 then p6_tmp (p6_put s) else p6_tmp s) in
        case p6_colonp s of
          Some c \<Rightarrow> if length tmp = 16 then Inl UV_EINVAL else Inr (p6_shift c tmp)
        | None \<Rightarrow> if length tmp \<noteq> 16 then Inl UV_EINVAL else Inr tmp)"

lemma inet_pton6_eq:
  "inet_pton6 src = (if src \<noteq> [] \<and> hd src = colon
     then (if tl src = [] \<or> hd (tl src) \<noteq> colon then Inl UV_EINVAL
           else case pton6_loop (tl src) (p6_start (tl src) [] None) of Inl e \<Rightarrow> Inl e | Inr s \<Rightarrow> p6_finish s)
     else case pton6_loop src (p6_start src [] None) of Inl e \<Rightarrow> Inl e | Inr s \<Rightarrow> p6_finish s)"
  unfolding inet_pton6_def p6_start_def p6_finish_def Let_def by (simp split: sum.split)

lemma hd_print_base_16: "hd (print_base 16 n) \<noteq> colon"
proof (induction n rule: less_induct)
  case (less n)
  have "char_of_digit k \<noteq> colon" if "k < 16" for k
    using digit16_char [OF that] colon_dot(1) by (metis option.distinct(1))
  with less [of "n div 16"] show ?case
    by (cases "n < 16") (simp add: print_base_small, subst print_base.simps, simp)
qed

lemma hd_hexes: "ws \<noteq> [] \<Longrightarrow> hd (hexes ws @ rest) \<noteq> colon"
  using hd_print_base_16 by (cases ws rule: hexes.cases) auto

abbreviation bytes_of :: "u32 list \<Rightarrow> byte list" where
  "bytes_of ws \<equiv> concat (map word_bytes ws)"

lemma length_word_bytes [simp]: "length (word_bytes w) = 2"
  by (simp add: word_bytes_def)

lemma length_bytes_of [simp]: "length (bytes_of ws) = 2 * length ws"
  by (induction ws) (auto simp: word_bytes_def)

lemma bytes_of_snoc: "ws \<noteq> [] \<Longrightarrow> bytes_of (butlast ws) @ word_bytes (last ws) = bytes_of ws"
  by (induction ws) auto

lemma p6_finish_hexes:
  assumes "ws \<noteq> []" "\<forall>w \<in> set ws. unat w < 2 ^ 16" "p6_seen s = 0" "p6_val s = 0"
    "length (p6_tmp s) + 2 * length ws \<le> 16" "c = None \<longrightarrow> length (p6_tmp s) + 2 * length ws = 16"
    "\<And>k. c = Some k \<Longrightarrow> k \<le> length (p6_tmp s) \<and> length (p6_tmp s) + 2 * length ws < 16" "p6_colonp s = c"
  shows "(case pton6_loop (hexes ws) s of Inl e \<Rightarrow> Inl e | Inr s \<Rightarrow> p6_finish s) =
    (case c of None \<Rightarrow> Inr (p6_tmp s @ bytes_of ws)
     | Some k \<Rightarrow> Inr (p6_shift k (p6_tmp s @ bytes_of ws)))"
proof -
  have l: "length (bytes_of (butlast ws)) + 2 = 2 * length ws" using assms(1) by (cases ws) auto
  have "pton6_loop (hexes ws @ []) s = pton6_loop []
    (s\<lparr>p6_tmp := p6_tmp s @ bytes_of (butlast ws),
       p6_curtok := (if butlast ws = [] then p6_curtok s else print_base 16 (unat (last ws)) @ []),
       p6_seen := length (print_base 16 (unat (last ws))), p6_val := last ws\<rparr>)"
    by (rule pton6_loop_hexes [OF assms(1-5)])
  moreover have "\<not> 16 < length (p6_tmp s) + length (bytes_of (butlast ws)) + 2" using l assms(5) by linarith
  ultimately show ?thesis
    using assms(6-8) bytes_of_snoc [OF assms(1)] l
    by (auto simp: p6_finish_def Let_def p6_put_def word_bytes_def split: option.split)
qed

lemma pton6_gap:
  assumes "\<forall>w \<in> set before \<union> set after. unat w < 2 ^ 16" "length before + length after < 8"
  shows "inet_pton6 (hexes before @ [colon, colon] @ hexes after) =
    Inr (bytes_of before @ replicate (16 - 2 * length before - 2 * length after) 0 @ bytes_of after)"
proof -
  define s1 where "s1 = p6_start (hexes after) (bytes_of before) (Some (2 * length before))"
  have e: "inet_pton6 (hexes before @ [colon, colon] @ hexes after) =
    (case pton6_loop (hexes after) s1 of Inl e \<Rightarrow> Inl e | Inr s \<Rightarrow> p6_finish s)"
  proof (cases "before = []")
    case True
    then show ?thesis by (simp add: inet_pton6_eq s1_def p6_start_def)
  next
    case False
    let ?rest = "colon # colon # hexes after" and ?src = "hexes before @ [colon, colon] @ hexes after"
    have l: "2 * length before = length (bytes_of (butlast before)) + 2" using False by (cases before) auto
    have "pton6_loop (hexes before @ ?rest) (p6_start ?src [] None) = pton6_loop ?rest
       ((p6_start ?src [] None)\<lparr>p6_tmp := p6_tmp (p6_start ?src [] None) @ bytes_of (butlast before),
       p6_curtok := (if butlast before = [] then p6_curtok (p6_start ?src [] None) else print_base 16 (unat (last before)) @ ?rest),
       p6_seen := length (print_base 16 (unat (last before))), p6_val := last before\<rparr>)"
      using assms False by (intro pton6_loop_hexes) (auto simp: p6_start_def)
    also have "\<dots> = pton6_loop (hexes after) s1"
      using l assms(2) bytes_of_snoc [OF False] 
      by (simp add: p6_start_def s1_def Let_def p6_put_def word_bytes_def)
    finally show ?thesis using hd_hexes [OF False] False by (simp add: inet_pton6_eq)
  qed
  show ?thesis
  proof (cases "after = []")
    case True
    then show ?thesis using assms(2) unfolding e
      by (simp add: s1_def p6_start_def p6_finish_def p6_shift_eq)
  next
    case False
    then show ?thesis unfolding e
      using assms p6_finish_hexes [of after s1 "Some (2 * length before)"]
      by (simp add: s1_def p6_start_def p6_shift_eq)
  qed
qed


lemma pton6_hexes:
  assumes "length ws = 8" "\<forall>w \<in> set ws. unat w < 2 ^ 16"
  shows "inet_pton6 (hexes ws) = Inr (bytes_of ws)"
proof -
  have "ws \<noteq> []" using assms(1) by auto
  then show ?thesis
    using hd_hexes [of ws "[]"] p6_finish_hexes [of ws "p6_start (hexes ws) [] None" None] assms
    by (simp add: inet_pton6_eq p6_start_def)
qed

lemma pton6_v4:
  assumes "length bs = 4" "ws = [] \<or> ws = [w] \<and> unat w < 2 ^ 16"
  shows "inet_pton6 ([colon, colon] @ (if ws = [] then [] else print_base 16 (unat w) @ [colon]) @ ntop4_text bs) =
    Inr (replicate (12 - 2 * length ws) 0 @ bytes_of ws @ bs)"
proof -
  let ?t4 = "ntop4_text bs" and ?t = "(if ws = [] then [] else print_base 16 (unat w) @ [colon]) @ ntop4_text bs"
  have "pton6_loop ?t (p6_start ?t [] (Some 0)) = pton6_loop ?t4 (p6_start ?t4 (bytes_of ws) (Some 0))"
    using assms ntop4_text_bounds(2) [of bs]
    by (auto simp: p6_start_def pton6_loop_hex Let_def p6_put_def word_bytes_def)
  moreover obtain v where "pton6_loop ?t4 (p6_start ?t4 (bytes_of ws) (Some 0)) =
      Inr (p6_start ?t4 (bytes_of ws) (Some 0)\<lparr>p6_tmp := bytes_of ws @ bs, p6_seen := 0, p6_val := v\<rparr>)"
    using pton6_loop_ntop4 [OF assms(1), of "p6_start ?t4 (bytes_of ws) (Some 0)"] assms
    by (auto simp: p6_start_def)
  moreover have "pton6_loop (colon # ?t) (p6_start (colon # ?t) [] None) = pton6_loop ?t (p6_start ?t [] (Some 0))"
    by (simp add: p6_start_def)
  ultimately show ?thesis
    using assms by (auto simp: inet_pton6_eq p6_finish_def p6_start_def p6_shift_eq)
qed

section \<open>The round trip\<close>

definition ntop6_text :: "byte list \<Rightarrow> byte list" where
  "ntop6_text src =
     (let ws = ntop6_words src; best = best_run ws in
      if is_v4 ws best
      then [colon, colon] @ (if snd best = 5 then print_base 16 0xFFFF @ [colon] else []) @ ntop4_text (drop 12 src)
      else gap_text ws best)"

lemma ntop6_words_facts:
  assumes "length src = 16"
  shows "length (ntop6_words src) = 8" "\<forall>w \<in> set (ntop6_words src). unat w < 2 ^ 16"
    "bytes_of (ntop6_words src) = src"
  using assms by (auto elim!: length_16E simp: ntop6_words_list bytes_word_less [simplified])

lemma length_hexes: "\<forall>w \<in> set ws. unat w < 2 ^ 16 \<Longrightarrow> length (hexes ws) \<le> 5 * length ws"
proof (induction ws rule: hexes.induct)
  case (2 w)
  then have "length (print_base 16 (unat w)) \<le> 4" by (intro length_print_base) auto
  then show ?case by simp
next
  case (3 w v ws)
  then have "length (print_base 16 (unat w)) \<le> 4" by (intro length_print_base) auto
  then show ?case using 3 by simp
qed simp

lemma hexes_not_0: "0 \<notin> set (hexes ws)"
  by (induction ws rule: hexes.induct) (auto simp: print_base_not_0 colon_def)

lemma ntop6_text_bounds:
  assumes "length src = 16"
  shows "length (ntop6_text src) \<le> 45" "0 \<notin> set (ntop6_text src)"
proof -
  note W = ntop6_words_facts [OF assms]
  have h: "length (hexes (take b (ntop6_words src))) + length (hexes (drop (b + l) (ntop6_words src))) \<le> 40" for b l
  proof -
    have "length (hexes (take b (ntop6_words src))) \<le> 5 * length (take b (ntop6_words src))"
      by (rule length_hexes) (use W(2) in \<open>auto dest: in_set_takeD\<close>)
    moreover have "length (hexes (drop (b + l) (ntop6_words src))) \<le> 5 * length (drop (b + l) (ntop6_words src))"
      by (rule length_hexes) (use W(2) in \<open>auto dest: in_set_dropD\<close>)
    ultimately show ?thesis using W(1) by simp
  qed
  moreover have "length (hexes (ntop6_words src)) \<le> 40" using length_hexes [OF W(2)] W(1) by simp
  moreover have "length (print_base 16 65535) \<le> 4" by (rule length_print_base) auto
  moreover note ntop4_text_bounds(1) [of "drop 12 src"]
  ultimately show "length (ntop6_text src) \<le> 45"
    by (auto simp: ntop6_text_def Let_def gap_text_def intro: le_trans [OF h] split: option.split)
  show "0 \<notin> set (ntop6_text src)"
    using hexes_not_0 ntop4_text_bounds(3) print_base_not_0 [of 16]
    by (auto simp: ntop6_text_def Let_def gap_text_def colon_def split: option.split)
qed


lemma inet_ntop6_eq:
  assumes "length src = 16"
  shows "inet_ntop6 src sz =
    (if sz = 0 then (0, [])
     else if length (ntop6_text src) < sz then (0, ntop6_text src @ [0])
     else (UV_ENOSPC, take (sz - 1) (ntop6_text src) @ [0]))"
proof -
  let ?ws = "ntop6_words src" and ?best = "best_run (ntop6_words src)"
  note W = ntop6_words_facts [OF assms] and B = ntop6_text_bounds [OF assms]
  have "\<exists>tp. ntop6_format src ?ws ?best [0..<8] [] = Inr tp \<and> tp @ end_colon ?best = ntop6_text src"
  proof (cases "is_v4 ?ws ?best")
    case True
    then show ?thesis using ntop6_format_v4 [OF assms W(1)] by (auto simp: ntop6_text_def Let_def)
  next
    case False
    then show ?thesis using ntop6_format_gap [OF W(1) False] best_run_zero
      by (auto simp: ntop6_text_def Let_def)
  qed
  then obtain tp where tp: "ntop6_format src ?ws ?best [0..<8] [] = Inr tp" "tp @ end_colon ?best = ntop6_text src"
    by blast
  have "(case fst ?best of None \<Rightarrow> tp | Some b \<Rightarrow> if b + snd ?best = 8 then tp @ [colon] else tp) = ntop6_text src"
    unfolding tp(2) [symmetric] by (auto simp: end_colon_def split: option.split)
  moreover have "uv__strscpy (ntop6_text src) sz =
    (if length (ntop6_text src) < sz then (int (length (ntop6_text src)), ntop6_text src @ [0])
     else if sz = 0 then (0, [])
     else (UV_E2BIG, take (sz - 1) (ntop6_text src) @ [0]))"
    using B by (intro uv__strscpy_eq) auto
  ultimately show ?thesis by (auto simp: inet_ntop6_def Let_def tp(1))
qed

lemma bytes_of_zeros: "\<forall>w \<in> set ws. w = 0 \<Longrightarrow> bytes_of ws = replicate (2 * length ws) 0"
  by (induction ws) (auto simp: word_bytes_def)

lemma inet_pton6_ntop6_text:
  assumes "length src = 16"
  shows "inet_pton6 (ntop6_text src) = Inr src"
proof -
  let ?ws = "ntop6_words src" and ?best = "best_run (ntop6_words src)"
  note W = ntop6_words_facts [OF assms]
  show ?thesis
  proof (cases "fst ?best")
    case None
    then show ?thesis using pton6_hexes [OF W(1,2)] W(3)
      by (simp add: ntop6_text_def Let_def is_v4_def gap_text_def)
  next
    case (Some b)
    define l where "l = snd ?best"
    have l: "2 \<le> l" "b + l \<le> 8" "\<And>j. b \<le> j \<Longrightarrow> j < b + l \<Longrightarrow> ?ws ! j = 0"
      using best_run_zero [OF Some] by (auto simp: l_def)
    let ?mid = "take l (drop b ?ws)"
    have ws: "?ws = take b ?ws @ ?mid @ drop (b + l) ?ws"
      by (metis append_take_drop_id drop_drop add.commute)
    have "\<forall>w \<in> set ?mid. w = 0" using l W(1) by (auto simp: in_set_conv_nth)
    from bytes_of_zeros [OF this] l W(1) have mid: "bytes_of ?mid = replicate (2 * l) 0" by simp
    have src: "src = bytes_of (take b ?ws) @ replicate (2 * l) 0 @ bytes_of (drop (b + l) ?ws)"
      using W(3) ws mid by (metis concat_append map_append)
    show ?thesis
    proof (cases "is_v4 ?ws ?best")
      case False
      have "16 - 2 * length (take b ?ws) - 2 * length (drop (b + l) ?ws) = 2 * l" using W(1) l by simp
      moreover have "\<forall>w \<in> set (take b ?ws) \<union> set (drop (b + l) ?ws). unat w < 2 ^ 16"
        using W(2) by (auto dest: in_set_takeD in_set_dropD)
      moreover have "length (take b ?ws) + length (drop (b + l) ?ws) < 8" using W(1) l by simp
      ultimately have "inet_pton6 (gap_text ?ws ?best) = Inr src"
        using pton6_gap [of "take b ?ws" "drop (b + l) ?ws"] src
        by (simp add: gap_text_def Some l_def [symmetric])
      then show ?thesis using False by (simp add: ntop6_text_def Let_def)
    next
      case True
      then have v: "b = 0" "l = 6 \<or> l = 5 \<and> ?ws ! 5 = 0xFFFF" using Some by (auto simp: is_v4_def l_def)
      define xs where "xs = (if l = 5 then [0xFFFF :: u32] else [])"
      have "drop l ?ws = xs @ drop 6 ?ws"
        using v(2) W(1) Cons_nth_drop_Suc [of 5 ?ws] by (auto simp: xs_def)
      then have s: "src = replicate (12 - 2 * length xs) 0 @ bytes_of xs @ bytes_of (drop 6 ?ws)"
        using src v by (auto simp: xs_def)
      moreover have "bytes_of (drop 6 ?ws) = drop 12 src"
        using arg_cong [OF s, of "drop 12"] v(2) by (auto simp: xs_def)
      ultimately have "src = replicate (12 - 2 * length xs) 0 @ bytes_of xs @ drop 12 src" by simp
      moreover have "inet_pton6 ([colon, colon] @ (if xs = [] then [] else print_base 16 (unat (0xFFFF :: u32)) @ [colon]) @
          ntop4_text (drop 12 src)) = Inr (replicate (12 - 2 * length xs) 0 @ bytes_of xs @ drop 12 src)"
        using assms by (intro pton6_v4) (auto simp: xs_def)
      moreover have "ntop6_text src = [colon, colon] @ (if xs = [] then [] else print_base 16 (unat (0xFFFF :: u32)) @ [colon]) @
          ntop4_text (drop 12 src)"
        using True v by (auto simp: ntop6_text_def Let_def l_def xs_def)
      ultimately show ?thesis by simp
    qed
  qed
qed

lemma text_chars:
  assumes "length src = 16" "c \<in> set (ntop6_text src)"
  shows "digit16 c \<noteq> None \<or> c = colon \<or> c = dot"
proof -
  have p16: "digit16 c \<noteq> None" if "c \<in> set (print_base 16 n)" for c n
    using that print_base_hex [of 16 n] by auto
  have p10: "digit16 c \<noteq> None" if "c \<in> set (print_base 10 n)" for c n
    using that print_base_hex [of 10 n] by auto
  have h: "digit16 c \<noteq> None \<or> c = colon" if "c \<in> set (hexes ws)" for c ws
    using that by (induction ws rule: hexes.induct) (auto dest!: p16)
  show ?thesis
    using assms(2) h p16 p10
    by (auto simp: ntop6_text_def Let_def gap_text_def ntop4_text_def split: if_splits option.splits)
qed

section \<open>Properties\<close>

text \<open>
  \<open>uv__strscpy\<close> never writes more than \<open>n\<close> bytes and always terminates what it writes: a
  string that fits is copied whole and its length returned, a longer one is cut and reported.
\<close>

theorem uv__strscpy_bounded:
  assumes "0 \<notin> set s" "length s < 2 ^ 63"
  shows "uv__strscpy s n =
    (if n = 0 then (0, [])
     else if length s < n then (int (length s), s @ [0])
     else (UV_E2BIG, take (n - 1) s @ [0]))"
  using uv__strscpy_eq [OF assms, of n] by simp

theorem uv__strscpy_bounded_witness: "uv__strscpy [65, 66, 67] 3 = (UV_E2BIG, [65, 66, 0])"
  using uv__strscpy_bounded [of "[65, 66, 67]" 3] by simp

text \<open>
  C40: the IPv4 parser accepts exactly the texts the printer produces, each as the address it was
  printed from: no leading zeros, no missing octets, nothing above 255.
\<close>

theorem inet_pton4_canonical:
  "inet_pton4 s = Inr bs \<longleftrightarrow> length bs = 4 \<and> inet_ntop4 bs 16 = (0, s @ [0])"
  using ntop4_text_bounds(1) [of bs] by (auto simp: inet_pton4_iff inet_ntop4_eq)

text \<open>
  C37: every IPv6 address survives printing and parsing: \<open>uv_inet_ntop\<close> into a buffer of
  \<open>UV__INET6_ADDRSTRLEN\<close> bytes succeeds, and \<open>uv_inet_pton\<close> reads the text back as the same
  sixteen bytes, with the longest run of zeros left out and embedded IPv4 addresses included.
\<close>

theorem inet6_roundtrip:
  assumes "length src = 16" "46 \<le> sz"
  shows "\<exists>s. uv_inet_ntop AF_INET6 src sz = (0, s @ [0]) \<and> 0 \<notin> set s \<and>
    uv_inet_pton AF_INET6 (Some s) True = Inr src"
proof (intro exI conjI)
  note B = ntop6_text_bounds [OF assms(1)]
  show "uv_inet_ntop AF_INET6 src sz = (0, ntop6_text src @ [0])"
    using B(1) assms(2) by (simp add: uv_inet_ntop_def inet_ntop6_eq [OF assms(1)])
  show "0 \<notin> set (ntop6_text src)" by (rule B(2))
  have "digit16 percent = None" "percent \<noteq> colon" "percent \<noteq> dot"
    by (simp_all add: digit16_def percent_def colon_def dot_def)
  then have "percent \<notin> set (ntop6_text src)" using text_chars [OF assms(1), of percent] by auto
  then have tw: "takeWhile (\<lambda>b. b \<noteq> percent) (ntop6_text src) = ntop6_text src"
    by (auto simp: takeWhile_eq_all_conv)
  show "uv_inet_pton AF_INET6 (Some (ntop6_text src)) True = Inr src"
    by (simp add: uv_inet_pton_def Let_def tw inet_pton6_ntop6_text [OF assms(1)])
qed

theorem inet6_roundtrip_witness:
  "\<exists>s. uv_inet_ntop AF_INET6 [0x20, 1, 0xD, 0xB8, 0, 0, 0, 0, 0, 0, 0, 0, 0, 0, 0, 1] 46 = (0, s @ [0]) \<and>
    uv_inet_pton AF_INET6 (Some s) True = Inr [0x20, 1, 0xD, 0xB8, 0, 0, 0, 0, 0, 0, 0, 0, 0, 0, 0, 1]"
  using inet6_roundtrip [of "[0x20, 1, 0xD, 0xB8, 0, 0, 0, 0, 0, 0, 0, 0, 0, 0, 0, 1]" 46] by auto

text \<open>
  A buffer of no bytes is an error for IPv4 but not for IPv6: \<open>inet_ntop6\<close> reports success and
  writes nothing, not even a terminator.
\<close>

theorem inet_ntop6_empty_buffer:
  assumes "length src = 16"
  shows "uv_inet_ntop AF_INET6 src 0 = (0, []) \<and> uv_inet_ntop AF_INET src 0 = (UV_ENOSPC, [])"
  by (simp add: uv_inet_ntop_def inet_ntop6_eq [OF assms] inet_ntop4_eq)

theorem inet_ntop6_empty_buffer_witness: "uv_inet_ntop AF_INET6 (replicate 16 1) 0 = (0, [])"
  using inet_ntop6_empty_buffer [of "replicate 16 1"] by simp

end
