(* ===== verification/Uv_Idna.thy ===== *)
theory Uv_Idna
  imports Uv_Errno "HOL-Library.Monad_Syntax"
begin

text \<open>
  Internationalised host names (\<open>idna.c\<close> of libuv): the UTF-8 decoder, Punycode for one label and
  the conversion of a whole name.

  The input is read through pointers into the byte memory \<open>m\<close>, so that what is read past its
  end is visible; the output buffer \<open>[d, de)\<close> is the list of the bytes written and its capacity.
\<close>

section \<open>UTF-8\<close>

text \<open>
  \<open>uv__utf8_decode1_slow\<close>: the code point, or -1 as an unsigned, and the advanced pointer.  The
  \<open>switch (*p - pe)\<close> enters at the third case for 1, at the second for 2, and at the first otherwise.
\<close>

definition utf8_check :: "u32 \<Rightarrow> u32 \<Rightarrow> u32 \<Rightarrow> u32 \<Rightarrow> u32 \<Rightarrow> u32" where
  "utf8_check lo a b c d =
     (if 0xC0 AND (b XOR c XOR d) \<noteq> 0x80 then - 1
      else
        let r = push_bit 18 a OR push_bit 12 (b AND 63) OR push_bit 6 (c AND 63) OR (d AND 63) in
        if r < lo then - 1
        else if 0x10FFFF < r then - 1
        else if 0xD800 \<le> r \<and> r \<le> 0xDFFF then - 1
        else r)"

definition uv__utf8_decode1_slow :: "memory \<Rightarrow> addr \<Rightarrow> addr \<Rightarrow> u32 \<Rightarrow> u32 \<times> addr" where
  "uv__utf8_decode1_slow m p pe a =
     (if 0xF7 < a then (- 1, p)
      else
        let diff = p - pe in
        if diff \<noteq> 2 \<and> diff \<noteq> 1 \<and> 0xEF < a then
          (utf8_check 0x10000 (a AND 7) (ucast (m p)) (ucast (m (p + 1))) (ucast (m (p + 2))), p + 3)
        else if diff \<noteq> 1 \<and> 0xDF < a then
          (utf8_check 0x800 0 (0x80 OR (a AND 15)) (ucast (m p)) (ucast (m (p + 1))), p + 2)
        else if 0xBF < a then
          (utf8_check 0x80 0 0x80 (0x80 OR (a AND 31)) (ucast (m p)), p + 1)
        else (- 1, p))"

definition uv__utf8_decode1 :: "memory \<Rightarrow> addr \<Rightarrow> addr \<Rightarrow> u32 \<times> addr" where
  "uv__utf8_decode1 m p pe =
     (let a = ucast (m p) :: u32 in
      if a < 128 then (a, p + 1) else uv__utf8_decode1_slow m (p + 1) pe a)"

text \<open>
  \<open>foreach_codepoint\<close>: the code points its body is run on, in order.  The macro decodes before it
  compares, so it also reads at \<open>pe\<close> itself; \<open>None\<close> is a pointer that wraps and never passes \<open>pe\<close>.
\<close>

partial_function (option) codepoints :: "memory \<Rightarrow> addr \<Rightarrow> addr \<Rightarrow> u32 list option" where
  "codepoints m p pe =
     (if pe < p then Some []
      else if pe < snd (uv__utf8_decode1 m p pe) then Some []
      else do {
        cs \<leftarrow> codepoints m (snd (uv__utf8_decode1 m p pe)) pe;
        Some (fst (uv__utf8_decode1 m p pe) # cs)
      })"

section \<open>Punycode\<close>


text \<open>\<open>if (*d < de) *(*d)++ = c;\<close>\<close>

definition out_put :: "nat \<Rightarrow> byte \<Rightarrow> byte list \<Rightarrow> byte list" where
  "out_put cap c out = (if length out < cap then out @ [c] else out)"

text \<open>The number of ASCII and of other code points; \<open>None\<close> where one is invalid.\<close>

fun idna_count :: "u32 list \<Rightarrow> u32 \<Rightarrow> u32 \<Rightarrow> (u32 \<times> u32) option" where
  "idna_count [] h todo = Some (h, todo)"
| "idna_count (c # cs) h todo =
     (if c < 128 then idna_count cs (h + 1) todo
      else if c = - 1 then None
      else idna_count cs h (todo + 1))"

text \<open>The copy of the ASCII characters, which stops after the \<open>h\<close>-th.\<close>

fun idna_ascii :: "nat \<Rightarrow> u32 \<Rightarrow> u32 list \<Rightarrow> u32 \<Rightarrow> byte list \<Rightarrow> byte list" where
  "idna_ascii cap h [] x out = out"
| "idna_ascii cap h (c # cs) x out =
     (if 127 < c then idna_ascii cap h cs x out
      else
        let out' = out_put cap (ucast c) out in
        if x + 1 = h then out' else idna_ascii cap h cs (x + 1) out')"

definition idna_alphabet :: "u32 \<Rightarrow> byte" where
  "idna_alphabet t = (if t < 26 then 97 + ucast t else 48 + ucast (t - 26))"

definition idna_threshold :: "u32 \<Rightarrow> u32 \<Rightarrow> u32" where
  "idna_threshold k bias =
     (let t = (if bias < k then k - bias else 1) in if 26 < t then 26 else t)"

lemma idna_threshold_bounds: "1 \<le> idna_threshold k bias" "idna_threshold k bias \<le> 26"
proof -
  have "1 \<le> k - bias" if "bias < k"
    using that by (simp add: word_le_nat_alt word_less_nat_alt unat_sub_if')
  then show "1 \<le> idna_threshold k bias" "idna_threshold k bias \<le> 26"
    by (auto simp: idna_threshold_def Let_def)
qed

text \<open>The digits of one delta: \<open>for (k = 36, q = delta; ; k += 36) \<dots>\<close> and the digit behind it.\<close>

function idna_digits :: "nat \<Rightarrow> u32 \<Rightarrow> u32 \<Rightarrow> u32 \<Rightarrow> byte list \<Rightarrow> byte list" where
  "idna_digits cap bias k q out =
     (let t = idna_threshold k bias in
      if q < t then out_put cap (idna_alphabet q) out
      else
        let x = q - t; y = 36 - t
        in idna_digits cap bias (k + 36) (x div y) (out_put cap (idna_alphabet (t + x mod y)) out))"
  by pat_completeness auto
termination
proof (relation "measure (\<lambda>(cap, bias, k, q, out). unat q)")
  fix cap and bias k q :: u32 and out :: "byte list" and t x y :: u32
  assume t: "t = idna_threshold k bias" and q: "\<not> q < t" and x: "x = q - t" and y: "y = 36 - t"
  have b: "1 \<le> unat t" "unat t \<le> 26"
    using idna_threshold_bounds [of k bias] t by (simp_all add: word_le_nat_alt)
  have "unat (x div y) \<le> unat x" by (simp add: unat_div)
  also have "unat x < unat q"
    using q b x by (simp add: unat_sub_if' word_less_nat_alt)
  finally show "((cap, bias, k + 36, x div y, out_put cap (idna_alphabet (t + x mod y)) out),
      (cap, bias, k, q, out)) \<in> measure (\<lambda>(cap, bias, k, q, out). unat q)"
    by simp
qed simp

declare idna_digits.simps [simp del]

text \<open>\<open>for (bias = 0; delta > 35 * 26 / 2; bias += 36) delta /= 35;\<close>\<close>

function idna_bias :: "u32 \<Rightarrow> u32 \<Rightarrow> u32 \<times> u32" where
  "idna_bias bias delta = (if 455 < delta then idna_bias (bias + 36) (delta div 35) else (bias, delta))"
  by pat_completeness auto
termination
proof (relation "measure (\<lambda>(bias, delta). unat delta)")
  fix bias delta :: u32
  assume "455 < delta"
  then have "unat delta div 35 < unat delta" by (intro div_less_dividend) (auto simp: word_less_nat_alt)
  then show "((bias + 36, delta div 35), (bias, delta)) \<in> measure (\<lambda>(bias, delta). unat delta)"
    by (simp add: unat_div)
qed simp

declare idna_bias.simps [simp del]

record idna_state =
  id_h :: u32
  id_bias :: u32
  id_delta :: u32
  id_first :: bool
  id_todo :: u32
  id_out :: "byte list"

text \<open>Behind the digits of one code point: the new bias.\<close>

definition idna_adapt :: "idna_state \<Rightarrow> idna_state" where
  "idna_adapt s =
     (let d1 = id_delta s div 2;
          d2 = (if id_first s then d1 div 350 else d1);
          h = id_h s + 1;
          d3 = d2 + d2 div h;
          (bias, d4) = idna_bias 0 d3
      in s\<lparr>id_first := False, id_h := h, id_bias := bias + 36 * d4 div (d4 + 38), id_delta := 0,
           id_todo := id_todo s - 1\<rparr>)"

text \<open>The pass over the label for the code point \<open>n\<close>; \<open>False\<close> where \<open>delta\<close> overflows.\<close>

fun idna_pass :: "nat \<Rightarrow> u32 \<Rightarrow> u32 list \<Rightarrow> idna_state \<Rightarrow> bool \<times> idna_state" where
  "idna_pass cap n [] s = (True, s)"
| "idna_pass cap n (c # cs) s =
     (let s1 = (if c < n then s\<lparr>id_delta := id_delta s + 1\<rparr> else s) in
      if c < n \<and> id_delta s1 = 0 then (False, s1)
      else if c \<noteq> n then idna_pass cap n cs s1
      else idna_pass cap n cs
             (idna_adapt (s1\<lparr>id_out := idna_digits cap (id_bias s1) 36 (id_delta s1) (id_out s1)\<rparr>)))"

text \<open>The smallest code point not below \<open>n\<close>, -1 as an unsigned if there is none.\<close>

definition idna_min :: "u32 \<Rightarrow> u32 list \<Rightarrow> u32" where
  "idna_min n cs = fold (\<lambda>c m. if n \<le> c \<and> c < m then c else m) cs (- 1)"

text \<open>\<open>while (todo > 0)\<close>: the result of the function and the output.\<close>

partial_function (option) idna_loop ::
  "nat \<Rightarrow> u32 list \<Rightarrow> u32 \<Rightarrow> idna_state \<Rightarrow> (int \<times> byte list) option" where
  "idna_loop cap cs n s =
     (if id_todo s = 0 then Some (0, id_out s)
      else
        let m = idna_min n cs; x = m - n; y = id_h s + 1 in
        if NOT (id_delta s) div y < x then Some (UV_E2BIG, id_out s)
        else
          let s1 = s\<lparr>id_delta := id_delta s + x * y\<rparr> in
          case idna_pass cap m cs s1 of
            (ok, s2) \<Rightarrow>
              if \<not> ok then Some (UV_E2BIG, id_out s2)
              else idna_loop cap cs (m + 1) (s2\<lparr>id_delta := id_delta s2 + 1\<rparr>))"

definition idna_toascii_label ::
  "memory \<Rightarrow> addr \<Rightarrow> addr \<Rightarrow> nat \<Rightarrow> byte list \<Rightarrow> (int \<times> byte list) option" where
  "idna_toascii_label m s se cap out =
     do {
       cs \<leftarrow> codepoints m s se;
       case idna_count cs 0 0 of
         None \<Rightarrow> Some (UV_EINVAL, out)
       | Some (h, todo) \<Rightarrow>
           let out1 = (if 0 < todo then fold (out_put cap) [120, 110, 45, 45] out else out);
               out2 = idna_ascii cap h cs 0 out1
           in
           if todo = 0 then Some (sint h, out2)
           else
             let out3 = (if 0 < h then out_put cap 45 out2 else out2)
             in idna_loop cap cs 128
                  \<lparr>id_h = h, id_bias = 72, id_delta = 0, id_first = True, id_todo = todo, id_out = out3\<rparr>
     }"

section \<open>Host names\<close>

definition is_label_end :: "u32 \<Rightarrow> bool" where
  "is_label_end c \<longleftrightarrow> c = 46 \<or> c = 0x3002 \<or> c = 0xFF0E \<or> c = 0xFF61"

text \<open>The result is the number of bytes written, or a negative error, and the output.\<close>

partial_function (option) idna_scan ::
  "memory \<Rightarrow> addr \<Rightarrow> addr \<Rightarrow> addr \<Rightarrow> nat \<Rightarrow> byte list \<Rightarrow> (int \<times> byte list) option" where
  "idna_scan m s si se cap out =
     (if si < se then
        (if \<not> is_label_end (fst (uv__utf8_decode1 m si se))
         then idna_scan m s (snd (uv__utf8_decode1 m si se)) se cap out
         else do {
           r \<leftarrow> idna_toascii_label m s si cap out;
           if fst r < 0 then Some r
           else idna_scan m (snd (uv__utf8_decode1 m si se)) (snd (uv__utf8_decode1 m si se)) se cap
                  (out_put cap 46 (snd r))
         })
      else do {
        r \<leftarrow> (if s < se then idna_toascii_label m s se cap out else Some (0, out));
        if fst r < 0 then Some r
        else let out' = out_put cap 0 (snd r) in Some (int (length out'), out')
      })"

definition uv__idna_toascii :: "memory \<Rightarrow> addr \<Rightarrow> addr \<Rightarrow> nat \<Rightarrow> (int \<times> byte list) option" where
  "uv__idna_toascii m s se cap = idna_scan m s s se cap []"

end
