(* ===== verification/Uv_Utf8_Facts.thy ===== *)
theory Uv_Utf8_Facts
  imports Uv_Idna
begin

text \<open>
  Facts about the UTF-8 decoder of \<open>idna.c\<close>: the encoding of RFC 3629, the decoder inverts it,
  and what the decoder returns is a code point with exactly the bytes stepped over.
\<close>

section \<open>UTF-8\<close>

lemma bit_192 [simp]: "bit (192 :: int) n \<longleftrightarrow> n = 6 \<or> n = 7"
proof -
  have e: "(192 :: int) = 2 ^ 6 OR 2 ^ 7" by simp
  show ?thesis unfolding e bit_or_iff bit_exp_iff by auto
qed

lemma bit_31 [simp]: "bit (31 :: int) n \<longleftrightarrow> n < 5"
proof -
  have e: "(31 :: int) = mask 5" by (simp add: mask_eq_exp_minus_1)
  show ?thesis unfolding e by (simp add: bit_mask_iff)
qed

text \<open>The encoding of a code point in UTF-8 (RFC 3629), and which code points have one.\<close>

definition cont_byte :: "nat \<Rightarrow> u32 \<Rightarrow> byte" where
  "cont_byte i c = 0x80 OR (ucast (drop_bit (6 * i) c) AND 0x3F)"

definition utf8_enc :: "u32 \<Rightarrow> byte list" where
  "utf8_enc c =
     (if c < 0x80 then [ucast c]
      else if c < 0x800 then [0xC0 OR ucast (drop_bit 6 c), cont_byte 0 c]
      else if c < 0x10000 then [0xE0 OR ucast (drop_bit 12 c), cont_byte 1 c, cont_byte 0 c]
      else [0xF0 OR ucast (drop_bit 18 c), cont_byte 2 c, cont_byte 1 c, cont_byte 0 c])"

definition is_scalar :: "u32 \<Rightarrow> bool" where
  "is_scalar c \<longleftrightarrow> c \<le> 0x10FFFF \<and> \<not> (0xD800 \<le> c \<and> c \<le> 0xDFFF)"

lemma ucast_cont: "(ucast (cont_byte i c) :: u32) = 0x80 OR (drop_bit (6 * i) c AND 63)"
  unfolding cont_byte_def
  by (intro bit_word_eqI) (auto simp: bit_simps)

lemma cont_bits:
  "0xC0 AND ((0x80 OR (b AND 63)) XOR (0x80 OR (c AND 63)) XOR (0x80 OR (d AND 63))) = (0x80 :: u32)"
  "(0x80 OR (b AND 63)) AND 63 = (b AND 63 :: u32)"
  by (intro bit_word_eqI; auto simp: bit_simps)+

lemma utf8_check_cont:
  "utf8_check lo a (0x80 OR (b AND 63)) (0x80 OR (c AND 63)) (0x80 OR (d AND 63)) =
    (let r = push_bit 18 a OR push_bit 12 (b AND 63) OR push_bit 6 (c AND 63) OR (d AND 63) in
      if r < lo then - 1 else if is_scalar r then r else - 1)"
  unfolding utf8_check_def cont_bits by (auto simp: Let_def is_scalar_def)

lemmas bits_only = bit_or_iff bit_and_iff bit_push_bit_iff bit_drop_bit_eq comp_apply

lemma bit_bound: "unat c < 2 ^ m \<Longrightarrow> bit c n \<Longrightarrow> n < m" for c :: "'a :: len word"
  unfolding unat_less_exp_iff by (meson not_le)

lemma bit_masks_32 [simp]: "bit (63 :: u32) n \<longleftrightarrow> n < 6" "bit (7 :: u32) n \<longleftrightarrow> n < 3"
  by (auto simp: bit_simps)

lemma assemble:
  fixes c :: u32
  shows "unat c < 2 ^ 11 \<Longrightarrow>
      push_bit 18 0 OR push_bit 12 (0 AND 63) OR push_bit 6 (drop_bit 6 c AND 63) OR (c AND 63) = c" (is "?a \<Longrightarrow> ?A")
    and "unat c < 2 ^ 16 \<Longrightarrow>
      push_bit 18 0 OR push_bit 12 (drop_bit 12 c AND 63) OR push_bit 6 (drop_bit 6 c AND 63) OR (c AND 63) = c" (is "?b \<Longrightarrow> ?B")
    and "unat c < 2 ^ 21 \<Longrightarrow>
      push_bit 18 (drop_bit 18 c AND 7) OR push_bit 12 (drop_bit 12 c AND 63) OR push_bit 6 (drop_bit 6 c AND 63) OR
      (c AND 63) = c" (is "?c \<Longrightarrow> ?C")
proof -
  assume l: ?a
  show ?A
  proof (rule bit_word_eqI)
    fix n
    show "bit (push_bit 18 0 OR push_bit 12 (0 AND 63) OR push_bit 6 (drop_bit 6 c AND 63) OR (c AND 63)) n = bit c n"
      using bit_bound [OF l, of n] by (cases "n < 6") (simp_all only: bits_only bit_masks_32, auto dest: bit_imp_le_length)
  qed
next
  assume l: ?b
  show ?B
  proof (rule bit_word_eqI)
    fix n
    show "bit (push_bit 18 0 OR push_bit 12 (drop_bit 12 c AND 63) OR push_bit 6 (drop_bit 6 c AND 63) OR (c AND 63)) n = bit c n"
      using bit_bound [OF l, of n] by (cases "n < 6"; cases "n < 12") (simp_all only: bits_only bit_masks_32, auto dest: bit_imp_le_length)
  qed
next
  assume l: ?c
  show ?C
  proof (rule bit_word_eqI)
    fix n
    show "bit (push_bit 18 (drop_bit 18 c AND 7) OR push_bit 12 (drop_bit 12 c AND 63) OR push_bit 6 (drop_bit 6 c AND 63) OR
      (c AND 63)) n = bit c n"
      using bit_bound [OF l, of n] by (cases "n < 6"; cases "n < 12"; cases "n < 18") (simp_all only: bits_only bit_masks_32, auto dest: bit_imp_le_length)
  qed
qed


lemma bit_lead [simp]: "bit (224 :: int) n \<longleftrightarrow> n = 5 \<or> n = 6 \<or> n = 7" "bit (240 :: int) n \<longleftrightarrow> n = 4 \<or> n = 5 \<or> n = 6 \<or> n = 7"
proof -
  have e: "(224 :: int) = 2 ^ 5 OR 2 ^ 6 OR 2 ^ 7" "(240 :: int) = 2 ^ 4 OR 2 ^ 5 OR 2 ^ 6 OR 2 ^ 7" by simp_all
  show "bit (224 :: int) n \<longleftrightarrow> n = 5 \<or> n = 6 \<or> n = 7" "bit (240 :: int) n \<longleftrightarrow> n = 4 \<or> n = 5 \<or> n = 6 \<or> n = 7"
    unfolding e bit_or_iff bit_exp_iff by auto
qed

lemma lead_byte:
  fixes x :: u32
  shows "unat x < 2 ^ 5 \<Longrightarrow> unat (0xC0 OR x) = 0xC0 + unat x \<and> (0xC0 OR x) AND 31 = x AND 63 \<and> ucast (0xC0 OR ucast x :: byte) = 0xC0 OR x"
    and "unat x < 2 ^ 4 \<Longrightarrow> unat (0xE0 OR x) = 0xE0 + unat x \<and> (0xE0 OR x) AND 15 = x AND 63 \<and> ucast (0xE0 OR ucast x :: byte) = 0xE0 OR x"
    and "unat x < 2 ^ 3 \<Longrightarrow> unat (0xF0 OR x) = 0xF0 + unat x \<and> (0xF0 OR x) AND 7 = x AND 7 \<and> ucast (0xF0 OR ucast x :: byte) = 0xF0 OR x"
proof -
  {
    fix L :: u32 and k :: nat assume x: "unat x < 2 ^ k" and L: "L AND x = 0" "unat L + 2 ^ k < 2 ^ 32"
    have "unat (L OR x) = unat L + unat x"
      using x L(2) by (simp add: disjunctive_add_eq_or [OF L(1), symmetric] unat_plus_if')
  }
  note add = this
  {
    assume x: "unat x < 2 ^ 5"
    note b = bit_bound [OF x]
    have "0xC0 AND x = 0" by (intro bit_word_eqI) (auto simp: bit_simps dest: b)
    moreover have "(0xC0 OR x) AND 31 = x AND 63" "ucast (0xC0 OR ucast x :: byte) = 0xC0 OR x"
      by (intro bit_word_eqI; auto simp: bit_simps dest: b)+
    ultimately show "unat (0xC0 OR x) = 0xC0 + unat x \<and> (0xC0 OR x) AND 31 = x AND 63 \<and> ucast (0xC0 OR ucast x :: byte) = 0xC0 OR x"
      using add [OF x, of "0xC0"] by simp
  next
    assume x: "unat x < 2 ^ 4"
    note b = bit_bound [OF x]
    have "0xE0 AND x = 0" by (intro bit_word_eqI) (auto simp: bit_simps dest: b)
    moreover have "(0xE0 OR x) AND 15 = x AND 63" "ucast (0xE0 OR ucast x :: byte) = 0xE0 OR x"
      by (intro bit_word_eqI; auto simp: bit_simps dest: b)+
    ultimately show "unat (0xE0 OR x) = 0xE0 + unat x \<and> (0xE0 OR x) AND 15 = x AND 63 \<and> ucast (0xE0 OR ucast x :: byte) = 0xE0 OR x"
      using add [OF x, of "0xE0"] by simp
  next
    assume x: "unat x < 2 ^ 3"
    note b = bit_bound [OF x]
    have "0xF0 AND x = 0" by (intro bit_word_eqI) (auto simp: bit_simps dest: b)
    moreover have "(0xF0 OR x) AND 7 = x AND 7" "ucast (0xF0 OR ucast x :: byte) = 0xF0 OR x"
      by (intro bit_word_eqI; auto simp: bit_simps dest: b)+
    ultimately show "unat (0xF0 OR x) = 0xF0 + unat x \<and> (0xF0 OR x) AND 7 = x AND 7 \<and> ucast (0xF0 OR ucast x :: byte) = 0xF0 OR x"
      using add [OF x, of "0xF0"] by simp
  }
qed

lemma utf8_decode_enc:
  assumes c: "is_scalar c" and p: "p < pe" "pe \<noteq> - 1"
    and m: "load_bytes m p (length (utf8_enc c)) = utf8_enc c"
  shows "uv__utf8_decode1 m p pe = (c, p + of_nat (length (utf8_enc c)))"
proof -
  have diff: "p + 1 - pe \<noteq> 1" "p + 1 - pe \<noteq> 2"
  proof -
    show "p + 1 - pe \<noteq> 1" using p(1) by (auto simp: algebra_simps)
    show "p + 1 - pe \<noteq> 2"
    proof
      assume "p + 1 - pe = 2"
      then have "p = pe + 1" by (simp add: algebra_simps)
      moreover have "1 + pe \<noteq> 0" using p(2) by (metis add.commute eq_neg_iff_add_eq_0)
      then have "unat (1 + pe) = Suc (unat pe)" by (rule unatSuc)
      ultimately show False using p(1) by (simp add: word_less_nat_alt add.commute)
    qed
  qed
  consider (1) "c < 0x80" | (2) "0x80 \<le> c" "c < 0x800" | (3) "0x800 \<le> c" "c < 0x10000" | (4) "0x10000 \<le> c" by fastforce
  then show ?thesis
  proof cases
    case 1
    then have "utf8_enc c = [ucast c]" by (simp add: utf8_enc_def)
    then have "m p = ucast c" using m by simp
    moreover have "unat c < 2 ^ 7" using 1 by (simp add: word_less_nat_alt)
    note b = bit_bound [OF this]
    have "ucast (ucast c :: byte) = c" by (intro bit_word_eqI) (auto simp: bit_simps dest: b)
    ultimately show ?thesis using 1 by (simp add: uv__utf8_decode1_def utf8_enc_def)
  next
    case 2
    then have l: "unat c < 2 ^ 11" "unat (drop_bit 6 c) < 2 ^ 5" "\<not> c < 0x80"
      by (auto simp: word_less_nat_alt word_le_nat_alt unat_drop_bit_eq drop_bit_eq_div unat_div)
    define a where "a = (0xC0 OR drop_bit 6 c :: u32)"
    have e: "utf8_enc c = [0xC0 OR ucast (drop_bit 6 c), cont_byte 0 c]" using 2 l(3) by (simp add: utf8_enc_def)
    have b: "ucast (m p) = a" "ucast (m (p + 1)) = 0x80 OR (c AND 63)"
      using m lead_byte(1) [OF l(2)] by (simp_all add: e a_def ucast_cont)
    have a: "\<not> a < 128" "\<not> 0xF7 < a" "\<not> 0xEF < a" "\<not> 0xDF < a" "0xBF < a" "a AND 31 = drop_bit 6 c AND 63"
      using lead_byte(1) [OF l(2)] l(2) by (auto simp: a_def word_less_nat_alt)
    have "uv__utf8_decode1 m p pe =
        (utf8_check 0x80 0 (0x80 OR (0 AND 63)) (0x80 OR (drop_bit 6 c AND 63)) (0x80 OR (c AND 63)), p + 1 + 1)"
      by (simp add: uv__utf8_decode1_def uv__utf8_decode1_slow_def Let_def a b diff)
    then show ?thesis
      using c l(3) unfolding utf8_check_cont assemble(1) [OF l(1)] by (simp add: e Let_def not_less)
  next
    case 3
    then have l: "unat c < 2 ^ 16" "unat (drop_bit 12 c) < 2 ^ 4" "\<not> c < 0x80" "\<not> c < 0x800"
      by (auto simp: word_less_nat_alt unat_drop_bit_eq drop_bit_eq_div word_le_nat_alt unat_div)
    define a where "a = (0xE0 OR drop_bit 12 c :: u32)"
    have e: "utf8_enc c = [0xE0 OR ucast (drop_bit 12 c), cont_byte 1 c, cont_byte 0 c]" using 3 l by (simp add: utf8_enc_def)
    have b: "ucast (m p) = a" "ucast (m (p + 1)) = 0x80 OR (drop_bit 6 c AND 63)" "ucast (m (2 + p)) = 0x80 OR (c AND 63)"
      using m lead_byte(2) [OF l(2)] by (simp_all add: e a_def ucast_cont)
    have a: "\<not> a < 128" "\<not> 0xF7 < a" "\<not> 0xEF < a" "0xDF < a" "a AND 15 = drop_bit 12 c AND 63"
      using lead_byte(2) [OF l(2)] l(2) by (auto simp: a_def word_less_nat_alt)
    have "uv__utf8_decode1 m p pe =
        (utf8_check 0x800 0 (0x80 OR (drop_bit 12 c AND 63)) (0x80 OR (drop_bit 6 c AND 63)) (0x80 OR (c AND 63)), p + 1 + 2)"
      by (simp add: uv__utf8_decode1_def uv__utf8_decode1_slow_def Let_def a b diff)
    then show ?thesis
      using c l(4) unfolding utf8_check_cont assemble(2) [OF l(1)] by (simp add: e Let_def not_less)
  next
    case 4
    have "c \<le> 0x10FFFF" using c by (simp add: is_scalar_def)
    then have l: "unat c < 2 ^ 21" "unat (drop_bit 18 c) < 2 ^ 3" "\<not> c < 0x80" "\<not> c < 0x800" "\<not> c < 0x10000"
      using 4 by (auto simp: word_less_nat_alt unat_drop_bit_eq drop_bit_eq_div word_le_nat_alt unat_div)
    define a where "a = (0xF0 OR drop_bit 18 c :: u32)"
    have e: "utf8_enc c = [0xF0 OR ucast (drop_bit 18 c), cont_byte 2 c, cont_byte 1 c, cont_byte 0 c]" using l by (simp add: utf8_enc_def)
    have b: "ucast (m p) = a" "ucast (m (p + 1)) = 0x80 OR (drop_bit 12 c AND 63)"
      "ucast (m (2 + p)) = 0x80 OR (drop_bit 6 c AND 63)" "ucast (m (3 + p)) = 0x80 OR (c AND 63)"
      using m lead_byte(3) [OF l(2)] by (simp_all add: e a_def ucast_cont)
    have "unat (drop_bit 18 c) \<le> 4" using \<open>c \<le> 0x10FFFF\<close> by (auto simp: unat_drop_bit_eq drop_bit_eq_div word_le_nat_alt unat_div)
    then have a: "\<not> a < 128" "\<not> 0xF7 < a" "0xEF < a" "a AND 7 = drop_bit 18 c AND 7"
      using lead_byte(3) [OF l(2)] l(2) by (auto simp: a_def word_less_nat_alt)
    have "uv__utf8_decode1 m p pe =
        (utf8_check 0x10000 (drop_bit 18 c AND 7) (0x80 OR (drop_bit 12 c AND 63)) (0x80 OR (drop_bit 6 c AND 63)) (0x80 OR (c AND 63)), p + 1 + 3)"
      by (simp add: uv__utf8_decode1_def uv__utf8_decode1_slow_def Let_def a b diff)
    then show ?thesis
      using c l(5) unfolding utf8_check_cont assemble(3) [OF l(1)] by (simp add: e Let_def not_less)
  qed
qed


text \<open>What the decoder returns is a code point, as long as its encoding says.\<close>

lemma bit_15_32 [simp]: "bit (15 :: u32) n \<longleftrightarrow> n < 4" "bit (31 :: u32) n \<longleftrightarrow> n < 5"
  by (auto simp: bit_simps)

lemma utf8_check_value:
  assumes "utf8_check lo a b x y \<noteq> - 1"
  shows "is_scalar (utf8_check lo a b x y)" "lo \<le> utf8_check lo a b x y"
    "utf8_check lo a b x y = push_bit 18 a OR push_bit 12 (b AND 63) OR push_bit 6 (x AND 63) OR (y AND 63)"
  using assms by (auto simp: utf8_check_def Let_def is_scalar_def not_less split: if_splits)

lemma assemble_bound:
  fixes a d :: u32
  shows "unat (push_bit 18 0 OR push_bit 12 (0x80 AND 63) OR push_bit 6 ((0x80 OR (a AND 31)) AND 63) OR (d AND 63)) < 2 ^ 11"
    and "unat (push_bit 18 0 OR push_bit 12 ((0x80 OR (a AND 15)) AND 63) OR push_bit 6 (x AND 63) OR (d AND 63)) < 2 ^ 16"
proof -
  have m: "(0x80 AND 63 :: u32) = 0" "(0x80 OR (a AND 31)) AND 63 = a AND 31" "(0x80 OR (a AND 15)) AND 63 = a AND 15"
    by (simp, (intro bit_word_eqI; auto simp: bit_simps)+)
  show "unat (push_bit 18 0 OR push_bit 12 (0x80 AND 63) OR push_bit 6 ((0x80 OR (a AND 31)) AND 63) OR (d AND 63)) < 2 ^ 11"
    unfolding m unat_less_exp_iff by (simp only: bits_only bit_masks_32 bit_15_32) auto
  show "unat (push_bit 18 0 OR push_bit 12 ((0x80 OR (a AND 15)) AND 63) OR push_bit 6 (x AND 63) OR (d AND 63)) < 2 ^ 16"
    unfolding m unat_less_exp_iff by (simp only: bits_only bit_masks_32 bit_15_32) auto
qed

lemma utf8_decode_sound:
  assumes d: "uv__utf8_decode1 m p pe = (c, p')" "c \<noteq> - 1"
  shows "is_scalar c \<and> p' = p + of_nat (length (utf8_enc c))"
proof -
  define a where "a = (ucast (m p) :: u32)"
  show ?thesis
  proof (cases "a < 128")
    case True
    then have "c = a" "p' = p + 1" using d by (auto simp: uv__utf8_decode1_def Let_def a_def)
    then show ?thesis using True by (auto simp: is_scalar_def utf8_enc_def word_less_nat_alt word_le_nat_alt)
  next
    case False
    then have s: "uv__utf8_decode1_slow m (p + 1) pe a = (c, p')"
      using d(1) by (simp add: uv__utf8_decode1_def Let_def a_def)
    have l2: "length (utf8_enc c) = 2" if "c = utf8_check 0x80 0 0x80 (0x80 OR (a AND 31)) y" for y
    proof -
      note v = utf8_check_value [of "0x80" 0 "0x80" "0x80 OR (a AND 31)" y, folded that, OF d(2)]
      have "unat c < 2 ^ 11" by (subst v(3)) (rule assemble_bound)
      then show ?thesis using v(2) by (auto simp: utf8_enc_def word_less_nat_alt word_le_nat_alt)
    qed
    have l3: "length (utf8_enc c) = 3" if "c = utf8_check 0x800 0 (0x80 OR (a AND 15)) x y" for x y
    proof -
      note v = utf8_check_value [of "0x800" 0 "0x80 OR (a AND 15)" x y, folded that, OF d(2)]
      have "unat c < 2 ^ 16" by (subst v(3)) (rule assemble_bound)
      then show ?thesis using v(2) by (auto simp: utf8_enc_def word_less_nat_alt word_le_nat_alt)
    qed
    have l4: "length (utf8_enc c) = 4" if "c = utf8_check 0x10000 (a AND 7) w x y" for w x y
    proof -
      note v = utf8_check_value [of "0x10000" "a AND 7" w x y, folded that, OF d(2)]
      then show ?thesis by (auto simp: utf8_enc_def word_less_nat_alt word_le_nat_alt)
    qed
    have sc: "is_scalar c" if "c = utf8_check lo e w x y" for lo e w x y
      using utf8_check_value(1) [of lo e w x y] d(2) that by simp
    show ?thesis
      using s d(2) l2 l3 l4 sc unfolding uv__utf8_decode1_slow_def Let_def
      by (auto split: if_splits)
  qed
qed

end
