(* ===== verification/Uv_Idna_Facts.thy ===== *)
theory Uv_Idna_Facts
  imports Uv_Utf8_Facts
begin

text \<open>
  Facts about host-name conversion (\<open>idna.c\<close>): every loop ends, the output stays in its buffer
  and is ASCII, and ASCII names come out unchanged.  The properties of the UTF-8 decoder and of
  \<open>uv__idna_toascii\<close> are at the end.
\<close>

section \<open>Reading a label\<close>

lemma utf8_advance: "\<exists>k. 1 \<le> k \<and> k \<le> 4 \<and> snd (uv__utf8_decode1 m p pe) = p + of_nat k"
proof -
  let ?q = "snd (uv__utf8_decode1 m p pe)"
  consider "?q = p + 1" | "?q = p + 2" | "?q = p + 3" | "?q = p + 4"
    by (atomize_elim, simp add: uv__utf8_decode1_def uv__utf8_decode1_slow_def Let_def)
  then show ?thesis
  proof cases
    case 1 then show ?thesis by (intro exI [of _ 1]) simp
  next
    case 2 then show ?thesis by (intro exI [of _ 2]) simp
  next
    case 3 then show ?thesis by (intro exI [of _ 3]) simp
  next
    case 4 then show ?thesis by (intro exI [of _ 4]) simp
  qed
qed

lemma utf8_advance_unat:
  assumes "p \<le> pe" "unat pe + 4 < 2 ^ 64"
  shows "unat p < unat (snd (uv__utf8_decode1 m p pe))"
proof -
  obtain k where k: "1 \<le> k" "k \<le> 4" "snd (uv__utf8_decode1 m p pe) = p + of_nat k" using utf8_advance by blast
  have "unat p + k < 2 ^ 64" using assms k(2) by (simp add: word_le_nat_alt)
  then have "unat (p + of_nat k) = unat p + k" using k(2) by (simp add: unat_word_ariths unat_of_nat)
  then show ?thesis using k by simp
qed

lemma codepoints_total:
  assumes "unat pe + 4 < 2 ^ 64"
  shows "\<exists>cs. codepoints m p pe = Some cs \<and> length cs \<le> unat pe - unat p"
proof (induction "unat pe + 1 - unat p" arbitrary: p rule: less_induct)
  case less
  let ?q = "snd (uv__utf8_decode1 m p pe)"
  show ?case
  proof (cases "pe < p \<or> pe < ?q")
    case True
    then show ?thesis by (subst codepoints.simps) auto
  next
    case False
    then have p: "p \<le> pe" "?q \<le> pe" by auto
    have q: "unat p < unat ?q" by (rule utf8_advance_unat [OF p(1) assms])
    moreover have "unat ?q \<le> unat pe" "unat p \<le> unat pe" using p by (simp_all add: word_le_nat_alt)
    ultimately have "unat pe + 1 - unat ?q < unat pe + 1 - unat p" by linarith
    from less.hyps [OF this] obtain cs where "codepoints m ?q pe = Some cs" "length cs \<le> unat pe - unat ?q" by blast
    then show ?thesis using False q \<open>unat ?q \<le> unat pe\<close> by (subst codepoints.simps) simp
  qed
qed

section \<open>The output\<close>

definition out_ok :: "nat \<Rightarrow> byte list \<Rightarrow> bool" where
  "out_ok cap out \<longleftrightarrow> length out \<le> cap \<and> (\<forall>b \<in> set out. b < 128)"

lemma out_put_ok [simp]: "out_ok cap out \<Longrightarrow> c < 128 \<Longrightarrow> out_ok cap (out_put cap c out)"
  by (auto simp: out_ok_def out_put_def)

lemma alphabet_ascii: "t < 36 \<Longrightarrow> idna_alphabet t < 128"
proof -
  assume "t < 36"
  then have "unat t < 36" by (simp add: word_less_nat_alt)
  then have "t = of_nat (unat t) \<and> unat t \<in> set [0..<36]" by simp
  moreover have "\<forall>n \<in> set [0..<36]. idna_alphabet (of_nat n) < 128"
    by (simp add: upt_rec idna_alphabet_def)
  ultimately show ?thesis by metis
qed

lemma idna_digits_ok: "out_ok cap out \<Longrightarrow> out_ok cap (idna_digits cap bias k q out)"
proof (induction cap bias k q out rule: idna_digits.induct)
  case (1 cap bias k q out)
  let ?t = "idna_threshold k bias"
  have t: "1 \<le> ?t" "?t \<le> 26" by (rule idna_threshold_bounds)+
  show ?case
  proof (cases "q < ?t")
    case True
    then have "q < 36" using t(2) by (simp add: word_less_nat_alt word_le_nat_alt)
    then show ?thesis using 1(2) True by (subst idna_digits.simps) (simp add: Let_def alphabet_ascii)
  next
    case False
    have "unat ?t \<le> 26" "1 \<le> unat ?t" using t by (simp_all add: word_le_nat_alt)
    then have y: "unat (36 - ?t) = 36 - unat ?t" by (subst unat_sub) (simp_all add: word_le_nat_alt)
    have "unat ((q - ?t) mod (36 - ?t)) < 36 - unat ?t"
      using \<open>unat ?t \<le> 26\<close> by (simp add: unat_mod y)
    then have "unat ?t + unat ((q - ?t) mod (36 - ?t)) < 36" using \<open>unat ?t \<le> 26\<close> by linarith
    then have "unat (?t + (q - ?t) mod (36 - ?t)) < 36" by (simp add: unat_plus_if')
    then have "?t + (q - ?t) mod (36 - ?t) < 36" by (simp add: word_less_nat_alt)
    then show ?thesis using False 1 by (subst idna_digits.simps) (simp add: Let_def alphabet_ascii)
  qed
qed

lemma idna_adapt_sel [simp]: "id_out (idna_adapt s) = id_out s" "id_todo (idna_adapt s) = id_todo s - 1"
  by (simp_all add: idna_adapt_def Let_def split_beta)

lemma idna_pass_todo:
  "id_out s = out \<Longrightarrow> out_ok cap out \<Longrightarrow> idna_pass cap n cs s = (ok, s') \<Longrightarrow>
    out_ok cap (id_out s') \<and> (ok \<longrightarrow> id_todo s' = id_todo s - of_nat (length (filter ((=) n) cs)))"
proof (induction cs arbitrary: s out)
  case (Cons c cs)
  define s1 where "s1 = (if c < n then s\<lparr>id_delta := id_delta s + 1\<rparr> else s)"
  have s1: "id_out s1 = out" "id_todo s1 = id_todo s" using Cons.prems(1) by (auto simp: s1_def)
  show ?case
  proof (cases "c < n \<and> id_delta s1 = 0")
    case True
    then show ?thesis using Cons.prems s1 by (auto simp: s1_def Let_def)
  next
    case F: False
    show ?thesis
    proof (cases "c = n")
      case True
      define s2 where "s2 = idna_adapt (s1\<lparr>id_out := idna_digits cap (id_bias s1) 36 (id_delta s1) (id_out s1)\<rparr>)"
      have "out_ok cap (id_out s2)" using Cons.prems(2) s1 by (simp add: s2_def idna_digits_ok)
      moreover have "idna_pass cap n cs s2 = (ok, s')" using Cons.prems(3) F True by (simp add: s1_def s2_def Let_def)
      ultimately show ?thesis using Cons.IH [of s2 "id_out s2"] True s1 by (simp add: s2_def algebra_simps)
    next
      case False
      then have "idna_pass cap n cs s1 = (ok, s')" using Cons.prems(3) F by (auto simp: s1_def Let_def split: if_splits)
      from Cons.IH [OF s1(1) Cons.prems(2) this] False s1 show ?thesis by auto
    qed
  qed
qed auto

lemma idna_count_spec:
  assumes "idna_count cs h todo = Some (h', todo')"
  shows "- 1 \<notin> set cs \<and> h' = h + of_nat (length (filter (\<lambda>c. c < 128) cs)) \<and>
    todo' = todo + of_nat (length (filter (\<lambda>c. 128 \<le> c) cs))"
  using assms
proof (induction cs arbitrary: h todo)
  case (Cons c cs)
  have "\<not> (- 1 :: u32) < 128" by (simp add: word_less_nat_alt unsigned_minus_1_eq_mask mask_eq_exp_minus_1)
  with Cons show ?case by (fastforce split: if_splits simp: not_less algebra_simps)
qed simp

text \<open>The next code point to handle.\<close>

lemma idna_min_fold:
  fixes n :: u32
  shows "(let x = fold (\<lambda>c m. if n \<le> c \<and> c < m then c else m) cs m0 in
     x \<le> m0 \<and> (\<forall>c \<in> set cs. n \<le> c \<longrightarrow> x \<le> c) \<and> (x = m0 \<or> x \<in> set cs \<and> n \<le> x))"
proof (induction cs arbitrary: m0)
  case (Cons c cs)
  define m1 where "m1 = (if n \<le> c \<and> c < m0 then c else m0)"
  define x where "x = fold (\<lambda>c m. if n \<le> c \<and> c < m then c else m) cs m1"
  have IH: "x \<le> m1" "\<forall>c \<in> set cs. n \<le> c \<longrightarrow> x \<le> c" "x = m1 \<or> x \<in> set cs \<and> n \<le> x"
    using Cons.IH [of m1] by (simp_all add: x_def Let_def)
  have m1: "m1 \<le> m0" "n \<le> c \<longrightarrow> m1 \<le> c" "m1 = m0 \<or> m1 = c \<and> n \<le> c" by (auto simp: m1_def)
  have "x \<le> m0" "n \<le> c \<longrightarrow> x \<le> c" using IH(1) m1(1,2) order_trans by blast+
  moreover have "x = m0 \<or> x \<in> set (c # cs) \<and> n \<le> x" using IH(3) m1(3) by auto
  ultimately show ?case using IH(2) by (simp add: x_def m1_def Let_def)
qed simp

lemma idna_min_spec:
  assumes "- 1 \<notin> set cs" "c0 \<in> set cs" "n \<le> c0"
  shows "idna_min n cs \<in> set cs" "n \<le> idna_min n cs" "\<And>c. c \<in> set cs \<Longrightarrow> n \<le> c \<Longrightarrow> idna_min n cs \<le> c"
proof -
  note f = idna_min_fold [of n cs "- 1", folded idna_min_def, unfolded Let_def]
  have "idna_min n cs \<le> c0" using f assms by blast
  then have "idna_min n cs \<noteq> - 1" using assms(1,2) by (metis word_order.extremum_uniqueI)
  then show "idna_min n cs \<in> set cs" "n \<le> idna_min n cs" "\<And>c. c \<in> set cs \<Longrightarrow> n \<le> c \<Longrightarrow> idna_min n cs \<le> c"
    using f by blast+
qed

lemma le_succ_iff: "m \<noteq> - 1 \<Longrightarrow> m + 1 \<le> c \<longleftrightarrow> m < c" for c :: u32
proof -
  assume "m \<noteq> - 1"
  then have "1 + m \<noteq> 0" by (metis add.commute eq_neg_iff_add_eq_0)
  then have "unat (1 + m) = Suc (unat m)" by (rule unatSuc)
  then show ?thesis by (simp add: word_le_nat_alt word_less_nat_alt add.commute Suc_le_eq)
qed

lemma filter_split:
  fixes m n :: u32
  assumes "m \<noteq> - 1" "\<And>c. c \<in> set cs \<Longrightarrow> n \<le> c \<Longrightarrow> m \<le> c" "n \<le> m"
  shows "length (filter (\<lambda>c. n \<le> c) cs) = length (filter ((=) m) cs) + length (filter (\<lambda>c. m + 1 \<le> c) cs)"
  using assms(2)
proof (induction cs)
  case (Cons c cs)
  have "n \<le> c \<longleftrightarrow> m \<le> c" using Cons.prems [of c] order_trans [OF assms(3)] by auto
  then have "n \<le> c \<longleftrightarrow> m = c \<or> m < c" by (simp add: order_le_less disj_commute)
  then show ?case using Cons by (auto simp: le_succ_iff [OF assms(1)])
qed simp

lemma idna_loop_total:
  assumes "- 1 \<notin> set cs" "length cs < 2 ^ 32"
  shows "unat (id_todo s) = length (filter (\<lambda>c. n \<le> c) cs) \<Longrightarrow> out_ok cap (id_out s) \<Longrightarrow>
    \<exists>r. idna_loop cap cs n s = Some r \<and> out_ok cap (snd r)"
proof (induction "unat (id_todo s)" arbitrary: s n rule: less_induct)
  case less
  show ?case
  proof (cases "id_todo s = 0")
    case True
    then show ?thesis using less.prems by (subst idna_loop.simps) simp
  next
    case False
    define m where "m = idna_min n cs"
    define s1 where "s1 = s\<lparr>id_delta := id_delta s + (m - n) * (id_h s + 1)\<rparr>"
    obtain ok s2 where p: "idna_pass cap m cs s1 = (ok, s2)" by fastforce
    have s1: "id_out s1 = id_out s" "id_todo s1 = id_todo s" by (simp_all add: s1_def)
    note P = idna_pass_todo [OF s1(1) less.prems(2) p]
    from False less.prems(1) obtain c0 where "c0 \<in> set cs" "n \<le> c0"
      by (metis filter_False list.size(3) unat_eq_0)
    note M = idna_min_spec [OF assms(1) this, folded m_def]
    have m: "m \<noteq> - 1" using M(1) assms(1) by auto
    define K where "K = length (filter ((=) m) cs)"
    define R where "R = length (filter (\<lambda>c. m + 1 \<le> c) cs)"
    have S: "length (filter (\<lambda>c. n \<le> c) cs) = K + R"
      unfolding K_def R_def using M(2,3) by (intro filter_split [OF m])
    have "0 < K" using M(1) unfolding K_def by (induction cs) auto
    moreover have "K < 2 ^ 32" unfolding K_def using assms(2) by (metis length_filter_le order_le_less_trans)
    then have "unat (of_nat K :: u32) = K" by (simp add: unat_of_nat)
    moreover have "id_todo s2 = id_todo s - of_nat K" if ok using that P s1(2) by (simp add: K_def)
    ultimately have t: "unat (id_todo s2) = R" "unat (id_todo s2) < unat (id_todo s)" if ok
      using that less.prems(1) unfolding S by (simp_all add: unat_sub word_le_nat_alt)
    show ?thesis
    proof (cases "NOT (id_delta s) div (id_h s + 1) < m - n \<or> \<not> ok")
      case True
      then show ?thesis using False P less.prems(2) p
        by (subst idna_loop.simps) (auto simp: Let_def m_def [symmetric] s1_def)
    next
      case cont: False
      then have "\<exists>r. idna_loop cap cs (m + 1) (s2\<lparr>id_delta := id_delta s2 + 1\<rparr>) = Some r \<and> out_ok cap (snd r)"
        using less.hyps [of "s2\<lparr>id_delta := id_delta s2 + 1\<rparr>" "m + 1"] t P by (simp add: R_def)
      then show ?thesis using False cont p
        by (subst idna_loop.simps) (simp add: Let_def m_def [symmetric] s1_def [symmetric])
    qed
  qed
qed

lemma idna_ascii_ok: "out_ok cap out \<Longrightarrow> out_ok cap (idna_ascii cap h cs x out)"
proof (induction cap h cs x out rule: idna_ascii.induct)
  case (2 cap h c cs x out)
  have "ucast c < (128 :: byte)" if "\<not> 127 < c"
  proof -
    have "unat c < 2 ^ 7" using that by (simp add: word_less_nat_alt)
    note b = bit_bound [OF this]
    then have "unat (ucast c :: byte) < 2 ^ 7" unfolding unat_less_exp_iff by (auto simp: bit_simps dest: b)
    then show ?thesis by (simp add: word_less_nat_alt)
  qed
  with 2 show ?case by (auto simp: Let_def)
qed simp

lemma idna_toascii_label_total:
  assumes "out_ok cap out" "unat se + 4 < 2 ^ 64" "unat se - unat s < 2 ^ 32"
  shows "\<exists>r. idna_toascii_label m s se cap out = Some r \<and> out_ok cap (snd r)"
proof -
  obtain cs where cs: "codepoints m s se = Some cs" "length cs \<le> unat se - unat s"
    using codepoints_total [OF assms(2)] by blast
  then have len: "length cs < 2 ^ 32" using assms(3) by linarith
  show ?thesis
  proof (cases "idna_count cs 0 0")
    case None
    then show ?thesis using cs(1) assms(1) by (simp add: idna_toascii_label_def)
  next
    case (Some ht)
    obtain h todo where ht: "ht = (h, todo)" by fastforce
    note C = idna_count_spec [OF Some [unfolded ht]]
    have "length (filter (\<lambda>c. 128 \<le> c) cs) < 2 ^ 32" using len by (metis length_filter_le order_le_less_trans)
    then have todo: "unat todo = length (filter (\<lambda>c. 128 \<le> c) cs)" using C by (simp add: unat_of_nat)
    define out1 where "out1 = (if 0 < todo then fold (out_put cap) [120, 110, 45, 45] out else out)"
    define out2 where "out2 = idna_ascii cap h cs 0 out1"
    define out3 where "out3 = (if 0 < h then out_put cap 45 out2 else out2)"
    have o: "out_ok cap out1" "out_ok cap out2" "out_ok cap out3"
      using assms(1) by (auto simp: out1_def out2_def out3_def idna_ascii_ok)
    let ?s = "\<lparr>id_h = h, id_bias = 72, id_delta = 0, id_first = True, id_todo = todo, id_out = out3\<rparr>"
    obtain r where r: "idna_loop cap cs 128 ?s = Some r" "out_ok cap (snd r)"
      using idna_loop_total [OF _ len, of ?s 128 cap] C todo o(3) by auto
    have "idna_toascii_label m s se cap out = (if todo = 0 then Some (sint h, out2) else idna_loop cap cs 128 ?s)"
      unfolding idna_toascii_label_def out3_def out2_def out1_def Let_def using cs(1) Some ht by simp
    then show ?thesis using r o(2) by (cases "todo = 0") auto
  qed
qed

section \<open>Host names\<close>

lemma idna_scan_total:
  assumes "unat se + 4 < 2 ^ 64" "unat se < unat s0 + 2 ^ 32"
  shows "out_ok cap out \<Longrightarrow> s0 \<le> s \<Longrightarrow> s0 \<le> si \<Longrightarrow> unat si < unat se + 4 \<Longrightarrow>
    \<exists>rc out'. idna_scan m s si se cap out = Some (rc, out') \<and> out_ok cap out' \<and> (0 \<le> rc \<longrightarrow> rc = int (length out'))"
proof (induction "unat se + 4 - unat si" arbitrary: s si out rule: less_induct)
  case less
  let ?q = "snd (uv__utf8_decode1 m si se)"
  have lab: "\<exists>r. idna_toascii_label m s e cap out = Some r \<and> out_ok cap (snd r)" if "unat e \<le> unat se" for e
    using that assms less.prems(1,2) by (intro idna_toascii_label_total) (auto simp: word_le_nat_alt)
  show ?case
  proof (cases "si < se")
    case True
    obtain k where k: "1 \<le> k" "k \<le> 4" "?q = si + of_nat k" using utf8_advance by blast
    have "unat si + k < 2 ^ 64" using True assms(1) k(2) by (simp add: word_less_nat_alt)
    then have u: "unat ?q = unat si + k" unfolding k(3) using k(2) by (simp add: unat_word_ariths unat_of_nat)
    have q: "s0 \<le> ?q" "unat ?q < unat se + 4" "unat se + 4 - unat ?q < unat se + 4 - unat si"
      using u k(1,2) True less.prems(3) by (auto simp: word_le_nat_alt word_less_nat_alt)
    show ?thesis
    proof (cases "is_label_end (fst (uv__utf8_decode1 m si se))")
      case False
      then show ?thesis using True less.hyps [OF q(3) less.prems(1,2) q(1,2)] by (subst idna_scan.simps) simp
    next
      case L: True
      obtain r where r: "idna_toascii_label m s si cap out = Some r" "out_ok cap (snd r)"
        using lab [of si] True by (auto simp: word_less_nat_alt)
      show ?thesis
      proof (cases "fst r < 0")
        case True
        then show ?thesis using r \<open>si < se\<close> L by (subst idna_scan.simps) (cases r, simp)
      next
        case False
        have "out_ok cap (out_put cap 46 (snd r))" using r(2) by simp
        from less.hyps [OF q(3) this q(1,1,2)] False show ?thesis
          using r(1) \<open>si < se\<close> L by (subst idna_scan.simps) simp
      qed
    qed
  next
    case False
    obtain r where r: "(if s < se then idna_toascii_label m s se cap out else Some (0, out)) = Some r" "out_ok cap (snd r)"
      using lab [of se] less.prems(1) by (cases "s < se") auto
    then show ?thesis using False by (subst idna_scan.simps) (cases r, auto simp: Let_def)
  qed
qed

section \<open>ASCII names\<close>

lemma utf8_ascii: "m p < 128 \<Longrightarrow> uv__utf8_decode1 m p pe = (ucast (m p), p + 1)"
proof -
  assume "m p < 128"
  then have l: "unat (m p) < 128" by (simp add: word_less_nat_alt)
  have "unat (ucast (m p) :: u32) = unat (m p)"
    using unsigned_less [of "m p", where 'a = nat] by (simp add: unsigned_ucast_eq take_bit_nat_eq_self)
  with l show ?thesis by (simp add: uv__utf8_decode1_def word_less_nat_alt)
qed

lemma unat_of_nat_eq_32: "k < 2 ^ 32 \<Longrightarrow> unat (of_nat k :: u32) = k"
  by (simp add: unat_of_nat)

lemma unat_add_of_nat: "unat p + n < 2 ^ 64 \<Longrightarrow> unat (p + of_nat n) = unat p + n" for p :: addr
  by (simp add: unat_word_ariths unat_of_nat)

lemma codepoints_ascii:
  assumes "\<forall>b \<in> set (load_bytes m p n). b < 128" "unat p + n + 4 < 2 ^ 64"
  shows "codepoints m p (p + of_nat n) = Some (map ucast (load_bytes m p n))"
  using assms
proof (induction n arbitrary: p)
  case 0
  have "unat p < unat (snd (uv__utf8_decode1 m p p))" using 0 by (intro utf8_advance_unat) auto
  then show ?case by (subst codepoints.simps) (simp add: word_less_nat_alt)
next
  case (Suc n)
  let ?pe = "p + of_nat (Suc n)"
  have u: "unat ?pe = unat p + Suc n" "unat (p + 1) = unat p + 1"
    using Suc.prems(2) unat_add_of_nat [of p "Suc n"] unat_add_of_nat [of p 1] by simp_all
  have d: "uv__utf8_decode1 m p ?pe = (ucast (m p), p + 1)" using Suc.prems(1) by (intro utf8_ascii) simp
  have "\<not> ?pe < p" "\<not> ?pe < p + 1" using u by (simp_all add: word_less_nat_alt)
  moreover have "codepoints m (p + 1) (p + 1 + of_nat n) = Some (map ucast (load_bytes m (p + 1) n))"
    using Suc.prems u(2) by (intro Suc.IH) auto
  ultimately show ?case using d by (subst codepoints.simps) (simp add: add.assoc)
qed

lemma idna_count_ascii:
  "\<forall>c \<in> set cs. c < 128 \<Longrightarrow> idna_count cs h todo = Some (h + of_nat (length cs), todo)"
  by (induction cs arbitrary: h) (auto simp: algebra_simps)

lemma idna_ascii_all:
  assumes "\<forall>c \<in> set cs. c < 128" "length out + length cs \<le> cap" "x + length cs < 2 ^ 32"
  shows "idna_ascii cap (of_nat (x + length cs)) cs (of_nat x) out = out @ map ucast cs"
  using assms
proof (induction cs arbitrary: x out)
  case (Cons c cs)
  have c: "\<not> 127 < c" using Cons.prems(1) by (simp add: word_less_nat_alt)
  have o: "out_put cap (ucast c) out = out @ [ucast c]" using Cons.prems(2) by (simp add: out_put_def)
  show ?case
  proof (cases "cs = []")
    case True
    then show ?thesis using c o by (simp add: Let_def)
  next
    case False
    then have "Suc x < x + length (c # cs)" by (cases cs) auto
    moreover have "unat (of_nat k :: u32) = k" if "k \<le> x + length (c # cs)" for k
      using that Cons.prems(3) by (intro unat_of_nat_eq_32) linarith
    ultimately have "(of_nat (Suc x) :: u32) \<noteq> of_nat (x + length (c # cs))" by (metis less_imp_le nat_neq_iff order_refl)
    then have "(of_nat x + 1 :: u32) \<noteq> of_nat (x + length (c # cs))" by (simp only: of_nat_Suc add.commute not_False_eq_True)
    moreover have "idna_ascii cap (of_nat (Suc x + length cs)) cs (of_nat (Suc x)) (out @ [ucast c]) =
        (out @ [ucast c]) @ map ucast cs"
      using Cons.prems by (intro Cons.IH) auto
    ultimately show ?thesis using c o by (simp add: Let_def add.commute)
  qed
qed simp

lemma ascii_label:
  assumes "\<forall>b \<in> set (load_bytes m s n). b < 128" "unat s + n + 4 < 2 ^ 64" "n < 2 ^ 31" "length out + n \<le> cap"
  shows "idna_toascii_label m s (s + of_nat n) cap out = Some (int n, out @ load_bytes m s n)"
proof -
  let ?cs = "map ucast (load_bytes m s n) :: u32 list"
  have small: "unat (ucast b :: u32) = unat b" for b :: byte
    using unsigned_less [of b, where 'a = nat] by (simp add: unsigned_ucast_eq take_bit_nat_eq_self)
  have cs: "\<forall>c \<in> set ?cs. c < 128"
    using assms(1) by (auto simp: word_less_nat_alt small)
  have "idna_ascii cap (of_nat (0 + length ?cs)) ?cs (of_nat 0) out = out @ map ucast ?cs"
    using cs assms(3,4) by (intro idna_ascii_all) auto
  moreover have "ucast (ucast b :: u32) = b" for b :: byte
    by (intro bit_word_eqI) (auto simp: bit_simps dest: bit_imp_le_length)
  then have "map ucast ?cs = load_bytes m s n" by (simp add: comp_def map_idI)
  moreover have "sint (of_nat n :: u32) = int n"
    using assms(3) by (simp add: sint_uint uint_nat unat_of_nat signed_take_bit_int_eq_self)
  ultimately show ?thesis
    using idna_count_ascii [OF cs, of 0 0] codepoints_ascii [OF assms(1,2)]
    by (simp add: idna_toascii_label_def)
qed

lemma idna_scan_ascii:
  assumes bs: "bs = load_bytes m s0 n" "\<forall>b \<in> set bs. b < 128"
    and n: "unat s0 + n + 4 < 2 ^ 64" "n < 2 ^ 31" "n < cap"
  shows "i \<le> j \<Longrightarrow> j \<le> n \<Longrightarrow>
    idna_scan m (s0 + of_nat i) (s0 + of_nat j) (s0 + of_nat n) cap (take i bs) = Some (int n + 1, bs @ [0])"
proof (induction "n - j" arbitrary: i j rule: less_induct)
  case less
  have u: "unat (s0 + of_nat k) = unat s0 + k" if "k \<le> n" for k
    using that n by (intro unat_add_of_nat) simp
  have len: "length bs = n" using bs(1) by simp
  have lab: "idna_toascii_label m (s0 + of_nat i) (s0 + of_nat k) cap (take i bs) = Some (int (k - i), take k bs)"
    if k: "i \<le> k" "k \<le> n" for k
  proof -
    have t: "load_bytes m (s0 + of_nat i) (k - i) = drop i (take k bs)"
      using k by (simp add: bs(1) take_load_bytes drop_load_bytes)
    have "idna_toascii_label m (s0 + of_nat i) (s0 + of_nat i + of_nat (k - i)) cap (take i bs) =
        Some (int (k - i), take i bs @ load_bytes m (s0 + of_nat i) (k - i))"
      using k n bs(2) u [of i] len
      by (intro ascii_label) (auto simp: t dest!: in_set_dropD in_set_takeD)
    moreover have "s0 + of_nat i + of_nat (k - i) = s0 + of_nat k" using k by (simp add: of_nat_diff)
    moreover have "take i bs @ drop i (take k bs) = take k bs"
      using k by (metis append_take_drop_id min.absorb1 take_take)
    ultimately show ?thesis using t by simp
  qed
  show ?case
  proof (cases "j < n")
    case True
    have b: "m (s0 + of_nat j) = bs ! j" "bs ! j < 128"
      using True bs(2) len nth_mem [of j bs] by (simp add: bs(1) nth_load_bytes, blast)
    have d: "uv__utf8_decode1 m (s0 + of_nat j) (s0 + of_nat n) = (ucast (bs ! j), s0 + of_nat (Suc j))"
      using utf8_ascii [of m "s0 + of_nat j" "s0 + of_nat n"] b by (simp add: add.assoc add.commute)
    have lt: "s0 + of_nat j < s0 + of_nat n" using True less.prems u by (simp add: word_less_nat_alt)
    have small: "unat (ucast (bs ! j) :: u32) = unat (bs ! j)"
      using unsigned_less [of "bs ! j", where 'a = nat] by (simp add: unsigned_ucast_eq take_bit_nat_eq_self)
    have e: "is_label_end (ucast (bs ! j)) \<longleftrightarrow> bs ! j = 46"
      using unsigned_less [of "bs ! j", where 'a = nat]
      by (auto simp: is_label_end_def word_unat_eq_iff small)
    show ?thesis
    proof (cases "bs ! j = 46")
      case False
      then show ?thesis
        using lt d e less.hyps [of "Suc j" i] True less.prems by (subst idna_scan.simps) simp
    next
      case dot: True
      have "out_put cap 46 (take j bs) = take (Suc j) bs"
        using True n(3) len dot by (simp add: out_put_def take_Suc_conv_app_nth)
      then show ?thesis
        using lt d e dot lab [of j] less.hyps [of "Suc j" "Suc j"] True less.prems
        by (subst idna_scan.simps) simp
    qed
  next
    case False
    then have j: "j = n" using less.prems by simp
    have "(if s0 + of_nat i < s0 + of_nat n then idna_toascii_label m (s0 + of_nat i) (s0 + of_nat n) cap (take i bs)
        else Some (0, take i bs)) = Some (int (n - i), bs)"
      using lab [of n] less.prems j len u by (auto simp: word_less_nat_alt)
    moreover have "out_put cap 0 bs = bs @ [0]" using n(3) len by (simp add: out_put_def)
    ultimately show ?thesis using j len by (subst idna_scan.simps) (simp add: Let_def)
  qed
qed


section \<open>Properties\<close>

text \<open>
  The UTF-8 decoder reads back every code point: at the bytes that encode it (RFC 3629) it
  returns the code point and steps over exactly those bytes.
\<close>

theorem utf8_roundtrip:
  assumes "is_scalar c" "p < pe" "pe \<noteq> - 1" "load_bytes m p (length (utf8_enc c)) = utf8_enc c"
  shows "uv__utf8_decode1 m p pe = (c, p + of_nat (length (utf8_enc c)))"
  by (rule utf8_decode_enc [OF assms])

theorem utf8_roundtrip_witness:
  "uv__utf8_decode1 ((\<lambda>_. 0)(100 := 0xE2, 101 := 0x82, 102 := 0xAC)) 100 110 = (0x20AC, 103)"
proof -
  have "utf8_enc 0x20AC = [0xE2, 0x82, 0xAC]" by (simp add: utf8_enc_def cont_byte_def)
  then show ?thesis
    using utf8_roundtrip [of "0x20AC" 100 110 "(\<lambda>_. 0)(100 := 0xE2, 101 := 0x82, 102 := 0xAC)"]
    by (simp add: is_scalar_def)
qed

text \<open>
  C39: whatever the bytes, the UTF-8 decoder returns -1 or a code point that exists: no surrogate,
  nothing above \<open>0x10FFFF\<close>, and no overlong form, since it has stepped over exactly as many bytes
  as the code point's encoding has.
\<close>

theorem utf8_decode_scalar:
  assumes "uv__utf8_decode1 m p pe = (c, p')" "c \<noteq> - 1"
  shows "is_scalar c \<and> p' = p + of_nat (length (utf8_enc c))"
  by (rule utf8_decode_sound [OF assms])

theorem utf8_decode_scalar_witness: "is_scalar 0x41 \<and> length (utf8_enc 0x41) = 1"
  using utf8_decode_scalar [of "\<lambda>_. 0x41" 0 8 "0x41" 1]
  by (simp add: uv__utf8_decode1_def utf8_enc_def)

text \<open>
  The check of the continuation bytes is on their exclusive or only, so two bytes that are not
  continuation bytes cancel out: a lead byte followed by two ASCII letters is accepted as a code
  point.
\<close>

theorem utf8_accepts_letters:
  "uv__utf8_decode1 ((\<lambda>_. 0)(0 := 0xE3, 1 := 0x41, 2 := 0x41)) 0 3 = (0x3041, 3)"
  by (simp add: uv__utf8_decode1_def uv__utf8_decode1_slow_def utf8_check_def)

text \<open>
  C38: \<open>uv__idna_toascii\<close> returns on every input, well-formed or not; it writes at most the capacity
  of the buffer and only ASCII bytes, and a result that is not an error is the number of bytes
  written.
\<close>

theorem uv__idna_toascii_returns:
  assumes "unat se + 4 < 2 ^ 64" "unat se < unat s + 2 ^ 32" "s \<le> se"
  shows "\<exists>rc out. uv__idna_toascii m s se cap = Some (rc, out) \<and> length out \<le> cap \<and>
    (\<forall>b \<in> set out. b < 128) \<and> (0 \<le> rc \<longrightarrow> rc = int (length out))"
  using idna_scan_total [OF assms(1,2), of cap "[]" s s m] assms(3)
  by (auto simp: uv__idna_toascii_def out_ok_def word_le_nat_alt)

theorem uv__idna_toascii_returns_witness:
  "\<forall>m. \<exists>rc out. uv__idna_toascii m 100 130 20 = Some (rc, out) \<and> length out \<le> 20"
proof
  fix m
  show "\<exists>rc out. uv__idna_toascii m 100 130 20 = Some (rc, out) \<and> length out \<le> 20"
    using uv__idna_toascii_returns [of 130 100 m 20] by auto
qed

text \<open>An ASCII host name that fits comes out unchanged, with a terminator.\<close>

theorem uv__idna_toascii_ascii:
  assumes "\<forall>b \<in> set (load_bytes m s n). b < 128" "unat s + n + 4 < 2 ^ 64" "n < 2 ^ 31" "n < cap"
  shows "uv__idna_toascii m s (s + of_nat n) cap = Some (int n + 1, load_bytes m s n @ [0])"
  using idna_scan_ascii [OF refl assms, of 0 0] by (simp add: uv__idna_toascii_def)

theorem uv__idna_toascii_ascii_witness:
  "uv__idna_toascii ((\<lambda>_. 0)(100 := 0x61, 101 := 0x2E, 102 := 0x62)) 100 103 9 = Some (4, [0x61, 0x2E, 0x62, 0])"
  using uv__idna_toascii_ascii [of "(\<lambda>_. 0)(100 := 0x61, 101 := 0x2E, 102 := 0x62)" 100 3 9]
  by (simp add: numeral_3_eq_3)

text \<open>
  A name that ends inside a UTF-8 sequence is not refused: the decoder reads the byte behind
  the end of the name and the label is taken to be empty.
\<close>

theorem idna_truncated_accepted:
  assumes "m s = 0xC3" "unat s + 6 < 2 ^ 64" "0 < cap"
  shows "uv__idna_toascii m s (s + 1) cap = Some (1, [0])"
proof -
  have u: "unat (s + 1) = unat s + 1" "unat (s + 2) = unat s + 2"
    using assms(2) unat_add_of_nat [of s 1] unat_add_of_nat [of s 2] by simp_all
  have d: "uv__utf8_decode1 m s (s + 1) = (utf8_check 0x80 0 0x80 (0x80 OR (0xC3 AND 31)) (ucast (m (s + 1))), s + 2)"
  proof -
    have "s + 1 - (s + 1) = 0" "s + 1 + 1 = s + 2" by simp_all
    then show ?thesis
      by (simp only: uv__utf8_decode1_def uv__utf8_decode1_slow_def assms(1) Let_def) simp
  qed
  let ?c = "utf8_check 0x80 0 0x80 (0x80 OR (0xC3 AND 31)) (ucast (m (s + 1)))"
  have "unat ?c < 2 ^ 11 \<and> 0x80 \<le> ?c" if "?c \<noteq> - 1"
    using utf8_check_value [OF that] assemble_bound(1) [of "0xC3" "ucast (m (s + 1))"] by auto
  then have e: "\<not> is_label_end ?c" by (cases "?c = - 1") (auto simp: is_label_end_def)
  have "codepoints m s (s + 1) = Some []"
    using u by (subst codepoints.simps) (simp add: d word_less_nat_alt)
  then have l: "idna_toascii_label m s (s + 1) cap [] = Some (0, [])"
    by (simp add: idna_toascii_label_def)
  have c: "\<not> s + 2 < s + 1" "s < s + 1" using u by (simp_all add: word_less_nat_alt)
  have "idna_scan m s (s + 2) (s + 1) cap [] = Some (1, [0])"
    using c l assms(3) by (subst idna_scan.simps) (simp add: out_put_def)
  then show ?thesis
    using c d e unfolding uv__idna_toascii_def by (subst idna_scan.simps) simp
qed

theorem idna_truncated_accepted_witness: "uv__idna_toascii (\<lambda>_. 0xC3) 100 101 8 = Some (1, [0])"
  using idna_truncated_accepted [of "\<lambda>_. 0xC3" 100 8] by simp

end
