(* ===== verification/Bs_Constant_Time.thy ===== *)
theory Bs_Constant_Time
  imports Prelude
begin

text \<open>
  The constant-time selections of \<open>crypto/internal.h\<close> of BoringSSL, on words of 64 bits and on
  bytes, with what they compute.
\<close>

section \<open>Constant-time selection\<close>

text \<open>\<open>crypto_word_t\<close> is 64 bits wide on the target; a mask is all ones or all zeros.\<close>

definition constant_time_msb_w :: "u64 \<Rightarrow> u64" where
  "constant_time_msb_w a = 0 - drop_bit 63 a"

definition constant_time_is_zero_w :: "u64 \<Rightarrow> u64" where
  "constant_time_is_zero_w a = constant_time_msb_w (NOT a AND (a - 1))"

definition constant_time_eq_w :: "u64 \<Rightarrow> u64 \<Rightarrow> u64" where
  "constant_time_eq_w a b = constant_time_is_zero_w (a XOR b)"

definition constant_time_eq_8 :: "u64 \<Rightarrow> u64 \<Rightarrow> byte" where
  "constant_time_eq_8 a b = ucast (constant_time_eq_w a b)"

definition constant_time_select_w :: "u64 \<Rightarrow> u64 \<Rightarrow> u64 \<Rightarrow> u64" where
  "constant_time_select_w msk a b = (msk AND a) OR (NOT msk AND b)"

definition constant_time_select_8 :: "byte \<Rightarrow> byte \<Rightarrow> byte \<Rightarrow> byte" where
  "constant_time_select_8 msk a b = ucast (constant_time_select_w (ucast msk) (ucast a) (ucast b))"

definition constant_time_lt_args_8 :: "byte \<Rightarrow> byte \<Rightarrow> byte" where
  "constant_time_lt_args_8 a b = ucast (constant_time_msb_w (ucast a - ucast b))"

definition constant_time_in_range_8 :: "byte \<Rightarrow> byte \<Rightarrow> byte \<Rightarrow> byte" where
  "constant_time_in_range_8 a lo hi = constant_time_lt_args_8 (a - lo) (hi - lo + 1)"

text \<open>What the masks are.\<close>

lemma all_ones_byte: "(ucast (- 1 :: u64) :: byte) = 0xFF"
  by code_simp

lemma unat_ucast_byte [simp]: "unat (ucast (n :: byte) :: u64) = unat n"
  by (simp add: unsigned_ucast_eq take_bit_nat_eq_self order_less_le_trans [OF unsigned_less])

lemma ucast_ucast_byte: "(ucast (ucast (n :: byte) :: u64) :: byte) = n"
  by (rule bit_word_eqI) (auto simp: bit_simps)

lemma drop_bit_63: "drop_bit 63 a = (if bit a 63 then 1 else 0)" for a :: u64
proof (rule bit_word_eqI)
  fix n assume "n < LENGTH(64)"
  then show "bit (drop_bit 63 a) n = bit (if bit a 63 then 1 else 0 :: u64) n"
    using bit_imp_le_length [of a "63 + n"] by (cases n) (auto simp: bit_simps)
qed

lemma msb_w: "constant_time_msb_w a = (if bit a 63 then - 1 else 0)"
  by (simp add: constant_time_msb_w_def drop_bit_63)

lemma bit_63: "bit a 63 \<longleftrightarrow> 2 ^ 63 \<le> unat a" for a :: u64
proof -
  have "bit a 63 \<longleftrightarrow> odd (unat a div 2 ^ 63)"
    by (metis bit_iff_odd bit_unsigned_iff possible_bit_nat)
  moreover have "unat a div 2 ^ 63 < 2"
    using unsigned_less [of a, where ?'a = nat] by (simp add: less_mult_imp_div_less)
  then have "unat a div 2 ^ 63 = 0 \<or> unat a div 2 ^ 63 = 1" by auto
  ultimately show ?thesis by (auto simp: div_eq_0_iff)
qed

lemma constant_time_is_zero_w: "constant_time_is_zero_w a = (if a = 0 then - 1 else 0)"
proof (cases "a = 0")
  case False
  then have "unat (a - 1) = unat a - 1" by (rule unat_minus_one)
  then have "\<not> bit (a - 1) 63" if "\<not> bit a 63" using that by (simp add: bit_63)
  then show ?thesis using False by (auto simp: constant_time_is_zero_w_def msb_w bit_simps)
qed (simp add: constant_time_is_zero_w_def msb_w)

lemma constant_time_eq_8: "constant_time_eq_8 a b = (if a = b then 0xFF else 0)"
proof -
  have "a XOR b = 0 \<longleftrightarrow> a = b" by (auto simp: bit_eq_iff bit_simps)
  then show ?thesis
    by (simp add: constant_time_eq_8_def constant_time_eq_w_def constant_time_is_zero_w all_ones_byte)
qed

lemma constant_time_lt_args_8: "constant_time_lt_args_8 a b = (if a < b then 0xFF else 0)"
proof -
  have "unat a < 256" "unat b < 256"
    using unsigned_less [of a, where ?'a = nat] unsigned_less [of b, where ?'a = nat] by simp_all
  then have "bit (ucast a - ucast b :: u64) 63 \<longleftrightarrow> a < b"
    by (auto simp: bit_63 unat_sub_if' word_less_nat_alt unat_ucast_byte)
  then show ?thesis by (simp add: constant_time_lt_args_8_def msb_w all_ones_byte)
qed

lemma constant_time_in_range_8:
  assumes "lo \<le> hi" "hi < 0xFF"
  shows "constant_time_in_range_8 a lo hi = (if lo \<le> a \<and> a \<le> hi then 0xFF else 0)"
proof -
  have "a - lo < hi - lo + 1 \<longleftrightarrow> lo \<le> a \<and> a \<le> hi"
    using assms unsigned_less [of a, where ?'a = nat] unsigned_less [of hi, where ?'a = nat]
    by (auto simp: word_less_nat_alt word_le_nat_alt unat_sub_if' unat_plus_if')
  then show ?thesis by (simp add: constant_time_in_range_8_def constant_time_lt_args_8)
qed

lemma constant_time_select_8:
  "constant_time_select_8 0xFF a b = a" "constant_time_select_8 0 a b = b"
proof -
  show "constant_time_select_8 0xFF a b = a"
    by (rule bit_word_eqI) (auto simp: constant_time_select_8_def constant_time_select_w_def bit_simps)
  show "constant_time_select_8 0 a b = b"
    by (simp add: ucast_ucast_byte constant_time_select_8_def constant_time_select_w_def)
qed

end
