(* ===== verification/Bs_Base64.thy ===== *)
theory Bs_Base64
  imports Bs_Constant_Time
begin

text \<open>
  \<open>crypto/base64/base64.c\<close> of BoringSSL: the encoder and the decoder of whole buffers, and the
  streaming ones over an \<open>EVP_ENCODE_CTX\<close>.  What a function writes to \<open>out\<close> is a list of bytes of its result.
\<close>

section \<open>The context\<close>

definition BASE64_INT_MAX :: nat where "BASE64_INT_MAX = 2 ^ 31 - 1"

record evp_encode_ctx =
  data_used :: u32
  ctx_data :: "byte list"
  eof_seen :: bool
  error_encountered :: bool

definition EVP_EncodeInit :: evp_encode_ctx where
  "EVP_EncodeInit = \<lparr>data_used = 0, ctx_data = replicate 48 0, eof_seen = False, error_encountered = False\<rparr>"

definition EVP_DecodeInit :: evp_encode_ctx where
  "EVP_DecodeInit = \<lparr>data_used = 0, ctx_data = replicate 48 0, eof_seen = False, error_encountered = False\<rparr>"

text \<open>\<open>memcpy(&data[i], bs, n)\<close>\<close>

definition splice :: "nat \<Rightarrow> byte list \<Rightarrow> byte list \<Rightarrow> byte list" where
  "splice i bs xs = take i xs @ bs @ drop (i + length bs) xs"

section \<open>Encoding\<close>

definition conv_bin2ascii :: "byte \<Rightarrow> byte" where
  "conv_bin2ascii a0 =
     (let a = a0 AND 0x3F;
          ret = constant_time_select_8 (constant_time_eq_8 (ucast a) 62) 0x2B 0x2F;
          ret = constant_time_select_8 (constant_time_lt_args_8 a 62) (a - 52 + 0x30) ret;
          ret = constant_time_select_8 (constant_time_lt_args_8 a 52) (a - 26 + 0x61) ret
      in constant_time_select_8 (constant_time_lt_args_8 a 26) (a + 0x41) ret)"

definition EVP_EncodedLength :: "u64 \<Rightarrow> u64 option" where
  "EVP_EncodedLength len =
     (if len + 2 < len then None
      else let l = (len + 2) div 3 in
        if drop_bit 2 (push_bit 2 l) \<noteq> l then None
        else let l = push_bit 2 l in if l + 1 < l then None else Some (l + 1))"

text \<open>
  The loop of \<open>EVP_EncodeBlock\<close>: the characters it writes from \<open>dst\<close> on, and \<open>ret\<close>.  The source is
  the list of the bytes that remain.
\<close>

fun encode_quads :: "byte list \<Rightarrow> u64 \<Rightarrow> byte list \<times> u64" where
  "encode_quads [] ret = ([], ret)"
| "encode_quads (a # b # c # src) ret =
     (let l = push_bit 16 (ucast a) OR push_bit 8 (ucast b) OR ucast c :: u32;
          (dst, ret') = encode_quads src (ret + 4)
      in (conv_bin2ascii (ucast (drop_bit 18 l)) # conv_bin2ascii (ucast (drop_bit 12 l)) #
          conv_bin2ascii (ucast (drop_bit 6 l)) # conv_bin2ascii (ucast l) # dst, ret'))"
| "encode_quads [a, b] ret =
     (let l = push_bit 16 (ucast a) OR push_bit 8 (ucast b) :: u32
      in ([conv_bin2ascii (ucast (drop_bit 18 l)), conv_bin2ascii (ucast (drop_bit 12 l)),
           conv_bin2ascii (ucast (drop_bit 6 l)), 0x3D], ret + 4))"
| "encode_quads [a] ret =
     (let l = push_bit 16 (ucast a) :: u32
      in ([conv_bin2ascii (ucast (drop_bit 18 l)), conv_bin2ascii (ucast (drop_bit 12 l)), 0x3D, 0x3D], ret + 4))"

definition EVP_EncodeBlock :: "byte list \<Rightarrow> byte list \<times> u64" where
  "EVP_EncodeBlock src = (case encode_quads src 0 of (dst, ret) \<Rightarrow> (dst @ [0], ret))"

text \<open>
  The whole lines of \<open>EVP_EncodeUpdate\<close>.  \<open>out\<close> is what it has written, less the terminator that the
  next line overwrites; the result also has whether the sum of the lengths overflowed, and the input
  that is left.
\<close>

function encode_lines :: "byte list \<Rightarrow> byte list \<Rightarrow> u64 \<Rightarrow> bool \<times> byte list \<times> u64 \<times> byte list" where
  "encode_lines inp out tot =
     (if 48 \<le> length inp then
        let (text, encoded) = EVP_EncodeBlock (take 48 inp); out' = out @ take (unat encoded) text @ [0x0A] in
        if tot + encoded + 1 < tot then (False, out', tot, drop 48 inp)
        else encode_lines (drop 48 inp) out' (tot + (encoded + 1))
      else (True, out, tot, inp))"
  by pat_completeness auto
termination by (relation "measure (\<lambda>(inp, out, tot). length inp)") auto

declare encode_lines.simps [simp del]

text \<open>The new context, the bytes written from \<open>out\<close> on, and \<open>*out_len\<close>.\<close>

definition EVP_EncodeUpdate :: "evp_encode_ctx \<Rightarrow> byte list \<Rightarrow> evp_encode_ctx \<times> byte list \<times> u32" where
  "EVP_EncodeUpdate ctx inp =
     (let used = ucast (data_used ctx) :: u64; in_len = of_nat (length inp) :: u64 in
      if in_len = 0 then (ctx, [], 0)
      else if in_len < 48 - used then
        (ctx\<lparr>ctx_data := splice (unat used) inp (ctx_data ctx), data_used := data_used ctx + ucast in_len\<rparr>, [], 0)
      else
        let (ctx1, inp1, out1, tot1) =
              (if data_used ctx \<noteq> 0 then
                 let todo = unat (48 - used);
                     d = splice (unat used) (take todo inp) (ctx_data ctx);
                     (text, encoded) = EVP_EncodeBlock d
                 in (ctx\<lparr>ctx_data := d, data_used := 0\<rparr>, drop todo inp, take (unat encoded) text @ [0x0A], encoded + 1)
               else (ctx, inp, [], 0))
        in case encode_lines inp1 out1 tot1 of
             (ok, out, tot, rest) \<Rightarrow>
               if \<not> ok then (ctx1, out @ [0], 0)
               else (ctx1\<lparr>ctx_data := splice 0 rest (ctx_data ctx1), data_used := of_nat (length rest)\<rparr>,
                     if out = [] then [] else out @ [0],
                     if of_nat BASE64_INT_MAX < tot then 0 else ucast tot))"

definition EVP_EncodeFinal :: "evp_encode_ctx \<Rightarrow> evp_encode_ctx \<times> byte list \<times> u32" where
  "EVP_EncodeFinal ctx =
     (if data_used ctx = 0 then (ctx, [], 0)
      else let (text, encoded) = EVP_EncodeBlock (take (unat (data_used ctx)) (ctx_data ctx))
        in (ctx\<lparr>data_used := 0\<rparr>, take (unat encoded) text @ [0x0A, 0], ucast (encoded + 1)))"

section \<open>Decoding\<close>

definition EVP_DecodedLength :: "u64 \<Rightarrow> u64 option" where
  "EVP_DecodedLength len = (if len mod 4 \<noteq> 0 then None else Some (len div 4 * 3))"

definition base64_ascii_to_bin :: "byte \<Rightarrow> byte" where
  "base64_ascii_to_bin a =
     (let is_upper = constant_time_in_range_8 a 0x41 0x5A;
          is_lower = constant_time_in_range_8 a 0x61 0x7A;
          is_digit = constant_time_in_range_8 a 0x30 0x39;
          is_plus = constant_time_eq_8 (ucast a) 0x2B;
          is_slash = constant_time_eq_8 (ucast a) 0x2F;
          is_equals = constant_time_eq_8 (ucast a) 0x3D;
          ret = (is_upper AND (a - 0x41)) OR (is_lower AND (a - 0x61 + 26)) OR (is_digit AND (a - 0x30 + 52))
            OR (is_plus AND 62) OR (is_slash AND 63);
          is_valid = is_upper OR is_lower OR is_digit OR is_plus OR is_slash OR is_equals
      in ret OR NOT is_valid)"

text \<open>The bytes \<open>base64_decode_quad\<close> writes to \<open>out\<close>.\<close>

definition base64_decode_quad :: "byte \<Rightarrow> byte \<Rightarrow> byte \<Rightarrow> byte \<Rightarrow> byte list option" where
  "base64_decode_quad in0 in1 in2 in3 =
     (let a = base64_ascii_to_bin in0; b = base64_ascii_to_bin in1;
          c = base64_ascii_to_bin in2; d = base64_ascii_to_bin in3 in
      if a = 0xFF \<or> b = 0xFF \<or> c = 0xFF \<or> d = 0xFF then None
      else
        let v = push_bit 18 (ucast a) OR push_bit 12 (ucast b) OR push_bit 6 (ucast c) OR ucast d :: u32;
            padding_pattern = push_bit 3 (of_bool (in0 = 0x3D)) OR push_bit 2 (of_bool (in1 = 0x3D))
              OR push_bit 1 (of_bool (in2 = 0x3D)) OR of_bool (in3 = 0x3D) :: u32
        in if padding_pattern = 0 then Some [ucast (drop_bit 16 v), ucast (drop_bit 8 v), ucast v]
           else if padding_pattern = 1 then Some [ucast (drop_bit 16 v), ucast (drop_bit 8 v)]
           else if padding_pattern = 3 then Some [ucast (drop_bit 16 v)]
           else None)"

definition is_blank :: "byte \<Rightarrow> bool" where
  "is_blank c \<longleftrightarrow> c = 0x20 \<or> c = 0x09 \<or> c = 0x0D \<or> c = 0x0A"

text \<open>The loop of \<open>EVP_DecodeUpdate\<close>; \<open>False\<close> where it returns -1.\<close>

fun decode_chars ::
  "evp_encode_ctx \<Rightarrow> byte list \<Rightarrow> u64 \<Rightarrow> byte list \<Rightarrow> bool \<times> evp_encode_ctx \<times> byte list \<times> u64" where
  "decode_chars ctx out bytes_out [] = (True, ctx, out, bytes_out)"
| "decode_chars ctx out bytes_out (c # inp) =
     (if is_blank c then decode_chars ctx out bytes_out inp
      else if eof_seen ctx then (False, ctx\<lparr>error_encountered := True\<rparr>, out, bytes_out)
      else
        let d = (ctx_data ctx)[unat (data_used ctx) := c]; used = data_used ctx + 1;
            ctx1 = ctx\<lparr>ctx_data := d, data_used := used\<rparr> in
        if used = 4 then
          (case base64_decode_quad (d ! 0) (d ! 1) (d ! 2) (d ! 3) of
             None \<Rightarrow> (False, ctx1\<lparr>error_encountered := True\<rparr>, out, bytes_out)
           | Some bs \<Rightarrow>
               decode_chars (ctx1\<lparr>data_used := 0, eof_seen := eof_seen ctx \<or> length bs < 3\<rparr>) (out @ bs)
                 (bytes_out + of_nat (length bs)) inp)
        else decode_chars ctx1 out bytes_out inp)"

text \<open>The result, the new context, the bytes written and \<open>*out_len\<close>.\<close>

definition EVP_DecodeUpdate ::
  "evp_encode_ctx \<Rightarrow> byte list \<Rightarrow> int \<times> evp_encode_ctx \<times> byte list \<times> u32" where
  "EVP_DecodeUpdate ctx inp =
     (if error_encountered ctx then (- 1, ctx, [], 0)
      else case decode_chars ctx [] 0 inp of
        (ok, ctx', out, bytes_out) \<Rightarrow>
          if \<not> ok then (- 1, ctx', out, 0)
          else if of_nat BASE64_INT_MAX < bytes_out then (- 1, ctx'\<lparr>error_encountered := True\<rparr>, out, 0)
          else (if eof_seen ctx' then 0 else 1, ctx', out, ucast bytes_out))"

definition EVP_DecodeFinal :: "evp_encode_ctx \<Rightarrow> int" where
  "EVP_DecodeFinal ctx = (if error_encountered ctx \<or> data_used ctx \<noteq> 0 then - 1 else 1)"

text \<open>
  The loop of \<open>EVP_DecodeBase64\<close>, on the input from \<open>in[i]\<close> on; the bytes written, and \<open>None\<close> for a
  return of 0.  The loop ends behind a whole number of quads, as the caller has checked.
\<close>

fun decode_quads :: "byte list \<Rightarrow> byte list option" where
  "decode_quads (a # b # c # d # inp) =
     (case base64_decode_quad a b c d of
        None \<Rightarrow> None
      | Some bs \<Rightarrow>
          if length bs \<noteq> 3 \<and> inp \<noteq> [] then None
          else map_option (\<lambda>out. bs @ out) (decode_quads inp))"
| "decode_quads inp = Some []"

definition EVP_DecodeBase64 :: "u64 \<Rightarrow> byte list \<Rightarrow> byte list option" where
  "EVP_DecodeBase64 max_out inp =
     (if length inp mod 4 \<noteq> 0 then None
      else case EVP_DecodedLength (of_nat (length inp)) of
        None \<Rightarrow> None
      | Some max_len \<Rightarrow> if max_out < max_len then None else decode_quads inp)"

text \<open>\<open>while (dst_len % 3 != 0) dst[dst_len++] = '\0';\<close>\<close>

function pad_block :: "byte list \<Rightarrow> byte list" where
  "pad_block dst = (if length dst mod 3 \<noteq> 0 then pad_block (dst @ [0]) else dst)"
  by pat_completeness auto
termination
  by (relation "measure (\<lambda>dst. (3 - length dst mod 3) mod 3)") (auto simp: mod_Suc)

declare pad_block.simps [simp del]

definition EVP_DecodeBlock :: "byte list \<Rightarrow> byte list option" where
  "EVP_DecodeBlock src =
     (let src1 = dropWhile (\<lambda>c. c = 0x20 \<or> c = 0x09) src;
          src2 = rev (dropWhile is_blank (rev src1)) in
      case EVP_DecodedLength (of_nat (length src2)) of
        None \<Rightarrow> None
      | Some dst_len \<Rightarrow>
          if of_nat BASE64_INT_MAX < dst_len then None
          else case EVP_DecodeBase64 dst_len src2 of
            None \<Rightarrow> None
          | Some dst \<Rightarrow> Some (pad_block dst))"

end
