(* ===== verification/Bs_Base64_Facts.thy ===== *)
theory Bs_Base64_Facts
  imports Bs_Base64
begin

text \<open>
  Facts about base64: the constant-time alphabet and its inverse, the text of a message (\<open>b64\<close>, and
  \<open>pem_text\<close> in lines of 64), the encoders against it, and the decoders as their inverses.
\<close>

section \<open>Characters\<close>

lemma ucast_eq_numeral: "(ucast a :: u64) = numeral n \<longleftrightarrow> unat a = unat (numeral n :: u64)" for a :: byte
  by (metis unat_ucast_byte word_unat_eq_iff)

lemma all_ones_and [simp]: "0xFF AND x = x" "x OR 0xFF = 0xFF" "0xFF OR x = 0xFF" for x :: byte
proof -
  have *: "(0xFF :: byte) = - 1" by code_simp
  show "0xFF AND x = x" "x OR 0xFF = 0xFF" "0xFF OR x = 0xFF" unfolding * by simp_all
qed

lemma byte_negatives: "(- 256 :: byte) = 0" "(- 1 :: byte) = 0xFF"
  by code_simp+

lemma conv_bin2ascii:
  "conv_bin2ascii a0 =
     (let a = a0 AND 0x3F in
      if a < 26 then a + 0x41 else if a < 52 then a - 26 + 0x61 else if a < 62 then a - 52 + 0x30
      else if a = 62 then 0x2B else 0x2F)"
  by (auto simp: conv_bin2ascii_def Let_def constant_time_lt_args_8 constant_time_eq_8 constant_time_select_8
      ucast_eq_numeral word_unat_eq_iff)

lemma base64_ascii_to_bin:
  "base64_ascii_to_bin a =
     (if 0x41 \<le> a \<and> a \<le> 0x5A then a - 0x41 else if 0x61 \<le> a \<and> a \<le> 0x7A then a - 0x61 + 26
      else if 0x30 \<le> a \<and> a \<le> 0x39 then a - 0x30 + 52 else if a = 0x2B then 62 else if a = 0x2F then 63
      else if a = 0x3D then 0 else 0xFF)"
  by (auto simp: base64_ascii_to_bin_def Let_def constant_time_in_range_8 constant_time_eq_8
      byte_negatives ucast_eq_numeral word_unat_eq_iff word_le_nat_alt)

lemma sextet_less: "a AND 0x3F < (0x40 :: byte)"
  using word_and_le1 [of a "0x3F"] by (rule le_less_trans) simp

lemma ascii_to_bin_conv: "base64_ascii_to_bin (conv_bin2ascii a) = a AND 0x3F"
  using sextet_less [of a] unfolding conv_bin2ascii Let_def base64_ascii_to_bin
  by (simp add: word_less_nat_alt word_le_nat_alt word_unat_eq_iff unat_sub_if' unat_plus_if') arith

lemma conv_plain: "conv_bin2ascii a \<noteq> 0x3D" "\<not> is_blank (conv_bin2ascii a)"
  using sextet_less [of a] unfolding conv_bin2ascii Let_def is_blank_def
  by (simp_all add: word_less_nat_alt word_unat_eq_iff unat_sub_if' unat_plus_if') arith+

lemma sextet_valid: "a AND 0x3F \<noteq> (0xFF :: byte)"
  using sextet_less [of a] by auto

lemma equals_char: "base64_ascii_to_bin 0x3D = 0" "\<not> is_blank 0x3D"
  by (simp_all add: base64_ascii_to_bin is_blank_def)


section \<open>Quads\<close>

text \<open>Four sextets put together are the 24 bits they were taken from.\<close>

lemma sextets_bits:
  fixes l :: u32
  defines "v \<equiv> push_bit 18 (ucast (ucast (drop_bit 18 l) AND 0x3F :: byte)) OR push_bit 12 (ucast (ucast (drop_bit 12 l) AND 0x3F :: byte))
     OR push_bit 6 (ucast (ucast (drop_bit 6 l) AND 0x3F :: byte)) OR ucast (ucast l AND 0x3F :: byte) :: u32"
  assumes "n < 24"
  shows "bit v n \<longleftrightarrow> bit l n"
proof -
  have six: "(0x3F :: byte) = mask 6" by code_simp
  consider "n < 6" | "6 \<le> n" "n < 12" | "12 \<le> n" "n < 18" | "18 \<le> n" "n < 24" using assms(2) by linarith
  then show ?thesis
    unfolding v_def six by cases (auto simp: bit_simps)
qed

lemma decode_encode_quad:
  fixes a b c :: byte
  defines "l \<equiv> push_bit 16 (ucast a) OR push_bit 8 (ucast b) OR ucast c :: u32"
  shows "base64_decode_quad (conv_bin2ascii (ucast (drop_bit 18 l))) (conv_bin2ascii (ucast (drop_bit 12 l)))
      (conv_bin2ascii (ucast (drop_bit 6 l))) (conv_bin2ascii (ucast l)) = Some [a, b, c]"
proof -
  have "ucast (drop_bit 16 v) = a \<and> ucast (drop_bit 8 v) = b \<and> ucast v = c"
    if v: "\<And>n. n < 24 \<Longrightarrow> bit v n = bit l n" for v :: u32
  proof (intro conjI; rule bit_word_eqI)
    fix n assume "n < LENGTH(8)"
    then show "bit (ucast (drop_bit 16 v) :: byte) n = bit a n" "bit (ucast (drop_bit 8 v) :: byte) n = bit b n"
      "bit (ucast v :: byte) n = bit c n"
      using v [of "16 + n"] v [of "8 + n"] v [of n] bit_imp_le_length [of b "8 + n"] bit_imp_le_length [of c "16 + n"] bit_imp_le_length [of c "8 + n"]
      by (auto simp: l_def bit_simps)
  qed
  from this [OF sextets_bits] show ?thesis
    unfolding base64_decode_quad_def Let_def ascii_to_bin_conv by (simp add: sextet_valid conv_plain)
qed

lemma quad_of_bits:
  fixes a b c :: byte and l v :: u32
  assumes l: "l = push_bit 16 (ucast a) OR push_bit 8 (ucast b) OR ucast c"
    and v: "\<And>n. n < 24 \<Longrightarrow> bit v n = bit l n"
  shows "ucast (drop_bit 16 v) = a" "ucast (drop_bit 8 v) = b" "ucast v = c"
proof -
  have "bit (ucast (drop_bit 16 v) :: byte) n = bit a n \<and> bit (ucast (drop_bit 8 v) :: byte) n = bit b n \<and>
      bit (ucast v :: byte) n = bit c n" if "n < LENGTH(8)" for n
    using that v [of "16 + n"] v [of "8 + n"] v [of n] bit_imp_le_length [of b "8 + n"] bit_imp_le_length [of c "16 + n"] bit_imp_le_length [of c "8 + n"]
    by (auto simp: l bit_simps)
  then show "ucast (drop_bit 16 v) = a" "ucast (drop_bit 8 v) = b" "ucast v = c"
    by (auto intro!: bit_word_eqI)
qed

lemma decode_encode_quad2:
  fixes a b :: byte
  defines "l \<equiv> push_bit 16 (ucast a) OR push_bit 8 (ucast b) :: u32"
  shows "base64_decode_quad (conv_bin2ascii (ucast (drop_bit 18 l))) (conv_bin2ascii (ucast (drop_bit 12 l)))
      (conv_bin2ascii (ucast (drop_bit 6 l))) 0x3D = Some [a, b]"
proof -
  have z: "ucast l AND 0x3F = (0 :: byte)"
    by (rule bit_word_eqI) (auto simp: l_def bit_simps)
  have l: "l = push_bit 16 (ucast a) OR push_bit 8 (ucast b) OR ucast (0 :: byte)" by (simp add: l_def)
  show ?thesis
    using quad_of_bits [OF l sextets_bits [of _ l]]
    unfolding base64_decode_quad_def Let_def ascii_to_bin_conv by (simp add: z sextet_valid conv_plain equals_char)
qed

lemma decode_encode_quad1:
  fixes a :: byte
  defines "l \<equiv> push_bit 16 (ucast a) :: u32"
  shows "base64_decode_quad (conv_bin2ascii (ucast (drop_bit 18 l))) (conv_bin2ascii (ucast (drop_bit 12 l))) 0x3D 0x3D = Some [a]"
proof -
  have z: "ucast l AND 0x3F = (0 :: byte)" "ucast (drop_bit 6 l) AND 0x3F = (0 :: byte)"
    by (rule bit_word_eqI; auto simp: l_def bit_simps)+
  have l: "l = push_bit 16 (ucast a) OR push_bit 8 (ucast (0 :: byte)) OR ucast (0 :: byte)" by (simp add: l_def)
  show ?thesis
    using quad_of_bits [OF l sextets_bits [of _ l]]
    unfolding base64_decode_quad_def Let_def ascii_to_bin_conv by (simp add: z sextet_valid conv_plain equals_char)
qed

section \<open>Blocks\<close>

text \<open>The text of a block, and its length.\<close>

definition b64 :: "byte list \<Rightarrow> byte list" where
  "b64 xs = fst (encode_quads xs 0)"

lemma encode_quads_b64: "encode_quads xs ret = (b64 xs, ret + of_nat (length (b64 xs)))"
proof -
  have "\<exists>t. \<forall>r. encode_quads xs r = (t, r + of_nat (length t))"
  proof (induction xs ret rule: encode_quads.induct)
    case (2 a b c src ret)
    then obtain t where "\<forall>r. encode_quads src r = (t, r + of_nat (length t))" by auto
    then show ?case by (auto simp: Let_def)
  qed (simp_all add: Let_def)
  then show ?thesis by (auto simp: b64_def)
qed


lemma b64_simps:
  "b64 [] = []"
  "b64 (a # b # c # src) =
     (let l = push_bit 16 (ucast a) OR push_bit 8 (ucast b) OR ucast c :: u32
      in conv_bin2ascii (ucast (drop_bit 18 l)) # conv_bin2ascii (ucast (drop_bit 12 l)) #
         conv_bin2ascii (ucast (drop_bit 6 l)) # conv_bin2ascii (ucast l) # b64 src)"
  "b64 [a, b] =
     (let l = push_bit 16 (ucast a) OR push_bit 8 (ucast b) :: u32
      in [conv_bin2ascii (ucast (drop_bit 18 l)), conv_bin2ascii (ucast (drop_bit 12 l)),
          conv_bin2ascii (ucast (drop_bit 6 l)), 0x3D])"
  "b64 [a] =
     (let l = push_bit 16 (ucast a) :: u32
      in [conv_bin2ascii (ucast (drop_bit 18 l)), conv_bin2ascii (ucast (drop_bit 12 l)), 0x3D, 0x3D])"
  by (simp_all only: b64_def [of "[]"] b64_def [of "_ # _"] encode_quads.simps(1,3,4) Let_def fst_conv)
    (simp only: encode_quads.simps(2) encode_quads_b64 [of src] Let_def prod.case fst_conv)

lemma quads_induct [case_names Nil Quad Two One]:
  fixes P :: "byte list \<Rightarrow> bool"
  assumes "P []" "\<And>a b c xs. P xs \<Longrightarrow> P (a # b # c # xs)" "\<And>a b. P [a, b]" "\<And>a. P [a]"
  shows "P xs"
proof -
  have "P xs" for ret :: u64
    by (induction xs ret rule: encode_quads.induct) (use assms in simp_all)
  then show ?thesis .
qed

lemma length_b64: "length (b64 xs) = 4 * ((length xs + 2) div 3)"
proof (induction xs rule: quads_induct)
  case (Quad a b c xs)
  have "length (a # b # c # xs) + 2 = (length xs + 2) + 3" by simp
  then have "(length (a # b # c # xs) + 2) div 3 = Suc ((length xs + 2) div 3)" by simp
  then show ?case using Quad by (simp only: b64_simps Let_def list.size) simp
qed (simp_all add: b64_simps Let_def)

lemma EVP_EncodeBlock_b64: "EVP_EncodeBlock xs = (b64 xs @ [0], of_nat (length (b64 xs)))"
  by (simp add: EVP_EncodeBlock_def encode_quads_b64)

lemma b64_not_blank: "\<not> is_blank c" if "c \<in> set (b64 xs)"
  using that
  by (induction xs rule: quads_induct) (auto simp: b64_simps Let_def conv_plain equals_char)

lemma decode_quads_b64: "decode_quads (b64 xs) = Some xs"
  by (induction xs rule: quads_induct)
    (simp_all only: b64_simps Let_def decode_quads.simps decode_encode_quad decode_encode_quad1 decode_encode_quad2
      option.case list.size option.map, simp_all)

section \<open>Encoding and decoding a block\<close>

text \<open>
  C33: what \<open>EVP_EncodeBlock\<close> writes, \<open>EVP_DecodeBase64\<close> reads back to the same bytes, for every
  input whose text fits in memory and every output buffer of the size \<open>EVP_DecodedLength\<close> asks for;
  the text has the length \<open>EVP_EncodedLength\<close> announces, its terminator included.
\<close>

theorem base64_roundtrip:
  assumes "length xs < 2 ^ 62" "EVP_EncodeBlock xs = (text, n)" "EVP_DecodedLength n = Some max_len" "max_len \<le> max_out"
  shows "EVP_DecodeBase64 max_out (take (unat n) text) = Some xs \<and>
    EVP_EncodedLength (of_nat (length xs)) = Some (of_nat (length text)) \<and> length xs \<le> unat max_len"
proof -
  define k where "k = (length xs + 2) div 3"
  have k: "length (b64 xs) = 4 * k" "k < 2 ^ 61" using assms(1) by (simp_all add: length_b64 k_def)
  have n1: "n = of_nat (4 * k)" and tx: "text = b64 xs @ [0]"
    using assms(2) k by (auto simp: EVP_EncodeBlock_b64)
  have n: "n = of_nat (4 * k)" "unat n = length (b64 xs)"
    unfolding n1 using k(2) by (simp_all only: k(1)) (simp only: unat_of_nat, simp)
  have un: "unat (of_nat m :: u64) = m" if "m < 2 ^ 64" for m using that by (simp add: unat_of_nat)
  have max_len: "max_len = n div 4 * 3" using assms(3) by (simp add: EVP_DecodedLength_def split: if_splits)
  have "unat (n div 4) = k" using un [of "4 * k"] k(2) n by (simp add: unat_div)
  then have "unat max_len = 3 * k" using k(2) unfolding max_len by (simp add: unat_word_ariths)
  moreover have "length xs \<le> 3 * k" by (simp add: k_def)
  moreover have "EVP_DecodeBase64 max_out (take (unat n) text) = Some xs"
    using n(2) tx k assms(3,4) n(1) by (simp add: EVP_DecodeBase64_def decode_quads_b64)
  moreover have "EVP_EncodedLength (of_nat (length xs)) = Some (of_nat (length text))"
  proof -
    have s: "of_nat (length xs) + 2 = (of_nat (length xs + 2) :: u64)" by simp
    have l: "of_nat (length xs + 2) div 3 = (of_nat k :: u64)"
      using assms(1) un [of "length xs + 2"] un [of k] k(2) by (intro word_unat_eq_iff [THEN iffD2]) (simp add: unat_div k_def del: of_nat_add)
    have p: "push_bit 2 (of_nat k) = (of_nat (4 * k) :: u64)" by (simp add: push_bit_eq_mult)
    have d: "drop_bit 2 (of_nat (4 * k) :: u64) = of_nat k"
      using k(2) un [of "4 * k"] by (intro word_unat_eq_iff [THEN iffD2]) (simp add: drop_bit_eq_div unat_div un)
    have "\<not> (of_nat (length xs + 2) :: u64) < of_nat (length xs)" "\<not> (of_nat (4 * k) + 1 :: u64) < of_nat (4 * k)"
      using assms(1) k(2) un [of "length xs + 2"] un [of "length xs"] un [of "4 * k"] un [of "4 * k + 1"]
      by (simp_all add: word_less_nat_alt add.commute)
    then show ?thesis
      unfolding EVP_EncodedLength_def s l Let_def p d using k(1) tx by (simp add: add.commute)
  qed
  ultimately show ?thesis by simp
qed

theorem base64_roundtrip_witness:
  "EVP_DecodeBase64 6 (take (unat (snd (EVP_EncodeBlock [1, 2, 0xFF, 4]))) (fst (EVP_EncodeBlock [1, 2, 0xFF, 4]))) = Some [1, 2, 0xFF, 4]"
proof -
  have n: "snd (EVP_EncodeBlock [1, 2, 0xFF, 4]) = 8" by (simp add: EVP_EncodeBlock_def Let_def)
  show ?thesis
    using base64_roundtrip [of "[1, 2, 0xFF, 4]" _ _ 6 6] by (simp add: n EVP_DecodedLength_def prod_eq_iff)
qed

section \<open>Encoding a stream\<close>

text \<open>The text of a message in lines of 48 bytes, 64 characters each.\<close>

function pem_text :: "byte list \<Rightarrow> byte list" where
  "pem_text xs = (if xs = [] then [] else b64 (take 48 xs) @ [0x0A] @ pem_text (drop 48 xs))"
  by pat_completeness auto
termination by (relation "measure length") auto

declare pem_text.simps [simp del]

lemma pem_text_Nil [simp]: "pem_text [] = []"
  by (simp add: pem_text.simps)

lemma pem_text_line: "length xs = 48 \<Longrightarrow> pem_text (xs @ ys) = b64 xs @ [0x0A] @ pem_text ys"
  by (subst pem_text.simps) auto

lemma pem_text_short: "xs \<noteq> [] \<Longrightarrow> length xs \<le> 48 \<Longrightarrow> pem_text xs = b64 xs @ [0x0A]"
  by (subst pem_text.simps) simp

lemma pem_text_48: "length xs = 48 \<Longrightarrow> pem_text xs = b64 xs @ [0x0A]"
  using pem_text_line [of xs "[]"] by simp

text \<open>The whole lines of an input, and what is left.\<close>

definition whole :: "byte list \<Rightarrow> byte list" where
  "whole xs = take (48 * (length xs div 48)) xs"

definition rest :: "byte list \<Rightarrow> byte list" where
  "rest xs = drop (48 * (length xs div 48)) xs"

lemma whole_rest: "whole xs @ rest xs = xs"
  by (simp add: whole_def rest_def)

lemma length_rest: "length (rest xs) < 48"
  by (simp add: rest_def minus_mult_div_eq_mod)

lemma whole_short [simp]: "length xs < 48 \<Longrightarrow> whole xs = []" "length xs < 48 \<Longrightarrow> rest xs = xs"
  by (simp_all add: whole_def rest_def)

lemma whole_line:
  assumes "length xs = 48"
  shows "whole (xs @ ys) = xs @ whole ys" "rest (xs @ ys) = rest ys"
proof -
  have "length (xs @ ys) div 48 = Suc (length ys div 48)" using assms by (simp add: add.commute div_add_self2)
  then show "whole (xs @ ys) = xs @ whole ys" "rest (xs @ ys) = rest ys" using assms by (simp_all add: whole_def rest_def)
qed

lemma lines_induct [case_names Short Line]:
  fixes P :: "byte list \<Rightarrow> bool"
  assumes "\<And>xs. length xs < 48 \<Longrightarrow> P xs" "\<And>xs ys. length xs = 48 \<Longrightarrow> P ys \<Longrightarrow> P (xs @ ys)"
  shows "P xs"
proof (induction xs rule: length_induct)
  case (1 xs)
  show ?case
  proof (cases "length xs < 48")
    case False
    then have "P (take 48 xs @ drop 48 xs)" using 1 by (intro assms(2)) simp_all
    then show ?thesis by simp
  qed (rule assms(1))
qed

lemma pem_text_whole: "pem_text xs = pem_text (whole xs) @ (if rest xs = [] then [] else b64 (rest xs) @ [0x0A])"
  by (induction xs rule: lines_induct) (simp_all add: pem_text_short pem_text_line whole_line)

lemma pem_text_whole_append: "pem_text (whole xs @ ys) = pem_text (whole xs) @ pem_text ys"
  by (induction xs rule: lines_induct) (simp_all add: pem_text_line whole_line)

lemma length_pem_text: "length (pem_text (whole xs)) = 65 * (length xs div 48)"
  by (induction xs rule: lines_induct) (simp_all add: pem_text_line whole_line length_b64 div_add_self1)

lemma encode_lines_whole:
  "unat tot + length (pem_text (whole inp)) < 2 ^ 64 \<Longrightarrow>
     encode_lines inp out tot = (True, out @ pem_text (whole inp), tot + of_nat (length (pem_text (whole inp))), rest inp)"
proof (induction inp arbitrary: out tot rule: lines_induct)
  case (Short xs)
  then show ?case by (subst encode_lines.simps) simp
next
  case (Line xs ys)
  have b: "length (b64 xs) = 64" using Line.hyps by (simp add: length_b64)
  have tx: "EVP_EncodeBlock xs = (b64 xs @ [0], 64)" by (simp add: EVP_EncodeBlock_b64 b)
  have len: "unat tot + 65 + length (pem_text (whole ys)) < 2 ^ 64"
    using Line.prems by (simp add: whole_line [OF Line.hyps] pem_text_line [OF Line.hyps] b)
  then have u: "unat (tot + 65) = unat tot + 65" by (simp add: unat_plus_if')
  then have "\<not> tot + 64 + 1 < tot" by (simp add: word_less_nat_alt add.assoc)
  then have "encode_lines (xs @ ys) out tot = encode_lines ys (out @ b64 xs @ [0x0A]) (tot + 65)"
    using Line.hyps b by (subst encode_lines.simps) (simp add: tx add.assoc)
  also have "\<dots> = (True, (out @ b64 xs @ [0x0A]) @ pem_text (whole ys), tot + 65 + of_nat (length (pem_text (whole ys))), rest ys)"
    using len by (intro Line.IH) (simp add: u)
  finally show ?case by (simp add: whole_line [OF Line.hyps] pem_text_line [OF Line.hyps] b add.assoc)
qed

text \<open>The context has the bytes \<open>pend\<close> of an unfinished line.\<close>

definition enc_state :: "evp_encode_ctx \<Rightarrow> byte list \<Rightarrow> bool" where
  "enc_state ctx pend \<longleftrightarrow> data_used ctx = of_nat (length pend) \<and> length pend < 48 \<and>
     length (ctx_data ctx) = 48 \<and> take (length pend) (ctx_data ctx) = pend"

lemma length_splice: "i + length bs \<le> length xs \<Longrightarrow> length (splice i bs xs) = length xs"
  by (simp add: splice_def)

lemma take_splice: "i \<le> length xs \<Longrightarrow> take (i + length bs) (splice i bs xs) = take i xs @ bs"
  by (simp add: splice_def)


lemma rest_append: "rest (whole xs @ ys) = rest ys" "whole (whole xs @ ys) = whole xs @ whole ys"
  by (induction xs rule: lines_induct) (simp_all add: whole_line)

lemma EVP_EncodeUpdate_step:
  assumes st: "enc_state ctx pend" and len: "65 * (length (pend @ inp) div 48) \<le> BASE64_INT_MAX" "length inp < 2 ^ 62"
    and run: "EVP_EncodeUpdate ctx inp = (ctx', out, n)"
  shows "enc_state ctx' (rest (pend @ inp)) \<and> take (unat n) out = pem_text (whole (pend @ inp))"
proof -
  let ?k = "length pend"
  have ctx: "data_used ctx = of_nat ?k" "?k < 48" "length (ctx_data ctx) = 48" "take ?k (ctx_data ctx) = pend"
    using st by (simp_all add: enc_state_def)
  have un: "unat (of_nat ?k :: u64) = ?k" "unat (data_used ctx) = ?k"
    unfolding ctx(1) unat_of_nat using ctx(2) by simp_all
  then have used: "ucast (data_used ctx) = (of_nat ?k :: u64)" by (simp only: word_unat_eq_iff unat_ucast_u32)
  note used = used un ctx
  have il: "unat (of_nat (length inp) :: u64) = length inp" using len(2) by (simp add: unat_of_nat)
  have gap: "unat (48 - of_nat ?k :: u64) = 48 - ?k"
    using un(1) ctx(2) by (subst unat_sub) (simp_all only: word_le_nat_alt, simp_all)
  have room: "(of_nat (length inp) :: u64) < 48 - of_nat ?k \<longleftrightarrow> length inp < 48 - ?k"
    unfolding word_less_nat_alt il gap ..
  have nil: "of_nat (length inp) = (0 :: u64) \<longleftrightarrow> inp = []" unfolding unat_eq_0 [symmetric] il by simp
  show ?thesis
  proof (cases "length (pend @ inp) < 48")
    case True
    then have "inp = [] \<or> inp \<noteq> [] \<and> length inp < 48 - ?k" using used(5) by auto
    then show ?thesis
    proof
      assume "inp = []"
      then show ?thesis using run st True by (simp add: EVP_EncodeUpdate_def)
    next
      assume i: "inp \<noteq> [] \<and> length inp < 48 - ?k"
      then have ctx': "ctx' = ctx\<lparr>ctx_data := splice ?k inp (ctx_data ctx), data_used := data_used ctx + ucast (of_nat (length inp) :: u64)\<rparr>"
        and out: "out = []"
        using run by (simp_all add: EVP_EncodeUpdate_def Let_def used(1) nil room un)
      have "data_used ctx + ucast (of_nat (length inp) :: u64) = of_nat (?k + length inp)"
        using len(2) by (simp add: used(4) unsigned_of_nat take_bit_nat_eq_self)
      then have "enc_state ctx' (pend @ inp)"
        using used True by (simp add: enc_state_def ctx' length_splice take_splice)
      then show ?thesis using True out by simp
    qed
  next
    case False
    then have i: "inp \<noteq> []" "\<not> length inp < 48 - ?k" using used(5) by auto
    define line where "line = (if pend = [] then [] else pend @ take (48 - ?k) inp)"
    define left where "left = (if pend = [] then inp else drop (48 - ?k) inp)"
    let ?text = "pem_text (whole (pend @ inp))"
    have split: "pend @ inp = line @ left" "line = [] \<or> length line = 48"
      using i(2) used(5) by (auto simp: line_def left_def)
    have lines: "pem_text (whole (pend @ inp)) = pem_text line @ pem_text (whole left)" "rest (pend @ inp) = rest left"
      using split(2) unfolding split(1) by (auto simp: whole_line pem_text_line pem_text_48)
    have tl: "length (pem_text line) = (if pend = [] then 0 else 65)"
      using split(2) i used(5) by (auto simp: line_def pem_text_48 length_b64)
    define ctx1 where "ctx1 = (if pend = [] then ctx else ctx\<lparr>ctx_data := line, data_used := 0\<rparr>)"
    have "(if data_used ctx \<noteq> 0 then
           let todo = unat (48 - of_nat ?k :: u64); d = splice (unat (of_nat ?k :: u64)) (take todo inp) (ctx_data ctx);
               (text, encoded) = EVP_EncodeBlock d
           in (ctx\<lparr>ctx_data := d, data_used := 0\<rparr>, drop todo inp, take (unat encoded) text @ [0x0A], encoded + 1)
         else (ctx, inp, [], 0)) = (ctx1, left, pem_text line, of_nat (length (pem_text line)))"
    proof (cases "pend = []")
      case True
      then show ?thesis using used(4) by (simp add: ctx1_def left_def line_def)
    next
      case pend: False
      then have u: "data_used ctx \<noteq> 0" using un(2) by (auto simp: unat_eq_0 [symmetric])
      have l: "length line = 48" "line = pend @ take (48 - ?k) inp" using split(2) pend by (auto simp: line_def)
      have "splice ?k (take (48 - ?k) inp) (ctx_data ctx) = line"
        using ctx i(2) by (simp add: splice_def l(2))
      then show ?thesis
        using l pend u length_b64 [of line]
        by (simp add: gap un(1) EVP_EncodeBlock_b64 ctx1_def left_def pem_text_48 Let_def)
    qed
    moreover have "encode_lines left (pem_text line) (of_nat (length (pem_text line))) =
        (True, pem_text line @ pem_text (whole left), of_nat (length (pem_text line)) + of_nat (length (pem_text (whole left))), rest left)"
    proof (rule encode_lines_whole)
      have "length (pem_text line) + length (pem_text (whole left)) = 65 * (length (pend @ inp) div 48)"
        using lines(1) length_pem_text [of "pend @ inp"] by simp
      then show "unat (of_nat (length (pem_text line)) :: u64) + length (pem_text (whole left)) < 2 ^ 64"
        using len(1) tl by (simp add: BASE64_INT_MAX_def)
    qed
    ultimately have res: "ctx' = ctx1\<lparr>ctx_data := splice 0 (rest left) (ctx_data ctx1), data_used := of_nat (length (rest left))\<rparr>"
      "out = (if ?text = [] then [] else ?text @ [0])"
      "n = (if of_nat BASE64_INT_MAX < (of_nat (length ?text) :: u64) then 0 else ucast (of_nat (length ?text) :: u64))"
      using run by (auto simp: EVP_EncodeUpdate_def Let_def used(1) nil room un i lines)
    have tlen: "length ?text \<le> BASE64_INT_MAX" using len(1) by (simp add: length_pem_text)
    then have "unat n = length ?text"
      unfolding res(3) by (simp add: BASE64_INT_MAX_def word_less_nat_alt unat_of_nat unsigned_of_nat take_bit_nat_eq_self)
    moreover have "enc_state ctx' (rest left)"
      using length_rest [of left] split(2) ctx(3)
      by (auto simp: enc_state_def res(1) ctx1_def splice_def line_def)
    ultimately show ?thesis using lines(2) by (simp add: res(2))
  qed
qed

text \<open>All calls of a caller that encodes a message in pieces: the bytes it is given back.\<close>

primrec encode_all :: "evp_encode_ctx \<Rightarrow> byte list list \<Rightarrow> byte list" where
  "encode_all ctx [] = (case EVP_EncodeFinal ctx of (ctx', out, n) \<Rightarrow> take (unat n) out)"
| "encode_all ctx (inp # inps) =
     (case EVP_EncodeUpdate ctx inp of (ctx', out, n) \<Rightarrow> take (unat n) out @ encode_all ctx' inps)"

lemma EVP_EncodeFinal_step:
  assumes "enc_state ctx pend" "EVP_EncodeFinal ctx = (ctx', out, n)"
  shows "take (unat n) out = pem_text pend"
proof -
  have u: "unat (data_used ctx) = length pend" "length pend < 48"
    using assms(1) by (simp_all add: enc_state_def unat_of_nat)
  have b: "length (b64 pend) \<le> 64"
    using u(2) by (simp add: length_b64)
  show ?thesis
  proof (cases "pend = []")
    case True
    then show ?thesis using assms by (simp add: EVP_EncodeFinal_def enc_state_def)
  next
    case False
    then have "data_used ctx \<noteq> 0" using u(1) by (auto simp: unat_eq_0 [symmetric])
    then have "out = b64 pend @ [0x0A, 0]" "n = ucast (of_nat (length (b64 pend)) + 1 :: u64)"
      using assms u b by (auto simp: EVP_EncodeFinal_def EVP_EncodeBlock_b64 enc_state_def unat_of_nat)
    moreover have "unat (ucast (of_nat (length (b64 pend)) + 1 :: u64) :: u32) = length (b64 pend) + 1"
    proof -
      have "of_nat (length (b64 pend)) + 1 = (of_nat (length (b64 pend) + 1) :: u64)" by simp
      then show ?thesis using b by (simp only: unsigned_of_nat take_bit_nat_eq_self) (simp add: take_bit_nat_eq_self)
    qed
    ultimately show ?thesis using False u(2) by (simp add: pem_text_short)
  qed
qed

lemma encode_all_state:
  assumes "enc_state ctx pend" "\<forall>inp \<in> set inps. length inp < 2 ^ 30"
  shows "encode_all ctx inps = pem_text (pend @ concat inps)"
  using assms
proof (induction inps arbitrary: ctx pend)
  case Nil
  obtain ctx' out n where f: "EVP_EncodeFinal ctx = (ctx', out, n)" by (cases "EVP_EncodeFinal ctx")
  then show ?case using EVP_EncodeFinal_step [OF Nil.prems(1) f] by simp
next
  case (Cons inp inps)
  obtain ctx' out n where u: "EVP_EncodeUpdate ctx inp = (ctx', out, n)" by (cases "EVP_EncodeUpdate ctx inp")
  have "length pend < 48" "length inp < 2 ^ 30" using Cons.prems by (auto simp: enc_state_def)
  then have step: "enc_state ctx' (rest (pend @ inp))" "take (unat n) out = pem_text (whole (pend @ inp))"
    using EVP_EncodeUpdate_step [OF Cons.prems(1) _ _ u] by (simp_all add: BASE64_INT_MAX_def)
  have "encode_all ctx (inp # inps) = pem_text (whole (pend @ inp)) @ pem_text (rest (pend @ inp) @ concat inps)"
    using Cons.IH [OF step(1)] Cons.prems(2) step(2) u by simp
  also have "\<dots> = pem_text (whole (pend @ inp) @ rest (pend @ inp) @ concat inps)"
    by (simp add: pem_text_whole_append)
  also have "\<dots> = pem_text (pend @ concat (inp # inps))"
    using whole_rest [of "pend @ inp"] by (metis append.assoc concat.simps(2))
  finally show ?case .
qed

section \<open>Decoding a stream\<close>

lemma decode_chars_append:
  "decode_chars ctx out n (xs @ ys) =
     (case decode_chars ctx out n xs of
        (True, ctx', out', n') \<Rightarrow> decode_chars ctx' out' n' ys
      | r \<Rightarrow> r)"
  by (induction ctx out n xs rule: decode_chars.induct) (auto simp: Let_def split: option.splits)

lemma decode_chars_out:
  "decode_chars ctx (o1 @ o2) (n1 + n2) xs =
     (case decode_chars ctx o2 n2 xs of (ok, ctx', out', n') \<Rightarrow> (ok, ctx', o1 @ out', n1 + n'))"
proof (induction xs arbitrary: ctx o2 n2)
  case (Cons c xs)
  then show ?case by (simp add: Let_def add.assoc split: option.splits)
qed simp

lemma decode_chars_blank: "decode_chars ctx out n xs = decode_chars ctx out n (filter (\<lambda>c. \<not> is_blank c) xs)"
  by (induction ctx out n xs rule: decode_chars.induct) (auto simp: Let_def split: option.splits)

lemma decode_chars_count:
  "decode_chars ctx out (of_nat (length out)) xs = (ok, ctx', out', n') \<Longrightarrow> n' = of_nat (length out')"
proof (induction xs arbitrary: ctx out)
  case (Cons c xs)
  have "decode_chars ctx1 (out @ bs) (of_nat (length out) + of_nat (length bs)) xs = (ok, ctx', out', n') \<Longrightarrow>
      n' = of_nat (length out')" for ctx1 bs
    using Cons.IH [of ctx1 "out @ bs"] by simp
  then show ?case using Cons by (auto simp: Let_def split: if_splits option.splits)
qed simp

lemma decode_chars_error:
  "decode_chars ctx out n xs = (True, ctx', out', n') \<Longrightarrow> error_encountered ctx' = error_encountered ctx"
  by (induction ctx out n xs rule: decode_chars.induct) (auto simp: Let_def split: if_splits option.splits)

text \<open>Four characters at the start of a quad.\<close>

lemma decode_chars_quad:
  assumes "data_used ctx = 0" "\<not> eof_seen ctx" "length (ctx_data ctx) = 48"
    "\<not> is_blank a" "\<not> is_blank b" "\<not> is_blank c" "\<not> is_blank d" "base64_decode_quad a b c d = Some bs"
  shows "\<exists>ctx'. decode_chars ctx out n (a # b # c # d # xs) =
      decode_chars ctx' (out @ bs) (n + of_nat (length bs)) xs \<and>
    data_used ctx' = 0 \<and> eof_seen ctx' = (length bs < 3) \<and> length (ctx_data ctx') = 48 \<and>
    error_encountered ctx' = error_encountered ctx"
proof -
  have u: "unat (1 :: u32) = 1" "unat (1 + 1 :: u32) = 2" "unat (1 + 1 + 1 :: u32) = 3" by simp_all
  show ?thesis
    by (rule exI [of _ "ctx\<lparr>ctx_data := (ctx_data ctx)[0 := a, Suc 0 := b, 2 := c, 3 := d],
        data_used := 0, eof_seen := length bs < 3\<rparr>"]) (use assms in \<open>simp add: Let_def u\<close>)
qed


lemma decode_chars_b64:
  "data_used ctx = 0 \<Longrightarrow> \<not> eof_seen ctx \<Longrightarrow> length (ctx_data ctx) = 48 \<Longrightarrow>
     \<exists>ctx'. decode_chars ctx out n (b64 xs) = (True, ctx', out @ xs, n + of_nat (length xs)) \<and> data_used ctx' = 0"
proof (induction xs arbitrary: ctx out n rule: quads_induct)
  case Nil
  then show ?case by (simp add: b64_simps)
next
  case (Quad a b c xs)
  let ?l = "push_bit 16 (ucast a) OR push_bit 8 (ucast b) OR ucast c :: u32"
  obtain ctx1 where 1: "decode_chars ctx out n (b64 (a # b # c # xs)) = decode_chars ctx1 (out @ [a, b, c]) (n + 3) (b64 xs)"
    "data_used ctx1 = 0" "\<not> eof_seen ctx1" "length (ctx_data ctx1) = 48"
    using decode_chars_quad [OF Quad.prems conv_plain(2) conv_plain(2) conv_plain(2) conv_plain(2) decode_encode_quad [of a b c], of out n "b64 xs"]
    unfolding b64_simps Let_def by auto
  obtain ctx' where "decode_chars ctx1 (out @ [a, b, c]) (n + 3) (b64 xs) = (True, ctx', (out @ [a, b, c]) @ xs, n + 3 + of_nat (length xs))"
    "data_used ctx' = 0"
    using Quad.IH [OF 1(2-4)] by blast
  then show ?case using 1(1) by (simp add: add.assoc)
next
  case (Two a b)
  obtain ctx' where "decode_chars ctx out n (b64 [a, b]) = decode_chars ctx' (out @ [a, b]) (n + of_nat (length [a, b])) []"
    "data_used ctx' = 0"
    using decode_chars_quad [OF Two conv_plain(2) conv_plain(2) conv_plain(2) equals_char(2) decode_encode_quad2 [of a b], of out n "[]"]
    unfolding b64_simps Let_def by blast
  then show ?case by (simp only: decode_chars.simps) simp
next
  case (One a)
  obtain ctx' where "decode_chars ctx out n (b64 [a]) = decode_chars ctx' (out @ [a]) (n + of_nat (length [a])) []"
    "data_used ctx' = 0"
    using decode_chars_quad [OF One conv_plain(2) conv_plain(2) equals_char(2) equals_char(2) decode_encode_quad1 [of a], of out n "[]"]
    unfolding b64_simps Let_def by blast
  then show ?case by (simp only: decode_chars.simps) simp
qed

text \<open>All calls of a caller that decodes a text in pieces; \<open>None\<close> where a call fails.\<close>

primrec decode_all :: "evp_encode_ctx \<Rightarrow> byte list list \<Rightarrow> byte list option" where
  "decode_all ctx [] = (if EVP_DecodeFinal ctx = 1 then Some [] else None)"
| "decode_all ctx (inp # inps) =
     (case EVP_DecodeUpdate ctx inp of
        (r, ctx', out, n) \<Rightarrow>
          if r = - 1 then None else map_option (\<lambda>zs. take (unat n) out @ zs) (decode_all ctx' inps))"

lemma decode_all_run:
  assumes "decode_chars ctx [] 0 (concat inps) = (True, ctx', xs, of_nat (length xs))" "data_used ctx' = 0"
    "\<not> error_encountered ctx" "length xs \<le> BASE64_INT_MAX"
  shows "decode_all ctx inps = Some xs"
  using assms
proof (induction inps arbitrary: ctx xs)
  case Nil
  then show ?case by (simp add: EVP_DecodeFinal_def)
next
  case (Cons inp inps)
  obtain ok ctx1 out1 n1 where 1: "decode_chars ctx [] 0 inp = (ok, ctx1, out1, n1)" by (cases "decode_chars ctx [] 0 inp")
  have ok: "ok" using Cons.prems(1) 1 by (cases ok) (simp_all add: decode_chars_append)
  obtain ok2 ctx2 out2 n2 where 2: "decode_chars ctx1 [] 0 (concat inps) = (ok2, ctx2, out2, n2)"
    by (cases "decode_chars ctx1 [] 0 (concat inps)")
  have n: "n1 = of_nat (length out1)" "n2 = of_nat (length out2)"
    using decode_chars_count [of ctx "[]" inp] decode_chars_count [of ctx1 "[]" "concat inps"] 1 2 by simp_all
  have "decode_chars ctx [] 0 (concat (inp # inps)) = (ok2, ctx2, out1 @ out2, n1 + n2)"
    using decode_chars_out [of ctx1 out1 "[]" n1 0 "concat inps"] 1 2 ok by (simp add: decode_chars_append)
  then have xs: "ok2" "ctx2 = ctx'" "xs = out1 @ out2" using Cons.prems(1) by simp_all
  have "decode_all ctx1 inps = Some out2"
    using Cons.prems 2 n xs decode_chars_error [of ctx "[]" 0 inp ctx1] 1 ok by (intro Cons.IH) simp_all
  moreover have len: "length out1 \<le> BASE64_INT_MAX" using Cons.prems(4) xs(3) by simp
  then have "\<not> of_nat BASE64_INT_MAX < n1" "unat (ucast n1 :: u32) = length out1"
    unfolding n by (simp_all add: BASE64_INT_MAX_def word_less_nat_alt unat_of_nat unsigned_of_nat take_bit_nat_eq_self)
  ultimately show ?case
    using 1 ok Cons.prems(3) xs(3) by (simp add: EVP_DecodeUpdate_def)
qed


lemma b64_append: "3 dvd length xs \<Longrightarrow> b64 (xs @ ys) = b64 xs @ b64 ys"
proof (induction xs rule: quads_induct)
  case (Quad a b c xs)
  then have "3 dvd length xs" by (simp, presburger)
  then show ?case using Quad by (simp add: b64_simps Let_def)
next
  case (Two a b)
  then show ?case by (simp, presburger)
qed (simp_all add: b64_simps)

lemma pem_text_b64: "filter (\<lambda>c. \<not> is_blank c) (pem_text xs) = b64 xs"
proof -
  have b: "filter (\<lambda>c. \<not> is_blank c) (b64 ys) = b64 ys" for ys
    using b64_not_blank by (simp add: filter_id_conv)
  have nl: "is_blank 0x0A" by (simp add: is_blank_def)
  show ?thesis
  proof (induction xs rule: lines_induct)
    case (Short xs)
    then show ?case by (cases "xs = []") (simp_all add: pem_text_short b nl b64_simps)
  next
    case (Line xs ys)
    then show ?case by (simp add: pem_text_line b nl b64_append)
  qed
qed

section \<open>The streaming interface\<close>

text \<open>
  C32: the streaming encoder is independent of how its input is cut up: whatever the pieces, the
  bytes that \<open>EVP_EncodeUpdate\<close> and \<open>EVP_EncodeFinal\<close> give back are the base64 lines of the whole
  message, and no piece is lost at a border.
\<close>

theorem encode_stream_lines:
  assumes "\<forall>inp \<in> set inps. length inp < 2 ^ 30"
  shows "encode_all EVP_EncodeInit inps = pem_text (concat inps)"
  using encode_all_state [of EVP_EncodeInit "[]" inps] assms by (simp add: enc_state_def EVP_EncodeInit_def)

theorem encode_stream_lines_witness:
  "encode_all EVP_EncodeInit [[1], [], [2, 3]] = pem_text [1, 2, 3]"
  using encode_stream_lines [of "[[1], [], [2, 3]]"] by simp

text \<open>
  C31: the streaming decoder inverts the streaming encoder, however both streams are cut up and
  wherever blanks and line breaks are put in or left out: every call succeeds, and together they
  give back the message.
\<close>

theorem base64_stream_roundtrip:
  assumes "\<forall>inp \<in> set inps. length inp < 2 ^ 30" "length (concat inps) \<le> BASE64_INT_MAX"
    "filter (\<lambda>c. \<not> is_blank c) (concat pieces) = filter (\<lambda>c. \<not> is_blank c) (encode_all EVP_EncodeInit inps)"
  shows "decode_all EVP_DecodeInit pieces = Some (concat inps)"
proof -
  let ?xs = "concat inps"
  have enc: "encode_all EVP_EncodeInit inps = pem_text ?xs"
    using encode_all_state [of EVP_EncodeInit "[]" inps] assms(1) by (simp add: enc_state_def EVP_EncodeInit_def)
  have init: "data_used EVP_DecodeInit = 0" "\<not> eof_seen EVP_DecodeInit" "length (ctx_data EVP_DecodeInit) = 48"
    "\<not> error_encountered EVP_DecodeInit"
    by (simp_all add: EVP_DecodeInit_def)
  obtain ctx' where "decode_chars EVP_DecodeInit [] 0 (b64 ?xs) = (True, ctx', ?xs, of_nat (length ?xs))" "data_used ctx' = 0"
    using decode_chars_b64 [OF init(1-3), of "[]" 0 ?xs] by auto
  moreover have "decode_chars EVP_DecodeInit [] 0 (concat pieces) = decode_chars EVP_DecodeInit [] 0 (b64 ?xs)"
    by (subst decode_chars_blank) (simp only: assms(3) enc pem_text_b64)
  ultimately show ?thesis
    using assms(2) init(4) by (intro decode_all_run) simp_all
qed

theorem base64_stream_roundtrip_witness:
  "decode_all EVP_DecodeInit [[0x41, 0x51], [0x20, 0x49], [0x44, 0x0D, 0x0A]] = Some [1, 2, 3]"
proof -
  have "encode_all EVP_EncodeInit [[1, 2], [3]] = pem_text [1, 2, 3]"
    using encode_all_state [of EVP_EncodeInit "[]" "[[1, 2], [3]]"] by (simp add: enc_state_def EVP_EncodeInit_def)
  moreover have "b64 [1, 2, 3] = [0x41, 0x51, 0x49, 0x44]"
    by (simp add: b64_simps Let_def) (simp add: conv_bin2ascii)
  ultimately show ?thesis
    using base64_stream_roundtrip [of "[[1, 2], [3]]" "[[0x41, 0x51], [0x20, 0x49], [0x44, 0x0D, 0x0A]]"]
    by (simp add: BASE64_INT_MAX_def pem_text_b64) (simp add: is_blank_def)
qed

text \<open>\<open>EVP_DecodeBlock\<close> strips blanks and line breaks behind the text, but no minus sign.\<close>

lemma decode_block_minus: "EVP_DecodeBlock [0x51, 0x51, 0x3D, 0x3D, 0x2D] = None"
  by (simp add: EVP_DecodeBlock_def EVP_DecodedLength_def is_blank_def Let_def)

end
