(* ===== verification/Bs_Cbs.thy ===== *)
theory Bs_Cbs
  imports Prelude
begin

text \<open>
  \<open>crypto/bytestring/cbs.c\<close> of BoringSSL: byte strings (\<open>CBS\<close>) as a slice of memory, the integers and
  length-prefixed strings read off their front, and the parsers of ASN.1 elements.
\<close>

section \<open>ASN.1 tags\<close>

definition CBS_ASN1_TAG_SHIFT :: nat where [simp]: "CBS_ASN1_TAG_SHIFT = 24"
definition CBS_ASN1_CONSTRUCTED :: u32 where [simp]: "CBS_ASN1_CONSTRUCTED = 0x20000000"
definition CBS_ASN1_TAG_NUMBER_MASK :: u32 where [simp]: "CBS_ASN1_TAG_NUMBER_MASK = 0x1FFFFFFF"
definition CBS_ASN1_BOOLEAN :: u32 where [simp]: "CBS_ASN1_BOOLEAN = 0x1"
definition CBS_ASN1_INTEGER :: u32 where [simp]: "CBS_ASN1_INTEGER = 0x2"
definition CBS_ASN1_OCTETSTRING :: u32 where [simp]: "CBS_ASN1_OCTETSTRING = 0x4"

section \<open>Byte strings\<close>

record cbs =
  cbs_data :: addr
  cbs_len :: u64

text \<open>
  A function \<open>int f(CBS *cbs, T *out)\<close> has the result \<open>(Some out, cbs')\<close> where it returns 1 and
  \<open>(None, cbs')\<close> where it returns 0; \<open>cbs'\<close> is what it leaves in \<open>*cbs\<close> in either case.
  \<open>get_then r k\<close> is \<open>if (!f(cbs, &x)) return 0; k\<close>.
\<close>

type_synonym 'a cbs_result = "'a option \<times> cbs"

definition get_then :: "'a cbs_result \<Rightarrow> ('a \<Rightarrow> cbs \<Rightarrow> 'b cbs_result) \<Rightarrow> 'b cbs_result" where
  "get_then r k = (case r of (None, cbs) \<Rightarrow> (None, cbs) | (Some x, cbs) \<Rightarrow> k x cbs)"

lemma get_then_simps [simp]:
  "get_then (None, cbs) k = (None, cbs)" "get_then (Some x, cbs) k = k x cbs"
  by (simp_all add: get_then_def)

definition CBS_init :: "addr \<Rightarrow> u64 \<Rightarrow> cbs" where
  "CBS_init data len = \<lparr>cbs_data = data, cbs_len = len\<rparr>"

definition cbs_get :: "cbs \<Rightarrow> u64 \<Rightarrow> addr cbs_result" where
  "cbs_get cbs n =
     (if cbs_len cbs < n then (None, cbs)
      else (Some (cbs_data cbs), cbs\<lparr>cbs_data := cbs_data cbs + n, cbs_len := cbs_len cbs - n\<rparr>))"

definition CBS_skip :: "cbs \<Rightarrow> u64 \<Rightarrow> unit cbs_result" where
  "CBS_skip cbs len = get_then (cbs_get cbs len) (\<lambda>p cbs. (Some (), cbs))"

definition CBS_data :: "cbs \<Rightarrow> addr" where
  "CBS_data cbs = cbs_data cbs"

definition CBS_len :: "cbs \<Rightarrow> u64" where
  "CBS_len cbs = cbs_len cbs"

definition CBS_contains_zero_byte :: "memory \<Rightarrow> cbs \<Rightarrow> bool" where
  "CBS_contains_zero_byte m cbs = list_ex (\<lambda>b. b = 0) (load_bytes m (cbs_data cbs) (unat (cbs_len cbs)))"

definition CBS_mem_equal :: "memory \<Rightarrow> cbs \<Rightarrow> addr \<Rightarrow> u64 \<Rightarrow> bool" where
  "CBS_mem_equal m cbs data len =
     (if len \<noteq> cbs_len cbs then False
      else load_bytes m (cbs_data cbs) (unat len) = load_bytes m data (unat len))"

text \<open>\<open>for (i = 0; i < len; i++) { result <<= 8; result |= data[i]; }\<close>\<close>

primrec be_loop :: "memory \<Rightarrow> addr \<Rightarrow> nat \<Rightarrow> u64 \<Rightarrow> u64" where
  "be_loop m p 0 result = result"
| "be_loop m p (Suc n) result = be_loop m (p + 1) n (push_bit 8 result OR ucast (m p))"

definition cbs_get_u :: "memory \<Rightarrow> cbs \<Rightarrow> u64 \<Rightarrow> u64 cbs_result" where
  "cbs_get_u m cbs len =
     get_then (cbs_get cbs len) (\<lambda>data cbs. (Some (be_loop m data (unat len) 0), cbs))"

definition CBS_get_u8 :: "memory \<Rightarrow> cbs \<Rightarrow> byte cbs_result" where
  "CBS_get_u8 m cbs = get_then (cbs_get cbs 1) (\<lambda>v cbs. (Some (m v), cbs))"

definition CBS_get_u16 :: "memory \<Rightarrow> cbs \<Rightarrow> u16 cbs_result" where
  "CBS_get_u16 m cbs = get_then (cbs_get_u m cbs 2) (\<lambda>v cbs. (Some (ucast v), cbs))"

definition CRYPTO_bswap2 :: "u16 \<Rightarrow> u16" where
  "CRYPTO_bswap2 x = drop_bit 8 x OR push_bit 8 x"

definition CBS_get_u16le :: "memory \<Rightarrow> cbs \<Rightarrow> u16 cbs_result" where
  "CBS_get_u16le m cbs = get_then (CBS_get_u16 m cbs) (\<lambda>v cbs. (Some (CRYPTO_bswap2 v), cbs))"

definition CBS_get_u24 :: "memory \<Rightarrow> cbs \<Rightarrow> u32 cbs_result" where
  "CBS_get_u24 m cbs = get_then (cbs_get_u m cbs 3) (\<lambda>v cbs. (Some (ucast v), cbs))"

definition CBS_get_u32 :: "memory \<Rightarrow> cbs \<Rightarrow> u32 cbs_result" where
  "CBS_get_u32 m cbs = get_then (cbs_get_u m cbs 4) (\<lambda>v cbs. (Some (ucast v), cbs))"

definition CRYPTO_bswap4 :: "u32 \<Rightarrow> u32" where
  "CRYPTO_bswap4 x0 =
     (let x = drop_bit 16 x0 OR push_bit 16 x0
      in drop_bit 8 (x AND 0xFF00FF00) OR push_bit 8 (x AND 0x00FF00FF))"

definition CBS_get_u32le :: "memory \<Rightarrow> cbs \<Rightarrow> u32 cbs_result" where
  "CBS_get_u32le m cbs = get_then (CBS_get_u32 m cbs) (\<lambda>v cbs. (Some (CRYPTO_bswap4 v), cbs))"

definition CBS_get_u64 :: "memory \<Rightarrow> cbs \<Rightarrow> u64 cbs_result" where
  "CBS_get_u64 m cbs = cbs_get_u m cbs 8"

definition CRYPTO_bswap8 :: "u64 \<Rightarrow> u64" where
  "CRYPTO_bswap8 x =
     ucast (CRYPTO_bswap4 (ucast (drop_bit 32 x))) OR push_bit 32 (ucast (CRYPTO_bswap4 (ucast x)))"

definition CBS_get_u64le :: "memory \<Rightarrow> cbs \<Rightarrow> u64 cbs_result" where
  "CBS_get_u64le m cbs = get_then (cbs_get_u m cbs 8) (\<lambda>v cbs. (Some (CRYPTO_bswap8 v), cbs))"

definition CBS_get_last_u8 :: "memory \<Rightarrow> cbs \<Rightarrow> byte cbs_result" where
  "CBS_get_last_u8 m cbs =
     (if cbs_len cbs = 0 then (None, cbs)
      else (Some (m (cbs_data cbs + (cbs_len cbs - 1))), cbs\<lparr>cbs_len := cbs_len cbs - 1\<rparr>))"

definition CBS_get_bytes :: "cbs \<Rightarrow> u64 \<Rightarrow> cbs cbs_result" where
  "CBS_get_bytes cbs len = get_then (cbs_get cbs len) (\<lambda>v cbs. (Some (CBS_init v len), cbs))"

text \<open>The bytes that are copied to \<open>out\<close>.\<close>

definition CBS_copy_bytes :: "memory \<Rightarrow> cbs \<Rightarrow> u64 \<Rightarrow> byte list cbs_result" where
  "CBS_copy_bytes m cbs len = get_then (cbs_get cbs len) (\<lambda>v cbs. (Some (load_bytes m v (unat len)), cbs))"

definition cbs_get_length_prefixed :: "memory \<Rightarrow> cbs \<Rightarrow> u64 \<Rightarrow> cbs cbs_result" where
  "cbs_get_length_prefixed m cbs len_len =
     get_then (cbs_get_u m cbs len_len) (\<lambda>len cbs. CBS_get_bytes cbs len)"

definition CBS_get_u8_length_prefixed :: "memory \<Rightarrow> cbs \<Rightarrow> cbs cbs_result" where
  "CBS_get_u8_length_prefixed m cbs = cbs_get_length_prefixed m cbs 1"

definition CBS_get_u16_length_prefixed :: "memory \<Rightarrow> cbs \<Rightarrow> cbs cbs_result" where
  "CBS_get_u16_length_prefixed m cbs = cbs_get_length_prefixed m cbs 2"

definition CBS_get_u24_length_prefixed :: "memory \<Rightarrow> cbs \<Rightarrow> cbs cbs_result" where
  "CBS_get_u24_length_prefixed m cbs = cbs_get_length_prefixed m cbs 3"

text \<open>\<open>memchr\<close>: the first address from \<open>p\<close> on that has the byte \<open>c\<close>.\<close>

primrec mem_chr :: "memory \<Rightarrow> addr \<Rightarrow> byte \<Rightarrow> nat \<Rightarrow> addr option" where
  "mem_chr m p c 0 = None"
| "mem_chr m p c (Suc n) = (if m p = c then Some p else mem_chr m (p + 1) c n)"

definition CBS_get_until_first :: "memory \<Rightarrow> cbs \<Rightarrow> byte \<Rightarrow> cbs cbs_result" where
  "CBS_get_until_first m cbs c =
     (case mem_chr m (CBS_data cbs) c (unat (CBS_len cbs)) of
        None \<Rightarrow> (None, cbs)
      | Some split \<Rightarrow> CBS_get_bytes cbs (split - CBS_data cbs))"

section \<open>Tags and elements\<close>

lemma CBS_get_u8_len:
  assumes "CBS_get_u8 m cbs = (Some b, cbs')"
  shows "unat (cbs_len cbs) = Suc (unat (cbs_len cbs'))"
proof -
  have *: "\<not> cbs_len cbs < 1" "cbs_len cbs' = cbs_len cbs - 1"
    using assms by (auto simp: CBS_get_u8_def cbs_get_def get_then_def split: if_splits)
  then have "cbs_len cbs \<noteq> 0" by auto
  then show ?thesis unfolding *(2) by (simp add: unat_minus_one unat_gt_0 [symmetric] del: unat_gt_0)
qed

function parse_base128_loop :: "memory \<Rightarrow> cbs \<Rightarrow> u64 \<Rightarrow> u64 cbs_result" where
  "parse_base128_loop m cbs v =
     (case CBS_get_u8 m cbs of
        (None, cbs') \<Rightarrow> (None, cbs')
      | (Some b, cbs') \<Rightarrow>
          if drop_bit (64 - 7) v \<noteq> 0 then (None, cbs')
          else if v = 0 \<and> b = 0x80 then (None, cbs')
          else
            let v' = push_bit 7 v OR ucast (b AND 0x7F) in
            if b AND 0x80 \<noteq> 0 then parse_base128_loop m cbs' v' else (Some v', cbs'))"
  by pat_completeness auto
termination
  by (relation "measure (\<lambda>(m, cbs, v). unat (cbs_len cbs))") (auto dest!: sym [of "(Some _, _)"] CBS_get_u8_len)

declare parse_base128_loop.simps [simp del]

definition parse_base128_integer :: "memory \<Rightarrow> cbs \<Rightarrow> u64 cbs_result" where
  "parse_base128_integer m cbs = parse_base128_loop m cbs 0"

definition parse_asn1_tag :: "memory \<Rightarrow> cbs \<Rightarrow> u32 cbs_result" where
  "parse_asn1_tag m cbs =
     get_then (CBS_get_u8 m cbs) (\<lambda>tag_byte cbs.
       let tag = push_bit CBS_ASN1_TAG_SHIFT (ucast tag_byte AND 0xE0) :: u32;
           tag_number = ucast (tag_byte AND 0x1F) :: u32 in
       if tag_number = 0x1F then
         get_then (parse_base128_integer m cbs) (\<lambda>v cbs.
           if ucast CBS_ASN1_TAG_NUMBER_MASK < v \<or> v < 0x1F then (None, cbs)
           else (Some (tag OR ucast v), cbs))
       else (Some (tag OR tag_number), cbs))"

text \<open>What an element parser hands out: \<open>*out\<close>, \<open>*out_tag\<close>, \<open>*out_header_len\<close>, \<open>*out_ber_found\<close>.\<close>

record asn1_element =
  el_out :: cbs
  el_tag :: u32
  el_header_len :: u64
  el_ber_found :: bool

definition get_element :: "cbs \<Rightarrow> u64 \<Rightarrow> u32 \<Rightarrow> u64 \<Rightarrow> bool \<Rightarrow> asn1_element cbs_result" where
  "get_element cbs len tag header_len ber_found =
     get_then (CBS_get_bytes cbs len) (\<lambda>out cbs.
       (Some \<lparr>el_out = out, el_tag = tag, el_header_len = header_len, el_ber_found = ber_found\<rparr>, cbs))"

definition cbs_get_any_asn1_element :: "memory \<Rightarrow> cbs \<Rightarrow> bool \<Rightarrow> asn1_element cbs_result" where
  "cbs_get_any_asn1_element m cbs ber_ok =
     (case parse_asn1_tag m cbs of
        (None, header) \<Rightarrow> (None, cbs)
      | (Some tag, header) \<Rightarrow>
          (case CBS_get_u8 m header of
             (None, header) \<Rightarrow> (None, cbs)
           | (Some length_byte, header) \<Rightarrow>
               let header_len = CBS_len cbs - CBS_len header in
               if length_byte AND 0x80 = 0
               then get_element cbs (ucast length_byte + header_len) tag header_len False
               else
                 let num_bytes = ucast (length_byte AND 0x7F) :: u64 in
                 if ber_ok \<and> tag AND CBS_ASN1_CONSTRUCTED \<noteq> 0 \<and> num_bytes = 0
                 then get_element cbs header_len tag header_len True
                 else if num_bytes = 0 \<or> 4 < num_bytes then (None, cbs)
                 else
                   (case cbs_get_u m header num_bytes of
                      (None, header) \<Rightarrow> (None, cbs)
                    | (Some len64, header) \<Rightarrow>
                        let short = len64 < 128; long = drop_bit (unat ((num_bytes - 1) * 8)) len64 = 0 in
                        if (short \<or> long) \<and> \<not> ber_ok then (None, cbs)
                        else if len64 + header_len + num_bytes < len64 then (None, cbs)
                        else get_element cbs (len64 + (header_len + num_bytes)) tag (header_len + num_bytes)
                               (short \<or> long))))"

definition CBS_get_any_asn1_element :: "memory \<Rightarrow> cbs \<Rightarrow> asn1_element cbs_result" where
  "CBS_get_any_asn1_element m cbs = cbs_get_any_asn1_element m cbs False"

definition CBS_get_any_ber_asn1_element :: "memory \<Rightarrow> cbs \<Rightarrow> asn1_element cbs_result" where
  "CBS_get_any_ber_asn1_element m cbs = cbs_get_any_asn1_element m cbs True"

definition CBS_get_any_asn1 :: "memory \<Rightarrow> cbs \<Rightarrow> (cbs \<times> u32) cbs_result" where
  "CBS_get_any_asn1 m cbs =
     get_then (CBS_get_any_asn1_element m cbs) (\<lambda>el cbs.
       case CBS_skip (el_out el) (el_header_len el) of
         (None, out) \<Rightarrow> (None, cbs)
       | (Some u, out) \<Rightarrow> (Some (out, el_tag el), cbs))"

definition cbs_get_asn1 :: "memory \<Rightarrow> cbs \<Rightarrow> u32 \<Rightarrow> bool \<Rightarrow> cbs cbs_result" where
  "cbs_get_asn1 m cbs tag_value skip_header =
     get_then (CBS_get_any_asn1_element m cbs) (\<lambda>el cbs.
       if el_tag el \<noteq> tag_value then (None, cbs)
       else if skip_header then
         (case CBS_skip (el_out el) (el_header_len el) of
            (None, out) \<Rightarrow> (None, cbs)
          | (Some u, out) \<Rightarrow> (Some out, cbs))
       else (Some (el_out el), cbs))"

definition CBS_get_asn1 :: "memory \<Rightarrow> cbs \<Rightarrow> u32 \<Rightarrow> cbs cbs_result" where
  "CBS_get_asn1 m cbs tag_value = cbs_get_asn1 m cbs tag_value True"

definition CBS_get_asn1_element :: "memory \<Rightarrow> cbs \<Rightarrow> u32 \<Rightarrow> cbs cbs_result" where
  "CBS_get_asn1_element m cbs tag_value = cbs_get_asn1 m cbs tag_value False"

definition CBS_peek_asn1_tag :: "memory \<Rightarrow> cbs \<Rightarrow> u32 \<Rightarrow> bool" where
  "CBS_peek_asn1_tag m cbs tag_value =
     (if CBS_len cbs < 1 then False else fst (parse_asn1_tag m cbs) = Some tag_value)"


section \<open>Values\<close>

definition CBS_is_valid_asn1_integer :: "memory \<Rightarrow> cbs \<Rightarrow> bool option" where
  "CBS_is_valid_asn1_integer m cbs =
     (case CBS_get_u8 m cbs of
        (None, copy) \<Rightarrow> None
      | (Some first_byte, copy) \<Rightarrow>
          let is_negative = (first_byte AND 0x80 \<noteq> 0) in
          (case CBS_get_u8 m copy of
             (None, copy) \<Rightarrow> Some is_negative
           | (Some second_byte, copy) \<Rightarrow>
               if first_byte = 0 \<and> second_byte AND 0x80 = 0 \<or> first_byte = 0xFF \<and> second_byte AND 0x80 \<noteq> 0
               then None else Some is_negative))"

definition CBS_is_unsigned_asn1_integer :: "memory \<Rightarrow> cbs \<Rightarrow> bool" where
  "CBS_is_unsigned_asn1_integer m cbs \<longleftrightarrow> CBS_is_valid_asn1_integer m cbs = Some False"

text \<open>\<open>for (i = 0; i < len; i++) { if ((*out >> 56) != 0) return 0; *out <<= 8; *out |= data[i]; }\<close>\<close>

primrec uint64_loop :: "memory \<Rightarrow> addr \<Rightarrow> nat \<Rightarrow> u64 \<Rightarrow> u64 option" where
  "uint64_loop m p 0 out = Some out"
| "uint64_loop m p (Suc n) out =
     (if drop_bit 56 out \<noteq> 0 then None else uint64_loop m (p + 1) n (push_bit 8 out OR ucast (m p)))"

definition CBS_get_asn1_uint64 :: "memory \<Rightarrow> cbs \<Rightarrow> u64 cbs_result" where
  "CBS_get_asn1_uint64 m cbs =
     get_then (CBS_get_asn1 m cbs CBS_ASN1_INTEGER) (\<lambda>bytes cbs.
       if \<not> CBS_is_unsigned_asn1_integer m bytes then (None, cbs)
       else (uint64_loop m (CBS_data bytes) (unat (CBS_len bytes)) 0, cbs))"

text \<open>
  The bytes of the union, sign extension first: \<open>u.bytes[i] = data[len - i - 1]\<close> for \<open>i < len\<close>.
\<close>

definition CBS_get_asn1_int64 :: "memory \<Rightarrow> cbs \<Rightarrow> u64 cbs_result" where
  "CBS_get_asn1_int64 m cbs =
     get_then (CBS_get_asn1 m cbs CBS_ASN1_INTEGER) (\<lambda>bytes cbs.
       case CBS_is_valid_asn1_integer m bytes of
         None \<Rightarrow> (None, cbs)
       | Some is_negative \<Rightarrow>
           let len = unat (CBS_len bytes) in
           if 8 < len then (None, cbs)
           else
             let u = map (\<lambda>i. if i < len then m (CBS_data bytes + of_nat (len - i - 1))
                              else if is_negative then 0xFF else 0) [0..<8]
             in (Some (le_word u), cbs))"

definition CBS_get_asn1_bool :: "memory \<Rightarrow> cbs \<Rightarrow> bool cbs_result" where
  "CBS_get_asn1_bool m cbs =
     get_then (CBS_get_asn1 m cbs CBS_ASN1_BOOLEAN) (\<lambda>bytes cbs.
       if CBS_len bytes \<noteq> 1 then (None, cbs)
       else
         let value = m (CBS_data bytes) in
         if value \<noteq> 0 \<and> value \<noteq> 0xFF then (None, cbs) else (Some (value \<noteq> 0), cbs))"

text \<open>The result is \<open>*out\<close> where the element is present.\<close>

definition CBS_get_optional_asn1 :: "memory \<Rightarrow> cbs \<Rightarrow> u32 \<Rightarrow> cbs option cbs_result" where
  "CBS_get_optional_asn1 m cbs tag =
     (if CBS_peek_asn1_tag m cbs tag
      then get_then (CBS_get_asn1 m cbs tag) (\<lambda>out cbs. (Some (Some out), cbs))
      else (Some None, cbs))"

definition CBS_get_optional_asn1_octet_string :: "memory \<Rightarrow> cbs \<Rightarrow> u32 \<Rightarrow> (bool \<times> cbs) cbs_result" where
  "CBS_get_optional_asn1_octet_string m cbs tag =
     get_then (CBS_get_optional_asn1 m cbs tag) (\<lambda>present cbs.
       case present of
         None \<Rightarrow> (Some (False, CBS_init NULL 0), cbs)
       | Some child \<Rightarrow>
           (case CBS_get_asn1 m child CBS_ASN1_OCTETSTRING of
              (None, child) \<Rightarrow> (None, cbs)
            | (Some out, child) \<Rightarrow> if CBS_len child \<noteq> 0 then (None, cbs) else (Some (True, out), cbs)))"

definition CBS_get_optional_asn1_uint64 :: "memory \<Rightarrow> cbs \<Rightarrow> u32 \<Rightarrow> u64 \<Rightarrow> u64 cbs_result" where
  "CBS_get_optional_asn1_uint64 m cbs tag default_value =
     get_then (CBS_get_optional_asn1 m cbs tag) (\<lambda>present cbs.
       case present of
         None \<Rightarrow> (Some default_value, cbs)
       | Some child \<Rightarrow>
           (case CBS_get_asn1_uint64 m child of
              (None, child) \<Rightarrow> (None, cbs)
            | (Some out, child) \<Rightarrow> if CBS_len child \<noteq> 0 then (None, cbs) else (Some out, cbs)))"

definition CBS_get_optional_asn1_bool :: "memory \<Rightarrow> cbs \<Rightarrow> u32 \<Rightarrow> bool \<Rightarrow> bool cbs_result" where
  "CBS_get_optional_asn1_bool m cbs tag default_value =
     get_then (CBS_get_optional_asn1 m cbs tag) (\<lambda>present cbs.
       case present of
         None \<Rightarrow> (Some default_value, cbs)
       | Some child \<Rightarrow>
           (case CBS_get_asn1 m child CBS_ASN1_BOOLEAN of
              (None, child) \<Rightarrow> (None, cbs)
            | (Some child2, child) \<Rightarrow>
                if CBS_len child2 \<noteq> 1 \<or> CBS_len child \<noteq> 0 then (None, cbs)
                else
                  let boolean = m (CBS_data child2) in
                  if boolean = 0 then (Some False, cbs)
                  else if boolean = 0xFF then (Some True, cbs)
                  else (None, cbs)))"

definition CBS_is_valid_asn1_bitstring :: "memory \<Rightarrow> cbs \<Rightarrow> bool" where
  "CBS_is_valid_asn1_bitstring m cbs =
     (case CBS_get_u8 m cbs of
        (None, inp) \<Rightarrow> False
      | (Some num_unused_bits, inp) \<Rightarrow>
          if 7 < num_unused_bits then False
          else if num_unused_bits = 0 then True
          else
            (case CBS_get_last_u8 m inp of
               (None, inp) \<Rightarrow> False
             | (Some last_byte, inp) \<Rightarrow> (ucast last_byte :: u32) AND (push_bit (unat num_unused_bits) 1 - 1) = 0))"

definition CBS_asn1_bitstring_has_bit :: "memory \<Rightarrow> cbs \<Rightarrow> u32 \<Rightarrow> bool" where
  "CBS_asn1_bitstring_has_bit m cbs b =
     (if \<not> CBS_is_valid_asn1_bitstring m cbs then False
      else
        let byte_num = drop_bit 3 b + 1; bit_num = 7 - (b AND 7) in
        ucast byte_num < CBS_len cbs \<and>
        (ucast (m (CBS_data cbs + ucast byte_num)) :: u32) AND push_bit (unat bit_num) 1 \<noteq> 0)"

end
