(* ===== verification/Bs_Cbb.thy ===== *)
theory Bs_Cbb
  imports Bs_Cbs
begin

text \<open>
  \<open>crypto/bytestring/cbb.c\<close> of BoringSSL: the builder (\<open>CBB\<close>), a tree of objects over one growing buffer.
  A child of an object has a length that is written when the object is flushed.  \<open>malloc\<close> is a parameter.
\<close>

section \<open>Allocation\<close>

text \<open>
  \<open>malloc k n\<close> is the answer of the C library to the call number \<open>k\<close>, for \<open>n\<close> bytes: no memory, or
  what the new bytes hold.  An allocated block is the list of its bytes.
\<close>

type_synonym allocator = "nat \<Rightarrow> u64 \<Rightarrow> (nat \<Rightarrow> byte) option"

definition OPENSSL_MALLOC_PREFIX :: u64 where "OPENSSL_MALLOC_PREFIX = 8"

definition OPENSSL_malloc :: "allocator \<Rightarrow> u64 \<Rightarrow> nat \<Rightarrow> byte list option \<times> nat" where
  "OPENSSL_malloc malloc n k =
     (if n + OPENSSL_MALLOC_PREFIX < n then (None, k)
      else (map_option (\<lambda>f. map f [0..<unat n]) (malloc k (n + OPENSSL_MALLOC_PREFIX)), Suc k))"

definition OPENSSL_realloc :: "allocator \<Rightarrow> byte list option \<Rightarrow> u64 \<Rightarrow> nat \<Rightarrow> byte list option \<times> nat" where
  "OPENSSL_realloc malloc orig new_size k =
     (case orig of
        None \<Rightarrow> OPENSSL_malloc malloc new_size k
      | Some old \<Rightarrow>
          (case OPENSSL_malloc malloc new_size k of
             (None, k) \<Rightarrow> (None, k)
           | (Some new, k) \<Rightarrow>
               let to_copy = if length old < unat new_size then length old else unat new_size
               in (Some (take to_copy old @ drop to_copy new), k)))"

section \<open>State\<close>

text \<open>
  The \<open>CBB\<close> objects of one tree, by their addresses, and the buffer that they share.  A child is in the
  tree as long as its \<open>base\<close> points to the buffer; \<open>cb_base\<close> is whether it is not null.
\<close>

type_synonym cbb_id = nat

record cbb_buffer =
  b_buf :: "byte list option"
  b_len :: u64
  b_cap :: u64
  b_can_resize :: bool
  b_error :: bool

record cbb =
  cb_base :: bool
  cb_child :: "cbb_id option"
  cb_offset :: u64
  cb_pending_len_len :: byte
  cb_pending_is_asn1 :: bool
  cb_is_child :: bool

record cbb_state =
  cbbs :: "cbb_id \<Rightarrow> cbb"
  buffer :: "cbb_buffer option"
  mallocs :: nat

text \<open>
  A function has the result \<open>Some (Some x, st)\<close> where it returns 1 (or the value \<open>x\<close>), \<open>Some (None, st)\<close>
  where it returns 0, and \<open>None\<close> where it goes through a null or freed pointer, writes outside the
  buffer, fails an assertion or does not return.  \<open>and_then r k\<close> is \<open>if (!r) return 0; k\<close>.
\<close>

type_synonym 'a cbb_result = "('a option \<times> cbb_state) option"

definition and_then :: "'a cbb_result \<Rightarrow> ('a \<Rightarrow> cbb_state \<Rightarrow> 'b cbb_result) \<Rightarrow> 'b cbb_result" where
  "and_then r k =
     Option.bind r (\<lambda>(x, st). case x of None \<Rightarrow> Some (None, st) | Some y \<Rightarrow> k y st)"

lemma and_then_simps [simp]:
  "and_then None k = None" "and_then (Some (None, st)) k = Some (None, st)"
  "and_then (Some (Some x, st)) k = k x st"
  by (simp_all add: and_then_def)

definition zero_cbb :: cbb where
  "zero_cbb = \<lparr>cb_base = False, cb_child = None, cb_offset = 0, cb_pending_len_len = 0,
     cb_pending_is_asn1 = False, cb_is_child = False\<rparr>"

definition upd_cbb :: "cbb_id \<Rightarrow> (cbb \<Rightarrow> cbb) \<Rightarrow> cbb_state \<Rightarrow> cbb_state" where
  "upd_cbb c f st = st\<lparr>cbbs := (cbbs st)(c := f (cbbs st c))\<rparr>"

definition set_buffer :: "cbb_buffer \<Rightarrow> cbb_state \<Rightarrow> cbb_state" where
  "set_buffer b st = st\<lparr>buffer := Some b\<rparr>"

text \<open>\<open>err: base->error = 1; return 0\<close>\<close>

definition cbb_err :: "cbb_state \<Rightarrow> 'a cbb_result" where
  "cbb_err st = Option.bind (buffer st) (\<lambda>b. Some (None, set_buffer (b\<lparr>b_error := True\<rparr>) st))"

section \<open>The buffer\<close>

text \<open>Writing \<open>bs\<close> at an offset of the buffer, and moving bytes in it.\<close>

definition buf_put :: "u64 \<Rightarrow> byte list \<Rightarrow> cbb_state \<Rightarrow> cbb_state option" where
  "buf_put i bs st =
     (if bs = [] then Some st
      else Option.bind (buffer st) (\<lambda>b. Option.bind (b_buf b) (\<lambda>xs.
        if unat i + length bs \<le> length xs
        then Some (set_buffer (b\<lparr>b_buf := Some (take (unat i) xs @ bs @ drop (unat i + length bs) xs)\<rparr>) st)
        else None)))"

definition buf_get :: "u64 \<Rightarrow> nat \<Rightarrow> cbb_state \<Rightarrow> byte list option" where
  "buf_get i n st =
     (if n = 0 then Some []
      else Option.bind (buffer st) (\<lambda>b. Option.bind (b_buf b) (\<lambda>xs.
        if unat i + n \<le> length xs then Some (take n (drop (unat i) xs)) else None)))"

definition buf_move :: "u64 \<Rightarrow> u64 \<Rightarrow> nat \<Rightarrow> cbb_state \<Rightarrow> cbb_state option" where
  "buf_move dst src n st = Option.bind (buf_get src n st) (\<lambda>bs. buf_put dst bs st)"

text \<open>\<open>for (i = n - 1; i < n; i--) { buf[i] = v; v >>= 8; }\<close>\<close>

primrec put_loop :: "nat \<Rightarrow> u64 \<Rightarrow> u64 \<Rightarrow> cbb_state \<Rightarrow> (u64 \<times> cbb_state) option" where
  "put_loop 0 p v st = Some (v, st)"
| "put_loop (Suc i) p v st =
     Option.bind (buf_put (p + of_nat i) [ucast v] st) (\<lambda>st. put_loop i p (drop_bit 8 v) st)"

text \<open>The result is \<open>*out\<close> as an offset of the buffer.\<close>

definition cbb_buffer_reserve :: "allocator \<Rightarrow> bool \<Rightarrow> u64 \<Rightarrow> cbb_state \<Rightarrow> u64 cbb_result" where
  "cbb_buffer_reserve malloc base len st =
     (if \<not> base then Some (None, st)
      else Option.bind (buffer st) (\<lambda>b.
        let newlen = b_len b + len in
        if newlen < b_len b then cbb_err st
        else if b_cap b < newlen then
          if \<not> b_can_resize b then cbb_err st
          else
            let newcap = b_cap b * 2;
                newcap = if newcap < b_cap b \<or> newcap < newlen then newlen else newcap in
            (case OPENSSL_realloc malloc (b_buf b) newcap (mallocs st) of
               (None, k) \<Rightarrow> cbb_err (st\<lparr>mallocs := k\<rparr>)
             | (Some newbuf, k) \<Rightarrow>
                 Some (Some (b_len b),
                   set_buffer (b\<lparr>b_buf := Some newbuf, b_cap := newcap\<rparr>) (st\<lparr>mallocs := k\<rparr>)))
        else Some (Some (b_len b), st)))"

definition cbb_buffer_add :: "allocator \<Rightarrow> bool \<Rightarrow> u64 \<Rightarrow> cbb_state \<Rightarrow> u64 cbb_result" where
  "cbb_buffer_add malloc base len st =
     and_then (cbb_buffer_reserve malloc base len st) (\<lambda>out st.
       Option.bind (buffer st) (\<lambda>b. Some (Some out, set_buffer (b\<lparr>b_len := b_len b + len\<rparr>) st)))"

definition cbb_buffer_add_u :: "allocator \<Rightarrow> bool \<Rightarrow> u64 \<Rightarrow> u64 \<Rightarrow> cbb_state \<Rightarrow> unit cbb_result" where
  "cbb_buffer_add_u malloc base v len_len st =
     (if len_len = 0 then Some (Some (), st)
      else and_then (cbb_buffer_add malloc base len_len st) (\<lambda>buf st.
        Option.bind (put_loop (unat len_len) buf v st) (\<lambda>(v, st).
          if v \<noteq> 0 then cbb_err st else Some (Some (), st))))"

section \<open>Life cycle\<close>

definition CBB_zero :: "cbb_id \<Rightarrow> cbb_state \<Rightarrow> cbb_state" where
  "CBB_zero c = upd_cbb c (\<lambda>_. zero_cbb)"

text \<open>The structure behind \<open>base\<close> has 32 bytes.\<close>

definition cbb_init :: "allocator \<Rightarrow> cbb_id \<Rightarrow> byte list option \<Rightarrow> u64 \<Rightarrow> cbb_state \<Rightarrow> unit cbb_result" where
  "cbb_init malloc c buf cap st =
     (case OPENSSL_malloc malloc 32 (mallocs st) of
        (None, k) \<Rightarrow> Some (None, st\<lparr>mallocs := k\<rparr>)
      | (Some _, k) \<Rightarrow>
          Some (Some (),
            upd_cbb c (\<lambda>cbb. cbb\<lparr>cb_base := True, cb_is_child := False\<rparr>)
              (set_buffer \<lparr>b_buf = buf, b_len = 0, b_cap = cap, b_can_resize = True, b_error = False\<rparr>
                (st\<lparr>mallocs := k\<rparr>))))"

definition CBB_init :: "allocator \<Rightarrow> cbb_id \<Rightarrow> u64 \<Rightarrow> cbb_state \<Rightarrow> unit cbb_result" where
  "CBB_init malloc c initial_capacity st =
     (let st = CBB_zero c st in
      case OPENSSL_malloc malloc initial_capacity (mallocs st) of
        (buf, k) \<Rightarrow>
          let st = st\<lparr>mallocs := k\<rparr> in
          if 0 < initial_capacity \<and> buf = None then Some (None, st)
          else cbb_init malloc c buf initial_capacity st)"

definition CBB_init_fixed :: "allocator \<Rightarrow> cbb_id \<Rightarrow> byte list option \<Rightarrow> u64 \<Rightarrow> cbb_state \<Rightarrow> unit cbb_result" where
  "CBB_init_fixed malloc c buf len st =
     and_then (cbb_init malloc c buf len (CBB_zero c st)) (\<lambda>_ st.
       Option.bind (buffer st) (\<lambda>b. Some (Some (), set_buffer (b\<lparr>b_can_resize := False\<rparr>) st)))"

definition CBB_cleanup :: "cbb_id \<Rightarrow> cbb_state \<Rightarrow> cbb_state option" where
  "CBB_cleanup c st =
     (if cb_is_child (cbbs st c) then None
      else if cb_base (cbbs st c) then
        Option.bind (buffer st) (\<lambda>_. Some (upd_cbb c (\<lambda>cbb. cbb\<lparr>cb_base := False\<rparr>) (st\<lparr>buffer := None\<rparr>)))
      else Some st)"

section \<open>Flushing\<close>

text \<open>
  The length of the contents of an element: how many bytes, the first of them, and what is still to
  be written behind it.
\<close>

definition asn1_length :: "u64 \<Rightarrow> byte \<times> byte \<times> u64" where
  "asn1_length len =
     (if 0xFFFFFF < len then (5, 0x80 OR 4, len)
      else if 0xFFFF < len then (4, 0x80 OR 3, len)
      else if 0xFF < len then (3, 0x80 OR 2, len)
      else if 0x7F < len then (2, 0x80 OR 1, len)
      else (1, ucast len, 0))"

text \<open>
  The part of \<open>CBB_flush\<close> for a child of ASN.1: it makes room for the length and writes its first
  byte; the result is what is left of \<open>len\<close>.
\<close>

definition flush_asn1 :: "allocator \<Rightarrow> cbb_id \<Rightarrow> cbb_id \<Rightarrow> u64 \<Rightarrow> u64 \<Rightarrow> cbb_state \<Rightarrow> u64 cbb_result" where
  "flush_asn1 malloc c d child_start len st =
     (if cb_pending_len_len (cbbs st d) \<noteq> 1 then None
      else if 0xFFFFFFFE < len then Some (None, st)
      else
        let (len_len, initial_length_byte, len) = asn1_length len;
            extra_bytes = ucast (len_len - 1) :: u64 in
        and_then
          (if len_len \<noteq> 1 then
             and_then (cbb_buffer_add malloc (cb_base (cbbs st c)) extra_bytes st) (\<lambda>_ st.
               Option.bind (buf_move (child_start + extra_bytes) child_start (unat len) st) (\<lambda>st. Some (Some (), st)))
           else Some (Some (), st))
          (\<lambda>_ st.
            Option.bind (buf_put (cb_offset (cbbs st d)) [initial_length_byte] st) (\<lambda>st.
              Some (Some len,
                upd_cbb d (\<lambda>cbb. cbb\<lparr>cb_offset := cb_offset cbb + 1, cb_pending_len_len := len_len - 1\<rparr>) st))))"

text \<open>What is done behind the recursive call, from its result on.\<close>

definition flush_child :: "allocator \<Rightarrow> cbb_id \<Rightarrow> cbb_id \<Rightarrow> u64 \<Rightarrow> unit cbb_result \<Rightarrow> unit cbb_result" where
  "flush_child malloc c d child_start r =
     Option.bind r (\<lambda>(ok, st).
       if ok = None \<or> child_start < cb_offset (cbbs st d) then cbb_err st
       else Option.bind (buffer st) (\<lambda>b.
         if b_len b < child_start then cbb_err st
         else
           let len = b_len b - child_start in
           Option.bind
             (if cb_pending_is_asn1 (cbbs st d) then flush_asn1 malloc c d child_start len st
              else Some (Some len, st))
             (\<lambda>(len, st).
               case len of
                 None \<Rightarrow> cbb_err st
               | Some len \<Rightarrow>
                   Option.bind (put_loop (unat (cb_pending_len_len (cbbs st d))) (cb_offset (cbbs st d)) len st)
                     (\<lambda>(len, st).
                       if len \<noteq> 0 then cbb_err st
                       else Some (Some (),
                         upd_cbb c (\<lambda>cbb. cbb\<lparr>cb_child := None\<rparr>) (upd_cbb d (\<lambda>cbb. cbb\<lparr>cb_base := False\<rparr>) st))))))"

text \<open>The recursion follows the \<open>child\<close> pointers, which the code does not bound.\<close>

partial_function (option) CBB_flush :: "allocator \<Rightarrow> cbb_id \<Rightarrow> cbb_state \<Rightarrow> unit cbb_result" where
  "CBB_flush malloc c st =
     (if \<not> cb_base (cbbs st c) then Some (None, st)
      else Option.bind (buffer st) (\<lambda>b.
        if b_error b then Some (None, st)
        else case cb_child (cbbs st c) of
          None \<Rightarrow> Some (Some (), st)
        | Some d \<Rightarrow>
            if cb_pending_len_len (cbbs st d) = 0 then Some (Some (), st)
            else Option.bind (CBB_flush malloc d st) (\<lambda>r.
              flush_child malloc c d
                (cb_offset (cbbs st d) + ucast (cb_pending_len_len (cbbs st d))) (Some r))))"

declare CBB_flush.simps [code]

definition CBB_finish ::
    "allocator \<Rightarrow> cbb_id \<Rightarrow> bool \<Rightarrow> bool \<Rightarrow> cbb_state \<Rightarrow> (byte list option \<times> u64) cbb_result" where
  "CBB_finish malloc c out_data out_len st =
     (if cb_is_child (cbbs st c) then Some (None, st)
      else and_then (CBB_flush malloc c st) (\<lambda>_ st.
        Option.bind (buffer st) (\<lambda>b.
          if b_can_resize b \<and> (\<not> out_data \<or> \<not> out_len) then Some (None, st)
          else
            Option.bind (CBB_cleanup c (set_buffer (b\<lparr>b_buf := None\<rparr>) st)) (\<lambda>st.
              Some (Some (b_buf b, b_len b), st)))))"

text \<open>The pointer is an offset of the buffer.\<close>

definition CBB_data :: "cbb_id \<Rightarrow> cbb_state \<Rightarrow> u64 option" where
  "CBB_data c st =
     (if cb_child (cbbs st c) \<noteq> None \<or> \<not> cb_base (cbbs st c) then None
      else Option.bind (buffer st) (\<lambda>b.
        Some (cb_offset (cbbs st c) + ucast (cb_pending_len_len (cbbs st c)))))"

definition CBB_len :: "cbb_id \<Rightarrow> cbb_state \<Rightarrow> u64 option" where
  "CBB_len c st =
     (if cb_child (cbbs st c) \<noteq> None \<or> \<not> cb_base (cbbs st c) then None
      else Option.bind (buffer st) (\<lambda>b.
        let off = cb_offset (cbbs st c); n = ucast (cb_pending_len_len (cbbs st c)) in
        if b_len b < off + n then None else Some (b_len b - off - n)))"

section \<open>Adding\<close>

text \<open>What both functions that open a child do to the two objects, in this order.\<close>

definition start_child :: "cbb_id \<Rightarrow> cbb_id \<Rightarrow> u64 \<Rightarrow> byte \<Rightarrow> bool \<Rightarrow> cbb_state \<Rightarrow> cbb_state" where
  "start_child c out_contents offset len_len asn1 st =
     (let st = upd_cbb out_contents (\<lambda>_. zero_cbb) st;
          st = upd_cbb out_contents (\<lambda>cbb. cbb\<lparr>cb_base := cb_base (cbbs st c), cb_is_child := True\<rparr>) st;
          st = upd_cbb c (\<lambda>cbb. cbb\<lparr>cb_child := Some out_contents\<rparr>) st
      in upd_cbb out_contents (\<lambda>cbb. cbb\<lparr>cb_offset := offset, cb_pending_len_len := len_len,
           cb_pending_is_asn1 := asn1\<rparr>) st)"

definition cbb_add_length_prefixed :: "allocator \<Rightarrow> cbb_id \<Rightarrow> cbb_id \<Rightarrow> byte \<Rightarrow> cbb_state \<Rightarrow> unit cbb_result" where
  "cbb_add_length_prefixed malloc c out_contents len_len st =
     and_then (CBB_flush malloc c st) (\<lambda>_ st.
       Option.bind (buffer st) (\<lambda>b.
         let offset = b_len b in
         and_then (cbb_buffer_add malloc (cb_base (cbbs st c)) (ucast len_len) st) (\<lambda>prefix_bytes st.
           Option.bind (buf_put prefix_bytes (replicate (unat len_len) 0) st) (\<lambda>st.
             Some (Some (), start_child c out_contents offset len_len False st)))))"

definition CBB_add_u8_length_prefixed :: "allocator \<Rightarrow> cbb_id \<Rightarrow> cbb_id \<Rightarrow> cbb_state \<Rightarrow> unit cbb_result" where
  "CBB_add_u8_length_prefixed malloc c out_contents st = cbb_add_length_prefixed malloc c out_contents 1 st"

definition CBB_add_u16_length_prefixed :: "allocator \<Rightarrow> cbb_id \<Rightarrow> cbb_id \<Rightarrow> cbb_state \<Rightarrow> unit cbb_result" where
  "CBB_add_u16_length_prefixed malloc c out_contents st = cbb_add_length_prefixed malloc c out_contents 2 st"

definition CBB_add_u24_length_prefixed :: "allocator \<Rightarrow> cbb_id \<Rightarrow> cbb_id \<Rightarrow> cbb_state \<Rightarrow> unit cbb_result" where
  "CBB_add_u24_length_prefixed malloc c out_contents st = cbb_add_length_prefixed malloc c out_contents 3 st"

definition CBB_reserve :: "allocator \<Rightarrow> cbb_id \<Rightarrow> u64 \<Rightarrow> cbb_state \<Rightarrow> u64 cbb_result" where
  "CBB_reserve malloc c len st =
     and_then (CBB_flush malloc c st) (\<lambda>_ st. cbb_buffer_reserve malloc (cb_base (cbbs st c)) len st)"

definition CBB_add_space :: "allocator \<Rightarrow> cbb_id \<Rightarrow> u64 \<Rightarrow> cbb_state \<Rightarrow> u64 cbb_result" where
  "CBB_add_space malloc c len st =
     and_then (CBB_flush malloc c st) (\<lambda>_ st. cbb_buffer_add malloc (cb_base (cbbs st c)) len st)"

definition CBB_add_bytes :: "allocator \<Rightarrow> cbb_id \<Rightarrow> byte list \<Rightarrow> cbb_state \<Rightarrow> unit cbb_result" where
  "CBB_add_bytes malloc c data st =
     and_then (CBB_flush malloc c st) (\<lambda>_ st.
       and_then (cbb_buffer_add malloc (cb_base (cbbs st c)) (of_nat (length data)) st) (\<lambda>dest st.
         Option.bind (buf_put dest data st) (\<lambda>st. Some (Some (), st))))"

definition CBB_add_zeros :: "allocator \<Rightarrow> cbb_id \<Rightarrow> u64 \<Rightarrow> cbb_state \<Rightarrow> unit cbb_result" where
  "CBB_add_zeros malloc c len st =
     and_then (CBB_add_space malloc c len st) (\<lambda>out st.
       Option.bind (buf_put out (replicate (unat len) 0) st) (\<lambda>st. Some (Some (), st)))"

definition CBB_did_write :: "cbb_id \<Rightarrow> u64 \<Rightarrow> cbb_state \<Rightarrow> unit cbb_result" where
  "CBB_did_write c len st =
     (if \<not> cb_base (cbbs st c) then None
      else Option.bind (buffer st) (\<lambda>b.
        let newlen = b_len b + len in
        if cb_child (cbbs st c) \<noteq> None \<or> newlen < b_len b \<or> b_cap b < newlen then Some (None, st)
        else Some (Some (), set_buffer (b\<lparr>b_len := newlen\<rparr>) st)))"

text \<open>The functions that add an integer of \<open>n\<close> bytes differ in \<open>n\<close> only.\<close>

definition cbb_add_u :: "allocator \<Rightarrow> cbb_id \<Rightarrow> u64 \<Rightarrow> u64 \<Rightarrow> cbb_state \<Rightarrow> unit cbb_result" where
  "cbb_add_u malloc c value n st =
     and_then (CBB_flush malloc c st) (\<lambda>_ st. cbb_buffer_add_u malloc (cb_base (cbbs st c)) value n st)"

definition CBB_add_u8 :: "allocator \<Rightarrow> cbb_id \<Rightarrow> byte \<Rightarrow> cbb_state \<Rightarrow> unit cbb_result" where
  "CBB_add_u8 malloc c value st = cbb_add_u malloc c (ucast value) 1 st"

definition CBB_add_u16 :: "allocator \<Rightarrow> cbb_id \<Rightarrow> u16 \<Rightarrow> cbb_state \<Rightarrow> unit cbb_result" where
  "CBB_add_u16 malloc c value st = cbb_add_u malloc c (ucast value) 2 st"

definition CBB_add_u16le :: "allocator \<Rightarrow> cbb_id \<Rightarrow> u16 \<Rightarrow> cbb_state \<Rightarrow> unit cbb_result" where
  "CBB_add_u16le malloc c value st = CBB_add_u16 malloc c (CRYPTO_bswap2 value) st"

definition CBB_add_u24 :: "allocator \<Rightarrow> cbb_id \<Rightarrow> u32 \<Rightarrow> cbb_state \<Rightarrow> unit cbb_result" where
  "CBB_add_u24 malloc c value st = cbb_add_u malloc c (ucast value) 3 st"

definition CBB_add_u32 :: "allocator \<Rightarrow> cbb_id \<Rightarrow> u32 \<Rightarrow> cbb_state \<Rightarrow> unit cbb_result" where
  "CBB_add_u32 malloc c value st = cbb_add_u malloc c (ucast value) 4 st"

definition CBB_add_u32le :: "allocator \<Rightarrow> cbb_id \<Rightarrow> u32 \<Rightarrow> cbb_state \<Rightarrow> unit cbb_result" where
  "CBB_add_u32le malloc c value st = CBB_add_u32 malloc c (CRYPTO_bswap4 value) st"

definition CBB_add_u64 :: "allocator \<Rightarrow> cbb_id \<Rightarrow> u64 \<Rightarrow> cbb_state \<Rightarrow> unit cbb_result" where
  "CBB_add_u64 malloc c value st = cbb_add_u malloc c value 8 st"

definition CBB_add_u64le :: "allocator \<Rightarrow> cbb_id \<Rightarrow> u64 \<Rightarrow> cbb_state \<Rightarrow> unit cbb_result" where
  "CBB_add_u64le malloc c value st = CBB_add_u64 malloc c (CRYPTO_bswap8 value) st"

definition CBB_discard_child :: "cbb_id \<Rightarrow> cbb_state \<Rightarrow> cbb_state option" where
  "CBB_discard_child c st =
     (case cb_child (cbbs st c) of
        None \<Rightarrow> Some st
      | Some d \<Rightarrow>
          if \<not> cb_base (cbbs st c) then None
          else Option.bind (buffer st) (\<lambda>b.
            Some (upd_cbb c (\<lambda>cbb. cbb\<lparr>cb_child := None\<rparr>) (upd_cbb d (\<lambda>cbb. cbb\<lparr>cb_base := False\<rparr>)
              (set_buffer (b\<lparr>b_len := cb_offset (cbbs st d)\<rparr>) st)))))"

section \<open>ASN.1\<close>

text \<open>\<open>while (copy > 0) { len_len++; copy >>= 7; }\<close>\<close>

function base128_len :: "u64 \<Rightarrow> nat" where
  "base128_len copy = (if 0 < copy then Suc (base128_len (drop_bit 7 copy)) else 0)"
  by pat_completeness auto
termination
proof (relation "measure unat")
  fix copy :: u64 assume "0 < copy"
  then have "0 < unat copy" by (simp add: word_less_nat_alt)
  moreover have "unat (drop_bit 7 copy) = unat copy div 128"
    using unsigned_less [of copy, where ?'a = nat]
    by (simp only: unsigned_drop_bit_eq) (simp add: drop_bit_eq_div take_bit_nat_eq_self)
  ultimately show "(drop_bit 7 copy, copy) \<in> measure unat" by simp
qed simp

declare base128_len.simps [simp del]

text \<open>The loop from \<open>i = n - 1\<close> down to 0.\<close>

primrec base128_loop :: "allocator \<Rightarrow> cbb_id \<Rightarrow> u64 \<Rightarrow> nat \<Rightarrow> cbb_state \<Rightarrow> unit cbb_result" where
  "base128_loop malloc c v 0 st = Some (Some (), st)"
| "base128_loop malloc c v (Suc i) st =
     (let b = ucast (drop_bit (7 * i) v) AND 0x7F :: byte;
          b = if i \<noteq> 0 then b OR 0x80 else b
      in and_then (CBB_add_u8 malloc c b st) (\<lambda>_ st. base128_loop malloc c v i st))"

definition add_base128_integer :: "allocator \<Rightarrow> cbb_id \<Rightarrow> u64 \<Rightarrow> cbb_state \<Rightarrow> unit cbb_result" where
  "add_base128_integer malloc c v st =
     (let len_len = base128_len v in
      base128_loop malloc c v (if len_len = 0 then 1 else len_len) st)"

definition CBB_add_asn1 :: "allocator \<Rightarrow> cbb_id \<Rightarrow> cbb_id \<Rightarrow> u32 \<Rightarrow> cbb_state \<Rightarrow> unit cbb_result" where
  "CBB_add_asn1 malloc c out_contents tag st =
     and_then (CBB_flush malloc c st) (\<lambda>_ st.
       let tag_bits = ucast (drop_bit CBS_ASN1_TAG_SHIFT tag) AND 0xE0 :: byte;
           tag_number = tag AND CBS_ASN1_TAG_NUMBER_MASK in
       and_then
         (if 0x1F \<le> tag_number then
            and_then (CBB_add_u8 malloc c (tag_bits OR 0x1F) st) (\<lambda>_ st.
              add_base128_integer malloc c (ucast tag_number) st)
          else CBB_add_u8 malloc c (tag_bits OR ucast tag_number) st)
         (\<lambda>_ st. Option.bind (buffer st) (\<lambda>b.
           let offset = b_len b in
           and_then (CBB_add_u8 malloc c 0 st) (\<lambda>_ st.
             Some (Some (), start_child c out_contents offset 1 True st)))))"

text \<open>
  The functions below have a local \<open>CBB child\<close>; its address is an argument.  \<open>uint64_bytes\<close> is the loop
  of \<open>CBB_add_asn1_uint64\<close> over the bytes that remain; its result is \<open>started\<close>.
\<close>

fun uint64_bytes :: "allocator \<Rightarrow> cbb_id \<Rightarrow> byte list \<Rightarrow> bool \<Rightarrow> cbb_state \<Rightarrow> bool cbb_result" where
  "uint64_bytes malloc child [] started st = Some (Some started, st)"
| "uint64_bytes malloc child (b # bs) started st =
     (if \<not> started \<and> b = 0 then uint64_bytes malloc child bs started st
      else
        and_then
          (if \<not> started \<and> b AND 0x80 \<noteq> 0 then CBB_add_u8 malloc child 0 st else Some (Some (), st))
          (\<lambda>_ st. and_then (CBB_add_u8 malloc child b st) (\<lambda>_ st. uint64_bytes malloc child bs True st)))"

definition CBB_add_asn1_uint64 :: "allocator \<Rightarrow> cbb_id \<Rightarrow> cbb_id \<Rightarrow> u64 \<Rightarrow> cbb_state \<Rightarrow> unit cbb_result" where
  "CBB_add_asn1_uint64 malloc child c v st =
     and_then (CBB_add_asn1 malloc c child CBS_ASN1_INTEGER st) (\<lambda>_ st.
       and_then (uint64_bytes malloc child (map (\<lambda>i. ucast (drop_bit (8 * (7 - i)) v)) [0..<8]) False st) (\<lambda>started st.
         and_then (if \<not> started then CBB_add_u8 malloc child 0 st else Some (Some (), st)) (\<lambda>_ st.
           CBB_flush malloc c st)))"

text \<open>\<open>while (start > 0 && bytes[start] == 0xff && (bytes[start - 1] & 0x80)) start--;\<close>\<close>

primrec sign_start :: "byte list \<Rightarrow> nat \<Rightarrow> nat" where
  "sign_start bytes 0 = 0"
| "sign_start bytes (Suc i) =
     (if bytes ! Suc i = 0xFF \<and> bytes ! i AND 0x80 \<noteq> 0 then sign_start bytes i else Suc i)"

primrec add_all :: "allocator \<Rightarrow> cbb_id \<Rightarrow> byte list \<Rightarrow> cbb_state \<Rightarrow> unit cbb_result" where
  "add_all malloc child [] st = Some (Some (), st)"
| "add_all malloc child (b # bs) st =
     and_then (CBB_add_u8 malloc child b st) (\<lambda>_ st. add_all malloc child bs st)"

definition CBB_add_asn1_int64 :: "allocator \<Rightarrow> cbb_id \<Rightarrow> cbb_id \<Rightarrow> u64 \<Rightarrow> cbb_state \<Rightarrow> unit cbb_result" where
  "CBB_add_asn1_int64 malloc child c v st =
     (if 0 \<le> sint v then CBB_add_asn1_uint64 malloc child c v st
      else
        let bytes = le_bytes 8 v; start = sign_start bytes 7 in
        and_then (CBB_add_asn1 malloc c child CBS_ASN1_INTEGER st) (\<lambda>_ st.
          and_then (add_all malloc child (rev (take (Suc start) bytes)) st) (\<lambda>_ st. CBB_flush malloc c st)))"

definition CBB_add_asn1_octet_string ::
    "allocator \<Rightarrow> cbb_id \<Rightarrow> cbb_id \<Rightarrow> byte list \<Rightarrow> cbb_state \<Rightarrow> unit cbb_result" where
  "CBB_add_asn1_octet_string malloc child c data st =
     and_then (CBB_add_asn1 malloc c child CBS_ASN1_OCTETSTRING st) (\<lambda>_ st.
       and_then (CBB_add_bytes malloc child data st) (\<lambda>_ st. CBB_flush malloc c st))"

definition CBB_add_asn1_bool :: "allocator \<Rightarrow> cbb_id \<Rightarrow> cbb_id \<Rightarrow> bool \<Rightarrow> cbb_state \<Rightarrow> unit cbb_result" where
  "CBB_add_asn1_bool malloc child c v st =
     and_then (CBB_add_asn1 malloc c child CBS_ASN1_BOOLEAN st) (\<lambda>_ st.
       and_then (CBB_add_u8 malloc child (if v then 0xFF else 0) st) (\<lambda>_ st. CBB_flush malloc c st))"

end
