(* ===== verification/Bs_Der.thy ===== *)
theory Bs_Der
  imports Bs_Cbs
begin

text \<open>
  DER as functions on byte lists: numbers in base 128 and base 256, tags and lengths in their one
  form, and what the parsers of \<open>Bs_Cbs\<close> do on a view of the memory.
\<close>

section \<open>Bytes and numbers\<close>

lemma of_nat_eqI: "unat x = n \<Longrightarrow> x = of_nat n"
  by auto

lemma unat_push_or:
  fixes v w :: "'a::len word"
  assumes "unat w < 2 ^ k" "unat v * 2 ^ k + unat w < 2 ^ LENGTH('a)"
  shows "unat (push_bit k v OR w) = unat v * 2 ^ k + unat w"
proof -
  have "\<not> bit w n" if "k \<le> n" for n
    using assms(1) that by (simp add: unat_less_exp_iff)
  then have "push_bit k v OR w = push_bit k v + w"
    by (intro disjunctive_add [symmetric]) (auto simp: bit_push_bit_iff)
  moreover have "unat (push_bit k v) = unat v * 2 ^ k"
    using assms(2) by (simp only: unsigned_push_bit_eq) (simp add: push_bit_eq_mult take_bit_nat_eq_self)
  ultimately show ?thesis using assms(2) by (simp add: unat_plus_if')
qed

lemma unat_numeral_128: "unat (0x80 :: byte) = 128"
  by simp

lemma byte_low: "unat (b AND 0x7F) = unat b mod 128" for b :: byte
proof -
  have "b AND 0x7F = take_bit 7 b" by (simp add: take_bit_eq_mask mask_eq_exp_minus_1)
  then show ?thesis by (simp only: unsigned_take_bit_eq) (simp add: take_bit_eq_mod)
qed

lemma byte_high: "b AND 0x80 = 0 \<longleftrightarrow> unat b < 128" for b :: byte
proof -
  have "b AND 0x80 = 0 \<longleftrightarrow> \<not> bit b 7"
    using and_exp_eq_0_iff_not_bit [of b 7] by simp
  also have "\<dots> \<longleftrightarrow> (\<forall>k \<ge> 7. \<not> bit b k)"
  proof
    assume no: "\<not> bit b 7"
    show "\<forall>k \<ge> 7. \<not> bit b k"
    proof (intro allI impI notI)
      fix k :: nat assume "7 \<le> k" "bit b k"
      then have "k = 7" using bit_imp_le_length [of b k] by simp
      then show False using no \<open>bit b k\<close> by simp
    qed
  qed simp
  also have "\<dots> \<longleftrightarrow> unat b < 2 ^ 7" using unat_less_exp_iff [of b 7] by simp
  finally show ?thesis by simp
qed

lemma drop_bit_eq_0: "drop_bit k v = 0 \<longleftrightarrow> unat v < 2 ^ k" for v :: "'a::len word"
proof -
  have "drop_bit k v = 0 \<longleftrightarrow> unat (drop_bit k v) = 0" by (simp only: unat_eq_0)
  also have "\<dots> \<longleftrightarrow> unat v div 2 ^ k = 0" by (simp only: unsigned_drop_bit_eq) (simp add: drop_bit_eq_div take_bit_nat_eq_self)
  finally show ?thesis by (simp add: div_eq_0_iff)
qed


section \<open>The bytes of a byte string\<close>

definition view :: "memory \<Rightarrow> cbs \<Rightarrow> byte list" where
  "view m cbs = load_bytes m (cbs_data cbs) (unat (cbs_len cbs))"

definition adv :: "nat \<Rightarrow> cbs \<Rightarrow> cbs" where
  "adv k cbs = cbs\<lparr>cbs_data := cbs_data cbs + of_nat k, cbs_len := cbs_len cbs - of_nat k\<rparr>"

lemma length_view [simp]: "length (view m cbs) = unat (cbs_len cbs)"
  by (simp add: view_def)

lemma unat_of_nat_len: "k \<le> unat (n :: u64) \<Longrightarrow> unat (of_nat k :: u64) = k"
  by (metis le_unat_uoi)

lemma adv_0 [simp]: "adv 0 cbs = cbs"
  by (simp add: adv_def)

lemma adv_adv [simp]: "adv j (adv k cbs) = adv (k + j) cbs"
  by (simp add: adv_def algebra_simps)

lemma adv_len: "k \<le> unat (cbs_len cbs) \<Longrightarrow> unat (cbs_len (adv k cbs)) = unat (cbs_len cbs) - k"
  using unat_of_nat_len [of k "cbs_len cbs"] by (simp add: adv_def unat_sub word_le_nat_alt)

lemma view_adv: "k \<le> unat (cbs_len cbs) \<Longrightarrow> view m (adv k cbs) = drop k (view m cbs)"
  using adv_len [of k cbs] by (simp add: view_def drop_load_bytes) (simp add: adv_def)

lemma view_append:
  assumes "view m cbs = xs @ ys"
  shows "length xs \<le> unat (cbs_len cbs)" "view m (adv (length xs) cbs) = ys"
proof -
  show le: "length xs \<le> unat (cbs_len cbs)"
    using arg_cong [OF assms, of length] by simp
  show "view m (adv (length xs) cbs) = ys" using assms by (simp add: view_adv [OF le])
qed

lemma cbs_get_adv:
  "cbs_get cbs n = (if unat n \<le> unat (cbs_len cbs) then (Some (cbs_data cbs), adv (unat n) cbs) else (None, cbs))"
  by (auto simp: cbs_get_def adv_def word_less_nat_alt)

lemma CBS_get_u8_view:
  "CBS_get_u8 m cbs = (case view m cbs of [] \<Rightarrow> (None, cbs) | b # r \<Rightarrow> (Some b, adv 1 cbs))"
proof (cases "unat (cbs_len cbs)")
  case 0
  then show ?thesis by (simp add: CBS_get_u8_def cbs_get_adv view_def)
next
  case (Suc n)
  then show ?thesis by (simp add: CBS_get_u8_def cbs_get_adv view_def)
qed

lemma CBS_get_bytes_adv:
  assumes "unat n \<le> unat (cbs_len cbs)"
  shows "CBS_get_bytes cbs n = (Some (CBS_init (cbs_data cbs) n), adv (unat n) cbs)"
    "view m (CBS_init (cbs_data cbs) n) = take (unat n) (view m cbs)"
  using assms by (simp_all add: CBS_get_bytes_def cbs_get_adv view_def CBS_init_def take_load_bytes)

section \<open>Base-128 integers\<close>

text \<open>The digits before the last one, and the whole number.\<close>

fun base128_hi :: "nat \<Rightarrow> byte list" where
  "base128_hi n = (if n = 0 then [] else base128_hi (n div 128) @ [of_nat (n mod 128) OR 0x80])"

definition base128 :: "nat \<Rightarrow> byte list" where
  "base128 n = base128_hi (n div 128) @ [of_nat (n mod 128)]"

declare base128_hi.simps [simp del]

lemma digit_byte:
  assumes "d < 128"
  shows "unat (of_nat d OR 0x80 :: byte) = d + 128" "unat (of_nat d :: byte) = d"
proof -
  show d: "unat (of_nat d :: byte) = d" using assms by (simp add: unat_of_nat)
  have "unat (push_bit 7 1 OR of_nat d :: byte) = unat (1 :: byte) * 2 ^ 7 + unat (of_nat d :: byte)"
    using assms d by (intro unat_push_or) simp_all
  then show "unat (of_nat d OR 0x80 :: byte) = d + 128" using d by (simp add: or.commute push_bit_eq_mult)
qed

lemma parse_base128_step:
  assumes v: "view m cbs = b # r" "unat v < 2 ^ 57" and z: "\<not> (v = 0 \<and> b = 0x80)"
  shows "parse_base128_loop m cbs v =
    (if 128 \<le> unat b then parse_base128_loop m (adv 1 cbs) (of_nat (unat v * 128 + unat b mod 128))
     else (Some (of_nat (unat v * 128 + unat b mod 128)), adv 1 cbs))"
proof -
  have "unat (ucast (b AND 0x7F) :: u64) = unat b mod 128"
    by (simp add: unsigned_ucast_eq byte_low take_bit_nat_eq_self)
  then have "unat (push_bit 7 v OR ucast (b AND 0x7F)) = unat v * 128 + unat b mod 128"
    using v(2) unat_push_or [of "ucast (b AND 0x7F)" 7 v] by simp
  then have "push_bit 7 v OR ucast (b AND 0x7F) = of_nat (unat v * 128 + unat b mod 128)"
    by (rule of_nat_eqI)
  then show ?thesis
    using v z by (subst parse_base128_loop.simps)
      (auto simp: CBS_get_u8_view drop_bit_eq_0 byte_high Let_def not_le [symmetric])
qed

lemma parse_base128_hi:
  "view m cbs = base128_hi n @ r \<Longrightarrow> n < 2 ^ 57 \<Longrightarrow>
     parse_base128_loop m cbs 0 = parse_base128_loop m (adv (length (base128_hi n)) cbs) (of_nat n)"
proof (induction n arbitrary: r rule: base128_hi.induct)
  case (1 n)
  show ?case
  proof (cases "n = 0")
    case True
    then show ?thesis by (simp add: base128_hi.simps)
  next
    case False
    let ?h = "base128_hi (n div 128)"
    define b where "b = (of_nat (n mod 128) OR 0x80 :: byte)"
    define v where "v = (of_nat (n div 128) :: u64)"
    have h: "base128_hi n = ?h @ [b]" using False by (simp add: base128_hi.simps [of n] b_def)
    then have vw: "view m cbs = ?h @ b # r" using "1.prems"(1) by simp
    have hi: "parse_base128_loop m cbs 0 = parse_base128_loop m (adv (length ?h) cbs) v"
      using "1.IH" [OF False vw] "1.prems"(2) by (simp add: v_def)
    have b: "unat b = n mod 128 + 128" using digit_byte [of "n mod 128"] by (simp add: b_def)
    have u: "unat v = n div 128" using "1.prems"(2) by (simp add: v_def unat_of_nat)
    have z: "\<not> (v = 0 \<and> b = 0x80)"
    proof
      assume "v = 0 \<and> b = 0x80"
      then have "unat v = 0" "unat b = 128" by simp_all
      with u b have "n div 128 = 0" "n mod 128 = 0" by linarith+
      then show False using False by simp
    qed
    then show ?thesis
      using parse_base128_step [OF view_append(2) [OF vw] _ z] u b "1.prems"(2) hi h by simp
  qed
qed

text \<open>The parser takes a number in its shortest form, and nothing else.\<close>

lemma parse_base128_complete:
  assumes vw: "view m cbs = base128 n @ r" and n: "n < 2 ^ 64"
  shows "parse_base128_integer m cbs = (Some (of_nat n), adv (length (base128 n)) cbs)"
proof -
  let ?h = "base128_hi (n div 128)"
  define b where "b = (of_nat (n mod 128) :: byte)"
  define v where "v = (of_nat (n div 128) :: u64)"
  have vw': "view m cbs = ?h @ b # r" using vw by (simp add: base128_def b_def)
  have b: "unat b = n mod 128" "unat b < 128" using digit_byte [of "n mod 128"] by (simp_all add: b_def)
  have u: "unat v = n div 128" using n by (simp add: v_def unat_of_nat)
  have z: "\<not> (v = 0 \<and> b = 0x80)" using b(2) by (metis less_irrefl unat_numeral_128)
  have "parse_base128_integer m cbs = parse_base128_loop m (adv (length ?h) cbs) v"
    using parse_base128_hi [OF vw'] n by (simp add: parse_base128_integer_def v_def)
  also have "\<dots> = (Some (of_nat (unat v * 128 + unat b mod 128)), adv 1 (adv (length ?h) cbs))"
    using parse_base128_step [OF view_append(2) [OF vw'] _ z] u b(2) n by simp
  finally show ?thesis using u b by (simp add: base128_def)
qed

lemma base128_hi_step:
  assumes "128 \<le> unat b" "n \<noteq> 0 \<or> b \<noteq> (0x80 :: byte)"
  shows "base128_hi (n * 128 + unat b mod 128) = base128_hi n @ [b]"
proof -
  let ?n = "n * 128 + unat b mod 128"
  have b: "unat b < 256" using unsigned_less [of b, where ?'a = nat] by simp
  then have b': "unat b mod 128 = unat b - 128" using assms(1) by (simp add: mod_if)
  have "?n \<noteq> 0"
  proof
    assume "?n = 0"
    then have "n = 0" "unat b = 128" using b' assms(1) by auto
    then show False using assms(2) unat_numeral_128 by (metis word_unat_eq_iff)
  qed
  moreover have "of_nat (?n mod 128) OR 0x80 = b"
  proof -
    have "?n mod 128 = unat b mod 128" by simp
    moreover have "unat (of_nat (unat b mod 128) OR 0x80 :: byte) = unat b mod 128 + 128" by (rule digit_byte) simp
    ultimately show ?thesis using b' assms(1) by (simp only: word_unat_eq_iff)
  qed
  ultimately show ?thesis by (subst base128_hi.simps) simp
qed

lemma parse_base128_sound:
  "parse_base128_loop m cbs v = (Some w, cbs') \<Longrightarrow>
     \<exists>bs. view m cbs = bs @ view m cbs' \<and> base128_hi (unat v) @ bs = base128 (unat w) \<and> cbs' = adv (length bs) cbs"
proof (induction "view m cbs" arbitrary: cbs v)
  case Nil
  then show ?case by (simp add: parse_base128_loop.simps [of m cbs] CBS_get_u8_view flip: Nil.hyps)
next
  case (Cons b r)
  note vw = Cons.hyps(2) [symmetric]
  have get: "CBS_get_u8 m cbs = (Some b, adv 1 cbs)" by (simp add: CBS_get_u8_view vw)
  have v: "unat v < 2 ^ 57" and z: "\<not> (v = 0 \<and> b = 0x80)"
    using Cons.prems by (auto simp: parse_base128_loop.simps [of m cbs] get drop_bit_eq_0 split: if_splits)
  have r: "view m (adv 1 cbs) = r" using view_append(2) [of m cbs "[b]" r] vw by simp
  let ?n = "unat v * 128 + unat b mod 128"
  have "?n < 2 ^ 64" using v mod_less_divisor [of 128 "unat b"] by simp
  then have n: "unat (of_nat ?n :: u64) = ?n" by (simp only: unat_of_nat) simp
  show ?case
  proof (cases "128 \<le> unat b")
    case True
    then have "parse_base128_loop m (adv 1 cbs) (of_nat ?n) = (Some w, cbs')"
      using Cons.prems parse_base128_step [OF vw v z] by simp
    from Cons.hyps(1) [OF r [symmetric] this] obtain bs where bs: "view m (adv 1 cbs) = bs @ view m cbs'"
      "base128_hi ?n @ bs = base128 (unat w)" "cbs' = adv (length bs) (adv 1 cbs)"
      unfolding n by blast
    have "base128_hi ?n = base128_hi (unat v) @ [b]"
      using True z by (intro base128_hi_step) (auto simp: unat_eq_0)
    then show ?thesis using vw r bs by (intro exI [of _ "b # bs"]) simp
  next
    case False
    then have w: "w = of_nat ?n" "cbs' = adv 1 cbs"
      using Cons.prems parse_base128_step [OF vw v z] by auto
    have "unat b mod 128 = unat b" using False by simp
    then have "unat w = ?n" "unat w div 128 = unat v" "unat w mod 128 = unat b" unfolding w(1) n by simp_all
    then show ?thesis
      using vw r w(2) by (intro exI [of _ "[b]"]) (simp add: base128_def)
  qed
qed

section \<open>Tags\<close>

lemma unat_ucast_byte32: "unat (ucast (n :: byte) :: u32) = unat n"
  by (simp add: unsigned_ucast_eq take_bit_nat_eq_self order_less_le_trans [OF unsigned_less])

text \<open>The bytes of a tag: class and form in three bits, and the number behind them or in base 128.\<close>

definition tag_bits :: "u32 \<Rightarrow> byte" where
  "tag_bits tag = ucast (drop_bit 24 tag) AND 0xE0"

definition tag_number :: "u32 \<Rightarrow> u32" where
  "tag_number tag = tag AND 0x1FFFFFFF"

definition der_tag :: "u32 \<Rightarrow> byte list" where
  "der_tag tag =
     (if tag_number tag < 31 then [tag_bits tag OR ucast (tag_number tag)]
      else (tag_bits tag OR 0x1F) # base128 (unat (tag_number tag)))"

lemma bit_224 [simp]: "bit (224 :: int) n \<longleftrightarrow> n = 5 \<or> n = 6 \<or> n = 7"
proof -
  have eq: "(224 :: int) = push_bit 5 (mask 3)" by (simp add: push_bit_eq_mult mask_eq_exp_minus_1)
  show ?thesis unfolding eq bit_push_bit_iff_int bit_mask_iff by auto
qed

lemma bit_224_24 [simp]: "bit (3758096384 :: int) n \<longleftrightarrow> n = 29 \<or> n = 30 \<or> n = 31"
proof -
  have eq: "(3758096384 :: int) = push_bit 29 (mask 3)" by (simp add: push_bit_eq_mult mask_eq_exp_minus_1)
  show ?thesis unfolding eq bit_push_bit_iff_int bit_mask_iff by auto
qed

lemma bit_mask_31 [simp]: "bit (31 :: int) n \<longleftrightarrow> n < 5" "bit (536870911 :: int) n \<longleftrightarrow> n < 29"
proof -
  have eq: "(31 :: int) = mask 5" "(536870911 :: int) = mask 29" by (simp_all add: mask_eq_exp_minus_1)
  show "bit (31 :: int) n \<longleftrightarrow> n < 5" "bit (536870911 :: int) n \<longleftrightarrow> n < 29" unfolding eq bit_mask_iff by auto
qed

lemma tag_join:
  "push_bit 24 (ucast (tag_bits tag OR k) AND 0xE0) OR tag_number tag = tag" if "\<And>n. 5 \<le> n \<Longrightarrow> \<not> bit k n"
proof (rule bit_word_eqI)
  fix n assume n: "n < LENGTH(32)"
  consider "n < 29" | "n = 29" | "n = 30" | "n = 31" using n by fastforce
  then show "bit (push_bit 24 (ucast (tag_bits tag OR k) AND 0xE0) OR tag_number tag) n = bit tag n"
    using that by cases (auto simp: tag_bits_def tag_number_def bit_simps)
qed

lemma tag_split:
  fixes b :: byte and k :: u32
  assumes "\<And>n. 29 \<le> n \<Longrightarrow> \<not> bit k n"
  shows "tag_number (push_bit 24 (ucast b AND 0xE0) OR k) = k" "tag_bits (push_bit 24 (ucast b AND 0xE0) OR k) = b AND 0xE0"
proof -
  show "tag_number (push_bit 24 (ucast b AND 0xE0) OR k) = k"
  proof (rule bit_word_eqI)
    fix n assume "n < LENGTH(32)"
    then show "bit (tag_number (push_bit 24 (ucast b AND 0xE0) OR k)) n = bit k n"
      using assms [of n] by (cases "n < 29") (auto simp: tag_number_def bit_simps)
  qed
  show "tag_bits (push_bit 24 (ucast b AND 0xE0) OR k) = b AND 0xE0"
  proof (rule bit_word_eqI)
    fix n assume "n < LENGTH(8)"
    then show "bit (tag_bits (push_bit 24 (ucast b AND 0xE0) OR k)) n = bit (b AND 0xE0) n"
      using assms [of "24 + n"] by (auto simp: tag_bits_def bit_simps)
  qed
qed

lemma low_bits: "b AND 0xE0 OR b AND 0x1F = b" for b :: byte
proof (rule bit_word_eqI)
  fix n assume "n < LENGTH(8)"
  then have "n < 5 \<or> n = 5 \<or> n = 6 \<or> n = 7" by auto
  then show "bit (b AND 0xE0 OR b AND 0x1F) n = bit b n" by (auto simp: bit_simps)
qed

lemma tag_bits_low: "(tag_bits tag OR k) AND 0x1F = k AND 0x1F"
  by (rule bit_word_eqI) (auto simp: tag_bits_def bit_simps)


lemma tag_number_less: "unat (tag_number tag) < 2 ^ 29"
  unfolding unat_less_exp_iff by (auto simp: tag_number_def bit_simps)

lemma below_29: "unat k < 2 ^ 29 \<Longrightarrow> 29 \<le> n \<Longrightarrow> \<not> bit k n" for k :: u32
  by (simp only: unat_less_exp_iff) blast

lemma low5: "(k AND 0x1F :: byte) = of_nat (unat k mod 32)"
proof -
  have "k AND 0x1F = take_bit 5 k" by (simp add: take_bit_eq_mask mask_eq_exp_minus_1)
  then have "unat (k AND 0x1F) = unat k mod 32" by (simp only: unsigned_take_bit_eq) (simp add: take_bit_eq_mod)
  then show ?thesis by (rule of_nat_eqI)
qed

lemma parse_asn1_tag_complete:
  assumes v: "view m cbs = der_tag tag @ r"
  shows "parse_asn1_tag m cbs = (Some tag, adv (length (der_tag tag)) cbs)"
proof (cases "tag_number tag < 31")
  case True
  let ?k = "ucast (tag_number tag) :: byte"
  have u: "unat (tag_number tag) < 31" using True by (simp add: word_less_nat_alt)
  then have k: "unat ?k = unat (tag_number tag)" by (simp add: unsigned_ucast_eq take_bit_nat_eq_self)
  then have bits: "\<not> bit ?k n" if "5 \<le> n" for n
    using u that unat_less_exp_iff [of ?k 5] by simp
  have "?k AND 0x1F = ?k" unfolding low5 using k u by simp
  then have low: "(tag_bits tag OR ?k) AND 0x1F = ?k" by (simp only: tag_bits_low)
  have "?k \<noteq> 0x1F" using k u by (auto simp: word_unat_eq_iff)
  moreover have "tag_number tag \<noteq> 31" using u by (auto simp: word_unat_eq_iff)
  moreover have "ucast ?k = tag_number tag" by (simp only: word_unat_eq_iff unat_ucast_byte32 k)
  ultimately show ?thesis
    using v True tag_join [OF bits, of tag]
    by (simp add: der_tag_def parse_asn1_tag_def CBS_get_u8_view low Let_def)
next
  case False
  let ?n = "unat (tag_number tag)" and ?b = "tag_bits tag OR 0x1F"
  have n: "31 \<le> ?n" "?n < 2 ^ 29" using False tag_number_less [of tag] by (simp_all add: word_less_nat_alt)
  have vw: "view m cbs = ?b # base128 ?n @ r" using v False by (simp add: der_tag_def)
  then have vw': "view m (adv 1 cbs) = base128 ?n @ r" using view_append(2) [of m cbs "[?b]"] by simp
  have low: "?b AND 0x1F = 0x1F" by (simp only: tag_bits_low) simp
  have un: "unat (of_nat ?n :: u64) = ?n" using n by (simp add: unat_of_nat)
  then have "\<not> 0x1FFFFFFF < (of_nat ?n :: u64)" "\<not> (of_nat ?n :: u64) < 0x1F" "ucast (of_nat ?n :: u64) = tag_number tag"
    using n by (simp_all add: word_less_nat_alt word_unat_eq_iff unsigned_ucast_eq take_bit_nat_eq_self)
  then show ?thesis
    using False tag_join [of "0x1F" tag] parse_base128_complete [OF vw'] n
    by (simp add: der_tag_def parse_asn1_tag_def CBS_get_u8_view vw low Let_def)
qed

lemma parse_asn1_tag_sound:
  assumes "parse_asn1_tag m cbs = (Some tag, cbs')"
  shows "view m cbs = der_tag tag @ view m cbs' \<and> cbs' = adv (length (der_tag tag)) cbs"
proof -
  obtain b r where vw: "view m cbs = b # r"
    using assms by (cases "view m cbs") (simp_all add: parse_asn1_tag_def CBS_get_u8_view)
  then have r: "view m (adv 1 cbs) = r" using view_append(2) [of m cbs "[b]"] by simp
  let ?top = "push_bit 24 (ucast b AND 0xE0) :: u32"
  show ?thesis
  proof (cases "b AND 0x1F = 0x1F")
    case False
    let ?k = "ucast (b AND 0x1F) :: u32"
    have b31: "unat (b AND 0x1F) < 31" 
    proof -
      have "unat (b AND 0x1F) = unat b mod 32" unfolding low5 by (simp add: unat_of_nat)
      moreover have "unat b mod 32 \<noteq> 31"
        using False unfolding low5 by (metis of_nat_numeral)
      ultimately show ?thesis using mod_less_divisor [of 32 "unat b"] by simp
    qed
    then have "?k \<noteq> 0x1F" by (auto simp: word_unat_eq_iff unat_ucast_byte32)
    then have tag: "tag = ?top OR ?k" "cbs' = adv 1 cbs"
      using assms vw by (simp_all add: parse_asn1_tag_def CBS_get_u8_view Let_def)
    have "\<not> bit ?k n" if "29 \<le> n" for n
      using b31 that by (intro below_29) (simp_all add: unat_ucast_byte32)
    then have sp: "tag_number tag = ?k" "tag_bits tag = b AND 0xE0"
      unfolding tag(1) by (intro tag_split, blast)+
    have "unat (tag_number tag) < 31" using b31 by (simp only: sp(1) unat_ucast_byte32)
    then have "tag_number tag < 31" by (simp add: word_less_nat_alt)
    moreover have "(ucast ?k :: byte) = b AND 0x1F"
      by (rule bit_word_eqI) (auto simp: bit_simps)
    ultimately have "der_tag tag = [b]" by (simp only: der_tag_def sp if_True low_bits)
    then show ?thesis using vw r tag(2) by simp
  next
    case True
    then obtain v where v: "parse_base128_integer m (adv 1 cbs) = (Some v, cbs')" "\<not> 0x1FFFFFFF < v" "\<not> v < 0x1F"
      "tag = ?top OR ucast v"
      using assms vw by (auto simp: parse_asn1_tag_def CBS_get_u8_view Let_def get_then_def split: prod.splits option.splits if_splits)
    have uv: "unat v < 2 ^ 29" "31 \<le> unat v" using v(2,3) by (simp_all add: word_less_nat_alt)
    then have k: "unat (ucast v :: u32) = unat v" by (simp add: unsigned_ucast_eq take_bit_nat_eq_self)
    have "\<not> bit (ucast v :: u32) n" if "29 \<le> n" for n
      using uv that k by (intro below_29) simp_all
    then have sp: "tag_number tag = ucast v" "tag_bits tag = b AND 0xE0"
      unfolding v(4) by (intro tag_split, blast)+
    have "31 \<le> unat (tag_number tag)" using uv by (simp only: sp(1) k)
    then have "\<not> tag_number tag < 31" by (simp add: word_less_nat_alt)
    moreover have "b AND 0xE0 OR 0x1F = b" using low_bits [of b] True by simp
    ultimately have "der_tag tag = b # base128 (unat v)" by (simp only: der_tag_def sp if_False k)
    moreover obtain bs where "view m (adv 1 cbs) = bs @ view m cbs'" "bs = base128 (unat v)" "cbs' = adv (length bs) (adv 1 cbs)"
      using parse_base128_sound [OF v(1) [unfolded parse_base128_integer_def]] by (auto simp: base128_hi.simps)
    ultimately show ?thesis using vw r by simp
  qed
qed

section \<open>Lengths\<close>

definition be_val :: "byte list \<Rightarrow> nat" where
  "be_val bs = foldl (\<lambda>n b. n * 256 + unat b) 0 bs"

lemma be_val_snoc [simp]: "be_val [] = 0" "be_val (bs @ [b]) = be_val bs * 256 + unat b"
  by (simp_all add: be_val_def)

fun be_bytes :: "nat \<Rightarrow> byte list" where
  "be_bytes n = (if n = 0 then [] else be_bytes (n div 256) @ [of_nat (n mod 256)])"

declare be_bytes.simps [simp del]

lemma unat_byte: "unat b < 256" for b :: byte
  using unsigned_less [of b, where ?'a = nat] by simp

lemma be_val_be_bytes [simp]: "be_val (be_bytes n) = n"
proof (induction n rule: be_bytes.induct)
  case (1 n)
  show ?case
  proof (cases "n = 0")
    case True
    then show ?thesis by (simp add: be_bytes.simps [of 0])
  next
    case False
    then show ?thesis using 1 by (simp add: be_bytes.simps [of n] unat_of_nat)
  qed
qed

lemma be_val_less: "be_val bs < 256 ^ length bs"
proof (induction bs rule: rev_induct)
  case (snoc b bs)
  then have "be_val bs * 256 + 256 \<le> 256 * 256 ^ length bs" by simp
  then show ?case using unat_byte [of b] by simp
qed simp

lemma be_val_Cons: "be_val (b # bs) = unat b * 256 ^ length bs + be_val bs"
  by (induction bs rule: rev_induct) (simp_all add: algebra_simps flip: append_Cons, simp add: be_val_def)

lemma be_bytes_be_val: "bs = [] \<or> hd bs \<noteq> 0 \<Longrightarrow> be_bytes (be_val bs) = bs"
proof (induction bs rule: rev_induct)
  case Nil
  then show ?case by (simp add: be_bytes.simps)
next
  case (snoc b bs)
  have "be_bytes (be_val bs) = bs" using snoc by (cases bs) simp_all
  moreover have "be_val bs * 256 + unat b \<noteq> 0"
  proof (cases bs)
    case Nil
    then show ?thesis using snoc.prems by (simp add: unat_eq_0)
  next
    case (Cons x xs)
    then have "x \<noteq> 0" using snoc.prems by simp
    then have "0 < unat x" by (simp add: unat_gt_0)
    then show ?thesis using Cons by (simp add: be_val_Cons)
  qed
  ultimately show ?case
    using unat_byte [of b] by (simp add: be_bytes.simps [of "be_val bs * 256 + unat b"])
qed

lemma hd_be_bytes: "n \<noteq> 0 \<Longrightarrow> hd (be_bytes n) \<noteq> 0"
proof (induction n rule: be_bytes.induct)
  case (1 n)
  show ?case
  proof (cases "n div 256 = 0")
    case True
    then have "n mod 256 = n" "n < 256" by auto
    moreover have "unat (of_nat n :: byte) = n" using \<open>n < 256\<close> by (simp add: unat_of_nat)
    ultimately show ?thesis using "1.prems" True by (auto simp: be_bytes.simps [of n] be_bytes.simps [of 0])
  next
    case False
    then have "be_bytes (n div 256) \<noteq> []" by (subst be_bytes.simps) simp
    then show ?thesis using 1 False by (simp add: be_bytes.simps [of n])
  qed
qed

lemma length_be_bytes: "n < 256 ^ k \<Longrightarrow> length (be_bytes n) \<le> k"
proof (induction k arbitrary: n)
  case 0
  then show ?case by (simp add: be_bytes.simps)
next
  case (Suc k)
  then have "n div 256 < 256 ^ k" by (simp add: less_mult_imp_div_less mult.commute)
  then show ?case using Suc.IH by (subst be_bytes.simps) simp
qed

lemma be_bytes_pos: "n \<noteq> 0 \<Longrightarrow> be_bytes n \<noteq> []"
  by (subst be_bytes.simps) simp

lemma be_val_hd:
  assumes "bs \<noteq> []"
  shows "256 ^ (length bs - 1) \<le> be_val bs \<longleftrightarrow> hd bs \<noteq> 0"
proof -
  obtain b r where bs: "bs = b # r" using assms by (cases bs) auto
  show ?thesis
  proof (cases "b = 0")
    case True
    then show ?thesis using be_val_less [of r] by (simp add: bs be_val_Cons)
  next
    case False
    then have "1 \<le> unat b" by (metis One_nat_def Suc_leI unat_gt_0)
    then have "256 ^ length r \<le> unat b * 256 ^ length r" by simp
    then have "256 ^ length r \<le> unat b * 256 ^ length r + be_val r" by (rule trans_le_add1)
    then show ?thesis using False unfolding bs by (simp add: be_val_Cons del: mult_le_cancel2)
  qed
qed

lemma be_loop_val:
  "(unat r + 1) * 256 ^ n \<le> 2 ^ 64 \<Longrightarrow>
     unat (be_loop m p n r) = foldl (\<lambda>n b. n * 256 + unat b) (unat r) (load_bytes m p n)"
proof (induction n arbitrary: p r)
  case (Suc n)
  let ?r = "push_bit 8 r OR ucast (m p) :: u64"
  have pow: "256 * 256 ^ n * (unat r + 1) \<le> (2 ^ 64 :: nat)" using Suc.prems by (simp add: algebra_simps)
  have "256 * (unat r + 1) \<le> 256 * 256 ^ n * (unat r + 1)" by (rule mult_right_mono) simp_all
  then have "256 * (unat r + 1) \<le> 2 ^ 64" using pow by (rule order_trans)
  then have "unat r * 256 + 256 \<le> 2 ^ 64" by simp
  then have r: "unat ?r = unat r * 256 + unat (m p)"
    using unat_push_or [of "ucast (m p) :: u64" 8 r] unat_byte [of "m p"]
    by (simp add: unsigned_ucast_eq take_bit_nat_eq_self)
  have "(unat ?r + 1) * 256 ^ n \<le> (unat r * 256 + 256) * 256 ^ n"
    unfolding r using unat_byte [of "m p"] by (intro mult_right_mono) simp_all
  also have "\<dots> \<le> 2 ^ 64" using pow by (simp add: algebra_simps)
  finally show ?case using Suc.IH [of ?r "p + 1"] r by simp
qed simp

lemma cbs_get_u_view:
  assumes "unat n \<le> 8" "view m cbs = xs @ r" "length xs = unat n"
  shows "cbs_get_u m cbs n = (Some (of_nat (be_val xs)), adv (unat n) cbs)" "be_val xs < 2 ^ 64"
proof -
  have le: "unat n \<le> unat (cbs_len cbs)" using view_append(1) [OF assms(2)] assms(3) by simp
  have xs: "xs = load_bytes m (cbs_data cbs) (unat n)"
    using take_load_bytes [OF le, of m "cbs_data cbs"] assms(2,3) by (simp add: view_def)
  have "(256 :: nat) ^ unat n \<le> 256 ^ 8" using assms(1) by (intro power_increasing) simp_all
  then have pow: "256 ^ unat n \<le> (2 ^ 64 :: nat)" by simp
  then have "unat (be_loop m (cbs_data cbs) (unat n) 0) = be_val xs"
    using be_loop_val [of 0 "unat n" m "cbs_data cbs"] xs by (simp add: be_val_def)
  then have "be_loop m (cbs_data cbs) (unat n) 0 = of_nat (be_val xs)" by (rule of_nat_eqI)
  then show "cbs_get_u m cbs n = (Some (of_nat (be_val xs)), adv (unat n) cbs)"
    using le by (simp add: cbs_get_u_def cbs_get_adv)
  show "be_val xs < 2 ^ 64" using be_val_less [of xs] pow assms(3) by simp
qed

lemma cbs_get_u_None: "length (view m cbs) < unat n \<Longrightarrow> cbs_get_u m cbs n = (None, cbs)"
  by (simp add: cbs_get_u_def cbs_get_adv)

section \<open>Elements\<close>

definition der_len :: "nat \<Rightarrow> byte list" where
  "der_len n =
     (if n < 128 then [of_nat n] else (of_nat (length (be_bytes n)) OR 0x80) # be_bytes n)"

definition der_header :: "u32 \<Rightarrow> nat \<Rightarrow> byte list" where
  "der_header tag n = der_tag tag @ der_len n"

lemma length_base128_hi: "n < 128 ^ k \<Longrightarrow> length (base128_hi n) \<le> k"
proof (induction k arbitrary: n)
  case 0
  then show ?case by (simp add: base128_hi.simps)
next
  case (Suc k)
  then have "n div 128 < 128 ^ k" by (simp add: less_mult_imp_div_less mult.commute)
  then show ?case using Suc.IH by (subst base128_hi.simps) simp
qed

lemma length_der_tag: "length (der_tag tag) \<le> 6"
proof -
  have "unat (tag_number tag) < 2 ^ 29" by (rule tag_number_less)
  then have "unat (tag_number tag) div 128 < 128 ^ 4" by simp
  then have "length (base128_hi (unat (tag_number tag) div 128)) \<le> 4" by (rule length_base128_hi)
  then show ?thesis by (simp add: der_tag_def base128_def)
qed

lemma adv_len_diff: "cbs_len cbs - cbs_len (adv k cbs) = of_nat k"
  by (simp add: adv_def)

text \<open>The element of \<open>k\<close> bytes, \<open>h\<close> of them the header.\<close>

definition the_element :: "cbs \<Rightarrow> u32 \<Rightarrow> nat \<Rightarrow> nat \<Rightarrow> asn1_element" where
  "the_element cbs tag h k =
     \<lparr>el_out = CBS_init (cbs_data cbs) (of_nat k), el_tag = tag, el_header_len = of_nat h, el_ber_found = False\<rparr>"

lemma get_element_view:
  assumes "k < 2 ^ 64"
  shows "get_element cbs (of_nat k) tag (of_nat h) False =
    (if k \<le> unat (cbs_len cbs) then (Some (the_element cbs tag h k), adv k cbs) else (None, cbs))"
proof -
  have "unat (of_nat k :: u64) = k" using assms by (simp add: unat_of_nat)
  then show ?thesis by (simp add: get_element_def CBS_get_bytes_def cbs_get_adv the_element_def)
qed

lemma unat_ucast_byte64: "unat (ucast (b :: byte) :: u64) = unat b"
  by (simp add: unsigned_ucast_eq take_bit_nat_eq_self order_less_le_trans [OF unsigned_less])

lemma num_bytes:
  fixes lb :: byte
  assumes "128 \<le> unat lb"
  shows "unat (ucast (lb AND 0x7F) :: u64) = unat lb - 128"
proof -
  have "unat lb mod 128 = unat lb - 128" using assms unat_byte [of lb] by (simp add: mod_if)
  then show ?thesis by (simp add: unsigned_ucast_eq byte_low take_bit_nat_eq_self)
qed

text \<open>What the parser does behind the tag, in numbers.\<close>

definition element_length :: "byte \<Rightarrow> byte list \<Rightarrow> (nat \<times> nat) option" where
  "element_length lb r =
     (if unat lb < 128 then Some (1, unat lb)
      else if unat lb = 128 \<or> 132 < unat lb \<or> length r < unat lb - 128 then None
      else
        let k = unat lb - 128; n = be_val (take k r) in
        if n < 128 \<or> n < 256 ^ (k - 1) then None else Some (k + 1, n))"

lemma element_length_view:
  assumes v: "view m cbs = der_tag tag @ lb # r"
  shows "cbs_get_any_asn1_element m cbs False =
    (case element_length lb r of
       None \<Rightarrow> (None, cbs)
     | Some (k, n) \<Rightarrow> get_element cbs (of_nat (n + (length (der_tag tag) + k))) tag (of_nat (length (der_tag tag) + k)) False)"
proof -
  let ?t = "length (der_tag tag)"
  have v1: "view m (adv ?t cbs) = lb # r" by (rule view_append(2) [OF v])
  have v2: "view m (adv (?t + 1) cbs) = r" using view_append(2) [of m "adv ?t cbs" "[lb]" r] v1 by simp
  have tag: "parse_asn1_tag m cbs = (Some tag, adv ?t cbs)" by (rule parse_asn1_tag_complete [OF v])
  have lb: "CBS_get_u8 m (adv ?t cbs) = (Some lb, adv (?t + 1) cbs)" by (simp add: CBS_get_u8_view v1)
  show ?thesis
  proof (cases "unat lb < 128")
    case True
    have "ucast lb + of_nat (?t + 1) = (of_nat (unat lb + (?t + 1)) :: u64)"
      using of_nat_eqI [OF unat_ucast_byte64 [of lb]] by simp
    then show ?thesis
      using True unfolding cbs_get_any_asn1_element_def tag lb byte_high CBS_len_def adv_len_diff element_length_def
          Let_def prod.case option.case if_P [OF True]
      by (simp add: ac_simps)
  next
    case False
    define k where "k = unat lb - 128"
    define nb :: u64 where "nb = ucast (lb AND 0x7F)"
    have nb: "unat nb = k" using num_bytes False by (simp add: nb_def k_def)
    have k: "unat lb = 128 + k" using False by (simp add: k_def)
    have nbk: "nb = of_nat k" using nb by (rule of_nat_eqI)
    have nb0: "nb = 0 \<longleftrightarrow> k = 0" and nb4: "4 < nb \<longleftrightarrow> 4 < k"
      using nb by (simp_all add: word_unat_eq_iff word_less_nat_alt)
    show ?thesis
    proof (cases "k = 0 \<or> 4 < k \<or> length r < k")
      case True
      then have "element_length lb r = None" by (auto simp: element_length_def k)
      moreover have "cbs_get_any_asn1_element m cbs False = (None, cbs)"
      proof (cases "k = 0 \<or> 4 < k")
        case True
        then show ?thesis using False nb0 nb4
          by (simp add: cbs_get_any_asn1_element_def tag lb byte_high Let_def nb_def [symmetric])
      next
        case False
        then have "cbs_get_u m (adv (?t + 1) cbs) nb = (None, adv (?t + 1) cbs)"
          using \<open>k = 0 \<or> 4 < k \<or> length r < k\<close> nb v2 by (intro cbs_get_u_None) simp
        then show ?thesis using False \<open>\<not> unat lb < 128\<close> nb0 nb4
          by (simp add: cbs_get_any_asn1_element_def tag lb byte_high Let_def nb_def [symmetric])
      qed
      ultimately show ?thesis by simp
    next
      case ok: False
      define n where "n = be_val (take k r)"
      have get: "cbs_get_u m (adv (?t + 1) cbs) nb = (Some (of_nat n), adv (?t + 1 + k) cbs)"
        using cbs_get_u_view(1) [of nb m "adv (?t + 1) cbs" "take k r" "drop k r"] ok nb v2 by (simp add: n_def)
      have "be_val (take k r) < 256 ^ k" using be_val_less [of "take k r"] ok by simp
      moreover have "(256 :: nat) ^ k \<le> 256 ^ 4" using ok by (intro power_increasing) simp_all
      ultimately have n: "n < 2 ^ 32" by (simp add: n_def)
      then have un: "unat (of_nat n :: u64) = n" by (simp add: unat_of_nat)
      have sh: "unat ((nb - 1) * 8) = (k - 1) * 8"
      proof -
        have "(k - 1) * 8 \<le> 24" using ok by auto
        have "nb - 1 = of_nat (k - 1)" using ok by (simp add: nbk of_nat_diff)
        then have "(nb - 1) * 8 = of_nat ((k - 1) * 8)" by simp
        moreover have "unat (of_nat ((k - 1) * 8) :: u64) = (k - 1) * 8"
          using \<open>(k - 1) * 8 \<le> 24\<close> unfolding unat_of_nat by (simp del: One_nat_def)
        ultimately show ?thesis by simp
      qed
      have pw: "(2 :: nat) ^ ((k - 1) * 8) = 256 ^ (k - 1)"
        by (simp add: mult.commute [of _ 8] power_mult)
      have long: "drop_bit (unat ((nb - 1) * 8)) (of_nat n :: u64) = 0 \<longleftrightarrow> n < 256 ^ (k - 1)"
        by (simp only: drop_bit_eq_0 sh un pw)
      have short: "(of_nat n :: u64) < 128 \<longleftrightarrow> n < 128"
        using un by (simp add: word_less_nat_alt)
      have hl: "of_nat (?t + 1) + nb = of_nat (?t + (k + 1))" by (simp add: nbk)
      have "unat (of_nat n + of_nat (?t + 1) + nb) = n + (?t + 1) + k"
      proof -
        have "of_nat n + of_nat (?t + 1) + nb = of_nat (n + (?t + 1) + k)" by (simp add: nbk)
        moreover have "n + (?t + 1) + k < 2 ^ 64" using n ok length_der_tag [of tag] by simp
        ultimately show ?thesis by (simp only: unat_of_nat) simp
      qed
      then have no: "\<not> of_nat n + of_nat (?t + 1) + nb < (of_nat n :: u64)"
        by (simp only: word_less_nat_alt un)
      have len: "of_nat n + (of_nat (?t + 1) + nb) = of_nat (n + (?t + (k + 1)))" by (simp add: nbk)
      have el: "element_length lb r = (if n < 128 \<or> n < 256 ^ (k - 1) then None else Some (k + 1, n))"
        using ok unfolding element_length_def k n_def by (simp add: Let_def)
      have "cbs_get_any_asn1_element m cbs False =
        (if n < 128 \<or> n < 256 ^ (k - 1) then (None, cbs)
         else get_element cbs (of_nat n + (of_nat (?t + 1) + nb)) tag (of_nat (?t + 1) + nb) False)"
        using False ok nb0 nb4 no
        unfolding cbs_get_any_asn1_element_def tag lb byte_high CBS_len_def adv_len_diff Let_def
          prod.case option.case nb_def [symmetric] get long short
        by simp
      then show ?thesis unfolding len hl el by (simp add: ac_simps)
    qed
  qed
qed

end
