(* ===== verification/Bs_Cbb_Buffer.thy ===== *)
theory Bs_Cbb_Buffer
  imports Bs_Cbb Bs_Der
begin

text \<open>
  The buffer of a builder: what it holds, how much room there is, and the rule by which calls are
  composed (\<open>cbb_does\<close>): a call returns, and it fails only under the conditions stated.
\<close>

section \<open>The bytes written\<close>

definition cbb_bytes :: "cbb_buffer \<Rightarrow> byte list" where
  "cbb_bytes b = (case b_buf b of None \<Rightarrow> [] | Some xs \<Rightarrow> xs)"

text \<open>The buffer has no error and holds \<open>xs\<close>; there is room for \<open>n\<close> bytes; there was an error.\<close>

definition holds :: "byte list \<Rightarrow> cbb_state \<Rightarrow> bool" where
  "holds xs st \<longleftrightarrow> (\<exists>b. buffer st = Some b \<and> \<not> b_error b \<and> length (cbb_bytes b) = unat (b_cap b) \<and>
     unat (b_len b) \<le> unat (b_cap b) \<and> take (unat (b_len b)) (cbb_bytes b) = xs)"

definition cbb_fits :: "allocator \<Rightarrow> cbb_state \<Rightarrow> nat \<Rightarrow> bool" where
  "cbb_fits malloc st n \<longleftrightarrow> (\<exists>b. buffer st = Some b \<and>
     (n \<le> unat (b_cap b) \<or>
      b_can_resize b \<and> n < 2 ^ 62 \<and> (\<forall>k m. unat m \<le> 2 * n + 8 \<longrightarrow> malloc k m \<noteq> None)))"

definition failed :: "cbb_state \<Rightarrow> bool" where
  "failed st \<longleftrightarrow> (\<exists>b. buffer st = Some b \<and> b_error b)"

text \<open>
  The call returns.  If it succeeds then \<open>P\<close> holds of the result; if it fails, the error is recorded,
  and the condition \<open>A\<close> was not met or there is no room for \<open>n\<close> bytes.
\<close>

definition cbb_does :: "allocator \<Rightarrow> cbb_state \<Rightarrow> 'a cbb_result \<Rightarrow> bool \<Rightarrow> nat \<Rightarrow> ('a \<Rightarrow> cbb_state \<Rightarrow> bool) \<Rightarrow> bool" where
  "cbb_does malloc st r A n P \<longleftrightarrow>
     (\<exists>x st'. r = Some (x, st') \<and> (\<forall>k. cbb_fits malloc st k \<longrightarrow> cbb_fits malloc st' k) \<and>
        (case x of None \<Rightarrow> failed st' \<and> \<not> (A \<and> cbb_fits malloc st n) | Some y \<Rightarrow> P y st'))"

lemma cbb_fits_mono: "cbb_fits malloc st n \<Longrightarrow> k \<le> n \<Longrightarrow> cbb_fits malloc st k"
  unfolding cbb_fits_def by (force intro: order_trans)

lemma does_weaken:
  "cbb_does malloc st r A n P \<Longrightarrow> (B \<Longrightarrow> A) \<Longrightarrow> (A \<Longrightarrow> n \<le> k) \<Longrightarrow> (\<And>y st'. P y st' \<Longrightarrow> Q y st') \<Longrightarrow> cbb_does malloc st r B k Q"
  unfolding cbb_does_def by (fastforce split: option.splits intro: cbb_fits_mono)

lemma does_then:
  assumes r: "cbb_does malloc st r A n P" and k: "\<And>y st'. P y st' \<Longrightarrow> cbb_does malloc st' (k y st') A n Q"
  shows "cbb_does malloc st (and_then r k) A n Q"
proof -
  obtain x st' where x: "r = Some (x, st')" "\<forall>k. cbb_fits malloc st k \<longrightarrow> cbb_fits malloc st' k"
    "case x of None \<Rightarrow> failed st' \<and> \<not> (A \<and> cbb_fits malloc st n) | Some y \<Rightarrow> P y st'"
    using r unfolding cbb_does_def by blast
  show ?thesis
  proof (cases x)
    case None
    then show ?thesis using x unfolding cbb_does_def by simp
  next
    case (Some y)
    then have "cbb_does malloc st' (k y st') A n Q" using x(3) k by simp
    then show ?thesis using x Some unfolding cbb_does_def by (fastforce split: option.splits)
  qed
qed

lemma does_return: "P y st' \<Longrightarrow> (\<And>k. cbb_fits malloc st k \<Longrightarrow> cbb_fits malloc st' k) \<Longrightarrow> cbb_does malloc st (Some (Some y, st')) A n P"
  unfolding cbb_does_def by simp

lemma does_step:
  "(\<And>k. cbb_fits malloc st k \<Longrightarrow> cbb_fits malloc st' k) \<Longrightarrow> cbb_does malloc st' r A n P \<Longrightarrow> cbb_does malloc st r A n P"
  unfolding cbb_does_def by (fastforce split: option.splits)

lemma holdsE:
  assumes "holds xs st"
  obtains b where "buffer st = Some b" "\<not> b_error b" "length (cbb_bytes b) = unat (b_cap b)"
    "b_len b = of_nat (length xs)" "unat (b_len b) = length xs" "length xs \<le> unat (b_cap b)" "take (length xs) (cbb_bytes b) = xs"
proof -
  obtain b where b: "buffer st = Some b" "\<not> b_error b" "length (cbb_bytes b) = unat (b_cap b)"
    "unat (b_len b) \<le> unat (b_cap b)" "take (unat (b_len b)) (cbb_bytes b) = xs"
    using assms unfolding holds_def by blast
  then have "unat (b_len b) = length xs" by auto
  then show thesis using b that [of b] of_nat_eqI [of "b_len b"] by simp
qed

lemma holds_length: "holds xs st \<Longrightarrow> length xs < 2 ^ 64"
proof (erule holdsE)
  fix b assume "length xs \<le> unat (b_cap b)"
  then show "length xs < 2 ^ 64" using unsigned_less [of "b_cap b", where ?'a = nat] by simp
qed

lemma holds_unat: "holds xs st \<Longrightarrow> n \<le> length xs \<Longrightarrow> unat (of_nat n :: u64) = n"
  using holds_length [of xs st] by (simp add: unat_of_nat)

lemma holds_cong: "buffer st' = buffer st \<Longrightarrow> holds xs st' = holds xs st" "buffer st' = buffer st \<Longrightarrow> cbb_fits malloc st' = cbb_fits malloc st"
  "buffer st' = buffer st \<Longrightarrow> failed st' = failed st"
  by (simp_all add: holds_def cbb_fits_def failed_def fun_eq_iff)

lemma upd_cbb_simps [simp]:
  "buffer (upd_cbb c f st) = buffer st" "holds xs (upd_cbb c f st) = holds xs st"
  "cbb_fits malloc (upd_cbb c f st) = cbb_fits malloc st" "failed (upd_cbb c f st) = failed st"
  "cbbs (upd_cbb c f st) = (cbbs st)(c := f (cbbs st c))"
  by (simp_all add: upd_cbb_def holds_def cbb_fits_def failed_def fun_eq_iff)

lemma cbb_err_does: "holds xs st \<Longrightarrow> \<not> (A \<and> cbb_fits malloc st n) \<Longrightarrow> cbb_does malloc st (cbb_err st) A n P"
  by (erule holdsE) (auto simp: cbb_does_def cbb_err_def set_buffer_def cbb_fits_def failed_def)

section \<open>Room\<close>

lemma malloc_does:
  assumes "unat n < 2 ^ 63"
  shows "fst (OPENSSL_malloc malloc n k) = map_option (\<lambda>f. map f [0..<unat n]) (malloc k (n + 8))"
    "unat (n + 8) = unat n + 8"
proof -
  show u: "unat (n + 8) = unat n + 8" using assms by (simp add: unat_plus_if')
  have "\<not> n + 8 < n" using u by (simp add: word_less_nat_alt)
  then show "fst (OPENSSL_malloc malloc n k) = map_option (\<lambda>f. map f [0..<unat n]) (malloc k (n + 8))"
    by (simp add: OPENSSL_malloc_def OPENSSL_MALLOC_PREFIX_def)
qed

lemma realloc_keeps:
  assumes r: "OPENSSL_realloc malloc orig n k = (Some ys, k')"
    and xs: "length xs \<le> unat n" "take (length xs) (case orig of None \<Rightarrow> [] | Some old \<Rightarrow> old) = xs"
  shows "length ys = unat n" "take (length xs) ys = xs"
proof -
  have len: "length zs = unat n" if "OPENSSL_malloc malloc n k = (Some zs, j)" for zs j
    using that by (auto simp: OPENSSL_malloc_def split: if_splits)
  have "length ys = unat n \<and> take (length xs) ys = xs"
  proof (cases orig)
    case None
    then have "OPENSSL_malloc malloc n k = (Some ys, k')" using r by (simp add: OPENSSL_realloc_def)
    then show ?thesis using len xs None by simp
  next
    case (Some old)
    then obtain zs where zs: "OPENSSL_malloc malloc n k = (Some zs, k')"
      "ys = take (min (length old) (unat n)) old @ drop (min (length old) (unat n)) zs"
      using r by (auto simp: OPENSSL_realloc_def Let_def min_def split: prod.splits option.splits if_splits)
    have old: "take (length xs) old = xs" using xs(2) Some by simp
    then have "length xs \<le> length old" by (metis length_take min.cobounded1 min.absorb_iff2 nat_le_linear order_refl)
    moreover have "take (length xs) (take (min (length old) (unat n)) old) = xs"
      using old calculation xs(1) by (simp add: take_take)
    ultimately show ?thesis using zs(2) len [OF zs(1)] xs(1) by (simp add: min_def)
  qed
  then show "length ys = unat n" "take (length xs) ys = xs" by simp_all
qed

lemma reserve_does:
  assumes h: "holds xs st"
  shows "cbb_does malloc st (cbb_buffer_reserve malloc True len st) True (length xs + unat len)
    (\<lambda>out st'. out = of_nat (length xs) \<and> holds xs st' \<and> cbbs st' = cbbs st \<and>
       (\<exists>b. buffer st' = Some b \<and> length xs + unat len \<le> unat (b_cap b)))"
proof -
  obtain b where b: "buffer st = Some b" "\<not> b_error b" "length (cbb_bytes b) = unat (b_cap b)"
    "b_len b = of_nat (length xs)" "unat (b_len b) = length xs" "length xs \<le> unat (b_cap b)" "take (length xs) (cbb_bytes b) = xs"
    using h by (rule holdsE)
  let ?n = "length xs + unat len"
  have cbb_fits: "cbb_fits malloc st ?n \<longleftrightarrow> ?n \<le> unat (b_cap b) \<or>
      b_can_resize b \<and> ?n < 2 ^ 62 \<and> (\<forall>k m. unat m \<le> 2 * ?n + 8 \<longrightarrow> malloc k m \<noteq> None)"
    using b(1) by (simp add: cbb_fits_def)
  have cap: "unat (b_cap b) < 2 ^ 64" using unsigned_less [of "b_cap b", where ?'a = nat] by simp
  show ?thesis
  proof (cases "?n < 2 ^ 64")
    case False
    then have "b_len b + len < b_len b"
      using b(5) unsigned_less [of len, where ?'a = nat] by (simp add: word_less_nat_alt unat_plus_if')
    then have "cbb_buffer_reserve malloc True len st = cbb_err st"
      using b(1) by (simp add: cbb_buffer_reserve_def Let_def)
    moreover have "\<not> cbb_fits malloc st ?n" using False cap unfolding cbb_fits by simp
    ultimately show ?thesis by (simp add: cbb_err_does [OF h])
  next
    case True
    then have new: "unat (b_len b + len) = ?n" using b(5) by (simp add: unat_plus_if')
    then have no: "\<not> b_len b + len < b_len b" using b(5) by (simp add: word_less_nat_alt)
    show ?thesis
    proof (cases "b_cap b < b_len b + len")
      case False
      then have "?n \<le> unat (b_cap b)" using new by (simp add: word_less_nat_alt not_less)
      then show ?thesis
        using b h no False by (auto simp: cbb_buffer_reserve_def Let_def intro!: does_return)
    next
      case grow: True
      then have cap_n: "unat (b_cap b) < ?n" using new by (simp add: word_less_nat_alt)
      show ?thesis
      proof (cases "b_can_resize b")
        case False
        then have "cbb_buffer_reserve malloc True len st = cbb_err st"
          using b(1) no grow by (simp add: cbb_buffer_reserve_def Let_def)
        moreover have "\<not> cbb_fits malloc st ?n" using False cap_n unfolding cbb_fits by simp
        ultimately show ?thesis by (simp add: cbb_err_does [OF h])
      next
        case rs: True
        define newcap where "newcap = (if b_cap b * 2 < b_cap b \<or> b_cap b * 2 < b_len b + len then b_len b + len else b_cap b * 2)"
        have nc: "?n \<le> unat newcap" using new unfolding newcap_def by (auto simp: word_less_nat_alt)
        obtain nb k where r: "OPENSSL_realloc malloc (b_buf b) newcap (mallocs st) = (nb, k)" by fastforce
        have step: "cbb_buffer_reserve malloc True len st =
          (case nb of None \<Rightarrow> cbb_err (st\<lparr>mallocs := k\<rparr>)
           | Some newbuf \<Rightarrow> Some (Some (b_len b), set_buffer (b\<lparr>b_buf := Some newbuf, b_cap := newcap\<rparr>) (st\<lparr>mallocs := k\<rparr>)))"
          using no grow rs r unfolding cbb_buffer_reserve_def b(1) Option.bind.simps Let_def newcap_def [symmetric]
          by (cases nb) simp_all
        have k: "buffer (st\<lparr>mallocs := k\<rparr>) = buffer st" by simp
        show ?thesis
        proof (cases nb)
          case None
          have "\<not> cbb_fits malloc st ?n"
          proof
            assume "cbb_fits malloc st ?n"
            then have ok: "?n < 2 ^ 62" "\<And>k m. unat m \<le> 2 * ?n + 8 \<Longrightarrow> malloc k m \<noteq> None" using cap_n unfolding cbb_fits by auto
            have "unat (b_cap b * 2) = unat (b_cap b) * 2" using cap_n ok(1) by (simp add: unat_mult_lem [THEN iffD1])
            then have "unat newcap \<le> 2 * ?n" using new cap_n unfolding newcap_def by simp
            then have u: "unat newcap < 2 ^ 63" "unat newcap + 8 \<le> 2 * ?n + 8" using ok(1) by simp_all
            have "malloc (mallocs st) (newcap + 8) \<noteq> None" using ok(2) u(2) malloc_does(2) [OF u(1)] by simp
            then have "fst (OPENSSL_malloc malloc newcap (mallocs st)) \<noteq> None" using malloc_does(1) [OF u(1)] by simp
            then have "fst (OPENSSL_realloc malloc (b_buf b) newcap (mallocs st)) \<noteq> None"
              by (auto simp: OPENSSL_realloc_def Let_def split: option.splits prod.splits)
            then show False using r None by simp
          qed
          then have d: "cbb_does malloc (st\<lparr>mallocs := k\<rparr>) (cbb_err (st\<lparr>mallocs := k\<rparr>)) True ?n
            (\<lambda>out st'. out = of_nat (length xs) \<and> holds xs st' \<and> cbbs st' = cbbs st \<and>
              (\<exists>b. buffer st' = Some b \<and> length xs + unat len \<le> unat (b_cap b)))"
            using h by (intro cbb_err_does) (simp_all add: holds_cong [OF k])
          show ?thesis unfolding step None option.case by (rule does_step [OF _ d]) (simp add: holds_cong [OF k])
        next
          case (Some newbuf)
          have kp: "length newbuf = unat newcap" "take (length xs) newbuf = xs"
            using realloc_keeps [OF r [unfolded Some], of xs] nc b(7) by (simp_all add: cbb_bytes_def)
          let ?b = "b\<lparr>b_buf := Some newbuf, b_cap := newcap\<rparr>"
          have "holds xs (set_buffer ?b (st\<lparr>mallocs := k\<rparr>))"
            using b(2,5) nc kp by (simp add: holds_def set_buffer_def cbb_bytes_def)
          moreover have "cbb_fits malloc (set_buffer ?b (st\<lparr>mallocs := k\<rparr>)) j" if "cbb_fits malloc st j" for j
            using that b(1) cap_n nc by (auto simp: cbb_fits_def set_buffer_def)
          ultimately show ?thesis
            unfolding step Some using b(4) nc by (auto simp: set_buffer_def intro!: does_return)
        qed
      qed
    qed
  qed
qed

lemma add_does:
  assumes h: "holds xs st"
  shows "cbb_does malloc st (cbb_buffer_add malloc True len st) True (length xs + unat len)
    (\<lambda>out st'. out = of_nat (length xs) \<and> (\<exists>ys. length ys = unat len \<and> holds (xs @ ys) st') \<and> cbbs st' = cbbs st)"
  unfolding cbb_buffer_add_def
proof (rule does_then [OF reserve_does [OF h]])
  fix out st1
  assume "out = of_nat (length xs) \<and> holds xs st1 \<and> cbbs st1 = cbbs st \<and>
    (\<exists>b. buffer st1 = Some b \<and> length xs + unat len \<le> unat (b_cap b))"
  then obtain b where out: "out = of_nat (length xs)" "cbbs st1 = cbbs st" and h1: "holds xs st1"
    and b: "buffer st1 = Some b" "length xs + unat len \<le> unat (b_cap b)" by blast
  let ?b = "b\<lparr>b_len := b_len b + len\<rparr>"
  have b': "\<not> b_error b" "length (cbb_bytes b) = unat (b_cap b)" "unat (b_len b) = length xs" "take (length xs) (cbb_bytes b) = xs"
    using h1 b(1) by (auto elim!: holdsE)
  have "length xs + unat len < 2 ^ 64"
    using b(2) unsigned_less [of "b_cap b", where ?'a = nat] by simp
  then have n: "unat (b_len b + len) = length xs + unat len" using b'(3) by (simp add: unat_plus_if')
  let ?ys = "take (unat len) (drop (length xs) (cbb_bytes b))"
  have "take (length xs + unat len) (cbb_bytes b) = xs @ ?ys" using b'(4) by (simp add: take_add)
  then have "holds (xs @ ?ys) (set_buffer ?b st1)"
    using b b' n by (simp add: holds_def set_buffer_def cbb_bytes_def)
  moreover have "length ?ys = unat len" using b(2) b'(2) by simp
  ultimately have "\<exists>ys. length ys = unat len \<and> holds (xs @ ys) (set_buffer ?b st1)" by blast
  moreover have "cbb_fits malloc (set_buffer ?b st1) k" if "cbb_fits malloc st1 k" for k
    using that b(1) by (auto simp: cbb_fits_def set_buffer_def)
  ultimately show "cbb_does malloc st1 (Option.bind (buffer st1) (\<lambda>b. Some (Some out, set_buffer (b\<lparr>b_len := b_len b + len\<rparr>) st1)))
     True (length xs + unat len)
     (\<lambda>out st'. out = of_nat (length xs) \<and> (\<exists>ys. length ys = unat len \<and> holds (xs @ ys) st') \<and> cbbs st' = cbbs st)"
    using out b(1) by (auto simp: set_buffer_def intro!: does_return)
qed

text \<open>Writing in the middle of what the buffer holds.\<close>

definition same_room :: "cbb_state \<Rightarrow> cbb_state \<Rightarrow> bool" where
  "same_room st st' \<longleftrightarrow> cbbs st' = cbbs st \<and> (\<forall>malloc n. cbb_fits malloc st' n \<longleftrightarrow> cbb_fits malloc st n)"

lemma same_room_refl [simp]: "same_room st st"
  by (simp add: same_room_def)

lemma same_room_trans: "same_room a b \<Longrightarrow> same_room b c \<Longrightarrow> same_room a c"
  by (simp add: same_room_def)

lemma buf_put_holds:
  assumes h: "holds (xs @ ys @ zs) st" and len: "length ys = length bs"
  shows "\<exists>st'. buf_put (of_nat (length xs)) bs st = Some st' \<and> holds (xs @ bs @ zs) st' \<and> same_room st st'"
proof (cases "bs = []")
  case True
  then show ?thesis using assms by (simp add: buf_put_def)
next
  case False
  obtain b where b: "buffer st = Some b" "\<not> b_error b" "length (cbb_bytes b) = unat (b_cap b)"
    "unat (b_len b) = length (xs @ ys @ zs)" "length (xs @ ys @ zs) \<le> unat (b_cap b)"
    "take (length (xs @ ys @ zs)) (cbb_bytes b) = xs @ ys @ zs"
    using h by (rule holdsE)
  have u: "unat (of_nat (length xs) :: u64) = length xs" using holds_unat [OF h, of "length xs"] by simp
  have "cbb_bytes b \<noteq> []" using b(3,5) False len by auto
  then have buf: "b_buf b = Some (cbb_bytes b)" by (auto simp: cbb_bytes_def split: option.splits)
  obtain ws where ws: "cbb_bytes b = (xs @ ys @ zs) @ ws" using b(6) by (metis append_take_drop_id)
  let ?new = "xs @ bs @ zs @ ws"
  have new: "take (length xs) (cbb_bytes b) @ bs @ drop (length xs + length bs) (cbb_bytes b) = ?new"
    using len by (simp add: ws)
  let ?st = "set_buffer (b\<lparr>b_buf := Some ?new\<rparr>) st"
  have "length xs + length bs \<le> length (cbb_bytes b)" using ws len by simp
  then have "buf_put (of_nat (length xs)) bs st = Some ?st"
    using False b(1) new by (simp add: buf_put_def buf u)
  moreover have "holds (xs @ bs @ zs) ?st"
    using b len ws by (simp add: holds_def set_buffer_def cbb_bytes_def)
  moreover have "same_room st ?st" using b(1) by (simp add: same_room_def cbb_fits_def set_buffer_def)
  ultimately show ?thesis by blast
qed

lemma buf_move_holds:
  assumes h: "holds (xs @ ys @ zs) st" and e: "length zs = e"
  shows "\<exists>st' ws. buf_move (of_nat (length xs) + of_nat e) (of_nat (length xs)) (length ys) st = Some st' \<and>
    length ws = e \<and> holds (xs @ ws @ ys) st' \<and> same_room st st'"
proof -
  obtain b where b: "buffer st = Some b" "length (cbb_bytes b) = unat (b_cap b)"
    "length (xs @ ys @ zs) \<le> unat (b_cap b)" "take (length (xs @ ys @ zs)) (cbb_bytes b) = xs @ ys @ zs"
    using h by (rule holdsE)
  have u: "unat (of_nat (length xs) :: u64) = length xs" using holds_unat [OF h, of "length xs"] by simp
  have get: "buf_get (of_nat (length xs)) (length ys) st = Some ys"
  proof (cases "ys = []")
    case False
    then have "cbb_bytes b \<noteq> []" using b(2,3) by auto
    then have buf: "b_buf b = Some (cbb_bytes b)" by (auto simp: cbb_bytes_def split: option.splits)
    obtain ws where ws: "cbb_bytes b = (xs @ ys @ zs) @ ws" using b(4) by (metis append_take_drop_id)
    have "length xs + length ys \<le> length (cbb_bytes b)" "take (length ys) (drop (length xs) (cbb_bytes b)) = ys"
      by (simp_all add: ws)
    then show ?thesis using False b(1) buf u by (simp add: buf_get_def)
  qed (simp add: buf_get_def)
  let ?w = "take e (ys @ zs)"
  have sp: "xs @ ys @ zs = (xs @ ?w) @ drop e (ys @ zs) @ []" by (metis append.assoc append_Nil2 append_take_drop_id)
  have "length (drop e (ys @ zs)) = length ys" using e by simp
  then obtain st' where st': "buf_put (of_nat (length (xs @ ?w))) ys st = Some st'" "holds ((xs @ ?w) @ ys @ []) st'" "same_room st st'"
    using buf_put_holds [OF h [unfolded sp]] by blast
  have w: "length ?w = e" using e by simp
  then have "of_nat (length (xs @ ?w)) = (of_nat (length xs) + of_nat e :: u64)"
    by (simp only: length_append w of_nat_add)
  then have "buf_move (of_nat (length xs) + of_nat e) (of_nat (length xs)) (length ys) st = Some st'"
    using get st'(1) by (simp add: buf_move_def)
  then show ?thesis using st'(2,3) w by (intro exI [of _ st'] exI [of _ ?w]) simp
qed

text \<open>A number in \<open>n\<close> bytes, the high ones first.\<close>

primrec be_n :: "nat \<Rightarrow> nat \<Rightarrow> byte list" where
  "be_n 0 k = []"
| "be_n (Suc n) k = be_n n (k div 256) @ [of_nat k]"

lemma length_be_n [simp]: "length (be_n n k) = n"
  by (induction n arbitrary: k) simp_all

lemma put_loop_holds:
  assumes "holds (xs @ ys @ zs) st" "length ys = n"
  shows "\<exists>st'. put_loop n (of_nat (length xs)) v st = Some (drop_bit (8 * n) v, st') \<and>
    holds (xs @ be_n n (unat v) @ zs) st' \<and> same_room st st'"
  using assms
proof (induction n arbitrary: ys zs v st)
  case (Suc n)
  obtain as a where ys: "ys = as @ [a]" "length as = n" using Suc.prems(2) by (metis length_Suc_conv_rev)
  have h: "holds ((xs @ as) @ [a] @ zs) st" using Suc.prems(1) ys(1) by simp
  obtain st1 where st1: "buf_put (of_nat (length (xs @ as))) [ucast v] st = Some st1"
    "holds ((xs @ as) @ [ucast v] @ zs) st1" "same_room st st1"
    using buf_put_holds [OF h, of "[ucast v]"] by auto
  have "holds (xs @ as @ ([ucast v] @ zs)) st1" using st1(2) by simp
  from Suc.IH [OF this ys(2)] obtain st2 where st2:
    "put_loop n (of_nat (length xs)) (drop_bit 8 v) st1 = Some (drop_bit (8 * n) (drop_bit 8 v), st2)"
    "holds (xs @ be_n n (unat (drop_bit 8 v)) @ [ucast v] @ zs) st2" "same_room st1 st2" by blast
  have "(ucast v :: byte) = of_nat (unat v)"
    by (simp add: word_unat_eq_iff unsigned_ucast_eq unat_of_nat take_bit_eq_mod)
  moreover have "unat (drop_bit 8 v) = unat v div 256"
    using unsigned_less [of v, where ?'a = nat]
    by (simp only: unsigned_drop_bit_eq) (simp add: drop_bit_eq_div take_bit_nat_eq_self)
  moreover have "drop_bit (8 * n) (drop_bit 8 v) = drop_bit (8 * Suc n) v" by (simp add: add.commute)
  ultimately show ?case
    using st1(1,3) st2 ys(2) same_room_trans by (auto simp: add.commute)
qed simp

lemma drop_bit_zero: "drop_bit (8 * n) v = 0 \<longleftrightarrow> unat v < 256 ^ n" for v :: u64
  by (simp add: drop_bit_eq_0 power_mult)

lemma add_u_does:
  assumes h: "holds xs st" and n: "0 < n" "n < 256"
  shows "cbb_does malloc st (cbb_buffer_add_u malloc True v (of_nat n) st) (unat v < 256 ^ n) (length xs + n)
    (\<lambda>_ st'. holds (xs @ be_n n (unat v)) st' \<and> cbbs st' = cbbs st)"
proof -
  have un: "unat (of_nat n :: u64) = n" using n by (simp add: unat_of_nat)
  then have n0: "(of_nat n :: u64) \<noteq> 0" using n by auto
  have "cbb_does malloc st (and_then (cbb_buffer_add malloc True (of_nat n) st) (\<lambda>buf st.
        Option.bind (put_loop n buf v st) (\<lambda>(v, st). if v \<noteq> 0 then cbb_err st else Some (Some (), st))))
        (unat v < 256 ^ n) (length xs + n)
        (\<lambda>_ st'. holds (xs @ be_n n (unat v)) st' \<and> cbbs st' = cbbs st)"
  proof (rule does_then)
    show "cbb_does malloc st (cbb_buffer_add malloc True (of_nat n) st) (unat v < 256 ^ n) (length xs + n)
      (\<lambda>out st'. out = of_nat (length xs) \<and> (\<exists>ys. length ys = n \<and> holds (xs @ ys) st') \<and> cbbs st' = cbbs st)"
      using add_does [OF h, of malloc "of_nat n"] unfolding un by (rule does_weaken) simp_all
  next
    fix out :: u64 and st1
    assume "out = of_nat (length xs) \<and> (\<exists>ys. length ys = n \<and> holds (xs @ ys) st1) \<and> cbbs st1 = cbbs st"
    then obtain ys where ys: "out = of_nat (length xs)" "length ys = n" "holds (xs @ ys @ []) st1" "cbbs st1 = cbbs st" by auto
    obtain st2 where st2: "put_loop n (of_nat (length xs)) v st1 = Some (drop_bit (8 * n) v, st2)"
      "holds (xs @ be_n n (unat v)) st2" "same_room st1 st2"
      using put_loop_holds [OF ys(3,2), of v] by auto
    have room: "cbb_fits malloc st2 k = cbb_fits malloc st1 k" "cbbs st2 = cbbs st" for k
      using st2(3) ys(4) by (simp_all add: same_room_def)
    show "cbb_does malloc st1 (Option.bind (put_loop n out v st1) (\<lambda>(v, st). if v \<noteq> 0 then cbb_err st else Some (Some (), st)))
      (unat v < 256 ^ n) (length xs + n) (\<lambda>_ st'. holds (xs @ be_n n (unat v)) st' \<and> cbbs st' = cbbs st)"
    proof (cases "unat v < 256 ^ n")
      case True
      then show ?thesis using st2(1,2) ys(1) room by (auto simp: drop_bit_zero intro!: does_return)
    next
      case False
      then have d: "cbb_does malloc st2 (cbb_err st2) (unat v < 256 ^ n) (length xs + n)
        (\<lambda>_ st'. holds (xs @ be_n n (unat v)) st' \<and> cbbs st' = cbbs st)"
        by (intro cbb_err_does [OF st2(2)]) simp
      have "cbb_does malloc st1 (cbb_err st2) (unat v < 256 ^ n) (length xs + n)
        (\<lambda>_ st'. holds (xs @ be_n n (unat v)) st' \<and> cbbs st' = cbbs st)"
        by (rule does_step [OF _ d]) (simp add: room)
      then show ?thesis using st2(1) ys(1) False by (simp add: drop_bit_zero)
    qed
  qed
  then show ?thesis using n0 un by (simp add: cbb_buffer_add_u_def)
qed

end
