(* ===== verification/Bs_Der_Facts.thy ===== *)
theory Bs_Der_Facts
  imports Bs_Der
begin

text \<open>
  The parsers of ASN.1 elements and of the values in them: they accept exactly the DER encodings, and
  they look at nothing but their input.
\<close>

lemma unat_of_nat_byte: "n < 256 \<Longrightarrow> unat (of_nat n :: byte) = n"
  by (simp add: unat_of_nat)

lemma der_len_Cons: "der_len n = hd (der_len n) # tl (der_len n)"
  by (simp add: der_len_def)

lemma element_length_complete:
  assumes "n < 2 ^ 32"
  shows "element_length (hd (der_len n)) (tl (der_len n) @ r) = Some (length (der_len n), n)"
proof (cases "n < 128")
  case True
  then show ?thesis by (simp add: der_len_def element_length_def unat_of_nat_byte)
next
  case False
  let ?bs = "be_bytes n"
  have ne: "?bs \<noteq> []" using False by (intro be_bytes_pos) simp
  have "length ?bs \<le> 4" using assms by (intro length_be_bytes) simp
  moreover have "0 < length ?bs" using ne by simp
  moreover have "unat (of_nat (length ?bs) OR 0x80 :: byte) = length ?bs + 128"
    using \<open>length ?bs \<le> 4\<close> by (intro digit_byte) simp
  moreover have "256 ^ (length ?bs - 1) \<le> n"
    using be_val_hd [OF ne] hd_be_bytes [of n] False by simp
  ultimately show ?thesis using False by (simp add: der_len_def element_length_def Let_def not_less)
qed

lemma element_length_sound:
  assumes "element_length lb r = Some (k, n)"
  shows "n < 2 ^ 32 \<and> k = length (der_len n) \<and> lb = hd (der_len n) \<and> (\<exists>r'. r = tl (der_len n) @ r')"
proof (cases "unat lb < 128")
  case True
  then have "k = 1" "n = unat lb" using assms by (simp_all add: element_length_def)
  moreover have "der_len (unat lb) = [lb]" using True by (simp add: der_len_def)
  ultimately show ?thesis using True by simp
next
  case False
  define j where "j = unat lb - 128"
  define bs where "bs = take j r"
  have j: "0 < j" "j \<le> 4" "j \<le> length r" and lb: "unat lb = j + 128"
    and n: "n = be_val bs" "128 \<le> n" "256 ^ (j - 1) \<le> n" and k: "k = j + 1"
    using assms False unfolding element_length_def j_def bs_def
    by (auto simp: Let_def split: if_splits)
  have len: "length bs = j" using j by (simp add: bs_def)
  then have ne: "bs \<noteq> []" using j by auto
  have "hd bs \<noteq> 0" using be_val_hd [OF ne] n len by simp
  then have bs: "be_bytes n = bs" using be_bytes_be_val [of bs] n(1) by simp
  have "n < 256 ^ j" using be_val_less [of bs] len n(1) by simp
  also have "(256 :: nat) ^ j \<le> 256 ^ 4" using j by (intro power_increasing) simp_all
  finally have "n < 2 ^ 32" by simp
  moreover have "of_nat (length bs) OR 0x80 = lb"
  proof -
    have "unat (of_nat j OR 0x80 :: byte) = unat lb" using digit_byte(1) [of j] j(2) lb by simp
    then show ?thesis using len by (simp only: word_unat_eq_iff)
  qed
  then have "der_len n = lb # bs" using n(2) bs by (simp add: der_len_def)
  moreover have "r = bs @ drop j r" by (simp add: bs_def)
  ultimately show ?thesis using k len by auto
qed

text \<open>
  The element parser accepts exactly the DER encodings with a length below \<open>2 ^ 32\<close>, and hands out
  the slice of the input that holds the element.
\<close>

definition is_element :: "memory \<Rightarrow> cbs \<Rightarrow> u32 \<Rightarrow> nat \<Rightarrow> bool" where
  "is_element m cbs tag n \<longleftrightarrow>
     n < 2 ^ 32 \<and> length (der_header tag n) + n \<le> unat (cbs_len cbs) \<and>
     take (length (der_header tag n)) (view m cbs) = der_header tag n"

lemma is_element_append:
  "is_element m cbs tag n \<longleftrightarrow>
     n < 2 ^ 32 \<and> (\<exists>c r. length c = n \<and> view m cbs = der_header tag n @ c @ r)"
  (is "_ \<longleftrightarrow> ?r")
proof
  let ?h = "length (der_header tag n)" and ?v = "view m cbs"
  assume e: "is_element m cbs tag n"
  have "?v = take ?h ?v @ take n (drop ?h ?v) @ drop n (drop ?h ?v)" by (simp only: append_take_drop_id)
  moreover have "n \<le> unat (cbs_len cbs) - ?h" using e unfolding is_element_def by linarith
  then have "length (take n (drop ?h ?v)) = n" by simp
  ultimately show ?r using e unfolding is_element_def by metis
next
  assume ?r
  then obtain c r where cr: "n < 2 ^ 32" "length c = n" "view m cbs = der_header tag n @ c @ r" by blast
  from cr(3) have "unat (cbs_len cbs) = length (der_header tag n @ c @ r)" by (metis length_view)
  then show "is_element m cbs tag n" using cr by (simp add: is_element_def)
qed

lemma length_der_header: "n < 2 ^ 32 \<Longrightarrow> length (der_header tag n) \<le> 11"
  using length_der_tag [of tag] length_be_bytes [of n 4] by (simp add: der_header_def der_len_def)

lemma element_complete:
  assumes "is_element m cbs tag n"
  shows "CBS_get_any_asn1_element m cbs =
    (Some (the_element cbs tag (length (der_header tag n)) (length (der_header tag n) + n)),
     adv (length (der_header tag n) + n) cbs)"
proof -
  obtain c r where cr: "n < 2 ^ 32" "length c = n" "view m cbs = der_header tag n @ c @ r"
    using assms unfolding is_element_append by blast
  have "view m cbs = der_tag tag @ hd (der_len n) # tl (der_len n) @ c @ r"
    using cr(3) der_len_Cons [of n] unfolding der_header_def by (metis append_Cons append_assoc)
  note v = element_length_view [OF this]
  have "length (der_header tag n) + n \<le> unat (cbs_len cbs)" using assms by (simp add: is_element_def)
  moreover have "length (der_header tag n) + n < 2 ^ 64" using length_der_header [OF cr(1), of tag] cr(1) by simp
  moreover have "length (der_header tag n) = length (der_tag tag) + length (der_len n)" by (simp add: der_header_def)
  ultimately show ?thesis
    unfolding CBS_get_any_asn1_element_def v element_length_complete [OF cr(1)] option.case prod.case
    using get_element_view [of "length (der_header tag n) + n" cbs tag "length (der_header tag n)"] by (simp add: add.commute)
qed

lemma element_sound:
  assumes "CBS_get_any_asn1_element m cbs = (Some el, cbs')"
  shows "\<exists>tag n. is_element m cbs tag n \<and>
    el = the_element cbs tag (length (der_header tag n)) (length (der_header tag n) + n) \<and>
    cbs' = adv (length (der_header tag n) + n) cbs"
proof -
  note el = assms [unfolded CBS_get_any_asn1_element_def]
  obtain tag c1 where tag: "parse_asn1_tag m cbs = (Some tag, c1)"
    using el by (auto simp: cbs_get_any_asn1_element_def split: prod.splits option.splits)
  obtain lb c2 where lb: "CBS_get_u8 m c1 = (Some lb, c2)"
    using el by (auto simp: cbs_get_any_asn1_element_def tag split: prod.splits option.splits)
  obtain r where "view m c1 = lb # r" using lb by (auto simp: CBS_get_u8_view split: list.splits)
  then have v: "view m cbs = der_tag tag @ lb # r" using parse_asn1_tag_sound [OF tag] by simp
  obtain k n where kn: "element_length lb r = Some (k, n)"
    using el by (cases "element_length lb r") (auto simp: element_length_view [OF v])
  obtain r' where n: "n < 2 ^ 32" "k = length (der_len n)" "lb = hd (der_len n)" "r = tl (der_len n) @ r'"
    using element_length_sound [OF kn] by blast
  let ?h = "length (der_header tag n)"
  have h: "?h = length (der_tag tag) + k" by (simp add: der_header_def n(2))
  have vh: "view m cbs = der_header tag n @ r'"
    using v n(3,4) der_len_Cons [of n] unfolding der_header_def by (metis append_Cons append_assoc)
  have "?h + n < 2 ^ 64" using length_der_header [OF n(1), of tag] n(1) by simp
  then have "CBS_get_any_asn1_element m cbs =
    (if ?h + n \<le> unat (cbs_len cbs) then (Some (the_element cbs tag ?h (?h + n)), adv (?h + n) cbs) else (None, cbs))"
    using element_length_view [OF v] kn get_element_view [of "?h + n" cbs tag ?h] h
    by (simp add: CBS_get_any_asn1_element_def add.commute)
  then have "?h + n \<le> unat (cbs_len cbs)" "el = the_element cbs tag ?h (?h + n)" "cbs' = adv (?h + n) cbs"
    using assms by (simp_all split: if_splits)
  moreover have "take ?h (view m cbs) = der_header tag n" by (simp add: vh)
  ultimately show ?thesis using n(1) unfolding is_element_def by blast
qed

text \<open>
  C26: \<open>CBS_get_any_asn1_element\<close> accepts an input exactly if it starts with the DER encoding of an
  element: the tag in its shortest form, the length of the contents, below \<open>2 ^ 32\<close>, in its shortest
  form, and as many bytes as the length says. It then hands out the tag, the length of the header and
  the slice of the input that holds the element, and leaves the input behind it.
\<close>

theorem der_element_iff:
  "CBS_get_any_asn1_element m cbs = (Some el, cbs') \<longleftrightarrow>
    (\<exists>tag n. is_element m cbs tag n \<and>
       el = the_element cbs tag (length (der_header tag n)) (length (der_header tag n) + n) \<and>
       cbs' = adv (length (der_header tag n) + n) cbs)"
  using element_sound [of m cbs el cbs'] element_complete [of m cbs] by auto

section \<open>Slices\<close>

definition within :: "cbs \<Rightarrow> cbs \<Rightarrow> bool" where
  "within c cbs \<longleftrightarrow>
     (\<exists>k. cbs_data c = cbs_data cbs + of_nat k \<and> k + unat (cbs_len c) \<le> unat (cbs_len cbs))"

lemma within_view:
  assumes "within c cbs" "view m cbs = view m' cbs"
  shows "view m c = view m' c"
proof -
  obtain k where k: "cbs_data c = cbs_data cbs + of_nat k" "k + unat (cbs_len c) \<le> unat (cbs_len cbs)"
    using assms(1) unfolding within_def by blast
  have "view n c = take (unat (cbs_len c)) (drop k (view n cbs))" for n
    using k by (simp add: view_def drop_load_bytes take_load_bytes)
  then show ?thesis using assms(2) by simp
qed

lemma within_refl [simp]: "within c c"
  unfolding within_def by (rule exI [of _ 0]) simp

lemma within_trans:
  assumes "within a b" "within b c"
  shows "within a c"
proof -
  obtain j k where j: "cbs_data a = cbs_data b + of_nat j" "j + unat (cbs_len a) \<le> unat (cbs_len b)"
    and k: "cbs_data b = cbs_data c + of_nat k" "k + unat (cbs_len b) \<le> unat (cbs_len c)"
    using assms unfolding within_def by blast
  have "cbs_data a = cbs_data c + of_nat (k + j)" using j(1) k(1) by (simp add: algebra_simps)
  moreover have "k + j + unat (cbs_len a) \<le> unat (cbs_len c)" using j(2) k(2) by linarith
  ultimately show ?thesis unfolding within_def by blast
qed

lemma within_adv:
  assumes "k \<le> unat (cbs_len cbs)"
  shows "within (adv k cbs) cbs"
proof -
  have "cbs_data (adv k cbs) = cbs_data cbs + of_nat k" by (simp add: adv_def)
  moreover have "k + unat (cbs_len (adv k cbs)) \<le> unat (cbs_len cbs)" using adv_len [OF assms] assms by simp
  ultimately show ?thesis unfolding within_def by blast
qed

lemma within_init:
  assumes "k + n \<le> unat (cbs_len cbs)"
  shows "within (CBS_init (cbs_data cbs + of_nat k) (of_nat n)) cbs"
    "view m (CBS_init (cbs_data cbs + of_nat k) (of_nat n)) = take n (drop k (view m cbs))"
proof -
  have n: "unat (of_nat n :: u64) = n" using assms by (intro unat_of_nat_len [of _ "cbs_len cbs"]) simp
  then show "within (CBS_init (cbs_data cbs + of_nat k) (of_nat n)) cbs"
    using assms unfolding within_def by (intro exI [of _ k]) (simp add: CBS_init_def)
  show "view m (CBS_init (cbs_data cbs + of_nat k) (of_nat n)) = take n (drop k (view m cbs))"
    using assms n by (simp add: view_def CBS_init_def drop_load_bytes take_load_bytes)
qed

section \<open>Elements with a given tag\<close>

definition der :: "u32 \<Rightarrow> byte list \<Rightarrow> byte list" where
  "der tag c = der_header tag (length c) @ c"

text \<open>The contents of the element at the start of the input, and what is behind it.\<close>

definition contents :: "cbs \<Rightarrow> u32 \<Rightarrow> nat \<Rightarrow> cbs" where
  "contents cbs tag n = CBS_init (cbs_data cbs + of_nat (length (der_header tag n))) (of_nat n)"

definition behind :: "cbs \<Rightarrow> u32 \<Rightarrow> nat \<Rightarrow> cbs" where
  "behind cbs tag n = adv (length (der_header tag n) + n) cbs"

lemma skip_header:
  assumes "is_element m cbs tag n"
  shows "CBS_skip (el_out (the_element cbs tag (length (der_header tag n)) (length (der_header tag n) + n)))
    (el_header_len (the_element cbs tag (length (der_header tag n)) (length (der_header tag n) + n))) =
    (Some (), contents cbs tag n)"
proof -
  let ?h = "length (der_header tag n)"
  have n: "?h + n \<le> unat (cbs_len cbs)" "n < 2 ^ 32" using assms by (simp_all add: is_element_def)
  have u: "unat (of_nat (?h + n) :: u64) = ?h + n" by (rule unat_of_nat_len [OF n(1)])
  have h: "unat (of_nat ?h :: u64) = ?h" using n(1) by (intro unat_of_nat_len [of _ "cbs_len cbs"]) simp
  have "unat (of_nat ?h :: u64) \<le> unat (of_nat (?h + n) :: u64)" unfolding u h by simp
  then have "\<not> of_nat (?h + n) < (of_nat ?h :: u64)" by (simp only: word_less_nat_alt not_less)
  then show ?thesis
    by (simp add: CBS_skip_def cbs_get_def the_element_def contents_def CBS_init_def)
qed

lemma CBS_get_any_asn1_iff:
  "CBS_get_any_asn1 m cbs = (Some (out, tag), cbs') \<longleftrightarrow>
    (\<exists>n. is_element m cbs tag n \<and> out = contents cbs tag n \<and> cbs' = behind cbs tag n)"
  (is "?l \<longleftrightarrow> ?r")
proof
  assume ?l
  then obtain el where el: "CBS_get_any_asn1_element m cbs = (Some el, cbs')"
    "CBS_skip (el_out el) (el_header_len el) = (Some (), out)" "tag = el_tag el"
    by (auto simp: CBS_get_any_asn1_def get_then_def split: prod.splits option.splits)
  then show ?r using element_sound [OF el(1)] skip_header by (auto simp: behind_def) (auto simp: the_element_def)
next
  assume ?r
  then show ?l using element_complete skip_header
    by (auto simp: CBS_get_any_asn1_def behind_def) (simp add: the_element_def)
qed

lemma CBS_get_asn1_iff:
  "CBS_get_asn1 m cbs tag = (Some out, cbs') \<longleftrightarrow>
    (\<exists>n. is_element m cbs tag n \<and> out = contents cbs tag n \<and> cbs' = behind cbs tag n)"
  (is "?l \<longleftrightarrow> ?r")
proof
  assume ?l
  then obtain el where el: "CBS_get_any_asn1_element m cbs = (Some el, cbs')"
    "CBS_skip (el_out el) (el_header_len el) = (Some (), out)" "tag = el_tag el"
    by (auto simp: CBS_get_asn1_def cbs_get_asn1_def get_then_def split: prod.splits option.splits if_splits)
  then show ?r using element_sound [OF el(1)] skip_header by (auto simp: behind_def) (auto simp: the_element_def)
next
  assume ?r
  then show ?l using element_complete skip_header
    by (auto simp: CBS_get_asn1_def cbs_get_asn1_def behind_def) (simp_all add: the_element_def)
qed

lemma contents_within:
  assumes "is_element m cbs tag n"
  shows "within (contents cbs tag n) cbs" "within (behind cbs tag n) cbs"
    "view m (contents cbs tag n) = take n (drop (length (der_header tag n)) (view m cbs))"
    "view m (behind cbs tag n) = drop (length (der_header tag n) + n) (view m cbs)"
    "length (view m (contents cbs tag n)) = n"
proof -
  have le: "length (der_header tag n) + n \<le> unat (cbs_len cbs)" using assms by (simp add: is_element_def)
  show "within (contents cbs tag n) cbs"
    "view m (contents cbs tag n) = take n (drop (length (der_header tag n)) (view m cbs))"
    using within_init [OF le] by (simp_all add: contents_def)
  then show "length (view m (contents cbs tag n)) = n" using le by simp
  show "within (behind cbs tag n) cbs" unfolding behind_def by (rule within_adv [OF le])
  show "view m (behind cbs tag n) = drop (length (der_header tag n) + n) (view m cbs)"
    unfolding behind_def by (rule view_adv [OF le])
qed

lemma view_element:
  assumes "is_element m cbs tag n"
  shows "view m cbs = der tag (view m (contents cbs tag n)) @ view m (behind cbs tag n)"
proof -
  let ?h = "length (der_header tag n)" and ?v = "view m cbs"
  have "?v = take ?h ?v @ take n (drop ?h ?v) @ drop n (drop ?h ?v)" by (simp only: append_take_drop_id)
  also have "take ?h ?v = der_header tag n" using assms by (simp add: is_element_def)
  finally have "?v = der_header tag n @ view m (contents cbs tag n) @ view m (behind cbs tag n)"
    unfolding contents_within [OF assms] by (simp only: drop_drop add.commute)
  then show ?thesis unfolding der_def contents_within(5) [OF assms] by simp
qed

lemma element_of_view:
  assumes "view m cbs = der tag c @ r" "length c < 2 ^ 32"
  shows "is_element m cbs tag (length c)" "view m (contents cbs tag (length c)) = c"
    "behind cbs tag (length c) = adv (length (der tag c)) cbs"
proof -
  show e: "is_element m cbs tag (length c)" using assms unfolding is_element_append der_def by auto
  show "view m (contents cbs tag (length c)) = c" unfolding contents_within(3) [OF e] assms(1) by (simp add: der_def)
  show "behind cbs tag (length c) = adv (length (der tag c)) cbs" by (simp add: behind_def der_def)
qed

lemma element_None: "CBS_get_any_asn1_element m cbs = (None, c) \<Longrightarrow> c = cbs"
  by (auto simp: CBS_get_any_asn1_element_def cbs_get_any_asn1_element_def get_element_def CBS_get_bytes_def
      cbs_get_def get_then_def Let_def split: prod.splits option.splits if_splits)

lemma is_element_local: "view m cbs = view m' cbs \<Longrightarrow> is_element m cbs = is_element m' cbs"
  by (intro ext) (simp add: is_element_def)

lemma element_local:
  assumes "view m cbs = view m' cbs"
  shows "CBS_get_any_asn1_element m cbs = CBS_get_any_asn1_element m' cbs"
proof (cases "fst (CBS_get_any_asn1_element m cbs)")
  case None
  then have "\<not> is_element m cbs tag n" for tag n
    using element_complete [of m cbs tag n] by auto
  then have "CBS_get_any_asn1_element m' cbs \<noteq> (Some el, c)" for el c
    using element_sound [of m' cbs el c] is_element_local [OF assms] by auto
  then have "fst (CBS_get_any_asn1_element m' cbs) = None"
    by (metis not_None_eq prod.collapse)
  then show ?thesis using None element_None [of m cbs] element_None [of m' cbs]
    by (metis prod.collapse)
next
  case (Some el)
  then have "CBS_get_any_asn1_element m cbs = (Some el, snd (CBS_get_any_asn1_element m cbs))"
    by (metis prod.collapse)
  from element_sound [OF this] obtain tag n where "is_element m cbs tag n" by blast
  then show ?thesis using element_complete [of m cbs tag n] element_complete [of m' cbs tag n] is_element_local [OF assms]
    by simp
qed

lemma CBS_get_asn1_local:
  assumes "view m cbs = view m' cbs"
  shows "CBS_get_asn1 m cbs tag = CBS_get_asn1 m' cbs tag" "CBS_get_any_asn1 m cbs = CBS_get_any_asn1 m' cbs"
  using element_local [OF assms] by (simp_all add: CBS_get_asn1_def cbs_get_asn1_def CBS_get_any_asn1_def)

lemma CBS_get_u8_cases:
  "CBS_get_u8 m cbs = (None, cbs) \<and> view m cbs = [] \<or>
   (\<exists>b r. CBS_get_u8 m cbs = (Some b, adv 1 cbs) \<and> view m cbs = b # r \<and> view m (adv 1 cbs) = r)"
  using view_append(2) [of m cbs "[hd (view m cbs)]" "tl (view m cbs)"]
  by (cases "view m cbs") (auto simp: CBS_get_u8_view)

lemma valid_integer_view:
  "CBS_is_valid_asn1_integer m cbs =
     (case view m cbs of
        [] \<Rightarrow> None
      | a # r \<Rightarrow>
          (case r of
             [] \<Rightarrow> Some (128 \<le> unat a)
           | b # _ \<Rightarrow> if a = 0 \<and> unat b < 128 \<or> a = 0xFF \<and> 128 \<le> unat b then None else Some (128 \<le> unat a)))"
  using CBS_get_u8_cases [of m cbs] CBS_get_u8_cases [of m "adv 1 cbs"]
  by (auto simp: CBS_is_valid_asn1_integer_def byte_high Let_def not_less)

lemma foldl_be_ge: "n * 256 ^ length bs \<le> foldl (\<lambda>n b. n * 256 + unat b) n (bs :: byte list)"
proof (induction bs arbitrary: n)
  case (Cons b bs)
  have "n * 256 ^ length (b # bs) \<le> (n * 256 + unat b) * 256 ^ length bs" by (simp add: algebra_simps)
  also have "\<dots> \<le> foldl (\<lambda>n b. n * 256 + unat b) (n * 256 + unat b) bs" by (rule Cons.IH)
  finally show ?case by simp
qed simp

lemma uint64_loop_val:
  "uint64_loop m p n v =
     (let k = foldl (\<lambda>n b. n * 256 + unat b) (unat v) (load_bytes m p n)
      in if k < 2 ^ 64 then Some (of_nat k) else None)"
proof (induction n arbitrary: p v)
  case 0
  have "unat v < 2 ^ 64" using unsigned_less [of v, where ?'a = nat] by simp
  then show ?case by simp
next
  case (Suc n)
  let ?f = "\<lambda>n b. n * 256 + unat (b :: byte)"
  show ?case
  proof (cases "unat v < 2 ^ 56")
    case True
    have "unat v * 256 + unat (m p) < 2 ^ 64" using True unat_byte [of "m p"] by simp
    then have "unat (push_bit 8 v OR ucast (m p)) = unat v * 256 + unat (m p)"
      using unat_push_or [of "ucast (m p) :: u64" 8 v] unat_byte [of "m p"] by (simp add: unat_ucast_byte64)
    then show ?thesis using True Suc.IH by (simp add: drop_bit_eq_0)
  next
    case False
    then have "2 ^ 64 \<le> (unat v * 256 + unat (m p)) * 1" by simp
    also have "\<dots> \<le> (unat v * 256 + unat (m p)) * 256 ^ n" by (intro mult_left_mono) simp_all
    also have "\<dots> \<le> foldl ?f (unat v * 256 + unat (m p)) (load_bytes m (p + 1) n)"
      using foldl_be_ge [of "unat v * 256 + unat (m p)" "load_bytes m (p + 1) n"] by simp
    finally show ?thesis using False by (simp add: drop_bit_eq_0 Let_def not_less [symmetric])
  qed
qed

lemma uint64_loop_view:
  "uint64_loop m (CBS_data c) (unat (CBS_len c)) 0 =
     (if be_val (view m c) < 2 ^ 64 then Some (of_nat (be_val (view m c))) else None)"
  by (simp add: uint64_loop_val CBS_data_def CBS_len_def view_def be_val_def Let_def)

section \<open>Integers\<close>

definition minimal_int :: "byte list \<Rightarrow> bool" where
  "minimal_int c =
     (case c of
        [] \<Rightarrow> False
      | a # r \<Rightarrow> (case r of [] \<Rightarrow> True | b # _ \<Rightarrow> \<not> (a = 0 \<and> unat b < 128 \<or> a = 0xFF \<and> 128 \<le> unat b)))"

definition negative_int :: "byte list \<Rightarrow> bool" where
  "negative_int c \<longleftrightarrow> 128 \<le> unat (hd c)"

text \<open>The integer that two's complement contents stand for.\<close>

definition int_value :: "byte list \<Rightarrow> int" where
  "int_value c = int (be_val c) - (if negative_int c then 256 ^ length c else 0)"

lemma valid_integer_minimal:
  "CBS_is_valid_asn1_integer m c = (if minimal_int (view m c) then Some (negative_int (view m c)) else None)"
  by (auto simp: valid_integer_view minimal_int_def negative_int_def split: list.splits)

text \<open>The contents of an \<open>INTEGER\<close> that is not negative.\<close>

definition uint_contents :: "nat \<Rightarrow> byte list" where
  "uint_contents n =
     (if be_bytes n = [] \<or> negative_int (be_bytes n) then 0 # be_bytes n else be_bytes n)"

lemma be_val_uint_contents [simp]: "be_val (uint_contents n) = n"
  by (simp add: uint_contents_def be_val_Cons)

lemma be_bytes_0 [simp]: "be_bytes 0 = []"
  by (simp add: be_bytes.simps [of 0])

lemma be_bytes_Nil_iff [simp]: "be_bytes n = [] \<longleftrightarrow> n = 0"
  using be_bytes_pos [of n] by auto

lemma uint_contents_minimal: "minimal_int (uint_contents n)" "\<not> negative_int (uint_contents n)"
  "uint_contents n \<noteq> []"
proof -
  have h: "hd (be_bytes n) \<noteq> 0" if "n \<noteq> 0" using that by (rule hd_be_bytes)
  have "minimal_int (uint_contents n) \<and> \<not> negative_int (uint_contents n) \<and> uint_contents n \<noteq> []"
  proof (cases "be_bytes n")
    case Nil
    then show ?thesis by (simp add: uint_contents_def minimal_int_def negative_int_def)
  next
    case (Cons a r)
    then have "a \<noteq> 0" using h by (cases "n = 0") simp_all
    then show ?thesis using Cons
      by (cases r) (auto simp: uint_contents_def minimal_int_def negative_int_def)
  qed
  then show "minimal_int (uint_contents n)" "\<not> negative_int (uint_contents n)" "uint_contents n \<noteq> []" by simp_all
qed

lemma minimal_uint_contents:
  assumes "minimal_int c" "\<not> negative_int c"
  shows "c = uint_contents (be_val c)"
proof -
  obtain a r where c: "c = a # r" using assms(1) by (auto simp: minimal_int_def split: list.splits)
  show ?thesis
  proof (cases "a = 0")
    case True
    then have v: "be_val c = be_val r" by (simp add: c be_val_Cons)
    show ?thesis
    proof (cases r)
      case Nil
      then show ?thesis using True c by (simp add: uint_contents_def be_val_Cons)
    next
      case (Cons b s)
      then have b: "128 \<le> unat b" using assms(1) True c by (simp add: minimal_int_def)
      then have "be_bytes (be_val r) = r" using Cons by (intro be_bytes_be_val) auto
      then show ?thesis using v b True Cons unfolding c uint_contents_def by (simp add: negative_int_def del: be_bytes_Nil_iff)
    qed
  next
    case False
    then have "be_bytes (be_val c) = c" using c by (intro be_bytes_be_val) simp
    then show ?thesis using assms(2) c by (simp add: uint_contents_def del: be_bytes_Nil_iff)
  qed
qed

lemma length_uint_contents: "n < 256 ^ k \<Longrightarrow> length (uint_contents n) \<le> k + 1"
  using length_be_bytes [of n k] by (simp add: uint_contents_def)

text \<open>
  C29: \<open>CBS_get_asn1_uint64\<close> and DER agree: it reads the value \<open>v\<close> exactly if the input starts with the
  one encoding of \<open>v\<close>, an \<open>INTEGER\<close> whose contents have no byte to spare, and then it takes just
  that encoding off the input. No other encoding of a number is accepted.
\<close>

theorem asn1_uint64_iff:
  "CBS_get_asn1_uint64 m cbs = (Some v, cbs') \<longleftrightarrow>
    (\<exists>r. view m cbs = der CBS_ASN1_INTEGER (uint_contents (unat v)) @ r \<and>
       cbs' = adv (length (der CBS_ASN1_INTEGER (uint_contents (unat v)))) cbs)"
  (is "?l \<longleftrightarrow> ?r")
proof
  assume ?l
  then obtain c where c: "CBS_get_asn1 m cbs 2 = (Some c, cbs')" "minimal_int (view m c)" "\<not> negative_int (view m c)"
    "be_val (view m c) < 2 ^ 64" "v = of_nat (be_val (view m c))"
    by (auto simp: CBS_get_asn1_uint64_def get_then_def CBS_is_unsigned_asn1_integer_def valid_integer_minimal
        uint64_loop_view split: prod.splits option.splits if_splits)
  obtain n where n: "is_element m cbs 2 n" "c = contents cbs 2 n" "cbs' = behind cbs 2 n"
    using c(1) unfolding CBS_get_asn1_iff by blast
  have "view m c = uint_contents (unat v)"
    using minimal_uint_contents [OF c(2,3)] c(4,5) by (simp add: unat_of_nat)
  then have v: "view m (contents cbs 2 n) = uint_contents (unat v)" using n(2) by simp
  have len: "length (uint_contents (unat v)) = n" using contents_within(5) [OF n(1)] v by simp
  show ?r using view_element [OF n(1)] n(3) len unfolding v by (auto simp: behind_def der_def)
next
  assume ?r
  then obtain r where r: "view m cbs = der 2 (uint_contents (unat v)) @ r"
    "cbs' = adv (length (der 2 (uint_contents (unat v)))) cbs" by auto
  have "length (uint_contents (unat v)) \<le> 8 + 1"
    using unsigned_less [of v, where ?'a = nat] by (intro length_uint_contents) simp
  then have "length (uint_contents (unat v)) < 2 ^ 32" by simp
  note e = element_of_view [OF r(1) this]
  have "CBS_get_asn1 m cbs 2 = (Some (contents cbs 2 (length (uint_contents (unat v)))), cbs')"
    unfolding CBS_get_asn1_iff using e(1,3) r(2) by auto
  moreover have "unat v < 2 ^ 64" using unsigned_less [of v, where ?'a = nat] by simp
  ultimately show ?l
    by (simp add: CBS_get_asn1_uint64_def CBS_is_unsigned_asn1_integer_def valid_integer_minimal uint64_loop_view e(2)
        uint_contents_minimal)
qed

section \<open>Signed integers\<close>

lemma unat_le_word: "length bs \<le> 8 \<Longrightarrow> unat (le_word bs :: u64) = be_val (rev bs)"
proof (induction bs)
  case (Cons b bs)
  have "be_val (rev bs) < 256 ^ length bs" using be_val_less [of "rev bs"] by simp
  moreover have "(256 :: nat) ^ length bs \<le> 256 ^ 7" using Cons.prems by (intro power_increasing) simp_all
  ultimately have "be_val (rev bs) < 2 ^ 56" by simp
  then have "be_val (rev bs) * 256 + unat b < 2 ^ 64" using unat_byte [of b] by simp
  then show ?case
    using Cons unat_push_or [of "ucast b :: u64" 8 "le_word bs"] unat_byte [of b]
    by (simp add: unat_ucast_byte64 or.commute)
qed simp

lemma be_val_append: "be_val (xs @ ys) = be_val xs * 256 ^ length ys + be_val ys"
  by (induction ys rule: rev_induct) (simp_all add: algebra_simps flip: append_assoc)

lemma be_val_ff: "be_val (replicate k 0xFF) + 1 = 256 ^ k"
  by (induction k) (simp_all add: be_val_Cons)

lemma be_val_zeros: "be_val (replicate k 0) = 0"
  by (induction k) (simp_all add: be_val_Cons)

lemma bit_63_unat: "bit v 63 \<longleftrightarrow> \<not> unat v < 2 ^ 63" for v :: u64
proof -
  have "\<not> bit v 63 \<longleftrightarrow> (\<forall>k \<ge> 63. \<not> bit v k)"
  proof
    assume no: "\<not> bit v 63"
    show "\<forall>k \<ge> 63. \<not> bit v k"
    proof (intro allI impI notI)
      fix k :: nat assume "63 \<le> k" "bit v k"
      then have "k = 63" using bit_imp_le_length [of v k] by simp
      then show False using no \<open>bit v k\<close> by simp
    qed
  qed simp
  then show ?thesis by (simp only: unat_less_exp_iff) blast
qed

lemma sint_unat: "sint v = (if unat v < 2 ^ 63 then int (unat v) else int (unat v) - 2 ^ 64)" for v :: u64
proof -
  have "sint v = signed_take_bit 63 (uint v)" by (simp add: sint_uint)
  also have "\<dots> = take_bit 64 (uint v) - 2 ^ 64 * of_bool (bit (uint v) 63)"
    by (simp only: signed_take_bit_eq_take_bit_minus) simp
  also have "take_bit 64 (uint v) = uint v" by (rule take_bit_int_eq_self) (use unsigned_less [of v, where ?'a = int] in simp_all)
  also have "bit (uint v) 63 \<longleftrightarrow> \<not> unat v < 2 ^ 63" using bit_63_unat [of v] by (simp add: bit_uint_iff)
  finally show ?thesis by simp
qed

lemma sign_extended:
  assumes "minimal_int c" "length c \<le> 8"
  shows "sint (le_word (rev c @ replicate (8 - length c) (if negative_int c then 0xFF else 0)) :: u64) = int_value c"
proof -
  let ?s = "if negative_int c then 0xFF else 0 :: byte" and ?k = "8 - length c"
  have u: "unat (le_word (rev c @ replicate ?k ?s) :: u64) = be_val (replicate ?k ?s @ c)"
    using assms(2) by (subst unat_le_word) simp_all
  obtain a r where c: "c = a # r" using assms(1) by (auto simp: minimal_int_def split: list.splits)
  have pw: "256 ^ ?k * 256 ^ length c = (2 ^ 64 :: nat)"
    using assms(2) by (simp add: power_add [symmetric])
  have lo: "128 * 256 ^ length r \<le> be_val c \<longleftrightarrow> negative_int c"
  proof
    assume "128 * 256 ^ length r \<le> be_val c"
    then have "128 * 256 ^ length r < (unat a + 1) * 256 ^ length r"
      using be_val_less [of r] unfolding c be_val_Cons add_mult_distrib by linarith
    then have "128 < unat a + 1" by (simp only: mult_less_cancel2)
    then show "negative_int c" by (simp add: negative_int_def c)
  next
    assume "negative_int c"
    then have "128 * 256 ^ length r \<le> unat a * 256 ^ length r" by (intro mult_right_mono) (simp_all add: negative_int_def c)
    then show "128 * 256 ^ length r \<le> be_val c" unfolding c be_val_Cons by (rule trans_le_add1)
  qed
  show ?thesis
  proof (cases "negative_int c")
    case False
    then have "be_val c < 128 * 256 ^ length r" using lo by simp
    moreover have "(256 :: nat) ^ length r \<le> 256 ^ 7" using assms(2) c by (intro power_increasing) simp_all
    ultimately have "be_val c < 2 ^ 63" by simp
    then show ?thesis using False u by (simp add: sint_unat be_val_append be_val_zeros int_value_def)
  next
    case True
    have "be_val (replicate ?k ?s @ c) + 256 ^ length c = (be_val (replicate ?k 0xFF) + 1) * 256 ^ length c + be_val c"
      using True by (simp add: be_val_append algebra_simps)
    also have "\<dots> = 2 ^ 64 + be_val c" by (simp only: be_val_ff pw)
    finally have eq: "be_val (replicate ?k ?s @ c) + 256 ^ length c = 2 ^ 64 + be_val c" .
    have "128 * 256 ^ length r \<le> be_val c" "be_val c < 256 ^ length c" using True lo be_val_less [of c] by simp_all
    moreover have "(256 :: nat) ^ length r \<le> 256 ^ 7" using assms(2) c by (intro power_increasing) simp_all
    moreover have "(256 :: nat) ^ length c = 256 * 256 ^ length r" by (simp add: c)
    ultimately have "\<not> be_val (replicate ?k ?s @ c) < 2 ^ 63" using eq by simp
    moreover have "int (be_val (replicate ?k ?s @ c)) - 2 ^ 64 = int (be_val c) - 256 ^ length c"
    proof -
      have "int (be_val (replicate ?k ?s @ c)) + 256 ^ length c = 2 ^ 64 + int (be_val c)"
        using arg_cong [OF eq, of int] by simp
      then show ?thesis by simp
    qed
    ultimately show ?thesis using True u by (simp only: sint_unat if_False if_True int_value_def)
  qed
qed

lemma int64_bytes:
  "map (\<lambda>i. if i < unat (CBS_len c) then m (CBS_data c + of_nat (unat (CBS_len c) - i - 1)) else s) [0..<8] =
     rev (view m c) @ replicate (8 - length (view m c)) s" if "length (view m c) \<le> 8"
  using that by (intro nth_equalityI) (auto simp: view_def CBS_data_def CBS_len_def nth_append rev_nth nth_load_bytes)


lemma int64_view:
  "CBS_get_asn1_int64 m cbs =
    get_then (CBS_get_asn1 m cbs 2) (\<lambda>b cbs.
      if minimal_int (view m b) \<and> length (view m b) \<le> 8
      then (Some (le_word (rev (view m b) @ replicate (8 - length (view m b)) (if negative_int (view m b) then 0xFF else 0))), cbs)
      else (None, cbs))"
  unfolding CBS_get_asn1_int64_def valid_integer_minimal CBS_ASN1_INTEGER_def
  by (intro arg_cong2 [of _ _ _ _ get_then] ext refl) (auto simp: int64_bytes [unfolded CBS_len_def] Let_def CBS_len_def)

text \<open>
  C30: \<open>CBS_get_asn1_int64\<close> reads the value \<open>v\<close> exactly if the input starts with an \<open>INTEGER\<close> of one to eight
  bytes, none of them to spare, whose two's complement value is \<open>v\<close>; it then takes that element off the input.
\<close>

theorem asn1_int64_iff:
  "CBS_get_asn1_int64 m cbs = (Some v, cbs') \<longleftrightarrow>
    (\<exists>c r. view m cbs = der CBS_ASN1_INTEGER c @ r \<and> minimal_int c \<and> length c \<le> 8 \<and>
       int_value c = sint v \<and> cbs' = adv (length (der CBS_ASN1_INTEGER c)) cbs)"
  (is "?l \<longleftrightarrow> ?r")
proof
  assume ?l
  then obtain b where b: "CBS_get_asn1 m cbs 2 = (Some b, cbs')" "minimal_int (view m b)" "length (view m b) \<le> 8"
    "v = le_word (rev (view m b) @ replicate (8 - length (view m b)) (if negative_int (view m b) then 0xFF else 0))"
    unfolding int64_view by (auto simp: get_then_def split: prod.splits option.splits if_splits)
  obtain n where n: "is_element m cbs 2 n" "b = contents cbs 2 n" "cbs' = behind cbs 2 n"
    using b(1) unfolding CBS_get_asn1_iff by blast
  have "int_value (view m b) = sint v" using sign_extended [OF b(2,3)] b(4) by simp
  moreover have "length (der 2 (view m b)) = length (der_header 2 n) + n"
    using contents_within(5) [OF n(1)] n(2) by (simp add: der_def)
  ultimately show ?r using view_element [OF n(1)] n(2,3) b(2,3) by (auto simp: behind_def)
next
  assume ?r
  then obtain c r where c: "view m cbs = der 2 c @ r" "minimal_int c" "length c \<le> 8" "int_value c = sint v"
    "cbs' = adv (length (der 2 c)) cbs" by auto
  have "length c < 2 ^ 32" using c(3) by simp
  note e = element_of_view [OF c(1) this]
  have "CBS_get_asn1 m cbs 2 = (Some (contents cbs 2 (length c)), cbs')"
    unfolding CBS_get_asn1_iff using e(1,3) c(5) by auto
  moreover have "le_word (rev c @ replicate (8 - length c) (if negative_int c then 0xFF else 0)) = v"
    using sign_extended [OF c(2,3)] c(4) by (simp only: signed_word_eqI)
  ultimately show ?l using c(2,3) unfolding int64_view by (simp add: e(2) del: length_view rev_replicate)
qed

section \<open>Confinement\<close>

lemma der_tag_ne: "der_tag tag \<noteq> []"
  by (simp add: der_tag_def)

lemma peek_iff: "CBS_peek_asn1_tag m cbs tag \<longleftrightarrow> (\<exists>r. view m cbs = der_tag tag @ r)"
proof
  assume "CBS_peek_asn1_tag m cbs tag"
  then obtain c where "parse_asn1_tag m cbs = (Some tag, c)"
    by (metis CBS_peek_asn1_tag_def prod.collapse)
  from parse_asn1_tag_sound [OF this] show "\<exists>r. view m cbs = der_tag tag @ r" by blast
next
  assume "\<exists>r. view m cbs = der_tag tag @ r"
  then obtain r where r: "view m cbs = der_tag tag @ r" by blast
  then have "0 < length (view m cbs)" using der_tag_ne [of tag] by (simp del: length_view)
  then have "\<not> cbs_len cbs < 1" by (simp add: word_less_nat_alt)
  then show "CBS_peek_asn1_tag m cbs tag"
    using parse_asn1_tag_complete [OF r] by (simp add: CBS_peek_asn1_tag_def CBS_len_def)
qed

lemma CBS_get_asn1_within:
  assumes "CBS_get_asn1 m cbs tag = (Some out, cbs')"
  shows "within out cbs" "within cbs' cbs"
  using assms contents_within unfolding CBS_get_asn1_iff by auto

text \<open>A parser that reads an element first and then only its contents.\<close>

lemma element_then_local:
  assumes eq: "view m cbs = view m' cbs"
    and k: "\<And>b c. view m b = view m' b \<Longrightarrow> k b c = k' b c"
  shows "get_then (CBS_get_asn1 m cbs tag) k = get_then (CBS_get_asn1 m' cbs tag) k'"
proof (cases "CBS_get_asn1 m cbs tag")
  case (Pair r c)
  then show ?thesis
  proof (cases r)
    case (Some b)
    then have "within b cbs" using Pair CBS_get_asn1_within(1) by simp
    then show ?thesis using k [OF within_view [OF _ eq]] Pair Some CBS_get_asn1_local(1) [OF eq] by simp
  qed (use Pair CBS_get_asn1_local(1) [OF eq] in simp)
qed

lemma byte_local:
  assumes "view m b = view m' b" "CBS_len b = 1"
  shows "m (CBS_data b) = m' (CBS_data b)"
  using assms by (simp add: view_def CBS_len_def CBS_data_def)

text \<open>\<open>if (CBS_len(&child2) != 1) return 0\<close> and the byte.\<close>

lemma bool_local: "view m cbs = view m' cbs \<Longrightarrow> CBS_get_asn1_bool m cbs = CBS_get_asn1_bool m' cbs"
  unfolding CBS_get_asn1_bool_def by (rule element_then_local) (auto dest: byte_local)

lemma uint64_local: "view m cbs = view m' cbs \<Longrightarrow> CBS_get_asn1_uint64 m cbs = CBS_get_asn1_uint64 m' cbs"
  unfolding CBS_get_asn1_uint64_def CBS_is_unsigned_asn1_integer_def valid_integer_minimal uint64_loop_view
  by (rule element_then_local) simp_all

lemma int64_local: "view m cbs = view m' cbs \<Longrightarrow> CBS_get_asn1_int64 m cbs = CBS_get_asn1_int64 m' cbs"
  unfolding int64_view by (rule element_then_local) simp_all

lemma get_then_map:
  "get_then (get_then r (\<lambda>out cbs. (Some (f out), cbs))) l = get_then r (\<lambda>b. l (f b))"
  by (auto simp: get_then_def split: prod.splits option.splits)

lemma optional_local:
  assumes eq: "view m cbs = view m' cbs"
    and none: "\<And>c. k None c = k' None c"
    and k: "\<And>b c. view m b = view m' b \<Longrightarrow> k (Some b) c = k' (Some b) c"
  shows "get_then (CBS_get_optional_asn1 m cbs tag) k = get_then (CBS_get_optional_asn1 m' cbs tag) k'"
proof (cases "CBS_peek_asn1_tag m cbs tag")
  case True
  then have "CBS_peek_asn1_tag m' cbs tag" using eq by (simp add: peek_iff)
  moreover have "get_then (CBS_get_asn1 m cbs tag) (\<lambda>b. k (Some b)) =
    get_then (CBS_get_asn1 m' cbs tag) (\<lambda>b. k' (Some b))"
    using eq by (rule element_then_local) (rule k)
  ultimately show ?thesis using True by (simp add: CBS_get_optional_asn1_def get_then_map)
next
  case False
  then have "\<not> CBS_peek_asn1_tag m' cbs tag" using eq by (simp add: peek_iff)
  then show ?thesis using False none by (simp add: CBS_get_optional_asn1_def)
qed

lemma octet_string_local:
  "view m cbs = view m' cbs \<Longrightarrow>
     CBS_get_optional_asn1_octet_string m cbs tag = CBS_get_optional_asn1_octet_string m' cbs tag"
  unfolding CBS_get_optional_asn1_octet_string_def
  by (rule optional_local) (simp_all add: CBS_get_asn1_local(1) [of m _ m'])

lemma optional_uint64_local:
  "view m cbs = view m' cbs \<Longrightarrow>
     CBS_get_optional_asn1_uint64 m cbs tag v = CBS_get_optional_asn1_uint64 m' cbs tag v"
  unfolding CBS_get_optional_asn1_uint64_def
  by (rule optional_local) (simp_all add: uint64_local [of m _ m'])

lemma optional_bool_local:
  "view m cbs = view m' cbs \<Longrightarrow>
     CBS_get_optional_asn1_bool m cbs tag v = CBS_get_optional_asn1_bool m' cbs tag v"
  unfolding CBS_get_optional_asn1_bool_def
proof (rule optional_local)
  fix b c
  assume that: "view m b = view m' b"
  let ?f = "\<lambda>m child. case CBS_get_asn1 m child CBS_ASN1_BOOLEAN of
              (None, child) \<Rightarrow> (None, c)
            | (Some child2, child) \<Rightarrow>
                if CBS_len child2 \<noteq> 1 \<or> CBS_len child \<noteq> 0 then (None, c)
                else
                  let boolean = m (CBS_data child2) in
                  if boolean = 0 then (Some False, c)
                  else if boolean = 0xFF then (Some True, c)
                  else (None, c)"
  have "?f m b = ?f m' b"
  proof (cases "CBS_get_asn1 m b CBS_ASN1_BOOLEAN")
    case (Pair r d)
    show ?thesis
    proof (cases r)
      case None
      then show ?thesis using Pair CBS_get_asn1_local(1) [OF that] by simp
    next
      case (Some e)
      then have "within e b" using Pair CBS_get_asn1_within(1) by simp
      then have "view m e = view m' e" using that by (rule within_view)
      then have byte: "CBS_len e = 1 \<Longrightarrow> m (CBS_data e) = m' (CBS_data e)" by (rule byte_local)
      have "CBS_get_asn1 m' b CBS_ASN1_BOOLEAN = (Some e, d)"
        using Pair Some CBS_get_asn1_local(1) [OF that, of CBS_ASN1_BOOLEAN] by simp
      then show ?thesis unfolding Pair Some using byte by (cases "CBS_len e = 1") simp_all
    qed
  qed
  then show "(case Some b of None \<Rightarrow> (Some v, c) | Some child \<Rightarrow> ?f m child) =
      (case Some b of None \<Rightarrow> (Some v, c) | Some child \<Rightarrow> ?f m' child)" by simp
qed simp_all

text \<open>What a parser hands out and what it leaves of its input, in success and in failure.\<close>

lemma element_within:
  assumes "CBS_get_any_asn1_element m cbs = (Some el, cbs')"
  shows "within (el_out el) cbs \<and> within cbs' cbs \<and> el_header_len el \<le> cbs_len (el_out el)"
proof -
  obtain tag n where e: "is_element m cbs tag n" "cbs' = adv (length (der_header tag n) + n) cbs"
    "el = the_element cbs tag (length (der_header tag n)) (length (der_header tag n) + n)"
    using element_sound [OF assms] by blast
  let ?h = "length (der_header tag n)"
  have n: "?h + n \<le> unat (cbs_len cbs)" using e(1) by (simp add: is_element_def)
  have "unat (of_nat ?h :: u64) = ?h" "unat (of_nat (?h + n) :: u64) = ?h + n"
    using n by (intro unat_of_nat_len [of _ "cbs_len cbs"], simp)+
  then have "(of_nat ?h :: u64) \<le> of_nat (?h + n)" unfolding word_le_nat_alt by linarith
  moreover have "within (CBS_init (cbs_data cbs) (of_nat (?h + n))) cbs"
    using within_init(1) [of 0 "?h + n" cbs] n by simp
  ultimately show ?thesis using within_adv [OF n] e(2,3) by (simp add: the_element_def CBS_init_def)
qed

lemma get_element_fails: "get_element cbs len tag h ber = (None, c) \<Longrightarrow> c = cbs"
  by (auto simp: get_element_def CBS_get_bytes_def cbs_get_def get_then_def split: if_splits)

lemma element_fails: "CBS_get_any_asn1_element m cbs = (None, c) \<Longrightarrow> c = cbs"
  by (auto simp: CBS_get_any_asn1_element_def cbs_get_any_asn1_element_def Let_def
      split: prod.splits option.splits if_splits dest: get_element_fails)

lemma element_left: "within (snd (CBS_get_any_asn1_element m cbs)) cbs"
  using element_within [of m cbs] element_fails [of m cbs]
  by (cases "CBS_get_any_asn1_element m cbs"; cases "fst (CBS_get_any_asn1_element m cbs)") auto

lemma get_then_left:
  assumes "within (snd r) cbs" "\<And>x c. snd (k x c) = c"
  shows "within (snd (get_then r k)) cbs"
  using assms by (auto simp: get_then_def split: prod.splits option.splits)

lemma asn1_left: "within (snd (cbs_get_asn1 m cbs tag skip)) cbs"
  unfolding cbs_get_asn1_def by (rule get_then_left [OF element_left]) (auto split: prod.splits option.splits)

lemma optional_left: "within (snd (CBS_get_optional_asn1 m cbs tag)) cbs"
  using get_then_left [OF asn1_left, of "\<lambda>out cbs. (Some (Some out), cbs)"]
  by (simp add: CBS_get_optional_asn1_def CBS_get_asn1_def)

lemmas parsers_left =
  get_then_left [OF asn1_left [of _ _ _ True, folded CBS_get_asn1_def]] get_then_left [OF optional_left]

lemma any_asn1_within:
  assumes "CBS_get_any_asn1 m cbs = (Some (out, tag), cbs')"
  shows "within out cbs"
  using assms contents_within unfolding CBS_get_any_asn1_iff by auto

lemma asn1_element_within:
  assumes "CBS_get_asn1_element m cbs tag = (Some out, cbs')"
  shows "within out cbs"
  using assms element_within [of m cbs]
  by (auto simp: CBS_get_asn1_element_def cbs_get_asn1_def get_then_def split: prod.splits option.splits if_splits)

lemma optional_within:
  assumes "CBS_get_optional_asn1 m cbs tag = (Some (Some out), cbs')"
  shows "within out cbs"
  using assms CBS_get_asn1_within(1) [of m cbs]
  by (auto simp: CBS_get_optional_asn1_def get_then_def split: prod.splits option.splits if_splits)

lemma octet_string_within:
  assumes "CBS_get_optional_asn1_octet_string m cbs tag = (Some (present, out), cbs')"
  shows "if present then within out cbs else out = CBS_init NULL 0"
proof -
  obtain child where child: "CBS_get_optional_asn1 m cbs tag = (Some child, cbs')"
    using assms by (fastforce simp: CBS_get_optional_asn1_octet_string_def get_then_def
        split: prod.splits option.splits if_splits)
  show ?thesis
  proof (cases child)
    case None
    then show ?thesis using assms child by (simp add: CBS_get_optional_asn1_octet_string_def)
  next
    case (Some c)
    then obtain d where "CBS_get_asn1 m c CBS_ASN1_OCTETSTRING = (Some out, d)" "present"
      using assms child by (auto simp: CBS_get_optional_asn1_octet_string_def split: prod.splits option.splits if_splits)
    then show ?thesis
      using within_trans [OF CBS_get_asn1_within(1)] optional_within child Some by simp
  qed
qed

lemma asn1_element_local:
  assumes "view m cbs = view m' cbs"
  shows "CBS_get_asn1_element m cbs tag = CBS_get_asn1_element m' cbs tag"
  using element_local [OF assms] by (simp add: CBS_get_asn1_element_def cbs_get_asn1_def)

text \<open>
  C27: the DER parsers are memory safe.  None looks at a byte outside its input: two memories which agree on the
  input give the same result, success or failure.  What each leaves of the input lies within the input, in success
  and in failure.  Each of the parsers that hand out a slice hands out one that lies within the input: the element
  with its header, which is no longer than it, the contents, and the octet string inside an optional
  element, which is the empty slice at \<open>NULL\<close> where the element is absent.
\<close>

theorem der_parsers_confined:
  assumes "view m cbs = view m' cbs"
  shows "CBS_get_any_asn1_element m cbs = CBS_get_any_asn1_element m' cbs \<and>
    CBS_get_any_asn1 m cbs = CBS_get_any_asn1 m' cbs \<and>
    CBS_get_asn1 m cbs tag = CBS_get_asn1 m' cbs tag \<and>
    CBS_get_asn1_element m cbs tag = CBS_get_asn1_element m' cbs tag \<and>
    CBS_get_asn1_bool m cbs = CBS_get_asn1_bool m' cbs \<and>
    CBS_get_asn1_uint64 m cbs = CBS_get_asn1_uint64 m' cbs \<and>
    CBS_get_asn1_int64 m cbs = CBS_get_asn1_int64 m' cbs \<and>
    CBS_get_optional_asn1_octet_string m cbs tag = CBS_get_optional_asn1_octet_string m' cbs tag \<and>
    CBS_get_optional_asn1_uint64 m cbs tag v = CBS_get_optional_asn1_uint64 m' cbs tag v \<and>
    CBS_get_optional_asn1_bool m cbs tag b = CBS_get_optional_asn1_bool m' cbs tag b \<and>
    (\<forall>rest \<in> {snd (CBS_get_any_asn1_element m cbs), snd (CBS_get_any_asn1 m cbs), snd (CBS_get_asn1 m cbs tag),
        snd (CBS_get_asn1_element m cbs tag), snd (CBS_get_asn1_bool m cbs), snd (CBS_get_asn1_uint64 m cbs),
        snd (CBS_get_asn1_int64 m cbs), snd (CBS_get_optional_asn1_octet_string m cbs tag),
        snd (CBS_get_optional_asn1_uint64 m cbs tag v), snd (CBS_get_optional_asn1_bool m cbs tag b)}. within rest cbs) \<and>
    (\<forall>el cbs'. CBS_get_any_asn1_element m cbs = (Some el, cbs') \<longrightarrow>
       within (el_out el) cbs \<and> el_header_len el \<le> cbs_len (el_out el)) \<and>
    (\<forall>out t cbs'. CBS_get_any_asn1 m cbs = (Some (out, t), cbs') \<longrightarrow> within out cbs) \<and>
    (\<forall>out cbs'. CBS_get_asn1 m cbs tag = (Some out, cbs') \<longrightarrow> within out cbs) \<and>
    (\<forall>out cbs'. CBS_get_asn1_element m cbs tag = (Some out, cbs') \<longrightarrow> within out cbs) \<and>
    (\<forall>present out cbs'. CBS_get_optional_asn1_octet_string m cbs tag = (Some (present, out), cbs') \<longrightarrow>
       (if present then within out cbs else out = CBS_init NULL 0))"
proof (intro conjI)
  have "within (snd (CBS_get_any_asn1 m cbs)) cbs"
    unfolding CBS_get_any_asn1_def by (rule get_then_left [OF element_left]) (auto split: prod.splits option.splits)
  moreover have "within (snd (CBS_get_asn1_bool m cbs)) cbs"
    unfolding CBS_get_asn1_bool_def by (rule parsers_left) (simp add: Let_def)
  moreover have "within (snd (CBS_get_asn1_uint64 m cbs)) cbs"
    unfolding CBS_get_asn1_uint64_def by (rule parsers_left) simp
  moreover have "within (snd (CBS_get_asn1_int64 m cbs)) cbs"
    unfolding CBS_get_asn1_int64_def by (rule parsers_left) (simp add: Let_def split: option.split)
  moreover have "within (snd (CBS_get_optional_asn1_octet_string m cbs tag)) cbs"
    unfolding CBS_get_optional_asn1_octet_string_def by (rule parsers_left) (auto split: option.split prod.split)
  moreover have "within (snd (CBS_get_optional_asn1_uint64 m cbs tag v)) cbs"
    unfolding CBS_get_optional_asn1_uint64_def by (rule parsers_left) (auto split: option.split prod.split)
  moreover have "within (snd (CBS_get_optional_asn1_bool m cbs tag b)) cbs"
    unfolding CBS_get_optional_asn1_bool_def by (rule parsers_left) (auto simp: Let_def split: option.split prod.split)
  moreover have "within (snd (CBS_get_asn1 m cbs tag)) cbs" "within (snd (CBS_get_asn1_element m cbs tag)) cbs"
    unfolding CBS_get_asn1_def CBS_get_asn1_element_def by (rule asn1_left)+
  ultimately show "\<forall>rest \<in> {snd (CBS_get_any_asn1_element m cbs), snd (CBS_get_any_asn1 m cbs), snd (CBS_get_asn1 m cbs tag),
        snd (CBS_get_asn1_element m cbs tag), snd (CBS_get_asn1_bool m cbs), snd (CBS_get_asn1_uint64 m cbs),
        snd (CBS_get_asn1_int64 m cbs), snd (CBS_get_optional_asn1_octet_string m cbs tag),
        snd (CBS_get_optional_asn1_uint64 m cbs tag v), snd (CBS_get_optional_asn1_bool m cbs tag b)}. within rest cbs"
    using element_left by blast
qed (rule element_local [OF assms] CBS_get_asn1_local [OF assms] asn1_element_local [OF assms] bool_local [OF assms]
      uint64_local [OF assms] int64_local [OF assms] octet_string_local [OF assms] optional_uint64_local [OF assms]
      optional_bool_local [OF assms] |
      blast dest: element_within any_asn1_within CBS_get_asn1_within(1) asn1_element_within octet_string_within)+

text \<open>An \<open>INTEGER\<close> 5 at address 16, in two memories that differ behind it.\<close>

definition der_memory :: "byte \<Rightarrow> memory" where
  "der_memory x = store_bytes (\<lambda>a. 0) 16 [0x02, 0x01, 0x05, x]"

lemma der_parsers_confined_witness:
  "CBS_get_asn1_uint64 (der_memory 7) (CBS_init 16 3) = CBS_get_asn1_uint64 (der_memory 9) (CBS_init 16 3) \<and>
   view (der_memory 7) (CBS_init 16 3) = view (der_memory 9) (CBS_init 16 3)  \<and>
   der_memory 7 19 \<noteq> der_memory 9 19 \<and>
   CBS_get_asn1 (der_memory 7) (CBS_init 16 3) 2 = (Some (CBS_init 18 1), CBS_init 19 0) \<and>
   within (CBS_init 18 1) (CBS_init 16 3)"
proof -
  have v: "view (der_memory 7) (CBS_init 16 3) = view (der_memory 9) (CBS_init 16 3)"
    by code_simp
  have g: "CBS_get_asn1 (der_memory 7) (CBS_init 16 3) 2 = (Some (CBS_init 18 1), CBS_init 19 0)"
    by code_simp
  show ?thesis
    using der_parsers_confined [OF v, of 2 0 False] v g
    by (simp add: der_memory_def)
qed

end
