(* ===== verification/Bs_Cbb_Flush.thy ===== *)
theory Bs_Cbb_Flush
  imports Bs_Cbb_Buffer Bs_Der_Facts
begin

text \<open>
  \<open>CBB_flush\<close> closes the chain of open children: each length takes the place that was kept for it, and
  the contents of an ASN.1 element move along where the length needs more than one byte.
\<close>

section \<open>Open children\<close>

text \<open>
  A child that is open: its address, the width of its length, or \<open>None\<close> for an ASN.1 element, and the
  bytes added to it.  A list of them is a chain, each the child of the one before it.
\<close>

type_synonym cbb_frame = "cbb_id \<times> nat option \<times> byte list"

fun plen :: "nat option \<Rightarrow> nat" where
  "plen None = 1"
| "plen (Some n) = n"

fun cbb_linked :: "cbb_state \<Rightarrow> cbb_id \<Rightarrow> nat \<Rightarrow> cbb_frame list \<Rightarrow> bool" where
  "cbb_linked st c off [] \<longleftrightarrow> cb_base (cbbs st c) \<and> cb_child (cbbs st c) = None"
| "cbb_linked st c off ((d, k, bs) # fs) \<longleftrightarrow>
     cb_base (cbbs st c) \<and> cb_child (cbbs st c) = Some d \<and>
     cb_offset (cbbs st d) = of_nat off \<and> unat (cb_pending_len_len (cbbs st d)) = plen k \<and> 0 < plen k \<and>
     cb_pending_is_asn1 (cbbs st d) = (k = None) \<and> cbb_linked st d (off + plen k + length bs) fs"

definition ids :: "cbb_frame list \<Rightarrow> cbb_id list" where
  "ids fs = map fst fs"

text \<open>The bytes of the chain while it is open, with zeros for the lengths, and closed.\<close>

fun opened :: "cbb_frame list \<Rightarrow> byte list" where
  "opened [] = []"
| "opened ((d, k, bs) # fs) = replicate (plen k) 0 @ bs @ opened fs"

fun prefix_bytes :: "nat option \<Rightarrow> nat \<Rightarrow> byte list option" where
  "prefix_bytes None n = (if n \<le> 0xFFFFFFFE then Some (der_len n) else None)"
| "prefix_bytes (Some l) n = (if n < 256 ^ l then Some (be_n l n) else None)"

fun cbb_closed :: "cbb_frame list \<Rightarrow> byte list option" where
  "cbb_closed [] = Some []"
| "cbb_closed ((d, k, bs) # fs) =
     (case cbb_closed fs of
        None \<Rightarrow> None
      | Some t \<Rightarrow> map_option (\<lambda>p. p @ bs @ t) (prefix_bytes k (length (bs @ t))))"

lemma linked_cong:
  "(\<And>x. x \<in> set (c # ids fs) \<Longrightarrow> cbbs st' x = cbbs st x) \<Longrightarrow> cbb_linked st' c off fs = cbb_linked st c off fs"
  by (induction st c off fs rule: cbb_linked.induct) (simp_all add: ids_def)

section \<open>The length of an element\<close>

lemma length_be_bytes_eq:
  assumes "0 < j" "256 ^ (j - 1) \<le> n" "n < 256 ^ j"
  shows "length (be_bytes n) = j"
proof -
  have "(256 :: nat) ^ (j - 1) > 0" by simp
  then have "n \<noteq> 0" using assms(2) by linarith
  then have ne: "be_bytes n \<noteq> []" by (rule be_bytes_pos)
  have "(256 :: nat) ^ (j - 1) < 256 ^ length (be_bytes n)" using assms(2) be_val_less [of "be_bytes n"] unfolding be_val_be_bytes
    by (rule order_le_less_trans)
  then have "j - 1 < length (be_bytes n)" by (rule power_less_imp_less_exp [rotated]) simp
  then show ?thesis using length_be_bytes [OF assms(3)] by simp
qed

lemma asn1_length_der:
  assumes "n < 2 ^ 32"
  shows "asn1_length (of_nat n) = (of_nat (length (der_len n)), hd (der_len n), if n < 128 then 0 else of_nat n)"
proof -
  have u: "unat (of_nat n :: u64) = n" using assms by (simp add: unat_of_nat)
  have cmp: "(0xFFFFFF < (of_nat n :: u64)) = (0xFFFFFF < n)" "(0xFFFF < (of_nat n :: u64)) = (0xFFFF < n)"
    "(0xFF < (of_nat n :: u64)) = (0xFF < n)" "(0x7F < (of_nat n :: u64)) = (0x7F < n)"
    using u by (simp_all add: word_less_nat_alt)
  have b: "(ucast (of_nat n :: u64) :: byte) = of_nat n"
    by (simp add: unsigned_of_nat word_unat_eq_iff unat_of_nat take_bit_eq_mod mod_mod_cancel)
  consider "n < 128" | "128 \<le> n" "n < 256" | "256 \<le> n" "n < 65536" | "65536 \<le> n" "n < 16777216" | "16777216 \<le> n"
    by linarith
  then show ?thesis
  proof cases
    case 1 then show ?thesis unfolding asn1_length_def cmp b by (simp add: der_len_def)
  next
    case 2 then have "length (be_bytes n) = 1" by (intro length_be_bytes_eq) simp_all
    then show ?thesis using 2 unfolding asn1_length_def cmp by (simp add: der_len_def)
  next
    case 3 then have "length (be_bytes n) = 2" by (intro length_be_bytes_eq) simp_all
    then show ?thesis using 3 unfolding asn1_length_def cmp by (simp add: der_len_def)
  next
    case 4 then have "length (be_bytes n) = 3" by (intro length_be_bytes_eq) simp_all
    then show ?thesis using 4 unfolding asn1_length_def cmp by (simp add: der_len_def)
  next
    case 5 then have "length (be_bytes n) = 4" using assms by (intro length_be_bytes_eq) simp_all
    then show ?thesis using 5 unfolding asn1_length_def cmp by (simp add: der_len_def)
  qed
qed

lemma be_n_be_bytes: "be_n (length (be_bytes n)) n = be_bytes n"
proof (induction n rule: be_bytes.induct)
  case (1 n)
  have b: "(of_nat (n mod 256) :: byte) = of_nat n" by (simp add: word_unat_eq_iff unat_of_nat)
  show ?case
  proof (cases "n = 0")
    case False
    then have "be_bytes n = be_bytes (n div 256) @ [of_nat (n mod 256)]" by (simp add: be_bytes.simps [of n])
    then show ?thesis using 1 [OF False] b by simp
  qed simp
qed

lemma der_len_tail:
  "tl (der_len n) = be_n (length (der_len n) - 1) (if n < 128 then 0 else n)"
  "n < 2 ^ 32 \<Longrightarrow> (if n < 128 then 0 else n) < 256 ^ (length (der_len n) - 1)"
  "n < 2 ^ 32 \<Longrightarrow> length (der_len n) \<le> 5"
  using be_val_less [of "be_bytes n"] length_be_bytes [of n 4] by (simp_all add: der_len_def be_n_be_bytes)

section \<open>Flushing a child\<close>

lemma cbb_err_failed: "failed st \<Longrightarrow> \<exists>st'. cbb_err st = Some (None, st') \<and> failed st' \<and> cbb_fits malloc st' = cbb_fits malloc st"
  by (auto simp: failed_def cbb_err_def set_buffer_def cbb_fits_def fun_eq_iff)

lemma does_or_err:
  assumes r: "cbb_does malloc st r A n P" and k: "\<And>y st'. P y st' \<Longrightarrow> cbb_does malloc st' (k y st') A n Q"
  shows "cbb_does malloc st (Option.bind r (\<lambda>(x, st). case x of None \<Rightarrow> cbb_err st | Some y \<Rightarrow> k y st)) A n Q"
proof -
  obtain x st' where x: "r = Some (x, st')" "\<forall>k. cbb_fits malloc st k \<longrightarrow> cbb_fits malloc st' k"
    "case x of None \<Rightarrow> failed st' \<and> \<not> (A \<and> cbb_fits malloc st n) | Some y \<Rightarrow> P y st'"
    using r unfolding cbb_does_def by blast
  show ?thesis
  proof (cases x)
    case None
    then have f: "failed st'" "\<not> (A \<and> cbb_fits malloc st n)" using x(3) by simp_all
    obtain st2 where st2: "(cbb_err st' :: 'b cbb_result) = Some (None, st2)" "failed st2" "cbb_fits malloc st2 = cbb_fits malloc st'"
      using cbb_err_failed [OF f(1)] by blast
    show ?thesis using x(1,2) None f(2) st2 unfolding cbb_does_def by simp
  next
    case (Some y)
    then have "cbb_does malloc st' (k y st') A n Q" using x(3) k by simp
    then show ?thesis using x Some unfolding cbb_does_def by (fastforce split: option.splits)
  qed
qed

lemma flush_asn1_too_long:
  "unat (cb_pending_len_len (cbbs st d)) = 1 \<Longrightarrow> 0xFFFFFFFE < len \<Longrightarrow> flush_asn1 malloc c d s len st = Some (None, st)"
  by (auto simp: flush_asn1_def word_unat_eq_iff)

lemma flush_asn1_does:
  assumes h: "holds (pre @ [0] @ ct) st" and L: "length ct \<le> 0xFFFFFFFE"
    and c: "cb_base (cbbs st c)" and d: "unat (cb_pending_len_len (cbbs st d)) = 1" "cb_offset (cbbs st d) = of_nat (length pre)"
  shows "cbb_does malloc st (flush_asn1 malloc c d (of_nat (length pre) + 1) (of_nat (length ct)) st) True
    (length pre + length (der_len (length ct)) + length ct)
    (\<lambda>len st'. len = (if length ct < 128 then 0 else of_nat (length ct)) \<and>
       (\<exists>ws. length ws = length (der_len (length ct)) - 1 \<and> holds (pre @ [hd (der_len (length ct))] @ ws @ ct) st') \<and>
       cbbs st' = (cbbs st)(d := (cbbs st d)\<lparr>cb_offset := of_nat (length pre) + 1,
         cb_pending_len_len := of_nat (length (der_len (length ct)) - 1)\<rparr>))"
proof -
  let ?L = "length ct" and ?ll = "length (der_len (length ct))"
  define e where "e = ?ll - 1"
  have L32: "?L < 2 ^ 32" using L by simp
  have ll: "?ll = Suc e" "e \<le> 4" using der_len_tail(3) [OF L32] by (simp_all add: e_def der_len_def)
  have e64: "(ucast (of_nat e :: byte) :: u64) = of_nat e" and e8: "(of_nat ?ll - 1 :: byte) = of_nat e"
    using ll by (simp_all add: unsigned_of_nat take_bit_nat_eq_self)
  have ll1: "(of_nat ?ll :: byte) \<noteq> 1 \<longleftrightarrow> e \<noteq> 0"
  proof -
    have "unat (of_nat (Suc e) :: byte) = Suc e" using ll(2) unfolding unat_of_nat by simp
    then have "(of_nat (Suc e) :: byte) \<noteq> 1 \<longleftrightarrow> Suc e \<noteq> 1" by (simp only: word_unat_eq_iff unsigned_1)
    then show ?thesis unfolding ll(1) by simp
  qed
  have p1: "cb_pending_len_len (cbbs st d) = 1" using d(1) by (simp add: word_unat_eq_iff)
  have Lu: "unat (of_nat ?L :: u64) = ?L" using L32 by (simp add: unat_of_nat)
  have no: "\<not> 0xFFFFFFFE < (of_nat ?L :: u64)" using Lu L by (simp add: word_less_nat_alt)
  have room: "cbb_does malloc st
    (if (of_nat ?ll :: byte) \<noteq> 1 then
       and_then (cbb_buffer_add malloc (cb_base (cbbs st c)) (of_nat e) st) (\<lambda>_ st.
         Option.bind (buf_move (of_nat (length pre) + 1 + of_nat e) (of_nat (length pre) + 1)
           (unat (if ?L < 128 then 0 else of_nat ?L :: u64)) st) (\<lambda>st. Some (Some (), st)))
     else Some (Some (), st)) True (length pre + ?ll + ?L)
    (\<lambda>_ st'. (\<exists>ws. length ws = e \<and> holds (pre @ [0] @ ws @ ct) st') \<and> cbbs st' = cbbs st)"
  proof (cases "e = 0")
    case True
    then show ?thesis using h ll1 by (auto intro!: does_return)
  next
    case False
    then have "\<not> ?L < 128" using ll by (auto simp: der_len_def)
    have eu: "unat (of_nat e :: u64) = e" using ll(2) by (simp add: unat_of_nat)
    have "cbb_does malloc st (and_then (cbb_buffer_add malloc True (of_nat e) st) (\<lambda>_ st.
         Option.bind (buf_move (of_nat (length pre) + 1 + of_nat e) (of_nat (length pre) + 1) ?L st)
           (\<lambda>st. Some (Some (), st)))) True (length pre + ?ll + ?L)
      (\<lambda>_ st'. (\<exists>ws. length ws = e \<and> holds (pre @ [0] @ ws @ ct) st') \<and> cbbs st' = cbbs st)"
    proof (rule does_then)
      show "cbb_does malloc st (cbb_buffer_add malloc True (of_nat e) st) True (length pre + ?ll + ?L)
        (\<lambda>out st'. (\<exists>ys. length ys = e \<and> holds ((pre @ [0]) @ ct @ ys) st') \<and> cbbs st' = cbbs st)"
        using add_does [OF h, of malloc "of_nat e"] unfolding eu by (rule does_weaken) (use ll in auto)
    next
      fix out st1
      assume "(\<exists>ys. length ys = e \<and> holds ((pre @ [0]) @ ct @ ys) st1) \<and> cbbs st1 = cbbs st"
      then obtain ys where ys: "length ys = e" "holds ((pre @ [0]) @ ct @ ys) st1" "cbbs st1 = cbbs st" by blast
      obtain st2 ws where st2: "buf_move (of_nat (length (pre @ [0])) + of_nat e) (of_nat (length (pre @ [0]))) ?L st1 = Some st2"
        "length ws = e" "holds ((pre @ [0]) @ ws @ ct) st2" "same_room st1 st2"
        using buf_move_holds [OF ys(2,1)] by blast
      have "(of_nat (length (pre @ [0 :: byte])) :: u64) = of_nat (length pre) + 1" by simp
      note st2 = st2 [unfolded this]
      show "cbb_does malloc st1 (Option.bind (buf_move (of_nat (length pre) + 1 + of_nat e) (of_nat (length pre) + 1) ?L st1)
           (\<lambda>st. Some (Some (), st))) True (length pre + ?ll + ?L)
        (\<lambda>_ st'. (\<exists>ws. length ws = e \<and> holds (pre @ [0] @ ws @ ct) st') \<and> cbbs st' = cbbs st)"
        using st2 ys(3) by (auto simp: same_room_def intro!: does_return)
    qed
    then show ?thesis using False \<open>\<not> ?L < 128\<close> c ll1 Lu by simp
  qed
  have eq: "flush_asn1 malloc c d (of_nat (length pre) + 1) (of_nat ?L) st =
    and_then
      (if (of_nat ?ll :: byte) \<noteq> 1 then
         and_then (cbb_buffer_add malloc (cb_base (cbbs st c)) (of_nat e) st) (\<lambda>_ st.
           Option.bind (buf_move (of_nat (length pre) + 1 + of_nat e) (of_nat (length pre) + 1)
             (unat (if ?L < 128 then 0 else of_nat ?L :: u64)) st) (\<lambda>st. Some (Some (), st)))
       else Some (Some (), st))
      (\<lambda>_ st. Option.bind (buf_put (cb_offset (cbbs st d)) [hd (der_len ?L)] st) (\<lambda>st.
         Some (Some (if ?L < 128 then 0 else of_nat ?L),
           upd_cbb d (\<lambda>cbb. cbb\<lparr>cb_offset := cb_offset cbb + 1, cb_pending_len_len := of_nat e\<rparr>) st)))"
    unfolding flush_asn1_def p1 asn1_length_der [OF L32] Let_def prod.case e8 e64 using no by simp
  show ?thesis
    unfolding eq
  proof (rule does_then [OF room])
    fix u st1
    assume "(\<exists>ws. length ws = e \<and> holds (pre @ [0] @ ws @ ct) st1) \<and> cbbs st1 = cbbs st"
    then obtain ws where ws: "length ws = e" "holds (pre @ [0] @ ws @ ct) st1" "cbbs st1 = cbbs st" by blast
    obtain st2 where st2: "buf_put (of_nat (length pre)) [hd (der_len ?L)] st1 = Some st2"
      "holds (pre @ [hd (der_len ?L)] @ ws @ ct) st2" "same_room st1 st2"
      using buf_put_holds [OF ws(2), of "[hd (der_len ?L)]"] by auto
    then show "cbb_does malloc st1 (Option.bind (buf_put (cb_offset (cbbs st1 d)) [hd (der_len ?L)] st1) (\<lambda>st.
         Some (Some (if ?L < 128 then 0 else of_nat ?L),
           upd_cbb d (\<lambda>cbb. cbb\<lparr>cb_offset := cb_offset cbb + 1, cb_pending_len_len := of_nat e\<rparr>) st)))
      True (length pre + ?ll + ?L)
      (\<lambda>len st'. len = (if ?L < 128 then 0 else of_nat ?L) \<and>
       (\<exists>ws. length ws = ?ll - 1 \<and> holds (pre @ [hd (der_len ?L)] @ ws @ ct) st') \<and>
       cbbs st' = (cbbs st)(d := (cbbs st d)\<lparr>cb_offset := of_nat (length pre) + 1, cb_pending_len_len := of_nat (?ll - 1)\<rparr>))"
      using ws d(2) ll(1) by (auto simp: same_room_def intro!: does_return)
  qed
qed

definition detached :: "cbb_id \<Rightarrow> cbb_id set \<Rightarrow> cbb_state \<Rightarrow> cbb_state \<Rightarrow> bool" where
  "detached c ds st st' \<longleftrightarrow>
     cbbs st' c = (cbbs st c)\<lparr>cb_child := None\<rparr> \<and> (\<forall>d \<in> ds. \<not> cb_base (cbbs st' d)) \<and>
     (\<forall>x. x \<noteq> c \<longrightarrow> x \<notin> ds \<longrightarrow> cbbs st' x = cbbs st x)"

lemma write_length_does:
  assumes h: "holds (pre @ zs @ ct) st" "length zs = unat (cb_pending_len_len (cbbs st d))"
    and d: "cb_offset (cbbs st d) = of_nat (length pre)" "d \<noteq> c"
  shows "cbb_does malloc st
    (Option.bind (put_loop (unat (cb_pending_len_len (cbbs st d))) (cb_offset (cbbs st d)) len st)
       (\<lambda>(len, st).
         if len \<noteq> 0 then cbb_err st
         else Some (Some (),
           upd_cbb c (\<lambda>cbb. cbb\<lparr>cb_child := None\<rparr>) (upd_cbb d (\<lambda>cbb. cbb\<lparr>cb_base := False\<rparr>) st))))
    (unat len < 256 ^ length zs) n
    (\<lambda>_ st'. unat len < 256 ^ length zs \<and> holds (pre @ be_n (length zs) (unat len) @ ct) st' \<and> detached c {d} st st')"
proof -
  let ?P = "\<lambda>(_ :: unit) st'. unat len < 256 ^ length zs \<and> holds (pre @ be_n (length zs) (unat len) @ ct) st' \<and> detached c {d} st st'"
  obtain st1 where st1: "put_loop (length zs) (of_nat (length pre)) len st = Some (drop_bit (8 * length zs) len, st1)"
    "holds (pre @ be_n (length zs) (unat len) @ ct) st1" "same_room st st1"
    using put_loop_holds [OF h(1) refl, of len] by blast
  have room: "cbb_fits malloc st1 k = cbb_fits malloc st k" "cbbs st1 = cbbs st" for k
    using st1(3) by (simp_all add: same_room_def)
  show ?thesis
  proof (cases "unat len < 256 ^ length zs")
    case True
    then show ?thesis
      using st1(1,2) room d unfolding h(2) [symmetric]
      by (auto simp: drop_bit_zero detached_def intro!: does_return)
  next
    case False
    then have d1: "cbb_does malloc st1 (cbb_err st1) (unat len < 256 ^ length zs) n ?P"
      by (intro cbb_err_does [OF st1(2)]) simp
    have "cbb_does malloc st (cbb_err st1) (unat len < 256 ^ length zs) n ?P"
      by (rule does_step [OF _ d1]) (simp add: room)
    then show ?thesis using st1(1) False unfolding h(2) [symmetric] d(1) by (simp add: drop_bit_zero)
  qed
qed

lemma flush_child_does:
  assumes h: "holds (pre @ replicate (plen k) 0 @ ct) st" and c: "cb_base (cbbs st c)" "c \<noteq> d"
    and d: "cb_offset (cbbs st d) = of_nat (length pre)" "unat (cb_pending_len_len (cbbs st d)) = plen k"
      "cb_pending_is_asn1 (cbbs st d) = (k = None)"
  shows "cbb_does malloc st
    (flush_child malloc c d (of_nat (length pre) + ucast (cb_pending_len_len (cbbs st d))) (Some (Some (), st)))
    (prefix_bytes k (length ct) \<noteq> None) (length pre + length (the (prefix_bytes k (length ct))) + length ct)
    (\<lambda>_ st'. \<exists>p. prefix_bytes k (length ct) = Some p \<and> holds (pre @ p @ ct) st' \<and> detached c {d} st st')"
    (is "cbb_does malloc st ?f ?A ?n ?P")
proof -
  let ?L = "length ct"
  obtain b where b: "buffer st = Some b" "unat (b_len b) = length (pre @ replicate (plen k) 0 @ ct)"
    using h by (rule holdsE)
  let ?s = "of_nat (length pre) + ucast (cb_pending_len_len (cbbs st d)) :: u64"
  have s: "?s = of_nat (length pre + plen k)"
  proof -
    have "(ucast (cb_pending_len_len (cbbs st d)) :: u64) = of_nat (plen k)"
      by (rule of_nat_eqI) (simp only: unat_ucast_byte64 d(2))
    then show ?thesis by (simp only: of_nat_add)
  qed
  have us: "unat ?s = length pre + plen k" and up: "unat (of_nat (length pre) :: u64) = length pre"
    unfolding s by (rule holds_unat [OF h], simp)+
  have s1: "\<not> ?s < cb_offset (cbbs st d)" using us up by (simp only: d(1) word_less_nat_alt)
  have s2: "\<not> b_len b < ?s" using us b(2) by (simp only: word_less_nat_alt) simp
  have "unat (b_len b - ?s) = ?L" using s2 us b(2) by (simp add: unat_sub word_less_nat_alt not_less word_le_nat_alt)
  then have len: "b_len b - ?s = of_nat ?L" by (rule of_nat_eqI)
  have Lu: "unat (of_nat ?L :: u64) = ?L" by (rule holds_unat [OF h]) simp
  have f: "?f = Option.bind
      (if k = None then flush_asn1 malloc c d ?s (of_nat ?L) st else Some (Some (of_nat ?L), st))
      (\<lambda>(len, st). case len of
         None \<Rightarrow> cbb_err st
       | Some len \<Rightarrow>
           Option.bind (put_loop (unat (cb_pending_len_len (cbbs st d))) (cb_offset (cbbs st d)) len st)
             (\<lambda>(len, st).
               if len \<noteq> 0 then cbb_err st
               else Some (Some (),
                 upd_cbb c (\<lambda>cbb. cbb\<lparr>cb_child := None\<rparr>) (upd_cbb d (\<lambda>cbb. cbb\<lparr>cb_base := False\<rparr>) st))))"
    unfolding flush_child_def using b(1) s1 s2 len d(3) by (simp add: Let_def)
  show ?thesis
  proof (cases k)
    case (Some l)
    then have l: "unat (cb_pending_len_len (cbbs st d)) = l" using d(2) by simp
    have "cbb_does malloc st (Option.bind (put_loop (unat (cb_pending_len_len (cbbs st d))) (cb_offset (cbbs st d)) (of_nat ?L) st)
             (\<lambda>(len, st).
               if len \<noteq> 0 then cbb_err st
               else Some (Some (),
                 upd_cbb c (\<lambda>cbb. cbb\<lparr>cb_child := None\<rparr>) (upd_cbb d (\<lambda>cbb. cbb\<lparr>cb_base := False\<rparr>) st))))
      (?L < 256 ^ l) ?n (\<lambda>_ st'. ?L < 256 ^ l \<and> holds (pre @ be_n l ?L @ ct) st' \<and> detached c {d} st st')"
      using write_length_does [OF h _ d(1) c(2) [symmetric], of malloc "of_nat ?L" ?n] Lu l Some by simp
    then show ?thesis
      unfolding f using Some by (auto elim!: does_weaken)
  next
    case None
    show ?thesis
    proof (cases "?L \<le> 0xFFFFFFFE")
      case False
      then have "0xFFFFFFFE < (of_nat ?L :: u64)" using Lu by (simp add: word_less_nat_alt)
      then have "flush_asn1 malloc c d ?s (of_nat ?L) st = Some (None, st)"
        using d(2) None by (intro flush_asn1_too_long) simp_all
      moreover have "cbb_does malloc st (cbb_err st) ?A ?n ?P"
        using False None by (intro cbb_err_does [OF h]) simp
      ultimately show ?thesis unfolding f using None by simp
    next
      case True
      have L32: "?L < 2 ^ 32" using True by simp
      have p: "prefix_bytes k ?L = Some (der_len ?L)" using True None by simp
      have s': "?s = of_nat (length pre) + 1" using s None by simp
      have h': "holds (pre @ [0] @ ct) st" using h None by simp
      have pend: "unat (cb_pending_len_len (cbbs st d)) = 1" using d(2) None by simp
      note fa = flush_asn1_does [OF h' True c(1) pend d(1), of malloc, folded s']
      have ll: "length (der_len ?L) - 1 < 256" using der_len_tail(3) [OF L32] by simp
      have "cbb_does malloc st ?f True (length pre + length (der_len ?L) + ?L) ?P"
        unfolding f if_P [OF None]
      proof (rule does_or_err [OF fa])
        fix len st1
        let ?v = "if ?L < 128 then 0 else of_nat ?L :: u64"
        assume "len = ?v \<and> (\<exists>ws. length ws = length (der_len ?L) - 1 \<and> holds (pre @ [hd (der_len ?L)] @ ws @ ct) st1) \<and>
          cbbs st1 = (cbbs st)(d := (cbbs st d)\<lparr>cb_offset := ?s, cb_pending_len_len := of_nat (length (der_len ?L) - 1)\<rparr>)"
        then obtain ws where len: "len = ?v" and ws: "length ws = length (der_len ?L) - 1"
          and hw: "holds ((pre @ [hd (der_len ?L)]) @ ws @ ct) st1"
          and cb: "cbbs st1 = (cbbs st)(d := (cbbs st d)\<lparr>cb_offset := ?s, cb_pending_len_len := of_nat (length (der_len ?L) - 1)\<rparr>)"
          by auto
        have "unat (cb_pending_len_len (cbbs st1 d)) = length ws" using ws ll by (simp add: cb unat_of_nat)
        note pend1 = this [symmetric]
        have off: "cb_offset (cbbs st1 d) = of_nat (length (pre @ [hd (der_len ?L)]))" using s' by (simp add: cb)
        have uv: "unat len = (if ?L < 128 then 0 else ?L)" using Lu len by simp
        have "unat len < 256 ^ length ws" unfolding uv ws by (rule der_len_tail(2) [OF L32])
        moreover have "hd (der_len ?L) # be_n (length ws) (unat len) = der_len ?L"
          unfolding uv ws der_len_tail(1) [symmetric] by (rule der_len_Cons [symmetric])
        then have "(pre @ [hd (der_len ?L)]) @ be_n (length ws) (unat len) @ ct = pre @ der_len ?L @ ct"
          by (metis append.assoc append_Cons append_Nil)
        note w = write_length_does [OF hw pend1 off c(2) [symmetric], of malloc len "length pre + length (der_len ?L) + ?L", unfolded this]
        ultimately show "cbb_does malloc st1
          (Option.bind (put_loop (unat (cb_pending_len_len (cbbs st1 d))) (cb_offset (cbbs st1 d)) len st1)
             (\<lambda>(len, st).
               if len \<noteq> 0 then cbb_err st
               else Some (Some (),
                 upd_cbb c (\<lambda>cbb. cbb\<lparr>cb_child := None\<rparr>) (upd_cbb d (\<lambda>cbb. cbb\<lparr>cb_base := False\<rparr>) st))))
          True (length pre + length (der_len ?L) + ?L) ?P"
          using p by (intro does_weaken [OF w]) (auto simp: detached_def cb c(2))
      qed
      then show ?thesis using p by (auto elim: does_weaken)
    qed
  qed
qed

lemma flush_failed: "failed st \<Longrightarrow> CBB_flush malloc c st = Some (None, st)"
  by (auto simp: failed_def CBB_flush.simps [of malloc c st])

lemma does_child:
  assumes r: "cbb_does malloc st r A n P" and le: "B \<Longrightarrow> A" "B \<Longrightarrow> n \<le> N"
    and k: "\<And>st'. P () st' \<Longrightarrow> cbb_does malloc st' (flush_child malloc c d s (Some (Some (), st'))) B N Q"
  shows "cbb_does malloc st (Option.bind r (\<lambda>r. flush_child malloc c d s (Some r))) B N Q"
proof -
  obtain x st' where x: "r = Some (x, st')" "\<forall>k. cbb_fits malloc st k \<longrightarrow> cbb_fits malloc st' k"
    "case x of None \<Rightarrow> failed st' \<and> \<not> (A \<and> cbb_fits malloc st n) | Some y \<Rightarrow> P y st'"
    using r unfolding cbb_does_def by blast
  show ?thesis
  proof (cases x)
    case None
    then have f: "failed st'" "\<not> (B \<and> cbb_fits malloc st N)" using x(3) le cbb_fits_mono [of malloc st N n] by auto
    obtain st2 where st2: "(cbb_err st' :: unit cbb_result) = Some (None, st2)" "failed st2" "cbb_fits malloc st2 = cbb_fits malloc st'"
      using cbb_err_failed [OF f(1)] by blast
    show ?thesis using x(1,2) None f(2) st2 unfolding cbb_does_def by (simp add: flush_child_def)
  next
    case (Some y)
    then have "cbb_does malloc st' (flush_child malloc c d s (Some (Some (), st'))) B N Q" using x(3) k by simp
    then show ?thesis using x Some unfolding cbb_does_def by (fastforce split: option.splits)
  qed
qed

text \<open>
  Flushing a \<open>CBB\<close> closes the chain of its open children: each length is written, in place of the
  zeros, or with the contents moved along where it does not fit.
\<close>

definition flushed :: "byte list \<Rightarrow> cbb_id \<Rightarrow> cbb_frame list \<Rightarrow> cbb_state \<Rightarrow> cbb_state \<Rightarrow> bool" where
  "flushed pre c fs st st' \<longleftrightarrow>
     (\<exists>t. cbb_closed fs = Some t \<and> holds (pre @ t) st') \<and> detached c (set (ids fs)) st st'"

lemma opened_le_closed: "cbb_closed fs = Some t \<Longrightarrow> length (opened fs) \<le> length t"
proof (induction fs arbitrary: t)
  case (Cons f fs)
  obtain d k bs where f: "f = (d, k, bs)" by (cases f)
  then obtain u p where u: "cbb_closed fs = Some u" "prefix_bytes k (length (bs @ u)) = Some p" "t = p @ bs @ u"
    using Cons.prems by (auto split: option.splits)
  have "plen k \<le> length p" using u(2) by (cases k) (auto simp: der_len_def split: if_splits)
  then show ?case using Cons.IH [OF u(1)] u(3) f by simp
qed simp

lemma flush_chain_does:
  assumes "holds (pre @ opened fs) st" "cbb_linked st c (length pre) fs" "distinct (c # ids fs)"
  shows "cbb_does malloc st (CBB_flush malloc c st) (cbb_closed fs \<noteq> None) (length pre + length (the (cbb_closed fs)))
    (\<lambda>_ st'. flushed pre c fs st st')"
  using assms
proof (induction fs arbitrary: c pre st)
  case Nil
  obtain b where b: "buffer st = Some b" "\<not> b_error b" using Nil.prems(1) by (auto elim: holdsE)
  then show ?case
    using Nil.prems by (auto simp: CBB_flush.simps [of malloc c st] flushed_def detached_def ids_def intro!: does_return)
next
  case (Cons f fs)
  obtain d k bs where f: "f = (d, k, bs)" by (cases f)
  let ?z = "replicate (plen k) 0" and ?N = "length pre + length (the (cbb_closed (f # fs)))" and ?B = "cbb_closed (f # fs) \<noteq> None"
  obtain b where b: "buffer st = Some b" "\<not> b_error b" using Cons.prems(1) by (auto elim: holdsE)
  have lk: "cb_base (cbbs st c)" "cb_child (cbbs st c) = Some d" "cb_offset (cbbs st d) = of_nat (length pre)"
    "unat (cb_pending_len_len (cbbs st d)) = plen k" "0 < plen k" "cb_pending_is_asn1 (cbbs st d) = (k = None)"
    "cbb_linked st d (length (pre @ ?z @ bs)) fs"
    using Cons.prems(2) f by (simp_all add: add.assoc)
  have h: "holds ((pre @ ?z @ bs) @ opened fs) st" using Cons.prems(1) f by simp
  have dist: "distinct (d # ids fs)" "c \<noteq> d" "c \<notin> set (ids fs)" using Cons.prems(3) f by (simp_all add: ids_def)
  have "cb_pending_len_len (cbbs st d) \<noteq> 0" using lk(4,5) by auto
  then have eq: "CBB_flush malloc c st = Option.bind (CBB_flush malloc d st) (\<lambda>r.
      flush_child malloc c d (of_nat (length pre) + ucast (cb_pending_len_len (cbbs st d))) (Some r))"
    using b lk(1-3) by (simp add: CBB_flush.simps [of malloc c st])
  show ?case
    unfolding eq
  proof (rule does_child [OF Cons.IH [OF h lk(7) dist(1)]])
    show "?B \<Longrightarrow> cbb_closed fs \<noteq> None" using f by (auto split: option.splits)
    show "length (pre @ ?z @ bs) + length (the (cbb_closed fs)) \<le> ?N" if B: ?B
    proof -
      obtain t where t: "cbb_closed (f # fs) = Some t" using B by blast
      then obtain u p where u: "cbb_closed fs = Some u" "prefix_bytes k (length (bs @ u)) = Some p" "t = p @ bs @ u"
        using f by (auto split: option.splits)
      have "plen k \<le> length p" using u(2) by (cases k) (auto simp: der_len_def split: if_splits)
      then show ?thesis using t u by simp
    qed
  next
    fix st1 assume "flushed (pre @ ?z @ bs) d fs st st1"
    then obtain t where t: "cbb_closed fs = Some t" "holds (pre @ ?z @ (bs @ t)) st1" "detached d (set (ids fs)) st st1"
      by (auto simp: flushed_def)
    have dd: "cbbs st1 d = (cbbs st d)\<lparr>cb_child := None\<rparr>" and cc: "cbbs st1 c = cbbs st c"
      using t(3) dist by (simp_all add: detached_def)
    have sub: "cbb_does malloc st1 (flush_child malloc c d (of_nat (length pre) + ucast (cb_pending_len_len (cbbs st1 d))) (Some (Some (), st1)))
      (prefix_bytes k (length (bs @ t)) \<noteq> None) (length pre + length (the (prefix_bytes k (length (bs @ t)))) + length (bs @ t))
      (\<lambda>_ st'. \<exists>p. prefix_bytes k (length (bs @ t)) = Some p \<and> holds (pre @ p @ bs @ t) st' \<and> detached c {d} st1 st')"
      using flush_child_does [OF t(2), of c d malloc] lk dd cc dist(2) by simp
    show "cbb_does malloc st1 (flush_child malloc c d (of_nat (length pre) + ucast (cb_pending_len_len (cbbs st d))) (Some (Some (), st1)))
      ?B ?N (\<lambda>_ st'. flushed pre c (f # fs) st st')"
    proof (rule does_weaken [OF sub [unfolded dd, simplified]])
      show "?B \<Longrightarrow> \<exists>y. prefix_bytes k (length bs + length t) = Some y"
        using f t(1) by (auto split: option.splits)
    next
      assume "\<exists>y. prefix_bytes k (length bs + length t) = Some y"
      then show "length pre + length (the (prefix_bytes k (length bs + length t))) + (length bs + length t) \<le> ?N"
        using f t(1) by auto
    next
      fix u st2
      assume "\<exists>p. prefix_bytes k (length bs + length t) = Some p \<and> holds (pre @ p @ bs @ t) st2 \<and> detached c {d} st1 st2"
      then obtain p where p: "prefix_bytes k (length bs + length t) = Some p" "holds (pre @ p @ bs @ t) st2" "detached c {d} st1 st2"
        by blast
      have "detached c (set (ids (f # fs))) st st2"
      proof -
        have "\<not> cb_base (cbbs st2 x)" if x: "x \<in> set (ids fs)" for x
        proof -
          have "x \<noteq> c" "x \<noteq> d" using x dist by auto
          then show ?thesis using x p(3) t(3) by (auto simp: detached_def)
        qed
        then show ?thesis using p(3) t(3) cc dist(2) f by (auto simp: detached_def ids_def)
      qed
      then show "flushed pre c (f # fs) st st2" using p(1,2) f t(1) by (simp add: flushed_def)
    qed
  qed
qed

end
