(* ===== verification/Bs_Cbb_Facts.thy ===== *)
theory Bs_Cbb_Facts
  imports Bs_Cbb_Flush
begin

text \<open>
  The builder refines a stack of open prefixes: what each operation adds, what the parents of a child
  keep, and that the integers of DER are read back as they were written.
\<close>

section \<open>Adding to a \<open>CBB\<close>\<close>

text \<open>
  \<open>writer pre c fs st\<close>: what is in the buffer up to the end of the bytes added to \<open>c\<close> itself is \<open>pre\<close>,
  and \<open>fs\<close> is the chain of its open children.
\<close>

definition writer :: "byte list \<Rightarrow> cbb_id \<Rightarrow> cbb_frame list \<Rightarrow> cbb_state \<Rightarrow> bool" where
  "writer pre c fs st \<longleftrightarrow> holds (pre @ opened fs) st \<and> cbb_linked st c (length pre) fs \<and> distinct (c # ids fs)"

text \<open>Nothing but the children \<open>ds\<close> and the field \<open>child\<close> of \<open>c\<close> has changed.\<close>

definition cbb_kept :: "cbb_id \<Rightarrow> cbb_id set \<Rightarrow> cbb_state \<Rightarrow> cbb_state \<Rightarrow> bool" where
  "cbb_kept c ds st st' \<longleftrightarrow>
     (cbbs st' c)\<lparr>cb_child := None\<rparr> = (cbbs st c)\<lparr>cb_child := None\<rparr> \<and>
     (\<forall>x. x \<noteq> c \<longrightarrow> x \<notin> ds \<longrightarrow> cbbs st' x = cbbs st x)"

lemma writer_Nil: "writer xs c [] st \<longleftrightarrow> holds xs st \<and> cb_base (cbbs st c) \<and> cb_child (cbbs st c) = None"
  by (simp add: writer_def ids_def)

lemma cbb_kept_refl [simp]: "cbb_kept c ds st st"
  by (simp add: cbb_kept_def)

lemma cbb_kept_trans: "cbb_kept c ds a b \<Longrightarrow> cbb_kept c ds b d \<Longrightarrow> cbb_kept c ds a d"
  by (simp add: cbb_kept_def)

lemma cbb_kept_mono: "cbb_kept c ds a b \<Longrightarrow> ds \<subseteq> es \<Longrightarrow> cbb_kept c es a b"
  by (auto simp: cbb_kept_def)

lemma writer_base: "writer pre c fs st \<Longrightarrow> cb_base (cbbs st c)"
  by (cases fs) (auto simp: writer_def)

lemma flush_does:
  assumes w: "writer pre c fs st"
  shows "cbb_does malloc st (CBB_flush malloc c st) (cbb_closed fs \<noteq> None) (length pre + length (the (cbb_closed fs)))
    (\<lambda>_ st'. \<exists>t. cbb_closed fs = Some t \<and> writer (pre @ t) c [] st' \<and> cbb_kept c (set (ids fs)) st st' \<and>
       (\<forall>d \<in> set (ids fs). \<not> cb_base (cbbs st' d)))"
proof -
  have "cbb_does malloc st (CBB_flush malloc c st) (cbb_closed fs \<noteq> None) (length pre + length (the (cbb_closed fs)))
    (\<lambda>_ st'. flushed pre c fs st st')"
    using w unfolding writer_def by (intro flush_chain_does) simp_all
  then show ?thesis
    by (rule does_weaken) (use writer_base [OF w] in \<open>auto simp: flushed_def detached_def writer_Nil cbb_kept_def\<close>)
qed

text \<open>An operation flushes first; what it does then, it does to a \<open>CBB\<close> without open children.\<close>

lemma flush_then:
  assumes w: "writer pre c fs st"
    and k: "\<And>t st'. cbb_closed fs = Some t \<Longrightarrow> writer (pre @ t) c [] st' \<Longrightarrow> cbb_kept c (set (ids fs)) st st' \<Longrightarrow>
      cbb_does malloc st' (k st') A (length (pre @ t) + n) (\<lambda>y st''. P t y st'' \<and> cbb_kept c ds st' st'')"
  shows "cbb_does malloc st (and_then (CBB_flush malloc c st) (\<lambda>_. k)) (A \<and> cbb_closed fs \<noteq> None)
    (length pre + length (the (cbb_closed fs)) + n)
    (\<lambda>y st'. \<exists>t. cbb_closed fs = Some t \<and> P t y st' \<and> cbb_kept c (set (ids fs) \<union> ds) st st')"
proof (rule does_then)
  show "cbb_does malloc st (CBB_flush malloc c st) (A \<and> cbb_closed fs \<noteq> None) (length pre + length (the (cbb_closed fs)) + n)
    (\<lambda>_ st'. \<exists>t. cbb_closed fs = Some t \<and> writer (pre @ t) c [] st' \<and> cbb_kept c (set (ids fs)) st st')"
    by (rule does_weaken [OF flush_does [OF w]]) auto
next
  fix y st'
  assume "\<exists>t. cbb_closed fs = Some t \<and> writer (pre @ t) c [] st' \<and> cbb_kept c (set (ids fs)) st st'"
  then obtain t where t: "cbb_closed fs = Some t" "writer (pre @ t) c [] st'" "cbb_kept c (set (ids fs)) st st'" by blast
  show "cbb_does malloc st' (k st') (A \<and> cbb_closed fs \<noteq> None) (length pre + length (the (cbb_closed fs)) + n)
    (\<lambda>y st'. \<exists>t. cbb_closed fs = Some t \<and> P t y st' \<and> cbb_kept c (set (ids fs) \<union> ds) st st')"
  proof (rule does_weaken [OF k [OF t]])
    fix y st'' assume "P t y st'' \<and> cbb_kept c ds st' st''"
    then show "\<exists>t. cbb_closed fs = Some t \<and> P t y st'' \<and> cbb_kept c (set (ids fs) \<union> ds) st st''"
      using t(1) cbb_kept_trans [OF cbb_kept_mono [OF t(3)] cbb_kept_mono [of c ds st' st'']] by blast
  qed (use t(1) in auto)
qed

definition added :: "byte list \<Rightarrow> cbb_id \<Rightarrow> cbb_frame list \<Rightarrow> byte list \<Rightarrow> cbb_state \<Rightarrow> cbb_state \<Rightarrow> bool" where
  "added pre c fs bs st st' \<longleftrightarrow>
     (\<exists>t. cbb_closed fs = Some t \<and> writer (pre @ t @ bs) c [] st' \<and> cbb_kept c (set (ids fs)) st st')"

abbreviation total_length :: "byte list \<Rightarrow> cbb_frame list \<Rightarrow> byte list \<Rightarrow> nat" where
  "total_length pre fs bs \<equiv> length pre + length (the (cbb_closed fs)) + length bs"

lemma add_u_added:
  assumes w: "writer pre c fs st" and n: "0 < n" "n < 256"
  shows "cbb_does malloc st (cbb_add_u malloc c v (of_nat n) st) (unat v < 256 ^ n \<and> cbb_closed fs \<noteq> None)
    (total_length pre fs (be_n n (unat v))) (\<lambda>_. added pre c fs (be_n n (unat v)) st)"
proof -
  have "cbb_does malloc st (and_then (CBB_flush malloc c st) (\<lambda>_ st. cbb_buffer_add_u malloc (cb_base (cbbs st c)) v (of_nat n) st))
    (unat v < 256 ^ n \<and> cbb_closed fs \<noteq> None) (length pre + length (the (cbb_closed fs)) + n)
    (\<lambda>y st'. \<exists>t. cbb_closed fs = Some t \<and> writer (pre @ t @ be_n n (unat v)) c [] st' \<and> cbb_kept c (set (ids fs) \<union> {}) st st')"
  proof (rule flush_then [OF w])
    fix t st' assume "cbb_closed fs = Some t" and w': "writer (pre @ t) c [] st'" and "cbb_kept c (set (ids fs)) st st'"
    have h: "holds (pre @ t) st'" "cb_base (cbbs st' c)" "cb_child (cbbs st' c) = None" using w' by (simp_all add: writer_Nil)
    show "cbb_does malloc st' (cbb_buffer_add_u malloc (cb_base (cbbs st' c)) v (of_nat n) st') (unat v < 256 ^ n)
      (length (pre @ t) + n) (\<lambda>y st''. writer (pre @ t @ be_n n (unat v)) c [] st'' \<and> cbb_kept c {} st' st'')"
      using add_u_does [OF h(1) n, of malloc v] h(2,3) by (auto elim!: does_weaken simp: writer_Nil cbb_kept_def)
  qed
  then show ?thesis by (simp add: cbb_add_u_def added_def [abs_def])
qed

lemma add_u8_added:
  assumes "writer pre c fs st"
  shows "cbb_does malloc st (CBB_add_u8 malloc c b st) (cbb_closed fs \<noteq> None) (total_length pre fs [b]) (\<lambda>_. added pre c fs [b] st)"
  using add_u_added [OF assms, of 1 malloc "ucast b"] unat_byte [of b]
  by (simp add: CBB_add_u8_def unat_ucast_byte64)

lemma add_bytes_added:
  assumes w: "writer pre c fs st" and len: "length bs < 2 ^ 64"
  shows "cbb_does malloc st (CBB_add_bytes malloc c bs st) (cbb_closed fs \<noteq> None) (total_length pre fs bs) (\<lambda>_. added pre c fs bs st)"
proof -
  have "cbb_does malloc st (and_then (CBB_flush malloc c st) (\<lambda>_ st.
       and_then (cbb_buffer_add malloc (cb_base (cbbs st c)) (of_nat (length bs)) st) (\<lambda>dest st.
         Option.bind (buf_put dest bs st) (\<lambda>st. Some (Some (), st)))))
    (True \<and> cbb_closed fs \<noteq> None) (length pre + length (the (cbb_closed fs)) + length bs)
    (\<lambda>y st'. \<exists>t. cbb_closed fs = Some t \<and> writer (pre @ t @ bs) c [] st' \<and> cbb_kept c (set (ids fs) \<union> {}) st st')"
  proof (rule flush_then [OF w])
    fix t st1 assume "cbb_closed fs = Some t" and w': "writer (pre @ t) c [] st1" and "cbb_kept c (set (ids fs)) st st1"
    have h: "holds (pre @ t) st1" "cb_base (cbbs st1 c)" "cb_child (cbbs st1 c) = None" using w' by (simp_all add: writer_Nil)
    have u: "unat (of_nat (length bs) :: u64) = length bs" using len by (simp add: unat_of_nat)
    show "cbb_does malloc st1 (and_then (cbb_buffer_add malloc (cb_base (cbbs st1 c)) (of_nat (length bs)) st1) (\<lambda>dest st.
         Option.bind (buf_put dest bs st) (\<lambda>st. Some (Some (), st)))) True (length (pre @ t) + length bs)
      (\<lambda>y st''. writer (pre @ t @ bs) c [] st'' \<and> cbb_kept c {} st1 st'')"
    proof (rule does_then)
      show "cbb_does malloc st1 (cbb_buffer_add malloc (cb_base (cbbs st1 c)) (of_nat (length bs)) st1) True (length (pre @ t) + length bs)
        (\<lambda>out st'. out = of_nat (length (pre @ t)) \<and> (\<exists>ys. length ys = length bs \<and> holds ((pre @ t) @ ys @ []) st') \<and> cbbs st' = cbbs st1)"
        using add_does [OF h(1), of malloc "of_nat (length bs)"] h(2) by (simp add: u)
    next
      fix out :: u64 and st2
      assume "out = of_nat (length (pre @ t)) \<and> (\<exists>ys. length ys = length bs \<and> holds ((pre @ t) @ ys @ []) st2) \<and> cbbs st2 = cbbs st1"
      then obtain ys where ys: "out = of_nat (length (pre @ t))" "length ys = length bs" "holds ((pre @ t) @ ys @ []) st2" "cbbs st2 = cbbs st1"
        by blast
      obtain st3 where "buf_put (of_nat (length (pre @ t))) bs st2 = Some st3" "holds ((pre @ t) @ bs @ []) st3" "same_room st2 st3"
        using buf_put_holds [OF ys(3,2)] by blast
      then show "cbb_does malloc st2 (Option.bind (buf_put out bs st2) (\<lambda>st. Some (Some (), st))) True (length (pre @ t) + length bs)
        (\<lambda>y st''. writer (pre @ t @ bs) c [] st'' \<and> cbb_kept c {} st1 st'')"
        using ys(1,4) h(2,3) by (auto simp: same_room_def writer_Nil cbb_kept_def intro!: does_return)
    qed
  qed
  then show ?thesis by (simp add: CBB_add_bytes_def added_def [abs_def])
qed

text \<open>Two additions in a row, the second to a \<open>CBB\<close> whose children are closed.\<close>

lemma added_then:
  assumes r: "cbb_does malloc st r A n1 (\<lambda>_. added pre c fs xs st)"
    and k: "\<And>pre st'. writer pre c [] st' \<Longrightarrow> cbb_does malloc st' (k st') A (length pre + m) (\<lambda>_. added pre c [] ys st')"
    and n: "A \<Longrightarrow> n1 \<le> N" "A \<Longrightarrow> total_length pre fs xs + m \<le> N"
  shows "cbb_does malloc st (and_then r (\<lambda>_. k)) A N (\<lambda>_. added pre c fs (xs @ ys) st)"
proof (rule does_then)
  show "cbb_does malloc st r A N (\<lambda>_. added pre c fs xs st)" by (rule does_weaken [OF r]) (use n in auto)
next
  fix y st' assume "added pre c fs xs st st'"
  then obtain t where t: "cbb_closed fs = Some t" "writer (pre @ t @ xs) c [] st'" "cbb_kept c (set (ids fs)) st st'"
    by (auto simp: added_def)
  show "cbb_does malloc st' (k st') A N (\<lambda>_. added pre c fs (xs @ ys) st)"
  proof (rule does_weaken [OF k [OF t(2)]])
    fix u st'' assume "added (pre @ t @ xs) c [] ys st' st''"
    then show "added pre c fs (xs @ ys) st st''"
      using t cbb_kept_trans [OF t(3) cbb_kept_mono [of c "{}" st' st'']] by (auto simp: added_def ids_def)
  qed (use t(1) n in auto)
qed

lemma add_u8_leaf:
  "writer pre c [] st \<Longrightarrow> cbb_does malloc st (CBB_add_u8 malloc c b st) True (length pre + 1) (\<lambda>_. added pre c [] [b] st)"
  using add_u8_added [of pre c "[]" st malloc b] by simp

section \<open>Numbers in base 128\<close>

definition digit128 :: "u64 \<Rightarrow> nat \<Rightarrow> byte" where
  "digit128 v i = ucast (drop_bit (7 * i) v) AND 0x7F"

definition digits128 :: "u64 \<Rightarrow> nat \<Rightarrow> byte list" where
  "digits128 v n = map (\<lambda>i. if i \<noteq> 0 then digit128 v i OR 0x80 else digit128 v i) (rev [0..<n])"

lemma digits128_Suc: "digits128 v (Suc n) = (if n \<noteq> 0 then digit128 v n OR 0x80 else digit128 v n) # digits128 v n"
  by (simp add: digits128_def)

lemma base128_loop_added:
  "writer pre c [] st \<Longrightarrow>
     cbb_does malloc st (base128_loop malloc c v n st) True (length pre + n) (\<lambda>_. added pre c [] (digits128 v n) st)"
proof (induction n arbitrary: pre st)
  case 0
  then show ?case by (auto simp: added_def digits128_def intro!: does_return)
next
  case (Suc n)
  let ?b = "if n \<noteq> 0 then digit128 v n OR 0x80 else digit128 v n"
  have "cbb_does malloc st (and_then (CBB_add_u8 malloc c ?b st) (\<lambda>_ st. base128_loop malloc c v n st)) True (length pre + Suc n)
    (\<lambda>_. added pre c [] ([?b] @ digits128 v n) st)"
    by (rule added_then [OF add_u8_leaf [OF Suc.prems] Suc.IH]) simp_all
  then show ?case by (cases "n = 0") (simp_all add: Let_def digit128_def digits128_Suc)
qed

lemma digit128_unat: "digit128 v i = of_nat (unat v div 128 ^ i mod 128)"
proof -
  have "unat (digit128 v i) = unat (ucast (drop_bit (7 * i) v) :: byte) mod 128" unfolding digit128_def by (rule byte_low)
  also have "\<dots> = unat (drop_bit (7 * i) v) mod 256 mod 128" by (simp add: unsigned_ucast_eq take_bit_eq_mod)
  also have "\<dots> = unat (drop_bit (7 * i) v) mod 128" by (simp add: mod_mod_cancel)
  also have "unat (drop_bit (7 * i) v) = unat v div 128 ^ i"
    using unsigned_less [of v, where ?'a = nat]
    by (simp only: unsigned_drop_bit_eq) (simp add: drop_bit_eq_div take_bit_nat_eq_self power_mult)
  finally show ?thesis by (rule of_nat_eqI)
qed

lemma unat_shift7: "unat (drop_bit 7 v) = unat v div 128" for v :: u64
  using unsigned_less [of v, where ?'a = nat]
  by (simp only: unsigned_drop_bit_eq) (simp add: drop_bit_eq_div take_bit_nat_eq_self)

lemma digit128_shift: "digit128 v (Suc i) = digit128 (drop_bit 7 v) i"
  unfolding digit128_unat unat_shift7 by (simp add: div_mult2_eq)

lemma high_digits:
  "map (\<lambda>i. digit128 v i OR 0x80) (rev [0..<base128_len v]) = base128_hi (unat v)"
proof (induction v rule: base128_len.induct)
  case (1 v)
  show ?case
  proof (cases "0 < v")
    case False
    then have "v = 0" by (simp add: word_neq_0_conv [symmetric])
    then show ?thesis by (simp add: base128_len.simps [of 0] base128_hi.simps [of 0])
  next
    case True
    let ?n = "base128_len (drop_bit 7 v)"
    have "rev [0..<Suc ?n] = map Suc (rev [0..<?n]) @ [0]"
      by (simp add: rev_map [symmetric] map_Suc_upt upt_conv_Cons del: upt_Suc)
    then have "map (\<lambda>i. digit128 v i OR 0x80) (rev [0..<Suc ?n]) =
      map (\<lambda>i. digit128 (drop_bit 7 v) i OR 0x80) (rev [0..<?n]) @ [digit128 v 0 OR 0x80]"
      by (simp add: digit128_shift comp_def del: upt_Suc)
    moreover have "base128_len v = Suc ?n" using True by (simp add: base128_len.simps [of v])
    moreover have "0 < unat v" using True by (simp add: word_less_nat_alt)
    ultimately show ?thesis
      using 1 [OF True] by (simp add: base128_hi.simps [of "unat v"] unat_shift7 digit128_unat [of v 0] del: upt_Suc)
  qed
qed

lemma digits128_base128: "digits128 v (if base128_len v = 0 then 1 else base128_len v) = base128 (unat v)"
proof -
  let ?n = "base128_len (drop_bit 7 v)"
  have n: "(if base128_len v = 0 then 1 else base128_len v) = Suc ?n"
  proof (cases "0 < v")
    case False
    then have "v = 0" by (simp add: word_neq_0_conv [symmetric])
    then show ?thesis by (simp add: base128_len.simps [of 0])
  qed (simp add: base128_len.simps [of v])
  have "rev [0..<Suc ?n] = map Suc (rev [0..<?n]) @ [0]"
    by (simp add: rev_map [symmetric] map_Suc_upt upt_conv_Cons del: upt_Suc)
  then have "digits128 v (Suc ?n) = map (\<lambda>i. digit128 (drop_bit 7 v) i OR 0x80) (rev [0..<?n]) @ [digit128 v 0]"
    by (simp add: digits128_def digit128_shift comp_def del: upt_Suc)
  then show ?thesis
    unfolding n high_digits by (simp add: base128_def unat_shift7 digit128_unat)
qed

lemma add_base128_added:
  assumes "writer pre c [] st"
  shows "cbb_does malloc st (add_base128_integer malloc c v st) True (length pre + length (base128 (unat v)))
    (\<lambda>_. added pre c [] (base128 (unat v)) st)"
proof -
  let ?n = "if base128_len v = 0 then 1 else base128_len v"
  have "length (digits128 v ?n) = ?n" by (simp add: digits128_def)
  then show ?thesis
    using base128_loop_added [OF assms, of malloc v ?n] digits128_base128 [of v]
    by (simp add: add_base128_integer_def Let_def)
qed

section \<open>Opening a child\<close>

lemma add_tag_added:
  assumes w: "writer pre c [] st"
  shows "cbb_does malloc st
    (let tag_bits = ucast (drop_bit CBS_ASN1_TAG_SHIFT tag) AND 0xE0 :: byte;
         tag_number = tag AND CBS_ASN1_TAG_NUMBER_MASK in
      if 0x1F \<le> tag_number then
        and_then (CBB_add_u8 malloc c (tag_bits OR 0x1F) st) (\<lambda>_ st. add_base128_integer malloc c (ucast tag_number) st)
      else CBB_add_u8 malloc c (tag_bits OR ucast tag_number) st)
    True (length pre + length (der_tag tag)) (\<lambda>_. added pre c [] (der_tag tag) st)"
proof (cases "0x1F \<le> tag_number tag")
  case True
  let ?v = "ucast (tag_number tag) :: u64"
  have u: "unat ?v = unat (tag_number tag)"
    using tag_number_less [of tag] by (simp add: unsigned_ucast_eq take_bit_nat_eq_self)
  have der: "der_tag tag = [tag_bits tag OR 0x1F] @ base128 (unat ?v)" using True u by (simp add: der_tag_def not_less [symmetric])
  have "cbb_does malloc st (and_then (CBB_add_u8 malloc c (tag_bits tag OR 0x1F) st) (\<lambda>_ st. add_base128_integer malloc c ?v st)) True
    (length pre + length (der_tag tag)) (\<lambda>_. added pre c [] (der_tag tag) st)"
    unfolding der
    by (rule added_then [OF add_u8_leaf [OF w] add_base128_added]) simp_all
  then show ?thesis using True by (simp add: tag_bits_def tag_number_def Let_def)
next
  case False
  then have "der_tag tag = [tag_bits tag OR ucast (tag_number tag)]" by (simp add: der_tag_def not_le)
  then show ?thesis
    using False add_u8_added [OF w, of malloc "tag_bits tag OR ucast (tag_number tag)"]
    by (simp add: tag_bits_def tag_number_def Let_def)
qed

text \<open>The child \<open>d\<close> of \<open>c\<close> is open and empty; its length is to be written behind \<open>xs\<close>.\<close>

definition open_child :: "byte list \<Rightarrow> cbb_id \<Rightarrow> cbb_frame list \<Rightarrow> byte list \<Rightarrow> cbb_id \<Rightarrow> nat option \<Rightarrow> cbb_state \<Rightarrow> cbb_state \<Rightarrow> bool" where
  "open_child pre c fs xs d k st st' \<longleftrightarrow>
     (\<exists>t. cbb_closed fs = Some t \<and> writer (pre @ t @ xs) c [(d, k, [])] st' \<and> cbb_kept c (insert d (set (ids fs))) st st')"

lemma start_child_writer:
  assumes w: "writer (xs @ replicate (plen k) 0) c [] st" and k: "0 < plen k" "plen k < 256" and d: "d \<noteq> c"
  shows "cbb_does malloc st (Some (Some (), start_child c d (of_nat (length xs)) (of_nat (plen k)) (k = None) st)) A n
    (\<lambda>_ st'. writer xs c [(d, k, [])] st' \<and> cbb_kept c {d} st st')"
proof -
  have "unat (of_nat (plen k) :: byte) = plen k" using k(2) by (simp add: unat_of_nat)
  then show ?thesis
    using assms by (auto simp: start_child_def writer_Nil writer_def cbb_kept_def ids_def Let_def zero_cbb_def intro!: does_return)
qed

lemma add_length_prefixed_opens:
  assumes w: "writer pre c fs st" and n: "0 < n" "n < 256" and d: "d \<noteq> c"
  shows "cbb_does malloc st (cbb_add_length_prefixed malloc c d (of_nat n) st) (cbb_closed fs \<noteq> None)
    (length pre + length (the (cbb_closed fs)) + n) (\<lambda>_. open_child pre c fs [] d (Some n) st)"
proof -
  have un: "unat (of_nat n :: byte) = n" using n by (simp add: unat_of_nat)
  have un64: "unat (ucast (of_nat n :: byte) :: u64) = n" by (simp add: unat_ucast_byte64 un)
  have "cbb_does malloc st (cbb_add_length_prefixed malloc c d (of_nat n) st) (True \<and> cbb_closed fs \<noteq> None)
    (length pre + length (the (cbb_closed fs)) + n)
    (\<lambda>y st'. \<exists>t. cbb_closed fs = Some t \<and> writer (pre @ t) c [(d, Some n, [])] st' \<and> cbb_kept c (set (ids fs) \<union> {d}) st st')"
    unfolding cbb_add_length_prefixed_def
  proof (rule flush_then [OF w])
    fix t st1 assume "cbb_closed fs = Some t" and w': "writer (pre @ t) c [] st1" and "cbb_kept c (set (ids fs)) st st1"
    have h: "holds (pre @ t) st1" "cb_base (cbbs st1 c)" "cb_child (cbbs st1 c) = None" using w' by (simp_all add: writer_Nil)
    obtain b where b: "buffer st1 = Some b" "b_len b = of_nat (length (pre @ t))" using h(1) by (rule holdsE)
    have "cbb_does malloc st1 (and_then (cbb_buffer_add malloc True (ucast (of_nat n :: byte)) st1) (\<lambda>p st.
           Option.bind (buf_put p (replicate n 0) st) (\<lambda>st.
             Some (Some (), start_child c d (of_nat (length (pre @ t))) (of_nat n) False st)))) True (length (pre @ t) + n)
      (\<lambda>y st''. writer (pre @ t) c [(d, Some n, [])] st'' \<and> cbb_kept c {d} st1 st'')"
    proof (rule does_then)
      show "cbb_does malloc st1 (cbb_buffer_add malloc True (ucast (of_nat n :: byte)) st1) True (length (pre @ t) + n)
        (\<lambda>out st'. out = of_nat (length (pre @ t)) \<and> (\<exists>ys. length ys = n \<and> holds ((pre @ t) @ ys @ []) st') \<and> cbbs st' = cbbs st1)"
        using add_does [OF h(1), of malloc "ucast (of_nat n :: byte)"] by (simp add: un64)
    next
      fix out :: u64 and st2
      assume "out = of_nat (length (pre @ t)) \<and> (\<exists>ys. length ys = n \<and> holds ((pre @ t) @ ys @ []) st2) \<and> cbbs st2 = cbbs st1"
      then obtain ys where ys: "out = of_nat (length (pre @ t))" "length ys = length (replicate n (0 :: byte))"
        "holds ((pre @ t) @ ys @ []) st2" "cbbs st2 = cbbs st1" by auto
      obtain st3 where st3: "buf_put out (replicate n 0) st2 = Some st3"
        "holds ((pre @ t) @ replicate n 0 @ []) st3" "same_room st2 st3"
        using buf_put_holds [OF ys(3,2)] ys(1) by blast
      have cb: "cbbs st3 = cbbs st1" "cbb_fits malloc st3 j = cbb_fits malloc st2 j" for j
        using st3(3) ys(4) by (simp_all add: same_room_def)
      have "writer ((pre @ t) @ replicate (plen (Some n)) 0) c [] st3" using st3(2) cb(1) h by (simp add: writer_Nil)
      from start_child_writer [OF this _ _ d, of malloc True "length (pre @ t) + n"]
      have "cbb_does malloc st3 (Some (Some (), start_child c d (of_nat (length (pre @ t))) (of_nat n) False st3)) True
        (length (pre @ t) + n) (\<lambda>y st''. writer (pre @ t) c [(d, Some n, [])] st'' \<and> cbb_kept c {d} st1 st'')"
        using n cb(1) by (simp add: cbb_kept_def)
      then show "cbb_does malloc st2 (Option.bind (buf_put out (replicate n 0) st2) (\<lambda>st.
             Some (Some (), start_child c d (of_nat (length (pre @ t))) (of_nat n) False st))) True (length (pre @ t) + n)
        (\<lambda>y st''. writer (pre @ t) c [(d, Some n, [])] st'' \<and> cbb_kept c {d} st1 st'')"
        using st3(1) by (simp add: does_step [of malloc st2 st3] cb(2))
    qed
    then show "cbb_does malloc st1 (Option.bind (buffer st1) (\<lambda>b.
         let offset = b_len b in
         and_then (cbb_buffer_add malloc (cb_base (cbbs st1 c)) (ucast (of_nat n :: byte)) st1) (\<lambda>p st.
           Option.bind (buf_put p (replicate (unat (of_nat n :: byte)) 0) st) (\<lambda>st.
             Some (Some (), start_child c d offset (of_nat n) False st))))) True (length (pre @ t) + n)
      (\<lambda>y st''. writer (pre @ t) c [(d, Some n, [])] st'' \<and> cbb_kept c {d} st1 st'')"
      using b h(2) un by (simp add: Let_def)
  qed
  then show ?thesis by (simp add: open_child_def [abs_def])
qed

lemma add_asn1_length_opens:
  assumes w: "writer xs c [] st" and d: "d \<noteq> c"
  shows "cbb_does malloc st (Option.bind (buffer st) (\<lambda>b.
      let offset = b_len b in
      and_then (CBB_add_u8 malloc c 0 st) (\<lambda>_ st. Some (Some (), start_child c d offset 1 True st))))
    True (length xs + 1) (\<lambda>_ st'. writer xs c [(d, None, [])] st' \<and> cbb_kept c {d} st st')"
proof -
  obtain b where b: "buffer st = Some b" "b_len b = of_nat (length xs)"
    using w by (auto simp: writer_Nil elim: holdsE)
  have "cbb_does malloc st (and_then (CBB_add_u8 malloc c 0 st) (\<lambda>_ st. Some (Some (), start_child c d (of_nat (length xs)) 1 True st)))
    True (length xs + 1) (\<lambda>_ st'. writer xs c [(d, None, [])] st' \<and> cbb_kept c {d} st st')"
  proof (rule does_then [OF add_u8_leaf [OF w]])
    fix y st2 assume "added xs c [] [0] st st2"
    then have w2: "writer (xs @ replicate (plen None) 0) c [] st2" and kp: "cbb_kept c {} st st2"
      by (simp_all add: added_def ids_def)
    have "cbb_does malloc st2 (Some (Some (), start_child c d (of_nat (length xs)) 1 True st2)) True (length xs + 1)
      (\<lambda>_ st'. writer xs c [(d, None, [])] st' \<and> cbb_kept c {d} st2 st')"
      using start_child_writer [OF w2 _ _ d, of malloc True "length xs + 1"] by simp
    then show "cbb_does malloc st2 (Some (Some (), start_child c d (of_nat (length xs)) 1 True st2)) True (length xs + 1)
      (\<lambda>_ st'. writer xs c [(d, None, [])] st' \<and> cbb_kept c {d} st st')"
      by (rule does_weaken) (use cbb_kept_trans [OF cbb_kept_mono [OF kp]] in auto)
  qed
  then show ?thesis using b by (simp add: Let_def)
qed

lemma add_asn1_opens:
  assumes w: "writer pre c fs st" and d: "d \<noteq> c"
  shows "cbb_does malloc st (CBB_add_asn1 malloc c d tag st) (cbb_closed fs \<noteq> None)
    (length pre + length (the (cbb_closed fs)) + (length (der_tag tag) + 1)) (\<lambda>_. open_child pre c fs (der_tag tag) d None st)"
proof -
  have "cbb_does malloc st (CBB_add_asn1 malloc c d tag st) (True \<and> cbb_closed fs \<noteq> None)
    (length pre + length (the (cbb_closed fs)) + (length (der_tag tag) + 1))
    (\<lambda>y st'. \<exists>t. cbb_closed fs = Some t \<and> writer (pre @ t @ der_tag tag) c [(d, None, [])] st' \<and> cbb_kept c (set (ids fs) \<union> {d}) st st')"
    unfolding CBB_add_asn1_def
  proof (rule flush_then [OF w])
    fix t st1 assume "cbb_closed fs = Some t" and w1: "writer (pre @ t) c [] st1" and "cbb_kept c (set (ids fs)) st st1"
    show "cbb_does malloc st1
      (let tag_bits = ucast (drop_bit CBS_ASN1_TAG_SHIFT tag) AND 0xE0 :: byte;
           tag_number = tag AND CBS_ASN1_TAG_NUMBER_MASK in
       and_then
         (if 0x1F \<le> tag_number then
            and_then (CBB_add_u8 malloc c (tag_bits OR 0x1F) st1) (\<lambda>_ st.
              add_base128_integer malloc c (ucast tag_number) st)
          else CBB_add_u8 malloc c (tag_bits OR ucast tag_number) st1)
         (\<lambda>_ st. Option.bind (buffer st) (\<lambda>b.
           let offset = b_len b in
           and_then (CBB_add_u8 malloc c 0 st) (\<lambda>_ st. Some (Some (), start_child c d offset 1 True st)))))
      True (length (pre @ t) + (length (der_tag tag) + 1))
      (\<lambda>y st''. writer (pre @ t @ der_tag tag) c [(d, None, [])] st'' \<and> cbb_kept c {d} st1 st'')"
      unfolding Let_def
    proof (rule does_then [OF does_weaken [OF add_tag_added [OF w1, unfolded Let_def]]])
      fix y st2 assume "added (pre @ t) c [] (der_tag tag) st1 st2"
      then have w2: "writer (pre @ t @ der_tag tag) c [] st2" and kp: "cbb_kept c {} st1 st2" by (simp_all add: added_def ids_def)
      show "cbb_does malloc st2 (Option.bind (buffer st2) (\<lambda>b. and_then (CBB_add_u8 malloc c 0 st2)
          (\<lambda>_ st. Some (Some (), start_child c d (b_len b) 1 True st)))) True (length (pre @ t) + (length (der_tag tag) + 1))
        (\<lambda>y st''. writer (pre @ t @ der_tag tag) c [(d, None, [])] st'' \<and> cbb_kept c {d} st1 st'')"
        using add_asn1_length_opens [OF w2 d, of malloc, unfolded Let_def]
        by (rule does_weaken) (use cbb_kept_trans [OF cbb_kept_mono [OF kp]] in auto)
    qed simp_all
  qed
  then show ?thesis by (simp add: open_child_def [abs_def])
qed

section \<open>A child and its parents\<close>

lemma linked_sub: "cbb_linked st c off (fs1 @ (d, k, bs) # fs2) \<Longrightarrow> cbb_linked st d (off + length (opened fs1) + plen k + length bs) fs2"
proof (induction fs1 arbitrary: c off)
  case (Cons f fs)
  obtain d' k' bs' where "f = (d', k', bs')" by (cases f)
  then show ?case using Cons.IH [of d' "off + plen k' + length bs'"] Cons.prems by (simp add: ac_simps)
qed simp

lemma opened_append: "opened (fs @ gs) = opened fs @ opened gs"
  by (induction fs rule: opened.induct) simp_all

lemma writer_sub:
  "writer pre c (fs1 @ (d, k, bs) # fs2) st \<Longrightarrow> writer (pre @ opened fs1 @ replicate (plen k) 0 @ bs) d fs2 st"
  using linked_sub [of st c "length pre" fs1 d k bs fs2] by (simp add: writer_def opened_append ids_def add.assoc)

lemma linked_super:
  assumes "cbb_linked st c off (fs1 @ (d, k, bs) # fs2)" "cbb_linked st' d (off + length (opened fs1) + plen k + length bs') fs2'"
    and "\<And>x. x \<in> set (c # ids fs1) \<Longrightarrow> cbbs st' x = cbbs st x"
    and "(cbbs st' d)\<lparr>cb_child := None\<rparr> = (cbbs st d)\<lparr>cb_child := None\<rparr>"
  shows "cbb_linked st' c off (fs1 @ (d, k, bs') # fs2')"
  using assms(1-3)
proof (induction fs1 arbitrary: c off)
  case Nil
  have "cb_offset (cbbs st' d) = cb_offset (cbbs st d)" "cb_pending_len_len (cbbs st' d) = cb_pending_len_len (cbbs st d)"
    "cb_pending_is_asn1 (cbbs st' d) = cb_pending_is_asn1 (cbbs st d)"
    using arg_cong [OF assms(4), of cb_offset] arg_cong [OF assms(4), of cb_pending_len_len]
      arg_cong [OF assms(4), of cb_pending_is_asn1] by simp_all
  then show ?case using Nil by (simp add: ids_def)
next
  case (Cons f fs)
  obtain d' k' b' where f: "f = (d', k', b')" by (cases f)
  have "cbb_linked st' d' (off + plen k' + length b') (fs @ (d, k, bs') # fs2')"
    using Cons.IH [of d' "off + plen k' + length b'"] Cons.prems f by (simp add: ac_simps ids_def)
  then show ?case using Cons.prems f by (simp add: ids_def)
qed

lemma writer_super:
  assumes w: "writer pre c (fs1 @ (d, k, bs) # fs2) st"
    and w': "writer (pre @ opened fs1 @ replicate (plen k) 0 @ bs') d fs2' st'"
    and kp: "cbb_kept d ds st st'" and ds: "ds \<inter> set (c # ids fs1) = {}" "set (ids fs2') \<inter> set (c # ids fs1) = {}"
  shows "writer pre c (fs1 @ (d, k, bs') # fs2') st'"
proof -
  have dist: "distinct (c # ids fs1)" "d \<notin> set (c # ids fs1)" using w by (auto simp: writer_def ids_def)
  have same: "cbbs st' x = cbbs st x" if "x \<in> set (c # ids fs1)" for x
    using that kp ds(1) dist(2) by (auto simp: cbb_kept_def)
  have "cbb_linked st' c (length pre) (fs1 @ (d, k, bs') # fs2')"
  proof (rule linked_super)
    show "cbb_linked st c (length pre) (fs1 @ (d, k, bs) # fs2)" using w by (simp add: writer_def)
    show "cbb_linked st' d (length pre + length (opened fs1) + plen k + length bs') fs2'"
      using w' by (simp add: writer_def add.assoc)
    show "(cbbs st' d)\<lparr>cb_child := None\<rparr> = (cbbs st d)\<lparr>cb_child := None\<rparr>" using kp by (simp add: cbb_kept_def)
  qed (rule same)
  moreover have "distinct (c # ids (fs1 @ (d, k, bs') # fs2'))"
    using dist ds(2) w' by (auto simp: writer_def ids_def)
  ultimately show ?thesis using w' by (simp add: writer_def opened_append)
qed

lemmas cbb_parent_of = writer_super [where ?fs1.0 = "[]" and ?fs2.0 = "[]" and fs2' = "[]", simplified]

section \<open>Elements\<close>

lemma and_then_assoc: "and_then (and_then r k) l = and_then r (\<lambda>x st. and_then (k x st) l)"
  by (auto simp: and_then_def split: Option.bind_splits option.splits)

text \<open>The bytes \<open>bs\<close> have been added to \<open>c\<close>, with the help of the child \<open>d\<close>, which is closed again.\<close>

definition added_by :: "cbb_id \<Rightarrow> byte list \<Rightarrow> cbb_id \<Rightarrow> cbb_frame list \<Rightarrow> byte list \<Rightarrow> cbb_state \<Rightarrow> cbb_state \<Rightarrow> bool" where
  "added_by d pre c fs bs st st' \<longleftrightarrow>
     (\<exists>t. cbb_closed fs = Some t \<and> writer (pre @ t @ bs) c [] st' \<and> cbb_kept c (insert d (set (ids fs))) st st')"

lemma closed_element: "cbb_closed [(d, None, bs)] = (if length bs \<le> 0xFFFFFFFE then Some (der_len (length bs) @ bs) else None)"
  by simp

lemma der_split: "der_tag tag @ der_len (length bs) @ bs = der tag bs"
  by (simp add: der_def der_header_def)

lemma element_added:
  assumes w: "writer pre c fs st" and d: "d \<noteq> c"
    and body: "\<And>xs st'. writer xs d [] st' \<Longrightarrow> cbb_does malloc st' (body st') True (length xs + length bs) (\<lambda>_. added xs d [] bs st')"
  shows "cbb_does malloc st
    (and_then (CBB_add_asn1 malloc c d tag st) (\<lambda>_ st. and_then (body st) (\<lambda>_ st. CBB_flush malloc c st)))
    (length bs \<le> 0xFFFFFFFE \<and> cbb_closed fs \<noteq> None) (total_length pre fs (der tag bs)) (\<lambda>_. added_by d pre c fs (der tag bs) st)"
    (is "cbb_does malloc st _ ?A ?N ?P")
proof (rule does_then)
  have "length (der_tag tag) + 1 \<le> length (der tag bs)" by (simp add: der_def der_header_def der_len_def)
  then show "cbb_does malloc st (CBB_add_asn1 malloc c d tag st) ?A ?N (\<lambda>_. open_child pre c fs (der_tag tag) d None st)"
    using add_asn1_opens [OF w d, of malloc tag] by (elim does_weaken) simp_all
next
  fix y st1 assume "open_child pre c fs (der_tag tag) d None st st1"
  then obtain t where t: "cbb_closed fs = Some t" and w1: "writer (pre @ t @ der_tag tag) c [(d, None, [])] st1"
    and k1: "cbb_kept c (insert d (set (ids fs))) st st1" by (auto simp: open_child_def)
  let ?p = "pre @ t @ der_tag tag"
  have wd: "writer (?p @ [0]) d [] st1" using writer_sub [of ?p c "[]" d None "[]" "[]" st1] w1 by simp
  show "cbb_does malloc st1 (and_then (body st1) (\<lambda>_ st. CBB_flush malloc c st)) ?A ?N ?P"
  proof (rule does_then)
    show "cbb_does malloc st1 (body st1) ?A ?N (\<lambda>_. added (?p @ [0]) d [] bs st1)"
      by (rule does_weaken [OF body [OF wd]]) (use t in \<open>simp_all add: der_def der_header_def der_len_def\<close>)
  next
    fix y st2 assume "added (?p @ [0]) d [] bs st1 st2"
    then have w2: "writer (?p @ [0] @ bs) d [] st2" and k2: "cbb_kept d {} st1 st2" by (simp_all add: added_def ids_def)
    have w3: "writer ?p c [(d, None, bs)] st2"
      by (rule cbb_parent_of [OF w1 _ k2]) (use w2 in \<open>simp_all add: ids_def\<close>)
    have k3: "cbb_kept c (insert d (set (ids fs))) st st2"
      using k1 k2 d by (auto simp: cbb_kept_def)
    show "cbb_does malloc st2 (CBB_flush malloc c st2) ?A ?N ?P"
    proof (rule does_weaken [OF flush_does [OF w3]])
      fix u st' assume "\<exists>t. cbb_closed [(d, None, bs)] = Some t \<and> writer (?p @ t) c [] st' \<and> cbb_kept c (set (ids [(d, None, bs)])) st2 st' \<and>
        (\<forall>d \<in> set (ids [(d, None, bs)]). \<not> cb_base (cbbs st' d))"
      then have "writer (?p @ der_len (length bs) @ bs) c [] st'" "cbb_kept c {d} st2 st'"
        by (auto simp: ids_def split: if_splits)
      then show "added_by d pre c fs (der tag bs) st st'"
        using t der_split [of tag bs] cbb_kept_trans [OF k3 cbb_kept_mono [of c "{d}" st2 st']] by (auto simp: added_by_def)
    next
      assume "cbb_closed [(d, None, bs)] \<noteq> None"
      then show "length ?p + length (the (cbb_closed [(d, None, bs)])) \<le> ?N"
        using t der_split [of tag bs, symmetric] by (auto split: if_splits)
    qed simp
  qed
qed

section \<open>Integers\<close>

definition pad_sign :: "byte list \<Rightarrow> byte list" where
  "pad_sign bs = (if bs \<noteq> [] \<and> negative_int bs then 0 # bs else bs)"

lemma added_Nil: "writer xs d [] st \<Longrightarrow> added xs d [] [] st st"
  by (simp add: added_def)

lemma added_refl: "writer xs d [] st \<Longrightarrow> cbb_does malloc st (Some (Some y, st)) A n (\<lambda>_. added xs d [] [] st)"
  by (auto intro!: does_return simp: added_Nil)

lemma uint64_started_added:
  "writer xs d [] st \<Longrightarrow>
     cbb_does malloc st (uint64_bytes malloc d bs True st) True (length xs + length bs) (\<lambda>s st'. s \<and> added xs d [] bs st st')"
proof (induction bs arbitrary: xs st)
  case Nil
  then show ?case by (auto intro!: does_return simp: added_Nil)
next
  case (Cons b bs)
  have "cbb_does malloc st (and_then (CBB_add_u8 malloc d b st) (\<lambda>_ st. uint64_bytes malloc d bs True st)) True (length xs + length (b # bs))
    (\<lambda>s st'. s \<and> added xs d [] (b # bs) st st')"
  proof (rule does_then [OF does_weaken [OF add_u8_leaf [OF Cons.prems]]])
    fix y st1 assume "added xs d [] [b] st st1"
    then have w: "writer (xs @ [b]) d [] st1" and kp: "cbb_kept d {} st st1" by (simp_all add: added_def ids_def)
    show "cbb_does malloc st1 (uint64_bytes malloc d bs True st1) True (length xs + length (b # bs)) (\<lambda>s st'. s \<and> added xs d [] (b # bs) st st')"
      by (rule does_weaken [OF Cons.IH [OF w]]) (use cbb_kept_trans [OF kp] in \<open>auto simp: added_def ids_def\<close>)
  qed simp_all
  then show ?case by simp
qed

lemma uint64_bytes_added:
  assumes w: "writer xs d [] st"
  defines "r \<equiv> \<lambda>bs. dropWhile (\<lambda>b. b = 0) bs"
  shows "cbb_does malloc st (uint64_bytes malloc d bs False st) True (length xs + length (pad_sign (r bs)))
    (\<lambda>s st'. s = (r bs \<noteq> []) \<and> added xs d [] (pad_sign (r bs)) st st')"
proof (induction bs)
  case Nil
  then show ?case using w by (auto intro!: does_return simp: added_Nil r_def pad_sign_def)
next
  case (Cons b bs)
  show ?case
  proof (cases "b = 0")
    case True
    then show ?thesis using Cons.IH by (simp add: r_def)
  next
    case False
    define z where "z = (if 128 \<le> unat b then [0] else [] :: byte list)"
    have rz: "r (b # bs) = b # bs" "pad_sign (b # bs) = z @ b # bs"
      using False by (auto simp: r_def z_def pad_sign_def negative_int_def)
    have "cbb_does malloc st (if b AND 0x80 \<noteq> 0 then CBB_add_u8 malloc d 0 st else Some (Some (), st)) True (length xs + length z)
      (\<lambda>_. added xs d [] z st)"
      using add_u8_leaf [OF w, of malloc 0] added_refl [OF w, of malloc "()" True "length xs"]
      by (simp add: z_def byte_high not_less)
    then have "cbb_does malloc st
      (and_then (if b AND 0x80 \<noteq> 0 then CBB_add_u8 malloc d 0 st else Some (Some (), st)) (\<lambda>_ st. uint64_bytes malloc d (b # bs) True st))
      True (length xs + length (z @ b # bs)) (\<lambda>s st'. s \<and> added xs d [] (z @ b # bs) st st')"
    proof (rule does_then [OF does_weaken])
      fix y st1 assume "added xs d [] z st st1"
      then have w1: "writer (xs @ z) d [] st1" and kp: "cbb_kept d {} st st1" by (simp_all add: added_def ids_def)
      show "cbb_does malloc st1 (uint64_bytes malloc d (b # bs) True st1) True (length xs + length (z @ b # bs))
        (\<lambda>s st'. s \<and> added xs d [] (z @ b # bs) st st')"
        by (rule does_weaken [OF uint64_started_added [OF w1]]) (use cbb_kept_trans [OF kp] in \<open>auto simp: added_def ids_def\<close>)
    qed simp_all
    then show ?thesis using False unfolding rz by (simp add: and_then_assoc split del: if_split)
  qed
qed

lemma dropWhile_be_bytes: "dropWhile (\<lambda>b. b = 0) bs = be_bytes (be_val bs)"
proof (induction bs)
  case (Cons b bs)
  show ?case
  proof (cases "b = 0")
    case True
    then show ?thesis using Cons.IH by (simp add: be_val_Cons)
  next
    case False
    then show ?thesis using be_bytes_be_val [of "b # bs"] by simp
  qed
qed simp

lemma be_val_be_n: "be_val (be_n n k) = k mod 256 ^ n"
proof (induction n arbitrary: k)
  case (Suc n)
  have "k mod 256 ^ Suc n = k div 256 mod 256 ^ n * 256 + k mod 256"
    using mod_mult2_eq [of k 256 "256 ^ n"] by (simp add: mult.commute)
  then show ?case using Suc.IH by (simp add: unat_of_nat)
qed simp

lemma be_n_map:
  "be_n n (unat v) = map (\<lambda>i. ucast (drop_bit (8 * (n - Suc i)) v)) [0..<n]" for v :: u64
proof (induction n arbitrary: v)
  case (Suc n)
  have d: "unat (drop_bit 8 v) = unat v div 256"
    using unsigned_less [of v, where ?'a = nat]
    by (simp only: unsigned_drop_bit_eq) (simp add: drop_bit_eq_div take_bit_nat_eq_self)
  have b: "(of_nat (unat v) :: byte) = ucast v"
    by (simp add: word_unat_eq_iff unsigned_ucast_eq unat_of_nat take_bit_eq_mod)
  have "be_n n (unat v div 256) = map (\<lambda>i. ucast (drop_bit (8 * (n - Suc i)) (drop_bit 8 v))) [0..<n]"
    using Suc.IH [of "drop_bit 8 v"] unfolding d .
  also have "\<dots> = map (\<lambda>i. ucast (drop_bit (8 * (Suc n - Suc i)) v)) [0..<n]"
    by (rule map_cong) (auto simp: Suc_diff_Suc [symmetric] ac_simps)
  finally show ?case using b by simp
qed simp

lemma uint_contents_pad: "uint_contents n = (if n = 0 then [0] else pad_sign (be_bytes n))"
  by (simp add: uint_contents_def pad_sign_def)

lemma uint64_added:
  fixes v :: u64
  assumes w: "writer pre c fs st" and d: "d \<noteq> c"
  defines "ct \<equiv> uint_contents (unat v)"
  shows "cbb_does malloc st (CBB_add_asn1_uint64 malloc d c v st) (cbb_closed fs \<noteq> None)
    (total_length pre fs (der CBS_ASN1_INTEGER ct)) (\<lambda>_. added_by d pre c fs (der CBS_ASN1_INTEGER ct) st)"
proof -
  let ?bs = "map (\<lambda>i. ucast (drop_bit (8 * (7 - i)) v)) [0..<8] :: byte list"
  let ?body = "\<lambda>st. and_then (uint64_bytes malloc d ?bs False st) (\<lambda>started st.
    if \<not> started then CBB_add_u8 malloc d 0 st else Some (Some (), st))"
  have bs: "?bs = be_n 8 (unat v)" using be_n_map [of 8 v] by simp
  have "unat v < 2 ^ 64" using unsigned_less [of v, where ?'a = nat] by simp
  then have val: "be_val ?bs = unat v" unfolding bs be_val_be_n by simp
  have drop: "dropWhile (\<lambda>b. b = 0) ?bs = be_bytes (unat v)" unfolding dropWhile_be_bytes val ..
  have "length ct \<le> 9"
    unfolding ct_def using \<open>unat v < 2 ^ 64\<close> length_uint_contents [of "unat v" 8] by simp
  have body: "cbb_does malloc st' (?body st') True (length xs + length ct) (\<lambda>_. added xs d [] ct st')" if wd: "writer xs d [] st'" for xs st'
  proof -
    note ub = uint64_bytes_added [OF wd, of malloc ?bs, unfolded drop]
    show ?thesis
    proof (cases "unat v = 0")
      case True
      then have ct: "ct = [0]" by (simp add: ct_def uint_contents_pad)
      note ub = ub [unfolded True be_bytes_0]
      show ?thesis
        unfolding ct
      proof (rule does_then [OF does_weaken [OF ub]])
        fix s st1 assume "s = (([] :: byte list) \<noteq> []) \<and> added xs d [] (pad_sign []) st' st1"
        then have "\<not> s" and w1: "writer xs d [] st1" and kp: "cbb_kept d {} st' st1"
          by (simp_all add: added_def ids_def pad_sign_def)
        then show "cbb_does malloc st1 (if \<not> s then CBB_add_u8 malloc d 0 st1 else Some (Some (), st1)) True
          (length xs + length [0 :: byte]) (\<lambda>_. added xs d [] [0] st')"
          using add_u8_leaf [OF w1, of malloc 0] cbb_kept_trans [OF kp]
          by (auto elim!: does_weaken simp: added_def ids_def)
      qed (simp_all add: pad_sign_def)
    next
      case False
      then have ct: "ct = pad_sign (be_bytes (unat v))" by (simp add: ct_def uint_contents_pad)
      show ?thesis
        unfolding ct
      proof (rule does_then [OF ub])
        fix s st1 assume "s = (be_bytes (unat v) \<noteq> []) \<and> added xs d [] (pad_sign (be_bytes (unat v))) st' st1"
        then show "cbb_does malloc st1 (if \<not> s then CBB_add_u8 malloc d 0 st1 else Some (Some (), st1)) True
          (length xs + length (pad_sign (be_bytes (unat v)))) (\<lambda>_. added xs d [] (pad_sign (be_bytes (unat v))) st')"
          using False by (auto intro!: does_return)
      qed
    qed
  qed
  have "CBB_add_asn1_uint64 malloc d c v st =
    and_then (CBB_add_asn1 malloc c d CBS_ASN1_INTEGER st) (\<lambda>_ st. and_then (?body st) (\<lambda>_ st. CBB_flush malloc c st))"
    by (simp only: CBB_add_asn1_uint64_def and_then_assoc)
  then show ?thesis
    using element_added [OF w d body, of CBS_ASN1_INTEGER] \<open>length ct \<le> 9\<close> by simp
qed

lemma add_all_added:
  "writer xs d [] st \<Longrightarrow> cbb_does malloc st (add_all malloc d bs st) True (length xs + length bs) (\<lambda>_. added xs d [] bs st)"
proof (induction bs arbitrary: xs st)
  case Nil
  then show ?case by (auto intro!: does_return simp: added_Nil)
next
  case (Cons b bs)
  have "cbb_does malloc st (and_then (CBB_add_u8 malloc d b st) (\<lambda>_ st. add_all malloc d bs st)) True (length xs + length (b # bs))
    (\<lambda>_. added xs d [] ([b] @ bs) st)"
    by (rule added_then [OF add_u8_leaf [OF Cons.prems] Cons.IH]) simp_all
  then show ?case by simp
qed

text \<open>Without the sign extension that two's complement contents do not need.\<close>

fun strip_sign :: "byte list \<Rightarrow> byte list" where
  "strip_sign (a # b # r) = (if a = 0xFF \<and> 128 \<le> unat b then strip_sign (b # r) else a # b # r)"
| "strip_sign bs = bs"

lemma strip_sign_start:
  "i < length bytes \<Longrightarrow> rev (take (Suc (sign_start bytes i)) bytes) = strip_sign (rev (take (Suc i) bytes))"
proof (induction i)
  case 0
  then show ?case by (cases bytes) simp_all
next
  case (Suc i)
  have "take (Suc (Suc i)) bytes = take (Suc i) bytes @ [bytes ! Suc i]" "take (Suc i) bytes = take i bytes @ [bytes ! i]"
    using Suc.prems by (simp_all add: take_Suc_conv_app_nth)
  then have r: "rev (take (Suc (Suc i)) bytes) = bytes ! Suc i # bytes ! i # rev (take i bytes)"
    "rev (take (Suc i) bytes) = bytes ! i # rev (take i bytes)" by simp_all
  show ?case
  proof (cases "bytes ! Suc i = 0xFF \<and> 128 \<le> unat (bytes ! i)")
    case True
    then have "sign_start bytes (Suc i) = sign_start bytes i" by (simp add: byte_high)
    then show ?thesis using Suc.IH Suc.prems True unfolding r by simp
  next
    case False
    then have "sign_start bytes (Suc i) = Suc i" by (auto simp: byte_high)
    then show ?thesis unfolding r(1) using False by (auto simp: r(1))
  qed
qed

lemma unat_ff: "unat (0xFF :: byte) = 255"
  by code_simp

lemma strip_sign_minimal:
  "bs \<noteq> [] \<Longrightarrow> negative_int bs \<Longrightarrow>
     minimal_int (strip_sign bs) \<and> int_value (strip_sign bs) = int_value bs \<and> length (strip_sign bs) \<le> length bs"
proof (induction bs rule: strip_sign.induct)
  case (1 a b r)
  show ?case
  proof (cases "a = 0xFF \<and> 128 \<le> unat b")
    case True
    then have "unat a = 255" "128 \<le> unat b" by (simp_all only: unat_ff)
    then have "int_value (a # b # r) = int_value (b # r)"
      by (simp add: int_value_def negative_int_def be_val_Cons [of a] algebra_simps)
    then show ?thesis using 1 True by (auto simp: negative_int_def)
  next
    case False
    then show ?thesis using 1(3) by (auto simp: minimal_int_def negative_int_def)
  qed
qed (simp_all add: minimal_int_def)

lemma negative_int_iff: "negative_int (a # r) \<longleftrightarrow> 128 * 256 ^ length r \<le> be_val (a # r)"
proof
  assume "negative_int (a # r)"
  then have "128 * 256 ^ length r \<le> unat a * 256 ^ length r" by (intro mult_right_mono) (simp_all add: negative_int_def)
  then show "128 * 256 ^ length r \<le> be_val (a # r)" unfolding be_val_Cons by (rule trans_le_add1)
next
  assume "128 * 256 ^ length r \<le> be_val (a # r)"
  then have "128 * 256 ^ length r < (unat a + 1) * 256 ^ length r"
    using be_val_less [of r] unfolding be_val_Cons add_mult_distrib by linarith
  then have "128 < unat a + 1" by (simp only: mult_less_cancel2)
  then show "negative_int (a # r)" by (simp add: negative_int_def)
qed

definition int_contents :: "u64 \<Rightarrow> byte list" where
  "int_contents v = (if 0 \<le> sint v then uint_contents (unat v) else strip_sign (be_n 8 (unat v)))"

lemma length_uint_contents_8:
  assumes "n < 2 ^ 63"
  shows "length (uint_contents n) \<le> 8"
proof -
  have len: "length (be_bytes n) \<le> 8" using assms by (intro length_be_bytes) simp
  show ?thesis
  proof (cases "length (be_bytes n) = 8")
    case True
    then obtain a r where ar: "be_bytes n = a # r" "length r = 7" by (cases "be_bytes n") auto
    have "\<not> negative_int (a # r)"
      using assms be_val_be_bytes [of n] unfolding negative_int_iff ar by simp
    then show ?thesis using True ar by (simp add: uint_contents_def)
  next
    case False
    then show ?thesis using len by (simp add: uint_contents_def)
  qed
qed

lemma int_contents_ok:
  "minimal_int (int_contents v) \<and> length (int_contents v) \<le> 8 \<and> int_value (int_contents v) = sint v"
proof (cases "0 \<le> sint v")
  case True
  have "unat v < 2 ^ 63"
  proof (rule ccontr)
    assume no: "\<not> unat v < 2 ^ 63"
    then have "sint v = int (unat v) - 2 ^ 64" by (simp only: sint_unat if_False)
    moreover have "int (unat v) < 2 ^ 64" using unsigned_less [of v, where ?'a = int] by simp
    ultimately show False using True by linarith
  qed
  moreover from this have "int_value (uint_contents (unat v)) = sint v"
    using uint_contents_minimal(2) by (simp only: int_value_def be_val_uint_contents if_False sint_unat) simp
  ultimately show ?thesis
    using True uint_contents_minimal(1) length_uint_contents_8 by (simp add: int_contents_def)
next
  case False
  have v: "unat v < 2 ^ 64" using unsigned_less [of v, where ?'a = nat] by simp
  have ge: "\<not> unat v < 2 ^ 63"
  proof
    assume "unat v < 2 ^ 63"
    then have "sint v = int (unat v)" by (simp only: sint_unat if_True)
    then show False using False by simp
  qed
  let ?bs = "be_n 8 (unat v)"
  have val: "be_val ?bs = unat v" using v by (simp add: be_val_be_n)
  have "length ?bs = 8" by simp
  then obtain a r where ar: "?bs = a # r" "length r = 7" by (cases ?bs) auto
  have neg: "negative_int ?bs" using ge val ar unfolding ar negative_int_iff by simp
  have "int_value ?bs = sint v" using neg ge by (simp only: int_value_def val sint_unat if_True if_False length_be_n) simp
  moreover have "?bs \<noteq> []" using ar by simp
  ultimately show ?thesis using False strip_sign_minimal [OF _ neg] by (auto simp: int_contents_def)
qed

lemma le_bytes_be: "rev (le_bytes 8 v) = be_n 8 (unat v)" for v :: u64
proof (rule nth_equalityI)
  fix i assume "i < length (rev (le_bytes 8 v))"
  then show "rev (le_bytes 8 v) ! i = be_n 8 (unat v) ! i"
    unfolding be_n_map using nth_upt [of 0 "7 - i" 8] by (simp add: le_bytes_def rev_nth)
qed (simp add: le_bytes_def)

lemma int64_added:
  fixes v :: u64
  assumes w: "writer pre c fs st" and d: "d \<noteq> c"
  shows "cbb_does malloc st (CBB_add_asn1_int64 malloc d c v st) (cbb_closed fs \<noteq> None)
    (total_length pre fs (der CBS_ASN1_INTEGER (int_contents v)))
    (\<lambda>_. added_by d pre c fs (der CBS_ASN1_INTEGER (int_contents v)) st)"
proof (cases "0 \<le> sint v")
  case True
  then show ?thesis using uint64_added [OF w d, of malloc v] by (simp add: CBB_add_asn1_int64_def int_contents_def)
next
  case False
  let ?ct = "rev (take (Suc (sign_start (le_bytes 8 v) 7)) (le_bytes 8 v))"
  have len: "length (le_bytes 8 v) = 8" by (simp add: le_bytes_def)
  have "take 8 (le_bytes 8 v) = le_bytes 8 v" using len by simp
  then have ct: "?ct = int_contents v"
    using strip_sign_start [of 7 "le_bytes 8 v"] len False le_bytes_be [of v] by (simp add: int_contents_def)
  have "length ?ct \<le> 0xFFFFFFFE" unfolding ct using int_contents_ok [of v] by linarith
  then show ?thesis
    using False element_added [OF w d add_all_added, where bs = "int_contents v" and tag = CBS_ASN1_INTEGER] ct
    by (simp add: CBB_add_asn1_int64_def Let_def)
qed

lemma added_by_ex:
  "added_by d pre c fs ys st st' \<Longrightarrow> P ys \<Longrightarrow> \<exists>t ys. cbb_closed fs = Some t \<and> writer (pre @ t @ ys) c [] st' \<and> P ys"
  unfolding added_by_def by blast

text \<open>
  C23: the DER integers round trip. Whatever the state of the builder, \<open>CBB_add_asn1_uint64\<close> and
  \<open>CBB_add_asn1_int64\<close> return; where the open children can be closed and there is room, they succeed,
  and then the bytes they add are read back by \<open>CBS_get_asn1_uint64\<close> and \<open>CBS_get_asn1_int64\<close> to the
  same value, with what comes behind them left over.
\<close>

theorem asn1_integers_roundtrip:
  fixes v :: u64
  assumes "writer pre c fs st" "d \<noteq> c"
  shows "cbb_does malloc st (CBB_add_asn1_uint64 malloc d c v st) (cbb_closed fs \<noteq> None) (length pre + length (the (cbb_closed fs)) + 11)
      (\<lambda>_ st'. \<exists>t ys. cbb_closed fs = Some t \<and> writer (pre @ t @ ys) c [] st' \<and>
         (\<forall>m cbs r. view m cbs = ys @ r \<longrightarrow> CBS_get_asn1_uint64 m cbs = (Some v, adv (length ys) cbs))) \<and>
    cbb_does malloc st (CBB_add_asn1_int64 malloc d c v st) (cbb_closed fs \<noteq> None) (length pre + length (the (cbb_closed fs)) + 10)
      (\<lambda>_ st'. \<exists>t ys. cbb_closed fs = Some t \<and> writer (pre @ t @ ys) c [] st' \<and>
         (\<forall>m cbs r. view m cbs = ys @ r \<longrightarrow> CBS_get_asn1_int64 m cbs = (Some v, adv (length ys) cbs)))"
proof (rule conjI)
  have v: "unat v < 2 ^ 64" using unsigned_less [of v, where ?'a = nat] by simp
  have len: "length (der CBS_ASN1_INTEGER bs) = length bs + 2" if "length bs < 128" for bs
    using that by (simp add: der_def der_header_def der_tag_def der_len_def tag_number_def)
  let ?u = "uint_contents (unat v)" and ?i = "int_contents v"
  have lu: "length ?u \<le> 9" using v length_uint_contents [of "unat v" 8] by simp
  have "\<forall>m cbs r. view m cbs = der CBS_ASN1_INTEGER ?u @ r \<longrightarrow>
      CBS_get_asn1_uint64 m cbs = (Some v, adv (length (der CBS_ASN1_INTEGER ?u)) cbs)"
    using asn1_uint64_iff by blast
  then show "cbb_does malloc st (CBB_add_asn1_uint64 malloc d c v st) (cbb_closed fs \<noteq> None) (length pre + length (the (cbb_closed fs)) + 11)
      (\<lambda>_ st'. \<exists>t ys. cbb_closed fs = Some t \<and> writer (pre @ t @ ys) c [] st' \<and>
         (\<forall>m cbs r. view m cbs = ys @ r \<longrightarrow> CBS_get_asn1_uint64 m cbs = (Some v, adv (length ys) cbs)))"
    using lu len [of ?u] by (intro does_weaken [OF uint64_added [OF assms]] added_by_ex) auto
  have "\<forall>m cbs r. view m cbs = der CBS_ASN1_INTEGER ?i @ r \<longrightarrow>
      CBS_get_asn1_int64 m cbs = (Some v, adv (length (der CBS_ASN1_INTEGER ?i)) cbs)"
    using asn1_int64_iff int_contents_ok by blast
  then show "cbb_does malloc st (CBB_add_asn1_int64 malloc d c v st) (cbb_closed fs \<noteq> None) (length pre + length (the (cbb_closed fs)) + 10)
      (\<lambda>_ st'. \<exists>t ys. cbb_closed fs = Some t \<and> writer (pre @ t @ ys) c [] st' \<and>
         (\<forall>m cbs r. view m cbs = ys @ r \<longrightarrow> CBS_get_asn1_int64 m cbs = (Some v, adv (length ys) cbs)))"
    using int_contents_ok [of v] len [of ?i] by (intro does_weaken [OF int64_added [OF assms]] added_by_ex) auto
qed

section \<open>The tree\<close>

lemma step_in_tree:
  assumes w: "writer pre c (fs1 @ (d, k, bs) # fs2) st" and ds: "ds \<inter> set (c # ids fs1) = {}"
    and ids: "set (ids gs) \<inter> set (c # ids fs1) = {}"
    and r: "writer (pre @ opened fs1 @ replicate (plen k) 0 @ bs) d fs2 st \<Longrightarrow>
      cbb_does malloc st r A (length (pre @ opened fs1 @ replicate (plen k) 0 @ bs) + n)
        (\<lambda>_ st'. \<exists>t. cbb_closed fs2 = Some t \<and>
           writer ((pre @ opened fs1 @ replicate (plen k) 0 @ bs) @ t @ xs) d gs st' \<and> cbb_kept d (ds \<union> set (ids fs2)) st st')"
  shows "cbb_does malloc st r A (length pre + length (opened fs1) + plen k + length bs + n)
    (\<lambda>_ st'. \<exists>t. cbb_closed fs2 = Some t \<and> writer pre c (fs1 @ (d, k, bs @ t @ xs) # gs) st')"
proof (rule does_weaken [OF r [OF writer_sub [OF w]]])
  have "set (ids fs2) \<inter> set (c # ids fs1) = {}" using w by (auto simp: writer_def ids_def)
  then have ds': "(ds \<union> set (ids fs2)) \<inter> set (c # ids fs1) = {}" using ds by auto
  fix y st'
  assume "\<exists>t. cbb_closed fs2 = Some t \<and> writer ((pre @ opened fs1 @ replicate (plen k) 0 @ bs) @ t @ xs) d gs st' \<and>
    cbb_kept d (ds \<union> set (ids fs2)) st st'"
  then obtain t where t: "cbb_closed fs2 = Some t" "writer (pre @ opened fs1 @ replicate (plen k) 0 @ (bs @ t @ xs)) d gs st'"
    "cbb_kept d (ds \<union> set (ids fs2)) st st'" by auto
  show "\<exists>t. cbb_closed fs2 = Some t \<and> writer pre c (fs1 @ (d, k, bs @ t @ xs) # gs) st'"
    using t(1) writer_super [OF w t(2,3) ds' ids] by blast
qed simp_all

lemma tree_flush:
  assumes w: "writer pre c (fs1 @ (d, k, bs) # fs2) st"
  shows "cbb_does malloc st (CBB_flush malloc d st) (cbb_closed fs2 \<noteq> None)
    (length pre + length (opened fs1) + plen k + length bs + (length (the (cbb_closed fs2)) + 0))
    (\<lambda>_ st'. \<exists>t. cbb_closed fs2 = Some t \<and> writer pre c (fs1 @ (d, k, bs @ t @ []) # []) st')"
proof (rule step_in_tree [OF w, where ds = "{}"])
  let ?p = "pre @ opened fs1 @ replicate (plen k) 0 @ bs"
  assume wd: "writer ?p d fs2 st"
  show "cbb_does malloc st (CBB_flush malloc d st) (cbb_closed fs2 \<noteq> None)
    (length ?p + (length (the (cbb_closed fs2)) + 0))
    (\<lambda>_ st'. \<exists>t. cbb_closed fs2 = Some t \<and> writer (?p @ t @ []) d [] st' \<and> cbb_kept d ({} \<union> set (ids fs2)) st st')"
    by (rule does_weaken [OF flush_does [OF wd]]) (auto simp: ids_def)
qed (use w in \<open>auto simp: ids_def\<close>)

lemma tree_bytes:
  assumes w: "writer pre c (fs1 @ (d, k, bs) # fs2) st" and data: "length data < 2 ^ 64"
  shows "cbb_does malloc st (CBB_add_bytes malloc d data st) (cbb_closed fs2 \<noteq> None)
    (length pre + length (opened fs1) + plen k + length bs + (length (the (cbb_closed fs2)) + length data))
    (\<lambda>_ st'. \<exists>t. cbb_closed fs2 = Some t \<and> writer pre c (fs1 @ (d, k, bs @ t @ data) # []) st')"
proof (rule step_in_tree [OF w, where ds = "{}"])
  let ?p = "pre @ opened fs1 @ replicate (plen k) 0 @ bs"
  assume wd: "writer ?p d fs2 st"
  show "cbb_does malloc st (CBB_add_bytes malloc d data st) (cbb_closed fs2 \<noteq> None)
    (length ?p + (length (the (cbb_closed fs2)) + length data))
    (\<lambda>_ st'. \<exists>t. cbb_closed fs2 = Some t \<and> writer (?p @ t @ data) d [] st' \<and> cbb_kept d ({} \<union> set (ids fs2)) st st')"
    by (rule does_weaken [OF add_bytes_added [OF wd data]]) (auto simp: added_def ids_def)
qed (use w in \<open>auto simp: ids_def\<close>)

lemma tree_u:
  assumes w: "writer pre c (fs1 @ (d, k, bs) # fs2) st" and l: "0 < l" "l < 256"
  shows "cbb_does malloc st (cbb_add_u malloc d v (of_nat l) st) (unat v < 256 ^ l \<and> cbb_closed fs2 \<noteq> None)
    (length pre + length (opened fs1) + plen k + length bs + (length (the (cbb_closed fs2)) + l))
    (\<lambda>_ st'. \<exists>t. cbb_closed fs2 = Some t \<and> writer pre c (fs1 @ (d, k, bs @ t @ be_n l (unat v)) # []) st')"
proof (rule step_in_tree [OF w, where ds = "{}"])
  let ?p = "pre @ opened fs1 @ replicate (plen k) 0 @ bs"
  assume wd: "writer ?p d fs2 st"
  show "cbb_does malloc st (cbb_add_u malloc d v (of_nat l) st) (unat v < 256 ^ l \<and> cbb_closed fs2 \<noteq> None)
    (length ?p + (length (the (cbb_closed fs2)) + l))
    (\<lambda>_ st'. \<exists>t. cbb_closed fs2 = Some t \<and> writer (?p @ t @ be_n l (unat v)) d [] st' \<and> cbb_kept d ({} \<union> set (ids fs2)) st st')"
    by (rule does_weaken [OF add_u_added [OF wd l]]) (auto simp: added_def ids_def)
qed (use w in \<open>auto simp: ids_def\<close>)

lemma tree_prefixed:
  assumes w: "writer pre c (fs1 @ (d, k, bs) # fs2) st" and l: "0 < l" "l < 256" and e: "e \<notin> set (c # d # ids fs1)"
  shows "cbb_does malloc st (cbb_add_length_prefixed malloc d e (of_nat l) st) (cbb_closed fs2 \<noteq> None)
    (length pre + length (opened fs1) + plen k + length bs + (length (the (cbb_closed fs2)) + l))
    (\<lambda>_ st'. \<exists>t. cbb_closed fs2 = Some t \<and> writer pre c (fs1 @ (d, k, bs @ t @ []) # [(e, Some l, [])]) st')"
proof (rule step_in_tree [OF w, where ds = "{e}"])
  let ?p = "pre @ opened fs1 @ replicate (plen k) 0 @ bs"
  assume wd: "writer ?p d fs2 st"
  have e': "e \<noteq> d" using e by simp
  show "cbb_does malloc st (cbb_add_length_prefixed malloc d e (of_nat l) st) (cbb_closed fs2 \<noteq> None)
    (length ?p + (length (the (cbb_closed fs2)) + l))
    (\<lambda>_ st'. \<exists>t. cbb_closed fs2 = Some t \<and> writer (?p @ t @ []) d [(e, Some l, [])] st' \<and> cbb_kept d ({e} \<union> set (ids fs2)) st st')"
    by (rule does_weaken [OF add_length_prefixed_opens [OF wd l e']]) (auto simp: open_child_def ids_def)
qed (use w e in \<open>auto simp: ids_def\<close>)

lemma tree_asn1:
  assumes w: "writer pre c (fs1 @ (d, k, bs) # fs2) st" and e: "e \<notin> set (c # d # ids fs1)"
  shows "cbb_does malloc st (CBB_add_asn1 malloc d e tag st) (cbb_closed fs2 \<noteq> None)
    (length pre + length (opened fs1) + plen k + length bs + (length (the (cbb_closed fs2)) + (length (der_tag tag) + 1)))
    (\<lambda>_ st'. \<exists>t. cbb_closed fs2 = Some t \<and> writer pre c (fs1 @ (d, k, bs @ t @ der_tag tag) # [(e, None, [])]) st')"
proof (rule step_in_tree [OF w, where ds = "{e}"])
  let ?p = "pre @ opened fs1 @ replicate (plen k) 0 @ bs"
  assume wd: "writer ?p d fs2 st"
  have e': "e \<noteq> d" using e by simp
  show "cbb_does malloc st (CBB_add_asn1 malloc d e tag st) (cbb_closed fs2 \<noteq> None)
    (length ?p + (length (the (cbb_closed fs2)) + (length (der_tag tag) + 1)))
    (\<lambda>_ st'. \<exists>t. cbb_closed fs2 = Some t \<and> writer (?p @ t @ der_tag tag) d [(e, None, [])] st' \<and> cbb_kept d ({e} \<union> set (ids fs2)) st st')"
    by (rule does_weaken [OF add_asn1_opens [OF wd e']]) (auto simp: open_child_def ids_def)
qed (use w e in \<open>auto simp: ids_def\<close>)

text \<open>
  C22: the builder refines a stack of open prefixes. In a tree with open children, an operation on any
  of them first closes the children below it: their lengths and contents, \<open>t\<close>, become part of its own
  bytes. What the operation adds comes behind them, and the state is again a tree, whose parents are
  as they were: \<open>CBB_add_bytes\<close> and the integers add bytes, \<open>CBB_add_*_length_prefixed\<close> and
  \<open>CBB_add_asn1\<close> a new open child. Each call returns, and it fails only where a length below it does not
  fit its prefix, where the value does not fit the width, or where there is no room.
\<close>

theorem cbb_refines_stack:
  assumes w: "writer pre c (fs1 @ (d, k, bs) # fs2) st" and e: "e \<notin> set (c # d # ids fs1)"
    and data: "length data < 2 ^ 64" and l: "0 < l" "l < 256"
  defines "n \<equiv> length pre + length (opened fs1) + plen k + length bs + length (the (cbb_closed fs2))"
  shows "cbb_does malloc st (CBB_flush malloc d st) (cbb_closed fs2 \<noteq> None) n
      (\<lambda>_ st'. \<exists>t. cbb_closed fs2 = Some t \<and> writer pre c (fs1 @ [(d, k, bs @ t)]) st') \<and>
    cbb_does malloc st (CBB_add_bytes malloc d data st) (cbb_closed fs2 \<noteq> None) (n + length data)
      (\<lambda>_ st'. \<exists>t. cbb_closed fs2 = Some t \<and> writer pre c (fs1 @ [(d, k, bs @ t @ data)]) st') \<and>
    cbb_does malloc st (cbb_add_u malloc d v (of_nat l) st) (unat v < 256 ^ l \<and> cbb_closed fs2 \<noteq> None) (n + l)
      (\<lambda>_ st'. \<exists>t. cbb_closed fs2 = Some t \<and> writer pre c (fs1 @ [(d, k, bs @ t @ be_n l (unat v))]) st') \<and>
    cbb_does malloc st (cbb_add_length_prefixed malloc d e (of_nat l) st) (cbb_closed fs2 \<noteq> None) (n + l)
      (\<lambda>_ st'. \<exists>t. cbb_closed fs2 = Some t \<and> writer pre c (fs1 @ [(d, k, bs @ t), (e, Some l, [])]) st') \<and>
    cbb_does malloc st (CBB_add_asn1 malloc d e tag st) (cbb_closed fs2 \<noteq> None) (n + length (der_tag tag) + 1)
      (\<lambda>_ st'. \<exists>t. cbb_closed fs2 = Some t \<and> writer pre c (fs1 @ [(d, k, bs @ t @ der_tag tag), (e, None, [])]) st')"
  unfolding n_def
  using tree_flush [OF w, of malloc] tree_bytes [OF w data, of malloc] tree_u [OF w l, of malloc v]
    tree_prefixed [OF w l e, of malloc] tree_asn1 [OF w e, of malloc tag]
  by (simp add: add.assoc)

section \<open>From the start to the end\<close>

lemma init_writer:
  assumes "CBB_init malloc c cap st = Some (Some (), st')"
  shows "writer [] c [] st'" "\<not> cb_is_child (cbbs st' c)"
proof -
  obtain buf k where m: "OPENSSL_malloc malloc cap (mallocs st) = (buf, k)" by fastforce
  have "buf = Some xs \<Longrightarrow> length xs = unat cap" for xs
    using m by (auto simp: OPENSSL_malloc_def split: if_splits)
  moreover have "buf = None \<Longrightarrow> cap = 0"
    using assms m by (auto simp: CBB_init_def CBB_zero_def upd_cbb_def Let_def word_gt_0 split: if_splits)
  ultimately have "length (case buf of None \<Rightarrow> [] | Some xs \<Rightarrow> xs) = unat cap" by (auto split: option.splits)
  then show "writer [] c [] st'" "\<not> cb_is_child (cbbs st' c)"
    using assms m
    by (auto simp: CBB_init_def cbb_init_def CBB_zero_def upd_cbb_def set_buffer_def zero_cbb_def Let_def writer_Nil holds_def
        cbb_bytes_def split: prod.splits option.splits if_splits)
qed

text \<open>
  C24: \<open>CBB_finish\<close> on a builder with open children. Where the children can be closed and there is
  room, it succeeds: it hands out the buffer with the length of what was added, all prefixes written,
  and the builder no longer refers to it. Where a length does not fit its prefix it fails and leaves
  the error in the buffer.
\<close>

theorem cbb_finish_contents:
  assumes w: "writer pre c fs st" and root: "\<not> cb_is_child (cbbs st c)"
  shows "(\<forall>t. cbb_closed fs = Some t \<and> cbb_fits malloc st (length (pre @ t)) \<longrightarrow>
      (\<exists>buf st'. CBB_finish malloc c True True st = Some (Some (buf, of_nat (length (pre @ t))), st') \<and>
         take (length (pre @ t)) (case buf of None \<Rightarrow> [] | Some xs \<Rightarrow> xs) = pre @ t \<and>
         buffer st' = None \<and> \<not> cb_base (cbbs st' c))) \<and>
    (cbb_closed fs = None \<longrightarrow> (\<exists>st'. CBB_finish malloc c True True st = Some (None, st') \<and> failed st'))"
proof -
  obtain r st1 where r: "CBB_flush malloc c st = Some (r, st1)"
    and cases: "case r of None \<Rightarrow> failed st1 \<and> \<not> (cbb_closed fs \<noteq> None \<and> cbb_fits malloc st (length pre + length (the (cbb_closed fs))))
      | Some y \<Rightarrow> \<exists>t. cbb_closed fs = Some t \<and> writer (pre @ t) c [] st1 \<and> cbb_kept c (set (ids fs)) st st1 \<and>
         (\<forall>d \<in> set (ids fs). \<not> cb_base (cbbs st1 d))"
    using flush_does [OF w, of malloc] unfolding cbb_does_def by blast
  show ?thesis
  proof (cases r)
    case None
    then show ?thesis using r cases root by (auto simp: CBB_finish_def)
  next
    case (Some y)
    then obtain t where t: "cbb_closed fs = Some t" "writer (pre @ t) c [] st1" "cbb_kept c (set (ids fs)) st st1" using cases by auto
    have h: "holds (pre @ t) st1" "cb_base (cbbs st1 c)" using t(2) by (simp_all add: writer_Nil)
    obtain b where b: "buffer st1 = Some b" "b_len b = of_nat (length (pre @ t))"
      "take (length (pre @ t)) (cbb_bytes b) = pre @ t"
      using h(1) by (rule holdsE)
    have "cb_is_child (cbbs st1 c) = cb_is_child (cbbs st c)"
      using arg_cong [of _ _ cb_is_child, OF conjunct1 [OF t(3) [unfolded cbb_kept_def]]] by simp
    then show ?thesis
      using r Some root t(1) b h(2)
      by (simp add: CBB_finish_def CBB_cleanup_def set_buffer_def upd_cbb_def cbb_bytes_def)
  qed
qed

section \<open>A tree to look at\<close>

definition no_heap :: allocator where
  "no_heap k n = None"

text \<open>A fixed buffer of 16 bytes: the root 0 has the byte 0x30, its child 1 a length of one byte and the byte 0x61.\<close>

definition tree0 :: cbb_state where
  "tree0 = \<lparr>cbbs = (\<lambda>_. zero_cbb)(0 := zero_cbb\<lparr>cb_base := True, cb_child := Some 1\<rparr>,
       1 := zero_cbb\<lparr>cb_base := True, cb_offset := 1, cb_pending_len_len := 1, cb_is_child := True\<rparr>),
     buffer = Some \<lparr>b_buf = Some (0x30 # 0 # 0x61 # replicate 13 0xEE), b_len = 3, b_cap = 16,
       b_can_resize = False, b_error = False\<rparr>, mallocs = 0\<rparr>"

lemma tree0_holds: "holds [0x30, 0, 0x61] tree0"
  by (simp add: holds_def tree0_def cbb_bytes_def)

lemma tree0_writer: "writer [0x30] 0 ([] @ (1, Some 1, [0x61]) # []) tree0"
  unfolding writer_def using tree0_holds by (simp add: ids_def) (simp add: tree0_def zero_cbb_def)

lemma tree0_fits: "n \<le> 16 \<Longrightarrow> cbb_fits malloc tree0 n"
  by (simp add: cbb_fits_def tree0_def)

lemma cbb_refines_stack_witness:
  "cbb_does no_heap tree0 (CBB_add_bytes no_heap 1 [0x62] tree0) True 4
     (\<lambda>_ st'. writer [0x30] 0 [(1, Some 1, [0x61, 0x62])] st') \<and> cbb_fits no_heap tree0 4"
proof -
  let ?n = "length [0x30 :: byte] + length (opened []) + plen (Some 1) + length [0x61 :: byte] + length (the (cbb_closed [])) +
    length [0x62 :: byte]"
  have n: "?n = 4" by simp
  have "cbb_does no_heap tree0 (CBB_add_bytes no_heap 1 [0x62] tree0) (cbb_closed [] \<noteq> None) ?n
     (\<lambda>_ st'. \<exists>t. cbb_closed [] = Some t \<and> writer [0x30] 0 ([] @ [(1, Some 1, [0x61] @ t @ [0x62])]) st')"
    by (rule conjunct1 [OF conjunct2 [OF cbb_refines_stack [OF tree0_writer, where e = 2 and l = 1]]]) (simp_all add: ids_def)
  then show ?thesis unfolding n using tree0_fits [of 4 no_heap] by simp
qed

lemma cbb_finish_contents_witness:
  "\<exists>buf st'. CBB_finish no_heap 0 True True tree0 = Some (Some (buf, 3), st') \<and>
     take 3 (case buf of None \<Rightarrow> [] | Some xs \<Rightarrow> xs) = [0x30, 1, 0x61] \<and> buffer st' = None"
proof -
  let ?t = "[1, 0x61] :: byte list"
  have root: "\<not> cb_is_child (cbbs tree0 0)" by (simp add: tree0_def zero_cbb_def)
  have n: "length ([0x30] @ ?t) = 3" by simp
  have "\<exists>buf st'. CBB_finish no_heap 0 True True tree0 = Some (Some (buf, of_nat (length ([0x30] @ ?t))), st') \<and>
     take (length ([0x30] @ ?t)) (case buf of None \<Rightarrow> [] | Some xs \<Rightarrow> xs) = [0x30] @ ?t \<and>
     buffer st' = None \<and> \<not> cb_base (cbbs st' 0)"
    by (rule conjunct1 [OF cbb_finish_contents [OF tree0_writer root], rule_format]) (simp add: tree0_fits)
  then show ?thesis unfolding n by auto
qed

lemma asn1_integers_roundtrip_witness:
  "cbb_does no_heap tree0 (CBB_add_asn1_uint64 no_heap 2 0 300 tree0) True 14
     (\<lambda>_ st'. \<exists>ys. writer ([0x30, 1, 0x61] @ ys) 0 [] st' \<and>
        (\<forall>m cbs r. view m cbs = ys @ r \<longrightarrow> CBS_get_asn1_uint64 m cbs = (Some 300, adv (length ys) cbs))) \<and>
   cbb_fits no_heap tree0 14"
proof -
  have c: "cbb_closed ([] @ [(1, Some 1, [0x61])]) = Some [1, 0x61]" by simp
  show ?thesis
    using conjunct1 [OF asn1_integers_roundtrip [OF tree0_writer, of 2 no_heap 300]] tree0_fits [of 14 no_heap]
    unfolding c by (auto elim!: does_weaken)
qed

end
