(* ===== verification/Bs_Cbb_Text.thy ===== *)
theory Bs_Cbb_Text
  imports Bs_Cbb Bs_Der_Facts
begin

text \<open>
  What BoringSSL builds on the parser and the builder: object identifiers from and to their text
  (\<open>cbb.c\<close>, \<open>cbs.c\<close>) and the order of a \<open>SET OF\<close>.
\<close>

section \<open>Object identifiers\<close>

text \<open>
  The result of \<open>parse_dotted_decimal\<close> is \<open>*out\<close> and what it leaves of the text; \<open>dotted_loop\<close> is its
  loop, from \<open>*out\<close> and \<open>seen_digit\<close> on.
\<close>

function dotted_loop :: "memory \<Rightarrow> cbs \<Rightarrow> u64 \<Rightarrow> bool \<Rightarrow> u64 cbs_result" where
  "dotted_loop m cbs out seen_digit =
     (case CBS_get_u8 m cbs of
        (None, cbs) \<Rightarrow> (if seen_digit then Some out else None, cbs)
      | (Some u, cbs) \<Rightarrow>
          if u = 0x2E \<and> 0 < CBS_len cbs then (if seen_digit then Some out else None, cbs)
          else if u < 0x30 \<or> 0x39 < u \<or> seen_digit \<and> out = 0 \<or> (- 1) div 10 < out
            \<or> - 1 - ucast (u - 0x30) < out * 10
          then (None, cbs)
          else dotted_loop m cbs (out * 10 + ucast (u - 0x30)) True)"
  by pat_completeness auto
termination
  by (relation "measure (\<lambda>(m, cbs, out, seen). unat (cbs_len cbs))")
    (auto dest!: sym [of "(Some _, _)"] CBS_get_u8_len)

declare dotted_loop.simps [simp del]

definition parse_dotted_decimal :: "memory \<Rightarrow> cbs \<Rightarrow> u64 cbs_result" where
  "parse_dotted_decimal m cbs = dotted_loop m cbs 0 False"

lemma dotted_loop_len: "unat (cbs_len (snd (dotted_loop m cbs out seen))) \<le> unat (cbs_len cbs)"
proof (induction m cbs out seen rule: dotted_loop.induct)
  case (1 m cbs out seen)
  show ?case
  proof (cases "CBS_get_u8 m cbs")
    case (Pair r c)
    show ?thesis
    proof (cases r)
      case None
      then have "c = cbs" using Pair by (auto simp: CBS_get_u8_def cbs_get_def split: if_splits)
      then show ?thesis using Pair None by (simp add: dotted_loop.simps [of m cbs])
    next
      case (Some u)
      then have "unat (cbs_len c) \<le> unat (cbs_len cbs)" using CBS_get_u8_len [of m cbs u c] Pair by simp
      then show ?thesis
        using 1 [OF Pair [symmetric] Some] Pair Some by (subst dotted_loop.simps) (auto intro: order_trans)
    qed
  qed
qed

lemma dotted_loop_progress:
  assumes "dotted_loop m cbs out seen = (r, c)" "0 < CBS_len cbs"
  shows "unat (cbs_len c) < unat (cbs_len cbs)"
proof (cases "CBS_get_u8 m cbs")
  case (Pair s d)
  obtain u where u: "s = Some u"
    using Pair assms(2) by (auto simp: CBS_get_u8_def cbs_get_def CBS_len_def word_less_nat_alt split: if_splits)
  have d: "unat (cbs_len cbs) = Suc (unat (cbs_len d))" using CBS_get_u8_len [of m cbs u d] Pair u by simp
  have "unat (cbs_len c) \<le> unat (cbs_len d)"
    using assms(1) Pair u dotted_loop_len [of m d "out * 10 + ucast (u - 0x30)" True]
    by (subst (asm) dotted_loop.simps) (auto split: if_splits)
  then show ?thesis using d by simp
qed

text \<open>\<open>while (CBS_len(&cbs) > 0)\<close>: the components behind the second one.\<close>

function oid_components :: "memory \<Rightarrow> allocator \<Rightarrow> cbb_id \<Rightarrow> cbs \<Rightarrow> cbb_state \<Rightarrow> unit cbb_result" where
  "oid_components m malloc c cbs st =
     (if CBS_len cbs = 0 then Some (Some (), st)
      else case dotted_loop m cbs 0 False of
        (None, cbs) \<Rightarrow> Some (None, st)
      | (Some a, cbs) \<Rightarrow>
          (case add_base128_integer malloc c a st of
             None \<Rightarrow> None
           | Some (None, st) \<Rightarrow> Some (None, st)
           | Some (Some _, st) \<Rightarrow> oid_components m malloc c cbs st))"
  by pat_completeness auto
termination
  by (relation "measure (\<lambda>(m, malloc, c, cbs, st). unat (cbs_len cbs))")
    (auto dest!: sym [of "(Some _, _)"] dotted_loop_progress simp: word_neq_0_conv)

declare oid_components.simps [simp del]

definition CBB_add_asn1_oid_from_text ::
    "memory \<Rightarrow> allocator \<Rightarrow> cbb_id \<Rightarrow> addr \<Rightarrow> u64 \<Rightarrow> cbb_state \<Rightarrow> unit cbb_result" where
  "CBB_add_asn1_oid_from_text m malloc c txt len st =
     and_then (CBB_flush malloc c st) (\<lambda>_ st.
       case parse_dotted_decimal m (CBS_init txt len) of
         (None, cbs) \<Rightarrow> Some (None, st)
       | (Some a, cbs) \<Rightarrow>
           (case parse_dotted_decimal m cbs of
              (None, cbs) \<Rightarrow> Some (None, st)
            | (Some b, cbs) \<Rightarrow>
                if 2 < a \<or> a < 2 \<and> 39 < b \<or> - 1 - 80 < b then Some (None, st)
                else and_then (add_base128_integer malloc c (40 * a + b) st) (\<lambda>_ st.
                  oid_components m malloc c cbs st)))"

text \<open>The digits of \<open>%PRIu64\<close>.\<close>

function decimal :: "nat \<Rightarrow> byte list" where
  "decimal n = (if n < 10 then [0x30 + of_nat n] else decimal (n div 10) @ [0x30 + of_nat (n mod 10)])"
  by pat_completeness auto
termination by (relation "measure id") auto

declare decimal.simps [simp del]

definition add_decimal :: "allocator \<Rightarrow> cbb_id \<Rightarrow> u64 \<Rightarrow> cbb_state \<Rightarrow> unit cbb_result" where
  "add_decimal malloc out v st = CBB_add_bytes malloc out (decimal (unat v)) st"

section \<open>Text of an object identifier\<close>

text \<open>\<open>while (CBS_len(&copy) != 0)\<close>: a dot and a decimal for each component that is left.\<close>

lemma parse_base128_loop_len:
  "unat (cbs_len (snd (parse_base128_loop m cbs v))) \<le> unat (cbs_len cbs)"
proof (induction m cbs v rule: parse_base128_loop.induct)
  case (1 m cbs v)
  show ?case
  proof (cases "CBS_get_u8 m cbs")
    case (Pair r c)
    show ?thesis
    proof (cases r)
      case None
      then have "c = cbs" using Pair by (auto simp: CBS_get_u8_def cbs_get_def split: if_splits)
      then show ?thesis using Pair None by (simp add: parse_base128_loop.simps [of m cbs])
    next
      case (Some b)
      then have "unat (cbs_len c) \<le> unat (cbs_len cbs)" using CBS_get_u8_len [of m cbs b c] Pair by simp
      then show ?thesis
        using 1 [OF Pair [symmetric] Some] Pair Some
        by (subst parse_base128_loop.simps) (auto simp: Let_def intro: order_trans)
    qed
  qed
qed

lemma parse_base128_progress:
  assumes "parse_base128_integer m cbs = (Some v, c)"
  shows "unat (cbs_len c) < unat (cbs_len cbs)"
proof (cases "CBS_get_u8 m cbs")
  case (Pair s d)
  obtain b where b: "s = Some b"
    using Pair assms by (cases s) (auto simp: parse_base128_integer_def parse_base128_loop.simps [of m cbs])
  have d: "unat (cbs_len cbs) = Suc (unat (cbs_len d))" using CBS_get_u8_len [of m cbs b d] Pair b by simp
  have "unat (cbs_len c) \<le> unat (cbs_len d)"
    using assms Pair b parse_base128_loop_len [of m d "push_bit 7 0 OR ucast (b AND 0x7F)"]
    unfolding parse_base128_integer_def
    by (subst (asm) parse_base128_loop.simps) (auto simp: Let_def split: if_splits)
  then show ?thesis using d by simp
qed

function oid_text :: "memory \<Rightarrow> allocator \<Rightarrow> cbb_id \<Rightarrow> cbs \<Rightarrow> cbb_state \<Rightarrow> unit cbb_result" where
  "oid_text m malloc c copy st =
     (if CBS_len copy = 0 then Some (Some (), st)
      else case parse_base128_integer m copy of
        (None, copy) \<Rightarrow> Some (None, st)
      | (Some v, copy) \<Rightarrow>
          (case and_then (CBB_add_u8 malloc c 0x2E st) (\<lambda>_ st. add_decimal malloc c v st) of
             None \<Rightarrow> None
           | Some (None, st) \<Rightarrow> Some (None, st)
           | Some (Some _, st) \<Rightarrow> oid_text m malloc c copy st))"
  by pat_completeness auto
termination
  by (relation "measure (\<lambda>(m, malloc, c, cbs, st). unat (cbs_len cbs))")
    (auto dest!: sym [of "(Some _, _)"] parse_base128_progress)

declare oid_text.simps [simp del]

text \<open>
  The local \<open>CBB\<close> is at the address \<open>c\<close>.  The result is the text, with its final zero; on the error path
  the \<open>CBB\<close> is cleaned up.
\<close>

definition CBS_asn1_oid_to_text :: "memory \<Rightarrow> allocator \<Rightarrow> cbb_id \<Rightarrow> cbs \<Rightarrow> cbb_state \<Rightarrow> byte list cbb_result" where
  "CBS_asn1_oid_to_text m malloc c cbs st =
     Option.bind
       (and_then (CBB_init malloc c 32 st) (\<lambda>_ st.
          case parse_base128_integer m cbs of
            (None, copy) \<Rightarrow> Some (None, st)
          | (Some v, copy) \<Rightarrow>
              and_then
                (if 80 \<le> v then
                   and_then (CBB_add_bytes malloc c [0x32, 0x2E] st) (\<lambda>_ st. add_decimal malloc c (v - 80) st)
                 else
                   and_then (add_decimal malloc c (v div 40) st) (\<lambda>_ st.
                     and_then (CBB_add_u8 malloc c 0x2E st) (\<lambda>_ st. add_decimal malloc c (v mod 40) st)))
                (\<lambda>_ st.
                  and_then (oid_text m malloc c copy st) (\<lambda>_ st.
                    and_then (CBB_add_u8 malloc c 0 st) (\<lambda>_ st.
                      and_then (CBB_finish malloc c True True st) (\<lambda>(txt, txt_len) st.
                        Some (map_option (take (unat txt_len)) txt, st)))))))
       (\<lambda>(r, st).
         case r of
           Some txt \<Rightarrow> Some (Some txt, st)
         | None \<Rightarrow> Option.bind (CBB_cleanup c st) (\<lambda>st. Some (None, st)))"

section \<open>SET OF\<close>

definition compare_set_of_element :: "byte list \<Rightarrow> byte list \<Rightarrow> int" where
  "compare_set_of_element a b =
     (let n = (if length a < length b then length a else length b);
          diff = filter (\<lambda>(x, y). x \<noteq> y) (zip (take n a) (take n b)) in
      case diff of
        (x, y) # _ \<Rightarrow> if x < y then - 1 else 1
      | [] \<Rightarrow> if length a = length b then 0 else if length a < length b then - 1 else 1)"

text \<open>\<open>qsort\<close> of the C library, as insertion: equal elements have equal bytes.\<close>

primrec insert_by :: "('a \<Rightarrow> 'a \<Rightarrow> int) \<Rightarrow> 'a \<Rightarrow> 'a list \<Rightarrow> 'a list" where
  "insert_by cmp x [] = [x]"
| "insert_by cmp x (y # ys) = (if cmp x y \<le> 0 then x # y # ys else y # insert_by cmp x ys)"

definition qsort :: "('a \<Rightarrow> 'a \<Rightarrow> int) \<Rightarrow> 'a list \<Rightarrow> 'a list" where
  "qsort cmp xs = foldr (insert_by cmp) xs []"

text \<open>
  The contents are parsed where they are; the memory that the parser reads holds them from address
  \<open>p\<close> on.  The result is the bytes of each element, or \<open>None\<close> where one does not parse.
\<close>

definition memory_of :: "byte list \<Rightarrow> memory" where
  "memory_of xs a = (if unat a < length xs then xs ! unat a else 0)"

lemma element_progress:
  assumes "CBS_get_any_asn1_element m cbs = (Some el, c)"
  shows "unat (cbs_len c) < unat (cbs_len cbs)"
proof -
  obtain tag n where e: "is_element m cbs tag n" "c = adv (length (der_header tag n) + n) cbs"
    using element_sound [OF assms] by blast
  have le: "length (der_header tag n) + n \<le> unat (cbs_len cbs)" using e(1) by (simp add: is_element_def)
  have "0 < length (der_header tag n)" using der_tag_ne [of tag] by (simp add: der_header_def)
  then show ?thesis using le adv_len [OF le] unfolding e(2) by linarith
qed

function set_of_children :: "memory \<Rightarrow> cbs \<Rightarrow> byte list list option" where
  "set_of_children m cbs =
     (if CBS_len cbs = 0 then Some []
      else case CBS_get_any_asn1_element m cbs of
        (None, _) \<Rightarrow> None
      | (Some el, cbs) \<Rightarrow>
          map_option (\<lambda>children. load_bytes m (cbs_data (el_out el)) (unat (cbs_len (el_out el))) # children)
            (set_of_children m cbs))"
  by pat_completeness auto
termination
  by (relation "measure (\<lambda>(m, cbs). unat (cbs_len cbs))") (auto dest!: sym [of "(Some _, _)"] element_progress)

declare set_of_children.simps [simp del]

primrec add_children :: "allocator \<Rightarrow> cbb_id \<Rightarrow> byte list list \<Rightarrow> cbb_state \<Rightarrow> unit cbb_result" where
  "add_children malloc c [] st = Some (Some (), st)"
| "add_children malloc c (x # xs) st =
     and_then (CBB_add_bytes malloc c x st) (\<lambda>_ st. add_children malloc c xs st)"

definition CBB_flush_asn1_set_of :: "allocator \<Rightarrow> cbb_id \<Rightarrow> cbb_state \<Rightarrow> unit cbb_result" where
  "CBB_flush_asn1_set_of malloc c st =
     and_then (CBB_flush malloc c st) (\<lambda>_ st.
       Option.bind (CBB_data c st) (\<lambda>p. Option.bind (CBB_len c st) (\<lambda>buf_len.
       Option.bind (buf_get p (unat buf_len) st) (\<lambda>bytes.
         case set_of_children (memory_of bytes) (CBS_init 0 buf_len) of
           None \<Rightarrow> Some (None, st)
         | Some children \<Rightarrow>
             if length children < 2 then Some (Some (), st)
             else if (- 1) div 16 < (of_nat (length children) :: u64) then Some (None, st)
             else
               (case OPENSSL_malloc malloc buf_len (mallocs st) of (buf, k) \<Rightarrow>
                case OPENSSL_malloc malloc (of_nat (length children * 16)) k of (array, k) \<Rightarrow>
                  let st = st\<lparr>mallocs := k\<rparr> in
                  if buf = None \<or> array = None then Some (None, st)
                  else
                    Option.bind (buffer st) (\<lambda>b.
                      and_then
                        (add_children malloc c (qsort compare_set_of_element children)
                          (set_buffer (b\<lparr>b_len :=
                             cb_offset (cbbs st c) + ucast (cb_pending_len_len (cbbs st c))\<rparr>) st))
                        (\<lambda>_ st. Option.bind (CBB_len c st) (\<lambda>n.
                          if n \<noteq> buf_len then None else Some (Some (), st)))))))))"

end
