(* ===== verification/Lv_Coding.thy ===== *)
theory Lv_Coding
  imports Prelude
begin

text \<open>
  \<open>util/coding.cc\<close> of leveldb: fixed-width and base-128 integers and length-prefixed strings.  A \<open>Slice\<close> is
  the list of its bytes, a \<open>std::string\<close> the list of its characters; a pointer with a limit is the bytes between
  them, and a null pointer is \<open>None\<close>.
\<close>

section \<open>Fixed-width integers\<close>

definition kLittleEndian :: bool where
  "kLittleEndian = True"

definition EncodeFixed32 :: "u32 \<Rightarrow> byte list" where
  "EncodeFixed32 value =
    (if kLittleEndian then le_bytes 4 value
     else [ucast (value AND 0xff), ucast (drop_bit 8 value AND 0xff), ucast (drop_bit 16 value AND 0xff),
           ucast (drop_bit 24 value AND 0xff)])"

definition EncodeFixed64 :: "u64 \<Rightarrow> byte list" where
  "EncodeFixed64 value =
    (if kLittleEndian then le_bytes 8 value
     else [ucast (value AND 0xff), ucast (drop_bit 8 value AND 0xff), ucast (drop_bit 16 value AND 0xff),
           ucast (drop_bit 24 value AND 0xff), ucast (drop_bit 32 value AND 0xff),
           ucast (drop_bit 40 value AND 0xff), ucast (drop_bit 48 value AND 0xff),
           ucast (drop_bit 56 value AND 0xff)])"

definition PutFixed32 :: "byte list \<Rightarrow> u32 \<Rightarrow> byte list" where
  "PutFixed32 dst value = dst @ EncodeFixed32 value"

definition PutFixed64 :: "byte list \<Rightarrow> u64 \<Rightarrow> byte list" where
  "PutFixed64 dst value = dst @ EncodeFixed64 value"

text \<open>The decoders look at the first four or eight bytes behind the pointer.\<close>

definition DecodeFixed32 :: "byte list \<Rightarrow> u32" where
  "DecodeFixed32 ptr =
    (if kLittleEndian then le_word (take 4 ptr)
     else ucast (ptr ! 0) OR push_bit 8 (ucast (ptr ! 1)) OR push_bit 16 (ucast (ptr ! 2)) OR
       push_bit 24 (ucast (ptr ! 3)))"

definition DecodeFixed64 :: "byte list \<Rightarrow> u64" where
  "DecodeFixed64 ptr =
    (if kLittleEndian then le_word (take 8 ptr)
     else let lo = ucast (DecodeFixed32 ptr); hi = ucast (DecodeFixed32 (drop 4 ptr)) in push_bit 32 hi OR lo)"

section \<open>Variable-length integers\<close>

definition EncodeVarint32 :: "u32 \<Rightarrow> byte list" where
  "EncodeVarint32 v =
    (if v < 2 ^ 7 then [ucast v]
     else if v < 2 ^ 14 then [ucast (v OR 128), ucast (drop_bit 7 v)]
     else if v < 2 ^ 21 then [ucast (v OR 128), ucast (drop_bit 7 v OR 128), ucast (drop_bit 14 v)]
     else if v < 2 ^ 28 then
       [ucast (v OR 128), ucast (drop_bit 7 v OR 128), ucast (drop_bit 14 v OR 128), ucast (drop_bit 21 v)]
     else
       [ucast (v OR 128), ucast (drop_bit 7 v OR 128), ucast (drop_bit 14 v OR 128),
        ucast (drop_bit 21 v OR 128), ucast (drop_bit 28 v)])"

definition PutVarint32 :: "byte list \<Rightarrow> u32 \<Rightarrow> byte list" where
  "PutVarint32 dst v = dst @ EncodeVarint32 v"

lemma unat_drop_bit_div: "unat (drop_bit k v) = unat v div 2 ^ k" for v :: "'a::len word"
  by (rule trans [OF unat_drop_bit_eq drop_bit_eq_div])

lemma drop_bit_7_less: "\<not> v < 128 \<Longrightarrow> unat (drop_bit 7 v) < unat v" for v :: u64
proof -
  assume "\<not> v < 128"
  then have "128 \<le> unat v" by (simp add: not_less word_le_nat_alt)
  then show ?thesis by (simp add: unat_drop_bit_div)
qed

function EncodeVarint64 :: "u64 \<Rightarrow> byte list" where
  "EncodeVarint64 v = (if v < 128 then [ucast v] else ucast (v OR 128) # EncodeVarint64 (drop_bit 7 v))"
  by pat_completeness auto
termination by (relation "measure unat") (simp_all add: drop_bit_7_less)

declare EncodeVarint64.simps [simp del]

definition PutVarint64 :: "byte list \<Rightarrow> u64 \<Rightarrow> byte list" where
  "PutVarint64 dst v = dst @ EncodeVarint64 v"

definition PutLengthPrefixedSlice :: "byte list \<Rightarrow> byte list \<Rightarrow> byte list" where
  "PutLengthPrefixedSlice dst value = PutVarint32 dst (of_nat (length value)) @ value"

function VarintLength_loop :: "u64 \<Rightarrow> nat \<Rightarrow> nat" where
  "VarintLength_loop v len = (if v < 128 then len else VarintLength_loop (drop_bit 7 v) (len + 1))"
  by pat_completeness auto
termination by (relation "measure (unat \<circ> fst)") (simp_all add: drop_bit_7_less)

declare VarintLength_loop.simps [simp del]

definition VarintLength :: "u64 \<Rightarrow> nat" where
  "VarintLength v = VarintLength_loop v 1"

text \<open>
  The two decoding loops have the same text, at the two widths.  A pointer and its limit are the
  bytes between them; the result is the number and the bytes behind it.
\<close>

function GetVarint_loop :: "nat \<Rightarrow> nat \<Rightarrow> 'a::len word \<Rightarrow> byte list \<Rightarrow> ('a word \<times> byte list) option" where
  "GetVarint_loop stop shift result p =
    (if shift \<le> stop \<and> p \<noteq> [] then
       let byte = ucast (hd p) :: 'a word; p = tl p in
       if byte AND 128 \<noteq> 0 then GetVarint_loop stop (shift + 7) (result OR push_bit shift (byte AND 127)) p
       else Some (result OR push_bit shift byte, p)
     else None)"
  by pat_completeness auto
termination by (relation "measure (\<lambda>(_, _, _, p). length p)") simp_all

declare GetVarint_loop.simps [simp del]

definition GetVarint32PtrFallback :: "byte list \<Rightarrow> (u32 \<times> byte list) option" where
  "GetVarint32PtrFallback p = GetVarint_loop 28 0 0 p"

definition GetVarint32Ptr :: "byte list \<Rightarrow> (u32 \<times> byte list) option" where
  "GetVarint32Ptr p =
    (if p \<noteq> [] \<and> (ucast (hd p) :: u32) AND 128 = 0 then Some (ucast (hd p), tl p)
     else GetVarint32PtrFallback p)"

definition GetVarint64Ptr :: "byte list \<Rightarrow> (u64 \<times> byte list) option" where
  "GetVarint64Ptr p = GetVarint_loop 63 0 0 p"

text \<open>\<open>GetVarint32\<close> and \<open>GetVarint64\<close> move the slice only when they succeed.\<close>

definition GetVarint32 :: "byte list \<Rightarrow> u32 option \<times> byte list" where
  "GetVarint32 input = (case GetVarint32Ptr input of None \<Rightarrow> (None, input) | Some (value, q) \<Rightarrow> (Some value, q))"

definition GetVarint64 :: "byte list \<Rightarrow> u64 option \<times> byte list" where
  "GetVarint64 input = (case GetVarint64Ptr input of None \<Rightarrow> (None, input) | Some (value, q) \<Rightarrow> (Some value, q))"

definition GetLengthPrefixedSlicePtr :: "byte list \<Rightarrow> (byte list \<times> byte list) option" where
  "GetLengthPrefixedSlicePtr p =
    (case GetVarint32Ptr p of
       None \<Rightarrow> None
     | Some (len, p) \<Rightarrow> if length p < unat len then None else Some (take (unat len) p, drop (unat len) p))"

definition GetLengthPrefixedSlice :: "byte list \<Rightarrow> byte list option \<times> byte list" where
  "GetLengthPrefixedSlice input =
    (case GetVarint32 input of
       (Some len, input) \<Rightarrow>
         if unat len \<le> length input then (Some (take (unat len) input), drop (unat len) input) else (None, input)
     | (None, input) \<Rightarrow> (None, input))"

section \<open>Fixed-width integers are read back\<close>

lemma length_EncodeFixed [simp]: "length (EncodeFixed32 v) = 4" "length (EncodeFixed64 w) = 8"
  by (simp_all add: EncodeFixed32_def EncodeFixed64_def)

text \<open>Both branches of the encoder and of the decoder agree: the code means the little-endian image.\<close>

lemma EncodeFixed32_portable:
  "EncodeFixed32 v = [ucast (v AND 0xff), ucast (drop_bit 8 v AND 0xff), ucast (drop_bit 16 v AND 0xff),
    ucast (drop_bit 24 v AND 0xff)]"
  unfolding EncodeFixed32_def kLittleEndian_def le_bytes_def
  by (simp add: upt_4) (auto intro!: bit_word_eqI simp: bit_simps)

lemma DecodeFixed32_portable:
  "4 \<le> length p \<Longrightarrow> DecodeFixed32 p = ucast (p ! 0) OR push_bit 8 (ucast (p ! 1)) OR push_bit 16 (ucast (p ! 2)) OR
       push_bit 24 (ucast (p ! 3))"
  unfolding DecodeFixed32_def kLittleEndian_def
  by (auto simp: numeral_eq_Suc Suc_le_length_iff push_bit_or ac_simps)

lemma DecodeFixed32_append [simp]: "DecodeFixed32 (EncodeFixed32 v @ r) = v"
  by (simp add: DecodeFixed32_def EncodeFixed32_def kLittleEndian_def le_word_le_bytes)

lemma DecodeFixed64_append [simp]: "DecodeFixed64 (EncodeFixed64 v @ r) = v"
  by (simp add: DecodeFixed64_def EncodeFixed64_def kLittleEndian_def le_word_le_bytes)

lemma DecodeFixed_Encode [simp]: "DecodeFixed32 (EncodeFixed32 v) = v" "DecodeFixed64 (EncodeFixed64 w) = w"
  using DecodeFixed32_append [of v "[]"] DecodeFixed64_append [of w "[]"] by simp_all

lemma DecodeFixed32_take [simp]: "4 \<le> n \<Longrightarrow> DecodeFixed32 (take n p) = DecodeFixed32 p"
  by (simp add: DecodeFixed32_def kLittleEndian_def min_def)

section \<open>The base-128 image of a number\<close>

fun vint :: "nat \<Rightarrow> byte list" where
  "vint n = (if n < 128 then [of_nat n] else of_nat (n mod 128 + 128) # vint (n div 128))"

declare vint.simps [simp del]

lemma length_vint: "0 < k \<Longrightarrow> n < 128 ^ k \<Longrightarrow> length (vint n) \<le> k"
proof (induction k arbitrary: n)
  case (Suc k)
  then show ?case
  proof (cases "n < 128")
    case False
    then have "k \<noteq> 0" using Suc.prems by (cases k) auto
    moreover have "n div 128 < 128 ^ k" using Suc.prems by (simp add: less_mult_imp_div_less mult.commute)
    ultimately show ?thesis using Suc.IH [of "n div 128"] by (subst vint.simps) simp
  qed (simp add: vint.simps)
qed simp

lemma vint_pos [simp]: "0 < length (vint n)" "vint n \<noteq> []"
  by (simp_all add: vint.simps)

text \<open>The low seven bits of a word and its continuation bit.\<close>

lemma of_nat_mod_128: "(of_nat (unat v mod 128) :: 'b::len word) = take_bit 7 (ucast v)" for v :: "'a::len word"
proof (rule bit_word_eqI)
  fix k assume k: "k < LENGTH('b)"
  have "bit (of_nat (unat v mod 128) :: 'b word) k \<longleftrightarrow> bit (take_bit 7 (unat v)) k"
    using k by (simp add: bit_of_nat_iff take_bit_eq_mod)
  then show "bit (of_nat (unat v mod 128) :: 'b word) k \<longleftrightarrow> bit (take_bit 7 (ucast v :: 'b word)) k"
    using k by (auto simp: bit_simps)
qed

lemma of_nat_mod_128_add: "(of_nat (unat v mod 128 + 128) :: byte) = take_bit 7 (ucast v) OR 128" for v :: "'a::len word"
proof -
  have "(of_nat (unat v mod 128 + 128) :: byte) = take_bit 7 (ucast v) + 128" by (simp add: of_nat_mod_128)
  also have "\<dots> = take_bit 7 (ucast v) OR 128"
    by (rule disjunctive_add) (auto simp: bit_simps)
  finally show ?thesis .
qed

lemma ucast_or_128: "8 \<le> LENGTH('a) \<Longrightarrow> (ucast (v OR 128) :: byte) = of_nat (unat v mod 128 + 128)" for v :: "'a::len word"
  unfolding of_nat_mod_128_add
proof (rule bit_word_eqI)
  fix k assume "8 \<le> LENGTH('a)" "k < LENGTH(8)"
  moreover have "k = 7 \<or> k < 7" if "k < 8" using that by auto
  ultimately show "bit (ucast (v OR 128) :: byte) k \<longleftrightarrow> bit (take_bit 7 (ucast v :: byte) OR 128) k"
    by (auto simp: bit_simps)
qed

lemma vint_step: "128 \<le> n \<Longrightarrow> vint n = of_nat (n mod 128 + 128) # vint (n div 128)"
  by (subst vint.simps) simp

lemma vint_last: "n < 128 \<Longrightarrow> vint n = [of_nat n]"
  by (subst vint.simps) simp

lemma EncodeVarint64_vint: "EncodeVarint64 v = vint (unat v)"
proof (induction v rule: EncodeVarint64.induct)
  case (1 v)
  show ?case
  proof (cases "v < 128")
    case True
    then have "unat v < 128" by (simp add: word_less_nat_alt)
    then show ?thesis using True by (subst EncodeVarint64.simps) (simp add: vint_last)
  next
    case False
    then have "128 \<le> unat v" by (simp add: not_less word_le_nat_alt)
    then show ?thesis using False 1
      by (subst EncodeVarint64.simps) (simp add: vint_step ucast_or_128 unat_drop_bit_div)
  qed
qed

lemma EncodeVarint32_vint: "EncodeVarint32 v = vint (unat v)"
proof -
  have lt: "v < 128 \<longleftrightarrow> unat v < 128" "v < 16384 \<longleftrightarrow> unat v < 16384" "v < 2097152 \<longleftrightarrow> unat v < 2097152"
    "v < 268435456 \<longleftrightarrow> unat v < 268435456"
    by (simp_all add: word_less_nat_alt)
  have v: "unat v < 4294967296" using unsigned_less [of v, where ?'a = nat] by simp
  note * = ucast_or_128 unat_drop_bit_div vint_last vint_step div_mult2_eq [symmetric] less_mult_imp_div_less
  have ge: "128 \<le> unat v div k" if "128 * k \<le> unat v" "0 < k" for k
    using that by (simp add: less_eq_div_iff_mult_less_eq)
  have uc: "ucast v = (of_nat (unat v) :: byte)" "ucast (drop_bit k v) = (of_nat (unat v div 2 ^ k) :: byte)" for k
    unfolding unat_drop_bit_div [symmetric] by simp_all
  show ?thesis
    unfolding EncodeVarint32_def
    using v
    by (auto simp: lt * ge uc simp del: of_nat_unat)
qed

lemma ucast_of_nat_byte: "n < 256 \<Longrightarrow> (ucast (of_nat n :: byte) :: 'a::len word) = of_nat n"
  by (simp add: unsigned_of_nat take_bit_nat_eq_self)

lemma digit_more:
  assumes "m < 128" "8 \<le> LENGTH('a)"
  shows "(ucast (of_nat (m + 128) :: byte) :: 'a::len word) AND 128 \<noteq> 0"
    "(ucast (of_nat (m + 128) :: byte) :: 'a::len word) AND 127 = of_nat m"
proof -
  have m: "m = unat (of_nat m :: byte) mod 128" using assms by (simp add: unat_of_nat)
  have 1: "(of_nat (m + 128) :: byte) = take_bit 7 (of_nat m) OR 128"
    using of_nat_mod_128_add [of "of_nat m :: byte"] m by simp
  have 2: "(of_nat m :: 'a word) = take_bit 7 (ucast (of_nat m :: byte))"
    using of_nat_mod_128 [of "of_nat m :: byte", where ?'b = 'a] m by simp
  have "bit ((ucast (of_nat (m + 128) :: byte) :: 'a word) AND 128) 7"
    unfolding 1 using assms(2) by (simp add: bit_simps)
  then show "(ucast (of_nat (m + 128) :: byte) :: 'a word) AND 128 \<noteq> 0" by (metis bit_0_eq bot_apply bot_bool_def)
  show "(ucast (of_nat (m + 128) :: byte) :: 'a word) AND 127 = of_nat m"
    unfolding 1 2 by (rule bit_word_eqI) (auto simp: bit_simps)
qed

lemma digit_last:
  assumes "n < 128" "8 \<le> LENGTH('a)"
  shows "(ucast (of_nat n :: byte) :: 'a::len word) AND 128 = 0" "(ucast (of_nat n :: byte) :: 'a::len word) = of_nat n"
proof -
  have n: "n = unat (of_nat n :: byte) mod 128" using assms by (simp add: unat_of_nat)
  have "(of_nat n :: byte) = take_bit 7 (of_nat n)"
    using of_nat_mod_128 [of "of_nat n :: byte", where ?'b = 8] n by simp
  then have "\<not> bit (of_nat n :: byte) 7" by (metis bit_take_bit_iff less_irrefl)
  then show "(ucast (of_nat n :: byte) :: 'a word) AND 128 = 0"
    by (auto intro!: bit_word_eqI simp: bit_simps)
  show "(ucast (of_nat n :: byte) :: 'a::len word) = of_nat n" using assms by (intro ucast_of_nat_byte) simp
qed

lemma digits_join: "(of_nat (n mod 128) :: 'a::len word) OR push_bit 7 (of_nat (n div 128)) = of_nat n"
proof (rule bit_word_eqI)
  fix k assume k: "k < LENGTH('a)"
  have *: "n mod 128 = take_bit 7 n" "n div 128 = drop_bit 7 n" by (simp_all add: take_bit_eq_mod drop_bit_eq_div)
  show "bit ((of_nat (n mod 128) :: 'a word) OR push_bit 7 (of_nat (n div 128))) k \<longleftrightarrow> bit (of_nat n :: 'a word) k"
    using k unfolding * by (auto simp: bit_simps bit_of_nat_iff)
qed

lemma GetVarint_loop_vint:
  fixes r :: "'a::len word"
  assumes "8 \<le> LENGTH('a)" "shift + 7 * (length (vint n) - 1) \<le> stop"
  shows "GetVarint_loop stop shift r (vint n @ rest) = Some (r OR push_bit shift (of_nat n), rest)"
  using assms(2)
proof (induction n arbitrary: shift r rule: vint.induct)
  case (1 n)
  show ?case
  proof (cases "n < 128")
    case True
    then have d: "(of_nat n :: 'a word) AND 128 = 0" using digit_last [OF True assms(1)] by simp
    from True show ?thesis using 1 assms(1) by (subst GetVarint_loop.simps) (simp add: vint_last digit_last(2) d Let_def)
  next
    case False
    then have v: "vint n = of_nat (n mod 128 + 128) # vint (n div 128)" by (simp add: vint_step)
    have "shift + 7 + 7 * (length (vint (n div 128)) - 1) \<le> stop"
      using "1.prems" unfolding v by (cases "length (vint (n div 128))") simp_all
    then have "GetVarint_loop stop (shift + 7) (r OR push_bit shift (of_nat (n mod 128))) (vint (n div 128) @ rest) =
      Some ((r OR push_bit shift (of_nat (n mod 128))) OR push_bit (shift + 7) (of_nat (n div 128)), rest)"
      by (rule "1.IH" [OF False])
    also have "(r OR push_bit shift (of_nat (n mod 128))) OR push_bit (shift + 7) (of_nat (n div 128)) =
       r OR push_bit shift (of_nat n :: 'a word)"
      unfolding digits_join [of n, symmetric] push_bit_or by (simp add: push_bit_push_bit or.assoc add.commute)
    finally show ?thesis using "1.prems" unfolding v
      by (subst GetVarint_loop.simps) (simp add: digit_more [OF _ assms(1), of "n mod 128"] del: of_nat_add)
  qed
qed

lemma length_vint_32: "length (vint (unat v)) \<le> 5" for v :: u32
  by (rule length_vint) (use unsigned_less [of v, where ?'a = nat] in simp_all)

lemma length_vint_64: "length (vint (unat v)) \<le> 10" for v :: u64
  by (rule length_vint) (use unsigned_less [of v, where ?'a = nat] in simp_all)

lemma GetVarint_loop_32: "GetVarint_loop 28 0 0 (vint (unat v) @ r) = Some (v, r)" for v :: u32
  using GetVarint_loop_vint [where ?'a = 32, of 0 "unat v" 28 0 r] length_vint_32 [of v] by simp

lemma GetVarint32Ptr_vint [simp]: "GetVarint32Ptr (vint (unat v) @ r) = Some (v, r)"
  using GetVarint_loop_32 [of v r]
  unfolding GetVarint32Ptr_def GetVarint32PtrFallback_def
  by (auto simp: GetVarint_loop.simps [of 28 0 0] Let_def)

lemma GetVarint64Ptr_vint [simp]: "GetVarint64Ptr (vint (unat v) @ r) = Some (v, r)"
  using GetVarint_loop_vint [where ?'a = 64, of 0 "unat v" 63 0 r] length_vint_64 [of v]
  by (simp add: GetVarint64Ptr_def)

lemma GetVarint_vint [simp]:
  "GetVarint32 (vint (unat v) @ r) = (Some v, r)" "GetVarint64 (vint (unat w) @ r) = (Some w, r)"
  by (simp_all add: GetVarint32_def GetVarint64_def)

text \<open>A length fits a \<open>uint32_t\<close>, and the prefixed slice comes back.\<close>

lemma PutLengthPrefixedSlice_vint:
  "length value < 2 ^ 32 \<Longrightarrow> PutLengthPrefixedSlice dst value = dst @ vint (length value) @ value"
  by (simp add: PutLengthPrefixedSlice_def PutVarint32_def EncodeVarint32_vint unat_of_nat)

lemma GetVarint32_length [simp]:
  "n < 2 ^ 32 \<Longrightarrow> GetVarint32 (vint n @ r) = (Some (of_nat n), r)"
  "n < 2 ^ 32 \<Longrightarrow> GetVarint32Ptr (vint n @ r) = Some (of_nat n, r)"
  using GetVarint_vint(1) [of "of_nat n" r] GetVarint32Ptr_vint [of "of_nat n" r] by (simp_all add: unat_of_nat)

lemma GetLengthPrefixedSlice_vint [simp]:
  "length s < 2 ^ 32 \<Longrightarrow> GetLengthPrefixedSlice (vint (length s) @ s @ r) = (Some s, r)"
  "length s < 2 ^ 32 \<Longrightarrow> GetLengthPrefixedSlicePtr (vint (length s) @ s @ r) = Some (s, r)"
  by (simp_all add: GetLengthPrefixedSlice_def GetLengthPrefixedSlicePtr_def unat_of_nat)

section \<open>What the decoders consume\<close>

lemma GetVarint_loop_shorter: "GetVarint_loop stop shift r p = Some (v, q) \<Longrightarrow> length q < length p"
proof (induction stop shift r p rule: GetVarint_loop.induct)
  case (1 stop shift result p)
  then show ?case
    apply (simp only: GetVarint_loop.simps [of stop shift result p])
    by (auto simp: Let_def neq_Nil_conv split: if_splits dest: less_SucI)
qed

lemma GetVarint32Ptr_shorter: "GetVarint32Ptr p = Some (v, q) \<Longrightarrow> length q < length p"
  by (auto simp: GetVarint32Ptr_def GetVarint32PtrFallback_def GetVarint_loop_shorter split: if_splits)

lemma GetVarint32_shorter: "GetVarint32 p = (Some v, q) \<Longrightarrow> length q < length p"
  by (auto simp: GetVarint32_def GetVarint32Ptr_shorter split: option.splits)

lemma GetVarint64_shorter: "GetVarint64 p = (Some v, q) \<Longrightarrow> length q < length p"
  by (auto simp: GetVarint64_def GetVarint64Ptr_def GetVarint_loop_shorter split: option.splits)

lemma GetLengthPrefixedSlice_shorter: "GetLengthPrefixedSlice p = (Some s, q) \<Longrightarrow> length q < length p"
  by (auto simp: GetLengthPrefixedSlice_def split: option.splits if_splits prod.splits dest!: GetVarint32_shorter)

lemma GetLengthPrefixedSlice_le: "length (snd (GetLengthPrefixedSlice p)) \<le> length p"
  by (auto simp: GetLengthPrefixedSlice_def GetVarint32_def split: option.splits dest: GetVarint32Ptr_shorter)

lemma VarintLength_loop_vint: "VarintLength_loop v n = n + length (vint (unat v)) - 1"
proof (induction v n rule: VarintLength_loop.induct)
  case (1 v len)
  show ?case
  proof (cases "v < 128")
    case True
    then have "unat v < 128" by (simp add: word_less_nat_alt)
    then show ?thesis using True by (subst VarintLength_loop.simps) (simp add: vint_last)
  next
    case False
    then have "128 \<le> unat v" by (simp add: not_less word_le_nat_alt)
    then show ?thesis using False 1 by (subst VarintLength_loop.simps) (simp add: vint_step unat_drop_bit_div)
  qed
qed

lemma VarintLength_EncodeVarint64: "VarintLength v = length (EncodeVarint64 v)"
  by (simp add: VarintLength_def VarintLength_loop_vint EncodeVarint64_vint)

text \<open>
  C28: the varint coders and the length-prefixed slices of leveldb invert each other, whatever follows, and
  \<open>VarintLength\<close> is the size of the encoding.
\<close>

theorem coding_roundtrip:
  "GetVarint32 (PutVarint32 [] v @ r) = (Some v, r) \<and> GetVarint64 (PutVarint64 [] w @ r) = (Some w, r) \<and>
   VarintLength w = length (PutVarint64 [] w) \<and>
   (length s < 2 ^ 32 \<longrightarrow> GetLengthPrefixedSlice (PutLengthPrefixedSlice [] s @ r) = (Some s, r))"
  by (simp add: PutVarint32_def PutVarint64_def EncodeVarint32_vint EncodeVarint64_vint VarintLength_EncodeVarint64
      PutLengthPrefixedSlice_vint)

lemma coding_roundtrip_witness:
  "GetLengthPrefixedSlice (PutLengthPrefixedSlice [] [1, 2, 3] @ [4]) = (Some [1, 2, 3], [4])"
  using coding_roundtrip [of 0 "[4]" 0 "[1, 2, 3]"] by simp

end
