(* ===== verification/Lv_File.thy ===== *)
theory Lv_File
  imports Lv_Crc32c "HOL-Library.Sublist"
begin

text \<open>
  \<open>include/leveldb/status.h\<close> and the files of \<open>util/env_posix.cc\<close>: the buffered \<open>PosixWritableFile\<close> and the
  \<open>PosixSequentialFile\<close> over the system calls of the kernel, and the two interfaces their clients use.
\<close>

section \<open>Status\<close>

datatype status_code = kNotFound | kCorruption | kNotSupported | kInvalidArgument | kIOError

text \<open>A null \<open>state_\<close> is \<open>Status_OK\<close>; the message is the text behind the five bytes of header.\<close>

datatype status = Status_OK | Status_error status_code string

definition Status_make :: "status_code \<Rightarrow> string \<Rightarrow> string \<Rightarrow> status" where
  "Status_make code msg msg2 = Status_error code (msg @ (if msg2 \<noteq> [] then '': '' @ msg2 else []))"

definition status_ok :: "status \<Rightarrow> bool" where
  "status_ok s \<longleftrightarrow> s = Status_OK"

section \<open>The kernel's side of a file\<close>

text \<open>
  \<open>write(2)\<close> and \<open>read(2)\<close> on a regular file, as POSIX documents them: a call moves at least one byte and at
  most as many as asked for (none only at the end of the file), is interrupted before it moved anything, or fails
  with an error number and moves nothing.  Which of these happens is decided by the list of events, whatever it
  is; when the list has run out the calls move all they are asked for.
\<close>

datatype io_event = Io_short nat | Io_interrupted | Io_fails int

datatype sys_result = Sys_ret nat | Sys_errno int

record kernel_file =
  kf_bytes :: "byte list"  \<comment> \<open>the contents written so far, or the contents ahead of the reader\<close>
  kf_events :: "io_event list"
  kf_strerror :: "int \<Rightarrow> string"

definition ENOENT :: int where "ENOENT = 2"
definition EINTR :: int where "EINTR = 4"

definition sys_write :: "kernel_file \<Rightarrow> byte list \<Rightarrow> kernel_file \<times> sys_result" where
  "sys_write k data =
    (case kf_events k of
       [] \<Rightarrow> (k\<lparr>kf_bytes := kf_bytes k @ data\<rparr>, Sys_ret (length data))
     | Io_short n # es \<Rightarrow>
         let m = min (Suc n) (length data)
         in (k\<lparr>kf_bytes := kf_bytes k @ take m data, kf_events := es\<rparr>, Sys_ret m)
     | Io_interrupted # es \<Rightarrow> (k\<lparr>kf_events := es\<rparr>, Sys_errno EINTR)
     | Io_fails e # es \<Rightarrow> (k\<lparr>kf_events := es\<rparr>, Sys_errno e))"

definition sys_read :: "kernel_file \<Rightarrow> nat \<Rightarrow> kernel_file \<times> sys_result \<times> byte list" where
  "sys_read k n =
    (let some = (\<lambda>m es. (k\<lparr>kf_bytes := drop m (kf_bytes k), kf_events := es\<rparr>,
                   Sys_ret (length (take m (kf_bytes k))), take m (kf_bytes k)))
     in case kf_events k of
          [] \<Rightarrow> some n []
        | Io_short m # es \<Rightarrow> some (min (Suc m) n) es
        | Io_interrupted # es \<Rightarrow> (k\<lparr>kf_events := es\<rparr>, Sys_errno EINTR, [])
        | Io_fails e # es \<Rightarrow> (k\<lparr>kf_events := es\<rparr>, Sys_errno e, []))"

text \<open>\<open>lseek(2)\<close> may move past the end; the next read then finds no bytes.\<close>

definition sys_lseek_cur :: "kernel_file \<Rightarrow> u64 \<Rightarrow> kernel_file \<times> sys_result" where
  "sys_lseek_cur k n =
    (case kf_events k of
       Io_fails e # es \<Rightarrow> (k\<lparr>kf_events := es\<rparr>, Sys_errno e)
     | _ \<Rightarrow> (k\<lparr>kf_bytes := drop (unat n) (kf_bytes k)\<rparr>, Sys_ret 0))"

definition PosixError :: "kernel_file \<Rightarrow> string \<Rightarrow> int \<Rightarrow> status" where
  "PosixError k context error_number =
    (if error_number = ENOENT then Status_make kNotFound context (kf_strerror k error_number)
     else Status_make kIOError context (kf_strerror k error_number))"

section \<open>\<open>PosixWritableFile\<close>\<close>

text \<open>The buffer is the bytes \<open>buf_[0 .. pos_ - 1]\<close>.\<close>

record posix_writable =
  pw_buf :: "byte list"
  pw_fd :: kernel_file
  pw_filename :: string

definition kWritableFileBufferSize :: nat where
  "kWritableFileBufferSize = 65536"

function WriteUnbuffered_loop :: "string \<Rightarrow> kernel_file \<Rightarrow> byte list \<Rightarrow> kernel_file \<times> status" where
  "WriteUnbuffered_loop filename fd data =
    (if data \<noteq> [] then
       case sys_write fd data of
         (fd, Sys_ret write_result) \<Rightarrow> WriteUnbuffered_loop filename fd (drop write_result data)
       | (fd, Sys_errno errno) \<Rightarrow>
           if errno = EINTR then WriteUnbuffered_loop filename fd data
           else (fd, PosixError fd filename errno)
     else (fd, Status_OK))"
  by pat_completeness auto
termination
  by (relation "measure (\<lambda>(_, fd, data). length (kf_events fd) + length data)")
    (auto simp: sys_write_def Let_def split: list.splits io_event.splits)

declare WriteUnbuffered_loop.simps [simp del]

definition WriteUnbuffered :: "posix_writable \<Rightarrow> byte list \<Rightarrow> posix_writable \<times> status" where
  "WriteUnbuffered f data =
    (case WriteUnbuffered_loop (pw_filename f) (pw_fd f) data of (fd, s) \<Rightarrow> (f\<lparr>pw_fd := fd\<rparr>, s))"

definition FlushBuffer :: "posix_writable \<Rightarrow> posix_writable \<times> status" where
  "FlushBuffer f = (case WriteUnbuffered f (pw_buf f) of (f, status) \<Rightarrow> (f\<lparr>pw_buf := []\<rparr>, status))"

definition PosixWritableFile_Append :: "posix_writable \<Rightarrow> byte list \<Rightarrow> posix_writable \<times> status" where
  "PosixWritableFile_Append f data =
    (let copy_size = min (length data) (kWritableFileBufferSize - length (pw_buf f));
         f = f\<lparr>pw_buf := pw_buf f @ take copy_size data\<rparr>;
         write_data = drop copy_size data
     in if write_data = [] then (f, Status_OK)
        else case FlushBuffer f of (f, status) \<Rightarrow>
          if \<not> status_ok status then (f, status)
          else if length write_data < kWritableFileBufferSize then (f\<lparr>pw_buf := write_data\<rparr>, Status_OK)
          else WriteUnbuffered f write_data)"

definition PosixWritableFile_Flush :: "posix_writable \<Rightarrow> posix_writable \<times> status" where
  "PosixWritableFile_Flush f = FlushBuffer f"

section \<open>\<open>PosixSequentialFile\<close>\<close>

record posix_sequential =
  ps_fd :: kernel_file
  ps_filename :: string

text \<open>The third result is what \<open>Read\<close> stores in \<open>*result\<close>, \<open>None\<close> if it leaves it alone.\<close>

function Read_loop :: "string \<Rightarrow> kernel_file \<Rightarrow> nat \<Rightarrow> kernel_file \<times> status \<times> byte list option" where
  "Read_loop filename fd n =
    (case sys_read fd n of
       (fd, Sys_errno errno, _) \<Rightarrow>
         if errno = EINTR then Read_loop filename fd n else (fd, PosixError fd filename errno, None)
     | (fd, Sys_ret read_size, scratch) \<Rightarrow> (fd, Status_OK, Some (take read_size scratch)))"
  by pat_completeness auto
termination
  by (relation "measure (\<lambda>(_, fd, n). length (kf_events fd))")
    (auto simp: sys_read_def Let_def split: list.splits io_event.splits)

declare Read_loop.simps [simp del]

definition PosixSequentialFile_Read :: "posix_sequential \<Rightarrow> nat \<Rightarrow> posix_sequential \<times> status \<times> byte list option" where
  "PosixSequentialFile_Read f n =
    (case Read_loop (ps_filename f) (ps_fd f) n of (fd, r) \<Rightarrow> (f\<lparr>ps_fd := fd\<rparr>, r))"

definition PosixSequentialFile_Skip :: "posix_sequential \<Rightarrow> u64 \<Rightarrow> posix_sequential \<times> status" where
  "PosixSequentialFile_Skip f n =
    (case sys_lseek_cur (ps_fd f) n of
       (fd, Sys_errno errno) \<Rightarrow> (f\<lparr>ps_fd := fd\<rparr>, PosixError fd (ps_filename f) errno)
     | (fd, Sys_ret _) \<Rightarrow> (f\<lparr>ps_fd := fd\<rparr>, Status_OK))"

section \<open>What a client may rely on\<close>

text \<open>
  \<open>written f\<close> is what the kernel has of the file, \<open>accepted f\<close> what the file object has taken.  An operation that
  returns OK takes exactly its bytes; one that fails leaves the kernel with a prefix of what was taken and asked
  for, and the object in a state nothing is promised of.
\<close>

locale writable_file =
  fixes append :: "'f \<Rightarrow> byte list \<Rightarrow> 'f \<times> status"
    and flush :: "'f \<Rightarrow> 'f \<times> status"
    and accepted written :: "'f \<Rightarrow> byte list"
    and usable :: "'f \<Rightarrow> bool"
  assumes append_ok: "usable f \<Longrightarrow> append f d = (f', Status_OK) \<Longrightarrow> usable f' \<and> accepted f' = accepted f @ d"
    and append_written: "usable f \<Longrightarrow> append f d = (f', s) \<Longrightarrow> prefix (written f') (accepted f @ d)"
    and flush_ok: "usable f \<Longrightarrow> flush f = (f', Status_OK) \<Longrightarrow> usable f' \<and> accepted f' = accepted f \<and> written f' = accepted f"
    and flush_written: "usable f \<Longrightarrow> flush f = (f', s) \<Longrightarrow> prefix (written f') (accepted f)"
    and usable_written: "usable f \<Longrightarrow> prefix (written f) (accepted f)"

locale sequential_file =
  fixes read :: "'f \<Rightarrow> nat \<Rightarrow> 'f \<times> status \<times> byte list option"
    and skip :: "'f \<Rightarrow> u64 \<Rightarrow> 'f \<times> status"
    and ahead :: "'f \<Rightarrow> byte list"
    and calm :: "'f \<Rightarrow> bool"
  assumes read_calm: "calm f \<Longrightarrow> \<exists>f'. read f n = (f', Status_OK, Some (take n (ahead f))) \<and> calm f' \<and> ahead f' = drop n (ahead f)"

definition pw_accepted :: "posix_writable \<Rightarrow> byte list" where
  "pw_accepted f = kf_bytes (pw_fd f) @ pw_buf f"

definition pw_written :: "posix_writable \<Rightarrow> byte list" where
  "pw_written f = kf_bytes (pw_fd f)"

lemma WriteUnbuffered_loop_prefix:
  "WriteUnbuffered_loop fn fd data = (fd', s) \<Longrightarrow>
    \<exists>ys. prefix ys data \<and> kf_bytes fd' = kf_bytes fd @ ys \<and> (s = Status_OK \<longrightarrow> ys = data)"
proof (induction fn fd data rule: WriteUnbuffered_loop.induct)
  case (1 fn fd data)
  show ?case
  proof (cases "data = []")
    case True
    then show ?thesis using 1 by (simp add: WriteUnbuffered_loop.simps)
  next
    case False
    obtain fd1 r where w: "sys_write fd data = (fd1, r)" by (cases "sys_write fd data")
    show ?thesis
    proof (cases r)
      case (Sys_ret n)
      then have b: "kf_bytes fd1 = kf_bytes fd @ take n data"
        using w by (auto simp: sys_write_def Let_def split: list.splits io_event.splits)
      have "WriteUnbuffered_loop fn fd1 (drop n data) = (fd', s)"
        using "1.prems" False w Sys_ret by (simp add: WriteUnbuffered_loop.simps [of fn fd])
      from "1.IH" (1) [OF False w [symmetric] Sys_ret this] obtain ys where
        ys: "prefix ys (drop n data)" "kf_bytes fd' = kf_bytes fd1 @ ys" "s = Status_OK \<longrightarrow> ys = drop n data" by auto
      have "prefix (take n data @ ys) data" by (metis append_take_drop_id same_prefix_prefix ys(1))
      then show ?thesis using b ys(2,3) by (intro exI [of _ "take n data @ ys"]) auto
    next
      case (Sys_errno e)
      then have b: "kf_bytes fd1 = kf_bytes fd"
        using w by (auto simp: sys_write_def Let_def split: list.splits io_event.splits)
      show ?thesis
        using "1.prems" "1.IH" (2) [OF False w [symmetric] Sys_errno] False w Sys_errno b
        by (auto simp: WriteUnbuffered_loop.simps [of fn fd] PosixError_def Status_make_def split: if_splits)
    qed
  qed
qed


lemma WriteUnbuffered_prefix:
  assumes "WriteUnbuffered f data = (f', s)"
  shows "pw_buf f' = pw_buf f \<and> prefix (pw_written f') (pw_written f @ data) \<and>
    (s = Status_OK \<longrightarrow> pw_written f' = pw_written f @ data)"
  using assms WriteUnbuffered_loop_prefix [of "pw_filename f" "pw_fd f" data]
  by (fastforce simp: WriteUnbuffered_def pw_written_def split: prod.splits)

lemma FlushBuffer_prefix:
  assumes "FlushBuffer f = (f', s)"
  shows "pw_buf f' = [] \<and> prefix (pw_written f') (pw_accepted f) \<and>
    (s = Status_OK \<longrightarrow> pw_written f' = pw_accepted f \<and> pw_accepted f' = pw_accepted f)"
  using assms WriteUnbuffered_prefix [of f "pw_buf f"]
  by (fastforce simp: FlushBuffer_def pw_accepted_def pw_written_def split: prod.splits)

lemma Append_prefix:
  assumes "PosixWritableFile_Append f d = (f', s)"
  shows "prefix (pw_written f') (pw_accepted f @ d) \<and> (s = Status_OK \<longrightarrow> pw_accepted f' = pw_accepted f @ d)"
proof -
  define c where "c = min (length d) (kWritableFileBufferSize - length (pw_buf f))"
  define g where "g = f\<lparr>pw_buf := pw_buf f @ take c d\<rparr>"
  have g: "pw_accepted g = pw_accepted f @ take c d" "pw_written g = pw_written f"
    by (simp_all add: g_def pw_accepted_def pw_written_def)
  have all: "pw_accepted f @ d = pw_accepted g @ drop c d" by (simp add: g)
  obtain h t where h: "FlushBuffer g = (h, t)" by (cases "FlushBuffer g")
  show ?thesis
  proof (cases "drop c d = []")
    case True
    then have "(f', s) = (g, Status_OK)"
      using assms unfolding PosixWritableFile_Append_def Let_def by (fold c_def) (fold g_def, simp)
    then show ?thesis using True all by (auto simp: pw_accepted_def pw_written_def)
  next
    case False
    then have r: "(f', s) = (if \<not> status_ok t then (h, t)
      else if length (drop c d) < kWritableFileBufferSize then (h\<lparr>pw_buf := drop c d\<rparr>, Status_OK)
      else WriteUnbuffered h (drop c d))"
      using assms h unfolding PosixWritableFile_Append_def Let_def by (fold c_def) (fold g_def, simp)
    note hp = FlushBuffer_prefix [OF h]
    then have p: "prefix (pw_written h) (pw_accepted g @ drop c d)" by simp
    show ?thesis
    proof (cases "status_ok t \<and> \<not> length (drop c d) < kWritableFileBufferSize")
      case True
      then show ?thesis using r hp WriteUnbuffered_prefix [of h "drop c d" f' s]
        unfolding all by (auto simp: status_ok_def pw_accepted_def pw_written_def)
    next
      case False
      then show ?thesis using r hp p
        unfolding all by (auto simp: status_ok_def pw_accepted_def pw_written_def split: if_splits)
    qed
  qed
qed

interpretation pw: writable_file PosixWritableFile_Append PosixWritableFile_Flush pw_accepted pw_written "\<lambda>f. True"
  by unfold_locales
    (auto dest: Append_prefix FlushBuffer_prefix simp: PosixWritableFile_Flush_def pw_accepted_def pw_written_def)

text \<open>A reader is calm while its calls are at most interrupted; then a read is short only at the end of the file.\<close>

definition ps_ahead :: "posix_sequential \<Rightarrow> byte list" where
  "ps_ahead f = kf_bytes (ps_fd f)"

definition ps_calm :: "posix_sequential \<Rightarrow> bool" where
  "ps_calm f \<longleftrightarrow> (\<forall>e \<in> set (kf_events (ps_fd f)). e = Io_interrupted)"

lemma Read_loop_calm:
  "\<forall>e \<in> set (kf_events fd). e = Io_interrupted \<Longrightarrow>
    \<exists>fd'. Read_loop fn fd n = (fd', Status_OK, Some (take n (kf_bytes fd))) \<and>
      (\<forall>e \<in> set (kf_events fd'). e = Io_interrupted) \<and> kf_bytes fd' = drop n (kf_bytes fd)"
proof (induction "kf_events fd" arbitrary: fd)
  case Nil
  then show ?case by (subst Read_loop.simps) (auto simp: sys_read_def min_def)
next
  case (Cons e es)
  then have e: "kf_events fd = Io_interrupted # es" "\<forall>e \<in> set es. e = Io_interrupted"
    by (metis list.set_intros(1), metis list.set_intros(2))
  from Cons(1) [of "fd\<lparr>kf_events := es\<rparr>"] e show ?case
    by (subst Read_loop.simps) (simp add: sys_read_def)
qed

interpretation ps: sequential_file PosixSequentialFile_Read PosixSequentialFile_Skip ps_ahead ps_calm
proof unfold_locales
  fix f n assume "ps_calm f"
  then show "\<exists>f'. PosixSequentialFile_Read f n = (f', Status_OK, Some (take n (ps_ahead f))) \<and> ps_calm f' \<and>
      ps_ahead f' = drop n (ps_ahead f)"
    using Read_loop_calm [of "ps_fd f" "ps_filename f" n]
    by (auto simp: PosixSequentialFile_Read_def ps_calm_def ps_ahead_def)
qed

end
