(* ===== verification/Lv_Dbformat.thy ===== *)
theory Lv_Dbformat
  imports Lv_File
begin

text \<open>
  The keys of the store: \<open>include/leveldb/slice.h\<close>, \<open>util/comparator.cc\<close> and \<open>db/dbformat.h\<close>, \<open>db/dbformat.cc\<close>.
  A user key is a byte string; an internal key is a user key followed by eight bytes that pack a sequence number and a
  type, ordered by the user key, then by falling sequence number. The locale \<open>comparator\<close> is the class
  \<open>Comparator\<close>; both comparators of the code are its instances.
\<close>

section \<open>The bytewise order\<close>

text \<open>\<open>memcmp\<close> on two buffers of one length: the sign of the first difference, as unsigned bytes.\<close>

fun memcmp :: "byte list \<Rightarrow> byte list \<Rightarrow> int" where
  "memcmp (x # xs) (y # ys) = (if x = y then memcmp xs ys else if x < y then -1 else 1)"
| "memcmp _ _ = 0"

definition Slice_compare :: "byte list \<Rightarrow> byte list \<Rightarrow> int" where
  "Slice_compare a b =
    (let min_len = (if length a < length b then length a else length b);
         r = memcmp (take min_len a) (take min_len b)
     in if r = 0 then if length a < length b then -1 else if length b < length a then 1 else r else r)"

definition Slice_starts_with :: "byte list \<Rightarrow> byte list \<Rightarrow> bool" where
  "Slice_starts_with a x \<longleftrightarrow> length x \<le> length a \<and> memcmp (take (length x) a) x = 0"

definition Slice_eq :: "byte list \<Rightarrow> byte list \<Rightarrow> bool" where
  "Slice_eq x y \<longleftrightarrow> length x = length y \<and> memcmp x y = 0"

text \<open>The loop that advances while the bytes of two strings agree; both have the bound \<open>min_length\<close>.\<close>

fun common_length :: "byte list \<Rightarrow> byte list \<Rightarrow> nat" where
  "common_length (x # xs) (y # ys) = (if x = y then Suc (common_length xs ys) else 0)"
| "common_length _ _ = 0"

definition Bytewise_FindShortestSeparator :: "byte list \<Rightarrow> byte list \<Rightarrow> byte list" where
  "Bytewise_FindShortestSeparator start limit =
    (let min_length = min (length start) (length limit); diff_index = common_length start limit
     in if min_length \<le> diff_index then start
        else let diff_byte = start ! diff_index in
          if diff_byte < 0xff \<and> unat diff_byte + 1 < unat (limit ! diff_index)
          then take diff_index start @ [diff_byte + 1] else start)"

fun Bytewise_FindShortSuccessor :: "byte list \<Rightarrow> byte list" where
  "Bytewise_FindShortSuccessor [] = []"
| "Bytewise_FindShortSuccessor (byte # key) =
    (if byte \<noteq> 0xff then [byte + 1] else byte # Bytewise_FindShortSuccessor key)"

section \<open>Internal keys\<close>

definition kTypeDeletion :: byte where "kTypeDeletion = 0"
definition kTypeValue :: byte where "kTypeValue = 1"
definition kValueTypeForSeek :: byte where "kValueTypeForSeek = kTypeValue"
definition kMaxSequenceNumber :: u64 where "kMaxSequenceNumber = push_bit 56 1 - 1"

record parsed_internal_key =
  pk_user_key :: "byte list"
  pk_sequence :: u64
  pk_type :: byte

definition PackSequenceAndType :: "u64 \<Rightarrow> byte \<Rightarrow> u64" where
  "PackSequenceAndType seq t = push_bit 8 seq OR ucast t"

definition AppendInternalKey :: "byte list \<Rightarrow> parsed_internal_key \<Rightarrow> byte list" where
  "AppendInternalKey result key =
    PutFixed64 (result @ pk_user_key key) (PackSequenceAndType (pk_sequence key) (pk_type key))"

definition ExtractUserKey :: "byte list \<Rightarrow> byte list" where
  "ExtractUserKey internal_key = take (length internal_key - 8) internal_key"

text \<open>The function stores its result even where it returns false because of the type.\<close>

definition ParseInternalKey :: "byte list \<Rightarrow> bool \<times> parsed_internal_key option" where
  "ParseInternalKey internal_key =
    (let n = length internal_key in
     if n < 8 then (False, None)
     else let num = DecodeFixed64 (drop (n - 8) internal_key); c = ucast (num AND 0xff) :: byte
       in (c \<le> kTypeValue,
           Some \<lparr>pk_user_key = take (n - 8) internal_key, pk_sequence = drop_bit 8 num, pk_type = c\<rparr>))"

definition InternalKeyComparator_Compare ::
  "(byte list \<Rightarrow> byte list \<Rightarrow> int) \<Rightarrow> byte list \<Rightarrow> byte list \<Rightarrow> int" where
  "InternalKeyComparator_Compare user akey bkey =
    (let r = user (ExtractUserKey akey) (ExtractUserKey bkey) in
     if r = 0 then
       let anum = DecodeFixed64 (drop (length akey - 8) akey); bnum = DecodeFixed64 (drop (length bkey - 8) bkey)
       in if bnum < anum then -1 else if anum < bnum then 1 else r
     else r)"

definition InternalKeyComparator_FindShortestSeparator ::
  "(byte list \<Rightarrow> byte list \<Rightarrow> int) \<Rightarrow> (byte list \<Rightarrow> byte list \<Rightarrow> byte list) \<Rightarrow> byte list \<Rightarrow> byte list \<Rightarrow> byte list" where
  "InternalKeyComparator_FindShortestSeparator user user_separator start limit =
    (let user_start = ExtractUserKey start; user_limit = ExtractUserKey limit;
         tmp = user_separator user_start user_limit
     in if length tmp < length user_start \<and> user user_start tmp < 0
        then PutFixed64 tmp (PackSequenceAndType kMaxSequenceNumber kValueTypeForSeek) else start)"

definition InternalKeyComparator_FindShortSuccessor ::
  "(byte list \<Rightarrow> byte list \<Rightarrow> int) \<Rightarrow> (byte list \<Rightarrow> byte list) \<Rightarrow> byte list \<Rightarrow> byte list" where
  "InternalKeyComparator_FindShortSuccessor user user_successor key =
    (let user_key = ExtractUserKey key; tmp = user_successor user_key
     in if length tmp < length user_key \<and> user user_key tmp < 0
        then PutFixed64 tmp (PackSequenceAndType kMaxSequenceNumber kValueTypeForSeek) else key)"

text \<open>\<open>LookupKey\<close>: its buffer, and the three slices of it.\<close>

record lookup_key =
  lk_start :: "byte list"
  lk_klength :: nat  \<comment> \<open>\<open>kstart_ - start_\<close>\<close>

definition LookupKey :: "byte list \<Rightarrow> u64 \<Rightarrow> lookup_key" where
  "LookupKey user_key s =
    (let usize = length user_key; k = EncodeVarint32 (of_nat (usize + 8))
     in \<lparr>lk_start = k @ user_key @ EncodeFixed64 (PackSequenceAndType s kValueTypeForSeek), lk_klength = length k\<rparr>)"

definition memtable_key :: "lookup_key \<Rightarrow> byte list" where
  "memtable_key l = lk_start l"

definition internal_key :: "lookup_key \<Rightarrow> byte list" where
  "internal_key l = drop (lk_klength l) (lk_start l)"

definition lookup_user_key :: "lookup_key \<Rightarrow> byte list" where
  "lookup_user_key l = take (length (lk_start l) - lk_klength l - 8) (drop (lk_klength l) (lk_start l))"

section \<open>What a comparator promises\<close>

text \<open>
  The contract of \<open>include/leveldb/comparator.h\<close>: a three-way comparison of the keys that are \<open>valid\<close>, which is a
  total order; a separator lies between its arguments, a successor not before its argument.
\<close>

locale comparator =
  fixes compare :: "byte list \<Rightarrow> byte list \<Rightarrow> int"
    and separator :: "byte list \<Rightarrow> byte list \<Rightarrow> byte list"
    and successor :: "byte list \<Rightarrow> byte list"
    and valid :: "byte list \<Rightarrow> bool"
  assumes compare_eq: "valid a \<Longrightarrow> valid b \<Longrightarrow> compare a b = 0 \<longleftrightarrow> a = b"
    and compare_swap: "valid a \<Longrightarrow> valid b \<Longrightarrow> compare a b < 0 \<longleftrightarrow> 0 < compare b a"
    and compare_trans: "valid a \<Longrightarrow> valid b \<Longrightarrow> valid c \<Longrightarrow> compare a b < 0 \<Longrightarrow> compare b c < 0 \<Longrightarrow> compare a c < 0"
    and separator_valid: "valid a \<Longrightarrow> valid b \<Longrightarrow> valid (separator a b)"
    and separator_between: "valid a \<Longrightarrow> valid b \<Longrightarrow> compare a b < 0 \<Longrightarrow>
      compare a (separator a b) \<le> 0 \<and> compare (separator a b) b < 0"
    and successor_valid: "valid a \<Longrightarrow> valid (successor a)"
    and successor_after: "valid a \<Longrightarrow> compare a (successor a) \<le> 0"
begin

lemma compare_self [simp]: "valid a \<Longrightarrow> compare a a = 0"
  by (simp add: compare_eq)

lemma compare_le_less: "valid a \<Longrightarrow> valid b \<Longrightarrow> valid c \<Longrightarrow> compare a b \<le> 0 \<Longrightarrow> compare b c < 0 \<Longrightarrow> compare a c < 0"
  using compare_eq [of a b] compare_trans [of a b c] by (cases "compare a b = 0") auto

lemma compare_less_le: "valid a \<Longrightarrow> valid b \<Longrightarrow> valid c \<Longrightarrow> compare a b < 0 \<Longrightarrow> compare b c \<le> 0 \<Longrightarrow> compare a c < 0"
  using compare_eq [of b c] compare_trans [of a b c] by (cases "compare b c = 0") auto

lemma compare_ge: "valid a \<Longrightarrow> valid b \<Longrightarrow> 0 \<le> compare a b \<longleftrightarrow> compare b a \<le> 0"
  using compare_swap [of a b] by auto

end

lemma Slice_compare_simps [simp]:
  "Slice_compare [] [] = 0" "Slice_compare [] (y # ys) = -1" "Slice_compare (x # xs) [] = 1"
  "Slice_compare (x # xs) (y # ys) = (if x = y then Slice_compare xs ys else if x < y then -1 else 1)"
  by (simp_all add: Slice_compare_def Let_def)

lemma Slice_compare_eq: "Slice_compare a b = 0 \<longleftrightarrow> a = b"
  by (induction a b rule: list_induct2') auto

lemma Slice_compare_self [simp]: "Slice_compare a a = 0"
  by (simp add: Slice_compare_eq)

lemma Slice_compare_swap: "Slice_compare b a = - Slice_compare a b"
  by (induction a b rule: list_induct2') auto

lemma Slice_compare_trans: "Slice_compare a b < 0 \<Longrightarrow> Slice_compare b c < 0 \<Longrightarrow> Slice_compare a c < 0"
proof (induction a arbitrary: b c)
  case Nil
  then show ?case by (cases b; cases c) auto
next
  case (Cons x xs)
  then show ?case by (cases b; cases c) (auto split: if_splits)
qed

lemma memcmp_Slice: "length a = length b \<Longrightarrow> memcmp a b = Slice_compare a b"
  by (induction a b rule: list_induct2) auto

text \<open>The separator cuts its first argument where the two differ.\<close>

lemma common_length_le: "common_length a b \<le> length a" "common_length a b \<le> length b"
  by (induction a b rule: common_length.induct) auto

lemma separator_Cons:
  "x = y \<Longrightarrow> Bytewise_FindShortestSeparator (x # xs) (y # ys) = x # Bytewise_FindShortestSeparator xs ys"
  by (simp add: Bytewise_FindShortestSeparator_def Let_def)

lemma Bytewise_separator_between:
  "Slice_compare a b < 0 \<Longrightarrow> Slice_compare a (Bytewise_FindShortestSeparator a b) \<le> 0 \<and>
    Slice_compare (Bytewise_FindShortestSeparator a b) b < 0"
proof (induction a b rule: list_induct2')
  case (4 x xs y ys)
  show ?case
  proof (cases "x = y")
    case True
    then show ?thesis using 4 by (simp add: separator_Cons)
  next
    case False
    then have xy: "x < y" using 4 by (simp split: if_splits)
    have s: "x < x + 1 \<and> x + 1 < y" if "x < 255" "unat x + 1 < unat y"
    proof -
      have "unat (x + 1) = unat x + 1" using that unsigned_less [of y, where ?'a = nat] by (simp add: unat_word_ariths)
      then show ?thesis using that by (simp add: word_less_nat_alt)
    qed
    show ?thesis using False xy s
      by (auto simp: Bytewise_FindShortestSeparator_def Let_def Slice_compare_eq)
  qed
qed (auto simp: Bytewise_FindShortestSeparator_def Let_def)

lemma byte_less_Suc: "b \<noteq> 0xff \<Longrightarrow> b < b + 1" for b :: byte
proof -
  assume "b \<noteq> 0xff"
  then have "unat b \<noteq> unat (0xff :: byte)" by (metis word_unat_eq_iff)
  then have "unat b < 255" using unsigned_less [of b, where ?'a = nat] by simp
  then have "unat (b + 1) = unat b + 1" by (simp add: unat_word_ariths)
  then show ?thesis by (simp add: word_less_nat_alt)
qed

lemma Bytewise_successor_after: "Slice_compare a (Bytewise_FindShortSuccessor a) \<le> 0"
proof (induction a)
  case (Cons b a)
  then show ?case using byte_less_Suc [of b] by auto
qed simp

interpretation bytewise: comparator Slice_compare Bytewise_FindShortestSeparator Bytewise_FindShortSuccessor "\<lambda>_. True"
proof unfold_locales
  fix a b show "Slice_compare a b < 0 \<longleftrightarrow> 0 < Slice_compare b a" using Slice_compare_swap [of b a] by simp
qed (simp_all add: Slice_compare_eq Slice_compare_trans Bytewise_separator_between Bytewise_successor_after)

section \<open>The order of internal keys\<close>

definition internal_valid :: "byte list \<Rightarrow> bool" where
  "internal_valid k \<longleftrightarrow> 8 \<le> length k"

definition tag_of :: "byte list \<Rightarrow> u64" where
  "tag_of k = DecodeFixed64 (drop (length k - 8) k)"

lemma le_bytes_le_word:
  assumes "length bs = n" "LENGTH('a) = 8 * n"
  shows "le_bytes n (le_word bs :: 'a::len word) = bs"
proof (rule nth_equalityI)
  fix i assume "i < length (le_bytes n (le_word bs :: 'a word))"
  then have i: "i < n" by simp
  have "(8 * i + k) div 8 = i" "(8 * i + k) mod 8 = k" "8 * i + k < 8 * n" if "k < 8" for k using that i by auto
  then show "le_bytes n (le_word bs :: 'a word) ! i = bs ! i"
    using i assms by (intro bit_word_eqI) (auto simp: le_bytes_def bit_simps bit_le_word)
qed (use assms in simp)

lemma internal_key_parts: "internal_valid k \<Longrightarrow> ExtractUserKey k @ EncodeFixed64 (tag_of k) = k"
proof -
  assume k: "internal_valid k"
  let ?t = "drop (length k - 8) k"
  have "length ?t = 8" using k by (simp add: internal_valid_def)
  then have "le_bytes 8 (le_word ?t :: u64) = ?t" by (intro le_bytes_le_word) simp_all
  then show ?thesis
    using append_take_drop_id [of "length k - 8" k] k
    by (simp add: ExtractUserKey_def tag_of_def EncodeFixed64_def DecodeFixed64_def kLittleEndian_def internal_valid_def)
qed

lemma tag_of_append [simp]: "tag_of (u @ EncodeFixed64 t) = t" "ExtractUserKey (u @ EncodeFixed64 t) = u"
  by (simp_all add: tag_of_def ExtractUserKey_def)

lemma internal_valid_append [simp]: "internal_valid (u @ EncodeFixed64 t)"
  by (simp add: internal_valid_def)

lemma internal_key_cases:
  assumes "internal_valid k"
  obtains u t where "k = u @ EncodeFixed64 t"
  using internal_key_parts [OF assms] by metis

lemma Internal_Compare_append [simp]:
  "InternalKeyComparator_Compare user (u @ EncodeFixed64 s) (v @ EncodeFixed64 t) =
    (let r = user u v in if r = 0 then if t < s then -1 else if s < t then 1 else 0 else r)"
  by (simp add: InternalKeyComparator_Compare_def Let_def ExtractUserKey_def)

lemma user_key_append_eq: "u @ EncodeFixed64 s = v @ EncodeFixed64 t \<longleftrightarrow> u = v \<and> s = t"
  by (metis tag_of_append)

context comparator
begin

text \<open>An internal comparator inherits the contract, if the user's separator leaves equal keys alone.\<close>

lemma internal_comparator:
  assumes all: "\<And>k. valid k" and same: "\<And>k. separator k k = k"
  shows "comparator (InternalKeyComparator_Compare compare) (InternalKeyComparator_FindShortestSeparator compare separator)
    (InternalKeyComparator_FindShortSuccessor compare successor) internal_valid"
proof unfold_locales
  note [simp] = compare_self [OF all] compare_eq [OF all all] user_key_append_eq Let_def
  have swap: "compare a b < 0 \<longleftrightarrow> 0 < compare b a" for a b using compare_swap all by blast
  fix a b c assume a: "internal_valid a"
  then obtain u s where au: "a = u @ EncodeFixed64 s" by (rule internal_key_cases)
  show "internal_valid (InternalKeyComparator_FindShortSuccessor compare successor a)"
    "InternalKeyComparator_Compare compare a (InternalKeyComparator_FindShortSuccessor compare successor a) \<le> 0"
    by (auto simp: au InternalKeyComparator_FindShortSuccessor_def PutFixed64_def)
  assume b: "internal_valid b"
  then obtain v t where bv: "b = v @ EncodeFixed64 t" by (rule internal_key_cases)
  show "InternalKeyComparator_Compare compare a b = 0 \<longleftrightarrow> a = b" by (auto simp: au bv)
  show "InternalKeyComparator_Compare compare a b < 0 \<longleftrightarrow> 0 < InternalKeyComparator_Compare compare b a"
    using swap [of u v] swap [of v u] by (auto simp: au bv)
  show "internal_valid (InternalKeyComparator_FindShortestSeparator compare separator a b)"
    by (auto simp: au bv InternalKeyComparator_FindShortestSeparator_def PutFixed64_def)
  show "InternalKeyComparator_Compare compare a (InternalKeyComparator_FindShortestSeparator compare separator a b) \<le> 0 \<and>
      InternalKeyComparator_Compare compare (InternalKeyComparator_FindShortestSeparator compare separator a b) b < 0"
    if "InternalKeyComparator_Compare compare a b < 0"
    using that separator_between [OF all all, of u v] same [of u]
    by (cases "u = v") (auto simp: au bv InternalKeyComparator_FindShortestSeparator_def PutFixed64_def split: if_splits)
  assume "internal_valid c"
  then obtain w x where cw: "c = w @ EncodeFixed64 x" by (rule internal_key_cases)
  show "InternalKeyComparator_Compare compare a c < 0"
    if "InternalKeyComparator_Compare compare a b < 0" "InternalKeyComparator_Compare compare b c < 0"
    using that compare_trans [OF all all all, of u v w] swap [of u w] by (auto simp: au bv cw split: if_splits)
qed

end

lemma Bytewise_separator_same: "Bytewise_FindShortestSeparator k k = k"
proof -
  have "common_length k k = length k" by (induction k) auto
  then show ?thesis by (simp add: Bytewise_FindShortestSeparator_def)
qed

interpretation internal: comparator "InternalKeyComparator_Compare Slice_compare"
  "InternalKeyComparator_FindShortestSeparator Slice_compare Bytewise_FindShortestSeparator"
  "InternalKeyComparator_FindShortSuccessor Slice_compare Bytewise_FindShortSuccessor" internal_valid
  by (rule bytewise.internal_comparator) (simp_all add: Bytewise_separator_same)

lemma pack_less:
  assumes "s \<le> kMaxSequenceNumber" "s' \<le> kMaxSequenceNumber"
  shows "PackSequenceAndType s t < PackSequenceAndType s' t' \<longleftrightarrow> s < s' \<or> s = s' \<and> t < t'"
proof -
  have max: "unat kMaxSequenceNumber = 2 ^ 56 - 1" by (simp add: kMaxSequenceNumber_def)
  have "unat (PackSequenceAndType s t) = unat s * 256 + unat t" if "s \<le> kMaxSequenceNumber" for s t
  proof -
    have "unat s < 2 ^ 56" using that max by (simp add: word_le_nat_alt)
    moreover have "PackSequenceAndType s t = s * 256 + ucast t"
    proof -
      have "push_bit 8 s + ucast t = push_bit 8 s OR (ucast t :: u64)"
        by (rule disjunctive_add) (auto simp: bit_simps dest: bit_imp_le_length)
      then show ?thesis by (simp add: PackSequenceAndType_def push_bit_eq_mult)
    qed
    ultimately show ?thesis using unsigned_less [of t, where ?'a = nat]
      by (simp add: unat_word_ariths unsigned_ucast_eq take_bit_nat_eq_self)
  qed
  then show ?thesis
    using assms unsigned_less [of t, where ?'a = nat] unsigned_less [of t', where ?'a = nat]
    by (auto simp: word_less_nat_alt word_unat_eq_iff)
qed

lemma Parse_Append:
  assumes "pk_sequence k \<le> kMaxSequenceNumber" "pk_type k \<le> kTypeValue"
  shows "ParseInternalKey (AppendInternalKey [] k) = (True, Some k)"
proof -
  let ?p = "PackSequenceAndType (pk_sequence k) (pk_type k)"
  have "\<not> bit (pk_sequence k) n" if "56 \<le> n" for n
    using unat_less_exp_iff [of "pk_sequence k" 56] assms(1) that
    by (auto simp: word_le_nat_alt kMaxSequenceNumber_def)
  then have "drop_bit 8 ?p = pk_sequence k"
    by (intro bit_word_eqI) (auto simp: PackSequenceAndType_def bit_simps dest: bit_imp_le_length, metis not_less add.commute le_diff_conv2 numeral_le_iff) 
  moreover have "(ucast (?p AND 0xff) :: byte) = pk_type k"
    by (rule bit_word_eqI) (auto simp: PackSequenceAndType_def bit_simps)
  ultimately show ?thesis using assms(2)
    by (simp add: ParseInternalKey_def AppendInternalKey_def PutFixed64_def Let_def)
qed

text \<open>
  C20: internal keys are read back as they were packed, and the internal comparator orders them by increasing user
  key, then by decreasing sequence number, then by decreasing type.
\<close>

theorem internal_key_order:
  assumes "pk_sequence p \<le> kMaxSequenceNumber" "pk_sequence q \<le> kMaxSequenceNumber" "pk_type p \<le> kTypeValue"
  shows "ParseInternalKey (AppendInternalKey [] p) = (True, Some p) \<and>
    (InternalKeyComparator_Compare Slice_compare (AppendInternalKey [] p) (AppendInternalKey [] q) < 0 \<longleftrightarrow>
      Slice_compare (pk_user_key p) (pk_user_key q) < 0 \<or>
      pk_user_key p = pk_user_key q \<and>
        (pk_sequence q < pk_sequence p \<or> pk_sequence p = pk_sequence q \<and> pk_type q < pk_type p))"
  using Parse_Append [OF assms(1,3)] pack_less [OF assms(2,1)]
  by (auto simp: AppendInternalKey_def PutFixed64_def Let_def Slice_compare_eq)

lemma internal_key_order_witness:
  "InternalKeyComparator_Compare Slice_compare
    (AppendInternalKey [] \<lparr>pk_user_key = [97], pk_sequence = 8, pk_type = kTypeDeletion\<rparr>)
    (AppendInternalKey [] \<lparr>pk_user_key = [97], pk_sequence = 7, pk_type = kTypeValue\<rparr>) < 0"
  using internal_key_order [of "\<lparr>pk_user_key = [97], pk_sequence = 8, pk_type = kTypeDeletion\<rparr>"
      "\<lparr>pk_user_key = [97], pk_sequence = 7, pk_type = kTypeValue\<rparr>"]
  by (simp add: kMaxSequenceNumber_def kTypeDeletion_def kTypeValue_def)

text \<open>
  C21: the index keys that \<open>FindShortestSeparator\<close> and \<open>FindShortSuccessor\<close> make of internal keys, with the bytewise
  user order, lie where the asserts of the code say: not before the first key, and before the limit.
\<close>

theorem internal_separators:
  "8 \<le> length a \<Longrightarrow> 8 \<le> length b \<Longrightarrow> InternalKeyComparator_Compare Slice_compare a b < 0 \<Longrightarrow>
    (let s = InternalKeyComparator_FindShortestSeparator Slice_compare Bytewise_FindShortestSeparator a b in
     8 \<le> length s \<and> InternalKeyComparator_Compare Slice_compare a s \<le> 0 \<and> InternalKeyComparator_Compare Slice_compare s b < 0) \<and>
    InternalKeyComparator_Compare Slice_compare a
      (InternalKeyComparator_FindShortSuccessor Slice_compare Bytewise_FindShortSuccessor a) \<le> 0"
  using internal.separator_valid internal.separator_between internal.successor_after
  by (simp add: internal_valid_def Let_def)

lemma internal_separators_witness:
  "InternalKeyComparator_Compare Slice_compare ([97, 98] @ EncodeFixed64 1)
    (InternalKeyComparator_FindShortSuccessor Slice_compare Bytewise_FindShortSuccessor ([97, 98] @ EncodeFixed64 1)) \<le> 0"
proof -
  have "InternalKeyComparator_Compare Slice_compare ([97, 98] @ EncodeFixed64 1) ([99] @ EncodeFixed64 1) < 0"
    unfolding Internal_Compare_append by simp
  from conjunct2 [OF internal_separators [OF _ _ this]] show ?thesis by simp
qed

lemma LookupKey_slices:
  "internal_key (LookupKey u s) = AppendInternalKey [] \<lparr>pk_user_key = u, pk_sequence = s, pk_type = kValueTypeForSeek\<rparr>"
  "lookup_user_key (LookupKey u s) = u"
  by (simp_all add: internal_key_def lookup_user_key_def LookupKey_def AppendInternalKey_def PutFixed64_def Let_def)

end
