(* ===== verification/Lv_Write_Batch.thy ===== *)
theory Lv_Write_Batch
  imports Lv_Dbformat
begin

text \<open>
  \<open>db/write_batch.cc\<close>: the operations of a write batch over its serialised form, and the iteration that replays it.
\<close>

section \<open>Write batches\<close>

text \<open>The record is \<open>rep_\<close>: a sequence number, a count, and the operations.\<close>

definition kHeader :: nat where "kHeader = 12"

definition WriteBatch_Clear :: "byte list" where
  "WriteBatch_Clear = replicate kHeader 0"

definition WriteBatch_Count :: "byte list \<Rightarrow> u32" where
  "WriteBatch_Count rep = DecodeFixed32 (drop 8 rep)"

definition WriteBatch_SetCount :: "byte list \<Rightarrow> u32 \<Rightarrow> byte list" where
  "WriteBatch_SetCount rep n = take 8 rep @ EncodeFixed32 n @ drop 12 rep"

definition WriteBatch_Sequence :: "byte list \<Rightarrow> u64" where
  "WriteBatch_Sequence rep = DecodeFixed64 rep"

definition WriteBatch_SetSequence :: "byte list \<Rightarrow> u64 \<Rightarrow> byte list" where
  "WriteBatch_SetSequence rep seq = EncodeFixed64 seq @ drop 8 rep"

definition WriteBatch_Put :: "byte list \<Rightarrow> byte list \<Rightarrow> byte list \<Rightarrow> byte list" where
  "WriteBatch_Put rep key value =
    PutLengthPrefixedSlice
      (PutLengthPrefixedSlice (WriteBatch_SetCount rep (WriteBatch_Count rep + 1) @ [kTypeValue]) key) value"

definition WriteBatch_Delete :: "byte list \<Rightarrow> byte list \<Rightarrow> byte list" where
  "WriteBatch_Delete rep key =
    PutLengthPrefixedSlice (WriteBatch_SetCount rep (WriteBatch_Count rep + 1) @ [kTypeDeletion]) key"

definition WriteBatch_SetContents :: "byte list \<Rightarrow> byte list" where
  "WriteBatch_SetContents contents = contents"

definition WriteBatch_Append :: "byte list \<Rightarrow> byte list \<Rightarrow> byte list" where
  "WriteBatch_Append dst src =
    WriteBatch_SetCount dst (WriteBatch_Count dst + WriteBatch_Count src) @ drop kHeader src"

text \<open>A handler is its two methods on its state \<open>h\<close>.\<close>

function Iterate_loop ::
  "('h \<Rightarrow> byte list \<Rightarrow> byte list \<Rightarrow> 'h) \<Rightarrow> ('h \<Rightarrow> byte list \<Rightarrow> 'h) \<Rightarrow> byte list \<Rightarrow> nat \<Rightarrow> 'h \<Rightarrow>
    'h \<times> (status + nat)" where
  "Iterate_loop hput hdelete input found h =
    (if input = [] then (h, Inr found)
     else
       let tag = hd input; input' = tl input in
       if tag = kTypeValue then
         case GetLengthPrefixedSlice input' of
           (None, _) \<Rightarrow> (h, Inl (Status_make kCorruption ''bad WriteBatch Put'' []))
         | (Some key, input'') \<Rightarrow>
             (case GetLengthPrefixedSlice input'' of
                (None, _) \<Rightarrow> (h, Inl (Status_make kCorruption ''bad WriteBatch Put'' []))
              | (Some val, input''') \<Rightarrow> Iterate_loop hput hdelete input''' (found + 1) (hput h key val))
       else if tag = kTypeDeletion then
         case GetLengthPrefixedSlice input' of
           (None, _) \<Rightarrow> (h, Inl (Status_make kCorruption ''bad WriteBatch Delete'' []))
         | (Some key, input'') \<Rightarrow> Iterate_loop hput hdelete input'' (found + 1) (hdelete h key)
       else (h, Inl (Status_make kCorruption ''unknown WriteBatch tag'' [])))"
  by pat_completeness auto
termination
proof (relation "measure (\<lambda>(_, _, input, _). length input)", goal_cases)
  case (2 hput hdelete input found h tag input' oa input'' key ob input''' val)
  then have "length input'' < length input'" "length input''' < length input''" "length input' < length input"
    by (auto dest!: GetLengthPrefixedSlice_shorter [OF sym])
  then show ?case by simp
next
  case (3 hput hdelete input found h tag input' oa input'' key)
  then have "length input'' < length input'" "length input' < length input"
    by (auto dest!: GetLengthPrefixedSlice_shorter [OF sym])
  then show ?case by simp
qed simp

declare Iterate_loop.simps [simp del]

definition WriteBatch_Iterate ::
  "('h \<Rightarrow> byte list \<Rightarrow> byte list \<Rightarrow> 'h) \<Rightarrow> ('h \<Rightarrow> byte list \<Rightarrow> 'h) \<Rightarrow> byte list \<Rightarrow> 'h \<Rightarrow> 'h \<times> status" where
  "WriteBatch_Iterate hput hdelete rep h =
    (if length rep < kHeader then (h, Status_make kCorruption ''malformed WriteBatch (too small)'' [])
     else case Iterate_loop hput hdelete (drop kHeader rep) 0 h of
       (h, Inl s) \<Rightarrow> (h, s)
     | (h, Inr found) \<Rightarrow>
         if of_nat found \<noteq> WriteBatch_Count rep then (h, Status_make kCorruption ''WriteBatch has wrong count'' [])
         else (h, Status_OK))"

section \<open>A batch holds the operations put into it\<close>

datatype batch_op = Batch_put "byte list" "byte list" | Batch_delete "byte list"

fun op_bytes :: "batch_op \<Rightarrow> byte list" where
  "op_bytes (Batch_put k v) = kTypeValue # (vint (length k) @ k) @ vint (length v) @ v"
| "op_bytes (Batch_delete k) = kTypeDeletion # vint (length k) @ k"

fun op_small :: "batch_op \<Rightarrow> bool" where
  "op_small (Batch_put k v) \<longleftrightarrow> length k < 2 ^ 32 \<and> length v < 2 ^ 32"
| "op_small (Batch_delete k) \<longleftrightarrow> length k < 2 ^ 32"

fun add_op :: "byte list \<Rightarrow> batch_op \<Rightarrow> byte list" where
  "add_op rep (Batch_put k v) = WriteBatch_Put rep k v"
| "add_op rep (Batch_delete k) = WriteBatch_Delete rep k"

fun handle_op :: "('h \<Rightarrow> byte list \<Rightarrow> byte list \<Rightarrow> 'h) \<Rightarrow> ('h \<Rightarrow> byte list \<Rightarrow> 'h) \<Rightarrow> 'h \<Rightarrow> batch_op \<Rightarrow> 'h" where
  "handle_op hput hdelete h (Batch_put k v) = hput h k v"
| "handle_op hput hdelete h (Batch_delete k) = hdelete h k"

definition batch_bytes :: "u64 \<Rightarrow> batch_op list \<Rightarrow> byte list" where
  "batch_bytes seq ops = EncodeFixed64 seq @ EncodeFixed32 (of_nat (length ops)) @ concat (map op_bytes ops)"

lemma batch_bytes_Clear: "WriteBatch_Clear = batch_bytes 0 []"
  by (simp add: WriteBatch_Clear_def batch_bytes_def kHeader_def EncodeFixed64_def EncodeFixed32_def kLittleEndian_def
      le_bytes_def map_replicate_const flip: replicate_add)

lemma batch_bytes_SetSequence: "WriteBatch_SetSequence (batch_bytes seq ops) seq' = batch_bytes seq' ops"
  by (simp add: WriteBatch_SetSequence_def batch_bytes_def)

lemma batch_bytes_Count [simp]: "WriteBatch_Count (batch_bytes seq ops) = of_nat (length ops)"
  "WriteBatch_Sequence (batch_bytes seq ops) = seq"
  by (simp_all add: WriteBatch_Count_def WriteBatch_Sequence_def batch_bytes_def)

lemma batch_bytes_SetCount:
  "WriteBatch_SetCount (batch_bytes seq ops) n @ x = EncodeFixed64 seq @ EncodeFixed32 n @ concat (map op_bytes ops) @ x"
  by (simp add: WriteBatch_SetCount_def batch_bytes_def)

lemma batch_bytes_add: "op_small op \<Longrightarrow> add_op (batch_bytes seq ops) op = batch_bytes seq (ops @ [op])"
  by (cases op) (simp_all add: WriteBatch_Put_def WriteBatch_Delete_def batch_bytes_SetCount PutLengthPrefixedSlice_vint,
      simp_all add: batch_bytes_def ac_simps)

lemma batch_bytes_adds: "\<forall>op \<in> set ops. op_small op \<Longrightarrow> foldl add_op (batch_bytes seq ops') ops = batch_bytes seq (ops' @ ops)"
  by (induction ops arbitrary: ops') (simp_all add: batch_bytes_add)

lemma batch_bytes_Append: "WriteBatch_Append (batch_bytes seq ops) (batch_bytes seq' ops') = batch_bytes seq (ops @ ops')"
  unfolding WriteBatch_Append_def batch_bytes_SetCount batch_bytes_Count
  by (simp add: batch_bytes_def kHeader_def ac_simps)

lemma Iterate_loop_ops:
  "\<forall>op \<in> set ops. op_small op \<Longrightarrow>
    Iterate_loop hput hdelete (concat (map op_bytes ops)) n h = (foldl (handle_op hput hdelete) h ops, Inr (n + length ops))"
proof (induction ops arbitrary: n h)
  case Nil
  then show ?case by (simp add: Iterate_loop.simps)
next
  case (Cons op ops)
  then show ?case
    by (cases op; subst Iterate_loop.simps) (simp_all add: kTypeValue_def kTypeDeletion_def)
qed

lemma Iterate_ops:
  "\<forall>op \<in> set ops. op_small op \<Longrightarrow>
    WriteBatch_Iterate hput hdelete (batch_bytes seq ops) h = (foldl (handle_op hput hdelete) h ops, Status_OK)"
proof -
  assume ops: "\<forall>op \<in> set ops. op_small op"
  have "kHeader \<le> length (batch_bytes seq ops)" "drop kHeader (batch_bytes seq ops) = concat (map op_bytes ops)"
    by (simp_all add: batch_bytes_def kHeader_def)
  then show ?thesis by (simp add: WriteBatch_Iterate_def Iterate_loop_ops [OF ops])
qed

text \<open>
  C17: iterating over a batch, built by any sequence of \<open>Put\<close> and \<open>Delete\<close> and by appending another such batch, calls
  the handler with exactly these operations in their order and reports no corruption.
\<close>

theorem write_batch_roundtrip:
  assumes "\<forall>op \<in> set (ops @ ops'). op_small op"
  shows "WriteBatch_Iterate hput hdelete
      (WriteBatch_Append (WriteBatch_SetSequence (foldl add_op WriteBatch_Clear ops) seq) (foldl add_op WriteBatch_Clear ops')) h =
    (foldl (handle_op hput hdelete) h (ops @ ops'), Status_OK)"
proof -
  have "foldl add_op WriteBatch_Clear ops = batch_bytes 0 ops" "foldl add_op WriteBatch_Clear ops' = batch_bytes 0 ops'"
    using assms batch_bytes_adds [of ops 0 "[]"] batch_bytes_adds [of ops' 0 "[]"] by (simp_all add: batch_bytes_Clear)
  then show ?thesis using Iterate_ops [OF assms]
    by (simp add: batch_bytes_SetSequence batch_bytes_Append)
qed

lemma write_batch_roundtrip_witness:
  "snd (WriteBatch_Iterate (\<lambda>h k v. h @ [k]) (\<lambda>h k. h)
      (WriteBatch_Append (WriteBatch_SetSequence (foldl add_op WriteBatch_Clear [Batch_put [1] [2]]) 7)
        (foldl add_op WriteBatch_Clear [Batch_delete [3]])) []) = Status_OK"
  using write_batch_roundtrip [of "[Batch_put [1] [2]]" "[Batch_delete [3]]" "\<lambda>h k v. h @ [k]" "\<lambda>h k. h" 7 "[]"] by simp

end
