(* ===== verification/Lv_Skiplist.thy ===== *)
theory Lv_Skiplist
  imports Lv_Write_Batch "HOL-Library.Monad_Syntax"
begin

text \<open>
  \<open>util/random.h\<close> and \<open>db/skiplist.h\<close>: the skip list under the memtable, as nodes in memory with an array of links each.
  The writer is alone, as the code asks; the memory order of the links is not modelled.
\<close>

section \<open>Random numbers\<close>

definition Random_seed :: "u32 \<Rightarrow> u32" where
  "Random_seed s = (let seed = s AND 0x7fffffff in if seed = 0 \<or> seed = 2147483647 then 1 else seed)"

text \<open>\<open>Next\<close> returns the new seed.\<close>

definition Random_Next :: "u32 \<Rightarrow> u32" where
  "Random_Next seed =
    (let product = ucast seed * 16807 :: u64;
         seed' = ucast (drop_bit 31 product + (product AND 2147483647)) :: u32
     in if 2147483647 < seed' then seed' - 2147483647 else seed')"

section \<open>Nodes\<close>

text \<open>
  A node is its key and its links, one for each level below its height; \<open>None\<close> in the place of a link is memory that
  has not been written yet.  The arena hands out addresses that have not been used.  Going through a pointer to no
  node, reading a link above the height of a node or one that has not been written, and a failed assertion are
  the result \<open>None\<close>.
\<close>

definition kMaxHeight :: nat where "kMaxHeight = 12"

definition sl_head :: nat where "sl_head = 0"

record 'k skip_node =
  nd_key :: 'k
  nd_next :: "nat option option list"

record 'k skiplist =
  sl_nodes :: "nat \<rightharpoonup> 'k skip_node"
  sl_arena :: nat
  sl_max_height :: nat
  sl_rnd :: u32

definition node_Next :: "'k skiplist \<Rightarrow> nat \<Rightarrow> nat \<Rightarrow> nat option option" where
  "node_Next s x n =
    do { nd \<leftarrow> sl_nodes s x; if n < length (nd_next nd) then nd_next nd ! n else None }"

definition node_SetNext :: "nat \<Rightarrow> nat \<Rightarrow> nat option \<Rightarrow> 'k skiplist \<Rightarrow> 'k skiplist option" where
  "node_SetNext x n y s =
    do { nd \<leftarrow> sl_nodes s x;
         if n < length (nd_next nd)
         then Some (s\<lparr>sl_nodes := (sl_nodes s)(x \<mapsto> nd\<lparr>nd_next := (nd_next nd)[n := Some y]\<rparr>)\<rparr>) else None }"

definition node_key :: "'k skiplist \<Rightarrow> nat \<Rightarrow> 'k option" where
  "node_key s x = map_option nd_key (sl_nodes s x)"

definition NewNode :: "'k \<Rightarrow> nat \<Rightarrow> 'k skiplist \<Rightarrow> nat \<times> 'k skiplist" where
  "NewNode key height s =
    (sl_arena s, s\<lparr>sl_nodes := (sl_nodes s)(sl_arena s \<mapsto> \<lparr>nd_key = key, nd_next = replicate height None\<rparr>),
                   sl_arena := sl_arena s + 1\<rparr>)"

definition SkipList :: "'k \<Rightarrow> 'k skiplist" where
  "SkipList any_key =
    \<lparr>sl_nodes = [sl_head \<mapsto> \<lparr>nd_key = any_key, nd_next = replicate kMaxHeight (Some None)\<rparr>], sl_arena = 1,
     sl_max_height = 1, sl_rnd = Random_seed 0xdeadbeef\<rparr>"

section \<open>Searching\<close>

definition KeyIsAfterNode :: "('k \<Rightarrow> 'k \<Rightarrow> int) \<Rightarrow> 'k skiplist \<Rightarrow> 'k \<Rightarrow> nat option \<Rightarrow> bool option" where
  "KeyIsAfterNode compare s key n =
    (case n of None \<Rightarrow> Some False | Some a \<Rightarrow> map_option (\<lambda>k. compare k key < 0) (node_key s a))"

text \<open>\<open>prev\<close> is \<open>None\<close> for a null pointer, otherwise the array it points to.\<close>

partial_function (option) FindGreaterOrEqual_loop ::
  "('k \<Rightarrow> 'k \<Rightarrow> int) \<Rightarrow> 'k skiplist \<Rightarrow> 'k \<Rightarrow> nat \<Rightarrow> nat \<Rightarrow> nat option list option \<Rightarrow>
    (nat option \<times> nat option list option) option" where
  "FindGreaterOrEqual_loop compare s key x level prev =
    do { next \<leftarrow> node_Next s x level;
         after \<leftarrow> KeyIsAfterNode compare s key next;
         if after then FindGreaterOrEqual_loop compare s key (the next) level prev
         else
           let prev = map_option (\<lambda>p. p[level := Some x]) prev
           in if level = 0 then Some (next, prev)
              else FindGreaterOrEqual_loop compare s key x (level - 1) prev }"

definition FindGreaterOrEqual ::
  "('k \<Rightarrow> 'k \<Rightarrow> int) \<Rightarrow> 'k skiplist \<Rightarrow> 'k \<Rightarrow> nat option list option \<Rightarrow> (nat option \<times> nat option list option) option" where
  "FindGreaterOrEqual compare s key prev = FindGreaterOrEqual_loop compare s key sl_head (sl_max_height s - 1) prev"

partial_function (option) FindLessThan_loop ::
  "('k \<Rightarrow> 'k \<Rightarrow> int) \<Rightarrow> 'k skiplist \<Rightarrow> 'k \<Rightarrow> nat \<Rightarrow> nat \<Rightarrow> nat option" where
  "FindLessThan_loop compare s key x level =
    do { before \<leftarrow> (if x = sl_head then Some True else map_option (\<lambda>k. compare k key < 0) (node_key s x));
         if \<not> before then None
         else do {
           next \<leftarrow> node_Next s x level;
           stop \<leftarrow> (case next of None \<Rightarrow> Some True | Some a \<Rightarrow> map_option (\<lambda>k. 0 \<le> compare k key) (node_key s a));
           if stop then if level = 0 then Some x else FindLessThan_loop compare s key x (level - 1)
           else FindLessThan_loop compare s key (the next) level } }"

definition FindLessThan :: "('k \<Rightarrow> 'k \<Rightarrow> int) \<Rightarrow> 'k skiplist \<Rightarrow> 'k \<Rightarrow> nat option" where
  "FindLessThan compare s key = FindLessThan_loop compare s key sl_head (sl_max_height s - 1)"

partial_function (option) FindLast_loop :: "'k skiplist \<Rightarrow> nat \<Rightarrow> nat \<Rightarrow> nat option" where
  "FindLast_loop s x level =
    do { next \<leftarrow> node_Next s x level;
         case next of
           None \<Rightarrow> if level = 0 then Some x else FindLast_loop s x (level - 1)
         | Some n \<Rightarrow> FindLast_loop s n level }"

definition FindLast :: "'k skiplist \<Rightarrow> nat option" where
  "FindLast s = FindLast_loop s sl_head (sl_max_height s - 1)"

section \<open>Insertion\<close>

function RandomHeight_loop :: "u32 \<Rightarrow> nat \<Rightarrow> u32 \<times> nat" where
  "RandomHeight_loop rnd height =
    (if height < kMaxHeight then
       let rnd = Random_Next rnd in if rnd mod 4 = 0 then RandomHeight_loop rnd (height + 1) else (rnd, height)
     else (rnd, height))"
  by pat_completeness auto
termination by (relation "measure (\<lambda>(_, height). kMaxHeight - height)") auto

declare RandomHeight_loop.simps [simp del]

definition RandomHeight :: "u32 \<Rightarrow> u32 \<times> nat" where
  "RandomHeight rnd = RandomHeight_loop rnd 1"

fun link_levels :: "nat \<Rightarrow> nat option list \<Rightarrow> nat list \<Rightarrow> 'k skiplist \<Rightarrow> 'k skiplist option" where
  "link_levels x prev [] s = Some s"
| "link_levels x prev (i # is) s =
    do { p \<leftarrow> (if i < length prev then prev ! i else None);
         next \<leftarrow> node_Next s p i;
         s \<leftarrow> node_SetNext x i next s;
         s \<leftarrow> node_SetNext p i (Some x) s;
         link_levels x prev is s }"

definition SkipList_Insert :: "('k \<Rightarrow> 'k \<Rightarrow> int) \<Rightarrow> 'k \<Rightarrow> 'k skiplist \<Rightarrow> 'k skiplist option" where
  "SkipList_Insert compare key s =
    do { (x, prev) \<leftarrow> FindGreaterOrEqual compare s key (Some (replicate kMaxHeight None));
         fresh \<leftarrow> (case x of None \<Rightarrow> Some True | Some a \<Rightarrow> map_option (\<lambda>k. compare key k \<noteq> 0) (node_key s a));
         if \<not> fresh then None
         else
           let (rnd, height) = RandomHeight (sl_rnd s);
               s = s\<lparr>sl_rnd := rnd\<rparr>;
               prev = the prev;
               prev = (if sl_max_height s < height
                       then foldl (\<lambda>p i. p[i := Some sl_head]) prev [sl_max_height s ..< height] else prev);
               s = (if sl_max_height s < height then s\<lparr>sl_max_height := height\<rparr> else s);
               (x, s) = NewNode key height s
           in link_levels x prev [0 ..< height] s }"

definition SkipList_Contains :: "('k \<Rightarrow> 'k \<Rightarrow> int) \<Rightarrow> 'k skiplist \<Rightarrow> 'k \<Rightarrow> bool option" where
  "SkipList_Contains compare s key =
    do { (x, _) \<leftarrow> FindGreaterOrEqual compare s key None;
         case x of None \<Rightarrow> Some False | Some a \<Rightarrow> map_option (\<lambda>k. compare key k = 0) (node_key s a) }"

section \<open>The iterator\<close>

text \<open>An iterator is its \<open>node_\<close>; the list it goes over is an argument.\<close>

definition SkipIter_Valid :: "nat option \<Rightarrow> bool" where "SkipIter_Valid node = (node \<noteq> None)"

definition SkipIter_key :: "'k skiplist \<Rightarrow> nat option \<Rightarrow> 'k option" where
  "SkipIter_key s node = do { n \<leftarrow> node; node_key s n }"

definition SkipIter_Next :: "'k skiplist \<Rightarrow> nat option \<Rightarrow> nat option option" where
  "SkipIter_Next s node = do { n \<leftarrow> node; node_Next s n 0 }"

definition SkipIter_Prev :: "('k \<Rightarrow> 'k \<Rightarrow> int) \<Rightarrow> 'k skiplist \<Rightarrow> nat option \<Rightarrow> nat option option" where
  "SkipIter_Prev compare s node =
    do { n \<leftarrow> node; key \<leftarrow> node_key s n; n \<leftarrow> FindLessThan compare s key; Some (if n = sl_head then None else Some n) }"

definition SkipIter_Seek :: "('k \<Rightarrow> 'k \<Rightarrow> int) \<Rightarrow> 'k skiplist \<Rightarrow> 'k \<Rightarrow> nat option option" where
  "SkipIter_Seek compare s target = map_option fst (FindGreaterOrEqual compare s target None)"

definition SkipIter_SeekToFirst :: "'k skiplist \<Rightarrow> nat option option" where
  "SkipIter_SeekToFirst s = node_Next s sl_head 0"

definition SkipIter_SeekToLast :: "'k skiplist \<Rightarrow> nat option option" where
  "SkipIter_SeekToLast s = do { n \<leftarrow> FindLast s; Some (if n = sl_head then None else Some n) }"

section \<open>The generator\<close>

lemma coprime_lehmer: "coprime (2147483647 :: nat) 16807"
proof -
  have "gcd (2147483647 :: nat) 16807 = gcd 16807 2836" by (subst gcd_red_nat) simp
  also have "\<dots> = gcd 2836 2627" by (subst gcd_red_nat) simp
  also have "\<dots> = gcd 2627 209" by (subst gcd_red_nat) simp
  also have "\<dots> = gcd 209 119" by (subst gcd_red_nat) simp
  also have "\<dots> = gcd 119 90" by (subst gcd_red_nat) simp
  also have "\<dots> = gcd 90 29" by (subst gcd_red_nat) simp
  also have "\<dots> = gcd 29 3" by (subst gcd_red_nat) simp
  also have "\<dots> = gcd 3 2" by (subst gcd_red_nat) simp
  also have "\<dots> = gcd 2 1" by (subst gcd_red_nat) simp
  finally show ?thesis by (simp add: coprime_iff_gcd_eq_1)
qed

text \<open>
  \<open>Random::Next\<close> is the Lehmer generator of its comment: the reduction by shift and mask is exact, and the seed
  stays between \<open>0\<close> and \<open>M\<close>, without them.
\<close>

lemma Random_Next_lehmer:
  assumes "0 < unat s" "unat s < 2147483647"
  shows "unat (Random_Next s) = unat s * 16807 mod 2147483647 \<and> 0 < unat (Random_Next s) \<and> unat (Random_Next s) < 2147483647"
proof -
  let ?M = "2147483647 :: nat"
  define p where "p = unat s * 16807"
  define sum where "sum = p div 2 ^ 31 + p mod 2 ^ 31"
  have p: "0 < p" "p < 2 ^ 46" "p div 2 ^ 31 < 16807" using assms by (auto simp: p_def)
  have prod: "unat (ucast s * 16807 :: u64) = p"
    using p(2) by (simp add: p_def unat_word_ariths unsigned_ucast_eq)
  have "unat (ucast s * 16807 AND 2147483647 :: u64) = p mod 2 ^ 31"
  proof -
    have "(2147483647 :: u64) = mask 31" by (simp add: mask_eq_exp_minus_1)
    then have "(ucast s * 16807 AND 2147483647 :: u64) = take_bit 31 (ucast s * 16807)" by (simp only: take_bit_eq_mask)
    then show ?thesis using prod by (simp only: unsigned_take_bit_eq) (simp only: take_bit_eq_mod)
  qed
  then have "unat (drop_bit 31 (ucast s * 16807) + (ucast s * 16807 AND 2147483647) :: u64) = sum"
  proof -
    assume lo: "unat (ucast s * 16807 AND 2147483647 :: u64) = p mod 2 ^ 31"
    have "unat (drop_bit 31 (ucast s * 16807) :: u64) = p div 2 ^ 31"
      using prod by (simp only: unsigned_drop_bit_eq) (use p(2) in \<open>simp add: drop_bit_eq_div take_bit_nat_eq_self\<close>)
    moreover have "p div 2 ^ 31 + p mod 2 ^ 31 < 2 ^ 64" using p(3) mod_less_divisor [of "2 ^ 31" p] by simp
    ultimately show ?thesis using lo by (simp only: sum_def unat_plus_if') simp
  qed
  moreover have sum: "0 < sum" "sum < 2 * ?M" "p = (p div 2 ^ 31) * ?M + sum"
    using p div_mult_mod_eq [of p "2 ^ 31"] by (auto simp: sum_def intro: ccontr)
  ultimately have r: "unat (Random_Next s) = (if ?M < sum then sum - ?M else sum)"
    by (auto simp: Random_Next_def Let_def word_less_nat_alt unsigned_ucast_eq unat_sub_if' take_bit_eq_mod)
  have "sum \<noteq> ?M"
  proof
    assume "sum = ?M"
    then have "?M dvd unat s * 16807" using sum(3) by (metis dvd_add_times_triv_left_iff dvd_refl p_def mult.commute)
    then have "?M dvd unat s" using coprime_lehmer coprime_dvd_mult_left_iff by blast
    then show False using assms nat_dvd_not_less by blast
  qed
  moreover have "unat s * 16807 mod ?M = sum mod ?M"
    using sum(3) p_def by (metis add.commute mod_mult_self1)
  ultimately show ?thesis using r sum(1,2) by (auto simp: le_mod_geq)
qed

end
