(* ===== verification/Lv_Skiplist_Facts.thy ===== *)
theory Lv_Skiplist_Facts
  imports Lv_Skiplist
begin

text \<open>
  A skip list refines a sorted list: the invariant of its levels, where the searches end, insertion, and the iterator
  in both directions.  The locale \<open>key_order\<close> is what the list asks of its comparator.
\<close>

section \<open>Lists of links\<close>

text \<open>The link of each node of a list is its successor.\<close>

fun skip_linked :: "(nat \<Rightarrow> nat option option) \<Rightarrow> nat list \<Rightarrow> bool" where
  "skip_linked nx [] \<longleftrightarrow> True"
| "skip_linked nx [x] \<longleftrightarrow> nx x = Some None"
| "skip_linked nx (x # y # zs) \<longleftrightarrow> nx x = Some (Some y) \<and> skip_linked nx (y # zs)"

definition first :: "nat list \<Rightarrow> nat option" where
  "first xs = (case xs of [] \<Rightarrow> None | x # _ \<Rightarrow> Some x)"

lemma first_simps [simp]: "first [] = None" "first (x # xs) = Some x"
  by (simp_all add: first_def)

lemma skip_linked_Cons: "skip_linked nx (x # xs) \<longleftrightarrow> nx x = Some (first xs) \<and> skip_linked nx xs"
  by (cases xs) auto

lemma skip_linked_next: "skip_linked nx (us @ x # vs) \<Longrightarrow> nx x = Some (first vs)"
  by (induction us) (auto simp: skip_linked_Cons)

lemma skip_linked_cong: "(\<And>x. x \<in> set xs \<Longrightarrow> nx x = nx' x) \<Longrightarrow> skip_linked nx xs \<longleftrightarrow> skip_linked nx' xs"
  by (induction xs) (auto simp: skip_linked_Cons)

text \<open>A node is put behind the last one of a prefix.\<close>

lemma skip_linked_insert:
  assumes "skip_linked nx (xs @ ys)" "xs \<noteq> []" "distinct (xs @ ys)" "z \<notin> set (xs @ ys)"
    and "nx' z = Some (first ys)" "nx' (last xs) = Some (Some z)"
    and "\<And>y. y \<noteq> z \<Longrightarrow> y \<noteq> last xs \<Longrightarrow> nx' y = nx y"
  shows "skip_linked nx' (xs @ z # ys)"
  using assms(1-4,6,7)
proof (induction xs)
  case (Cons x xs)
  show ?case
  proof (cases xs)
    case Nil
    have "nx' y = nx y" if "y \<in> set ys" for y using that Nil Cons.prems(3,4) by (intro Cons.prems(6)) auto
    then have "skip_linked nx' ys" using skip_linked_cong [of ys nx' nx] Nil Cons.prems(1) by (simp add: skip_linked_Cons)
    then show ?thesis using Nil Cons.prems assms(5) by (simp add: skip_linked_Cons)
  next
    case (Cons y zs)
    then have "last (x # xs) = last xs" "x \<noteq> last xs" using Cons.prems by auto
    then have "nx' x = nx x" using Cons.prems \<open>last (x # xs) = last xs\<close> by auto
    then show ?thesis using Cons.IH Cons.prems \<open>xs = y # zs\<close> \<open>last (x # xs) = last xs\<close>
      by (auto simp: skip_linked_Cons)
  qed
qed simp

text \<open>
  A loop \<open>F\<close> that goes on while \<open>P\<close> holds of the next node, and otherwise does \<open>R\<close>, ends at the last node
  for which it held.
\<close>

lemma walk:
  assumes F: "\<And>u. u \<in> set (x # vs) \<Longrightarrow> F u = (case nx u of None \<Rightarrow> None | Some n \<Rightarrow>
      if (case n of None \<Rightarrow> False | Some a \<Rightarrow> P a) then F (the n) else R u n)"
    and "skip_linked nx (x # vs @ ws)" "\<forall>v \<in> set vs. P v" "\<forall>w \<in> set ws. \<not> P w"
  shows "F x = R (last (x # vs)) (first ws)"
  using assms
proof (induction vs arbitrary: x)
  case Nil
  have "nx x = Some (first ws)" using Nil.prems(2) by (simp add: skip_linked_Cons)
  then show ?case using Nil.prems(1) [of x] Nil.prems(4) by (cases ws) auto
next
  case (Cons v vs)
  have "F v = R (last (v # vs)) (first ws)"
    by (rule Cons.IH) (use Cons.prems in auto)
  moreover have "nx x = Some (Some v)" "P v" using Cons.prems(2,3) by auto
  ultimately show ?case using Cons.prems(1) [of x] by auto
qed

section \<open>The invariant of a skip list\<close>

definition nd_height :: "'k skiplist \<Rightarrow> nat \<Rightarrow> nat" where
  "nd_height s x = (case sl_nodes s x of None \<Rightarrow> 0 | Some nd \<Rightarrow> length (nd_next nd))"

abbreviation key_at :: "'k skiplist \<Rightarrow> nat \<Rightarrow> 'k" where
  "key_at s x \<equiv> nd_key (the (sl_nodes s x))"

definition on_level :: "'k skiplist \<Rightarrow> nat \<Rightarrow> nat list \<Rightarrow> nat list" where
  "on_level s i ns = filter (\<lambda>n. i < nd_height s n) ns"

text \<open>
  \<open>ns\<close> are the nodes of the list in order.  The list of each level has the nodes that are high enough.
\<close>

definition skip_shape :: "'k skiplist \<Rightarrow> nat list \<Rightarrow> bool" where
  "skip_shape s ns \<longleftrightarrow>
    distinct (sl_head # ns) \<and> dom (sl_nodes s) = set (sl_head # ns) \<and> (\<forall>n \<in> set (sl_head # ns). n < sl_arena s) \<and>
    1 \<le> sl_max_height s \<and> sl_max_height s \<le> kMaxHeight \<and> nd_height s sl_head = kMaxHeight \<and>
    (\<forall>n \<in> set ns. 1 \<le> nd_height s n \<and> nd_height s n \<le> sl_max_height s) \<and>
    (\<forall>i < kMaxHeight. skip_linked (\<lambda>x. node_Next s x i) (sl_head # on_level s i ns))"

lemma on_level_simps [simp]:
  "on_level s i [] = []" "on_level s i (xs @ ys) = on_level s i xs @ on_level s i ys"
  "on_level s i (x # xs) = (if i < nd_height s x then x # on_level s i xs else on_level s i xs)"
  by (simp_all add: on_level_def)

lemma on_level_set: "x \<in> set (on_level s i xs) \<longleftrightarrow> x \<in> set xs \<and> i < nd_height s x"
  by (auto simp: on_level_def)

lemma on_level_0: "skip_shape s ns \<Longrightarrow> set xs \<subseteq> set ns \<Longrightarrow> on_level s 0 xs = xs"
  unfolding on_level_def by (rule filter_True) (fastforce simp: skip_shape_def)

lemma on_level_top: "skip_shape s ns \<Longrightarrow> set xs \<subseteq> set ns \<Longrightarrow> sl_max_height s \<le> i \<Longrightarrow> on_level s i xs = []"
  unfolding on_level_def by (rule filter_False) (fastforce simp: skip_shape_def)

lemma on_level_cong: "(\<And>x. x \<in> set xs \<Longrightarrow> nd_height s x = nd_height s' x) \<Longrightarrow> on_level s i xs = on_level s' i xs"
  unfolding on_level_def by (rule filter_cong) auto

lemma node_key_at: "skip_shape s ns \<Longrightarrow> x \<in> set (sl_head # ns) \<Longrightarrow> node_key s x = Some (key_at s x)"
proof -
  assume "skip_shape s ns" "x \<in> set (sl_head # ns)"
  then have "x \<in> dom (sl_nodes s)" by (auto simp: skip_shape_def)
  then show ?thesis by (auto simp: node_key_def)
qed

text \<open>
  A search splits the nodes into those before and those behind; on each level it stands on a node that is not
  behind.  Below, \<open>down s A i\<close> is where it leaves level \<open>i\<close>.
\<close>

definition down :: "'k skiplist \<Rightarrow> nat list \<Rightarrow> nat \<Rightarrow> nat" where
  "down s A i = last (sl_head # on_level s i A)"

lemma down_in: "down s A i \<in> set (sl_head # on_level s i A)"
  unfolding down_def by (rule last_in_set) simp

lemma down_below: "i \<le> j \<Longrightarrow> down s A j \<in> set (sl_head # on_level s i A)"
  using down_in [of s A j] by (auto simp: on_level_set)

lemma level_split:
  assumes "skip_shape s (A @ B)" "i < kMaxHeight" "x \<in> set (sl_head # on_level s i A)"
  obtains vs where "skip_linked (\<lambda>x. node_Next s x i) (x # vs @ on_level s i B)" "last (x # vs) = down s A i"
    "set vs \<subseteq> set A" "set (x # vs) \<subseteq> set (sl_head # on_level s i A)"
proof -
  obtain us vs where sp: "sl_head # on_level s i A = us @ x # vs" using assms(3) by (meson split_list)
  have "skip_linked (\<lambda>x. node_Next s x i) ((us @ x # vs) @ on_level s i B)"
    using assms(1,2) by (simp add: skip_shape_def flip: sp)
  then have "skip_linked (\<lambda>x. node_Next s x i) (x # vs @ on_level s i B)"
    by (induction us) (auto simp: skip_linked_Cons)
  moreover have "last (x # vs) = down s A i" unfolding down_def sp by simp
  moreover have A: "set vs \<subseteq> set A"
  proof -
    have "set vs \<subseteq> set (tl (us @ x # vs))" by (cases us) auto
    also have "\<dots> = set (on_level s i A)" using arg_cong [OF sp, of tl] by simp
    finally show ?thesis by (auto simp: on_level_set)
  qed
  moreover have "set (x # vs) \<subseteq> set (sl_head # on_level s i A)"
    using arg_cong [OF sp, of set] by auto
  ultimately show ?thesis by (rule that)
qed

section \<open>Where the searches end\<close>

primrec note_prev :: "'k skiplist \<Rightarrow> nat list \<Rightarrow> nat \<Rightarrow> nat option list \<Rightarrow> nat option list" where
  "note_prev s A 0 p = p[0 := Some (down s A 0)]"
| "note_prev s A (Suc l) p = note_prev s A l (p[Suc l := Some (down s A (Suc l))])"

lemma note_prev_length [simp]: "length (note_prev s A l p) = length p"
  by (induction l arbitrary: p) auto

lemma note_prev_above: "l < j \<Longrightarrow> note_prev s A l p ! j = p ! j"
  by (induction l arbitrary: p) auto

lemma note_prev_nth: "j \<le> l \<Longrightarrow> j < length p \<Longrightarrow> note_prev s A l p ! j = Some (down s A j)"
proof (induction l arbitrary: p)
  case (Suc l)
  then show ?case by (cases "j = Suc l") (auto simp: note_prev_above)
qed auto

lemma first_level_0: "skip_shape s (A @ B) \<Longrightarrow> first (on_level s 0 B) = first B"
  by (simp add: on_level_0 [of s "A @ B" B])

lemma down_0: "skip_shape s (A @ B) \<Longrightarrow> down s A 0 = last (sl_head # A)"
  by (simp add: down_def on_level_0 [of s "A @ B" A])

lemma node_Next_in:
  assumes "skip_shape s ns" "l < kMaxHeight" "u \<in> set (sl_head # on_level s l ns)"
  obtains n where "node_Next s u l = Some n" "\<And>a. n = Some a \<Longrightarrow> a \<in> set ns"
proof -
  obtain us vs where sp: "sl_head # on_level s l ns = us @ u # vs" using assms(3) by (meson split_list)
  have "node_Next s u l = Some (first vs)"
    using assms(1,2) skip_linked_next [of "\<lambda>x. node_Next s x l" us u vs] by (simp add: skip_shape_def flip: sp)
  moreover have "a \<in> set ns" if "first vs = Some a" for a
  proof -
    have "a \<in> set (tl (us @ u # vs))" using that by (cases us; cases vs) auto
    also have "\<dots> = set (on_level s l ns)" using arg_cong [OF sp, of tl] by simp
    finally show ?thesis by (simp add: on_level_set)
  qed
  ultimately show ?thesis by (rule that)
qed

text \<open>One turn of each search, on a node of the list.\<close>

lemma FindGreaterOrEqual_turn:
  assumes "skip_shape s ns" "l < kMaxHeight" "u \<in> set (sl_head # on_level s l ns)"
  shows "FindGreaterOrEqual_loop compare s k u l prev =
    (case node_Next s u l of None \<Rightarrow> None | Some n \<Rightarrow>
       if (case n of None \<Rightarrow> False | Some a \<Rightarrow> compare (key_at s a) k < 0)
       then FindGreaterOrEqual_loop compare s k (the n) l prev
       else let prev = map_option (\<lambda>p. p[l := Some u]) prev
         in if l = 0 then Some (n, prev) else FindGreaterOrEqual_loop compare s k u (l - 1) prev)"
proof -
  obtain n where n: "node_Next s u l = Some n" "\<And>a. n = Some a \<Longrightarrow> a \<in> set ns" using node_Next_in [OF assms] by metis
  then have "KeyIsAfterNode compare s k n = Some (case n of None \<Rightarrow> False | Some a \<Rightarrow> compare (key_at s a) k < 0)"
    using assms(1) by (auto simp: KeyIsAfterNode_def node_key_at split: option.splits)
  then show ?thesis by (subst FindGreaterOrEqual_loop.simps) (simp add: n(1))
qed

lemma FindLast_turn:
  assumes "skip_shape s ns" "l < kMaxHeight" "u \<in> set (sl_head # on_level s l ns)"
  shows "FindLast_loop s u l =
    (case node_Next s u l of None \<Rightarrow> None | Some n \<Rightarrow>
       if (case n of None \<Rightarrow> False | Some a \<Rightarrow> True) then FindLast_loop s (the n) l
       else if l = 0 then Some u else FindLast_loop s u (l - 1))"
  by (subst FindLast_loop.simps) (auto split: option.splits bind_splits)

lemma FindLessThan_turn:
  assumes "skip_shape s ns" "l < kMaxHeight" "u \<in> set (sl_head # on_level s l ns)"
    and "u \<noteq> sl_head \<Longrightarrow> compare (key_at s u) k < 0"
  shows "FindLessThan_loop compare s k u l =
    (case node_Next s u l of None \<Rightarrow> None | Some n \<Rightarrow>
       if (case n of None \<Rightarrow> False | Some a \<Rightarrow> compare (key_at s a) k < 0) then FindLessThan_loop compare s k (the n) l
       else if l = 0 then Some u else FindLessThan_loop compare s k u (l - 1))"
proof -
  obtain n where n: "node_Next s u l = Some n" "\<And>a. n = Some a \<Longrightarrow> a \<in> set ns" using node_Next_in [OF assms(1-3)] by metis
  have u: "(if u = sl_head then Some True else map_option (\<lambda>k'. compare k' k < 0) (node_key s u)) = Some True"
    using assms by (auto simp: node_key_at on_level_set)
  have n': "(case n of None \<Rightarrow> Some True | Some a \<Rightarrow> map_option (\<lambda>k'. 0 \<le> compare k' k) (node_key s a)) =
      Some (\<not> (case n of None \<Rightarrow> False | Some a \<Rightarrow> compare (key_at s a) k < 0))"
    using n(2) assms(1) by (auto simp: node_key_at not_less split: option.splits)
  show ?thesis by (subst FindLessThan_loop.simps) (simp add: n(1) n' u)
qed

text \<open>A search leaves a level at the last node before those that are behind.\<close>

lemma walk_level:
  assumes s: "skip_shape s (A @ B)" and l: "l < kMaxHeight" and x: "x \<in> set (sl_head # on_level s l A)"
    and P: "\<forall>a \<in> set A. P a" "\<forall>b \<in> set B. \<not> P b"
    and F: "\<And>u. u \<in> set (sl_head # on_level s l A) \<Longrightarrow> F u = (case node_Next s u l of None \<Rightarrow> None | Some n \<Rightarrow>
      if (case n of None \<Rightarrow> False | Some a \<Rightarrow> P a) then F (the n) else R u n)"
  shows "F x = R (down s A l) (first (on_level s l B))"
proof -
  obtain vs where vs: "skip_linked (\<lambda>x. node_Next s x l) (x # vs @ on_level s l B)" "last (x # vs) = down s A l"
    "set vs \<subseteq> set A" "set (x # vs) \<subseteq> set (sl_head # on_level s l A)"
    using level_split [OF s l x] by metis
  have "F x = R (last (x # vs)) (first (on_level s l B))"
    by (rule walk [OF _ vs(1)], rule F) (use vs(3,4) P in \<open>auto simp: on_level_set\<close>)
  then show ?thesis by (simp only: vs(2))
qed

lemma in_level_append: "u \<in> set (sl_head # on_level s l A) \<Longrightarrow> u \<in> set (sl_head # on_level s l (A @ B))"
  by auto

lemma FindGreaterOrEqual_level:
  assumes s: "skip_shape s (A @ B)" and A: "\<forall>a \<in> set A. compare (key_at s a) k < 0"
    and B: "\<forall>b \<in> set B. \<not> compare (key_at s b) k < 0" and l: "l < kMaxHeight" "x \<in> set (sl_head # on_level s l A)"
  shows "FindGreaterOrEqual_loop compare s k x l prev =
    (let prev = map_option (\<lambda>p. p[l := Some (down s A l)]) prev
     in if l = 0 then Some (first (on_level s l B), prev)
        else FindGreaterOrEqual_loop compare s k (down s A l) (l - 1) prev)"
  by (rule walk_level [OF s l A B, where F = "\<lambda>u. FindGreaterOrEqual_loop compare s k u l prev" and
        R = "\<lambda>u n. let prev = map_option (\<lambda>p. p[l := Some u]) prev
          in if l = 0 then Some (n, prev) else FindGreaterOrEqual_loop compare s k u (l - 1) prev"])
    (rule FindGreaterOrEqual_turn [OF s l(1) in_level_append])

lemma FindLessThan_level:
  assumes s: "skip_shape s (A @ B)" and A: "\<forall>a \<in> set A. compare (key_at s a) k < 0"
    and B: "\<forall>b \<in> set B. \<not> compare (key_at s b) k < 0" and l: "l < kMaxHeight" "x \<in> set (sl_head # on_level s l A)"
  shows "FindLessThan_loop compare s k x l =
    (if l = 0 then Some (down s A l) else FindLessThan_loop compare s k (down s A l) (l - 1))"
  by (rule walk_level [OF s l A B, where F = "\<lambda>u. FindLessThan_loop compare s k u l" and
        R = "\<lambda>u n. if l = 0 then Some u else FindLessThan_loop compare s k u (l - 1)"],
      rule FindLessThan_turn [OF s l(1) in_level_append]) (use A in \<open>auto simp: on_level_set\<close>)

lemma FindLast_level:
  assumes s: "skip_shape s ns" and l: "l < kMaxHeight" "x \<in> set (sl_head # on_level s l ns)"
  shows "FindLast_loop s x l = (if l = 0 then Some (down s ns l) else FindLast_loop s (down s ns l) (l - 1))"
  by (rule walk_level [of s ns "[]", where F = "\<lambda>u. FindLast_loop s u l" and P = "\<lambda>_. True" and
        R = "\<lambda>u n. if l = 0 then Some u else FindLast_loop s u (l - 1)"])
    (use s l FindLast_turn [OF s l(1)] in auto)

lemma FindGreaterOrEqual_loop_ends:
  assumes s: "skip_shape s (A @ B)" and A: "\<forall>a \<in> set A. compare (key_at s a) k < 0"
    and B: "\<forall>b \<in> set B. \<not> compare (key_at s b) k < 0"
  shows "l < kMaxHeight \<Longrightarrow> x \<in> set (sl_head # on_level s l A) \<Longrightarrow>
    FindGreaterOrEqual_loop compare s k x l prev = Some (first B, map_option (note_prev s A l) prev)"
proof (induction l arbitrary: x prev)
  case (0 x prev)
  show ?case by (subst FindGreaterOrEqual_level [where compare = compare and k = k, OF s A B 0]) (simp add: first_level_0 [OF s] Let_def cong: map_option_cong)
next
  case (Suc l)
  then show ?case using down_below [of l "Suc l" s A]
    by (subst FindGreaterOrEqual_level [where compare = compare and k = k, OF s A B Suc.prems]) (cases prev; simp del: set_simps)
qed

lemma FindLessThan_loop_ends:
  assumes s: "skip_shape s (A @ B)" and A: "\<forall>a \<in> set A. compare (key_at s a) k < 0"
    and B: "\<forall>b \<in> set B. \<not> compare (key_at s b) k < 0"
  shows "l < kMaxHeight \<Longrightarrow> x \<in> set (sl_head # on_level s l A) \<Longrightarrow>
    FindLessThan_loop compare s k x l = Some (last (sl_head # A))"
proof (induction l arbitrary: x)
  case (0 x)
  show ?case by (subst FindLessThan_level [where compare = compare and k = k, OF s A B 0]) (simp add: down_0 [OF s])
next
  case (Suc l)
  then show ?case using down_below [of l "Suc l" s A]
    by (subst FindLessThan_level [where compare = compare and k = k, OF s A B Suc.prems]) (simp del: set_simps)
qed

lemma FindLast_loop_ends:
  assumes s: "skip_shape s ns"
  shows "l < kMaxHeight \<Longrightarrow> x \<in> set (sl_head # on_level s l ns) \<Longrightarrow> FindLast_loop s x l = Some (last (sl_head # ns))"
proof (induction l arbitrary: x)
  case (0 x)
  show ?case by (subst FindLast_level [OF s 0]) (use down_0 [of s ns "[]"] s in simp)
next
  case (Suc l)
  then show ?case using down_below [of l "Suc l" s ns]
    by (subst FindLast_level [OF s Suc.prems]) (simp del: set_simps)
qed

section \<open>Linking a new node\<close>

text \<open>Setting a link changes nothing but this link.\<close>

definition same_nodes :: "'k skiplist \<Rightarrow> 'k skiplist \<Rightarrow> bool" where
  "same_nodes s s' \<longleftrightarrow> nd_height s' = nd_height s \<and> node_key s' = node_key s \<and> dom (sl_nodes s') = dom (sl_nodes s) \<and>
    sl_arena s' = sl_arena s \<and> sl_max_height s' = sl_max_height s \<and> sl_rnd s' = sl_rnd s"

lemma same_nodes_refl [simp]: "same_nodes s s"
  by (simp add: same_nodes_def)

lemma same_nodes_trans: "same_nodes s s' \<Longrightarrow> same_nodes s' s'' \<Longrightarrow> same_nodes s s''"
  by (simp add: same_nodes_def)

lemma node_SetNext_Some:
  assumes "n < nd_height s x"
  obtains s' where "node_SetNext x n y s = Some s'" "same_nodes s s'"
    "\<And>z m. node_Next s' z m = (if z = x \<and> m = n then Some y else node_Next s z m)"
proof -
  obtain nd where nd: "sl_nodes s x = Some nd" "n < length (nd_next nd)"
    using assms by (auto simp: nd_height_def split: option.splits)
  let ?s = "s\<lparr>sl_nodes := (sl_nodes s)(x \<mapsto> nd\<lparr>nd_next := (nd_next nd)[n := Some y]\<rparr>)\<rparr>"
  have "node_SetNext x n y s = Some ?s" using nd by (simp add: node_SetNext_def)
  moreover have "same_nodes s ?s"
    using nd by (auto simp: same_nodes_def fun_eq_iff nd_height_def node_key_def)
  moreover have "node_Next ?s z m = (if z = x \<and> m = n then Some y else node_Next s z m)" for z m
    using nd by (auto simp: node_Next_def)
  ultimately show ?thesis by (rule that)
qed

lemma link_levels_Some:
  assumes "\<forall>i \<in> set is. i < length prev \<and> prev ! i = Some (p i) \<and> p i \<noteq> x \<and> i < nd_height s (p i) \<and>
      i < nd_height s x \<and> node_Next s (p i) i \<noteq> None" "distinct is"
  shows "\<exists>s'. link_levels x prev is s = Some s' \<and> same_nodes s s' \<and>
    (\<forall>y j. node_Next s' y j =
       (if j \<in> set is then if y = x then node_Next s (p j) j else if y = p j then Some (Some x) else node_Next s y j
        else node_Next s y j))"
  using assms
proof (induction "is" arbitrary: s)
  case (Cons i "is")
  obtain n where n: "node_Next s (p i) i = Some n" using Cons.prems(1) by auto
  obtain s1 where s1: "node_SetNext x i n s = Some s1" "same_nodes s s1"
    "\<And>z m. node_Next s1 z m = (if z = x \<and> m = i then Some n else node_Next s z m)"
    using node_SetNext_Some [of i s x n] Cons.prems(1) by auto
  obtain s2 where s2: "node_SetNext (p i) i (Some x) s1 = Some s2" "same_nodes s1 s2"
    "\<And>z m. node_Next s2 z m = (if z = p i \<and> m = i then Some (Some x) else node_Next s1 z m)"
    using node_SetNext_Some [of i s1 "p i" "Some x"] Cons.prems(1) s1(2) by (auto simp: same_nodes_def)
  have h: "nd_height s2 = nd_height s" using s1(2) s2(2) by (simp add: same_nodes_def)
  have nx: "node_Next s2 y j = node_Next s y j" if "j \<noteq> i" for y j using that s1(3) s2(3) by simp
  have "\<forall>j \<in> set is. j < length prev \<and> prev ! j = Some (p j) \<and> p j \<noteq> x \<and> j < nd_height s2 (p j) \<and>
      j < nd_height s2 x \<and> node_Next s2 (p j) j \<noteq> None"
  proof
    fix j assume j: "j \<in> set is"
    then have "j \<noteq> i" using Cons.prems(2) by auto
    then show "j < length prev \<and> prev ! j = Some (p j) \<and> p j \<noteq> x \<and> j < nd_height s2 (p j) \<and>
      j < nd_height s2 x \<and> node_Next s2 (p j) j \<noteq> None"
      using j Cons.prems(1) h nx by auto
  qed
  from Cons.IH [OF this] obtain s' where s': "link_levels x prev is s2 = Some s'" "same_nodes s2 s'"
    "\<forall>y j. node_Next s' y j =
       (if j \<in> set is then if y = x then node_Next s2 (p j) j else if y = p j then Some (Some x) else node_Next s2 y j
        else node_Next s2 y j)" using Cons.prems(2) by auto
  have "link_levels x prev (i # is) s = Some s'"
    using Cons.prems(1) s'(1) s1(1) s2(1) n by simp
  moreover have "same_nodes s s'" using s1(2) s2(2) s'(2) same_nodes_trans by blast
  moreover have "node_Next s' y j =
       (if j \<in> set (i # is) then if y = x then node_Next s (p j) j else if y = p j then Some (Some x) else node_Next s y j
        else node_Next s y j)" for y j
    using s'(3) [rule_format, of y j] nx s1(3) [of y j] s2(3) [of y j] Cons.prems n by (cases "j = i") auto
  ultimately show ?case by blast
qed simp

section \<open>Insertion keeps the invariant\<close>

lemma RandomHeight_loop_bound: "1 \<le> h \<Longrightarrow> h \<le> kMaxHeight \<Longrightarrow> RandomHeight_loop r h = (r', h') \<Longrightarrow> 1 \<le> h' \<and> h' \<le> kMaxHeight"
proof (induction r h rule: RandomHeight_loop.induct)
  case (1 r h)
  show ?case
  proof (cases "h < kMaxHeight \<and> Random_Next r mod 4 = 0")
    case True
    then show ?thesis using 1 by (simp add: RandomHeight_loop.simps [of r h] Let_def)
  next
    case False
    then have "h' = h" using 1(4) unfolding RandomHeight_loop.simps [of r h] Let_def by (metis Pair_inject)
    then show ?thesis using 1(2,3) by simp
  qed
qed

lemma RandomHeight_bound: "RandomHeight r = (r', h) \<Longrightarrow> 1 \<le> h \<and> h \<le> kMaxHeight"
  using RandomHeight_loop_bound [of 1 r r' h] by (simp add: RandomHeight_def kMaxHeight_def)

lemma raise_prev:
  "foldl (\<lambda>p i. p[i := v]) prev [a ..< b] = map (\<lambda>j. if a \<le> j \<and> j < b then v else prev ! j) [0 ..< length prev]"
proof (induction b)
  case 0
  then show ?case by (simp add: map_nth)
next
  case (Suc b)
  show ?case
  proof (cases "a \<le> b")
    case True
    then show ?thesis by (intro nth_equalityI) (auto simp: Suc nth_list_update less_Suc_eq)
  next
    case False
    then show ?thesis by (intro nth_equalityI) auto
  qed
qed

lemma NewNode_facts:
  assumes "NewNode key height s = (x, s')" "sl_arena s \<notin> dom (sl_nodes s)"
  shows "x = sl_arena s" "node_key s' x = Some key" "y \<noteq> x \<Longrightarrow> node_key s' y = node_key s y"
    "nd_height s' x = height" "y \<noteq> x \<Longrightarrow> nd_height s' y = nd_height s y"
    "y \<noteq> x \<Longrightarrow> node_Next s' y j = node_Next s y j" "dom (sl_nodes s') = insert x (dom (sl_nodes s))"
    "sl_arena s' = sl_arena s + 1" "sl_max_height s' = sl_max_height s" "sl_rnd s' = sl_rnd s"
  using assms by (auto simp: NewNode_def node_key_def nd_height_def node_Next_def)

lemma next_down:
  assumes "skip_shape s (A @ B)" "j < kMaxHeight"
  shows "node_Next s (down s A j) j = Some (first (on_level s j B))"
proof -
  have "sl_head # on_level s j (A @ B) = butlast (sl_head # on_level s j A) @ down s A j # on_level s j B"
    unfolding down_def by (metis append.assoc append_Cons append_Nil append_butlast_last_id list.distinct(1) on_level_simps(2))
  then show ?thesis using assms skip_linked_next [of "\<lambda>x. node_Next s x j"] by (metis skip_shape_def)
qed

lemma down_nodes:
  assumes "skip_shape s (A @ B)" "j < kMaxHeight"
  shows "down s A j \<in> set (sl_head # A)" "j < nd_height s (down s A j)" "down s A j \<in> dom (sl_nodes s)"
  using down_in [of s A j] assms by (auto simp: on_level_set skip_shape_def)

text \<open>A new node \<open>x\<close> of height \<open>h\<close> is linked between \<open>A\<close> and \<open>B\<close>; \<open>t\<close> is the list with the node still unlinked.\<close>

lemma link_shape:
  assumes s: "skip_shape s (A @ B)" and h: "1 \<le> h" "h \<le> kMaxHeight" and x: "x = sl_arena s"
    and t: "\<And>y. y \<noteq> x \<Longrightarrow> nd_height t y = nd_height s y" "nd_height t x = h" "\<And>y j. y \<noteq> x \<Longrightarrow> node_Next t y j = node_Next s y j"
      "dom (sl_nodes t) = insert x (dom (sl_nodes s))" "sl_arena t = sl_arena s + 1" "sl_max_height t = max (sl_max_height s) h"
    and prev: "\<And>j. j < h \<Longrightarrow> j < length prev \<and> prev ! j = Some (down s A j)"
  shows "\<exists>s'. link_levels x prev [0 ..< h] t = Some s' \<and> skip_shape s' (A @ x # B) \<and> node_key s' = node_key t"
proof -
  have new: "x \<notin> set (sl_head # A @ B)" using s x by (auto simp: skip_shape_def)
  have nx: "node_Next t (down s A j) j = Some (first (on_level s j B))" "down s A j \<noteq> x" "nd_height t (down s A j) = nd_height s (down s A j)"
    if "j < h" for j
  proof -
    have "j < kMaxHeight" using that h by simp
    note d = down_nodes(1) [OF s this] next_down [OF s this]
    show "down s A j \<noteq> x" using d(1) new by auto
    then show "node_Next t (down s A j) j = Some (first (on_level s j B))" "nd_height t (down s A j) = nd_height s (down s A j)"
      using t(1,3) d(2) by simp_all
  qed
  have "\<exists>s'. link_levels x prev [0 ..< h] t = Some s' \<and> same_nodes t s' \<and>
    (\<forall>y j. node_Next s' y j =
       (if j \<in> set [0 ..< h] then if y = x then node_Next t (down s A j) j else if y = down s A j then Some (Some x) else node_Next t y j
        else node_Next t y j))"
    by (rule link_levels_Some) (use prev nx t(2) h down_nodes(2) [OF s] in auto)
  then obtain s' where s': "link_levels x prev [0 ..< h] t = Some s'" "same_nodes t s'"
    "\<And>y j. node_Next s' y j = (if j < h then if y = x then Some (first (on_level s j B))
        else if y = down s A j then Some (Some x) else node_Next t y j else node_Next t y j)" using nx(1) by auto
  have ht: "nd_height s' y = (if y = x then h else nd_height s y)" for y
    using s'(2) t(1,2) by (auto simp: same_nodes_def)
  have mh: "sl_max_height s' = max (sl_max_height s) h" using s'(2) t(6) by (simp add: same_nodes_def)
  have lv: "on_level s' i (A @ x # B) = (if i < h then on_level s i A @ x # on_level s i B else on_level s i (A @ B))" for i
  proof -
    have "on_level s' i C = on_level s i C" if "set C \<subseteq> set (A @ B)" for C
      by (rule on_level_cong) (use that new in \<open>auto simp: ht\<close>)
    then show ?thesis by (simp add: ht)
  qed
  have link: "skip_linked (\<lambda>y. node_Next s' y i) (sl_head # on_level s' i (A @ x # B))" if i: "i < kMaxHeight" for i
  proof (cases "i < h")
    case True
    have l: "skip_linked (\<lambda>y. node_Next s y i) ((sl_head # on_level s i A) @ on_level s i B)"
      using s i by (simp add: skip_shape_def)
    have "skip_linked (\<lambda>y. node_Next s' y i) ((sl_head # on_level s i A) @ x # on_level s i B)"
    proof (rule skip_linked_insert [OF l])
      show "distinct ((sl_head # on_level s i A) @ on_level s i B)"
        using s by (auto simp: skip_shape_def on_level_def)
      show "x \<notin> set ((sl_head # on_level s i A) @ on_level s i B)" using new by (auto simp: on_level_set)
      show "node_Next s' x i = Some (first (on_level s i B))" using s'(3) True by simp
      show "node_Next s' (last (sl_head # on_level s i A)) i = Some (Some x)"
        using s'(3) True nx(2) [OF True] by (simp add: down_def)
      show "node_Next s' y i = node_Next s y i" if "y \<noteq> x" "y \<noteq> last (sl_head # on_level s i A)" for y
        using s'(3) that t(3) by (simp add: down_def)
    qed simp
    then show ?thesis using True unfolding lv by simp
  next
    case False
    have "node_Next s' y i = node_Next s y i" if "y \<in> set (sl_head # on_level s i (A @ B))" for y
    proof -
      have "y \<noteq> x" using that new by (auto simp: on_level_set)
      then show ?thesis using s'(3) False t(3) by simp
    qed
    then show ?thesis
      using s i False skip_linked_cong [of "sl_head # on_level s i (A @ B)" "\<lambda>y. node_Next s' y i" "\<lambda>y. node_Next s y i"]
      by (simp only: lv skip_shape_def if_False)
  qed
  have "skip_shape s' (A @ x # B)"
    unfolding skip_shape_def
  proof (intro conjI allI impI ballI)
    show "distinct (sl_head # A @ x # B)" using s new by (auto simp: skip_shape_def)
    show "dom (sl_nodes s') = set (sl_head # A @ x # B)" using s s'(2) t(4) by (auto simp: same_nodes_def skip_shape_def)
    show "n < sl_arena s'" if "n \<in> set (sl_head # A @ x # B)" for n
      using that s s'(2) t(5) x by (auto simp: same_nodes_def skip_shape_def less_Suc_eq)
    show "1 \<le> sl_max_height s'" "sl_max_height s' \<le> kMaxHeight" "nd_height s' sl_head = kMaxHeight"
      using s mh h new by (auto simp: skip_shape_def ht)
    show "1 \<le> nd_height s' n" "nd_height s' n \<le> sl_max_height s'" if "n \<in> set (A @ x # B)" for n
      using that s mh h(1) by (auto simp: skip_shape_def ht le_max_iff_disj)
    show "skip_linked (\<lambda>x. node_Next s' x i) (sl_head # on_level s' i (A @ x # B))" if "i < kMaxHeight" for i
      by (rule link [OF that])
  qed
  then show ?thesis using s'(1,2) by (auto simp: same_nodes_def)
qed

lemma Insert_shape:
  assumes s: "skip_shape s (A @ B)" and A: "\<forall>a \<in> set A. compare (key_at s a) k < 0"
    and B: "\<forall>b \<in> set B. \<not> compare (key_at s b) k < 0" "\<forall>b \<in> set B. compare k (key_at s b) \<noteq> 0"
  shows "\<exists>s' x. SkipList_Insert compare k s = Some s' \<and> skip_shape s' (A @ x # B) \<and>
    node_key s' = (node_key s)(x := Some k) \<and> x \<notin> set (A @ B)"
proof -
  obtain r h where rh: "RandomHeight (sl_rnd s) = (r, h)" by fastforce
  note hb = RandomHeight_bound [OF rh]
  let ?m = "sl_max_height s" and ?x = "sl_arena s"
  have m: "1 \<le> ?m" "?m \<le> kMaxHeight" "?x \<notin> dom (sl_nodes s)" using s by (auto simp: skip_shape_def)
  define prev where "prev = note_prev s A (?m - 1) (replicate kMaxHeight None)"
  define prev' where "prev' = (if ?m < h then foldl (\<lambda>p i. p[i := Some sl_head]) prev [?m ..< h] else prev)"
  define u where "u = (let s = s\<lparr>sl_rnd := r\<rparr> in if ?m < h then s\<lparr>sl_max_height := h\<rparr> else s)"
  obtain t where t: "NewNode k h u = (?x, t)" by (simp add: NewNode_def u_def Let_def)
  have f: "FindGreaterOrEqual compare s k (Some (replicate kMaxHeight None)) = Some (first B, Some prev)"
    unfolding FindGreaterOrEqual_def prev_def
    by (subst FindGreaterOrEqual_loop_ends [where compare = compare and k = k, OF s A B(1)]) (use m in auto)
  have fresh: "(case first B of None \<Rightarrow> Some True | Some a \<Rightarrow> map_option (\<lambda>k'. compare k k' \<noteq> 0) (node_key s a)) = Some True"
    using B(2) s by (cases B) (auto simp: node_key_at)
  have u: "node_key u = node_key s" "nd_height u = nd_height s" "node_Next u = node_Next s" "sl_nodes u = sl_nodes s"
      "sl_arena u = sl_arena s" "sl_max_height u = max ?m h"
    by (auto simp: u_def Let_def node_key_def nd_height_def node_Next_def fun_eq_iff)
  have "\<exists>s'. link_levels ?x prev' [0 ..< h] t = Some s' \<and> skip_shape s' (A @ ?x # B) \<and> node_key s' = node_key t"
  proof (rule link_shape [OF s _ _ refl])
    show "1 \<le> h" "h \<le> kMaxHeight" using hb by auto
    note nn = NewNode_facts [OF t]
    show "nd_height t y = nd_height s y" if "y \<noteq> ?x" for y using nn(5) that m(3) by (simp add: u)
    show "nd_height t ?x = h" using nn(4) m(3) by (simp add: u)
    show "node_Next t y j = node_Next s y j" if "y \<noteq> ?x" for y j using nn(6) that m(3) by (simp add: u)
    show "dom (sl_nodes t) = insert ?x (dom (sl_nodes s))" "sl_arena t = sl_arena s + 1" "sl_max_height t = max ?m h"
      using nn(7-9) m(3) by (simp_all add: u)
    fix j assume j: "j < h"
    have "prev ! j = Some (down s A j)" if "j < ?m"
      using that m hb j by (simp add: prev_def note_prev_nth)
    moreover have "down s A j = sl_head" if "?m \<le> j"
      using on_level_top [OF s _ that, of A] by (simp add: down_def)
    ultimately show "j < length prev' \<and> prev' ! j = Some (down s A j)"
      using j hb by (auto simp: prev'_def raise_prev prev_def not_less)
  qed
  then obtain s' where s': "link_levels ?x prev' [0 ..< h] t = Some s'" "skip_shape s' (A @ ?x # B)" "node_key s' = node_key t"
    by blast
  have "SkipList_Insert compare k s = link_levels ?x prev' [0 ..< h] t"
    unfolding SkipList_Insert_def using f fresh rh t by (simp add: prev'_def u_def Let_def split: prod.splits)
  moreover have "node_key t = (node_key s)(?x := Some k)"
    using NewNode_facts(2,3) [OF t] m(3) u(1) by (auto simp: fun_eq_iff u)
  moreover have "?x \<notin> set (A @ B)" using s by (auto simp: skip_shape_def)
  ultimately show ?thesis using s' by metis
qed

section \<open>A skip list is a sorted list\<close>

text \<open>The specification: insertion into a sorted list.\<close>

fun sorted_insert :: "('k \<Rightarrow> 'k \<Rightarrow> int) \<Rightarrow> 'k \<Rightarrow> 'k list \<Rightarrow> 'k list" where
  "sorted_insert compare k [] = [k]"
| "sorted_insert compare k (x # xs) = (if compare x k < 0 then x # sorted_insert compare k xs else k # x # xs)"

lemma sorted_insert_while:
  "sorted_insert compare k ks = takeWhile (\<lambda>a. compare a k < 0) ks @ k # dropWhile (\<lambda>a. compare a k < 0) ks"
  by (induction ks) auto

lemma set_sorted_insert [simp]: "set (sorted_insert compare k ks) = insert k (set ks)"
  by (induction ks) auto

text \<open>\<open>ns\<close> are the nodes of \<open>s\<close> in order, and \<open>ks\<close> their keys.\<close>

definition skip_list :: "('k \<Rightarrow> 'k \<Rightarrow> int) \<Rightarrow> 'k skiplist \<Rightarrow> nat list \<Rightarrow> 'k list \<Rightarrow> bool" where
  "skip_list compare s ns ks \<longleftrightarrow> skip_shape s ns \<and> ks = map (key_at s) ns \<and> sorted_wrt (\<lambda>a b. compare a b < 0) ks"

text \<open>What a skip list asks of its comparator: a strict weak order of the keys that are \<open>valid\<close>.\<close>

locale key_order =
  fixes compare :: "'k \<Rightarrow> 'k \<Rightarrow> int" and valid :: "'k \<Rightarrow> bool"
  assumes swap: "valid a \<Longrightarrow> valid b \<Longrightarrow> compare a b < 0 \<longleftrightarrow> 0 < compare b a"
    and trans: "valid a \<Longrightarrow> valid b \<Longrightarrow> valid c \<Longrightarrow> compare a b < 0 \<Longrightarrow> compare b c < 0 \<Longrightarrow> compare a c < 0"
begin

lemma order_irrefl: "valid a \<Longrightarrow> \<not> compare a a < 0"
  using swap [of a a] by auto

lemma not_before:
  assumes "sorted_wrt (\<lambda>a b. compare a b < 0) (b # ks)" "\<not> compare b k < 0" "c \<in> set ks"
    and "\<forall>x \<in> set (b # ks). valid x" "valid k"
  shows "\<not> compare c k < 0"
  using assms trans [of b c k] by auto

lemma split_at:
  assumes "b \<in> set (dropWhile (\<lambda>a. compare a k < 0) ks)" "sorted_wrt (\<lambda>a b. compare a b < 0) ks"
    "\<forall>x \<in> set ks. valid x" "valid k"
  shows "\<not> compare b k < 0"
  using assms
proof (induction ks)
  case (Cons a ks)
  show ?case
  proof (cases "compare a k < 0")
    case False
    then show ?thesis using not_before [OF Cons.prems(2) False _ Cons.prems(3,4), of b] Cons.prems(1) by auto
  qed (use Cons in simp)
qed simp

lemma sorted_insert_sorted:
  assumes "sorted_wrt (\<lambda>a b. compare a b < 0) ks" "\<forall>x \<in> set ks. valid x" "valid k" "\<forall>x \<in> set ks. compare k x \<noteq> 0"
  shows "sorted_wrt (\<lambda>a b. compare a b < 0) (sorted_insert compare k ks)"
  using assms
proof (induction ks)
  case (Cons a ks)
  show ?case
  proof (cases "compare a k < 0")
    case False
    then have "compare k a < 0" using Cons.prems swap [of a k] swap [of k a] by force
    then show ?thesis using Cons.prems False trans [of k a] by auto
  qed (use Cons in auto)
qed simp

lemma skip_list_split:
  assumes "skip_list compare s ns ks" "\<forall>x \<in> set ks. valid x" "valid k"
  obtains A B where "ns = A @ B" "\<forall>a \<in> set A. compare (key_at s a) k < 0" "\<forall>b \<in> set B. \<not> compare (key_at s b) k < 0"
    "map (key_at s) A = takeWhile (\<lambda>a. compare a k < 0) ks" "map (key_at s) B = dropWhile (\<lambda>a. compare a k < 0) ks"
proof
  let ?P = "\<lambda>n. compare (key_at s n) k < 0"
  show "ns = takeWhile ?P ns @ dropWhile ?P ns" by simp
  show "\<forall>a \<in> set (takeWhile ?P ns). ?P a" by (auto dest: set_takeWhileD)
  show m: "map (key_at s) (takeWhile ?P ns) = takeWhile (\<lambda>a. compare a k < 0) ks"
    "map (key_at s) (dropWhile ?P ns) = dropWhile (\<lambda>a. compare a k < 0) ks"
    using assms(1) by (simp_all add: skip_list_def takeWhile_map dropWhile_map comp_def)
  show "\<forall>b \<in> set (dropWhile ?P ns). \<not> ?P b"
  proof
    fix b assume "b \<in> set (dropWhile ?P ns)"
    then have "key_at s b \<in> set (dropWhile (\<lambda>a. compare a k < 0) ks)" unfolding m(2) [symmetric] by simp
    then show "\<not> ?P b" using split_at [OF _ _ assms(2,3)] assms(1) unfolding skip_list_def by blast
  qed
qed

lemma Insert_refines:
  assumes "skip_list compare s ns ks" "\<forall>x \<in> set ks. valid x" "valid k" "\<forall>x \<in> set ks. compare k x \<noteq> 0"
  shows "\<exists>s' ns'. SkipList_Insert compare k s = Some s' \<and> skip_list compare s' ns' (sorted_insert compare k ks)"
proof -
  obtain A B where AB: "ns = A @ B" "\<forall>a \<in> set A. compare (key_at s a) k < 0" "\<forall>b \<in> set B. \<not> compare (key_at s b) k < 0"
    "map (key_at s) A = takeWhile (\<lambda>a. compare a k < 0) ks" "map (key_at s) B = dropWhile (\<lambda>a. compare a k < 0) ks"
    using skip_list_split [OF assms(1-3)] by metis
  have s: "skip_shape s (A @ B)" "\<forall>b \<in> set B. compare k (key_at s b) \<noteq> 0"
    using assms(1,4) AB(1) by (auto simp: skip_list_def)
  obtain s' x where s': "SkipList_Insert compare k s = Some s'" "skip_shape s' (A @ x # B)"
    "node_key s' = (node_key s)(x := Some k)" "x \<notin> set (A @ B)"
    using Insert_shape [OF s(1) AB(2,3) s(2)] by metis
  have at: "key_at s' n = (if n = x then k else key_at s n)" if "n \<in> set (A @ x # B)" for n
  proof -
    have "node_key s' n = Some (key_at s' n)" by (rule node_key_at [OF s'(2)]) (use that in auto)
    moreover have "node_key s n = Some (key_at s n)" if "n \<noteq> x"
      by (rule node_key_at [OF s(1)]) (use that \<open>n \<in> set (A @ x # B)\<close> in auto)
    ultimately show ?thesis using s'(3) by (metis fun_upd_apply option.inject)
  qed
  have "key_at s' x = k" "map (key_at s') A = map (key_at s) A" "map (key_at s') B = map (key_at s) B"
    using s'(4) by (auto simp: at)
  then have "sorted_insert compare k ks = map (key_at s') (A @ x # B)"
    using AB(4,5) by (simp add: sorted_insert_while)
  then show ?thesis
    using s'(1,2) sorted_insert_sorted [OF _ assms(2-4)] assms(1) by (auto simp: skip_list_def)
qed

lemma FindGreaterOrEqual_refines:
  assumes "skip_list compare s ns ks" "\<forall>x \<in> set ks. valid x" "valid k"
  shows "\<exists>p. FindGreaterOrEqual compare s k prev = Some (first (drop (length (takeWhile (\<lambda>a. compare a k < 0) ks)) ns), p)"
proof -
  obtain A B where AB: "ns = A @ B" "\<forall>a \<in> set A. compare (key_at s a) k < 0" "\<forall>b \<in> set B. \<not> compare (key_at s b) k < 0"
    "map (key_at s) A = takeWhile (\<lambda>a. compare a k < 0) ks" using skip_list_split [OF assms] by metis
  have s: "skip_shape s (A @ B)" using assms(1) AB(1) by (simp add: skip_list_def)
  then have "sl_max_height s - 1 < kMaxHeight" by (auto simp: skip_shape_def)
  moreover have "length (takeWhile (\<lambda>a. compare a k < 0) ks) = length A" using arg_cong [OF AB(4), of length] by simp
  ultimately show ?thesis
    unfolding FindGreaterOrEqual_def
    by (subst FindGreaterOrEqual_loop_ends [where compare = compare and k = k, OF s AB(2,3)]) (auto simp: AB(1))
qed

lemma FindLessThan_refines:
  assumes "skip_list compare s ns ks" "\<forall>x \<in> set ks. valid x" "i < length ks"
  shows "FindLessThan compare s (ks ! i) = Some (last (sl_head # take i ns))"
proof -
  have s: "skip_shape s (take i ns @ drop i ns)" and at: "\<And>j. j < length ks \<Longrightarrow> key_at s (ns ! j) = ks ! j" and len: "length ns = length ks"
    and sorted: "\<And>j l. j < l \<Longrightarrow> l < length ks \<Longrightarrow> compare (ks ! j) (ks ! l) < 0"
    using assms(1) by (auto simp: skip_list_def sorted_wrt_iff_nth_less)
  have v: "valid (ks ! j)" if "j < length ks" for j using assms(2) that by simp
  have A: "\<forall>a \<in> set (take i ns). compare (key_at s a) (ks ! i) < 0"
    using sorted [of _ i] assms(3) at len by (auto simp: in_set_conv_nth)
  have "\<not> compare (ks ! j) (ks ! i) < 0" if "i \<le> j" "j < length ks" for j
  proof (cases "j = i")
    case True
    then show ?thesis using order_irrefl [OF v [OF assms(3)]] by simp
  next
    case False
    then have "compare (ks ! i) (ks ! j) < 0" using sorted [of i j] that by simp
    then show ?thesis using swap [OF v [OF assms(3)] v [OF that(2)]] by simp
  qed
  have "\<not> compare (key_at s (drop i ns ! j)) (ks ! i) < 0" if "j < length (drop i ns)" for j
    using that len at [of "i + j"] \<open>\<And>j. i \<le> j \<Longrightarrow> j < length ks \<Longrightarrow> \<not> compare (ks ! j) (ks ! i) < 0\<close> [of "i + j"] by simp
  then have B: "\<forall>b \<in> set (drop i ns). \<not> compare (key_at s b) (ks ! i) < 0"
    unfolding all_set_conv_all_nth by blast
  have "sl_max_height s - 1 < kMaxHeight" using s by (auto simp: skip_shape_def)
  then show ?thesis unfolding FindLessThan_def
    by (subst FindLessThan_loop_ends [where compare = compare and k = "ks ! i", OF s A B]) auto
qed

end

section \<open>Building and reading a list\<close>

fun SkipList_Inserts :: "('k \<Rightarrow> 'k \<Rightarrow> int) \<Rightarrow> 'k list \<Rightarrow> 'k skiplist \<Rightarrow> 'k skiplist option" where
  "SkipList_Inserts compare [] s = Some s"
| "SkipList_Inserts compare (k # ks) s = do { s \<leftarrow> SkipList_Insert compare k s; SkipList_Inserts compare ks s }"

text \<open>The keys an iterator meets, from a position, as it is moved by \<open>step\<close> until it is not valid.\<close>

partial_function (option) skip_scan :: "(nat option \<Rightarrow> nat option option) \<Rightarrow> 'k skiplist \<Rightarrow> nat option \<Rightarrow> 'k list option" where
  "skip_scan step s node =
    (if SkipIter_Valid node then
       do { k \<leftarrow> SkipIter_key s node; node \<leftarrow> step node; ks \<leftarrow> skip_scan step s node; Some (k # ks) }
     else Some [])"

lemma empty_skip_list: "skip_list compare (SkipList k) [] []"
proof -
  have "node_Next (SkipList k) sl_head i = Some None" if "i < kMaxHeight" for i
    using that by (simp add: node_Next_def SkipList_def)
  then show ?thesis
    by (simp add: skip_list_def skip_shape_def nd_height_def, simp add: SkipList_def sl_head_def kMaxHeight_def)
qed

text \<open>Facts on positions: the iterator at position \<open>i\<close> is \<open>first (drop i ns)\<close>.\<close>

lemma skip_list_at:
  assumes "skip_list compare s ns ks" "i < length ks"
  shows "first (drop i ns) = Some (ns ! i)" "node_key s (ns ! i) = Some (ks ! i)" "length ns = length ks" "ns ! i \<noteq> sl_head"
proof -
  have s: "skip_shape s ns" "ks = map (key_at s) ns" using assms(1) by (auto simp: skip_list_def)
  then show len: "length ns = length ks" by simp
  then have i: "ns ! i \<in> set ns" using assms(2) by simp
  then show "node_key s (ns ! i) = Some (ks ! i)"
    using node_key_at [OF s(1), of "ns ! i"] s(2) assms(2) by simp
  show "ns ! i \<noteq> sl_head" using i s(1) by (auto simp: skip_shape_def)
  show "first (drop i ns) = Some (ns ! i)" using assms(2) len by (simp add: first_def flip: Cons_nth_drop_Suc)
qed

lemma first_drop_valid: "SkipIter_Valid (first (drop i ns)) \<longleftrightarrow> i < length ns"
  by (simp add: SkipIter_Valid_def first_def split: list.split) (metis drop_eq_Nil list.distinct(1) not_less)

lemma skip_scan_end [simp]: "skip_scan step s None = Some []"
  by (subst skip_scan.simps) (simp add: SkipIter_Valid_def)

lemma skip_linked_0: "skip_shape s ns \<Longrightarrow> skip_linked (\<lambda>x. node_Next s x 0) (sl_head # ns)"
  using on_level_0 [of s ns ns] unfolding skip_shape_def kMaxHeight_def by (metis order_refl zero_less_numeral)

lemma Iter_Next_at:
  assumes "skip_list compare s ns ks" "i < length ks"
  shows "SkipIter_Next s (first (drop i ns)) = Some (first (drop (Suc i) ns))"
proof -
  have s: "skip_shape s ns" using assms(1) by (simp add: skip_list_def)
  have "skip_linked (\<lambda>x. node_Next s x 0) (sl_head # ns)" by (rule skip_linked_0 [OF s])
  moreover have "sl_head # ns = (sl_head # take i ns) @ ns ! i # drop (Suc i) ns"
    using assms(2) skip_list_at(3) [OF assms] by (simp add: id_take_nth_drop [symmetric])
  ultimately have "node_Next s (ns ! i) 0 = Some (first (drop (Suc i) ns))"
    using skip_linked_next [of "\<lambda>x. node_Next s x 0" "sl_head # take i ns"] by metis
  then show ?thesis using skip_list_at(1) [OF assms] by (simp add: SkipIter_Next_def)
qed

lemma scan_forward:
  assumes "skip_list compare s ns ks"
  shows "skip_scan (SkipIter_Next s) s (first (drop i ns)) = Some (drop i ks)"
proof (induction "length ks - i" arbitrary: i)
  case 0
  then have "drop i ns = []" "drop i ks = []" using assms by (auto simp: skip_list_def)
  then show ?case by simp
next
  case (Suc n)
  then have i: "i < length ks" by simp
  note at = skip_list_at [OF assms i]
  have "skip_scan (SkipIter_Next s) s (first (drop (Suc i) ns)) = Some (drop (Suc i) ks)" using Suc by simp
  then show ?case
    using at Iter_Next_at [OF assms i] i first_drop_valid [of i ns]
    by (subst skip_scan.simps) (simp add: SkipIter_key_def Cons_nth_drop_Suc)
qed

lemma SeekToFirst_scan:
  assumes "skip_list compare s ns ks"
  shows "SkipIter_SeekToFirst s \<bind> skip_scan (SkipIter_Next s) s = Some ks"
proof -
  have s: "skip_shape s ns" using assms by (simp add: skip_list_def)
  have "skip_linked (\<lambda>x. node_Next s x 0) (sl_head # ns)" by (rule skip_linked_0 [OF s])
  then have "SkipIter_SeekToFirst s = Some (first ns)" by (simp add: SkipIter_SeekToFirst_def skip_linked_Cons)
  then show ?thesis using scan_forward [OF assms, of 0] by simp
qed

context key_order
begin

lemma Iter_Prev_at:
  assumes "skip_list compare s ns ks" "\<forall>x \<in> set ks. valid x" "i < length ks"
  shows "SkipIter_Prev compare s (Some (ns ! i)) = Some (if i = 0 then None else Some (ns ! (i - 1)))"
proof -
  have "last (sl_head # take i ns) = (if i = 0 then sl_head else ns ! (i - 1))"
    using assms(3) skip_list_at(3) [OF assms(1,3)] by (cases i) (auto simp: take_Suc_conv_app_nth)
  moreover have "ns ! (i - 1) \<noteq> sl_head" using skip_list_at(4) [OF assms(1), of "i - 1"] assms(3) by simp
  ultimately show ?thesis
    using skip_list_at(2) [OF assms(1,3)] FindLessThan_refines [OF assms] by (simp add: SkipIter_Prev_def)
qed

lemma scan_backward:
  assumes "skip_list compare s ns ks" "\<forall>x \<in> set ks. valid x"
  shows "i < length ks \<Longrightarrow> skip_scan (SkipIter_Prev compare s) s (Some (ns ! i)) = Some (rev (take (Suc i) ks))"
proof (induction i)
  case 0
  show ?case using skip_list_at [OF assms(1) 0] Iter_Prev_at [OF assms 0] 0
    by (subst skip_scan.simps) (simp add: SkipIter_key_def SkipIter_Valid_def take_Suc_conv_app_nth)
next
  case (Suc i)
  then show ?case using skip_list_at [OF assms(1) Suc.prems] Iter_Prev_at [OF assms Suc.prems]
    by (subst skip_scan.simps) (simp add: SkipIter_key_def SkipIter_Valid_def take_Suc_conv_app_nth)
qed

lemma SeekToLast_scan:
  assumes "skip_list compare s ns ks" "\<forall>x \<in> set ks. valid x"
  shows "SkipIter_SeekToLast s \<bind> skip_scan (SkipIter_Prev compare s) s = Some (rev ks)"
proof -
  have s: "skip_shape s ns" and len: "length ns = length ks" using assms(1) by (auto simp: skip_list_def)
  then have "FindLast s = Some (last (sl_head # ns))"
    unfolding FindLast_def by (intro FindLast_loop_ends [OF s]) (auto simp: skip_shape_def)
  then have l: "SkipIter_SeekToLast s = Some (if ns = [] then None else Some (ns ! (length ks - 1)))"
    using skip_list_at(4) [OF assms(1), of "length ks - 1"] len
    by (cases "ns = []") (simp_all add: SkipIter_SeekToLast_def last_conv_nth flip: length_greater_0_conv)
  show ?thesis
  proof (cases "ks = []")
    case True
    then show ?thesis using l len by simp
  next
    case False
    then show ?thesis using l len scan_backward [OF assms, of "length ks - 1"] by auto
  qed
qed

lemma Seek_key:
  assumes "skip_list compare s ns ks" "\<forall>x \<in> set ks. valid x" "valid k"
  shows "SkipIter_Seek compare s k \<bind> skip_scan (SkipIter_Next s) s = Some (dropWhile (\<lambda>a. compare a k < 0) ks)"
proof -
  obtain p where "FindGreaterOrEqual compare s k None = Some (first (drop (length (takeWhile (\<lambda>a. compare a k < 0) ks)) ns), p)"
    using FindGreaterOrEqual_refines [OF assms] by blast
  then show ?thesis using scan_forward [OF assms(1)] by (simp add: SkipIter_Seek_def dropWhile_eq_drop)
qed

lemma Contains_refines:
  assumes "skip_list compare s ns ks" "\<forall>x \<in> set ks. valid x" "valid k"
  shows "SkipList_Contains compare s k = Some (\<exists>x \<in> set ks. compare k x = 0)"
proof -
  let ?n = "length (takeWhile (\<lambda>a. compare a k < 0) ks)"
  obtain p where F: "FindGreaterOrEqual compare s k None = Some (first (drop ?n ns), p)"
    using FindGreaterOrEqual_refines [OF assms] by blast
  have ks: "ks = takeWhile (\<lambda>a. compare a k < 0) ks @ dropWhile (\<lambda>a. compare a k < 0) ks" by simp
  have before: "compare k x \<noteq> 0" if "x \<in> set (takeWhile (\<lambda>a. compare a k < 0) ks)" for x
    using swap [of x k] set_takeWhileD [OF that] assms(2,3) by force
  show ?thesis
  proof (cases "?n < length ks")
    case True
    note at = skip_list_at [OF assms(1) True]
    have d: "dropWhile (\<lambda>a. compare a k < 0) ks = ks ! ?n # drop (Suc ?n) ks"
      using True by (simp add: dropWhile_eq_drop Cons_nth_drop_Suc)
    have "compare k x \<noteq> 0" if "compare k (ks ! ?n) \<noteq> 0" "x \<in> set (drop (Suc ?n) ks)" for x
    proof -
      have "sorted_wrt (\<lambda>a b. compare a b < 0) (dropWhile (\<lambda>a. compare a k < 0) ks)"
        using assms(1) unfolding skip_list_def dropWhile_eq_drop by (blast intro: sorted_wrt_drop)
      then have lt: "compare (ks ! ?n) x < 0" using that(2) d by simp
      have v: "valid (ks ! ?n)" "valid x" using True assms(2) in_set_dropD [OF that(2)] by auto
      have "\<not> compare (ks ! ?n) k < 0"
        using split_at [of "ks ! ?n" k ks] assms d by (auto simp: skip_list_def)
      then have "compare k (ks ! ?n) < 0" using that(1) swap [OF v(1) assms(3)] by linarith
      then show ?thesis using trans [OF assms(3) v] lt by simp
    qed
    then have "(\<exists>x \<in> set ks. compare k x = 0) \<longleftrightarrow> compare k (ks ! ?n) = 0"
      using before d True by (metis UnE ks nth_mem set_ConsD set_append)
    then show ?thesis using F at by (simp add: SkipList_Contains_def)
  next
    case False
    then have "dropWhile (\<lambda>a. compare a k < 0) ks = []" by (simp add: dropWhile_eq_drop)
    then have "\<forall>x \<in> set ks. compare k x \<noteq> 0" using before ks by (metis append_Nil2)
    moreover have "drop ?n ns = []" using False assms(1) by (simp add: skip_list_def)
    ultimately show ?thesis using F by (simp add: SkipList_Contains_def)
  qed
qed

lemma Inserts_refine:
  assumes "skip_list compare s ns ls" "\<forall>x \<in> set (ls @ ks). valid x" "sorted_wrt (\<lambda>a b. compare b a \<noteq> 0) ks"
    "\<forall>k \<in> set ks. \<forall>x \<in> set ls. compare k x \<noteq> 0"
  shows "\<exists>s' ns'. SkipList_Inserts compare ks s = Some s' \<and>
    skip_list compare s' ns' (foldl (\<lambda>l k. sorted_insert compare k l) ls ks)"
  using assms
proof (induction ks arbitrary: s ns ls)
  case (Cons k ks)
  obtain s1 ns1 where s1: "SkipList_Insert compare k s = Some s1" "skip_list compare s1 ns1 (sorted_insert compare k ls)"
    using Insert_refines [OF Cons.prems(1), of k] Cons.prems(2,4) by auto
  have "\<exists>s' ns'. SkipList_Inserts compare ks s1 = Some s' \<and>
    skip_list compare s' ns' (foldl (\<lambda>l k. sorted_insert compare k l) (sorted_insert compare k ls) ks)"
    by (rule Cons.IH [OF s1(2)]) (use Cons.prems in auto)
  then show ?case using s1(1) by simp
qed auto

end

text \<open>The bytewise comparator, and that of internal keys, are such orders.\<close>

interpretation byte_order: key_order Slice_compare "\<lambda>_. True"
  by unfold_locales (rule bytewise.compare_swap bytewise.compare_trans, assumption+)+

interpretation internal_order: key_order "InternalKeyComparator_Compare Slice_compare" internal_valid
proof
  show "InternalKeyComparator_Compare Slice_compare a b < 0 \<longleftrightarrow> 0 < InternalKeyComparator_Compare Slice_compare b a"
    if "internal_valid a" "internal_valid b" for a b
    using that by (rule internal.compare_swap)
  show "InternalKeyComparator_Compare Slice_compare a c < 0"
    if "internal_valid a" "internal_valid b" "internal_valid c" "InternalKeyComparator_Compare Slice_compare a b < 0"
      "InternalKeyComparator_Compare Slice_compare b c < 0" for a b c
    using that by (rule internal.compare_trans)
qed

lemma set_sorted_inserts [simp]: "set (foldl (\<lambda>l k. sorted_insert compare k l) ls ks) = set ls \<union> set ks"
  by (induction ks arbitrary: ls) auto

text \<open>
  C6: a skip list is a sorted list.  Inserting keys that the comparator tells apart, in any order and whatever heights
  the random numbers give, returns; then the iterator meets them in order from the front, in reverse from the
  back and from the first key not before a target after a \<open>Seek\<close>, and \<open>Contains\<close> answers membership.  No search
  or link follows a pointer to no node or a link that is missing or not written yet.
\<close>

theorem skip_list_sorts:
  assumes o: "key_order compare (\<lambda>_. True)" and "sorted_wrt (\<lambda>a b. compare b a \<noteq> 0) ks"
  shows "\<exists>s. SkipList_Inserts compare ks (SkipList any_key) = Some s \<and>
    (let sorted = foldl (\<lambda>l k. sorted_insert compare k l) [] ks in
     SkipIter_SeekToFirst s \<bind> skip_scan (SkipIter_Next s) s = Some sorted \<and>
     SkipIter_SeekToLast s \<bind> skip_scan (SkipIter_Prev compare s) s = Some (rev sorted) \<and>
     SkipIter_Seek compare s k \<bind> skip_scan (SkipIter_Next s) s = Some (dropWhile (\<lambda>a. compare a k < 0) sorted) \<and>
     SkipList_Contains compare s k = Some (\<exists>x \<in> set ks. compare k x = 0) \<and>
     sorted_wrt (\<lambda>a b. compare a b < 0) sorted)"
proof -
  obtain s ns where s: "SkipList_Inserts compare ks (SkipList any_key) = Some s"
    "skip_list compare s ns (foldl (\<lambda>l k. sorted_insert compare k l) [] ks)"
    using key_order.Inserts_refine [OF o empty_skip_list [of compare any_key] _ assms(2)] by auto
  note facts = key_order.SeekToLast_scan [OF o s(2)] key_order.Seek_key [OF o s(2), of k]
    key_order.Contains_refines [OF o s(2), of k]
  have "sorted_wrt (\<lambda>a b. compare a b < 0) (foldl (\<lambda>l k. sorted_insert compare k l) [] ks)"
    using s(2) unfolding skip_list_def by blast
  then show ?thesis using s(1) SeekToFirst_scan [OF s(2)] facts by (simp add: Let_def)
qed

lemma skip_list_sorts_witness:
  "\<exists>s. SkipList_Inserts Slice_compare [[2], [3, 1], [1]] (SkipList []) = Some s \<and>
    SkipIter_SeekToFirst s \<bind> skip_scan (SkipIter_Next s) s = Some [[1], [2], [3, 1]]"
proof -
  have "sorted_wrt (\<lambda>a b. Slice_compare b a \<noteq> 0) [[2], [3, 1], [1 :: byte]]" by simp
  from skip_list_sorts [where any_key = "[]" and k = "[]", OF byte_order.key_order_axioms this] show ?thesis by (auto simp: Let_def)
qed

end
