(* ===== verification/Lv_Memtable.thy ===== *)
theory Lv_Memtable
  imports Lv_Skiplist_Facts
begin

text \<open>
  \<open>db/memtable.cc\<close>: entries of internal keys and values in a skip list, and the handler of \<open>db/write_batch.cc\<close> that
  adds the operations of a batch to them.
\<close>

section \<open>The memtable\<close>

text \<open>
  The key type of the list is a pointer to an entry; here it is the entry, the bytes from the pointer to the end of
  its allocation.  \<open>GetVarint32Ptr\<close> may look at five of them.
\<close>

definition entry_varint :: "byte list \<Rightarrow> (u32 \<times> byte list) option" where
  "entry_varint p =
    map_option (\<lambda>(v, q). (v, drop (min 5 (length p) - length q) p)) (GetVarint32Ptr (take 5 p))"

definition entry_slice :: "byte list \<Rightarrow> byte list" where
  "entry_slice data = (case entry_varint data of None \<Rightarrow> [] | Some (len, p) \<Rightarrow> take (unat len) p)"

definition KeyComparator :: "(byte list \<Rightarrow> byte list \<Rightarrow> int) \<Rightarrow> byte list \<Rightarrow> byte list \<Rightarrow> int" where
  "KeyComparator user aptr bptr = InternalKeyComparator_Compare user (entry_slice aptr) (entry_slice bptr)"

definition EncodeKey :: "byte list \<Rightarrow> byte list" where
  "EncodeKey target = PutVarint32 [] (of_nat (length target)) @ target"

type_synonym memtable = "byte list skiplist"

definition MemTable :: memtable where "MemTable = SkipList []"

definition MemTable_Add ::
  "(byte list \<Rightarrow> byte list \<Rightarrow> int) \<Rightarrow> u64 \<Rightarrow> byte \<Rightarrow> byte list \<Rightarrow> byte list \<Rightarrow> memtable \<Rightarrow> memtable option" where
  "MemTable_Add user s type key value mem =
    (let key_size = length key; val_size = length value; internal_key_size = key_size + 8;
         encoded_len = VarintLength (of_nat internal_key_size) + internal_key_size + VarintLength (of_nat val_size) + val_size;
         buf = EncodeVarint32 (of_nat internal_key_size) @ key @ EncodeFixed64 (push_bit 8 s OR ucast type) @
           EncodeVarint32 (of_nat val_size) @ value
     in if length buf = encoded_len then SkipList_Insert (KeyComparator user) buf mem else None)"

text \<open>
  \<open>Get\<close> returns its result, \<open>*value\<close> and \<open>*s\<close>.  A key length below eight, whose slice would wrap around, and a tag
  that is not inside the entry have no result.
\<close>

definition MemTable_Get ::
  "(byte list \<Rightarrow> byte list \<Rightarrow> int) \<Rightarrow> memtable \<Rightarrow> lookup_key \<Rightarrow> byte list \<Rightarrow> status \<Rightarrow> (bool \<times> byte list \<times> status) option" where
  "MemTable_Get user mem key value s =
    do { iter \<leftarrow> SkipIter_Seek (KeyComparator user) mem (memtable_key key);
         if SkipIter_Valid iter then do {
           entry \<leftarrow> SkipIter_key mem iter;
           (key_length, key_ptr) \<leftarrow> entry_varint entry;
           if unat key_length < 8 \<or> length key_ptr < unat key_length then None
           else if user (take (unat key_length - 8) key_ptr) (lookup_user_key key) = 0 then
             let tag = DecodeFixed64 (drop (unat key_length - 8) key_ptr); type = ucast (tag AND 0xff) :: byte
             in if type = kTypeValue then Some (True, entry_slice (drop (unat key_length) key_ptr), s)
                else if type = kTypeDeletion then Some (True, value, Status_make kNotFound [] [])
                else Some (False, value, s)
           else Some (False, value, s) }
         else Some (False, value, s) }"

text \<open>The iterator of a memtable is that of its list; it differs in \<open>Seek\<close>, \<open>key\<close> and \<open>value\<close>.\<close>

definition MemTableIterator_Seek ::
  "(byte list \<Rightarrow> byte list \<Rightarrow> int) \<Rightarrow> memtable \<Rightarrow> byte list \<Rightarrow> nat option option" where
  "MemTableIterator_Seek user mem k = SkipIter_Seek (KeyComparator user) mem (EncodeKey k)"

definition MemTableIterator_key :: "memtable \<Rightarrow> nat option \<Rightarrow> byte list option" where
  "MemTableIterator_key mem iter = map_option entry_slice (SkipIter_key mem iter)"

definition MemTableIterator_value :: "memtable \<Rightarrow> nat option \<Rightarrow> byte list option" where
  "MemTableIterator_value mem iter =
    do { entry \<leftarrow> SkipIter_key mem iter;
         (len, p) \<leftarrow> entry_varint entry;
         Some (entry_slice (drop (unat len) p)) }"

section \<open>Batches into a memtable\<close>

text \<open>A handler of a batch that adds its operations to a memtable, \<open>None\<close> once an addition has no result.\<close>

record memtable_inserter =
  mi_sequence :: u64
  mi_mem :: "memtable option"

definition Inserter_Put ::
  "(byte list \<Rightarrow> byte list \<Rightarrow> int) \<Rightarrow> memtable_inserter \<Rightarrow> byte list \<Rightarrow> byte list \<Rightarrow> memtable_inserter" where
  "Inserter_Put user h key value =
    h\<lparr>mi_mem := mi_mem h \<bind> MemTable_Add user (mi_sequence h) kTypeValue key value, mi_sequence := mi_sequence h + 1\<rparr>"

definition Inserter_Delete :: "(byte list \<Rightarrow> byte list \<Rightarrow> int) \<Rightarrow> memtable_inserter \<Rightarrow> byte list \<Rightarrow> memtable_inserter" where
  "Inserter_Delete user h key =
    h\<lparr>mi_mem := mi_mem h \<bind> MemTable_Add user (mi_sequence h) kTypeDeletion key [], mi_sequence := mi_sequence h + 1\<rparr>"

definition WriteBatch_InsertInto ::
  "(byte list \<Rightarrow> byte list \<Rightarrow> int) \<Rightarrow> byte list \<Rightarrow> memtable \<Rightarrow> memtable option \<times> status" where
  "WriteBatch_InsertInto user rep mem =
    (case WriteBatch_Iterate (Inserter_Put user) (Inserter_Delete user) rep
        \<lparr>mi_sequence = WriteBatch_Sequence rep, mi_mem = Some mem\<rparr>
     of (h, s) \<Rightarrow> (mi_mem h, s))"

section \<open>Entries\<close>

text \<open>The versions of a key: sequence number, type, user key and value, and the entry they are stored as.\<close>

record version =
  ver_sequence :: u64
  ver_type :: byte
  ver_key :: "byte list"
  ver_value :: "byte list"

definition ver_internal :: "version \<Rightarrow> byte list" where
  "ver_internal e = ver_key e @ EncodeFixed64 (PackSequenceAndType (ver_sequence e) (ver_type e))"

definition ver_entry :: "version \<Rightarrow> byte list" where
  "ver_entry e = vint (length (ver_internal e)) @ ver_internal e @ vint (length (ver_value e)) @ ver_value e"

definition ver_ok :: "version \<Rightarrow> bool" where
  "ver_ok e \<longleftrightarrow> length (ver_key e) + 8 < 2 ^ 32 \<and> length (ver_value e) < 2 ^ 32 \<and> ver_sequence e \<le> kMaxSequenceNumber \<and>
    ver_type e \<le> kTypeValue"

lemma length_ver_internal [simp]: "length (ver_internal e) = length (ver_key e) + 8"
  by (simp add: ver_internal_def)

lemma length_vint_5: "n < 2 ^ 32 \<Longrightarrow> length (vint n) \<le> 5"
  using length_vint_32 [of "of_nat n"] by (simp add: unat_of_nat)

lemma entry_varint_vint: "n < 2 ^ 32 \<Longrightarrow> entry_varint (vint n @ r) = Some (of_nat n, r)"
proof -
  assume n: "n < 2 ^ 32"
  then have "take 5 (vint n @ r) = vint n @ take (5 - length (vint n)) r" using length_vint_5 [OF n] by simp
  then have "GetVarint32Ptr (take 5 (vint n @ r)) = Some (of_nat n, take (5 - length (vint n)) r)"
    using GetVarint32_length(2) [OF n] by (simp only:)
  then show ?thesis using length_vint_5 [OF n] by (simp add: entry_varint_def min_def, linarith)
qed

lemma unat_of_nat_32: "n < 2 ^ 32 \<Longrightarrow> unat (of_nat n :: u32) = n"
  by (simp add: unat_of_nat)

lemma entry_slice_vint: "length x < 2 ^ 32 \<Longrightarrow> entry_slice (vint (length x) @ x @ r) = x"
  by (simp add: entry_slice_def entry_varint_vint unat_of_nat)

lemma entry_slice_version: "ver_ok e \<Longrightarrow> entry_slice (ver_entry e) = ver_internal e"
  using entry_slice_vint [of "ver_internal e"] by (simp add: ver_entry_def ver_ok_def)

lemma MemTable_Add_version:
  assumes "ver_ok e"
  shows "MemTable_Add user (ver_sequence e) (ver_type e) (ver_key e) (ver_value e) mem =
    SkipList_Insert (KeyComparator user) (ver_entry e) mem"
proof -
  have n: "length (ver_key e) + 8 < 2 ^ 32" "length (ver_value e) < 2 ^ 32" using assms by (auto simp: ver_ok_def)
  have v: "VarintLength (of_nat n) = length (vint n) \<and> EncodeVarint32 (of_nat n) = vint n" if "n < 2 ^ 32" for n
    using that by (simp add: VarintLength_EncodeVarint64 EncodeVarint64_vint EncodeVarint32_vint unat_of_nat)
  show ?thesis
    using v [OF n(1)] v [OF n(2)]
    by (simp add: MemTable_Add_def Let_def ver_entry_def ver_internal_def PackSequenceAndType_def)
qed

text \<open>The comparator of the table orders entries by their internal keys.\<close>

interpretation mem_order: key_order "KeyComparator Slice_compare" "\<lambda>e. internal_valid (entry_slice e)"
proof
  show "KeyComparator Slice_compare a b < 0 \<longleftrightarrow> 0 < KeyComparator Slice_compare b a"
    if "internal_valid (entry_slice a)" "internal_valid (entry_slice b)" for a b
    unfolding KeyComparator_def using that by (rule internal_order.swap)
  show "KeyComparator Slice_compare a c < 0"
    if "internal_valid (entry_slice a)" "internal_valid (entry_slice b)" "internal_valid (entry_slice c)"
      "KeyComparator Slice_compare a b < 0" "KeyComparator Slice_compare b c < 0" for a b c
    using that unfolding KeyComparator_def by (rule internal_order.trans)
qed

end
