(* ===== verification/Lv_Memtable_Facts.thy ===== *)
theory Lv_Memtable_Facts
  imports Lv_Memtable
begin

text \<open>
  A memtable answers a lookup with the version that the snapshot sees, from the serialised batches to the result of
  \<open>Get\<close>.
\<close>

section \<open>Reading a snapshot\<close>

text \<open>The version of \<open>u\<close> that a snapshot sees: the last one added with a sequence number up to that of the snapshot.\<close>

definition visible :: "byte list \<Rightarrow> u64 \<Rightarrow> version \<Rightarrow> bool" where
  "visible u snap e \<longleftrightarrow> ver_key e = u \<and> ver_sequence e \<le> snap"

definition newest :: "version list \<Rightarrow> byte list \<Rightarrow> u64 \<Rightarrow> version option" where
  "newest es u snap = find (visible u snap) (rev es)"

text \<open>The nodes of a memtable are numbered in the order in which they were made, and each but the first has an entry.\<close>

definition mem_dense :: "memtable \<Rightarrow> bool" where
  "mem_dense mem \<longleftrightarrow> 0 < sl_arena mem \<and> (\<forall>i < sl_arena mem. \<exists>k. node_key mem i = Some k \<and> (0 < i \<longrightarrow> k \<noteq> []))"

lemma SetNext_keys: "node_SetNext x n y s = Some s' \<Longrightarrow> node_key s' = node_key s \<and> sl_arena s' = sl_arena s"
  by (auto simp: node_SetNext_def node_key_def fun_eq_iff split: bind_splits if_splits)

lemma link_levels_keys: "link_levels x prev is s = Some s' \<Longrightarrow> node_key s' = node_key s \<and> sl_arena s' = sl_arena s"
proof (induction x prev "is" s rule: link_levels.induct)
  case (2 x prev i "is" s)
  then show ?case by (fastforce split: bind_splits if_splits dest: SetNext_keys)
qed simp

lemma Insert_dense:
  assumes "SkipList_Insert compare k s = Some s'" "k \<noteq> []" "mem_dense s"
  shows "mem_dense s'"
proof -
  obtain x prev where f: "FindGreaterOrEqual compare s k (Some (replicate kMaxHeight None)) = Some (x, prev)"
    using assms(1) by (auto simp: SkipList_Insert_def split: bind_splits)
  obtain r h where rh: "RandomHeight (sl_rnd s) = (r, h)" by fastforce
  define u where "u = (if sl_max_height s < h then s\<lparr>sl_rnd := r, sl_max_height := h\<rparr> else s\<lparr>sl_rnd := r\<rparr>)"
  have u: "node_key u = node_key s" "sl_arena u = sl_arena s" by (auto simp: u_def node_key_def fun_eq_iff)
  obtain prev' where "link_levels (sl_arena u) prev' [0 ..< h] (snd (NewNode k h u)) = Some s'"
    using assms(1) f rh unfolding SkipList_Insert_def Let_def u_def
    by (auto simp: NewNode_def split: bind_splits if_splits)
  note u = u this
  from link_levels_keys [OF u(3)] have "node_key s' = (node_key s)(sl_arena s := Some k)" "sl_arena s' = sl_arena s + 1"
    using u(1,2) by (auto simp: NewNode_def node_key_def fun_eq_iff)
  then show ?thesis using assms(2,3) by (auto simp: mem_dense_def less_Suc_eq)
qed

definition mem_versions :: "memtable \<Rightarrow> nat list \<Rightarrow> version list \<Rightarrow> bool" where
  "mem_versions mem ns es \<longleftrightarrow>
    skip_list (KeyComparator Slice_compare) mem ns (foldl (\<lambda>l k. sorted_insert (KeyComparator Slice_compare) k l) [] (map ver_entry es)) \<and>
    (\<forall>e \<in> set es. ver_ok e) \<and> sorted_wrt (\<lambda>a b. ver_sequence a < ver_sequence b) es \<and> mem_dense mem"

lemma newest_Some:
  assumes "newest es u snap = Some e" "sorted_wrt (\<lambda>a b. ver_sequence a < ver_sequence b) es"
  shows "e \<in> set es" "visible u snap e" "\<And>x. x \<in> set es \<Longrightarrow> visible u snap x \<Longrightarrow> x = e \<or> ver_sequence x < ver_sequence e"
proof -
  obtain i where i: "i < length (rev es)" "visible u snap (rev es ! i)" "e = rev es ! i"
    and before: "\<forall>j < i. \<not> visible u snap (rev es ! j)"
    using assms(1) by (auto simp: newest_def find_Some_iff)
  show "e \<in> set es" "visible u snap e" using i nth_mem [OF i(1)] by auto
  fix x assume x: "x \<in> set es" "visible u snap x"
  then obtain j where j: "j < length (rev es)" "x = rev es ! j" by (metis in_set_conv_nth set_rev)
  then have "i \<le> j" using before x(2) not_less by blast
  moreover have "ver_sequence (rev es ! j) < ver_sequence (rev es ! i)" if "i < j"
  proof -
    have "sorted_wrt (\<lambda>a b. ver_sequence b < ver_sequence a) (rev es)" using assms(2) by (simp add: sorted_wrt_rev)
    then show ?thesis using that j(1) by (simp add: sorted_wrt_iff_nth_less)
  qed
  ultimately show "x = e \<or> ver_sequence x < ver_sequence e" using i(3) j(2) by (cases "i = j") auto
qed

lemma newest_None: "newest es u snap = None \<longleftrightarrow> (\<forall>e \<in> set es. \<not> visible u snap e)"
  by (auto simp: newest_def find_None_iff)

lemma Compare_versions:
  assumes "ver_ok a" "ver_ok b"
  shows "KeyComparator Slice_compare (ver_entry a) (ver_entry b) < 0 \<longleftrightarrow>
    Slice_compare (ver_key a) (ver_key b) < 0 \<or> ver_key a = ver_key b \<and>
      (ver_sequence b < ver_sequence a \<or> ver_sequence a = ver_sequence b \<and> ver_type b < ver_type a)"
  using assms pack_less [of "ver_sequence b" "ver_sequence a" "ver_type b" "ver_type a"]
  by (auto simp: KeyComparator_def entry_slice_version ver_internal_def Let_def Slice_compare_eq ver_ok_def)

text \<open>The key of a lookup is the entry of a version, without the value.\<close>

lemma LookupKey_facts:
  assumes "length u + 8 < 2 ^ 32" "e = \<lparr>ver_sequence = snap, ver_type = kTypeValue, ver_key = u, ver_value = []\<rparr>"
  shows "entry_slice (memtable_key (LookupKey u snap)) = ver_internal e" "lookup_user_key (LookupKey u snap) = u"
proof -
  have "EncodeVarint32 (of_nat (length u + 8)) = vint (length (ver_internal e))"
    using unat_of_nat_32 [OF assms(1)] assms(2) by (simp only: EncodeVarint32_vint) simp
  then have k: "memtable_key (LookupKey u snap) = vint (length (ver_internal e)) @ ver_internal e"
    and "lk_klength (LookupKey u snap) = length (vint (length (ver_internal e)))"
    using assms(2) by (auto simp: memtable_key_def LookupKey_def Let_def ver_internal_def kValueTypeForSeek_def)
  then show "lookup_user_key (LookupKey u snap) = u"
    using assms(2) by (simp add: lookup_user_key_def memtable_key_def ver_internal_def)
  show "entry_slice (memtable_key (LookupKey u snap)) = ver_internal e"
    using entry_slice_vint [of "ver_internal e" "[]"] assms by (simp add: k)
qed

lemma tag_type:
  assumes "t \<le> kTypeValue"
  shows "(ucast (PackSequenceAndType s t AND 0xff) :: byte) = t"
  by (rule bit_word_eqI) (auto simp: PackSequenceAndType_def bit_simps)

text \<open>What \<open>Get\<close> does with the entry at which the search ends.\<close>

definition get_result :: "version option \<Rightarrow> byte list \<Rightarrow> status \<Rightarrow> bool \<times> byte list \<times> status" where
  "get_result e value s =
    (case e of None \<Rightarrow> (False, value, s)
     | Some e \<Rightarrow> if ver_type e = kTypeValue then (True, ver_value e, s) else (True, value, Status_make kNotFound [] []))"

lemma Get_at:
  assumes "SkipIter_Seek (KeyComparator Slice_compare) mem (memtable_key (LookupKey u snap)) = Some (Some n)"
    "SkipIter_key mem (Some n) = Some (ver_entry e)" "ver_ok e" "length u + 8 < 2 ^ 32"
  shows "MemTable_Get Slice_compare mem (LookupKey u snap) value s = Some (get_result (if ver_key e = u then Some e else None) value s)"
proof -
  have n: "length (ver_key e) + 8 < 2 ^ 32" "length (ver_value e) < 2 ^ 32" "ver_type e \<le> kTypeValue"
    using assms(3) by (auto simp: ver_ok_def)
  let ?v = "vint (length (ver_value e)) @ ver_value e"
  have v: "entry_varint (ver_entry e) = Some (of_nat (length (ver_key e) + 8), ver_internal e @ ?v)"
    using entry_varint_vint [OF n(1), of "ver_internal e @ ?v"] by (simp add: ver_entry_def)
  have l: "unat (of_nat (length (ver_key e) + 8) :: u32) = length (ver_key e) + 8" by (rule unat_of_nat_32 [OF n(1)])
  have t: "take (length (ver_key e)) (ver_internal e @ ?v) = ver_key e"
    "drop (length (ver_key e) + 8) (ver_internal e @ ?v) = ?v"
    "DecodeFixed64 (drop (length (ver_key e)) (ver_internal e @ ?v)) = PackSequenceAndType (ver_sequence e) (ver_type e)"
    by (simp_all add: ver_internal_def)
  have c: "ver_type e = kTypeValue \<or> ver_type e = kTypeDeletion"
  proof -
    have "unat (ver_type e) \<le> 1" using n(3) by (simp add: kTypeValue_def word_le_nat_alt)
    then have "unat (ver_type e) = 0 \<or> unat (ver_type e) = 1" by linarith
    then show ?thesis by (simp add: kTypeValue_def kTypeDeletion_def word_unat_eq_iff disj_commute)
  qed
  show ?thesis
    unfolding MemTable_Get_def assms(1) LookupKey_facts(2) [OF assms(4) refl]
    using assms(2) v l t c entry_slice_vint [OF n(2), of "[]"] tag_type [OF n(3)]
    by (auto simp: SkipIter_Valid_def Let_def Slice_compare_eq get_result_def kTypeValue_def kTypeDeletion_def)
qed

lemma Compare_lookup:
  assumes "ver_ok a" "length u + 8 < 2 ^ 32" "snap \<le> kMaxSequenceNumber"
  shows "KeyComparator Slice_compare (ver_entry a) (memtable_key (LookupKey u snap)) < 0 \<longleftrightarrow>
    Slice_compare (ver_key a) u < 0 \<or> ver_key a = u \<and> snap < ver_sequence a"
proof -
  let ?e = "\<lparr>ver_sequence = snap, ver_type = kTypeValue, ver_key = u, ver_value = []\<rparr>"
  have "ver_ok ?e" using assms by (simp add: ver_ok_def)
  then show ?thesis
    using Compare_versions [OF assms(1) \<open>ver_ok ?e\<close>] assms(1)
    by (simp add: KeyComparator_def LookupKey_facts(1) [OF assms(2) refl] entry_slice_version, auto simp: ver_ok_def)
qed

lemma Get_refines:
  assumes m: "mem_versions mem ns es" and u: "length u + 8 < 2 ^ 32" and snap: "snap \<le> kMaxSequenceNumber"
  shows "MemTable_Get Slice_compare mem (LookupKey u snap) value s = Some (get_result (newest es u snap) value s)"
proof -
  let ?cmp = "KeyComparator Slice_compare" and ?lk = "memtable_key (LookupKey u snap)"
  define ks where "ks = foldl (\<lambda>l k. sorted_insert ?cmp k l) [] (map ver_entry es)"
  have l: "skip_list ?cmp mem ns ks" and ok: "\<And>e. e \<in> set es \<Longrightarrow> ver_ok e"
    and inc: "sorted_wrt (\<lambda>a b. ver_sequence a < ver_sequence b) es"
    using m by (auto simp: mem_versions_def ks_def)
  have sorted: "sorted_wrt (\<lambda>a b. ?cmp a b < 0) ks" using l unfolding skip_list_def by blast
  have set: "set ks = ver_entry ` set es" by (simp add: ks_def)
  define m where "m = length (takeWhile (\<lambda>a. ?cmp a ?lk < 0) ks)"
  have valid: "\<forall>x \<in> set ks. internal_valid (entry_slice x)"
    using ok by (auto simp: set entry_slice_version ver_internal_def)
  have "internal_valid (entry_slice ?lk)" by (simp add: LookupKey_facts(1) [OF u refl] ver_internal_def)
  from mem_order.FindGreaterOrEqual_refines [OF l valid this]
  have seek: "SkipIter_Seek ?cmp mem ?lk = Some (first (drop m ns))" unfolding m_def SkipIter_Seek_def by fastforce
  have len: "length ns = length ks" using l by (auto simp: skip_list_def)
  have vis: "\<not> ?cmp (ver_entry e) ?lk < 0" if "e \<in> set es" "visible u snap e" for e
    using Compare_lookup [OF ok [OF that(1)] u snap] that(2) by (auto simp: visible_def)
  have before: "?cmp (ks ! j) ?lk < 0" if "j < m" for j
    using that nth_mem [of j "takeWhile (\<lambda>a. ?cmp a ?lk < 0) ks"] set_takeWhileD takeWhile_nth [of j "\<lambda>a. ?cmp a ?lk < 0" ks]
    unfolding m_def by metis
  show ?thesis
  proof (cases "m < length ks")
    case True
    have "ks ! m \<in> set ks" using True by simp
    then obtain e0 where e0: "e0 \<in> set es" "ks ! m = ver_entry e0" by (auto simp: set)
    have nb: "\<not> ?cmp (ver_entry e0) ?lk < 0"
      using nth_length_takeWhile [of "\<lambda>a. ?cmp a ?lk < 0" ks] True e0(2) unfolding m_def by simp
    then have nb: "\<not> Slice_compare (ver_key e0) u < 0" "ver_key e0 = u \<longrightarrow> visible u snap e0"
      using Compare_lookup [OF ok [OF e0(1)] u snap] by (auto simp: visible_def)
    note at = skip_list_at [OF l True]
    have get: "MemTable_Get Slice_compare mem (LookupKey u snap) value s = Some (get_result (if ver_key e = u then Some e else None) value s)"
      if "e \<in> set es" "ks ! m = ver_entry e" for e
      by (rule Get_at [OF _ _ ok [OF that(1)] u]) (use seek at that in \<open>simp_all add: SkipIter_key_def\<close>)
    show ?thesis
    proof (cases "newest es u snap")
      case None
      then have "ver_key e0 \<noteq> u" using nb(2) e0(1) by (auto simp: newest_None)
      then show ?thesis using get [OF e0] None by simp
    next
      case (Some e)
      note n = newest_Some [OF Some inc]
      obtain j where j: "j < length ks" "ks ! j = ver_entry e" using n(1) set by (metis imageI in_set_conv_nth)
      have "m \<le> j" using before [of j] vis [OF n(1,2)] j(2) by (cases "m \<le> j") auto
      show ?thesis
      proof (cases "j = m")
        case True
        then show ?thesis using get [OF n(1)] j(2) n(2) Some by (simp add: visible_def)
      next
        case False
        then have "?cmp (ver_entry e0) (ver_entry e) < 0"
          using sorted \<open>m \<le> j\<close> j e0(2) by (metis sorted_wrt_iff_nth_less le_neq_implies_less)
        then have "ver_key e0 = u" "ver_sequence e0 = ver_sequence e \<or> ver_sequence e < ver_sequence e0"
          using Compare_versions [OF ok [OF e0(1)] ok [OF n(1)]] nb(1) n(2) by (auto simp: visible_def)
        moreover have "e0 = e \<or> ver_sequence e0 < ver_sequence e" using n(3) [OF e0(1)] nb(2) calculation(1) by blast
        ultimately have "e0 = e" by auto
        then show ?thesis using get [OF e0] Some n(2) by (simp add: visible_def)
      qed
    qed
  next
    case False
    then have "m = length ks" using length_takeWhile_le [of "\<lambda>a. ?cmp a ?lk < 0" ks] unfolding m_def by linarith
    have "\<not> visible u snap e" if e: "e \<in> set es" for e
    proof
      assume v: "visible u snap e"
      obtain j where "j < length ks" "ks ! j = ver_entry e" using e set by (metis imageI in_set_conv_nth)
      then show False using before [of j] vis [OF e v] \<open>m = length ks\<close> by simp
    qed
    then have "newest es u snap = None" by (simp add: newest_None)
    moreover have "first (drop m ns) = None" using False len by simp
    ultimately show ?thesis unfolding MemTable_Get_def seek by (simp add: SkipIter_Valid_def get_result_def)
  qed
qed

lemma Add_refines:
  assumes m: "mem_versions mem ns es" and e: "ver_ok e" "\<forall>x \<in> set es. ver_sequence x < ver_sequence e"
  shows "\<exists>mem' ns'. MemTable_Add Slice_compare (ver_sequence e) (ver_type e) (ver_key e) (ver_value e) mem = Some mem' \<and>
    mem_versions mem' ns' (es @ [e])"
proof -
  let ?cmp = "KeyComparator Slice_compare"
  define ks where "ks = foldl (\<lambda>l k. sorted_insert ?cmp k l) [] (map ver_entry es)"
  have l: "skip_list ?cmp mem ns ks" and ok: "\<And>e. e \<in> set es \<Longrightarrow> ver_ok e"
    using m by (auto simp: mem_versions_def ks_def)
  have set: "set ks = ver_entry ` set es" by (simp add: ks_def)
  have "?cmp (ver_entry e) (ver_entry x) \<noteq> 0" if "x \<in> set es" for x
  proof -
    have "ver_internal e \<noteq> ver_internal x"
      using e(2) that pack_less [of "ver_sequence x" "ver_sequence e" "ver_type x" "ver_type e"] e(1) ok [OF that]
      by (auto simp: ver_internal_def user_key_append_eq ver_ok_def)
    then show ?thesis
      using e(1) ok [OF that] internal.compare_eq [of "ver_internal e" "ver_internal x"]
      by (simp add: KeyComparator_def entry_slice_version) (simp add: ver_internal_def)
  qed
  then have "\<exists>s' ns'. SkipList_Insert ?cmp (ver_entry e) mem = Some s' \<and> skip_list ?cmp s' ns' (sorted_insert ?cmp (ver_entry e) ks)"
    by (intro mem_order.Insert_refines [OF l])
      (use ok e(1) in \<open>auto simp: set entry_slice_version\<close>, auto simp: ver_internal_def)
  then show ?thesis
    using m e Insert_dense [of ?cmp "ver_entry e" mem] unfolding MemTable_Add_version [OF e(1)]
    by (auto simp: mem_versions_def ks_def sorted_wrt_append ver_entry_def ver_internal_def)
qed

lemma empty_versions: "mem_versions MemTable [] []"
  by (simp add: mem_versions_def MemTable_def empty_skip_list mem_dense_def)
    (simp add: SkipList_def node_key_def sl_head_def)

section \<open>Batches and snapshots\<close>

fun op_key :: "batch_op \<Rightarrow> byte list" where
  "op_key (Batch_put k v) = k"
| "op_key (Batch_delete k) = k"

fun op_fits :: "batch_op \<Rightarrow> bool" where
  "op_fits (Batch_put k v) \<longleftrightarrow> length k + 8 < 2 ^ 32 \<and> length v < 2 ^ 32"
| "op_fits (Batch_delete k) \<longleftrightarrow> length k + 8 < 2 ^ 32"

fun op_version :: "u64 \<Rightarrow> batch_op \<Rightarrow> version" where
  "op_version s (Batch_put k v) = \<lparr>ver_sequence = s, ver_type = kTypeValue, ver_key = k, ver_value = v\<rparr>"
| "op_version s (Batch_delete k) = \<lparr>ver_sequence = s, ver_type = kTypeDeletion, ver_key = k, ver_value = []\<rparr>"

primrec op_versions :: "u64 \<Rightarrow> batch_op list \<Rightarrow> version list" where
  "op_versions seq [] = []"
| "op_versions seq (op # ops) = op_version seq op # op_versions (seq + 1) ops"

lemma op_version_sel [simp]: "ver_sequence (op_version s op) = s" "ver_key (op_version s op) = op_key op"
  by (cases op; simp)+

lemma op_versions_append: "op_versions seq (ops @ ops') = op_versions seq ops @ op_versions (seq + of_nat (length ops)) ops'"
  by (induction ops arbitrary: seq) (simp_all add: ac_simps)

lemma op_version_ok: "op_fits op \<Longrightarrow> s \<le> kMaxSequenceNumber \<Longrightarrow> ver_ok (op_version s op)"
  by (cases op) (auto simp: ver_ok_def kTypeValue_def kTypeDeletion_def)

lemma unat_kMax: "unat kMaxSequenceNumber = 2 ^ 56 - 1"
  by (simp add: kMaxSequenceNumber_def)

lemma handle_op_version:
  "handle_op (Inserter_Put user) (Inserter_Delete user) \<lparr>mi_sequence = seq, mi_mem = Some mem\<rparr> op =
    \<lparr>mi_sequence = seq + 1,
     mi_mem = (let e = op_version seq op in MemTable_Add user (ver_sequence e) (ver_type e) (ver_key e) (ver_value e) mem)\<rparr>"
  by (cases op) (simp_all add: Inserter_Put_def Inserter_Delete_def)

lemma handle_ops_refine:
  assumes "mem_versions mem ns es" "\<forall>op \<in> set ops. op_fits op" "unat seq + length ops \<le> 2 ^ 56"
    "\<forall>e \<in> set es. ver_sequence e < seq"
  shows "\<exists>h mem' ns'. foldl (handle_op (Inserter_Put Slice_compare) (Inserter_Delete Slice_compare))
      \<lparr>mi_sequence = seq, mi_mem = Some mem\<rparr> ops = h \<and> mi_mem h = Some mem' \<and> mem_versions mem' ns' (es @ op_versions seq ops)"
  using assms
proof (induction ops arbitrary: mem ns es seq)
  case (Cons op ops)
  have seq: "unat seq < 2 ^ 56" using Cons.prems(3) by simp
  then have ok: "ver_ok (op_version seq op)"
    using Cons.prems(2) by (intro op_version_ok) (auto simp: word_le_nat_alt unat_kMax)
  obtain mem1 ns1 where 1: "handle_op (Inserter_Put Slice_compare) (Inserter_Delete Slice_compare)
      \<lparr>mi_sequence = seq, mi_mem = Some mem\<rparr> op = \<lparr>mi_sequence = seq + 1, mi_mem = Some mem1\<rparr>"
    "mem_versions mem1 ns1 (es @ [op_version seq op])"
    using Add_refines [OF Cons.prems(1) ok] Cons.prems(4) unfolding handle_op_version Let_def by auto
  show ?case
  proof (cases "ops = []")
    case True
    then show ?thesis using 1 by auto
  next
    case False
    have suc: "unat (seq + 1) = unat seq + 1" using seq by (simp add: unat_word_ariths)
    then have "\<forall>e \<in> set (es @ [op_version seq op]). ver_sequence e < seq + 1"
      using Cons.prems(4) by (auto simp: word_less_nat_alt)
    from Cons.IH [OF 1(2) _ _ this] show ?thesis using Cons.prems(2,3) suc 1(1) by simp
  qed
qed auto

text \<open>A batch as a client builds it, and a sequence of batches with consecutive sequence numbers.\<close>

definition batch_of :: "u64 \<Rightarrow> batch_op list \<Rightarrow> byte list" where
  "batch_of seq ops = WriteBatch_SetSequence (foldl add_op WriteBatch_Clear ops) seq"

primrec batches_of :: "u64 \<Rightarrow> batch_op list list \<Rightarrow> byte list list" where
  "batches_of seq [] = []"
| "batches_of seq (ops # bs) = batch_of seq ops # batches_of (seq + of_nat (length ops)) bs"

primrec insert_batches :: "(byte list \<Rightarrow> byte list \<Rightarrow> int) \<Rightarrow> byte list list \<Rightarrow> memtable \<Rightarrow> memtable option" where
  "insert_batches user [] mem = Some mem"
| "insert_batches user (b # bs) mem =
    (case WriteBatch_InsertInto user b mem of
       (Some mem, s) \<Rightarrow> if status_ok s then insert_batches user bs mem else None
     | (None, s) \<Rightarrow> None)"

lemma op_fits_small: "op_fits op \<Longrightarrow> op_small op"
  by (cases op) auto

lemma batch_of_bytes: "\<forall>op \<in> set ops. op_fits op \<Longrightarrow> batch_of seq ops = batch_bytes seq ops"
  using batch_bytes_adds [of ops 0 "[]"] by (simp add: batch_of_def batch_bytes_Clear op_fits_small batch_bytes_SetSequence)

lemma InsertInto_refines:
  assumes "mem_versions mem ns es" "\<forall>op \<in> set ops. op_fits op" "unat seq + length ops \<le> 2 ^ 56"
    "\<forall>e \<in> set es. ver_sequence e < seq"
  shows "\<exists>mem' ns'. WriteBatch_InsertInto Slice_compare (batch_of seq ops) mem = (Some mem', Status_OK) \<and>
    mem_versions mem' ns' (es @ op_versions seq ops)"
  using handle_ops_refine [OF assms] assms(2)
  by (auto simp: WriteBatch_InsertInto_def batch_of_bytes op_fits_small Iterate_ops)

lemma op_versions_sequence:
  assumes "unat seq + length ops \<le> 2 ^ 56" "e \<in> set (op_versions seq ops)"
  shows "ver_sequence e < seq + of_nat (length ops)"
  using assms
proof (induction ops arbitrary: seq)
  case (Cons op ops)
  have n: "unat (seq + of_nat k) = unat seq + k" if "k \<le> Suc (length ops)" for k
  proof -
    have "unat seq + k < 2 ^ 64" using that Cons.prems(1) by simp
    then show ?thesis by (simp add: unat_word_ariths unat_of_nat)
  qed
  have "unat (seq + 1) = unat seq + 1" using n [of 1] by simp
  then have "e \<in> set (op_versions (seq + 1) ops) \<Longrightarrow> ver_sequence e < seq + 1 + of_nat (length ops)"
    using Cons.IH [of "seq + 1"] Cons.prems(1) by simp
  moreover have "seq < seq + of_nat (Suc (length ops))"
    using n [of "Suc (length ops)"] by (simp only: word_less_nat_alt)
  ultimately show ?case using Cons.prems(2) by (auto simp: ac_simps)
qed simp

lemma insert_batches_refine:
  assumes "mem_versions mem ns es" "\<forall>op \<in> set (concat bs). op_fits op" "unat seq + length (concat bs) \<le> 2 ^ 56"
    "\<forall>e \<in> set es. ver_sequence e < seq"
  shows "\<exists>mem' ns'. insert_batches Slice_compare (batches_of seq bs) mem = Some mem' \<and>
    mem_versions mem' ns' (es @ op_versions seq (concat bs))"
  using assms
proof (induction bs arbitrary: mem ns es seq)
  case (Cons ops bs)
  have ops: "\<forall>op \<in> set ops. op_fits op" "unat seq + length ops \<le> 2 ^ 56" using Cons.prems(2,3) by auto
  obtain mem1 ns1 where 1: "WriteBatch_InsertInto Slice_compare (batch_of seq ops) mem = (Some mem1, Status_OK)"
    "mem_versions mem1 ns1 (es @ op_versions seq ops)" using InsertInto_refines [OF Cons.prems(1) ops Cons.prems(4)] by blast
  have n: "unat (seq + of_nat (length ops)) = unat seq + length ops"
    using ops(2) by (simp add: unat_word_ariths unat_of_nat)
  have "ver_sequence e < seq + of_nat (length ops)" if "e \<in> set (es @ op_versions seq ops)" for e
    using that op_versions_sequence [OF ops(2)] Cons.prems(4) n by (auto simp: word_less_nat_alt)
  then have "\<forall>e \<in> set (es @ op_versions seq ops). ver_sequence e < seq + of_nat (length ops)" by blast
  from Cons.IH [OF 1(2) _ _ this] show ?case
    using Cons.prems(2,3) n 1(1) by (simp add: status_ok_def op_versions_append)
qed auto

text \<open>What a reader of the database expects: the last operation on a key among the first \<open>n\<close>.\<close>

definition last_op :: "batch_op list \<Rightarrow> nat \<Rightarrow> byte list \<Rightarrow> batch_op option" where
  "last_op ops n u = find (\<lambda>op. op_key op = u) (rev (take n ops))"

fun op_result :: "batch_op option \<Rightarrow> byte list \<Rightarrow> status \<Rightarrow> bool \<times> byte list \<times> status" where
  "op_result None value s = (False, value, s)"
| "op_result (Some (Batch_put k v)) value s = (True, v, s)"
| "op_result (Some (Batch_delete k)) value s = (True, value, Status_make kNotFound [] [])"

lemma newest_last_op:
  assumes "unat seq + length ops \<le> 2 ^ 56"
  shows "get_result (newest (op_versions seq ops) u snap) value s = op_result (last_op ops (unat snap + 1 - unat seq) u) value s"
  using assms
proof (induction ops rule: rev_induct)
  case Nil
  then show ?case by (simp add: newest_def last_op_def get_result_def)
next
  case (snoc op ops)
  let ?s = "seq + of_nat (length ops)"
  have n: "unat ?s = unat seq + length ops" using snoc.prems by (simp add: unat_word_ariths unat_of_nat)
  have vis: "visible u snap (op_version ?s op) \<longleftrightarrow> op_key op = u \<and> length ops < unat snap + 1 - unat seq"
    by (auto simp: visible_def word_le_nat_alt n)
  have "newest (op_versions seq (ops @ [op])) u snap =
      (if visible u snap (op_version ?s op) then Some (op_version ?s op) else newest (op_versions seq ops) u snap)"
    by (simp add: newest_def op_versions_append)
  moreover have "last_op (ops @ [op]) m u = (if op_key op = u \<and> length ops < m then Some op else last_op ops m u)" for m
    by (cases "m - length ops") (auto simp: last_op_def not_less)
  moreover have "get_result (Some (op_version ?s op)) value s = op_result (Some op) value s"
    by (cases op) (auto simp: get_result_def kTypeDeletion_def kTypeValue_def)
  ultimately show ?case using snoc vis by simp
qed

text \<open>
  C5: a memtable answers for every snapshot.  Batches of puts and deletes are inserted, in their serialised form and
  with consecutive sequence numbers, into an empty memtable: no call fails, and \<open>Get\<close> for a key and a snapshot
  then finds the last operation on the key among those the snapshot sees -- its value, a \<open>NotFound\<close> for a
  deletion, and nothing where there is none.
\<close>

theorem memtable_snapshots:
  assumes "\<forall>op \<in> set (concat bs). op_fits op" "unat seq + length (concat bs) \<le> 2 ^ 56"
    "length u + 8 < 2 ^ 32" "snap \<le> kMaxSequenceNumber"
  shows "\<exists>mem. insert_batches Slice_compare (batches_of seq bs) MemTable = Some mem \<and>
    MemTable_Get Slice_compare mem (LookupKey u snap) value s =
      Some (op_result (last_op (concat bs) (unat snap + 1 - unat seq) u) value s)"
proof -
  obtain mem ns where "insert_batches Slice_compare (batches_of seq bs) MemTable = Some mem"
    "mem_versions mem ns (op_versions seq (concat bs))"
    using insert_batches_refine [OF empty_versions assms(1,2)] by auto
  then show ?thesis using Get_refines [OF _ assms(3,4)] newest_last_op [OF assms(2)] by metis
qed

lemma memtable_snapshots_witness:
  "\<exists>mem. insert_batches Slice_compare (batches_of 7 [[Batch_put [1] [10], Batch_put [2] [20]], [Batch_delete [1]]]) MemTable = Some mem \<and>
    MemTable_Get Slice_compare mem (LookupKey [1] 8) [] Status_OK = Some (True, [10], Status_OK)"
  using memtable_snapshots [of "[[Batch_put [1] [10], Batch_put [2] [20]], [Batch_delete [1]]]" 7 "[1]" 8 "[]" Status_OK]
  by (simp add: last_op_def kMaxSequenceNumber_def)

end
