(* ===== verification/Lv_Version_Edit.thy ===== *)
theory Lv_Version_Edit
  imports Lv_Dbformat "HOL-Library.Monad_Syntax"
begin

text \<open>
  \<open>db/version_edit.h\<close> and \<open>db/version_edit.cc\<close>: the record of a change to the set of table files, its encoding in the
  manifest, and the decoder.
\<close>

section \<open>The edit\<close>

definition kNumLevels :: u32 where "kNumLevels = 7"

definition kComparator :: u32 where "kComparator = 1"
definition kLogNumber :: u32 where "kLogNumber = 2"
definition kNextFileNumber :: u32 where "kNextFileNumber = 3"
definition kLastSequence :: u32 where "kLastSequence = 4"
definition kCompactPointer :: u32 where "kCompactPointer = 5"
definition kDeletedFile :: u32 where "kDeletedFile = 6"
definition kNewFile :: u32 where "kNewFile = 7"
definition kPrevLogNumber :: u32 where "kPrevLogNumber = 9"

lemmas version_tags = kComparator_def kLogNumber_def kNextFileNumber_def kLastSequence_def kCompactPointer_def
  kDeletedFile_def kNewFile_def kPrevLogNumber_def

record file_meta_data =
  fm_refs :: int
  fm_allowed_seeks :: int
  fm_number :: u64
  fm_file_size :: u64
  fm_smallest :: "byte list"
  fm_largest :: "byte list"

definition FileMetaData :: file_meta_data where
  "FileMetaData = \<lparr>fm_refs = 0, fm_allowed_seeks = 2 ^ 30, fm_number = 0, fm_file_size = 0, fm_smallest = [], fm_largest = []\<rparr>"

text \<open>\<open>deleted_files_\<close>, a \<open>std::set\<close> of pairs, is the list of its elements in their order.\<close>

record version_edit =
  ve_comparator :: "byte list"
  ve_log_number :: u64
  ve_prev_log_number :: u64
  ve_next_file_number :: u64
  ve_last_sequence :: u64
  ve_has_comparator :: bool
  ve_has_log_number :: bool
  ve_has_prev_log_number :: bool
  ve_has_next_file_number :: bool
  ve_has_last_sequence :: bool
  ve_compact_pointers :: "(int \<times> byte list) list"
  ve_deleted_files :: "(int \<times> u64) list"
  ve_new_files :: "(int \<times> file_meta_data) list"

definition VersionEdit_Clear :: "version_edit \<Rightarrow> version_edit" where
  "VersionEdit_Clear e =
    e\<lparr>ve_comparator := [], ve_log_number := 0, ve_prev_log_number := 0, ve_last_sequence := 0,
      ve_next_file_number := 0, ve_has_comparator := False, ve_has_log_number := False,
      ve_has_prev_log_number := False, ve_has_next_file_number := False, ve_has_last_sequence := False,
      ve_deleted_files := [], ve_new_files := []\<rparr>"

definition file_less :: "int \<times> u64 \<Rightarrow> int \<times> u64 \<Rightarrow> bool" where
  "file_less a b \<longleftrightarrow> fst a < fst b \<or> fst a = fst b \<and> snd a < snd b"

fun set_insert :: "int \<times> u64 \<Rightarrow> (int \<times> u64) list \<Rightarrow> (int \<times> u64) list" where
  "set_insert x [] = [x]"
| "set_insert x (y # ys) =
    (if file_less x y then x # y # ys else if file_less y x then y # set_insert x ys else y # ys)"

definition SetComparatorName :: "byte list \<Rightarrow> version_edit \<Rightarrow> version_edit" where
  "SetComparatorName name e = e\<lparr>ve_has_comparator := True, ve_comparator := name\<rparr>"
definition SetLogNumber :: "u64 \<Rightarrow> version_edit \<Rightarrow> version_edit" where
  "SetLogNumber num e = e\<lparr>ve_has_log_number := True, ve_log_number := num\<rparr>"
definition SetPrevLogNumber :: "u64 \<Rightarrow> version_edit \<Rightarrow> version_edit" where
  "SetPrevLogNumber num e = e\<lparr>ve_has_prev_log_number := True, ve_prev_log_number := num\<rparr>"
definition SetNextFile :: "u64 \<Rightarrow> version_edit \<Rightarrow> version_edit" where
  "SetNextFile num e = e\<lparr>ve_has_next_file_number := True, ve_next_file_number := num\<rparr>"
definition SetLastSequence :: "u64 \<Rightarrow> version_edit \<Rightarrow> version_edit" where
  "SetLastSequence seq e = e\<lparr>ve_has_last_sequence := True, ve_last_sequence := seq\<rparr>"
definition SetCompactPointer :: "int \<Rightarrow> byte list \<Rightarrow> version_edit \<Rightarrow> version_edit" where
  "SetCompactPointer level key e = e\<lparr>ve_compact_pointers := ve_compact_pointers e @ [(level, key)]\<rparr>"
definition AddFile :: "int \<Rightarrow> u64 \<Rightarrow> u64 \<Rightarrow> byte list \<Rightarrow> byte list \<Rightarrow> version_edit \<Rightarrow> version_edit" where
  "AddFile level file file_size smallest largest e =
    (let f = FileMetaData\<lparr>fm_number := file, fm_file_size := file_size, fm_smallest := smallest, fm_largest := largest\<rparr>
     in e\<lparr>ve_new_files := ve_new_files e @ [(level, f)]\<rparr>)"
definition DeleteFile :: "int \<Rightarrow> u64 \<Rightarrow> version_edit \<Rightarrow> version_edit" where
  "DeleteFile level file e = e\<lparr>ve_deleted_files := set_insert (level, file) (ve_deleted_files e)\<rparr>"

section \<open>Encoding\<close>

definition put_if :: "bool \<Rightarrow> (byte list \<Rightarrow> byte list) \<Rightarrow> byte list \<Rightarrow> byte list" where
  "put_if c f dst = (if c then f dst else dst)"

text \<open>
  An \<open>InternalKey\<close> is its \<open>rep_\<close>; an empty one is invalid, and \<open>Encode\<close> asserts that it is not.  A function that
  calls it has the result \<open>None\<close> where the assertion fails, and \<open>put_each\<close> is the loop over such calls.
\<close>

definition InternalKey_Encode :: "byte list \<Rightarrow> byte list option" where
  "InternalKey_Encode rep = (if rep = [] then None else Some rep)"

primrec put_each :: "(byte list \<Rightarrow> 'a \<Rightarrow> byte list option) \<Rightarrow> byte list \<Rightarrow> 'a list \<Rightarrow> byte list option" where
  "put_each f dst [] = Some dst"
| "put_each f dst (x # xs) = Option.bind (f dst x) (\<lambda>dst. put_each f dst xs)"

definition put_compact_pointer :: "byte list \<Rightarrow> int \<times> byte list \<Rightarrow> byte list option" where
  "put_compact_pointer dst p =
    (let dst = PutVarint32 dst kCompactPointer;
         dst = PutVarint32 dst (word_of_int (fst p))
     in do { key \<leftarrow> InternalKey_Encode (snd p); Some (PutLengthPrefixedSlice dst key) })"

definition put_deleted_file :: "byte list \<Rightarrow> int \<times> u64 \<Rightarrow> byte list" where
  "put_deleted_file dst p = PutVarint64 (PutVarint32 (PutVarint32 dst kDeletedFile) (word_of_int (fst p))) (snd p)"

definition put_new_file :: "byte list \<Rightarrow> int \<times> file_meta_data \<Rightarrow> byte list option" where
  "put_new_file dst p =
    (let f = snd p;
         dst = PutVarint32 dst kNewFile;
         dst = PutVarint32 dst (word_of_int (fst p));
         dst = PutVarint64 dst (fm_number f);
         dst = PutVarint64 dst (fm_file_size f)
     in do { smallest \<leftarrow> InternalKey_Encode (fm_smallest f);
             let dst = PutLengthPrefixedSlice dst smallest
             in do { largest \<leftarrow> InternalKey_Encode (fm_largest f); Some (PutLengthPrefixedSlice dst largest) } })"

definition VersionEdit_EncodeTo :: "version_edit \<Rightarrow> byte list \<Rightarrow> byte list option" where
  "VersionEdit_EncodeTo e dst =
    (let dst = put_if (ve_has_comparator e) (\<lambda>d. PutLengthPrefixedSlice (PutVarint32 d kComparator) (ve_comparator e)) dst;
         dst = put_if (ve_has_log_number e) (\<lambda>d. PutVarint64 (PutVarint32 d kLogNumber) (ve_log_number e)) dst;
         dst = put_if (ve_has_prev_log_number e) (\<lambda>d. PutVarint64 (PutVarint32 d kPrevLogNumber) (ve_prev_log_number e)) dst;
         dst = put_if (ve_has_next_file_number e) (\<lambda>d. PutVarint64 (PutVarint32 d kNextFileNumber) (ve_next_file_number e)) dst;
         dst = put_if (ve_has_last_sequence e) (\<lambda>d. PutVarint64 (PutVarint32 d kLastSequence) (ve_last_sequence e)) dst
     in do { dst \<leftarrow> put_each put_compact_pointer dst (ve_compact_pointers e);
             let dst = foldl put_deleted_file dst (ve_deleted_files e)
             in put_each put_new_file dst (ve_new_files e) })"

section \<open>Decoding\<close>

text \<open>
  The getters move the input as far as they got.  \<open>need r msg k\<close> is \<open>if (r) k else msg = ...\<close>: the edit that is
  left, the input, and the message.
\<close>

definition VersionEdit_GetInternalKey :: "byte list \<Rightarrow> byte list option \<times> byte list" where
  "VersionEdit_GetInternalKey input = GetLengthPrefixedSlice input"

definition VersionEdit_GetLevel :: "byte list \<Rightarrow> int option \<times> byte list" where
  "VersionEdit_GetLevel input =
    (case GetVarint32 input of
       (Some v, input) \<Rightarrow> (if v < kNumLevels then Some (uint v) else None, input)
     | (None, input) \<Rightarrow> (None, input))"

type_synonym edit_result = "version_edit \<times> byte list \<times> string option"

definition need ::
  "version_edit \<Rightarrow> string \<Rightarrow> 'a option \<times> byte list \<Rightarrow> ('a \<Rightarrow> byte list \<Rightarrow> edit_result) \<Rightarrow> edit_result" where
  "need e msg r k = (case r of (Some x, input) \<Rightarrow> k x input | (None, input) \<Rightarrow> (e, input, Some msg))"

definition decode_tag :: "u32 \<Rightarrow> version_edit \<Rightarrow> byte list \<Rightarrow> edit_result" where
  "decode_tag tag e input =
    (if tag = kComparator then
       need e ''comparator name'' (GetLengthPrefixedSlice input) (\<lambda>str input.
         (e\<lparr>ve_comparator := str, ve_has_comparator := True\<rparr>, input, None))
     else if tag = kLogNumber then
       need e ''log number'' (GetVarint64 input) (\<lambda>n input.
         (e\<lparr>ve_log_number := n, ve_has_log_number := True\<rparr>, input, None))
     else if tag = kPrevLogNumber then
       need e ''previous log number'' (GetVarint64 input) (\<lambda>n input.
         (e\<lparr>ve_prev_log_number := n, ve_has_prev_log_number := True\<rparr>, input, None))
     else if tag = kNextFileNumber then
       need e ''next file number'' (GetVarint64 input) (\<lambda>n input.
         (e\<lparr>ve_next_file_number := n, ve_has_next_file_number := True\<rparr>, input, None))
     else if tag = kLastSequence then
       need e ''last sequence number'' (GetVarint64 input) (\<lambda>n input.
         (e\<lparr>ve_last_sequence := n, ve_has_last_sequence := True\<rparr>, input, None))
     else if tag = kCompactPointer then
       need e ''compaction pointer'' (VersionEdit_GetLevel input) (\<lambda>level input.
         need e ''compaction pointer'' (VersionEdit_GetInternalKey input) (\<lambda>key input.
           (e\<lparr>ve_compact_pointers := ve_compact_pointers e @ [(level, key)]\<rparr>, input, None)))
     else if tag = kDeletedFile then
       need e ''deleted file'' (VersionEdit_GetLevel input) (\<lambda>level input.
         need e ''deleted file'' (GetVarint64 input) (\<lambda>number input.
           (e\<lparr>ve_deleted_files := set_insert (level, number) (ve_deleted_files e)\<rparr>, input, None)))
     else if tag = kNewFile then
       need e ''new-file entry'' (VersionEdit_GetLevel input) (\<lambda>level input.
         need e ''new-file entry'' (GetVarint64 input) (\<lambda>number input.
           need e ''new-file entry'' (GetVarint64 input) (\<lambda>size input.
             need e ''new-file entry'' (VersionEdit_GetInternalKey input) (\<lambda>smallest input.
               need e ''new-file entry'' (VersionEdit_GetInternalKey input) (\<lambda>largest input.
                 let f = FileMetaData\<lparr>fm_number := number, fm_file_size := size, fm_smallest := smallest, fm_largest := largest\<rparr>
                 in (e\<lparr>ve_new_files := ve_new_files e @ [(level, f)]\<rparr>, input, None))))))
     else (e, input, Some ''unknown tag''))"

lemma GetVarint32_le: "length (snd (GetVarint32 p)) \<le> length p"
  by (auto simp: GetVarint32_def split: option.splits dest: GetVarint32Ptr_shorter)

lemma GetVarint64_le: "length (snd (GetVarint64 p)) \<le> length p"
  by (auto simp: GetVarint64_def GetVarint64Ptr_def split: option.splits dest: GetVarint_loop_shorter)

lemma VersionEdit_GetLevel_le: "length (snd (VersionEdit_GetLevel p)) \<le> length p"
  using GetVarint32_le [of p] by (auto simp: VersionEdit_GetLevel_def split: prod.splits option.splits)

lemma need_le:
  "length (snd r) \<le> n \<Longrightarrow> (\<And>x input. length input \<le> n \<Longrightarrow> length (fst (snd (k x input))) \<le> n) \<Longrightarrow>
    length (fst (snd (need e msg r k))) \<le> n"
  by (auto simp: need_def split: prod.splits option.splits)

lemma decode_tag_le: "length (fst (snd (decode_tag tag e input))) \<le> length input"
  using GetLengthPrefixedSlice_le [THEN order_trans] GetVarint64_le [THEN order_trans] VersionEdit_GetLevel_le [THEN order_trans]
  unfolding decode_tag_def VersionEdit_GetInternalKey_def Let_def
  by (auto intro!: need_le)

function DecodeFrom_loop :: "version_edit \<Rightarrow> byte list \<Rightarrow> version_edit \<times> string option" where
  "DecodeFrom_loop e input =
    (case GetVarint32 input of
       (Some tag, input') \<Rightarrow>
         (case decode_tag tag e input' of
            (e', input'', None) \<Rightarrow> DecodeFrom_loop e' input''
          | (e', input'', Some msg) \<Rightarrow> (e', Some msg))
     | (None, input') \<Rightarrow> (e, if input' \<noteq> [] then Some ''invalid tag'' else None))"
  by pat_completeness auto
termination
proof (relation "measure (\<lambda>(_, input). length input)", goal_cases)
  case (2 e input oa input' tag e' r input'' ob)
  then have d: "decode_tag tag e input' = (e', input'', None)" and "length input' < length input"
    by (auto dest!: GetVarint32_shorter [OF sym])
  then show ?case using decode_tag_le [of tag e input'] unfolding d by simp
qed simp

declare DecodeFrom_loop.simps [simp del]

definition VersionEdit_DecodeFrom :: "version_edit \<Rightarrow> byte list \<Rightarrow> version_edit \<times> status" where
  "VersionEdit_DecodeFrom e src =
    (case DecodeFrom_loop (VersionEdit_Clear e) src of
       (e, None) \<Rightarrow> (e, Status_OK)
     | (e, Some msg) \<Rightarrow> (e, Status_make kCorruption ''VersionEdit'' msg))"

section \<open>An edit is read back\<close>

datatype edit_item = Item_comparator "byte list" | Item_log u64 | Item_prev u64 | Item_next u64 | Item_seq u64
  | Item_pointer int "byte list" | Item_deleted int u64 | Item_new int u64 u64 "byte list" "byte list"

fun item_bytes :: "edit_item \<Rightarrow> byte list" where
  "item_bytes (Item_comparator s) = EncodeVarint32 kComparator @ vint (length s) @ s"
| "item_bytes (Item_log n) = EncodeVarint32 kLogNumber @ vint (unat n)"
| "item_bytes (Item_prev n) = EncodeVarint32 kPrevLogNumber @ vint (unat n)"
| "item_bytes (Item_next n) = EncodeVarint32 kNextFileNumber @ vint (unat n)"
| "item_bytes (Item_seq n) = EncodeVarint32 kLastSequence @ vint (unat n)"
| "item_bytes (Item_pointer l k) = EncodeVarint32 kCompactPointer @ EncodeVarint32 (word_of_int l) @ vint (length k) @ k"
| "item_bytes (Item_deleted l n) = EncodeVarint32 kDeletedFile @ EncodeVarint32 (word_of_int l) @ vint (unat n)"
| "item_bytes (Item_new l n s a b) = EncodeVarint32 kNewFile @ EncodeVarint32 (word_of_int l) @ vint (unat n) @
    vint (unat s) @ (vint (length a) @ a) @ vint (length b) @ b"

definition level_ok :: "int \<Rightarrow> bool" where
  "level_ok l \<longleftrightarrow> 0 \<le> l \<and> l < 7"

fun item_ok :: "edit_item \<Rightarrow> bool" where
  "item_ok (Item_comparator s) \<longleftrightarrow> length s < 2 ^ 32"
| "item_ok (Item_pointer l k) \<longleftrightarrow> level_ok l \<and> length k < 2 ^ 32"
| "item_ok (Item_deleted l n) \<longleftrightarrow> level_ok l"
| "item_ok (Item_new l n s a b) \<longleftrightarrow> level_ok l \<and> length a < 2 ^ 32 \<and> length b < 2 ^ 32"
| "item_ok _ \<longleftrightarrow> True"

fun apply_item :: "version_edit \<Rightarrow> edit_item \<Rightarrow> version_edit" where
  "apply_item e (Item_comparator s) = SetComparatorName s e"
| "apply_item e (Item_log n) = SetLogNumber n e"
| "apply_item e (Item_prev n) = SetPrevLogNumber n e"
| "apply_item e (Item_next n) = SetNextFile n e"
| "apply_item e (Item_seq n) = SetLastSequence n e"
| "apply_item e (Item_pointer l k) = SetCompactPointer l k e"
| "apply_item e (Item_deleted l n) = DeleteFile l n e"
| "apply_item e (Item_new l n s a b) = AddFile l n s a b e"

lemma GetLevel_ok: "level_ok l \<Longrightarrow> VersionEdit_GetLevel (vint (unat (word_of_int l :: u32)) @ r) = (Some l, r)"
proof -
  assume "level_ok l"
  then have u: "uint (word_of_int l :: u32) = l" by (simp add: level_ok_def uint_word_of_int_eq take_bit_int_eq_self)
  then have "(word_of_int l :: u32) < kNumLevels"
    using \<open>level_ok l\<close> by (simp add: word_less_def level_ok_def kNumLevels_def)
  then show ?thesis using u by (simp add: VersionEdit_GetLevel_def)
qed

lemmas apply_setters = SetComparatorName_def SetLogNumber_def SetPrevLogNumber_def SetNextFile_def SetLastSequence_def
  SetCompactPointer_def AddFile_def DeleteFile_def

lemma DecodeFrom_loop_item:
  "item_ok i \<Longrightarrow> DecodeFrom_loop e (item_bytes i @ r) = DecodeFrom_loop (apply_item e i) r"
  by (cases e; cases i; subst DecodeFrom_loop.simps)
    (simp_all add: EncodeVarint32_vint decode_tag_def need_def version_tags GetLevel_ok VersionEdit_GetInternalKey_def
      apply_setters Let_def)

lemma DecodeFrom_loop_items:
  "\<forall>i \<in> set is. item_ok i \<Longrightarrow> DecodeFrom_loop e (concat (map item_bytes is)) = (foldl apply_item e is, None)"
proof (induction "is" arbitrary: e)
  case Nil
  have "GetVarint32 [] = (None, [])"
    by (simp add: GetVarint32_def GetVarint32Ptr_def GetVarint32PtrFallback_def GetVarint_loop.simps)
  then show ?case by (simp add: DecodeFrom_loop.simps)
qed (simp add: DecodeFrom_loop_item)

definition item_of_file :: "int \<times> file_meta_data \<Rightarrow> edit_item" where
  "item_of_file p = Item_new (fst p) (fm_number (snd p)) (fm_file_size (snd p)) (fm_smallest (snd p)) (fm_largest (snd p))"

definition edit_head :: "version_edit \<Rightarrow> edit_item list" where
  "edit_head e =
    (if ve_has_comparator e then [Item_comparator (ve_comparator e)] else []) @
    (if ve_has_log_number e then [Item_log (ve_log_number e)] else []) @
    (if ve_has_prev_log_number e then [Item_prev (ve_prev_log_number e)] else []) @
    (if ve_has_next_file_number e then [Item_next (ve_next_file_number e)] else []) @
    (if ve_has_last_sequence e then [Item_seq (ve_last_sequence e)] else [])"

definition edit_items :: "version_edit \<Rightarrow> edit_item list" where
  "edit_items e = edit_head e @
    map (\<lambda>p. Item_pointer (fst p) (snd p)) (ve_compact_pointers e) @
    map (\<lambda>p. Item_deleted (fst p) (snd p)) (ve_deleted_files e) @
    map item_of_file (ve_new_files e)"

text \<open>
  An edit as the setters build it: fields that are not set have their default value, levels are levels, and strings
  have a length of 32 bits.
\<close>

definition edit_ok :: "version_edit \<Rightarrow> bool" where
  "edit_ok e \<longleftrightarrow> (\<forall>i \<in> set (edit_items e). item_ok i) \<and>
    (\<not> ve_has_comparator e \<longrightarrow> ve_comparator e = []) \<and> (\<not> ve_has_log_number e \<longrightarrow> ve_log_number e = 0) \<and>
    (\<not> ve_has_prev_log_number e \<longrightarrow> ve_prev_log_number e = 0) \<and>
    (\<not> ve_has_next_file_number e \<longrightarrow> ve_next_file_number e = 0) \<and>
    (\<not> ve_has_last_sequence e \<longrightarrow> ve_last_sequence e = 0) \<and>
    sorted_wrt file_less (ve_deleted_files e) \<and>
    (\<forall>p \<in> set (ve_new_files e). fm_refs (snd p) = 0 \<and> fm_allowed_seeks (snd p) = 2 ^ 30)"

text \<open>An edit that holds a key which is invalid: the assertion of \<open>Encode\<close> fails.\<close>

definition has_invalid_key :: "version_edit \<Rightarrow> bool" where
  "has_invalid_key e \<longleftrightarrow> (\<exists>p \<in> set (ve_compact_pointers e). snd p = []) \<or>
    (\<exists>p \<in> set (ve_new_files e). fm_smallest (snd p) = [] \<or> fm_largest (snd p) = [])"

lemma put_each_compact_pointer:
  "\<forall>p \<in> set ps. length (snd p) < 2 ^ 32 \<Longrightarrow> put_each put_compact_pointer dst ps =
    (if \<exists>p \<in> set ps. snd p = [] then None
     else Some (dst @ concat (map item_bytes (map (\<lambda>p. Item_pointer (fst p) (snd p)) ps))))"
  by (induction ps arbitrary: dst)
    (simp_all add: put_compact_pointer_def InternalKey_Encode_def PutLengthPrefixedSlice_vint PutVarint32_def)

lemma foldl_put_deleted_file:
  "foldl put_deleted_file dst ps = dst @ concat (map item_bytes (map (\<lambda>p. Item_deleted (fst p) (snd p)) ps))"
  by (induction ps arbitrary: dst) (simp_all add: put_deleted_file_def PutVarint32_def PutVarint64_def EncodeVarint64_vint)

lemma put_each_new_file:
  "\<forall>p \<in> set ps. length (fm_smallest (snd p)) < 2 ^ 32 \<and> length (fm_largest (snd p)) < 2 ^ 32 \<Longrightarrow>
    put_each put_new_file dst ps =
      (if \<exists>p \<in> set ps. fm_smallest (snd p) = [] \<or> fm_largest (snd p) = [] then None
       else Some (dst @ concat (map item_bytes (map item_of_file ps))))"
  by (induction ps arbitrary: dst)
    (simp_all add: put_new_file_def InternalKey_Encode_def item_of_file_def PutVarint32_def PutVarint64_def EncodeVarint64_vint
      PutLengthPrefixedSlice_vint Let_def)

lemma put_if_item:
  "(\<And>d. f d = d @ item_bytes i) \<Longrightarrow> put_if c f dst = dst @ concat (map item_bytes (if c then [i] else []))"
  by (simp add: put_if_def)

lemma EncodeTo_items:
  assumes "edit_ok e"
  shows "VersionEdit_EncodeTo e dst =
    (if has_invalid_key e then None else Some (dst @ concat (map item_bytes (edit_items e))))"
proof -
  have ok: "\<forall>i \<in> set (edit_items e). item_ok i" using assms by (simp add: edit_ok_def)
  have files: "\<forall>p \<in> set (ve_new_files e). length (fm_smallest (snd p)) < 2 ^ 32 \<and> length (fm_largest (snd p)) < 2 ^ 32"
    using ok by (simp add: edit_items_def item_of_file_def ball_Un)
  have pointers: "\<forall>p \<in> set (ve_compact_pointers e). length (snd p) < 2 ^ 32"
    using ok by (simp add: edit_items_def ball_Un)
  have name: "put_if (ve_has_comparator e) (\<lambda>d. PutLengthPrefixedSlice (PutVarint32 d kComparator) (ve_comparator e)) dst =
      dst @ concat (map item_bytes (if ve_has_comparator e then [Item_comparator (ve_comparator e)] else []))"
    using ok by (auto simp: edit_items_def edit_head_def put_if_def PutLengthPrefixedSlice_vint PutVarint32_def)
  have number: "PutVarint64 (PutVarint32 d t) n = d @ EncodeVarint32 t @ vint (unat n)" for d t n
    by (simp add: PutVarint32_def PutVarint64_def EncodeVarint64_vint)
  show ?thesis
    unfolding VersionEdit_EncodeTo_def Let_def name put_each_new_file [OF files] foldl_put_deleted_file
      put_each_compact_pointer [OF pointers] edit_items_def edit_head_def has_invalid_key_def
    by (simp add: number put_if_item [of _ "Item_log (ve_log_number e)"] put_if_item [of _ "Item_prev (ve_prev_log_number e)"]
      put_if_item [of _ "Item_next (ve_next_file_number e)"] put_if_item [of _ "Item_seq (ve_last_sequence e)"]
      del: map_map)
qed

lemma set_insert_last: "(\<forall>y \<in> set ys. file_less y x) \<Longrightarrow> set_insert x ys = ys @ [x]"
  by (induction ys) (auto simp: file_less_def)

lemma apply_pointers:
  "foldl apply_item e (map (\<lambda>p. Item_pointer (fst p) (snd p)) ps) = e\<lparr>ve_compact_pointers := ve_compact_pointers e @ ps\<rparr>"
  by (induction ps arbitrary: e) (simp_all add: SetCompactPointer_def)

lemma apply_deleted:
  "sorted_wrt file_less (ve_deleted_files e @ ps) \<Longrightarrow>
    foldl apply_item e (map (\<lambda>p. Item_deleted (fst p) (snd p)) ps) = e\<lparr>ve_deleted_files := ve_deleted_files e @ ps\<rparr>"
proof (induction ps arbitrary: e)
  case (Cons p ps)
  have "set_insert p (ve_deleted_files e) = ve_deleted_files e @ [p]"
    using Cons.prems by (intro set_insert_last) (auto simp: sorted_wrt_append)
  then show ?case using Cons by (simp add: DeleteFile_def)
qed simp

lemma apply_new_files:
  "\<forall>p \<in> set ps. fm_refs (snd p) = 0 \<and> fm_allowed_seeks (snd p) = 2 ^ 30 \<Longrightarrow>
    foldl apply_item e (map item_of_file ps) = e\<lparr>ve_new_files := ve_new_files e @ ps\<rparr>"
  by (induction ps arbitrary: e) (auto simp: AddFile_def item_of_file_def FileMetaData_def Let_def)

lemma apply_edit_head:
  assumes "edit_ok e"
  shows "foldl apply_item (VersionEdit_Clear e0) (edit_head e) =
    e\<lparr>ve_compact_pointers := ve_compact_pointers e0, ve_deleted_files := [], ve_new_files := []\<rparr>"
proof -
  have if1: "foldl apply_item x (if c then [i] else []) = (if c then apply_item x i else x)" for x c i by simp
  show ?thesis
    using assms unfolding edit_head_def foldl_append if1
    by (cases e; cases e0) (auto simp: edit_ok_def VersionEdit_Clear_def apply_setters)
qed

lemma apply_edit_items:
  assumes "edit_ok e"
  shows "foldl apply_item (VersionEdit_Clear e0) (edit_items e) =
    e\<lparr>ve_compact_pointers := ve_compact_pointers e0 @ ve_compact_pointers e\<rparr>"
proof -
  have "sorted_wrt file_less (ve_deleted_files e)"
    "\<forall>p \<in> set (ve_new_files e). fm_refs (snd p) = 0 \<and> fm_allowed_seeks (snd p) = 2 ^ 30"
    using assms by (simp_all add: edit_ok_def)
  then show ?thesis
    by (simp add: edit_items_def apply_edit_head [OF assms] apply_pointers apply_deleted apply_new_files)
qed

text \<open>
  C12: \<open>VersionEdit::EncodeTo\<close> runs into the assertion of \<open>InternalKey::Encode\<close> exactly if a compaction pointer, or a
  bound of a new file, is an invalid, that is empty, key.  What it writes otherwise, \<open>DecodeFrom\<close> reads
  back, whatever the edit held before -- except that the compaction pointers it held before stay in front of those
  that are read, since \<open>Clear\<close> leaves them.
\<close>

theorem version_edit_roundtrip:
  assumes "edit_ok e"
  shows "case VersionEdit_EncodeTo e [] of
      None \<Rightarrow> has_invalid_key e
    | Some bytes \<Rightarrow> \<not> has_invalid_key e \<and>
        VersionEdit_DecodeFrom e0 bytes = (e\<lparr>ve_compact_pointers := ve_compact_pointers e0 @ ve_compact_pointers e\<rparr>, Status_OK)"
proof -
  have "\<forall>i \<in> set (edit_items e). item_ok i" using assms by (simp add: edit_ok_def)
  then show ?thesis
    by (simp add: VersionEdit_DecodeFrom_def EncodeTo_items [OF assms] DecodeFrom_loop_items apply_edit_items [OF assms])
qed

definition empty_edit :: version_edit where
  "empty_edit = \<lparr>ve_comparator = [], ve_log_number = 0, ve_prev_log_number = 0, ve_next_file_number = 0,
    ve_last_sequence = 0, ve_has_comparator = False, ve_has_log_number = False, ve_has_prev_log_number = False,
    ve_has_next_file_number = False, ve_has_last_sequence = False, ve_compact_pointers = [], ve_deleted_files = [],
    ve_new_files = []\<rparr>"

lemma version_edit_roundtrip_witness:
  "(\<exists>bytes. VersionEdit_EncodeTo (AddFile 2 7 100 [1] [2] (DeleteFile 0 5 (SetLogNumber 300 empty_edit))) [] = Some bytes \<and>
     VersionEdit_DecodeFrom (SetCompactPointer 1 [9] empty_edit) bytes =
     (SetCompactPointer 1 [9] (AddFile 2 7 100 [1] [2] (DeleteFile 0 5 (SetLogNumber 300 empty_edit))), Status_OK)) \<and>
   VersionEdit_EncodeTo (AddFile 2 7 100 [1] [] empty_edit) [] = None"
proof -
  let ?e = "AddFile 2 7 100 [1] [2] (DeleteFile 0 5 (SetLogNumber 300 empty_edit))" and ?e' = "AddFile 2 7 100 [1] [] empty_edit"
  have ok: "edit_ok ?e" "edit_ok ?e'"
    by (simp_all add: edit_ok_def edit_items_def edit_head_def apply_setters empty_edit_def item_of_file_def level_ok_def FileMetaData_def Let_def)
  have "\<not> has_invalid_key ?e" "has_invalid_key ?e'"
    by (simp_all add: has_invalid_key_def apply_setters empty_edit_def Let_def)
  with version_edit_roundtrip [OF ok(1), of "SetCompactPointer 1 [9] empty_edit"] version_edit_roundtrip [OF ok(2), of empty_edit]
  show ?thesis by (simp add: apply_setters empty_edit_def Let_def split: option.splits)
qed

text \<open>
  The decoder takes an empty key for a good one: it accepts bytes which give an edit that cannot be encoded again.
\<close>

lemma decoder_accepts_invalid_keys:
  "(\<lambda>(e, s). s = Status_OK \<and> has_invalid_key e \<and> VersionEdit_EncodeTo e [] = None) (VersionEdit_DecodeFrom empty_edit [5, 1, 0])"
  by code_simp

end
