(* ===== verification/Lv_Arena.thy ===== *)
theory Lv_Arena
  imports Prelude "HOL-Library.Monad_Syntax"
begin

text \<open>
  \<open>util/arena.h\<close> and \<open>util/arena.cc\<close>: the allocator under a memtable, which hands out pieces of blocks and
  counts the memory of the blocks.
\<close>

section \<open>The allocator\<close>

text \<open>
  A pointer into the arena is the number of a block, in the order of \<open>blocks_\<close>, and an offset in it; \<open>None\<close> is a
  null pointer.  \<open>new char[]\<close> returns memory that is aligned for every object that fits.  A block is
  given by its size.  The result \<open>None\<close> is a failed assertion.
\<close>

type_synonym arena_ptr = "(nat \<times> u64) option"

record arena =
  ar_alloc_ptr :: arena_ptr
  ar_alloc_bytes_remaining :: u64
  ar_blocks :: "u64 list"
  ar_memory_usage :: u64

definition arena_kBlockSize :: u64 where "arena_kBlockSize = 4096"

definition Arena :: arena where
  "Arena = \<lparr>ar_alloc_ptr = None, ar_alloc_bytes_remaining = 0, ar_blocks = [], ar_memory_usage = 0\<rparr>"

fun ptr_plus :: "arena_ptr \<Rightarrow> u64 \<Rightarrow> arena_ptr" where
  "ptr_plus None n = None"
| "ptr_plus (Some (b, off)) n = Some (b, off + n)"

fun ptr_mod :: "arena_ptr \<Rightarrow> u64 \<Rightarrow> u64" where
  "ptr_mod None m = 0"
| "ptr_mod (Some (b, off)) m = off AND m"

definition AllocateNewBlock :: "u64 \<Rightarrow> arena \<Rightarrow> arena_ptr \<times> arena" where
  "AllocateNewBlock block_bytes a =
    (Some (length (ar_blocks a), 0),
     a\<lparr>ar_blocks := ar_blocks a @ [block_bytes], ar_memory_usage := ar_memory_usage a + (block_bytes + 8)\<rparr>)"

definition AllocateFallback :: "u64 \<Rightarrow> arena \<Rightarrow> arena_ptr \<times> arena" where
  "AllocateFallback bytes a =
    (if arena_kBlockSize div 4 < bytes then AllocateNewBlock bytes a
     else
       let (result, a) = AllocateNewBlock arena_kBlockSize a
       in (result, a\<lparr>ar_alloc_ptr := ptr_plus result bytes, ar_alloc_bytes_remaining := arena_kBlockSize - bytes\<rparr>))"

definition arena_Allocate :: "u64 \<Rightarrow> arena \<Rightarrow> (arena_ptr \<times> arena) option" where
  "arena_Allocate bytes a =
    (if bytes = 0 then None
     else if bytes \<le> ar_alloc_bytes_remaining a then
       Some (ar_alloc_ptr a,
         a\<lparr>ar_alloc_ptr := ptr_plus (ar_alloc_ptr a) bytes, ar_alloc_bytes_remaining := ar_alloc_bytes_remaining a - bytes\<rparr>)
     else Some (AllocateFallback bytes a))"

definition AllocateAligned :: "u64 \<Rightarrow> arena \<Rightarrow> (arena_ptr \<times> arena) option" where
  "AllocateAligned bytes a =
    (let align = 8;
         current_mod = ptr_mod (ar_alloc_ptr a) (align - 1);
         slop = (if current_mod = 0 then 0 else align - current_mod);
         needed = bytes + slop;
         (result, a) =
           (if needed \<le> ar_alloc_bytes_remaining a then
              (ptr_plus (ar_alloc_ptr a) slop,
               a\<lparr>ar_alloc_ptr := ptr_plus (ar_alloc_ptr a) needed,
                 ar_alloc_bytes_remaining := ar_alloc_bytes_remaining a - needed\<rparr>)
            else AllocateFallback bytes a)
     in if ptr_mod result (align - 1) = 0 then Some (result, a) else None)"

definition MemoryUsage :: "arena \<Rightarrow> u64" where
  "MemoryUsage a = ar_memory_usage a"

section \<open>What it hands out\<close>

text \<open>The assertion of \<open>AllocateAligned\<close> holds.\<close>

lemma and_7: "x AND 7 = take_bit 3 x" for x :: u64
proof -
  have "(7 :: u64) = mask 3" by (simp add: mask_eq_exp_minus_1)
  then show ?thesis by (simp only: take_bit_eq_mask)
qed

definition round_up :: "u64 \<Rightarrow> u64" where
  "round_up off = off + (if off AND 7 = 0 then 0 else 8 - (off AND 7))"

lemma round_up_aligned: "round_up off AND 7 = 0"
proof (cases "take_bit 3 off = 0")
  case False
  let ?q = "drop_bit 3 off" and ?s = "take_bit 3 off"
  have "off + (8 - ?s) = push_bit 3 ?q + ?s + (8 - ?s)" by (simp only: bits_ident)
  also have "\<dots> = push_bit 3 (?q + 1)" by (simp add: push_bit_eq_mult algebra_simps)
  finally show ?thesis using False by (simp add: round_up_def and_7 take_bit_push_bit)
qed (simp add: round_up_def and_7)

lemma slop_less: "off AND 7 \<noteq> 0 \<Longrightarrow> unat (8 - (off AND 7)) < 8" for off :: u64
proof -
  assume "off AND 7 \<noteq> 0"
  then have "0 < unat (off AND 7)" by (simp add: unat_gt_0)
  moreover have "unat (off AND 7) < 8"
    using take_bit_nat_less_exp [of 3 "unat off"] by (simp add: and_7 unsigned_take_bit_eq)
  ultimately show ?thesis by (simp add: unat_sub word_le_nat_alt)
qed

lemma AllocateFallback_aligned: "ptr_mod (fst (AllocateFallback bytes a)) 7 = 0"
  by (simp add: AllocateFallback_def AllocateNewBlock_def)

definition slop :: "arena_ptr \<Rightarrow> u64" where
  "slop p = (if ptr_mod p 7 = 0 then 0 else 8 - ptr_mod p 7)"

lemma slop_aligned: "ptr_mod (ptr_plus p (slop p)) 7 = 0"
  using round_up_aligned [of "snd (the p)"] unfolding slop_def round_up_def
  by (cases "(p, 0 :: u64)" rule: ptr_plus.cases) auto

definition aligned_turn :: "u64 \<Rightarrow> arena \<Rightarrow> arena_ptr \<times> arena" where
  "aligned_turn bytes a =
    (let p = ar_alloc_ptr a; needed = bytes + slop p
     in if needed \<le> ar_alloc_bytes_remaining a then
          (ptr_plus p (slop p),
           a\<lparr>ar_alloc_ptr := ptr_plus p needed, ar_alloc_bytes_remaining := ar_alloc_bytes_remaining a - needed\<rparr>)
        else AllocateFallback bytes a)"

lemma AllocateAligned_turn: "AllocateAligned bytes a = Some (aligned_turn bytes a)"
proof -
  have "AllocateAligned bytes a =
      (if ptr_mod (fst (aligned_turn bytes a)) 7 = 0 then Some (aligned_turn bytes a) else None)"
    by (simp add: AllocateAligned_def aligned_turn_def slop_def Let_def case_prod_unfold)
  moreover have "ptr_mod (fst (aligned_turn bytes a)) 7 = 0"
    by (simp add: aligned_turn_def Let_def slop_aligned AllocateFallback_aligned)
  ultimately show ?thesis by simp
qed

lemma Allocate_Some: "bytes \<noteq> 0 \<Longrightarrow> \<exists>p a'. arena_Allocate bytes a = Some (p, a')"
  by (cases "AllocateFallback bytes a") (simp add: arena_Allocate_def)

text \<open>
  The pieces that have been handed out: block, first offset, and the offset behind the last byte.  They lie in
  their blocks, apart from each other and in front of \<open>alloc_ptr_\<close>.
\<close>

type_synonym piece = "nat \<times> nat \<times> nat"

fun apart :: "piece \<Rightarrow> piece \<Rightarrow> bool" where
  "apart (b, s, e) (b', s', e') \<longleftrightarrow> b = b' \<longrightarrow> e \<le> s' \<or> e' \<le> s"

definition piece_in :: "arena \<Rightarrow> piece \<Rightarrow> bool" where
  "piece_in a = (\<lambda>(b, s, e). b < length (ar_blocks a) \<and> s \<le> e \<and> e \<le> unat (ar_blocks a ! b) \<and>
     (case ar_alloc_ptr a of None \<Rightarrow> True | Some (b', off) \<Rightarrow> b = b' \<longrightarrow> e \<le> unat off))"

definition arena_ok :: "arena \<Rightarrow> piece list \<Rightarrow> bool" where
  "arena_ok a ps \<longleftrightarrow>
    (case ar_alloc_ptr a of
       None \<Rightarrow> ar_alloc_bytes_remaining a = 0
     | Some (b, off) \<Rightarrow> b < length (ar_blocks a) \<and>
         unat off + unat (ar_alloc_bytes_remaining a) = unat (ar_blocks a ! b)) \<and>
    (\<forall>p \<in> set ps. piece_in a p) \<and> sorted_wrt apart ps \<and>
    ar_memory_usage a = sum_list (map (\<lambda>n. n + 8) (ar_blocks a))"

lemma Arena_ok: "arena_ok Arena []"
  by (simp add: arena_ok_def Arena_def)

lemma AllocateNewBlock_ok:
  assumes "arena_ok a ps"
  shows "arena_ok (snd (AllocateNewBlock n a)) ((length (ar_blocks a), 0, unat n) # ps)"
  using assms
  by (fastforce simp: arena_ok_def AllocateNewBlock_def piece_in_def nth_append split: option.splits)

lemma AllocateFallback_ok:
  assumes "arena_ok a ps" "AllocateFallback n a = (p, a')"
  shows "\<exists>b off. p = Some (b, off) \<and> arena_ok a' ((b, unat off, unat off + unat n) # ps)"
proof (cases "arena_kBlockSize div 4 < n")
  case True
  then show ?thesis using AllocateNewBlock_ok [OF assms(1), of n] assms(2)
    by (auto simp: AllocateFallback_def AllocateNewBlock_def)
next
  case False
  have "unat (arena_kBlockSize div 4) = 1024" by (simp add: arena_kBlockSize_def)
  then have n: "unat n \<le> 1024" using False by (simp add: not_less word_le_nat_alt)
  then have "unat (arena_kBlockSize - n) = 4096 - unat n"
    by (simp add: arena_kBlockSize_def unat_sub word_le_nat_alt)
  then show ?thesis
    using assms False n
    by (fastforce simp: AllocateFallback_def AllocateNewBlock_def arena_ok_def piece_in_def nth_append arena_kBlockSize_def
        split: option.splits)
qed

lemma remaining_ptr:
  assumes "arena_ok a ps" "ar_alloc_bytes_remaining a \<noteq> 0"
  obtains b off where "ar_alloc_ptr a = Some (b, off)"
  using assms by (cases "ar_alloc_ptr a") (auto simp: arena_ok_def)

text \<open>A piece is taken off the current block, with \<open>k\<close> bytes in front of it left out.\<close>

lemma bump_ok:
  assumes ok: "arena_ok a ps" and p: "ar_alloc_ptr a = Some (b, off)"
    and n: "unat k + unat n \<le> unat (ar_alloc_bytes_remaining a)"
  shows "arena_ok (a\<lparr>ar_alloc_ptr := Some (b, off + (n + k)), ar_alloc_bytes_remaining := ar_alloc_bytes_remaining a - (n + k)\<rparr>)
    ((b, unat (off + k), unat (off + k) + unat n) # ps)"
proof -
  have b: "b < length (ar_blocks a)" "unat off + unat (ar_alloc_bytes_remaining a) = unat (ar_blocks a ! b)"
    using ok p by (simp_all add: arena_ok_def)
  have lt: "unat (ar_blocks a ! b) < 2 ^ 64" "unat (ar_alloc_bytes_remaining a) < 2 ^ 64"
    using unsigned_less [of "ar_blocks a ! b", where ?'a = nat] unsigned_less [of "ar_alloc_bytes_remaining a", where ?'a = nat] by simp_all
  have nk: "unat (n + k) = unat n + unat k" using n lt by (simp add: unat_word_ariths)
  have off: "unat (off + k) = unat off + unat k" "unat (off + (n + k)) = unat off + (unat n + unat k)"
    using n b(2) lt nk by (simp_all add: unat_word_ariths del: unat_add_lem)
  have rem: "unat (ar_alloc_bytes_remaining a - (n + k)) = unat (ar_alloc_bytes_remaining a) - (unat n + unat k)"
    using n nk by (subst unat_sub) (simp_all add: word_le_nat_alt)
  show ?thesis using ok p b n unfolding arena_ok_def piece_in_def
    by (fastforce simp: off rem)
qed

lemma Allocate_ok:
  assumes "arena_ok a ps" "arena_Allocate n a = Some (p, a')"
  shows "\<exists>b off. p = Some (b, off) \<and> arena_ok a' ((b, unat off, unat off + unat n) # ps)"
proof (cases "n \<le> ar_alloc_bytes_remaining a")
  case True
  have n: "n \<noteq> 0" using assms(2) by (auto simp: arena_Allocate_def)
  then have "ar_alloc_bytes_remaining a \<noteq> 0" using True by auto
  from remaining_ptr [OF assms(1) this] obtain b off where q: "ar_alloc_ptr a = Some (b, off)" .
  have "unat (0 :: u64) + unat n \<le> unat (ar_alloc_bytes_remaining a)" using True by (simp add: word_le_nat_alt)
  from bump_ok [OF assms(1) q this] show ?thesis
    using assms(2) True n q by (intro exI [of _ b] exI [of _ off]) (auto simp: arena_Allocate_def)
next
  case False
  then show ?thesis using AllocateFallback_ok [OF assms(1)] assms(2) by (auto simp: arena_Allocate_def split: if_splits)
qed

lemma AllocateAligned_ok:
  assumes ok: "arena_ok a ps" and n: "AllocateAligned n a = Some (p, a')" "n \<noteq> 0" "unat n < 2 ^ 63"
  shows "\<exists>b off. p = Some (b, off) \<and> unat off mod 8 = 0 \<and> arena_ok a' ((b, unat off, unat off + unat n) # ps)"
proof -
  let ?k = "slop (ar_alloc_ptr a)"
  have t: "aligned_turn n a = (p, a')" using n(1) by (simp add: AllocateAligned_turn)
  have k: "unat ?k < 8"
    using slop_less [of "snd (the (ar_alloc_ptr a))"] by (cases "(ar_alloc_ptr a, 0 :: u64)" rule: ptr_plus.cases) (auto simp: slop_def)
  then have nk: "unat (n + ?k) = unat n + unat ?k" using n(3) by (simp add: unat_word_ariths)
  have "\<exists>b off. p = Some (b, off) \<and> arena_ok a' ((b, unat off, unat off + unat n) # ps)"
  proof (cases "n + ?k \<le> ar_alloc_bytes_remaining a")
    case True
    have "0 < unat (n + ?k)" using nk n(2) by (simp add: unat_gt_0)
    then have "ar_alloc_bytes_remaining a \<noteq> 0" using True by (auto simp: word_le_nat_alt)
    from remaining_ptr [OF ok this] obtain b off where q: "ar_alloc_ptr a = Some (b, off)" .
    have "unat ?k + unat n \<le> unat (ar_alloc_bytes_remaining a)" using True nk by (simp add: word_le_nat_alt)
    from bump_ok [OF ok q this] show ?thesis using t True q by (auto simp: aligned_turn_def Let_def)
  next
    case False
    then show ?thesis using AllocateFallback_ok [OF ok] t by (auto simp: aligned_turn_def Let_def)
  qed
  moreover have "ptr_mod p 7 = 0" using n(1) by (auto simp: AllocateAligned_def Let_def split: prod.splits if_splits)
  moreover have "unat x mod 8 = 0" if "x AND 7 = 0" for x :: u64
    using that by (simp add: and_7 word_unat_eq_iff unsigned_take_bit_eq) (simp add: take_bit_eq_mod)
  ultimately show ?thesis by auto
qed

end
