(* ===== verification/Lv_Builder.thy ===== *)
theory Lv_Builder
  imports Lv_Memtable_Facts Lv_Version_Edit Lv_Arena
begin

text \<open>
  What becomes of a memtable that is full: the memory it takes, \<open>BuildTable\<close> of \<open>db/builder.cc\<close>, which writes a
  table of its entries, and \<open>DBImpl::WriteLevel0Table\<close> of \<open>db/db_impl.cc\<close>, which adds the table to an edit.
\<close>

section \<open>The memory of a memtable\<close>

text \<open>
  A memtable allocates from an arena of its own: the head of its list when it is made, and for each addition the entry
  and then the node.  The nodes are numbered in this order, so the list tells what has been allocated.
\<close>

definition node_bytes :: "nat \<Rightarrow> u64" where
  "node_bytes height = 16 + 8 * of_nat (height - 1)"

fun MemTable_allocations :: "memtable \<Rightarrow> nat list \<Rightarrow> arena \<Rightarrow> arena option" where
  "MemTable_allocations mem [] a = Some a"
| "MemTable_allocations mem (x # xs) a =
    do { nd \<leftarrow> sl_nodes mem x;
         (_, a) \<leftarrow> arena_Allocate (of_nat (length (nd_key nd))) a;
         (_, a) \<leftarrow> AllocateAligned (node_bytes (length (nd_next nd))) a;
         MemTable_allocations mem xs a }"

definition MemTable_arena :: "memtable \<Rightarrow> arena option" where
  "MemTable_arena mem =
    do { (_, a) \<leftarrow> AllocateAligned (node_bytes kMaxHeight) Arena;
         MemTable_allocations mem [1 ..< sl_arena mem] a }"

definition ApproximateMemoryUsage :: "memtable \<Rightarrow> u64 option" where
  "ApproximateMemoryUsage mem = map_option MemoryUsage (MemTable_arena mem)"

section \<open>Building a table\<close>

text \<open>
  The file of a table, its \<open>TableBuilder\<close> and the table cache, as far as \<open>BuildTable\<close> sees them: for the number of the
  file the status of \<open>NewWritableFile\<close>, that of \<open>Finish\<close> with \<open>FileSize\<close> behind it after the \<open>Add\<close> of a list
  of keys and values, those of \<open>Sync\<close> and \<open>Close\<close>, and that of the iterator that tries the table out.
\<close>

type_synonym entries = "(byte list \<times> byte list) list"

record table_env =
  te_NewWritableFile :: "u64 \<Rightarrow> status"
  te_Finish :: "u64 \<Rightarrow> entries \<Rightarrow> status \<times> u64"
  te_Sync :: "u64 \<Rightarrow> status"
  te_Close :: "u64 \<Rightarrow> status"
  te_NewIterator :: "u64 \<Rightarrow> u64 \<Rightarrow> status"

text \<open>
  The table files that exist, each by the entries its builder was given, and \<open>next_file_number_\<close> of the version set.
\<close>

record table_files =
  tf_next_file_number :: u64
  tf_tables :: "u64 \<rightharpoonup> entries"

partial_function (option) BuildTable_loop ::
  "memtable \<Rightarrow> nat option \<Rightarrow> byte list \<Rightarrow> entries \<Rightarrow> (byte list \<times> entries) option" where
  "BuildTable_loop mem iter largest added =
    (if SkipIter_Valid iter then
       do { key \<leftarrow> MemTableIterator_key mem iter;
            value \<leftarrow> MemTableIterator_value mem iter;
            iter \<leftarrow> SkipIter_Next mem iter;
            BuildTable_loop mem iter key (added @ [(key, value)]) }
     else Some (largest, added))"

definition BuildTable_end :: "status \<Rightarrow> file_meta_data \<Rightarrow> (u64 \<rightharpoonup> entries) \<Rightarrow> status \<times> file_meta_data \<times> (u64 \<rightharpoonup> entries)" where
  "BuildTable_end s meta files =
    (s, meta, if status_ok s \<and> 0 < fm_file_size meta then files else files(fm_number meta := None))"

text \<open>The iterator of a memtable has a good status.  The result is \<open>None\<close> where the assertion fails.\<close>

definition BuildTable ::
  "table_env \<Rightarrow> memtable \<Rightarrow> file_meta_data \<Rightarrow> (u64 \<rightharpoonup> entries) \<Rightarrow> (status \<times> file_meta_data \<times> (u64 \<rightharpoonup> entries)) option" where
  "BuildTable te mem meta files =
    (let meta = meta\<lparr>fm_file_size := 0\<rparr>; number = fm_number meta
     in do {
       iter \<leftarrow> SkipIter_SeekToFirst mem;
       if SkipIter_Valid iter then
         let s = te_NewWritableFile te number
         in if \<not> status_ok s then Some (s, meta, files)
            else do {
              smallest \<leftarrow> MemTableIterator_key mem iter;
              (largest, added) \<leftarrow> BuildTable_loop mem iter (fm_largest meta) [];
              let meta = meta\<lparr>fm_smallest := smallest, fm_largest := largest\<rparr>; (s, size) = te_Finish te number added
              in if status_ok s \<and> size = 0 then None
                 else
                   let meta = (if status_ok s then meta\<lparr>fm_file_size := size\<rparr> else meta);
                       s = (if status_ok s then te_Sync te number else s);
                       s = (if status_ok s then te_Close te number else s);
                       s = (if status_ok s then te_NewIterator te number (fm_file_size meta) else s)
                   in Some (BuildTable_end s meta (files(number \<mapsto> added))) }
       else Some (BuildTable_end Status_OK meta files) })"

text \<open>
  \<open>base\<close> is \<open>PickLevelForMemTableOutput\<close> of a version, or a null pointer.  \<open>pending_outputs_\<close>, which is what it was
  before at the end, the statistics and the info log are left out.
\<close>

definition WriteLevel0Table ::
  "table_env \<Rightarrow> memtable \<Rightarrow> version_edit \<Rightarrow> (byte list \<Rightarrow> byte list \<Rightarrow> int) option \<Rightarrow> table_files \<Rightarrow>
    (table_files \<times> version_edit \<times> status) option" where
  "WriteLevel0Table te mem edit base tf =
    (let meta = FileMetaData\<lparr>fm_number := tf_next_file_number tf\<rparr>
     in do {
       (s, meta, files) \<leftarrow> BuildTable te mem meta (tf_tables tf);
       let tf = tf\<lparr>tf_next_file_number := tf_next_file_number tf + 1, tf_tables := files\<rparr>
       in if status_ok s \<and> 0 < fm_file_size meta then
            if length (fm_smallest meta) < 8 \<or> length (fm_largest meta) < 8 then None
            else
              let min_user_key = ExtractUserKey (fm_smallest meta); max_user_key = ExtractUserKey (fm_largest meta);
                  level = (case base of None \<Rightarrow> 0 | Some pick \<Rightarrow> pick min_user_key max_user_key)
              in Some (tf, AddFile level (fm_number meta) (fm_file_size meta) (fm_smallest meta) (fm_largest meta) edit, s)
          else Some (tf, edit, s) })"

end
