(* ===== verification/Lv_Builder_Facts.thy ===== *)
theory Lv_Builder_Facts
  imports Lv_Builder
begin

text \<open>
  The table that is written from a memtable holds its entries in order, and is searched with the same result.
\<close>

section \<open>The memory usage\<close>

definition mem_entries :: "version list \<Rightarrow> byte list list" where
  "mem_entries es = foldl (\<lambda>l k. sorted_insert (KeyComparator Slice_compare) k l) [] (map ver_entry es)"

lemma mem_versionsD:
  assumes "mem_versions mem ns es"
  shows "skip_list (KeyComparator Slice_compare) mem ns (mem_entries es)" "set (mem_entries es) = ver_entry ` set es"
    "\<And>e. e \<in> set es \<Longrightarrow> ver_ok e"
  using assms by (auto simp: mem_versions_def mem_entries_def)

lemma length_mem_entries [simp]: "length (mem_entries es) = length es"
proof -
  have "length (sorted_insert c k l) = Suc (length l)" for c :: "byte list \<Rightarrow> byte list \<Rightarrow> int" and k l by (induction l) auto
  then have "length (foldl (\<lambda>l k. sorted_insert c k l) l ks) = length l + length ks" for c :: "byte list \<Rightarrow> byte list \<Rightarrow> int" and l ks
    by (induction ks arbitrary: l) auto
  then show ?thesis by (simp add: mem_entries_def)
qed

lemma length_ver_entry: "ver_ok e \<Longrightarrow> 0 < length (ver_entry e) \<and> length (ver_entry e) < 2 ^ 64"
  using length_vint_5 [of "length (ver_key e) + 8"] length_vint_5 [of "length (ver_value e)"]
  by (simp add: ver_entry_def ver_ok_def)

lemma allocations_Some:
  "(\<forall>x \<in> set xs. \<exists>nd. sl_nodes mem x = Some nd \<and> 0 < length (nd_key nd) \<and> length (nd_key nd) < 2 ^ 64) \<Longrightarrow>
    \<exists>a'. MemTable_allocations mem xs a = Some a'"
proof (induction xs arbitrary: a)
  case (Cons x xs)
  then obtain nd where nd: "sl_nodes mem x = Some nd" "0 < length (nd_key nd)" "length (nd_key nd) < 2 ^ 64" by auto
  then have "of_nat (length (nd_key nd)) \<noteq> (0 :: u64)" by (simp add: word_unat_eq_iff unat_of_nat)
  then obtain p a1 where 1: "arena_Allocate (of_nat (length (nd_key nd))) a = Some (p, a1)" using Allocate_Some by blast
  show ?case using Cons nd 1 AllocateAligned_turn [of "node_bytes (length (nd_next nd))" a1]
    by (cases "aligned_turn (node_bytes (length (nd_next nd))) a1") auto
qed simp

lemma usage_Some:
  assumes "mem_versions mem ns es"
  shows "\<exists>n. ApproximateMemoryUsage mem = Some n"
proof -
  note m = mem_versionsD [OF assms]
  have shape: "dom (sl_nodes mem) = set (sl_head # ns)" "mem_entries es = map (key_at mem) ns"
    using m(1) by (auto simp: skip_list_def skip_shape_def)
  have dense: "mem_dense mem" using assms by (simp add: mem_versions_def)
  have "\<exists>nd. sl_nodes mem x = Some nd \<and> 0 < length (nd_key nd) \<and> length (nd_key nd) < 2 ^ 64"
    if x: "x \<in> set [1 ..< sl_arena mem]" for x
  proof -
    obtain nd where nd: "sl_nodes mem x = Some nd" using dense x by (auto simp: mem_dense_def node_key_def)
    then have "x \<in> set (sl_head # ns)" using shape(1) by blast
    then have "x \<in> set ns" using x by (simp add: sl_head_def)
    then have "nd_key nd \<in> set (mem_entries es)" using shape(2) nd by force
    then obtain e where "nd_key nd = ver_entry e" "ver_ok e" using m(2,3) by auto
    then show ?thesis using nd length_ver_entry by auto
  qed
  then obtain a' where "MemTable_allocations mem [1 ..< sl_arena mem] (snd (aligned_turn (node_bytes kMaxHeight) Arena)) = Some a'"
    using allocations_Some [of "[1 ..< sl_arena mem]" mem] by blast
  then have "ApproximateMemoryUsage mem = Some (MemoryUsage a')"
    by (simp add: ApproximateMemoryUsage_def MemTable_arena_def AllocateAligned_turn case_prod_unfold)
  then show ?thesis by blast
qed

section \<open>The entries of a memtable\<close>

definition entry_pair :: "byte list \<Rightarrow> byte list \<times> byte list" where
  "entry_pair k = (entry_slice k, case entry_varint k of None \<Rightarrow> [] | Some (len, p) \<Rightarrow> entry_slice (drop (unat len) p))"

definition table_of :: "version list \<Rightarrow> entries" where
  "table_of es = map entry_pair (mem_entries es)"

lemma entry_varint_version: "ver_ok e \<Longrightarrow>
    entry_varint (ver_entry e) = Some (of_nat (length (ver_internal e)), ver_internal e @ vint (length (ver_value e)) @ ver_value e)"
  by (simp add: ver_entry_def ver_ok_def entry_varint_vint)

lemma entry_value: "ver_ok e \<Longrightarrow>
    entry_slice (drop (unat (of_nat (length (ver_internal e)) :: u32)) (ver_internal e @ vint (length (ver_value e)) @ ver_value e)) = ver_value e"
proof -
  assume ok: "ver_ok e"
  then have "unat (of_nat (length (ver_internal e)) :: u32) = length (ver_internal e)"
    by (intro unat_of_nat_32) (simp add: ver_ok_def)
  then have "drop (unat (of_nat (length (ver_internal e)) :: u32)) (ver_internal e @ vint (length (ver_value e)) @ ver_value e) =
      vint (length (ver_value e)) @ ver_value e" by (simp only:) simp
  then show ?thesis using entry_slice_vint [of "ver_value e" "[]"] ok by (simp add: ver_ok_def)
qed

lemma entry_pair_version: "ver_ok e \<Longrightarrow> entry_pair (ver_entry e) = (ver_internal e, ver_value e)"
  unfolding entry_pair_def entry_varint_version option.case prod.case by (simp add: entry_slice_version entry_value del: length_ver_internal drop_append)

lemma length_table_of [simp]: "length (table_of es) = length es"
  by (simp add: table_of_def)

lemma BuildTable_loop_at:
  assumes m: "mem_versions mem ns es"
  shows "BuildTable_loop mem (first (drop i ns)) largest added =
    Some (if i < length es then fst (last (table_of es)) else largest, added @ drop i (table_of es))"
proof (induction "length es - i" arbitrary: i largest added)
  case 0
  note m = mem_versionsD [OF m]
  have "length ns = length es" using m(1) by (auto simp: skip_list_def dest: arg_cong [where f = length])
  then show ?case using 0 by (subst BuildTable_loop.simps) (simp add: SkipIter_Valid_def table_of_def)
next
  case (Suc n)
  note d = mem_versionsD [OF m]
  have len: "length ns = length es" using d(1) by (auto simp: skip_list_def dest: arg_cong [where f = length])
  have i: "i < length es" "i < length (mem_entries es)" using Suc(2) by auto
  note at = skip_list_at [OF d(1) i(2)]
  obtain e where e: "mem_entries es ! i = ver_entry e" "ver_ok e" using d(2,3) nth_mem [OF i(2)] by auto
  have p: "table_of es ! i = (ver_internal e, ver_value e)" using e i(2) by (simp add: table_of_def entry_pair_version)
  have "BuildTable_loop mem (first (drop (Suc i) ns)) (ver_internal e) (added @ [(ver_internal e, ver_value e)]) =
      Some (if Suc i < length es then fst (last (table_of es)) else ver_internal e,
        (added @ [(ver_internal e, ver_value e)]) @ drop (Suc i) (table_of es))"
    using Suc by simp
  moreover have "drop i (table_of es) = (ver_internal e, ver_value e) # drop (Suc i) (table_of es)"
    using p i Cons_nth_drop_Suc [of i "table_of es"] by simp
  moreover have "fst (last (table_of es)) = ver_internal e" if "\<not> Suc i < length es"
  proof -
    have "Suc i = length (table_of es)" using that i by simp
    then show ?thesis using p by (metis diff_Suc_1 fst_conv last_conv_nth length_0_conv nat.distinct(1))
  qed
  moreover have "MemTableIterator_key mem (first (drop i ns)) = Some (ver_internal e)"
    "MemTableIterator_value mem (first (drop i ns)) = Some (ver_value e)"
    using at e entry_value [OF e(2)] entry_varint_version [OF e(2)]
    by (simp_all only: MemTableIterator_key_def MemTableIterator_value_def SkipIter_key_def entry_slice_version bind.simps prod.case option.map)
  ultimately show ?case
    using Iter_Next_at [OF d(1) i(2)] first_drop_valid [of i ns] i len
    by (subst BuildTable_loop.simps) simp
qed

section \<open>Searching the table\<close>

text \<open>
  What a table answers to a lookup: the first entry that is not before its internal key, if it has its user key.
\<close>

definition table_Get :: "(byte list \<Rightarrow> byte list \<Rightarrow> int) \<Rightarrow> entries \<Rightarrow> lookup_key \<Rightarrow> byte list \<Rightarrow> status \<Rightarrow> bool \<times> byte list \<times> status" where
  "table_Get user kvs key value s =
    (case dropWhile (\<lambda>(k, v). InternalKeyComparator_Compare user k (internal_key key) < 0) kvs of
       [] \<Rightarrow> (False, value, s)
     | (k, v) # _ \<Rightarrow>
         (case ParseInternalKey k of
            (True, Some p) \<Rightarrow>
              if user (pk_user_key p) (lookup_user_key key) \<noteq> 0 then (False, value, s)
              else if pk_type p = kTypeValue then (True, v, s) else (True, value, Status_make kNotFound [] [])
          | _ \<Rightarrow> (False, value, s)))"

lemma internal_LookupKey:
  "length u + 8 < 2 ^ 32 \<Longrightarrow> internal_key (LookupKey u snap) = entry_slice (memtable_key (LookupKey u snap))"
  using LookupKey_facts(1) [OF _ refl, of u snap]
  by (simp add: internal_key_def LookupKey_def memtable_key_def Let_def ver_internal_def kValueTypeForSeek_def)

lemma Parse_version: "ver_ok e \<Longrightarrow>
    ParseInternalKey (ver_internal e) = (True, Some \<lparr>pk_user_key = ver_key e, pk_sequence = ver_sequence e, pk_type = ver_type e\<rparr>)"
  using Parse_Append [of "\<lparr>pk_user_key = ver_key e, pk_sequence = ver_sequence e, pk_type = ver_type e\<rparr>"]
  by (simp add: ver_ok_def AppendInternalKey_def PutFixed64_def ver_internal_def)

lemma table_Get_newest:
  assumes m: "mem_versions mem ns es" and u: "length u + 8 < 2 ^ 32" and snap: "snap \<le> kMaxSequenceNumber"
  shows "table_Get Slice_compare (table_of es) (LookupKey u snap) value s = get_result (newest es u snap) value s"
proof -
  let ?cmp = "KeyComparator Slice_compare" and ?lk = "memtable_key (LookupKey u snap)"
  note d = mem_versionsD [OF m]
  have valid: "\<forall>x \<in> set (mem_entries es). internal_valid (entry_slice x)"
    using d(3) by (auto simp: d(2) entry_slice_version ver_internal_def)
  have "internal_valid (entry_slice ?lk)" by (simp add: LookupKey_facts(1) [OF u refl] ver_internal_def)
  note find = mem_order.FindGreaterOrEqual_refines [OF d(1) valid this, of None]
  have before: "(\<lambda>(k, v). InternalKeyComparator_Compare Slice_compare k (internal_key (LookupKey u snap)) < 0) \<circ> entry_pair =
      (\<lambda>k. ?cmp k ?lk < 0)"
    by (simp add: fun_eq_iff entry_pair_def KeyComparator_def internal_LookupKey [OF u])
  let ?m = "length (takeWhile (\<lambda>k. ?cmp k ?lk < 0) (mem_entries es))"
  have dw: "dropWhile (\<lambda>k. ?cmp k ?lk < 0) (mem_entries es) = drop ?m (mem_entries es)"
    by (rule dropWhile_eq_drop)
  have seek: "SkipIter_Seek ?cmp mem ?lk = Some (first (drop ?m ns))" using find by (auto simp: SkipIter_Seek_def)
  have tab: "dropWhile (\<lambda>(k, v). InternalKeyComparator_Compare Slice_compare k (internal_key (LookupKey u snap)) < 0) (table_of es) =
      map entry_pair (drop ?m (mem_entries es))"
    unfolding table_of_def dropWhile_map before dw by simp
  have "MemTable_Get Slice_compare mem (LookupKey u snap) value s =
      Some (table_Get Slice_compare (table_of es) (LookupKey u snap) value s)"
  proof (cases "?m < length (mem_entries es)")
    case True
    note at = skip_list_at [OF d(1) True]
    obtain e where e: "mem_entries es ! ?m = ver_entry e" "ver_ok e" using d(2,3) nth_mem [OF True] by auto
    have "drop ?m (mem_entries es) = ver_entry e # drop (Suc ?m) (mem_entries es)"
      using Cons_nth_drop_Suc [OF True] e(1) by simp
    moreover have "MemTable_Get Slice_compare mem (LookupKey u snap) value s =
        Some (get_result (if ver_key e = u then Some e else None) value s)"
      by (rule Get_at [OF _ _ e(2) u]) (use seek at e(1) in \<open>simp_all add: SkipIter_key_def\<close>)
    ultimately show ?thesis
      using e(2) LookupKey_facts(2) [OF u refl, of snap]
      by (simp add: table_Get_def tab entry_pair_version Parse_version Slice_compare_eq get_result_def)
  next
    case False
    then have m: "?m = length (mem_entries es)" using length_takeWhile_le [of _ "mem_entries es"] by (meson le_antisym not_less)
    have "length ns = length (mem_entries es)" using d(1) by (auto simp: skip_list_def)
    then show ?thesis using m by (simp add: MemTable_Get_def seek SkipIter_Valid_def table_Get_def tab)
  qed
  then show ?thesis using Get_refines [OF m u snap] by simp
qed

section \<open>Writing the table\<close>

text \<open>Every step of the writing of a table succeeds.\<close>

definition table_written :: "table_env \<Rightarrow> u64 \<Rightarrow> entries \<Rightarrow> bool" where
  "table_written te number kvs \<longleftrightarrow> status_ok (te_NewWritableFile te number) \<and> status_ok (fst (te_Finish te number kvs)) \<and>
    status_ok (te_Sync te number) \<and> status_ok (te_Close te number) \<and>
    status_ok (te_NewIterator te number (snd (te_Finish te number kvs)))"

lemma SeekToFirst_at:
  assumes "mem_versions mem ns es"
  shows "SkipIter_SeekToFirst mem = Some (first (drop 0 ns))"
proof -
  have s: "skip_shape mem ns" using mem_versionsD(1) [OF assms] by (simp add: skip_list_def)
  have "skip_linked (\<lambda>x. node_Next mem x 0) (sl_head # ns)" by (rule skip_linked_0 [OF s])
  then show ?thesis by (simp add: SkipIter_SeekToFirst_def skip_linked_Cons)
qed

lemma table_of_in:
  assumes "mem_versions mem ns es" "i < length es"
  obtains e where "e \<in> set es" "mem_entries es ! i = ver_entry e" "ver_ok e" "table_of es ! i = (ver_internal e, ver_value e)"
proof -
  have "mem_entries es ! i \<in> set (mem_entries es)" using assms(2) by (intro nth_mem) simp
  then obtain e where e: "e \<in> set es" "mem_entries es ! i = ver_entry e" using mem_versionsD(2) [OF assms(1)] by auto
  moreover have "ver_ok e" using mem_versionsD(3) [OF assms(1)] e(1) by blast
  ultimately show ?thesis using assms(2) that by (simp add: table_of_def entry_pair_version)
qed

lemma BuildTable_empty:
  assumes "mem_versions mem ns []"
  shows "BuildTable te mem meta files = Some (Status_OK, meta\<lparr>fm_file_size := 0\<rparr>, files(fm_number meta := None))"
proof -
  have "ns = []" using mem_versionsD(1) [OF assms] by (simp add: skip_list_def mem_entries_def)
  then show ?thesis
    using SeekToFirst_at [OF assms] by (simp add: BuildTable_def BuildTable_end_def SkipIter_Valid_def Let_def)
qed

lemma BuildTable_result:
  fixes meta :: file_meta_data
  assumes m: "mem_versions mem ns es" and es: "es \<noteq> []"
  defines "n \<equiv> fm_number meta" and "kvs \<equiv> table_of es"
  shows "case BuildTable te mem meta files of
      None \<Rightarrow> te_Finish te n kvs = (Status_OK, 0)
    | Some (s, meta', files') \<Rightarrow>
        if status_ok s then table_written te n kvs \<and> 0 < fm_file_size meta' \<and> files' = files(n \<mapsto> kvs) \<and>
          meta' = meta\<lparr>fm_file_size := fm_file_size meta', fm_smallest := fst (hd kvs), fm_largest := fst (last kvs)\<rparr>
        else \<not> table_written te n kvs"
proof -
  have len: "length ns = length es" using mem_versionsD(1) [OF m] by (auto simp: skip_list_def dest: arg_cong [where f = length])
  have i: "0 < length es" using es by simp
  have v: "SkipIter_Valid (first ns)" using first_drop_valid [of 0 ns] len i by simp
  obtain e where e: "e \<in> set es" "mem_entries es ! 0 = ver_entry e" "ver_ok e" "table_of es ! 0 = (ver_internal e, ver_value e)"
    using table_of_in [OF m i] by blast
  have "0 < length (mem_entries es)" using i by simp
  note at = skip_list_at [OF mem_versionsD(1) [OF m] this]
  have key: "MemTableIterator_key mem (first ns) = Some (fst (hd kvs))"
    using at e i by (simp add: MemTableIterator_key_def SkipIter_key_def entry_slice_version kvs_def hd_conv_nth
        flip: length_greater_0_conv)
  have loop: "BuildTable_loop mem (first ns) (fm_largest meta) [] = Some (fst (last kvs), kvs)"
    using BuildTable_loop_at [OF m, of 0] i by (simp add: kvs_def)
  obtain s size where f: "te_Finish te n kvs = (s, size)" by fastforce
  show ?thesis
    using SeekToFirst_at [OF m] v key loop f
    by (auto simp: BuildTable_def BuildTable_end_def Let_def n_def table_written_def status_ok_def word_gt_0)
qed

lemma WriteLevel0Table_empty:
  assumes "mem_versions mem ns []"
  shows "WriteLevel0Table te mem edit base tf =
    Some (tf\<lparr>tf_next_file_number := tf_next_file_number tf + 1, tf_tables := (tf_tables tf)(tf_next_file_number tf := None)\<rparr>,
      edit, Status_OK)"
  by (simp add: WriteLevel0Table_def BuildTable_empty [OF assms] Let_def)

lemma table_of_valid:
  assumes "mem_versions mem ns es" "es \<noteq> []"
  shows "8 \<le> length (fst (hd (table_of es)))" "8 \<le> length (fst (last (table_of es)))"
proof -
  have v: "8 \<le> length (fst (table_of es ! i))" if i: "i < length es" for i
  proof -
    from table_of_in [OF assms(1) i] obtain e where "table_of es ! i = (ver_internal e, ver_value e)" .
    then show ?thesis by simp
  qed
  have ne: "table_of es \<noteq> []" using assms(2) by (metis length_0_conv length_table_of)
  have i: "0 < length es" "length es - 1 < length es" using assms(2) by (cases es; simp)+
  show "8 \<le> length (fst (hd (table_of es)))" unfolding hd_conv_nth [OF ne] by (rule v [OF i(1)])
  show "8 \<le> length (fst (last (table_of es)))" unfolding last_conv_nth [OF ne] length_table_of by (rule v [OF i(2)])
qed

lemma WriteLevel0Table_result:
  fixes tf :: table_files
  assumes m: "mem_versions mem ns es" and es: "es \<noteq> []"
  defines "n \<equiv> tf_next_file_number tf" and "kvs \<equiv> table_of es"
  shows "case WriteLevel0Table te mem edit None tf of
      None \<Rightarrow> te_Finish te n kvs = (Status_OK, 0)
    | Some (tf', edit', s) \<Rightarrow> tf_next_file_number tf' = n + 1 \<and>
        (if status_ok s then tf_tables tf' = (tf_tables tf)(n \<mapsto> kvs) \<and>
          (\<exists>size. edit' = AddFile 0 n size (fst (hd kvs)) (fst (last kvs)) edit)
         else \<not> table_written te n kvs)"
proof -
  let ?meta = "FileMetaData\<lparr>fm_number := n\<rparr>"
  have n: "fm_number ?meta = n" by simp
  note b = BuildTable_result [OF m es, where te = te and meta = ?meta and files = "tf_tables tf", unfolded n, folded kvs_def]
  show ?thesis
  proof (cases "BuildTable te mem ?meta (tf_tables tf)")
    case None
    then show ?thesis using b by (simp add: WriteLevel0Table_def n_def Let_def)
  next
    case (Some r)
    obtain s meta files where r: "r = (s, meta, files)" by (cases r)
    show ?thesis
    proof (cases "status_ok s")
      case True
      then have x: "0 < fm_file_size meta" "files = (tf_tables tf)(n \<mapsto> kvs)"
        "meta = ?meta\<lparr>fm_file_size := fm_file_size meta, fm_smallest := fst (hd kvs), fm_largest := fst (last kvs)\<rparr>"
        using b Some r by simp_all
      have y: "fm_smallest meta = fst (hd kvs)" "fm_largest meta = fst (last kvs)" "fm_number meta = n"
        by (subst x(3), simp)+
      show ?thesis
        using Some r True x(1,2) y table_of_valid [OF m es]
        by (auto simp: WriteLevel0Table_def Let_def n_def kvs_def)
    next
      case False
      then show ?thesis using b Some r by (auto simp: WriteLevel0Table_def Let_def n_def)
    qed
  qed
qed

end
