(* ===== verification/Lv_Log.thy ===== *)
theory Lv_Log
  imports Lv_File
begin

text \<open>
  \<open>db/log_format.h\<close>, \<open>db/log_writer.cc\<close> and \<open>db/log_reader.cc\<close> of leveldb: the write-ahead log, cut into
  fragments that do not cross the blocks of 32 KB.
\<close>

section \<open>The format\<close>

definition kZeroType :: u32 where "kZeroType = 0"
definition kFullType :: u32 where "kFullType = 1"
definition kFirstType :: u32 where "kFirstType = 2"
definition kMiddleType :: u32 where "kMiddleType = 3"
definition kLastType :: u32 where "kLastType = 4"
definition kMaxRecordType :: u32 where "kMaxRecordType = kLastType"
definition kBlockSize :: nat where "kBlockSize = 32768"
definition kHeaderSize :: nat where "kHeaderSize = 4 + 2 + 1"

section \<open>The writer\<close>

text \<open>The file is behind its two operations \<open>put\<close> (\<open>Append\<close>) and \<open>flush\<close>.\<close>

record 'f log_writer =
  lw_dest :: 'f
  lw_block_offset :: nat
  lw_type_crc :: "u32 list"

definition InitTypeCrc :: "addr \<Rightarrow> u32 list" where
  "InitTypeCrc t = map (\<lambda>i. crc32c_Value t [of_nat i]) [0..<unat kMaxRecordType + 1]"

definition log_Writer :: "addr \<Rightarrow> 'f \<Rightarrow> 'f log_writer" where
  "log_Writer t dest = \<lparr>lw_dest = dest, lw_block_offset = 0, lw_type_crc = InitTypeCrc t\<rparr>"

definition log_Writer_at :: "addr \<Rightarrow> 'f \<Rightarrow> u64 \<Rightarrow> 'f log_writer" where
  "log_Writer_at t dest dest_length =
    \<lparr>lw_dest = dest, lw_block_offset = unat dest_length mod kBlockSize, lw_type_crc = InitTypeCrc t\<rparr>"

definition EmitPhysicalRecord ::
  "('f \<Rightarrow> byte list \<Rightarrow> 'f \<times> status) \<Rightarrow> ('f \<Rightarrow> 'f \<times> status) \<Rightarrow> 'f log_writer \<Rightarrow> u32 \<Rightarrow> addr \<Rightarrow> byte list \<Rightarrow>
    'f log_writer \<times> status" where
  "EmitPhysicalRecord put flush w t ptr data =
    (let len = of_nat (length data) :: u64;
         crc = crc32c_Mask (crc32c_Extend ptr (lw_type_crc w ! unat t) data);
         buf = EncodeFixed32 crc @ [ucast (len AND 0xff), ucast (drop_bit 8 len), ucast t];
         (dest, s) = put (lw_dest w) buf;
         (dest, s) = (if status_ok s then
                        let (dest, s) = put dest data in if status_ok s then flush dest else (dest, s)
                      else (dest, s))
     in (w\<lparr>lw_dest := dest, lw_block_offset := lw_block_offset w + (kHeaderSize + length data)\<rparr>, s))"

lemma EmitPhysicalRecord_offset:
  "EmitPhysicalRecord put flush w t ptr data = (w', s) \<Longrightarrow>
    lw_block_offset w' = lw_block_offset w + (kHeaderSize + length data)"
  by (auto simp: EmitPhysicalRecord_def Let_def split: prod.splits)

definition switch_block :: "('f \<Rightarrow> byte list \<Rightarrow> 'f \<times> status) \<Rightarrow> 'f log_writer \<Rightarrow> 'f log_writer" where
  "switch_block put w =
    (let leftover = kBlockSize - lw_block_offset w in
     if leftover < kHeaderSize then
       let dest = (if 0 < leftover then fst (put (lw_dest w) (replicate leftover 0)) else lw_dest w)
       in w\<lparr>lw_dest := dest, lw_block_offset := 0\<rparr>
     else w)"

lemma switch_block_offset:
  "lw_block_offset (switch_block put w) = (if kBlockSize - lw_block_offset w < kHeaderSize then 0 else lw_block_offset w)"
  by (simp add: switch_block_def Let_def)

definition fragment_type :: "bool \<Rightarrow> bool \<Rightarrow> u32" where
  "fragment_type begin end =
    (if begin \<and> end then kFullType else if begin then kFirstType else if end then kLastType else kMiddleType)"

function AddRecord_loop ::
  "('f \<Rightarrow> byte list \<Rightarrow> 'f \<times> status) \<Rightarrow> ('f \<Rightarrow> 'f \<times> status) \<Rightarrow> 'f log_writer \<Rightarrow> addr \<Rightarrow> byte list \<Rightarrow> bool \<Rightarrow>
    'f log_writer \<times> status" where
  "AddRecord_loop put flush w ptr left begin =
    (let w1 = switch_block put w;
         avail = kBlockSize - lw_block_offset w1 - kHeaderSize;
         fragment_length = (if length left < avail then length left else avail);
         end = (length left = fragment_length)
     in case EmitPhysicalRecord put flush w1 (fragment_type begin end) ptr (take fragment_length left) of
          (w2, s) \<Rightarrow>
            let left' = drop fragment_length left
            in if status_ok s \<and> left' \<noteq> [] then
                 AddRecord_loop put flush w2 (ptr + of_nat fragment_length) left' False
               else (w2, s))"
  by pat_completeness auto
termination
proof (relation "measure (\<lambda>(_, _, w, _, left, _). 2 * length left + (if lw_block_offset w = kBlockSize - kHeaderSize then 1 else 0))",
    goal_cases)
  case (2 put flush w ptr left "begin" w1 avail n "end" w2 s left')
  have off: "lw_block_offset w2 = lw_block_offset w1 + (kHeaderSize + length (take n left))"
    using 2 by (metis EmitPhysicalRecord_offset)
  show ?case
  proof (cases "n = 0")
    case True
    then have "avail = 0" using 2 by (auto split: if_splits)
    then show ?thesis using 2 off
      by (auto simp: switch_block_offset kBlockSize_def kHeaderSize_def split: if_splits)
  next
    case False
    then show ?thesis using 2 by (auto split: if_splits)
  qed
qed simp

declare AddRecord_loop.simps [simp del]

definition AddRecord ::
  "('f \<Rightarrow> byte list \<Rightarrow> 'f \<times> status) \<Rightarrow> ('f \<Rightarrow> 'f \<times> status) \<Rightarrow> 'f log_writer \<Rightarrow> addr \<Rightarrow> byte list \<Rightarrow>
    'f log_writer \<times> status" where
  "AddRecord put flush w ptr data = AddRecord_loop put flush w ptr data True"

section \<open>The reader\<close>

definition kEof :: u32 where "kEof = kMaxRecordType + 1"
definition kBadRecord :: u32 where "kBadRecord = kMaxRecordType + 2"

text \<open>
  \<open>lr_reporter\<close> tells whether there is a reporter, \<open>lr_reports\<close> what it has been told.  \<open>buffer_\<close> is its
  address and its bytes.
\<close>

record 'f log_reader =
  lr_file :: 'f
  lr_reporter :: bool
  lr_reports :: "(u64 \<times> status) list"
  lr_checksum :: bool
  lr_backing_store :: addr
  lr_data :: addr
  lr_buffer :: "byte list"
  lr_eof :: bool
  lr_last_record_offset :: u64
  lr_end_of_buffer_offset :: u64
  lr_initial_offset :: u64
  lr_resyncing :: bool

definition log_Reader :: "'f \<Rightarrow> bool \<Rightarrow> bool \<Rightarrow> u64 \<Rightarrow> addr \<Rightarrow> 'f log_reader" where
  "log_Reader file reporter checksum initial_offset backing_store =
    \<lparr>lr_file = file, lr_reporter = reporter, lr_reports = [], lr_checksum = checksum,
     lr_backing_store = backing_store, lr_data = NULL, lr_buffer = [], lr_eof = False,
     lr_last_record_offset = 0, lr_end_of_buffer_offset = 0, lr_initial_offset = initial_offset,
     lr_resyncing = (0 < initial_offset)\<rparr>"

definition ReportDrop :: "u64 \<Rightarrow> status \<Rightarrow> 'f log_reader \<Rightarrow> 'f log_reader" where
  "ReportDrop bytes reason r =
    (if lr_reporter r \<and> lr_initial_offset r \<le> lr_end_of_buffer_offset r - of_nat (length (lr_buffer r)) - bytes
     then r\<lparr>lr_reports := lr_reports r @ [(bytes, reason)]\<rparr> else r)"

definition ReportCorruption :: "u64 \<Rightarrow> string \<Rightarrow> 'f log_reader \<Rightarrow> 'f log_reader" where
  "ReportCorruption bytes reason r = ReportDrop bytes (Status_make kCorruption reason []) r"

definition SkipToInitialBlock :: "('f \<Rightarrow> u64 \<Rightarrow> 'f \<times> status) \<Rightarrow> 'f log_reader \<Rightarrow> 'f log_reader \<times> bool" where
  "SkipToInitialBlock skip r =
    (let offset_in_block = lr_initial_offset r mod of_nat kBlockSize;
         start = lr_initial_offset r - offset_in_block;
         start = (if of_nat (kBlockSize - 6) < offset_in_block then start + of_nat kBlockSize else start);
         r = r\<lparr>lr_end_of_buffer_offset := start\<rparr>
     in if 0 < start then
          case skip (lr_file r) start of (f, skip_status) \<Rightarrow>
            let r = r\<lparr>lr_file := f\<rparr>
            in if \<not> status_ok skip_status then (ReportDrop start skip_status r, False) else (r, True)
        else (r, True))"

text \<open>
  \<open>ReadPhysicalRecord\<close> returns the type; \<open>fragment\<close> is \<open>*result\<close>, which keeps its old value on the paths that do
  not set it.
\<close>

definition parse_record :: "'f log_reader \<Rightarrow> byte list \<Rightarrow> u32 \<times> 'f log_reader \<times> byte list" where
  "parse_record r fragment =
    (let header = lr_buffer r;
         a = ucast (header ! 4) AND 0xff :: u32;
         b = ucast (header ! 5) AND 0xff :: u32;
         type = scast (header ! 6) :: u32;
         length' = a OR push_bit 8 b
     in if length header < kHeaderSize + unat length' then
          let drop_size = of_nat (length header); r = r\<lparr>lr_buffer := []\<rparr>
          in if \<not> lr_eof r then (kBadRecord, ReportCorruption drop_size ''bad record length'' r, fragment)
             else (kEof, r, fragment)
        else if type = kZeroType \<and> length' = 0 then (kBadRecord, r\<lparr>lr_buffer := []\<rparr>, fragment)
        else if lr_checksum r \<and>
                crc32c_Value (lr_data r + 6) (take (1 + unat length') (drop 6 header)) \<noteq>
                  crc32c_Unmask (DecodeFixed32 header) then
          let drop_size = of_nat (length header); r = r\<lparr>lr_buffer := []\<rparr>
          in (kBadRecord, ReportCorruption drop_size ''checksum mismatch'' r, fragment)
        else
          let r = r\<lparr>lr_buffer := drop (kHeaderSize + unat length') header,
                    lr_data := lr_data r + of_nat (kHeaderSize + unat length')\<rparr>
          in if lr_end_of_buffer_offset r - of_nat (length (lr_buffer r)) - of_nat kHeaderSize - ucast length'
                < lr_initial_offset r then (kBadRecord, r, [])
             else (type, r, take (unat length') (drop kHeaderSize header)))"

definition refill :: "('f \<Rightarrow> nat \<Rightarrow> 'f \<times> status \<times> byte list option) \<Rightarrow> 'f log_reader \<Rightarrow> 'f log_reader \<times> status" where
  "refill read r =
    (case read (lr_file r) kBlockSize of (f, status, result) \<Rightarrow>
       let r = r\<lparr>lr_file := f, lr_buffer := []\<rparr>;
           r = (case result of None \<Rightarrow> r | Some bs \<Rightarrow> r\<lparr>lr_buffer := bs, lr_data := lr_backing_store r\<rparr>)
       in (r\<lparr>lr_end_of_buffer_offset := lr_end_of_buffer_offset r + of_nat (length (lr_buffer r))\<rparr>, status))"

function ReadPhysicalRecord ::
  "('f \<Rightarrow> nat \<Rightarrow> 'f \<times> status \<times> byte list option) \<Rightarrow> 'f log_reader \<Rightarrow> byte list \<Rightarrow> u32 \<times> 'f log_reader \<times> byte list" where
  "ReadPhysicalRecord read r fragment =
    (if length (lr_buffer r) < kHeaderSize then
       if \<not> lr_eof r then
         case refill read r of (r', status) \<Rightarrow>
           if \<not> status_ok status then
             (kEof, (ReportDrop (of_nat kBlockSize) status (r'\<lparr>lr_buffer := []\<rparr>))\<lparr>lr_eof := True\<rparr>, fragment)
           else
             ReadPhysicalRecord read (if length (lr_buffer r') < kBlockSize then r'\<lparr>lr_eof := True\<rparr> else r') fragment
       else (kEof, r\<lparr>lr_buffer := []\<rparr>, fragment)
     else parse_record r fragment)"
  by pat_completeness auto
termination
  by (relation "measure (\<lambda>(_, r, _). if length (lr_buffer r) < kHeaderSize \<and> \<not> lr_eof r then 1 else 0)")
    (auto simp: kHeaderSize_def kBlockSize_def)

declare ReadPhysicalRecord.simps [simp del]

text \<open>The message of a type the reader does not know, through \<open>snprintf\<close> with \<open>%u\<close>.\<close>

fun decimal_u :: "nat \<Rightarrow> string" where
  "decimal_u n = (if n < 10 then [] else decimal_u (n div 10)) @ [char_of (48 + n mod 10)]"

declare decimal_u.simps [simp del]

definition partial_report :: "bool \<Rightarrow> byte list \<Rightarrow> string \<Rightarrow> 'f log_reader \<Rightarrow> 'f log_reader" where
  "partial_report in_fragmented_record scratch reason r =
    (if in_fragmented_record \<and> scratch \<noteq> [] then ReportCorruption (of_nat (length scratch)) reason r else r)"

text \<open>
  One turn of the loop of \<open>ReadRecord\<close> on what \<open>ReadPhysicalRecord\<close> returned: the local variables of the next
  turn, or the reader, \<open>scratch\<close> and \<open>Some record\<close> (\<open>None\<close> where the function returns false).
\<close>

record record_locals =
  rl_scratch :: "byte list"
  rl_in_fragmented :: bool
  rl_prospective :: u64
  rl_fragment :: "byte list"

type_synonym 'f record_turn = "('f log_reader \<times> record_locals) + ('f log_reader \<times> byte list \<times> byte list option)"

definition record_switch :: "u64 \<Rightarrow> u32 \<Rightarrow> 'f log_reader \<Rightarrow> record_locals \<Rightarrow> 'f record_turn" where
  "record_switch physical record_type r l =
    (let fragment = rl_fragment l; scratch = rl_scratch l; infrag = rl_in_fragmented l in
     if record_type = kFullType then
       let r = partial_report infrag scratch ''partial record without end(1)'' r
       in Inr (r\<lparr>lr_last_record_offset := physical\<rparr>, [], Some fragment)
     else if record_type = kFirstType then
       let r = partial_report infrag scratch ''partial record without end(2)'' r
       in Inl (r, l\<lparr>rl_prospective := physical, rl_scratch := fragment, rl_in_fragmented := True\<rparr>)
     else if record_type = kMiddleType then
       if \<not> infrag then
         Inl (ReportCorruption (of_nat (length fragment)) ''missing start of fragmented record(1)'' r, l)
       else Inl (r, l\<lparr>rl_scratch := scratch @ fragment\<rparr>)
     else if record_type = kLastType then
       if \<not> infrag then
         Inl (ReportCorruption (of_nat (length fragment)) ''missing start of fragmented record(2)'' r, l)
       else Inr (r\<lparr>lr_last_record_offset := rl_prospective l\<rparr>, scratch @ fragment, Some (scratch @ fragment))
     else if record_type = kEof then Inr (r, if infrag then [] else scratch, None)
     else if record_type = kBadRecord then
       if infrag then
         Inl (ReportCorruption (of_nat (length scratch)) ''error in middle of record'' r,
              l\<lparr>rl_in_fragmented := False, rl_scratch := []\<rparr>)
       else Inl (r, l)
     else
       Inl (ReportCorruption (of_nat (length fragment + (if infrag then length scratch else 0)))
              (''unknown record type '' @ decimal_u (unat record_type)) r,
            l\<lparr>rl_in_fragmented := False, rl_scratch := []\<rparr>))"

definition record_turn :: "u32 \<Rightarrow> 'f log_reader \<Rightarrow> record_locals \<Rightarrow> 'f record_turn" where
  "record_turn record_type r l =
    (let physical = lr_end_of_buffer_offset r - of_nat (length (lr_buffer r)) - of_nat kHeaderSize -
           of_nat (length (rl_fragment l))
     in if lr_resyncing r then
          if record_type = kMiddleType then Inl (r, l)
          else if record_type = kLastType then Inl (r\<lparr>lr_resyncing := False\<rparr>, l)
          else record_switch physical record_type (r\<lparr>lr_resyncing := False\<rparr>) l
        else record_switch physical record_type r l)"

definition record_read ::
  "('f \<Rightarrow> nat \<Rightarrow> 'f \<times> status \<times> byte list option) \<Rightarrow> 'f log_reader \<Rightarrow> record_locals \<Rightarrow> 'f record_turn" where
  "record_read read r l =
    (case ReadPhysicalRecord read r (rl_fragment l) of (record_type, r, fragment) \<Rightarrow>
       record_turn record_type r (l\<lparr>rl_fragment := fragment\<rparr>))"

partial_function (option) ReadRecord_loop ::
  "('f \<Rightarrow> nat \<Rightarrow> 'f \<times> status \<times> byte list option) \<Rightarrow> 'f log_reader \<Rightarrow> record_locals \<Rightarrow>
    ('f log_reader \<times> byte list \<times> byte list option) option" where
  "ReadRecord_loop read r l =
    (case record_read read r l of
       Inl rl \<Rightarrow> ReadRecord_loop read (fst rl) (snd rl)
     | Inr result \<Rightarrow> Some result)"

definition ReadRecord ::
  "('f \<Rightarrow> nat \<Rightarrow> 'f \<times> status \<times> byte list option) \<Rightarrow> ('f \<Rightarrow> u64 \<Rightarrow> 'f \<times> status) \<Rightarrow> 'f log_reader \<Rightarrow>
    byte list \<Rightarrow> ('f log_reader \<times> byte list \<times> byte list option) option" where
  "ReadRecord read skip r scratch =
    (let (r, ok) = (if lr_last_record_offset r < lr_initial_offset r then SkipToInitialBlock skip r else (r, True))
     in if \<not> ok then Some (r, scratch, None) else 
       ReadRecord_loop read r \<lparr>rl_scratch = [], rl_in_fragmented = False, rl_prospective = 0, rl_fragment = []\<rparr>)"

definition LastRecordOffset :: "'f log_reader \<Rightarrow> u64" where
  "LastRecordOffset r = lr_last_record_offset r"

end
