(* ===== verification/Lv_Log_Writes.thy ===== *)
theory Lv_Log_Writes
  imports Lv_Log
begin

text \<open>
  What a log of records looks like, fragment by fragment, and the proof that the writer of leveldb writes it.
\<close>

section \<open>What a log of records looks like\<close>

text \<open>
  The bytes of a record that starts at position \<open>p\<close> of the log: zeros up to the next block if a header does not
  fit in this one, then a physical record with as much of the data as the block holds, and the rest behind it.
\<close>

definition block_pad :: "nat \<Rightarrow> nat" where
  "block_pad p = (let l = kBlockSize - p mod kBlockSize in if l < kHeaderSize then l else 0)"

definition phys :: "u32 \<Rightarrow> byte list \<Rightarrow> byte list" where
  "phys t d = EncodeFixed32 (crc32c_Mask (crc_spec 0 (ucast t # d))) @
    [of_nat (length d mod 256), of_nat (length d div 256), ucast t] @ d"

definition frag_len :: "nat \<Rightarrow> byte list \<Rightarrow> nat" where
  "frag_len p d = min (length d) (kBlockSize - kHeaderSize - (p + block_pad p) mod kBlockSize)"

lemma length_phys [simp]: "length (phys t d) = kHeaderSize + length d"
  by (simp add: phys_def kHeaderSize_def)

lemma block_pad_mod: "(p + block_pad p) mod kBlockSize \<le> kBlockSize - kHeaderSize"
  "(p + block_pad p) mod kBlockSize = (if kBlockSize - p mod kBlockSize < kHeaderSize then 0 else p mod kBlockSize)"
proof -
  have *: "(p + (32768 - p mod 32768)) mod 32768 = 0"
    by (metis le_add_diff_inverse mod_add_left_eq mod_le_divisor mod_self zero_less_numeral)
  show **: "(p + block_pad p) mod kBlockSize = (if kBlockSize - p mod kBlockSize < kHeaderSize then 0 else p mod kBlockSize)"
    using * by (auto simp: block_pad_def kBlockSize_def Let_def)
  show "(p + block_pad p) mod kBlockSize \<le> kBlockSize - kHeaderSize"
    unfolding ** by (auto simp: kBlockSize_def kHeaderSize_def)
qed

lemma frag_len_le: "frag_len p d \<le> length d" "frag_len p d \<le> kBlockSize - kHeaderSize"
  "(p + block_pad p) mod kBlockSize + kHeaderSize + frag_len p d \<le> kBlockSize"
  using block_pad_mod(1) [of p] by (auto simp: frag_len_def kBlockSize_def kHeaderSize_def)

function log_frags :: "nat \<Rightarrow> bool \<Rightarrow> byte list \<Rightarrow> byte list" where
  "log_frags p begin d =
    (let n = frag_len p d in
     replicate (block_pad p) 0 @ phys (fragment_type begin (n = length d)) (take n d) @
     (if n < length d then log_frags (p + block_pad p + kHeaderSize + n) False (drop n d) else []))"
  by pat_completeness auto
termination
proof (relation "measure (\<lambda>(p, _, d). 2 * length d + (if (p + block_pad p) mod kBlockSize = kBlockSize - kHeaderSize then 1 else 0))",
    goal_cases)
  case (2 p "begin" d n)
  let ?q = "p + block_pad p"
  show ?case
  proof (cases "n = 0")
    case True
    then have "?q mod kBlockSize = kBlockSize - kHeaderSize"
      using 2 block_pad_mod(1) [of p] by (auto simp: frag_len_def min_def split: if_splits)
    moreover from this have "(?q + kHeaderSize) mod kBlockSize = 0"
      using mod_add_left_eq [of ?q 32768 7] by (simp add: kBlockSize_def kHeaderSize_def)
    ultimately show ?thesis using 2 True
      by (simp add: block_pad_def kBlockSize_def kHeaderSize_def)
  next
    case False
    then show ?thesis using 2 by auto
  qed
qed simp

declare log_frags.simps [simp del]

primrec log_bytes :: "nat \<Rightarrow> byte list list \<Rightarrow> byte list" where
  "log_bytes p [] = []"
| "log_bytes p (r # rs) = log_frags p True r @ log_bytes (p + length (log_frags p True r)) rs"

section \<open>The writer writes it\<close>

text \<open>The offset the writer keeps is the position in the block; a full block is the end of it or the start of the next.\<close>

definition writer_at :: "nat \<Rightarrow> 'f log_writer \<Rightarrow> bool" where
  "writer_at p w \<longleftrightarrow> (\<exists>t. lw_type_crc w = InitTypeCrc t) \<and>
    (lw_block_offset w = p mod kBlockSize \<or> lw_block_offset w = kBlockSize \<and> p mod kBlockSize = 0)"

lemma Init_nth: "unat t \<le> 4 \<Longrightarrow> InitTypeCrc a ! unat t = crc_spec 0 [ucast t]"
  by (simp add: InitTypeCrc_def kMaxRecordType_def kLastType_def crc32c_Value_def Extend_crc_spec del: upt_Suc)

lemma fragment_type_le: "unat (fragment_type b e) \<le> 4"
  by (simp add: fragment_type_def kFullType_def kFirstType_def kLastType_def kMiddleType_def)

lemma length_bytes:
  "(ucast ((of_nat n :: u64) AND 0xff) :: byte) = of_nat (n mod 256)"
  "(ucast (drop_bit 8 (of_nat n :: u64)) :: byte) = of_nat (n div 256)"
proof -
  have *: "n mod 256 = take_bit 8 n" "n div 256 = drop_bit 8 n" by (simp_all add: take_bit_eq_mod drop_bit_eq_div)
  show "(ucast ((of_nat n :: u64) AND 0xff) :: byte) = of_nat (n mod 256)"
    "(ucast (drop_bit 8 (of_nat n :: u64)) :: byte) = of_nat (n div 256)"
    unfolding * by (rule bit_word_eqI, auto simp: bit_simps bit_of_nat_iff)+
qed

text \<open>A file with an empty buffer takes a few bytes without a call of the kernel.\<close>

locale log_file = writable_file append flush accepted written usable
  for append :: "'f \<Rightarrow> byte list \<Rightarrow> 'f \<times> status" and flush :: "'f \<Rightarrow> 'f \<times> status"
    and accepted written :: "'f \<Rightarrow> byte list" and usable :: "'f \<Rightarrow> bool" +
  assumes append_small: "usable f \<Longrightarrow> written f = accepted f \<Longrightarrow> length d < kHeaderSize \<Longrightarrow>
    \<exists>f'. append f d = (f', Status_OK)"
begin

definition synced :: "'f \<Rightarrow> bool" where
  "synced f \<longleftrightarrow> usable f \<and> written f = accepted f"

lemma emit_writes:
  assumes w: "usable (lw_dest w)" "\<exists>a. lw_type_crc w = InitTypeCrc a" and t: "unat t \<le> 4"
    and d: "length d < 65536"
    and e: "EmitPhysicalRecord append flush w t ptr d = (w', s)"
  shows "lw_type_crc w' = lw_type_crc w \<and> prefix (written (lw_dest w')) (accepted (lw_dest w) @ phys t d) \<and>
    (s = Status_OK \<longrightarrow> synced (lw_dest w') \<and> accepted (lw_dest w') = accepted (lw_dest w) @ phys t d)"
proof -
  let ?f = "lw_dest w"
  let ?len = "of_nat (length d) :: u64"
  define h where "h = EncodeFixed32 (crc32c_Mask (crc_spec 0 (ucast t # d))) @
    [of_nat (length d mod 256), of_nat (length d div 256), ucast t]"
  have len: "(ucast (?len AND 0xff) :: byte) = of_nat (length d mod 256)"
    "(ucast (drop_bit 8 ?len) :: byte) = of_nat (length d div 256)"
    by (rule length_bytes)+
  have crc: "crc32c_Extend ptr (lw_type_crc w ! unat t) d = crc_spec 0 (ucast t # d)"
    using w(2) t by (auto simp: Init_nth Extend_crc_spec crc_spec_append)
  have ph: "phys t d = h @ d" by (simp add: phys_def h_def)
  obtain f1 s1 where 1: "append ?f h = (f1, s1)" by (cases "append ?f h")
  obtain f2 s2 where 2: "append f1 d = (f2, s2)" by (cases "append f1 d")
  obtain f3 s3 where 3: "flush f2 = (f3, s3)" by (cases "flush f2")
  have r: "lw_type_crc w' = lw_type_crc w \<and> (lw_dest w', s) =
      (if status_ok s1 then if status_ok s2 then (f3, s3) else (f2, s2) else (f1, s1))"
    using e 1 2 3 unfolding EmitPhysicalRecord_def Let_def crc len h_def [symmetric] by (auto split: if_splits)
  have p1: "prefix (written f1) (accepted ?f @ phys t d)"
    using append_written [OF w(1) 1] unfolding ph by (metis append_assoc prefix_prefix)
  show ?thesis
  proof (cases "s1 = Status_OK")
    case False
    then show ?thesis using r p1 by (auto simp: status_ok_def)
  next
    case True
    then have f1: "usable f1" "accepted f1 = accepted ?f @ h" using append_ok w(1) 1 by auto
    show ?thesis
    proof (cases "s2 = Status_OK")
      case False
      then show ?thesis using r True append_written [OF f1(1) 2] f1(2) by (auto simp: status_ok_def ph)
    next
      case True': True
      then have f2: "usable f2" "accepted f2 = accepted ?f @ phys t d" using append_ok f1 2 by (auto simp: ph)
      show ?thesis using r True True' f2 flush_written [OF f2(1) 3] flush_ok [OF f2(1), of f3] 3
        by (auto simp: status_ok_def synced_def)
    qed
  qed
qed

lemma switch_block_writes:
  assumes "synced (lw_dest w)" "writer_at p w"
  shows "usable (lw_dest (switch_block append w))"
    "accepted (lw_dest (switch_block append w)) = accepted (lw_dest w) @ replicate (block_pad p) 0"
    "lw_type_crc (switch_block append w) = lw_type_crc w"
    "lw_block_offset (switch_block append w) = (p + block_pad p) mod kBlockSize"
proof -
  have *: "block_pad p < kHeaderSize" by (simp add: block_pad_def kBlockSize_def kHeaderSize_def Let_def)
  obtain f' where f': "append (lw_dest w) (replicate (block_pad p) 0) = (f', Status_OK)"
    using append_small [of "lw_dest w" "replicate (block_pad p) 0"] assms(1) * by (auto simp: synced_def)
  then have f: "usable f'" "accepted f' = accepted (lw_dest w) @ replicate (block_pad p) 0"
    using append_ok assms(1) by (auto simp: synced_def)
  have u: "usable (lw_dest w)" using assms(1) by (simp add: synced_def)
  have "block_pad p = 0 \<or> lw_block_offset w = p mod kBlockSize"
    using assms(2) by (auto simp: writer_at_def block_pad_def kBlockSize_def kHeaderSize_def)
  then show "usable (lw_dest (switch_block append w))"
    "accepted (lw_dest (switch_block append w)) = accepted (lw_dest w) @ replicate (block_pad p) 0"
    using f f' u assms(2)
    by (auto simp: switch_block_def block_pad_def writer_at_def kBlockSize_def kHeaderSize_def Let_def split: if_splits)
  show "lw_type_crc (switch_block append w) = lw_type_crc w" by (simp add: switch_block_def Let_def)
  show "lw_block_offset (switch_block append w) = (p + block_pad p) mod kBlockSize"
    using assms(2) unfolding switch_block_offset block_pad_mod
    by (auto simp: writer_at_def kBlockSize_def kHeaderSize_def)
qed

lemma AddRecord_loop_writes:
  assumes "synced (lw_dest w)" "writer_at p w" "AddRecord_loop append flush w ptr d begin = (w', s)"
  shows "prefix (written (lw_dest w')) (accepted (lw_dest w) @ log_frags p begin d) \<and>
    (s = Status_OK \<longrightarrow> synced (lw_dest w') \<and> accepted (lw_dest w') = accepted (lw_dest w) @ log_frags p begin d \<and>
      writer_at (p + length (log_frags p begin d)) w')"
  using assms
proof (induction p "begin" d arbitrary: w ptr rule: log_frags.induct)
  case (1 p "begin" d)
  note IH = "1.IH"
  let ?v = "switch_block append w"
  define n where "n = frag_len p d"
  define q where "q = p + block_pad p"
  note v = switch_block_writes [OF "1.prems"(1,2), folded q_def]
  have n: "n \<le> length d" "n \<le> kBlockSize - kHeaderSize" "q mod kBlockSize + kHeaderSize + n \<le> kBlockSize"
    using frag_len_le [of p d] by (auto simp: n_def q_def)
  have fl: "(if length d < kBlockSize - lw_block_offset ?v - kHeaderSize then length d
      else kBlockSize - lw_block_offset ?v - kHeaderSize) = n"
    unfolding v(4) n_def frag_len_def q_def by (auto simp: kBlockSize_def kHeaderSize_def min_def)
  let ?t = "fragment_type begin (n = length d)"
  obtain w2 s2 where e: "EmitPhysicalRecord append flush ?v ?t ptr (take n d) = (w2, s2)" by fastforce
  have r: "(w', s) = (if status_ok s2 \<and> n < length d then AddRecord_loop append flush w2 (ptr + of_nat n) (drop n d) False
      else (w2, s2))"
    using "1.prems"(3) e unfolding AddRecord_loop.simps [of append flush w] Let_def fl
    by (simp add: eq_commute [of "length d" n]) (use n(1) in \<open>auto split: if_splits\<close>)
  have tc: "\<exists>a. lw_type_crc ?v = InitTypeCrc a" using "1.prems"(2) by (auto simp: v writer_at_def)
  have "length (take n d) < 65536" using n by (simp add: kBlockSize_def kHeaderSize_def)
  note em = emit_writes [OF v(1) tc fragment_type_le this e]
  have frags: "log_frags p begin d = replicate (block_pad p) 0 @ phys ?t (take n d) @
      (if n < length d then log_frags (q + kHeaderSize + n) False (drop n d) else [])"
    by (subst log_frags.simps) (simp add: Let_def n_def q_def)
  have off: "lw_block_offset w2 = q mod kBlockSize + (kHeaderSize + n)"
    using EmitPhysicalRecord_offset [OF e] n by (simp add: v)
  have at: "writer_at (q + kHeaderSize + n) w2"
  proof -
    let ?x = "q mod kBlockSize + (kHeaderSize + n)"
    have "(q + kHeaderSize + n) mod kBlockSize = ?x mod kBlockSize"
      by (metis add.assoc mod_add_left_eq)
    also have "\<dots> = (if ?x = kBlockSize then 0 else ?x)" using n(3) by simp
    finally have "(q + kHeaderSize + n) mod kBlockSize = (if ?x = kBlockSize then 0 else ?x)" .
    moreover have "\<exists>a. lw_type_crc w2 = InitTypeCrc a" using em tc by auto
    ultimately show ?thesis using off unfolding writer_at_def by presburger
  qed
  show ?case
  proof (cases "s2 = Status_OK \<and> n < length d")
    case True
    then have sy: "synced (lw_dest w2)" "accepted (lw_dest w2) = accepted (lw_dest w) @ replicate (block_pad p) 0 @ phys ?t (take n d)"
      using em v(2) by auto
    have "AddRecord_loop append flush w2 (ptr + of_nat n) (drop n d) False = (w', s)"
      using r True by (simp add: status_ok_def)
    from IH [OF n_def, folded q_def, OF _ sy(1) at this] True frags sy(2) show ?thesis
      by (auto simp: q_def ac_simps)
  next
    case False
    then have w': "w' = w2" "s = s2" using r by (auto simp: status_ok_def split: if_splits)
    have pre: "prefix (written (lw_dest w2)) (accepted (lw_dest w) @ log_frags p begin d)"
      using em unfolding frags v(2) by (metis append_assoc prefix_prefix)
    have "s = Status_OK \<Longrightarrow> n = length d" using False n(1) w' by auto
    then show ?thesis using pre em at v(2) w' frags by (auto simp: q_def ac_simps)
  qed
qed

end

text \<open>A sequence of records, up to the first that fails.\<close>

primrec AddRecords ::
  "('f \<Rightarrow> byte list \<Rightarrow> 'f \<times> status) \<Rightarrow> ('f \<Rightarrow> 'f \<times> status) \<Rightarrow> (addr \<times> byte list) list \<Rightarrow> 'f log_writer \<Rightarrow>
    'f log_writer \<times> status" where
  "AddRecords put flush [] w = (w, Status_OK)"
| "AddRecords put flush (r # rs) w =
    (case AddRecord put flush w (fst r) (snd r) of
       (w, s) \<Rightarrow> if status_ok s then AddRecords put flush rs w else (w, s))"

context log_file
begin

lemma AddRecords_writes:
  assumes "synced (lw_dest w)" "writer_at p w" "AddRecords append flush rs w = (w', s)"
  shows "prefix (written (lw_dest w')) (accepted (lw_dest w) @ log_bytes p (map snd rs)) \<and>
    (s = Status_OK \<longrightarrow> synced (lw_dest w') \<and> accepted (lw_dest w') = accepted (lw_dest w) @ log_bytes p (map snd rs))"
  using assms
proof (induction rs arbitrary: w p)
  case Nil
  then show ?case by (auto simp: synced_def)
next
  case (Cons r rs)
  obtain w1 s1 where a: "AddRecord append flush w (fst r) (snd r) = (w1, s1)" by fastforce
  note one = AddRecord_loop_writes [OF Cons.prems(1,2) a [unfolded AddRecord_def]]
  show ?case
  proof (cases "s1 = Status_OK")
    case True
    then show ?thesis
      using Cons.IH [of w1 "p + length (log_frags p True (snd r))"] one a Cons.prems(3) by (auto simp: status_ok_def)
  next
    case False
    then have "w' = w1" "s = s1" using a Cons.prems(3) by (auto simp: status_ok_def)
    then show ?thesis using one False by (metis append_assoc log_bytes.simps(2) list.simps(9) prefix_prefix)
  qed
qed

end

interpretation lf: log_file PosixWritableFile_Append PosixWritableFile_Flush pw_accepted pw_written "\<lambda>f. True"
proof unfold_locales
  fix f d assume "pw_written f = pw_accepted f" "length (d :: byte list) < kHeaderSize"
  then show "\<exists>f'. PosixWritableFile_Append f d = (f', Status_OK)"
    by (simp add: pw_written_def pw_accepted_def PosixWritableFile_Append_def kWritableFileBufferSize_def
        kHeaderSize_def Let_def)
qed

end
