(* ===== verification/Lv_Log_Reads.thy ===== *)
theory Lv_Log_Reads
  imports Lv_Log_Writes
begin

text \<open>
  The reader of leveldb on a log: on a whole fragment, on one that is cut off, and on the records of a log.
\<close>

section \<open>The reader on a log\<close>

definition block_ceil :: "nat \<Rightarrow> nat" where
  "block_ceil q = (q + (kBlockSize - 1)) div kBlockSize * kBlockSize"

lemma block_ceil_split:
  obtains m o' where "q = m * kBlockSize + o'" "o' < kBlockSize" "q mod kBlockSize = o'"
    "block_ceil q = (if o' = 0 then q else m * kBlockSize + kBlockSize)"
proof -
  have bs: "kBlockSize = 32768" by (simp add: kBlockSize_def)
  let ?m = "q div kBlockSize" and ?o = "q mod kBlockSize"
  have q: "q = ?m * kBlockSize + ?o" "?o < kBlockSize" by (simp_all add: bs)
  have y: "(?o + 32767) div 32768 = (if ?o = 0 then 0 else 1)" using q(2) unfolding bs by (auto intro!: div_nat_eqI)
  have "q + 32767 = ?m * 32768 + (?o + 32767)" using q(1) unfolding bs by simp
  then have "(q + 32767) div 32768 = ?m + (?o + 32767) div 32768" by (metis div_mult_self3 zero_neq_numeral)
  then have "block_ceil q = (if ?o = 0 then q else ?m * kBlockSize + kBlockSize)"
    unfolding y using q(1) by (cases "?o = 0") (simp_all add: block_ceil_def bs)
  then show ?thesis using q that by blast
qed

lemma block_ceil_ge: "q \<le> block_ceil q"
  by (rule block_ceil_split [of q]) auto

lemma block_ceil_pad:
  "block_ceil q - q < kHeaderSize \<Longrightarrow> block_pad q = block_ceil q - q"
  "kHeaderSize \<le> block_ceil q - q \<Longrightarrow> block_pad q = 0"
  by (rule block_ceil_split [of q], auto simp: block_pad_def kBlockSize_def kHeaderSize_def split: if_splits)+

lemma block_ceil_next:
  assumes "q mod kBlockSize + x \<le> kBlockSize" "0 < x"
  shows "block_ceil (q + x) = q div kBlockSize * kBlockSize + kBlockSize"
proof -
  have bs: "kBlockSize = 32768" by (simp add: kBlockSize_def)
  have "q + x + 32767 = q div 32768 * 32768 + (q mod 32768 + x + 32767)" by simp
  moreover have "(q mod 32768 + x + 32767) div 32768 = 1" using assms unfolding bs by simp
  ultimately have "(q + x + 32767) div 32768 = q div 32768 + 1" by (metis div_mult_self3 zero_neq_numeral add.commute)
  then show ?thesis by (simp add: block_ceil_def bs)
qed

text \<open>Where the next physical record lies: in this block, or at the start of the next one.\<close>

lemma next_in_block:
  assumes "kHeaderSize \<le> block_ceil q - q"
  shows "block_pad q = 0" "q div kBlockSize * kBlockSize + kBlockSize = block_ceil q"
  using assms by (rule_tac [!] block_ceil_split [of q], auto simp: block_pad_def kBlockSize_def kHeaderSize_def split: if_splits)

lemma next_in_next_block:
  assumes "\<not> kHeaderSize \<le> block_ceil q - q"
  shows "q + block_pad q = block_ceil q" "block_ceil q mod kBlockSize = 0"
    "block_ceil q div kBlockSize * kBlockSize + kBlockSize = block_ceil q + kBlockSize"
proof -
  show m: "block_ceil q mod kBlockSize = 0" by (simp add: block_ceil_def)
  then show "block_ceil q div kBlockSize * kBlockSize + kBlockSize = block_ceil q + kBlockSize"
    by (metis add_0_right div_mult_mod_eq)
  show "q + block_pad q = block_ceil q"
    using assms by (rule_tac block_ceil_split [of q], auto simp: block_pad_def kBlockSize_def kHeaderSize_def split: if_splits)
qed

definition parsed :: "'f log_reader \<Rightarrow> nat \<Rightarrow> 'f log_reader" where
  "parsed r n = r\<lparr>lr_buffer := drop n (lr_buffer r), lr_data := lr_data r + of_nat n\<rparr>"

lemma phys_length_field:
  assumes "n < 65536"
  shows "unat ((ucast (of_nat (n mod 256) :: byte) AND 0xff :: u32) OR push_bit 8 (ucast (of_nat (n div 256) :: byte) AND 0xff)) = n"
proof -
  have "(ucast (of_nat (n mod 256) :: byte) :: u32) = of_nat (n mod 256)"
    "(ucast (of_nat (n div 256) :: byte) :: u32) = of_nat (n div 256)"
    using assms by (simp_all add: ucast_of_nat_byte)
  moreover have "((of_nat (n mod 256) :: u32) AND 0xff) OR push_bit 8 (of_nat (n div 256) AND 0xff) = of_nat n"
  proof (rule bit_word_eqI)
    fix k assume k: "k < LENGTH(32)"
    have n: "n = take_bit 16 n" using assms by (simp add: take_bit_nat_eq_self)
    have *: "n mod 256 = take_bit 8 n" "n div 256 = drop_bit 8 n" by (simp_all add: take_bit_eq_mod drop_bit_eq_div)
    have "bit n k \<Longrightarrow> k < 16" using bit_take_bit_iff [of 16 n k] n by simp
    then show "bit (((of_nat (n mod 256) :: u32) AND 0xff) OR push_bit 8 (of_nat (n div 256) AND 0xff)) k \<longleftrightarrow> bit (of_nat n :: u32) k"
      using k unfolding * by (auto simp: bit_simps bit_of_nat_iff simp del: push_bit_and)
  qed
  ultimately show ?thesis using assms by (simp add: unat_of_nat)
qed

lemma phys_nth:
  "phys t d ! 4 = of_nat (length d mod 256)" "phys t d ! 5 = of_nat (length d div 256)" "phys t d ! 6 = ucast t"
  "drop 7 (phys t d) = d" "drop 6 (phys t d) = ucast t # d"
  "take 4 (phys t d) = EncodeFixed32 (crc32c_Mask (crc_spec 0 (ucast t # d)))"
  by (simp_all add: phys_def nth_append)

lemma scast_ucast_small: "unat t < 128 \<Longrightarrow> (scast (ucast t :: byte) :: u32) = t" for t :: u32
  using unat_less_exp_iff [of t 7] by (intro bit_word_eqI) (auto simp: bit_simps min_def)

lemma parse_record_phys:
  assumes b: "lr_buffer r = phys t d @ rest" and t: "0 < unat t" "unat t \<le> 4"
    and d: "length d < 65536" and i: "lr_initial_offset r = 0"
  shows "parse_record r fragment = (t, parsed r (kHeaderSize + length d), d)"
proof -
  let ?h = "phys t d @ rest"
  have nth: "?h ! 4 = of_nat (length d mod 256)" "?h ! 5 = of_nat (length d div 256)" "?h ! 6 = ucast t"
    by (simp_all add: nth_append phys_nth kHeaderSize_def)
  have len: "unat ((ucast (?h ! 4) AND 0xff :: u32) OR push_bit 8 (ucast (?h ! 5) AND 0xff)) = length d"
    unfolding nth by (rule phys_length_field [OF d])
  have ty: "scast (?h ! 6) = t"
    unfolding nth by (rule scast_ucast_small) (use t in simp)
  have t0: "t \<noteq> kZeroType" using t by (auto simp: kZeroType_def)
  have dec: "DecodeFixed32 ?h = crc32c_Mask (crc_spec 0 (ucast t # d))" by (simp add: phys_def)
  have crc: "crc32c_Value a (take (1 + length d) (drop 6 ?h)) = crc32c_Unmask (DecodeFixed32 ?h)" for a
    using phys_nth(5) [of t d] by (simp add: crc32c_Value_def Extend_crc_spec kHeaderSize_def dec)
  show ?thesis
    unfolding parse_record_def Let_def b len ty crc
    using t0 i b by (simp add: parsed_def phys_nth kHeaderSize_def)
qed

lemma parse_record_cut:
  assumes b: "lr_buffer r = take k (phys t d)" "kHeaderSize \<le> k" "k < kHeaderSize + length d"
    and d: "length d < 65536" and e: "lr_eof r"
  shows "parse_record r fragment = (kEof, r\<lparr>lr_buffer := []\<rparr>, fragment)"
proof -
  have nth: "take k (phys t d) ! 4 = of_nat (length d mod 256)" "take k (phys t d) ! 5 = of_nat (length d div 256)"
    using b(2) by (simp_all add: phys_nth kHeaderSize_def)
  show ?thesis
    unfolding parse_record_def Let_def b(1) nth phys_length_field [OF d]
    using b e by simp
qed

context sequential_file
begin

definition reader_at :: "byte list \<Rightarrow> nat \<Rightarrow> 'f log_reader \<Rightarrow> bool" where
  "reader_at F q r \<longleftrightarrow> (let B = min (length F) (block_ceil q) in
     q \<le> length F \<and> calm (lr_file r) \<and> ahead (lr_file r) = drop B F \<and> lr_buffer r = take (B - q) (drop q F) \<and>
     (if lr_eof r then length F \<le> block_ceil q else block_ceil q \<le> length F) \<and>
     lr_initial_offset r = 0 \<and> \<not> lr_resyncing r)"

lemma refill_reads:
  assumes "calm (lr_file r)"
  shows "\<exists>r'. refill read r = (r', Status_OK) \<and> calm (lr_file r') \<and> ahead (lr_file r') = drop kBlockSize (ahead (lr_file r)) \<and>
    lr_buffer r' = take kBlockSize (ahead (lr_file r)) \<and> lr_eof r' = lr_eof r \<and> lr_reports r' = lr_reports r \<and>
    lr_initial_offset r' = lr_initial_offset r \<and> lr_resyncing r' = lr_resyncing r"
  using read_calm [OF assms, of kBlockSize] by (auto simp: refill_def Let_def)

lemma reader_atI:
  assumes "q \<le> length F" "calm (lr_file r)" "ahead (lr_file r) = drop (min (length F) (block_ceil q)) F"
    "lr_buffer r = take (block_ceil q - q) (drop q F)"
    "if lr_eof r then length F \<le> block_ceil q else block_ceil q \<le> length F" "lr_initial_offset r = 0" "\<not> lr_resyncing r"
  shows "reader_at F q r"
proof -
  have "take (block_ceil q - q) (drop q F) = take (min (length F) (block_ceil q) - q) (drop q F)"
    by (cases "length F \<le> block_ceil q") (simp_all add: min_def)
  then show ?thesis using assms by (simp add: reader_at_def Let_def)
qed

lemma reader_atD:
  assumes "reader_at F q r"
  shows "q \<le> length F" "calm (lr_file r)" "ahead (lr_file r) = drop (min (length F) (block_ceil q)) F"
    "lr_buffer r = take (block_ceil q - q) (drop q F)"
    "if lr_eof r then length F \<le> block_ceil q else block_ceil q \<le> length F" "lr_initial_offset r = 0" "\<not> lr_resyncing r"
proof -
  have "take (block_ceil q - q) (drop q F) = take (min (length F) (block_ceil q) - q) (drop q F)"
    by (cases "length F \<le> block_ceil q") (simp_all add: min_def)
  then show "lr_buffer r = take (block_ceil q - q) (drop q F)" using assms by (simp add: reader_at_def Let_def)
qed (use assms in \<open>auto simp: reader_at_def Let_def\<close>)

text \<open>
  Before it parses, the reader stands at the start of the next physical record, with the rest of its block in the
  buffer; \<open>E\<close> is the end of that block.
\<close>

definition parse_at :: "byte list \<Rightarrow> nat \<Rightarrow> 'f log_reader \<Rightarrow> bool" where
  "parse_at F q r \<longleftrightarrow> (let E = q div kBlockSize * kBlockSize + kBlockSize in
     q \<le> length F \<and> calm (lr_file r) \<and> ahead (lr_file r) = drop (min (length F) E) F \<and>
     lr_buffer r = take (E - q) (drop q F) \<and>
     (if lr_eof r then length F \<le> E else E \<le> length F) \<and> lr_initial_offset r = 0 \<and> \<not> lr_resyncing r)"

lemma ReadPhysicalRecord_ready:
  "(length (lr_buffer r) < kHeaderSize \<Longrightarrow> lr_eof r) \<Longrightarrow> ReadPhysicalRecord read r fragment =
      (if length (lr_buffer r) < kHeaderSize then (kEof, r\<lparr>lr_buffer := []\<rparr>, fragment) else parse_record r fragment)"
  by (subst ReadPhysicalRecord.simps) auto

lemma ReadPhysicalRecord_position:
  assumes r: "reader_at F q r" and q: "q + block_pad q \<le> length F"
  shows "\<exists>r'. parse_at F (q + block_pad q) r' \<and> lr_reports r' = lr_reports r \<and>
    ReadPhysicalRecord read r fragment =
      (if length (lr_buffer r') < kHeaderSize then (kEof, r'\<lparr>lr_buffer := []\<rparr>, fragment) else parse_record r' fragment)"
proof (cases "kHeaderSize \<le> block_ceil q - q")
  case True
  note R = reader_atD [OF r] and Q = next_in_block [OF True]
  have "parse_at F (q + block_pad q) r" using R Q by (simp add: parse_at_def)
  moreover have "lr_eof r" if "length (lr_buffer r) < kHeaderSize"
    using that R True by (auto split: if_splits)
  ultimately show ?thesis using ReadPhysicalRecord_ready [of r] by blast
next
  case False
  note R = reader_atD [OF r] and Q = next_in_next_block [OF False]
  have short: "length (lr_buffer r) < kHeaderSize" using False R(4) by simp
  show ?thesis
  proof (cases "lr_eof r")
    case True
    then have F: "length F = block_ceil q" using R(5) q Q by simp
    let ?r = "r\<lparr>lr_buffer := []\<rparr>"
    have "parse_at F (q + block_pad q) ?r"
      using R F True unfolding parse_at_def Q by simp
    then show ?thesis using short True
      by (intro exI [of _ ?r]) (simp add: ReadPhysicalRecord.simps [of read r] kHeaderSize_def)
  next
    case eof: False
    obtain r' where r': "refill read r = (r', Status_OK)" "calm (lr_file r')"
      "ahead (lr_file r') = drop kBlockSize (ahead (lr_file r))" "lr_buffer r' = take kBlockSize (ahead (lr_file r))"
      "lr_eof r' = lr_eof r" "lr_reports r' = lr_reports r" "lr_initial_offset r' = lr_initial_offset r"
      "lr_resyncing r' = lr_resyncing r"
      using refill_reads [OF R(2)] by auto
    define r2 where "r2 = (if length (lr_buffer r') < kBlockSize then r'\<lparr>lr_eof := True\<rparr> else r')"
    have ah: "ahead (lr_file r) = drop (block_ceil q) F" using R(3,5) eof by simp
    have "parse_at F (q + block_pad q) r2"
      using r' ah R(6,7) eof q unfolding parse_at_def Q r2_def
      by (auto simp: min_def ac_simps Let_def)
    moreover have "lr_eof r2" if "length (lr_buffer r2) < kHeaderSize"
      using that by (auto simp: r2_def kBlockSize_def kHeaderSize_def split: if_splits)
    moreover have "ReadPhysicalRecord read r fragment = ReadPhysicalRecord read r2 fragment"
      using short eof r'(1) unfolding r2_def by (subst ReadPhysicalRecord.simps) (simp add: status_ok_def)
    moreover have "lr_reports r2 = lr_reports r" using r'(6) by (simp add: r2_def)
    ultimately show ?thesis using ReadPhysicalRecord_ready [of r2] by metis
  qed
qed

lemma read_phys:
  assumes r: "reader_at F q r" and F: "drop (q + block_pad q) F = phys t d @ rest"
    and fits: "(q + block_pad q) mod kBlockSize + kHeaderSize + length d \<le> kBlockSize"
    and q: "q + block_pad q \<le> length F"
    and t: "0 < unat t" "unat t \<le> 4"
  shows "\<exists>r'. ReadPhysicalRecord read r fragment = (t, r', d) \<and>
    reader_at F (q + block_pad q + kHeaderSize + length d) r' \<and> lr_reports r' = lr_reports r"
proof -
  let ?q = "q + block_pad q" and ?n = "kHeaderSize + length d"
  let ?E = "?q div kBlockSize * kBlockSize + kBlockSize"
  obtain r1 where r1: "parse_at F ?q r1" "lr_reports r1 = lr_reports r"
    "ReadPhysicalRecord read r fragment =
      (if length (lr_buffer r1) < kHeaderSize then (kEof, r1\<lparr>lr_buffer := []\<rparr>, fragment) else parse_record r1 fragment)"
    using ReadPhysicalRecord_position [OF r q] by blast
  have n: "?n \<le> ?E - ?q"
    using fits div_mult_mod_eq [of ?q kBlockSize] by linarith
  have E: "block_ceil (?q + ?n) = ?E"
    using fits by (intro block_ceil_next) (auto simp: kHeaderSize_def)
  have b: "lr_buffer r1 = phys t d @ take (?E - (?q + ?n)) rest"
    using r1(1) n F by (simp add: parse_at_def Let_def)
  have d: "length d < 65536" using fits by (simp add: kBlockSize_def)
  have i: "lr_initial_offset r1 = 0" using r1(1) by (simp add: parse_at_def Let_def)
  have rest: "drop (?q + ?n) F = rest"
    using F by (metis append_eq_conv_conj drop_drop length_phys add.commute)
  have "reader_at F (?q + ?n) (parsed r1 ?n)"
  proof (rule reader_atI)
    show "?q + ?n \<le> length F" using arg_cong [OF F, of length] q by simp
    show "lr_buffer (parsed r1 ?n) = take (block_ceil (?q + ?n) - (?q + ?n)) (drop (?q + ?n) F)"
      unfolding E rest parsed_def by (simp add: b)
  qed (use r1(1) b in \<open>auto simp: parse_at_def Let_def E parsed_def\<close>)
  then have "reader_at F (q + block_pad q + kHeaderSize + length d) (parsed r1 ?n)" by (simp add: add.assoc)
  moreover have "\<not> length (lr_buffer r1) < kHeaderSize" using b by simp
  moreover have "lr_reports (parsed r1 ?n) = lr_reports r" using r1(2) by (simp add: parsed_def)
  ultimately show ?thesis using r1(3) parse_record_phys [OF b t d i, of fragment] by auto
qed

lemma read_cut:
  assumes r: "reader_at F q r" and F: "drop q F = take k (replicate (block_pad q) 0 @ phys t d)"
    and k: "k < block_pad q + kHeaderSize + length d"
    and fits: "(q + block_pad q) mod kBlockSize + kHeaderSize + length d \<le> kBlockSize"
  shows "\<exists>r'. ReadPhysicalRecord read r fragment = (kEof, r', fragment) \<and> lr_reports r' = lr_reports r \<and> \<not> lr_resyncing r'"
proof (cases "q + block_pad q \<le> length F")
  case True
  let ?q = "q + block_pad q"
  let ?E = "?q div kBlockSize * kBlockSize + kBlockSize"
  obtain r1 where r1: "parse_at F ?q r1" "lr_reports r1 = lr_reports r"
    "ReadPhysicalRecord read r fragment =
      (if length (lr_buffer r1) < kHeaderSize then (kEof, r1\<lparr>lr_buffer := []\<rparr>, fragment) else parse_record r1 fragment)"
    using ReadPhysicalRecord_position [OF r True] by blast
  have len: "length F = q + k" using arg_cong [OF F, of length] k reader_atD(1) [OF r] by simp
  have E: "?q + kHeaderSize + length d \<le> ?E"
    using fits div_mult_mod_eq [of ?q kBlockSize] by linarith
  have "drop ?q F = drop (block_pad q) (drop q F)" by (simp add: add.commute)
  also have "\<dots> = take (k - block_pad q) (phys t d)" unfolding F using len True by (simp add: drop_take)
  finally have "drop ?q F = take (k - block_pad q) (phys t d)" .
  then have b: "lr_buffer r1 = take (k - block_pad q) (phys t d)"
    using r1(1) E k by (auto simp: parse_at_def Let_def)
  have "lr_eof r1" using r1(1) len k E by (auto simp: parse_at_def Let_def split: if_splits)
  moreover have "length d < 65536" using fits by (simp add: kBlockSize_def)
  moreover have "\<not> lr_resyncing r1" using r1(1) by (simp add: parse_at_def Let_def)
  moreover have kk: "k - block_pad q < kHeaderSize + length d" using k unfolding kHeaderSize_def by arith
  moreover have "length (lr_buffer r1) = k - block_pad q" using b kk by simp
  ultimately show ?thesis
    using r1(2,3) parse_record_cut [OF b, of fragment] by (cases "k - block_pad q < kHeaderSize") simp_all
next
  case False
  have "block_pad q \<noteq> 0" using False reader_atD(1) [OF r] by (cases "block_pad q = 0") auto
  then have small: "\<not> kHeaderSize \<le> block_ceil q - q" using next_in_block(1) [of q] by auto
  note R = reader_atD [OF r] and Q = next_in_next_block [OF small]
  have "lr_eof r" using R(5) Q False by (auto split: if_splits)
  moreover have "length (lr_buffer r) < kHeaderSize" using R(4) small by simp
  ultimately show ?thesis using R(7) by (subst ReadPhysicalRecord.simps) simp
qed

end

section \<open>Reading a log back\<close>

text \<open>
  The loop of \<open>DBImpl::RecoverLogFile\<close> over \<open>ReadRecord\<close>: every record up to the first call that returns
  false.
\<close>

partial_function (option) ReadAll ::
  "('f \<Rightarrow> nat \<Rightarrow> 'f \<times> status \<times> byte list option) \<Rightarrow> ('f \<Rightarrow> u64 \<Rightarrow> 'f \<times> status) \<Rightarrow> 'f log_reader \<Rightarrow>
    byte list \<Rightarrow> byte list list \<Rightarrow> ('f log_reader \<times> byte list list) option" where
  "ReadAll read skip r scratch found =
    Option.bind (ReadRecord read skip r scratch) (\<lambda>res.
      case snd (snd res) of
        None \<Rightarrow> Some (fst res, found)
      | Some record \<Rightarrow> ReadAll read skip (fst res) (fst (snd res)) (found @ [record]))"

text \<open>A run of \<open>ReadRecord\<close> that returns \<open>ds\<close>, one by one, and then false, without any report.\<close>

inductive reads_records ::
  "('f \<Rightarrow> nat \<Rightarrow> 'f \<times> status \<times> byte list option) \<Rightarrow> ('f \<Rightarrow> u64 \<Rightarrow> 'f \<times> status) \<Rightarrow> 'f log_reader \<Rightarrow>
    byte list \<Rightarrow> byte list list \<Rightarrow> 'f log_reader \<Rightarrow> bool" for read skip where
  reads_end: "ReadRecord read skip r sc = Some (r', sc', None) \<Longrightarrow> lr_reports r' = lr_reports r \<Longrightarrow>
    reads_records read skip r sc [] r'"
| reads_more: "ReadRecord read skip r sc = Some (r1, sc1, Some d) \<Longrightarrow> lr_reports r1 = lr_reports r \<Longrightarrow>
    reads_records read skip r1 sc1 ds r' \<Longrightarrow> reads_records read skip r sc (d # ds) r'"

lemma reads_ReadAll:
  "reads_records read skip r sc ds r' \<Longrightarrow>
    ReadAll read skip r sc found = Some (r', found @ ds) \<and> lr_reports r' = lr_reports r"
proof (induction arbitrary: found rule: reads_records.induct)
  case (reads_end r sc r' sc')
  then show ?case by (subst ReadAll.simps) simp
next
  case (reads_more r sc r1 sc1 d ds r')
  then show ?case by (subst ReadAll.simps) simp
qed

lemma fragment_type_range: "0 < unat (fragment_type b e)" "unat (fragment_type b e) \<le> 4"
  by (simp_all add: fragment_type_def kFullType_def kFirstType_def kLastType_def kMiddleType_def)

lemmas record_types = kFullType_def kFirstType_def kMiddleType_def kLastType_def kMaxRecordType_def kEof_def
  kBadRecord_def

text \<open>A turn of the loop on a fragment that is where it belongs.\<close>

lemma record_read_last:
  assumes "ReadPhysicalRecord read r (rl_fragment l) = (fragment_type b True, r1, d)" "\<not> lr_resyncing r1"
    "rl_in_fragmented l \<longleftrightarrow> \<not> b"
  shows "\<exists>x. record_read read r l = Inr (r1\<lparr>lr_last_record_offset := x\<rparr>, (if b then [] else rl_scratch l @ d),
    Some ((if b then [] else rl_scratch l) @ d))"
  using assms(2,3) unfolding record_read_def assms(1)
  by (cases b) (auto simp: record_turn_def record_switch_def fragment_type_def record_types Let_def partial_report_def)

lemma record_read_more:
  assumes "ReadPhysicalRecord read r (rl_fragment l) = (fragment_type b False, r1, d)" "\<not> lr_resyncing r1"
    "rl_in_fragmented l \<longleftrightarrow> \<not> b"
  shows "\<exists>l'. record_read read r l = Inl (r1, l') \<and> rl_in_fragmented l' \<and>
    rl_scratch l' = (if b then [] else rl_scratch l) @ d"
  using assms(2,3) unfolding record_read_def assms(1)
  by (cases b) (auto simp: record_turn_def record_switch_def fragment_type_def record_types Let_def partial_report_def)

lemma record_turn_eof:
  "\<not> lr_resyncing r \<Longrightarrow> \<exists>sc. record_turn kEof r l = Inr (r, sc, None)"
  by (auto simp: record_turn_def record_switch_def record_types Let_def)

context sequential_file
begin

lemma reader_at_last_offset [simp]: "reader_at F q (r\<lparr>lr_last_record_offset := x\<rparr>) = reader_at F q r"
  by (simp add: reader_at_def)

lemma ReadRecord_loop_frags:
  assumes "reader_at F q r" "q + length (log_frags q b d) \<le> length F" "drop q F = log_frags q b d @ rest"
    "rl_in_fragmented l \<longleftrightarrow> \<not> b"
  shows "\<exists>r' sc. ReadRecord_loop read r l = Some (r', sc, Some ((if b then [] else rl_scratch l) @ d)) \<and>
    reader_at F (q + length (log_frags q b d)) r' \<and> lr_reports r' = lr_reports r"
  using assms
proof (induction q b d arbitrary: r l rule: log_frags.induct)
  case (1 q b d)
  define n where "n = frag_len q d"
  define p where "p = q + block_pad q"
  let ?t = "fragment_type b (n = length d)"
  let ?more = "if n < length d then log_frags (p + kHeaderSize + n) False (drop n d) else []"
  have n: "n \<le> length d" "p mod kBlockSize + kHeaderSize + length (take n d) \<le> kBlockSize"
    using frag_len_le [of q d] by (auto simp: n_def p_def)
  have frags: "log_frags q b d = replicate (block_pad q) 0 @ phys ?t (take n d) @ ?more"
    by (subst log_frags.simps) (simp add: Let_def n_def p_def)
  have len: "q + length (log_frags q b d) = p + kHeaderSize + n + length ?more"
    using n(1) by (simp add: frags p_def)
  have "drop p F = drop (block_pad q) (drop q F)" by (simp add: p_def add.commute)
  then have dp: "drop p F = phys ?t (take n d) @ ?more @ rest" using "1.prems"(3) by (simp add: frags)
  have "p \<le> length F" using "1.prems"(2) len by simp
  from read_phys [OF "1.prems"(1), folded p_def, OF dp n(2) this fragment_type_range, of "rl_fragment l"] n(1)
  obtain r1 where r1: "ReadPhysicalRecord read r (rl_fragment l) = (?t, r1, take n d)"
    "reader_at F (p + kHeaderSize + n) r1" "lr_reports r1 = lr_reports r" by auto
  have "\<not> lr_resyncing r1" using r1(2) by (rule reader_atD)
  note nr = this
  show ?case
  proof (cases "n = length d")
    case True
    have "ReadPhysicalRecord read r (rl_fragment l) = (fragment_type b True, r1, take n d)" using r1(1) True by simp
    from record_read_last [OF this nr "1.prems"(4)] obtain x where turn: "record_read read r l =
      Inr (r1\<lparr>lr_last_record_offset := x\<rparr>, (if b then [] else rl_scratch l @ take n d),
          Some ((if b then [] else rl_scratch l) @ take n d))" by blast
    let ?r = "r1\<lparr>lr_last_record_offset := x\<rparr>"
    have "reader_at F (q + length (log_frags q b d)) ?r" using r1(2) len True by simp
    moreover have "lr_reports ?r = lr_reports r" using r1(3) by simp
    moreover have "ReadRecord_loop read r l =
        Some (?r, (if b then [] else rl_scratch l @ take n d), Some ((if b then [] else rl_scratch l) @ d))"
      using turn True by (subst ReadRecord_loop.simps) simp
    ultimately show ?thesis by blast
  next
    case False
    then have less: "n < length d" using n(1) by simp
    have "ReadPhysicalRecord read r (rl_fragment l) = (fragment_type b False, r1, take n d)" using r1(1) False by simp
    from record_read_more [OF this nr "1.prems"(4)] obtain l' where turn: "record_read read r l = Inl (r1, l')"
      and l': "rl_in_fragmented l'" "rl_scratch l' = (if b then [] else rl_scratch l) @ take n d" by blast
    have more: "?more = log_frags (p + kHeaderSize + n) False (drop n d)" using less by simp
    have "drop (p + kHeaderSize + n) F = drop (kHeaderSize + n) (drop p F)" by (simp add: ac_simps)
    also have "\<dots> = ?more @ rest" unfolding dp using n(1) by simp
    finally have d2: "drop (p + kHeaderSize + n) F = log_frags (p + kHeaderSize + n) False (drop n d) @ rest"
      using more by simp
    have "p + kHeaderSize + n + length (log_frags (p + kHeaderSize + n) False (drop n d)) \<le> length F"
      using "1.prems"(2) len more by simp
    from "1.IH" [OF n_def less, folded p_def, OF r1(2) this d2, of l'] l' len more r1(3)
    obtain r2 sc where "ReadRecord_loop read r1 l' = Some (r2, sc, Some ((if b then [] else rl_scratch l) @ take n d @ drop n d))"
      "reader_at F (q + length (log_frags q b d)) r2" "lr_reports r2 = lr_reports r" by auto
    then show ?thesis using turn False by (subst ReadRecord_loop.simps) simp
  qed
qed

lemma ReadRecord_loop_cut:
  assumes "reader_at F q r" "drop q F = take k (log_frags q b d)" "k < length (log_frags q b d)"
    "rl_in_fragmented l \<longleftrightarrow> \<not> b"
  shows "\<exists>r' sc. ReadRecord_loop read r l = Some (r', sc, None) \<and> lr_reports r' = lr_reports r"
  using assms
proof (induction q b d arbitrary: r l k rule: log_frags.induct)
  case (1 q b d)
  define n where "n = frag_len q d"
  define p where "p = q + block_pad q"
  let ?t = "fragment_type b (n = length d)"
  let ?more = "if n < length d then log_frags (p + kHeaderSize + n) False (drop n d) else []"
  have n: "n \<le> length d" "p mod kBlockSize + kHeaderSize + length (take n d) \<le> kBlockSize"
    using frag_len_le [of q d] by (auto simp: n_def p_def)
  have frags: "log_frags q b d = (replicate (block_pad q) 0 @ phys ?t (take n d)) @ ?more"
    by (subst log_frags.simps) (simp add: Let_def n_def p_def)
  show ?case
  proof (cases "k < block_pad q + kHeaderSize + length (take n d)")
    case True
    then have "drop q F = take k (replicate (block_pad q) 0 @ phys ?t (take n d))"
      using "1.prems"(2) unfolding frags by simp
    from read_cut [OF "1.prems"(1) this True, folded p_def, OF n(2), of "rl_fragment l"] obtain r1 where
      r1: "ReadPhysicalRecord read r (rl_fragment l) = (kEof, r1, rl_fragment l)" "lr_reports r1 = lr_reports r"
      "\<not> lr_resyncing r1" by blast
    from record_turn_eof [OF r1(3), of l] r1 show ?thesis
      by (subst ReadRecord_loop.simps) (auto simp: record_read_def)
  next
    case False
    define j where "j = k - (block_pad q + kHeaderSize + n)"
    have less: "n < length d" and j: "j < length ?more" "?more = log_frags (p + kHeaderSize + n) False (drop n d)"
      using False "1.prems"(3) n(1) unfolding frags j_def by (auto split: if_splits)
    have dq: "drop q F = replicate (block_pad q) 0 @ phys ?t (take n d) @ take j ?more"
      using "1.prems"(2) False n(1) unfolding frags by (simp add: j_def add.assoc)
    have lenF: "length F = q + k" using arg_cong [OF "1.prems"(2), of length] "1.prems"(3) reader_atD(1) [OF "1.prems"(1)] by simp
    have "drop p F = drop (block_pad q) (drop q F)" by (simp add: p_def add.commute)
    then have dp: "drop p F = phys ?t (take n d) @ take j ?more" by (simp add: dq)
    have "p \<le> length F" using lenF False by (simp add: p_def)
    from read_phys [OF "1.prems"(1), folded p_def, OF dp n(2) this fragment_type_range, of "rl_fragment l"] n(1)
    obtain r1 where r1: "ReadPhysicalRecord read r (rl_fragment l) = (?t, r1, take n d)"
      "reader_at F (p + kHeaderSize + n) r1" "lr_reports r1 = lr_reports r" by auto
    have nr: "\<not> lr_resyncing r1" using r1(2) by (rule reader_atD)
    have "ReadPhysicalRecord read r (rl_fragment l) = (fragment_type b False, r1, take n d)" using r1(1) less by simp
    from record_read_more [OF this nr "1.prems"(4)]
    obtain l' where turn: "record_read read r l = Inl (r1, l')" and l': "rl_in_fragmented l'" by blast
    have "drop (p + kHeaderSize + n) F = drop (kHeaderSize + n) (drop p F)" by (simp add: ac_simps)
    also have "\<dots> = take j ?more" unfolding dp using n(1) by simp
    finally have "drop (p + kHeaderSize + n) F = take j (log_frags (p + kHeaderSize + n) False (drop n d))"
      using j(2) by simp
    from "1.IH" [OF n_def less, folded p_def, OF r1(2) this, of l'] j l' r1(3)
    show ?thesis using turn by (subst ReadRecord_loop.simps) simp
  qed
qed

lemma log_reads:
  assumes "reader_at F q r" "drop q F = take k (log_bytes q rs)" "k \<le> length (log_bytes q rs)" "lr_last_record_offset r \<le> x"
  shows "\<exists>r' n. reads_records read skip r sc (take n rs) r' \<and>
    n \<le> length rs \<and> length (log_bytes q (take n rs)) \<le> k \<and>
    (n < length rs \<longrightarrow> k < length (log_bytes q (take (Suc n) rs)))"
  using assms(1-3)
proof (induction rs arbitrary: q r k sc)
  case Nil
  let ?l = "\<lparr>rl_scratch = [], rl_in_fragmented = False, rl_prospective = 0, rl_fragment = []\<rparr>"
  have "drop q F = take 0 (log_frags q True [])" using Nil by simp
  moreover have "0 < length (log_frags q True [])" by (subst log_frags.simps) (simp add: Let_def kHeaderSize_def)
  ultimately obtain r1 sc1 where "ReadRecord_loop read r ?l = Some (r1, sc1, None)" "lr_reports r1 = lr_reports r"
    using ReadRecord_loop_cut [OF Nil(1), of 0 True "[]" ?l] by auto
  moreover have "lr_initial_offset r = 0" using Nil(1) by (rule reader_atD)
  ultimately have "ReadRecord read skip r sc = Some (r1, sc1, None)" by (simp add: ReadRecord_def)
  then show ?case using reads_end [of read skip r sc r1 sc1] \<open>lr_reports r1 = lr_reports r\<close> by auto
next
  case (Cons d rs)
  let ?l = "\<lparr>rl_scratch = [], rl_in_fragmented = False, rl_prospective = 0, rl_fragment = []\<rparr>"
  have i: "lr_initial_offset r = 0" using Cons.prems(1) by (rule reader_atD)
  let ?m = "length (log_frags q True d)"
  show ?case
  proof (cases "k < ?m")
    case True
    then have "drop q F = take k (log_frags q True d)" using Cons.prems(2) by simp
    then obtain r1 sc1 where "ReadRecord_loop read r ?l = Some (r1, sc1, None)" "lr_reports r1 = lr_reports r"
      using ReadRecord_loop_cut [OF Cons.prems(1), of k True d ?l] True by auto
    then have "reads_records read skip r sc (take 0 (d # rs)) r1"
      using reads_end [of read skip r sc r1 sc1] i by (simp add: ReadRecord_def)
    then show ?thesis using True by (intro exI [of _ r1] exI [of _ 0]) simp
  next
    case False
    have d: "drop q F = log_frags q True d @ take (k - ?m) (log_bytes (q + ?m) rs)"
      using Cons.prems(2) False by simp
    have lenF: "length F = q + k"
      using arg_cong [OF Cons.prems(2), of length] Cons.prems(3) reader_atD(1) [OF Cons.prems(1)] by simp
    from ReadRecord_loop_frags [OF Cons.prems(1) _ d, of ?l] lenF False obtain r1 sc1 where
      r1: "ReadRecord_loop read r ?l = Some (r1, sc1, Some d)" "reader_at F (q + ?m) r1" "lr_reports r1 = lr_reports r"
      by auto
    have "drop (q + ?m) F = drop ?m (drop q F)" by (simp add: add.commute)
    also have "\<dots> = take (k - ?m) (log_bytes (q + ?m) rs)" unfolding d by simp
    finally have "drop (q + ?m) F = take (k - ?m) (log_bytes (q + ?m) rs)" .
    moreover have "k - ?m \<le> length (log_bytes (q + ?m) rs)" using Cons.prems(3) by simp
    ultimately obtain r' n where
      "reads_records read skip r1 sc1 (take n rs) r'"
      "n \<le> length rs" "length (log_bytes (q + ?m) (take n rs)) \<le> k - ?m"
      "n < length rs \<longrightarrow> k - ?m < length (log_bytes (q + ?m) (take (Suc n) rs))"
      using Cons.IH [OF r1(2), of "k - ?m" sc1] by auto
    moreover have "ReadRecord read skip r sc = Some (r1, sc1, Some d)" using i r1(1) by (simp add: ReadRecord_def)
    ultimately have "reads_records read skip r sc (take (Suc n) (d # rs)) r'" using reads_more r1(3) by fastforce
    then show ?thesis using False \<open>n \<le> length rs\<close> \<open>length (log_bytes (q + ?m) (take n rs)) \<le> k - ?m\<close>
        \<open>n < length rs \<longrightarrow> k - ?m < length (log_bytes (q + ?m) (take (Suc n) rs))\<close>
      by (intro exI [of _ r'] exI [of _ "Suc n"]) auto
  qed
qed

end

end
