(* ===== verification/Lv_Log_Facts.thy ===== *)
theory Lv_Log_Facts
  imports Lv_Log_Reads
begin

text \<open>
  The log of leveldb from the writer through the file to the reader: what was acknowledged is read back, wherever
  the file ends.
\<close>

section \<open>Writing, crashing and reading back\<close>

text \<open>Calls that are short or interrupted, but never fail, make every operation of the writer succeed.\<close>

lemma EmitPhysicalRecord_ok:
  assumes "\<And>f d. P f \<Longrightarrow> \<exists>f'. put f d = (f', Status_OK) \<and> P f'" "\<And>f. P f \<Longrightarrow> \<exists>f'. flush f = (f', Status_OK) \<and> P f'"
    and "P (lw_dest w)"
  shows "\<exists>w'. EmitPhysicalRecord put flush w t ptr d = (w', Status_OK) \<and> P (lw_dest w')"
proof -
  let ?h = "EncodeFixed32 (crc32c_Mask (crc32c_Extend ptr (lw_type_crc w ! unat t) d)) @
    [ucast ((of_nat (length d) :: u64) AND 0xff), ucast (drop_bit 8 (of_nat (length d) :: u64)), ucast t]"
  obtain f1 where 1: "put (lw_dest w) ?h = (f1, Status_OK)" "P f1" using assms(1) [OF assms(3)] by blast
  obtain f2 where 2: "put f1 d = (f2, Status_OK)" "P f2" using assms(1) [OF 1(2)] by blast
  obtain f3 where 3: "flush f2 = (f3, Status_OK)" "P f3" using assms(2) [OF 2(2)] by blast
  show ?thesis using 1 2 3 by (simp add: EmitPhysicalRecord_def Let_def status_ok_def)
qed

lemma AddRecord_loop_ok:
  assumes put: "\<And>f d. P f \<Longrightarrow> \<exists>f'. put f d = (f', Status_OK) \<and> P f'"
    and flush: "\<And>f. P f \<Longrightarrow> \<exists>f'. flush f = (f', Status_OK) \<and> P f'" and "P (lw_dest w)"
  shows "\<exists>w'. AddRecord_loop put flush w ptr d b = (w', Status_OK) \<and> P (lw_dest w')"
  using assms
proof (induction put flush w ptr d b rule: AddRecord_loop.induct)
  case (1 put flush w ptr left "begin")
  let ?w1 = "switch_block put w"
  define avail where "avail = kBlockSize - lw_block_offset ?w1 - kHeaderSize"
  define n where "n = (if length left < avail then length left else avail)"
  have "P (fst (put f d))" if "P f" for f d using "1.prems"(1) [OF that, of d] by auto
  then have "P (lw_dest ?w1)" using "1.prems"(3) by (simp add: switch_block_def Let_def)
  then have "\<exists>w2. EmitPhysicalRecord put flush ?w1 t p d = (w2, Status_OK) \<and> P (lw_dest w2)" for t p d
    by (rule EmitPhysicalRecord_ok [where P = P, rotated 2]) (fact "1.prems")+
  then obtain w2 where w2: "EmitPhysicalRecord put flush ?w1 (fragment_type begin (length left = n)) ptr (take n left) = (w2, Status_OK)"
    "P (lw_dest w2)" by blast
  have eq: "AddRecord_loop put flush w ptr left begin =
      (if drop n left \<noteq> [] then AddRecord_loop put flush w2 (ptr + of_nat n) (drop n left) False else (w2, Status_OK))"
    unfolding AddRecord_loop.simps [of put flush w] Let_def avail_def [symmetric] n_def [symmetric] w2(1)
    by (simp add: status_ok_def)
  show ?case
  proof (cases "drop n left = []")
    case True
    then show ?thesis using w2 eq by simp
  next
    case False
    from "1.IH" [OF refl avail_def n_def refl w2(1) [symmetric] refl _ "1.prems"(1,2) w2(2)] False show ?thesis
      unfolding eq by (simp add: status_ok_def)
  qed
qed

lemma AddRecords_ok:
  assumes put: "\<And>f d. P f \<Longrightarrow> \<exists>f'. put f d = (f', Status_OK) \<and> P f'"
    and flush: "\<And>f. P f \<Longrightarrow> \<exists>f'. flush f = (f', Status_OK) \<and> P f'" and "P (lw_dest w)"
  shows "\<exists>w'. AddRecords put flush rs w = (w', Status_OK) \<and> P (lw_dest w')"
  using assms(3)
proof (induction rs arbitrary: w)
  case (Cons r rs)
  obtain w1 where "AddRecord put flush w (fst r) (snd r) = (w1, Status_OK)" "P (lw_dest w1)"
    using AddRecord_loop_ok [of P put flush w, OF put flush Cons.prems] unfolding AddRecord_def by blast
  then show ?case using Cons.IH [of w1] by (simp add: status_ok_def)
qed simp

definition pw_calm :: "posix_writable \<Rightarrow> bool" where
  "pw_calm f \<longleftrightarrow> (\<forall>e. Io_fails e \<notin> set (kf_events (pw_fd f)))"

lemma WriteUnbuffered_loop_ok:
  "\<forall>e. Io_fails e \<notin> set (kf_events fd) \<Longrightarrow>
    \<exists>fd'. WriteUnbuffered_loop fn fd data = (fd', Status_OK) \<and> (\<forall>e. Io_fails e \<notin> set (kf_events fd'))"
proof (induction fn fd data rule: WriteUnbuffered_loop.induct)
  case (1 fn fd data)
  show ?case
  proof (cases "data = []")
    case False
    obtain fd1 r where w: "sys_write fd data = (fd1, r)" by (cases "sys_write fd data")
    then have c: "\<forall>e. Io_fails e \<notin> set (kf_events fd1)" and e: "r = Sys_errno e \<Longrightarrow> e = EINTR" for e
      using "1.prems" by (auto simp: sys_write_def Let_def split: list.splits io_event.splits)
    show ?thesis
    proof (cases r)
      case (Sys_ret n)
      then show ?thesis using "1.IH"(1) [OF False w [symmetric] Sys_ret c] False w
        by (subst WriteUnbuffered_loop.simps) simp
    next
      case (Sys_errno x)
      then show ?thesis using "1.IH"(2) [OF False w [symmetric] Sys_errno e [OF Sys_errno] c] False w e
        by (subst WriteUnbuffered_loop.simps) simp
    qed
  qed (use 1 in \<open>simp add: WriteUnbuffered_loop.simps\<close>)
qed

lemma FlushBuffer_ok: "pw_calm f \<Longrightarrow> \<exists>f'. FlushBuffer f = (f', Status_OK) \<and> pw_calm f'"
  using WriteUnbuffered_loop_ok [of "pw_fd f" "pw_filename f" "pw_buf f"]
  by (auto simp: FlushBuffer_def WriteUnbuffered_def pw_calm_def)

lemma WriteUnbuffered_ok: "pw_calm f \<Longrightarrow> \<exists>f'. WriteUnbuffered f d = (f', Status_OK) \<and> pw_calm f'"
  using WriteUnbuffered_loop_ok [of "pw_fd f" "pw_filename f" d]
  by (auto simp: WriteUnbuffered_def pw_calm_def)

lemma Append_ok: "pw_calm f \<Longrightarrow> \<exists>f'. PosixWritableFile_Append f d = (f', Status_OK) \<and> pw_calm f'"
proof -
  assume f: "pw_calm f"
  define g where "g = f\<lparr>pw_buf := pw_buf f @ take (min (length d) (kWritableFileBufferSize - length (pw_buf f))) d\<rparr>"
  have "pw_calm g" using f by (simp add: g_def pw_calm_def)
  then obtain h where h: "FlushBuffer g = (h, Status_OK)" "pw_calm h" using FlushBuffer_ok by blast
  then have "pw_calm (h\<lparr>pw_buf := x\<rparr>)" for x by (simp add: pw_calm_def)
  then show ?thesis using h WriteUnbuffered_ok [OF h(2)] \<open>pw_calm g\<close>
    unfolding PosixWritableFile_Append_def Let_def by (fold g_def) (auto simp: status_ok_def)
qed

lemma AddRecords_append:
  "AddRecords put flush rs w = (w1, Status_OK) \<Longrightarrow> AddRecords put flush (rs @ rs') w = AddRecords put flush rs' w1"
  by (induction rs arbitrary: w) (auto simp: status_ok_def split: prod.splits if_splits)

lemma log_bytes_append:
  "log_bytes p (rs @ rs') = log_bytes p rs @ log_bytes (p + length (log_bytes p rs)) rs'"
  by (induction rs arbitrary: p) (simp_all add: add.assoc)

text \<open>A reader of a prefix of the log, between what was acknowledged and what was written.\<close>

lemma log_recovery:
  assumes "pw_accepted f = []"
    and "AddRecords PosixWritableFile_Append PosixWritableFile_Flush rs (log_Writer a f) = (w, Status_OK)"
    and "AddRecords PosixWritableFile_Append PosixWritableFile_Flush rs' w = (w', s)"
    and "prefix (pw_written (lw_dest w)) (ps_ahead g)" "prefix (ps_ahead g) (pw_written (lw_dest w'))" "ps_calm g"
  shows "\<exists>r n. reads_records PosixSequentialFile_Read PosixSequentialFile_Skip (log_Reader g reporter checksum 0 b) sc
    (map snd rs @ take n (map snd rs')) r"
proof -
  let ?L = "log_bytes 0 (map snd (rs @ rs'))"
  have both: "AddRecords PosixWritableFile_Append PosixWritableFile_Flush (rs @ rs') (log_Writer a f) = (w', s)"
    using AddRecords_append [OF assms(2)] assms(3) by simp
  have w0: "lf.synced (lw_dest (log_Writer a f))" "writer_at 0 (log_Writer a f)"
    using assms(1) by (auto simp: lf.synced_def log_Writer_def pw_accepted_def pw_written_def writer_at_def)
  have 1: "pw_written (lw_dest w) = log_bytes 0 (map snd rs)"
    using lf.AddRecords_writes [OF w0 assms(2)] assms(1) by (auto simp: lf.synced_def log_Writer_def)
  have 2: "prefix (ps_ahead g) ?L"
    using lf.AddRecords_writes [OF w0 both] assms(1,5) by (auto simp: log_Writer_def dest: prefix_order.trans)
  let ?r = "log_Reader g reporter checksum 0 b"
  have k: "ps_ahead g = take (length (ps_ahead g)) ?L" "length (ps_ahead g) \<le> length ?L"
    using 2 by (auto simp: prefix_def)
  have "ps.reader_at (ps_ahead g) 0 ?r"
    using assms(6) by (auto simp: ps.reader_at_def log_Reader_def block_ceil_def kBlockSize_def)
  from ps.log_reads [OF this, of "length (ps_ahead g)" "map snd (rs @ rs')" "lr_last_record_offset ?r" sc] k
  obtain r n where r: "reads_records PosixSequentialFile_Read PosixSequentialFile_Skip ?r sc (take n (map snd (rs @ rs'))) r"
    and n: "n \<le> length (rs @ rs')"
    "n < length (rs @ rs') \<longrightarrow> length (ps_ahead g) < length (log_bytes 0 (take (Suc n) (map snd (rs @ rs'))))"
    by auto
  have "length rs \<le> n"
  proof (rule ccontr)
    assume "\<not> length rs \<le> n"
    then have "Suc n \<le> length rs" by simp
    then have "take (Suc n) (map snd (rs @ rs')) = take (Suc n) (map snd rs)" by simp
    then have "map snd rs = take (Suc n) (map snd (rs @ rs')) @ drop (Suc n) (map snd rs)"
      by (simp only: append_take_drop_id)
    then have "length (log_bytes 0 (take (Suc n) (map snd (rs @ rs')))) \<le> length (log_bytes 0 (map snd rs))"
      by (metis le_add1 length_append log_bytes_append)
    also have "\<dots> \<le> length (ps_ahead g)" using assms(4) 1 prefix_length_le by fastforce
    finally show False using n \<open>Suc n \<le> length rs\<close> by simp
  qed
  then have "take n (map snd (rs @ rs')) = map snd rs @ take (n - length rs) (map snd rs')" by simp
  then show ?thesis using r by metis
qed

text \<open>
  C4: what a log writer has acknowledged survives.  Records are added to a fresh file through \<open>PosixWritableFile\<close>,
  whose system calls may be short, interrupted or fail at any time; the first records are acknowledged, then more
  are added, the last of which may fail.  If the file then holds at least what was written when the first were
  acknowledged and at most what was written at the end -- the process may have crashed in between, in the middle
  of a header, of a fragment or of a trailer -- a reader returns the acknowledged records, in order, then some of
  the others, in order, and stops without reporting a corruption.
\<close>

theorem log_recovers:
  assumes "pw_accepted f = []"
    and "AddRecords PosixWritableFile_Append PosixWritableFile_Flush rs (log_Writer a f) = (w, Status_OK)"
    and "AddRecords PosixWritableFile_Append PosixWritableFile_Flush rs' w = (w', s)"
    and "prefix (pw_written (lw_dest w)) (ps_ahead g)" "prefix (ps_ahead g) (pw_written (lw_dest w'))" "ps_calm g"
  shows "\<exists>r n. ReadAll PosixSequentialFile_Read PosixSequentialFile_Skip (log_Reader g reporter checksum 0 b) sc [] =
    Some (r, map snd rs @ take n (map snd rs')) \<and> lr_reports r = []"
  using log_recovery [OF assms, of reporter checksum b sc] reads_ReadAll [where found = "[]"]
  by (fastforce simp: log_Reader_def)

text \<open>
  A file that is full after a few bytes, and the two records below: the first is acknowledged although the calls
  are short and interrupted, the second fails, and what the kernel has of it is cut off in the payload.
\<close>

lemma log_recovers_witness:
  "\<exists>w w' r n. AddRecords PosixWritableFile_Append PosixWritableFile_Flush [(0, [1, 2, 3])]
      (log_Writer 0 \<lparr>pw_buf = [], pw_fd = \<lparr>kf_bytes = [], kf_events = [Io_short 2, Io_interrupted], kf_strerror = \<lambda>_. []\<rparr>,
         pw_filename = ''MANIFEST-000001''\<rparr>) = (w, Status_OK) \<and>
    AddRecords PosixWritableFile_Append PosixWritableFile_Flush [(0, [4, 5])] w = (w', Status_OK) \<and>
    ReadAll PosixSequentialFile_Read PosixSequentialFile_Skip
      (log_Reader \<lparr>ps_fd = \<lparr>kf_bytes = pw_written (lw_dest w), kf_events = [Io_interrupted], kf_strerror = \<lambda>_. []\<rparr>,
         ps_filename = ''MANIFEST-000001''\<rparr> True True 0 0) [] [] = Some (r, [1, 2, 3] # take n [[4, 5]]) \<and> lr_reports r = []"
proof -
  let ?f = "\<lparr>pw_buf = [], pw_fd = \<lparr>kf_bytes = [], kf_events = [Io_short 2, Io_interrupted], kf_strerror = \<lambda>_. []\<rparr>,
         pw_filename = ''MANIFEST-000001''\<rparr>"
  note ok = AddRecords_ok [of pw_calm PosixWritableFile_Append PosixWritableFile_Flush,
      OF Append_ok FlushBuffer_ok [folded PosixWritableFile_Flush_def]]
  have "pw_calm (lw_dest (log_Writer 0 ?f))" by (simp add: log_Writer_def pw_calm_def)
  then obtain w where w: "AddRecords PosixWritableFile_Append PosixWritableFile_Flush [(0, [1, 2, 3])] (log_Writer 0 ?f) = (w, Status_OK)"
    "pw_calm (lw_dest w)" using ok by blast
  then obtain w' where w': "AddRecords PosixWritableFile_Append PosixWritableFile_Flush [(0, [4, 5])] w = (w', Status_OK)"
    using ok by blast
  have at: "lf.synced (lw_dest (log_Writer 0 ?f))" "writer_at 0 (log_Writer 0 ?f)"
    by (auto simp: lf.synced_def log_Writer_def pw_accepted_def pw_written_def writer_at_def)
  have grow: "prefix (pw_written (lw_dest w)) (pw_written (lw_dest w'))"
    using lf.AddRecords_writes [OF at w(1)] lf.AddRecords_writes [OF at trans [OF AddRecords_append [OF w(1)] w']]
    by (auto simp: lf.synced_def log_Writer_def pw_accepted_def log_bytes_append)
  show ?thesis
    using log_recovers [of ?f, OF _ w(1) w', of
        "\<lparr>ps_fd = \<lparr>kf_bytes = pw_written (lw_dest w), kf_events = [Io_interrupted], kf_strerror = \<lambda>_. []\<rparr>,
           ps_filename = ''MANIFEST-000001''\<rparr>" True True 0 "[]"] w(1) w' grow
    by (simp add: pw_accepted_def ps_ahead_def ps_calm_def)
qed

text \<open>The status of the \<open>Append\<close> that fills the trailer of a block is not looked at: whatever it is, the record goes on.\<close>

lemma trailer_status_ignored:
  assumes "0 < kBlockSize - lw_block_offset w" "kBlockSize - lw_block_offset w < kHeaderSize"
    and "put (lw_dest w) (replicate (kBlockSize - lw_block_offset w) 0) = (f, s)"
  shows "AddRecord put flush w ptr d = AddRecord put flush (w\<lparr>lw_dest := f, lw_block_offset := 0\<rparr>) ptr d"
proof -
  have "switch_block put w = switch_block put (w\<lparr>lw_dest := f, lw_block_offset := 0\<rparr>)"
    using assms by (simp add: switch_block_def kBlockSize_def kHeaderSize_def Let_def)
  then show ?thesis unfolding AddRecord_def by (subst (1 2) AddRecord_loop.simps) simp
qed

end
