(* ===== verification/Lv_Recovery.thy ===== *)
theory Lv_Recovery
  imports Lv_Builder_Facts Lv_Log_Facts
begin

text \<open>
  \<open>DBImpl::RecoverLogFile\<close> in \<open>db/db_impl.cc\<close>, which replays a log into memtables and writes the full ones as
  tables: the log reader, the batches, the memtable, its memory usage and the tables together.
\<close>

section \<open>Recovery\<close>

text \<open>The options that recovery looks at, and what it asks of its environment, for the file name of the log.\<close>

record options =
  op_paranoid_checks :: bool
  op_write_buffer_size :: u64
  op_reuse_logs :: bool

record ('f, 'd) recovery_env =
  re_NewSequentialFile :: "status \<times> 'f"
  re_GetFileSize :: "status \<times> u64"
  re_NewAppendableFile :: "status \<times> 'd"
  re_tables :: table_env

text \<open>The fields of \<open>DBImpl\<close> that it changes; the file behind \<open>log_\<close> is \<open>logfile_\<close>.\<close>

record 'd db =
  db_mem :: "memtable option"
  db_log :: "'d log_writer option"
  db_logfile_number :: u64
  db_files :: table_files

text \<open>The local variables of \<open>RecoverLogFile\<close>, and what its loop changes through its arguments.\<close>

record recovery =
  rc_mem :: "memtable option"
  rc_status :: status
  rc_max_sequence :: u64
  rc_compactions :: nat
  rc_save_manifest :: bool
  rc_edit :: version_edit
  rc_files :: table_files

definition reporter_Corruption :: "bool \<Rightarrow> status \<Rightarrow> status \<Rightarrow> status" where
  "reporter_Corruption paranoid s status = (if paranoid \<and> status_ok status then s else status)"

definition MaybeIgnoreError :: "bool \<Rightarrow> status \<Rightarrow> status" where
  "MaybeIgnoreError paranoid s = (if status_ok s \<or> paranoid then s else Status_OK)"

text \<open>The end of the body of the loop: a memtable that has outgrown the write buffer is written as a table.\<close>

definition compact_if_full :: "options \<Rightarrow> table_env \<Rightarrow> memtable \<Rightarrow> recovery \<Rightarrow> (recovery + recovery) option" where
  "compact_if_full opts te mem st =
    do { usage \<leftarrow> ApproximateMemoryUsage mem;
         if op_write_buffer_size opts < usage then do {
           (files, edit, status) \<leftarrow> WriteLevel0Table te mem (rc_edit st) None (rc_files st);
           let st = st\<lparr>rc_compactions := rc_compactions st + 1, rc_save_manifest := True, rc_files := files, rc_edit := edit,
                      rc_status := status, rc_mem := None\<rparr>
           in Some (if \<not> status_ok status then Inr st else Inl st) }
         else Some (Inl st) }"

text \<open>The body of the loop for a record: \<open>Inl\<close> goes on, \<open>Inr\<close> is a \<open>break\<close>, and \<open>None\<close> a failed assertion.\<close>

definition recover_record ::
  "options \<Rightarrow> table_env \<Rightarrow> (byte list \<Rightarrow> byte list \<Rightarrow> int) \<Rightarrow> byte list \<Rightarrow> recovery \<Rightarrow> (recovery + recovery) option" where
  "recover_record opts te user record st =
    (if length record < 12 then
       Some (Inl (st\<lparr>rc_status := reporter_Corruption (op_paranoid_checks opts)
         (Status_make kCorruption ''log record too small'' []) (rc_status st)\<rparr>))
     else
       let batch = WriteBatch_SetContents record;
           mem = (case rc_mem st of None \<Rightarrow> MemTable | Some mem \<Rightarrow> mem)
       in case WriteBatch_InsertInto user batch mem of
            (None, _) \<Rightarrow> None
          | (Some mem, status) \<Rightarrow>
              let status = MaybeIgnoreError (op_paranoid_checks opts) status; st = st\<lparr>rc_mem := Some mem, rc_status := status\<rparr>
              in if \<not> status_ok status then Some (Inr st)
                 else
                   let last_seq = WriteBatch_Sequence batch + scast (WriteBatch_Count batch) - 1;
                       st = (if rc_max_sequence st < last_seq then st\<lparr>rc_max_sequence := last_seq\<rparr> else st)
                   in compact_if_full opts te mem st)"

text \<open>The reports of a read reach the status in their order.\<close>

definition reported :: "bool \<Rightarrow> 'f log_reader \<Rightarrow> 'f log_reader \<Rightarrow> status \<Rightarrow> status" where
  "reported paranoid r r' status =
    foldl (\<lambda>status (bytes, s). reporter_Corruption paranoid s status) status (drop (length (lr_reports r)) (lr_reports r'))"

partial_function (option) RecoverLogFile_loop ::
  "('f log_reader \<Rightarrow> byte list \<Rightarrow> ('f log_reader \<times> byte list \<times> byte list option) option) \<Rightarrow> options \<Rightarrow> table_env \<Rightarrow>
    (byte list \<Rightarrow> byte list \<Rightarrow> int) \<Rightarrow> 'f log_reader \<Rightarrow> byte list \<Rightarrow> recovery \<Rightarrow> recovery option" where
  "RecoverLogFile_loop read_record opts te user reader scratch st =
    do { res \<leftarrow> read_record reader scratch;
         let st = st\<lparr>rc_status := reported (op_paranoid_checks opts) reader (fst res) (rc_status st)\<rparr>
         in case snd (snd res) of
              None \<Rightarrow> Some st
            | Some record \<Rightarrow>
                if \<not> status_ok (rc_status st) then Some st
                else do {
                  turn \<leftarrow> recover_record opts te user record st;
                  case turn of
                    Inr st \<Rightarrow> Some st
                  | Inl st \<Rightarrow> RecoverLogFile_loop read_record opts te user (fst res) (fst (snd res)) st } }"

text \<open>
  Behind the loop, the log may be kept: the database then goes on with it and with the memtable.  The address is that
  of the type byte of the writer.
\<close>

definition reuse_log ::
  "options \<Rightarrow> ('f, 'd) recovery_env \<Rightarrow> addr \<Rightarrow> u64 \<Rightarrow> bool \<Rightarrow> recovery \<Rightarrow> 'd db \<Rightarrow> (memtable option \<times> 'd db) option" where
  "reuse_log opts env t log_number last_log st db =
    (if status_ok (rc_status st) \<and> op_reuse_logs opts \<and> last_log \<and> rc_compactions st = 0 then
       if db_log db \<noteq> None \<or> db_mem db \<noteq> None then None
       else
         let (s, lfile_size) = re_GetFileSize env; (s', logfile) = re_NewAppendableFile env
         in if status_ok s \<and> status_ok s' then
              Some (None, db\<lparr>db_log := Some (log_Writer_at t logfile lfile_size), db_logfile_number := log_number,
                db_mem := Some (case rc_mem st of None \<Rightarrow> MemTable | Some mem \<Rightarrow> mem)\<rparr>)
            else Some (rc_mem st, db)
     else Some (rc_mem st, db))"

record 'd recovered =
  rd_status :: status
  rd_save_manifest :: bool
  rd_edit :: version_edit
  rd_max_sequence :: u64
  rd_db :: "'d db"

text \<open>The whole of it; the reader has a reporter, checks checksums and reads from the start of the file.\<close>

definition RecoverLogFile ::
  "('f \<Rightarrow> nat \<Rightarrow> 'f \<times> status \<times> byte list option) \<Rightarrow> ('f \<Rightarrow> u64 \<Rightarrow> 'f \<times> status) \<Rightarrow> options \<Rightarrow> ('f, 'd) recovery_env \<Rightarrow>
    (byte list \<Rightarrow> byte list \<Rightarrow> int) \<Rightarrow> addr \<Rightarrow> addr \<Rightarrow> u64 \<Rightarrow> bool \<Rightarrow> bool \<Rightarrow> version_edit \<Rightarrow> u64 \<Rightarrow> 'd db \<Rightarrow> 'd recovered option" where
  "RecoverLogFile read skip opts env user backing_store t log_number last_log save_manifest edit max_sequence db =
    (let (status, file) = re_NewSequentialFile env in
     if \<not> status_ok status then
       Some \<lparr>rd_status = MaybeIgnoreError (op_paranoid_checks opts) status, rd_save_manifest = save_manifest, rd_edit = edit,
         rd_max_sequence = max_sequence, rd_db = db\<rparr>
     else do {
       st \<leftarrow> RecoverLogFile_loop (ReadRecord read skip) opts (re_tables env) user (log_Reader file True True 0 backing_store) []
         \<lparr>rc_mem = None, rc_status = status, rc_max_sequence = max_sequence, rc_compactions = 0,
          rc_save_manifest = save_manifest, rc_edit = edit, rc_files = db_files db\<rparr>;
       (mem, db) \<leftarrow> reuse_log opts env t log_number last_log st (db\<lparr>db_files := rc_files st\<rparr>);
       let r = \<lparr>rd_status = rc_status st, rd_save_manifest = rc_save_manifest st, rd_edit = rc_edit st,
                rd_max_sequence = rc_max_sequence st, rd_db = db\<rparr>
       in case mem of
            None \<Rightarrow> Some r
          | Some mem \<Rightarrow>
              if status_ok (rc_status st) then do {
                (files, edit, status) \<leftarrow> WriteLevel0Table (re_tables env) mem (rc_edit st) None (db_files db);
                Some (r\<lparr>rd_status := status, rd_save_manifest := True, rd_edit := edit, rd_db := db\<lparr>db_files := files\<rparr>\<rparr>) }
              else Some r })"

section \<open>Acknowledged writes come back\<close>

text \<open>A run of the reader without reports is a fold of the body over its records.\<close>

fun recover_records ::
  "options \<Rightarrow> table_env \<Rightarrow> (byte list \<Rightarrow> byte list \<Rightarrow> int) \<Rightarrow> byte list list \<Rightarrow> recovery \<Rightarrow> recovery option" where
  "recover_records opts te user [] st = Some st"
| "recover_records opts te user (d # ds) st =
    (if \<not> status_ok (rc_status st) then Some st
     else case recover_record opts te user d st of
       None \<Rightarrow> None
     | Some (Inr st) \<Rightarrow> Some st
     | Some (Inl st) \<Rightarrow> recover_records opts te user ds st)"

lemma reported_none [simp]: "lr_reports r' = lr_reports r \<Longrightarrow> reported paranoid r r' status = status"
  by (simp add: reported_def)

lemma reads_recover:
  "reads_records read skip r sc ds r' \<Longrightarrow>
    RecoverLogFile_loop (ReadRecord read skip) opts te user r sc st = recover_records opts te user ds st"
proof (induction arbitrary: st rule: reads_records.induct)
  case (reads_end r sc r' sc')
  then show ?case by (subst RecoverLogFile_loop.simps) simp
next
  case (reads_more r sc r1 sc1 d ds r')
  then show ?case by (subst RecoverLogFile_loop.simps) (auto split: option.splits sum.splits)
qed

lemma length_batch_of: "\<forall>op \<in> set ops. op_fits op \<Longrightarrow> 12 \<le> length (batch_of seq ops)"
  by (simp add: batch_of_bytes batch_bytes_def)

lemma batches_of_append: "batches_of seq (bs @ bs') = batches_of seq bs @ batches_of (seq + of_nat (length (concat bs))) bs'"
  by (induction bs arbitrary: seq) (simp_all add: ac_simps)

lemma take_batches_of: "take n (batches_of seq bs) = batches_of seq (take n bs)"
  by (induction bs arbitrary: seq n) (simp_all add: take_Cons' split: nat.split)

abbreviation mem_or_new :: "memtable option \<Rightarrow> memtable" where
  "mem_or_new m \<equiv> (case m of None \<Rightarrow> MemTable | Some mem \<Rightarrow> mem)"

text \<open>
  The tables that an edit has got since it was \<open>edit\<close>, oldest first: each holds the versions of a part of the history,
  in their order, and has a number that has been used.
\<close>

definition tables_hold :: "version_edit \<Rightarrow> version_edit \<Rightarrow> table_files \<Rightarrow> version list \<Rightarrow> bool" where
  "tables_hold edit edit' tf es \<longleftrightarrow>
    (\<exists>fs ess. ve_new_files edit' = ve_new_files edit @ map (Pair 0) fs \<and> es = concat ess \<and>
      list_all2 (\<lambda>f es. tf_tables tf (fm_number f) = Some (table_of es) \<and> fm_number f < tf_next_file_number tf \<and>
        (\<exists>mem ns. mem_versions mem ns es)) fs ess)"

definition recovered_versions :: "version_edit \<Rightarrow> version list \<Rightarrow> recovery \<Rightarrow> bool" where
  "recovered_versions edit es st \<longleftrightarrow>
    (\<exists>es1 es2 ns. es = es1 @ es2 \<and> tables_hold edit (rc_edit st) (rc_files st) es1 \<and> mem_versions (mem_or_new (rc_mem st)) ns es2)"

lemma tables_hold_none: "tables_hold edit edit tf []"
  unfolding tables_hold_def by (intro exI [of _ "[]"]) simp

lemma next_less: "n < n + 1" if "unat n + 1 < 2 ^ 64" for n :: u64
  using that by (simp add: word_less_nat_alt unat_word_ariths)

lemma tables_hold_empty:
  assumes "tables_hold edit edit' tf es" "unat (tf_next_file_number tf) + 1 < 2 ^ 64" "tf_next_file_number tf' = tf_next_file_number tf + 1"
    "tf_tables tf' = (tf_tables tf)(tf_next_file_number tf := x)"
  shows "tables_hold edit edit' tf' es"
proof -
  obtain fs ess where f: "ve_new_files edit' = ve_new_files edit @ map (Pair 0) fs" "es = concat ess"
    "list_all2 (\<lambda>f es. tf_tables tf (fm_number f) = Some (table_of es) \<and> fm_number f < tf_next_file_number tf \<and>
        (\<exists>mem ns. mem_versions mem ns es)) fs ess" using assms(1) unfolding tables_hold_def by blast
  have "list_all2 (\<lambda>f es. tf_tables tf' (fm_number f) = Some (table_of es) \<and> fm_number f < tf_next_file_number tf' \<and>
        (\<exists>mem ns. mem_versions mem ns es)) fs ess"
    using f(3) by (rule list_all2_mono) (use next_less [OF assms(2)] assms(3,4) in \<open>auto intro: less_trans\<close>)
  then show ?thesis using f(1,2) unfolding tables_hold_def by blast
qed

lemma tables_hold_more:
  assumes t: "tables_hold edit edit' tf es" and n: "unat (tf_next_file_number tf) + 1 < 2 ^ 64"
    "tf_next_file_number tf' = tf_next_file_number tf + 1"
    and k: "tf_tables tf' = (tf_tables tf)(tf_next_file_number tf \<mapsto> table_of es')" and m: "mem_versions mem ns es'"
    and e: "edit'' = AddFile 0 (tf_next_file_number tf) sz a b edit'"
  shows "tables_hold edit edit'' tf' (es @ es')"
proof -
  obtain fs ess where f: "ve_new_files edit' = ve_new_files edit @ map (Pair 0) fs" "es = concat ess"
    "list_all2 (\<lambda>f es. tf_tables tf' (fm_number f) = Some (table_of es) \<and> fm_number f < tf_next_file_number tf' \<and>
        (\<exists>mem ns. mem_versions mem ns es)) fs ess"
    using tables_hold_empty [OF t n(1,2), of "Some (table_of es')"] k unfolding tables_hold_def by blast
  let ?f = "FileMetaData\<lparr>fm_number := tf_next_file_number tf, fm_file_size := sz, fm_smallest := a, fm_largest := b\<rparr>"
  have "ve_new_files edit'' = ve_new_files edit @ map (Pair 0) (fs @ [?f])" "es @ es' = concat (ess @ [es'])"
    using e f(1,2) by (simp_all add: AddFile_def Let_def)
  moreover have "list_all2 (\<lambda>f es. tf_tables tf' (fm_number f) = Some (table_of es) \<and> fm_number f < tf_next_file_number tf' \<and>
        (\<exists>mem ns. mem_versions mem ns es)) (fs @ [?f]) (ess @ [es'])"
    using f(3) k m n next_less [OF n(1)] by (auto intro!: list_all2_appendI)
  ultimately show ?thesis unfolding tables_hold_def by blast
qed

text \<open>
  What may go wrong: the table of a part of the history \<open>h\<close>, with a number from \<open>lo\<close> up to \<open>hi\<close>, is not
  written, or its builder says that it has succeeded with an empty file.
\<close>

definition table_fails :: "table_env \<Rightarrow> version list \<Rightarrow> nat \<Rightarrow> nat \<Rightarrow> bool" where
  "table_fails te h lo hi \<longleftrightarrow> (\<exists>n es. lo \<le> unat n \<and> unat n < hi \<and> es \<noteq> [] \<and> sublist es h \<and> \<not> table_written te n (table_of es))"

definition table_vanishes :: "table_env \<Rightarrow> version list \<Rightarrow> nat \<Rightarrow> nat \<Rightarrow> bool" where
  "table_vanishes te h lo hi \<longleftrightarrow>
    (\<exists>n es. lo \<le> unat n \<and> unat n < hi \<and> es \<noteq> [] \<and> sublist es h \<and> te_Finish te n (table_of es) = (Status_OK, 0))"

lemma table_mono:
  assumes "lo' \<le> lo" "hi \<le> hi'"
  shows "table_fails te h lo hi \<Longrightarrow> table_fails te h lo' hi'" "table_vanishes te h lo hi \<Longrightarrow> table_vanishes te h lo' hi'"
  using assms unfolding table_fails_def table_vanishes_def by (meson le_trans less_le_trans)+

lemma table_part:
  assumes "prefix (es @ es') h" "es' \<noteq> []"
  shows "\<not> table_written te n (table_of es') \<Longrightarrow> table_fails te h (unat n) (unat n + 1)"
    "te_Finish te n (table_of es') = (Status_OK, 0) \<Longrightarrow> table_vanishes te h (unat n) (unat n + 1)"
  using assms unfolding table_fails_def table_vanishes_def by (auto simp: prefix_def sublist_def)

text \<open>A memtable is written: its versions move into a table.\<close>

lemma WriteLevel0Table_holds:
  assumes t: "tables_hold edit edit' tf es" and m: "mem_versions mem ns es'" and n: "unat (tf_next_file_number tf) + 1 < 2 ^ 64"
  shows "case WriteLevel0Table te mem edit' None tf of
      None \<Rightarrow> es' \<noteq> [] \<and> te_Finish te (tf_next_file_number tf) (table_of es') = (Status_OK, 0)
    | Some (tf', edit'', s) \<Rightarrow> unat (tf_next_file_number tf') = unat (tf_next_file_number tf) + 1 \<and>
        (if status_ok s then tables_hold edit edit'' tf' (es @ es')
         else es' \<noteq> [] \<and> \<not> table_written te (tf_next_file_number tf) (table_of es'))"
proof (cases "es' = []")
  case True
  then show ?thesis
    using tables_hold_empty [OF t n, of _ None] WriteLevel0Table_empty m n
    by (simp add: status_ok_def unat_word_ariths)
next
  case False
  have "unat (tf_next_file_number tf + 1) = unat (tf_next_file_number tf) + 1" using n by (simp add: unat_word_ariths)
  then show ?thesis
    using WriteLevel0Table_result [OF m False, where te = te and edit = edit' and tf = tf] tables_hold_more [OF t n _ _ m] False
    by (cases "WriteLevel0Table te mem edit' None tf") (fastforce split: if_splits)+
qed

text \<open>The end of a turn: nothing that the tables and the memtable hold is lost, unless a table cannot be written.\<close>

lemma compact_if_full_holds:
  assumes t: "tables_hold edit (rc_edit st) (rc_files st) es1" and m: "mem_versions mem ns es2"
    and st: "rc_mem st = Some mem" "rc_status st = Status_OK" and n: "unat (tf_next_file_number (rc_files st)) + 1 < 2 ^ 64"
    and h: "prefix (es1 @ es2) h"
  shows "case compact_if_full opts te mem st of
      None \<Rightarrow> table_vanishes te h (unat (tf_next_file_number (rc_files st))) (unat (tf_next_file_number (rc_files st)) + 1)
    | Some (Inr st') \<Rightarrow> \<not> status_ok (rc_status st') \<and>
        table_fails te h (unat (tf_next_file_number (rc_files st))) (unat (tf_next_file_number (rc_files st)) + 1)
    | Some (Inl st') \<Rightarrow> rc_status st' = Status_OK \<and> rc_max_sequence st' = rc_max_sequence st \<and>
        unat (tf_next_file_number (rc_files st)) \<le> unat (tf_next_file_number (rc_files st')) \<and>
        unat (tf_next_file_number (rc_files st')) \<le> unat (tf_next_file_number (rc_files st)) + 1 \<and>
        recovered_versions edit (es1 @ es2) st'"
proof -
  obtain usage where u: "ApproximateMemoryUsage mem = Some usage" using usage_Some [OF m] by blast
  show ?thesis
  proof (cases "op_write_buffer_size opts < usage")
    case True
    show ?thesis
    proof (cases "WriteLevel0Table te mem (rc_edit st) None (rc_files st)")
      case None
      then show ?thesis using WriteLevel0Table_holds [OF t m n, of te] True u table_part(2) [OF h] by (simp add: compact_if_full_def)
    next
      case (Some r)
      obtain tf edit' s where r: "r = (tf, edit', s)" by (cases r)
      note w = WriteLevel0Table_holds [OF t m n, of te, unfolded Some r, simplified]
      show ?thesis
      proof (cases "status_ok s")
        case True': True
        have "recovered_versions edit (es1 @ es2) (st\<lparr>rc_compactions := rc_compactions st + 1, rc_save_manifest := True,
            rc_files := tf, rc_edit := edit', rc_status := s, rc_mem := None\<rparr>)"
          unfolding recovered_versions_def
          using w True' empty_versions by (intro exI [of _ "es1 @ es2"] exI [of _ "[]"]) auto
        then show ?thesis using True True' u w by (simp add: compact_if_full_def Some r Let_def status_ok_def)
      next
        case False
        then show ?thesis using True u w table_part(1) [OF h] by (simp add: compact_if_full_def Some r Let_def)
      qed
    qed
  next
    case False
    have "recovered_versions edit (es1 @ es2) st"
      unfolding recovered_versions_def using t m st(1) by (intro exI [of _ es1] exI [of _ es2] exI [of _ ns]) simp
    then show ?thesis using False st u by (simp add: compact_if_full_def)
  qed
qed

text \<open>One batch: it enters the memtable, and \<open>max_sequence\<close> becomes the number of its last operation.\<close>

lemma recover_batch:
  assumes r: "recovered_versions edit es st" "rc_status st = Status_OK" "unat (tf_next_file_number (rc_files st)) + 1 < 2 ^ 64"
    and ops: "\<forall>op \<in> set ops. op_fits op" "unat seq + length ops \<le> 2 ^ 56" "\<forall>e \<in> set es. ver_sequence e < seq" "length ops < 2 ^ 31"
    and h: "prefix (es @ op_versions seq ops) h"
  shows "case recover_record opts te Slice_compare (batch_of seq ops) st of
      None \<Rightarrow> table_vanishes te h (unat (tf_next_file_number (rc_files st))) (unat (tf_next_file_number (rc_files st)) + 1)
    | Some (Inr st') \<Rightarrow> \<not> status_ok (rc_status st') \<and>
        table_fails te h (unat (tf_next_file_number (rc_files st))) (unat (tf_next_file_number (rc_files st)) + 1)
    | Some (Inl st') \<Rightarrow> rc_status st' = Status_OK \<and>
        rc_max_sequence st' = max (rc_max_sequence st) (seq + of_nat (length ops) - 1) \<and>
        unat (tf_next_file_number (rc_files st)) \<le> unat (tf_next_file_number (rc_files st')) \<and>
        unat (tf_next_file_number (rc_files st')) \<le> unat (tf_next_file_number (rc_files st)) + 1 \<and>
        recovered_versions edit (es @ op_versions seq ops) st'"
proof -
  obtain es1 es2 ns where es: "es = es1 @ es2" "tables_hold edit (rc_edit st) (rc_files st) es1"
    "mem_versions (mem_or_new (rc_mem st)) ns es2" using r(1) unfolding recovered_versions_def by blast
  have "\<forall>e \<in> set es2. ver_sequence e < seq" using ops(3) es(1) by simp
  from InsertInto_refines [OF es(3) ops(1,2) this] obtain mem ns' where
    mem: "WriteBatch_InsertInto Slice_compare (batch_of seq ops) (mem_or_new (rc_mem st)) = (Some mem, Status_OK)"
      "mem_versions mem ns' (es2 @ op_versions seq ops)" by blast
  have "WriteBatch_Sequence (batch_of seq ops) = seq" "WriteBatch_Count (batch_of seq ops) = of_nat (length ops)"
    using ops(1) by (simp_all add: batch_of_bytes)
  moreover have "scast (of_nat (length ops) :: u32) = (of_nat (length ops) :: u64)"
    using ops(4) by (simp add: scast_eq sint_word_ariths signed_of_nat signed_take_bit_int_eq_self)
  moreover define st1 where "st1 = st\<lparr>rc_mem := Some mem, rc_status := Status_OK,
      rc_max_sequence := max (rc_max_sequence st) (seq + of_nat (length ops) - 1)\<rparr>"
  ultimately have "recover_record opts te Slice_compare (batch_of seq ops) st = compact_if_full opts te mem st1"
    using mem length_batch_of [OF ops(1), of seq]
    by (auto simp: recover_record_def Let_def WriteBatch_SetContents_def MaybeIgnoreError_def status_ok_def max_def not_less)
  moreover have st1: "tables_hold edit (rc_edit st1) (rc_files st1) es1" "rc_mem st1 = Some mem" "rc_status st1 = Status_OK"
    "unat (tf_next_file_number (rc_files st1)) + 1 < 2 ^ 64" using es(2) r(3) by (simp_all add: st1_def)
  have "prefix (es1 @ es2 @ op_versions seq ops) h" using h es(1) by simp
  note compact_if_full_holds [OF st1(1) mem(2) st1(2-4) this, where opts = opts and te = te]
  ultimately show ?thesis by (simp add: st1_def es(1) split: option.splits sum.splits)
qed

lemma recover_batches:
  assumes "recovered_versions edit es st" "rc_status st = Status_OK"
    "unat (tf_next_file_number (rc_files st)) + length bs < 2 ^ 64" "0 < seq"
    "\<forall>op \<in> set (concat bs). op_fits op" "unat seq + length (concat bs) \<le> 2 ^ 56" "\<forall>e \<in> set es. ver_sequence e < seq"
    "\<forall>ops \<in> set bs. length ops < 2 ^ 31" "prefix (es @ op_versions seq (concat bs)) h"
  shows "case recover_records opts te Slice_compare (batches_of seq bs) st of
      None \<Rightarrow> table_vanishes te h (unat (tf_next_file_number (rc_files st))) (unat (tf_next_file_number (rc_files st)) + length bs)
    | Some st' \<Rightarrow>
        if status_ok (rc_status st') then
          rc_max_sequence st' = (if bs = [] then rc_max_sequence st else max (rc_max_sequence st) (seq + of_nat (length (concat bs)) - 1)) \<and>
          unat (tf_next_file_number (rc_files st)) \<le> unat (tf_next_file_number (rc_files st')) \<and>
          unat (tf_next_file_number (rc_files st')) \<le> unat (tf_next_file_number (rc_files st)) + length bs \<and>
          recovered_versions edit (es @ op_versions seq (concat bs)) st'
        else table_fails te h (unat (tf_next_file_number (rc_files st))) (unat (tf_next_file_number (rc_files st)) + length bs)"
  using assms
proof (induction bs arbitrary: st es seq)
  case (Cons ops bs)
  have ops: "\<forall>op \<in> set ops. op_fits op" "unat seq + length ops \<le> 2 ^ 56" "length ops < 2 ^ 31"
    using Cons.prems by auto
  have n: "unat (tf_next_file_number (rc_files st)) + 1 < 2 ^ 64" using Cons.prems(3) by simp
  have h: "prefix (es @ op_versions seq ops) h" using Cons.prems(9) by (auto simp: prefix_def op_versions_append)
  note one = recover_batch [OF Cons.prems(1,2) n ops(1,2) Cons.prems(7) ops(3) h, where opts = opts and te = te]
  have ok: "status_ok (rc_status st)" using Cons.prems(2) by (simp add: status_ok_def)
  show ?case
  proof (cases "recover_record opts te Slice_compare (batch_of seq ops) st")
    case None
    then show ?thesis using one ok by (auto elim: table_mono(2) [rotated 2])
  next
    case (Some turn)
    show ?thesis
    proof (cases turn)
      case (Inr st1)
      then show ?thesis using one ok Some by (auto elim: table_mono(1) [rotated 2])
    next
      case (Inl st1)
      have k: "unat (seq + of_nat k) = unat seq + k" if "k \<le> length (concat (ops # bs))" for k
      proof -
        have "unat seq + k < 2 ^ 64" using that Cons.prems(6) by simp
        then show ?thesis by (simp add: unat_word_ariths unat_of_nat)
      qed
      have pos: "0 < unat seq" using Cons.prems(4) by (simp add: word_less_nat_alt)
      have last: "unat (seq + of_nat k - 1) = unat seq + k - 1" if "k \<le> length (concat (ops # bs))" for k
        using k [OF that] pos by (subst unat_sub) (auto simp: word_le_nat_alt)
      have st1: "recovered_versions edit (es @ op_versions seq ops) st1" "rc_status st1 = Status_OK"
        "rc_max_sequence st1 = max (rc_max_sequence st) (seq + of_nat (length ops) - 1)"
        "unat (tf_next_file_number (rc_files st1)) \<le> unat (tf_next_file_number (rc_files st)) + 1"
        "unat (tf_next_file_number (rc_files st)) \<le> unat (tf_next_file_number (rc_files st1))"
        using one by (simp_all add: Some Inl)
      have "ver_sequence e < seq + of_nat (length ops)" if "e \<in> set (es @ op_versions seq ops)" for e
        using that op_versions_sequence [OF ops(2)] Cons.prems(7) k [of "length ops"] by (auto simp: word_less_nat_alt)
      then have before: "\<forall>e \<in> set (es @ op_versions seq ops). ver_sequence e < seq + of_nat (length ops)" by blast
      have "unat (tf_next_file_number (rc_files st1)) + length bs < 2 ^ 64" using Cons.prems(3) st1(4) by simp
      note rest = Cons.IH [OF st1(1,2) this _ _ _ before]
      have "seq + of_nat (length ops) - 1 \<le> seq + of_nat (length (concat (ops # bs))) - 1"
        using last [of "length ops"] last [of "length (concat (ops # bs))"] by (simp add: word_le_nat_alt del: of_nat_add)
      then have "(if bs = [] then rc_max_sequence st1 else max (rc_max_sequence st1) (seq + of_nat (length ops) + of_nat (length (concat bs)) - 1)) =
          max (rc_max_sequence st) (seq + of_nat (length (concat (ops # bs))) - 1)"
        using st1(3) by (auto simp: max_def ac_simps)
      moreover have "0 < seq + of_nat (length ops)" using k [of "length ops"] pos by (simp add: word_less_nat_alt)
      moreover have "table_fails te h (unat (tf_next_file_number (rc_files st1))) (unat (tf_next_file_number (rc_files st1)) + length bs) \<Longrightarrow>
          table_fails te h (unat (tf_next_file_number (rc_files st))) (Suc (unat (tf_next_file_number (rc_files st)) + length bs))"
        by (rule table_mono(1) [rotated 2]) (use st1(4,5) in auto)
      moreover have "table_vanishes te h (unat (tf_next_file_number (rc_files st1))) (unat (tf_next_file_number (rc_files st1)) + length bs) \<Longrightarrow>
          table_vanishes te h (unat (tf_next_file_number (rc_files st))) (Suc (unat (tf_next_file_number (rc_files st)) + length bs))"
        by (rule table_mono(2) [rotated 2]) (use st1(4,5) in auto)
      ultimately show ?thesis
        using rest Cons.prems k [of "length ops"] ok st1(4,5)
        by (auto simp: Some Inl op_versions_append split: option.splits)
    qed
  qed
qed (auto simp: status_ok_def)

text \<open>
  Reading what recovery leaves: first the memtable, if the log is kept, then the new tables, the newest first.
\<close>

fun tables_Get ::
  "(byte list \<Rightarrow> byte list \<Rightarrow> int) \<Rightarrow> table_files \<Rightarrow> file_meta_data list \<Rightarrow> lookup_key \<Rightarrow> byte list \<Rightarrow> status \<Rightarrow>
    (bool \<times> byte list \<times> status) option" where
  "tables_Get user tf [] key value s = Some (False, value, s)"
| "tables_Get user tf (f # fs) key value s =
    do { kvs \<leftarrow> tf_tables tf (fm_number f);
         let r = table_Get user kvs key value s
         in if fst r then Some r else tables_Get user tf fs key value s }"

definition recovered_Get ::
  "(byte list \<Rightarrow> byte list \<Rightarrow> int) \<Rightarrow> version_edit \<Rightarrow> 'd recovered \<Rightarrow> lookup_key \<Rightarrow> byte list \<Rightarrow> status \<Rightarrow>
    (bool \<times> byte list \<times> status) option" where
  "recovered_Get user edit r key value s =
    (let new = map snd (drop (length (ve_new_files edit)) (ve_new_files (rd_edit r))); tf = db_files (rd_db r)
     in case db_mem (rd_db r) of
          None \<Rightarrow> tables_Get user tf (rev new) key value s
        | Some mem \<Rightarrow>
            do { r \<leftarrow> MemTable_Get user mem key value s;
                 if fst r then Some r else tables_Get user tf (rev new) key value s })"

lemma newest_append:
  "newest (xs @ ys) u snap = (case newest ys u snap of None \<Rightarrow> newest xs u snap | Some e \<Rightarrow> Some e)"
proof -
  have "find P (as @ bs) = (case find P as of None \<Rightarrow> find P bs | Some e \<Rightarrow> Some e)" for P and as bs :: "version list"
    by (induction as) auto
  then show ?thesis by (simp add: newest_def cong: option.case_cong)
qed

lemma get_result_found [simp]: "fst (get_result e value s) \<longleftrightarrow> e \<noteq> None" "get_result None value s = (False, value, s)"
  by (auto simp: get_result_def split: option.split)

lemma tables_Get_newest:
  assumes "list_all2 (\<lambda>f es. tf_tables tf (fm_number f) = Some (table_of es) \<and> fm_number f < tf_next_file_number tf \<and>
        (\<exists>mem ns. mem_versions mem ns es)) fs ess"
    "length u + 8 < 2 ^ 32" "snap \<le> kMaxSequenceNumber"
  shows "tables_Get Slice_compare tf (rev fs) (LookupKey u snap) value s = Some (get_result (newest (concat ess) u snap) value s)"
  using assms(1)
proof (induction fs arbitrary: ess rule: rev_induct)
  case Nil
  then show ?case by (simp add: newest_def)
next
  case (snoc f fs)
  then obtain ess' es where ess: "ess = ess' @ [es]" "list_all2 (\<lambda>f es. tf_tables tf (fm_number f) = Some (table_of es) \<and>
      fm_number f < tf_next_file_number tf \<and> (\<exists>mem ns. mem_versions mem ns es)) fs ess'"
    "tf_tables tf (fm_number f) = Some (table_of es)" "\<exists>mem ns. mem_versions mem ns es"
    by (auto simp: list_all2_append1 list_all2_Cons1)
  then show ?case
    using snoc.IH [OF ess(2)] table_Get_newest [OF _ assms(2,3)]
    by (auto simp: newest_append Let_def split: option.split)
qed

lemma MemTable_versions: "mem_versions MemTable ns es \<Longrightarrow> es = []"
proof -
  assume m: "mem_versions MemTable ns es"
  then have "dom (sl_nodes MemTable) = set (sl_head # ns)" "distinct (sl_head # ns)" "mem_entries es = map (key_at MemTable) ns"
    using mem_versionsD(1) by (fastforce simp: skip_list_def skip_shape_def)+
  moreover have "dom (sl_nodes MemTable) = {sl_head}" by (simp add: MemTable_def SkipList_def)
  ultimately have "ns = []" by (cases ns) auto
  then show ?thesis using \<open>mem_entries es = _\<close> by (metis length_0_conv length_map length_mem_entries)
qed

text \<open>What the database holds at the end, and that it is what is read.\<close>

definition recovered_db :: "version_edit \<Rightarrow> version list \<Rightarrow> 'd recovered \<Rightarrow> bool" where
  "recovered_db edit es r \<longleftrightarrow>
    (\<exists>es1 es2. es = es1 @ es2 \<and> tables_hold edit (rd_edit r) (db_files (rd_db r)) es1 \<and>
      (case db_mem (rd_db r) of None \<Rightarrow> es2 = [] | Some mem \<Rightarrow> \<exists>ns. mem_versions mem ns es2))"

lemma recovered_Get_newest:
  assumes r: "recovered_db edit es r" and u: "length u + 8 < 2 ^ 32" "snap \<le> kMaxSequenceNumber"
  shows "recovered_Get Slice_compare edit r (LookupKey u snap) value s = Some (get_result (newest es u snap) value s)"
proof -
  obtain es1 es2 where es: "es = es1 @ es2" "tables_hold edit (rd_edit r) (db_files (rd_db r)) es1"
    "case db_mem (rd_db r) of None \<Rightarrow> es2 = [] | Some mem \<Rightarrow> \<exists>ns. mem_versions mem ns es2"
    using r unfolding recovered_db_def by blast
  obtain fs ess where f: "ve_new_files (rd_edit r) = ve_new_files edit @ map (Pair 0) fs" "es1 = concat ess"
    "list_all2 (\<lambda>f es. tf_tables (db_files (rd_db r)) (fm_number f) = Some (table_of es) \<and>
        fm_number f < tf_next_file_number (db_files (rd_db r)) \<and> (\<exists>mem ns. mem_versions mem ns es)) fs ess"
    using es(2) unfolding tables_hold_def by blast
  have new: "map snd (drop (length (ve_new_files edit)) (ve_new_files (rd_edit r))) = fs" by (simp add: f(1) comp_def)
  note t = tables_Get_newest [OF f(3) u, of "value" s]
  show ?thesis
  proof (cases "db_mem (rd_db r)")
    case None
    then show ?thesis using es t by (simp add: recovered_Get_def Let_def new f(2))
  next
    case (Some mem)
    then obtain ns where "mem_versions mem ns es2" using es(3) by auto
    from Get_refines [OF this u] show ?thesis
      using Some t by (auto simp: recovered_Get_def Let_def new es(1) f(2) newest_append split: option.split)
  qed
qed

text \<open>Behind the loop: the log is kept with the memtable, or the memtable is written as the last table.\<close>

lemma reuse_log_result:
  assumes "db_mem db = None" "db_log db = None" "mem_versions (mem_or_new (rc_mem st)) ns es"
  shows "\<exists>mem db'. reuse_log opts env t log_number last_log st db = Some (mem, db') \<and> db_files db' = db_files db \<and>
    (mem = None \<and> (\<exists>mem'. db_mem db' = Some mem' \<and> mem_versions mem' ns es) \<or> mem = rc_mem st \<and> db_mem db' = None)"
  using assms by (auto simp: reuse_log_def split: prod.split)

lemma RecoverLogFile_end:
  assumes r: "re_NewSequentialFile env = (Status_OK, g)"
    and loop: "RecoverLogFile_loop (ReadRecord read skip) opts (re_tables env) Slice_compare (log_Reader g True True 0 b) []
         \<lparr>rc_mem = None, rc_status = Status_OK, rc_max_sequence = m0, rc_compactions = 0,
          rc_save_manifest = save, rc_edit = edit, rc_files = db_files db\<rparr> = Some st"
    and st: "rc_status st = Status_OK" "recovered_versions edit es st" "unat (tf_next_file_number (rc_files st)) + 1 < 2 ^ 64"
    and db: "db_mem db = None" "db_log db = None" and h: "prefix es h"
  shows "case RecoverLogFile read skip opts env Slice_compare b t log_number last_log save edit m0 db of
      None \<Rightarrow> table_vanishes (re_tables env) h (unat (tf_next_file_number (rc_files st))) (unat (tf_next_file_number (rc_files st)) + 1)
    | Some r \<Rightarrow> if status_ok (rd_status r) then rd_max_sequence r = rc_max_sequence st \<and> recovered_db edit es r
        else table_fails (re_tables env) h (unat (tf_next_file_number (rc_files st))) (unat (tf_next_file_number (rc_files st)) + 1)"
proof -
  obtain es1 es2 ns where es: "es = es1 @ es2" "tables_hold edit (rc_edit st) (rc_files st) es1"
    "mem_versions (mem_or_new (rc_mem st)) ns es2" using st(2) unfolding recovered_versions_def by blast
  obtain mem db' where reuse: "reuse_log opts env t log_number last_log st (db\<lparr>db_files := rc_files st\<rparr>) = Some (mem, db')"
    "db_files db' = rc_files st"
    "mem = None \<and> (\<exists>mem'. db_mem db' = Some mem' \<and> mem_versions mem' ns es2) \<or> mem = rc_mem st \<and> db_mem db' = None"
    using reuse_log_result [of "db\<lparr>db_files := rc_files st\<rparr>" st ns es2 opts env t log_number last_log] db es(3) by auto
  show ?thesis
  proof (cases mem)
    case None
    have "recovered_db edit es \<lparr>rd_status = rc_status st, rd_save_manifest = rc_save_manifest st, rd_edit = rc_edit st,
        rd_max_sequence = rc_max_sequence st, rd_db = db'\<rparr>"
      unfolding recovered_db_def
      by (rule exI [of _ es1], rule exI [of _ es2]) (use None reuse(2,3) es MemTable_versions in auto)
    then show ?thesis using r loop reuse(1) None st(1) by (simp add: RecoverLogFile_def status_ok_def Let_def)
  next
    case (Some mem')
    then have m: "mem_versions mem' ns es2" "db_mem db' = None" using reuse(3) es(3) by (cases "rc_mem st"; simp)+
    note w = WriteLevel0Table_holds [OF es(2) m(1) st(3), of "re_tables env"]
    show ?thesis
    proof (cases "WriteLevel0Table (re_tables env) mem' (rc_edit st) None (rc_files st)")
      case None
      then show ?thesis using r loop reuse(1,2) Some st(1) w table_part(2) [OF h [unfolded es(1)]] by (simp add: RecoverLogFile_def status_ok_def Let_def)
    next
      case (Some x)
      obtain tf edit' s where x: "x = (tf, edit', s)" by (cases x)
      define res where "res = \<lparr>rd_status = s, rd_save_manifest = True, rd_edit = edit',
        rd_max_sequence = rc_max_sequence st, rd_db = db'\<lparr>db_files := tf\<rparr>\<rparr>"
      have "RecoverLogFile read skip opts env Slice_compare b t log_number last_log save edit m0 db = Some res"
        using r loop reuse(1,2) \<open>mem = Some mem'\<close> st(1) Some x by (simp add: RecoverLogFile_def status_ok_def Let_def res_def)
      moreover have "recovered_db edit es res" if "status_ok s"
        unfolding recovered_db_def
        by (rule exI [of _ es], rule exI [of _ "[]"]) (use w Some x that m(2) es(1) in \<open>simp add: res_def\<close>)
      ultimately show ?thesis using w Some x table_part(1) [OF h [unfolded es(1)]] by (auto simp: res_def)
    qed
  qed
qed

text \<open>The batches that are read, from the empty state to what is left of them.\<close>

lemma RecoverLogFile_batches:
  assumes reads: "reads_records read skip (log_Reader g True True 0 b) [] (batches_of seq bs) r"
    and bs: "\<forall>op \<in> set (concat bs). op_fits op" "\<forall>ops \<in> set bs. length ops < 2 ^ 31" "0 < seq"
      "unat seq + length (concat bs) \<le> 2 ^ 56"
    and env: "re_NewSequentialFile env = (Status_OK, g)" "db_mem db = None" "db_log db = None"
      "lo = unat (tf_next_file_number (db_files db))" "lo + length bs < hi" "hi < 2 ^ 64"
    and h: "h = op_versions seq (concat bs)"
  shows "case RecoverLogFile read skip opts env Slice_compare b t log_number last_log save edit m0 db of
      None \<Rightarrow> table_vanishes (re_tables env) h lo hi
    | Some r \<Rightarrow> if status_ok (rd_status r) then recovered_db edit h r \<and>
          rd_max_sequence r = (if bs = [] then m0 else max m0 (seq + of_nat (length (concat bs)) - 1))
        else table_fails (re_tables env) h lo hi"
proof -
  let ?te = "re_tables env" and ?next = "\<lambda>tf. unat (tf_next_file_number tf)"
  let ?st = "\<lparr>rc_mem = None, rc_status = Status_OK, rc_max_sequence = m0, rc_compactions = 0,
       rc_save_manifest = save, rc_edit = edit, rc_files = db_files db\<rparr>"
  have init: "recovered_versions edit [] ?st"
    using empty_versions tables_hold_none by (auto simp: recovered_versions_def)
  have n: "?next (rc_files ?st) + length bs < 2 ^ 64" using env(4-6) by simp
  note loop = recover_batches [OF init _ n bs(3,1,4) _ bs(2), where h = h and opts = opts and te = ?te]
  have run: "RecoverLogFile_loop (ReadRecord read skip) opts ?te Slice_compare (log_Reader g True True 0 b) [] ?st =
      recover_records opts ?te Slice_compare (batches_of seq bs) ?st" by (rule reads_recover [OF reads])
  show ?thesis
  proof (cases "recover_records opts ?te Slice_compare (batches_of seq bs) ?st")
    case None
    then have "table_vanishes ?te h lo (lo + length bs)" using loop h env(4) by simp
    then have "table_vanishes ?te h lo hi" by (rule table_mono(2) [rotated 2]) (use env(5) in auto)
    then show ?thesis using None run env(1) by (simp add: RecoverLogFile_def status_ok_def)
  next
    case (Some st)
    show ?thesis
    proof (cases "status_ok (rc_status st)")
      case True
      then have st: "rc_status st = Status_OK" "recovered_versions edit h st" "?next (rc_files st) \<le> lo + length bs"
        "lo \<le> ?next (rc_files st)"
        "rc_max_sequence st = (if bs = [] then m0 else max m0 (seq + of_nat (length (concat bs)) - 1))"
        using loop Some h env(4) by (simp_all add: status_ok_def cong: if_cong)
      have "?next (rc_files st) + 1 < 2 ^ 64" using st(3) env(5,6) by linarith
      note fin = RecoverLogFile_end [OF env(1) trans [OF run Some] st(1,2) this env(2,3), where h = h and t = t and
        log_number = log_number and last_log = last_log]
      have "?next (rc_files st) + 1 \<le> hi" using st(3) env(5) by linarith
      then show ?thesis using fin table_mono [OF st(4)] by (auto simp: st(5) split: option.splits)
    next
      case False
      then have "table_fails ?te h lo (lo + length bs)" using loop Some h env(4) by simp
      then have "table_fails ?te h lo hi" by (rule table_mono(1) [rotated 2]) (use env(5) in auto)
      then show ?thesis using False Some run env(1)
        by (auto simp: RecoverLogFile_def status_ok_def reuse_log_def Let_def split: option.split)
    qed
  qed
qed

lemma case_option_mono:
  "(case x of None \<Rightarrow> a | Some y \<Rightarrow> p y) \<Longrightarrow> (\<And>y. p y \<Longrightarrow> q y) \<Longrightarrow> (case x of None \<Rightarrow> a | Some y \<Rightarrow> q y)"
  by (cases x) auto

lemma if_mono: "(if c then a else b) \<Longrightarrow> (a \<Longrightarrow> a') \<Longrightarrow> (if c then a' else b)"
  by simp

lemma recovered_answers:
  assumes "recovered_db edit (op_versions seq (concat bs)) r \<and> rd_max_sequence r = (if bs = [] then m0 else m)"
    and l: "unat seq + length (concat bs) \<le> 2 ^ 56"
  shows "(bs \<noteq> [] \<longrightarrow> rd_max_sequence r = m) \<and>
    (\<forall>u snap value s. length u + 8 < 2 ^ 32 \<longrightarrow> snap \<le> kMaxSequenceNumber \<longrightarrow>
      recovered_Get Slice_compare edit r (LookupKey u snap) value s =
        Some (op_result (last_op (concat bs) (unat snap + 1 - unat seq) u) value s))"
  using assms(1) recovered_Get_newest [of edit "op_versions seq (concat bs)" r] newest_last_op [OF l] by simp

text \<open>
  C3: acknowledged writes survive a crash.  Batches with consecutive sequence numbers are logged through
  \<open>PosixWritableFile\<close>, whose system calls may be short, interrupted or fail; the first are acknowledged, the last of
  the others may fail.  If the file then holds any prefix of what was written that reaches to the acknowledged
  ones, and it can be read, \<open>RecoverLogFile\<close> replays it with any size of the write buffer, so that memtables are
  written as tables on the way or not, and with the log reused at the end or not.  Its status is good unless the
  table of a part of the history, with a number it has taken, could not be written.  Then \<open>max_sequence\<close> is the
  last sequence number, and the memtable that is kept and the new tables, searched from the newest to the oldest, answer
  for every key and snapshot as after all of the acknowledged batches and some of the others, whole and in order.
  The result is \<open>None\<close>, a failed assertion, only where a table builder says that it succeeded and has an empty file.
\<close>

theorem recovery_is_durable:
  assumes "pw_accepted f = []"
    and "AddRecords PosixWritableFile_Append PosixWritableFile_Flush rs (log_Writer a f) = (w, Status_OK)"
    and "AddRecords PosixWritableFile_Append PosixWritableFile_Flush rs' w = (w', s)"
    and "prefix (pw_written (lw_dest w)) (ps_ahead g)" "prefix (ps_ahead g) (pw_written (lw_dest w'))" "ps_calm g"
    and "map snd rs @ map snd rs' = batches_of seq (bs @ bs')" "length rs = length bs"
    and "\<forall>op \<in> set (concat (bs @ bs')). op_fits op" "\<forall>ops \<in> set (bs @ bs'). length ops < 2 ^ 31"
      "0 < seq" "unat seq + length (concat (bs @ bs')) \<le> 2 ^ 56"
    and "re_NewSequentialFile env = (Status_OK, g)" "db_mem db = None" "db_log db = None"
      "unat (tf_next_file_number (db_files db)) + length (bs @ bs') + 1 < 2 ^ 64"
  shows "\<exists>n. let ops = concat (bs @ take n bs'); h = op_versions seq ops;
        lo = unat (tf_next_file_number (db_files db)); hi = lo + length (bs @ bs') + 1
      in case RecoverLogFile PosixSequentialFile_Read PosixSequentialFile_Skip opts env Slice_compare b t log_number last_log
          save edit m0 db of
        None \<Rightarrow> table_vanishes (re_tables env) h lo hi
      | Some r \<Rightarrow>
          if status_ok (rd_status r) then
            (bs @ take n bs' \<noteq> [] \<longrightarrow> rd_max_sequence r = max m0 (seq + of_nat (length ops) - 1)) \<and>
            (\<forall>u snap value s. length u + 8 < 2 ^ 32 \<longrightarrow> snap \<le> kMaxSequenceNumber \<longrightarrow>
              recovered_Get Slice_compare edit r (LookupKey u snap) value s =
                Some (op_result (last_op ops (unat snap + 1 - unat seq) u) value s))
          else table_fails (re_tables env) h lo hi"
proof -
  obtain r n where reads: "reads_records PosixSequentialFile_Read PosixSequentialFile_Skip (log_Reader g True True 0 b) []
      (map snd rs @ take n (map snd rs')) r" using log_recovery [OF assms(1-6)] by blast
  have len: "length (batches_of q x) = length x" for q x by (induction x arbitrary: q) simp_all
  have "map snd rs @ take n (map snd rs') = take (length rs + n) (batches_of seq (bs @ bs'))"
    by (simp flip: assms(7))
  also have "\<dots> = batches_of seq (bs @ take n bs')" using assms(8) by (simp add: take_batches_of)
  finally have ds: "map snd rs @ take n (map snd rs') = batches_of seq (bs @ take n bs')" .
  let ?bs = "bs @ take n bs'"
  have sub: "set ?bs \<subseteq> set (bs @ bs')" using set_take_subset [of n bs'] by auto
  have "length (concat (bs @ bs')) = length (concat ?bs) + length (concat (drop n bs'))"
    by (metis append.assoc append_take_drop_id concat_append length_append)
  then have l: "unat seq + length (concat ?bs) \<le> 2 ^ 56" using assms(12) by linarith
  have fits: "\<forall>op \<in> set (concat ?bs). op_fits op" "\<forall>ops \<in> set ?bs. length ops < 2 ^ 31"
    using assms(9,10) sub by (fastforce dest: in_set_takeD)+
  have hi: "unat (tf_next_file_number (db_files db)) + length ?bs < unat (tf_next_file_number (db_files db)) + length (bs @ bs') + 1"
    by simp
  note run = RecoverLogFile_batches [OF reads [unfolded ds] fits assms(11) l assms(13-15) refl hi assms(16) refl, where opts = opts
    and t = t and log_number = log_number and last_log = last_log and save = save and edit = edit and ?m0.0 = m0]
  show ?thesis unfolding Let_def
    by (rule exI [of _ n], rule case_option_mono [OF run]) 
      (erule if_mono, rule recovered_answers [OF _ l])
qed

text \<open>
  A crash that keeps the first batch, a put, and nothing of the second, a deletion; the write buffer is so small that
  every batch makes the memtable too large.
\<close>

lemma memory_of_new_memtable: "ApproximateMemoryUsage MemTable = Some 4104"
  by code_simp

lemma recovery_is_durable_witness:
  "\<exists>w r. AddRecords PosixWritableFile_Append PosixWritableFile_Flush [(0, batch_of 1 [Batch_put [1] [10]])]
      (log_Writer 0 \<lparr>pw_buf = [], pw_fd = \<lparr>kf_bytes = [], kf_events = [Io_short 2, Io_interrupted], kf_strerror = \<lambda>_. []\<rparr>,
         pw_filename = ''000003.log''\<rparr>) = (w, Status_OK) \<and>
    RecoverLogFile PosixSequentialFile_Read PosixSequentialFile_Skip
      \<lparr>op_paranoid_checks = True, op_write_buffer_size = 4096, op_reuse_logs = True\<rparr>
      \<lparr>re_NewSequentialFile = (Status_OK, \<lparr>ps_fd = \<lparr>kf_bytes = pw_written (lw_dest w), kf_events = [], kf_strerror = \<lambda>_. []\<rparr>,
          ps_filename = ''000003.log''\<rparr>), re_GetFileSize = (Status_OK, 0), re_NewAppendableFile = (Status_OK, ()),
        re_tables = \<lparr>te_NewWritableFile = \<lambda>_. Status_OK, te_Finish = \<lambda>_ _. (Status_OK, 100), te_Sync = \<lambda>_. Status_OK,
          te_Close = \<lambda>_. Status_OK, te_NewIterator = \<lambda>_ _. Status_OK\<rparr>\<rparr>
      Slice_compare 0 0 3 True False empty_edit 0
      \<lparr>db_mem = None, db_log = None, db_logfile_number = 0, db_files = \<lparr>tf_next_file_number = 4, tf_tables = \<lambda>_. None\<rparr>\<rparr> = Some r \<and>
    rd_status r = Status_OK \<and>
    recovered_Get Slice_compare empty_edit r (LookupKey [1] 1) [] Status_OK = Some (True, [10], Status_OK)"
proof -
  let ?f = "\<lparr>pw_buf = [], pw_fd = \<lparr>kf_bytes = [], kf_events = [Io_short 2, Io_interrupted], kf_strerror = \<lambda>_. []\<rparr>,
         pw_filename = ''000003.log''\<rparr>"
  let ?rs = "[(0 :: addr, batch_of 1 [Batch_put [1] [10]])]" and ?rs' = "[(0 :: addr, batch_of 2 [Batch_delete [1]])]"
  note ok = AddRecords_ok [of pw_calm PosixWritableFile_Append PosixWritableFile_Flush,
      OF Append_ok FlushBuffer_ok [folded PosixWritableFile_Flush_def]]
  have "pw_calm (lw_dest (log_Writer 0 ?f))" by (simp add: log_Writer_def pw_calm_def)
  then obtain w where w: "AddRecords PosixWritableFile_Append PosixWritableFile_Flush ?rs (log_Writer 0 ?f) = (w, Status_OK)"
    "pw_calm (lw_dest w)" using ok by blast
  then obtain w' where w': "AddRecords PosixWritableFile_Append PosixWritableFile_Flush ?rs' w = (w', Status_OK)"
    using ok by blast
  have at: "lf.synced (lw_dest (log_Writer 0 ?f))" "writer_at 0 (log_Writer 0 ?f)"
    by (auto simp: lf.synced_def log_Writer_def pw_accepted_def pw_written_def writer_at_def)
  have grow: "prefix (pw_written (lw_dest w)) (pw_written (lw_dest w'))"
    using lf.AddRecords_writes [OF at w(1)] lf.AddRecords_writes [OF at trans [OF AddRecords_append [OF w(1)] w']]
    by (auto simp: lf.synced_def log_Writer_def pw_accepted_def log_bytes_append)
  have b: "map snd ?rs @ map snd ?rs' = batches_of 1 ([[Batch_put [1] [10]]] @ [[Batch_delete [1]]])" by simp
  let ?te = "\<lparr>te_NewWritableFile = \<lambda>_. Status_OK, te_Finish = \<lambda>_ _. (Status_OK, 100), te_Sync = \<lambda>_. Status_OK,
          te_Close = \<lambda>_. Status_OK, te_NewIterator = \<lambda>_ _. Status_OK\<rparr>"
  have te: "\<not> table_vanishes ?te h lo hi" "\<not> table_fails ?te h lo hi" for h lo hi
    by (simp_all add: table_vanishes_def table_fails_def table_written_def status_ok_def)
  have get: "op_result (last_op (concat ([[Batch_put [1] [10]]] @ take n [[Batch_delete [1]]])) (unat (1 :: u64) + 1 - unat (1 :: u64)) [1]) [] Status_OK =
      (True, [10], Status_OK)" for n
    by (simp add: last_op_def)
  show ?thesis
    using recovery_is_durable [of ?f, OF _ w(1) w' _ _ _ b, where g =
        "\<lparr>ps_fd = \<lparr>kf_bytes = pw_written (lw_dest w), kf_events = [], kf_strerror = \<lambda>_. []\<rparr>, ps_filename = ''000003.log''\<rparr>"
        and env = "\<lparr>re_NewSequentialFile = (Status_OK, \<lparr>ps_fd = \<lparr>kf_bytes = pw_written (lw_dest w), kf_events = [], kf_strerror = \<lambda>_. []\<rparr>,
          ps_filename = ''000003.log''\<rparr>), re_GetFileSize = (Status_OK, 0), re_NewAppendableFile = (Status_OK, ()), re_tables = ?te\<rparr>"
        and db = "\<lparr>db_mem = None, db_log = None, db_logfile_number = 0, db_files = \<lparr>tf_next_file_number = 4, tf_tables = \<lambda>_. None\<rparr>\<rparr>"
        and opts = "\<lparr>op_paranoid_checks = True, op_write_buffer_size = 4096, op_reuse_logs = True\<rparr>" and b = 0 and t = 0
        and log_number = 3 and last_log = True and save = False and edit = empty_edit and ?m0.0 = 0] w(1) grow
    by (auto simp: pw_accepted_def ps_ahead_def ps_calm_def Let_def te kMaxSequenceNumber_def get [simplified]
        split: option.splits if_splits simp: status_ok_def)
qed

end
