(* ===== verification/Spec2Isabelle.thy ===== *)
theory Spec2Isabelle
  imports Win_Facts Pb_Safety Pb_Encode_Facts Uv_Timer_Runs Uv_Inet6_Facts Uv_Idna_Facts
    Bs_Base64_Facts Bs_Cbb_Facts Bs_Cbb_Text Lv_Recovery Lv_Version_Edit
begin

text \<open>
  \<^bold>\<open>A verification development for tekk_gram.\<close>

  The repository is a Flutter application.  Its screens are Dart over Firebase; the C and C++ code
  is the native runner of each desktop platform and the libraries that the iOS build vendors under
  \<open>src/ios/Pods\<close>.  This development models the runner of Windows, which is the repository's own
  code, and the parts of the vendored libraries with the logic that everything else relies on: the
  protocol-buffer codec nanopb, which Firestore uses for everything it stores and sends; the timers,
  their heap and the name and address parsers of libuv, which gRPC uses as its event loop; the
  base64 and DER code of BoringSSL, through which gRPC reads its certificates; and the log, the keys
  and the records of leveldb, in which Firestore keeps its cache.

  \<^bold>\<open>Prelude.\<close>  Machine words (\<open>byte\<close>, \<open>u16\<close>, \<open>u32\<close>, \<open>u64\<close>), a flat byte memory indexed by 64-bit
  addresses, regions of it, loads and stores in little-endian order, and the lemmas on them.

  \<^bold>\<open>nanopb\<close> (\<open>src/ios/Pods/nanopb\<close>).
  \<^item> \<open>Pb_Common\<close>: \<open>pb.h\<close> and \<open>pb_common.c\<close>.  A field descriptor is a record, a message type a list of
    descriptors, the iterator a record of positions; submessage descriptors and extensions are
    reached through maps of the environment.
  \<^item> \<open>Pb_Stream\<close>: the streams of \<open>pb_decode.h\<close> and \<open>pb_encode.h\<close>, on a memory buffer or on a callback
    of the environment, with the error message as a field.  A C function that may call back is a
    function on the pair of its stream and the memory, with result \<open>None\<close> where a callback or a
    loop does not return.
  \<^item> \<open>Pb_Istream\<close>, \<open>Pb_Ostream\<close>, \<open>Pb_Wire\<close>: varints, zigzag, fixed-width values, tags, strings,
    substreams and the skipping of fields; base-128 numbers as the reference.
  \<^item> \<open>Pb_Heap\<close>, \<open>Pb_Release\<close>: default values, allocation (a parameter) and \<open>pb_release\<close>.
  \<^item> \<open>Pb_Decode\<close>: the field decoders, the storage classes static, pointer and callback, extensions,
    \<open>pb_decode\<close> and its variants.  The recursion through submessages is bounded by the depth of the
    message types (\<open>frames\<close>), which is enough because the types of a program are not recursive.
  \<^item> \<open>Pb_Encode\<close>: the encoders, arrays, the default check of proto3, extensions, \<open>pb_encode\<close> and its
    variants.
  \<^item> \<open>Pb_Encode_Spec\<close>, \<open>Pb_Encode_Fields\<close>, \<open>Pb_Encode_Facts\<close>: what a message of static fields is to be
    written as, as a function of the struct; \<open>pb_encode\<close> refines it on the sizing stream and on
    every buffer.
  \<^item> \<open>Pb_Codec\<close> holds the round trips of the wire format and the bounds of the output stream;
    \<open>Pb_Static\<close>, \<open>Pb_Reads\<close> and \<open>Pb_Safety\<close> show that decoding a message whose types are static
    returns and writes inside the message only.

  \<^bold>\<open>libuv\<close> (\<open>src/ios/Pods/Libuv-gRPC\<close>).
  \<^item> \<open>Uv_Heap\<close>: the pointer heap of \<open>heap-inl.h\<close>.  \<open>Uv_Heap_List\<close> is the same heap in a list,
    \<open>Uv_Heap_Refine\<close> relates the two node by node, and \<open>Uv_Queue\<close> states the interface of a priority
    queue as a locale, with the pointer heap as its interpretation.
  \<^item> \<open>Uv_Timer\<close>: \<open>timer.c\<close> on top of the heap.  \<open>Uv_Timer_Facts\<close> interprets the order of the queue by
    the order of timers and shows the invariant of the loop and that the due timers are run in order.
    \<open>Uv_Timer_Runs\<close> has callbacks that call the timer functions in turn: \<open>uv__run_timers\<close> returns unless
    it is made due again and again, and a callback that does so keeps it for ever.
  \<^item> \<open>Uv_Inet\<close>: \<open>inet.c\<close> and \<open>strscpy.c\<close>; \<open>Uv_Inet4_Facts\<close> and \<open>Uv_Inet6_Facts\<close> show that printing and
    parsing of addresses are inverse.
  \<^item> \<open>Uv_Idna\<close>: \<open>idna.c\<close>.  \<open>Uv_Utf8_Facts\<close> compares its decoder with the encoding of RFC 3629;
    \<open>Uv_Idna_Facts\<close> shows that the conversion of a name returns and stays in its buffer.

  \<^bold>\<open>BoringSSL\<close> (\<open>src/ios/Pods/BoringSSL-GRPC/src\<close>).
  \<^item> \<open>Bs_Constant_Time\<close>, \<open>Bs_Base64\<close>: the constant-time selections of \<open>crypto/internal.h\<close> and
    \<open>crypto/base64/base64.c\<close> on top of them.  \<open>Bs_Base64_Facts\<close> shows that the streaming encoder does
    not depend on how its input is cut up and that the decoders invert the encoders.
  \<^item> \<open>Bs_Cbs\<close>: \<open>crypto/bytestring/cbs.c\<close>.  A \<open>CBS\<close> is a slice of the memory; a parser returns what it
    writes to its output and the byte string it leaves.  \<open>Bs_Der\<close> has DER as functions from numbers
    to bytes; \<open>Bs_Der_Facts\<close> shows that the parsers accept exactly these bytes and are confined to
    their input.
  \<^item> \<open>Bs_Cbb\<close>: \<open>crypto/bytestring/cbb.c\<close>.  The \<open>CBB\<close> objects of one tree are a map from their addresses,
    the buffer they share is a list of bytes; going through a null or freed pointer, writing outside
    the buffer and a failed assertion are the result \<open>None\<close>.  \<open>Bs_Cbb_Text\<close> has what is built on both:
    object identifiers as text, and the order of a \<open>SET OF\<close>.
  \<^item> \<open>Bs_Cbb_Buffer\<close>, \<open>Bs_Cbb_Flush\<close>, \<open>Bs_Cbb_Facts\<close>: no call on a well-formed tree is \<open>None\<close>; the builder
    refines a stack of open prefixes, and the integers of DER are read back as they were written.

  \<^bold>\<open>leveldb\<close> (\<open>src/ios/Pods/leveldb-library\<close>).
  \<^item> \<open>Lv_Coding\<close>: \<open>util/coding.cc\<close>, integers and slices as bytes.  \<open>Lv_Crc32c\<close>: the checksum of
    \<open>util/crc32c.cc\<close> with its five tables, which equals the bitwise Castagnoli polynomial division.
  \<^item> \<open>Lv_File\<close>: status values and the writable and sequential files of \<open>util/env_posix.cc\<close>, over a
    kernel that may write less than asked, be interrupted or fail; the interfaces of both files are
    locales, which these files interpret.
  \<^item> \<open>Lv_Log\<close>: \<open>db/log_writer.cc\<close> and \<open>db/log_reader.cc\<close>.  \<open>Lv_Log_Writes\<close> has the bytes a writer leaves in
    its file, \<open>Lv_Log_Reads\<close> what a reader makes of any prefix of them, and \<open>Lv_Log_Facts\<close> composes the
    two over the files: acknowledged records are recovered after a crash at any byte.
  \<^item> \<open>Lv_Dbformat\<close>: the comparators as a locale with both comparators of the code as interpretations,
    internal keys and lookup keys.  \<open>Lv_Write_Batch\<close>, \<open>Lv_Version_Edit\<close>: the two records that the logs
    hold, with their round trips.
  \<^item> \<open>Lv_Skiplist\<close>: \<open>db/skiplist.h\<close> and \<open>util/random.h\<close>, nodes with an array of links each.
    \<open>Lv_Skiplist_Facts\<close> shows that it is a sorted list for insertion, search and iteration, for every
    comparator that keeps the locale \<open>key_order\<close>.  \<open>Lv_Memtable\<close>: \<open>db/memtable.cc\<close> on top of it;
    \<open>Lv_Memtable_Facts\<close> follows batches from their bytes to the answers of \<open>Get\<close> for every snapshot.
  \<^item> \<open>Lv_Arena\<close>: \<open>util/arena.cc\<close>, the allocator of a memtable; pieces it hands out are aligned and apart.
    \<open>Lv_Builder\<close>: the memory usage of a memtable, \<open>BuildTable\<close> of \<open>db/builder.cc\<close> and
    \<open>DBImpl::WriteLevel0Table\<close>; \<open>Lv_Builder_Facts\<close> shows that the table of a memtable gets its entries in order
    and is searched with the same result.
  \<^item> \<open>Lv_Recovery\<close>: \<open>DBImpl::RecoverLogFile\<close>, which composes all of them: batches that were logged and
    acknowledged are in the memtable or in the new tables after a crash.  \<open>recovered_versions\<close> is the
    invariant of its loop: the tables written so far, in their order, and the memtable hold the history.

  \<^bold>\<open>Windows runner\<close> (\<open>src/windows/runner\<close>).
  \<^item> \<open>Win_Calls\<close>: the calls the runner makes to Win32, the C library and the Flutter engine, its
    globals and the fields of its one window object, and programs as trees of calls.
  \<^item> \<open>Win_Runner\<close>: every function of \<open>win32_window.cpp\<close>, \<open>flutter_window.cpp\<close>, \<open>utils.cpp\<close> and \<open>main.cpp\<close>,
    each with what follows it as its last argument.
  \<^item> \<open>Win_Machine\<close>: the system calls back into the window procedure while a call is suspended, in any
    order and depth.  A step relation on stacks of suspended programs, and a proof system for it.
  \<^item> \<open>Win_Callbacks\<close>, \<open>Win_Soundness\<close>, \<open>Win_Main\<close>: the handlers keep the invariant, the proof system is
    sound, the program satisfies it, and the window object outlives the windows that point at it.
    \<open>Win_Facts\<close> has the properties of all reachable configurations and of single functions; they
    hold whatever messages arrive during whatever calls.

  \<^bold>\<open>Loops.\<close>  A loop that ends by its own counter is a structural or measured recursion; a loop that
  could run forever is a partial function into an option, and that it returns is a theorem
  (\<open>pb_decode_safe\<close>, \<open>uv__run_timers_returns\<close>, which says when that loop does not return,
  \<open>uv__idna_toascii_returns\<close>,
  \<open>cbb_refines_stack\<close>, \<open>log_recovers\<close>, \<open>skip_list_sorts\<close>).  No fuel is used but the
  nesting depth of message types in nanopb.

  \<^bold>\<open>Parameters.\<close>  Code that is not in the repository is an argument: the callbacks of streams, fields
  and timers, the allocator, extension types, what Win32 and the engine answer and when they send
  messages.  What a theorem needs of them is a hypothesis of it.

  \<^bold>\<open>Not modelled.\<close>  The Dart application; the runners of Linux and macOS, which only call GTK and
  AppKit; system calls, threads and sockets of libuv; the ciphers, certificates and the TLS state
  machine of BoringSSL; the table files, the compaction thread, version sets and caches of leveldb, and
  the threads, locks and mapped files of its environment; and the other vendored libraries (gRPC, abseil,
  libwebp, the Objective-C SDKs).  In the modelled parts: readers that run beside the writer of a skip
  list and the memory order of its links; the reference count of a memtable; in recovery
  the format of a table, since \<open>TableBuilder\<close> and the table cache are arguments that may answer anything, and
  a table stands for the entries its builder was given; floating point of the Windows scale factor, which is an argument, and the text of error messages beyond the string
  that the stream records.
\<close>

end
